(* ===== verification/Kbase.thy ===== *)
theory Kbase
  imports Main "HOL-Library.Word" "HOL-Library.Code_Target_Numeral"
begin

unbundle bit_operations_syntax

text \<open>
  Shared vocabulary of the development: 64-bit and 32-bit unsigned arithmetic of the kernel's
  C code written out on natural numbers, the page-rounding macros of \<^verbatim>\<open>riscv.h\<close> and
  \<^verbatim>\<open>loongarch.h\<close>, the contract of a bitmap (a locale, instantiated by the allocator's
  bitmap of 64-bit words), and the generic lemmas the component theories use.

  An address or a size of type \<^verbatim>\<open>uint64\<close> is a \<^typ>\<open>nat\<close>; every C operation that can wrap
  is one of \<open>add64\<close>, \<open>sub64\<close>, \<open>shl64\<close> (or the 32-bit versions), so that nothing is silently
  computed in unbounded arithmetic. \<^verbatim>\<open>NULL\<close> is the address 0.
\<close>

named_theorems kernel_arith \<open>wrap-around arithmetic in range\<close>
named_theorems kernel_split \<open>case distinctions of the models\<close>

section \<open>Unsigned machine arithmetic\<close>

type_synonym addr = nat
type_synonym byte = "8 word"

definition add64 :: "nat \<Rightarrow> nat \<Rightarrow> nat" where
  "add64 a b = (a + b) mod 2 ^ 64"

definition sub64 :: "nat \<Rightarrow> nat \<Rightarrow> nat" where
  "sub64 a b = (a + (2 ^ 64 - b mod 2 ^ 64)) mod 2 ^ 64"

definition shl64 :: "nat \<Rightarrow> nat \<Rightarrow> nat" where
  "shl64 a n = (a * 2 ^ n) mod 2 ^ 64"

definition add32 :: "nat \<Rightarrow> nat \<Rightarrow> nat" where
  "add32 a b = (a + b) mod 2 ^ 32"

definition sub32 :: "nat \<Rightarrow> nat \<Rightarrow> nat" where
  "sub32 a b = (a + (2 ^ 32 - b mod 2 ^ 32)) mod 2 ^ 32"

lemma add64_in_range [kernel_arith]: "a + b < 2 ^ 64 \<Longrightarrow> add64 a b = a + b"
  by (simp add: add64_def)

lemma add64_less: "add64 a b < 2 ^ 64"
  by (simp add: add64_def)

lemma sub64_less: "sub64 a b < 2 ^ 64"
  by (simp add: sub64_def)

lemma sub64_in_range [kernel_arith]: "b \<le> a \<Longrightarrow> a < 2 ^ 64 \<Longrightarrow> sub64 a b = a - b"
proof -
  assume "b \<le> a" "a < 2 ^ 64"
  then have "a + (2 ^ 64 - b mod 2 ^ 64) = (a - b) + 2 ^ 64" by simp
  with \<open>a < 2 ^ 64\<close> show ?thesis unfolding sub64_def by simp
qed

lemma sub64_borrow [kernel_arith]: "a < b \<Longrightarrow> b < 2 ^ 64 \<Longrightarrow> sub64 a b = a + 2 ^ 64 - b"
  by (simp add: sub64_def)

lemma shl64_in_range [kernel_arith]: "a * 2 ^ n < 2 ^ 64 \<Longrightarrow> shl64 a n = a * 2 ^ n"
  by (simp add: shl64_def)

lemma add32_in_range [kernel_arith]: "a + b < 2 ^ 32 \<Longrightarrow> add32 a b = a + b"
  by (simp add: add32_def)

lemma sub32_in_range [kernel_arith]: "b \<le> a \<Longrightarrow> a < 2 ^ 32 \<Longrightarrow> sub32 a b = a - b"
proof -
  assume "b \<le> a" "a < 2 ^ 32"
  then have "a + (2 ^ 32 - b mod 2 ^ 32) = (a - b) + 2 ^ 32" by simp
  with \<open>a < 2 ^ 32\<close> show ?thesis unfolding sub32_def by simp
qed

text \<open>The conversion of an unsigned value to \<^verbatim>\<open>int\<close>.\<close>

definition int32 :: "nat \<Rightarrow> int" where
  "int32 n = sint (word_of_nat n :: 32 word)"

lemma int32_in_range [kernel_arith]: "n < 2 ^ 31 \<Longrightarrow> int32 n = int n"
proof -
  assume n: "n < 2 ^ 31"
  have "int32 n = signed_take_bit 31 (int n)" by (simp add: int32_def signed_of_nat)
  also have "\<dots> = int n" using n by (intro signed_take_bit_int_eq_self) simp_all
  finally show ?thesis .
qed

section \<open>Pages\<close>

abbreviation PGSIZE :: nat where
  "PGSIZE \<equiv> 4096"

definition ALIGN_UP :: "nat \<Rightarrow> nat \<Rightarrow> nat" where
  "ALIGN_UP num align =
     unat ((word_of_nat num + (word_of_nat align - 1)) AND NOT (word_of_nat align - 1) :: 64 word)"

definition PGROUNDUP :: "nat \<Rightarrow> nat" where
  "PGROUNDUP sz = unat ((word_of_nat sz + 4096 - 1) AND NOT (4096 - 1) :: 64 word)"

definition PGROUNDDOWN :: "nat \<Rightarrow> nat" where
  "PGROUNDDOWN a = unat (word_of_nat a AND NOT (4096 - 1) :: 64 word)"

lemma and_not_mask_push_drop: "(w :: 'a::len word) AND NOT (mask n) = push_bit n (drop_bit n w)"
  by (rule bit_eqI) (auto simp: bit_simps)

lemma unat_and_not_mask: "unat ((w :: 'a::len word) AND NOT (mask n)) = unat w div 2 ^ n * 2 ^ n"
proof -
  have le: "unat w div 2 ^ n * 2 ^ n \<le> unat w"
    by (simp add: mult.commute)
  have "unat (push_bit n (drop_bit n w)) =
      take_bit LENGTH('a) (push_bit n (drop_bit n (take_bit LENGTH('a) (unat w))))"
    by (simp only: unsigned_push_bit_eq unsigned_drop_bit_eq)
  also have "\<dots> = unat w div 2 ^ n * 2 ^ n"
    using order.strict_trans1 [OF le unsigned_less [of w]]
    by (simp only: push_bit_eq_mult drop_bit_eq_div take_bit_eq_mod) simp
  finally show ?thesis
    by (simp only: and_not_mask_push_drop)
qed

lemma unat_of_nat64: "unat (word_of_nat a :: 64 word) = a mod 2 ^ 64"
  by (simp add: unsigned_of_nat take_bit_eq_mod)

lemma PGROUNDDOWN_eq: "a < 2 ^ 64 \<Longrightarrow> PGROUNDDOWN a = a div 4096 * 4096"
proof -
  assume a: "a < 2 ^ 64"
  have "(4096 - 1 :: 64 word) = mask 12" by (simp add: mask_eq_exp_minus_1)
  then have "PGROUNDDOWN a = unat ((word_of_nat a :: 64 word) AND NOT (mask 12))"
    by (simp add: PGROUNDDOWN_def)
  also have "\<dots> = a mod 2 ^ 64 div 2 ^ 12 * 2 ^ 12"
    by (simp only: unat_and_not_mask unat_of_nat64)
  finally show ?thesis using a by simp
qed

lemma ALIGN_UP_pow2:
  assumes n: "num + 2 ^ k \<le> 2 ^ 64" and k: "k < 64"
  shows "ALIGN_UP num (2 ^ k) = (num + (2 ^ k - 1)) div 2 ^ k * 2 ^ k"
proof -
  have m: "(word_of_nat (2 ^ k) - 1 :: 64 word) = mask k"
    by (simp add: mask_eq_exp_minus_1)
  have "num + (2 ^ k - 1) < 2 ^ 64" using n by simp
  moreover have "(word_of_nat (2 ^ k - 1) :: 64 word) = mask k"
    by (simp add: mask_eq_exp_minus_1 of_nat_diff)
  then have "(word_of_nat num + mask k :: 64 word) = word_of_nat (num + (2 ^ k - 1))"
    by (simp only: of_nat_add)
  ultimately have u: "unat (word_of_nat num + mask k :: 64 word) = num + (2 ^ k - 1)"
    by (simp add: unat_of_nat64)
  show ?thesis
    unfolding ALIGN_UP_def m unat_and_not_mask u ..
qed

lemma PGROUNDUP_ALIGN_UP: "PGROUNDUP sz = ALIGN_UP sz 4096"
  by (simp add: PGROUNDUP_def ALIGN_UP_def add.commute)

lemma PGROUNDUP_eq: "sz + 4096 \<le> 2 ^ 64 \<Longrightarrow> PGROUNDUP sz = (sz + 4095) div 4096 * 4096"
  using ALIGN_UP_pow2 [of sz 12] by (simp add: PGROUNDUP_ALIGN_UP)

lemma round_up_bounds:
  fixes a :: nat
  assumes "0 < b"
  shows "a \<le> (a + (b - 1)) div b * b" and "(a + (b - 1)) div b * b < a + b"
proof -
  have "(a + (b - 1)) div b * b + (a + (b - 1)) mod b = a + (b - 1)"
    by simp
  moreover have "(a + (b - 1)) mod b < b" using assms by simp
  ultimately show "a \<le> (a + (b - 1)) div b * b" and "(a + (b - 1)) div b * b < a + b"
    using assms by linarith+
qed

section \<open>Bitmaps\<close>

text \<open>
  What the clients of a bitmap rely on: setting or clearing a bit changes that bit and no other.
  The lemmas of the locale are about the loops over a range of bits that the allocator runs.
\<close>

locale bitmap_ops =
  fixes test :: "'b \<Rightarrow> nat \<Rightarrow> bool"
    and setb :: "'b \<Rightarrow> nat \<Rightarrow> 'b"
    and clrb :: "'b \<Rightarrow> nat \<Rightarrow> 'b"
  assumes test_setb: "test (setb b i) j \<longleftrightarrow> j = i \<or> test b j"
    and test_clrb: "test (clrb b i) j \<longleftrightarrow> j \<noteq> i \<and> test b j"
begin

lemma test_fold_setb: "test (fold (\<lambda>i b. setb b i) is b) j \<longleftrightarrow> j \<in> set is \<or> test b j"
  by (induction "is" arbitrary: b) (auto simp: test_setb)

lemma test_fold_clrb: "test (fold (\<lambda>i b. clrb b i) is b) j \<longleftrightarrow> j \<notin> set is \<and> test b j"
  by (induction "is" arbitrary: b) (auto simp: test_clrb)

lemma test_set_range: "test (fold (\<lambda>i b. setb b i) [m..<n] b) j \<longleftrightarrow> m \<le> j \<and> j < n \<or> test b j"
  by (auto simp: test_fold_setb)

lemma test_clear_range: "test (fold (\<lambda>i b. clrb b i) [m..<n] b) j \<longleftrightarrow> \<not> (m \<le> j \<and> j < n) \<and> test b j"
  by (auto simp: test_fold_clrb)

text \<open>Setting a range that was clear and clearing it again gives the bits back.\<close>

lemma set_clear_range:
  assumes "\<And>j. m \<le> j \<Longrightarrow> j < n \<Longrightarrow> \<not> test b j"
  shows "test (fold (\<lambda>i b. clrb b i) [m..<n] (fold (\<lambda>i b. setb b i) [m..<n] b)) j = test b j"
  using assms by (auto simp: test_clear_range test_set_range)

end

section \<open>Lists\<close>

text \<open>The loops that look for the first matching entry of a static table.\<close>

fun find_index :: "('a \<Rightarrow> bool) \<Rightarrow> 'a list \<Rightarrow> nat option" where
  "find_index P [] = None"
| "find_index P (x # xs) = (if P x then Some 0 else map_option Suc (find_index P xs))"

lemma find_index_Some:
  "find_index P xs = Some i \<Longrightarrow> i < length xs \<and> P (xs ! i) \<and> (\<forall>j < i. \<not> P (xs ! j))"
proof (induction xs arbitrary: i)
  case (Cons x xs)
  show ?case
  proof (cases "P x")
    case False
    then obtain k where k: "find_index P xs = Some k" "i = Suc k" using Cons.prems by auto
    then show ?thesis using Cons.IH [OF k(1)] False by (auto simp: less_Suc_eq_0_disj)
  qed (use Cons.prems in auto)
qed simp

lemma find_index_None: "find_index P xs = None \<longleftrightarrow> (\<forall>x \<in> set xs. \<not> P x)"
  by (induction xs) auto

lemma in_set_tlD: "x \<in> set (tl xs) \<Longrightarrow> x \<in> set xs"
  by (cases xs) auto

lemma fold_upd_const:
  "fold (\<lambda>i f. f(i := v)) is f = (\<lambda>j. if j \<in> set is then v else f j)"
  by (induction "is" arbitrary: f) auto

end
