(* ===== verification/Klist.thy ===== *)
theory Klist
  imports Kbase
begin

text \<open>
  The intrusive doubly linked lists of \<^verbatim>\<open>kernel/fs/list.c\<close> (buddy free lists, the thread
  pool and the signal frames are kept in them), modelled on an explicit heap of
  \<^verbatim>\<open>struct list_elem\<close> records. A \<^verbatim>\<open>struct list\<close> at address \<open>l\<close> holds its head element at
  \<open>l\<close> and its tail element at \<open>l + 16\<close>. Every operation returns an option: \<open>None\<close> is a failed
  \<^verbatim>\<open>ASSERT\<close> (the kernel panics) or, for a loop, a traversal that does not come back.

  \<open>dlist h l xs\<close> says that the heap holds, at \<open>l\<close>, a well-formed list whose interior elements
  are \<open>xs\<close>. The lemmas show that every operation implements the operation on sequences its
  documentation promises; the locale \<open>elem_list\<close> is that contract, which the heap operations
  are shown to satisfy, and \<open>lists_repr\<close> lifts it to a family of disjoint lists.
\<close>

section \<open>Elements and operations\<close>

record list_elem =
  le_prev :: addr
  le_next :: addr

type_synonym lheap = "addr \<Rightarrow> list_elem"

definition set_prev :: "lheap \<Rightarrow> addr \<Rightarrow> addr \<Rightarrow> lheap" where
  "set_prev h a p = h(a := (h a)\<lparr>le_prev := p\<rparr>)"

definition set_next :: "lheap \<Rightarrow> addr \<Rightarrow> addr \<Rightarrow> lheap" where
  "set_next h a n = h(a := (h a)\<lparr>le_next := n\<rparr>)"

abbreviation list_tail_of :: "addr \<Rightarrow> addr" where
  "list_tail_of l \<equiv> l + 16"

definition is_head :: "lheap \<Rightarrow> addr \<Rightarrow> bool" where
  "is_head h e \<longleftrightarrow> e \<noteq> 0 \<and> le_prev (h e) = 0 \<and> le_next (h e) \<noteq> 0"

definition is_interior :: "lheap \<Rightarrow> addr \<Rightarrow> bool" where
  "is_interior h e \<longleftrightarrow> e \<noteq> 0 \<and> le_prev (h e) \<noteq> 0 \<and> le_next (h e) \<noteq> 0"

definition is_tail :: "lheap \<Rightarrow> addr \<Rightarrow> bool" where
  "is_tail h e \<longleftrightarrow> e \<noteq> 0 \<and> le_prev (h e) \<noteq> 0 \<and> le_next (h e) = 0"

definition list_init :: "lheap \<Rightarrow> addr \<Rightarrow> lheap option" where
  "list_init h l =
     (if l = 0 then None
      else
        let h1 = set_prev h l 0;
            h2 = set_next h1 l (list_tail_of l);
            h3 = set_prev h2 (list_tail_of l) l
        in Some (set_next h3 (list_tail_of l) 0))"

definition list_begin :: "lheap \<Rightarrow> addr \<Rightarrow> addr option" where
  "list_begin h l = (if l = 0 then None else Some (le_next (h l)))"

definition list_next :: "lheap \<Rightarrow> addr \<Rightarrow> addr option" where
  "list_next h e = (if is_head h e \<or> is_interior h e then Some (le_next (h e)) else None)"

definition list_end :: "addr \<Rightarrow> addr option" where
  "list_end l = (if l = 0 then None else Some (list_tail_of l))"

definition list_rbegin :: "lheap \<Rightarrow> addr \<Rightarrow> addr option" where
  "list_rbegin h l = (if l = 0 then None else Some (le_prev (h (list_tail_of l))))"

definition list_prev :: "lheap \<Rightarrow> addr \<Rightarrow> addr option" where
  "list_prev h e = (if is_interior h e \<or> is_tail h e then Some (le_prev (h e)) else None)"

definition list_rend :: "addr \<Rightarrow> addr option" where
  "list_rend l = (if l = 0 then None else Some l)"

definition list_insert :: "lheap \<Rightarrow> addr \<Rightarrow> addr \<Rightarrow> lheap option" where
  "list_insert h before elem =
     (if \<not> (is_interior h before \<or> is_tail h before) \<or> elem = 0 then None
      else
        let h1 = set_prev h elem (le_prev (h before));
            h2 = set_next h1 elem before;
            h3 = set_next h2 (le_prev (h2 before)) elem
        in Some (set_prev h3 before elem))"

definition list_splice :: "lheap \<Rightarrow> addr \<Rightarrow> addr \<Rightarrow> addr \<Rightarrow> lheap option" where
  "list_splice h before first lst =
     (if \<not> (is_interior h before \<or> is_tail h before) then None
      else if first = lst then Some h
      else (case list_prev h lst of None \<Rightarrow> None
      | Some lst' \<Rightarrow>
          (if \<not> is_interior h first \<or> \<not> is_interior h lst' then None
           else
             (let h1 = set_next h (le_prev (h first)) (le_next (h lst'));
                  h2 = set_prev h1 (le_next (h1 lst')) (le_prev (h1 first));
                  h3 = set_prev h2 first (le_prev (h2 before));
                  h4 = set_next h3 lst' before;
                  h5 = set_next h4 (le_prev (h4 before)) first
              in Some (set_prev h5 before lst')))))"

definition list_push_front :: "lheap \<Rightarrow> addr \<Rightarrow> addr \<Rightarrow> lheap option" where
  "list_push_front h l elem =
     (case list_begin h l of None \<Rightarrow> None | Some b \<Rightarrow> list_insert h b elem)"

definition list_push_back :: "lheap \<Rightarrow> addr \<Rightarrow> addr \<Rightarrow> lheap option" where
  "list_push_back h l elem =
     (case list_end l of None \<Rightarrow> None | Some b \<Rightarrow> list_insert h b elem)"

definition list_remove :: "lheap \<Rightarrow> addr \<Rightarrow> (addr \<times> lheap) option" where
  "list_remove h elem =
     (if \<not> is_interior h elem then None
      else
        let h1 = set_next h (le_prev (h elem)) (le_next (h elem));
            h2 = set_prev h1 (le_next (h1 elem)) (le_prev (h1 elem))
        in Some (le_next (h2 elem), h2))"

definition list_empty :: "lheap \<Rightarrow> addr \<Rightarrow> bool option" where
  "list_empty h l =
     (case list_begin h l of None \<Rightarrow> None
      | Some b \<Rightarrow> (case list_end l of None \<Rightarrow> None | Some e \<Rightarrow> Some (b = e)))"

definition list_front :: "lheap \<Rightarrow> addr \<Rightarrow> addr option" where
  "list_front h l = (if list_empty h l = Some False then Some (le_next (h l)) else None)"

definition list_back :: "lheap \<Rightarrow> addr \<Rightarrow> addr option" where
  "list_back h l = (if list_empty h l = Some False then Some (le_prev (h (list_tail_of l))) else None)"

definition list_pop_front :: "lheap \<Rightarrow> addr \<Rightarrow> (addr \<times> lheap) option" where
  "list_pop_front h l =
     (case list_front h l of None \<Rightarrow> None
      | Some front \<Rightarrow> (case list_remove h front of None \<Rightarrow> None | Some (_, h') \<Rightarrow> Some (front, h')))"

definition list_pop_back :: "lheap \<Rightarrow> addr \<Rightarrow> (addr \<times> lheap) option" where
  "list_pop_back h l =
     (case list_back h l of None \<Rightarrow> None
      | Some back \<Rightarrow> (case list_remove h back of None \<Rightarrow> None | Some (_, h') \<Rightarrow> Some (back, h')))"

partial_function (option) list_size_from :: "lheap \<Rightarrow> addr \<Rightarrow> addr \<Rightarrow> nat \<Rightarrow> nat option" where
  "list_size_from h l e cnt =
     (if e = list_tail_of l then Some cnt
      else Option.bind (list_next h e) (\<lambda>e'. list_size_from h l e' (cnt + 1)))"

definition list_size :: "lheap \<Rightarrow> addr \<Rightarrow> nat option" where
  "list_size h l = Option.bind (list_begin h l) (\<lambda>e. list_size_from h l e 0)"

definition swap_elem :: "lheap \<Rightarrow> addr \<Rightarrow> lheap" where
  "swap_elem h e = h(e := \<lparr>le_prev = le_next (h e), le_next = le_prev (h e)\<rparr>)"

partial_function (option) list_reverse_from :: "lheap \<Rightarrow> addr \<Rightarrow> addr \<Rightarrow> lheap option" where
  "list_reverse_from h l e =
     (if e = list_tail_of l then Some h
      else (let h' = swap_elem h e in list_reverse_from h' l (le_prev (h' e))))"

definition list_reverse :: "lheap \<Rightarrow> addr \<Rightarrow> lheap option" where
  "list_reverse h l =
     (case list_empty h l of None \<Rightarrow> None
      | Some True \<Rightarrow> Some h
      | Some False \<Rightarrow>
          Option.bind (list_reverse_from h l (le_next (h l))) (\<lambda>h1.
            let a = le_next (h1 l);
                b = le_prev (h1 (list_tail_of l));
                h2 = set_prev (set_next h1 l b) (list_tail_of l) a;
                f = le_next (h2 l);
                t = le_prev (h2 (list_tail_of l));
                c = le_prev (h2 f);
                d = le_next (h2 t)
            in Some (set_next (set_prev h2 f d) t c)))"

text \<open>The ordering function \<^verbatim>\<open>less\<close> that callers pass is a parameter \<open>lt\<close> on element addresses.\<close>

partial_function (option) is_sorted_from ::
    "(addr \<Rightarrow> addr \<Rightarrow> bool) \<Rightarrow> lheap \<Rightarrow> addr \<Rightarrow> addr \<Rightarrow> bool option" where
  "is_sorted_from lt h a b =
     Option.bind (list_next h a) (\<lambda>a'.
       if a' = b then Some True
       else Option.bind (list_prev h a') (\<lambda>p.
         if lt a' p then Some False else is_sorted_from lt h a' b))"

definition is_sorted :: "(addr \<Rightarrow> addr \<Rightarrow> bool) \<Rightarrow> lheap \<Rightarrow> addr \<Rightarrow> addr \<Rightarrow> bool option" where
  "is_sorted lt h a b = (if a \<noteq> b then is_sorted_from lt h a b else Some True)"

partial_function (option) insert_ordered_from ::
    "(addr \<Rightarrow> addr \<Rightarrow> bool) \<Rightarrow> lheap \<Rightarrow> addr \<Rightarrow> addr \<Rightarrow> addr \<Rightarrow> addr option" where
  "insert_ordered_from lt h l elem e =
     (if e = list_tail_of l then Some e
      else if lt elem e then Some e
      else Option.bind (list_next h e) (\<lambda>e'. insert_ordered_from lt h l elem e'))"

definition list_insert_ordered ::
    "(addr \<Rightarrow> addr \<Rightarrow> bool) \<Rightarrow> lheap \<Rightarrow> addr \<Rightarrow> addr \<Rightarrow> lheap option" where
  "list_insert_ordered lt h l elem =
     (if l = 0 \<or> elem = 0 then None
      else Option.bind (list_begin h l) (\<lambda>b.
        Option.bind (insert_ordered_from lt h l elem b) (\<lambda>e. list_insert h e elem)))"

partial_function (option) list_max_from ::
    "(addr \<Rightarrow> addr \<Rightarrow> bool) \<Rightarrow> lheap \<Rightarrow> addr \<Rightarrow> addr \<Rightarrow> addr \<Rightarrow> addr option" where
  "list_max_from lt h l m e =
     (if e = list_tail_of l then Some m
      else Option.bind (list_next h e) (\<lambda>e'.
        list_max_from lt h l (if lt m e then e else m) e'))"

definition list_max :: "(addr \<Rightarrow> addr \<Rightarrow> bool) \<Rightarrow> lheap \<Rightarrow> addr \<Rightarrow> addr option" where
  "list_max lt h l =
     Option.bind (list_begin h l) (\<lambda>m.
       if m \<noteq> list_tail_of l
       then Option.bind (list_next h m) (\<lambda>e. list_max_from lt h l m e)
       else Some m)"

definition list_min :: "(addr \<Rightarrow> addr \<Rightarrow> bool) \<Rightarrow> lheap \<Rightarrow> addr \<Rightarrow> addr option" where
  "list_min lt h l = list_max (\<lambda>m e. lt e m) h l"

section \<open>Well-formed lists\<close>

fun dchain :: "lheap \<Rightarrow> addr list \<Rightarrow> bool" where
  "dchain h [] = True"
| "dchain h [x] = True"
| "dchain h (x # y # zs) = (le_next (h x) = y \<and> le_prev (h y) = x \<and> dchain h (y # zs))"

definition dlist :: "lheap \<Rightarrow> addr \<Rightarrow> addr list \<Rightarrow> bool" where
  "dlist h l xs \<longleftrightarrow>
     distinct (l # xs @ [list_tail_of l]) \<and>
     0 \<notin> set (l # xs) \<and>
     le_prev (h l) = 0 \<and> le_next (h (list_tail_of l)) = 0 \<and>
     dchain h (l # xs @ [list_tail_of l])"

definition dlist_cells :: "addr \<Rightarrow> addr list \<Rightarrow> addr set" where
  "dlist_cells l xs = {l, list_tail_of l} \<union> set xs"

lemma chain_append: "dchain h (xs @ y # zs) \<longleftrightarrow> dchain h (xs @ [y]) \<and> dchain h (y # zs)"
proof (induction xs)
  case Nil
  show ?case by simp
next
  case (Cons x xs)
  then show ?case by (cases xs) auto
qed

lemma chain_cong:
  assumes "\<And>x. x \<in> set (butlast xs) \<Longrightarrow> le_next (h x) = le_next (h' x)"
    and "\<And>x. x \<in> set (tl xs) \<Longrightarrow> le_prev (h x) = le_prev (h' x)"
  shows "dchain h xs = dchain h' xs"
  using assms by (induction h xs rule: dchain.induct) auto

lemma set_prev_apply [simp]:
  "le_prev (set_prev h a p x) = (if x = a then p else le_prev (h x))"
  "le_next (set_prev h a p x) = le_next (h x)"
  by (simp_all add: set_prev_def)

lemma set_next_apply [simp]:
  "le_next (set_next h a n x) = (if x = a then n else le_next (h x))"
  "le_prev (set_next h a n x) = le_prev (h x)"
  by (simp_all add: set_next_def)

lemma dlist_frame:
  assumes "\<And>x. x \<in> dlist_cells l xs \<Longrightarrow> h' x = h x"
  shows "dlist h' l xs = dlist h l xs"
proof -
  have "dchain h' (l # xs @ [l + 16]) = dchain h (l # xs @ [l + 16])"
    by (rule chain_cong) (use assms in \<open>auto simp: dlist_cells_def butlast_append\<close>)
  with assms show ?thesis by (simp add: dlist_def dlist_cells_def)
qed

text \<open>Splitting a list at an interior element gives its neighbours.\<close>

lemma chain_neighbours:
  assumes "dchain h (xs @ a # b # ys)"
  shows "le_next (h a) = b" and "le_prev (h b) = a"
  using assms chain_append [of h xs a "b # ys"] by simp_all

lemma dlist_split:
  fixes l :: addr
  obtains as p b bs where "l # xs @ ys @ [l + 16] = as @ p # b # bs"
    and "as @ [p] = l # xs" and "b # bs = ys @ [l + 16]"
proof -
  obtain as p where 1: "l # xs = as @ [p]" by (metis list.distinct(1) rev_exhaust)
  obtain b bs where 2: "ys @ [l + 16] = b # bs" by (cases "ys @ [l + 16]") auto
  have "l # xs @ ys @ [l + 16] = (l # xs) @ (ys @ [l + 16])" by simp
  also have "\<dots> = as @ p # b # bs" unfolding 1 2 by simp
  finally show ?thesis using that 1 2 by simp
qed

lemma chain_parts:
  assumes "dchain h (xs @ a # b # ys)"
  shows "dchain h (xs @ [a])" and "dchain h (b # ys)"
  using assms iffD1 [OF chain_append [of h xs a "b # ys"]] by auto

lemma dlist_begin: "dlist h l xs \<Longrightarrow> list_begin h l = Some (hd (xs @ [l + 16]))"
  by (cases xs) (auto simp: dlist_def list_begin_def)

lemma dlist_rbegin: "dlist h l xs \<Longrightarrow> list_rbegin h l = Some (last (l # xs))"
  using chain_neighbours(2) [of h "butlast (l # xs)" "last (l # xs)" "l + 16" "[]"]
  by (cases xs rule: rev_cases) (auto simp: dlist_def list_rbegin_def)

lemma dlist_empty: "dlist h l xs \<Longrightarrow> list_empty h l = Some (xs = [])"
  using dlist_begin [of h l xs]
  by (cases xs) (auto simp: dlist_def list_empty_def list_end_def)

lemma dlist_interior:
  assumes "dlist h l xs" and "x \<in> set xs"
  shows "is_interior h x"
proof -
  from assms(2) obtain us vs where xs: "xs = us @ x # vs" by (meson split_list)
  obtain as p b bs where sp: "l # us @ [] @ [l + 16] = as @ p # b # bs" and as: "as @ [p] = l # us"
    by (rule dlist_split)
  obtain y ys where y: "vs @ [l + 16] = y # ys" by (cases vs) auto
  have ch: "dchain h (as @ p # x # y # ys)"
    using assms(1) xs as y by (metis append.assoc append_Cons append_Nil dlist_def)
  have "le_prev (h x) = p" using chain_neighbours(2) [OF ch] .
  moreover have "le_next (h x) = y"
    using chain_neighbours(1) [of h "as @ [p]" x y ys] ch by simp
  moreover have "p \<in> set (l # us)" using as by (metis in_set_conv_decomp)
  moreover have "y \<in> set (vs @ [l + 16])" using y by simp
  ultimately show ?thesis
    using assms(1) xs unfolding dlist_def is_interior_def by auto
qed

lemma dlist_tail: "dlist h l xs \<Longrightarrow> is_tail h (l + 16)"
  using dlist_rbegin [of h l xs] last_in_set [of xs]
  by (auto simp: dlist_def is_tail_def list_rbegin_def split: if_splits) (metis gr0I last_in_set)

lemma dlist_hd_insertable:
  "dlist h l (xs @ ys) \<Longrightarrow> is_interior h (hd (ys @ [l + 16])) \<or> is_tail h (hd (ys @ [l + 16]))"
  using dlist_interior [of h l "xs @ ys" "hd ys"] dlist_tail [of h l "xs @ ys"]
  by (cases ys) auto

section \<open>The operations on well-formed lists\<close>

lemma list_init_dlist:
  assumes "l \<noteq> 0"
  obtains h' where "list_init h l = Some h'" and "dlist h' l []"
    and "\<And>x. x \<notin> dlist_cells l [] \<Longrightarrow> h' x = h x"
  using assms
  by (auto simp: list_init_def Let_def dlist_def dlist_cells_def set_prev_def set_next_def)

lemma list_insert_dlist:
  assumes d: "dlist h l (xs @ ys)" and e: "e \<notin> dlist_cells l (xs @ ys)" "e \<noteq> 0"
  obtains h' where "list_insert h (hd (ys @ [l + 16])) e = Some h'"
    and "dlist h' l (xs @ e # ys)"
    and "\<And>x. x \<notin> dlist_cells l (xs @ ys) \<Longrightarrow> x \<noteq> e \<Longrightarrow> h' x = h x"
proof -
  obtain as p b bs where sp: "l # xs @ ys @ [l + 16] = as @ p # b # bs"
    and as: "as @ [p] = l # xs" and bs: "b # bs = ys @ [l + 16]"
    by (rule dlist_split)
  let ?h = "set_prev (set_next (set_next (set_prev h e p) e b) p e) b e"
  have ch: "dchain h (as @ p # b # bs)" and di: "distinct (as @ p # b # bs)"
    using d sp unfolding dlist_def by auto
  have cells: "dlist_cells l (xs @ ys) = set (as @ p # b # bs)"
    using arg_cong [OF sp, of set] by (auto simp: dlist_cells_def)
  have pb: "le_prev (h b) = p" using chain_neighbours(2) [OF ch] .
  have hdb: "hd (ys @ [l + 16]) = b" using bs by (metis list.sel(1))
  have ins: "list_insert h b e = Some ?h"
    using dlist_hd_insertable [OF d] hdb pb e cells by (auto simp: list_insert_def Let_def)
  have "dchain ?h (as @ [p])"
    using chain_parts(1) [OF ch] di e cells
    by (subst chain_cong [where h' = h]) (auto dest: in_set_tlD)
  moreover have "dchain ?h (b # bs)"
    using chain_parts(2) [OF ch] di e cells
    by (subst chain_cong [where h' = h]) (auto dest: in_set_butlastD split: if_splits)
  moreover have "dchain ?h [p, e, b]" using di e cells by auto
  ultimately have "dchain ?h (as @ p # e # b # bs)"
    by (intro iffD2 [OF chain_append [of ?h as p "e # b # bs"]]) auto
  moreover have "l # (xs @ e # ys) @ [l + 16] = as @ p # e # b # bs"
    using as bs by (metis append.assoc append_Cons append_Nil)
  ultimately have chn: "dchain ?h (l # (xs @ e # ys) @ [l + 16])" by simp
  have "l \<in> set (as @ [p])" and "l + 16 \<in> set (b # bs)"
    by (simp_all only: as bs) simp_all
  then have "l \<noteq> b" and "l + 16 \<noteq> p" and "l \<noteq> e" and "l + 16 \<noteq> e"
    using di e cells by auto
  then have hd0: "le_prev (?h l) = 0" and tl0: "le_next (?h (l + 16)) = 0"
    using d by (simp_all add: dlist_def)
  have "distinct (l # (xs @ e # ys) @ [l + 16])" and "0 \<notin> set (l # (xs @ e # ys))"
    using d e unfolding dlist_def dlist_cells_def by auto
  then have "dlist ?h l (xs @ e # ys)"
    unfolding dlist_def using chn hd0 tl0 by blast
  moreover have "?h x = h x" if "x \<notin> dlist_cells l (xs @ ys)" "x \<noteq> e" for x
    using that cells by (auto simp: set_prev_def set_next_def)
  ultimately show ?thesis using that ins hdb by blast
qed

lemma dlist_link:
  assumes as: "as @ [p] = l # xs" and bs: "b # bs = ys @ [l + 16]"
    and "dchain h' (as @ [p])" "dchain h' (b # bs)"
    and "le_next (h' p) = b" "le_prev (h' b) = p"
    and "distinct (l # (xs @ ys) @ [l + 16])" "0 \<notin> set (l # xs @ ys)"
    and "le_prev (h' l) = 0" "le_next (h' (l + 16)) = 0"
  shows "dlist h' l (xs @ ys)"
proof -
  have "dchain h' (as @ p # b # bs)"
    using assms(3-6) by (intro iffD2 [OF chain_append [of h' as p "b # bs"]]) auto
  moreover have "l # (xs @ ys) @ [l + 16] = as @ p # b # bs"
    using as bs by (metis append.assoc append_Cons append_Nil)
  ultimately show ?thesis using assms(7-10) unfolding dlist_def by simp
qed

lemma list_remove_dlist:
  assumes d: "dlist h l (xs @ e # ys)"
  obtains h' where "list_remove h e = Some (hd (ys @ [l + 16]), h')"
    and "dlist h' l (xs @ ys)"
    and "\<And>x. x \<notin> dlist_cells l (xs @ ys) \<Longrightarrow> h' x = h x"
proof -
  obtain as p b bs where sp: "l # xs @ ys @ [l + 16] = as @ p # b # bs"
    and as: "as @ [p] = l # xs" and bs: "b # bs = ys @ [l + 16]"
    by (rule dlist_split)
  let ?h = "set_prev (set_next h p b) b p"
  have eq: "l # (xs @ e # ys) @ [l + 16] = as @ p # e # b # bs"
    using as bs by (metis append.assoc append_Cons append_Nil)
  have ch: "dchain h (as @ p # e # b # bs)" and di: "distinct (as @ p # e # b # bs)"
    using d unfolding dlist_def eq by blast+
  have nb: "le_prev (h e) = p" "le_next (h e) = b"
    using chain_neighbours [OF ch] chain_neighbours [of h "as @ [p]" e b bs] ch by simp_all
  have hdb: "hd (ys @ [l + 16]) = b" using bs by (metis list.sel(1))
  have rm: "list_remove h e = Some (b, ?h)"
    using dlist_interior [OF d, of e] nb di by (simp add: list_remove_def)
  have "dchain ?h (as @ [p])"
    using chain_parts(1) [OF ch] di
    by (subst chain_cong [where h' = h]) (auto dest: in_set_tlD)
  moreover have "dchain ?h (b # bs)"
    using chain_parts(2) [of h "as @ [p]" e b bs] ch di
    by (subst chain_cong [where h' = h]) (auto dest: in_set_butlastD split: if_splits)
  moreover have "l \<in> set (as @ [p])" and "l + 16 \<in> set (b # bs)"
    by (simp_all only: as bs) simp_all
  then have "le_prev (?h l) = 0" and "le_next (?h (l + 16)) = 0"
    using di d by (auto simp: dlist_def)
  moreover have "distinct (l # (xs @ ys) @ [l + 16])" and "0 \<notin> set (l # xs @ ys)"
    using d unfolding dlist_def by auto
  ultimately have "dlist ?h l (xs @ ys)" using di by (intro dlist_link [OF as bs]) auto
  moreover have "dlist_cells l (xs @ ys) = set (as @ p # b # bs)"
    using arg_cong [OF sp, of set] by (auto simp: dlist_cells_def)
  then have "?h x = h x" if "x \<notin> dlist_cells l (xs @ ys)" for x
    using that by (auto simp: set_prev_def set_next_def)
  ultimately show ?thesis using that rm hdb by blast
qed

lemma list_push_front_dlist:
  assumes "dlist h l xs" "e \<notin> dlist_cells l xs" "e \<noteq> 0"
  obtains h' where "list_push_front h l e = Some h'" and "dlist h' l (e # xs)"
    and "\<And>x. x \<notin> dlist_cells l xs \<Longrightarrow> x \<noteq> e \<Longrightarrow> h' x = h x"
  using list_insert_dlist [of h l "[]" xs e] dlist_begin [OF assms(1)] assms
  by (auto simp: list_push_front_def)

lemma list_push_back_dlist:
  assumes "dlist h l xs" "e \<notin> dlist_cells l xs" "e \<noteq> 0"
  obtains h' where "list_push_back h l e = Some h'" and "dlist h' l (xs @ [e])"
    and "\<And>x. x \<notin> dlist_cells l xs \<Longrightarrow> x \<noteq> e \<Longrightarrow> h' x = h x"
  using list_insert_dlist [of h l xs "[]" e] assms
  by (auto simp: list_push_back_def list_end_def dlist_def)

lemma list_pop_front_dlist:
  assumes d: "dlist h l (e # xs)"
  obtains h' where "list_pop_front h l = Some (e, h')" and "dlist h' l xs"
    and "\<And>x. x \<notin> dlist_cells l xs \<Longrightarrow> h' x = h x"
proof -
  obtain h' where h': "list_remove h e = Some (hd (xs @ [l + 16]), h')" "dlist h' l xs"
    "\<And>x. x \<notin> dlist_cells l xs \<Longrightarrow> h' x = h x"
    using list_remove_dlist [of h l "[]" e xs] d by auto
  have "list_front h l = Some e"
    using dlist_empty [OF d] dlist_begin [OF d] d
    by (simp add: list_front_def list_begin_def split: if_splits)
  with h' show ?thesis using that by (simp add: list_pop_front_def)
qed

lemma list_pop_back_dlist:
  assumes d: "dlist h l (xs @ [e])"
  obtains h' where "list_pop_back h l = Some (e, h')" and "dlist h' l xs"
    and "\<And>x. x \<notin> dlist_cells l xs \<Longrightarrow> h' x = h x"
proof -
  obtain h' where h': "list_remove h e = Some (l + 16, h')" "dlist h' l xs"
    "\<And>x. x \<notin> dlist_cells l xs \<Longrightarrow> h' x = h x"
    using list_remove_dlist [of h l xs e "[]"] d by auto
  have "list_back h l = Some e"
    using dlist_empty [OF d] dlist_rbegin [OF d] d
    by (simp add: list_back_def list_rbegin_def split: if_splits)
  with h' show ?thesis using that by (simp add: list_pop_back_def)
qed

section \<open>Traversals\<close>

lemma dlist_next:
  assumes "dlist h l (us @ x # vs)"
  shows "list_next h x = Some (hd (vs @ [l + 16]))"
proof -
  obtain y ys where y: "vs @ [l + 16] = y # ys" by (cases vs) auto
  have "dchain h ((l # us) @ x # y # ys)" using assms y by (simp add: dlist_def)
  then have "le_next (h x) = y" by (rule chain_neighbours)
  with y show ?thesis using dlist_interior [OF assms, of x] by (simp add: list_next_def)
qed

lemma dlist_hd_tail: "dlist h l (us @ vs) \<Longrightarrow> hd (vs @ [l + 16]) = l + 16 \<longleftrightarrow> vs = []"
  by (cases vs) (auto simp: dlist_def)

lemma list_size_from_dlist:
  "dlist h l (us @ vs) \<Longrightarrow> list_size_from h l (hd (vs @ [l + 16])) cnt = Some (cnt + length vs)"
proof (induction vs arbitrary: us cnt)
  case Nil
  then show ?case by (simp add: list_size_from.simps)
next
  case (Cons v vs)
  have "list_next h v = Some (hd (vs @ [l + 16]))"
    using dlist_next Cons.prems by blast
  moreover have "v \<noteq> l + 16" using dlist_hd_tail [OF Cons.prems] by simp
  moreover have "dlist h l ((us @ [v]) @ vs)" using Cons.prems by simp
  ultimately show ?case
    using Cons.IH [of "us @ [v]" "cnt + 1"] by (simp add: list_size_from.simps [of h l v])
qed

lemma list_size_dlist: "dlist h l xs \<Longrightarrow> list_size h l = Some (length xs)"
  using list_size_from_dlist [of h l "[]" xs 0] by (simp add: list_size_def dlist_begin)

lemma chain_ends:
  assumes "ys \<noteq> []"
  shows "dchain h (l # ys @ [t]) \<longleftrightarrow>
    le_next (h l) = hd ys \<and> le_prev (h (hd ys)) = l \<and> dchain h ys \<and>
    le_next (h (last ys)) = t \<and> le_prev (h t) = last ys"
proof -
  have 1: "dchain h (l # ys @ [t]) \<longleftrightarrow>
      le_next (h l) = hd ys \<and> le_prev (h (hd ys)) = l \<and> dchain h (ys @ [t])"
    using assms by (cases ys) auto
  obtain zs z where ys: "ys = zs @ [z]" using assms by (metis rev_exhaust)
  have "dchain h (ys @ [t]) \<longleftrightarrow> dchain h ys \<and> dchain h [z, t]"
    using chain_append [of h zs z "[t]"] ys by simp
  with 1 ys show ?thesis by auto
qed

definition swapped :: "list_elem \<Rightarrow> list_elem" where
  "swapped e = \<lparr>le_prev = le_next e, le_next = le_prev e\<rparr>"

lemma swapped_simps [simp]: "le_prev (swapped e) = le_next e" "le_next (swapped e) = le_prev e"
  by (simp_all add: swapped_def)

lemma chain_rev: "dchain (\<lambda>a. swapped (h a)) (rev xs) = dchain h xs"
proof (induction xs rule: dchain.induct)
  case (3 h x y zs)
  have "dchain (\<lambda>a. swapped (h a)) (rev (x # y # zs)) \<longleftrightarrow>
      dchain (\<lambda>a. swapped (h a)) (rev (y # zs)) \<and> dchain (\<lambda>a. swapped (h a)) [y, x]"
    using chain_append [of "\<lambda>a. swapped (h a)" "rev zs" y "[x]"] by simp
  with 3 show ?case by auto
qed auto

lemma list_reverse_from_dlist:
  "dchain h (vs @ [l + 16]) \<Longrightarrow> distinct (vs @ [l + 16]) \<Longrightarrow>
   list_reverse_from h l (hd (vs @ [l + 16])) =
     Some (\<lambda>a. if a \<in> set vs then swapped (h a) else h a)"
proof (induction vs arbitrary: h)
  case Nil
  then show ?case by (simp add: list_reverse_from.simps)
next
  case (Cons v vs)
  let ?h = "swap_elem h v"
  have v: "?h v = swapped (h v)"
    by (simp add: swap_elem_def swapped_def)
  have nx: "le_next (h v) = hd (vs @ [l + 16])" and ch: "dchain h (vs @ [l + 16])"
    using Cons.prems(1) by (cases vs; simp)+
  have "dchain ?h (vs @ [l + 16])"
    using ch Cons.prems(2)
    by (subst chain_cong [where h' = h]) (auto simp: swap_elem_def dest!: in_set_tlD)
  moreover have "distinct (vs @ [l + 16])" using Cons.prems(2) by simp
  ultimately have "list_reverse_from ?h l (hd (vs @ [l + 16])) =
      Some (\<lambda>a. if a \<in> set vs then swapped (?h a) else ?h a)"
    by (rule Cons.IH)
  moreover have "(\<lambda>a. if a \<in> set vs then swapped (?h a) else ?h a) =
      (\<lambda>a. if a \<in> set (v # vs) then swapped (h a) else h a)"
    using Cons.prems(2) by (auto simp: fun_eq_iff swap_elem_def swapped_def)
  ultimately show ?case
    using Cons.prems(2) v nx by (simp add: list_reverse_from.simps [of h l v])
qed

lemma list_reverse_dlist:
  assumes d: "dlist h l xs"
  obtains h' where "list_reverse h l = Some h'" and "dlist h' l (rev xs)"
    and "\<And>x. x \<notin> dlist_cells l xs \<Longrightarrow> h' x = h x"
proof (cases "xs = []")
  case True
  then show ?thesis using that d dlist_empty [OF d] by (auto simp: list_reverse_def)
next
  case False
  let ?f = "hd xs" and ?z = "last xs" and ?t = "l + 16"
  let ?h1 = "\<lambda>a. if a \<in> set xs then swapped (h a) else h a"
  let ?h2 = "set_prev (set_next ?h1 l ?z) ?t ?f"
  let ?h3 = "set_next (set_prev ?h2 ?z l) ?f ?t"
  have ends: "le_next (h l) = ?f" "le_prev (h ?f) = l" "dchain h xs" "le_next (h ?z) = ?t"
    "le_prev (h ?t) = ?z"
    using d chain_ends [OF False, of h l ?t] by (auto simp: dlist_def)
  have in_xs: "?f \<in> set xs" "?z \<in> set xs" using False by simp_all
  have out: "l \<notin> set xs" "?t \<notin> set xs" "l \<noteq> ?t" using d by (auto simp: dlist_def)
  have ne: "?f \<noteq> l" "?f \<noteq> ?t" "?z \<noteq> l" "?z \<noteq> ?t" using in_xs out by metis+
  have "dchain h (xs @ [?t])"
    using d False by (cases xs) (auto simp: dlist_def)
  then have "list_reverse_from h l ?f = Some ?h1"
    using list_reverse_from_dlist [of h xs l] d False by (auto simp: dlist_def)
  then have rv: "list_reverse h l = Some ?h3"
    using dlist_empty [OF d] False ends in_xs out ne by (simp add: list_reverse_def Let_def)
  have "dchain ?h1 (rev xs)"
    by (subst chain_cong [where h' = "\<lambda>a. swapped (h a)"])
      (auto simp: chain_rev ends dest: in_set_tlD in_set_butlastD)
  moreover have "?f \<notin> set (butlast (rev xs))"
    using d False by (cases xs) (auto simp: dlist_def)
  moreover have "?z \<notin> set (tl (rev xs))"
    using d False by (cases xs rule: rev_cases) (auto simp: dlist_def)
  ultimately have "dchain ?h3 (rev xs)"
    using out by (subst chain_cong [where h' = ?h1]) (auto dest: in_set_tlD in_set_butlastD)
  then have "dlist ?h3 l (rev xs)"
    using d out in_xs ne False chain_ends [of "rev xs" ?h3 l ?t]
    by (auto simp: dlist_def hd_rev last_rev)
  moreover have "?h3 x = h x" if "x \<notin> dlist_cells l xs" for x
    using that in_xs by (auto simp: dlist_cells_def set_prev_def set_next_def)
  ultimately show ?thesis using that rv by blast
qed

lemma insert_ordered_from_dlist:
  "dlist h l (us @ vs) \<Longrightarrow>
   insert_ordered_from lt h l e (hd (vs @ [l + 16])) =
     Some (hd (dropWhile (\<lambda>x. \<not> lt e x) vs @ [l + 16]))"
proof (induction vs arbitrary: us)
  case Nil
  then show ?case by (simp add: insert_ordered_from.simps)
next
  case (Cons v vs)
  have "list_next h v = Some (hd (vs @ [l + 16]))" using dlist_next Cons.prems by blast
  moreover have "v \<noteq> l + 16" using dlist_hd_tail [OF Cons.prems] by simp
  moreover have "dlist h l ((us @ [v]) @ vs)" using Cons.prems by simp
  ultimately show ?case
    using Cons.IH [of "us @ [v]"] by (simp add: insert_ordered_from.simps [of lt h l e v])
qed

lemma list_insert_ordered_dlist:
  assumes d: "dlist h l xs" and e: "e \<notin> dlist_cells l xs" "e \<noteq> 0"
  obtains h' where "list_insert_ordered lt h l e = Some h'"
    and "dlist h' l (takeWhile (\<lambda>x. \<not> lt e x) xs @ e # dropWhile (\<lambda>x. \<not> lt e x) xs)"
    and "\<And>x. x \<notin> dlist_cells l xs \<Longrightarrow> x \<noteq> e \<Longrightarrow> h' x = h x"
proof -
  let ?A = "takeWhile (\<lambda>x. \<not> lt e x) xs" and ?B = "dropWhile (\<lambda>x. \<not> lt e x) xs"
  have d': "dlist h l (?A @ ?B)" and c: "dlist_cells l (?A @ ?B) = dlist_cells l xs"
    using d by simp_all
  obtain h' where "list_insert h (hd (?B @ [l + 16])) e = Some h'" "dlist h' l (?A @ e # ?B)"
    "\<And>x. x \<notin> dlist_cells l xs \<Longrightarrow> x \<noteq> e \<Longrightarrow> h' x = h x"
    using list_insert_dlist [OF d', unfolded c, OF e] by metis
  moreover have "l \<noteq> 0" using d by (simp add: dlist_def)
  ultimately show ?thesis
    using that e insert_ordered_from_dlist [of h l "[]" xs lt e] d
    by (simp add: list_insert_ordered_def dlist_begin)
qed

lemma list_max_from_dlist:
  "dlist h l (us @ vs) \<Longrightarrow>
   list_max_from lt h l m (hd (vs @ [l + 16])) = Some (foldl (\<lambda>m e. if lt m e then e else m) m vs)"
proof (induction vs arbitrary: us m)
  case Nil
  then show ?case by (simp add: list_max_from.simps)
next
  case (Cons v vs)
  have "list_next h v = Some (hd (vs @ [l + 16]))" using dlist_next Cons.prems by blast
  moreover have "v \<noteq> l + 16" using dlist_hd_tail [OF Cons.prems] by simp
  moreover have "dlist h l ((us @ [v]) @ vs)" using Cons.prems by simp
  ultimately show ?case
    using Cons.IH [of "us @ [v]"] by (simp add: list_max_from.simps [of lt h l m v])
qed

lemma list_max_dlist:
  assumes "dlist h l (x # xs)"
  shows "list_max lt h l = Some (foldl (\<lambda>m e. if lt m e then e else m) x xs)"
  using assms dlist_next [of h l "[]" x xs] dlist_hd_tail [of h l "[]" "x # xs"]
    list_max_from_dlist [of h l "[x]" xs lt x]
  by (simp add: list_max_def dlist_begin)

section \<open>The contract of a list, and a family of lists\<close>

locale elem_list =
  fixes repr :: "'h \<Rightarrow> addr \<Rightarrow> addr list \<Rightarrow> bool"
    and fresh :: "addr \<Rightarrow> addr \<Rightarrow> addr list \<Rightarrow> bool"
    and push_front :: "'h \<Rightarrow> addr \<Rightarrow> addr \<Rightarrow> 'h option"
    and push_back :: "'h \<Rightarrow> addr \<Rightarrow> addr \<Rightarrow> 'h option"
    and pop_front :: "'h \<Rightarrow> addr \<Rightarrow> (addr \<times> 'h) option"
    and pop_back :: "'h \<Rightarrow> addr \<Rightarrow> (addr \<times> 'h) option"
  assumes push_front: "repr h l xs \<Longrightarrow> fresh e l xs \<Longrightarrow>
      \<exists>h'. push_front h l e = Some h' \<and> repr h' l (e # xs)"
    and push_back: "repr h l xs \<Longrightarrow> fresh e l xs \<Longrightarrow>
      \<exists>h'. push_back h l e = Some h' \<and> repr h' l (xs @ [e])"
    and pop_front: "repr h l (e # xs) \<Longrightarrow> \<exists>h'. pop_front h l = Some (e, h') \<and> repr h' l xs"
    and pop_back: "repr h l (xs @ [e]) \<Longrightarrow> \<exists>h'. pop_back h l = Some (e, h') \<and> repr h' l xs"
    and fresh_snoc: "fresh e l (xs @ [d]) \<longleftrightarrow> fresh e l xs \<and> e \<noteq> d"
begin

fun push_all :: "'h \<Rightarrow> addr \<Rightarrow> addr list \<Rightarrow> 'h option" where
  "push_all h l [] = Some h"
| "push_all h l (e # es) = Option.bind (push_back h l e) (\<lambda>h'. push_all h' l es)"

fun pop_all :: "'h \<Rightarrow> addr \<Rightarrow> nat \<Rightarrow> (addr list \<times> 'h) option" where
  "pop_all h l 0 = Some ([], h)"
| "pop_all h l (Suc n) =
     Option.bind (pop_front h l) (\<lambda>(e, h'). map_option (\<lambda>(es, h''). (e # es, h'')) (pop_all h' l n))"

lemma push_all_repr:
  "repr h l xs \<Longrightarrow> distinct es \<Longrightarrow> (\<And>e. e \<in> set es \<Longrightarrow> fresh e l xs) \<Longrightarrow>
   \<exists>h'. push_all h l es = Some h' \<and> repr h' l (xs @ es)"
proof (induction es arbitrary: h xs)
  case Nil
  then show ?case by simp
next
  case (Cons e es)
  from Cons.prems obtain h1 where h1: "push_back h l e = Some h1" "repr h1 l (xs @ [e])"
    using push_back [of h l xs e] by auto
  have "\<And>d. d \<in> set es \<Longrightarrow> fresh d l (xs @ [e])"
    using Cons.prems by (auto simp: fresh_snoc)
  with Cons.IH [OF h1(2)] Cons.prems(2) h1(1) show ?case by auto
qed

lemma pop_all_repr:
  "repr h l (es @ xs) \<Longrightarrow> \<exists>h'. pop_all h l (length es) = Some (es, h') \<and> repr h' l xs"
proof (induction es arbitrary: h)
  case Nil
  then show ?case by simp
next
  case (Cons e es)
  from Cons.prems obtain h1 where "pop_front h l = Some (e, h1)" "repr h1 l (es @ xs)"
    using pop_front [of h l e "es @ xs"] by auto
  with Cons.IH [of h1] show ?case by auto
qed

text \<open>Elements leave the front in the order they were appended at the back.\<close>

lemma fifo_order:
  assumes "repr h l []" "distinct es" "\<And>e. e \<in> set es \<Longrightarrow> fresh e l []"
  shows "\<exists>h1 h2. push_all h l es = Some h1 \<and> pop_all h1 l (length es) = Some (es, h2) \<and> repr h2 l []"
  using push_all_repr [OF assms] pop_all_repr [of _ l es "[]"] by fastforce

end

definition elem_fresh :: "addr \<Rightarrow> addr \<Rightarrow> addr list \<Rightarrow> bool" where
  "elem_fresh e l xs \<longleftrightarrow> e \<noteq> 0 \<and> e \<notin> dlist_cells l xs"

interpretation kl: elem_list dlist elem_fresh list_push_front list_push_back list_pop_front list_pop_back
proof unfold_locales
  fix h l xs e
  assume d: "dlist h l xs" and f: "elem_fresh e l xs"
  from list_push_front_dlist [OF d, of e] f
  show "\<exists>h'. list_push_front h l e = Some h' \<and> dlist h' l (e # xs)"
    by (auto simp: elem_fresh_def)
  from list_push_back_dlist [OF d, of e] f
  show "\<exists>h'. list_push_back h l e = Some h' \<and> dlist h' l (xs @ [e])"
    by (auto simp: elem_fresh_def)
next
  fix h l e xs
  show "dlist h l (e # xs) \<Longrightarrow> \<exists>h'. list_pop_front h l = Some (e, h') \<and> dlist h' l xs"
    by (metis list_pop_front_dlist)
  show "dlist h l (xs @ [e]) \<Longrightarrow> \<exists>h'. list_pop_back h l = Some (e, h') \<and> dlist h' l xs"
    by (metis list_pop_back_dlist)
  show "elem_fresh e l (xs @ [d]) \<longleftrightarrow> elem_fresh e l xs \<and> e \<noteq> d" for d
    by (auto simp: elem_fresh_def dlist_cells_def)
qed

definition lists_repr ::
    "lheap \<Rightarrow> (nat \<Rightarrow> addr) \<Rightarrow> (nat \<Rightarrow> addr) \<Rightarrow> nat \<Rightarrow> (nat \<Rightarrow> nat list) \<Rightarrow> bool" where
  "lists_repr h fl el n F \<longleftrightarrow>
     (\<forall>k < n. dlist h (fl k) (map el (F k))) \<and>
     (\<forall>j < n. \<forall>k < n. j \<noteq> k \<longrightarrow>
        dlist_cells (fl j) (map el (F j)) \<inter> dlist_cells (fl k) (map el (F k)) = {})"

definition lists_cells :: "(nat \<Rightarrow> addr) \<Rightarrow> (nat \<Rightarrow> addr) \<Rightarrow> nat \<Rightarrow> (nat \<Rightarrow> nat list) \<Rightarrow> addr set" where
  "lists_cells fl el n F = (\<Union>k < n. dlist_cells (fl k) (map el (F k)))"

lemma lists_repr_update:
  assumes "lists_repr h fl el n F" "k < n"
    and "dlist h' (fl k) (map el xs)"
    and "dlist_cells (fl k) (map el xs) \<subseteq> dlist_cells (fl k) (map el (F k)) \<union> E"
    and "E \<inter> lists_cells fl el n F = {}"
    and "\<And>x. x \<notin> dlist_cells (fl k) (map el (F k)) \<union> E \<Longrightarrow> h' x = h x"
  shows "lists_repr h' fl el n (F(k := xs))"
proof -
  have "dlist h' (fl j) (map el (F j))" if j: "j < n" "j \<noteq> k" for j
  proof -
    have "dlist_cells (fl j) (map el (F j)) \<inter> (dlist_cells (fl k) (map el (F k)) \<union> E) = {}"
      using assms(1,2,5) j by (fastforce simp: lists_repr_def lists_cells_def)
    then have "\<And>x. x \<in> dlist_cells (fl j) (map el (F j)) \<Longrightarrow> h' x = h x"
      using assms(6) by blast
    from dlist_frame [OF this] show ?thesis
      using assms(1) j by (simp add: lists_repr_def)
  qed
  moreover have "dlist_cells (fl j) (map el (F j)) \<inter> dlist_cells (fl k) (map el xs) = {}"
    if j: "j < n" "j \<noteq> k" for j
  proof -
    have "dlist_cells (fl j) (map el (F j)) \<inter> dlist_cells (fl k) (map el (F k)) = {}"
      using assms(1,2) j by (simp add: lists_repr_def)
    moreover have "dlist_cells (fl j) (map el (F j)) \<inter> E = {}"
      using assms(5) j by (auto simp: lists_cells_def)
    ultimately show ?thesis using assms(4) by blast
  qed
  ultimately show ?thesis using assms(1,3) by (auto simp: lists_repr_def)
qed

lemma lists_repr_push:
  assumes r: "lists_repr h fl el n F" "k < n" and p: "el p \<noteq> 0" "el p \<notin> lists_cells fl el n F"
  obtains h' where "list_push_front h (fl k) (el p) = Some h'"
    and "lists_repr h' fl el n (F(k := p # F k))"
proof -
  have d: "dlist h (fl k) (map el (F k))" and f: "el p \<notin> dlist_cells (fl k) (map el (F k))"
    using r p by (auto simp: lists_repr_def lists_cells_def)
  obtain h' where h': "list_push_front h (fl k) (el p) = Some h'" "dlist h' (fl k) (map el (p # F k))"
    "\<And>x. x \<notin> dlist_cells (fl k) (map el (F k)) \<Longrightarrow> x \<noteq> el p \<Longrightarrow> h' x = h x"
    using list_push_front_dlist [OF d f p(1)] by (metis list.simps(9))
  have "lists_repr h' fl el n (F(k := p # F k))"
    using p(2) h'(3) by (intro lists_repr_update [OF r h'(2), of "{el p}"]) (auto simp: dlist_cells_def)
  with h'(1) show ?thesis by (rule that)
qed

lemma lists_repr_pop:
  assumes r: "lists_repr h fl el n F" "k < n" and k: "F k = p # ps"
  obtains h' where "list_pop_front h (fl k) = Some (el p, h')"
    and "lists_repr h' fl el n (F(k := ps))"
proof -
  have d: "dlist h (fl k) (el p # map el ps)"
    using r k by (auto simp: lists_repr_def)
  obtain h' where h': "list_pop_front h (fl k) = Some (el p, h')" "dlist h' (fl k) (map el ps)"
    "\<And>x. x \<notin> dlist_cells (fl k) (map el ps) \<Longrightarrow> h' x = h x"
    using list_pop_front_dlist [OF d] by metis
  have "lists_repr h' fl el n (F(k := ps))"
    using h'(3) k by (intro lists_repr_update [OF r h'(2), of "{}"]) (auto simp: dlist_cells_def)
  with h'(1) show ?thesis by (rule that)
qed

lemma lists_repr_remove:
  assumes r: "lists_repr h fl el n F" "k < n" and p: "p \<in> set (F k)"
  obtains e h' where "list_remove h (el p) = Some (e, h')"
    and "lists_repr h' fl el n (F(k := remove1 p (F k)))"
proof -
  from p obtain us vs where k: "F k = us @ p # vs" and nu: "p \<notin> set us"
    by (metis split_list_first)
  have d: "dlist h (fl k) (map el us @ el p # map el vs)"
    using r k by (auto simp: lists_repr_def)
  obtain e h' where h': "list_remove h (el p) = Some (e, h')" "dlist h' (fl k) (map el (us @ vs))"
    "\<And>x. x \<notin> dlist_cells (fl k) (map el (us @ vs)) \<Longrightarrow> h' x = h x"
    using list_remove_dlist [OF d] by (metis map_append)
  have "lists_repr h' fl el n (F(k := us @ vs))"
    using h'(3) k by (intro lists_repr_update [OF r h'(2), of "{}"]) (auto simp: dlist_cells_def)
  then show ?thesis using h'(1) k nu that by (simp add: remove1_append)
qed

section \<open>Properties\<close>

text \<open>
  On a heap that holds a list, \<^verbatim>\<open>list_insert\<close> before any position puts the new element exactly
  there, \<^verbatim>\<open>list_remove\<close> takes it out again, and neither touches a cell outside the list.
\<close>

theorem list_insert_remove_correct:
  assumes d: "dlist h l (xs @ ys)" and e: "e \<notin> dlist_cells l (xs @ ys)" "e \<noteq> 0"
  shows "\<exists>h1 h2 r. list_insert h (hd (ys @ [l + 16])) e = Some h1 \<and> dlist h1 l (xs @ e # ys) \<and>
    list_remove h1 e = Some (r, h2) \<and> dlist h2 l (xs @ ys) \<and>
    (\<forall>x. x \<notin> dlist_cells l (xs @ ys) \<and> x \<noteq> e \<longrightarrow> h1 x = h x \<and> h2 x = h x)"
proof -
  obtain h1 where h1: "list_insert h (hd (ys @ [l + 16])) e = Some h1" "dlist h1 l (xs @ e # ys)"
    "\<And>x. x \<notin> dlist_cells l (xs @ ys) \<Longrightarrow> x \<noteq> e \<Longrightarrow> h1 x = h x"
    using list_insert_dlist [OF d e] by metis
  obtain h2 where "list_remove h1 e = Some (hd (ys @ [l + 16]), h2)" "dlist h2 l (xs @ ys)"
    "\<And>x. x \<notin> dlist_cells l (xs @ ys) \<Longrightarrow> h2 x = h1 x"
    using list_remove_dlist [OF h1(2)] by metis
  with h1 show ?thesis by (intro exI [where x = h1] exI [where x = h2] exI conjI allI impI) auto
qed

definition two_cells :: lheap where
  "two_cells = (\<lambda>a. if a = 64 then \<lparr>le_prev = 0, le_next = 80\<rparr> else if a = 80 then \<lparr>le_prev = 64, le_next = 0\<rparr>
                    else \<lparr>le_prev = 0, le_next = 0\<rparr>)"

lemma two_cells_dlist: "dlist two_cells 64 []"
  by (simp add: dlist_def two_cells_def)

theorem list_insert_remove_correct_witness:
  "\<exists>h1 h2 r. list_insert two_cells 80 128 = Some h1 \<and> dlist h1 64 [128] \<and> list_remove h1 128 = Some (r, h2) \<and> dlist h2 64 []"
  using list_insert_remove_correct [of two_cells 64 "[]" "[]" 128] two_cells_dlist
  by (auto simp: dlist_cells_def)

text \<open>
  \<^verbatim>\<open>list_reverse\<close> reverses the list in place, whatever its length.
\<close>

theorem list_reverse_correct:
  assumes "dlist h l xs"
  shows "\<exists>h'. list_reverse h l = Some h' \<and> dlist h' l (rev xs) \<and> (\<forall>x. x \<notin> dlist_cells l xs \<longrightarrow> h' x = h x)"
  by (rule list_reverse_dlist [OF assms]) blast

theorem list_reverse_correct_witness: "\<exists>h'. list_reverse two_cells 64 = Some h' \<and> dlist h' 64 []"
  using list_reverse_correct [OF two_cells_dlist] by auto

text \<open>
  Elements appended with \<^verbatim>\<open>list_push_back\<close> leave through \<^verbatim>\<open>list_pop_front\<close> in the same order.
\<close>

theorem list_queue_order:
  assumes "dlist h l []" "distinct es" "\<And>e. e \<in> set es \<Longrightarrow> elem_fresh e l []"
  shows "\<exists>h1 h2. kl.push_all h l es = Some h1 \<and> kl.pop_all h1 l (length es) = Some (es, h2) \<and> dlist h2 l []"
  using kl.fifo_order [OF assms] by blast

theorem list_queue_order_witness:
  "\<exists>h1 h2. kl.push_all two_cells 64 [128, 256, 192] = Some h1 \<and> kl.pop_all h1 64 3 = Some ([128, 256, 192], h2)"
proof -
  have "elem_fresh e 64 []" if "e \<in> set [128, 256, 192]" for e using that by (auto simp: elem_fresh_def dlist_cells_def)
  moreover have "length [128, 256, 192 :: nat] = 3" "distinct [128, 256, 192 :: nat]" by simp_all
  ultimately show ?thesis using list_queue_order [OF two_cells_dlist, of "[128, 256, 192]"] by metis
qed

lemma insert_sorted_wrt:
  assumes "sorted_wrt (\<lambda>x y. \<not> lt y x) xs"
    and tr: "\<And>x y z. \<not> lt y x \<Longrightarrow> \<not> lt z y \<Longrightarrow> \<not> lt z x" and as: "\<And>x y. lt x y \<Longrightarrow> \<not> lt y x"
  shows "sorted_wrt (\<lambda>x y. \<not> lt y x) (takeWhile (\<lambda>x. \<not> lt e x) xs @ e # dropWhile (\<lambda>x. \<not> lt e x) xs)"
  using assms(1)
proof (induction xs)
  case (Cons x xs)
  show ?case
  proof (cases "lt e x")
    case True
    then have "\<not> lt y e" if "y \<in> set xs" for y using Cons.prems that tr [OF as [OF True]] by auto
    then show ?thesis using True Cons.prems as by auto
  next
    case False
    then show ?thesis using Cons by (auto dest: set_takeWhileD set_dropWhileD)
  qed
qed simp

text \<open>
  \<^verbatim>\<open>list_insert_ordered\<close> keeps a sorted list sorted and adds exactly the new element, after the
  elements it is not less than.
\<close>

theorem list_insert_ordered_sorted:
  assumes d: "dlist h l xs" and e: "e \<notin> dlist_cells l xs" "e \<noteq> 0"
    and s: "sorted_wrt (\<lambda>x y. \<not> lt y x) xs"
    and tr: "\<And>x y z. \<not> lt y x \<Longrightarrow> \<not> lt z y \<Longrightarrow> \<not> lt z x" and as: "\<And>x y. lt x y \<Longrightarrow> \<not> lt y x"
  shows "\<exists>h' us vs. list_insert_ordered lt h l e = Some h' \<and> xs = us @ vs \<and> dlist h' l (us @ e # vs) \<and>
    sorted_wrt (\<lambda>x y. \<not> lt y x) (us @ e # vs)"
proof -
  let ?A = "takeWhile (\<lambda>x. \<not> lt e x) xs" and ?B = "dropWhile (\<lambda>x. \<not> lt e x) xs"
  obtain h' where "list_insert_ordered lt h l e = Some h'" "dlist h' l (?A @ e # ?B)"
    using list_insert_ordered_dlist [OF d e] by metis
  moreover have "xs = ?A @ ?B" by simp
  moreover have "sorted_wrt (\<lambda>x y. \<not> lt y x) (?A @ e # ?B)" by (rule insert_sorted_wrt [OF s tr as])
  ultimately show ?thesis by blast
qed

theorem list_insert_ordered_sorted_witness:
  "\<exists>h'. list_insert_ordered (<) two_cells 64 128 = Some h' \<and> dlist h' 64 [128]"
proof -
  have "\<exists>h' us vs. list_insert_ordered (<) two_cells 64 128 = Some h' \<and> [] = us @ vs \<and>
      dlist h' 64 (us @ 128 # vs) \<and> sorted_wrt (\<lambda>x y. \<not> y < x) (us @ 128 # vs)"
    by (rule list_insert_ordered_sorted [OF two_cells_dlist]) (auto simp: dlist_cells_def)
  then show ?thesis by auto
qed

end
