(* ===== verification/Kstring.thy ===== *)
theory Kstring
  imports Kbase
begin

text \<open>
  The memory and string routines of \<^verbatim>\<open>kernel/string.c\<close> on a byte-addressed memory. Loops bounded by
  a count are folds or primitive recursions on the count; loops that run to a terminating zero byte
  are \<open>partial_function (option)\<close>, where \<open>None\<close> stands for a loop that never ends. A C string is
  described by \<open>str_at m p xs\<close>: the bytes \<open>xs\<close>, none of them zero, stand at \<open>p\<close>, followed by a zero.
\<close>

type_synonym mem = "addr \<Rightarrow> byte"

section \<open>Memory blocks\<close>

definition memset :: "mem \<Rightarrow> addr \<Rightarrow> byte \<Rightarrow> nat \<Rightarrow> mem" where
  "memset m dst c n = fold (\<lambda>i m. m(add64 dst i := c)) [0..<n mod 2 ^ 32] m"

fun memcmp_loop :: "mem \<Rightarrow> addr \<Rightarrow> addr \<Rightarrow> nat \<Rightarrow> int" where
  "memcmp_loop m s1 s2 0 = 0"
| "memcmp_loop m s1 s2 (Suc n) =
     (if m s1 \<noteq> m s2 then uint (m s1) - uint (m s2) else memcmp_loop m (s1 + 1) (s2 + 1) n)"

definition memcmp :: "mem \<Rightarrow> addr \<Rightarrow> addr \<Rightarrow> nat \<Rightarrow> int" where
  "memcmp m v1 v2 n = memcmp_loop m v1 v2 (n mod 2 ^ 32)"

fun copy_down :: "mem \<Rightarrow> addr \<Rightarrow> addr \<Rightarrow> nat \<Rightarrow> mem" where
  "copy_down m d s 0 = m"
| "copy_down m d s (Suc n) = copy_down (m(d - 1 := m (s - 1))) (d - 1) (s - 1) n"

fun copy_up :: "mem \<Rightarrow> addr \<Rightarrow> addr \<Rightarrow> nat \<Rightarrow> mem" where
  "copy_up m d s 0 = m"
| "copy_up m d s (Suc n) = copy_up (m(d := m s)) (d + 1) (s + 1) n"

definition memmove :: "mem \<Rightarrow> addr \<Rightarrow> addr \<Rightarrow> nat \<Rightarrow> mem" where
  "memmove m dst src n =
     (let n = n mod 2 ^ 32
      in if src < dst \<and> src + n > dst then copy_down m (dst + n) (src + n) n else copy_up m dst src n)"

definition memcpy :: "mem \<Rightarrow> addr \<Rightarrow> addr \<Rightarrow> nat \<Rightarrow> mem" where
  "memcpy m dst src n = memmove m dst src n"

section \<open>Strings\<close>

definition uchar_diff :: "byte \<Rightarrow> byte \<Rightarrow> int" where
  "uchar_diff a b = uint a - uint b"

fun strncmp :: "mem \<Rightarrow> addr \<Rightarrow> addr \<Rightarrow> nat \<Rightarrow> int" where
  "strncmp m p q 0 = 0"
| "strncmp m p q (Suc n) =
     (if m p \<noteq> 0 \<and> m p = m q then strncmp m (p + 1) (q + 1) n else uchar_diff (m p) (m q))"

text \<open>
  \<open>strncpy_copy\<close> is the first loop of \<^verbatim>\<open>strncpy\<close>; it returns the memory, the position it
  reached and the count left. The C loops use \<^verbatim>\<open>n-- > 0\<close>, which leaves -1 when the count runs
  out, so the second loop then does nothing, as it does here with 0.
\<close>

fun strncpy_copy :: "mem \<Rightarrow> addr \<Rightarrow> addr \<Rightarrow> nat \<Rightarrow> mem \<times> addr \<times> nat" where
  "strncpy_copy m s t 0 = (m, s, 0)"
| "strncpy_copy m s t (Suc n) =
     (let m1 = m(s := m t) in if m1 s \<noteq> 0 then strncpy_copy m1 (s + 1) (t + 1) n else (m1, s + 1, n))"

fun fill_zero :: "mem \<Rightarrow> addr \<Rightarrow> nat \<Rightarrow> mem" where
  "fill_zero m s 0 = m"
| "fill_zero m s (Suc n) = fill_zero (m(s := 0)) (s + 1) n"

definition strncpy :: "mem \<Rightarrow> addr \<Rightarrow> addr \<Rightarrow> int \<Rightarrow> mem" where
  "strncpy m s t n = (case strncpy_copy m s t (nat n) of (m1, s1, k) \<Rightarrow> fill_zero m1 s1 k)"

fun safestrcpy_copy :: "mem \<Rightarrow> addr \<Rightarrow> addr \<Rightarrow> nat \<Rightarrow> mem \<times> addr" where
  "safestrcpy_copy m s t 0 = (m, s)"
| "safestrcpy_copy m s t (Suc n) =
     (let m1 = m(s := m t) in if m1 s \<noteq> 0 then safestrcpy_copy m1 (s + 1) (t + 1) n else (m1, s + 1))"

definition safestrcpy :: "mem \<Rightarrow> addr \<Rightarrow> addr \<Rightarrow> int \<Rightarrow> mem" where
  "safestrcpy m s t n =
     (if n \<le> 0 then m
      else case safestrcpy_copy m s t (nat (n - 1)) of (m1, s1) \<Rightarrow> m1(s1 := 0))"

partial_function (option) strlen_from :: "mem \<Rightarrow> addr \<Rightarrow> nat \<Rightarrow> nat option" where
  "strlen_from m s n = (if m (s + n) \<noteq> 0 then strlen_from m s (n + 1) else Some n)"

definition strlen :: "mem \<Rightarrow> addr \<Rightarrow> nat option" where
  "strlen m s = strlen_from m s 0"

partial_function (option) strcpy :: "mem \<Rightarrow> addr \<Rightarrow> addr \<Rightarrow> mem option" where
  "strcpy m s t =
     (let m1 = m(s := m t) in if m1 s \<noteq> 0 then strcpy m1 (s + 1) (t + 1) else Some m1)"

partial_function (option) strcmp :: "mem \<Rightarrow> addr \<Rightarrow> addr \<Rightarrow> int option" where
  "strcmp m p q =
     (if m p \<noteq> 0 \<and> m p = m q then strcmp m (p + 1) (q + 1) else Some (uchar_diff (m p) (m q)))"

partial_function (option) str_end :: "mem \<Rightarrow> addr \<Rightarrow> addr option" where
  "str_end m p = (if m p \<noteq> 0 then str_end m (p + 1) else Some p)"

partial_function (option) strcat_copy :: "mem \<Rightarrow> addr \<Rightarrow> addr \<Rightarrow> mem option" where
  "strcat_copy m p src =
     (if m src \<noteq> 0 then strcat_copy (m(p := m src)) (p + 1) (src + 1) else Some (m(p := 0)))"

definition strcat :: "mem \<Rightarrow> addr \<Rightarrow> addr \<Rightarrow> mem option" where
  "strcat m dest src = Option.bind (str_end m dest) (\<lambda>p. strcat_copy m p src)"

fun strncat_copy :: "mem \<Rightarrow> addr \<Rightarrow> addr \<Rightarrow> nat \<Rightarrow> mem" where
  "strncat_copy m p src 0 = m(p := 0)"
| "strncat_copy m p src (Suc n) =
     (if m src \<noteq> 0 then strncat_copy (m(p := m src)) (p + 1) (src + 1) n else m(p := 0))"

definition strncat :: "mem \<Rightarrow> addr \<Rightarrow> addr \<Rightarrow> nat \<Rightarrow> mem option" where
  "strncat m dest src n = map_option (\<lambda>p. strncat_copy m p src (n mod 2 ^ 32)) (str_end m dest)"

text \<open>Pointers that may be \<^verbatim>\<open>NULL\<close> are addresses with 0 for \<^verbatim>\<open>NULL\<close>.\<close>

partial_function (option) strrchr_from :: "mem \<Rightarrow> addr \<Rightarrow> byte \<Rightarrow> addr \<Rightarrow> addr option" where
  "strrchr_from m s c found =
     (if m s \<noteq> 0 then strrchr_from m (s + 1) c (if m s = c then s else found)
      else if c = 0 then Some s else Some found)"

definition strrchr :: "mem \<Rightarrow> addr \<Rightarrow> byte \<Rightarrow> addr option" where
  "strrchr m s c = strrchr_from m s c 0"

partial_function (option) strchr :: "mem \<Rightarrow> addr \<Rightarrow> byte \<Rightarrow> addr option" where
  "strchr m s c =
     (if m s \<noteq> 0 then if m s = c then Some s else strchr m (s + 1) c
      else if c = 0 then Some s else Some 0)"

text \<open>The inner loop of \<^verbatim>\<open>strstr\<close> returns where it stopped in the needle.\<close>

partial_function (option) match_from :: "mem \<Rightarrow> addr \<Rightarrow> addr \<Rightarrow> addr option" where
  "match_from m s1 s2 =
     (if m s1 \<noteq> 0 \<and> m s2 \<noteq> 0 \<and> m s1 = m s2 then match_from m (s1 + 1) (s2 + 1) else Some s2)"

partial_function (option) strstr_from :: "mem \<Rightarrow> addr \<Rightarrow> addr \<Rightarrow> addr option" where
  "strstr_from m current p2 =
     (if m current \<noteq> 0 then
        (case match_from m current p2 of
           None \<Rightarrow> None
         | Some s2 \<Rightarrow> if m s2 = 0 then Some current else strstr_from m (current + 1) p2)
      else Some 0)"

definition strstr :: "mem \<Rightarrow> addr \<Rightarrow> addr \<Rightarrow> addr option" where
  "strstr m p1 p2 = (if m p2 = 0 then Some p1 else strstr_from m p1 p2)"

section \<open>Numbers\<close>

definition is_space :: "byte \<Rightarrow> bool" where
  "is_space c \<longleftrightarrow> c = 32 \<or> c = 9 \<or> c = 10 \<or> c = 13 \<or> c = 12 \<or> c = 11"

partial_function (option) skip_space :: "mem \<Rightarrow> addr \<Rightarrow> addr option" where
  "skip_space m p = (if is_space (m p) then skip_space m (p + 1) else Some p)"

text \<open>Signed overflow is undefined in C; the accumulator is an unbounded integer here.\<close>

partial_function (option) atoi_digits :: "mem \<Rightarrow> addr \<Rightarrow> int \<Rightarrow> int option" where
  "atoi_digits m p result =
     (if 48 \<le> m p \<and> m p \<le> 57 then atoi_digits m (p + 1) (result * 10 + (uint (m p) - 48)) else Some result)"

definition atoi :: "mem \<Rightarrow> addr \<Rightarrow> int option" where
  "atoi m str =
     (case skip_space m str of
        None \<Rightarrow> None
      | Some p \<Rightarrow>
          (if m p = 45 then map_option uminus (atoi_digits m (p + 1) 0)
           else if m p = 43 then atoi_digits m (p + 1) 0
           else atoi_digits m p 0))"

section \<open>Tokens\<close>

text \<open>
  \<^verbatim>\<open>strtok\<close> keeps its position in the static variable \<^verbatim>\<open>last_str\<close>, an argument and a result here
  (0 for \<^verbatim>\<open>NULL\<close>). \<open>is_delim\<close> is the inner loop over the delimiters.
\<close>

partial_function (option) is_delim :: "mem \<Rightarrow> byte \<Rightarrow> addr \<Rightarrow> bool option" where
  "is_delim m c d = (if m d \<noteq> 0 then if c = m d then Some True else is_delim m c (d + 1) else Some False)"

partial_function (option) skip_delims :: "mem \<Rightarrow> addr \<Rightarrow> addr \<Rightarrow> addr option" where
  "skip_delims m p delim =
     (if m p \<noteq> 0 then
        (case is_delim m (m p) delim of
           None \<Rightarrow> None
         | Some b \<Rightarrow> if \<not> b then Some p else skip_delims m (p + 1) delim)
      else Some p)"

partial_function (option) token_end :: "mem \<Rightarrow> addr \<Rightarrow> addr \<Rightarrow> addr option" where
  "token_end m p delim =
     (if m p \<noteq> 0 then
        (case is_delim m (m p) delim of
           None \<Rightarrow> None
         | Some b \<Rightarrow> if b then Some p else token_end m (p + 1) delim)
      else Some p)"

definition strtok :: "mem \<Rightarrow> addr \<Rightarrow> addr \<Rightarrow> addr \<Rightarrow> (addr \<times> addr \<times> mem) option" where
  "strtok m last_str str delim =
     (let last_str = (if str \<noteq> 0 then str else last_str)
      in if last_str = 0 then Some (0, last_str, m)
         else case skip_delims m last_str delim of
           None \<Rightarrow> None
         | Some token_start \<Rightarrow>
             (if m token_start = 0 then Some (0, 0, m)
              else case token_end m token_start delim of
                None \<Rightarrow> None
              | Some e \<Rightarrow>
                  (if m e \<noteq> 0 then Some (token_start, e + 1, m(e := 0))
                   else Some (token_start, 0, m))))"

section \<open>Memory blocks: lemmas\<close>

lemma fold_fill:
  "d + n \<le> 2 ^ 64 \<Longrightarrow>
   fold (\<lambda>i m. m(add64 d i := c)) [0..<n] m = (\<lambda>a. if d \<le> a \<and> a < d + n then c else m a)"
  by (induction n) (auto simp: add64_def fun_eq_iff)

lemma memset_apply:
  assumes "d + n \<le> 2 ^ 64" "n < 2 ^ 32"
  shows "memset m d c n = (\<lambda>a. if d \<le> a \<and> a < d + n then c else m a)"
  using assms by (simp add: memset_def fold_fill)

lemma copy_down_apply:
  "s < d \<Longrightarrow> copy_down m (d + n) (s + n) n = (\<lambda>a. if d \<le> a \<and> a < d + n then m (s + (a - d)) else m a)"
  by (induction n arbitrary: m) (auto simp: fun_eq_iff)

lemma copy_up_apply:
  "d \<le> s \<or> s + n \<le> d \<Longrightarrow> copy_up m d s n = (\<lambda>a. if d \<le> a \<and> a < d + n then m (s + (a - d)) else m a)"
proof (induction n arbitrary: m d s)
  case (Suc n)
  then have "Suc d \<le> Suc s \<or> Suc s + n \<le> Suc d" by auto
  note IH = Suc.IH [OF this]
  have "Suc s + (a - Suc d) \<noteq> d \<and> Suc s + (a - Suc d) = s + (a - d)" if "Suc d \<le> a" "a < Suc d + n" for a
    using Suc.prems that by linarith
  then show ?case by (auto simp: IH fun_eq_iff le_Suc_eq simp del: add_Suc)
qed (auto simp: fun_eq_iff)

text \<open>Whatever the overlap, \<^verbatim>\<open>memmove\<close> moves the original bytes.\<close>

lemma memmove_apply:
  assumes "n < 2 ^ 32"
  shows "memmove m d s n = (\<lambda>a. if d \<le> a \<and> a < d + n then m (s + (a - d)) else m a)"
  using assms copy_down_apply [of s d m n] copy_up_apply [of d s n m]
  by (auto simp: memmove_def)

lemma memcmp_loop_zero: "memcmp_loop m p q n = 0 \<longleftrightarrow> (\<forall>i < n. m (p + i) = m (q + i))"
proof (induction n arbitrary: p q)
  case (Suc n)
  have "uint (m p) - uint (m q) = 0 \<longleftrightarrow> m p = m q" by (auto simp: word_uint_eq_iff)
  then show ?case using Suc [of "p + 1" "q + 1"] by (auto simp: All_less_Suc2)
qed simp

section \<open>Strings: lemmas\<close>

definition str_at :: "mem \<Rightarrow> addr \<Rightarrow> byte list \<Rightarrow> bool" where
  "str_at m p xs \<longleftrightarrow> 0 \<notin> set xs \<and> (\<forall>i < length xs. m (p + i) = xs ! i) \<and> m (p + length xs) = 0"

lemma str_at_Nil [simp]: "str_at m p [] \<longleftrightarrow> m p = 0"
  by (simp add: str_at_def)

lemma str_at_Cons [simp]: "str_at m p (x # xs) \<longleftrightarrow> x \<noteq> 0 \<and> m p = x \<and> str_at m (p + 1) xs"
  by (auto simp: str_at_def All_less_Suc2)

lemma str_at_append:
  "str_at m p (xs @ ys) \<longleftrightarrow> 0 \<notin> set xs \<and> (\<forall>i < length xs. m (p + i) = xs ! i) \<and> str_at m (p + length xs) ys"
  by (induction xs arbitrary: p) (auto simp: All_less_Suc2)

lemma str_at_cong:
  assumes "str_at m p xs" "\<And>a. p \<le> a \<Longrightarrow> a \<le> p + length xs \<Longrightarrow> m' a = m a"
  shows "str_at m' p xs"
  using assms by (auto simp: str_at_def)

lemma str_at_unique: "str_at m p xs \<Longrightarrow> str_at m p ys \<Longrightarrow> xs = ys"
proof (induction xs arbitrary: p ys)
  case Nil then show ?case by (cases ys) auto
next
  case (Cons x xs)
  then obtain ys' where "ys = x # ys'" "str_at m (p + 1) ys'" by (cases ys) auto
  then show ?case using Cons by auto
qed

lemma strlen_from_str: "str_at m (p + n) xs \<Longrightarrow> strlen_from m p n = Some (n + length xs)"
proof (induction xs arbitrary: n)
  case Nil then show ?case by (subst strlen_from.simps) simp
next
  case (Cons x xs) then show ?case by (subst strlen_from.simps) simp
qed

lemma strlen_str: "str_at m p xs \<Longrightarrow> strlen m p = Some (length xs)"
  using strlen_from_str [of m p 0 xs] by (simp add: strlen_def)

lemma str_end_str: "str_at m p xs \<Longrightarrow> str_end m p = Some (p + length xs)"
proof (induction xs arbitrary: p)
  case Nil then show ?case by (subst str_end.simps) simp
next
  case (Cons x xs) then show ?case by (subst str_end.simps) simp
qed

text \<open>The order \<^verbatim>\<open>strcmp\<close> computes, on byte lists.\<close>

fun cmp_bytes :: "byte list \<Rightarrow> byte list \<Rightarrow> int" where
  "cmp_bytes [] [] = 0"
| "cmp_bytes [] (y # ys) = - uint y"
| "cmp_bytes (x # xs) [] = uint x"
| "cmp_bytes (x # xs) (y # ys) = (if x = y then cmp_bytes xs ys else uint x - uint y)"

lemma uint_pos: "(x :: byte) \<noteq> 0 \<Longrightarrow> 0 < uint x"
  using uint_ge_0 [of x] by (simp add: word_uint_eq_iff order_less_le)

lemma strcmp_str:
  "str_at m p xs \<Longrightarrow> str_at m q ys \<Longrightarrow> strcmp m p q = Some (cmp_bytes xs ys)"
proof (induction xs ys arbitrary: p q rule: cmp_bytes.induct)
  case 1 then show ?case by (subst strcmp.simps) (simp add: uchar_diff_def)
next
  case (2 y ys) then show ?case by (subst strcmp.simps) (simp add: uchar_diff_def)
next
  case (3 x xs) then show ?case by (subst strcmp.simps) (simp add: uchar_diff_def)
next
  case (4 x xs y ys) then show ?case by (subst strcmp.simps) (auto simp: uchar_diff_def)
qed

lemma cmp_bytes_zero: "0 \<notin> set xs \<Longrightarrow> 0 \<notin> set ys \<Longrightarrow> cmp_bytes xs ys = 0 \<longleftrightarrow> xs = ys"
  by (induction xs ys rule: cmp_bytes.induct) (auto simp: word_uint_eq_iff)

lemma cmp_bytes_less: "0 \<notin> set xs \<Longrightarrow> 0 \<notin> set ys \<Longrightarrow> cmp_bytes xs ys < 0 \<longleftrightarrow> ord_class.lexordp xs ys"
proof (induction xs ys rule: cmp_bytes.induct)
  case (2 y ys) then show ?case using uint_pos [of y] by auto
next
  case (3 x xs) then show ?case using uint_pos [of x] by auto
next
  case (4 x xs y ys) then show ?case by (auto simp: word_less_def word_uint_eq_iff)
qed simp

text \<open>The copying routines leave a copy of the string and touch nothing else.\<close>

lemma strcpy_str:
  assumes "str_at m t xs" "s + length xs < t \<or> t + length xs < s"
  shows "strcpy m s t = Some (\<lambda>a. if s \<le> a \<and> a \<le> s + length xs then m (t + (a - s)) else m a)"
  using assms
proof (induction xs arbitrary: m s t)
  case Nil then show ?case by (subst strcpy.simps) (auto simp: fun_eq_iff)
next
  case (Cons x xs)
  let ?m = "m(s := m t)"
  have "str_at ?m (t + 1) xs" by (rule str_at_cong [of m]) (use Cons.prems in auto)
  moreover have "s + 1 + length xs < t + 1 \<or> t + 1 + length xs < s + 1" using Cons.prems by auto
  ultimately have "strcpy ?m (s + 1) (t + 1) =
      Some (\<lambda>a. if s + 1 \<le> a \<and> a \<le> s + 1 + length xs then ?m (t + 1 + (a - (s + 1))) else ?m a)" by (rule Cons.IH)
  moreover have "(\<lambda>a. if s + 1 \<le> a \<and> a \<le> s + 1 + length xs then ?m (t + 1 + (a - (s + 1))) else ?m a) =
      (\<lambda>a. if s \<le> a \<and> a \<le> s + length (x # xs) then m (t + (a - s)) else m a)"
  proof
    fix a
    have "t + 1 + (a - (s + 1)) \<noteq> s \<and> t + 1 + (a - (s + 1)) = t + (a - s)" if "s + 1 \<le> a" "a \<le> s + 1 + length xs"
      using Cons.prems that by auto
    then show "(if s + 1 \<le> a \<and> a \<le> s + 1 + length xs then ?m (t + 1 + (a - (s + 1))) else ?m a) =
      (if s \<le> a \<and> a \<le> s + length (x # xs) then m (t + (a - s)) else m a)" by (cases "a = s") auto
  qed
  ultimately show ?case using Cons.prems by (subst strcpy.simps) (simp add: Let_def)
qed

lemma safestrcpy_copy_str:
  assumes "str_at m t xs" "s + n < t \<or> t + length xs < s"
  shows "\<exists>e. safestrcpy_copy m s t n = (e, s + min n (Suc (length xs))) \<and>
    (\<forall>a. e a = (if s \<le> a \<and> a < s + min n (Suc (length xs)) then m (t + (a - s)) else m a))"
  using assms
proof (induction n arbitrary: m s t xs)
  case 0 then show ?case by auto
next
  case (Suc n)
  let ?m = "m(s := m t)"
  show ?case
  proof (cases xs)
    case Nil then show ?thesis using Suc.prems by auto
  next
    case (Cons x ys)
    have "str_at ?m (t + 1) ys" by (rule str_at_cong [of m]) (use Suc.prems Cons in auto)
    moreover have "s + 1 + n < t + 1 \<or> t + 1 + length ys < s + 1" using Suc.prems Cons by auto
    ultimately obtain e where
      e: "safestrcpy_copy ?m (s + 1) (t + 1) n = (e, s + 1 + min n (Suc (length ys)))"
        "\<And>a. e a = (if s + 1 \<le> a \<and> a < s + 1 + min n (Suc (length ys)) then ?m (t + 1 + (a - (s + 1))) else ?m a)"
      using Suc.IH [of ?m "t + 1" ys "s + 1"] by blast
    have "e a = (if s \<le> a \<and> a < s + min (Suc n) (Suc (length xs)) then m (t + (a - s)) else m a)" for a
    proof -
      have "t + 1 + (a - (s + 1)) \<noteq> s \<and> t + 1 + (a - (s + 1)) = t + (a - s)"
        if "s + 1 \<le> a" "a < s + 1 + min n (Suc (length ys))"
        using Suc.prems Cons that by auto
      then show ?thesis unfolding e(2) using Cons by (cases "a = s") auto
    qed
    then show ?thesis using e(1) Suc.prems Cons by (auto simp: Let_def)
  qed
qed

lemma strcat_copy_str:
  assumes "str_at m t xs" "p + length xs < t \<or> t + length xs < p"
  shows "strcat_copy m p t = Some (\<lambda>a. if p \<le> a \<and> a \<le> p + length xs then m (t + (a - p)) else m a)"
  using assms
proof (induction xs arbitrary: m p t)
  case Nil then show ?case by (subst strcat_copy.simps) (auto simp: fun_eq_iff)
next
  case (Cons x xs)
  let ?m = "m(p := m t)"
  have "str_at ?m (t + 1) xs" by (rule str_at_cong [of m]) (use Cons.prems in auto)
  moreover have "p + 1 + length xs < t + 1 \<or> t + 1 + length xs < p + 1" using Cons.prems by auto
  ultimately have "strcat_copy ?m (p + 1) (t + 1) =
      Some (\<lambda>a. if p + 1 \<le> a \<and> a \<le> p + 1 + length xs then ?m (t + 1 + (a - (p + 1))) else ?m a)" by (rule Cons.IH)
  moreover have "(if p + 1 \<le> a \<and> a \<le> p + 1 + length xs then ?m (t + 1 + (a - (p + 1))) else ?m a) =
      (if p \<le> a \<and> a \<le> p + length (x # xs) then m (t + (a - p)) else m a)" for a
  proof -
    have "t + 1 + (a - (p + 1)) \<noteq> p \<and> t + 1 + (a - (p + 1)) = t + (a - p)" if "p + 1 \<le> a" "a \<le> p + 1 + length xs"
      using Cons.prems that by auto
    then show ?thesis by (cases "a = p") auto
  qed
  ultimately show ?case using Cons.prems by (subst strcat_copy.simps) simp
qed

lemma strcat_str:
  assumes d: "str_at m d ys" and s: "str_at m t xs"
    and sep: "d + length ys + length xs < t \<or> t + length xs < d"
  shows "\<exists>m'. strcat m d t = Some m' \<and> str_at m' d (ys @ xs) \<and>
    (\<forall>a. a < d + length ys \<or> d + length ys + length xs < a \<longrightarrow> m' a = m a)"
proof -
  let ?p = "d + length ys"
  have e: "strcat_copy m ?p t = Some (\<lambda>a. if ?p \<le> a \<and> a \<le> ?p + length xs then m (t + (a - ?p)) else m a)"
    by (rule strcat_copy_str [OF s]) (use sep in auto)
  have "t + i - length ys = t + (i - length ys)" if "\<not> i < length ys" for i using that by simp
  with e show ?thesis using d s
    by (auto simp: strcat_def str_end_str [OF d] str_at_append str_at_def nth_append
        simp del: Nat.add_diff_assoc Nat.add_diff_assoc2)
qed

section \<open>Searching\<close>

definition prefix_at :: "byte list \<Rightarrow> byte list \<Rightarrow> nat \<Rightarrow> bool" where
  "prefix_at ys xs i \<longleftrightarrow> take (length ys) (drop i xs) = ys"

lemma match_from_str:
  "str_at m p xs \<Longrightarrow> str_at m q ys \<Longrightarrow> \<exists>e. match_from m p q = Some e \<and> (m e = 0 \<longleftrightarrow> take (length ys) xs = ys)"
proof (induction ys arbitrary: p q xs)
  case Nil then show ?case by (subst match_from.simps) auto
next
  case (Cons y ys)
  show ?case
  proof (cases xs)
    case Nil then show ?thesis using Cons.prems by (subst match_from.simps) auto
  next
    case (Cons x zs)
    then show ?thesis using Cons.prems Cons.IH [of "p + 1" zs "q + 1"] by (subst match_from.simps) auto
  qed
qed

lemma prefix_at_Cons [simp]:
  "prefix_at ys (x # xs) (Suc i) = prefix_at ys xs i"
  "prefix_at ys xs 0 \<longleftrightarrow> take (length ys) xs = ys"
  by (simp_all add: prefix_at_def)

definition first_at :: "byte list \<Rightarrow> byte list \<Rightarrow> nat \<Rightarrow> bool" where
  "first_at ys xs i \<longleftrightarrow> i < length xs \<and> prefix_at ys xs i \<and> (\<forall>j < i. \<not> prefix_at ys xs j)"

lemma strstr_from_str:
  assumes "str_at m p xs" "str_at m q ys"
  shows "\<exists>r. strstr_from m p q = Some r \<and>
    ((\<forall>i < length xs. \<not> prefix_at ys xs i) \<and> r = 0 \<or> (\<exists>i. first_at ys xs i \<and> r = p + i))"
  using assms(1)
proof (induction xs arbitrary: p)
  case Nil then show ?case by (subst strstr_from.simps) simp
next
  case (Cons x xs)
  obtain e where e: "match_from m p q = Some e" "m e = 0 \<longleftrightarrow> prefix_at ys (x # xs) 0"
    using match_from_str [OF Cons.prems assms(2)] by auto
  show ?case
  proof (cases "m e = 0")
    case True
    then have "first_at ys (x # xs) 0" using e(2) by (simp add: first_at_def)
    moreover have "strstr_from m p q = Some p" using Cons.prems True e(1) by (subst strstr_from.simps) simp
    ultimately show ?thesis by force
  next
    case False
    then have n: "\<not> prefix_at ys (x # xs) 0" using e(2) by simp
    have "strstr_from m p q = strstr_from m (p + 1) q" using Cons.prems False e(1) by (subst strstr_from.simps) simp
    moreover have "first_at ys xs i \<Longrightarrow> first_at ys (x # xs) (Suc i)" for i
      using n by (auto simp: first_at_def less_Suc_eq_0_disj)
    ultimately show ?thesis using Cons.IH [of "p + 1"] Cons.prems n
      by (auto simp: All_less_Suc2)
  qed
qed

section \<open>Tokens: lemmas\<close>

lemma is_delim_str: "str_at m d ds \<Longrightarrow> is_delim m c d = Some (c \<in> set ds)"
proof (induction ds arbitrary: d)
  case Nil then show ?case by (subst is_delim.simps) simp
next
  case (Cons x ds) then show ?case by (subst is_delim.simps) auto
qed

lemma skip_delims_str:
  assumes "str_at m d ds"
  shows "str_at m p xs \<Longrightarrow> skip_delims m p d = Some (p + length (takeWhile (\<lambda>c. c \<in> set ds) xs))"
proof (induction xs arbitrary: p)
  case Nil then show ?case by (subst skip_delims.simps) simp
next
  case (Cons x xs) then show ?case by (subst skip_delims.simps) (auto simp: is_delim_str [OF assms])
qed

lemma token_end_str:
  assumes "str_at m d ds"
  shows "str_at m p xs \<Longrightarrow> token_end m p d = Some (p + length (takeWhile (\<lambda>c. c \<notin> set ds) xs))"
proof (induction xs arbitrary: p)
  case Nil then show ?case by (subst token_end.simps) simp
next
  case (Cons x xs) then show ?case by (subst token_end.simps) (auto simp: is_delim_str [OF assms])
qed

text \<open>The tokens of a byte list, and what is left after the first.\<close>

abbreviation no_delims :: "byte list \<Rightarrow> byte list \<Rightarrow> byte list" where
  "no_delims ds xs \<equiv> dropWhile (\<lambda>c. c \<in> set ds) xs"

definition first_token :: "byte list \<Rightarrow> byte list \<Rightarrow> byte list" where
  "first_token ds xs = takeWhile (\<lambda>c. c \<notin> set ds) (no_delims ds xs)"

definition after_token :: "byte list \<Rightarrow> byte list \<Rightarrow> byte list" where
  "after_token ds xs = dropWhile (\<lambda>c. c \<notin> set ds) (no_delims ds xs)"

lemma after_token_length: "length (after_token ds xs) \<le> length xs"
  by (metis after_token_def length_dropWhile_le order_trans)

function tokens :: "byte list \<Rightarrow> byte list \<Rightarrow> byte list list" where
  "tokens ds xs =
     (if no_delims ds xs = [] then []
      else first_token ds xs # (if after_token ds xs = [] then [] else tokens ds (tl (after_token ds xs))))"
  by pat_completeness auto
termination
proof (relation "measure (\<lambda>(ds, xs). length xs)", goal_cases)
  case (2 ds xs)
  then show ?case using after_token_length [of ds xs] by (cases "after_token ds xs") auto
qed simp

declare tokens.simps [simp del]

lemma strtok_str:
  assumes d: "str_at m d ds" and x: "str_at m p xs" and p: "0 < p" and sep: "d + length ds < p \<or> p + length xs < d"
    and args: "lst = p \<and> str = 0 \<or> str = p"
  shows "no_delims ds xs = [] \<and> strtok m lst str d = Some (0, 0, m) \<or>
    no_delims ds xs \<noteq> [] \<and> (\<exists>a lst' m'. strtok m lst str d = Some (a, lst', m') \<and> p \<le> a \<and>
      str_at m' a (first_token ds xs) \<and>
      (if after_token ds xs = [] then lst' = 0 \<and> m' = m
       else a + length (first_token ds xs) < lst' \<and> lst' + length (tl (after_token ds xs)) = p + length xs \<and>
         str_at m' lst' (tl (after_token ds xs)) \<and> (\<forall>b. b \<noteq> a + length (first_token ds xs) \<longrightarrow> m' b = m b)))"
proof -
  let ?D = "\<lambda>c. c \<in> set ds" and ?N = "\<lambda>c. c \<notin> set ds"
  define a where "a = p + length (takeWhile ?D xs)"
  define e where "e = a + length (first_token ds xs)"
  have split: "xs = takeWhile ?D xs @ no_delims ds xs" by simp
  have rest: "no_delims ds xs = first_token ds xs @ after_token ds xs"
    unfolding first_token_def after_token_def by simp
  have ra: "str_at m a (no_delims ds xs)" using x split str_at_append unfolding a_def by metis
  have re: "str_at m e (after_token ds xs)" and z: "0 \<notin> set (first_token ds xs)"
    and ft: "\<forall>i < length (first_token ds xs). m (a + i) = first_token ds xs ! i"
    using ra rest str_at_append unfolding e_def by metis+
  have len: "length xs = length (takeWhile ?D xs) + length (first_token ds xs) + length (after_token ds xs)"
    using arg_cong [OF split, of length] arg_cong [OF rest, of length] by (metis length_append add.assoc)
  have st: "strtok m lst str d = (if m a = 0 then Some (0, 0, m) else if m e \<noteq> 0 then Some (a, e + 1, m(e := 0)) else Some (a, 0, m))"
    using args p skip_delims_str [OF d x] token_end_str [OF d ra]
    by (auto simp: strtok_def a_def e_def first_token_def Let_def)
  show ?thesis
  proof (cases "no_delims ds xs")
    case Nil
    then have "m a = 0" using ra by (metis str_at_Nil)
    then show ?thesis using Nil st by simp
  next
    case (Cons y ys)
    then have a0: "m a \<noteq> 0" using ra by simp
    show ?thesis
    proof (cases "after_token ds xs")
      case Nil
      then have "m e = 0" using re by simp
      moreover from this have "str_at m a (first_token ds xs)" using z ft unfolding str_at_def e_def by simp
      ultimately show ?thesis using st a0 Cons Nil by (auto simp: a_def)
    next
      case (Cons b bs)
      then have me: "m e \<noteq> 0" and bs: "str_at m (e + 1) bs" using re by auto
      have "str_at (m(e := 0)) a (first_token ds xs)" using z ft unfolding str_at_def e_def by simp
      moreover have "str_at (m(e := 0)) (e + 1) bs" by (rule str_at_cong [OF bs]) simp
      moreover have "e + 1 + length bs = p + length xs" using len Cons unfolding e_def a_def by simp
      ultimately show ?thesis using st a0 me Cons \<open>no_delims ds xs = y # ys\<close> by (auto simp: a_def e_def)
    qed
  qed
qed

text \<open>A whole tokenisation: a first call with the string, then calls with \<^verbatim>\<open>NULL\<close> until one fails.\<close>

fun strtok_rest :: "nat \<Rightarrow> mem \<Rightarrow> addr \<Rightarrow> addr \<Rightarrow> (addr list \<times> mem) option" where
  "strtok_rest 0 m lst delim = None"
| "strtok_rest (Suc n) m lst delim =
     (case strtok m lst 0 delim of
        None \<Rightarrow> None
      | Some (a, lst', m') \<Rightarrow>
          (if a = 0 then Some ([], m')
           else map_option (\<lambda>(as, m''). (a # as, m'')) (strtok_rest n m' lst' delim)))"

definition strtok_all :: "nat \<Rightarrow> mem \<Rightarrow> addr \<Rightarrow> addr \<Rightarrow> addr \<Rightarrow> (addr list \<times> mem) option" where
  "strtok_all n m lst str delim =
     (case strtok m lst str delim of
        None \<Rightarrow> None
      | Some (a, lst', m') \<Rightarrow>
          (if a = 0 then Some ([], m')
           else map_option (\<lambda>(as, m''). (a # as, m'')) (strtok_rest n m' lst' delim)))"

lemma strtok_all_str:
  assumes "str_at m d ds" "str_at m p xs" "0 < p" "d + length ds < p \<or> p + length xs < d"
    and "lst = p \<and> str = 0 \<or> str = p" "length xs < n"
  shows "\<exists>as m'. strtok_all n m lst str d = Some (as, m') \<and> list_all2 (str_at m') as (tokens ds xs) \<and>
    (\<forall>b. b < p \<or> p + length xs < b \<longrightarrow> m' b = m b)"
  using assms
proof (induction ds xs arbitrary: m p lst str n rule: tokens.induct)
  case (1 ds xs)
  note s = strtok_str [OF "1.prems"(1-5)]
  obtain k where n: "n = Suc k" using "1.prems"(6) by (cases n) auto
  show ?case
  proof (cases "no_delims ds xs = []")
    case True then show ?thesis using s by (auto simp: strtok_all_def tokens.simps [of ds xs])
  next
    case False
    then obtain a lst' m' where t: "strtok m lst str d = Some (a, lst', m')" "p \<le> a" "str_at m' a (first_token ds xs)"
      "if after_token ds xs = [] then lst' = 0 \<and> m' = m
       else a + length (first_token ds xs) < lst' \<and> lst' + length (tl (after_token ds xs)) = p + length xs \<and>
         str_at m' lst' (tl (after_token ds xs)) \<and> (\<forall>b. b \<noteq> a + length (first_token ds xs) \<longrightarrow> m' b = m b)"
      using s by blast
    have a: "a \<noteq> 0" using t(2) "1.prems"(3) by simp
    show ?thesis
    proof (cases "after_token ds xs = []")
      case True
      then have "strtok m' lst' 0 d = Some (0, 0, m')" using t(4) by (simp add: strtok_def)
      then show ?thesis using t a True False n by (auto simp: strtok_all_def tokens.simps [of ds xs])
    next
      case ne: False
      let ?ys = "tl (after_token ds xs)"
      have l: "a + length (first_token ds xs) < lst'" "lst' + length ?ys = p + length xs" "str_at m' lst' ?ys"
        and fr: "\<And>b. b \<noteq> a + length (first_token ds xs) \<Longrightarrow> m' b = m b" using t(4) ne by auto
      have d': "str_at m' d ds"
        by (rule str_at_cong [OF "1.prems"(1)]) (use fr l t(2) "1.prems"(4) in auto)
      have "length ?ys < k" using l "1.prems"(6) n t(2) by linarith
      moreover have "d + length ds < lst' \<or> lst' + length ?ys < d" using l t(2) "1.prems"(4) by linarith
      ultimately obtain as m'' where IH: "strtok_all k m' lst' 0 d = Some (as, m'')" "list_all2 (str_at m'') as (tokens ds ?ys)"
        "\<And>b. b < lst' \<or> lst' + length ?ys < b \<Longrightarrow> m'' b = m' b"
        using "1.IH" [OF False ne d' l(3), of lst' 0 k] l(1) by auto
      have "strtok_rest n m' lst' d = Some (as, m'')" using IH(1) n by (simp add: strtok_all_def)
      moreover have "str_at m'' a (first_token ds xs)"
        by (rule str_at_cong [OF t(3)]) (use IH(3) l in auto)
      moreover have "m'' b = m b" if "b < p \<or> p + length xs < b" for b
        using IH(3) [of b] fr [of b] l t(2) that by auto
      ultimately show ?thesis using t(1) a False ne IH(2) by (auto simp: strtok_all_def tokens.simps [of ds xs])
    qed
  qed
qed

section \<open>Properties\<close>

text \<open>A memory that holds a byte list at an address, for the concrete instances.\<close>

definition mem_of :: "addr \<Rightarrow> byte list \<Rightarrow> mem \<Rightarrow> mem" where
  "mem_of p xs m = (\<lambda>a. if p \<le> a \<and> a < p + length xs then xs ! (a - p) else m a)"

text \<open>
  \<^verbatim>\<open>memmove\<close> (and \<^verbatim>\<open>memcpy\<close>, which calls it) moves the original bytes of the source whatever way
  the two regions overlap, and changes nothing outside the destination.
\<close>

theorem memmove_correct:
  assumes "n < 2 ^ 32"
  shows "\<forall>i. (i < n \<longrightarrow> memcpy m d s n (d + i) = m (s + i)) \<and>
    (i < d \<or> d + n \<le> i \<longrightarrow> memcpy m d s n i = m i)"
  unfolding memcpy_def memmove_apply [OF assms] by auto

theorem memmove_correct_witness:
  "memcpy (mem_of 100 [1, 2, 3] (\<lambda>_. 0)) 101 100 3 103 = 3 \<and> memcpy (mem_of 100 [1, 2, 3] (\<lambda>_. 0)) 101 100 3 100 = 1"
proof -
  have "(3::nat) < 2 ^ 32" by simp
  note c = memmove_correct [OF this, of "mem_of 100 [1, 2, 3] (\<lambda>_. 0)" 101 100]
  from c [rule_format, of 2] c [rule_format, of 100] show ?thesis by (simp add: mem_of_def)
qed

text \<open>
  \<^verbatim>\<open>strcmp\<close> on two C strings ends, returns 0 exactly when they are equal and a negative number
  exactly when the first is lexicographically smaller, bytes compared as unsigned.
\<close>

theorem strcmp_correct:
  assumes "str_at m p xs" "str_at m q ys"
  shows "\<exists>r. strcmp m p q = Some r \<and> (r = 0 \<longleftrightarrow> xs = ys) \<and> (r < 0 \<longleftrightarrow> ord_class.lexordp xs ys)"
proof -
  have "0 \<notin> set xs" "0 \<notin> set ys" using assms by (auto simp: str_at_def)
  then show ?thesis using strcmp_str [OF assms] cmp_bytes_zero cmp_bytes_less by auto
qed

theorem strcmp_correct_witness:
  "\<exists>r. strcmp (mem_of 10 [97, 98, 0, 97, 200, 0] (\<lambda>_. 0)) 10 13 = Some r \<and> r < 0"
proof -
  let ?m = "mem_of 10 [97, 98, 0, 97, 200, 0] (\<lambda>_. 0)"
  have "str_at ?m 10 [97, 98]" "str_at ?m 13 [97, 200]" by (simp_all add: mem_of_def)
  from strcmp_correct [OF this] show ?thesis by auto
qed

text \<open>
  C31: \<^verbatim>\<open>safestrcpy\<close> into a buffer of \<^verbatim>\<open>n > 0\<close> bytes always leaves a terminated string, the longest
  prefix of the source that fits, and never writes outside the buffer.
\<close>

theorem safestrcpy_correct:
  assumes t: "str_at m t xs" and n: "0 < n" and sep: "s + nat n < t \<or> t + length xs < s"
  shows "str_at (safestrcpy m s t n) s (take (nat n - 1) xs) \<and>
    (\<forall>a. a < s \<or> s + nat n \<le> a \<longrightarrow> safestrcpy m s t n a = m a)"
proof -
  let ?k = "nat n - 1"
  have "s + ?k < t \<or> t + length xs < s" using sep by auto
  from safestrcpy_copy_str [OF t this] obtain e where
    e: "safestrcpy_copy m s t ?k = (e, s + min ?k (Suc (length xs)))"
      "\<And>a. e a = (if s \<le> a \<and> a < s + min ?k (Suc (length xs)) then m (t + (a - s)) else m a)" by blast
  have r: "safestrcpy m s t n = e(s + min ?k (Suc (length xs)) := 0)"
    using n e(1) by (simp add: safestrcpy_def nat_diff_distrib)
  have "0 \<notin> set (take ?k xs)" using t by (auto simp: str_at_def dest: in_set_takeD)
  then show ?thesis using t n unfolding r by (auto simp: e(2) str_at_def min_def)
qed

theorem safestrcpy_correct_witness:
  "str_at (safestrcpy (mem_of 10 [97, 98, 99, 0] (\<lambda>_. 7)) 50 10 3) 50 [97, 98]"
proof -
  have "str_at (mem_of 10 [97, 98, 99, 0] (\<lambda>_. 7)) 10 [97, 98, 99]" by (simp add: mem_of_def)
  from safestrcpy_correct [OF this, of 3 50] show ?thesis by simp
qed

text \<open>
  \<^verbatim>\<open>strstr\<close> on two C strings ends and returns the first position at which the needle occurs, or
  \<^verbatim>\<open>NULL\<close> if it occurs nowhere; the empty needle occurs at the start.
\<close>

theorem strstr_correct:
  assumes "str_at m p xs" "str_at m q ys"
  shows "\<exists>r. strstr m p q = Some r \<and>
    (if ys = [] then r = p
     else if \<exists>i. first_at ys xs i then \<exists>i. first_at ys xs i \<and> r = p + i
     else r = 0 \<and> (\<forall>i. \<not> prefix_at ys xs i))"
proof (cases ys)
  case Nil then show ?thesis using assms by (simp add: strstr_def)
next
  case (Cons y zs)
  have "\<not> prefix_at ys xs i" if "length xs \<le> i" for i using that Cons by (simp add: prefix_at_def)
  moreover have "\<exists>i. first_at ys xs i" if "prefix_at ys xs j" "j < length xs" for j
  proof -
    let ?i = "LEAST j. j < length xs \<and> prefix_at ys xs j"
    have "?i < length xs \<and> prefix_at ys xs ?i" by (rule LeastI [of _ j]) (use that in simp)
    moreover from this have "\<forall>j < ?i. \<not> prefix_at ys xs j" using not_less_Least by fastforce
    ultimately show ?thesis unfolding first_at_def by blast
  qed
  moreover have "strstr m p q = strstr_from m p q" using assms Cons by (simp add: strstr_def)
  ultimately show ?thesis
    using strstr_from_str [OF assms] Cons by (metis first_at_def list.distinct(1) not_le)
qed

theorem strstr_correct_witness:
  "strstr (mem_of 10 [97, 98, 97, 99, 0, 97, 99, 0] (\<lambda>_. 0)) 10 15 = Some 12"
proof -
  let ?m = "mem_of 10 [97, 98, 97, 99, 0, 97, 99, 0] (\<lambda>_. 0)"
  have "str_at ?m 10 [97, 98, 97, 99]" "str_at ?m 15 [97, 99]" by (simp_all add: mem_of_def)
  note s = strstr_correct [OF this]
  have f: "first_at [97, 99] [97, 98, 97, 99] i \<longleftrightarrow> i = 2" for i
    by (auto simp: first_at_def prefix_at_def less_Suc_eq numeral_eq_Suc)
  have "\<exists>i. first_at [97, 99] [97, 98, 97, 99] i" unfolding f by simp
  then show ?thesis using s unfolding f by simp
qed

text \<open>
  Calling \<^verbatim>\<open>strtok\<close> once with a C string and then with \<^verbatim>\<open>NULL\<close> until it returns \<^verbatim>\<open>NULL\<close> ends after
  at most one call more than the string has bytes and returns, in order, pointers to exactly the
  maximal runs of non-delimiter bytes, each terminated in place; no byte outside the string changes.
\<close>

theorem strtok_correct:
  assumes "str_at m d ds" "str_at m p xs" "0 < p" "d + length ds < p \<or> p + length xs < d"
  shows "\<exists>as m'. strtok_all (length xs + 1) m lst p d = Some (as, m') \<and>
    list_all2 (str_at m') as (tokens ds xs) \<and> (\<forall>b. b < p \<or> p + length xs < b \<longrightarrow> m' b = m b)"
  using strtok_all_str [OF assms, of lst p "length xs + 1"] by simp

theorem strtok_correct_witness:
  "\<exists>as m'. strtok_all 6 (mem_of 10 [47, 97, 47, 47, 98, 0, 47, 0] (\<lambda>_. 0)) 0 10 16 = Some (as, m') \<and>
    list_all2 (str_at m') as [[97], [98]]"
proof -
  let ?m = "mem_of 10 [47, 97, 47, 47, 98, 0, 47, 0] (\<lambda>_. 0)"
  have "str_at ?m 16 [47]" "str_at ?m 10 [47, 97, 47, 47, 98]" by (simp_all add: mem_of_def)
  from strtok_correct [OF this, of 0] obtain as m' where
    s: "strtok_all (length [47, 97, 47, 47, 98 :: byte] + 1) ?m 0 10 16 = Some (as, m')"
    "list_all2 (str_at m') as (tokens [47] [47, 97, 47, 47, 98])" by auto
  have "tokens [47] [47, 97, 47, 47, 98] = [[97], [98]]" by (simp add: tokens.simps first_token_def after_token_def)
  moreover have "length [47, 97, 47, 47, 98 :: byte] + 1 = 6" by simp
  ultimately show ?thesis using s by metis
qed

end
