(* ===== verification/Buddy.thy ===== *)
theory Buddy
  imports Klist Kstring
begin

text \<open>
  The physical page allocator of \<^verbatim>\<open>kernel/pmem.c\<close>: the buddy system over
  \<^verbatim>\<open>buddy_sys\<close>, the page interface \<^verbatim>\<open>pmem_alloc_pages\<close> / \<^verbatim>\<open>pmem_free_pages\<close> with its
  emergency path, and \<^verbatim>\<open>kalloc\<close> / \<^verbatim>\<open>kfree\<close>.

  The state \<open>buddy_system\<close> has the fields of the C struct. The free lists are sequences of page
  indices, the index of the \<^verbatim>\<open>buddy_node_t\<close> whose \<^verbatim>\<open>elem\<close> is linked; the theory \<open>Klist\<close> shows
  that the operations of \<^verbatim>\<open>list.c\<close> implement these sequence operations on any heap that holds
  the lists. Unlinking a node that is in no list is undefined behaviour of \<^verbatim>\<open>list_remove\<close> and
  is \<open>None\<close> here. \<open>None\<close> as a result of an operation is a panic or undefined behaviour; the
  field \<open>bs_lock\<close> records whether \<^verbatim>\<open>buddy_sys.lock\<close> is held, and acquiring it while it is held
  panics (\<^verbatim>\<open>double acquire\<close> of \<^verbatim>\<open>spinlock.c\<close>). The field \<open>bs_mem\<close> is the content of physical
  memory outside the metadata. Diagnostic output is not modelled.
\<close>

section \<open>State\<close>

abbreviation BUDDY_MAX_ORDER :: nat where
  "BUDDY_MAX_ORDER \<equiv> 11"

record buddy_node =
  nd_addr :: addr
  nd_order :: int

type_synonym bitmap64 = "nat \<Rightarrow> 64 word"

record buddy_system =
  mem_start :: addr
  mem_end :: addr
  total_pages :: nat
  bs_bitmap :: bitmap64
  bs_nodes :: "nat \<Rightarrow> buddy_node"
  free_lists :: "nat \<Rightarrow> nat list"
  bs_lock :: bool
  bs_mem :: mem

definition bm_test :: "bitmap64 \<Rightarrow> nat \<Rightarrow> bool" where
  "bm_test bm page \<longleftrightarrow> bm (drop_bit 6 page) AND push_bit (page AND 63) 1 \<noteq> 0"

definition bm_set :: "bitmap64 \<Rightarrow> nat \<Rightarrow> bitmap64" where
  "bm_set bm page =
     bm(drop_bit 6 page := bm (drop_bit 6 page) OR push_bit (page AND 63) 1)"

definition bm_clear :: "bitmap64 \<Rightarrow> nat \<Rightarrow> bitmap64" where
  "bm_clear bm page =
     bm(drop_bit 6 page := bm (drop_bit 6 page) AND NOT (push_bit (page AND 63) 1))"

abbreviation page_used :: "buddy_system \<Rightarrow> nat \<Rightarrow> bool" where
  "page_used s page \<equiv> bm_test (bs_bitmap s) page"

definition page_index :: "buddy_system \<Rightarrow> addr \<Rightarrow> nat" where
  "page_index s a = sub64 a (mem_start s) div PGSIZE"

definition set_node :: "buddy_system \<Rightarrow> nat \<Rightarrow> addr \<Rightarrow> int \<Rightarrow> buddy_system" where
  "set_node s i a ord = s\<lparr>bs_nodes := (bs_nodes s)(i := \<lparr>nd_addr = a, nd_order = ord\<rparr>)\<rparr>"

definition push_free :: "buddy_system \<Rightarrow> nat \<Rightarrow> nat \<Rightarrow> buddy_system" where
  "push_free s k i = s\<lparr>free_lists := (free_lists s)(k := i # free_lists s k)\<rparr>"

definition unlink_free :: "buddy_system \<Rightarrow> nat \<Rightarrow> buddy_system option" where
  "unlink_free s i =
     (if list_ex (\<lambda>k. i \<in> set (free_lists s k)) [0..<BUDDY_MAX_ORDER + 1]
      then Some (s\<lparr>free_lists := (\<lambda>k. remove1 i (free_lists s k))\<rparr>)
      else None)"

section \<open>Helpers of the allocator\<close>

function get_order_loop :: "nat \<Rightarrow> nat \<Rightarrow> nat \<Rightarrow> nat" where
  "get_order_loop sz temp order =
     (if temp < sz \<and> order < BUDDY_MAX_ORDER
      then get_order_loop sz (shl64 temp 1) (order + 1) else order)"
  by pat_completeness auto
termination
  by (relation "measure (\<lambda>(sz, temp, order). BUDDY_MAX_ORDER - order)") auto

declare get_order_loop.simps [simp del]

definition get_order :: "nat \<Rightarrow> int" where
  "get_order sz =
     (let order = get_order_loop sz 1 0
      in if order \<ge> BUDDY_MAX_ORDER then -1 else int order)"

definition get_buddy_addr :: "addr \<Rightarrow> nat \<Rightarrow> addr" where
  "get_buddy_addr a order = a XOR shl64 PGSIZE order"

definition is_buddy_available :: "buddy_system \<Rightarrow> addr \<Rightarrow> nat \<Rightarrow> bool" where
  "is_buddy_available s a order =
     (let block_size = shl64 PGSIZE order
      in if a < mem_start s \<or> a \<ge> mem_end s \<or> sub64 a (mem_start s) mod block_size \<noteq> 0 then False
         else
           let page_idx = page_index s a; node = bs_nodes s page_idx
           in nd_addr node = a \<and> nd_order node = int order \<and> \<not> page_used s page_idx)"

definition set_buddy_used :: "buddy_system \<Rightarrow> addr \<Rightarrow> nat \<Rightarrow> buddy_system" where
  "set_buddy_used s a order =
     (let start_page = page_index s a;
          end_page = start_page + shl64 PGSIZE order div PGSIZE
      in s\<lparr>bs_bitmap := fold (\<lambda>page bm. bm_set bm page) [start_page..<end_page] (bs_bitmap s)\<rparr>)"

definition set_buddy_free :: "buddy_system \<Rightarrow> addr \<Rightarrow> nat \<Rightarrow> buddy_system" where
  "set_buddy_free s a order =
     (let start_page = page_index s a;
          end_page = start_page + shl64 PGSIZE order div PGSIZE
      in s\<lparr>bs_bitmap := fold (\<lambda>page bm. bm_clear bm page) [start_page..<end_page] (bs_bitmap s)\<rparr>)"

definition set_block_metadata :: "buddy_system \<Rightarrow> addr \<Rightarrow> nat \<Rightarrow> buddy_system" where
  "set_block_metadata s a order =
     (let start_page_idx = page_index s a; page_count = shl64 1 order
      in fold (\<lambda>i s. if start_page_idx + i < total_pages s
                     then set_node s (start_page_idx + i) a (int order) else s)
           [0..<page_count] s)"

section \<open>Initialisation\<close>

definition SIZEOF_BUDDY_NODE :: nat where
  "SIZEOF_BUDDY_NODE = 32"

definition bitmap_bytes :: "nat \<Rightarrow> nat" where
  "bitmap_bytes pages = (pages + 63) div 64 * 8"

definition meta_pages :: "nat \<Rightarrow> nat" where
  "meta_pages pages =
     (bitmap_bytes pages + pages * SIZEOF_BUDDY_NODE + PGSIZE - 1) div PGSIZE"

definition mark_meta_page :: "nat \<Rightarrow> buddy_system \<Rightarrow> buddy_system" where
  "mark_meta_page page_idx s =
     set_node (s\<lparr>bs_bitmap := bm_set (bs_bitmap s) page_idx\<rparr>) page_idx
       (add64 (mem_start s) (page_idx * PGSIZE)) (-1)"

partial_function (option) add_blocks ::
    "buddy_system \<Rightarrow> addr \<Rightarrow> nat \<Rightarrow> addr \<Rightarrow> buddy_system option" where
  "add_blocks s available_end max_order aligned_start =
     (if add64 aligned_start (shl64 PGSIZE max_order) \<le> available_end
      then
        let page_idx = page_index s aligned_start;
            s1 = set_node s page_idx aligned_start (int max_order);
            s2 = push_free s1 max_order page_idx;
            s3 = set_block_metadata s2 aligned_start max_order
        in add_blocks s3 available_end max_order (add64 aligned_start (shl64 PGSIZE max_order))
      else Some s)"

declare add_blocks.simps [code]

fun add_max_blocks :: "buddy_system \<Rightarrow> addr \<Rightarrow> addr \<Rightarrow> nat \<Rightarrow> buddy_system option" where
  "add_max_blocks s available_start available_end max_order =
     (let block_size = shl64 PGSIZE max_order;
          aligned_start = ALIGN_UP available_start block_size
      in if add64 aligned_start block_size > available_end
         then (if max_order = 0 then Some s
               else add_max_blocks s available_start available_end (max_order - 1))
         else add_blocks s available_end max_order aligned_start)"

declare add_max_blocks.simps [simp del]

definition buddy_init :: "buddy_system \<Rightarrow> addr \<Rightarrow> addr \<Rightarrow> buddy_system option" where
  "buddy_init s0 start end' =
     (let pages = sub64 end' start div PGSIZE;
          s1 = s0\<lparr>mem_start := start, mem_end := end', total_pages := pages, bs_lock := False,
                  free_lists := (\<lambda>k. if k \<le> BUDDY_MAX_ORDER then [] else free_lists s0 k),
                  bs_bitmap := (\<lambda>i. if i < (pages + 63) div 64 then 0 else bs_bitmap s0 i),
                  bs_nodes := (\<lambda>i. if i < pages then \<lparr>nd_addr = 0, nd_order = 0\<rparr>
                                   else bs_nodes s0 i)\<rparr>;
          s2 = fold mark_meta_page [0..<meta_pages pages] s1
      in add_max_blocks s2 (add64 start (meta_pages pages * PGSIZE)) end' BUDDY_MAX_ORDER)"

section \<open>Allocation\<close>

function find_order :: "(nat \<Rightarrow> nat list) \<Rightarrow> nat \<Rightarrow> nat option" where
  "find_order F current_order =
     (if current_order \<le> BUDDY_MAX_ORDER
      then (if F current_order \<noteq> [] then Some current_order else find_order F (current_order + 1))
      else None)"
  by pat_completeness auto
termination
  by (relation "measure (\<lambda>(F, k). BUDDY_MAX_ORDER + 1 - k)") auto

declare find_order.simps [simp del]

fun split_block :: "buddy_system \<Rightarrow> addr \<Rightarrow> nat \<Rightarrow> nat \<Rightarrow> buddy_system" where
  "split_block s a current_order order =
     (if order < current_order
      then
        let c = current_order - 1;
            buddy_addr = add64 a (shl64 PGSIZE c);
            buddy_page_idx = page_index s buddy_addr;
            s1 = set_node s buddy_page_idx buddy_addr (int c);
            s2 = set_block_metadata s1 buddy_addr c;
            s3 = push_free s2 c buddy_page_idx;
            s4 = set_buddy_free s3 buddy_addr c
        in split_block s4 a c order
      else s)"

declare split_block.simps [simp del]

definition buddy_alloc :: "buddy_system \<Rightarrow> int \<Rightarrow> (addr \<times> buddy_system) option" where
  "buddy_alloc s order =
     (if order < 0 \<or> order > int BUDDY_MAX_ORDER then Some (0, s)
      else if bs_lock s then None
      else case find_order (free_lists s) (nat order) of
        None \<Rightarrow> Some (0, s)
      | Some current_order \<Rightarrow>
          (let i = hd (free_lists s current_order);
               s1 = s\<lparr>bs_lock := True,
                      free_lists := (free_lists s)(current_order := tl (free_lists s current_order))\<rparr>;
               a = nd_addr (bs_nodes s1 i);
               s2 = split_block s1 a current_order (nat order);
               s3 = set_node s2 i a order;
               s4 = s3\<lparr>bs_mem := memset (bs_mem s3) a 0 (shl64 PGSIZE (nat order))\<rparr>;
               s5 = set_block_metadata s4 a (nat order);
               s6 = set_buddy_used s5 a (nat order)
           in Some (a, s6\<lparr>bs_lock := False\<rparr>)))"

section \<open>Release\<close>

function buddy_merge :: "buddy_system \<Rightarrow> addr \<Rightarrow> nat \<Rightarrow> (buddy_system \<times> addr \<times> nat) option" where
  "buddy_merge s merge_addr merge_order =
     (if merge_order < BUDDY_MAX_ORDER
      then
        let buddy_addr = get_buddy_addr merge_addr merge_order;
            buddy_page_idx = page_index s buddy_addr;
            buddy_node = bs_nodes s buddy_page_idx
        in if buddy_page_idx \<ge> total_pages s then Some (s, merge_addr, merge_order)
           else if \<not> is_buddy_available s buddy_addr merge_order \<or>
                   nd_addr buddy_node \<noteq> buddy_addr \<or> nd_order buddy_node \<noteq> int merge_order
           then Some (s, merge_addr, merge_order)
           else case unlink_free s buddy_page_idx of
             None \<Rightarrow> None
           | Some s1 \<Rightarrow>
               (let merge_addr' = (if merge_addr > buddy_addr then buddy_addr else merge_addr);
                    merge_order' = merge_order + 1;
                    new_page_idx = page_index s1 merge_addr'
                in if new_page_idx \<ge> total_pages s1 then None
                   else
                     let s2 = set_node s1 new_page_idx merge_addr' (int merge_order');
                         s3 = set_block_metadata s2 merge_addr' merge_order'
                     in buddy_merge s3 merge_addr' merge_order')
      else Some (s, merge_addr, merge_order))"
  by pat_completeness auto
termination
  by (relation "measure (\<lambda>(s, a, k). BUDDY_MAX_ORDER - k)") auto

declare buddy_merge.simps [simp del]

definition all_pages_free :: "buddy_system \<Rightarrow> nat \<Rightarrow> nat \<Rightarrow> bool" where
  "all_pages_free s start_page end_page = list_all (\<lambda>page. \<not> page_used s page) [start_page..<end_page]"

definition buddy_free :: "buddy_system \<Rightarrow> addr \<Rightarrow> int \<Rightarrow> buddy_system option" where
  "buddy_free s ptr order =
     (if ptr = 0 \<or> order < 0 \<or> order > int BUDDY_MAX_ORDER then Some s
      else if bs_lock s then None
      else
        let s = s\<lparr>bs_lock := True\<rparr>;
            page_idx = page_index s ptr
        in if page_idx \<ge> total_pages s then None
           else
             let actual_addr = nd_addr (bs_nodes s page_idx);
                 actual_order = nd_order (bs_nodes s page_idx);
                 block_size = shl64 PGSIZE (nat actual_order);
                 start_page = page_index s actual_addr;
                 end_page = start_page + block_size div PGSIZE
             in if actual_order < 0 then None
                else if all_pages_free s start_page end_page then Some s
                else if ptr < actual_addr \<or> ptr \<ge> add64 actual_addr block_size then None
                else case buddy_merge (set_buddy_free s actual_addr (nat actual_order))
                            actual_addr (nat actual_order) of
                  None \<Rightarrow> None
                | Some (s1, a, k) \<Rightarrow>
                    (let final_page_idx = page_index s1 a
                     in if final_page_idx \<ge> total_pages s1 then None
                        else
                          let s2 = set_node s1 final_page_idx a (int k);
                              s3 = set_block_metadata s2 a k;
                              s4 = push_free s3 k final_page_idx
                          in Some (s4\<lparr>bs_lock := False\<rparr>)))"

section \<open>Rebuilding the free lists\<close>

definition reset_orphan :: "nat \<Rightarrow> buddy_system \<Rightarrow> buddy_system" where
  "reset_orphan page_idx s =
     set_node (s\<lparr>bs_bitmap := bm_clear (bs_bitmap s) page_idx\<rparr>) page_idx
       (add64 (mem_start s) (page_idx * PGSIZE)) 0"

definition cleanup_page :: "nat \<Rightarrow> buddy_system \<Rightarrow> buddy_system" where
  "cleanup_page page_idx s =
     (if page_used s page_idx
      then
        let node = bs_nodes s page_idx
        in if nd_order node = -1 then s
           else if nd_order node < 0 \<or> nd_order node > int BUDDY_MAX_ORDER \<or> nd_addr node = 0 \<or>
                   nd_addr node < mem_start s \<or> nd_addr node \<ge> mem_end s
           then reset_orphan page_idx s
           else s
      else s)"

partial_function (option) readd_blocks ::
    "buddy_system \<Rightarrow> addr \<Rightarrow> nat \<Rightarrow> addr \<Rightarrow> buddy_system option" where
  "readd_blocks s available_end max_order aligned_start =
     (if add64 aligned_start (shl64 PGSIZE max_order) \<le> available_end
      then
        let start_page = page_index s aligned_start;
            end_page = start_page + shl64 PGSIZE max_order div PGSIZE;
            s' = (if all_pages_free s start_page end_page
                  then
                    let s1 = set_node s start_page aligned_start (int max_order);
                        s2 = set_block_metadata s1 aligned_start max_order
                    in push_free s2 max_order start_page
                  else s)
        in readd_blocks s' available_end max_order (add64 aligned_start (shl64 PGSIZE max_order))
      else Some s)"

declare readd_blocks.simps [code]

fun readd_max_blocks :: "buddy_system \<Rightarrow> addr \<Rightarrow> addr \<Rightarrow> nat \<Rightarrow> buddy_system option" where
  "readd_max_blocks s available_start available_end max_order =
     (let block_size = shl64 PGSIZE max_order;
          aligned_start = ALIGN_UP available_start block_size
      in if add64 aligned_start block_size > available_end
         then (if max_order = 0 then Some s
               else readd_max_blocks s available_start available_end (max_order - 1))
         else readd_blocks s available_end max_order aligned_start)"

declare readd_max_blocks.simps [simp del]

definition buddy_cleanup_and_rebuild :: "buddy_system \<Rightarrow> buddy_system option" where
  "buddy_cleanup_and_rebuild s =
     (if bs_lock s then None
      else
        let s1 = s\<lparr>bs_lock := True,
                   free_lists := (\<lambda>k. if k \<le> BUDDY_MAX_ORDER then [] else free_lists s k)\<rparr>;
            s2 = fold cleanup_page [0..<total_pages s1] s1
        in map_option (\<lambda>s3. s3\<lparr>bs_lock := False\<rparr>)
             (readd_max_blocks s2 (add64 (mem_start s2) (meta_pages (total_pages s2) * PGSIZE))
                (mem_end s2) BUDDY_MAX_ORDER))"

definition emergency_memory_cleanup :: "buddy_system \<Rightarrow> buddy_system option" where
  "emergency_memory_cleanup s = buddy_cleanup_and_rebuild s"

definition reclaim_page :: "nat \<Rightarrow> buddy_system \<times> nat \<Rightarrow> buddy_system \<times> nat" where
  "reclaim_page page_idx = (\<lambda>(s, reclaimed).
     if page_used s page_idx
     then
       let node = bs_nodes s page_idx
       in if nd_order node = -1 then (s, reclaimed)
          else if nd_order node < 0 \<or> nd_order node > int BUDDY_MAX_ORDER
          then (reset_orphan page_idx s, reclaimed + 1)
          else (s, reclaimed)
     else (s, reclaimed))"

definition force_memory_reclaim :: "buddy_system \<Rightarrow> buddy_system option" where
  "force_memory_reclaim s =
     (if bs_lock s then None
      else
        let (s1, reclaimed) =
              fold reclaim_page [meta_pages (total_pages s)..<total_pages s] (s, 0)
        in if reclaimed > 0 then buddy_cleanup_and_rebuild s1 else Some s1)"

section \<open>The page interface\<close>

definition pmem_init :: "buddy_system \<Rightarrow> addr \<Rightarrow> nat \<Rightarrow> buddy_system option" where
  "pmem_init s hsai_mem_start PAGE_NUM =
     (let start = PGROUNDUP hsai_mem_start
      in buddy_init s start (add64 start (PAGE_NUM * PGSIZE)))"

definition pmem_alloc_pages :: "buddy_system \<Rightarrow> int \<Rightarrow> (addr \<times> buddy_system) option" where
  "pmem_alloc_pages s npages =
     (if npages \<le> 0 then Some (0, s)
      else
        let order = get_order (nat npages)
        in if order = -1 then Some (0, s)
           else case buddy_alloc s order of
             None \<Rightarrow> None
           | Some (ptr, s1) \<Rightarrow>
               (if ptr \<noteq> 0 then Some (ptr, s1)
                else case emergency_memory_cleanup s1 of
                  None \<Rightarrow> None
                | Some s2 \<Rightarrow>
                    (case buddy_alloc s2 order of
                       None \<Rightarrow> None
                     | Some (ptr, s3) \<Rightarrow>
                         (if ptr \<noteq> 0 then Some (ptr, s3)
                          else case force_memory_reclaim s3 of
                            None \<Rightarrow> None
                          | Some s4 \<Rightarrow> buddy_alloc s4 order))))"

definition pmem_free_pages :: "buddy_system \<Rightarrow> addr \<Rightarrow> int \<Rightarrow> buddy_system option" where
  "pmem_free_pages s ptr npages =
     (if ptr = 0 \<or> npages \<le> 0 then Some s
      else if ptr < mem_start s \<or> ptr \<ge> mem_end s then Some s
      else
        let page_idx = page_index s ptr
        in if page_idx \<ge> total_pages s then Some s
           else
             let block_start = nd_addr (bs_nodes s page_idx);
                 actual_order = nd_order (bs_nodes s page_idx);
                 actual_pages = shl64 1 (nat actual_order)
             in if block_start < mem_start s \<or> block_start \<ge> mem_end s then Some s
                else if actual_order < 0 \<or> actual_order > int BUDDY_MAX_ORDER then Some s
                else if actual_pages < nat npages then Some s
                else if block_start mod shl64 PGSIZE (nat actual_order) \<noteq> 0 then Some s
                else
                  let start_page = page_index s block_start;
                      end_page = start_page + actual_pages
                  in if all_pages_free s start_page end_page then Some s
                     else buddy_free s block_start actual_order)"

definition kalloc :: "buddy_system \<Rightarrow> (addr \<times> buddy_system) option" where
  "kalloc s =
     (case pmem_alloc_pages s 1 of
        None \<Rightarrow> None
      | Some (ptr, s') \<Rightarrow> if ptr = 0 then None else Some (ptr, s'))"

definition kfree :: "buddy_system \<Rightarrow> addr \<Rightarrow> buddy_system option" where
  "kfree s ptr = pmem_free_pages s ptr 1"

definition kmalloc :: "buddy_system \<Rightarrow> nat \<Rightarrow> (addr \<times> buddy_system) option" where
  "kmalloc s sz = kalloc s"

definition kcalloc :: "buddy_system \<Rightarrow> nat \<Rightarrow> nat \<Rightarrow> (addr \<times> buddy_system) option" where
  "kcalloc s n sz = kalloc s"

section \<open>The integrity check\<close>

text \<open>
  \<^verbatim>\<open>buddy_check_integrity\<close> counts the errors it finds in the bitmap and the page metadata and
  asserts that there are none.
\<close>

definition page_errors :: "buddy_system \<Rightarrow> nat \<Rightarrow> nat" where
  "page_errors s i =
     (let a = add64 (mem_start s) (i * PGSIZE); node = bs_nodes s i;
          block_size = shl64 PGSIZE (nat (nd_order node))
      in if nd_order node = -1 then (if page_used s i then 0 else 1)
         else if page_used s i then
           (if nd_addr node mod block_size \<noteq> 0 then 1 else 0) +
           (if a < nd_addr node \<or> a \<ge> add64 (nd_addr node) block_size then 1 else 0)
         else (if nd_order node < 0 \<or> nd_order node > int BUDDY_MAX_ORDER then 1 else 0))"

definition buddy_check_integrity :: "buddy_system \<Rightarrow> bool" where
  "buddy_check_integrity s \<longleftrightarrow> (\<Sum>i\<leftarrow>[0..<total_pages s]. page_errors s i) = 0"

end
