(* ===== verification/Buddy_Inv.thy ===== *)
theory Buddy_Inv
  imports Buddy
begin

text \<open>
  The invariant of the buddy system and its preservation. \<open>buddy_inv s R\<close> is the invariant of a
  state in which the pages \<open>R\<close> are in the allocator's hands (taken out of the lists, metadata in
  flux); between operations \<open>R\<close> is empty. Three lemmas carry every operation: taking a block out
  (\<open>inv_take\<close>), changing pages in hand (\<open>inv_hand\<close>) and putting a block back (\<open>inv_put\<close>).
\<close>

section \<open>The bitmap\<close>

lemma bm_test_bit: "bm_test bm p \<longleftrightarrow> bit (bm (p div 64)) (p mod 64)"
proof -
  have "p AND 63 = p mod 64" using take_bit_eq_mask [of 6 p] by (simp add: take_bit_eq_mod mask_eq_exp_minus_1)
  moreover have "drop_bit 6 p = p div 64" by (simp add: drop_bit_eq_div)
  ultimately show ?thesis by (simp add: bm_test_def bit_iff_and_push_bit_not_eq_0)
qed

lemma page_bit_eq: "(i :: nat) div 64 = j div 64 \<and> i mod 64 = j mod 64 \<longleftrightarrow> i = j"
  by (metis div_mult_mod_eq)

interpretation bm64: bitmap_ops bm_test bm_set bm_clear
proof unfold_locales
  fix bm i j
  have m: "n AND 63 = n mod 64" for n :: nat
    using take_bit_eq_mask [of 6 n] by (simp add: take_bit_eq_mod mask_eq_exp_minus_1)
  have d: "drop_bit 6 n = n div 64" for n :: nat by (simp add: drop_bit_eq_div)
  have lt: "n mod 64 < LENGTH(64)" for n :: nat by simp
  show "bm_test (bm_set bm i) j \<longleftrightarrow> j = i \<or> bm_test bm j"
    using page_bit_eq [of i j] lt [of j]
    by (auto simp: bm_test_bit bm_set_def m d bit_simps)
  show "bm_test (bm_clear bm i) j \<longleftrightarrow> j \<noteq> i \<and> bm_test bm j"
    using page_bit_eq [of i j] lt [of j]
    by (auto simp: bm_test_bit bm_clear_def m d bit_simps)
qed

section \<open>Pages and blocks\<close>

abbreviation page_addr :: "buddy_system \<Rightarrow> nat \<Rightarrow> addr" where
  "page_addr s p \<equiv> mem_start s + p * PGSIZE"

abbreviation pages_of :: "nat \<Rightarrow> nat \<Rightarrow> nat set" where
  "pages_of p k \<equiv> {p..<p + 2 ^ k}"

abbreviation block_node :: "buddy_system \<Rightarrow> nat \<Rightarrow> nat \<Rightarrow> buddy_node" where
  "block_node s p k \<equiv> \<lparr>nd_addr = page_addr s p, nd_order = int k\<rparr>"

definition buddy_geom :: "buddy_system \<Rightarrow> bool" where
  "buddy_geom s \<longleftrightarrow>
     0 < mem_start s \<and> PGSIZE dvd mem_start s \<and>
     mem_end s = mem_start s + total_pages s * PGSIZE \<and> mem_end s < 2 ^ 64"

definition is_block :: "buddy_system \<Rightarrow> nat \<Rightarrow> nat \<Rightarrow> bool" where
  "is_block s p k \<longleftrightarrow> p < total_pages s \<and> k \<le> BUDDY_MAX_ORDER \<and> bs_nodes s p = block_node s p k"

definition block_aligned :: "buddy_system \<Rightarrow> nat \<Rightarrow> nat \<Rightarrow> bool" where
  "block_aligned s p k \<longleftrightarrow> page_addr s p mod (PGSIZE * 2 ^ k) = 0"

definition block_ok :: "buddy_system \<Rightarrow> nat \<Rightarrow> nat \<Rightarrow> bool" where
  "block_ok s p k \<longleftrightarrow>
     p + 2 ^ k \<le> total_pages s \<and> block_aligned s p k \<and>
     (\<forall>q \<in> pages_of p k. bs_nodes s q = block_node s p k \<and> page_used s q = page_used s p)"

definition buddy_inv :: "buddy_system \<Rightarrow> nat set \<Rightarrow> bool" where
  "buddy_inv s R \<longleftrightarrow>
     buddy_geom s \<and>
     (\<forall>p k. is_block s p k \<and> p \<notin> R \<longrightarrow> block_ok s p k \<and> pages_of p k \<inter> R = {}) \<and>
     (\<forall>k \<le> BUDDY_MAX_ORDER. distinct (free_lists s k) \<and>
        set (free_lists s k) = {p. p \<notin> R \<and> is_block s p k \<and> \<not> page_used s p}) \<and>
     (\<forall>q < total_pages s. q \<notin> R \<and> (nd_addr (bs_nodes s q) \<noteq> 0 \<or> page_used s q) \<longrightarrow>
        nd_order (bs_nodes s q) = -1 \<or> (\<exists>p k. p \<notin> R \<and> is_block s p k \<and> q \<in> pages_of p k)) \<and>
     (\<forall>q < total_pages s. q \<notin> R \<longrightarrow>
        -1 \<le> nd_order (bs_nodes s q) \<and> nd_order (bs_nodes s q) \<le> int BUDDY_MAX_ORDER \<and>
        (nd_order (bs_nodes s q) = -1 \<longrightarrow> page_used s q))"

abbreviation buddy_wf :: "buddy_system \<Rightarrow> bool" where
  "buddy_wf s \<equiv> buddy_inv s {}"

definition same_region :: "buddy_system \<Rightarrow> buddy_system \<Rightarrow> bool" where
  "same_region s s' \<longleftrightarrow>
     mem_start s' = mem_start s \<and> mem_end s' = mem_end s \<and> total_pages s' = total_pages s"

lemma same_region_refl [simp]: "same_region s s"
  by (simp add: same_region_def)

lemma same_region_trans: "same_region s t \<Longrightarrow> same_region t u \<Longrightarrow> same_region s u"
  by (simp add: same_region_def)

text \<open>Accessors of the invariant.\<close>

lemma inv_geom: "buddy_inv s R \<Longrightarrow> buddy_geom s"
  by (simp add: buddy_inv_def)

lemma inv_block_ok:
  "buddy_inv s R \<Longrightarrow> is_block s p k \<Longrightarrow> p \<notin> R \<Longrightarrow> block_ok s p k \<and> pages_of p k \<inter> R = {}"
  unfolding buddy_inv_def by blast

lemma inv_block:
  assumes "buddy_inv s R" "is_block s p k" "p \<notin> R"
  shows "p + 2 ^ k \<le> total_pages s" and "block_aligned s p k" and "pages_of p k \<inter> R = {}"
    and "q \<in> pages_of p k \<Longrightarrow> bs_nodes s q = block_node s p k"
    and "q \<in> pages_of p k \<Longrightarrow> page_used s q = page_used s p"
    and "q \<in> pages_of p k \<Longrightarrow> q \<notin> R"
  using inv_block_ok [OF assms] unfolding block_ok_def by blast+

lemma inv_used:
  "buddy_inv s R \<Longrightarrow> q < total_pages s \<Longrightarrow> q \<notin> R \<Longrightarrow>
   nd_addr (bs_nodes s q) \<noteq> 0 \<or> page_used s q \<Longrightarrow>
   nd_order (bs_nodes s q) \<noteq> -1 \<Longrightarrow> \<exists>p k. p \<notin> R \<and> is_block s p k \<and> q \<in> pages_of p k"
  unfolding buddy_inv_def by blast

lemma inv_order:
  "buddy_inv s R \<Longrightarrow> q < total_pages s \<Longrightarrow> q \<notin> R \<Longrightarrow>
   -1 \<le> nd_order (bs_nodes s q) \<and> nd_order (bs_nodes s q) \<le> int BUDDY_MAX_ORDER \<and>
   (nd_order (bs_nodes s q) = -1 \<longrightarrow> page_used s q)"
  unfolding buddy_inv_def by blast

lemma buddy_invI:
  assumes "buddy_geom s"
    and "\<And>p k. is_block s p k \<Longrightarrow> p \<notin> R \<Longrightarrow> block_ok s p k \<and> pages_of p k \<inter> R = {}"
    and "\<And>k. k \<le> BUDDY_MAX_ORDER \<Longrightarrow> distinct (free_lists s k)"
    and "\<And>k p. k \<le> BUDDY_MAX_ORDER \<Longrightarrow>
      p \<in> set (free_lists s k) \<longleftrightarrow> p \<notin> R \<and> is_block s p k \<and> \<not> page_used s p"
    and "\<And>q. q < total_pages s \<Longrightarrow> q \<notin> R \<Longrightarrow>
      nd_addr (bs_nodes s q) \<noteq> 0 \<or> page_used s q \<Longrightarrow> nd_order (bs_nodes s q) \<noteq> -1 \<Longrightarrow>
      \<exists>p k. p \<notin> R \<and> is_block s p k \<and> q \<in> pages_of p k"
    and "\<And>q. q < total_pages s \<Longrightarrow> q \<notin> R \<Longrightarrow>
      -1 \<le> nd_order (bs_nodes s q) \<and> nd_order (bs_nodes s q) \<le> int BUDDY_MAX_ORDER \<and>
      (nd_order (bs_nodes s q) = -1 \<longrightarrow> page_used s q)"
  shows "buddy_inv s R"
  unfolding buddy_inv_def using assms by blast

lemma inv_lists:
  assumes "buddy_inv s R" "k \<le> BUDDY_MAX_ORDER"
  shows "distinct (free_lists s k)"
    and "set (free_lists s k) = {p. p \<notin> R \<and> is_block s p k \<and> \<not> page_used s p}"
  using assms unfolding buddy_inv_def by blast+

lemma in_free_list:
  "buddy_inv s R \<Longrightarrow> k \<le> BUDDY_MAX_ORDER \<Longrightarrow>
   p \<in> set (free_lists s k) \<longleftrightarrow> p \<notin> R \<and> is_block s p k \<and> \<not> page_used s p"
  using inv_lists(2) by auto

text \<open>The pages of different blocks are disjoint.\<close>

lemma blocks_disjoint:
  assumes i: "buddy_inv s R" and b: "is_block s p k" "p \<notin> R" "is_block s p' k'" "p' \<notin> R"
    and "q \<in> pages_of p k" "q \<in> pages_of p' k'"
  shows "p = p' \<and> k = k'"
  using inv_block(4) [OF i b(1,2) assms(6)] inv_block(4) [OF i b(3,4) assms(7)] by simp

lemma pages_of_start: "p \<in> pages_of p k"
  by simp

section \<open>The three invariant steps\<close>

lemma is_block_region:
  "same_region s s' \<Longrightarrow> bs_nodes s' p = bs_nodes s p \<Longrightarrow> is_block s' p k = is_block s p k"
  by (simp add: is_block_def same_region_def)

lemma block_aligned_region: "same_region s s' \<Longrightarrow> block_aligned s' p k = block_aligned s p k"
  by (simp add: block_aligned_def same_region_def)

lemma geom_region: "same_region s s' \<Longrightarrow> buddy_geom s' = buddy_geom s"
  by (auto simp: buddy_geom_def same_region_def)

lemma inv_hand:
  assumes i: "buddy_inv s R" and g: "same_region s s'"
    and n: "\<And>q. q \<notin> R \<Longrightarrow> bs_nodes s' q = bs_nodes s q"
    and u: "\<And>q. q \<notin> R \<Longrightarrow> page_used s' q = page_used s q"
    and f: "\<And>k. k \<le> BUDDY_MAX_ORDER \<Longrightarrow> free_lists s' k = free_lists s k"
  shows "buddy_inv s' R"
proof (rule buddy_invI)
  have tp: "total_pages s' = total_pages s" "mem_start s' = mem_start s"
    using g by (auto simp: same_region_def)
  have blk: "is_block s' p k = is_block s p k" if "p \<notin> R" for p k
    using is_block_region [OF g] n that by simp
  show "buddy_geom s'" using geom_region [OF g] inv_geom [OF i] by simp
  show "block_ok s' p k \<and> pages_of p k \<inter> R = {}" if b': "is_block s' p k" "p \<notin> R" for p k
  proof -
    from that have b: "is_block s p k" using blk by simp
    have "bs_nodes s' q = block_node s' p k \<and> page_used s' q = page_used s' p"
      if q: "q \<in> pages_of p k" for q
      unfolding n [OF inv_block(6) [OF i b b'(2) q]] u [OF inv_block(6) [OF i b b'(2) q]] u [OF b'(2)] tp
      using inv_block(4,5) [OF i b b'(2) q] by (rule conjI)
    then show ?thesis
      using inv_block(1,2,3) [OF i b b'(2)] unfolding block_ok_def tp(1) block_aligned_region [OF g]
      by blast
  qed
  show "distinct (free_lists s' k)" if "k \<le> BUDDY_MAX_ORDER" for k
    using inv_lists(1) [OF i that] f [OF that] by simp
  show "p \<in> set (free_lists s' k) \<longleftrightarrow> p \<notin> R \<and> is_block s' p k \<and> \<not> page_used s' p"
    if "k \<le> BUDDY_MAX_ORDER" for k p
    using in_free_list [OF i that] f [OF that] blk u by auto
  show "\<exists>p k. p \<notin> R \<and> is_block s' p k \<and> q \<in> pages_of p k"
    if "q < total_pages s'" "q \<notin> R" "nd_addr (bs_nodes s' q) \<noteq> 0 \<or> page_used s' q" "nd_order (bs_nodes s' q) \<noteq> -1" for q
    using inv_used [OF i, of q] that(1,3,4) unfolding tp n [OF that(2)] u [OF that(2)]
    using that(2) blk by blast
  show "-1 \<le> nd_order (bs_nodes s' q) \<and> nd_order (bs_nodes s' q) \<le> int BUDDY_MAX_ORDER \<and>
      (nd_order (bs_nodes s' q) = -1 \<longrightarrow> page_used s' q)"
    if "q < total_pages s'" "q \<notin> R" for q
    using inv_order [OF i, of q] that tp n u by auto
qed

lemma inv_take:
  assumes i: "buddy_inv s R" and b: "is_block s p k" "p \<notin> R" and g: "same_region s s'"
    and n: "\<And>q. bs_nodes s' q = bs_nodes s q" and u: "\<And>q. page_used s' q = page_used s q"
    and f: "\<And>j. j \<le> BUDDY_MAX_ORDER \<Longrightarrow>
      free_lists s' j = (if j = k then remove1 p (free_lists s j) else free_lists s j)"
  shows "buddy_inv s' (R \<union> pages_of p k)"
proof (rule buddy_invI)
  let ?R = "R \<union> pages_of p k"
  have tp: "total_pages s' = total_pages s" using g by (auto simp: same_region_def)
  have blk: "is_block s' q j = is_block s q j" for q j
    using is_block_region [OF g] n by simp
  have away: "x \<notin> pages_of p k" if q: "is_block s q j" "q \<notin> ?R" "x \<in> pages_of q j" for q j x
  proof
    assume "x \<in> pages_of p k"
    then have "q = p" using blocks_disjoint [OF i b q(1) _ _ q(3)] q(2) by blast
    then show False using q(2) by simp
  qed
  have ok: "block_ok s' q j = block_ok s q j" for q j
    using n u g by (simp add: block_ok_def block_aligned_def same_region_def)
  show "buddy_geom s'" using geom_region [OF g] inv_geom [OF i] by simp
  show "block_ok s' q j \<and> pages_of q j \<inter> ?R = {}" if "is_block s' q j" "q \<notin> ?R" for q j
    using inv_block_ok [OF i, of q j] that away [of q j] blk ok by blast
  show "distinct (free_lists s' j)" if "j \<le> BUDDY_MAX_ORDER" for j
    using inv_lists(1) [OF i that] f [OF that] by (cases "j = k") simp_all
  show "q \<in> set (free_lists s' j) \<longleftrightarrow> q \<notin> ?R \<and> is_block s' q j \<and> \<not> page_used s' q"
    if j: "j \<le> BUDDY_MAX_ORDER" for j q
  proof -
    have "q = p \<and> j = k" if "q \<notin> R" "is_block s q j" "q \<in> pages_of p k"
      using blocks_disjoint [OF i b that(2,1,3) pages_of_start] by simp
    then have "q \<in> set (free_lists s j) \<and> \<not> (j = k \<and> q = p) \<longleftrightarrow>
        q \<notin> ?R \<and> is_block s q j \<and> \<not> page_used s q"
      using in_free_list [OF i j, of q] b by auto
    then show ?thesis
      using f [OF j] inv_lists(1) [OF i j] u blk by auto
  qed
  show "\<exists>p k. p \<notin> ?R \<and> is_block s' p k \<and> q \<in> pages_of p k"
    if q: "q < total_pages s'" "q \<notin> ?R" "nd_addr (bs_nodes s' q) \<noteq> 0 \<or> page_used s' q" "nd_order (bs_nodes s' q) \<noteq> -1" for q
  proof -
    obtain p' k' where p': "p' \<notin> R" "is_block s p' k'" "q \<in> pages_of p' k'"
      using inv_used [OF i, of q] q tp n u by auto
    have "p' \<notin> pages_of p k"
      using blocks_disjoint [OF i b p'(2,1), of p'] q(2) p'(3) by auto
    then show ?thesis using p' blk by auto
  qed
  show "-1 \<le> nd_order (bs_nodes s' q) \<and> nd_order (bs_nodes s' q) \<le> int BUDDY_MAX_ORDER \<and>
      (nd_order (bs_nodes s' q) = -1 \<longrightarrow> page_used s' q)"
    if "q < total_pages s'" "q \<notin> ?R" for q
    using inv_order [OF i, of q] that tp n u by auto
qed

lemma inv_put:
  assumes i: "buddy_inv s R" and g: "same_region s s'"
    and blk: "pages_of b c \<subseteq> R" "b + 2 ^ c \<le> total_pages s" "c \<le> BUDDY_MAX_ORDER" "block_aligned s b c"
    and n: "\<And>q. q \<in> pages_of b c \<Longrightarrow> bs_nodes s' q = block_node s b c"
    and n': "\<And>q. q \<notin> R \<Longrightarrow> bs_nodes s' q = bs_nodes s q"
    and u: "\<And>q. q \<in> pages_of b c \<Longrightarrow> page_used s' q = v"
    and u': "\<And>q. q \<notin> R \<Longrightarrow> page_used s' q = page_used s q"
    and f: "\<And>j. j \<le> BUDDY_MAX_ORDER \<Longrightarrow>
      free_lists s' j = (if j = c \<and> \<not> v then b # free_lists s j else free_lists s j)"
  shows "buddy_inv s' (R - pages_of b c)"
proof (rule buddy_invI)
  let ?R = "R - pages_of b c"
  have tp: "total_pages s' = total_pages s" "mem_start s' = mem_start s"
    using g by (auto simp: same_region_def)
  have bR: "b \<in> R" and bb: "b \<in> pages_of b c" using blk(1) by auto
  have out: "is_block s' p k = is_block s p k" if "p \<notin> R" for p k
    using is_block_region [OF g n'] that by simp
  have new: "is_block s' p k \<longleftrightarrow> p = b \<and> k = c" if "p \<in> pages_of b c" for p k
    using n [OF that] that blk(2,3) tp by (auto simp: is_block_def)
  show "buddy_geom s'" using geom_region [OF g] inv_geom [OF i] by simp
  show "block_ok s' p k \<and> pages_of p k \<inter> ?R = {}" if p: "is_block s' p k" "p \<notin> ?R" for p k
  proof (cases "p \<in> R")
    case True
    then have [simp]: "p = b" "k = c" using p new by auto
    have "bs_nodes s' q = block_node s' b c \<and> page_used s' q = page_used s' b"
      if q: "q \<in> pages_of b c" for q
      unfolding n [OF q] u [OF q] u [OF bb] tp by simp
    then show ?thesis
      using blk(2,4) unfolding block_ok_def tp(1) block_aligned_region [OF g] \<open>p = b\<close> \<open>k = c\<close> by blast
  next
    case False
    then have b: "is_block s p k" using p out by simp
    have "bs_nodes s' q = block_node s' p k \<and> page_used s' q = page_used s' p"
      if q: "q \<in> pages_of p k" for q
      unfolding n' [OF inv_block(6) [OF i b False q]] u' [OF inv_block(6) [OF i b False q]] u' [OF False] tp
      using inv_block(4,5) [OF i b False q] by (rule conjI)
    then show ?thesis
      using inv_block(1,2,3) [OF i b False] unfolding block_ok_def tp(1) block_aligned_region [OF g]
      by blast
  qed
  show "distinct (free_lists s' k)" if "k \<le> BUDDY_MAX_ORDER" for k
    using inv_lists(1) [OF i that] f [OF that] in_free_list [OF i that, of b] bR by auto
  show "p \<in> set (free_lists s' k) \<longleftrightarrow> p \<notin> ?R \<and> is_block s' p k \<and> \<not> page_used s' p"
    if k: "k \<le> BUDDY_MAX_ORDER" for k p
  proof -
    have "p \<in> set (free_lists s' k) \<longleftrightarrow> p = b \<and> k = c \<and> \<not> v \<or> p \<in> set (free_lists s k)"
      using f [OF k] by auto
    also have "\<dots> \<longleftrightarrow> p = b \<and> k = c \<and> \<not> v \<or> p \<notin> R \<and> is_block s p k \<and> \<not> page_used s p"
      using in_free_list [OF i k] by blast
    also have "\<dots> \<longleftrightarrow> p \<notin> ?R \<and> is_block s' p k \<and> \<not> page_used s' p"
      using out [of p k] new [of p k] u [of p] u' [of p] bR bb blk(1) by blast
    finally show ?thesis .
  qed
  show "\<exists>p k. p \<notin> ?R \<and> is_block s' p k \<and> q \<in> pages_of p k"
    if q: "q < total_pages s'" "q \<notin> ?R" "nd_addr (bs_nodes s' q) \<noteq> 0 \<or> page_used s' q" "nd_order (bs_nodes s' q) \<noteq> -1" for q
  proof (cases "q \<in> R")
    case True then show ?thesis using q(2) new [OF bb] bb by blast
  next
    case False
    then show ?thesis
      using inv_used [OF i, of q] q(1,3,4) out unfolding tp n' [OF False] u' [OF False] by blast
  qed
  show "-1 \<le> nd_order (bs_nodes s' q) \<and> nd_order (bs_nodes s' q) \<le> int BUDDY_MAX_ORDER \<and>
      (nd_order (bs_nodes s' q) = -1 \<longrightarrow> page_used s' q)"
    if q: "q < total_pages s'" "q \<notin> ?R" for q
  proof (cases "q \<in> R")
    case True then show ?thesis using q n [of q] blk(3) by auto
  next
    case False
    then show ?thesis
      using inv_order [OF i, of q] q(1) unfolding tp n' [OF False] u' [OF False] by blast
  qed
qed

section \<open>What the helpers do on a block\<close>

lemma geom_addr_less: "buddy_geom s \<Longrightarrow> p \<le> total_pages s \<Longrightarrow> page_addr s p < 2 ^ 64"
  unfolding buddy_geom_def
  by (elim conjE, drule mult_le_mono1 [where k = PGSIZE]) linarith

lemma page_index_addr [simp]: "buddy_geom s \<Longrightarrow> p \<le> total_pages s \<Longrightarrow> page_index s (page_addr s p) = p"
  using geom_addr_less [of s p] by (simp add: page_index_def sub64_in_range)

lemma shl64_PGSIZE: "k \<le> BUDDY_MAX_ORDER \<Longrightarrow> shl64 PGSIZE k = PGSIZE * 2 ^ k"
  and shl64_one: "k \<le> BUDDY_MAX_ORDER \<Longrightarrow> shl64 (Suc 0) k = 2 ^ k"
proof -
  assume "k \<le> BUDDY_MAX_ORDER"
  then have "(2::nat) ^ k \<le> 2 ^ 11" by (intro power_increasing) auto
  then show "shl64 PGSIZE k = PGSIZE * 2 ^ k" "shl64 (Suc 0) k = 2 ^ k"
    by (simp_all add: shl64_def)
qed

lemma fold_set_node:
  "fold (\<lambda>i s. if st + i < total_pages s then set_node s (st + i) a o' else s) is s =
   s\<lparr>bs_nodes := (\<lambda>q. if q < total_pages s \<and> (\<exists>i \<in> set is. q = st + i)
                      then \<lparr>nd_addr = a, nd_order = o'\<rparr> else bs_nodes s q)\<rparr>"
proof (induction "is" arbitrary: s)
  case (Cons i "is")
  show ?case
    by (cases "st + i < total_pages s")
      (auto simp: Cons.IH set_node_def fun_eq_iff intro!: arg_cong [where f = "\<lambda>f. s\<lparr>bs_nodes := f\<rparr>"])
qed simp

definition nodes_upd :: "buddy_system \<Rightarrow> nat \<Rightarrow> nat \<Rightarrow> nat \<Rightarrow> buddy_node" where
  "nodes_upd s p k = (\<lambda>q. if q \<in> pages_of p k then block_node s p k else bs_nodes s q)"

lemma set_block_metadata_eq:
  assumes "buddy_geom s" "p + 2 ^ k \<le> total_pages s" "k \<le> BUDDY_MAX_ORDER"
  shows "set_block_metadata s (page_addr s p) k = s\<lparr>bs_nodes := nodes_upd s p k\<rparr>"
proof -
  have "(q < total_pages s \<and> (\<exists>i \<in> set [0..<2 ^ k]. q = p + i)) \<longleftrightarrow> q \<in> pages_of p k" for q
    using assms(2) by (auto simp: le_iff_add) 
  then show ?thesis
    using assms by (simp add: set_block_metadata_def fold_set_node shl64_one nodes_upd_def)
qed

lemma set_buddy_used_eq:
  assumes "buddy_geom s" "p + 2 ^ k \<le> total_pages s" "k \<le> BUDDY_MAX_ORDER"
  shows "\<exists>bm. set_buddy_used s (page_addr s p) k = s\<lparr>bs_bitmap := bm\<rparr> \<and>
           (\<forall>q. bm_test bm q \<longleftrightarrow> q \<in> pages_of p k \<or> page_used s q)"
  using assms by (auto simp: set_buddy_used_def Let_def shl64_PGSIZE bm64.test_set_range)

lemma set_buddy_free_eq:
  assumes "buddy_geom s" "p + 2 ^ k \<le> total_pages s" "k \<le> BUDDY_MAX_ORDER"
  shows "\<exists>bm. set_buddy_free s (page_addr s p) k = s\<lparr>bs_bitmap := bm\<rparr> \<and>
           (\<forall>q. bm_test bm q \<longleftrightarrow> q \<notin> pages_of p k \<and> page_used s q)"
  using assms by (auto simp: set_buddy_free_def Let_def shl64_PGSIZE bm64.test_clear_range)

lemma set_node_metadata:
  assumes "buddy_geom s" "p + 2 ^ k \<le> total_pages s" "k \<le> BUDDY_MAX_ORDER"
  shows "set_block_metadata (set_node s p (page_addr s p) (int k)) (page_addr s p) k =
         s\<lparr>bs_nodes := nodes_upd s p k\<rparr>"
proof -
  let ?s = "set_node s p (page_addr s p) (int k)"
  have "buddy_geom ?s" "p + 2 ^ k \<le> total_pages ?s" "mem_start ?s = mem_start s"
    using assms by (auto simp: set_node_def buddy_geom_def)
  then have "set_block_metadata ?s (page_addr s p) k = ?s\<lparr>bs_nodes := nodes_upd ?s p k\<rparr>"
    using set_block_metadata_eq [of ?s p k] assms(3) by simp
  also have "nodes_upd ?s p k = nodes_upd s p k"
    by (auto simp: nodes_upd_def set_node_def fun_eq_iff)
  finally show ?thesis by (simp add: set_node_def)
qed

lemma add64_block:
  assumes "buddy_geom s" "p + 2 ^ k \<le> total_pages s" "k \<le> BUDDY_MAX_ORDER"
  shows "add64 (page_addr s p) (shl64 PGSIZE k) = page_addr s (p + 2 ^ k)"
  using geom_addr_less [OF assms(1,2)] assms(3)
  by (simp add: shl64_PGSIZE add64_in_range add_mult_distrib add.assoc)

lemma block_aligned_lower: "block_aligned s p (Suc c) \<Longrightarrow> block_aligned s p c"
  unfolding block_aligned_def mod_eq_0_iff_dvd
  by (rule dvd_trans [rotated], assumption) (simp add: mult_dvd_mono)

lemma block_aligned_upper: "block_aligned s p c \<Longrightarrow> block_aligned s (p + 2 ^ c) c"
  unfolding block_aligned_def
  by (simp add: mod_eq_0_iff_dvd add_mult_distrib add.assoc [symmetric])

section \<open>Splitting\<close>

text \<open>A record of what an operation may not touch: the region, the bits, the memory and the lock.\<close>

definition only_lists :: "buddy_system \<Rightarrow> buddy_system \<Rightarrow> bool" where
  "only_lists s s' \<longleftrightarrow> same_region s s' \<and> (\<forall>q. page_used s' q = page_used s q) \<and>
     bs_mem s' = bs_mem s \<and> bs_lock s' = bs_lock s"

lemma only_lists_trans: "only_lists s t \<Longrightarrow> only_lists t u \<Longrightarrow> only_lists s u"
  by (auto simp: only_lists_def same_region_def)

lemma split_step:
  assumes i: "buddy_inv s R" and R: "pages_of p (Suc c) \<subseteq> R" and c: "Suc c \<le> BUDDY_MAX_ORDER"
    and r: "p + 2 ^ Suc c \<le> total_pages s" and al: "block_aligned s p (Suc c)"
    and free: "\<And>q. q \<in> pages_of p (Suc c) \<Longrightarrow> \<not> page_used s q" and o: "order < Suc c"
  obtains t where "split_block s (page_addr s p) (Suc c) order = split_block t (page_addr s p) c order"
    "buddy_inv t (R - pages_of (p + 2 ^ c) c)" "only_lists s t"
    "\<And>q. q \<notin> pages_of p (Suc c) \<Longrightarrow> bs_nodes t q = bs_nodes s q"
proof -
  let ?b = "p + 2 ^ c"
  have geo: "buddy_geom s" by (rule inv_geom [OF i])
  have rb: "?b + 2 ^ c \<le> total_pages s" and rp: "p + 2 ^ c \<le> total_pages s" using r by auto
  have c': "c \<le> BUDDY_MAX_ORDER" using c by simp
  define s2 where "s2 = s\<lparr>bs_nodes := nodes_upd s ?b c\<rparr>"
  define s3 where "s3 = push_free s2 c ?b"
  have g3: "buddy_geom s3" "?b + 2 ^ c \<le> total_pages s3" "mem_start s3 = mem_start s"
    using geo rb by (auto simp: s3_def s2_def push_free_def buddy_geom_def)
  obtain bm where bm: "set_buddy_free s3 (page_addr s3 ?b) c = s3\<lparr>bs_bitmap := bm\<rparr>"
    "\<And>q. bm_test bm q \<longleftrightarrow> q \<notin> pages_of ?b c \<and> page_used s3 q"
    using set_buddy_free_eq [OF g3(1,2) c'] by auto
  define t where "t = s3\<lparr>bs_bitmap := bm\<rparr>"
  have ab: "add64 (page_addr s p) (shl64 PGSIZE c) = page_addr s ?b"
    by (rule add64_block [OF geo rp c'])
  have ib: "page_index s (page_addr s ?b) = ?b" by (rule page_index_addr [OF geo rp])
  have "split_block s (page_addr s p) (Suc c) order = split_block t (page_addr s p) c order"
    unfolding split_block.simps [of s _ "Suc c"] Let_def
    using o ab ib set_node_metadata [OF geo rb c'] bm(1) g3(3)
    by (simp add: s2_def s3_def t_def)
  moreover have sub: "pages_of ?b c \<subseteq> R" and sub': "pages_of ?b c \<subseteq> pages_of p (Suc c)"
    using R by auto
  have used: "page_used t q = page_used s q" for q
    using bm(2) [of q] free [of q] sub' by (auto simp: t_def s3_def s2_def push_free_def)
  have reg: "same_region s t"
    by (simp add: same_region_def t_def s3_def s2_def push_free_def)
  have "buddy_inv t (R - pages_of ?b c)"
  proof (rule inv_put [OF i reg sub rb c', where v = False])
    show "block_aligned s ?b c" by (rule block_aligned_upper [OF block_aligned_lower [OF al]])
    show "page_used t q = False" if "q \<in> pages_of ?b c" for q using used free sub' that by auto
    show "bs_nodes t q = bs_nodes s q" if "q \<notin> R" for q
      using that sub by (auto simp: t_def s3_def s2_def push_free_def nodes_upd_def)
  qed (auto simp: used, auto simp: t_def s3_def s2_def push_free_def nodes_upd_def)
  moreover have "only_lists s t"
    using reg used by (simp add: only_lists_def) (simp add: t_def s3_def s2_def push_free_def)
  moreover have "bs_nodes t q = bs_nodes s q" if "q \<notin> pages_of p (Suc c)" for q
    using that sub' by (auto simp: t_def s3_def s2_def push_free_def nodes_upd_def)
  ultimately show ?thesis using that by blast
qed

lemma split_block_inv:
  assumes "buddy_inv s R" "pages_of p k \<subseteq> R" "k \<le> BUDDY_MAX_ORDER" "order \<le> k"
    and "p + 2 ^ k \<le> total_pages s" "block_aligned s p k"
    and "\<And>q. q \<in> pages_of p k \<Longrightarrow> \<not> page_used s q"
  shows "buddy_inv (split_block s (page_addr s p) k order) ((R - pages_of p k) \<union> pages_of p order) \<and>
    only_lists s (split_block s (page_addr s p) k order) \<and>
    (\<forall>q. q \<notin> pages_of p k \<longrightarrow> bs_nodes (split_block s (page_addr s p) k order) q = bs_nodes s q)"
  using assms
proof (induction k arbitrary: s R)
  case 0
  then have "R - pages_of p 0 \<union> pages_of p order = R" by auto
  with 0 show ?case by (simp add: split_block.simps only_lists_def)
next
  case (Suc c)
  show ?case
  proof (cases "order < Suc c")
    case False
    with Suc.prems have "order = Suc c" by simp
    moreover from this have "R - pages_of p (Suc c) \<union> pages_of p order = R"
      using Suc.prems(2) by blast
    moreover have "split_block s (page_addr s p) (Suc c) order = s"
      using False by (simp add: split_block.simps)
    ultimately show ?thesis using Suc.prems(1) by (simp add: only_lists_def)
  next
    case True
    obtain t where t: "split_block s (page_addr s p) (Suc c) order = split_block t (page_addr s p) c order"
      "buddy_inv t (R - pages_of (p + 2 ^ c) c)" "only_lists s t"
      "\<And>q. q \<notin> pages_of p (Suc c) \<Longrightarrow> bs_nodes t q = bs_nodes s q"
      using split_step [OF Suc.prems(1,2,3,5,6,7) True] by metis
    have reg: "same_region s t" "mem_start t = mem_start s" "total_pages t = total_pages s"
      using t(3) by (auto simp: only_lists_def same_region_def)
    have sub: "pages_of p c \<subseteq> R - pages_of (p + 2 ^ c) c" "pages_of p c \<subseteq> pages_of p (Suc c)"
      using Suc.prems(2) by auto
    have u: "\<not> page_used t q" if "q \<in> pages_of p c" for q
      using t(3) Suc.prems(7) [of q] sub(2) that by (auto simp: only_lists_def)
    have al: "block_aligned t p c"
      using block_aligned_lower [OF Suc.prems(6)] block_aligned_region [OF reg(1)] by simp
    have eq: "R - pages_of (p + 2 ^ c) c - pages_of p c \<union> pages_of p order =
        R - pages_of p (Suc c) \<union> pages_of p order" by auto
    have IH: "buddy_inv (split_block t (page_addr s p) c order) (R - pages_of p (Suc c) \<union> pages_of p order)"
      "only_lists t (split_block t (page_addr s p) c order)"
      "\<And>q. q \<notin> pages_of p c \<Longrightarrow> bs_nodes (split_block t (page_addr s p) c order) q = bs_nodes t q"
      using Suc.IH [OF t(2) sub(1) _ _ _ al u] Suc.prems(3,5) True reg eq by auto
    show ?thesis
      unfolding t(1) using IH t(4) sub(2) only_lists_trans [OF t(3) IH(2)] by auto
  qed
qed

end
