(* ===== verification/Buddy_Ops.thy ===== *)
theory Buddy_Ops
  imports Buddy_Inv
begin

text \<open>
  The operations of the buddy system against their contract. The abstract view of a state is the
  set of live blocks (start page and order of every block handed out) and the set of used pages.
  \<open>buddy_alloc\<close> adds one block that was free, \<open>buddy_free\<close> removes one, and both keep the
  invariant; the locale \<open>page_allocator\<close> states this contract, and the buddy system is an
  instance of it.
\<close>

section \<open>Abstract view\<close>

definition live_blocks :: "buddy_system \<Rightarrow> (addr \<times> nat) set" where
  "live_blocks s = {(page_addr s p, k) | p k. is_block s p k \<and> page_used s p}"

definition used_pages :: "buddy_system \<Rightarrow> nat set" where
  "used_pages s = {q. q < total_pages s \<and> page_used s q}"

lemma in_live_blocks: "(page_addr s p, k) \<in> live_blocks s \<longleftrightarrow> is_block s p k \<and> page_used s p"
  by (auto simp: live_blocks_def)

section \<open>Searching the free lists\<close>

lemma find_order_Some:
  "find_order F k = Some j \<Longrightarrow> k \<le> j \<and> j \<le> BUDDY_MAX_ORDER \<and> F j \<noteq> [] \<and> (\<forall>i. k \<le> i \<and> i < j \<longrightarrow> F i = [])"
proof (induction F k rule: find_order.induct)
  case (1 F k)
  show ?case
  proof (cases "k \<le> BUDDY_MAX_ORDER \<and> F k = []")
    case True
    then have "find_order F (k + 1) = Some j" using "1.prems" by (simp add: find_order.simps [of F k])
    then have IH: "k + 1 \<le> j \<and> j \<le> BUDDY_MAX_ORDER \<and> F j \<noteq> [] \<and> (\<forall>i. k + 1 \<le> i \<and> i < j \<longrightarrow> F i = [])"
      using "1.IH" True by simp
    have "F i = []" if "k \<le> i" "i < j" for i
      using IH True that by (cases "i = k") auto
    then show ?thesis using IH by simp
  next
    case False
    then show ?thesis using "1.prems" by (auto simp: find_order.simps [of F k] split: if_splits)
  qed
qed

lemma find_order_None: "find_order F k = None \<longleftrightarrow> (\<forall>j. k \<le> j \<and> j \<le> BUDDY_MAX_ORDER \<longrightarrow> F j = [])"
proof (induction F k rule: find_order.induct)
  case (1 F k)
  have "(\<forall>j. k \<le> j \<and> j \<le> BUDDY_MAX_ORDER \<longrightarrow> F j = []) \<longleftrightarrow>
      (k \<le> BUDDY_MAX_ORDER \<longrightarrow> F k = []) \<and> (\<forall>j. k + 1 \<le> j \<and> j \<le> BUDDY_MAX_ORDER \<longrightarrow> F j = [])"
    by (metis Suc_eq_plus1 dual_order.refl le_antisym not_less_eq_eq nat_le_linear)
  then show ?case
    using 1 by (auto simp: find_order.simps [of F k])
qed

section \<open>Allocation\<close>

lemma buddy_alloc_none:
  assumes "\<not> bs_lock s" "k \<le> BUDDY_MAX_ORDER"
    and "\<And>j. k \<le> j \<Longrightarrow> j \<le> BUDDY_MAX_ORDER \<Longrightarrow> free_lists s j = []"
  shows "buddy_alloc s (int k) = Some (0, s)"
proof -
  have "find_order (free_lists s) k = None" using assms(3) find_order_None by blast
  then show ?thesis using assms by (simp add: buddy_alloc_def)
qed

text \<open>The block at the head of the list that the search stops at is taken out and split.\<close>

lemma alloc_take:
  assumes wf: "buddy_wf s" and k: "find_order (free_lists s) k = Some j" and p: "p = hd (free_lists s j)"
  shows "is_block s p j" "\<not> page_used s p"
    and "buddy_inv (s\<lparr>bs_lock := True, free_lists := (free_lists s)(j := tl (free_lists s j))\<rparr>) (pages_of p j)"
proof -
  from find_order_Some [OF k] have j: "j \<le> BUDDY_MAX_ORDER" "free_lists s j \<noteq> []" by auto
  then have "p \<in> set (free_lists s j)" using p by simp
  then show b: "is_block s p j" "\<not> page_used s p" using in_free_list [OF wf j(1)] by auto
  have "tl (free_lists s j) = remove1 p (free_lists s j)" using j p by (cases "free_lists s j") auto
  then show "buddy_inv (s\<lparr>bs_lock := True, free_lists := (free_lists s)(j := tl (free_lists s j))\<rparr>) (pages_of p j)"
    using inv_take [OF wf b(1), where s' = "s\<lparr>bs_lock := True, free_lists := (free_lists s)(j := tl (free_lists s j))\<rparr>"]
    by (simp add: same_region_def)
qed

lemma buddy_alloc_block:
  assumes wf: "buddy_wf s" and l: "\<not> bs_lock s" and k: "k \<le> BUDDY_MAX_ORDER"
    and F: "find_order (free_lists s) k = Some j" and p: "p = hd (free_lists s j)"
  obtains s' where "buddy_alloc s (int k) = Some (page_addr s p, s')"
    "buddy_wf s'" "same_region s s'" "\<not> bs_lock s'" "is_block s' p k"
    "\<And>q. page_used s' q \<longleftrightarrow> q \<in> pages_of p k \<or> page_used s q"
    "\<And>q. q \<notin> pages_of p j \<Longrightarrow> bs_nodes s' q = bs_nodes s q"
    "bs_mem s' = memset (bs_mem s) (page_addr s p) 0 (PGSIZE * 2 ^ k)"
proof -
  define s1 where "s1 = s\<lparr>bs_lock := True, free_lists := (free_lists s)(j := tl (free_lists s j))\<rparr>"
  define s2 where "s2 = split_block s1 (page_addr s p) j k"
  define s3 where "s3 = s2\<lparr>bs_mem := memset (bs_mem s2) (page_addr s p) 0 (PGSIZE * 2 ^ k)\<rparr>"
  define s5 where "s5 = s3\<lparr>bs_nodes := nodes_upd s3 p k\<rparr>"
  from find_order_Some [OF F] have j: "k \<le> j" "j \<le> BUDDY_MAX_ORDER" by auto
  have b: "is_block s p j" "\<not> page_used s p" and i1: "buddy_inv s1 (pages_of p j)"
    using alloc_take [OF wf F p] by (auto simp: s1_def)
  have r: "p + 2 ^ j \<le> total_pages s" "block_aligned s p j" and n: "bs_nodes s p = block_node s p j"
    and un: "\<And>q. q \<in> pages_of p j \<Longrightarrow> \<not> page_used s q"
    using inv_block [OF wf b(1)] b by auto
  have pw: "(2 :: nat) ^ k \<le> 2 ^ j" using j(1) by (rule power_increasing) simp
  then have sub: "pages_of p k \<subseteq> pages_of p j" and rk: "p + 2 ^ k \<le> total_pages s"
    using r(1) by (auto simp del: power_increasing_iff)
  have ak: "block_aligned s p k"
    using r(2) dvd_trans [OF mult_dvd_mono [OF dvd_refl le_imp_power_dvd [OF j(1)]]]
    unfolding block_aligned_def mod_eq_0_iff_dvd by blast
  have eq1: "mem_start s1 = mem_start s" "total_pages s1 = total_pages s" "block_aligned s1 p j = block_aligned s p j"
    by (simp_all add: s1_def block_aligned_def)
  have u1: "page_used s1 q = page_used s q" for q by (simp add: s1_def)
  have i2: "buddy_inv s2 (pages_of p k)" and o2: "only_lists s1 s2"
    and n2: "\<And>q. q \<notin> pages_of p j \<Longrightarrow> bs_nodes s2 q = bs_nodes s q"
    using split_block_inv [OF i1 subset_refl j(2,1)] r eq1 un sub by (auto simp: s2_def, auto simp: s1_def)
  have reg2: "same_region s s2" "bs_mem s2 = bs_mem s" "bs_lock s2" "\<And>q. page_used s2 q = page_used s q"
    using o2 u1 by (auto simp: only_lists_def same_region_def, auto simp: s1_def)
  have reg3: "same_region s s3" "mem_start s3 = mem_start s" "total_pages s3 = total_pages s" "buddy_geom s3"
    using reg2(1) inv_geom [OF wf] geom_region [of s s3] by (auto simp: s3_def same_region_def)
  have i3: "buddy_inv s3 (pages_of p k)"
    by (rule inv_hand [OF i2]) (auto simp: s3_def same_region_def)
  have meta: "set_block_metadata (set_node s3 p (page_addr s p) (int k)) (page_addr s p) k = s5"
    using set_node_metadata [OF reg3(4) _ k, of p] rk reg3 by (simp add: s5_def)
  have reg5: "same_region s3 s5" "buddy_geom s5" "mem_start s5 = mem_start s" "total_pages s5 = total_pages s"
    using reg3 geom_region [of s3 s5] by (auto simp: s5_def same_region_def)
  obtain bm where bm: "set_buddy_used s5 (page_addr s p) k = s5\<lparr>bs_bitmap := bm\<rparr>"
    "\<And>q. bm_test bm q \<longleftrightarrow> q \<in> pages_of p k \<or> page_used s5 q"
    using set_buddy_used_eq [OF reg5(2) _ k, of p] rk reg5 by auto
  define s' where "s' = s5\<lparr>bs_bitmap := bm, bs_lock := False\<rparr>"
  have used: "page_used s' q \<longleftrightarrow> q \<in> pages_of p k \<or> page_used s q" for q
    using bm(2) [of q] reg2(4) [of q] by (simp add: s'_def s5_def s3_def)
  have "buddy_alloc s (int k) = Some (page_addr s p, s')"
  proof -
    have "set_node s2 p (page_addr s p) (int k)\<lparr>bs_mem := memset (bs_mem (set_node s2 p (page_addr s p) (int k)))
        (page_addr s p) 0 (PGSIZE * 2 ^ k)\<rparr> = set_node s3 p (page_addr s p) (int k)"
      by (simp add: s3_def set_node_def)
    moreover have "split_block (s\<lparr>bs_lock := True, free_lists := (free_lists s)(j := tl (free_lists s j))\<rparr>)
        (page_addr s p) j k = s2" by (simp add: s2_def s1_def)
    ultimately show ?thesis
      using l k F n meta bm(1) shl64_PGSIZE [OF k]
      by (simp add: buddy_alloc_def Let_def p [symmetric] s'_def)
  qed
  moreover have "buddy_wf s'"
  proof -
    have "buddy_inv s' (pages_of p k - pages_of p k)"
    proof (rule inv_put [OF i3, where v = True])
      show "block_aligned s3 p k" using ak block_aligned_region [OF reg3(1)] by simp
      show "page_used s' q = page_used s3 q" if "q \<notin> pages_of p k" for q
        using that used [of q] reg2(4) [of q] by (auto simp: s3_def)
    qed (use used rk k reg3 in \<open>auto simp: s'_def s5_def nodes_upd_def same_region_def\<close>)
    then show ?thesis by simp
  qed
  moreover have "p < total_pages s" using b(1) by (simp add: is_block_def)
  then have "same_region s s'" "is_block s' p k"
    using reg3 k by (auto simp: s'_def s5_def same_region_def is_block_def nodes_upd_def)
  moreover have "bs_nodes s' q = bs_nodes s q" if "q \<notin> pages_of p j" for q
    using n2 [OF that] subsetD [OF sub, of q] that by (auto simp: s'_def s5_def s3_def nodes_upd_def simp del: atLeastLessThan_iff)
  moreover have "bs_mem s' = memset (bs_mem s) (page_addr s p) 0 (PGSIZE * 2 ^ k)" "\<not> bs_lock s'"
    using reg2 by (simp_all add: s'_def s5_def s3_def)
  ultimately show ?thesis using that used by blast
qed

section \<open>Buddies\<close>

lemma xor_pow2_aligned:
  fixes a :: nat
  assumes "a mod 2 ^ n = 0"
  shows "a XOR 2 ^ n = (if even (a div 2 ^ n) then a + 2 ^ n else a - 2 ^ n)"
proof -
  obtain m where a: "a = m * 2 ^ n" using assms by (auto simp: mod_eq_0_iff_dvd dvd_def mult.commute)
  have "a XOR 2 ^ n = push_bit n m XOR push_bit n 1" by (simp add: a push_bit_eq_mult)
  also have "\<dots> = push_bit n (m XOR 1)" by (simp add: push_bit_xor)
  also have "\<dots> = (m XOR 1) * 2 ^ n" by (simp add: push_bit_eq_mult)
  also have "m XOR 1 = (if even m then m + 1 else m - 1)"
    using xor_one_eq [of m] by (auto elim: oddE)
  finally show ?thesis by (simp add: a algebra_simps diff_mult_distrib)
qed

lemma even_aligned:
  fixes a :: nat
  assumes "a mod b = 0" "even (a div b)" "0 < b"
  shows "a mod (2 * b) = 0"
proof -
  obtain c where "a = c * b" using assms(1) by (auto simp: mod_eq_0_iff_dvd dvd_def mult.commute)
  moreover obtain d where "c = 2 * d" using assms(2,3) \<open>a = c * b\<close> by auto
  ultimately show ?thesis by simp
qed

lemma page_index_outside:
  assumes geo: "buddy_geom s" and a: "a < mem_start s \<or> mem_end s \<le> a" "a < 2 ^ 64"
  shows "total_pages s \<le> page_index s a"
proof -
  have "total_pages s * PGSIZE \<le> sub64 a (mem_start s)"
  proof (cases "a < mem_start s")
    case True
    have "mem_end s = page_addr s (total_pages s)" "mem_end s < 2 ^ 64"
      using geo by (auto simp: buddy_geom_def)
    then show ?thesis using True by (simp add: sub64_borrow)
  next
    case False
    then show ?thesis using geo a by (simp add: sub64_in_range buddy_geom_def)
  qed
  then have "total_pages s * PGSIZE div PGSIZE \<le> sub64 a (mem_start s) div PGSIZE" by (rule div_le_mono)
  then show ?thesis unfolding page_index_def by simp
qed

lemma buddy_cases:
  assumes geo: "buddy_geom s" and k: "k \<le> BUDDY_MAX_ORDER" and al: "block_aligned s p k" and p: "p < total_pages s"
  obtains "total_pages s \<le> page_index s (get_buddy_addr (page_addr s p) k)"
  | b where "get_buddy_addr (page_addr s p) k = page_addr s b" "b < total_pages s"
      "b = p + 2 ^ k \<and> block_aligned s p (Suc k) \<or> p = b + 2 ^ k \<and> block_aligned s b (Suc k)"
proof -
  let ?a = "page_addr s p" and ?B = "2 ^ (12 + k) :: nat"
  have B: "shl64 PGSIZE k = ?B" "PGSIZE * 2 ^ k = ?B" "PGSIZE * 2 ^ Suc k = 2 * ?B"
    using shl64_PGSIZE [OF k] by (simp_all add: power_add)
  have al': "?a mod ?B = 0" using al unfolding block_aligned_def B .
  have a: "get_buddy_addr ?a k = (if even (?a div ?B) then ?a + ?B else ?a - ?B)"
    unfolding get_buddy_addr_def B by (rule xor_pow2_aligned [OF al'])
  have less: "get_buddy_addr ?a k < 2 ^ 64"
  proof -
    have "(12 + k) < 64" using k by simp
    then have "?B < 2 ^ 64" by (rule power_strict_increasing) simp
    moreover have "?a < 2 ^ 64" using geom_addr_less [OF geo, of p] p by simp
    ultimately show ?thesis unfolding get_buddy_addr_def B
      by (simp only: take_bit_nat_eq_self_iff [symmetric] take_bit_xor)
  qed
  show ?thesis
  proof (cases "get_buddy_addr ?a k < mem_start s \<or> mem_end s \<le> get_buddy_addr ?a k")
    case True
    then show ?thesis using that(1) page_index_outside [OF geo _ less] by blast
  next
    case False
    then have rng: "mem_start s \<le> get_buddy_addr ?a k" "get_buddy_addr ?a k < page_addr s (total_pages s)"
      using geo by (auto simp: buddy_geom_def)
    show ?thesis
    proof (cases "even (?a div ?B)")
      case True
      then have e: "get_buddy_addr ?a k = page_addr s (p + 2 ^ k)"
        using a by (simp add: B(2) [symmetric] add_mult_distrib mult.commute del: power_add)
      moreover from this rng have "p + 2 ^ k < total_pages s" by simp
      moreover have "block_aligned s p (Suc k)"
        unfolding block_aligned_def B by (rule even_aligned [OF al' True]) simp
      ultimately show ?thesis using that(2) by blast
    next
      case odd: False
      then have e0: "get_buddy_addr ?a k = ?a - ?B" using a by simp
      have "?B \<le> ?a" using odd by (metis div_less even_zero not_le_imp_less)
      have "2 ^ k * PGSIZE \<le> p * PGSIZE"
        using rng(1) e0 \<open>?B \<le> ?a\<close> B(2) by linarith
      then have "2 ^ k \<le> p" by simp
      define b where "b = p - 2 ^ k"
      then have pb: "p = b + 2 ^ k" using \<open>2 ^ k \<le> p\<close> by simp
      have e: "get_buddy_addr ?a k = page_addr s b"
        using e0 unfolding pb B(2) [symmetric] by (simp add: add_mult_distrib)
      have b0: "page_addr s b mod ?B = 0" "even (page_addr s b div ?B)"
      proof -
        have s: "?a = page_addr s b + ?B" unfolding pb B(2) [symmetric] by (simp add: add_mult_distrib)
        have "(page_addr s b + ?B) mod ?B = page_addr s b mod ?B" by (rule mod_add_self2)
        then show "page_addr s b mod ?B = 0" using al' unfolding s by argo
        have "(page_addr s b + ?B) div ?B = page_addr s b div ?B + 1" by (rule div_add_self2) simp
        then show "even (page_addr s b div ?B)" using odd unfolding s by simp
      qed
      have "block_aligned s b (Suc k)"
        unfolding block_aligned_def B by (rule even_aligned [OF b0]) simp
      moreover have "b < total_pages s" using pb p by simp
      ultimately show ?thesis using that(2) e pb by blast
    qed
  qed
qed

section \<open>Coalescing\<close>

text \<open>A free block of the invariant is taken off its list by \<open>unlink_free\<close>.\<close>

lemma unlink_free_inv:
  assumes i: "buddy_inv s R" and b: "is_block s b k" "b \<notin> R" "\<not> page_used s b"
  shows "unlink_free s b = Some (s\<lparr>free_lists := (\<lambda>j. remove1 b (free_lists s j))\<rparr>) \<and>
    buddy_inv (s\<lparr>free_lists := (\<lambda>j. remove1 b (free_lists s j))\<rparr>) (R \<union> pages_of b k)"
proof
  have k: "k \<le> BUDDY_MAX_ORDER" using b by (simp add: is_block_def)
  then have "b \<in> set (free_lists s k)" using in_free_list [OF i] b by blast
  moreover have "k \<in> set [0..<BUDDY_MAX_ORDER + 1]" using k by auto
  ultimately have "list_ex (\<lambda>k. b \<in> set (free_lists s k)) [0..<BUDDY_MAX_ORDER + 1]"
    unfolding list_ex_iff by blast
  then show "unlink_free s b = Some (s\<lparr>free_lists := (\<lambda>j. remove1 b (free_lists s j))\<rparr>)"
    unfolding unlink_free_def by (simp only: if_True)
  have "remove1 b (free_lists s j) = (if j = k then remove1 b (free_lists s j) else free_lists s j)"
    if "j \<le> BUDDY_MAX_ORDER" for j
    using in_free_list [OF i that, of b] b by (auto simp: is_block_def remove1_idem)
  then show "buddy_inv (s\<lparr>free_lists := (\<lambda>j. remove1 b (free_lists s j))\<rparr>) (R \<union> pages_of b k)"
    by (intro inv_take [OF i b(1,2)]) (auto simp: same_region_def)
qed

lemma pages_of_join: "pages_of p k \<union> pages_of (p + 2 ^ k) k = pages_of p (Suc k)"
  by auto

text \<open>The block in hand has grown from \<open>p\<close>, \<open>k\<close> in \<open>s\<close> to \<open>p'\<close>, \<open>k'\<close> in \<open>t\<close>.\<close>

definition grown :: "buddy_system \<Rightarrow> nat \<Rightarrow> nat \<Rightarrow> buddy_system \<Rightarrow> nat \<Rightarrow> nat \<Rightarrow> bool" where
  "grown s p k t p' k' \<longleftrightarrow>
     buddy_inv t (pages_of p' k') \<and> only_lists s t \<and> k' \<le> BUDDY_MAX_ORDER \<and>
     p' + 2 ^ k' \<le> total_pages s \<and> block_aligned s p' k' \<and> pages_of p k \<subseteq> pages_of p' k' \<and>
     (\<forall>q \<in> pages_of p' k'. \<not> page_used s q) \<and>
     (\<forall>q. q \<notin> pages_of p' k' \<longrightarrow> bs_nodes t q = bs_nodes s q)"

lemma grown_trans:
  assumes "grown s p k t p1 k1" "grown t p1 k1 u p2 k2"
  shows "grown s p k u p2 k2"
proof -
  have st: "only_lists s t" "same_region s t" "total_pages t = total_pages s"
    "\<And>q. page_used t q = page_used s q"
    using assms(1) by (auto simp: grown_def only_lists_def same_region_def)
  have "only_lists s u" using only_lists_trans [OF st(1)] assms(2) unfolding grown_def by blast
  moreover have "bs_nodes u q = bs_nodes s q" if "q \<notin> pages_of p2 k2" for q
    using assms that unfolding grown_def by (metis subsetD)
  ultimately show ?thesis
    using assms block_aligned_region [OF st(2)] st(3,4) unfolding grown_def by (metis subset_trans)
qed

lemma merge_step:
  assumes i: "buddy_inv s (pages_of p k)" and k: "k < BUDDY_MAX_ORDER"
    and blk: "p + 2 ^ k \<le> total_pages s" "block_aligned s p k"
    and un: "\<forall>q \<in> pages_of p k. \<not> page_used s q"
  shows "buddy_merge s (page_addr s p) k = Some (s, page_addr s p, k) \<or>
    (\<exists>p' t. buddy_merge s (page_addr s p) k = buddy_merge t (page_addr s p') (Suc k) \<and>
       grown s p k t p' (Suc k))"
    (is "?stop \<or> ?go")
  unfolding disj_imp
proof (rule impI)
  assume go: "\<not> ?stop"
  have geo: "buddy_geom s" by (rule inv_geom [OF i])
  have p: "p < total_pages s" using blk(1) less_le_trans [of p "p + 2 ^ k"] by simp
  have k': "k \<le> BUDDY_MAX_ORDER" "Suc k \<le> BUDDY_MAX_ORDER" using k by auto
  let ?ba = "get_buddy_addr (page_addr s p) k"
  have st: "\<not> total_pages s \<le> page_index s ?ba" and av: "is_buddy_available s ?ba k"
    using go k unfolding buddy_merge.simps [of s "page_addr s p"] Let_def by (auto split: if_splits)
  obtain b where b: "?ba = page_addr s b" "b < total_pages s"
      "b = p + 2 ^ k \<and> block_aligned s p (Suc k) \<or> p = b + 2 ^ k \<and> block_aligned s b (Suc k)"
    using buddy_cases [OF geo k'(1) blk(2) p] st by blast
  have ib: "page_index s (page_addr s b) = b" by (rule page_index_addr [OF geo]) (use b(2) in simp)
  have bb: "is_block s b k" "\<not> page_used s b" "bs_nodes s b = block_node s b k"
    using av b k' ib unfolding is_buddy_available_def Let_def is_block_def
    by (cases "bs_nodes s b", auto split: if_splits)+
  have bR: "b \<notin> pages_of p k" using b(3) by auto
  define m where "m = min p b"
  have m: "m = p \<and> b = p + 2 ^ k \<or> m = b \<and> p = b + 2 ^ k" "block_aligned s m (Suc k)"
    using b(3) by (auto simp: m_def)
  have sub: "pages_of p k \<union> pages_of b k = pages_of m (Suc k)"
    using m(1) pages_of_join [of p k] pages_of_join [of b k] by (metis Un_commute)
  have rm: "m + 2 ^ Suc k \<le> total_pages s"
    using m(1) blk(1) inv_block(1) [OF i bb(1) bR] by auto
  define s1 where "s1 = s\<lparr>free_lists := (\<lambda>j. remove1 b (free_lists s j))\<rparr>"
  have un1: "unlink_free s b = Some s1" "buddy_inv s1 (pages_of m (Suc k))"
    using unlink_free_inv [OF i bb(1) bR bb(2)] unfolding s1_def sub by auto
  define t where "t = s1\<lparr>bs_nodes := nodes_upd s1 m (Suc k)\<rparr>"
  have s1: "mem_start s1 = mem_start s" "total_pages s1 = total_pages s" "same_region s s1" "buddy_geom s1"
    using geo by (auto simp: s1_def same_region_def buddy_geom_def)
  have meta: "set_block_metadata (set_node s1 m (page_addr s m) (int (Suc k))) (page_addr s m) (Suc k) = t"
    using set_node_metadata [OF s1(4) _ k'(2), of m] rm s1 unfolding t_def by simp
  have ma: "(if page_addr s p > page_addr s b then page_addr s b else page_addr s p) = page_addr s m"
    using m(1) by auto
  have mt: "m < total_pages s" using rm less_le_trans [of m "m + 2 ^ Suc k"] by simp
  have im: "page_index s1 (page_addr s m) = m"
    using page_index_addr [OF s1(4), of m] mt s1 by simp
  have "buddy_merge s (page_addr s p) k = buddy_merge t (page_addr s m) (Suc k)"
    unfolding buddy_merge.simps [of s "page_addr s p"] Let_def b(1) ib
    using k b(2) av bb(3) un1(1) ma im s1 mt meta unfolding b(1) by simp
  moreover have "grown s p k t m (Suc k)"
    unfolding grown_def
  proof (intro conjI allI impI ballI)
    show "only_lists s t" by (simp add: only_lists_def same_region_def t_def s1_def)
    show "buddy_inv t (pages_of m (Suc k))"
      by (rule inv_hand [OF un1(2)]) (auto simp: t_def nodes_upd_def same_region_def)
    show "\<not> page_used s q" if "q \<in> pages_of m (Suc k)" for q
      using that un inv_block(5) [OF i bb(1) bR, of q] bb(2) unfolding sub [symmetric] by blast
    show "bs_nodes t q = bs_nodes s q" if "q \<notin> pages_of m (Suc k)" for q
      using that unfolding t_def s1_def nodes_upd_def by auto
    show "pages_of p k \<subseteq> pages_of m (Suc k)" unfolding sub [symmetric] by blast
  qed (rule k'(2) rm m(2))+
  ultimately show ?go by blast
qed

lemma buddy_merge_inv:
  assumes "buddy_inv s (pages_of p k)" "k \<le> BUDDY_MAX_ORDER"
    and "p + 2 ^ k \<le> total_pages s" "block_aligned s p k" "\<forall>q \<in> pages_of p k. \<not> page_used s q"
  shows "\<exists>t p' k'. buddy_merge s (page_addr s p) k = Some (t, page_addr s p', k') \<and> grown s p k t p' k'"
  using assms
proof (induction "BUDDY_MAX_ORDER - k" arbitrary: s p k)
  case 0
  then have "buddy_merge s (page_addr s p) k = Some (s, page_addr s p, k)"
    by (simp add: buddy_merge.simps)
  moreover have "grown s p k s p k" using 0 unfolding grown_def by (simp add: only_lists_def)
  ultimately show ?case by blast
next
  case (Suc n)
  then have k: "k < BUDDY_MAX_ORDER" by simp
  from merge_step [OF Suc.prems(1) k Suc.prems(3,4,5)] show ?case
  proof (elim disjE exE conjE)
    assume "buddy_merge s (page_addr s p) k = Some (s, page_addr s p, k)"
    moreover have "grown s p k s p k" using Suc.prems unfolding grown_def by (simp add: only_lists_def)
    ultimately show ?thesis by blast
  next
    fix p1 t
    assume e: "buddy_merge s (page_addr s p) k = buddy_merge t (page_addr s p1) (Suc k)"
      and g: "grown s p k t p1 (Suc k)"
    have st: "mem_start t = mem_start s" "total_pages t = total_pages s" "same_region s t"
      "\<And>q. page_used t q = page_used s q"
      using g by (auto simp: grown_def only_lists_def same_region_def)
    have t: "buddy_inv t (pages_of p1 (Suc k))" "Suc k \<le> BUDDY_MAX_ORDER" "p1 + 2 ^ Suc k \<le> total_pages t"
      "block_aligned t p1 (Suc k)" "\<forall>q \<in> pages_of p1 (Suc k). \<not> page_used t q"
      using g by (simp_all add: grown_def st(2,4) block_aligned_region [OF st(3)])
    have "n = BUDDY_MAX_ORDER - Suc k" using Suc.hyps(2) k by auto
    from Suc.hyps(1) [OF this t] obtain u p' k'
      where "buddy_merge t (page_addr t p1) (Suc k) = Some (u, page_addr t p', k')"
        "grown t p1 (Suc k) u p' k'" by blast
    then show ?thesis using e grown_trans [OF g] unfolding st(1) by metis
  qed
qed

section \<open>Release\<close>

lemma inv_hand_block:
  assumes wf: "buddy_wf s" and b: "is_block s p k" and u: "page_used s p"
    and s': "same_region s s'" "bs_nodes s' = bs_nodes s" "free_lists s' = free_lists s"
      "\<And>q. page_used s' q \<longleftrightarrow> q \<notin> pages_of p k \<and> page_used s q"
  shows "buddy_inv s' (pages_of p k)"
proof -
  have "buddy_inv s (pages_of p k)"
    using inv_take [OF wf b _ same_region_refl] in_free_list [OF wf, of k p] u b
    by (simp add: is_block_def remove1_idem)
  then show ?thesis by (rule inv_hand [OF _ s'(1)]) (auto simp: s')
qed

text \<open>
  Freeing a live block through any address inside it: the result is well formed again, exactly the
  pages of the block become free, and the metadata of every other live block is untouched.
\<close>

lemma buddy_free_block:
  assumes wf: "buddy_wf s" and l: "\<not> bs_lock s" and b: "is_block s p k" and u: "page_used s p"
    and q0: "q0 \<in> pages_of p k" "ptr div PGSIZE = page_addr s q0 div PGSIZE"
    and o: "0 \<le> ord" "ord \<le> int BUDDY_MAX_ORDER"
  obtains s' p' k' where "buddy_free s ptr ord = Some s'" "buddy_wf s'" "same_region s s'" "\<not> bs_lock s'"
    "bs_mem s' = bs_mem s" "\<And>q. page_used s' q \<longleftrightarrow> q \<notin> pages_of p k \<and> page_used s q"
    "is_block s' p' k'" "pages_of p k \<subseteq> pages_of p' k'" "\<forall>q \<in> pages_of p' k'. \<not> page_used s' q"
    "\<And>q. q \<notin> pages_of p' k' \<Longrightarrow> bs_nodes s' q = bs_nodes s q"
proof -
  have geo: "buddy_geom s" by (rule inv_geom [OF wf])
  have k: "k \<le> BUDDY_MAX_ORDER" and pt: "p < total_pages s" using b by (auto simp: is_block_def)
  have r: "p + 2 ^ k \<le> total_pages s" and al: "block_aligned s p k"
    and n0: "bs_nodes s q0 = block_node s p k"
    using inv_block [OF wf b] q0(1) by auto
  have q0t: "q0 < total_pages s" using q0(1) r by simp
  have d: "mem_start s mod PGSIZE = 0" "0 < mem_start s" using geo by (auto simp: buddy_geom_def mod_eq_0_iff_dvd)
  have ptr: "page_addr s q0 \<le> ptr" "ptr < page_addr s q0 + PGSIZE"
  proof -
    have "page_addr s q0 mod PGSIZE = 0" using d(1) by simp
    then have "page_addr s q0 = page_addr s q0 div PGSIZE * PGSIZE" by (simp add: mult.commute minus_mod_eq_mult_div [symmetric])
    then have e: "page_addr s q0 = ptr div PGSIZE * PGSIZE" unfolding q0(2) .
    have "ptr = ptr div PGSIZE * PGSIZE + ptr mod PGSIZE" "ptr mod PGSIZE < PGSIZE" by simp_all
    then show "page_addr s q0 \<le> ptr" "ptr < page_addr s q0 + PGSIZE" unfolding e by linarith+
  qed
  have top: "page_addr s q0 + PGSIZE \<le> page_addr s (p + 2 ^ k)" "page_addr s (p + 2 ^ k) < 2 ^ 64"
    using q0(1) geom_addr_less [OF geo r] by auto
  have ix: "page_index s ptr = q0"
  proof -
    have "sub64 ptr (mem_start s) = q0 * PGSIZE + (ptr - page_addr s q0)"
      using ptr top by (subst sub64_in_range) auto
    moreover have "(ptr - page_addr s q0) div PGSIZE = 0" using ptr by simp
    ultimately show ?thesis unfolding page_index_def by simp
  qed
  define s1 where "s1 = s\<lparr>bs_lock := True\<rparr>"
  have g1: "buddy_geom s1" "total_pages s1 = total_pages s" "mem_start s1 = mem_start s" "bs_nodes s1 = bs_nodes s"
    using geo by (auto simp: s1_def buddy_geom_def)
  have ix1: "page_index s1 a = page_index s a" for a by (simp add: s1_def page_index_def)
  obtain bm where bm: "set_buddy_free s1 (page_addr s p) k = s1\<lparr>bs_bitmap := bm\<rparr>"
    "\<And>q. bm_test bm q \<longleftrightarrow> q \<notin> pages_of p k \<and> page_used s1 q"
    using set_buddy_free_eq [OF g1(1) _ k, of p] r g1 by auto
  define s2 where "s2 = s1\<lparr>bs_bitmap := bm\<rparr>"
  have g2: "mem_start s2 = mem_start s" "total_pages s2 = total_pages s" "same_region s s2"
    by (simp_all add: s2_def s1_def same_region_def)
  have u2: "page_used s2 q \<longleftrightarrow> q \<notin> pages_of p k \<and> page_used s q" for q
    using bm(2) by (simp add: s2_def s1_def)
  have i2: "buddy_inv s2 (pages_of p k)"
    by (rule inv_hand_block [OF wf b u]) (use u2 in \<open>auto simp: s2_def s1_def same_region_def\<close>)
  have "block_aligned s2 p k" using al block_aligned_region [OF g2(3)] by simp
  then obtain t p' k' where mg: "buddy_merge s2 (page_addr s p) k = Some (t, page_addr s p', k')" "grown s2 p k t p' k'"
    using buddy_merge_inv [OF i2 k] r g2(1,2) u2 by auto
  have k': "k' \<le> BUDDY_MAX_ORDER" "p' + 2 ^ k' \<le> total_pages s" "only_lists s2 t" "pages_of p k \<subseteq> pages_of p' k'"
    and it: "buddy_inv t (pages_of p' k')" and un: "\<forall>q \<in> pages_of p' k'. \<not> page_used s2 q"
    and nt: "\<And>q. q \<notin> pages_of p' k' \<Longrightarrow> bs_nodes t q = bs_nodes s2 q" and al': "block_aligned s2 p' k'"
    using mg(2) g2(2) by (auto simp: grown_def)
  have t: "mem_start t = mem_start s" "total_pages t = total_pages s" "same_region s2 t" "buddy_geom t"
    "bs_lock t" "bs_mem t = bs_mem s" "\<And>q. page_used t q = page_used s2 q"
    using k'(3) inv_geom [OF it] by (auto simp: only_lists_def same_region_def s2_def s1_def)
  have p't: "p' < total_pages s" using k'(2) less_le_trans [of p' "p' + 2 ^ k'"] by simp
  define s' where "s' = t\<lparr>bs_nodes := nodes_upd t p' k', free_lists := (free_lists t)(k' := p' # free_lists t k'),
                          bs_lock := False\<rparr>"
  have meta: "set_block_metadata (set_node t p' (page_addr s p') (int k')) (page_addr s p') k' =
      t\<lparr>bs_nodes := nodes_upd t p' k'\<rparr>"
    using set_node_metadata [OF t(4) _ k'(1), of p'] k'(2) t by simp
  have ixt: "page_index t (page_addr s p') = p'"
    using page_index_addr [OF t(4), of p'] p't t by simp
  have busy: "\<not> all_pages_free s1 p (p + 2 ^ k)"
  proof -
    have "p \<in> set [p..<p + 2 ^ k]" by simp
    then show ?thesis using u unfolding all_pages_free_def list_all_iff s1_def by auto
  qed
  have "buddy_free s ptr ord = Some s'"
  proof -
    have "ptr \<noteq> 0" using ptr(1) d(2) by simp
    moreover have "\<not> page_addr s p > ptr" using ptr(1) q0(1) by auto
    moreover have "\<not> ptr \<ge> page_addr s (p + 2 ^ k)" using ptr(2) top(1) by linarith
    moreover have "page_index s (page_addr s p) = p" by (rule page_index_addr [OF geo]) (use pt in simp)
    ultimately show ?thesis
      using l o ix ix1 q0t n0 g1 busy bm(1) mg(1) meta ixt p't t(2) add64_block [OF geo r k]
      unfolding buddy_free_def Let_def s1_def [symmetric] s2_def
      by (simp add: shl64_PGSIZE [OF k] push_free_def s'_def)
  qed
  moreover have "buddy_wf s'"
  proof -
    have "buddy_inv s' (pages_of p' k' - pages_of p' k')"
    proof (rule inv_put [OF it, where v = False])
      show "block_aligned t p' k'" using al' block_aligned_region [OF t(3)] by simp
      show "page_used s' q = False" if "q \<in> pages_of p' k'" for q
        using un that t(7) by (simp add: s'_def)
    qed (use k' t in \<open>auto simp: s'_def nodes_upd_def same_region_def\<close>)
    then show ?thesis by simp
  qed
  moreover have "page_used s' q \<longleftrightarrow> q \<notin> pages_of p k \<and> page_used s q" for q
    using t(7) u2 by (simp add: s'_def)
  moreover have "same_region s s'" "is_block s' p' k'" "bs_mem s' = bs_mem s" "\<not> bs_lock s'"
    using t g2(3) p't k'(1) by (auto simp: s'_def same_region_def is_block_def nodes_upd_def)
  moreover have "\<forall>q \<in> pages_of p' k'. \<not> page_used s' q" using un t(7) by (simp add: s'_def)
  moreover have "bs_nodes s' q = bs_nodes s q" if "q \<notin> pages_of p' k'" for q
    using that nt [OF that] by (auto simp: s'_def nodes_upd_def s2_def s1_def)
  ultimately show ?thesis using that k'(4) by blast
qed

section \<open>Effect on the live blocks\<close>

lemma live_blocks_iff:
  "(a, k) \<in> live_blocks s \<longleftrightarrow> (\<exists>p. a = page_addr s p \<and> is_block s p k \<and> page_used s p)"
  by (auto simp: live_blocks_def)

lemma live_blocks_cong:
  assumes "mem_start s' = mem_start s"
    and "\<And>p k. is_block s' p k \<and> page_used s' p \<longleftrightarrow> P p k"
  shows "live_blocks s' = {(page_addr s p, k) | p k. P p k}"
  using assms by (auto simp: live_blocks_def)

lemma alloc_live:
  assumes wf: "buddy_wf s" "buddy_wf s'" and g: "same_region s s'" and b: "is_block s p j" "\<not> page_used s p"
    and b': "is_block s' p k"
    and u: "\<And>q. page_used s' q \<longleftrightarrow> q \<in> pages_of p k \<or> page_used s q"
    and n: "\<And>q. q \<notin> pages_of p j \<Longrightarrow> bs_nodes s' q = bs_nodes s q"
  shows "live_blocks s' = insert (page_addr s p, k) (live_blocks s)"
proof -
  have un: "\<not> page_used s q" if "q \<in> pages_of p j" for q using inv_block(5) [OF wf(1) b(1)] b(2) that by auto
  have old: "is_block s' q i = is_block s q i" if "page_used s q" for q i
    using is_block_region [OF g n] un that by blast
  have new: "is_block s' q i \<longleftrightarrow> q = p \<and> i = k" if "q \<in> pages_of p k" for q i
    using blocks_disjoint [OF wf(2) b'] that b' pages_of_start by blast
  have "is_block s' q i \<and> page_used s' q \<longleftrightarrow> q = p \<and> i = k \<or> is_block s q i \<and> page_used s q" for q i
  proof (cases "q \<in> pages_of p k")
    case True
    have "\<not> (is_block s q i \<and> page_used s q) \<or> q = p \<and> i = k"
      using True old [of q i] new [OF True, of i] by blast
    then show ?thesis using new [OF True] u True by blast
  next
    case False
    moreover have "p \<in> pages_of p k" by simp
    ultimately show ?thesis using u [of q] old [of q i] by blast
  qed
  moreover have "mem_start s' = mem_start s" using g by (simp add: same_region_def)
  ultimately have "live_blocks s' = {(page_addr s q, i) | q i. q = p \<and> i = k \<or> is_block s q i \<and> page_used s q}"
    by (intro live_blocks_cong)
  then show ?thesis by (auto simp: live_blocks_def)
qed

lemma free_live:
  assumes wf: "buddy_wf s" and g: "same_region s s'" and b: "is_block s p k"
    and u: "\<And>q. page_used s' q \<longleftrightarrow> q \<notin> pages_of p k \<and> page_used s q"
    and un: "\<forall>q \<in> pages_of p' k'. \<not> page_used s' q"
    and n: "\<And>q. q \<notin> pages_of p' k' \<Longrightarrow> bs_nodes s' q = bs_nodes s q"
  shows "live_blocks s' = live_blocks s - {(page_addr s p, k)}"
proof -
  have "is_block s' q i \<and> page_used s' q \<longleftrightarrow> is_block s q i \<and> page_used s q \<and> \<not> (q = p \<and> i = k)" for q i
  proof (cases "page_used s' q")
    case True
    then have "is_block s' q i = is_block s q i" "q \<notin> pages_of p k"
      using is_block_region [OF g n] un u by blast+
    then show ?thesis using True u [of q] by auto
  next
    case False
    then have "page_used s q \<longrightarrow> q \<in> pages_of p k" using u by blast
    moreover have "q = p \<and> i = k" if "is_block s q i" "q \<in> pages_of p k"
      using blocks_disjoint [OF wf b _ that(1) _ that(2) pages_of_start] by simp
    ultimately show ?thesis using False by blast
  qed
  moreover have "mem_start s' = mem_start s" using g by (simp add: same_region_def)
  ultimately have "live_blocks s' = {(page_addr s q, i) | q i. is_block s q i \<and> page_used s q \<and> \<not> (q = p \<and> i = k)}"
    by (intro live_blocks_cong)
  then show ?thesis by (auto simp: live_blocks_def)
qed

definition block_bytes :: "addr \<times> nat \<Rightarrow> addr set" where
  "block_bytes = (\<lambda>(a, k). {a..<a + PGSIZE * 2 ^ k})"

lemma block_page:
  assumes "x \<in> block_bytes (page_addr s p, k)"
  shows "(x - mem_start s) div PGSIZE \<in> pages_of p k"
proof -
  have x: "p * PGSIZE \<le> x - mem_start s" "x - mem_start s < (p + 2 ^ k) * PGSIZE"
    using assms by (auto simp: block_bytes_def add_mult_distrib)
  then show ?thesis
    using div_le_mono [OF x(1), of PGSIZE] by (simp add: less_mult_imp_div_less)
qed

lemma live_blocks_disjoint:
  assumes "buddy_wf s" "b \<in> live_blocks s" "b' \<in> live_blocks s" "b \<noteq> b'"
  shows "block_bytes b \<inter> block_bytes b' = {}"
proof -
  obtain p k p' k' where b: "b = (page_addr s p, k)" "is_block s p k" "b' = (page_addr s p', k')" "is_block s p' k'"
    using assms(2,3) by (auto simp: live_blocks_def)
  have False if "x \<in> block_bytes b" "x \<in> block_bytes b'" for x
    using blocks_disjoint [OF assms(1) b(2) _ b(4)] that assms(4) b(1,3) block_page by blast
  then show ?thesis by blast
qed

section \<open>The allocator's contract\<close>

inductive client_step ::
    "('s \<Rightarrow> nat \<Rightarrow> (addr \<times> 's) option) \<Rightarrow> ('s \<Rightarrow> addr \<Rightarrow> nat \<Rightarrow> 's option) \<Rightarrow> nat \<Rightarrow>
     's \<times> (addr \<times> nat) set \<Rightarrow> 's \<times> (addr \<times> nat) set \<Rightarrow> bool"
  for alloc free K where
  client_alloc: "k \<le> K \<Longrightarrow> alloc s k = Some (a, s') \<Longrightarrow>
    client_step alloc free K (s, L) (s', if a = 0 then L else insert (a, k) L)"
| client_free: "(a, k) \<in> L \<Longrightarrow> free s a k = Some s' \<Longrightarrow>
    client_step alloc free K (s, L) (s', L - {(a, k)})"

locale page_allocator =
  fixes inv :: "'s \<Rightarrow> bool"
    and live :: "'s \<Rightarrow> (addr \<times> nat) set"
    and span :: "addr \<times> nat \<Rightarrow> addr set"
    and alloc :: "'s \<Rightarrow> nat \<Rightarrow> (addr \<times> 's) option"
    and free :: "'s \<Rightarrow> addr \<Rightarrow> nat \<Rightarrow> 's option"
    and K :: nat
  assumes live_disjoint: "inv s \<Longrightarrow> b \<in> live s \<Longrightarrow> b' \<in> live s \<Longrightarrow> b \<noteq> b' \<Longrightarrow> span b \<inter> span b' = {}"
    and alloc_ok: "inv s \<Longrightarrow> k \<le> K \<Longrightarrow> alloc s k = Some (0, s) \<or>
      (\<exists>a s'. alloc s k = Some (a, s') \<and> a \<noteq> 0 \<and> inv s' \<and> (a, k) \<notin> live s \<and> live s' = insert (a, k) (live s))"
    and free_ok: "inv s \<Longrightarrow> (a, k) \<in> live s \<Longrightarrow>
      \<exists>s'. free s a k = Some s' \<and> inv s' \<and> live s' = live s - {(a, k)}"
begin

lemma step_keeps:
  assumes "client_step alloc free K (s, L) (s', L')" "inv s" "L = live s"
  shows "inv s' \<and> L' = live s'"
  using assms(1)
proof cases
  case (client_alloc k a)
  then show ?thesis using alloc_ok [OF assms(2), of k] assms(2,3) by auto
next
  case (client_free a k)
  then show ?thesis using free_ok [OF assms(2)] assms(3) by fastforce
qed

lemma steps_keep:
  assumes "(client_step alloc free K)\<^sup>*\<^sup>* c c'" "inv (fst c)" "snd c = live (fst c)"
  shows "inv (fst c') \<and> snd c' = live (fst c')"
  using assms
proof (induction rule: rtranclp_induct)
  case (step d e)
  then show ?case
    using step_keeps [of "fst d" "snd d" "fst e" "snd e"] by (cases d) simp
qed simp

lemma client_safe:
  assumes "(client_step alloc free K)\<^sup>*\<^sup>* (s, live s) (s', L')" "inv s"
  shows "inv s' \<and> L' = live s' \<and>
    (\<forall>b \<in> L'. \<forall>b' \<in> L'. b \<noteq> b' \<longrightarrow> span b \<inter> span b' = {}) \<and>
    (\<forall>k \<le> K. alloc s' k \<noteq> None) \<and> (\<forall>(a, k) \<in> L'. free s' a k \<noteq> None)"
proof -
  have i: "inv s'" "L' = live s'" using steps_keep [OF assms(1)] assms(2) by auto
  moreover have "\<forall>k \<le> K. alloc s' k \<noteq> None" using alloc_ok [OF i(1)] by fastforce
  moreover have "\<forall>(a, k) \<in> L'. free s' a k \<noteq> None" using free_ok [OF i(1)] i(2) by fastforce
  ultimately show ?thesis using live_disjoint by blast
qed

end

lemma buddy_alloc_live:
  assumes "buddy_wf s" "\<not> bs_lock s" "k \<le> BUDDY_MAX_ORDER"
  shows "buddy_alloc s (int k) = Some (0, s) \<or>
    (\<exists>a s'. buddy_alloc s (int k) = Some (a, s') \<and> a \<noteq> 0 \<and> (buddy_wf s' \<and> \<not> bs_lock s') \<and>
       (a, k) \<notin> live_blocks s \<and> live_blocks s' = insert (a, k) (live_blocks s))"
proof (cases "find_order (free_lists s) k")
  case None
  then show ?thesis using buddy_alloc_none [OF assms(2,3)] find_order_None by blast
next
  case (Some j)
  define p where "p = hd (free_lists s j)"
  have b: "is_block s p j" "\<not> page_used s p" using alloc_take(1,2) [OF assms(1) Some p_def] .
  from buddy_alloc_block [OF assms Some p_def] obtain s' where s': "buddy_alloc s (int k) = Some (page_addr s p, s')"
    "buddy_wf s'" "same_region s s'" "\<not> bs_lock s'" "is_block s' p k"
    "\<And>q. page_used s' q \<longleftrightarrow> q \<in> pages_of p k \<or> page_used s q"
    "\<And>q. q \<notin> pages_of p j \<Longrightarrow> bs_nodes s' q = bs_nodes s q" by metis
  have "page_addr s p \<noteq> 0" using inv_geom [OF assms(1)] by (simp add: buddy_geom_def)
  moreover have "(page_addr s p, k) \<notin> live_blocks s" using b(2) by (simp add: in_live_blocks)
  moreover have "live_blocks s' = insert (page_addr s p, k) (live_blocks s)"
    by (rule alloc_live [OF assms(1) s'(2,3) b s'(5-7)])
  ultimately show ?thesis using s'(1,2,4) by blast
qed

lemma buddy_free_live:
  assumes "buddy_wf s" "\<not> bs_lock s" "(a, k) \<in> live_blocks s"
  shows "\<exists>s'. buddy_free s a (int k) = Some s' \<and> (buddy_wf s' \<and> \<not> bs_lock s') \<and>
    live_blocks s' = live_blocks s - {(a, k)}"
proof -
  obtain p where p: "a = page_addr s p" "is_block s p k" "page_used s p"
    using assms(3) by (auto simp: live_blocks_def)
  have k: "int k \<le> int BUDDY_MAX_ORDER" using p(2) by (simp add: is_block_def)
  from buddy_free_block [OF assms(1,2) p(2,3) pages_of_start refl _ k] obtain s' p' k' where
    s': "buddy_free s (page_addr s p) (int k) = Some s'" "buddy_wf s'" "same_region s s'" "\<not> bs_lock s'"
      "\<And>q. page_used s' q \<longleftrightarrow> q \<notin> pages_of p k \<and> page_used s q"
      "\<forall>q \<in> pages_of p' k'. \<not> page_used s' q"
      "\<And>q. q \<notin> pages_of p' k' \<Longrightarrow> bs_nodes s' q = bs_nodes s q" by (metis of_nat_0_le_iff)
  then show ?thesis using free_live [OF assms(1) s'(3) p(2) s'(5-7)] p(1) by blast
qed

interpretation buddy: page_allocator
  "\<lambda>s. buddy_wf s \<and> \<not> bs_lock s" live_blocks block_bytes
  "\<lambda>s k. buddy_alloc s (int k)" "\<lambda>s a k. buddy_free s a (int k)" BUDDY_MAX_ORDER
proof unfold_locales
  fix s b b'
  assume "buddy_wf s \<and> \<not> bs_lock s" "b \<in> live_blocks s" "b' \<in> live_blocks s" "b \<noteq> b'"
  then show "block_bytes b \<inter> block_bytes b' = {}" using live_blocks_disjoint by blast
qed (use buddy_alloc_live buddy_free_live in blast)+

end
