(* ===== verification/Buddy_Init.thy ===== *)
theory Buddy_Init
  imports Buddy_Ops
begin

text \<open>
  \<^verbatim>\<open>buddy_init\<close> establishes the invariant: the loop that adds blocks terminates, the metadata
  pages are reserved for ever, and nothing is live.
\<close>

section \<open>Metadata pages\<close>

lemma meta_pages_le: "meta_pages n \<le> n"
proof (cases n)
  case (Suc m)
  have "bitmap_bytes n \<le> n + 8" unfolding bitmap_bytes_def Suc by linarith
  then have "bitmap_bytes n + n * SIZEOF_BUDDY_NODE + PGSIZE - 1 < (n + 1) * PGSIZE"
    unfolding SIZEOF_BUDDY_NODE_def Suc by simp
  then show ?thesis unfolding meta_pages_def using less_mult_imp_div_less by (metis Suc_eq_plus1 less_Suc_eq_le)
qed (simp add: meta_pages_def bitmap_bytes_def)

lemma mark_meta_fold:
  assumes "buddy_geom s" "n \<le> total_pages s"
  shows "\<exists>bm. fold mark_meta_page [0..<n] s =
      s\<lparr>bs_bitmap := bm, bs_nodes := (\<lambda>q. if q < n then \<lparr>nd_addr = page_addr s q, nd_order = -1\<rparr> else bs_nodes s q)\<rparr> \<and>
    (\<forall>q. bm_test bm q \<longleftrightarrow> q < n \<or> page_used s q)"
  using assms(2)
proof (induction n)
  case 0
  show ?case by (rule exI [where x = "bs_bitmap s"]) simp
next
  case (Suc n)
  then obtain bm where IH: "fold mark_meta_page [0..<n] s =
      s\<lparr>bs_bitmap := bm, bs_nodes := (\<lambda>q. if q < n then \<lparr>nd_addr = page_addr s q, nd_order = -1\<rparr> else bs_nodes s q)\<rparr>"
    "\<And>q. bm_test bm q \<longleftrightarrow> q < n \<or> page_used s q" by auto
  have "add64 (mem_start s) (n * PGSIZE) = page_addr s n"
    using geom_addr_less [OF assms(1), of n] Suc.prems by (simp add: add64_in_range)
  then have "fold mark_meta_page [0..<Suc n] s =
      s\<lparr>bs_bitmap := bm_set bm n,
        bs_nodes := (\<lambda>q. if q < Suc n then \<lparr>nd_addr = page_addr s q, nd_order = -1\<rparr> else bs_nodes s q)\<rparr>"
    by (auto simp: IH(1) mark_meta_page_def set_node_def less_Suc_eq fun_eq_iff
        intro!: arg_cong [where f = "\<lambda>f. s\<lparr>bs_bitmap := bm_set bm n, bs_nodes := f\<rparr>"])
  moreover have "bm_test (bm_set bm n) q \<longleftrightarrow> q < Suc n \<or> page_used s q" for q
    by (auto simp: bm64.test_setb IH(2) less_Suc_eq)
  ultimately show ?case by blast
qed

section \<open>Adding blocks\<close>

text \<open>Pages whose metadata was never written belong to no block and can be taken in hand.\<close>

lemma inv_lost:
  assumes i: "buddy_wf s" and X: "\<And>q. q \<in> X \<Longrightarrow> nd_addr (bs_nodes s q) = 0"
  shows "buddy_inv s X"
proof -
  have out: "q \<notin> X" if "is_block s p k" "q \<in> pages_of p k" for p k q
    using inv_block(4) [OF i that(1) _ that(2)] X [of q] inv_geom [OF i] by (auto simp: buddy_geom_def)
  show ?thesis
  proof (rule buddy_invI)
    show "block_ok s p k \<and> pages_of p k \<inter> X = {}" if "is_block s p k" "p \<notin> X" for p k
      using inv_block_ok [OF i that(1)] out [OF that(1)] by blast
    show "p \<in> set (free_lists s k) \<longleftrightarrow> p \<notin> X \<and> is_block s p k \<and> \<not> page_used s p"
      if "k \<le> BUDDY_MAX_ORDER" for k p
      using in_free_list [OF i that] out [OF _ pages_of_start] by blast
    show "\<exists>p k. p \<notin> X \<and> is_block s p k \<and> q \<in> pages_of p k"
      if "q < total_pages s" "q \<notin> X" "nd_addr (bs_nodes s q) \<noteq> 0 \<or> page_used s q" "nd_order (bs_nodes s q) \<noteq> -1" for q
      using inv_used [OF i that(1) _ that(3,4)] out [OF _ pages_of_start] by blast
  qed (use i inv_order [OF i] in \<open>auto simp: buddy_inv_def\<close>)
qed

definition fresh_from :: "buddy_system \<Rightarrow> nat \<Rightarrow> bool" where
  "fresh_from s p \<longleftrightarrow> (\<forall>q. p \<le> q \<and> q < total_pages s \<longrightarrow> nd_addr (bs_nodes s q) = 0 \<and> \<not> page_used s q)"

lemma add_block_step:
  assumes i: "buddy_wf s" and fr: "fresh_from s p" and m: "m \<le> BUDDY_MAX_ORDER"
    and r: "p + 2 ^ m \<le> total_pages s" and al: "block_aligned s p m" and e: "mem_end s + 2 ^ 24 \<le> 2 ^ 64"
  obtains t where "add_blocks s (mem_end s) m (page_addr s p) = add_blocks t (mem_end t) m (page_addr t (p + 2 ^ m))"
    "buddy_wf t" "fresh_from t (p + 2 ^ m)" "same_region s t" "bs_bitmap t = bs_bitmap s" "bs_lock t = bs_lock s"
    "free_lists t = (free_lists s)(m := p # free_lists s m)" "\<And>q. q < p \<Longrightarrow> bs_nodes t q = bs_nodes s q"
proof -
  have geo: "buddy_geom s" by (rule inv_geom [OF i])
  define t where "t = s\<lparr>bs_nodes := nodes_upd s p m, free_lists := (free_lists s)(m := p # free_lists s m)\<rparr>"
  have p: "p \<le> total_pages s" using r by simp
  have "add64 (page_addr s p) (shl64 PGSIZE m) \<le> mem_end s"
    using add64_block [OF geo r m] geo mult_le_mono1 [OF r, of PGSIZE] by (simp add: buddy_geom_def)
  moreover have "set_block_metadata (push_free (set_node s p (page_addr s p) (int m)) m p) (page_addr s p) m = t"
  proof -
    let ?s = "push_free s m p"
    have "buddy_geom ?s" "p + 2 ^ m \<le> total_pages ?s" using geo r by (auto simp: push_free_def buddy_geom_def)
    from set_node_metadata [OF this m]
    have "set_block_metadata (set_node ?s p (page_addr s p) (int m)) (page_addr s p) m = ?s\<lparr>bs_nodes := nodes_upd ?s p m\<rparr>"
      by (simp add: push_free_def)
    moreover have "push_free (set_node s p (page_addr s p) (int m)) m p = set_node ?s p (page_addr s p) (int m)"
      by (simp add: push_free_def set_node_def)
    moreover have "nodes_upd ?s p m = nodes_upd s p m" by (auto simp: nodes_upd_def push_free_def fun_eq_iff)
    ultimately show ?thesis by (simp add: t_def push_free_def)
  qed
  moreover have "mem_end t = mem_end s" "mem_start t = mem_start s" by (simp_all add: t_def)
  ultimately have "add_blocks s (mem_end s) m (page_addr s p) =
      add_blocks t (mem_end t) m (page_addr t (p + 2 ^ m))"
    using page_index_addr [OF geo p] add64_block [OF geo r m]
    by (subst add_blocks.simps) (simp add: Let_def)
  moreover have "buddy_wf t"
  proof -
    have "buddy_inv s (pages_of p m)" using fr r by (intro inv_lost [OF i]) (auto simp: fresh_from_def)
    then have "buddy_inv t (pages_of p m - pages_of p m)"
    proof (rule inv_put [where v = False])
      show "page_used t q = False" if "q \<in> pages_of p m" for q
        using fr r that by (auto simp: fresh_from_def t_def)
    qed (use r m al in \<open>auto simp: t_def same_region_def nodes_upd_def\<close>)
    then show ?thesis by simp
  qed
  moreover have "fresh_from t (p + 2 ^ m)" using fr by (auto simp: fresh_from_def t_def nodes_upd_def)
  moreover have "bs_nodes t q = bs_nodes s q" if "q < p" for q using that by (auto simp: t_def nodes_upd_def)
  ultimately show ?thesis using that by (simp add: t_def same_region_def)
qed

lemma add_blocks_wf:
  assumes "buddy_wf s" "fresh_from s p" "m \<le> BUDDY_MAX_ORDER" "p \<le> total_pages s" "block_aligned s p m"
    and "mem_end s + 2 ^ 24 \<le> 2 ^ 64" "\<And>k. k \<le> BUDDY_MAX_ORDER \<Longrightarrow> k \<noteq> m \<Longrightarrow> free_lists s k = []"
  shows "\<exists>s'. add_blocks s (mem_end s) m (page_addr s p) = Some s' \<and> buddy_wf s' \<and> same_region s s' \<and>
    bs_bitmap s' = bs_bitmap s \<and> bs_lock s' = bs_lock s \<and> (\<forall>q < p. bs_nodes s' q = bs_nodes s q) \<and>
    (\<forall>k. k \<le> BUDDY_MAX_ORDER \<and> k \<noteq> m \<longrightarrow> free_lists s' k = []) \<and>
    set (free_lists s m) \<union> {p + i * 2 ^ m | i. p + (i + 1) * 2 ^ m \<le> total_pages s} \<subseteq> set (free_lists s' m)"
  using assms
proof (induction "total_pages s - p" arbitrary: s p rule: less_induct)
  case less
  have geo: "buddy_geom s" by (rule inv_geom [OF less.prems(1)])
  show ?case
  proof (cases "p + 2 ^ m \<le> total_pages s")
    case False
    have "(2::nat) ^ m \<le> 2 ^ 11" using less.prems(3) by (intro power_increasing) auto
    moreover have "page_addr s p \<le> mem_end s"
      using geo mult_le_mono1 [OF less.prems(4), of PGSIZE] by (simp add: buddy_geom_def)
    ultimately have "add64 (page_addr s p) (shl64 PGSIZE m) = page_addr s (p + 2 ^ m)"
      using less.prems(6) shl64_PGSIZE [OF less.prems(3)] by (simp add: add64_in_range add_mult_distrib)
    moreover have "total_pages s * PGSIZE < (p + 2 ^ m) * PGSIZE" using False by simp
    ultimately have "add_blocks s (mem_end s) m (page_addr s p) = Some s"
      using geo by (subst add_blocks.simps) (auto simp: buddy_geom_def)
    moreover have "\<not> p + (i + 1) * 2 ^ m \<le> total_pages s" for i using False by simp
    ultimately show ?thesis using less.prems by auto
  next
    case True
    obtain t where t: "add_blocks s (mem_end s) m (page_addr s p) = add_blocks t (mem_end t) m (page_addr t (p + 2 ^ m))"
      "buddy_wf t" "fresh_from t (p + 2 ^ m)" "same_region s t" "bs_bitmap t = bs_bitmap s" "bs_lock t = bs_lock s"
      "free_lists t = (free_lists s)(m := p # free_lists s m)" "\<And>q. q < p \<Longrightarrow> bs_nodes t q = bs_nodes s q"
      using add_block_step [OF less.prems(1-3) True less.prems(5,6)] by metis
    have g: "total_pages t = total_pages s" "mem_end t = mem_end s" "mem_start t = mem_start s"
      using t(4) by (auto simp: same_region_def)
    have "p < total_pages s" using True less_le_trans [of p "p + 2 ^ m"] by simp
    then have pr: "total_pages t - (p + 2 ^ m) < total_pages s - p" "p + 2 ^ m \<le> total_pages t"
      "block_aligned t (p + 2 ^ m) m" "mem_end t + 2 ^ 24 \<le> 2 ^ 64"
      "\<And>k. k \<le> BUDDY_MAX_ORDER \<Longrightarrow> k \<noteq> m \<Longrightarrow> free_lists t k = []"
      using True g less.prems(6,7) t(7) block_aligned_upper [OF less.prems(5)] block_aligned_region [OF t(4)]
        diff_less_mono2 [of p "p + 2 ^ m" "total_pages s"] by auto
    from less.hyps [OF pr(1) t(2,3) less.prems(3) pr(2-5)]
    obtain s' where s': "add_blocks t (mem_end t) m (page_addr t (p + 2 ^ m)) = Some s'" "buddy_wf s'"
      "same_region t s'" "bs_bitmap s' = bs_bitmap t" "bs_lock s' = bs_lock t"
      "\<forall>q < p + 2 ^ m. bs_nodes s' q = bs_nodes t q" "\<forall>k. k \<le> BUDDY_MAX_ORDER \<and> k \<noteq> m \<longrightarrow> free_lists s' k = []"
      "set (free_lists t m) \<union> {p + 2 ^ m + i * 2 ^ m | i. p + 2 ^ m + (i + 1) * 2 ^ m \<le> total_pages t} \<subseteq> set (free_lists s' m)"
      by blast
    have "p + i * 2 ^ m \<in> set (free_lists s' m)" if "p + (i + 1) * 2 ^ m \<le> total_pages s" for i
    proof (cases i)
      case 0 then show ?thesis using s'(8) t(7) by auto
    next
      case (Suc j)
      then have "p + 2 ^ m + j * 2 ^ m \<in> set (free_lists s' m)" using s'(8) that g(1) by auto
      then show ?thesis using Suc by (simp add: add.assoc)
    qed
    moreover have "set (free_lists s m) \<subseteq> set (free_lists s' m)" using s'(8) t(7) by auto
    ultimately show ?thesis
      using s'(1-7) t same_region_trans [OF t(4)] by auto
  qed
qed

lemma align_block:
  assumes geo: "buddy_geom s" and m: "m \<le> BUDDY_MAX_ORDER" and e: "page_addr s p0 + 2 ^ 24 \<le> 2 ^ 64"
  obtains p where "ALIGN_UP (page_addr s p0) (shl64 PGSIZE m) = page_addr s p" "block_aligned s p m"
    "p0 \<le> p" "p < p0 + 2 ^ m" "\<And>p'. p0 \<le> p' \<Longrightarrow> block_aligned s p' m \<Longrightarrow> p \<le> p'"
proof -
  let ?a = "page_addr s p0" and ?B = "2 ^ (12 + m) :: nat"
  have B: "shl64 PGSIZE m = ?B" "PGSIZE * 2 ^ m = ?B"
    using shl64_PGSIZE [OF m] by (simp_all add: power_add)
  have Bl: "?B \<le> 2 ^ 23" using m by (intro power_increasing) auto
  define x where "x = (?a + (?B - 1)) div ?B * ?B"
  have x: "ALIGN_UP ?a (shl64 PGSIZE m) = x"
    unfolding B x_def using Bl e m by (intro ALIGN_UP_pow2) auto
  have bnd: "?a \<le> x" "x < ?a + ?B" using round_up_bounds [of ?B ?a] unfolding x_def by simp_all
  have "PGSIZE dvd ?B" unfolding B(2) [symmetric] by simp
  then have "PGSIZE dvd x" unfolding x_def by (rule dvd_mult)
  moreover have "PGSIZE dvd mem_start s" using geo by (simp add: buddy_geom_def)
  ultimately have "PGSIZE dvd x - mem_start s" by (rule dvd_diff_nat)
  then obtain p where p: "x = page_addr s p" using bnd(1)
    by (metis add.commute add_leD1 dvdE le_add_diff_inverse mult.commute)
  have "block_aligned s p m" unfolding block_aligned_def B p [symmetric] x_def by simp
  moreover have "p0 \<le> p" using bnd(1) unfolding p by simp
  moreover have "p < p0 + 2 ^ m"
  proof -
    have "p * PGSIZE < (p0 + 2 ^ m) * PGSIZE" using bnd(2) unfolding p B(2) [symmetric] by (simp add: add_mult_distrib)
    then show ?thesis by simp
  qed
  moreover have "p \<le> p'" if p': "p0 \<le> p'" "block_aligned s p' m" for p'
  proof -
    obtain c where c: "page_addr s p' = c * ?B"
      using p'(2) unfolding block_aligned_def B by (metis dvd_def mod_eq_0_iff_dvd mult.commute)
    have "?a \<le> c * ?B" using p'(1) unfolding c [symmetric] by simp
    moreover have "(c + 1) * ?B = c * ?B + ?B" "0 < ?B" by simp_all
    ultimately have "?a + (?B - 1) < (c + 1) * ?B" by linarith
    then have "(?a + (?B - 1)) div ?B < c + 1" by (rule less_mult_imp_div_less)
    then have "x \<le> c * ?B" unfolding x_def by (intro mult_le_mono) auto
    then show ?thesis unfolding p c [symmetric] by simp
  qed
  ultimately show ?thesis using that x p by simp
qed

definition fits :: "buddy_system \<Rightarrow> nat \<Rightarrow> nat \<Rightarrow> bool" where
  "fits s p0 k \<longleftrightarrow> (\<exists>p \<ge> p0. p + 2 ^ k \<le> total_pages s \<and> block_aligned s p k)"

lemma add_max_step:
  assumes geo: "buddy_geom s" and m: "m \<le> BUDDY_MAX_ORDER" and p0: "p0 \<le> total_pages s"
    and e: "mem_end s + 2 ^ 24 \<le> 2 ^ 64"
  obtains (fit) p where "p0 \<le> p" "p + 2 ^ m \<le> total_pages s" "block_aligned s p m"
      "add_max_blocks s (page_addr s p0) (mem_end s) m = add_blocks s (mem_end s) m (page_addr s p)"
  | (big) "\<not> fits s p0 m"
      "add_max_blocks s (page_addr s p0) (mem_end s) m =
        (if m = 0 then Some s else add_max_blocks s (page_addr s p0) (mem_end s) (m - 1))"
proof -
  have me: "mem_end s = page_addr s (total_pages s)" using geo by (simp add: buddy_geom_def)
  then have pe: "page_addr s p0 \<le> mem_end s" using mult_le_mono1 [OF p0, of PGSIZE] by simp
  then have e0: "page_addr s p0 + 2 ^ 24 \<le> 2 ^ 64" using e by simp
  obtain p where p: "ALIGN_UP (page_addr s p0) (shl64 PGSIZE m) = page_addr s p" "block_aligned s p m"
    "p0 \<le> p" "p < p0 + 2 ^ m" "\<And>p'. p0 \<le> p' \<Longrightarrow> block_aligned s p' m \<Longrightarrow> p \<le> p'"
    using align_block [OF geo m e0] by metis
  have "(2::nat) ^ m \<le> 2 ^ 11" using m by (intro power_increasing) auto
  moreover have "p * PGSIZE < (p0 + 2 ^ m) * PGSIZE" using p(4) by simp
  ultimately have "page_addr s p + PGSIZE * 2 ^ m < 2 ^ 64" using pe e by (simp add: add_mult_distrib)
  then have ad: "add64 (page_addr s p) (shl64 PGSIZE m) = page_addr s (p + 2 ^ m)"
    by (simp add: shl64_PGSIZE [OF m] add64_in_range add_mult_distrib)
  show ?thesis
  proof (cases "p + 2 ^ m \<le> total_pages s")
    case True
    then have "\<not> page_addr s (p + 2 ^ m) > mem_end s" using mult_le_mono1 [OF True, of PGSIZE] me by simp
    then show ?thesis using that(1) [OF p(3) True p(2)] p(1) ad by (simp add: add_max_blocks.simps [of s _ _ m])
  next
    case False
    then have "(p + 2 ^ m) * PGSIZE > total_pages s * PGSIZE" by simp
    then have "page_addr s (p + 2 ^ m) > mem_end s" using me by simp
    moreover have "\<not> fits s p0 m" using False p(5) unfolding fits_def by fastforce
    ultimately show ?thesis using that(2) p(1) ad by (simp add: add_max_blocks.simps [of s _ _ m])
  qed
qed

text \<open>The free lists of \<open>s'\<close> hold the blocks of one order \<open>m'\<close>, the largest that fits.\<close>

definition seeded :: "buddy_system \<Rightarrow> nat \<Rightarrow> nat \<Rightarrow> buddy_system \<Rightarrow> nat \<Rightarrow> bool" where
  "seeded s p0 m s' m' \<longleftrightarrow> buddy_wf s' \<and> same_region s s' \<and> bs_bitmap s' = bs_bitmap s \<and>
    bs_lock s' = bs_lock s \<and> (\<forall>q < p0. bs_nodes s' q = bs_nodes s q) \<and>
    (\<forall>k. k \<le> BUDDY_MAX_ORDER \<and> k \<noteq> m' \<longrightarrow> free_lists s' k = []) \<and>
    (\<forall>k \<le> m. fits s p0 k \<longrightarrow> k \<le> m' \<and> m' \<le> m \<and> free_lists s' m' \<noteq> [])"

lemma add_max_fit:
  assumes wf: "buddy_wf s" and fr: "fresh_from s p0" and m: "m \<le> BUDDY_MAX_ORDER"
    and e: "mem_end s + 2 ^ 24 \<le> 2 ^ 64" and F: "\<And>k. k \<le> BUDDY_MAX_ORDER \<Longrightarrow> free_lists s k = []"
    and fit: "p0 \<le> p" "p + 2 ^ m \<le> total_pages s" "block_aligned s p m"
  shows "\<exists>s'. add_blocks s (mem_end s) m (page_addr s p) = Some s' \<and> seeded s p0 m s' m"
proof -
  have "fresh_from s p" "p \<le> total_pages s" using fr fit by (auto simp: fresh_from_def)
  then obtain s' where s': "add_blocks s (mem_end s) m (page_addr s p) = Some s'" "buddy_wf s'"
    "same_region s s'" "bs_bitmap s' = bs_bitmap s" "bs_lock s' = bs_lock s"
    "\<forall>q < p. bs_nodes s' q = bs_nodes s q" "\<forall>k. k \<le> BUDDY_MAX_ORDER \<and> k \<noteq> m \<longrightarrow> free_lists s' k = []"
    "{p + i * 2 ^ m | i. p + (i + 1) * 2 ^ m \<le> total_pages s} \<subseteq> set (free_lists s' m)"
    using add_blocks_wf [OF wf _ m _ fit(3) e F] by blast
  have "p \<in> {p + i * 2 ^ m | i. p + (i + 1) * 2 ^ m \<le> total_pages s}"
    using fit(2) by (intro CollectI exI [where x = 0]) auto
  then have "free_lists s' m \<noteq> []" using subsetD [OF s'(8)] by fastforce
  then show ?thesis using s' fit(1) by (auto simp: seeded_def)
qed

lemma add_max_blocks_wf:
  assumes wf: "buddy_wf s" and fr: "fresh_from s p0" and m: "m \<le> BUDDY_MAX_ORDER" and p0: "p0 \<le> total_pages s"
    and e: "mem_end s + 2 ^ 24 \<le> 2 ^ 64" and F: "\<And>k. k \<le> BUDDY_MAX_ORDER \<Longrightarrow> free_lists s k = []"
  shows "\<exists>s' m'. add_max_blocks s (page_addr s p0) (mem_end s) m = Some s' \<and> seeded s p0 m s' m'"
  using m
proof (induction m)
  case 0
  from inv_geom [OF wf] 0 p0 e show ?case
  proof (cases rule: add_max_step)
    case (fit p)
    then show ?thesis using add_max_fit [OF wf fr 0 e F] by fastforce
  next
    case big
    then show ?thesis using wf F by (intro exI [where x = s] exI [where x = 0]) (auto simp: seeded_def)
  qed
next
  case (Suc m)
  from inv_geom [OF wf] Suc.prems p0 e show ?case
  proof (cases rule: add_max_step)
    case (fit p)
    then show ?thesis using add_max_fit [OF wf fr Suc.prems e F] by fastforce
  next
    case big
    obtain s' m' where "add_max_blocks s (page_addr s p0) (mem_end s) m = Some s'" "seeded s p0 m s' m'"
      using Suc.IH Suc.prems by auto
    then show ?thesis using big by (auto simp: seeded_def le_Suc_eq)
  qed
qed

section \<open>Initialisation\<close>

lemma buddy_init_wf:
  assumes st: "0 < start" "PGSIZE dvd start" and en: "start + n * PGSIZE + 2 ^ 24 \<le> 2 ^ 64"
  shows "\<exists>s m. buddy_init s0 start (start + n * PGSIZE) = Some s \<and> buddy_wf s \<and> \<not> bs_lock s \<and>
    mem_start s = start \<and> total_pages s = n \<and> live_blocks s = {} \<and> used_pages s = {0..<meta_pages n} \<and>
    (\<forall>k. k \<le> BUDDY_MAX_ORDER \<and> k \<noteq> m \<longrightarrow> free_lists s k = []) \<and>
    (\<forall>k \<le> BUDDY_MAX_ORDER. fits s (meta_pages n) k \<longrightarrow> k \<le> m \<and> m \<le> BUDDY_MAX_ORDER \<and> free_lists s m \<noteq> [])"
proof -
  define e where "e = start + n * PGSIZE"
  have n: "sub64 e start div PGSIZE = n" using en by (simp add: e_def sub64_in_range)
  define s1 where "s1 = s0\<lparr>mem_start := start, mem_end := e, total_pages := n, bs_lock := False,
      free_lists := (\<lambda>k. if k \<le> BUDDY_MAX_ORDER then [] else free_lists s0 k),
      bs_bitmap := (\<lambda>i. if i < (n + 63) div 64 then 0 else bs_bitmap s0 i),
      bs_nodes := (\<lambda>i. if i < n then \<lparr>nd_addr = 0, nd_order = 0\<rparr> else bs_nodes s0 i)\<rparr>"
  have geo1: "buddy_geom s1" using st en by (simp add: buddy_geom_def s1_def e_def)
  have u1: "\<not> page_used s1 q" if "q < n" for q
  proof -
    have "q div 64 < (n + 63) div 64" using that by linarith
    then show ?thesis by (simp add: bm_test_bit s1_def)
  qed
  let ?mp = "meta_pages n"
  obtain bm where bm: "fold mark_meta_page [0..<?mp] s1 =
      s1\<lparr>bs_bitmap := bm, bs_nodes := (\<lambda>q. if q < ?mp then \<lparr>nd_addr = page_addr s1 q, nd_order = -1\<rparr> else bs_nodes s1 q)\<rparr>"
    "\<And>q. bm_test bm q \<longleftrightarrow> q < ?mp \<or> page_used s1 q"
    using mark_meta_fold [OF geo1, of ?mp] meta_pages_le [of n] by (auto simp: s1_def)
  define s2 where "s2 = fold mark_meta_page [0..<?mp] s1"
  have s2: "mem_start s2 = start" "mem_end s2 = e" "total_pages s2 = n" "\<not> bs_lock s2"
    "\<And>k. k \<le> BUDDY_MAX_ORDER \<Longrightarrow> free_lists s2 k = []"
    "\<And>q. q < n \<Longrightarrow> page_used s2 q \<longleftrightarrow> q < ?mp"
    "\<And>q. q < n \<Longrightarrow> bs_nodes s2 q = (if q < ?mp then \<lparr>nd_addr = start + q * PGSIZE, nd_order = -1\<rparr>
        else \<lparr>nd_addr = 0, nd_order = 0\<rparr>)"
    using bm u1 by (auto simp: s2_def, auto simp: s1_def)
  have geo2: "buddy_geom s2" using geo1 s2 by (simp add: buddy_geom_def s1_def)
  have nb: "\<not> is_block s2 p k" for p k using s2(1,3,7) st(1) by (auto simp: is_block_def)
  have wf2: "buddy_wf s2"
    by (rule buddy_invI) (use geo2 nb s2 in \<open>auto split: if_splits\<close>)
  have "fresh_from s2 ?mp" using s2(3,6,7) by (auto simp: fresh_from_def)
  moreover have "add64 start (?mp * PGSIZE) = page_addr s2 ?mp"
    using geom_addr_less [OF geo2, of ?mp] meta_pages_le [of n] s2(1,3) by (simp add: add64_in_range)
  moreover have "mem_end s2 + 2 ^ 24 \<le> 2 ^ 64" using en s2(2) by (simp add: e_def)
  ultimately obtain s m where s: "add_max_blocks s2 (add64 start (?mp * PGSIZE)) e BUDDY_MAX_ORDER = Some s"
    "seeded s2 ?mp BUDDY_MAX_ORDER s m"
    using add_max_blocks_wf [OF wf2, of ?mp BUDDY_MAX_ORDER] meta_pages_le [of n] s2(2,3,5) by auto
  note sd = s(2) [unfolded seeded_def]
  have g: "mem_start s = start" "total_pages s = n" "same_region s2 s" using sd s2 by (auto simp: same_region_def)
  have "buddy_init s0 start e = Some s"
    unfolding buddy_init_def Let_def n s1_def [symmetric] s2_def [symmetric] using s(1) by simp
  moreover have u: "used_pages s = {0..<?mp}"
    using s2(6) sd g(2) meta_pages_le [of n] by (auto simp: used_pages_def)
  moreover have "live_blocks s = {}"
  proof -
    have "\<not> page_used s p" if "is_block s p k" for p k
    proof
      assume up: "page_used s p"
      have n': "p < n" using that g(2) by (simp add: is_block_def)
      then have "p \<in> used_pages s" using up g(2) by (simp add: used_pages_def)
      then have "p < ?mp" using u by simp
      with n' have "nd_order (bs_nodes s p) = -1" using sd s2(7) by simp
      then show False using that by (simp add: is_block_def)
    qed
    then show ?thesis by (auto simp: live_blocks_def)
  qed
  moreover have "fits s ?mp k = fits s2 ?mp k" for k
    unfolding fits_def block_aligned_region [OF g(3)] using g(2) s2(3) by simp
  moreover have "\<not> bs_lock s" using sd s2(4) by simp
  ultimately show ?thesis using sd g(1,2) unfolding e_def by blast
qed

end
