(* ===== verification/Buddy_Props.thy ===== *)
theory Buddy_Props
  imports Buddy_Init
begin

text \<open>
  The properties of the page allocator: what initialisation, allocation and release do, safety of
  every sequence of client requests, the page interface with its double-free guard, the size
  classes of \<open>get_order\<close>, and the places where the allocator departs from its documentation.
\<close>

section \<open>A concrete allocator\<close>

text \<open>
  A region of six pages: page 0 holds the metadata, page 1 was never added, pages 2 and 3 are a
  free block of order 1, page 4 is allocated and page 5 is its free buddy.
\<close>

definition frag_state :: buddy_system where
  "frag_state = \<lparr>mem_start = 0x80000000, mem_end = 0x80006000, total_pages = 6,
     bs_bitmap = (\<lambda>i. if i = 0 then 17 else 0),
     bs_nodes = (\<lambda>i.
       if i = 0 then \<lparr>nd_addr = 0x80000000, nd_order = -1\<rparr>
       else if i = 2 \<or> i = 3 then \<lparr>nd_addr = 0x80002000, nd_order = 1\<rparr>
       else if i = 4 then \<lparr>nd_addr = 0x80004000, nd_order = 0\<rparr>
       else if i = 5 then \<lparr>nd_addr = 0x80005000, nd_order = 0\<rparr>
       else \<lparr>nd_addr = 0, nd_order = 0\<rparr>),
     free_lists = (\<lambda>k. if k = 0 then [5] else if k = 1 then [2] else []),
     bs_lock = False, bs_mem = (\<lambda>_. 0)\<rparr>"

lemma frag_used: "page_used frag_state q \<longleftrightarrow> q = 0 \<or> q = 4"
proof -
  have "(17 :: 64 word) = push_bit 0 1 OR push_bit 4 1" by simp
  then have "bit (17 :: 64 word) n \<longleftrightarrow> n = 0 \<or> n = 4" for n
    by (simp only: bit_simps) auto
  then have "page_used frag_state q \<longleftrightarrow> q div 64 = 0 \<and> (q mod 64 = 0 \<or> q mod 64 = 4)"
    unfolding bm_test_bit frag_state_def by (cases "q div 64 = 0") simp_all
  then show ?thesis by (cases "q < 64") (auto simp: div_eq_0_iff)
qed

lemma frag_block:
  "is_block frag_state p k \<longleftrightarrow> p = 2 \<and> k = 1 \<or> p = 4 \<and> k = 0 \<or> p = 5 \<and> k = 0"
  unfolding is_block_def by (auto simp: frag_state_def split: if_splits)

lemma frag_wf: "buddy_wf frag_state"
proof (rule buddy_invI)
  show "buddy_geom frag_state" by (simp add: buddy_geom_def frag_state_def dvd_eq_mod_eq_0)
  show "block_ok frag_state p k \<and> pages_of p k \<inter> {} = {}" if "is_block frag_state p k" for p k
  proof -
    have "q \<in> pages_of p k \<Longrightarrow> q = p \<or> q = p + 1 \<and> p = 2" for q using that by (auto simp: frag_block)
    then show ?thesis
      using that unfolding block_ok_def frag_used frag_block block_aligned_def
      by (auto simp: frag_state_def)
  qed
  show "\<exists>p k. p \<notin> {} \<and> is_block frag_state p k \<and> q \<in> pages_of p k"
    if "q < total_pages frag_state" "nd_addr (bs_nodes frag_state q) \<noteq> 0 \<or> page_used frag_state q"
      "nd_order (bs_nodes frag_state q) \<noteq> -1" for q
  proof -
    have "q = 2 \<or> q = 3 \<or> q = 4 \<or> q = 5"
      using that unfolding frag_used by (auto simp: frag_state_def split: if_splits)
    then show ?thesis unfolding frag_block
      by (elim disjE) (rule exI [where x = 2], rule exI [where x = 1], simp,
        rule exI [where x = 2], rule exI [where x = 1], simp,
        rule exI [where x = 4], rule exI [where x = 0], simp,
        rule exI [where x = 5], rule exI [where x = 0], simp)
  qed
qed (auto simp: frag_used frag_block, auto simp: frag_state_def split: if_splits)

lemma frag_live: "live_blocks frag_state = {(0x80004000, 0)}"
  unfolding live_blocks_def frag_used frag_block by (auto simp: frag_state_def)

section \<open>Size classes\<close>

lemma get_order_loop_spec:
  "temp = 2 ^ order \<Longrightarrow> order \<le> BUDDY_MAX_ORDER \<Longrightarrow>
   (\<forall>j < order. 2 ^ j < sz) \<Longrightarrow>
   order \<le> get_order_loop sz temp order \<and> get_order_loop sz temp order \<le> BUDDY_MAX_ORDER \<and>
   (\<forall>j < get_order_loop sz temp order. 2 ^ j < sz) \<and>
   (get_order_loop sz temp order < BUDDY_MAX_ORDER \<longrightarrow> sz \<le> 2 ^ get_order_loop sz temp order)"
proof (induction sz temp order rule: get_order_loop.induct)
  case (1 sz temp order)
  show ?case
  proof (cases "temp < sz \<and> order < BUDDY_MAX_ORDER")
    case True
    have "shl64 temp 1 = 2 ^ (order + 1)"
      using "1.prems" True power_strict_increasing [of "order + 1" 64 "2::nat"] by (simp add: shl64_def)
    moreover have "\<forall>j < order + 1. 2 ^ j < sz"
      using "1.prems" True by (auto simp: less_Suc_eq)
    ultimately show ?thesis
      using "1.IH" [OF True] True by (subst (1 2 3 4 5) get_order_loop.simps) simp
  next
    case False
    then show ?thesis using "1.prems" by (subst (1 2 3 4 5) get_order_loop.simps) auto
  qed
qed

lemma get_order_cases:
  "sz \<le> 2 ^ 10 \<and> get_order sz = int k \<and> sz \<le> 2 ^ k \<and> k \<le> 10 \<and> (\<forall>j < k. 2 ^ j < sz) \<or>
   2 ^ 10 < sz \<and> get_order sz = -1" if "k = get_order_loop sz 1 0"
proof -
  have l: "k \<le> BUDDY_MAX_ORDER" "\<forall>j < k. 2 ^ j < sz" "k < BUDDY_MAX_ORDER \<longrightarrow> sz \<le> 2 ^ k"
    using get_order_loop_spec [of 1 0 sz] that by auto
  show ?thesis
  proof (cases "k < BUDDY_MAX_ORDER")
    case True
    then have "sz \<le> 2 ^ k" "(2::nat) ^ k \<le> 2 ^ 10" using l(3) power_increasing [of k 10 "2::nat"] by auto
    then show ?thesis using True l that by (auto simp: get_order_def Let_def)
  next
    case False
    then have "10 < k" using l(1) by simp
    then have "2 ^ 10 < sz" using l(2) by blast
    then show ?thesis using False that by (simp add: get_order_def Let_def)
  qed
qed

text \<open>
  \<open>get_order\<close> returns the least order whose block holds the requested number of pages, for
  requests of at most 1024 pages.
\<close>

theorem get_order_least:
  assumes "0 < n" "n \<le> 1024"
  shows "\<exists>k \<le> 10. get_order n = int k \<and> n \<le> 2 ^ k \<and> (\<forall>j < k. 2 ^ j < n)"
  using get_order_cases [OF refl, of n] assms by auto

theorem get_order_least_witness: "\<exists>k \<le> 10. get_order 5 = int k \<and> 5 \<le> (2::nat) ^ k \<and> (\<forall>j < k. 2 ^ j < (5::nat))"
  using get_order_least [of 5] by simp

text \<open>
  The largest size class of the allocator is never used by the page interface: a request of
  more than 1024 pages is refused by \<open>get_order\<close>, although the free lists go up to order
  \<open>BUDDY_MAX_ORDER\<close>, blocks of 2048 pages, as the comment of \<^verbatim>\<open>pmem.h\<close> announces.
\<close>

theorem get_order_rejects_max_order:
  "\<forall>n > (1024 :: nat). get_order n = -1 \<and> pmem_alloc_pages s (int n) = Some (0, s)"
proof (intro allI impI)
  fix n :: nat
  assume "1024 < n"
  then have "get_order n = -1" using get_order_cases [OF refl, of n] by auto
  then show "get_order n = -1 \<and> pmem_alloc_pages s (int n) = Some (0, s)"
    by (simp add: pmem_alloc_pages_def Let_def)
qed

theorem get_order_rejects_max_order_witness:
  "get_order 2048 = -1 \<and> pmem_alloc_pages frag_state (int 2048) = Some (0, frag_state)"
  using get_order_rejects_max_order [of frag_state] by (elim allE [where x = 2048]) simp

section \<open>Initialisation\<close>

text \<open>
  C23: \<open>buddy_init\<close> on a page-aligned region of \<open>n\<close> pages terminates and gives a well-formed
  allocator: the metadata pages at the start of the region are used, no block is live, and a
  request of order \<open>k\<close> succeeds whenever an aligned block of that order fits behind the metadata.
\<close>

theorem buddy_init_correct:
  assumes "0 < start" "PGSIZE dvd start" "start + n * PGSIZE + 2 ^ 24 \<le> 2 ^ 64"
  shows "\<exists>s. buddy_init s0 start (start + n * PGSIZE) = Some s \<and> buddy_wf s \<and> \<not> bs_lock s \<and>
    live_blocks s = {} \<and> used_pages s = {0..<meta_pages n} \<and>
    (\<forall>k \<le> BUDDY_MAX_ORDER. fits s (meta_pages n) k \<longrightarrow> (\<exists>a s'. buddy_alloc s (int k) = Some (a, s') \<and> a \<noteq> 0))"
proof -
  obtain s m where s: "buddy_init s0 start (start + n * PGSIZE) = Some s" "buddy_wf s" "\<not> bs_lock s"
    "live_blocks s = {}" "used_pages s = {0..<meta_pages n}"
    "\<forall>k \<le> BUDDY_MAX_ORDER. fits s (meta_pages n) k \<longrightarrow> k \<le> m \<and> m \<le> BUDDY_MAX_ORDER \<and> free_lists s m \<noteq> []"
    using buddy_init_wf [OF assms] by metis
  have "\<exists>a s'. buddy_alloc s (int k) = Some (a, s') \<and> a \<noteq> 0"
    if k: "k \<le> BUDDY_MAX_ORDER" "fits s (meta_pages n) k" for k
  proof -
    obtain j where "find_order (free_lists s) k = Some j"
      using s(6) k find_order_None [of "free_lists s" k] by (cases "find_order (free_lists s) k") auto
    then obtain s' where "buddy_alloc s (int k) = Some (page_addr s (hd (free_lists s j)), s')"
      using buddy_alloc_block [OF s(2,3) k(1) _ refl] by metis
    then show ?thesis using inv_geom [OF s(2)] by (auto simp: buddy_geom_def)
  qed
  then show ?thesis using s by blast
qed

theorem buddy_init_correct_witness:
  "\<exists>s. buddy_init frag_state 0x80000000 (0x80000000 + 64 * PGSIZE) = Some s \<and> buddy_wf s \<and> \<not> bs_lock s \<and>
    live_blocks s = {} \<and> used_pages s = {0..<meta_pages 64}"
  using buddy_init_correct [of "0x80000000" 64 frag_state] by (simp add: dvd_eq_mod_eq_0) blast

section \<open>Allocation and release\<close>

lemma alloc_effect:
  assumes wf: "buddy_wf s" and l: "\<not> bs_lock s" and k: "k \<le> BUDDY_MAX_ORDER"
    and Some: "find_order (free_lists s) k = Some j"
  shows "\<exists>p s'. buddy_alloc s (int k) = Some (page_addr s p, s') \<and> buddy_wf s' \<and> \<not> bs_lock s' \<and>
       same_region s s' \<and> p + 2 ^ k \<le> total_pages s \<and> page_addr s p mod (PGSIZE * 2 ^ k) = 0 \<and>
       pages_of p k \<inter> used_pages s = {} \<and> used_pages s' = used_pages s \<union> pages_of p k \<and>
       live_blocks s' = insert (page_addr s p, k) (live_blocks s) \<and>
       bs_mem s' = memset (bs_mem s) (page_addr s p) 0 (PGSIZE * 2 ^ k)"
proof -
  define p where "p = hd (free_lists s j)"
  have b: "is_block s p j" "\<not> page_used s p" using alloc_take(1,2) [OF wf Some p_def] .
  have "k \<le> j" using find_order_Some [OF Some] by simp
  then have "(2::nat) ^ k \<le> 2 ^ j" by (rule power_increasing) simp
  then have sub: "pages_of p k \<subseteq> pages_of p j" unfolding atLeastLessThan_subset_iff by simp
  obtain s' where s': "buddy_alloc s (int k) = Some (page_addr s p, s')" "buddy_wf s'" "same_region s s'"
    "\<not> bs_lock s'" "is_block s' p k" "\<And>q. page_used s' q \<longleftrightarrow> q \<in> pages_of p k \<or> page_used s q"
    "\<And>q. q \<notin> pages_of p j \<Longrightarrow> bs_nodes s' q = bs_nodes s q"
    "bs_mem s' = memset (bs_mem s) (page_addr s p) 0 (PGSIZE * 2 ^ k)"
    using buddy_alloc_block [OF wf l k Some p_def] by metis
  have g: "mem_start s' = mem_start s" "total_pages s' = total_pages s" using s'(3) by (auto simp: same_region_def)
  have r: "p + 2 ^ k \<le> total_pages s" "page_addr s p mod (PGSIZE * 2 ^ k) = 0"
    using inv_block(1,2) [OF s'(2,5)] g by (simp_all add: block_aligned_def)
  have "\<not> page_used s q" if "q \<in> pages_of p k" for q
    using inv_block(5) [OF wf b(1), of q] b(2) sub that by blast
  then have "pages_of p k \<inter> used_pages s = {}" unfolding used_pages_def by blast
  moreover have "q \<in> used_pages s' \<longleftrightarrow> q \<in> used_pages s \<union> pages_of p k" for q
    unfolding used_pages_def g(2) using s'(6) [of q] r(1) by auto
  then have "used_pages s' = used_pages s \<union> pages_of p k" by blast
  moreover have "live_blocks s' = insert (page_addr s p, k) (live_blocks s)"
    by (rule alloc_live [OF wf s'(2,3) b s'(5-7)])
  ultimately show ?thesis
    using s'(1-4,8) r by (intro exI [where x = p] exI [where x = s'] conjI)
qed

lemma page_div:
  assumes "buddy_geom s" "mem_start s \<le> ptr"
  shows "ptr div PGSIZE = page_addr s ((ptr - mem_start s) div PGSIZE) div PGSIZE"
proof -
  obtain c where c: "mem_start s = c * PGSIZE" using assms(1) by (auto simp: buddy_geom_def dvd_def mult.commute)
  have "ptr = c * PGSIZE + (ptr - mem_start s)" using assms(2) c by simp
  then have "ptr div PGSIZE = c + (ptr - mem_start s) div PGSIZE"
    using div_mult_self3 [of PGSIZE c "ptr - mem_start s"] by simp
  then show ?thesis unfolding c by simp
qed

lemma free_effect:
  assumes wf: "buddy_wf s" and l: "\<not> bs_lock s" and b: "(a, k) \<in> live_blocks s"
    and ptr: "ptr \<in> block_bytes (a, k)" and o: "0 \<le> order" "order \<le> int BUDDY_MAX_ORDER"
  shows "\<exists>s'. buddy_free s ptr order = Some s' \<and> buddy_wf s' \<and> \<not> bs_lock s' \<and> bs_mem s' = bs_mem s \<and>
    live_blocks s' = live_blocks s - {(a, k)} \<and>
    used_pages s' = used_pages s - pages_of (page_index s a) k \<and> same_region s s'"
proof -
  obtain p where p: "a = page_addr s p" "is_block s p k" "page_used s p" using b by (auto simp: live_blocks_def)
  have geo: "buddy_geom s" by (rule inv_geom [OF wf])
  define q where "q = (ptr - mem_start s) div PGSIZE"
  have q: "q \<in> pages_of p k" using block_page [of ptr s p k] ptr unfolding p(1) q_def .
  have "mem_start s \<le> ptr" using ptr unfolding p(1) block_bytes_def by auto
  from buddy_free_block [OF wf l p(2,3) q page_div [OF geo this, folded q_def] o] obtain s' p' k' where
    s': "buddy_free s ptr order = Some s'" "buddy_wf s'" "same_region s s'" "\<not> bs_lock s'" "bs_mem s' = bs_mem s"
      "\<And>q. page_used s' q \<longleftrightarrow> q \<notin> pages_of p k \<and> page_used s q" "\<forall>q \<in> pages_of p' k'. \<not> page_used s' q"
      "\<And>q. q \<notin> pages_of p' k' \<Longrightarrow> bs_nodes s' q = bs_nodes s q" by metis
  have "page_index s a = p" unfolding p(1) by (rule page_index_addr [OF geo]) (use p(2) in \<open>simp add: is_block_def\<close>)
  moreover have tp: "total_pages s' = total_pages s" using s'(3) by (simp add: same_region_def)
  ultimately have "q \<in> used_pages s' \<longleftrightarrow> q \<in> used_pages s - pages_of (page_index s a) k" for q
    using s'(6) [of q] unfolding used_pages_def tp by auto
  then have "used_pages s' = used_pages s - pages_of (page_index s a) k" by (rule set_eqI)
  moreover have "live_blocks s' = live_blocks s - {(a, k)}"
    unfolding p(1) by (rule free_live [OF wf s'(3) p(2) s'(6-8)])
  ultimately show ?thesis using s' by blast
qed

text \<open>
  C16: \<open>buddy_alloc\<close> on a well-formed allocator returns 0 and changes nothing exactly when no free
  list of the order or above has a block; otherwise it returns a block that is aligned to its
  size, lies in the region, was entirely free, and is zeroed; exactly its pages become used, no
  live block changes, and the allocator is well formed again.
\<close>

theorem buddy_alloc_correct:
  assumes wf: "buddy_wf s" and l: "\<not> bs_lock s" and k: "k \<le> BUDDY_MAX_ORDER"
  shows "(\<forall>j. k \<le> j \<and> j \<le> BUDDY_MAX_ORDER \<longrightarrow> free_lists s j = []) \<and> buddy_alloc s (int k) = Some (0, s) \<or>
    (\<exists>p s'. buddy_alloc s (int k) = Some (page_addr s p, s') \<and> buddy_wf s' \<and> \<not> bs_lock s' \<and>
       same_region s s' \<and> p + 2 ^ k \<le> total_pages s \<and> page_addr s p mod (PGSIZE * 2 ^ k) = 0 \<and>
       pages_of p k \<inter> used_pages s = {} \<and> used_pages s' = used_pages s \<union> pages_of p k \<and>
       live_blocks s' = insert (page_addr s p, k) (live_blocks s) \<and>
       bs_mem s' = memset (bs_mem s) (page_addr s p) 0 (PGSIZE * 2 ^ k))"
proof (cases "find_order (free_lists s) k")
  case None
  then show ?thesis using buddy_alloc_none [OF l k] find_order_None by blast
next
  case (Some j)
  from alloc_effect [OF wf l k this] show ?thesis by (rule disjI2)
qed

theorem buddy_alloc_correct_witness:
  "\<exists>p s'. buddy_alloc frag_state 0 = Some (page_addr frag_state p, s') \<and> buddy_wf s' \<and>
    live_blocks s' = {(page_addr frag_state p, 0), (0x80004000, 0)}"
proof -
  have "free_lists frag_state 0 \<noteq> []" "\<not> bs_lock frag_state" by (simp_all add: frag_state_def)
  then show ?thesis
    using buddy_alloc_correct [OF frag_wf, of 0] unfolding frag_live by fastforce
qed

text \<open>
  C15: \<open>buddy_free\<close> of a live block, through any address inside it, makes exactly the pages of the
  block free, removes it from the live blocks, leaves every other live block and the memory
  contents as they are, releases the lock and keeps the allocator well formed; whatever
  coalescing happens stays inside free memory.
\<close>

theorem buddy_free_correct:
  assumes wf: "buddy_wf s" and l: "\<not> bs_lock s" and b: "(a, k) \<in> live_blocks s"
    and ptr: "ptr \<in> block_bytes (a, k)" and o: "0 \<le> order" "order \<le> int BUDDY_MAX_ORDER"
  shows "\<exists>s'. buddy_free s ptr order = Some s' \<and> buddy_wf s' \<and> \<not> bs_lock s' \<and> bs_mem s' = bs_mem s \<and>
    live_blocks s' = live_blocks s - {(a, k)} \<and>
    used_pages s' = used_pages s - pages_of (page_index s a) k"
  using free_effect [OF assms] by blast

theorem buddy_free_correct_witness:
  "\<exists>s'. buddy_free frag_state 0x80004010 0 = Some s' \<and> buddy_wf s' \<and> live_blocks s' = {}"
proof -
  have "(0x80004010 :: nat) \<in> block_bytes (0x80004000, 0)" "\<not> bs_lock frag_state"
    by (simp_all add: block_bytes_def frag_state_def)
  then show ?thesis
    using buddy_free_correct [OF frag_wf, of "0x80004000" 0 "0x80004010" 0] unfolding frag_live by auto
qed

text \<open>
  C1: However a client interleaves allocations of any order with releases of blocks it holds, the
  blocks it holds never overlap, are exactly the live blocks of the allocator, and no request ever
  panics.
\<close>

theorem buddy_client_safe:
  assumes "buddy_wf s" "\<not> bs_lock s"
    and "(client_step (\<lambda>s k. buddy_alloc s (int k)) (\<lambda>s a k. buddy_free s a (int k)) BUDDY_MAX_ORDER)\<^sup>*\<^sup>*
           (s, live_blocks s) (s', L)"
  shows "buddy_wf s' \<and> \<not> bs_lock s' \<and> L = live_blocks s' \<and>
    (\<forall>b \<in> L. \<forall>b' \<in> L. b \<noteq> b' \<longrightarrow> block_bytes b \<inter> block_bytes b' = {}) \<and>
    (\<forall>k \<le> BUDDY_MAX_ORDER. buddy_alloc s' (int k) \<noteq> None) \<and>
    (\<forall>(a, k) \<in> L. buddy_free s' a (int k) \<noteq> None)"
  using buddy.client_safe [OF assms(3)] assms(1,2) by blast

theorem buddy_client_safe_witness:
  "buddy_wf frag_state \<and> buddy_alloc frag_state (int 3) \<noteq> None \<and>
   buddy_free frag_state 0x80004000 (int 0) \<noteq> None"
proof -
  have "\<not> bs_lock frag_state" by (simp add: frag_state_def)
  from buddy_client_safe [OF frag_wf this rtranclp.rtrancl_refl]
  have *: "\<forall>k \<le> BUDDY_MAX_ORDER. buddy_alloc frag_state (int k) \<noteq> None"
    and "buddy_free frag_state 0x80004000 (int 0) \<noteq> None"
    unfolding frag_live by blast+
  then show ?thesis using frag_wf * [rule_format, of 3] by simp
qed

text \<open>
  Allocating a block and freeing it gives back the live blocks and the used pages of the state
  before.
\<close>

theorem buddy_alloc_free_roundtrip:
  assumes wf: "buddy_wf s" and l: "\<not> bs_lock s" and k: "k \<le> BUDDY_MAX_ORDER"
    and a: "buddy_alloc s (int k) = Some (a, s1)" "a \<noteq> 0"
  shows "\<exists>s2. buddy_free s1 a (int k) = Some s2 \<and> buddy_wf s2 \<and> \<not> bs_lock s2 \<and>
    live_blocks s2 = live_blocks s \<and> used_pages s2 = used_pages s"
proof -
  have "find_order (free_lists s) k \<noteq> None"
    using buddy_alloc_none [OF l k] find_order_None a by auto
  then obtain j where "find_order (free_lists s) k = Some j" by auto
  from alloc_effect [OF wf l k this] a(1) obtain p where p: "a = page_addr s p" "buddy_wf s1" "\<not> bs_lock s1"
    "same_region s s1" "p + 2 ^ k \<le> total_pages s" "pages_of p k \<inter> used_pages s = {}"
    "used_pages s1 = used_pages s \<union> pages_of p k" "live_blocks s1 = insert (a, k) (live_blocks s)"
    by auto
  have g: "mem_start s1 = mem_start s" "total_pages s1 = total_pages s" using p(4) by (auto simp: same_region_def)
  have ix: "page_index s1 a = p"
    using page_index_addr [OF inv_geom [OF p(2)], of p] p(1,5) g by simp
  have nl: "(a, k) \<notin> live_blocks s"
  proof
    assume "(a, k) \<in> live_blocks s"
    then have "is_block s p k" "page_used s p" unfolding p(1) in_live_blocks by auto
    then have "p \<in> used_pages s" by (simp add: used_pages_def is_block_def)
    then show False using p(6) pages_of_start by blast
  qed
  have "(a, k) \<in> live_blocks s1" "a \<in> block_bytes (a, k)" using p(8) by (auto simp: block_bytes_def)
  from free_effect [OF p(2,3) this, of "int k"] k obtain s2 where
    "buddy_free s1 a (int k) = Some s2" "buddy_wf s2" "\<not> bs_lock s2"
    "live_blocks s2 = live_blocks s1 - {(a, k)}" "used_pages s2 = used_pages s1 - pages_of (page_index s1 a) k"
    by auto
  moreover have "used_pages s1 - pages_of p k = used_pages s" "live_blocks s1 - {(a, k)} = live_blocks s"
    using p(6-8) nl by auto
  ultimately show ?thesis unfolding ix by simp
qed

theorem buddy_alloc_free_roundtrip_witness:
  "\<exists>a s1 s2. buddy_alloc frag_state (int 0) = Some (a, s1) \<and> buddy_free s1 a (int 0) = Some s2 \<and>
    live_blocks s2 = {(0x80004000, 0)}"
proof -
  have l: "\<not> bs_lock frag_state" "find_order (free_lists frag_state) 0 = Some 0"
    by (simp_all add: frag_state_def find_order.simps)
  obtain p s1 where a: "buddy_alloc frag_state (int 0) = Some (page_addr frag_state p, s1)"
    using alloc_effect [OF frag_wf l(1) le0 l(2)] by (elim exE conjE)
  have nz: "page_addr frag_state p \<noteq> 0" by (simp add: frag_state_def)
  obtain s2 where "buddy_free s1 (page_addr frag_state p) (int 0) = Some s2" "live_blocks s2 = {(0x80004000, 0)}"
    using buddy_alloc_free_roundtrip [OF frag_wf l(1) le0 a nz] unfolding frag_live by (elim exE conjE)
  with a show ?thesis by (intro exI conjI)
qed

section \<open>The integrity check\<close>

lemma page_cases:
  assumes wf: "buddy_wf s" and q: "q < total_pages s"
  obtains (reserved) "nd_order (bs_nodes s q) = -1" "page_used s q"
  | (block) p k where "is_block s p k" "q \<in> pages_of p k"
  | (never) "nd_addr (bs_nodes s q) = 0" "\<not> page_used s q" "0 \<le> nd_order (bs_nodes s q)"
      "nd_order (bs_nodes s q) \<le> int BUDDY_MAX_ORDER"
  using inv_used [OF wf q] inv_order [OF wf q] by fastforce

text \<open>
  A well-formed allocator passes \<open>buddy_check_integrity\<close>: the runtime check of the code finds
  no error in it.
\<close>

theorem buddy_check_integrity_wf:
  assumes wf: "buddy_wf s"
  shows "buddy_check_integrity s"
proof -
  have geo: "buddy_geom s" by (rule inv_geom [OF wf])
  have "page_errors s q = 0" if q: "q < total_pages s" for q
    using wf q
  proof (cases rule: page_cases)
    case (block p k)
    have n: "bs_nodes s q = block_node s p k" and u: "page_used s q = page_used s p"
      and r: "p + 2 ^ k \<le> total_pages s" and al: "block_aligned s p k"
      using inv_block(1,2) [OF wf block(1)] inv_block(4,5) [OF wf block(1) _ block(2)] by simp_all
    have k: "k \<le> BUDDY_MAX_ORDER" using block(1) by (simp add: is_block_def)
    have a: "add64 (mem_start s) (q * PGSIZE) = page_addr s q"
      using geom_addr_less [OF geo, of q] q by (simp add: add64_in_range)
    have "page_addr s q < page_addr s (p + 2 ^ k)" "\<not> page_addr s q < page_addr s p" using block(2) by auto
    then show ?thesis
      using n k al add64_block [OF geo r k] unfolding page_errors_def Let_def a
      by (simp add: block_aligned_def shl64_PGSIZE [OF k])
  qed (simp_all add: page_errors_def Let_def)
  then show ?thesis unfolding buddy_check_integrity_def by (simp add: sum_list_eq_0_iff)
qed

theorem buddy_check_integrity_wf_witness: "buddy_wf frag_state \<and> buddy_check_integrity frag_state"
  using buddy_check_integrity_wf [OF frag_wf] frag_wf by blast

section \<open>The page interface\<close>

lemma mem_range: "buddy_geom s \<Longrightarrow> q < total_pages s \<Longrightarrow> mem_start s \<le> page_addr s q \<and> page_addr s q < mem_end s"
  by (simp add: buddy_geom_def)

lemma pmem_free_pages_node:
  assumes geo: "buddy_geom s" and blk: "is_block s p k" "p + 2 ^ k \<le> total_pages s" "block_aligned s p k"
    and n: "bs_nodes s q = block_node s p k" and ptr: "page_index s ptr = q" "q < total_pages s"
      "mem_start s \<le> ptr" "ptr < mem_end s" and np: "0 < npages" "npages \<le> 2 ^ k"
  shows "pmem_free_pages s ptr npages =
    (if \<forall>q \<in> pages_of p k. \<not> page_used s q then Some s else buddy_free s (page_addr s p) (int k))"
proof -
  have k: "k \<le> BUDDY_MAX_ORDER" and p: "p < total_pages s" using blk(1) by (auto simp: is_block_def)
  have "ptr \<noteq> 0" using ptr(3) geo by (auto simp: buddy_geom_def)
  moreover have "mem_start s \<le> page_addr s p" "page_addr s p < mem_end s" using mem_range [OF geo p] by auto
  moreover have "page_index s (page_addr s p) = p" by (rule page_index_addr [OF geo]) (use p in simp)
  moreover have "page_addr s p mod (PGSIZE * 2 ^ k) = 0" using blk(3) by (simp add: block_aligned_def)
  moreover have "\<not> 2 ^ k < nat npages" using np by (simp add: nat_le_iff not_less)
  moreover have "all_pages_free s p (p + 2 ^ k) \<longleftrightarrow> (\<forall>q \<in> pages_of p k. \<not> page_used s q)"
    by (auto simp: all_pages_free_def list_all_iff)
  ultimately show ?thesis
    using ptr np(1) k n by (simp add: pmem_free_pages_def Let_def shl64_PGSIZE [OF k] shl64_one [OF k])
qed

text \<open>
  C28: \<open>pmem_free_pages\<close> (and with it \<^verbatim>\<open>kfree\<close>) is total on a well-formed allocator: whatever
  pointer and page count it is given, it does not panic, keeps the allocator well formed and the
  lock free, and at most one live block disappears, one that contains the pointer.
\<close>

theorem pmem_free_pages_total:
  assumes wf: "buddy_wf s" and l: "\<not> bs_lock s" and ptr: "ptr < 2 ^ 64"
  shows "\<exists>s'. pmem_free_pages s ptr npages = Some s' \<and> buddy_wf s' \<and> \<not> bs_lock s' \<and>
    (s' = s \<or> (\<exists>b \<in> live_blocks s. ptr \<in> block_bytes b \<and> live_blocks s' = live_blocks s - {b}))"
proof (cases "ptr = 0 \<or> npages \<le> 0 \<or> ptr < mem_start s \<or> mem_end s \<le> ptr")
  case True
  then show ?thesis using wf l by (auto simp: pmem_free_pages_def)
next
  case False
  have geo: "buddy_geom s" by (rule inv_geom [OF wf])
  define q where "q = page_index s ptr"
  have q': "q = (ptr - mem_start s) div PGSIZE" using False ptr by (simp add: q_def page_index_def sub64_in_range)
  have "ptr - mem_start s < total_pages s * PGSIZE" using False geo by (auto simp: buddy_geom_def)
  then have q: "q < total_pages s" unfolding q' by (rule less_mult_imp_div_less)
  have inb: "ptr \<in> block_bytes (page_addr s p, k)" if "q \<in> pages_of p k" for p k
  proof -
    have "q * PGSIZE \<le> ptr - mem_start s" "ptr - mem_start s < (q + 1) * PGSIZE"
      unfolding q' using div_mult_mod_eq [of "ptr - mem_start s" PGSIZE] mod_less_divisor [of PGSIZE "ptr - mem_start s"]
      by simp_all
    moreover have "p * PGSIZE \<le> q * PGSIZE" "(q + 1) * PGSIZE \<le> (p + 2 ^ k) * PGSIZE"
      using that by (auto intro!: mult_le_mono1)
    moreover have "mem_start s \<le> ptr" "(p + 2 ^ k) * PGSIZE = p * PGSIZE + PGSIZE * 2 ^ k"
      using False by (simp_all add: add_mult_distrib)
    ultimately have "page_addr s p \<le> ptr" "ptr < page_addr s p + PGSIZE * 2 ^ k" by linarith+
    then show ?thesis unfolding block_bytes_def by simp
  qed
  show ?thesis using wf q
  proof (cases rule: page_cases)
    case reserved
    then show ?thesis using False wf l q by (auto simp: pmem_free_pages_def Let_def q_def)
  next
    case never
    moreover have "0 < mem_start s" using geo by (simp add: buddy_geom_def)
    ultimately show ?thesis using False wf l q by (auto simp: pmem_free_pages_def Let_def q_def)
  next
    case (block p k)
    note ib = inv_block [OF wf block(1)]
    have k: "k \<le> BUDDY_MAX_ORDER" using block(1) by (simp add: is_block_def)
    have n: "bs_nodes s q = block_node s p k" using ib(4) block(2) by simp
    show ?thesis
    proof (cases "npages \<le> 2 ^ k")
      case False': False
      then have "2 ^ k < nat npages" by simp
      then show ?thesis
        using False wf l q n k by (auto simp: pmem_free_pages_def Let_def q_def [symmetric] shl64_one)
    next
      case True
      have e: "pmem_free_pages s ptr npages =
          (if \<forall>q \<in> pages_of p k. \<not> page_used s q then Some s else buddy_free s (page_addr s p) (int k))"
        by (rule pmem_free_pages_node [OF geo block(1) ib(1,2) n q_def [symmetric] q])
          (use False True in auto)
      show ?thesis
      proof (cases "\<forall>q \<in> pages_of p k. \<not> page_used s q")
        case True then show ?thesis using e wf l by auto
      next
        case False
        then have "page_used s p" using ib(5) by blast
        then have lv: "(page_addr s p, k) \<in> live_blocks s" using block(1) by (simp add: in_live_blocks)
        obtain s' where "buddy_free s (page_addr s p) (int k) = Some s'" "buddy_wf s'" "\<not> bs_lock s'"
          "live_blocks s' = live_blocks s - {(page_addr s p, k)}"
          using buddy_free_live [OF wf l lv] by blast
        then show ?thesis using e False lv inb [OF block(2)] by auto
      qed
    qed
  qed
qed

theorem pmem_free_pages_total_witness:
  "\<exists>s'. pmem_free_pages frag_state 0x80002FFF 7 = Some s' \<and> buddy_wf s' \<and> \<not> bs_lock s'"
proof -
  have "\<not> bs_lock frag_state" by (simp add: frag_state_def)
  from pmem_free_pages_total [OF frag_wf this, of "0x80002FFF" 7] show ?thesis by auto
qed

text \<open>
  A request of at most 1024 pages that some free list can serve returns a block of the least
  order that holds it, freshly zeroed and disjoint from everything in use.
\<close>

theorem pmem_alloc_pages_correct:
  assumes wf: "buddy_wf s" and l: "\<not> bs_lock s" and n: "0 < n" "n \<le> 1024"
    and av: "k = nat (get_order n)" "j \<ge> k" "j \<le> BUDDY_MAX_ORDER" "free_lists s j \<noteq> []"
  shows "\<exists>p s'. pmem_alloc_pages s (int n) = Some (page_addr s p, s') \<and> buddy_wf s' \<and> \<not> bs_lock s' \<and>
    n \<le> 2 ^ k \<and> 2 ^ k < 2 * n \<and> pages_of p k \<inter> used_pages s = {} \<and> used_pages s' = used_pages s \<union> pages_of p k \<and>
    live_blocks s' = insert (page_addr s p, k) (live_blocks s) \<and>
    (\<forall>x \<in> block_bytes (page_addr s p, k). bs_mem s' x = 0)"
proof -
  obtain i where i: "i \<le> 10" "get_order n = int i" "n \<le> 2 ^ i" "\<forall>j < i. 2 ^ j < n"
    using get_order_cases [OF refl, of n] n by auto
  then have k: "k = i" using av(1) by simp
  then have "k \<le> BUDDY_MAX_ORDER" using i(1) by simp
  have lt: "2 ^ k < 2 * n"
  proof (cases i)
    case 0 then show ?thesis using k n by simp
  next
    case (Suc m) then show ?thesis using k i(4) by auto
  qed
  obtain j' where "find_order (free_lists s) k = Some j'"
    using av find_order_None [of "free_lists s" k] by (cases "find_order (free_lists s) k") auto
  from alloc_effect [OF wf l \<open>k \<le> BUDDY_MAX_ORDER\<close> this] obtain p s' where
    s': "buddy_alloc s (int k) = Some (page_addr s p, s')" "buddy_wf s'" "\<not> bs_lock s'"
      "p + 2 ^ k \<le> total_pages s" "pages_of p k \<inter> used_pages s = {}" "used_pages s' = used_pages s \<union> pages_of p k"
      "live_blocks s' = insert (page_addr s p, k) (live_blocks s)"
      "bs_mem s' = memset (bs_mem s) (page_addr s p) 0 (PGSIZE * 2 ^ k)" by blast
  have "page_addr s p \<noteq> 0" using inv_geom [OF wf] by (simp add: buddy_geom_def)
  then have "pmem_alloc_pages s (int n) = Some (page_addr s p, s')"
    using n i(2) s'(1) k by (simp add: pmem_alloc_pages_def Let_def)
  moreover have "bs_mem s' x = 0" if "x \<in> block_bytes (page_addr s p, k)" for x
  proof -
    have "(2::nat) ^ k \<le> 2 ^ 11" using i(1) k by (intro power_increasing) auto
    moreover have "page_addr s p + PGSIZE * 2 ^ k \<le> 2 ^ 64"
      using geom_addr_less [OF inv_geom [OF wf] s'(4)] by (simp add: add_mult_distrib)
    ultimately show ?thesis
      using that unfolding s'(8) block_bytes_def by (simp add: memset_apply)
  qed
  ultimately show ?thesis using s' i(3) k lt by blast
qed

theorem pmem_alloc_pages_correct_witness:
  "\<exists>p s'. pmem_alloc_pages frag_state (int 2) = Some (page_addr frag_state p, s') \<and> buddy_wf s' \<and>
    live_blocks s' = {(page_addr frag_state p, 1), (0x80004000, 0)}"
proof -
  have l: "\<not> bs_lock frag_state" "free_lists frag_state 1 \<noteq> []" by (simp_all add: frag_state_def)
  have k: "1 = nat (get_order 2)" by code_simp
  from pmem_alloc_pages_correct [OF frag_wf l(1) _ _ k _ _ l(2)] show ?thesis unfolding frag_live by auto
qed

section \<open>The free lists on the heap\<close>

text \<open>
  C29: The sequences of page indices that model the free lists are implemented by \<^verbatim>\<open>list.c\<close>: on a heap
  that holds the twelve lists through the \<^verbatim>\<open>elem\<close> fields of the nodes, \<^verbatim>\<open>list_push_front\<close>,
  \<^verbatim>\<open>list_pop_front\<close> and \<^verbatim>\<open>list_remove\<close> succeed and the heap then holds the lists of the abstract
  operation.
\<close>

theorem buddy_lists_refined:
  assumes r: "lists_repr h fl el (BUDDY_MAX_ORDER + 1) (free_lists s)"
  shows "(\<forall>k p. k \<le> BUDDY_MAX_ORDER \<and> el p \<noteq> 0 \<and> el p \<notin> lists_cells fl el (BUDDY_MAX_ORDER + 1) (free_lists s) \<longrightarrow>
      (\<exists>h'. list_push_front h (fl k) (el p) = Some h' \<and>
         lists_repr h' fl el (BUDDY_MAX_ORDER + 1) (free_lists (push_free s k p)))) \<and>
    (\<forall>k p ps. k \<le> BUDDY_MAX_ORDER \<and> free_lists s k = p # ps \<longrightarrow>
      (\<exists>h'. list_pop_front h (fl k) = Some (el p, h') \<and>
         lists_repr h' fl el (BUDDY_MAX_ORDER + 1) ((free_lists s)(k := ps)))) \<and>
    (\<forall>p s'. unlink_free s p = Some s' \<longrightarrow>
      (\<exists>e h'. list_remove h (el p) = Some (e, h') \<and> lists_repr h' fl el (BUDDY_MAX_ORDER + 1) (free_lists s')))"
proof (intro conjI allI impI)
  fix k p
  assume a: "k \<le> BUDDY_MAX_ORDER \<and> el p \<noteq> 0 \<and> el p \<notin> lists_cells fl el (BUDDY_MAX_ORDER + 1) (free_lists s)"
  then obtain h' where "list_push_front h (fl k) (el p) = Some h'"
    "lists_repr h' fl el (BUDDY_MAX_ORDER + 1) ((free_lists s)(k := p # free_lists s k))"
    using lists_repr_push [OF r, of k p] by auto
  then show "\<exists>h'. list_push_front h (fl k) (el p) = Some h' \<and>
      lists_repr h' fl el (BUDDY_MAX_ORDER + 1) (free_lists (push_free s k p))"
    by (simp add: push_free_def)
next
  fix k p ps
  assume "k \<le> BUDDY_MAX_ORDER \<and> free_lists s k = p # ps"
  then show "\<exists>h'. list_pop_front h (fl k) = Some (el p, h') \<and>
      lists_repr h' fl el (BUDDY_MAX_ORDER + 1) ((free_lists s)(k := ps))"
    using lists_repr_pop [OF r, of k p ps] by (metis Suc_eq_plus1 le_imp_less_Suc)
next
  fix p s'
  assume u: "unlink_free s p = Some s'"
  then obtain k where k: "k < BUDDY_MAX_ORDER + 1" "p \<in> set (free_lists s k)"
    by (auto simp: unlink_free_def list_ex_iff split: if_splits)
  have s': "free_lists s' = (\<lambda>j. remove1 p (free_lists s j))"
    using u by (auto simp: unlink_free_def split: if_splits)
  obtain e h' where h': "list_remove h (el p) = Some (e, h')"
    "lists_repr h' fl el (BUDDY_MAX_ORDER + 1) ((free_lists s)(k := remove1 p (free_lists s k)))"
    using lists_repr_remove [OF r k] by metis
  have "p \<notin> set (free_lists s j)" if "j < BUDDY_MAX_ORDER + 1" "j \<noteq> k" for j
  proof
    assume "p \<in> set (free_lists s j)"
    then have "el p \<in> dlist_cells (fl j) (map el (free_lists s j))" "el p \<in> dlist_cells (fl k) (map el (free_lists s k))"
      using k(2) by (auto simp: dlist_cells_def)
    then show False using r that k(1) unfolding lists_repr_def by blast
  qed
  then have "((free_lists s)(k := remove1 p (free_lists s k))) j = free_lists s' j" if "j < BUDDY_MAX_ORDER + 1" for j
    using that unfolding s' by (cases "j = k") (simp_all add: remove1_idem)
  then have "lists_repr h' fl el (BUDDY_MAX_ORDER + 1) (free_lists s')"
    using h'(2) unfolding lists_repr_def by metis
  then show "\<exists>e h'. list_remove h (el p) = Some (e, h') \<and> lists_repr h' fl el (BUDDY_MAX_ORDER + 1) (free_lists s')"
    using h'(1) by blast
qed

definition list_heads :: lheap where
  "list_heads = (\<lambda>a. if a mod 32 = 0 then \<lparr>le_prev = 0, le_next = a + 16\<rparr> else \<lparr>le_prev = a - 16, le_next = 0\<rparr>)"

lemma list_heads_repr: "lists_repr list_heads (\<lambda>k. 64 + 32 * k) (\<lambda>p. 4096 + p) n (\<lambda>_. [])"
proof -
  have m: "(64 + 32 * k) mod 32 = 0" "(64 + 32 * k + 16) mod 32 = 16" for k :: nat by presburger+
  show ?thesis
    unfolding lists_repr_def dlist_def list_heads_def
    by (auto simp: dlist_cells_def m)
qed

theorem buddy_lists_refined_witness:
  "\<exists>h'. list_push_front list_heads 64 4101 = Some h' \<and>
     lists_repr h' (\<lambda>k. 64 + 32 * k) (\<lambda>p. 4096 + p) (BUDDY_MAX_ORDER + 1)
       (free_lists (push_free (frag_state\<lparr>free_lists := (\<lambda>_. [])\<rparr>) 0 5))"
proof -
  let ?s = "frag_state\<lparr>free_lists := (\<lambda>_. [])\<rparr>" and ?fl = "\<lambda>k. 64 + 32 * k" and ?el = "\<lambda>p. 4096 + p"
  have r: "lists_repr list_heads ?fl ?el (BUDDY_MAX_ORDER + 1) (free_lists ?s)" using list_heads_repr by simp
  have "?el 5 \<notin> lists_cells ?fl ?el (BUDDY_MAX_ORDER + 1) (free_lists ?s)"
    by (auto simp: lists_cells_def dlist_cells_def)
  with conjunct1 [OF buddy_lists_refined [OF r]] have "\<exists>h'. list_push_front list_heads (?fl 0) (?el 5) = Some h' \<and>
      lists_repr h' ?fl ?el (BUDDY_MAX_ORDER + 1) (free_lists (push_free ?s 0 5))"
    by (elim allE [where x = 0] allE [where x = 5]) simp
  then show ?thesis by simp
qed

section \<open>Where the allocator fails its purpose\<close>

text \<open>
  A second \<open>buddy_free\<close> of a block is meant to be ignored, but its early return keeps
  \<^verbatim>\<open>buddy_sys.lock\<close>: the next allocation or release panics on acquiring it.
\<close>

theorem buddy_double_free_leaks_lock:
  assumes wf: "buddy_wf s" and l: "\<not> bs_lock s" and b: "is_block s p k" "\<not> page_used s p"
  shows "buddy_free s (page_addr s p) (int k) = Some (s\<lparr>bs_lock := True\<rparr>) \<and>
    (\<forall>j \<le> BUDDY_MAX_ORDER. buddy_alloc (s\<lparr>bs_lock := True\<rparr>) (int j) = None)"
proof
  have geo: "buddy_geom s" by (rule inv_geom [OF wf])
  have k: "k \<le> BUDDY_MAX_ORDER" and p: "p < total_pages s" and n: "bs_nodes s p = block_node s p k"
    using b(1) by (auto simp: is_block_def)
  have "all_pages_free (s\<lparr>bs_lock := True\<rparr>) p (p + 2 ^ k)"
    using inv_block(5) [OF wf b(1)] b(2) by (auto simp: all_pages_free_def list_all_iff)
  moreover have "page_index (s\<lparr>bs_lock := True\<rparr>) (page_addr s p) = p"
    using page_index_addr [OF geo, of p] p by (simp add: page_index_def)
  moreover have "0 < mem_start s" using geo by (simp add: buddy_geom_def)
  ultimately show "buddy_free s (page_addr s p) (int k) = Some (s\<lparr>bs_lock := True\<rparr>)"
    using l k p n by (simp add: buddy_free_def Let_def shl64_PGSIZE [OF k])
  show "\<forall>j \<le> BUDDY_MAX_ORDER. buddy_alloc (s\<lparr>bs_lock := True\<rparr>) (int j) = None"
    by (simp add: buddy_alloc_def)
qed

theorem buddy_double_free_leaks_lock_witness:
  "buddy_free frag_state 0x80005000 0 = Some (frag_state\<lparr>bs_lock := True\<rparr>)"
proof -
  have "\<not> bs_lock frag_state" "page_addr frag_state 5 = 0x80005000" by (simp_all add: frag_state_def)
  moreover have "is_block frag_state 5 0" "\<not> page_used frag_state 5" by (simp_all add: frag_block frag_used)
  ultimately show ?thesis using buddy_double_free_leaks_lock [OF frag_wf, of 5 0] by simp
qed

end
