(* ===== verification/Buddy_Rebuild.thy ===== *)
theory Buddy_Rebuild
  imports Buddy_Props
begin

text \<open>
  The emergency path of \<^verbatim>\<open>pmem_alloc_pages\<close>: what \<^verbatim>\<open>buddy_cleanup_and_rebuild\<close> does to a
  fragmented allocator.
\<close>

text \<open>
  The emergency rebuild puts back only blocks of one order: in the concrete allocator it drops
  the free page 5, whose metadata still says it is a free block of order 0, so that releasing its
  buddy, page 4, unlinks a node that is in no list. Before the rebuild the same release works.
\<close>

theorem cleanup_breaks_release:
  "\<not> Option.is_none (buddy_free frag_state 0x80004000 0) \<and>
   (case buddy_cleanup_and_rebuild frag_state of None \<Rightarrow> False
    | Some s \<Rightarrow> free_lists s 0 = [] \<and> \<not> page_used s 5 \<and> Option.is_none (buddy_free s 0x80004000 0))"
  by code_simp

end
