(* ===== verification/Kring.thy ===== *)
theory Kring
  imports Kbase
begin

text \<open>
  The byte rings behind pipes and named pipes: a data array, and 32-bit counters of the bytes read
  and written that only ever increase and wrap around. The bytes in the ring are those between the
  counters; a counter value selects its array cell by a slot function. The locale \<open>byte_ring\<close>
  states when the cells of a window of \<open>cap\<close> consecutive counter values are all different, which is
  what makes the ring a bounded queue.
\<close>

type_synonym count = "32 word"

definition ring_list :: "(count \<Rightarrow> nat) \<Rightarrow> (nat \<Rightarrow> byte) \<Rightarrow> count \<Rightarrow> count \<Rightarrow> byte list" where
  "ring_list slot d r w = map (\<lambda>k. d (slot (r + of_nat k))) [0..<unat (w - r)]"

lemma length_ring_list [simp]: "length (ring_list slot d r w) = unat (w - r)"
  by (simp add: ring_list_def)

lemma ring_list_Nil [simp]: "ring_list slot d r r = []"
  by (simp add: ring_list_def)

lemma ring_list_eq_Nil: "ring_list slot d r w = [] \<longleftrightarrow> w = r"
  by (auto simp: ring_list_def unsigned_eq_0_iff)

lemma unat_count_less: "unat (c :: count) < 2 ^ 32"
  using unsigned_less [of c] by simp

lemma unat_of_nat_count: "n < 2 ^ 32 \<Longrightarrow> unat (of_nat n :: count) = n"
  by (simp add: unsigned_of_nat take_bit_nat_eq_self)

lemma count_full_iff:
  assumes "cap < 2 ^ 32"
  shows "w = r + of_nat cap \<longleftrightarrow> unat (w - r :: count) = cap"
proof
  assume "w = r + of_nat cap"
  then show "unat (w - r) = cap" using assms by (simp add: unat_of_nat_count)
next
  assume "unat (w - r) = cap"
  moreover have "w - r = of_nat (unat (w - r))" by simp
  ultimately have "w - r = of_nat cap" by metis
  then show "w = r + of_nat cap" by (simp add: algebra_simps)
qed

lemma count_push:
  assumes "unat (w - r :: count) < cap" "cap < 2 ^ 32"
  shows "unat (w + 1 - r) = unat (w - r) + 1"
proof -
  have "w + 1 - r = 1 + (w - r)" by simp
  moreover have "1 + (w - r) \<noteq> 0"
  proof
    assume "1 + (w - r) = 0"
    then have "w - r = -1" by (simp only: add.commute eq_neg_iff_add_eq_0)
    then have "unat (w - r) = 2 ^ 32 - 1" by (simp add: unsigned_minus_1_eq_mask mask_eq_exp_minus_1)
    then show False using assms by simp
  qed
  ultimately show ?thesis using unatSuc [of "w - r"] by (simp only: Suc_eq_plus1 not_False_eq_True)
qed

lemma count_pop:
  assumes "w \<noteq> r"
  shows "unat (w - r :: count) = unat (w - (r + 1)) + 1"
proof -
  have "w - r = 1 + (w - (r + 1))" by simp
  moreover have "1 + (w - (r + 1)) \<noteq> 0" using assms by (simp add: algebra_simps)
  ultimately show ?thesis using unatSuc [of "w - (r + 1)"] by simp
qed

text \<open>Taking the oldest byte out.\<close>

lemma ring_list_pop:
  assumes "w \<noteq> r"
  shows "ring_list slot d r w = d (slot r) # ring_list slot d (r + 1) w"
proof -
  have "[0..<unat (w - r)] = 0 # map Suc [0..<unat (w - (r + 1))]"
    using count_pop [OF assms] by (simp add: upt_conv_Cons map_Suc_upt del: upt_Suc)
  then show ?thesis by (simp add: ring_list_def algebra_simps)
qed

lemma ring_list_drop:
  "m \<le> unat (w - r) \<Longrightarrow> drop m (ring_list slot d r w) = ring_list slot d (r + of_nat m) w"
proof (induction m arbitrary: r)
  case (Suc m)
  then have "w \<noteq> r" by auto
  moreover from this have "m \<le> unat (w - (r + 1))" using count_pop [of w r] Suc.prems by simp
  ultimately show ?case using Suc.IH [of "r + 1"] by (simp add: ring_list_pop add.assoc)
qed simp

locale byte_ring =
  fixes slot :: "count \<Rightarrow> nat"
    and cap :: nat
    and window :: "count \<Rightarrow> bool"
  assumes cap_less: "cap < 2 ^ 32"
    and slot_inj: "window r \<Longrightarrow> i < cap \<Longrightarrow> j < cap \<Longrightarrow> slot (r + of_nat i) = slot (r + of_nat j) \<Longrightarrow> i = j"
begin

lemma full_iff: "w = r + of_nat cap \<longleftrightarrow> length (ring_list slot d r w) = cap"
  using count_full_iff [OF cap_less] by simp

lemma push:
  assumes "window r" "length (ring_list slot d r w) < cap"
  shows "ring_list slot (d(slot w := b)) r (w + 1) = ring_list slot d r w @ [b]"
proof -
  let ?n = "unat (w - r)"
  have n: "?n < cap" "unat (w + 1 - r) = ?n + 1" using assms(2) count_push [OF _ cap_less] by simp_all
  have w: "w = r + of_nat ?n" by simp
  have "(d(slot w := b)) (slot (r + of_nat k)) = d (slot (r + of_nat k))" if "k < ?n" for k
    using slot_inj [OF assms(1), of k ?n] that n(1) w by auto
  moreover have "(d(slot w := b)) (slot (r + of_nat ?n)) = b" using w by simp
  ultimately show ?thesis unfolding ring_list_def n(2) by (simp del: of_nat_unat)
qed

end

text \<open>
  Indexing by remainder is a byte ring for every counter when the size divides the range of the
  counters, and otherwise only for windows that do not wrap.
\<close>

definition mod_slot :: "nat \<Rightarrow> count \<Rightarrow> nat" where
  "mod_slot n c = unat c mod n"

lemma mod_window_inj:
  fixes a i j n :: nat
  assumes "i < n" "j < n" "(a + i) mod n = (a + j) mod n"
  shows "i = j"
proof (cases i j rule: le_cases)
  case le
  then have "n dvd (a + j) - (a + i)" using assms(3) by (metis add_le_cancel_left mod_eq_dvd_iff_nat)
  then show ?thesis using le assms(2) nat_dvd_not_less [of "j - i" n] by force
next
  case ge
  then have "n dvd (a + i) - (a + j)" using assms(3) by (metis add_le_cancel_left mod_eq_dvd_iff_nat)
  then show ?thesis using ge assms(1) nat_dvd_not_less [of "i - j" n] by force
qed

lemma mod_slot_add:
  assumes "n dvd 2 ^ 32 \<or> unat r + k < 2 ^ 32"
  shows "mod_slot n (r + of_nat k) = (unat r + k) mod n"
proof -
  have "unat (r + of_nat k) = (unat r + k) mod 2 ^ 32"
    by (simp add: unat_word_ariths(1) unat_of_nat mod_add_right_eq)
  then show ?thesis using assms by (auto simp: mod_slot_def mod_mod_cancel)
qed

definition mod_window :: "nat \<Rightarrow> count \<Rightarrow> bool" where
  "mod_window n r \<longleftrightarrow> n dvd 2 ^ 32 \<or> unat r + n \<le> 2 ^ 32"

lemma byte_ring_mod:
  assumes "n < 2 ^ 32"
  shows "byte_ring (mod_slot n) n (mod_window n)"
proof
  show "i = j" if "mod_window n r" "i < n" "j < n" "mod_slot n (r + of_nat i) = mod_slot n (r + of_nat j)" for r i j
  proof -
    have "n dvd 2 ^ 32 \<or> unat r + i < 2 ^ 32" "n dvd 2 ^ 32 \<or> unat r + j < 2 ^ 32"
      using that(1-3) by (auto simp: mod_window_def)
    then have "(unat r + i) mod n = (unat r + j) mod n"
      using that(4) mod_slot_add by metis
    then show ?thesis using mod_window_inj [OF that(2,3)] by blast
  qed
qed (rule assms)

end
