(* ===== verification/Pipe.thy ===== *)
theory Pipe
  imports Kring
begin

text \<open>
  Anonymous pipes, \<^verbatim>\<open>kernel/fs/pipe.c\<close>. A blocking call is modelled by its critical sections: the
  code that runs between \<^verbatim>\<open>acquire(&pi->lock)\<close> (or the return of \<^verbatim>\<open>sleep_on_chan\<close>) and the next
  \<^verbatim>\<open>release\<close> or sleep is one function, which returns the outcome, the pipe, and the wait channels it
  has woken. Several processes are interleavings of these sections (\<open>pipe_step\<close>).

  What the caller's address space and the signal state decide is a parameter: \<open>src j\<close> is the byte
  \<^verbatim>\<open>copyin\<close> gets at \<^verbatim>\<open>addr + j\<close>, or \<open>None\<close> when it fails, \<open>dst j\<close> says whether \<^verbatim>\<open>copyout\<close> to
  \<^verbatim>\<open>addr + j\<close> succeeds, \<open>kil j\<close> whether the process is found killed at that point.
\<close>

section \<open>State\<close>

abbreviation PIPESIZE :: nat where "PIPESIZE \<equiv> 512"
abbreviation EPIPE :: int where "EPIPE \<equiv> 32"
abbreviation EAGAIN :: int where "EAGAIN \<equiv> 11"
abbreviation EBADF :: int where "EBADF \<equiv> 9"

record pipe =
  pi_data :: "nat \<Rightarrow> byte"
  pi_size :: count
  pi_nread :: count
  pi_nwrite :: count
  pi_readopen :: bool
  pi_writeopen :: bool

datatype chan = ChanNread | ChanNwrite

datatype pipe_out = Ret int | RetSigpipe int | SleepOn chan

definition pipe_full :: "pipe \<Rightarrow> bool" where
  "pipe_full p \<longleftrightarrow> pi_nwrite p = pi_nread p + pi_size p"

definition pipe_empty :: "pipe \<Rightarrow> bool" where
  "pipe_empty p \<longleftrightarrow> pi_nread p = pi_nwrite p"

definition pipe_put :: "pipe \<Rightarrow> byte \<Rightarrow> pipe" where
  "pipe_put p ch =
     p\<lparr>pi_data := (pi_data p)(unat (pi_nwrite p) mod unat (pi_size p) := ch), pi_nwrite := pi_nwrite p + 1\<rparr>"

definition pipe_get :: "pipe \<Rightarrow> byte \<times> pipe" where
  "pipe_get p =
     (pi_data p (unat (pi_nread p) mod unat (pi_size p)), p\<lparr>pi_nread := pi_nread p + 1\<rparr>)"

section \<open>Creation and closing\<close>

text \<open>
  \<^verbatim>\<open>pipealloc\<close> acquires two file structures and two pages and undoes what it has on failure. The
  arguments say which of the four requests succeed; the result is the return code, the new pipe
  and what is still held.
\<close>

datatype pipe_res = File0 | File1 | PipePage | DataPage

definition new_pipe :: "(nat \<Rightarrow> byte) \<Rightarrow> pipe" where
  "new_pipe d = \<lparr>pi_data = d, pi_size = 512, pi_nread = 0, pi_nwrite = 0, pi_readopen = True, pi_writeopen = True\<rparr>"

definition pipealloc_bad :: "pipe_res list \<Rightarrow> int \<times> pipe option \<times> pipe_res list" where
  "pipealloc_bad held =
     (let h1 = (if PipePage \<in> set held
                then filter (\<lambda>r. r \<noteq> PipePage) (if DataPage \<in> set held then filter (\<lambda>r. r \<noteq> DataPage) held else held)
                else held);
          h2 = (if File0 \<in> set h1 then filter (\<lambda>r. r \<noteq> File0) h1 else h1);
          h3 = (if File1 \<in> set h2 then filter (\<lambda>r. r \<noteq> File1) h2 else h2)
      in (-1, None, h3))"

definition pipealloc :: "bool \<Rightarrow> bool \<Rightarrow> bool \<Rightarrow> bool \<Rightarrow> (nat \<Rightarrow> byte) \<Rightarrow> int \<times> pipe option \<times> pipe_res list" where
  "pipealloc f0_ok f1_ok pi_ok data_ok d =
     (if \<not> f0_ok then pipealloc_bad []
      else if \<not> f1_ok then pipealloc_bad [File0]
      else if \<not> pi_ok then pipealloc_bad [File0, File1]
      else if \<not> data_ok then pipealloc_bad [File0, File1, PipePage]
      else (0, Some (new_pipe d), [File0, File1, PipePage, DataPage]))"

text \<open>The result of \<^verbatim>\<open>pipeclose\<close> is the pipe, or \<open>None\<close> when both ends are closed and its pages are freed.\<close>

definition pipeclose :: "pipe \<Rightarrow> bool \<Rightarrow> pipe option \<times> chan list" where
  "pipeclose p writable =
     (let (p', wk) = (if writable then (p\<lparr>pi_writeopen := False\<rparr>, [ChanNread])
                      else (p\<lparr>pi_readopen := False\<rparr>, [ChanNwrite]))
      in if \<not> pi_readopen p' \<and> \<not> pi_writeopen p' then (None, wk) else (Some p', wk))"

section \<open>Writing\<close>

function pipewrite_loop ::
    "(nat \<Rightarrow> bool) \<Rightarrow> (nat \<Rightarrow> byte option) \<Rightarrow> bool \<Rightarrow> int \<Rightarrow> pipe \<Rightarrow> nat \<Rightarrow> pipe_out \<times> nat \<times> pipe \<times> chan list" where
  "pipewrite_loop kil src nonblock n p i =
     (if int i < n
      then
        if \<not> pi_readopen p \<or> kil i then (RetSigpipe (-EPIPE), i, p, [])
        else if pipe_full p
        then (if nonblock then (Ret (if i = 0 then -EAGAIN else int i), i, p, [])
              else (SleepOn ChanNwrite, i, p, [ChanNread]))
        else (case src i of
                None \<Rightarrow> (Ret (int i), i, p, [ChanNread])
              | Some ch \<Rightarrow> pipewrite_loop kil src nonblock n (pipe_put p ch) (i + 1))
      else (Ret (int i), i, p, [ChanNread]))"
  by pat_completeness auto
termination
  by (relation "measure (\<lambda>(kil, src, nonblock, n, p, i). nat n - i)") auto

declare pipewrite_loop.simps [simp del]

definition pipewrite ::
    "(nat \<Rightarrow> bool) \<Rightarrow> (nat \<Rightarrow> byte option) \<Rightarrow> bool \<Rightarrow> int \<Rightarrow> pipe \<Rightarrow> pipe_out \<times> nat \<times> pipe \<times> chan list" where
  "pipewrite kil src nonblock n p = pipewrite_loop kil src nonblock n p 0"

section \<open>Reading\<close>

function piperead_copy :: "(nat \<Rightarrow> bool) \<Rightarrow> int \<Rightarrow> pipe \<Rightarrow> nat \<Rightarrow> byte list \<Rightarrow> nat \<times> pipe \<times> byte list" where
  "piperead_copy dst n p i out =
     (if int i < n
      then if pipe_empty p then (i, p, out)
           else let (ch, p') = pipe_get p
                in if dst i then piperead_copy dst n p' (i + 1) (out @ [ch]) else (i, p', out)
      else (i, p, out))"
  by pat_completeness auto
termination
  by (relation "measure (\<lambda>(dst, n, p, i, out). nat n - i)") auto

declare piperead_copy.simps [simp del]

text \<open>
  One critical section of \<^verbatim>\<open>piperead\<close>. After a sleep the code goes back to the test of the waiting
  loop, which has the same outcome as entering here: the end-of-file test before the loop is
  repeated after it.
\<close>

definition piperead ::
    "bool \<Rightarrow> (nat \<Rightarrow> bool) \<Rightarrow> bool \<Rightarrow> int \<Rightarrow> pipe \<Rightarrow> pipe_out \<times> byte list \<times> pipe \<times> chan list" where
  "piperead kil dst nonblock n p =
     (if pipe_empty p \<and> \<not> pi_writeopen p then (Ret 0, [], p, [])
      else if pipe_empty p \<and> pi_writeopen p
      then (if kil then (Ret (-1), [], p, [])
            else if nonblock then (Ret (-EAGAIN), [], p, [])
            else (SleepOn ChanNread, [], p, []))
      else let (i, p', out) = piperead_copy dst n p 0 [] in (Ret (int i), out, p', [ChanNwrite]))"

section \<open>Resizing\<close>

text \<open>
  \<^verbatim>\<open>pipeset_size\<close>. The new buffer is one page; clearing more than a page of it is a write outside
  the page and is \<open>None\<close> here. \<open>kalloc_ok\<close> says whether the page could be allocated, \<open>d\<close> is its
  content.
\<close>

definition pipeset_size :: "bool \<Rightarrow> (nat \<Rightarrow> byte) \<Rightarrow> pipe \<Rightarrow> count \<Rightarrow> (int \<times> pipe) option" where
  "pipeset_size kalloc_ok d p sz =
     (if sz = 0 then Some (-1, p)
      else if pi_size p = sz then Some (0, p)
      else if \<not> kalloc_ok then Some (-1, p)
      else if unat sz > PGSIZE then None
      else
        let new_data = (\<lambda>i. if i < unat sz then 0 else d i);
            (data_size, nread) =
              (if pi_nread p < pi_nwrite p
               then (if sz < pi_nwrite p - pi_nread p then (sz, pi_nwrite p - sz)
                     else (pi_nwrite p - pi_nread p, pi_nread p))
               else (0, pi_nread p));
            new_data' = fold (\<lambda>i nd. nd(i := pi_data p (unat (nread + of_nat i) mod unat (pi_size p))))
                          [0..<unat data_size] new_data
        in Some (0, p\<lparr>pi_data := new_data', pi_size := sz, pi_nread := 0, pi_nwrite := data_size\<rparr>))"

definition pipeget_size :: "pipe \<Rightarrow> count" where
  "pipeget_size p = pi_size p"

section \<open>The pipe as a bounded queue\<close>

definition pipe_list :: "pipe \<Rightarrow> byte list" where
  "pipe_list p = ring_list (mod_slot (unat (pi_size p))) (pi_data p) (pi_nread p) (pi_nwrite p)"

text \<open>
  The representation invariant: the size is a divisor of the counter range, as the initial 512 is,
  fits into the page, and at most that many bytes are in flight.
\<close>

definition pipe_ok :: "pipe \<Rightarrow> bool" where
  "pipe_ok p \<longleftrightarrow> unat (pi_size p) dvd 2 ^ 32 \<and> 0 < unat (pi_size p) \<and> unat (pi_size p) \<le> PGSIZE \<and>
     length (pipe_list p) \<le> unat (pi_size p)"

interpretation pipe_ring: byte_ring "mod_slot PIPESIZE" PIPESIZE "mod_window PIPESIZE"
  by (rule byte_ring_mod) simp

lemma pipe_ok_ring: "pipe_ok p \<Longrightarrow> byte_ring (mod_slot (unat (pi_size p))) (unat (pi_size p)) (mod_window (unat (pi_size p)))"
  by (rule byte_ring_mod) (simp add: pipe_ok_def)

lemma pipe_full_iff: "pipe_ok p \<Longrightarrow> pipe_full p \<longleftrightarrow> length (pipe_list p) = unat (pi_size p)"
  using byte_ring.full_iff [OF pipe_ok_ring, of p "pi_nwrite p" "pi_nread p" "pi_data p"]
  by (simp add: pipe_full_def pipe_list_def)

lemma pipe_empty_iff: "pipe_empty p \<longleftrightarrow> pipe_list p = []"
  unfolding pipe_empty_def pipe_list_def ring_list_eq_Nil by auto

lemma pipe_list_put:
  assumes "pipe_ok p" "\<not> pipe_full p"
  shows "pipe_list (pipe_put p ch) = pipe_list p @ [ch]" and "pipe_ok (pipe_put p ch)"
proof -
  have l: "length (pipe_list p) < unat (pi_size p)"
    using assms pipe_full_iff by (auto simp: pipe_ok_def)
  have w: "mod_window (unat (pi_size p)) (pi_nread p)" using assms(1) by (simp add: pipe_ok_def mod_window_def)
  show e: "pipe_list (pipe_put p ch) = pipe_list p @ [ch]"
    using byte_ring.push [OF pipe_ok_ring [OF assms(1)] w, of "pi_data p" "pi_nwrite p" ch] l
    by (simp add: pipe_list_def pipe_put_def mod_slot_def)
  show "pipe_ok (pipe_put p ch)"
    using assms(1) l unfolding pipe_ok_def e by (simp add: pipe_put_def)
qed

lemma pipe_list_get:
  assumes "\<not> pipe_empty p" "pipe_get p = (ch, p')"
  shows "pipe_list p = ch # pipe_list p'"
  using assms ring_list_pop [of "pi_nwrite p" "pi_nread p" "mod_slot (unat (pi_size p))" "pi_data p"]
  by (auto simp: pipe_list_def pipe_get_def pipe_empty_def mod_slot_def)

lemma pipe_ok_get: "pipe_ok p \<Longrightarrow> \<not> pipe_empty p \<Longrightarrow> pipe_get p = (ch, p') \<Longrightarrow> pipe_ok p'"
  using pipe_list_get [of p ch p'] by (auto simp: pipe_ok_def pipe_get_def)

text \<open>What a put or get leaves alone.\<close>

lemma pipe_put_simps [simp]:
  "pi_readopen (pipe_put p ch) = pi_readopen p" "pi_writeopen (pipe_put p ch) = pi_writeopen p"
  "pi_size (pipe_put p ch) = pi_size p" "pi_nread (pipe_put p ch) = pi_nread p"
  by (simp_all add: pipe_put_def)

definition same_ends :: "pipe \<Rightarrow> pipe \<Rightarrow> bool" where
  "same_ends p p' \<longleftrightarrow> pi_readopen p' = pi_readopen p \<and> pi_writeopen p' = pi_writeopen p \<and> pi_size p' = pi_size p"

lemma same_ends_refl [simp]: "same_ends p p"
  by (simp add: same_ends_def)

section \<open>Correctness of the critical sections\<close>

text \<open>What the outcome of a critical section of \<^verbatim>\<open>pipewrite\<close> says.\<close>

definition write_outcome :: "(nat \<Rightarrow> bool) \<Rightarrow> (nat \<Rightarrow> byte option) \<Rightarrow> bool \<Rightarrow> int \<Rightarrow> pipe_out \<Rightarrow> nat \<Rightarrow> pipe \<Rightarrow> chan list \<Rightarrow> bool" where
  "write_outcome kil src nonblock n r i p wk \<longleftrightarrow>
     r = Ret (int i) \<and> wk = [ChanNread] \<and> (n \<le> int i \<or> src i = None) \<or>
     int i < n \<and> (\<not> pi_readopen p \<or> kil i) \<and> r = RetSigpipe (-EPIPE) \<and> wk = [] \<or>
     int i < n \<and> pi_readopen p \<and> pipe_full p \<and> nonblock \<and> r = Ret (if i = 0 then -EAGAIN else int i) \<and> wk = [] \<or>
     int i < n \<and> pi_readopen p \<and> pipe_full p \<and> \<not> nonblock \<and> r = SleepOn ChanNwrite \<and> wk = [ChanNread]"

lemma pipewrite_loop_spec:
  assumes "pipe_ok p" "pipewrite_loop kil src nb n p i = (r, i', p', wk)"
  shows "i \<le> i' \<and> (\<forall>j. i \<le> j \<and> j < i' \<longrightarrow> src j \<noteq> None) \<and>
    pipe_list p' = pipe_list p @ map (the \<circ> src) [i..<i'] \<and> pipe_ok p' \<and> same_ends p p' \<and>
    write_outcome kil src nb n r i' p' wk \<and> int i' \<le> max n (int i)"
  using assms
proof (induction kil src nb n p i rule: pipewrite_loop.induct)
  case (1 kil src nb n p i)
  show ?case
  proof (cases "int i < n \<and> pi_readopen p \<and> \<not> kil i \<and> \<not> pipe_full p \<and> src i \<noteq> None")
    case True
    then obtain ch where ch: "src i = Some ch" by auto
    have e: "pipewrite_loop kil src nb n (pipe_put p ch) (i + 1) = (r, i', p', wk)"
      using "1.prems"(2) True ch by (simp add: pipewrite_loop.simps [of kil src nb n p])
    have IH: "i + 1 \<le> i'" "\<forall>j. i + 1 \<le> j \<and> j < i' \<longrightarrow> src j \<noteq> None"
      "pipe_list p' = pipe_list (pipe_put p ch) @ map (the \<circ> src) [i + 1..<i']" "pipe_ok p'"
      "same_ends (pipe_put p ch) p'" "write_outcome kil src nb n r i' p' wk" "int i' \<le> max n (int (i + 1))"
      using "1.IH" [OF _ _ _ ch pipe_list_put(2) e] True "1.prems"(1) by auto
    have "src j \<noteq> None" if "i \<le> j" "j < i'" for j using IH(2) ch that by (cases "j = i") auto
    moreover have "map (the \<circ> src) [i..<i'] = ch # map (the \<circ> src) [i + 1..<i']"
      using IH(1) ch by (simp add: upt_conv_Cons)
    then have "pipe_list p' = pipe_list p @ map (the \<circ> src) [i..<i']"
      using IH(3) pipe_list_put(1) [OF "1.prems"(1), of ch] True by simp
    ultimately show ?thesis using IH(1,4-7) True by (simp add: same_ends_def)
  next
    case False
    then have "i' = i \<and> p' = p \<and> write_outcome kil src nb n r i p wk"
      using "1.prems"(2) unfolding pipewrite_loop.simps [of kil src nb n p] write_outcome_def
      by (auto split: if_splits option.splits)
    then show ?thesis using "1.prems"(1) by auto
  qed
qed

lemma piperead_copy_spec:
  assumes "pipe_ok p" "piperead_copy dst n p i out = (i', p', out')"
  shows "i \<le> i' \<and> int i' \<le> max n (int i) \<and> pipe_ok p' \<and> same_ends p p' \<and> pi_nwrite p' = pi_nwrite p \<and>
    (\<exists>got lost. out' = out @ got \<and> length got = i' - i \<and> pipe_list p = got @ lost @ pipe_list p' \<and>
       (lost \<noteq> [] \<longrightarrow> length lost = 1 \<and> \<not> dst i' \<and> int i' < n) \<and> (int i' < n \<and> lost = [] \<longrightarrow> pipe_list p' = []))"
  using assms
proof (induction dst n p i out rule: piperead_copy.induct)
  case (1 dst n p i out)
  show ?case
  proof (cases "int i < n \<and> \<not> pipe_empty p")
    case True
    obtain ch q where g: "pipe_get p = (ch, q)" by fastforce
    have l: "pipe_list p = ch # pipe_list q" and ok: "pipe_ok q" and s: "same_ends p q" "pi_nwrite q = pi_nwrite p"
      using pipe_list_get [OF _ g] pipe_ok_get [OF "1.prems"(1) _ g] True g
      by (auto simp: pipe_get_def same_ends_def)
    show ?thesis
    proof (cases "dst i")
      case dst: True
      have e: "piperead_copy dst n q (i + 1) (out @ [ch]) = (i', p', out')"
        using "1.prems"(2) True dst g by (simp add: piperead_copy.simps [of dst n p])
      from "1.IH" [OF _ _ g [symmetric] refl dst ok e] True obtain got lost where
        IH: "i + 1 \<le> i'" "int i' \<le> max n (int (i + 1))" "pipe_ok p'" "same_ends q p'" "pi_nwrite p' = pi_nwrite q"
          "out' = (out @ [ch]) @ got" "length got = i' - (i + 1)" "pipe_list q = got @ lost @ pipe_list p'"
          "lost \<noteq> [] \<longrightarrow> length lost = 1 \<and> \<not> dst i' \<and> int i' < n" "int i' < n \<and> lost = [] \<longrightarrow> pipe_list p' = []" by blast
      have "out' = out @ (ch # got)" "length (ch # got) = i' - i" "pipe_list p = (ch # got) @ lost @ pipe_list p'"
        using IH(1,6,7,8) l by auto
      moreover have "same_ends p p'" "pi_nwrite p' = pi_nwrite p" using s IH(4,5) by (auto simp: same_ends_def)
      ultimately show ?thesis using IH(1,2,3,9,10) True by (intro conjI exI [where x = "ch # got"] exI [where x = lost]) auto
    next
      case False
      then have "i' = i" "p' = q" "out' = out"
        using "1.prems"(2) True g by (auto simp: piperead_copy.simps [of dst n p])
      then show ?thesis using False True l ok s by (intro conjI exI [where x = "[]"] exI [where x = "[ch]"]) auto
    qed
  next
    case False
    then have "i' = i" "p' = p" "out' = out"
      using "1.prems"(2) by (auto simp: piperead_copy.simps [of dst n p] split: if_splits)
    then show ?thesis using False "1.prems"(1) pipe_empty_iff by (intro conjI exI [where x = "[]"]) auto
  qed
qed

section \<open>Processes sharing a pipe\<close>

text \<open>
  The state of the system: the pipe, the processes asleep on each of its two channels, and two
  logs, the bytes that writers put in and the bytes that \<^verbatim>\<open>piperead\<close> delivered to readers, with \<open>None\<close> for the
  byte of a \<^verbatim>\<open>copyout\<close> that failed (\<open>faulted\<close>): the reader has not got it. Every step is one critical
  section of a process that is awake; \<open>wakeup\<close> of a channel makes all its sleepers runnable.
\<close>

record pipe_sys =
  ps_pipe :: pipe
  ps_readers :: "nat set"
  ps_writers :: "nat set"
  ps_in :: "byte list"
  ps_out :: "byte option list"

definition wake :: "chan list \<Rightarrow> pipe_sys \<Rightarrow> pipe_sys" where
  "wake wk s = s\<lparr>ps_readers := (if ChanNread \<in> set wk then {} else ps_readers s),
                 ps_writers := (if ChanNwrite \<in> set wk then {} else ps_writers s)\<rparr>"

definition put_to_sleep :: "nat \<Rightarrow> pipe_out \<Rightarrow> pipe_sys \<Rightarrow> pipe_sys" where
  "put_to_sleep t r s =
     (case r of SleepOn ChanNread \<Rightarrow> s\<lparr>ps_readers := insert t (ps_readers s)\<rparr>
              | SleepOn ChanNwrite \<Rightarrow> s\<lparr>ps_writers := insert t (ps_writers s)\<rparr>
              | _ \<Rightarrow> s)"

definition faulted :: "(nat \<Rightarrow> bool) \<Rightarrow> int \<Rightarrow> pipe \<Rightarrow> byte list \<Rightarrow> bool" where
  "faulted dst n p got \<longleftrightarrow> int (length got) < n \<and> length got < length (pipe_list p) \<and> \<not> dst (length got)"

inductive pipe_step :: "bool \<Rightarrow> pipe_sys \<Rightarrow> pipe_sys \<Rightarrow> bool" for gentle :: bool where
  step_write: "t \<notin> ps_readers s \<union> ps_writers s \<Longrightarrow> (gentle \<longrightarrow> \<not> nb \<and> (\<forall>j. \<not> kil j)) \<Longrightarrow>
    pipewrite_loop kil src nb n (ps_pipe s) i = (r, i', p', wk) \<Longrightarrow>
    pipe_step gentle s (put_to_sleep t r (wake wk
      (s\<lparr>ps_pipe := p', ps_in := ps_in s @ map (the \<circ> src) [i..<i']\<rparr>)))"
| step_read: "t \<notin> ps_readers s \<union> ps_writers s \<Longrightarrow>
    piperead kil dst nb n (ps_pipe s) = (r, got, p', wk) \<Longrightarrow>
    pipe_step gentle s (put_to_sleep t r (wake wk
      (s\<lparr>ps_pipe := p',
         ps_out := ps_out s @ map Some got @ (if faulted dst n (ps_pipe s) got then [None] else [])\<rparr>)))"
| step_close: "pipeclose (ps_pipe s) writable = (Some p', wk) \<Longrightarrow>
    pipe_step gentle s (wake wk (s\<lparr>ps_pipe := p'\<rparr>))"

inductive_cases pipe_stepE: "pipe_step gentle s s'"

definition sys_start :: "(nat \<Rightarrow> byte) \<Rightarrow> pipe_sys" where
  "sys_start d = \<lparr>ps_pipe = new_pipe d, ps_readers = {}, ps_writers = {}, ps_in = [], ps_out = []\<rparr>"

lemma wake_simps [simp]:
  "ps_pipe (wake wk s) = ps_pipe s" "ps_in (wake wk s) = ps_in s" "ps_out (wake wk s) = ps_out s"
  by (simp_all add: wake_def)

lemma put_to_sleep_simps [simp]:
  "ps_pipe (put_to_sleep t r s) = ps_pipe s" "ps_in (put_to_sleep t r s) = ps_in s"
  "ps_out (put_to_sleep t r s) = ps_out s"
  by (simp_all add: put_to_sleep_def split: pipe_out.splits chan.splits)

lemma pipe_ok_new: "pipe_ok (new_pipe d)" "pipe_list (new_pipe d) = []"
  by (simp_all add: pipe_ok_def new_pipe_def pipe_list_def dvd_eq_mod_eq_0)

lemma piperead_spec:
  assumes "pipe_ok p" "piperead kil dst nb n p = (r, got, p', wk)"
  shows "pipe_ok p' \<and> same_ends p p' \<and>
    (\<exists>lost. pipe_list p = got @ lost @ pipe_list p' \<and> length lost = (if faulted dst n p got then 1 else 0)) \<and>
    (r = Ret (int (length got)) \<and> wk = [ChanNwrite] \<and> pipe_list p \<noteq> [] \<or>
     p' = p \<and> got = [] \<and> wk = [] \<and> pipe_list p = [] \<and>
       (if pi_writeopen p then r = (if kil then Ret (-1) else if nb then Ret (-EAGAIN) else SleepOn ChanNread)
        else r = Ret 0))"
proof (cases "pipe_empty p")
  case True
  then have "pipe_list p = []" using pipe_empty_iff by simp
  then show ?thesis using assms True by (auto simp: piperead_def faulted_def split: if_splits)
next
  case False
  obtain i where c: "piperead_copy dst n p 0 [] = (i, p', got)" "r = Ret (int i)" "wk = [ChanNwrite]"
    using assms(2) False by (auto simp: piperead_def split: prod.splits)
  from piperead_copy_spec [OF assms(1) c(1)] obtain lost where
    l: "pipe_ok p'" "same_ends p p'" "length got = i" "pipe_list p = got @ lost @ pipe_list p'"
      "lost \<noteq> [] \<longrightarrow> length lost = 1 \<and> \<not> dst i \<and> int i < n" "int i < n \<and> lost = [] \<longrightarrow> pipe_list p' = []" by auto
  then have "length lost = (if faulted dst n p got then 1 else 0)" by (cases "lost = []") (auto simp: faulted_def)
  then show ?thesis using c l False pipe_empty_iff by auto
qed

lemma piperead_outcome:
  assumes "pipe_ok p" "piperead kil dst nb n p = (r, got, p', wk)"
  shows "r = Ret (int (length got)) \<and> wk = [ChanNwrite] \<and> pipe_list p \<noteq> [] \<or>
     p' = p \<and> got = [] \<and> wk = [] \<and> pipe_list p = [] \<and>
       (if pi_writeopen p then r = (if kil then Ret (-1) else if nb then Ret (-EAGAIN) else SleepOn ChanNread)
        else r = Ret 0)"
  using piperead_spec [OF assms] by blast

text \<open>First in, first out: the bytes delivered are the bytes that entered, in order, but for the lost ones.\<close>

abbreviation delivered :: "byte list \<Rightarrow> byte option list \<Rightarrow> bool" where
  "delivered \<equiv> list_all2 (\<lambda>b x. x = Some b \<or> x = None)"

definition sys_inv :: "pipe_sys \<Rightarrow> bool" where
  "sys_inv s \<longleftrightarrow> pipe_ok (ps_pipe s) \<and> (\<exists>old. ps_in s = old @ pipe_list (ps_pipe s) \<and> delivered old (ps_out s))"

lemma delivered_read:
  assumes "delivered old out" "length lost = (if f then 1 else 0)"
  shows "delivered (old @ got @ lost) (out @ map Some got @ (if f then [None] else []))"
  using assms by (auto simp: list_all2_append list_all2_map2 list_all2_same length_Suc_conv intro!: list_all2_appendI)

lemma pipeclose_some:
  assumes "pipeclose p writable = (Some p', wk)"
  shows "pipe_list p' = pipe_list p" "pipe_ok p' = pipe_ok p"
    and "wk = (if writable then [ChanNread] else [ChanNwrite])"
    and "pi_readopen p' = (writable \<and> pi_readopen p)" "pi_writeopen p' = (\<not> writable \<and> pi_writeopen p)"
    and "pipe_full p' = pipe_full p" "pipe_empty p' = pipe_empty p"
  using assms by (auto simp: pipeclose_def pipe_list_def pipe_ok_def pipe_full_def pipe_empty_def split: if_splits)

lemma sys_inv_step:
  assumes "pipe_step g s s'" "sys_inv s"
  shows "sys_inv s'"
  using assms
proof (cases rule: pipe_step.cases)
  case (step_write t nb kil src n i r i' p' wk)
  then show ?thesis
    using pipewrite_loop_spec [OF _ step_write(4)] assms(2) by (auto simp: sys_inv_def)
next
  case (step_read t kil dst nb n r got p' wk)
  obtain lost where l: "pipe_ok p'" "pipe_list (ps_pipe s) = got @ lost @ pipe_list p'"
      "length lost = (if faulted dst n (ps_pipe s) got then 1 else 0)"
    using piperead_spec [OF _ step_read(3)] assms(2) unfolding sys_inv_def by blast
  obtain old where o: "ps_in s = old @ pipe_list (ps_pipe s)" "delivered old (ps_out s)" using assms(2) by (auto simp: sys_inv_def)
  show ?thesis
    using step_read(1) l(1,2) o(1) delivered_read [OF o(2) l(3), of got] by (auto simp: sys_inv_def intro!: exI [of _ "old @ got @ lost"])
next
  case (step_close writable p' wk)
  then show ?thesis using pipeclose_some [OF step_close(2)] assms(2) by (simp add: sys_inv_def)
qed

lemma sys_inv_reachable: "(pipe_step g)\<^sup>*\<^sup>* (sys_start d) s \<Longrightarrow> sys_inv s"
proof (induction rule: rtranclp_induct)
  case base
  show ?case by (simp add: sys_inv_def sys_start_def pipe_ok_new)
qed (rule sys_inv_step)

text \<open>Nobody sleeps without a reason.\<close>

definition sleep_inv :: "pipe_sys \<Rightarrow> bool" where
  "sleep_inv s \<longleftrightarrow>
     (ps_readers s \<noteq> {} \<longrightarrow> pipe_empty (ps_pipe s) \<and> pi_writeopen (ps_pipe s)) \<and>
     (ps_writers s \<noteq> {} \<longrightarrow> pipe_full (ps_pipe s) \<and> pi_readopen (ps_pipe s))"

lemma full_not_empty: "pipe_ok p \<Longrightarrow> pipe_full p \<Longrightarrow> \<not> pipe_empty p"
  using pipe_full_iff pipe_empty_iff by (auto simp: pipe_ok_def)

lemma write_full:
  assumes "pipe_ok p" "pipe_full p \<or> \<not> pi_readopen p" "pipewrite_loop kil src nb n p i = (r, i', p', wk)"
  shows "p' = p"
  using assms by (auto simp: pipewrite_loop.simps [of kil src nb n p] split: if_splits option.splits)

lemma sleep_inv_step:
  assumes "pipe_step True s s'" "sys_inv s" "sleep_inv s"
  shows "sleep_inv s'"
  using assms(1)
proof (cases rule: pipe_step.cases)
  case (step_write t nb kil src n i r i' p' wk)
  have ok: "pipe_ok (ps_pipe s)" using assms(2) by (simp add: sys_inv_def)
  have g: "\<not> nb" "\<not> kil j" for j using step_write(3) by auto
  note sp = pipewrite_loop_spec [OF ok step_write(4)]
  have ends: "pi_readopen p' = pi_readopen (ps_pipe s)" "pi_writeopen p' = pi_writeopen (ps_pipe s)"
    using sp by (auto simp: same_ends_def)
  have W: "p' = ps_pipe s" if "ps_writers s \<noteq> {}"
    using write_full [OF ok _ step_write(4)] assms(3) that by (auto simp: sleep_inv_def)
  have out: "write_outcome kil src nb n r i' p' wk" using sp by blast
  then consider "wk = [ChanNread]" "\<And>c. r \<noteq> SleepOn c" | "\<not> pi_readopen p'" "wk = []" "\<And>c. r \<noteq> SleepOn c"
    | "r = SleepOn ChanNwrite" "wk = [ChanNread]" "pipe_full p'" "pi_readopen p'"
    using g by (auto simp: write_outcome_def)
  then show ?thesis
  proof cases
    case 1
    then show ?thesis
      using step_write(1) W assms(3) by (cases r) (auto simp: sleep_inv_def put_to_sleep_def wake_def)
  next
    case 2
    then have "p' = ps_pipe s" using write_full [OF ok _ step_write(4)] ends by blast
    then show ?thesis
      using step_write(1) 2 assms(3) by (cases r) (auto simp: sleep_inv_def put_to_sleep_def wake_def)
  next
    case 3
    then show ?thesis using step_write(1) by (auto simp: sleep_inv_def put_to_sleep_def wake_def)
  qed
next
  case (step_read t kil dst nb n r got p' wk)
  have ok: "pipe_ok (ps_pipe s)" using assms(2) by (simp add: sys_inv_def)
  from piperead_outcome [OF ok step_read(3)]
  consider "r = Ret (int (length got))" "wk = [ChanNwrite]" "\<not> pipe_empty (ps_pipe s)"
    | "p' = ps_pipe s" "wk = []" "pipe_empty (ps_pipe s)" "r = SleepOn ChanNread \<longrightarrow> pi_writeopen (ps_pipe s)"
      "r \<noteq> SleepOn ChanNwrite"
    unfolding pipe_empty_iff by (auto split: if_splits)
  then show ?thesis
  proof cases
    case 1
    then show ?thesis
      using step_read(1) assms(3) by (auto simp: sleep_inv_def put_to_sleep_def wake_def)
  next
    case 2
    then show ?thesis
      using step_read(1) assms(3)
      by (auto simp: sleep_inv_def put_to_sleep_def wake_def split: pipe_out.splits chan.splits)
  qed
next
  case (step_close writable p' wk)
  then show ?thesis
    using pipeclose_some [OF step_close(2)] assms(3) by (auto simp: sleep_inv_def wake_def)
qed

lemma sleep_inv_reachable: "(pipe_step True)\<^sup>*\<^sup>* (sys_start d) s \<Longrightarrow> sleep_inv s"
proof (induction rule: rtranclp_induct)
  case base
  show ?case by (simp add: sleep_inv_def sys_start_def)
next
  case (step s t)
  then show ?case using sleep_inv_step sys_inv_reachable by blast
qed

section \<open>Properties\<close>

text \<open>
  \<^verbatim>\<open>pipealloc\<close> either returns 0 with an empty, well-formed pipe open at both ends and its four
  resources held, or returns -1 holding none of them, whichever of its requests failed.
\<close>

theorem pipealloc_no_leak:
  "(\<exists>p. pipealloc f0_ok f1_ok pi_ok data_ok d = (0, Some p, [File0, File1, PipePage, DataPage]) \<and>
      pipe_ok p \<and> pipe_list p = [] \<and> pi_readopen p \<and> pi_writeopen p) \<or>
   \<not> (f0_ok \<and> f1_ok \<and> pi_ok \<and> data_ok) \<and> pipealloc f0_ok f1_ok pi_ok data_ok d = (-1, None, [])"
  using pipe_ok_new [of d] by (auto simp: pipealloc_def pipealloc_bad_def) (auto simp: new_pipe_def)

text \<open>
  One critical section of \<^verbatim>\<open>pipewrite\<close> on a well-formed pipe appends exactly the bytes
  \<^verbatim>\<open>i .. i'-1\<close> of the caller's buffer to the queue, never more than fit, and its result tells why it
  stopped: everything written or the caller's buffer unreadable, the read end closed or the process
  killed, the pipe full for a non-blocking writer, or the pipe full and the writer going to sleep
  after waking the readers.
\<close>

theorem pipewrite_appends:
  assumes "pipe_ok p" "pipewrite_loop kil src nb n p i = (r, i', p', wk)"
  shows "i \<le> i' \<and> pipe_ok p' \<and> pipe_list p' = pipe_list p @ map (the \<circ> src) [i..<i'] \<and>
    (\<forall>j \<in> {i..<i'}. src j \<noteq> None) \<and> write_outcome kil src nb n r i' p' wk"
  using pipewrite_loop_spec [OF assms] by auto

theorem pipewrite_appends_witness:
  "\<exists>r i' p' wk. pipewrite_loop (\<lambda>_. False) (\<lambda>j. Some (of_nat j)) False 3 (new_pipe (\<lambda>_. 0)) 0 = (r, i', p', wk) \<and>
     pipe_list p' = map (the \<circ> (\<lambda>j. Some (of_nat j))) [0..<i']"
proof -
  obtain r i' p' wk where e: "pipewrite_loop (\<lambda>_. False) (\<lambda>j. Some (of_nat j)) False 3 (new_pipe (\<lambda>_. 0)) 0 = (r, i', p', wk)"
    by (metis prod_cases4)
  from pipewrite_appends [OF pipe_ok_new(1) e] show ?thesis using e by (simp add: pipe_ok_new)
qed

text \<open>
  One critical section of \<^verbatim>\<open>piperead\<close> on a well-formed pipe delivers a prefix of the queue in
  order and takes it out; at most one more byte leaves the queue, the one whose \<^verbatim>\<open>copyout\<close> failed.
  On an empty pipe it delivers nothing and returns end of file exactly when the write end is closed.
\<close>

theorem piperead_prefix:
  assumes "pipe_ok p" "piperead kil dst nb n p = (r, got, p', wk)"
  shows "pipe_ok p' \<and>
    (\<exists>lost. pipe_list p = got @ lost @ pipe_list p' \<and> length lost = (if faulted dst n p got then 1 else 0)) \<and>
    (if pipe_list p \<noteq> [] then r = Ret (int (length got)) \<and> wk = [ChanNwrite]
     else p' = p \<and> got = [] \<and> (r = Ret 0 \<longleftrightarrow> \<not> pi_writeopen p))"
  using piperead_spec [OF assms] by (auto split: if_splits)

theorem piperead_prefix_witness:
  "\<exists>r got p' wk. piperead False (\<lambda>_. True) True 8 (new_pipe (\<lambda>_. 0)) = (r, got, p', wk) \<and> got = [] \<and> r \<noteq> Ret 0"
proof -
  obtain r got p' wk where e: "piperead False (\<lambda>_. True) True 8 (new_pipe (\<lambda>_. 0)) = (r, got, p', wk)"
    by (metis prod_cases4)
  have "pi_writeopen (new_pipe (\<lambda>_. 0))" by (simp add: new_pipe_def)
  then show ?thesis using piperead_prefix [OF pipe_ok_new(1) e] e by (simp add: pipe_ok_new)
qed

text \<open>
  C4: However any number of readers and writers, blocking or not, interleave on a pipe, and whatever
  faults and kills happen, the pipe never holds more than its size and is first in first out: the bytes that writers
  put in are, in order, those that \<^verbatim>\<open>piperead\<close> has delivered to its callers followed by those in the pipe. The only
  bytes that are not delivered are those whose \<^verbatim>\<open>copyout\<close> failed, one for such a read; without such a read nothing
  is lost.
\<close>

theorem pipe_fifo_order:
  assumes "(pipe_step g)\<^sup>*\<^sup>* (sys_start d) s"
  shows "length (pipe_list (ps_pipe s)) \<le> unat (pi_size (ps_pipe s)) \<and>
    (\<exists>old. ps_in s = old @ pipe_list (ps_pipe s) \<and> length old = length (ps_out s) \<and>
       (\<forall>k < length old. ps_out s ! k = Some (old ! k) \<or> ps_out s ! k = None)) \<and>
    (None \<notin> set (ps_out s) \<longrightarrow> map Some (ps_in s) = ps_out s @ map Some (pipe_list (ps_pipe s)))"
proof -
  obtain old where o: "ps_in s = old @ pipe_list (ps_pipe s)" "delivered old (ps_out s)" and ok: "pipe_ok (ps_pipe s)"
    using sys_inv_reachable [OF assms] by (auto simp: sys_inv_def)
  have n: "length old = length (ps_out s)" "\<forall>k < length old. ps_out s ! k = Some (old ! k) \<or> ps_out s ! k = None"
    using o(2) by (auto simp: list_all2_conv_all_nth)
  have "map Some old = ps_out s" if "None \<notin> set (ps_out s)"
    by (rule nth_equalityI) (use n that in \<open>force simp: in_set_conv_nth\<close>)+
  then show ?thesis using o(1) n ok by (auto simp: pipe_ok_def)
qed

text \<open>Witness: one process writes three bytes, another reads two of them.\<close>

definition abc_pipe :: pipe where
  "abc_pipe = pipe_put (pipe_put (pipe_put (new_pipe (\<lambda>_. 0)) 97) 98) 99"

theorem pipe_fifo_order_witness:
  "\<exists>s. (pipe_step False)\<^sup>*\<^sup>* (sys_start (\<lambda>_. 0)) s \<and> ps_in s = [97, 98, 99] \<and> ps_out s = [Some 97, Some 98] \<and> pipe_list (ps_pipe s) = [99]"
proof -
  let ?src = "\<lambda>j. if j = 0 then Some 97 else if j = 1 then Some 98 else Some 99"
  let ?s1 = "sys_start (\<lambda>_. 0)\<lparr>ps_pipe := abc_pipe, ps_in := [97, 98, 99]\<rparr>"
  let ?p = "snd (pipe_get (snd (pipe_get abc_pipe)))"
  let ?s2 = "?s1\<lparr>ps_pipe := ?p, ps_out := [Some 97, Some 98]\<rparr>"
  have w: "pipewrite_loop (\<lambda>_. False) ?src False 3 (new_pipe (\<lambda>_. 0)) 0 = (Ret 3, 3, abc_pipe, [ChanNread])"
    by (simp add: pipewrite_loop.simps abc_pipe_def pipe_full_def new_pipe_def pipe_put_def)
  have r: "piperead False (\<lambda>_. True) False 2 abc_pipe = (Ret 2, [97, 98], ?p, [ChanNwrite])"
    by (simp add: piperead_def piperead_copy.simps pipe_empty_def abc_pipe_def new_pipe_def pipe_put_def pipe_get_def)
  have "pipe_step False (sys_start (\<lambda>_. 0)) ?s1"
    using step_write [of 0 "sys_start (\<lambda>_. 0)" False False "\<lambda>_. False" ?src 3 0 "Ret 3" 3 abc_pipe "[ChanNread]"] w
    by (simp add: sys_start_def put_to_sleep_def wake_def numeral_3_eq_3)
  moreover have "pipe_step False ?s1 ?s2"
    using step_read [of 1 ?s1 False "\<lambda>_. True" False 2 "Ret 2" "[97, 98]" ?p "[ChanNwrite]" False] r
    by (simp add: sys_start_def put_to_sleep_def wake_def faulted_def)
  ultimately have s: "(pipe_step False)\<^sup>*\<^sup>* (sys_start (\<lambda>_. 0)) ?s2" by simp
  have "map Some (ps_in ?s2) = ps_out ?s2 @ map Some (pipe_list (ps_pipe ?s2))" using pipe_fifo_order [OF s] by simp
  then have "pipe_list (ps_pipe ?s2) = [99]" by (auto simp: Cons_eq_map_conv)
  then show ?thesis using s by (intro exI [of _ ?s2]) simp
qed

text \<open>
  C30: As long as every writer blocks and none is killed in the middle of a write, no process sleeps
  without a reason: a sleeping reader faces an empty pipe with an open write end, a sleeping writer a
  full pipe with an open read end.
\<close>

theorem pipe_no_lost_wakeup:
  assumes "(pipe_step True)\<^sup>*\<^sup>* (sys_start d) s"
  shows "(ps_readers s \<noteq> {} \<longrightarrow> pipe_list (ps_pipe s) = [] \<and> pi_writeopen (ps_pipe s)) \<and>
    (ps_writers s \<noteq> {} \<longrightarrow> length (pipe_list (ps_pipe s)) = unat (pi_size (ps_pipe s)) \<and> pi_readopen (ps_pipe s))"
proof -
  have "pipe_ok (ps_pipe s)" using sys_inv_reachable [OF assms] by (simp add: sys_inv_def)
  then show ?thesis
    using sleep_inv_reachable [OF assms] pipe_full_iff pipe_empty_iff by (auto simp: sleep_inv_def)
qed

lemma reader_sleeps:
  "pipe_step g (sys_start d) (sys_start d\<lparr>ps_readers := {0}\<rparr>)"
proof -
  have "piperead False (\<lambda>_. True) False 1 (new_pipe d) = (SleepOn ChanNread, [], new_pipe d, [])"
    by (simp add: piperead_def pipe_empty_def new_pipe_def)
  then have "pipe_step g (sys_start d) (put_to_sleep 0 (SleepOn ChanNread) (wake []
      (sys_start d\<lparr>ps_pipe := new_pipe d, ps_out := ps_out (sys_start d) @ map Some [] @ (if faulted (\<lambda>_. True) 1 (ps_pipe (sys_start d)) [] then [None] else [])\<rparr>)))"
    by (intro step_read) (simp_all add: sys_start_def)
  then show ?thesis by (simp add: put_to_sleep_def wake_def sys_start_def pipe_ok_new faulted_def)
qed

theorem pipe_no_lost_wakeup_witness:
  "\<exists>s. (pipe_step True)\<^sup>*\<^sup>* (sys_start (\<lambda>_. 0)) s \<and> ps_readers s = {0} \<and> pipe_list (ps_pipe s) = []"
  using pipe_no_lost_wakeup [OF r_into_rtranclp, OF reader_sleeps, of "\<lambda>_. 0"]
    r_into_rtranclp [of "pipe_step True", OF reader_sleeps, of "\<lambda>_. 0"] by fastforce

text \<open>
  A non-blocking writer breaks this: it returns from a pipe that it has just filled without
  waking anybody, so a reader can be left asleep on a pipe full of data.
\<close>

theorem pipe_nonblock_loses_wakeup:
  "\<exists>s. (pipe_step False)\<^sup>*\<^sup>* (sys_start d) s \<and> 0 \<in> ps_readers s \<and> length (pipe_list (ps_pipe s)) = PIPESIZE"
proof -
  let ?s = "sys_start d\<lparr>ps_readers := {0}\<rparr>"
  obtain r i' p' wk where w: "pipewrite_loop (\<lambda>_. False) (\<lambda>_. Some 0) True 600 (new_pipe d) 0 = (r, i', p', wk)"
    by (metis prod_cases4)
  note sp = pipewrite_loop_spec [OF pipe_ok_new(1) w]
  have sz: "unat (pi_size p') = PIPESIZE" "pi_readopen p'"
    using sp by (auto simp: same_ends_def new_pipe_def)
  have "length (pipe_list p') = i'" using sp by (simp add: pipe_ok_new)
  then have "i' \<le> PIPESIZE" using sp sz(1) by (auto simp: pipe_ok_def)
  then have full: "pipe_full p'" "wk = []" "\<And>c. r \<noteq> SleepOn c"
    using sp sz(2) by (auto simp: write_outcome_def)
  then have len: "length (pipe_list p') = PIPESIZE" using pipe_full_iff sp sz(1) by simp
  have w': "pipewrite_loop (\<lambda>_. False) (\<lambda>_. Some 0) True 600 (ps_pipe ?s) 0 = (r, i', p', wk)"
    using w by (simp add: sys_start_def)
  have "pipe_step False ?s (put_to_sleep 1 r (wake wk
      (?s\<lparr>ps_pipe := p', ps_in := ps_in ?s @ map (the \<circ> (\<lambda>_. Some 0)) [0..<i']\<rparr>)))" (is "pipe_step False ?s ?t")
    by (rule step_write [OF _ _ w']) (simp_all add: sys_start_def)
  moreover have "ps_readers ?t = {0}" "ps_pipe ?t = p'"
    using full by (cases r, simp_all add: put_to_sleep_def wake_def sys_start_def)+
  ultimately show ?thesis
    using len reader_sleeps [of False d] by (intro exI [where x = ?t]) (auto intro: rtranclp.intros)
qed

section \<open>Resizing\<close>

lemma fold_copy:
  "fold (\<lambda>i nd. nd(i := f i)) [0..<n] nd = (\<lambda>i. if i < n then f i else nd i)"
  by (induction n) (auto simp: fun_eq_iff)

lemma resized_list:
  assumes "unat m \<le> unat sz"
  shows "ring_list (mod_slot (unat sz)) (\<lambda>i. if i < unat m then f i else nd i) 0 m = map f [0..<unat m]"
proof -
  have "mod_slot (unat sz) (of_nat k) = k" if "k < unat m" for k
    using that assms unat_count_less [of m] by (simp add: mod_slot_def unat_of_nat_count)
  then show ?thesis by (simp add: ring_list_def)
qed

lemma ring_list_map:
  "ring_list (mod_slot n) d r w = map (\<lambda>k. d (unat (r + of_nat k) mod n)) [0..<unat (w - r)]"
  by (simp add: ring_list_def mod_slot_def)

text \<open>
  Resizing a pipe whose counters have not wrapped, to a size between one byte and a page, keeps
  the newest bytes that fit, in order; nothing is lost when they all fit.
\<close>

theorem pipeset_size_keeps_newest:
  assumes ok: "pipe_ok p" and sz: "sz \<noteq> 0" "unat sz \<le> PGSIZE" and nw: "pi_nread p \<le> pi_nwrite p"
  shows "\<exists>p'. pipeset_size True d p sz = Some (0, p') \<and> pi_size p' = sz \<and>
    pipe_list p' = drop (length (pipe_list p) - unat sz) (pipe_list p)"
proof (cases "pi_size p = sz")
  case True
  then show ?thesis using ok sz by (simp add: pipeset_size_def pipe_ok_def)
next
  case False
  let ?n = "unat (pi_size p)" and ?len = "unat (pi_nwrite p - pi_nread p)"
  define r where "r = (if sz < pi_nwrite p - pi_nread p then pi_nwrite p - sz else pi_nread p)"
  define m where "m = (if sz < pi_nwrite p - pi_nread p then sz else pi_nwrite p - pi_nread p)"
  define nd where "nd = (\<lambda>i. if i < unat m then pi_data p (unat (r + of_nat i) mod ?n) else if i < unat sz then 0 else d i)"
  have m: "unat m \<le> unat sz" "m = pi_nwrite p - r"
    by (auto simp: m_def r_def word_less_nat_alt not_less word_le_nat_alt)
  have mr: "(if pi_nread p < pi_nwrite p then (m, r) else (0, pi_nread p)) = (m, r)"
    using nw by (auto simp: m_def r_def)
  have "(if pi_nread p < pi_nwrite p
          then if sz < pi_nwrite p - pi_nread p then (sz, pi_nwrite p - sz) else (pi_nwrite p - pi_nread p, pi_nread p)
          else (0, pi_nread p)) = (m, r)"
    using mr unfolding m_def r_def by (auto split: if_splits)
  then have "pipeset_size True d p sz = Some (0, p\<lparr>pi_data := nd, pi_size := sz, pi_nread := 0, pi_nwrite := m\<rparr>)"
    using False sz by (simp add: pipeset_size_def Let_def fold_copy nd_def not_less [symmetric])
  moreover have "ring_list (mod_slot (unat sz)) nd 0 m = drop (?len - unat sz) (pipe_list p)"
  proof -
    have "ring_list (mod_slot (unat sz)) nd 0 m = ring_list (mod_slot ?n) (pi_data p) r (pi_nwrite p)"
      using resized_list [OF m(1), of "\<lambda>k. pi_data p (unat (r + of_nat k) mod ?n)"]
      unfolding nd_def ring_list_map [of ?n] m(2) by simp
    also have "\<dots> = drop (?len - unat sz) (pipe_list p)"
    proof (cases "sz < pi_nwrite p - pi_nread p")
      case True
      then have "unat (pi_nwrite p - pi_nread p - sz) = ?len - unat sz"
        by (simp add: unat_sub order_less_imp_le)
      moreover have "of_nat (unat (pi_nwrite p - pi_nread p - sz)) = pi_nwrite p - pi_nread p - sz" by simp
      ultimately have "pi_nread p + of_nat (?len - unat sz) = r"
        using True unfolding r_def by (metis add_diff_cancel_left' add_diff_eq diff_diff_eq2 diff_diff_add add.commute)
      then show ?thesis
        using ring_list_drop [of "?len - unat sz" "pi_nwrite p" "pi_nread p"] by (simp add: pipe_list_def)
    next
      case False
      then have "?len - unat sz = 0" by (simp add: word_less_nat_alt)
      then show ?thesis using False by (simp add: pipe_list_def r_def)
    qed
    finally show ?thesis .
  qed
  ultimately show ?thesis by (simp add: pipe_list_def)
qed

theorem pipeset_size_keeps_newest_witness:
  "\<exists>p'. pipeset_size True (\<lambda>_. 0) (new_pipe (\<lambda>_. 0)) 256 = Some (0, p') \<and> pi_size p' = 256 \<and> pipe_list p' = []"
  using pipeset_size_keeps_newest [OF pipe_ok_new(1) [of "\<lambda>_. 0"], of 256 "\<lambda>_. 0"]
  by (simp add: pipe_ok_new) (simp add: new_pipe_def)

text \<open>
  \<^verbatim>\<open>fcntl(F_SETPIPE_SZ)\<close> passes the size on unchecked: any size above one page makes
  \<^verbatim>\<open>pipeset_size\<close> clear memory beyond the single page it allocated.
\<close>

theorem pipeset_size_overflows_page:
  assumes "PGSIZE < unat sz" "sz \<noteq> pi_size p"
  shows "pipeset_size True d p sz = None"
proof -
  have "sz \<noteq> 0" using assms(1) by auto
  then show ?thesis using assms by (simp add: pipeset_size_def)
qed

theorem pipeset_size_overflows_page_witness: "pipeset_size True (\<lambda>_. 0) (new_pipe (\<lambda>_. 0)) 65536 = None"
  by (rule pipeset_size_overflows_page) (simp_all add: new_pipe_def)

end
