(* ===== verification/Fifo.thy ===== *)
theory Fifo
  imports Pipe
begin

text \<open>
  Named pipes, \<^verbatim>\<open>kernel/fs/fifo.c\<close>: a table of sixteen rings found by path. The critical sections
  are modelled as in the theory \<open>Pipe\<close>. A path is a C string, a list of characters; the table keeps
  its first 255.
\<close>

section \<open>State\<close>

abbreviation FIFO_SIZE :: nat where "FIFO_SIZE \<equiv> 69632"
abbreviation MAX_FIFOS :: nat where "MAX_FIFOS \<equiv> 16"
abbreviation O_RDONLY :: nat where "O_RDONLY \<equiv> 0"
abbreviation O_WRONLY :: nat where "O_WRONLY \<equiv> 1"
abbreviation O_RDWR :: nat where "O_RDWR \<equiv> 2"
abbreviation O_ACCMODE :: nat where "O_ACCMODE \<equiv> 3"
abbreviation O_NONBLOCK :: nat where "O_NONBLOCK \<equiv> 2048"

record fifo =
  fi_data :: "nat \<Rightarrow> byte"
  fi_nread :: count
  fi_nwrite :: count
  fi_readopen :: int
  fi_writeopen :: int
  fi_path :: string
  fi_in_use :: bool

type_synonym fifo_tab = "fifo list"

definition init_fifo_table :: "fifo_tab \<Rightarrow> fifo_tab" where
  "init_fifo_table tbl =
     map (\<lambda>fi. fi\<lparr>fi_in_use := False, fi_readopen := 0, fi_writeopen := 0, fi_nread := 0, fi_nwrite := 0,
                  fi_path := []\<rparr>) tbl"

section \<open>The table\<close>

definition find_or_create_fifo :: "fifo_tab \<Rightarrow> string \<Rightarrow> nat option \<times> fifo_tab" where
  "find_or_create_fifo tbl path =
     (case find_index (\<lambda>fi. fi_in_use fi \<and> fi_path fi = path) tbl of
        Some i \<Rightarrow> (Some i, tbl)
      | None \<Rightarrow>
          (case find_index (\<lambda>fi. \<not> fi_in_use fi) tbl of
             Some i \<Rightarrow>
               (Some i, tbl[i := (tbl ! i)\<lparr>fi_in_use := True, fi_path := take 255 path, fi_readopen := 0,
                                  fi_writeopen := 0, fi_nread := 0, fi_nwrite := 0\<rparr>])
           | None \<Rightarrow> (None, tbl)))"

text \<open>The two locked sections of \<^verbatim>\<open>fifo_open\<close>: finding the ring, and entering it.\<close>

definition fifo_enter :: "fifo \<Rightarrow> nat \<Rightarrow> bool \<times> fifo" where
  "fifo_enter fi flags =
     (let access_mode = flags AND O_ACCMODE
      in if flags AND O_NONBLOCK \<noteq> 0 \<and> access_mode = O_WRONLY \<and> fi_readopen fi = 0 then (False, fi)
         else
           let fi1 = (if access_mode = O_RDONLY \<or> access_mode = O_RDWR
                      then fi\<lparr>fi_readopen := fi_readopen fi + 1\<rparr> else fi);
               fi2 = (if access_mode = O_WRONLY \<or> access_mode = O_RDWR
                      then fi1\<lparr>fi_writeopen := fi_writeopen fi1 + 1\<rparr> else fi1)
           in (True, fi2))"

definition fifo_open :: "fifo_tab \<Rightarrow> string \<Rightarrow> nat \<Rightarrow> nat option \<times> fifo_tab" where
  "fifo_open tbl path flags =
     (case find_or_create_fifo tbl path of
        (None, tbl1) \<Rightarrow> (None, tbl1)
      | (Some i, tbl1) \<Rightarrow>
          (let (entered, fi) = fifo_enter (tbl1 ! i) flags
           in (if entered then Some i else None, tbl1[i := fi])))"

definition fifo_close :: "fifo \<Rightarrow> nat \<Rightarrow> fifo \<times> chan list" where
  "fifo_close fi flags =
     (let access_mode = flags AND O_ACCMODE;
          (fi1, wk1) = (if (access_mode = O_RDONLY \<or> access_mode = O_RDWR) \<and> fi_readopen fi > 0
                        then (fi\<lparr>fi_readopen := fi_readopen fi - 1\<rparr>, [ChanNwrite]) else (fi, []));
          (fi2, wk2) = (if (access_mode = O_WRONLY \<or> access_mode = O_RDWR) \<and> fi_writeopen fi1 > 0
                        then (fi1\<lparr>fi_writeopen := fi_writeopen fi1 - 1\<rparr>, [ChanNread]) else (fi1, []));
          fi3 = (if fi_readopen fi2 = 0 \<and> fi_writeopen fi2 = 0
                 then fi2\<lparr>fi_in_use := False, fi_path := []\<rparr> else fi2)
      in (fi3, wk1 @ wk2))"

definition is_fifo_readopen_by_path :: "fifo_tab \<Rightarrow> string \<Rightarrow> bool" where
  "is_fifo_readopen_by_path tbl path =
     (case find_index (\<lambda>fi. fi_in_use fi \<and> fi_path fi = path) tbl of
        Some i \<Rightarrow> fi_readopen (tbl ! i) > 0
      | None \<Rightarrow> False)"

section \<open>Reading and writing\<close>

definition fifo_full :: "fifo \<Rightarrow> bool" where
  "fifo_full fi \<longleftrightarrow> fi_nwrite fi = fi_nread fi + 69632"

definition fifo_empty :: "fifo \<Rightarrow> bool" where
  "fifo_empty fi \<longleftrightarrow> fi_nread fi = fi_nwrite fi"

definition fifo_put :: "fifo \<Rightarrow> byte \<Rightarrow> fifo" where
  "fifo_put fi ch =
     fi\<lparr>fi_data := (fi_data fi)(unat (fi_nwrite fi) mod FIFO_SIZE := ch), fi_nwrite := fi_nwrite fi + 1\<rparr>"

definition fifo_get :: "fifo \<Rightarrow> byte \<times> fifo" where
  "fifo_get fi = (fi_data fi (unat (fi_nread fi) mod FIFO_SIZE), fi\<lparr>fi_nread := fi_nread fi + 1\<rparr>)"

function fiforead_copy :: "(nat \<Rightarrow> bool) \<Rightarrow> int \<Rightarrow> fifo \<Rightarrow> nat \<Rightarrow> byte list \<Rightarrow> nat \<times> fifo \<times> byte list" where
  "fiforead_copy dst n fi i out =
     (if int i < n
      then if fifo_empty fi then (i, fi, out)
           else let (ch, fi') = fifo_get fi
                in if dst i then fiforead_copy dst n fi' (i + 1) (out @ [ch]) else (i, fi', out)
      else (i, fi, out))"
  by pat_completeness auto
termination
  by (relation "measure (\<lambda>(dst, n, fi, i, out). nat n - i)") auto

declare fiforead_copy.simps [simp del]

text \<open>\<open>f_ok\<close>: the file is a named pipe with its ring attached.\<close>

definition fiforead ::
    "bool \<Rightarrow> bool \<Rightarrow> (nat \<Rightarrow> bool) \<Rightarrow> bool \<Rightarrow> int \<Rightarrow> fifo \<Rightarrow> pipe_out \<times> byte list \<times> fifo \<times> chan list" where
  "fiforead f_ok kil dst nonblock n fi =
     (if \<not> f_ok then (Ret (-EBADF), [], fi, [])
      else if nonblock \<and> fifo_empty fi \<and> fi_writeopen fi > 0 then (Ret (-EAGAIN), [], fi, [])
      else if fifo_empty fi \<and> fi_writeopen fi > 0
      then (if kil then (Ret (-1), [], fi, []) else (SleepOn ChanNread, [], fi, []))
      else let (i, fi', out) = fiforead_copy dst n fi 0 [] in (Ret (int i), out, fi', [ChanNwrite]))"

function fifowrite_loop ::
    "(nat \<Rightarrow> bool) \<Rightarrow> (nat \<Rightarrow> byte option) \<Rightarrow> bool \<Rightarrow> int \<Rightarrow> fifo \<Rightarrow> nat \<Rightarrow> pipe_out \<times> nat \<times> fifo \<times> chan list" where
  "fifowrite_loop kil src nonblock n fi i =
     (if int i < n
      then
        if fi_readopen fi = 0 \<or> kil i then (RetSigpipe (-EPIPE), i, fi, [])
        else if fifo_full fi
        then (if nonblock then (Ret (if i = 0 then -EAGAIN else int i), i, fi, [])
              else (SleepOn ChanNwrite, i, fi, [ChanNread]))
        else (case src i of
                None \<Rightarrow> (Ret (int i), i, fi, [ChanNread])
              | Some ch \<Rightarrow> fifowrite_loop kil src nonblock n (fifo_put fi ch) (i + 1))
      else (Ret (int i), i, fi, [ChanNread]))"
  by pat_completeness auto
termination
  by (relation "measure (\<lambda>(kil, src, nonblock, n, fi, i). nat n - i)") auto

declare fifowrite_loop.simps [simp del]

definition fifowrite ::
    "bool \<Rightarrow> (nat \<Rightarrow> bool) \<Rightarrow> (nat \<Rightarrow> byte option) \<Rightarrow> bool \<Rightarrow> int \<Rightarrow> fifo \<Rightarrow> pipe_out \<times> nat \<times> fifo \<times> chan list" where
  "fifowrite f_ok kil src nonblock n fi =
     (if \<not> f_ok then (Ret (-EBADF), 0, fi, [])
      else if fi_readopen fi = 0 then (RetSigpipe (-EPIPE), 0, fi, [])
      else if nonblock \<and> fifo_full fi then (Ret (-EAGAIN), 0, fi, [])
      else fifowrite_loop kil src nonblock n fi 0)"

section \<open>The ring of a named pipe\<close>

interpretation fifo_ring: byte_ring "mod_slot FIFO_SIZE" FIFO_SIZE "mod_window FIFO_SIZE"
  by (rule byte_ring_mod) simp

definition fifo_list :: "fifo \<Rightarrow> byte list" where
  "fifo_list fi = ring_list (mod_slot FIFO_SIZE) (fi_data fi) (fi_nread fi) (fi_nwrite fi)"

definition fifo_ok :: "fifo \<Rightarrow> bool" where
  "fifo_ok fi \<longleftrightarrow> mod_window FIFO_SIZE (fi_nread fi) \<and> length (fifo_list fi) \<le> FIFO_SIZE"

lemma fifo_window_iff: "mod_window FIFO_SIZE r \<longleftrightarrow> unat r + FIFO_SIZE \<le> 2 ^ 32"
  unfolding mod_window_def by (simp add: dvd_eq_mod_eq_0)

lemma fifo_full_iff: "fifo_full fi \<longleftrightarrow> length (fifo_list fi) = FIFO_SIZE"
  using fifo_ring.full_iff [of "fi_nwrite fi" "fi_nread fi" "fi_data fi"]
  by (simp add: fifo_full_def fifo_list_def)

lemma fifo_empty_iff: "fifo_empty fi \<longleftrightarrow> fifo_list fi = []"
  unfolding fifo_empty_def fifo_list_def ring_list_eq_Nil by auto

lemma fifo_list_put:
  assumes "fifo_ok fi" "\<not> fifo_full fi"
  shows "fifo_list (fifo_put fi ch) = fifo_list fi @ [ch]" and "fifo_ok (fifo_put fi ch)"
proof -
  have l: "length (fifo_list fi) < FIFO_SIZE" using assms fifo_full_iff by (auto simp: fifo_ok_def)
  show e: "fifo_list (fifo_put fi ch) = fifo_list fi @ [ch]"
    using fifo_ring.push [of "fi_nread fi" "fi_data fi" "fi_nwrite fi" ch] assms(1) l
    by (simp add: fifo_list_def fifo_put_def mod_slot_def fifo_ok_def)
  show "fifo_ok (fifo_put fi ch)" using assms(1) l unfolding fifo_ok_def e by (simp add: fifo_put_def)
qed

lemma fifo_list_get:
  assumes "\<not> fifo_empty fi" "fifo_get fi = (ch, fi')"
  shows "fifo_list fi = ch # fifo_list fi'"
  using assms ring_list_pop [of "fi_nwrite fi" "fi_nread fi" "mod_slot FIFO_SIZE" "fi_data fi"]
  by (auto simp: fifo_list_def fifo_get_def fifo_empty_def mod_slot_def)

lemma fifo_put_simps [simp]:
  "fi_readopen (fifo_put fi ch) = fi_readopen fi" "fi_writeopen (fifo_put fi ch) = fi_writeopen fi"
  "fi_nread (fifo_put fi ch) = fi_nread fi"
  by (simp_all add: fifo_put_def)

lemma fifowrite_loop_spec:
  assumes "fifo_ok fi" "fifowrite_loop kil src nb n fi i = (r, i', fi', wk)"
  shows "i \<le> i' \<and> (\<forall>j. i \<le> j \<and> j < i' \<longrightarrow> src j \<noteq> None) \<and>
    fifo_list fi' = fifo_list fi @ map (the \<circ> src) [i..<i'] \<and> fifo_ok fi' \<and> fi_readopen fi' = fi_readopen fi \<and>
    (r = Ret (int i') \<and> wk = [ChanNread] \<and> (n \<le> int i' \<or> src i' = None) \<or>
     int i' < n \<and> (fi_readopen fi = 0 \<or> kil i') \<and> r = RetSigpipe (-EPIPE) \<or>
     int i' < n \<and> length (fifo_list fi') = FIFO_SIZE \<and>
       r = (if nb then Ret (if i' = 0 then -EAGAIN else int i') else SleepOn ChanNwrite))"
  using assms
proof (induction kil src nb n fi i rule: fifowrite_loop.induct)
  case (1 kil src nb n fi i)
  show ?case
  proof (cases "int i < n \<and> fi_readopen fi \<noteq> 0 \<and> \<not> kil i \<and> \<not> fifo_full fi \<and> src i \<noteq> None")
    case True
    then obtain ch where ch: "src i = Some ch" by auto
    have e: "fifowrite_loop kil src nb n (fifo_put fi ch) (i + 1) = (r, i', fi', wk)"
      using "1.prems"(2) True ch by (simp add: fifowrite_loop.simps [of kil src nb n fi])
    note IH = "1.IH" [OF _ _ _ ch fifo_list_put(2) e] 
    have pre: "int i < n" "\<not> (fi_readopen fi = 0 \<or> kil i)" "\<not> fifo_full fi" using True by auto
    have l: "i + 1 \<le> i'" "fifo_list fi' = fifo_list (fifo_put fi ch) @ map (the \<circ> src) [i + 1..<i']"
      "\<forall>j. i + 1 \<le> j \<and> j < i' \<longrightarrow> src j \<noteq> None"
      using IH [OF pre "1.prems"(1) pre(3)] by auto
    have "src j \<noteq> None" if "i \<le> j" "j < i'" for j using l(3) ch that by (cases "j = i") auto
    moreover have "map (the \<circ> src) [i..<i'] = ch # map (the \<circ> src) [i + 1..<i']"
      using l(1) ch by (simp add: upt_conv_Cons)
    then have "fifo_list fi' = fifo_list fi @ map (the \<circ> src) [i..<i']"
      using l(2) fifo_list_put(1) [OF "1.prems"(1), of ch] True by simp
    ultimately show ?thesis using IH [OF pre "1.prems"(1) pre(3)] l(1) by auto
  next
    case False
    then show ?thesis
      using "1.prems" unfolding fifowrite_loop.simps [of kil src nb n fi]
      by (auto simp: fifo_full_iff split: if_splits option.splits)
  qed
qed

lemma fiforead_copy_spec:
  assumes "fiforead_copy dst n fi i out = (i', fi', out')"
  shows "i \<le> i' \<and>
    (\<exists>got lost. out' = out @ got \<and> length got = i' - i \<and> fifo_list fi = got @ lost @ fifo_list fi' \<and>
       length lost \<le> 1 \<and> (lost \<noteq> [] \<longrightarrow> \<not> dst i') \<and> (int i' < n \<and> lost = [] \<longrightarrow> fifo_list fi' = []))"
  using assms
proof (induction dst n fi i out rule: fiforead_copy.induct)
  case (1 dst n fi i out)
  show ?case
  proof (cases "int i < n \<and> \<not> fifo_empty fi")
    case True
    obtain ch q where g: "fifo_get fi = (ch, q)" by fastforce
    have l: "fifo_list fi = ch # fifo_list q" using fifo_list_get [OF _ g] True by simp
    show ?thesis
    proof (cases "dst i")
      case dst: True
      have e: "fiforead_copy dst n q (i + 1) (out @ [ch]) = (i', fi', out')"
        using "1.prems" True dst g by (simp add: fiforead_copy.simps [of dst n fi])
      from "1.IH" [OF _ _ g [symmetric] refl dst e] True obtain got lost where
        IH: "i + 1 \<le> i'" "out' = (out @ [ch]) @ got" "length got = i' - (i + 1)"
          "fifo_list q = got @ lost @ fifo_list fi'" "length lost \<le> 1" "lost \<noteq> [] \<longrightarrow> \<not> dst i'"
          "int i' < n \<and> lost = [] \<longrightarrow> fifo_list fi' = []" by blast
      then show ?thesis using l by (intro conjI exI [where x = "ch # got"] exI [where x = lost]) auto
    next
      case False
      then have "i' = i" "fi' = q" "out' = out"
        using "1.prems" True g by (auto simp: fiforead_copy.simps [of dst n fi])
      then show ?thesis using False l by (intro conjI exI [where x = "[]"] exI [where x = "[ch]"]) auto
    qed
  next
    case False
    then have "i' = i" "fi' = fi" "out' = out"
      using "1.prems" by (auto simp: fiforead_copy.simps [of dst n fi] split: if_splits)
    then show ?thesis using False fifo_empty_iff by (intro conjI exI [where x = "[]"]) auto
  qed
qed

section \<open>The table of named pipes\<close>

definition fifo_tab_ok :: "fifo_tab \<Rightarrow> bool" where
  "fifo_tab_ok tbl \<longleftrightarrow> length tbl = MAX_FIFOS \<and>
     (\<forall>i < length tbl. \<forall>j < length tbl. fi_in_use (tbl ! i) \<and> fi_in_use (tbl ! j) \<and>
        fi_path (tbl ! i) = fi_path (tbl ! j) \<longrightarrow> i = j) \<and>
     (\<forall>fi \<in> set tbl. length (fi_path fi) \<le> 255 \<and> 0 \<le> fi_readopen fi \<and> 0 \<le> fi_writeopen fi)"

lemma fifo_tab_ok_update:
  assumes ok: "fifo_tab_ok tbl" and i: "i < length tbl"
    and u: "\<And>j. j < length tbl \<Longrightarrow> j \<noteq> i \<Longrightarrow> fi_in_use (tbl ! j) \<Longrightarrow> fi_in_use fi \<Longrightarrow> fi_path (tbl ! j) \<noteq> fi_path fi"
    and fi: "length (fi_path fi) \<le> 255" "0 \<le> fi_readopen fi" "0 \<le> fi_writeopen fi"
  shows "fifo_tab_ok (tbl[i := fi])"
  unfolding fifo_tab_ok_def
proof (intro conjI allI impI ballI)
  show "length (tbl[i := fi]) = MAX_FIFOS" using ok by (simp add: fifo_tab_ok_def)
  show "a = b"
    if ab: "a < length (tbl[i := fi])" "b < length (tbl[i := fi])"
      "fi_in_use (tbl[i := fi] ! a) \<and> fi_in_use (tbl[i := fi] ! b) \<and> fi_path (tbl[i := fi] ! a) = fi_path (tbl[i := fi] ! b)"
    for a b
  proof (cases "a = i \<or> b = i")
    case True
    then show ?thesis using u [of a] u [of b] ab by (cases "a = i"; cases "b = i") auto
  next
    case False
    then show ?thesis using ok ab unfolding fifo_tab_ok_def by auto
  qed
  fix x
  assume "x \<in> set (tbl[i := fi])"
  then have "x = fi \<or> x \<in> set tbl" using set_update_subset_insert by fastforce
  then show "length (fi_path x) \<le> 255" "0 \<le> fi_readopen x" "0 \<le> fi_writeopen x"
    using fi ok by (auto simp: fifo_tab_ok_def)
qed

lemma find_or_create_spec:
  assumes ok: "fifo_tab_ok tbl" and p: "length path \<le> 255"
    and e: "find_or_create_fifo tbl path = (ri, tbl')"
  shows "fifo_tab_ok tbl' \<and>
    (case ri of None \<Rightarrow> tbl' = tbl \<and> (\<forall>fi \<in> set tbl. fi_in_use fi \<and> fi_path fi \<noteq> path)
     | Some i \<Rightarrow> i < MAX_FIFOS \<and> fi_in_use (tbl' ! i) \<and> fi_path (tbl' ! i) = path \<and>
         (\<forall>j. j \<noteq> i \<longrightarrow> tbl' ! j = tbl ! j) \<and>
         ((\<exists>fi \<in> set tbl. fi_in_use fi \<and> fi_path fi = path) \<longrightarrow> tbl' = tbl) \<and>
         ((\<forall>fi \<in> set tbl. \<not> (fi_in_use fi \<and> fi_path fi = path)) \<longrightarrow> \<not> fi_in_use (tbl ! i) \<and> fifo_list (tbl' ! i) = []))"
proof -
  have len: "length tbl = MAX_FIFOS" using ok by (simp add: fifo_tab_ok_def)
  show ?thesis
proof (cases "find_index (\<lambda>fi. fi_in_use fi \<and> fi_path fi = path) tbl")
  case (Some i)
  then have "ri = Some i" "tbl' = tbl" using e by (auto simp: find_or_create_fifo_def)
  moreover have i: "i < length tbl" "fi_in_use (tbl ! i)" "fi_path (tbl ! i) = path"
    using find_index_Some [OF Some] by auto
  moreover have "\<not> (\<forall>fi \<in> set tbl. \<not> (fi_in_use fi \<and> fi_path fi = path))" using i nth_mem by blast
  ultimately show ?thesis using ok len by (simp only: option.case) simp
next
  case None
  then have nf: "\<forall>fi \<in> set tbl. \<not> (fi_in_use fi \<and> fi_path fi = path)"
    using iffD1 [OF find_index_None None] by blast
  show ?thesis
  proof (cases "find_index (\<lambda>fi. \<not> fi_in_use fi) tbl")
    case None': None
    have "\<forall>fi \<in> set tbl. fi_in_use fi" using iffD1 [OF find_index_None None'] by blast
    moreover have "ri = None" "tbl' = tbl" using e None None' by (auto simp: find_or_create_fifo_def)
    ultimately show ?thesis using nf ok by auto
  next
    case (Some i)
    let ?fi = "(tbl ! i)\<lparr>fi_in_use := True, fi_path := path, fi_readopen := 0, fi_writeopen := 0, fi_nread := 0, fi_nwrite := 0\<rparr>"
    have r: "ri = Some i" "tbl' = tbl[i := ?fi]" using e None Some p by (auto simp: find_or_create_fifo_def)
    have i: "i < length tbl" "\<not> fi_in_use (tbl ! i)" using find_index_Some [OF Some] by auto
    have "fi_path (tbl ! j) \<noteq> path" if "j < length tbl" "fi_in_use (tbl ! j)" for j
      using nf that nth_mem by blast
    then have "fifo_tab_ok tbl'"
      unfolding r(2) by (intro fifo_tab_ok_update [OF ok i(1)]) (use p in auto)
    moreover have "fifo_list (tbl' ! i) = []" "fi_in_use (tbl' ! i)" "fi_path (tbl' ! i) = path"
      using i(1) by (simp_all add: r(2) fifo_list_def)
    ultimately show ?thesis using r i len nf by simp blast
  qed
qed
qed

section \<open>Properties\<close>

definition blank_fifo :: fifo where
  "blank_fifo = \<lparr>fi_data = (\<lambda>_. 0), fi_nread = 0, fi_nwrite = 0, fi_readopen = 0, fi_writeopen = 0,
     fi_path = [], fi_in_use = False\<rparr>"

abbreviation empty_table :: fifo_tab where
  "empty_table \<equiv> replicate MAX_FIFOS blank_fifo"

lemma empty_table_ok: "fifo_tab_ok empty_table"
  unfolding fifo_tab_ok_def by (auto simp: blank_fifo_def)

text \<open>A path of more than 255 bytes is stored truncated, so it is never found.\<close>

lemma find_or_create_long:
  assumes ok: "fifo_tab_ok tbl" and p: "255 < length path" and e: "find_or_create_fifo tbl path = (ri, tbl')"
  shows "case ri of None \<Rightarrow> tbl' = tbl \<and> (\<forall>fi \<in> set tbl. fi_in_use fi)
     | Some i \<Rightarrow> i < MAX_FIFOS \<and> \<not> fi_in_use (tbl ! i) \<and> fi_in_use (tbl' ! i) \<and> fi_path (tbl' ! i) = take 255 path \<and> (\<forall>j. j \<noteq> i \<longrightarrow> tbl' ! j = tbl ! j)"
    and "fst (find_or_create_fifo tbl' path) = Some i \<Longrightarrow> ri \<noteq> Some i"
proof -
  have len: "length tbl = MAX_FIFOS" and short: "\<forall>fi \<in> set tbl. length (fi_path fi) \<le> 255" using ok by (auto simp: fifo_tab_ok_def)
  have miss: "find_index (\<lambda>fi. fi_in_use fi \<and> fi_path fi = path) l = None" if "\<forall>fi \<in> set l. length (fi_path fi) \<le> 255" for l
    using that p by (auto simp: find_index_None)
  have e': "(ri, tbl') = (case find_index (\<lambda>fi. \<not> fi_in_use fi) tbl of
             Some i \<Rightarrow> (Some i, tbl[i := (tbl ! i)\<lparr>fi_in_use := True, fi_path := take 255 path, fi_readopen := 0,
                                  fi_writeopen := 0, fi_nread := 0, fi_nwrite := 0\<rparr>]) | None \<Rightarrow> (None, tbl))"
    using e miss [OF short] by (simp add: find_or_create_fifo_def)
  then show r: "case ri of None \<Rightarrow> tbl' = tbl \<and> (\<forall>fi \<in> set tbl. fi_in_use fi)
     | Some i \<Rightarrow> i < MAX_FIFOS \<and> \<not> fi_in_use (tbl ! i) \<and> fi_in_use (tbl' ! i) \<and> fi_path (tbl' ! i) = take 255 path \<and> (\<forall>j. j \<noteq> i \<longrightarrow> tbl' ! j = tbl ! j)"
    using len find_index_Some [of "\<lambda>fi. \<not> fi_in_use fi" tbl] by (auto simp: find_index_None split: option.splits)
  assume i: "fst (find_or_create_fifo tbl' path) = Some i"
  have "\<forall>fi \<in> set tbl'. length (fi_path fi) \<le> 255" using e' short by (auto split: option.splits dest!: set_update_subset_insert [THEN subsetD])
  then have "find_index (\<lambda>fi. \<not> fi_in_use fi) tbl' = Some i"
    using i miss [of tbl'] by (auto simp: find_or_create_fifo_def split: option.splits)
  then have "\<not> fi_in_use (tbl' ! i)" using find_index_Some [of "\<lambda>fi. \<not> fi_in_use fi" tbl' i] by blast
  then show "ri \<noteq> Some i" using r by auto
qed

text \<open>
  C21: Looking a path of at most 255 bytes up in a well-formed table returns the slot that holds it when there is
  one and changes nothing; otherwise it takes a free slot, makes it an empty ring under that path, and leaves
  all other slots alone; it fails exactly when the path is absent and all slots are in use. The table stays well
  formed, so that no two slots in use have the same path, and looking the path up again gives the same slot. A longer
  path is never found: the call takes a free slot, if there is one, and stores the path truncated, and a second call does not
  return the same slot.
\<close>

theorem find_or_create_fifo_correct:
  assumes "fifo_tab_ok tbl" "find_or_create_fifo tbl path = (ri, tbl')"
  shows "if length path \<le> 255 then fifo_tab_ok tbl' \<and> find_or_create_fifo tbl' path = (ri, tbl') \<and>
      (case ri of None \<Rightarrow> tbl' = tbl \<and> (\<forall>fi \<in> set tbl. fi_in_use fi \<and> fi_path fi \<noteq> path)
       | Some i \<Rightarrow> i < MAX_FIFOS \<and> fi_in_use (tbl' ! i) \<and> fi_path (tbl' ! i) = path \<and>
           (\<forall>j. j \<noteq> i \<longrightarrow> tbl' ! j = tbl ! j) \<and>
           ((\<exists>fi \<in> set tbl. fi_in_use fi \<and> fi_path fi = path) \<longrightarrow> tbl' = tbl) \<and>
           ((\<forall>fi \<in> set tbl. \<not> (fi_in_use fi \<and> fi_path fi = path)) \<longrightarrow> \<not> fi_in_use (tbl ! i) \<and> fifo_list (tbl' ! i) = []))
    else (case ri of None \<Rightarrow> tbl' = tbl \<and> (\<forall>fi \<in> set tbl. fi_in_use fi)
       | Some i \<Rightarrow> i < MAX_FIFOS \<and> \<not> fi_in_use (tbl ! i) \<and> fi_in_use (tbl' ! i) \<and> fi_path (tbl' ! i) = take 255 path \<and> (\<forall>j. j \<noteq> i \<longrightarrow> tbl' ! j = tbl ! j)) \<and>
      (\<forall>i. fst (find_or_create_fifo tbl' path) = Some i \<longrightarrow> ri \<noteq> Some i)"
proof (cases "length path \<le> 255")
  case True
  note s = find_or_create_spec [OF assms(1) True assms(2)]
  have "find_or_create_fifo tbl' path = (ri, tbl')"
  proof (cases ri)
    case None
    then show ?thesis using s assms(2) by simp
  next
    case (Some i)
    have ok': "fifo_tab_ok tbl'" using s by blast
    have "i < MAX_FIFOS" "fi_in_use (tbl' ! i)" "fi_path (tbl' ! i) = path"
      using s [THEN conjunct2, unfolded Some option.case] by blast+
    moreover have "length tbl' = MAX_FIFOS" using ok' unfolding fifo_tab_ok_def by blast
    ultimately have i: "i < length tbl'" "fi_in_use (tbl' ! i)" "fi_path (tbl' ! i) = path" by simp_all
    obtain j where j: "find_index (\<lambda>fi. fi_in_use fi \<and> fi_path fi = path) tbl' = Some j"
    proof (cases "find_index (\<lambda>fi. fi_in_use fi \<and> fi_path fi = path) tbl'")
      case None
      then show ?thesis using iffD1 [OF find_index_None None] nth_mem [OF i(1)] i(2,3) by blast
    qed blast
    then have "j = i" using find_index_Some [OF j] i ok' unfolding fifo_tab_ok_def by blast
    then show ?thesis using j Some by (simp add: find_or_create_fifo_def)
  qed
  then show ?thesis unfolding if_P [OF True] using s by blast
next
  case False
  then have "255 < length path" by simp
  note l = find_or_create_long [OF assms(1) this assms(2)]
  show ?thesis unfolding if_not_P [OF False] using l by blast
qed

text \<open>Witness: a new pipe in an empty table.\<close>

theorem find_or_create_fifo_correct_witness:
  "\<exists>i tbl'. find_or_create_fifo empty_table ''/tmp/f'' = (Some i, tbl') \<and> fi_path (tbl' ! i) = ''/tmp/f'' \<and>
     find_or_create_fifo tbl' ''/tmp/f'' = (Some i, tbl')"
proof -
  obtain ri tbl' where e: "find_or_create_fifo empty_table ''/tmp/f'' = (ri, tbl')" by fastforce
  note c = find_or_create_fifo_correct [OF empty_table_ok e]
  show ?thesis
  proof (cases ri)
    case None
    then have "\<forall>fi \<in> set empty_table. fi_in_use fi" using c by simp
    then show ?thesis by (simp add: blank_fifo_def)
  next
    case (Some i)
    then show ?thesis using c e by auto
  qed
qed

text \<open>
  Closing a named pipe with the flags it was opened with takes back exactly the references the
  open added, and the slot becomes free exactly when no reader and no writer is left.
\<close>

theorem fifo_open_close_balanced:
  assumes "0 \<le> fi_readopen fi" "0 \<le> fi_writeopen fi" "fifo_enter fi flags = (True, fi1)" "fifo_close fi1 flags = (fi2, wk)"
  shows "fi_readopen fi2 = fi_readopen fi \<and> fi_writeopen fi2 = fi_writeopen fi \<and> fifo_list fi2 = fifo_list fi \<and>
    (fi_in_use fi2 \<longleftrightarrow> fi_in_use fi \<and> \<not> (fi_readopen fi = 0 \<and> fi_writeopen fi = 0))"
proof -
  define am where "am = flags AND O_ACCMODE"
  consider "am = 0" | "am = 1" | "am = 2" | "am > 2" by linarith
  then show ?thesis
    using assms unfolding fifo_enter_def fifo_close_def Let_def am_def [symmetric]
    by cases (auto simp: fifo_list_def split: if_splits)
qed

theorem fifo_open_close_balanced_witness:
  "fi_readopen (fst (fifo_close (snd (fifo_enter blank_fifo O_RDWR)) O_RDWR)) = 0"
proof -
  obtain fi1 where a: "fifo_enter blank_fifo O_RDWR = (True, fi1)" by (auto simp: fifo_enter_def Let_def blank_fifo_def)
  obtain fi2 wk where b: "fifo_close fi1 O_RDWR = (fi2, wk)" by fastforce
  from fifo_open_close_balanced [OF _ _ a b] show ?thesis using a b by (simp add: blank_fifo_def)
qed

text \<open>
  While fewer than 2^32 - 69632 bytes have been read through it, a named pipe is a bounded queue:
  a critical section of \<^verbatim>\<open>fifowrite\<close> appends the bytes it consumed from the caller's buffer, at most
  as many as fit, and stops for the reason its result gives.
\<close>

theorem fifowrite_appends:
  assumes "unat (fi_nread fi) + FIFO_SIZE \<le> 2 ^ 32" "length (fifo_list fi) \<le> FIFO_SIZE"
    and "fifowrite True kil src nb n fi = (r, i', fi', wk)"
  shows "fifo_list fi' = fifo_list fi @ map (the \<circ> src) [0..<i'] \<and> length (fifo_list fi') \<le> FIFO_SIZE \<and>
    (\<forall>j \<in> {0..<i'}. src j \<noteq> None) \<and>
    (r = Ret (int i') \<and> (n \<le> int i' \<or> src i' = None) \<or>
     (fi_readopen fi = 0 \<or> kil i') \<and> r = RetSigpipe (-EPIPE) \<or>
     length (fifo_list fi') = FIFO_SIZE \<and>
       r = (if nb then Ret (if i' = 0 then -EAGAIN else int i') else SleepOn ChanNwrite))"
proof -
  have ok: "fifo_ok fi" using assms(1,2) by (simp add: fifo_ok_def fifo_window_iff)
  consider "fi_readopen fi = 0" | "fi_readopen fi \<noteq> 0" "nb" "fifo_full fi"
    | "fifowrite_loop kil src nb n fi 0 = (r, i', fi', wk)"
    using assms(3) by (auto simp: fifowrite_def split: if_splits)
  then show ?thesis
  proof cases
    case 3
    from fifowrite_loop_spec [OF ok this] show ?thesis unfolding fifo_ok_def by auto
  qed (use assms(2,3) fifo_full_iff in \<open>auto simp: fifowrite_def\<close>)
qed

theorem fifowrite_appends_witness:
  "\<exists>r i' fi' wk. fifowrite True (\<lambda>_. False) (\<lambda>j. Some (of_nat j)) False 3 (blank_fifo\<lparr>fi_readopen := 1\<rparr>) = (r, i', fi', wk) \<and>
     fifo_list fi' = map (the \<circ> (\<lambda>j. Some (of_nat j))) [0..<i']"
proof -
  let ?fi = "blank_fifo\<lparr>fi_readopen := 1\<rparr>"
  obtain r i' fi' wk where e: "fifowrite True (\<lambda>_. False) (\<lambda>j. Some (of_nat j)) False 3 ?fi = (r, i', fi', wk)"
    by (metis prod_cases4)
  have "unat (fi_nread ?fi) + FIFO_SIZE \<le> 2 ^ 32" "fifo_list ?fi = []" by (simp_all add: blank_fifo_def fifo_list_def)
  then show ?thesis using fifowrite_appends [OF _ _ e] e by simp
qed

text \<open>
  A critical section of \<^verbatim>\<open>fiforead\<close> that does not sleep delivers a prefix of the queue, in order,
  and loses at most the one byte whose copy to the caller failed.
\<close>

theorem fiforead_prefix:
  assumes "fiforead True kil dst nb n fi = (Ret c, got, fi', wk)" "0 \<le> c"
  shows "c = int (length got) \<and>
    (\<exists>lost. fifo_list fi = got @ lost @ fifo_list fi' \<and> length lost \<le> 1 \<and> (lost \<noteq> [] \<longrightarrow> \<not> dst (length got)))"
proof -
  obtain i where c: "fiforead_copy dst n fi 0 [] = (i, fi', got)" "c = int i"
    using assms by (auto simp: fiforead_def split: if_splits prod.splits)
  from fiforead_copy_spec [OF c(1)] c(2) show ?thesis by auto
qed

theorem fiforead_prefix_witness:
  "\<exists>got fi' wk. fiforead True False (\<lambda>_. True) True 4 (fifo_put blank_fifo 7) = (Ret 1, got, fi', wk) \<and> length got = 1"
proof -
  obtain got fi' wk where e: "fiforead True False (\<lambda>_. True) True 4 (fifo_put blank_fifo 7) = (Ret 1, got, fi', wk)"
    by (simp add: fiforead_def fiforead_copy.simps fifo_empty_def fifo_put_def fifo_get_def blank_fifo_def)
  from fiforead_prefix [OF e] e show ?thesis by simp
qed

text \<open>
  Once the 32-bit counters wrap, the ring of a named pipe corrupts data: its size, 17 pages, does
  not divide 2^32, so the cell after the wrap is not the next one. In the state below the ring is not
  full, and one write overwrites the oldest unread byte.
\<close>

theorem fifo_wrap_corrupts:
  "\<exists>fi. fi_nread fi = 4294901760 \<and> \<not> fifo_full fi \<and> length (fifo_list fi) = 65536 \<and>
     hd (fifo_list fi) = 0 \<and> hd (fifo_list (fifo_put fi 1)) = 1"
proof -
  define fi where "fi = blank_fifo\<lparr>fi_nread := 4294901760\<rparr>"
  have "fi_nread fi = 4294901760" "\<not> fifo_full fi" "length (fifo_list fi) = 65536"
    by (simp_all add: fi_def blank_fifo_def fifo_full_def fifo_list_def)
  moreover have "hd (fifo_list fi) = 0"
    using ring_list_pop [of 0 "4294901760" "mod_slot FIFO_SIZE" "\<lambda>_. 0"] by (simp add: fi_def blank_fifo_def fifo_list_def)
  moreover have "mod_slot FIFO_SIZE (4294901760) = 0" by (simp add: mod_slot_def)
  then have "hd (fifo_list (fifo_put fi 1)) = 1"
    using ring_list_pop [of 1 "4294901760" "mod_slot FIFO_SIZE" "(\<lambda>_. 0)(0 := 1)"]
    by (simp add: fi_def blank_fifo_def fifo_list_def fifo_put_def)
  ultimately show ?thesis by blast
qed

text \<open>
  A non-blocking open for writing of a path nobody reads fails, but leaves the slot it created in
  use with no reader and no writer, so no close will ever free it: sixteen such opens exhaust the
  table.
\<close>

theorem fifo_open_leaks_slot:
  assumes "fifo_tab_ok tbl" "length path \<le> 255"
    and "\<forall>fi \<in> set tbl. \<not> (fi_in_use fi \<and> fi_path fi = path)" "\<exists>fi \<in> set tbl. \<not> fi_in_use fi"
  shows "\<exists>i tbl'. fifo_open tbl path (O_WRONLY OR O_NONBLOCK) = (None, tbl') \<and> i < MAX_FIFOS \<and>
    \<not> fi_in_use (tbl ! i) \<and> fi_in_use (tbl' ! i) \<and> fi_readopen (tbl' ! i) = 0 \<and> fi_writeopen (tbl' ! i) = 0"
proof -
  have a: "find_index (\<lambda>fi. fi_in_use fi \<and> fi_path fi = path) tbl = None"
    using assms(3) by (intro iffD2 [OF find_index_None])
  obtain i where i: "find_index (\<lambda>fi. \<not> fi_in_use fi) tbl = Some i"
    using assms(4) find_index_None [of "\<lambda>fi. \<not> fi_in_use fi" tbl]
    by (cases "find_index (\<lambda>fi. \<not> fi_in_use fi) tbl") auto
  then have "i < length tbl" "\<not> fi_in_use (tbl ! i)" "length tbl = MAX_FIFOS"
    using find_index_Some [OF i] assms(1) by (auto simp: fifo_tab_ok_def)
  then show ?thesis
    using a i by (auto simp: fifo_open_def find_or_create_fifo_def fifo_enter_def Let_def)
qed

theorem fifo_open_leaks_slot_witness:
  "\<exists>i tbl'. fifo_open empty_table ''/tmp/f'' (O_WRONLY OR O_NONBLOCK) = (None, tbl') \<and> fi_in_use (tbl' ! i)"
  using fifo_open_leaks_slot [OF empty_table_ok, of "''/tmp/f''"] by (auto simp: blank_fifo_def)

end
