(* ===== verification/Locks.thy ===== *)
theory Locks
  imports Kbase
begin

text \<open>
  Spin locks (\<^verbatim>\<open>kernel/spinlock.c\<close>) and sleep locks (\<^verbatim>\<open>kernel/sleeplock.c\<close>). The spin lock is
  modelled at the granularity of its memory accesses: several processors run the statements of
  \<^verbatim>\<open>acquire\<close> and \<^verbatim>\<open>release\<close> interleaved (\<open>spin_step\<close>), each with its own nesting count of disabled
  interrupts. The sleep lock is modelled by its critical sections, which its spin lock makes atomic.
\<close>

section \<open>Disabling interrupts\<close>

record cpu_state =
  c_noff :: int
  c_intena :: bool
  c_intr :: bool

definition push_off :: "cpu_state \<Rightarrow> cpu_state" where
  "push_off c =
     (let old = c_intr c;
          c1 = c\<lparr>c_intr := False\<rparr>;
          c2 = (if c_noff c1 = 0 then c1\<lparr>c_intena := old\<rparr> else c1)
      in c2\<lparr>c_noff := c_noff c2 + 1\<rparr>)"

definition pop_off :: "cpu_state \<Rightarrow> cpu_state option" where
  "pop_off c =
     (if c_intr c then None
      else if c_noff c < 1 then None
      else
        let c1 = c\<lparr>c_noff := c_noff c - 1\<rparr>
        in Some (if c_noff c1 = 0 \<and> c_intena c1 then c1\<lparr>c_intr := True\<rparr> else c1))"

section \<open>Spin locks\<close>

record spinlock =
  sl_locked :: bool
  sl_cpu :: "nat option"

definition initlock :: spinlock where
  "initlock = \<lparr>sl_locked = False, sl_cpu = None\<rparr>"

definition holding :: "nat \<Rightarrow> spinlock \<Rightarrow> bool" where
  "holding me lk \<longleftrightarrow> sl_locked lk \<and> sl_cpu lk = Some me"

text \<open>
  The statements of \<^verbatim>\<open>acquire\<close> and \<^verbatim>\<open>release\<close> in order. \<open>acquire_enter\<close>: disable interrupts and check
  for a double acquire (\<open>None\<close> is the panic). \<open>acquire_swap\<close>: the atomic swap; it tells whether the
  loop is left. \<open>acquire_record\<close>: note the owner. \<open>release_clear\<close>: check the owner and clear it.
  \<open>release_unlock\<close>: the atomic store. \<^verbatim>\<open>pop_off\<close> ends the release.
\<close>

definition acquire_enter :: "nat \<Rightarrow> cpu_state \<Rightarrow> spinlock \<Rightarrow> cpu_state option" where
  "acquire_enter me c lk = (let c1 = push_off c in if holding me lk then None else Some c1)"

definition acquire_swap :: "spinlock \<Rightarrow> bool \<times> spinlock" where
  "acquire_swap lk = (\<not> sl_locked lk, lk\<lparr>sl_locked := True\<rparr>)"

definition acquire_record :: "nat \<Rightarrow> spinlock \<Rightarrow> spinlock" where
  "acquire_record me lk = lk\<lparr>sl_cpu := Some me\<rparr>"

definition release_clear :: "nat \<Rightarrow> spinlock \<Rightarrow> spinlock option" where
  "release_clear me lk = (if \<not> holding me lk then None else Some (lk\<lparr>sl_cpu := None\<rparr>))"

definition release_unlock :: "spinlock \<Rightarrow> spinlock" where
  "release_unlock lk = lk\<lparr>sl_locked := False\<rparr>"

text \<open>Run without interference, the statements are the two operations.\<close>

definition acquire :: "nat \<Rightarrow> cpu_state \<Rightarrow> spinlock \<Rightarrow> (cpu_state \<times> spinlock) option" where
  "acquire me c lk =
     (case acquire_enter me c lk of
        None \<Rightarrow> None
      | Some c1 \<Rightarrow>
          (case acquire_swap lk of
             (True, lk1) \<Rightarrow> Some (c1, acquire_record me lk1)
           | (False, lk1) \<Rightarrow> None))"

definition release :: "nat \<Rightarrow> cpu_state \<Rightarrow> spinlock \<Rightarrow> (cpu_state \<times> spinlock) option" where
  "release me c lk =
     (case release_clear me lk of
        None \<Rightarrow> None
      | Some lk1 \<Rightarrow> map_option (\<lambda>c1. (c1, release_unlock lk1)) (pop_off c))"

section \<open>Processors competing for a spin lock\<close>

datatype spin_pc = Idle | Spin | Won | Held | Leaving | Popping

record spin_sys =
  ss_lock :: spinlock
  ss_cpu :: "nat \<Rightarrow> cpu_state"
  ss_pc :: "nat \<Rightarrow> spin_pc"

inductive spin_step :: "spin_sys \<Rightarrow> spin_sys \<Rightarrow> bool" where
  spin_enter: "ss_pc s i = Idle \<Longrightarrow> acquire_enter i (ss_cpu s i) (ss_lock s) = Some c \<Longrightarrow>
    spin_step s (s\<lparr>ss_cpu := (ss_cpu s)(i := c), ss_pc := (ss_pc s)(i := Spin)\<rparr>)"
| spin_swap: "ss_pc s i = Spin \<Longrightarrow> acquire_swap (ss_lock s) = (won, lk) \<Longrightarrow>
    spin_step s (s\<lparr>ss_lock := lk, ss_pc := (ss_pc s)(i := if won then Won else Spin)\<rparr>)"
| spin_record: "ss_pc s i = Won \<Longrightarrow>
    spin_step s (s\<lparr>ss_lock := acquire_record i (ss_lock s), ss_pc := (ss_pc s)(i := Held)\<rparr>)"
| spin_clear: "ss_pc s i = Held \<Longrightarrow> release_clear i (ss_lock s) = Some lk \<Longrightarrow>
    spin_step s (s\<lparr>ss_lock := lk, ss_pc := (ss_pc s)(i := Leaving)\<rparr>)"
| spin_unlock: "ss_pc s i = Leaving \<Longrightarrow>
    spin_step s (s\<lparr>ss_lock := release_unlock (ss_lock s), ss_pc := (ss_pc s)(i := Popping)\<rparr>)"
| spin_pop: "ss_pc s i = Popping \<Longrightarrow> pop_off (ss_cpu s i) = Some c \<Longrightarrow>
    spin_step s (s\<lparr>ss_cpu := (ss_cpu s)(i := c), ss_pc := (ss_pc s)(i := Idle)\<rparr>)"

inductive_cases spin_stepE: "spin_step s s'"

definition owns :: "spin_pc \<Rightarrow> bool" where
  "owns pc \<longleftrightarrow> pc = Won \<or> pc = Held \<or> pc = Leaving"

definition owners :: "(nat \<Rightarrow> spin_pc) \<Rightarrow> nat set" where
  "owners pc = {i. owns (pc i)}"

definition lock_inv :: "spinlock \<Rightarrow> (nat \<Rightarrow> spin_pc) \<Rightarrow> bool" where
  "lock_inv lk pc \<longleftrightarrow>
     (if sl_locked lk then \<exists>i. owners pc = {i} else owners pc = {}) \<and>
     (\<forall>i. sl_cpu lk = Some i \<longleftrightarrow> pc i = Held)"

definition cpu_inv :: "spin_pc \<Rightarrow> cpu_state \<Rightarrow> bool" where
  "cpu_inv pc c \<longleftrightarrow> 0 \<le> c_noff c \<and> (pc \<noteq> Idle \<longrightarrow> 1 \<le> c_noff c \<and> \<not> c_intr c)"

definition spin_inv :: "spin_sys \<Rightarrow> bool" where
  "spin_inv s \<longleftrightarrow> lock_inv (ss_lock s) (ss_pc s) \<and> (\<forall>i. cpu_inv (ss_pc s i) (ss_cpu s i))"

lemma owners_upd: "owners (pc(i := x)) = (if owns x then insert i (owners pc) else owners pc - {i})"
  by (auto simp: owners_def)

lemma owns_simps [simp]: "owns Won" "owns Held" "owns Leaving" "\<not> owns Idle" "\<not> owns Spin" "\<not> owns Popping"
  by (simp_all add: owns_def)

lemma ownersI: "owns (pc i) \<Longrightarrow> i \<in> owners pc"
  by (simp add: owners_def)

lemma not_ownersI: "\<not> owns (pc i) \<Longrightarrow> owners pc - {i} = owners pc"
  by (simp add: owners_def)

definition spin_start :: "(nat \<Rightarrow> cpu_state) \<Rightarrow> spin_sys" where
  "spin_start cs = \<lparr>ss_lock = initlock, ss_cpu = cs, ss_pc = (\<lambda>_. Idle)\<rparr>"

lemma push_off_simps [simp]: "c_noff (push_off c) = c_noff c + 1" "\<not> c_intr (push_off c)"
  by (simp_all add: push_off_def Let_def)

lemma pop_off_noff: "pop_off c = Some c' \<Longrightarrow> c_noff c' = c_noff c - 1 \<and> 1 \<le> c_noff c"
  by (auto simp: pop_off_def Let_def split: if_splits)

lemma sole_owner:
  assumes "lock_inv lk pc" "owns (pc i)"
  shows "sl_locked lk" "owners pc = {i}"
  using assms ownersI [of pc i] by (auto simp: lock_inv_def split: if_splits)

lemma spin_inv_step:
  assumes "spin_step s s'" "spin_inv s"
  shows "spin_inv s'"
proof -
  have L: "lock_inv (ss_lock s) (ss_pc s)" and C: "\<And>i. cpu_inv (ss_pc s i) (ss_cpu s i)"
    using assms(2) by (auto simp: spin_inv_def)
  show ?thesis using assms(1)
  proof (cases rule: spin_step.cases)
    case (spin_enter i c)
    have "c = push_off (ss_cpu s i)" using spin_enter(3) by (auto simp: acquire_enter_def Let_def split: if_splits)
    then have "cpu_inv Spin c" using C [of i] by (simp add: cpu_inv_def)
    moreover have "lock_inv (ss_lock s) ((ss_pc s)(i := Spin))"
      using L spin_enter(2) not_ownersI [of "ss_pc s" i] by (auto simp: lock_inv_def owners_upd)
    ultimately show ?thesis using C spin_enter(1) by (simp add: spin_inv_def)
  next
    case (spin_swap i won lk)
    have "lock_inv lk ((ss_pc s)(i := if won then Won else Spin))"
      using L spin_swap(2,3) not_ownersI [of "ss_pc s" i]
      by (cases "sl_locked (ss_lock s)") (auto simp: lock_inv_def owners_upd acquire_swap_def)
    moreover have "cpu_inv (if won then Won else Spin) (ss_cpu s i)" using C [of i] spin_swap(2) by (simp add: cpu_inv_def)
    ultimately show ?thesis using C spin_swap(1) by (cases won) (simp_all add: spin_inv_def)
  next
    case (spin_record i)
    have "lock_inv (acquire_record i (ss_lock s)) ((ss_pc s)(i := Held))"
    proof -
      have o: "sl_locked (ss_lock s)" "owners (ss_pc s) = {i}" using sole_owner [OF L, of i] spin_record(2) by auto
      have "ss_pc s j \<noteq> Held" if "j \<noteq> i" for j
      proof -
        have "j \<notin> owners (ss_pc s)" using o(2) that by simp
        then show ?thesis by (auto simp: owners_def)
      qed
      then show ?thesis using o by (auto simp: lock_inv_def owners_upd acquire_record_def)
    qed
    moreover have "cpu_inv Held (ss_cpu s i)" using C [of i] spin_record(2) by (simp add: cpu_inv_def)
    ultimately show ?thesis using C spin_record(1) by (simp add: spin_inv_def)
  next
    case (spin_clear i lk)
    have "lock_inv lk ((ss_pc s)(i := Leaving))"
    proof -
      have o: "sl_locked (ss_lock s)" "owners (ss_pc s) = {i}" using sole_owner [OF L, of i] spin_clear(2) by auto
      have "ss_pc s j \<noteq> Held" if "j \<noteq> i" for j
      proof -
        have "j \<notin> owners (ss_pc s)" using o(2) that by simp
        then show ?thesis by (auto simp: owners_def)
      qed
      then show ?thesis
        using o spin_clear(3) by (auto simp: lock_inv_def owners_upd release_clear_def split: if_splits)
    qed
    moreover have "cpu_inv Leaving (ss_cpu s i)" using C [of i] spin_clear(2) by (simp add: cpu_inv_def)
    ultimately show ?thesis using C spin_clear(1) by (simp add: spin_inv_def)
  next
    case (spin_unlock i)
    have "lock_inv (release_unlock (ss_lock s)) ((ss_pc s)(i := Popping))"
      using L sole_owner [OF L, of i] spin_unlock(2) by (auto simp: lock_inv_def owners_upd release_unlock_def)
    moreover have "cpu_inv Popping (ss_cpu s i)" using C [of i] spin_unlock(2) by (simp add: cpu_inv_def)
    ultimately show ?thesis using C spin_unlock(1) by (simp add: spin_inv_def)
  next
    case (spin_pop i c)
    have "lock_inv (ss_lock s) ((ss_pc s)(i := Idle))"
      using L spin_pop(2) not_ownersI [of "ss_pc s" i] by (auto simp: lock_inv_def owners_upd)
    moreover have "cpu_inv Idle c" using pop_off_noff [OF spin_pop(3)] by (simp add: cpu_inv_def)
    ultimately show ?thesis using C spin_pop(1) by (simp add: spin_inv_def)
  qed
qed

lemma spin_inv_reachable:
  assumes "spin_step\<^sup>*\<^sup>* (spin_start cs) s" "\<And>i. 0 \<le> c_noff (cs i)"
  shows "spin_inv s"
  using assms(1)
proof (induction rule: rtranclp_induct)
  case base
  show ?case using assms(2) by (simp add: spin_inv_def lock_inv_def cpu_inv_def spin_start_def initlock_def owners_def)
qed (rule spin_inv_step)

text \<open>
  C22: Mutual exclusion: however the processors interleave the statements of \<^verbatim>\<open>acquire\<close> and
  \<^verbatim>\<open>release\<close>, at most one is between winning the atomic swap and the store that unlocks, it runs with
  interrupts off, and the owner check of \<^verbatim>\<open>release\<close> and the double-acquire check of \<^verbatim>\<open>acquire\<close> never
  misfire.
\<close>

theorem spinlock_mutual_exclusion:
  assumes "spin_step\<^sup>*\<^sup>* (spin_start cs) s" "\<And>i. 0 \<le> c_noff (cs i)"
  shows "(\<forall>i j. owns (ss_pc s i) \<and> owns (ss_pc s j) \<longrightarrow> i = j) \<and>
    (\<forall>i. owns (ss_pc s i) \<longrightarrow> \<not> c_intr (ss_cpu s i)) \<and>
    (\<forall>i. ss_pc s i = Idle \<longrightarrow> acquire_enter i (ss_cpu s i) (ss_lock s) \<noteq> None) \<and>
    (\<forall>i. ss_pc s i = Held \<longrightarrow> release_clear i (ss_lock s) \<noteq> None) \<and>
    (\<forall>i. ss_pc s i = Popping \<longrightarrow> pop_off (ss_cpu s i) \<noteq> None)"
proof -
  have L: "lock_inv (ss_lock s) (ss_pc s)" and C: "\<And>i. cpu_inv (ss_pc s i) (ss_cpu s i)"
    using spin_inv_reachable [OF assms] by (auto simp: spin_inv_def)
  have H: "sl_cpu (ss_lock s) = Some i \<longleftrightarrow> ss_pc s i = Held" for i using L by (simp add: lock_inv_def)
  have "i = j" if "owns (ss_pc s i)" "owns (ss_pc s j)" for i j
    using sole_owner(2) [OF L that(1)] sole_owner(2) [OF L that(2)] by simp
  moreover have "\<not> c_intr (ss_cpu s i)" if "owns (ss_pc s i)" for i
    using C [of i] that by (cases "ss_pc s i") (auto simp: cpu_inv_def)
  moreover have "acquire_enter i (ss_cpu s i) (ss_lock s) \<noteq> None" if "ss_pc s i = Idle" for i
    using H [of i] that by (simp add: acquire_enter_def holding_def)
  moreover have "release_clear i (ss_lock s) \<noteq> None" if "ss_pc s i = Held" for i
    using H [of i] that sole_owner(1) [OF L, of i] by (simp add: release_clear_def holding_def)
  moreover have "pop_off (ss_cpu s i) \<noteq> None" if "ss_pc s i = Popping" for i
    using C [of i] that by (simp add: pop_off_def cpu_inv_def Let_def)
  ultimately show ?thesis by blast
qed

definition cpus_on :: "nat \<Rightarrow> cpu_state" where
  "cpus_on = (\<lambda>_. \<lparr>c_noff = 0, c_intena = False, c_intr = True\<rparr>)"

theorem spinlock_mutual_exclusion_witness:
  "\<exists>s. spin_step (spin_start cpus_on) s \<and> ss_pc s 0 = Spin \<and> (\<forall>i j. owns (ss_pc s i) \<and> owns (ss_pc s j) \<longrightarrow> i = j)"
proof -
  let ?s = "spin_start cpus_on"
  have "ss_pc ?s 0 = Idle" "acquire_enter 0 (ss_cpu ?s 0) (ss_lock ?s) = Some (push_off (cpus_on 0))"
    by (simp_all add: spin_start_def acquire_enter_def holding_def initlock_def)
  from spin_enter [OF this] have st: "spin_step ?s
      (?s\<lparr>ss_cpu := (ss_cpu ?s)(0 := push_off (cpus_on 0)), ss_pc := (ss_pc ?s)(0 := Spin)\<rparr>)" (is "spin_step _ ?t") .
  have "0 \<le> c_noff (cpus_on i)" for i by (simp add: cpus_on_def)
  from spinlock_mutual_exclusion [OF r_into_rtranclp, OF st this] have "\<forall>i j. owns (ss_pc ?t i) \<and> owns (ss_pc ?t j) \<longrightarrow> i = j"
    by blast
  then show ?thesis using st by (intro exI [where x = ?t]) simp
qed

section \<open>Matching push and pop\<close>

primrec pop_times :: "nat \<Rightarrow> cpu_state \<Rightarrow> cpu_state option" where
  "pop_times 0 c = Some c"
| "pop_times (Suc n) c = Option.bind (pop_off c) (pop_times n)"

lemma pops:
  assumes "\<not> c_intr c" "c_noff c = int n"
  shows "pop_times n c = Some (c\<lparr>c_noff := 0, c_intr := (0 < n \<and> c_intena c)\<rparr>)"
  using assms
proof (induction n arbitrary: c)
  case (Suc n)
  show ?case
  proof (cases n)
    case 0
    then show ?thesis using Suc.prems by (cases c) (simp add: pop_off_def Let_def)
  next
    case (Suc m)
    let ?c = "c\<lparr>c_noff := c_noff c - 1\<rparr>"
    have "pop_off c = Some ?c" using Suc.prems Suc by (simp add: pop_off_def Let_def)
    moreover have "pop_times n ?c = Some (?c\<lparr>c_noff := 0, c_intr := (0 < n \<and> c_intena ?c)\<rparr>)"
      using Suc.prems by (intro Suc.IH) auto
    ultimately show ?thesis using Suc by simp
  qed
qed (cases c, simp)

lemma pushes:
  assumes "c_noff c = 0" "0 < n"
  shows "(push_off ^^ n) c = c\<lparr>c_noff := int n, c_intena := c_intr c, c_intr := False\<rparr>"
  using assms(2)
proof (induction n)
  case (Suc n)
  then show ?case using assms(1) by (cases "n = 0") (auto simp: push_off_def Let_def)
qed simp

text \<open>
  Nested \<^verbatim>\<open>push_off\<close> and \<^verbatim>\<open>pop_off\<close> match: after any number of \<^verbatim>\<open>push_off\<close> interrupts are off,
  and the same number of \<^verbatim>\<open>pop_off\<close> succeeds and restores the interrupt state and the nesting count of
  the start.
\<close>

theorem push_pop_match:
  assumes "c_noff c = 0" "0 < n"
  shows "\<not> c_intr ((push_off ^^ n) c) \<and>
    (\<exists>c'. pop_times n ((push_off ^^ n) c) = Some c' \<and> c_intr c' = c_intr c \<and> c_noff c' = 0)"
  unfolding pushes [OF assms] using pops [of "c\<lparr>c_noff := int n, c_intena := c_intr c, c_intr := False\<rparr>" n] assms
  by simp

theorem push_pop_match_witness: "\<exists>c'. pop_times 3 ((push_off ^^ 3) (cpus_on 0)) = Some c' \<and> c_intr c'"
proof -
  have "c_noff (cpus_on 0) = 0" "c_intr (cpus_on 0)" by (simp_all add: cpus_on_def)
  then show ?thesis using push_pop_match [of "cpus_on 0" 3] by auto
qed

section \<open>Sleep locks\<close>

record sleeplock =
  slk_locked :: bool
  slk_pid :: int

definition initsleeplock :: sleeplock where
  "initsleeplock = \<lparr>slk_locked = False, slk_pid = 0\<rparr>"

text \<open>
  One critical section of \<^verbatim>\<open>acquiresleep\<close>: \<open>None\<close> means that the process goes to sleep on the lock and
  will test it again when woken.
\<close>

definition acquiresleep :: "int \<Rightarrow> sleeplock \<Rightarrow> sleeplock option" where
  "acquiresleep pid lk = (if slk_locked lk then None else Some (lk\<lparr>slk_locked := True, slk_pid := pid\<rparr>))"

definition releasesleep :: "sleeplock \<Rightarrow> sleeplock" where
  "releasesleep lk = lk\<lparr>slk_locked := False, slk_pid := 0\<rparr>"

definition holdingsleep :: "int \<Rightarrow> sleeplock \<Rightarrow> bool" where
  "holdingsleep pid lk \<longleftrightarrow> slk_locked lk \<and> slk_pid lk = pid"

text \<open>
  Processes using the lock: \<open>sy_in\<close> are the processes inside, \<open>sy_asleep\<close> those asleep on it; a
  process releases only a lock that it holds, and a release wakes all sleepers.
\<close>

record sleep_sys =
  sy_lock :: sleeplock
  sy_in :: "int set"
  sy_asleep :: "int set"

inductive sleep_step :: "sleep_sys \<Rightarrow> sleep_sys \<Rightarrow> bool" where
  sleep_got: "pid \<notin> sy_in s \<union> sy_asleep s \<Longrightarrow> acquiresleep pid (sy_lock s) = Some lk \<Longrightarrow>
    sleep_step s (s\<lparr>sy_lock := lk, sy_in := insert pid (sy_in s)\<rparr>)"
| sleep_wait: "pid \<notin> sy_in s \<union> sy_asleep s \<Longrightarrow> acquiresleep pid (sy_lock s) = None \<Longrightarrow>
    sleep_step s (s\<lparr>sy_asleep := insert pid (sy_asleep s)\<rparr>)"
| sleep_done: "pid \<in> sy_in s \<Longrightarrow>
    sleep_step s (s\<lparr>sy_lock := releasesleep (sy_lock s), sy_in := sy_in s - {pid}, sy_asleep := {}\<rparr>)"

definition sleep_start :: sleep_sys where
  "sleep_start = \<lparr>sy_lock = initsleeplock, sy_in = {}, sy_asleep = {}\<rparr>"

definition sleeplock_inv :: "sleep_sys \<Rightarrow> bool" where
  "sleeplock_inv s \<longleftrightarrow>
     (if slk_locked (sy_lock s) then sy_in s = {slk_pid (sy_lock s)} else sy_in s = {} \<and> sy_asleep s = {})"

lemma sleeplock_inv_reachable: "sleep_step\<^sup>*\<^sup>* sleep_start s \<Longrightarrow> sleeplock_inv s"
proof (induction rule: rtranclp_induct)
  case base
  show ?case by (simp add: sleeplock_inv_def sleep_start_def initsleeplock_def)
next
  case (step s t)
  from step.hyps(2) show ?case
    by (cases rule: sleep_step.cases)
      (use step.IH in \<open>auto simp: sleeplock_inv_def acquiresleep_def releasesleep_def split: if_splits\<close>)
qed

text \<open>
  At most one process is inside a sleep lock, it is the one \<^verbatim>\<open>holdingsleep\<close> reports, and no process
  sleeps on a lock that is free.
\<close>

theorem sleeplock_mutual_exclusion:
  assumes "sleep_step\<^sup>*\<^sup>* sleep_start s"
  shows "(\<forall>p \<in> sy_in s. \<forall>q \<in> sy_in s. p = q) \<and> (\<forall>p. p \<in> sy_in s \<longleftrightarrow> holdingsleep p (sy_lock s)) \<and>
    (sy_asleep s \<noteq> {} \<longrightarrow> slk_locked (sy_lock s))"
  using sleeplock_inv_reachable [OF assms] by (auto simp: sleeplock_inv_def holdingsleep_def split: if_splits)

theorem sleeplock_mutual_exclusion_witness:
  "\<exists>s. sleep_step\<^sup>*\<^sup>* sleep_start s \<and> sy_in s = {7} \<and> holdingsleep 7 (sy_lock s)"
proof -
  let ?lk = "initsleeplock\<lparr>slk_locked := True, slk_pid := 7\<rparr>"
  have "sleep_step sleep_start (sleep_start\<lparr>sy_lock := ?lk, sy_in := insert 7 (sy_in sleep_start)\<rparr>)"
    by (rule sleep_got) (simp_all add: sleep_start_def acquiresleep_def initsleeplock_def)
  then have "sleep_step\<^sup>*\<^sup>* sleep_start (sleep_start\<lparr>sy_lock := ?lk, sy_in := insert 7 (sy_in sleep_start)\<rparr>)" by blast
  moreover from sleeplock_mutual_exclusion [OF this]
  have "holdingsleep 7 (sy_lock (sleep_start\<lparr>sy_lock := ?lk, sy_in := insert 7 (sy_in sleep_start)\<rparr>))" by auto
  moreover have "sy_in (sleep_start\<lparr>sy_lock := ?lk, sy_in := insert 7 (sy_in sleep_start)\<rparr>) = {7}"
    by (simp add: sleep_start_def)
  ultimately show ?thesis by blast
qed

end
