(* ===== verification/Futex.thy ===== *)
theory Futex
  imports Kbase
begin

text \<open>
  The futex queue of \<^verbatim>\<open>kernel/futex.c\<close>: a table of 2048 waiters under one spin lock. A wait is two
  critical sections, before and after the thread has been off the processor; \<open>futex_wait_enter\<close> and
  \<open>futex_wait_leave\<close> model them. Threads are numbers; the model keeps of a thread what this file
  reads and writes: its state, its wake-up time and the timeout flag. Times are unsigned 64-bit
  nanoseconds.
\<close>

section \<open>State\<close>

abbreviation FUTEX_COUNT :: nat where "FUTEX_COUNT \<equiv> 2048"
abbreviation BITSET_ANY :: "32 word" where "BITSET_ANY \<equiv> 0xffffffff"

datatype thread_state = T_UNUSED | T_USED | T_SLEEPING | T_RUNNABLE | T_RUNNING | T_ZOMBIE | T_TIMING

record thread =
  th_state :: thread_state
  th_awakeTime :: nat
  th_timeout_occurred :: bool

record futex_entry =
  fq_addr :: addr
  fq_thread :: nat
  fq_valid :: bool
  fq_bitset :: "32 word"

record futex_state =
  futex_queue :: "futex_entry list"
  fx_threads :: "nat \<Rightarrow> thread"
  waiting_count :: int

record timespec =
  tv_sec :: nat
  tv_nsec :: nat

definition timespec_ns :: "timespec \<Rightarrow> nat" where
  "timespec_ns ts = add64 (tv_sec ts * 1000000000 mod 2 ^ 64) (tv_nsec ts)"

definition futex_init :: "futex_state \<Rightarrow> futex_state" where
  "futex_init s =
     s\<lparr>waiting_count := 0,
       futex_queue := map (\<lambda>e. e\<lparr>fq_valid := False, fq_addr := 0, fq_thread := 0, fq_bitset := BITSET_ANY\<rparr>) (futex_queue s)\<rparr>"

section \<open>Waiting\<close>

text \<open>
  Entering the queue: the index of the slot taken, or \<open>None\<close>, the panic of a full queue. \<open>awake\<close> is the
  absolute wake-up time of a timed wait.
\<close>

definition futex_enter :: "futex_state \<Rightarrow> addr \<Rightarrow> nat \<Rightarrow> nat option \<Rightarrow> 32 word \<Rightarrow> (nat \<times> futex_state) option" where
  "futex_enter s a th awake bs =
     (case find_index (\<lambda>e. \<not> fq_valid e) (futex_queue s) of
        None \<Rightarrow> None
      | Some i \<Rightarrow>
          (let t = fx_threads s th;
               t' = (case awake of
                       Some w \<Rightarrow> t\<lparr>th_awakeTime := w, th_state := T_TIMING\<rparr>
                     | None \<Rightarrow> t\<lparr>th_awakeTime := 0, th_state := T_SLEEPING\<rparr>)
           in Some (i, s\<lparr>futex_queue := (futex_queue s)
                            [i := \<lparr>fq_addr = a, fq_thread = th, fq_valid = True, fq_bitset = bs\<rparr>],
                         fx_threads := (fx_threads s)(th := t'),
                         waiting_count := waiting_count s + 1\<rparr>)))"

definition futex_wait_bitset_enter ::
    "futex_state \<Rightarrow> addr \<Rightarrow> nat \<Rightarrow> timespec option \<Rightarrow> 32 word \<Rightarrow> (nat \<times> futex_state) option" where
  "futex_wait_bitset_enter s a th ts bs = futex_enter s a th (map_option timespec_ns ts) bs"

definition futex_wait_enter ::
    "futex_state \<Rightarrow> timespec \<Rightarrow> addr \<Rightarrow> nat \<Rightarrow> timespec option \<Rightarrow> (nat \<times> futex_state) option" where
  "futex_wait_enter s current_time a th ts =
     futex_enter s a th (map_option (\<lambda>t. add64 (timespec_ns t) (timespec_ns current_time)) ts) BITSET_ANY"

text \<open>Back on the processor: the slot is cleared if it is (still, or again) valid.\<close>

definition futex_wait_leave :: "futex_state \<Rightarrow> nat \<Rightarrow> futex_state" where
  "futex_wait_leave s i =
     (if fq_valid (futex_queue s ! i)
      then s\<lparr>futex_queue := (futex_queue s)[i := (futex_queue s ! i)\<lparr>fq_valid := False\<rparr>],
             waiting_count := waiting_count s - 1\<rparr>
      else s)"

section \<open>Waking\<close>

text \<open>The loop over the table: the new table and the threads woken, in the order of their slots.\<close>

fun wake_slots :: "(futex_entry \<Rightarrow> bool) \<Rightarrow> int \<Rightarrow> futex_entry list \<Rightarrow> futex_entry list \<times> nat list" where
  "wake_slots P n [] = ([], [])"
| "wake_slots P n (e # es) =
     (if n > 0
      then if fq_valid e \<and> P e
           then let (es', ts) = wake_slots P (n - 1) es in (e\<lparr>fq_valid := False\<rparr> # es', fq_thread e # ts)
           else let (es', ts) = wake_slots P n es in (e # es', ts)
      else (e # es, []))"

definition make_runnable :: "nat list \<Rightarrow> (nat \<Rightarrow> thread) \<Rightarrow> nat \<Rightarrow> thread" where
  "make_runnable ts f = fold (\<lambda>t f. f(t := (f t)\<lparr>th_state := T_RUNNABLE, th_timeout_occurred := False\<rparr>)) ts f"

definition futex_wake_bitset :: "futex_state \<Rightarrow> addr \<Rightarrow> int \<Rightarrow> 32 word \<Rightarrow> int \<times> futex_state" where
  "futex_wake_bitset s a n bs =
     (let (q, ts) = wake_slots (\<lambda>e. fq_addr e = a \<and> fq_bitset e AND bs \<noteq> 0) n (futex_queue s)
      in (int (length ts),
          s\<lparr>futex_queue := q, fx_threads := make_runnable ts (fx_threads s),
            waiting_count := waiting_count s - int (length ts)\<rparr>))"

definition futex_wake :: "futex_state \<Rightarrow> addr \<Rightarrow> int \<Rightarrow> int \<times> futex_state" where
  "futex_wake s a n =
     (let (q, ts) = wake_slots (\<lambda>e. fq_addr e = a) n (futex_queue s)
      in (int (length ts),
          s\<lparr>futex_queue := q, fx_threads := make_runnable ts (fx_threads s),
            waiting_count := waiting_count s - int (length ts)\<rparr>))"

section \<open>Requeueing\<close>

text \<open>\<^verbatim>\<open>futex_requeue\<close> stops at \<^verbatim>\<open>n == 0\<close>, so a negative \<open>n\<close> wakes every waiter; it does not count.\<close>

fun requeue_wake :: "addr \<Rightarrow> int \<Rightarrow> futex_entry list \<Rightarrow> futex_entry list \<times> nat list" where
  "requeue_wake a n [] = ([], [])"
| "requeue_wake a n (e # es) =
     (if n \<noteq> 0
      then if fq_valid e \<and> fq_addr e = a
           then let (es', ts) = requeue_wake a (n - 1) es in (e\<lparr>fq_valid := False\<rparr> # es', fq_thread e # ts)
           else let (es', ts) = requeue_wake a n es in (e # es', ts)
      else (e # es, []))"

definition futex_requeue :: "futex_state \<Rightarrow> addr \<Rightarrow> int \<Rightarrow> addr \<Rightarrow> futex_state" where
  "futex_requeue s a n newAddr =
     (let (q, ts) = requeue_wake a n (futex_queue s);
          q' = map (\<lambda>e. if fq_valid e \<and> fq_addr e = a then e\<lparr>fq_addr := newAddr\<rparr> else e) q
      in s\<lparr>futex_queue := q',
           fx_threads := fold (\<lambda>t f. f(t := (f t)\<lparr>th_state := T_RUNNABLE\<rparr>)) ts (fx_threads s)\<rparr>)"

fun move_slots :: "addr \<Rightarrow> addr \<Rightarrow> int \<Rightarrow> futex_entry list \<Rightarrow> futex_entry list \<times> nat" where
  "move_slots a newAddr n [] = ([], 0)"
| "move_slots a newAddr n (e # es) =
     (if n > 0
      then if fq_valid e \<and> fq_addr e = a
           then let (es', k) = move_slots a newAddr (n - 1) es in (e\<lparr>fq_addr := newAddr\<rparr> # es', k + 1)
           else let (es', k) = move_slots a newAddr n es in (e # es', k)
      else (e # es, 0))"

definition futex_cmp_requeue ::
    "futex_state \<Rightarrow> addr \<Rightarrow> 32 word \<Rightarrow> addr \<Rightarrow> int \<Rightarrow> int \<Rightarrow> int \<times> futex_state" where
  "futex_cmp_requeue s a expected_val newAddr nr_wake nr_requeue =
     (let (q1, ts) = wake_slots (\<lambda>e. fq_addr e = a) nr_wake (futex_queue s);
          (q2, requeued) = move_slots a newAddr nr_requeue q1
      in (int (length ts) + int requeued,
          s\<lparr>futex_queue := q2, fx_threads := make_runnable ts (fx_threads s),
            waiting_count := waiting_count s - int (length ts)\<rparr>))"

definition futex_clear :: "futex_state \<Rightarrow> nat \<Rightarrow> futex_state" where
  "futex_clear s th =
     (let hit = (\<lambda>e. fq_valid e \<and> fq_thread e = th)
      in s\<lparr>futex_queue := map (\<lambda>e. if hit e then e\<lparr>fq_valid := False\<rparr> else e) (futex_queue s),
           waiting_count := waiting_count s - int (length (filter hit (futex_queue s)))\<rparr>)"

section \<open>The queue as a list of waiters\<close>

definition waiters :: "futex_state \<Rightarrow> futex_entry list" where
  "waiters s = filter fq_valid (futex_queue s)"

definition futex_inv :: "futex_state \<Rightarrow> bool" where
  "futex_inv s \<longleftrightarrow> length (futex_queue s) = FUTEX_COUNT \<and> waiting_count s = int (length (waiters s)) \<and>
     distinct (map fq_thread (waiters s))"

lemma wake_slots_spec:
  assumes "wake_slots P n es = (es', ts)"
  shows "ts = map fq_thread (take (nat n) (filter P (filter fq_valid es))) \<and> length es' = length es \<and>
    length (filter fq_valid es') + length ts = length (filter fq_valid es) \<and>
    filter (\<lambda>e. \<not> P e) (filter fq_valid es') = filter (\<lambda>e. \<not> P e) (filter fq_valid es) \<and>
    filter P (filter fq_valid es') = drop (nat n) (filter P (filter fq_valid es))"
  using assms
proof (induction P n es arbitrary: es' ts rule: wake_slots.induct)
  case (2 P n e es)
  show ?case
  proof (cases "0 < n")
    case True
    show ?thesis
    proof (cases "fq_valid e \<and> P e")
      case hit: True
      obtain es1 ts1 where r: "wake_slots P (n - 1) es = (es1, ts1)" by fastforce
      have n: "nat n = Suc (nat (n - 1))" using True by simp
      have e: "es' = e\<lparr>fq_valid := False\<rparr> # es1" "ts = fq_thread e # ts1" using 2(3) True hit r by auto
      then show ?thesis using "2.IH"(1) [OF True hit r] hit n by auto
    next
      case False
      obtain es1 ts1 where r: "wake_slots P n es = (es1, ts1)" by fastforce
      have e: "es' = e # es1" "ts = ts1" using 2(3) True False r by auto
      then show ?thesis using "2.IH"(2) [OF True False r] False by (cases "fq_valid e") auto
    qed
  qed (use 2(3) in auto)
qed simp

definition waiting :: "futex_entry list \<Rightarrow> nat list" where
  "waiting es = map fq_thread (filter fq_valid es)"

lemma waiting_simps [simp]:
  "waiting [] = []" "waiting (e # es) = (if fq_valid e then fq_thread e # waiting es else waiting es)"
  by (simp_all add: waiting_def)

lemma wake_slots_threads:
  assumes "wake_slots P n es = (es', ts)"
  shows "set (waiting es') \<subseteq> set (waiting es) \<and>
    (distinct (waiting es) \<longrightarrow> distinct (waiting es') \<and> set (waiting es') \<inter> set ts = {} \<and> distinct ts)"
  using assms
proof (induction P n es arbitrary: es' ts rule: wake_slots.induct)
  case (2 P n e es)
  have sub: "set ts1 \<subseteq> set (waiting es)" if "wake_slots P m es = (es1, ts1)" for m es1 ts1
    using wake_slots_spec [OF that] by (auto simp: waiting_def dest: in_set_takeD)
  show ?case
  proof (cases "0 < n")
    case True
    show ?thesis
    proof (cases "fq_valid e \<and> P e")
      case hit: True
      obtain es1 ts1 where r: "wake_slots P (n - 1) es = (es1, ts1)" by fastforce
      have e: "es' = e\<lparr>fq_valid := False\<rparr> # es1" "ts = fq_thread e # ts1" using 2(3) True hit r by auto
      show ?thesis unfolding e using "2.IH"(1) [OF True hit r] hit sub [OF r] by simp blast
    next
      case False
      obtain es1 ts1 where r: "wake_slots P n es = (es1, ts1)" by fastforce
      have e: "es' = e # es1" "ts = ts1" using 2(3) True False r by auto
      show ?thesis unfolding e using "2.IH"(2) [OF True False r] sub [OF r] by (cases "fq_valid e") (simp, blast, simp)
    qed
  qed (use 2(3) in auto)
qed simp

lemma make_runnable_apply:
  "make_runnable ts f = (\<lambda>t. if t \<in> set ts then (f t)\<lparr>th_state := T_RUNNABLE, th_timeout_occurred := False\<rparr> else f t)"
  unfolding make_runnable_def by (induction ts arbitrary: f) (auto simp: fun_eq_iff)

lemma move_slots_spec:
  assumes "move_slots a b n es = (es', k)"
  shows "length es' = length es \<and> map fq_thread (filter fq_valid es') = map fq_thread (filter fq_valid es) \<and>
    k = min (nat n) (length (filter (\<lambda>e. fq_addr e = a) (filter fq_valid es))) \<and>
    (a \<noteq> b \<longrightarrow> length (filter (\<lambda>e. fq_addr e = b) (filter fq_valid es')) =
               length (filter (\<lambda>e. fq_addr e = b) (filter fq_valid es)) + k \<and>
       map fq_thread (filter (\<lambda>e. fq_addr e = a) (filter fq_valid es')) =
       map fq_thread (drop (nat n) (filter (\<lambda>e. fq_addr e = a) (filter fq_valid es))))"
  using assms
proof (induction a b n es arbitrary: es' k rule: move_slots.induct)
  case (2 a b n e es)
  show ?case
  proof (cases "0 < n")
    case True
    show ?thesis
    proof (cases "fq_valid e \<and> fq_addr e = a")
      case hit: True
      obtain es1 k1 where r: "move_slots a b (n - 1) es = (es1, k1)" by fastforce
      have n: "nat n = Suc (nat (n - 1))" using True by simp
      have e: "es' = e\<lparr>fq_addr := b\<rparr> # es1" "k = k1 + 1" using 2(3) True hit r by auto
      note IH = "2.IH"(1) [OF True hit r]
      show ?thesis unfolding e n using IH hit by auto
    next
      case False
      obtain es1 k1 where r: "move_slots a b n es = (es1, k1)" by fastforce
      have e: "es' = e # es1" "k = k1" using 2(3) True False r by auto
      show ?thesis unfolding e using "2.IH"(2) [OF True False r] False by (cases "fq_valid e") auto
    qed
  qed (use 2(3) in auto)
qed simp

section \<open>Properties\<close>

text \<open>
  Entering the futex queue takes a free slot, adds exactly one waiter with the given address and
  bit set, puts the thread to sleep (timed or not) and keeps the count of waiters right; it panics
  exactly when all 2048 slots are taken.
\<close>

theorem futex_wait_enters:
  assumes inv: "futex_inv s" and th: "th \<notin> set (map fq_thread (waiters s))"
  shows "(futex_wait_enter s now a th ts = None \<longleftrightarrow> length (waiters s) = FUTEX_COUNT) \<and>
    (\<forall>i s'. futex_wait_enter s now a th ts = Some (i, s') \<longrightarrow>
       futex_inv s' \<and> i < FUTEX_COUNT \<and> \<not> fq_valid (futex_queue s ! i) \<and>
       set (waiters s') = insert \<lparr>fq_addr = a, fq_thread = th, fq_valid = True, fq_bitset = BITSET_ANY\<rparr> (set (waiters s)) \<and>
       length (waiters s') = length (waiters s) + 1 \<and>
       th_state (fx_threads s' th) = (if ts = None then T_SLEEPING else T_TIMING) \<and>
       (\<forall>t. t \<noteq> th \<longrightarrow> fx_threads s' t = fx_threads s t))"
proof (cases "find_index (\<lambda>e. \<not> fq_valid e) (futex_queue s)")
  case None
  then have "\<forall>e \<in> set (futex_queue s). fq_valid e" using iffD1 [OF find_index_None None] by blast
  then have "waiters s = futex_queue s" unfolding waiters_def by (simp add: filter_id_conv)
  then show ?thesis using None inv by (simp add: futex_wait_enter_def futex_enter_def futex_inv_def)
next
  case (Some i)
  let ?e = "\<lparr>fq_addr = a, fq_thread = th, fq_valid = True, fq_bitset = BITSET_ANY\<rparr>"
  have i: "i < length (futex_queue s)" "\<not> fq_valid (futex_queue s ! i)" using find_index_Some [OF Some] by auto
  define l r where "l = take i (futex_queue s)" and "r = drop (Suc i) (futex_queue s)"
  have q: "futex_queue s = l @ futex_queue s ! i # r" "length l = i"
    using id_take_nth_drop [OF i(1)] i(1) by (simp_all add: l_def r_def)
  have q': "(futex_queue s)[i := ?e] = l @ ?e # r" by (subst q(1)) (simp add: q(2) list_update_append)
  have w: "waiters s = filter fq_valid l @ filter fq_valid r" unfolding waiters_def by (subst q(1)) (simp add: i(2))
  have "length (waiters s) \<noteq> FUTEX_COUNT"
  proof -
    have "length (filter fq_valid l) \<le> length l" "length (filter fq_valid r) \<le> length r" by (rule length_filter_le)+
    moreover have "length (futex_queue s) = length l + 1 + length r" using arg_cong [OF q(1), of length] by simp
    moreover have "length (waiters s) = length (filter fq_valid l) + length (filter fq_valid r)" using w by simp
    moreover have "length (futex_queue s) = FUTEX_COUNT" using inv by (simp add: futex_inv_def)
    ultimately show ?thesis by linarith
  qed
  moreover have "futex_inv s' \<and> i' < FUTEX_COUNT \<and> \<not> fq_valid (futex_queue s ! i') \<and>
       set (waiters s') = insert ?e (set (waiters s)) \<and> length (waiters s') = length (waiters s) + 1 \<and>
       th_state (fx_threads s' th) = (if ts = None then T_SLEEPING else T_TIMING) \<and>
       (\<forall>t. t \<noteq> th \<longrightarrow> fx_threads s' t = fx_threads s t)"
    if r: "futex_wait_enter s now a th ts = Some (i', s')" for i' s'
  proof -
    have "i' = i" and s': "futex_queue s' = (futex_queue s)[i := ?e]" "waiting_count s' = waiting_count s + 1"
      "th_state (fx_threads s' th) = (if ts = None then T_SLEEPING else T_TIMING)"
      "\<forall>t. t \<noteq> th \<longrightarrow> fx_threads s' t = fx_threads s t"
      using r Some by (auto simp: futex_wait_enter_def futex_enter_def Let_def split: option.splits)
    have w': "waiters s' = filter fq_valid l @ ?e # filter fq_valid r" unfolding waiters_def s'(1) q' by simp
    have "futex_inv s'"
      using inv th unfolding futex_inv_def w' w s'(2) by (auto simp: s'(1))
    then show ?thesis using w w' s'(3,4) i inv \<open>i' = i\<close> by (auto simp: futex_inv_def)
  qed
  moreover have "futex_wait_enter s now a th ts \<noteq> None"
    using Some by (simp add: futex_wait_enter_def futex_enter_def Let_def)
  ultimately show ?thesis by blast
qed

definition futex_start :: futex_state where
  "futex_start = \<lparr>futex_queue = replicate FUTEX_COUNT \<lparr>fq_addr = 0, fq_thread = 0, fq_valid = False, fq_bitset = BITSET_ANY\<rparr>,
     fx_threads = (\<lambda>_. \<lparr>th_state = T_RUNNING, th_awakeTime = 0, th_timeout_occurred = False\<rparr>), waiting_count = 0\<rparr>"

lemma futex_start_inv: "futex_inv futex_start" "waiters futex_start = []"
  by (simp_all add: futex_inv_def waiters_def futex_start_def)

theorem futex_wait_enters_witness:
  "futex_wait_enter futex_start \<lparr>tv_sec = 0, tv_nsec = 0\<rparr> 4096 7 None \<noteq> None"
  using futex_wait_enters [OF futex_start_inv(1), of 7 "\<lparr>tv_sec = 0, tv_nsec = 0\<rparr>" 4096 None]
  by (simp add: futex_start_inv)

text \<open>
  C17: \<^verbatim>\<open>futex_wake\<close> wakes the first \<^verbatim>\<open>n\<close> threads waiting on the address, in the order of their slots,
  or all of them if they are fewer, and returns how many; exactly these threads become runnable with
  the timeout flag cleared, waiters on other addresses keep waiting, and the count stays right.
\<close>

theorem futex_wake_correct:
  assumes inv: "futex_inv s" and w: "futex_wake s a n = (k, s')"
  shows "futex_inv s' \<and>
    (let at = filter (\<lambda>e. fq_addr e = a) (waiters s); woken = map fq_thread (take (nat n) at)
     in k = int (length woken) \<and>
        filter (\<lambda>e. fq_addr e = a) (waiters s') = drop (nat n) at \<and>
        filter (\<lambda>e. fq_addr e \<noteq> a) (waiters s') = filter (\<lambda>e. fq_addr e \<noteq> a) (waiters s) \<and>
        (\<forall>t. fx_threads s' t = (if t \<in> set woken
               then (fx_threads s t)\<lparr>th_state := T_RUNNABLE, th_timeout_occurred := False\<rparr> else fx_threads s t)))"
proof -
  obtain q ts where q: "wake_slots (\<lambda>e. fq_addr e = a) n (futex_queue s) = (q, ts)" by fastforce
  have s': "k = int (length ts)" "futex_queue s' = q" "fx_threads s' = make_runnable ts (fx_threads s)"
    "waiting_count s' = waiting_count s - int (length ts)"
    using w q by (auto simp: futex_wake_def)
  note sp = wake_slots_spec [OF q]
  have "futex_inv s'"
    using inv sp wake_slots_threads [OF q, unfolded waiting_def] unfolding futex_inv_def waiters_def s'(2,4) by auto
  moreover have "ts = map fq_thread (take (nat n) (filter (\<lambda>e. fq_addr e = a) (waiters s)))"
    using sp unfolding waiters_def by blast
  ultimately show ?thesis
    using sp s'(1,2,3) unfolding Let_def make_runnable_apply waiters_def by simp
qed

text \<open>
  \<^verbatim>\<open>futex_cmp_requeue\<close> wakes up to \<^verbatim>\<open>nr_wake\<close> waiters of the address and moves up to
  \<^verbatim>\<open>nr_requeue\<close> of the others to the new address; no waiter is lost or duplicated, the count stays
  right, and the result is the number of waiters woken or moved.
\<close>

theorem futex_cmp_requeue_conserves:
  assumes inv: "futex_inv s" and ab: "a \<noteq> b" and w: "futex_cmp_requeue s a v b nr_wake nr_requeue = (k, s')"
  shows "futex_inv s' \<and>
    (let at = filter (\<lambda>e. fq_addr e = a) (waiters s);
         woken = take (nat nr_wake) at; moved = take (nat nr_requeue) (drop (nat nr_wake) at)
     in k = int (length woken) + int (length moved) \<and>
        length (waiters s') + length woken = length (waiters s) \<and>
        length (filter (\<lambda>e. fq_addr e = b) (waiters s')) = length (filter (\<lambda>e. fq_addr e = b) (waiters s)) + length moved \<and>
        map fq_thread (filter (\<lambda>e. fq_addr e = a) (waiters s')) =
          map fq_thread (drop (nat nr_requeue) (drop (nat nr_wake) at)))"
proof -
  obtain q1 ts where q1: "wake_slots (\<lambda>e. fq_addr e = a) nr_wake (futex_queue s) = (q1, ts)" by fastforce
  obtain q2 m where q2: "move_slots a b nr_requeue q1 = (q2, m)" by fastforce
  have s': "k = int (length ts) + int m" "futex_queue s' = q2" "waiting_count s' = waiting_count s - int (length ts)"
    using w q1 q2 by (auto simp: futex_cmp_requeue_def)
  note sp1 = wake_slots_spec [OF q1] and sp2 = move_slots_spec [OF q2]
  have len: "length (filter fq_valid q2) = length (filter fq_valid q1)"
    using sp2 by (metis length_map)
  have "futex_inv s'"
    using inv sp1 sp2 len wake_slots_threads [OF q1, unfolded waiting_def] unfolding futex_inv_def waiters_def s'(2,3) by auto
  moreover have "filter (\<lambda>e. fq_addr e = b) (filter fq_valid q1) = filter (\<lambda>e. fq_addr e = b) (filter fq_valid (futex_queue s))"
  proof -
    have "filter (\<lambda>e. fq_addr e = b) xs = filter (\<lambda>e. fq_addr e = b) (filter (\<lambda>e. fq_addr e \<noteq> a) xs)" for xs
      using ab by (auto intro!: filter_cong)
    then show ?thesis using sp1 by metis
  qed
  ultimately show ?thesis
    using sp1 sp2 len ab s'(1,2) unfolding Let_def waiters_def by (auto simp: min_def)
qed

theorem futex_wake_correct_witness:
  "\<exists>k s'. futex_wake futex_start 4096 1 = (k, s') \<and> futex_inv s' \<and> k = 0"
proof -
  obtain k s' where w: "futex_wake futex_start 4096 1 = (k, s')" by fastforce
  from futex_wake_correct [OF futex_start_inv(1) w] show ?thesis using w by (simp add: futex_start_inv Let_def)
qed

theorem futex_cmp_requeue_conserves_witness:
  "\<exists>k s'. futex_cmp_requeue futex_start 4096 0 8192 1 1 = (k, s') \<and> futex_inv s' \<and> k = 0"
proof -
  obtain k s' where w: "futex_cmp_requeue futex_start 4096 0 8192 1 1 = (k, s')" by fastforce
  from futex_cmp_requeue_conserves [OF futex_start_inv(1) _ w] show ?thesis
    using w by (simp add: futex_start_inv Let_def)
qed

text \<open>
  \<^verbatim>\<open>futex_clear\<close> removes the waits of one thread and no other, and keeps the count right.
\<close>

theorem futex_clear_correct:
  assumes "futex_inv s"
  shows "futex_inv (futex_clear s th) \<and> waiters (futex_clear s th) = filter (\<lambda>e. fq_thread e \<noteq> th) (waiters s)"
proof -
  let ?hit = "\<lambda>e. fq_valid e \<and> fq_thread e = th"
  have w: "filter fq_valid (map (\<lambda>e. if ?hit e then e\<lparr>fq_valid := False\<rparr> else e) es) =
      filter (\<lambda>e. fq_thread e \<noteq> th) (filter fq_valid es)" for es
    by (induction es) auto
  have n: "length (filter (\<lambda>e. fq_thread e \<noteq> th) (filter fq_valid es)) + length (filter ?hit es) =
      length (filter fq_valid es)" for es
    by (induction es) auto
  have "distinct (map fq_thread (filter (\<lambda>e. fq_thread e \<noteq> th) (waiters s)))"
    using assms by (simp add: futex_inv_def distinct_map_filter)
  then show ?thesis
    using assms n [of "futex_queue s"] unfolding futex_inv_def futex_clear_def waiters_def Let_def
    by (simp add: w)
qed

theorem futex_clear_correct_witness: "futex_inv (futex_clear futex_start 3)"
  using futex_clear_correct [OF futex_start_inv(1), of 3] by simp

section \<open>Where the queue fails its purpose\<close>

text \<open>
  A thread that was woken clears its old slot again when it gets back on the processor. If the
  slot has been reused in between, this removes another thread's wait: the other thread stays asleep
  but is in no slot, and no later wake on its address finds it.
\<close>

theorem futex_slot_reuse_loses_waiter:
  assumes q: "futex_queue s = e # es" "\<not> fq_valid e" "\<forall>x \<in> set es. \<not> fq_valid x" and t: "t1 \<noteq> t2"
    and s1: "futex_wait_enter s now a t1 None = Some (i, s1)"
    and s2: "futex_wake s1 a 1 = (k, s2)"
    and s3: "futex_wait_enter s2 now b t2 None = Some (j, s3)"
    and s4: "futex_wait_leave s3 i = s4"
  shows "k = 1 \<and> waiters s4 = [] \<and> th_state (fx_threads s4 t2) = T_SLEEPING \<and> fst (futex_wake s4 b n) = 0"
proof -
  let ?e1 = "\<lparr>fq_addr = a, fq_thread = t1, fq_valid = True, fq_bitset = BITSET_ANY\<rparr>"
  let ?e2 = "\<lparr>fq_addr = b, fq_thread = t2, fq_valid = True, fq_bitset = BITSET_ANY\<rparr>"
  have es: "filter fq_valid es = []" using q(3) by (simp add: filter_empty_conv)
  have 1: "i = 0" "futex_queue s1 = ?e1 # es" using s1 q by (auto simp: futex_wait_enter_def futex_enter_def)
  have w: "wake_slots P m es = (es, [])" for P m
    using q(3) by (induction es arbitrary: m) (auto simp: Let_def)
  have 2: "k = 1" "futex_queue s2 = ?e1\<lparr>fq_valid := False\<rparr> # es" using s2 w [of _ 0] by (auto simp: futex_wake_def 1(2))
  have 3: "futex_queue s3 = ?e2 # es" "th_state (fx_threads s3 t2) = T_SLEEPING"
    using s3 2(2) by (auto simp: futex_wait_enter_def futex_enter_def)
  have 4: "futex_queue s4 = ?e2\<lparr>fq_valid := False\<rparr> # es" "fx_threads s4 = fx_threads s3"
    using s4 3(1) 1(1) by (auto simp: futex_wait_leave_def)
  have "waiters s4 = []" using es 4(1) by (simp add: waiters_def)
  moreover have "fst (futex_wake s4 b n) = 0" using w by (simp add: futex_wake_def 4(1))
  ultimately show ?thesis using 2(1) 3(2) 4(2) by simp
qed

theorem futex_slot_reuse_loses_waiter_witness:
  "\<exists>i s1 k s2 j s3 now. futex_wait_enter futex_start now 4096 1 None = Some (i, s1) \<and> futex_wake s1 4096 1 = (k, s2) \<and>
     futex_wait_enter s2 now 8192 2 None = Some (j, s3) \<and> waiters (futex_wait_leave s3 i) = [] \<and>
     th_state (fx_threads (futex_wait_leave s3 i) 2) = T_SLEEPING"
proof -
  define now where "now = \<lparr>tv_sec = 0, tv_nsec = 0\<rparr>"
  let ?e = "\<lparr>fq_addr = 0, fq_thread = 0, fq_valid = False, fq_bitset = BITSET_ANY\<rparr>"
  have q: "futex_queue futex_start = ?e # replicate 2047 ?e"
    by (simp add: futex_start_def flip: replicate_Suc)
  then obtain s1 where s1: "futex_wait_enter futex_start now 4096 1 None = Some (0, s1)"
    "futex_queue s1 = \<lparr>fq_addr = 4096, fq_thread = 1, fq_valid = True, fq_bitset = BITSET_ANY\<rparr> # replicate 2047 ?e"
    by (simp add: futex_wait_enter_def futex_enter_def)
  obtain k s2 where s2: "futex_wake s1 4096 1 = (k, s2)" by fastforce
  have "\<not> fq_valid (hd (futex_queue s2))" "futex_queue s2 \<noteq> []"
    using s2 s1(2) by (auto simp: futex_wake_def split: prod.splits)
  then obtain j s3 where s3: "futex_wait_enter s2 now 8192 2 None = Some (j, s3)"
    by (cases "futex_queue s2") (auto simp: futex_wait_enter_def futex_enter_def)
  from futex_slot_reuse_loses_waiter [OF q _ _ _ s1(1) s2 s3 refl]
  have "waiters (futex_wait_leave s3 0) = [] \<and> th_state (fx_threads (futex_wait_leave s3 0) 2) = T_SLEEPING" by simp
  then show ?thesis using s1(1) s2 s3 by blast
qed

text \<open>
  \<^verbatim>\<open>futex_requeue\<close> removes waiters from the queue without lowering \<^verbatim>\<open>waiting_count\<close>, so the count
  is wrong from the first waiter it wakes on.
\<close>

theorem futex_requeue_miscounts:
  assumes "futex_inv s" "0 < n" "\<exists>e \<in> set (waiters s). fq_addr e = a"
  shows "\<not> futex_inv (futex_requeue s a n b)"
proof -
  have ct: "waiting_count (futex_requeue s a n b) = waiting_count s"
    by (simp add: futex_requeue_def Let_def split: prod.splits)
  have le: "length (filter fq_valid (fst (requeue_wake a m es))) \<le> length (filter fq_valid es)" for m es
    by (induction a m es rule: requeue_wake.induct) (auto simp: Let_def split: prod.splits)
  have lt: "length (filter fq_valid (fst (requeue_wake a n es))) < length (filter fq_valid es)"
    if "\<exists>e \<in> set es. fq_valid e \<and> fq_addr e = a" for es
    using that
  proof (induction es)
    case (Cons e es)
    show ?case
    proof (cases "fq_valid e \<and> fq_addr e = a")
      case True
      then show ?thesis using assms(2) le [of "n - 1" es] by (auto simp: Let_def split: prod.splits)
    next
      case False
      then have "\<exists>e \<in> set es. fq_valid e \<and> fq_addr e = a" using Cons.prems by auto
      from Cons.IH [OF this] False show ?thesis using assms(2) by (auto simp: Let_def split: prod.splits)
    qed
  qed simp
  have cmp: "fq_valid \<circ> (\<lambda>e. if fq_valid e \<and> fq_addr e = a then e\<lparr>fq_addr := b\<rparr> else e) = fq_valid"
    by (auto simp: fun_eq_iff)
  have "length (waiters (futex_requeue s a n b)) = length (filter fq_valid (fst (requeue_wake a n (futex_queue s))))"
    by (cases "requeue_wake a n (futex_queue s)") (simp add: waiters_def futex_requeue_def filter_map cmp del: comp_apply)
  moreover have "\<exists>e \<in> set (futex_queue s). fq_valid e \<and> fq_addr e = a" using assms(3) by (auto simp: waiters_def)
  ultimately have "length (waiters (futex_requeue s a n b)) < length (waiters s)" using lt by (simp add: waiters_def)
  then show ?thesis using assms(1) ct by (simp add: futex_inv_def)
qed

theorem futex_requeue_miscounts_witness:
  "\<exists>s. futex_inv s \<and> \<not> futex_inv (futex_requeue s 4096 1 8192)"
proof -
  let ?e = "\<lparr>fq_addr = 0, fq_thread = 0, fq_valid = False, fq_bitset = BITSET_ANY\<rparr>"
  let ?s = "futex_start\<lparr>futex_queue := \<lparr>fq_addr = 4096, fq_thread = 1, fq_valid = True, fq_bitset = BITSET_ANY\<rparr> #
      replicate 2047 ?e, waiting_count := 1\<rparr>"
  have "futex_inv ?s" "\<exists>e \<in> set (waiters ?s). fq_addr e = 4096" by (simp_all add: futex_inv_def waiters_def)
  from futex_requeue_miscounts [OF this(1) _ this(2), of 1 8192] this(1) show ?thesis by auto
qed

end
