(* ===== verification/Vmem.thy ===== *)
theory Vmem
  imports Buddy_Props
begin

text \<open>
  Virtual memory (\<^verbatim>\<open>kernel/vmem.c\<close>, RISC-V build): three-level page tables that live in the memory
  of the page allocator. The state is the allocator, with the physical memory it manages, and
  \<^verbatim>\<open>vmem_lock\<close>; a page table entry is the 64-bit word at its address in that memory. \<open>None\<close> is a
  panic or a failed \<^verbatim>\<open>assert\<close>, also that of acquiring \<^verbatim>\<open>vmem_lock\<close> while it is held.
\<close>

unbundle bit_operations_syntax

section \<open>Words in memory\<close>

definition read64 :: "mem \<Rightarrow> addr \<Rightarrow> 64 word" where
  "read64 m a = of_nat (\<Sum>i<8. unat (m (a + i)) * 256 ^ i)"

definition write64 :: "mem \<Rightarrow> addr \<Rightarrow> 64 word \<Rightarrow> mem" where
  "write64 m a v = (\<lambda>b. if a \<le> b \<and> b < a + 8 then of_nat (unat v div 256 ^ (b - a)) else m b)"

section \<open>Page table entries\<close>

abbreviation MAXVA :: nat where "MAXVA \<equiv> 2 ^ 38"
abbreviation EINVAL :: int where "EINVAL \<equiv> 22"

type_synonym pte = "64 word"

abbreviation PTE_V :: pte where "PTE_V \<equiv> 1"
abbreviation PTE_R :: pte where "PTE_R \<equiv> 2"
abbreviation PTE_W :: pte where "PTE_W \<equiv> 4"
abbreviation PTE_X :: pte where "PTE_X \<equiv> 8"
abbreviation PTE_U :: pte where "PTE_U \<equiv> 16"
abbreviation PTE_D :: pte where "PTE_D \<equiv> 128"
abbreviation (input) PTE_WALK :: pte where "PTE_WALK \<equiv> PTE_V"

definition PA2PTE :: "addr \<Rightarrow> pte" where
  "PA2PTE pa = push_bit 10 (drop_bit 12 (of_nat pa))"

definition PTE2PA :: "pte \<Rightarrow> addr" where
  "PTE2PA e = unat (push_bit 12 (drop_bit 10 e))"

definition PTE_FLAGS :: "pte \<Rightarrow> pte" where
  "PTE_FLAGS e = e AND 0x3FF"

definition PX :: "nat \<Rightarrow> addr \<Rightarrow> nat" where
  "PX level va = drop_bit (12 + 9 * level) va AND 0x1FF"

section \<open>State\<close>

record vmem =
  vs_pm :: buddy_system
  vs_lock :: bool

definition put64 :: "buddy_system \<Rightarrow> addr \<Rightarrow> 64 word \<Rightarrow> buddy_system" where
  "put64 s a v = s\<lparr>bs_mem := write64 (bs_mem s) a v\<rparr>"

abbreviation get64 :: "buddy_system \<Rightarrow> addr \<Rightarrow> 64 word" where
  "get64 s a \<equiv> read64 (bs_mem s) a"

section \<open>Walking the page table\<close>

text \<open>
  The loop of \<^verbatim>\<open>walk_internal\<close> over the levels; the result is the address of the entry, 0 for
  \<^verbatim>\<open>NULL\<close>. The code's checks of the entry pointers against \<^verbatim>\<open>NULL\<close> never fail, the table's address is
  not zero there.
\<close>

fun walk_levels :: "buddy_system \<Rightarrow> addr \<Rightarrow> addr \<Rightarrow> bool \<Rightarrow> nat \<Rightarrow> (addr \<times> buddy_system) option" where
  "walk_levels s pt va alloc 0 = Some (pt + 8 * PX 0 va, s)"
| "walk_levels s pt va alloc (Suc l) =
     (let pte = pt + 8 * PX (Suc l) va; e = get64 s pte
      in if e AND PTE_V \<noteq> 0 then
           (if PTE2PA e = 0 then Some (0, s) else walk_levels s (PTE2PA e) va alloc l)
         else if alloc then
           (case pmem_alloc_pages s 1 of
              None \<Rightarrow> None
            | Some (pt', s') \<Rightarrow>
                (if pt' = 0 then Some (0, s')
                 else walk_levels (put64 s' pte (PA2PTE pt' OR PTE_WALK)) pt' va alloc l))
         else Some (0, s))"

definition walk_internal :: "buddy_system \<Rightarrow> addr \<Rightarrow> addr \<Rightarrow> bool \<Rightarrow> (addr \<times> buddy_system) option" where
  "walk_internal s pt va alloc =
     (if va \<ge> MAXVA then None else if pt = 0 then Some (0, s) else walk_levels s pt va alloc 2)"

definition walk :: "vmem \<Rightarrow> addr \<Rightarrow> addr \<Rightarrow> bool \<Rightarrow> (addr \<times> vmem) option" where
  "walk v pt va alloc =
     (if vs_lock v then None
      else map_option (\<lambda>(a, s). (a, v\<lparr>vs_pm := s\<rparr>)) (walk_internal (vs_pm v) pt va alloc))"

definition walkaddr :: "vmem \<Rightarrow> addr \<Rightarrow> addr \<Rightarrow> (addr \<times> vmem) option" where
  "walkaddr v pt va =
     (if va > MAXVA then None
      else case walk v pt va False of
        None \<Rightarrow> None
      | Some (pte, v1) \<Rightarrow>
          (if pte = 0 then Some (0, v1)
           else
             let e = get64 (vs_pm v1) pte
             in if e AND PTE_V = 0 then Some (0, v1)
                else if e AND PTE_U = 0 then Some (0, v1)
                else Some (PTE2PA e, v1)))"

section \<open>Mapping and unmapping\<close>

text \<open>
  The loop of \<^verbatim>\<open>mappages_internal\<close>. A failed walk is \<^verbatim>\<open>assert(0)\<close>. The loop ends because the walk
  panics beyond \<^verbatim>\<open>MAXVA\<close>.
\<close>

function map_loop :: "buddy_system \<Rightarrow> addr \<Rightarrow> addr \<Rightarrow> addr \<Rightarrow> addr \<Rightarrow> pte \<Rightarrow> (int \<times> buddy_system) option" where
  "map_loop s pt cur end pa perm =
     (case walk_internal s pt cur True of
        None \<Rightarrow> None
      | Some (pte, s1) \<Rightarrow>
          (if pte = 0 then None
           else if get64 s1 pte AND PTE_V \<noteq> 0 then Some (- EINVAL, s1)
           else
             let s2 = put64 s1 pte (PA2PTE pa OR perm OR PTE_V)
             in if cur = end then Some (1, s2) else map_loop s2 pt (cur + PGSIZE) end (pa + PGSIZE) perm))"
  by pat_completeness auto
termination
proof (relation "measure (\<lambda>(s, pt, cur, r). MAXVA - cur)", goal_cases)
  case (2 s pt cur "end" pa perm x2 pte s1 s2)
  then show ?case by (auto simp: walk_internal_def split: if_splits)
qed simp

declare map_loop.simps [simp del]

definition mappages_internal :: "buddy_system \<Rightarrow> addr \<Rightarrow> addr \<Rightarrow> addr \<Rightarrow> nat \<Rightarrow> pte \<Rightarrow> (int \<times> buddy_system) option" where
  "mappages_internal s pt va pa len perm =
     (if va \<ge> MAXVA then None
      else if pa mod PGSIZE \<noteq> 0 then None
      else map_loop s pt (PGROUNDDOWN va) (PGROUNDDOWN (sub64 (add64 va len) 1)) pa perm)"

definition mappages :: "vmem \<Rightarrow> addr \<Rightarrow> addr \<Rightarrow> addr \<Rightarrow> nat \<Rightarrow> pte \<Rightarrow> (int \<times> vmem) option" where
  "mappages v pt va pa len perm =
     (if vs_lock v then None
      else map_option (\<lambda>(r, s). (r, v\<lparr>vs_pm := s\<rparr>)) (mappages_internal (vs_pm v) pt va pa len perm))"

definition unmap_page :: "buddy_system \<Rightarrow> addr \<Rightarrow> addr \<Rightarrow> bool \<Rightarrow> buddy_system option" where
  "unmap_page s pt a do_free =
     (case walk_internal s pt a False of
        None \<Rightarrow> None
      | Some (pte, s1) \<Rightarrow>
          (if pte = 0 then Some s1
           else if get64 s1 pte AND PTE_V = 0 then Some s1
           else if PTE_FLAGS (get64 s1 pte) = PTE_V then None
           else
             let pa = PTE2PA (get64 s1 pte)
             in if do_free \<and> pa \<noteq> 0 \<and> mem_start s1 \<le> pa \<and> pa < mem_end s1
                then map_option (\<lambda>s2. put64 s2 pte 0) (pmem_free_pages s1 pa 1)
                else Some (put64 s1 pte 0)))"

function unmap_loop :: "buddy_system \<Rightarrow> addr \<Rightarrow> addr \<Rightarrow> addr \<Rightarrow> bool \<Rightarrow> buddy_system option" where
  "unmap_loop s pt a limit do_free =
     (if a < limit then
        (case unmap_page s pt a do_free of
           None \<Rightarrow> None
         | Some s' \<Rightarrow> unmap_loop s' pt (a + PGSIZE) limit do_free)
      else Some s)"
  by pat_completeness auto
termination by (relation "measure (\<lambda>(s, pt, a, limit, f). limit - a)") auto

declare unmap_loop.simps [simp del]

definition vmunmap :: "vmem \<Rightarrow> addr \<Rightarrow> addr \<Rightarrow> nat \<Rightarrow> bool \<Rightarrow> vmem option" where
  "vmunmap v pt va npages do_free =
     (if va mod PGSIZE \<noteq> 0 then None
      else if vs_lock v then None
      else map_option (\<lambda>s. v\<lparr>vs_pm := s\<rparr>) (unmap_loop (vs_pm v) pt va (add64 va (npages * PGSIZE)) do_free))"

section \<open>Whole page tables\<close>

definition uvmcreate :: "vmem \<Rightarrow> (addr \<times> vmem) option" where
  "uvmcreate v = map_option (\<lambda>(a, s). (a, v\<lparr>vs_pm := s\<rparr>)) (pmem_alloc_pages (vs_pm v) 1)"

text \<open>\<open>freewalk_from s pt i\<close> is the loop of \<^verbatim>\<open>freewalk\<close> from entry \<open>i\<close> on.\<close>

partial_function (option) freewalk_from :: "buddy_system \<Rightarrow> addr \<Rightarrow> nat \<Rightarrow> buddy_system option" where
  "freewalk_from s pt i =
     (if i < 512 then
        let e = get64 s (pt + 8 * i)
        in if e AND PTE_V \<noteq> 0 \<and> PTE_FLAGS e = PTE_V then
             Option.bind (freewalk_from s (PTE2PA e) 0)
               (\<lambda>s'. freewalk_from (put64 s' (pt + 8 * i) 0) pt (i + 1))
           else freewalk_from s pt (i + 1)
      else pmem_free_pages s pt 1)"

definition freewalk :: "vmem \<Rightarrow> addr \<Rightarrow> vmem option" where
  "freewalk v pt = map_option (\<lambda>s. v\<lparr>vs_pm := s\<rparr>) (freewalk_from (vs_pm v) pt 0)"

definition uvmfree :: "vmem \<Rightarrow> addr \<Rightarrow> addr \<Rightarrow> nat \<Rightarrow> vmem option" where
  "uvmfree v pt start sz =
     (if sz > 0 then
        Option.bind (vmunmap v pt start (PGROUNDUP sz div PGSIZE) True) (\<lambda>v1. freewalk v1 pt)
      else freewalk v pt)"

section \<open>Copying between user and kernel\<close>

text \<open>
  The kernel buffer is part of the same memory. The offset in the page is \<^verbatim>\<open>srcva - va0\<close> in 64-bit
  arithmetic, below \<^verbatim>\<open>PGSIZE\<close>, so every round copies at least one byte.
\<close>

definition page_off :: "addr \<Rightarrow> nat" where
  "page_off va = sub64 va (PGROUNDDOWN va)"

definition move_mem :: "vmem \<Rightarrow> addr \<Rightarrow> addr \<Rightarrow> nat \<Rightarrow> vmem" where
  "move_mem v dst src n = v\<lparr>vs_pm := (vs_pm v)\<lparr>bs_mem := memmove (bs_mem (vs_pm v)) dst src n\<rparr>\<rparr>"

lemma word_of_nat_mod64: "(word_of_nat (n mod 2 ^ 64) :: 64 word) = word_of_nat n"
  by (simp add: word_unat_eq_iff unat_of_nat64)

lemma page_off_eq: "page_off va = va mod PGSIZE"
proof -
  have 1: "PGROUNDDOWN va = PGROUNDDOWN (va mod 2 ^ 64)"
    by (simp only: PGROUNDDOWN_def word_of_nat_mod64)
  have 2: "PGROUNDDOWN va = va mod 2 ^ 64 div PGSIZE * PGSIZE"
    unfolding 1 by (rule PGROUNDDOWN_eq) simp
  have "sub64 va (PGROUNDDOWN va) = sub64 (va mod 2 ^ 64) (PGROUNDDOWN va)"
    unfolding sub64_def by (rule mod_add_left_eq [symmetric])
  also have "\<dots> = va mod 2 ^ 64 - PGROUNDDOWN va"
    unfolding 2 by (rule sub64_in_range) simp_all
  also have "\<dots> = va mod 2 ^ 64 mod PGSIZE"
    unfolding 2 by (simp add: minus_div_mult_eq_mod)
  also have "\<dots> = va mod PGSIZE" by (rule mod_mod_cancel) simp
  finally show ?thesis by (simp add: page_off_def)
qed

function copyin_loop :: "vmem \<Rightarrow> addr \<Rightarrow> addr \<Rightarrow> addr \<Rightarrow> nat \<Rightarrow> (int \<times> vmem) option" where
  "copyin_loop v pt dst srcva len =
     (if len > 0 then
        (case walkaddr v pt (PGROUNDDOWN srcva) of
           None \<Rightarrow> None
         | Some (pa0, v1) \<Rightarrow>
             (if pa0 = 0 then Some (-1, v1)
              else
                let n = min (PGSIZE - page_off srcva) len
                in copyin_loop (move_mem v1 dst (pa0 + page_off srcva) n) pt (dst + n)
                     (PGROUNDDOWN srcva + PGSIZE) (len - n)))
      else Some (0, v))"
  by pat_completeness auto
termination
  by (relation "measure (\<lambda>(v, pt, dst, srcva, len). len)") (auto simp: page_off_eq)

declare copyin_loop.simps [simp del]

definition copyin :: "vmem \<Rightarrow> addr \<Rightarrow> addr \<Rightarrow> addr \<Rightarrow> nat \<Rightarrow> (int \<times> vmem) option" where
  "copyin v pt dst srcva len = (if srcva > MAXVA then None else copyin_loop v pt dst srcva len)"

function copyout_loop :: "vmem \<Rightarrow> addr \<Rightarrow> addr \<Rightarrow> addr \<Rightarrow> nat \<Rightarrow> (int \<times> vmem) option" where
  "copyout_loop v pt dstva src len =
     (if len > 0 then
        (case walkaddr v pt (PGROUNDDOWN dstva) of
           None \<Rightarrow> None
         | Some (pa0, v1) \<Rightarrow>
             (if pa0 = 0 then Some (-1, v1)
              else
                let n = min (PGSIZE - page_off dstva) len
                in copyout_loop (move_mem v1 (pa0 + page_off dstva) src n) pt
                     (PGROUNDDOWN dstva + PGSIZE) (src + n) (len - n)))
      else Some (0, v))"
  by pat_completeness auto
termination
  by (relation "measure (\<lambda>(v, pt, dst, srcva, len). len)") (auto simp: page_off_eq)

declare copyout_loop.simps [simp del]

definition copyout :: "vmem \<Rightarrow> addr \<Rightarrow> addr \<Rightarrow> addr \<Rightarrow> nat \<Rightarrow> (int \<times> vmem) option" where
  "copyout v pt dstva src len = (if dstva > MAXVA then None else copyout_loop v pt dstva src len)"

text \<open>
  \<^verbatim>\<open>copyinstr\<close>: \<open>copy_chunk\<close> is its inner loop over at most \<open>n\<close> bytes of one page; it tells whether it
  met the terminating zero and how many bytes it copied before.
\<close>

fun copy_chunk :: "mem \<Rightarrow> addr \<Rightarrow> addr \<Rightarrow> nat \<Rightarrow> bool \<times> nat \<times> mem" where
  "copy_chunk m dst p 0 = (False, 0, m)"
| "copy_chunk m dst p (Suc n) =
     (if m p = 0 then (True, 0, m(dst := 0))
      else case copy_chunk (m(dst := m p)) (dst + 1) (p + 1) n of (z, k, m') \<Rightarrow> (z, Suc k, m'))"

function copyinstr_loop :: "vmem \<Rightarrow> addr \<Rightarrow> addr \<Rightarrow> addr \<Rightarrow> nat \<Rightarrow> nat \<Rightarrow> (int \<times> vmem) option" where
  "copyinstr_loop v pt dst srcva mx len =
     (if mx > 0 then
        (case walkaddr v pt (PGROUNDDOWN srcva) of
           None \<Rightarrow> None
         | Some (pa0, v1) \<Rightarrow>
             (if pa0 = 0 then Some (-1, v1)
              else
                let n = min (PGSIZE - page_off srcva) mx
                in case copy_chunk (bs_mem (vs_pm v1)) dst (pa0 + page_off srcva) n of
                     (got_null, k, m') \<Rightarrow>
                       (let v2 = v1\<lparr>vs_pm := (vs_pm v1)\<lparr>bs_mem := m'\<rparr>\<rparr>
                        in if got_null then Some (int (len + k), v2)
                           else copyinstr_loop v2 pt (dst + k) (PGROUNDDOWN srcva + PGSIZE) (mx - n) (len + k))))
      else Some (int len, v))"
  by pat_completeness auto
termination
  by (relation "measure (\<lambda>(v, pt, dst, srcva, mx, len). mx)") (auto simp: page_off_eq)

declare copyinstr_loop.simps [simp del]

definition copyinstr :: "vmem \<Rightarrow> addr \<Rightarrow> addr \<Rightarrow> addr \<Rightarrow> nat \<Rightarrow> (int \<times> vmem) option" where
  "copyinstr v pt dst srcva mx = copyinstr_loop v pt dst srcva mx 0"

definition fetchaddr :: "vmem \<Rightarrow> addr \<Rightarrow> addr \<Rightarrow> addr \<Rightarrow> (int \<times> vmem) option" where
  "fetchaddr v pt a ip = map_option (\<lambda>(r, v1). (if r \<noteq> 0 then -1 else 0, v1)) (copyin v pt ip a 8)"

definition fetchstr :: "vmem \<Rightarrow> addr \<Rightarrow> addr \<Rightarrow> addr \<Rightarrow> nat \<Rightarrow> (int \<times> vmem) option" where
  "fetchstr v pt a buf mx =
     (case copyinstr v pt buf a mx of
        None \<Rightarrow> None
      | Some (err, v1) \<Rightarrow>
          (if err < 0 then Some (err, v1)
           else map_option (\<lambda>n. (int n, v1)) (strlen (bs_mem (vs_pm v1)) buf)))"

section \<open>Growing and copying address spaces\<close>

definition uvmdealloc1 :: "vmem \<Rightarrow> addr \<Rightarrow> addr \<Rightarrow> addr \<Rightarrow> (nat \<times> vmem) option" where
  "uvmdealloc1 v pt start end =
     (if \<not> start < end then None
      else if PGROUNDUP start \<le> PGROUNDUP end then
        map_option (\<lambda>v1. (0, v1))
          (vmunmap v pt (PGROUNDUP start) (nat (int32 ((PGROUNDUP end - PGROUNDUP start) div PGSIZE) mod 2 ^ 64)) True)
      else Some (0, v))"

text \<open>
  The page-by-page loop of \<^verbatim>\<open>uvmalloc1\<close>, under \<^verbatim>\<open>vmem_lock\<close>. Its error paths call \<^verbatim>\<open>uvmdealloc1\<close>
  with the lock held.
\<close>

function alloc1_loop :: "vmem \<Rightarrow> addr \<Rightarrow> addr \<Rightarrow> addr \<Rightarrow> addr \<Rightarrow> pte \<Rightarrow> (nat \<times> vmem) option" where
  "alloc1_loop v pt start a end perm =
     (if a < end then
        (case pmem_alloc_pages (vs_pm v) 1 of
           None \<Rightarrow> None
         | Some (mem, s1) \<Rightarrow>
             (if mem = 0 then None
              else
                let s2 = s1\<lparr>bs_mem := memset (bs_mem s1) mem 0 PGSIZE\<rparr>
                in case mappages_internal s2 pt a mem PGSIZE (perm OR PTE_U OR PTE_D) of
                     None \<Rightarrow> None
                   | Some (r, s3) \<Rightarrow>
                       (if r \<noteq> 1 then
                          Option.bind (pmem_free_pages s3 mem 1)
                            (\<lambda>s4. Option.bind (uvmdealloc1 (v\<lparr>vs_pm := s4\<rparr>) pt start a)
                              (\<lambda>(_, v5). Some (0, v5)))
                        else alloc1_loop (v\<lparr>vs_pm := s3\<rparr>) pt start (a + PGSIZE) end perm)))
      else Some (1, v))"
  by pat_completeness auto
termination by (relation "measure (\<lambda>(v, pt, start, a, end, perm). end - a)") auto

declare alloc1_loop.simps [simp del]

definition uvmalloc1 :: "vmem \<Rightarrow> addr \<Rightarrow> addr \<Rightarrow> addr \<Rightarrow> pte \<Rightarrow> (nat \<times> vmem) option" where
  "uvmalloc1 v pt start end perm =
     (if vs_lock v then None
      else if \<not> start < end then None
      else
        let v0 = v\<lparr>vs_lock := True\<rparr>;
            npages = sub64 (PGROUNDUP end) start div PGSIZE;
            pages = map_option (\<lambda>(r, v1). (r, v1\<lparr>vs_lock := False\<rparr>))
        in if npages = 0 then pages (alloc1_loop v0 pt start start end perm)
           else case pmem_alloc_pages (vs_pm v0) (int32 npages) of
             None \<Rightarrow> None
           | Some (mem, s1) \<Rightarrow>
               (if mem = 0 then pages (alloc1_loop (v0\<lparr>vs_pm := s1\<rparr>) pt start start end perm)
                else
                  let s2 = s1\<lparr>bs_mem := memset (bs_mem s1) mem 0 (npages * PGSIZE)\<rparr>
                  in case mappages_internal s2 pt start mem (npages * PGSIZE) (perm OR PTE_U OR PTE_D) of
                       None \<Rightarrow> None
                     | Some (r, s3) \<Rightarrow>
                         (if r = 1 then Some (1, v\<lparr>vs_pm := s3\<rparr>)
                          else Option.bind (pmem_free_pages s3 mem (int32 npages))
                            (\<lambda>s4. pages (alloc1_loop (v0\<lparr>vs_pm := s4\<rparr>) pt start start end perm)))))"

text \<open>
  One page of \<^verbatim>\<open>uvmcopy\<close>: \<open>False\<close> is the jump to \<^verbatim>\<open>err\<close>. The result of \<^verbatim>\<open>mappages_internal\<close> is compared
  with -1, which it never returns.
\<close>

definition copy_page :: "buddy_system \<Rightarrow> addr \<Rightarrow> addr \<Rightarrow> addr \<Rightarrow> (bool \<times> buddy_system) option" where
  "copy_page s old new va =
     (case walk_internal s old va False of
        None \<Rightarrow> None
      | Some (pte, s1) \<Rightarrow>
          (if pte = 0 then Some (True, s1)
           else if get64 s1 pte AND PTE_V = 0 then Some (True, s1)
           else
             let pa = PTE2PA (get64 s1 pte); flags = PTE_FLAGS (get64 s1 pte)
             in case pmem_alloc_pages s1 1 of
                  None \<Rightarrow> None
                | Some (mem, s2) \<Rightarrow>
                    (if mem = 0 then Some (False, s2)
                     else
                       let s3 = s2\<lparr>bs_mem := memmove (bs_mem s2) mem pa PGSIZE\<rparr>
                       in case mappages_internal s3 new va mem PGSIZE flags of
                            None \<Rightarrow> None
                          | Some (r, s4) \<Rightarrow>
                              (if r = -1 then map_option (\<lambda>s5. (False, s5)) (pmem_free_pages s4 mem 1)
                               else Some (True, s4)))))"

function copy_range :: "buddy_system \<Rightarrow> addr \<Rightarrow> addr \<Rightarrow> addr \<Rightarrow> addr \<Rightarrow> (bool \<times> addr \<times> buddy_system) option" where
  "copy_range s old new i sz =
     (if i < sz then
        (case copy_page s old new i of
           None \<Rightarrow> None
         | Some (ok, s1) \<Rightarrow> if ok then copy_range s1 old new (i + PGSIZE) sz else Some (False, i, s1))
      else Some (True, i, s))"
  by pat_completeness auto
termination by (relation "measure (\<lambda>(s, old, new, i, sz). sz - i)") auto

declare copy_range.simps [simp del]

definition uvmcopy_err :: "vmem \<Rightarrow> addr \<Rightarrow> addr \<Rightarrow> (int \<times> vmem) option" where
  "uvmcopy_err v new i = map_option (\<lambda>v1. (-1, v1\<lparr>vs_lock := False\<rparr>)) (vmunmap v new 0 (i div PGSIZE) True)"

definition uvmcopy :: "vmem \<Rightarrow> addr \<Rightarrow> addr \<Rightarrow> addr \<Rightarrow> addr \<Rightarrow> (int \<times> vmem) option" where
  "uvmcopy v virt_addr old new sz =
     (if vs_lock v then None
      else
        let i = PGROUNDDOWN virt_addr;
            locked = (\<lambda>s. v\<lparr>vs_pm := s, vs_lock := True\<rparr>)
        in case (if i \<ge> 0x100 then copy_page (vs_pm v) old new 0 else Some (True, vs_pm v)) of
             None \<Rightarrow> None
           | Some (ok1, s1) \<Rightarrow>
               (if \<not> ok1 then uvmcopy_err (locked s1) new i
                else case copy_page s1 old new 0x10000036e of
                  None \<Rightarrow> None
                | Some (ok2, s2) \<Rightarrow>
                    (if \<not> ok2 then uvmcopy_err (locked s2) new i
                     else case copy_range s2 old new i sz of
                       None \<Rightarrow> None
                     | Some (ok3, i', s3) \<Rightarrow>
                         (if ok3 then Some (0, v\<lparr>vs_pm := s3\<rparr>) else uvmcopy_err (locked s3) new i'))))"

section \<open>Checking user ranges\<close>

abbreviation (input) VERIFY_READ :: int where "VERIFY_READ \<equiv> 0"
abbreviation (input) VERIFY_WRITE :: int where "VERIFY_WRITE \<equiv> 1"

text \<open>\<open>need\<close> is the permission bit the access asks for, \<^verbatim>\<open>PTE_R\<close> or \<^verbatim>\<open>PTE_W\<close>.\<close>

function range_ok :: "vmem \<Rightarrow> addr \<Rightarrow> pte \<Rightarrow> addr \<Rightarrow> addr \<Rightarrow> bool option" where
  "range_ok v pt need cur limit =
     (if cur < limit then
        (case walk v pt cur False of
           None \<Rightarrow> None
         | Some (pte, v1) \<Rightarrow>
             (if pte = 0 then Some False
              else
                let e = get64 (vs_pm v1) pte
                in if e AND PTE_V = 0 \<or> e AND PTE_U = 0 \<or> e AND need = 0 then Some False
                   else range_ok v1 pt need (cur + PGSIZE) limit))
      else Some True)"
  by pat_completeness auto
termination by (relation "measure (\<lambda>(v, pt, need, cur, limit). limit - cur)") auto

declare range_ok.simps [simp del]

definition access_ok :: "vmem \<Rightarrow> addr \<Rightarrow> int \<Rightarrow> addr \<Rightarrow> nat \<Rightarrow> bool option" where
  "access_ok v pt typ a sz =
     (if a > MAXVA \<or> add64 a sz > MAXVA \<or> add64 a sz < a then Some False
      else if typ = VERIFY_WRITE \<or> typ = VERIFY_READ then
        (if pt = 0 then Some False
         else range_ok v pt (if typ = VERIFY_WRITE then PTE_W else PTE_R) (PGROUNDDOWN a) (add64 a sz))
      else Some True)"

end
