(* ===== verification/Frames.thy ===== *)
theory Frames
  imports Buddy_Props
begin

text \<open>
  Single page frames as the clients of the allocator see them. The locale \<open>frame_source\<close> states what
  they rely on: while a frame is available, a request returns a frame that nobody uses, zeroed, and
  touches no other memory. The buddy allocator's \<^verbatim>\<open>pmem_alloc_pages(1)\<close> is an instance; the frames
  available are counted by its free lists.
\<close>

abbreviation page_bytes :: "addr \<Rightarrow> addr set" where
  "page_bytes t \<equiv> {t..<t + PGSIZE}"

locale frame_source =
  fixes ok :: "'s \<Rightarrow> bool"
    and frames :: "'s \<Rightarrow> addr set"
    and avail :: "'s \<Rightarrow> nat"
    and contents :: "'s \<Rightarrow> mem"
    and store :: "'s \<Rightarrow> mem \<Rightarrow> 's"
    and alloc :: "'s \<Rightarrow> (addr \<times> 's) option"
  assumes alloc_frame: "ok s \<Longrightarrow> 0 < avail s \<Longrightarrow>
      \<exists>a s'. alloc s = Some (a, s') \<and> ok s' \<and> PGSIZE dvd a \<and> 0 < a \<and> a < 2 ^ 64 \<and> a \<notin> frames s \<and>
        frames s' = insert a (frames s) \<and> avail s' = avail s - 1 \<and>
        contents s' = (\<lambda>x. if x \<in> page_bytes a then 0 else contents s x)"
    and store_laws [simp]: "ok (store s m) = ok s" "frames (store s m) = frames s"
      "avail (store s m) = avail s" "contents (store s m) = m"
begin

fun alloc_many :: "nat \<Rightarrow> 's \<Rightarrow> (addr list \<times> 's) option" where
  "alloc_many 0 s = Some ([], s)"
| "alloc_many (Suc n) s =
     (case alloc s of
        None \<Rightarrow> None
      | Some (a, s1) \<Rightarrow> map_option (\<lambda>(as, s2). (a # as, s2)) (alloc_many n s1))"

lemma alloc_many_frames:
  "ok s \<Longrightarrow> n \<le> avail s \<Longrightarrow>
   \<exists>as s'. alloc_many n s = Some (as, s') \<and> ok s' \<and> length as = n \<and> distinct as \<and>
     set as \<inter> frames s = {} \<and> frames s' = set as \<union> frames s \<and> avail s' = avail s - n"
proof (induction n arbitrary: s)
  case (Suc n)
  then obtain a s1 where s1: "alloc s = Some (a, s1)" "ok s1" "a \<notin> frames s" "frames s1 = insert a (frames s)"
    "avail s1 = avail s - 1" using alloc_frame [of s] by auto
  moreover have "n \<le> avail s1" using s1(5) Suc.prems by simp
  ultimately obtain as s' where "alloc_many n s1 = Some (as, s')" "ok s'" "length as = n" "distinct as"
    "set as \<inter> frames s1 = {}" "frames s' = set as \<union> frames s1" "avail s' = avail s1 - n"
    using Suc.IH [of s1] by blast
  then show ?case using s1 by auto
qed simp

end

section \<open>The frames of the buddy allocator\<close>

definition frames :: "buddy_system \<Rightarrow> addr set" where
  "frames s = page_addr s ` used_pages s"

lemma frames_aligned: "buddy_wf s \<Longrightarrow> f \<in> frames s \<Longrightarrow> PGSIZE dvd f"
  using inv_geom [of s "{}"] by (auto simp: frames_def buddy_geom_def)

definition free_count :: "buddy_system \<Rightarrow> nat" where
  "free_count s = (\<Sum>k \<le> BUDDY_MAX_ORDER. length (free_lists s k) * 2 ^ k)"

lemma free_lists_simps [simp]:
  "free_lists (set_node s i a d) = free_lists s"
  "free_lists (set_buddy_free s a k) = free_lists s"
  "free_lists (set_buddy_used s a k) = free_lists s"
  by (simp_all add: set_node_def set_buddy_free_def set_buddy_used_def Let_def)

lemma free_lists_metadata [simp]: "free_lists (set_block_metadata s a k) = free_lists s"
proof -
  have "free_lists (fold (\<lambda>i s. if f s i then set_node s (g i) a d else s) xs s) = free_lists s" for f g d xs
    by (induction xs arbitrary: s) auto
  then show ?thesis by (simp add: set_block_metadata_def Let_def)
qed

lemma free_count_push:
  "k \<le> BUDDY_MAX_ORDER \<Longrightarrow> free_lists s' = (free_lists s)(k := i # free_lists s k) \<Longrightarrow>
   free_count s' = free_count s + 2 ^ k"
proof -
  assume k: "k \<le> BUDDY_MAX_ORDER" and f: "free_lists s' = (free_lists s)(k := i # free_lists s k)"
  have "free_count s' = (\<Sum>j \<le> BUDDY_MAX_ORDER. length (free_lists s j) * 2 ^ j + (if j = k then 2 ^ k else 0))"
    unfolding free_count_def f by (rule sum.cong) auto
  then show ?thesis using k by (simp add: sum.distrib free_count_def)
qed

lemma free_count_split:
  "k \<le> j \<Longrightarrow> j \<le> BUDDY_MAX_ORDER \<Longrightarrow> free_count (split_block s a j k) + 2 ^ k = free_count s + 2 ^ j"
proof (induction j arbitrary: s)
  case 0 then show ?case by (simp add: split_block.simps)
next
  case (Suc j)
  show ?case
  proof (cases "k = Suc j")
    case True then show ?thesis by (simp add: split_block.simps)
  next
    case False
    then have k: "k \<le> j" "k < Suc j" "j \<le> BUDDY_MAX_ORDER" using Suc.prems by auto
    let ?b = "add64 a (shl64 PGSIZE j)"
    let ?s = "set_buddy_free (push_free (set_block_metadata (set_node s (page_index s ?b) ?b (int j)) ?b j) j
      (page_index s ?b)) ?b j"
    have e: "split_block s a (Suc j) k = split_block ?s a j k"
      using k(2) by (subst split_block.simps) (simp add: Let_def)
    have "free_count ?s = free_count s + 2 ^ j"
      by (rule free_count_push [OF k(3)]) (simp add: push_free_def)
    then show ?thesis using Suc.IH [OF k(1,3), of ?s] unfolding e by simp
  qed
qed

lemma free_count_cong: "free_lists s' = free_lists s \<Longrightarrow> free_count s' = free_count s"
  by (simp add: free_count_def)

lemma free_count_alloc:
  assumes "buddy_alloc s (int k) = Some (a, s')" "\<not> bs_lock s" "k \<le> BUDDY_MAX_ORDER"
    and "find_order (free_lists s) k = Some j"
  shows "free_count s' + 2 ^ k = free_count s"
proof -
  have j: "k \<le> j" "j \<le> BUDDY_MAX_ORDER" "free_lists s j \<noteq> []" using find_order_Some [OF assms(4)] by auto
  define s1 where "s1 = s\<lparr>bs_lock := True, free_lists := (free_lists s)(j := tl (free_lists s j))\<rparr>"
  define b where "b = nd_addr (bs_nodes s1 (hd (free_lists s j)))"
  have "free_lists s' = free_lists (split_block s1 b j k)"
    using assms by (auto simp: buddy_alloc_def Let_def s1_def b_def)
  then have "free_count s' = free_count (split_block s1 b j k)" by (rule free_count_cong)
  moreover have "free_count s = free_count s1 + 2 ^ j"
    by (rule free_count_push [OF j(2), of _ _ "hd (free_lists s j)"]) (use j(3) in \<open>auto simp: s1_def\<close>)
  ultimately show ?thesis using free_count_split [OF j(1,2), of s1 b] by simp
qed

lemma free_count_found: "0 < free_count s \<Longrightarrow> \<exists>j. find_order (free_lists s) 0 = Some j"
  using find_order_None [of "free_lists s" 0] by (fastforce simp: free_count_def)

lemma free_count_ge: "j \<le> BUDDY_MAX_ORDER \<Longrightarrow> free_lists s j \<noteq> [] \<Longrightarrow> 2 ^ j \<le> free_count s"
proof -
  assume j: "j \<le> BUDDY_MAX_ORDER" "free_lists s j \<noteq> []"
  then have "2 ^ j \<le> length (free_lists s j) * 2 ^ j" by (cases "free_lists s j") auto
  also have "\<dots> \<le> free_count s" unfolding free_count_def by (rule member_le_sum) (use j in auto)
  finally show ?thesis .
qed

lemma alloc_one_frame:
  assumes wf: "buddy_wf s" and l: "\<not> bs_lock s" and av: "0 < free_count s"
  shows "\<exists>a s'. pmem_alloc_pages s 1 = Some (a, s') \<and> (buddy_wf s' \<and> \<not> bs_lock s') \<and> same_region s s' \<and>
    PGSIZE dvd a \<and> 0 < a \<and> a < 2 ^ 64 \<and> a \<notin> frames s \<and> frames s' = insert a (frames s) \<and>
    free_count s' = free_count s - 1 \<and> bs_mem s' = (\<lambda>x. if x \<in> page_bytes a then 0 else bs_mem s x) \<and>
    live_blocks s' = insert (a, 0) (live_blocks s)"
proof -
  obtain j where j: "find_order (free_lists s) 0 = Some j" using free_count_found [OF av] by blast
  from alloc_effect [OF wf l _ j] obtain p s' where
    s': "buddy_alloc s (int 0) = Some (page_addr s p, s')" "buddy_wf s'" "\<not> bs_lock s'" "same_region s s'"
      "p + 2 ^ 0 \<le> total_pages s" "page_addr s p mod (PGSIZE * 2 ^ 0) = 0" "pages_of p 0 \<inter> used_pages s = {}"
      "used_pages s' = used_pages s \<union> pages_of p 0"
      "bs_mem s' = memset (bs_mem s) (page_addr s p) 0 (PGSIZE * 2 ^ 0)" 
      "live_blocks s' = insert (page_addr s p, 0) (live_blocks s)" by auto
  have geo: "0 < mem_start s" using inv_geom [OF wf] by (simp add: buddy_geom_def)
  have "get_order 1 = 0" by code_simp
  then have "pmem_alloc_pages s 1 = Some (page_addr s p, s')"
    using s'(1) geo by (simp add: pmem_alloc_pages_def Let_def)
  moreover have "free_count s' = free_count s - 1" using free_count_alloc [OF s'(1) l _ j] by simp
  moreover have lt: "page_addr s p + PGSIZE \<le> 2 ^ 64"
    using geom_addr_less [OF inv_geom [OF wf] s'(5)] by (simp add: add_mult_distrib)
  then have "bs_mem s' = (\<lambda>x. if x \<in> page_bytes (page_addr s p) then 0 else bs_mem s x)"
    unfolding s'(9) by (subst memset_apply) auto
  moreover have "frames s' = insert (page_addr s p) (frames s)"
    using s'(4,8) by (auto simp: frames_def same_region_def)
  moreover have "page_addr s p \<notin> frames s" using s'(7) by (auto simp: frames_def)
  moreover have "PGSIZE dvd page_addr s p" using s'(6) by (simp add: mod_eq_0_iff_dvd)
  ultimately show ?thesis using s'(2-4,10) geo lt by (intro exI [of _ "page_addr s p"] exI [of _ s']) auto
qed

lemma used_pages_mem [simp]: "used_pages (s\<lparr>bs_mem := m\<rparr>) = used_pages s"
  by (simp add: used_pages_def)

lemma frames_mem [simp]: "frames (s\<lparr>bs_mem := m\<rparr>) = frames s"
  by (simp add: frames_def)

lemma free_count_mem [simp]: "free_count (s\<lparr>bs_mem := m\<rparr>) = free_count s"
  by (rule free_count_cong) simp

lemma live_blocks_mem [simp]: "live_blocks (s\<lparr>bs_mem := m\<rparr>) = live_blocks s"
  by (simp add: live_blocks_def is_block_def)

lemma buddy_wf_mem [simp]: "buddy_wf (s\<lparr>bs_mem := m\<rparr>) = buddy_wf s"
  by (simp add: buddy_inv_def buddy_geom_def is_block_def block_ok_def block_aligned_def)

interpretation pmem: frame_source "\<lambda>s. buddy_wf s \<and> \<not> bs_lock s" frames free_count bs_mem
  "\<lambda>s m. s\<lparr>bs_mem := m\<rparr>" "\<lambda>s. pmem_alloc_pages s 1"
proof unfold_locales
  fix s :: buddy_system
  assume "buddy_wf s \<and> \<not> bs_lock s" "0 < free_count s"
  then show "\<exists>a s'. pmem_alloc_pages s 1 = Some (a, s') \<and> (buddy_wf s' \<and> \<not> bs_lock s') \<and> PGSIZE dvd a \<and> 0 < a \<and>
      a < 2 ^ 64 \<and> a \<notin> frames s \<and> frames s' = insert a (frames s) \<and> free_count s' = free_count s - 1 \<and>
      bs_mem s' = (\<lambda>x. if x \<in> page_bytes a then 0 else bs_mem s x)"
    using alloc_one_frame [of s] by blast
qed simp_all

section \<open>Releasing frames\<close>

lemma live_in_region:
  assumes wf: "buddy_wf s" and b: "(a, k) \<in> live_blocks s" "ptr \<in> block_bytes (a, k)"
  shows "mem_start s \<le> ptr \<and> ptr < mem_end s"
proof -
  obtain p where p: "a = page_addr s p" "is_block s p k" using b(1) by (auto simp: live_blocks_def)
  have "page_addr s p + PGSIZE * 2 ^ k = mem_start s + (p + 2 ^ k) * PGSIZE" by (simp add: add_mult_distrib)
  also have "\<dots> \<le> mem_start s + total_pages s * PGSIZE"
    using inv_block(1) [OF wf p(2)] by (intro add_left_mono mult_le_mono1) simp
  also have "\<dots> = mem_end s" using inv_geom [OF wf] by (simp add: buddy_geom_def)
  finally show ?thesis using b(2) unfolding p(1) block_bytes_def by auto
qed

lemma pmem_free_live:
  assumes wf: "buddy_wf s" and l: "\<not> bs_lock s" and b: "(a, k) \<in> live_blocks s"
    and ptr: "ptr \<in> block_bytes (a, k)" and np: "0 < npages" "npages \<le> 2 ^ k"
  shows "\<exists>s'. pmem_free_pages s ptr npages = Some s' \<and> buddy_wf s' \<and> \<not> bs_lock s' \<and> bs_mem s' = bs_mem s \<and>
    same_region s s' \<and> live_blocks s' = live_blocks s - {(a, k)} \<and>
    frames s' = frames s - {f. f \<in> block_bytes (a, k)}"
proof -
  obtain p where p: "a = page_addr s p" "is_block s p k" "page_used s p" using b by (auto simp: live_blocks_def)
  have geo: "buddy_geom s" by (rule inv_geom [OF wf])
  note ib = inv_block [OF wf p(2)]
  have pt: "p < total_pages s" "k \<le> BUDDY_MAX_ORDER" using p(2) by (auto simp: is_block_def)
  define q where "q = (ptr - mem_start s) div PGSIZE"
  have q: "q \<in> pages_of p k" using block_page [of ptr s p k] ptr unfolding p(1) q_def .
  have qt: "q < total_pages s" using q ib(1) by simp
  have rng: "mem_start s \<le> ptr" "ptr < mem_end s" using live_in_region [OF wf b ptr] by auto
  then have re: "ptr < mem_end s" "ptr < 2 ^ 64" using geo by (auto simp: buddy_geom_def)
  have ix: "page_index s ptr = q" unfolding q_def page_index_def using rng re by (simp add: sub64_in_range)
  have "pmem_free_pages s ptr npages = buddy_free s (page_addr s p) (int k)"
    using pmem_free_pages_node [OF geo p(2) ib(1,2) ib(4) [OF _ q] ix qt rng(1) re(1) np] p(3) pages_of_start
    by (auto split: if_splits)
  moreover have "a \<in> block_bytes (a, k)" by (simp add: block_bytes_def)
  note fe = free_effect [OF wf l b this, of "int k"]
  moreover have pa: "page_index s a = p" unfolding p(1) by (rule page_index_addr [OF geo]) (use pt in simp)
  moreover have "page_addr s x \<in> block_bytes (a, k) \<longleftrightarrow> x \<in> pages_of p k" for x
  proof -
    have "x * PGSIZE < (p + 2 ^ k) * PGSIZE \<longleftrightarrow> x < p + 2 ^ k" "p * PGSIZE \<le> x * PGSIZE \<longleftrightarrow> p \<le> x"
      by (simp_all only: mult_less_cancel2 mult_le_cancel2) simp_all
    moreover have "p * PGSIZE + PGSIZE * 2 ^ k = (p + 2 ^ k) * PGSIZE" by (simp add: add_mult_distrib)
    ultimately show ?thesis unfolding block_bytes_def p(1) by (simp add: add.assoc mult.commute)
  qed
  ultimately show ?thesis using pt p(1) by (auto simp: frames_def same_region_def)
qed

end
