(* ===== verification/Vmem_Inv.thy ===== *)
theory Vmem_Inv
  imports Vmem Frames
begin

text \<open>
  The invariant of a page table and what each operation does to the address space it describes.
  \<open>pt_tree m pt T\<close>: in memory \<open>m\<close> the table at \<open>pt\<close> is the tree \<open>T\<close>, a map from paths (lists of
  indices, the top level first, of length at most 2) to the addresses of the table pages.
  \<open>pte_at m T va\<close> is the leaf entry of a virtual address, 0 where there is none.
\<close>

section \<open>Words in memory\<close>

lemma digits_sum: "(\<Sum>i<n. u div b ^ i mod b * b ^ i) = u mod b ^ n" for u b :: nat
proof (induction n)
  case (Suc n)
  have "u mod b ^ Suc n = b ^ n * (u div b ^ n mod b) + u mod b ^ n"
    unfolding power_Suc2 by (rule mod_mult2_eq)
  then show ?case using Suc by simp
qed simp

lemma unat_byte_of_nat: "unat (of_nat n :: byte) = n mod 256"
  by (simp add: unsigned_of_nat take_bit_eq_mod)

lemma read_write64 [simp]: "read64 (write64 m a v) a = v"
proof -
  have "(\<Sum>i<8. unat (write64 m a v (a + i)) * 256 ^ i) = (\<Sum>i<8. unat v div 256 ^ i mod 256 * 256 ^ i)"
    by (rule sum.cong) (simp_all add: write64_def unat_byte_of_nat)
  also have "\<dots> = unat v mod 256 ^ 8" by (rule digits_sum)
  also have "\<dots> = unat v" using unsigned_less [of v, where 'a = nat] by simp
  finally show ?thesis by (simp add: read64_def)
qed

lemma read64_cong: "(\<And>i. i < 8 \<Longrightarrow> m' (a + i) = m (a + i)) \<Longrightarrow> read64 m' a = read64 m a"
  by (simp add: read64_def)

lemma read_write64_other: "a + 8 \<le> b \<or> b + 8 \<le> a \<Longrightarrow> read64 (write64 m a v) b = read64 m b"
  by (rule read64_cong) (auto simp: write64_def)

lemma write64_other: "b < a \<or> a + 8 \<le> b \<Longrightarrow> write64 m a v b = m b"
  by (auto simp: write64_def)

lemma read64_zero: "(\<And>i. i < 8 \<Longrightarrow> m (a + i) = 0) \<Longrightarrow> read64 m a = 0"
  by (simp add: read64_def)

section \<open>Entries\<close>

lemma PX_mod: "PX l va = va div 2 ^ (12 + 9 * l) mod 512"
proof -
  have "x AND 0x1FF = x mod 512" for x :: nat
    using take_bit_eq_mask [of 9 x] by (simp add: take_bit_eq_mod mask_eq_exp_minus_1)
  then show ?thesis by (simp add: PX_def drop_bit_eq_div)
qed

lemma PX_less [simp]: "PX l va < 512"
  by (simp add: PX_mod)

lemma PTE2PA_aligned: "PGSIZE dvd PTE2PA e"
proof -
  have "PTE2PA e = unat (drop_bit 10 e) * 2 ^ 12 mod 2 ^ 64"
    by (simp only: PTE2PA_def unsigned_push_bit_eq) (simp add: push_bit_eq_mult take_bit_eq_mod)
  moreover have "(4096::nat) dvd x * 4096 mod 2 ^ 64" for x by (simp add: dvd_mod)
  ultimately show ?thesis by simp
qed

lemma PTE2PA_PA2PTE:
  assumes pa: "PGSIZE dvd pa" "pa < 2 ^ 64" and f: "f AND NOT 0x3FF = 0"
  shows "PTE2PA (PA2PTE pa OR f) = pa"
proof -
  have f10: "\<not> bit f n" if "10 \<le> n" for n
  proof
    assume b: "bit f n"
    then have n: "n < 64" using bit_imp_le_length by fastforce
    have "\<not> bit (0x3FF :: pte) n"
    proof -
      have "(0x3FF :: pte) = mask 10" by (simp add: mask_eq_exp_minus_1)
      then show ?thesis using that by (simp only: bit_mask_iff) simp
    qed
    then have "bit (f AND NOT 0x3FF) n" using b n by (simp add: bit_simps)
    then show False using f by simp
  qed
  have "pa = push_bit 12 (drop_bit 12 pa)"
    using pa(1) by (simp add: push_bit_eq_mult drop_bit_eq_div)
  then have pab: "bit pa n \<longleftrightarrow> 12 \<le> n \<and> bit pa n" for n
    by (metis bit_push_bit_iff_nat)
  have "push_bit 12 (drop_bit 10 (PA2PTE pa OR f)) = (of_nat pa :: 64 word)"
  proof (rule bit_word_eqI)
    fix n assume "n < LENGTH(64)"
    then show "bit (push_bit 12 (drop_bit 10 (PA2PTE pa OR f))) n = bit (of_nat pa :: 64 word) n"
      using f10 [of "10 + (n - 12)"] pab [of n]
      by (auto simp: PA2PTE_def bit_simps)
  qed
  then show ?thesis using pa(2) by (simp add: PTE2PA_def unat_of_nat64)
qed

lemma PA2PTE_valid: "(PA2PTE pa OR perm OR PTE_V) AND PTE_V \<noteq> 0"
proof -
  have "bit ((PA2PTE pa OR perm OR PTE_V) AND PTE_V) 0" by (simp add: bit_simps)
  then show ?thesis by (metis bit_0_eq bot_fun_def bot_bool_def)
qed

section \<open>The tree of tables\<close>

type_synonym tree = "nat list \<Rightarrow> addr option"

definition pt_tree :: "mem \<Rightarrow> addr \<Rightarrow> tree \<Rightarrow> bool" where
  "pt_tree m pt T \<longleftrightarrow>
     T [] = Some pt \<and>
     (\<forall>p t. T p = Some t \<longrightarrow> length p \<le> 2 \<and> PGSIZE dvd t \<and> 0 < t \<and> t < 2 ^ 64) \<and>
     (\<forall>p q t. T p = Some t \<and> T q = Some t \<longrightarrow> p = q) \<and>
     (\<forall>p i. T (p @ [i]) \<noteq> None \<longrightarrow> i < 512 \<and> T p \<noteq> None) \<and>
     (\<forall>p i t. T p = Some t \<and> length p < 2 \<and> i < 512 \<longrightarrow>
        T (p @ [i]) = (if read64 m (t + 8 * i) AND PTE_V \<noteq> 0 then Some (PTE2PA (read64 m (t + 8 * i))) else None))"

lemma pt_treeD:
  assumes "pt_tree m pt T"
  shows "T [] = Some pt"
    and "T p = Some t \<Longrightarrow> length p \<le> 2 \<and> PGSIZE dvd t \<and> 0 < t \<and> t < 2 ^ 64"
    and "T p = Some t \<Longrightarrow> T q = Some t \<Longrightarrow> p = q"
    and "T (p @ [i]) \<noteq> None \<Longrightarrow> i < 512 \<and> T p \<noteq> None"
    and "T p = Some t \<Longrightarrow> length p < 2 \<Longrightarrow> i < 512 \<Longrightarrow>
      T (p @ [i]) = (if read64 m (t + 8 * i) AND PTE_V \<noteq> 0 then Some (PTE2PA (read64 m (t + 8 * i))) else None)"
  using assms unfolding pt_tree_def by blast+

definition slot :: "tree \<Rightarrow> addr \<Rightarrow> addr option" where
  "slot T va = map_option (\<lambda>t. t + 8 * PX 0 va) (T [PX 2 va, PX 1 va])"

definition pte_at :: "mem \<Rightarrow> tree \<Rightarrow> addr \<Rightarrow> pte" where
  "pte_at m T va = (case slot T va of None \<Rightarrow> 0 | Some a \<Rightarrow> read64 m a)"

text \<open>Cells of table pages: two of them are equal or do not overlap.\<close>

lemma cells_apart:
  assumes "PGSIZE dvd t" "PGSIZE dvd u" "i < 512" "j < 512" "(t, i) \<noteq> (u, j)"
  shows "t + 8 * i + 8 \<le> u + 8 * j \<or> u + 8 * j + 8 \<le> t + 8 * i"
proof -
  obtain a b where "t = PGSIZE * a" "u = PGSIZE * b" using assms by (auto elim!: dvdE)
  then show ?thesis using assms(3-5) by (cases a b rule: linorder_cases) auto
qed

lemma pages_apart:
  assumes "PGSIZE dvd t" "PGSIZE dvd u" "t \<noteq> u"
  shows "page_bytes t \<inter> page_bytes u = {}"
proof -
  obtain a b where "t = PGSIZE * a" "u = PGSIZE * b" using assms by (auto elim!: dvdE)
  then show ?thesis using assms(3) by (cases a b rule: linorder_cases) auto
qed

lemma read64_page_cong:
  assumes "\<And>x. x \<in> page_bytes t \<Longrightarrow> m' x = m x" "i < 512"
  shows "read64 m' (t + 8 * i) = read64 m (t + 8 * i)"
  by (rule read64_cong) (use assms in auto)

lemma pt_tree_cong:
  assumes "pt_tree m pt T" "\<And>p t x. T p = Some t \<Longrightarrow> x \<in> page_bytes t \<Longrightarrow> m' x = m x"
  shows "pt_tree m' pt T"
proof -
  have "read64 m' (t + 8 * i) = read64 m (t + 8 * i)" if "T p = Some t" "i < 512" for p t i
    by (rule read64_page_cong) (use assms(2) that in auto)
  then show ?thesis using assms(1) unfolding pt_tree_def by auto
qed

lemma pte_at_cong:
  assumes "\<And>p t x. T p = Some t \<Longrightarrow> x \<in> page_bytes t \<Longrightarrow> m' x = m x"
  shows "pte_at m' T va = pte_at m T va"
proof (cases "T [PX 2 va, PX 1 va]")
  case (Some t)
  then have "read64 m' (t + 8 * PX 0 va) = read64 m (t + 8 * PX 0 va)"
    by (intro read64_page_cong assms) auto
  then show ?thesis using Some by (simp add: pte_at_def slot_def)
qed (simp add: pte_at_def slot_def)

text \<open>A new, zeroed table page hung below an empty entry.\<close>

lemma pt_tree_extend:
  assumes T: "pt_tree m pt T" and p: "T p = Some t" "length p < 2" "i < 512"
    and empty: "T (p @ [i]) = None"
    and n: "PGSIZE dvd n" "0 < n" "n < 2 ^ 64" "\<And>q. T q \<noteq> Some n"
    and zero: "\<And>x. x \<in> page_bytes n \<Longrightarrow> m x = 0"
    and m': "m' = write64 m (t + 8 * i) (PA2PTE n OR PTE_WALK)"
  shows "pt_tree m' pt (T(p @ [i] \<mapsto> n))" and "pte_at m' (T(p @ [i] \<mapsto> n)) va = pte_at m T va"
proof -
  let ?T = "T(p @ [i] \<mapsto> n)"
  note D = pt_treeD [OF T]
  have t: "PGSIZE dvd t" "t \<noteq> n" using D(2) [OF p(1)] p(1) n(4) by auto
  have rn: "read64 m' (n + 8 * j) = 0" if "j < 512" for j
  proof -
    have "read64 m' (n + 8 * j) = read64 m (n + 8 * j)"
      unfolding m' by (rule read_write64_other) (use cells_apart [OF t(1) n(1) p(3) that] t(2) in auto)
    also have "\<dots> = 0" by (rule read64_zero) (use zero that in auto)
    finally show ?thesis .
  qed
  have rq: "read64 m' (u + 8 * j) = read64 m (u + 8 * j)" if "T q = Some u" "j < 512" "(q, j) \<noteq> (p, i)" for q u j
  proof -
    have "(t, i) \<noteq> (u, j)" using that D(3) [OF p(1), of q] by auto
    then show ?thesis
      unfolding m' using cells_apart [OF t(1) _ p(3) that(2), of u] D(2) [OF that(1)]
      by (intro read_write64_other) auto
  qed
  have rp: "read64 m' (t + 8 * i) = PA2PTE n OR PTE_WALK" unfolding m' by simp
  have v: "PTE2PA (PA2PTE n OR PTE_WALK) = n" "(PA2PTE n OR PTE_WALK) AND PTE_V \<noteq> 0"
    using n PA2PTE_valid [of n 0] by (auto intro!: PTE2PA_PA2PTE)
  have step: "?T (q @ [j]) = (if read64 m' (u + 8 * j) AND PTE_V \<noteq> 0 then Some (PTE2PA (read64 m' (u + 8 * j))) else None)"
    if q: "?T q = Some u" "length q < 2" "j < 512" for q u j
  proof (cases "q = p @ [i]")
    case True
    have "T (q @ [j]) = None" using D(4) [of q j] empty True by (metis (no_types))
    then show ?thesis using True q(1) rn [OF q(3)] by simp
  next
    case False
    then have "T q = Some u" using q(1) by simp
    then show ?thesis using D(5) [OF _ q(2,3), of u] rq [of q u j] rp v q(3) p(1) False
      by (cases "(q, j) = (p, i)") auto
  qed
  have pre: "j < 512 \<and> ?T q \<noteq> None" if "?T (q @ [j]) \<noteq> None" for q j
    using that p D(4) [of q j] by (cases "q @ [j] = p @ [i]") (auto simp: fun_upd_def)
  show "pt_tree m' pt ?T"
    unfolding pt_tree_def using D(1-3) n(1-4) p(2) step pre by (auto split: if_splits)
  show "pte_at m' ?T va = pte_at m T va"
  proof (cases "[PX 2 va, PX 1 va] = p @ [i]")
    case True
    then have "T [PX 2 va, PX 1 va] = None" "?T [PX 2 va, PX 1 va] = Some n"
      using empty unfolding True by simp_all
    then show ?thesis unfolding pte_at_def slot_def using rn by simp
  next
    case False
    have "[PX 2 va, PX 1 va] \<noteq> p" using p(2) by auto
    then show ?thesis using False rq [of "[PX 2 va, PX 1 va]" _ "PX 0 va"]
      by (cases "T [PX 2 va, PX 1 va]") (auto simp: pte_at_def slot_def)
  qed
qed

text \<open>Two addresses below \<^verbatim>\<open>MAXVA\<close> share their leaf entry exactly when they share their page.\<close>

lemma same_page_PX:
  assumes "va < MAXVA" "vb < MAXVA"
  shows "PX 2 va = PX 2 vb \<and> PX 1 va = PX 1 vb \<and> PX 0 va = PX 0 vb \<longleftrightarrow> va div PGSIZE = vb div PGSIZE"
proof -
  have px: "PX 0 x = x div PGSIZE mod 512" "PX 1 x = x div PGSIZE div 512 mod 512"
    "PX 2 x = x div PGSIZE div 512 div 512 mod 512" for x
    by (simp_all add: PX_mod div_mult2_eq [symmetric])
  have s: "PX 2 x = x div PGSIZE div 512 div 512" if "x < MAXVA" for x
  proof -
    have "x div PGSIZE div 512 div 512 = x div 2 ^ 30" by (simp add: div_mult2_eq [symmetric])
    also have "x div 2 ^ 30 < 512" using that by (intro less_mult_imp_div_less) simp
    finally show ?thesis using px(3) [of x] by simp
  qed
  have "x div PGSIZE = (PX 2 x * 512 + PX 1 x) * 512 + PX 0 x" if "x < MAXVA" for x
    unfolding s [OF that] px(1,2) by simp
  then show ?thesis using assms px by metis
qed

text \<open>Writing a leaf entry.\<close>

lemma leaf_write:
  assumes T: "pt_tree m pt T" and a: "slot T va = Some a" and va: "va < MAXVA"
  shows "pt_tree (write64 m a e) pt T"
    and "vb < MAXVA \<Longrightarrow> pte_at (write64 m a e) T vb = (if vb div PGSIZE = va div PGSIZE then e else pte_at m T vb)"
proof -
  note D = pt_treeD [OF T]
  obtain t where t: "T [PX 2 va, PX 1 va] = Some t" "a = t + 8 * PX 0 va" using a by (auto simp: slot_def)
  have r: "read64 (write64 m a e) (u + 8 * j) = read64 m (u + 8 * j)"
    if "T q = Some u" "j < 512" "(q, j) \<noteq> ([PX 2 va, PX 1 va], PX 0 va)" for q u j
  proof -
    have "(t, PX 0 va) \<noteq> (u, j)" using that D(3) [OF t(1), of q] by auto
    then show ?thesis
      unfolding t(2) using cells_apart [of t u "PX 0 va" j] D(2) [OF that(1)] D(2) [OF t(1)] that(2)
      by (intro read_write64_other) auto
  qed
  have "read64 (write64 m a e) (u + 8 * j) = read64 m (u + 8 * j)"
    if "T q = Some u" "length q < 2" "j < 512" for q u j
    by (rule r [OF that(1,3)]) (use that(2) in auto)
  then show "pt_tree (write64 m a e) pt T" using T unfolding pt_tree_def by auto
  assume vb: "vb < MAXVA"
  show "pte_at (write64 m a e) T vb = (if vb div PGSIZE = va div PGSIZE then e else pte_at m T vb)"
  proof (cases "vb div PGSIZE = va div PGSIZE")
    case True
    then have "slot T vb = slot T va" using same_page_PX [OF vb va] by (simp add: slot_def)
    then show ?thesis using a True by (simp add: pte_at_def)
  next
    case False
    then have "([PX 2 vb, PX 1 vb], PX 0 vb) \<noteq> ([PX 2 va, PX 1 va], PX 0 va)"
      using same_page_PX [OF vb va] by auto
    then show ?thesis using r [of "[PX 2 vb, PX 1 vb]" _ "PX 0 vb"] False
      by (cases "T [PX 2 vb, PX 1 vb]") (auto simp: pte_at_def slot_def)
  qed
qed

section \<open>Walking without allocation\<close>

lemma walk_levels_tree:
  assumes T: "pt_tree (bs_mem s) pt T"
  shows "T [] = Some pt \<Longrightarrow> walk_levels s pt va False 2 = Some (case slot T va of None \<Rightarrow> 0 | Some a \<Rightarrow> a, s)"
proof -
  note D = pt_treeD [OF T]
  assume "T [] = Some pt"
  note e2 = D(5) [OF this, of "PX 2 va"]
  show ?thesis
  proof (cases "T [PX 2 va]")
    case None
    then have "T [PX 2 va, PX 1 va] = None" using D(4) [of "[PX 2 va]" "PX 1 va"] by force
    then show ?thesis using None e2 by (auto simp: numeral_2_eq_2 slot_def Let_def split: if_splits)
  next
    case (Some t1)
    have n1: "t1 \<noteq> 0" using D(2) [OF Some] by simp
    note e1 = D(5) [OF Some, of "PX 1 va"]
    show ?thesis
    proof (cases "T [PX 2 va, PX 1 va]")
      case None then show ?thesis using Some n1 e2 e1 by (auto simp: numeral_2_eq_2 slot_def Let_def split: if_splits)
    next
      case (Some t0)
      then have "t0 \<noteq> 0" using D(2) [OF Some] by simp
      then show ?thesis using \<open>T [PX 2 va] = Some t1\<close> Some n1 e2 e1
        by (auto simp: numeral_2_eq_2 slot_def Let_def split: if_splits)
    qed
  qed
qed

lemma walk_tree:
  assumes "pt_tree (bs_mem s) pt T" "va < MAXVA"
  shows "walk_internal s pt va False = Some (case slot T va of None \<Rightarrow> 0 | Some a \<Rightarrow> a, s)"
proof -
  have "T [] = Some pt" "0 < pt" using pt_treeD(1,2) [OF assms(1)] by blast+
  then show ?thesis using walk_levels_tree [OF assms(1)] assms(2) by (simp add: walk_internal_def)
qed

lemma slot_nonzero: "pt_tree m pt T \<Longrightarrow> slot T va = Some a \<Longrightarrow> a \<noteq> 0"
  using pt_treeD(2) [of m pt T "[PX 2 va, PX 1 va]"] by (auto simp: slot_def)

section \<open>Walking with allocation\<close>

definition pt_inv :: "buddy_system \<Rightarrow> addr \<Rightarrow> tree \<Rightarrow> bool" where
  "pt_inv s pt T \<longleftrightarrow>
     buddy_wf s \<and> \<not> bs_lock s \<and> pt_tree (bs_mem s) pt T \<and> (\<forall>p t. T p = Some t \<longrightarrow> t \<in> frames s)"

text \<open>
  What a walk may do to the state around the address space: it may add tables in fresh frames, at most
  \<open>n\<close> of them, and it leaves every leaf entry, every other frame and every allocated block alone.
\<close>

definition grows :: "nat \<Rightarrow> buddy_system \<Rightarrow> tree \<Rightarrow> buddy_system \<Rightarrow> tree \<Rightarrow> bool" where
  "grows n s T s' T' \<longleftrightarrow>
     same_region s s' \<and> frames s \<subseteq> frames s' \<and> free_count s \<le> free_count s' + n \<and>
     (\<forall>p t. T p = Some t \<longrightarrow> T' p = Some t) \<and>
     (\<forall>p t. T' p = Some t \<and> t \<in> frames s \<longrightarrow> T p = Some t) \<and>
     (\<forall>va. pte_at (bs_mem s') T' va = pte_at (bs_mem s) T va) \<and>
     (\<forall>f \<in> frames s. (\<forall>p. T p \<noteq> Some f) \<longrightarrow> (\<forall>x \<in> page_bytes f. bs_mem s' x = bs_mem s x)) \<and>
     live_blocks s \<subseteq> live_blocks s'"

lemma grows_refl: "grows n s T s T"
  by (simp add: grows_def)

lemma growsD:
  assumes "grows n s T s' T'"
  shows "same_region s s'" "frames s \<subseteq> frames s'" "free_count s \<le> free_count s' + n"
    and "T p = Some t \<Longrightarrow> T' p = Some t"
    and "T' p = Some t \<Longrightarrow> t \<in> frames s \<Longrightarrow> T p = Some t"
    and "pte_at (bs_mem s') T' va = pte_at (bs_mem s) T va"
    and "f \<in> frames s \<Longrightarrow> (\<And>p. T p \<noteq> Some f) \<Longrightarrow> x \<in> page_bytes f \<Longrightarrow> bs_mem s' x = bs_mem s x"
    and "live_blocks s \<subseteq> live_blocks s'"
  using assms unfolding grows_def by (elim conjE; blast)+

lemma grows_trans:
  assumes 1: "grows a s T s1 T1" and 2: "grows b s1 T1 s2 T2"
  shows "grows (a + b) s T s2 T2"
proof -
  have f: "frames s \<subseteq> frames s2" using growsD(2) [OF 1] growsD(2) [OF 2] by (rule subset_trans)
  have "bs_mem s2 x = bs_mem s x" if x: "f \<in> frames s" "\<forall>p. T p \<noteq> Some f" "x \<in> page_bytes f" for f x
  proof -
    have "T1 p \<noteq> Some f" for p using growsD(5) [OF 1, of p f] x by blast
    then have "bs_mem s2 x = bs_mem s1 x" using growsD(7) [OF 2, of f x] growsD(2) [OF 1] x by blast
    also have "\<dots> = bs_mem s x" using growsD(7) [OF 1, of f x] x by blast
    finally show ?thesis .
  qed
  moreover have "T p = Some t" if "T2 p = Some t" "t \<in> frames s" for p t
    using growsD(5) [OF 1, of p t] growsD(5) [OF 2, of p t] growsD(2) [OF 1] that by blast
  moreover have "pte_at (bs_mem s2) T2 va = pte_at (bs_mem s) T va" for va
    using growsD(6) [OF 1, of va] growsD(6) [OF 2, of va] by simp
  moreover have "free_count s \<le> free_count s2 + (a + b)" using growsD(3) [OF 1] growsD(3) [OF 2] by simp
  moreover have "same_region s s2" using growsD(1) [OF 1] growsD(1) [OF 2] by (rule same_region_trans)
  moreover have "T2 p = Some t" if "T p = Some t" for p t
    using growsD(4) [OF 1 that] growsD(4) [OF 2] by blast
  moreover have "live_blocks s \<subseteq> live_blocks s2" using growsD(8) [OF 1] growsD(8) [OF 2] by (rule subset_trans)
  ultimately show ?thesis unfolding grows_def using f by blast
qed

lemma hang_table:
  assumes i: "pt_inv s pt T" and av: "0 < free_count s"
    and p: "T p = Some t" "length p < 2" "j < 512" "T (p @ [j]) = None"
  shows "\<exists>n s'. pmem_alloc_pages s 1 = Some (n, s') \<and> n \<noteq> 0 \<and>
    pt_inv (put64 s' (t + 8 * j) (PA2PTE n OR PTE_WALK)) pt (T(p @ [j] \<mapsto> n)) \<and>
    grows 1 s T (put64 s' (t + 8 * j) (PA2PTE n OR PTE_WALK)) (T(p @ [j] \<mapsto> n))"
proof -
  note I = i [unfolded pt_inv_def]
  obtain n s' where s': "pmem_alloc_pages s 1 = Some (n, s')" "buddy_wf s'" "\<not> bs_lock s'" "same_region s s'"
    "PGSIZE dvd n" "0 < n" "n < 2 ^ 64" "n \<notin> frames s" "frames s' = insert n (frames s)"
    "free_count s' = free_count s - 1" "bs_mem s' = (\<lambda>x. if x \<in> page_bytes n then 0 else bs_mem s x)"
    "live_blocks s' = insert (n, 0) (live_blocks s)"
    using alloc_one_frame [of s] I av by blast
  let ?a = "t + 8 * j" and ?T = "T(p @ [j] \<mapsto> n)"
  let ?s = "put64 s' ?a (PA2PTE n OR PTE_WALK)"
  have tabs: "PGSIZE dvd u \<and> u \<noteq> n" if "T q = Some u" for q u
    using pt_treeD(2) [of "bs_mem s" pt T q u] I that s'(8) by blast
  have old: "bs_mem s' x = bs_mem s x" if "PGSIZE dvd f" "f \<noteq> n" "x \<in> page_bytes f" for f x
    using pages_apart [OF that(1) s'(5) that(2)] that(3) unfolding s'(11) by auto
  have T': "pt_tree (bs_mem s') pt T"
    by (rule pt_tree_cong [of "bs_mem s"]) (use I old tabs in blast)+
  have m: "bs_mem ?s = write64 (bs_mem s') ?a (PA2PTE n OR PTE_WALK)" by (simp add: put64_def)
  note ext = pt_tree_extend [OF T' p s'(5-7) _ _ m]
  have x1: "\<And>q. T q \<noteq> Some n" and x2: "\<And>x. x \<in> page_bytes n \<Longrightarrow> bs_mem s' x = 0"
    using tabs s'(11) by auto
  have "pt_inv ?s pt ?T"
    using ext(1) [OF x1 x2] I s'(2,3,9) unfolding pt_inv_def put64_def by auto
  moreover have "pte_at (bs_mem ?s) ?T va = pte_at (bs_mem s) T va" for va
  proof -
    have "pte_at (bs_mem ?s) ?T va = pte_at (bs_mem s') T va" by (rule ext(2) [OF x1 x2])
    also have "\<dots> = pte_at (bs_mem s) T va" by (rule pte_at_cong) (use old tabs in blast)
    finally show ?thesis .
  qed
  moreover have "bs_mem ?s x = bs_mem s x" if f: "f \<in> frames s" "\<forall>q. T q \<noteq> Some f" "x \<in> page_bytes f" for f x
  proof -
    have fd: "PGSIZE dvd f" "f \<noteq> n" "f \<noteq> t"
      using frames_aligned [of s f] I f p(1) s'(8) by auto
    have "x \<notin> page_bytes t" using pages_apart [of f t] fd tabs [OF p(1)] f(3) by blast
    then have "x < ?a \<or> ?a + 8 \<le> x" using p(3) by auto
    then show ?thesis unfolding m using old [OF fd(1,2) f(3)] write64_other by simp
  qed
  moreover have "same_region s ?s" "frames s \<subseteq> frames ?s" "free_count s \<le> free_count ?s + 1" "live_blocks s \<subseteq> live_blocks ?s"
    using s'(4,9,10,12) by (auto simp: put64_def same_region_def)
  ultimately show ?thesis
    using s'(1,6,8) p(4) by (intro exI [of _ n] exI [of _ s']) (auto simp: grows_def)
qed

end
