(* ===== verification/Vmem_Ops.thy ===== *)
theory Vmem_Ops
  imports Vmem_Inv
begin

text \<open>
  What the operations of \<^verbatim>\<open>vmem.c\<close> do to an address space: mapping, unmapping, copying between user
  and kernel memory, and the places where the code departs from what it means to do.
\<close>

section \<open>Walking with allocation\<close>

lemma walk_step:
  assumes i: "pt_inv s pt T" and av: "0 < free_count s" and p: "T p = Some t" "length p < 2"
  shows "\<exists>s1 T1 t1. walk_levels s t va True (Suc l) = walk_levels s1 t1 va True l \<and>
    pt_inv s1 pt T1 \<and> grows 1 s T s1 T1 \<and> T1 (p @ [PX (Suc l) va]) = Some t1"
proof -
  let ?j = "PX (Suc l) va"
  have T: "pt_tree (bs_mem s) pt T" using i by (simp add: pt_inv_def)
  note e = pt_treeD(5) [OF T p, of ?j]
  show ?thesis
  proof (cases "T (p @ [?j])")
    case (Some t1)
    then have v: "get64 s (t + 8 * ?j) AND PTE_V \<noteq> 0" "PTE2PA (get64 s (t + 8 * ?j)) = t1"
      using e by (auto split: if_splits)
    have "t1 \<noteq> 0" using pt_treeD(2) [OF T Some] by simp
    then have "walk_levels s t va True (Suc l) = walk_levels s t1 va True l"
      using v by (simp add: Let_def)
    then show ?thesis using i Some grows_refl by blast
  next
    case None
    then have v: "get64 s (t + 8 * ?j) AND PTE_V = 0" using e by (auto split: if_splits)
    obtain n s' where s': "pmem_alloc_pages s 1 = Some (n, s')" "n \<noteq> 0"
      "pt_inv (put64 s' (t + 8 * ?j) (PA2PTE n OR PTE_WALK)) pt (T(p @ [?j] \<mapsto> n))"
      "grows 1 s T (put64 s' (t + 8 * ?j) (PA2PTE n OR PTE_WALK)) (T(p @ [?j] \<mapsto> n))"
      using hang_table [OF i av p _ None] by auto
    have "walk_levels s t va True (Suc l) =
        walk_levels (put64 s' (t + 8 * ?j) (PA2PTE n OR PTE_WALK)) n va True l"
      using v s'(1,2) by (simp add: Let_def)
    moreover have "(T(p @ [?j] \<mapsto> n)) (p @ [?j]) = Some n" by simp
    ultimately show ?thesis using s'(3,4) by blast
  qed
qed

lemma walk_alloc:
  assumes i: "pt_inv s pt T" and av: "2 \<le> free_count s" and va: "va < MAXVA"
  shows "\<exists>a s' T'. walk_internal s pt va True = Some (a, s') \<and> pt_inv s' pt T' \<and> grows 2 s T s' T' \<and>
    slot T' va = Some a \<and> a \<noteq> 0"
proof -
  have T: "pt_tree (bs_mem s) pt T" using i by (simp add: pt_inv_def)
  note r = pt_treeD(1,2) [OF T]
  obtain s1 T1 t1 where 1: "walk_levels s pt va True (Suc 1) = walk_levels s1 t1 va True 1"
    "pt_inv s1 pt T1" "grows 1 s T s1 T1" "T1 ([] @ [PX (Suc 1) va]) = Some t1"
    using walk_step [OF i _ r(1), of va 1] av by auto
  have "0 < free_count s1" using growsD(3) [OF 1(3)] av by simp
  then obtain s2 T2 t2 where 2: "walk_levels s1 t1 va True (Suc 0) = walk_levels s2 t2 va True 0"
    "pt_inv s2 pt T2" "grows 1 s1 T1 s2 T2" "T2 ([PX 2 va] @ [PX (Suc 0) va]) = Some t2"
    using walk_step [OF 1(2) _ 1(4), of va 0] by (auto simp: numeral_2_eq_2)
  have "walk_internal s pt va True = Some (t2 + 8 * PX 0 va, s2)"
    using 1(1) 2(1) va r(2) [OF r(1)] by (simp add: walk_internal_def numeral_2_eq_2)
  moreover have sl: "slot T2 va = Some (t2 + 8 * PX 0 va)" using 2(4) by (simp add: slot_def)
  moreover have "grows 2 s T s2 T2" using grows_trans [OF 1(3) 2(3)] by (simp add: numeral_2_eq_2)
  moreover have "t2 + 8 * PX 0 va \<noteq> 0" using slot_nonzero [OF _ sl] 2(2) by (auto simp: pt_inv_def)
  ultimately show ?thesis using 2(2) by blast
qed

lemma walk_fails_beyond: "MAXVA \<le> va \<Longrightarrow> walk_internal s pt va alloc = None"
  by (simp add: walk_internal_def)

section \<open>Storing a leaf entry\<close>

text \<open>\<open>remaps\<close> is \<open>grows\<close> with the entries of the addresses \<open>P\<close> changed to \<open>g\<close>.\<close>

definition remaps :: "nat \<Rightarrow> buddy_system \<Rightarrow> tree \<Rightarrow> addr set \<Rightarrow> (addr \<Rightarrow> pte) \<Rightarrow> buddy_system \<Rightarrow> tree \<Rightarrow> bool" where
  "remaps n s T P g s' T' \<longleftrightarrow>
     same_region s s' \<and> frames s \<subseteq> frames s' \<and> free_count s \<le> free_count s' + n \<and>
     (\<forall>p t. T p = Some t \<longrightarrow> T' p = Some t) \<and>
     (\<forall>p t. T' p = Some t \<and> t \<in> frames s \<longrightarrow> T p = Some t) \<and>
     (\<forall>va < MAXVA. pte_at (bs_mem s') T' va = (if va \<in> P then g va else pte_at (bs_mem s) T va)) \<and>
     (\<forall>f \<in> frames s. (\<forall>p. T p \<noteq> Some f) \<longrightarrow> (\<forall>x \<in> page_bytes f. bs_mem s' x = bs_mem s x)) \<and>
     live_blocks s \<subseteq> live_blocks s'"

lemma remapsD:
  assumes "remaps n s T P g s' T'"
  shows "same_region s s'" "frames s \<subseteq> frames s'" "free_count s \<le> free_count s' + n"
    and "T p = Some t \<Longrightarrow> T' p = Some t"
    and "T' p = Some t \<Longrightarrow> t \<in> frames s \<Longrightarrow> T p = Some t"
    and "va < MAXVA \<Longrightarrow> pte_at (bs_mem s') T' va = (if va \<in> P then g va else pte_at (bs_mem s) T va)"
    and "f \<in> frames s \<Longrightarrow> (\<And>p. T p \<noteq> Some f) \<Longrightarrow> x \<in> page_bytes f \<Longrightarrow> bs_mem s' x = bs_mem s x"
    and "live_blocks s \<subseteq> live_blocks s'"
  using assms unfolding remaps_def by (elim conjE; blast)+

lemma grows_remaps: "grows n s T s' T' \<Longrightarrow> remaps n s T {} g s' T'"
  unfolding grows_def remaps_def empty_iff if_False by blast

lemma remaps_trans:
  assumes 1: "remaps a s T P g s1 T1" and 2: "remaps b s1 T1 Q g s2 T2"
  shows "remaps (a + b) s T (P \<union> Q) g s2 T2"
proof -
  have f: "frames s \<subseteq> frames s2" using remapsD(2) [OF 1] remapsD(2) [OF 2] by (rule subset_trans)
  have "bs_mem s2 x = bs_mem s x" if x: "f \<in> frames s" "\<forall>p. T p \<noteq> Some f" "x \<in> page_bytes f" for f x
  proof -
    have "T1 p \<noteq> Some f" for p using remapsD(5) [OF 1, of p f] x by blast
    then have "bs_mem s2 x = bs_mem s1 x" using remapsD(7) [OF 2, of f x] remapsD(2) [OF 1] x by blast
    also have "\<dots> = bs_mem s x" using remapsD(7) [OF 1, of f x] x by blast
    finally show ?thesis .
  qed
  moreover have "T p = Some t" if "T2 p = Some t" "t \<in> frames s" for p t
    using remapsD(5) [OF 1, of p t] remapsD(5) [OF 2, of p t] remapsD(2) [OF 1] that by blast
  moreover have "pte_at (bs_mem s2) T2 va = (if va \<in> P \<union> Q then g va else pte_at (bs_mem s) T va)"
    if "va < MAXVA" for va
    using remapsD(6) [OF 1 that] remapsD(6) [OF 2 that] by simp
  moreover have "free_count s \<le> free_count s2 + (a + b)" using remapsD(3) [OF 1] remapsD(3) [OF 2] by simp
  moreover have "same_region s s2" using remapsD(1) [OF 1] remapsD(1) [OF 2] by (rule same_region_trans)
  moreover have "T2 p = Some t" if "T p = Some t" for p t
    using remapsD(4) [OF 1 that] remapsD(4) [OF 2] by blast
  moreover have "live_blocks s \<subseteq> live_blocks s2" using remapsD(8) [OF 1] remapsD(8) [OF 2] by (rule subset_trans)
  ultimately show ?thesis unfolding remaps_def using f by blast
qed

abbreviation same_page :: "addr \<Rightarrow> addr set" where
  "same_page va \<equiv> {vb. vb div PGSIZE = va div PGSIZE}"

lemma slot_in_table:
  assumes "pt_tree m pt T" "slot T va = Some a"
  obtains t where "T [PX 2 va, PX 1 va] = Some t" "a = t + 8 * PX 0 va" "PGSIZE dvd t" "{a..<a + 8} \<subseteq> page_bytes t"
proof -
  obtain t where t: "T [PX 2 va, PX 1 va] = Some t" "a = t + 8 * PX 0 va" using assms(2) by (auto simp: slot_def)
  have "8 * PX 0 va + 8 \<le> PGSIZE" using PX_less [of 0 va] by linarith
  then show thesis using that t pt_treeD(2) [OF assms(1) t(1)] by auto
qed

lemma put_leaf:
  assumes i: "pt_inv s pt T" and a: "slot T va = Some a" and va: "va < MAXVA"
    and g: "\<And>vb. vb div PGSIZE = va div PGSIZE \<Longrightarrow> g vb = e"
  shows "pt_inv (put64 s a e) pt T" "remaps 0 s T (same_page va) g (put64 s a e) T"
proof -
  have T: "pt_tree (bs_mem s) pt T" using i by (simp add: pt_inv_def)
  show "pt_inv (put64 s a e) pt T" using i leaf_write(1) [OF T a va] by (simp add: pt_inv_def put64_def)
  obtain t where t: "T [PX 2 va, PX 1 va] = Some t" "PGSIZE dvd t" "{a..<a + 8} \<subseteq> page_bytes t"
    using slot_in_table [OF T a] by metis
  have "write64 (bs_mem s) a e x = bs_mem s x" if f: "f \<in> frames s" "\<forall>p. T p \<noteq> Some f" "x \<in> page_bytes f" for f x
  proof -
    have "f \<noteq> t" using t f by auto
    then have "x \<notin> page_bytes t" using pages_apart [of f t] frames_aligned [of s f] i f t(2) by (auto simp: pt_inv_def)
    then show ?thesis using t(3) by (intro write64_other) force
  qed
  then show "remaps 0 s T (same_page va) g (put64 s a e) T"
    using leaf_write(2) [OF T a va] g by (auto simp: remaps_def put64_def same_region_def)
qed

section \<open>Mapping\<close>

definition leaf_entry :: "addr \<Rightarrow> addr \<Rightarrow> pte \<Rightarrow> addr \<Rightarrow> pte" where
  "leaf_entry pa va0 perm va = PA2PTE (pa + (va div PGSIZE - va0 div PGSIZE) * PGSIZE) OR perm OR PTE_V"

text \<open>One round of the loop, up to the test for the last page.\<close>

lemma map_one:
  assumes i: "pt_inv s pt T" and av: "2 \<le> free_count s" and va: "cur < MAXVA"
    and un: "pte_at (bs_mem s) T cur AND PTE_V = 0"
    and g: "\<And>vb. vb div PGSIZE = cur div PGSIZE \<Longrightarrow> g vb = PA2PTE pa OR perm OR PTE_V"
  shows "\<exists>s1 T1. map_loop s pt cur end pa perm =
      (if cur = end then Some (1, s1) else map_loop s1 pt (cur + PGSIZE) end (pa + PGSIZE) perm) \<and>
    pt_inv s1 pt T1 \<and> remaps 2 s T (same_page cur) g s1 T1"
proof -
  obtain a s' T' where w: "walk_internal s pt cur True = Some (a, s')" "pt_inv s' pt T'" "grows 2 s T s' T'"
    "slot T' cur = Some a" "a \<noteq> 0" using walk_alloc [OF i av va] by blast
  let ?e = "PA2PTE pa OR perm OR PTE_V"
  have "get64 s' a = pte_at (bs_mem s) T cur"
    using growsD(6) [OF w(3), of cur] w(4) by (simp add: pte_at_def)
  then have "map_loop s pt cur end pa perm =
      (if cur = end then Some (1, put64 s' a ?e) else map_loop (put64 s' a ?e) pt (cur + PGSIZE) end (pa + PGSIZE) perm)"
    using w(1,5) un by (subst map_loop.simps) (simp add: Let_def)
  moreover note put_leaf [OF w(2,4) va, of g ?e]
  ultimately show ?thesis using remaps_trans [OF grows_remaps [OF w(3)], of 0 "same_page cur" g] g by fastforce
qed

lemma map_mapped:
  assumes i: "pt_inv s pt T" and av: "2 \<le> free_count s" and va: "cur < MAXVA"
    and m: "pte_at (bs_mem s) T cur AND PTE_V \<noteq> 0"
  shows "\<exists>s1 T1. map_loop s pt cur end pa perm = Some (- EINVAL, s1) \<and> pt_inv s1 pt T1 \<and> remaps 2 s T {} g s1 T1"
proof -
  obtain a s' T' where w: "walk_internal s pt cur True = Some (a, s')" "pt_inv s' pt T'" "grows 2 s T s' T'"
    "slot T' cur = Some a" "a \<noteq> 0" using walk_alloc [OF i av va] by blast
  have "get64 s' a = pte_at (bs_mem s) T cur"
    using growsD(6) [OF w(3), of cur] w(4) by (simp add: pte_at_def)
  then have "map_loop s pt cur end pa perm = Some (- EINVAL, s')"
    using w(1,5) m by (subst map_loop.simps) (simp add: Let_def)
  then show ?thesis using w(2) grows_remaps [OF w(3)] by blast
qed

lemma page_range:
  "{va. va div PGSIZE = (b + k * PGSIZE) div PGSIZE} = {b + k * PGSIZE..<b + Suc k * PGSIZE}"
  if "b mod PGSIZE = 0"
proof -
  define c where "c = b div PGSIZE"
  have "b = PGSIZE * c" using that mult_div_mod_eq [of PGSIZE b] by (simp only: c_def add_0_right)
  then have "b + k * PGSIZE = (c + k) * PGSIZE" "b + Suc k * PGSIZE = Suc (c + k) * PGSIZE" by simp_all
  moreover have "x div PGSIZE = d \<longleftrightarrow> d * PGSIZE \<le> x \<and> x < Suc d * PGSIZE" for x d :: nat
    using div_mult_mod_eq [of x PGSIZE] mod_less_divisor [of PGSIZE x]
    by (auto intro!: div_nat_eqI)
  ultimately show ?thesis by auto
qed

text \<open>The first \<open>m\<close> rounds, when the pages they map are all unmapped.\<close>

lemma map_prefix:
  assumes b: "b mod PGSIZE = 0" and lim: "b + m * PGSIZE \<le> MAXVA" and e: "m \<le> n"
    and i: "pt_inv s pt T" and av: "2 * m \<le> free_count s"
    and un: "\<And>va. b \<le> va \<Longrightarrow> va < b + m * PGSIZE \<Longrightarrow> pte_at (bs_mem s) T va AND PTE_V = 0"
  shows "\<exists>s1 T1. map_loop s pt b (b + n * PGSIZE) pa perm =
      map_loop s1 pt (b + m * PGSIZE) (b + n * PGSIZE) (pa + m * PGSIZE) perm \<and>
    pt_inv s1 pt T1 \<and> remaps (2 * m) s T {b..<b + m * PGSIZE} (leaf_entry pa b perm) s1 T1"
  using lim e av un
proof (induction m)
  case 0
  have "remaps 0 s T {} (leaf_entry pa b perm) s T" by (rule grows_remaps [OF grows_refl])
  then show ?case using i by auto
next
  case (Suc m)
  let ?c = "b + m * PGSIZE" and ?g = "leaf_entry pa b perm"
  obtain s1 T1 where 1: "map_loop s pt b (b + n * PGSIZE) pa perm =
      map_loop s1 pt ?c (b + n * PGSIZE) (pa + m * PGSIZE) perm" "pt_inv s1 pt T1"
      "remaps (2 * m) s T {b..<?c} ?g s1 T1"
    using Suc.IH Suc.prems by auto
  have c: "?c < MAXVA" using Suc.prems(1) by simp
  have "pte_at (bs_mem s1) T1 ?c AND PTE_V = 0"
    using remapsD(6) [OF 1(3) c] Suc.prems(4) [of ?c] by simp
  moreover have "?g vb = PA2PTE (pa + m * PGSIZE) OR perm OR PTE_V" if "vb div PGSIZE = ?c div PGSIZE" for vb
    unfolding leaf_entry_def that by simp
  moreover have "2 \<le> free_count s1" using remapsD(3) [OF 1(3)] Suc.prems(3) by simp
  ultimately obtain s2 T2 where 2: "map_loop s1 pt ?c (b + n * PGSIZE) (pa + m * PGSIZE) perm =
      (if ?c = b + n * PGSIZE then Some (1, s2)
       else map_loop s2 pt (?c + PGSIZE) (b + n * PGSIZE) (pa + m * PGSIZE + PGSIZE) perm)"
      "pt_inv s2 pt T2" "remaps 2 s1 T1 (same_page ?c) ?g s2 T2"
    using map_one [OF 1(2) _ c] by blast
  have "{b..<?c} \<union> same_page ?c = {b..<b + Suc m * PGSIZE}" unfolding page_range [OF b] by auto
  then have "remaps (2 * Suc m) s T {b..<b + Suc m * PGSIZE} ?g s2 T2"
    using remaps_trans [OF 1(3) 2(3)] by (simp add: add.commute)
  moreover have "?c \<noteq> b + n * PGSIZE" using Suc.prems(2) by simp
  then have "map_loop s pt b (b + n * PGSIZE) pa perm =
      map_loop s2 pt (b + Suc m * PGSIZE) (b + n * PGSIZE) (pa + Suc m * PGSIZE) perm"
    using 1(1) 2(1) by (simp add: algebra_simps)
  ultimately show ?case using 2(2) by blast
qed

section \<open>Translation\<close>

definition user_page :: "pte \<Rightarrow> bool" where
  "user_page e \<longleftrightarrow> e AND PTE_V \<noteq> 0 \<and> e AND PTE_U \<noteq> 0 \<and> PTE2PA e \<noteq> 0"

definition phys :: "mem \<Rightarrow> tree \<Rightarrow> addr \<Rightarrow> addr" where
  "phys m T va = PTE2PA (pte_at m T va) + va mod PGSIZE"

lemma walk_unlocked:
  assumes "pt_tree (bs_mem (vs_pm v)) pt T" "\<not> vs_lock v" "va < MAXVA"
  shows "walk v pt va False = Some (case slot T va of None \<Rightarrow> 0 | Some a \<Rightarrow> a, v)"
  using assms walk_tree [OF assms(1,3)] by (simp add: walk_def)

lemma walkaddr_tree:
  assumes T: "pt_tree (bs_mem (vs_pm v)) pt T" and l: "\<not> vs_lock v" and va: "va < MAXVA"
  shows "walkaddr v pt va =
    Some (if user_page (pte_at (bs_mem (vs_pm v)) T va) then PTE2PA (pte_at (bs_mem (vs_pm v)) T va) else 0, v)"
proof (cases "slot T va")
  case None then show ?thesis using walk_unlocked [OF assms] va by (simp add: walkaddr_def user_page_def pte_at_def)
next
  case (Some a)
  then have "a \<noteq> 0" using slot_nonzero [OF T] by blast
  then show ?thesis using walk_unlocked [OF assms] va Some
    by (auto simp: walkaddr_def user_page_def pte_at_def Let_def)
qed

lemma pte_at_page: "va div PGSIZE = vb div PGSIZE \<Longrightarrow> pte_at m T va = pte_at m T vb"
proof -
  assume e: "va div PGSIZE = vb div PGSIZE"
  have "PX l x = x div PGSIZE div 2 ^ (9 * l) mod 512" for l x
    by (simp add: PX_mod power_add div_mult2_eq)
  then have "PX l va = PX l vb" for l using e by simp
  then show ?thesis by (simp add: pte_at_def slot_def)
qed

lemma page_split:
  assumes "i + va mod PGSIZE < PGSIZE"
  shows "(va + i) div PGSIZE = va div PGSIZE" "(va + i) mod PGSIZE = va mod PGSIZE + i"
proof -
  have "va + i = va div PGSIZE * PGSIZE + (va mod PGSIZE + i)" using div_mult_mod_eq [of va PGSIZE] by linarith
  moreover have "va mod PGSIZE + i < PGSIZE" using assms by simp
  ultimately show "(va + i) div PGSIZE = va div PGSIZE" "(va + i) mod PGSIZE = va mod PGSIZE + i"
    by (metis div_mult_self3 div_less add.right_neutral zero_neq_numeral)
       (metis \<open>va + i = va div PGSIZE * PGSIZE + (va mod PGSIZE + i)\<close> \<open>va mod PGSIZE + i < PGSIZE\<close> mod_mult_self3 mod_less)
qed

text \<open>
  A range of user memory that the copy routines can use: every byte is in a mapped user page that is
  not a page of the table itself, and the pages do not alias.
\<close>

definition user_range :: "mem \<Rightarrow> tree \<Rightarrow> addr \<Rightarrow> nat \<Rightarrow> bool" where
  "user_range m T va len \<longleftrightarrow>
     va + len \<le> MAXVA \<and>
     (\<forall>i < len. user_page (pte_at m T (va + i)) \<and> (\<forall>p. T p \<noteq> Some (PTE2PA (pte_at m T (va + i))))) \<and>
     inj_on (\<lambda>i. phys m T (va + i)) {..<len}"

lemma phys_chunk:
  assumes "i + va mod PGSIZE < PGSIZE"
  shows "phys m T (va + i) = phys m T va + i" "pte_at m T (va + i) = pte_at m T va"
proof -
  show e: "pte_at m T (va + i) = pte_at m T va" by (rule pte_at_page) (rule page_split [OF assms])
  show "phys m T (va + i) = phys m T va + i" unfolding phys_def e page_split(2) [OF assms] by simp
qed

lemma phys_in_page: "phys m T va \<in> page_bytes (PTE2PA (pte_at m T va))"
  by (simp add: phys_def)

text \<open>Changing bytes of user pages leaves the table alone.\<close>

lemma table_untouched:
  assumes T: "pt_tree m pt T" and q: "PGSIZE dvd q" "\<And>p. T p \<noteq> Some q" and eq: "\<And>x. x \<notin> page_bytes q \<Longrightarrow> m' x = m x"
  shows "pt_tree m' pt T" "pte_at m' T va = pte_at m T va"
proof -
  have s: "m' x = m x" if "T p = Some t" "x \<in> page_bytes t" for p t x
  proof -
    have "t \<noteq> q" "PGSIZE dvd t" using q(2) pt_treeD(2) [OF T that(1)] that(1) by auto
    then show ?thesis using pages_apart [OF _ q(1)] that(2) eq by blast
  qed
  show "pt_tree m' pt T" by (rule pt_tree_cong [OF T s])
  show "pte_at m' T va = pte_at m T va" by (rule pte_at_cong [OF s])
qed

section \<open>Copying to user memory\<close>

lemma PGROUNDDOWN_va: "va < MAXVA \<Longrightarrow> PGROUNDDOWN va = va div PGSIZE * PGSIZE"
  by (rule PGROUNDDOWN_eq) (erule less_trans, simp)

lemma next_page: "va < MAXVA \<Longrightarrow> PGROUNDDOWN va + PGSIZE = va + (PGSIZE - va mod PGSIZE)"
proof -
  assume "va < MAXVA"
  then have "PGROUNDDOWN va = va div PGSIZE * PGSIZE" by (rule PGROUNDDOWN_va)
  moreover have "va mod PGSIZE < PGSIZE" by simp
  ultimately show ?thesis using div_mult_mod_eq [of va PGSIZE] by linarith
qed

lemma user_range_drop:
  assumes "user_range m T va len" "n \<le> len" "\<And>x. pte_at m' T x = pte_at m T x"
  shows "user_range m' T (va + n) (len - n)"
proof -
  have p: "phys m' T x = phys m T x" for x by (simp add: phys_def assms(3))
  have "inj_on (\<lambda>i. phys m T (va + n + i)) {..<len - n}"
  proof (rule inj_onI)
    fix i j assume "i \<in> {..<len - n}" "j \<in> {..<len - n}" "phys m T (va + n + i) = phys m T (va + n + j)"
    then have "n + i = n + j"
      using assms(1) inj_onD [of "\<lambda>i. phys m T (va + i)" "{..<len}" "n + i" "n + j"]
      by (simp add: user_range_def add.assoc)
    then show "i = j" by simp
  qed
  moreover have "user_page (pte_at m T (va + n + i)) \<and> (\<forall>p. T p \<noteq> Some (PTE2PA (pte_at m T (va + n + i))))"
    if "i < len - n" for i
  proof -
    have "n + i < len" using that by simp
    then show ?thesis using assms(1) unfolding user_range_def add.assoc by blast
  qed
  ultimately show ?thesis using assms(1,2) unfolding user_range_def assms(3) p by auto
qed

text \<open>What one round of either copy loop works on.\<close>

lemma user_chunk:
  assumes r: "user_range m T va len" "0 < len" and n: "n = min (PGSIZE - page_off va) len"
  shows "va < MAXVA" "user_page (pte_at m T va)" "\<And>p. T p \<noteq> Some (PTE2PA (pte_at m T va))"
    and "0 < n" "n \<le> len" "n < 2 ^ 32" "n + va mod PGSIZE \<le> PGSIZE"
    and "i < n \<Longrightarrow> phys m T (va + i) = PTE2PA (pte_at m T va) + page_off va + i"
    and "pte_at m T (PGROUNDDOWN va) = pte_at m T va" "PGROUNDDOWN va < MAXVA"
    and "n < len \<Longrightarrow> PGROUNDDOWN va + PGSIZE = va + n"
proof -
  show va: "va < MAXVA" using r by (simp add: user_range_def)
  show "user_page (pte_at m T va)" "\<And>p. T p \<noteq> Some (PTE2PA (pte_at m T va))"
    using r unfolding user_range_def by (metis add_0_right)+
  have o: "page_off va = va mod PGSIZE" "va mod PGSIZE < PGSIZE" by (simp_all add: page_off_eq)
  show n': "0 < n" "n \<le> len" "n < 2 ^ 32" "n + va mod PGSIZE \<le> PGSIZE" using n o r(2) by auto
  show "phys m T (va + i) = PTE2PA (pte_at m T va) + page_off va + i" if "i < n"
    using phys_chunk(1) [of i va m T] n'(4) that o by (simp add: phys_def)
  have d: "PGROUNDDOWN va = va div PGSIZE * PGSIZE" using va by (rule PGROUNDDOWN_va)
  show "pte_at m T (PGROUNDDOWN va) = pte_at m T va" unfolding d by (rule pte_at_page) simp
  have "PGROUNDDOWN va \<le> va" unfolding d by simp
  then show "PGROUNDDOWN va < MAXVA" using va by simp
  show "PGROUNDDOWN va + PGSIZE = va + n" if "n < len" unfolding next_page [OF va] using n that o(1) by simp
qed

lemma copyout_range:
  assumes "pt_tree (bs_mem (vs_pm v)) pt T" "\<not> vs_lock v" "user_range (bs_mem (vs_pm v)) T va len"
    and "\<And>i j. i < len \<Longrightarrow> j < len \<Longrightarrow> phys (bs_mem (vs_pm v)) T (va + i) \<noteq> src + j"
  shows "\<exists>m'. copyout_loop v pt va src len = Some (0, v\<lparr>vs_pm := (vs_pm v)\<lparr>bs_mem := m'\<rparr>\<rparr>) \<and>
    (\<forall>i < len. m' (phys (bs_mem (vs_pm v)) T (va + i)) = bs_mem (vs_pm v) (src + i)) \<and>
    (\<forall>x. (\<forall>i < len. x \<noteq> phys (bs_mem (vs_pm v)) T (va + i)) \<longrightarrow> m' x = bs_mem (vs_pm v) x)"
  using assms
proof (induction len arbitrary: v va src rule: less_induct)
  case (less len)
  show ?case
  proof (cases "len = 0")
    case True then show ?thesis by (subst copyout_loop.simps) (intro exI [of _ "bs_mem (vs_pm v)"], simp)
  next
    case False
    let ?m = "bs_mem (vs_pm v)"
    define n where "n = min (PGSIZE - page_off va) len"
    have "0 < len" using False by simp
    note c = user_chunk [OF less.prems(3) this n_def]
    let ?q = "PTE2PA (pte_at ?m T va)"
    let ?d = "?q + page_off va"
    define m1 where "m1 = memmove ?m ?d src n"
    define v1 where "v1 = move_mem v ?d src n"
    have v1: "bs_mem (vs_pm v1) = m1" "vs_lock v1 = vs_lock v" "vs_pm v1 = (vs_pm v)\<lparr>bs_mem := m1\<rparr>"
      and v1m: "v1\<lparr>vs_pm := (vs_pm v1)\<lparr>bs_mem := m'\<rparr>\<rparr> = v\<lparr>vs_pm := (vs_pm v)\<lparr>bs_mem := m'\<rparr>\<rparr>" for m'
      by (simp_all add: v1_def m1_def move_mem_def)
    have m1: "m1 x = (if ?d \<le> x \<and> x < ?d + n then ?m (src + (x - ?d)) else ?m x)" for x
      unfolding m1_def memmove_apply [OF c(6)] by simp
    have out: "m1 x = ?m x" if "x \<notin> page_bytes ?q" for x
      using that c(7) by (auto simp: m1 page_off_eq)
    have tab1: "pt_tree m1 pt T" by (rule table_untouched(1) [OF less.prems(1) PTE2PA_aligned c(3) out])
    have tab2: "pte_at m1 T x = pte_at ?m T x" for x
      by (rule table_untouched(2) [OF less.prems(1) PTE2PA_aligned c(3) out])
    have ph: "phys m1 T x = phys ?m T x" for x by (simp add: phys_def tab2)
    have w: "walkaddr v pt (PGROUNDDOWN va) = Some (?q, v)"
      using walkaddr_tree [OF less.prems(1,2) c(10)] c(2,9) by simp
    have q0: "?q \<noteq> 0" using c(2) by (simp add: user_page_def)
    have step: "copyout_loop v pt va src len =
        copyout_loop v1 pt (PGROUNDDOWN va + PGSIZE) (src + n) (len - n)"
      using False w q0 by (subst copyout_loop.simps) (simp add: Let_def n_def v1_def)
    show ?thesis
    proof (cases "n = len")
      case True
      then have "copyout_loop v pt va src len = Some (0, v1)" unfolding step by (simp add: copyout_loop.simps)
      moreover have "v1 = v\<lparr>vs_pm := (vs_pm v)\<lparr>bs_mem := m1\<rparr>\<rparr>" by (simp add: v1_def m1_def move_mem_def)
      moreover have "m1 x = ?m x" if "\<forall>i < len. x \<noteq> phys ?m T (va + i)" for x
      proof (cases "?d \<le> x \<and> x < ?d + n")
        case inside: True
        then have "x = phys ?m T (va + (x - ?d))" using c(8) [of "x - ?d"] by auto
        moreover have "x - ?d < len" using inside True by auto
        ultimately show ?thesis using that by blast
      qed (auto simp: m1)
      moreover have "m1 (phys ?m T (va + i)) = ?m (src + i)" if "i < len" for i
        using c(8) [of i] that True by (simp add: m1)
      ultimately show ?thesis by blast
    next
      case False
      then have lt: "n < len" using c(5) by simp
      have r: "user_range m1 T (va + n) (len - n)" by (rule user_range_drop [OF less.prems(3) c(5) tab2])
      have srcm: "m1 (src + j) = ?m (src + j)" if "j < len" for j
      proof (cases "?d \<le> src + j \<and> src + j < ?d + n")
        case True
        then have "src + j = phys ?m T (va + (src + j - ?d))" using c(8) [of "src + j - ?d"] by auto
        moreover have "src + j - ?d < len" using True lt by auto
        ultimately show ?thesis using less.prems(4) [of "src + j - ?d" j] that by metis
      qed (auto simp: m1)
      have sep: "phys m1 T (va + n + i) \<noteq> src + n + j" if "i < len - n" "j < len - n" for i j
        using less.prems(4) [of "n + i" "n + j"] that unfolding ph by (simp add: add.assoc)
      obtain m' where m': "copyout_loop v1 pt (va + n) (src + n) (len - n) = Some (0, v\<lparr>vs_pm := (vs_pm v)\<lparr>bs_mem := m'\<rparr>\<rparr>)"
        "\<And>i. i < len - n \<Longrightarrow> m' (phys ?m T (va + n + i)) = m1 (src + n + i)"
        "\<And>x. (\<And>i. i < len - n \<Longrightarrow> x \<noteq> phys ?m T (va + n + i)) \<Longrightarrow> m' x = m1 x"
        using less.IH [of "len - n" v1 "va + n" "src + n"] c(4) lt less.prems(2) tab1 r sep
        unfolding v1(1,2) v1m ph by auto
      have inj: "phys ?m T (va + i) \<noteq> phys ?m T (va + j)" if "i < len" "j < len" "i \<noteq> j" for i j
        using less.prems(3) that unfolding user_range_def by (metis inj_onD lessThan_iff)
      have "m' (phys ?m T (va + i)) = ?m (src + i)" if i: "i < len" for i
      proof (cases "i < n")
        case True
        have "m' (phys ?m T (va + i)) = m1 (phys ?m T (va + i))"
          by (rule m'(3)) (use inj [of i "n + k" for k] True i in \<open>auto simp: add.assoc\<close>)
        also have "\<dots> = ?m (src + i)" using c(8) [OF True] True by (simp add: m1)
        finally show ?thesis .
      next
        case False
        then show ?thesis using m'(2) [of "i - n"] srcm [OF i] i by simp
      qed
      moreover have "m' x = ?m x" if x: "\<forall>i < len. x \<noteq> phys ?m T (va + i)" for x
      proof -
        have "m' x = m1 x" by (rule m'(3)) (use x [rule_format, of "n + k" for k] in \<open>auto simp: add.assoc\<close>)
        also have "\<dots> = ?m x"
        proof (cases "?d \<le> x \<and> x < ?d + n")
          case True
          then have "x = phys ?m T (va + (x - ?d))" using c(8) [of "x - ?d"] by auto
          moreover have "x - ?d < len" using True lt by auto
          ultimately show ?thesis using x by blast
        qed (auto simp: m1)
        finally show ?thesis .
      qed
      moreover have "copyout_loop v pt va src len = Some (0, v\<lparr>vs_pm := (vs_pm v)\<lparr>bs_mem := m'\<rparr>\<rparr>)"
        unfolding step c(11) [OF lt] by (rule m'(1))
      ultimately show ?thesis by blast
    qed
  qed
qed

section \<open>Copying from user memory\<close>

text \<open>
  The kernel buffer must lie outside the table and outside the user pages that are read. The pages
  may alias here, but the same notion of a range serves both directions.
\<close>

definition kernel_buf :: "mem \<Rightarrow> tree \<Rightarrow> addr \<Rightarrow> nat \<Rightarrow> addr \<Rightarrow> nat \<Rightarrow> bool" where
  "kernel_buf m T va len dst n \<longleftrightarrow>
     (\<forall>p t. T p = Some t \<longrightarrow> {dst..<dst + n} \<inter> page_bytes t = {}) \<and>
     (\<forall>i < len. phys m T (va + i) \<notin> {dst..<dst + n})"

lemma copyin_range:
  assumes "pt_tree (bs_mem (vs_pm v)) pt T" "\<not> vs_lock v" "user_range (bs_mem (vs_pm v)) T va len"
    and "kernel_buf (bs_mem (vs_pm v)) T va len dst len"
  shows "\<exists>m'. copyin_loop v pt dst va len = Some (0, v\<lparr>vs_pm := (vs_pm v)\<lparr>bs_mem := m'\<rparr>\<rparr>) \<and>
    (\<forall>i < len. m' (dst + i) = bs_mem (vs_pm v) (phys (bs_mem (vs_pm v)) T (va + i))) \<and>
    (\<forall>x. x \<notin> {dst..<dst + len} \<longrightarrow> m' x = bs_mem (vs_pm v) x)"
  using assms
proof (induction len arbitrary: v va dst rule: less_induct)
  case (less len)
  show ?case
  proof (cases "len = 0")
    case True then show ?thesis by (subst copyin_loop.simps) (intro exI [of _ "bs_mem (vs_pm v)"], simp)
  next
    case False
    let ?m = "bs_mem (vs_pm v)"
    define n where "n = min (PGSIZE - page_off va) len"
    have "0 < len" using False by simp
    note c = user_chunk [OF less.prems(3) this n_def]
    let ?q = "PTE2PA (pte_at ?m T va)"
    let ?d = "?q + page_off va"
    define m1 where "m1 = memmove ?m dst ?d n"
    define v1 where "v1 = move_mem v dst ?d n"
    have v1: "bs_mem (vs_pm v1) = m1" "vs_lock v1 = vs_lock v"
      and v1m: "v1\<lparr>vs_pm := (vs_pm v1)\<lparr>bs_mem := m'\<rparr>\<rparr> = v\<lparr>vs_pm := (vs_pm v)\<lparr>bs_mem := m'\<rparr>\<rparr>" for m'
      by (simp_all add: v1_def m1_def move_mem_def)
    have m1: "m1 x = (if dst \<le> x \<and> x < dst + n then ?m (?d + (x - dst)) else ?m x)" for x
      unfolding m1_def memmove_apply [OF c(6)] by simp
    have t1: "m1 x = ?m x" if "T p = Some t" "x \<in> page_bytes t" for p t x
      using less.prems(4) that c(5) unfolding kernel_buf_def m1 by fastforce
    have tab1: "pt_tree m1 pt T" by (rule pt_tree_cong [OF less.prems(1) t1])
    have tab2: "pte_at m1 T x = pte_at ?m T x" for x by (rule pte_at_cong [OF t1])
    have ph: "phys m1 T x = phys ?m T x" for x by (simp add: phys_def tab2)
    have w: "walkaddr v pt (PGROUNDDOWN va) = Some (?q, v)"
      using walkaddr_tree [OF less.prems(1,2) c(10)] c(2,9) by simp
    have q0: "?q \<noteq> 0" using c(2) by (simp add: user_page_def)
    have step: "copyin_loop v pt dst va len = copyin_loop v1 pt (dst + n) (PGROUNDDOWN va + PGSIZE) (len - n)"
      using False w q0 by (subst copyin_loop.simps) (simp add: Let_def n_def v1_def)
    have first: "m1 (dst + i) = ?m (phys ?m T (va + i))" if "i < n" for i
      using c(8) [OF that] that by (simp add: m1)
    show ?thesis
    proof (cases "n = len")
      case True
      then have "copyin_loop v pt dst va len = Some (0, v1)" unfolding step by (simp add: copyin_loop.simps)
      moreover have "v1 = v\<lparr>vs_pm := (vs_pm v)\<lparr>bs_mem := m1\<rparr>\<rparr>" by (simp add: v1_def m1_def move_mem_def)
      moreover have "m1 x = ?m x" if "x \<notin> {dst..<dst + len}" for x using that True by (auto simp: m1)
      ultimately show ?thesis using True first by blast
    next
      case False
      then have lt: "n < len" using c(5) by simp
      have r: "user_range m1 T (va + n) (len - n)" by (rule user_range_drop [OF less.prems(3) c(5) tab2])
      have kb: "kernel_buf m1 T (va + n) (len - n) (dst + n) (len - n)"
        unfolding kernel_buf_def ph
      proof (intro conjI allI impI)
        fix p t assume "T p = Some t"
        then show "{dst + n..<dst + n + (len - n)} \<inter> page_bytes t = {}"
          using less.prems(4) lt unfolding kernel_buf_def by fastforce
      next
        fix i assume "i < len - n"
        then show "phys ?m T (va + n + i) \<notin> {dst + n..<dst + n + (len - n)}"
          using less.prems(4) lt unfolding kernel_buf_def by (auto simp: add.assoc)
      qed
      obtain m' where m': "copyin_loop v1 pt (dst + n) (va + n) (len - n) = Some (0, v\<lparr>vs_pm := (vs_pm v)\<lparr>bs_mem := m'\<rparr>\<rparr>)"
        "\<And>i. i < len - n \<Longrightarrow> m' (dst + n + i) = m1 (phys ?m T (va + n + i))"
        "\<And>x. x \<notin> {dst + n..<dst + n + (len - n)} \<Longrightarrow> m' x = m1 x"
        using less.IH [of "len - n" v1 "va + n" "dst + n"] c(4) lt less.prems(2) tab1 r kb
        unfolding v1 v1m ph by auto
      have "m' (dst + i) = ?m (phys ?m T (va + i))" if i: "i < len" for i
      proof (cases "i < n")
        case True then show ?thesis using m'(3) [of "dst + i"] first by simp
      next
        case False
        have "phys ?m T (va + i) \<notin> {dst..<dst + len}" using less.prems(4) i unfolding kernel_buf_def by blast
        then have "m1 (phys ?m T (va + i)) = ?m (phys ?m T (va + i))" using lt by (auto simp: m1)
        then show ?thesis using m'(2) [of "i - n"] False i by simp
      qed
      moreover have "m' x = ?m x" if "x \<notin> {dst..<dst + len}" for x
        using m'(3) [of x] that lt by (auto simp: m1)
      moreover have "copyin_loop v pt dst va len = Some (0, v\<lparr>vs_pm := (vs_pm v)\<lparr>bs_mem := m'\<rparr>\<rparr>)"
        unfolding step c(11) [OF lt] by (rule m'(1))
      ultimately show ?thesis by blast
    qed
  qed
qed

text \<open>A range with a page that the user may not touch makes either routine fail with -1.\<close>

lemma copyin_fault:
  assumes T: "pt_tree (bs_mem (vs_pm v)) pt T" and l: "\<not> vs_lock v" and va: "va < MAXVA" "0 < len"
    and n: "\<not> user_page (pte_at (bs_mem (vs_pm v)) T va)"
  shows "copyin v pt dst va len = Some (-1, v)" "copyout v pt va src len = Some (-1, v)"
proof -
  have d: "PGROUNDDOWN va = va div PGSIZE * PGSIZE" using va(1) by (rule PGROUNDDOWN_va)
  have "PGROUNDDOWN va < MAXVA" unfolding d using va(1) by (meson div_times_less_eq_dividend le_less_trans)
  moreover have "pte_at m T (PGROUNDDOWN va) = pte_at m T va" for m unfolding d by (rule pte_at_page) simp
  ultimately have w: "walkaddr v pt (PGROUNDDOWN va) = Some (0, v)"
    using walkaddr_tree [OF T l] n by simp
  show "copyin v pt dst va len = Some (-1, v)"
    using va w by (simp add: copyin_def copyin_loop.simps [of v pt dst va len])
  show "copyout v pt va src len = Some (-1, v)"
    using va w by (simp add: copyout_def copyout_loop.simps [of v pt va src len])
qed

section \<open>Unmapping\<close>

definition cleared :: "pte \<Rightarrow> pte" where
  "cleared e = (if e AND PTE_V = 0 then e else 0)"

lemma same_page_entry: "vb \<in> same_page va \<Longrightarrow> pte_at m T vb = pte_at m T va"
  by (rule pte_at_page) simp

lemma unmap_page_keep:
  assumes i: "pt_inv s pt T" and va: "va < MAXVA"
    and leaf: "PTE_FLAGS (pte_at (bs_mem s) T va) \<noteq> PTE_V"
  shows "\<exists>s'. unmap_page s pt va False = Some s' \<and> pt_inv s' pt T \<and>
    remaps 0 s T (same_page va) (\<lambda>vb. cleared (pte_at (bs_mem s) T vb)) s' T"
proof -
  have T: "pt_tree (bs_mem s) pt T" using i by (simp add: pt_inv_def)
  note w = walk_tree [OF T va]
  let ?g = "\<lambda>vb. cleared (pte_at (bs_mem s) T vb)"
  show ?thesis
  proof (cases "pte_at (bs_mem s) T va AND PTE_V = 0")
    case True
    then have "unmap_page s pt va False = Some s"
      using w by (auto simp: unmap_page_def pte_at_def split: option.splits)
    moreover have "?g vb = pte_at (bs_mem s) T vb" if "vb \<in> same_page va" for vb
      using True same_page_entry [OF that] by (simp add: cleared_def)
    then have "remaps 0 s T (same_page va) ?g s T" by (simp add: remaps_def)
    ultimately show ?thesis using i by blast
  next
    case False
    then obtain a where a: "slot T va = Some a" "read64 (bs_mem s) a = pte_at (bs_mem s) T va"
      by (auto simp: pte_at_def split: option.splits)
    then have "a \<noteq> 0" using slot_nonzero [OF T] by blast
    then have "unmap_page s pt va False = Some (put64 s a 0)"
      using w a leaf False by (simp add: unmap_page_def Let_def)
    moreover have "?g vb = 0" if "vb div PGSIZE = va div PGSIZE" for vb
      using False same_page_entry [of vb va] that by (simp add: cleared_def)
    ultimately show ?thesis using put_leaf [OF i a(1) va, of ?g 0] by blast
  qed
qed

lemma unmap_loop_keep:
  assumes b: "b mod PGSIZE = 0" and lim: "b + n * PGSIZE \<le> MAXVA" and i: "pt_inv s pt T"
    and leaf: "\<And>va. b \<le> va \<Longrightarrow> va < b + n * PGSIZE \<Longrightarrow> PTE_FLAGS (pte_at (bs_mem s) T va) \<noteq> PTE_V"
  shows "\<exists>s'. unmap_loop s pt b (b + n * PGSIZE) False = Some s' \<and> pt_inv s' pt T \<and>
    remaps 0 s T {b..<b + n * PGSIZE} (\<lambda>vb. cleared (pte_at (bs_mem s) T vb)) s' T"
  using assms
proof (induction n arbitrary: b s)
  case 0
  have "remaps 0 s T {} g s T" for g by (rule grows_remaps [OF grows_refl])
  then show ?case using 0 by (subst unmap_loop.simps) auto
next
  case (Suc n)
  have b0: "b < MAXVA" using Suc.prems(2) by simp
  let ?g = "\<lambda>vb. cleared (pte_at (bs_mem s) T vb)"
  obtain s1 where 1: "unmap_page s pt b False = Some s1" "pt_inv s1 pt T" "remaps 0 s T (same_page b) ?g s1 T"
    using unmap_page_keep [OF Suc.prems(3) b0] Suc.prems(4) [of b] by auto
  have sp: "same_page b = {b..<b + PGSIZE}" using page_range [OF Suc.prems(1), of 0] by simp
  have e1: "pte_at (bs_mem s1) T va = pte_at (bs_mem s) T va" if "b + PGSIZE \<le> va" "va < b + Suc n * PGSIZE" for va
    using remapsD(6) [OF 1(3), of va] that Suc.prems(2) unfolding sp by simp
  obtain s2 where 2: "unmap_loop s1 pt (b + PGSIZE) (b + PGSIZE + n * PGSIZE) False = Some s2" "pt_inv s2 pt T"
    "remaps 0 s1 T {b + PGSIZE..<b + PGSIZE + n * PGSIZE} (\<lambda>vb. cleared (pte_at (bs_mem s1) T vb)) s2 T"
    using Suc.IH [of "b + PGSIZE" s1] Suc.prems(1,2) 1(2) e1 Suc.prems(4) by (auto simp: add.assoc mod_add_self2)
  have "remaps 0 s1 T {b + PGSIZE..<b + PGSIZE + n * PGSIZE} ?g s2 T"
    using 2(3) e1 unfolding remaps_def by (auto simp: add.assoc)
  from remaps_trans [OF 1(3) this] have "remaps 0 s T ({b..<b + PGSIZE} \<union> {b + PGSIZE..<b + PGSIZE + n * PGSIZE}) ?g s2 T"
    unfolding sp by simp
  moreover have "{b..<b + PGSIZE} \<union> {b + PGSIZE..<b + PGSIZE + n * PGSIZE} = {b..<b + Suc n * PGSIZE}" by auto
  moreover have "unmap_loop s pt b (b + Suc n * PGSIZE) False = Some s2"
    using 1(1) 2(1) by (subst unmap_loop.simps) (simp add: add.assoc)
  ultimately show ?case using 2(2) by auto
qed

text \<open>
  Unmapping a page and releasing its memory: the whole live block that contains the page is released,
  whatever its size.
\<close>

lemma unmap_page_block:
  assumes i: "pt_inv s pt T" and va: "va < MAXVA"
    and e: "e = pte_at (bs_mem s) T va" "e AND PTE_V \<noteq> 0" "PTE_FLAGS e \<noteq> PTE_V"
    and b: "(a, k) \<in> live_blocks s" "PTE2PA e \<in> block_bytes (a, k)"
    and T0: "\<And>p t. T p = Some t \<Longrightarrow> t \<notin> block_bytes (a, k)"
  shows "\<exists>s'. unmap_page s pt va True = Some s' \<and> pt_inv s' pt T \<and> same_region s s' \<and>
    live_blocks s' = live_blocks s - {(a, k)} \<and> frames s' = frames s - {f. f \<in> block_bytes (a, k)} \<and>
    (\<forall>vb < MAXVA. pte_at (bs_mem s') T vb = (if vb \<in> same_page va then 0 else pte_at (bs_mem s) T vb)) \<and>
    (\<forall>f \<in> frames s. (\<forall>p. T p \<noteq> Some f) \<longrightarrow> (\<forall>x \<in> page_bytes f. bs_mem s' x = bs_mem s x))"
proof -
  note I = i [unfolded pt_inv_def]
  have T: "pt_tree (bs_mem s) pt T" using I by blast
  obtain sl where sl: "slot T va = Some sl" "read64 (bs_mem s) sl = e"
    using e(1,2) by (auto simp: pte_at_def split: option.splits)
  have sl0: "sl \<noteq> 0" using slot_nonzero [OF T sl(1)] .
  obtain s1 where s1: "pmem_free_pages s (PTE2PA e) 1 = Some s1" "buddy_wf s1" "\<not> bs_lock s1" "bs_mem s1 = bs_mem s"
    "same_region s s1" "live_blocks s1 = live_blocks s - {(a, k)}" "frames s1 = frames s - {f. f \<in> block_bytes (a, k)}"
    using pmem_free_live [OF _ _ b, of 1] I by auto
  have "mem_start s \<le> PTE2PA e \<and> PTE2PA e < mem_end s"
    using live_in_region [OF _ b] I by blast
  moreover from this have "PTE2PA e \<noteq> 0" using inv_geom [of s "{}"] I by (auto simp: buddy_geom_def)
  ultimately have "unmap_page s pt va True = Some (put64 s1 sl 0)"
    using walk_tree [OF T va] sl sl0 e(2,3) s1(1) by (simp add: unmap_page_def Let_def)
  moreover have i1: "pt_inv s1 pt T" using I s1 T0 unfolding pt_inv_def by auto
  note put_leaf [OF i1 sl(1) va, of "\<lambda>_. 0" 0]
  moreover have "bs_mem (put64 s1 sl 0) x = bs_mem s x" if f: "f \<in> frames s" "\<forall>p. T p \<noteq> Some f" "x \<in> page_bytes f" for f x
  proof -
    obtain t where t: "T [PX 2 va, PX 1 va] = Some t" "PGSIZE dvd t" "{sl..<sl + 8} \<subseteq> page_bytes t"
      using slot_in_table [OF T sl(1)] by metis
    then have "f \<noteq> t" using f by auto
    then have "x \<notin> page_bytes t" using pages_apart [of f t] frames_aligned [of s f] I f t(2) by auto
    then show ?thesis using t(3) s1(4) by (force simp: put64_def intro!: write64_other)
  qed
  ultimately show ?thesis using s1 by (intro exI [of _ "put64 s1 sl 0"])
    (auto simp: put64_def remaps_def same_region_def live_blocks_def is_block_def)
qed

section \<open>Fresh frames and new tables\<close>

lemma alloc_grows:
  assumes i: "pt_inv s pt T" and av: "0 < free_count s"
  shows "\<exists>a s'. pmem_alloc_pages s 1 = Some (a, s') \<and> pt_inv s' pt T \<and> grows 1 s T s' T \<and>
    PGSIZE dvd a \<and> 0 < a \<and> a < 2 ^ 64 \<and> a \<notin> frames s \<and> a \<in> frames s' \<and> (\<forall>x \<in> page_bytes a. bs_mem s' x = 0)"
proof -
  note I = i [unfolded pt_inv_def]
  obtain a s' where s': "pmem_alloc_pages s 1 = Some (a, s')" "buddy_wf s'" "\<not> bs_lock s'" "same_region s s'"
    "PGSIZE dvd a" "0 < a" "a < 2 ^ 64" "a \<notin> frames s" "frames s' = insert a (frames s)"
    "free_count s' = free_count s - 1" "bs_mem s' = (\<lambda>x. if x \<in> page_bytes a then 0 else bs_mem s x)"
    "live_blocks s' = insert (a, 0) (live_blocks s)"
    using alloc_one_frame [of s] I av by blast
  have old: "bs_mem s' x = bs_mem s x" if "f \<in> frames s" "x \<in> page_bytes f" for f x
  proof -
    have "f \<noteq> a" "PGSIZE dvd f" using that(1) s'(8) frames_aligned [of s f] I by auto
    then have "x \<notin> page_bytes a" using pages_apart [OF _ s'(5), of f] that(2) by blast
    then show ?thesis unfolding s'(11) by (simp only: if_False)
  qed
  have t: "bs_mem s' x = bs_mem s x" if "T p = Some t" "x \<in> page_bytes t" for p t x
    using old [of t x] I that by blast
  have "pt_tree (bs_mem s') pt T" by (rule pt_tree_cong [of "bs_mem s"]) (use I t in blast)+
  then have "pt_inv s' pt T" using I s'(2,3,9) unfolding pt_inv_def by blast
  moreover have "pte_at (bs_mem s') T va = pte_at (bs_mem s) T va" for va by (rule pte_at_cong [OF t])
  then have "grows 1 s T s' T" using s'(4,9,10,12) old unfolding grows_def by auto
  moreover have "bs_mem s' x = 0" if "x \<in> page_bytes a" for x using that unfolding s'(11) by simp
  ultimately show ?thesis using s'(1,5-9) by blast
qed

text \<open>The same for a block of several pages.\<close>

lemma pmem_alloc_block:
  assumes wf: "buddy_wf s" and l: "\<not> bs_lock s" and n: "0 < n" "get_order n = int k" "k \<le> BUDDY_MAX_ORDER"
    and av: "find_order (free_lists s) k = Some j"
  shows "\<exists>p s'. pmem_alloc_pages s (int n) = Some (page_addr s p, s') \<and> buddy_wf s' \<and> \<not> bs_lock s' \<and> same_region s s' \<and>
    p + 2 ^ k \<le> total_pages s \<and> page_addr s p mod (PGSIZE * 2 ^ k) = 0 \<and> pages_of p k \<inter> used_pages s = {} \<and>
    used_pages s' = used_pages s \<union> pages_of p k \<and> live_blocks s' = insert (page_addr s p, k) (live_blocks s) \<and>
    bs_mem s' = memset (bs_mem s) (page_addr s p) 0 (PGSIZE * 2 ^ k) \<and> free_count s = free_count s' + 2 ^ k"
proof -
  obtain p :: nat and s' :: buddy_system where s': "buddy_alloc s (int k) = Some (page_addr s p, s')" "buddy_wf s'" "\<not> bs_lock s'" "same_region s s'"
    "p + 2 ^ k \<le> total_pages s" "page_addr s p mod (PGSIZE * 2 ^ k) = 0" "pages_of p k \<inter> used_pages s = {}"
    "used_pages s' = used_pages s \<union> pages_of p k" "live_blocks s' = insert (page_addr s p, k) (live_blocks s)"
    "bs_mem s' = memset (bs_mem s) (page_addr s p) 0 (PGSIZE * 2 ^ k)"
    using alloc_effect [OF wf l n(3) av] by metis
  have "0 < mem_start s" using inv_geom [OF wf] by (simp add: buddy_geom_def)
  then have "pmem_alloc_pages s (int n) = Some (page_addr s p, s')"
    using s'(1) n(1,2) by (simp add: pmem_alloc_pages_def Let_def)
  moreover have "free_count s = free_count s' + 2 ^ k" using free_count_alloc [OF s'(1) l n(3) av] by simp
  ultimately show ?thesis using s'(2-10) by (intro exI [of _ p] exI [of _ s'] conjI)
qed

lemma alloc_block_grows:
  assumes i: "pt_inv s pt T" and n: "0 < n" "get_order n = int k" "k \<le> BUDDY_MAX_ORDER"
    and av: "find_order (free_lists s) k = Some j"
  shows "\<exists>a s'. pmem_alloc_pages s (int n) = Some (a, s') \<and> pt_inv s' pt T \<and> grows (2 ^ k) s T s' T \<and>
    (a, k) \<in> live_blocks s' \<and> PGSIZE dvd a \<and> 0 < a \<and> a + PGSIZE * 2 ^ k \<le> 2 ^ 64 \<and>
    (\<forall>x \<in> block_bytes (a, k). bs_mem s' x = 0) \<and> (\<forall>f \<in> frames s. page_bytes f \<inter> block_bytes (a, k) = {})"
proof -
  note I = i [unfolded pt_inv_def]
  have wf: "buddy_wf s" "\<not> bs_lock s" using I by blast+
  obtain p :: nat and s' :: buddy_system where s': "pmem_alloc_pages s (int n) = Some (page_addr s p, s')" "buddy_wf s'" "\<not> bs_lock s'" "same_region s s'"
    "p + 2 ^ k \<le> total_pages s" "page_addr s p mod (PGSIZE * 2 ^ k) = 0" "pages_of p k \<inter> used_pages s = {}"
    "used_pages s' = used_pages s \<union> pages_of p k" "live_blocks s' = insert (page_addr s p, k) (live_blocks s)"
    "bs_mem s' = memset (bs_mem s) (page_addr s p) 0 (PGSIZE * 2 ^ k)" "free_count s = free_count s' + 2 ^ k"
    using pmem_alloc_block [OF wf n av] by metis
  let ?a = "page_addr s p"
  have geo: "buddy_geom s" by (rule inv_geom [OF wf(1)])
  have lim: "?a + PGSIZE * 2 ^ k \<le> 2 ^ 64" using geom_addr_less [OF geo s'(5)] by (simp add: add_mult_distrib)
  have "(2::nat) ^ k \<le> 2 ^ BUDDY_MAX_ORDER" using n(3) by (intro power_increasing) auto
  then have mem: "bs_mem s' = (\<lambda>x. if ?a \<le> x \<and> x < ?a + PGSIZE * 2 ^ k then 0 else bs_mem s x)"
    unfolding s'(10) using lim by (intro memset_apply) simp_all
  have apart: "page_bytes f \<inter> block_bytes (?a, k) = {}" if f: "f \<in> frames s" for f
  proof -
    obtain q where q: "f = page_addr s q" "q \<in> used_pages s" using f unfolding frames_def by blast
    then have "q \<notin> pages_of p k" using s'(7) by blast
    then have "q < p \<or> p + 2 ^ k \<le> q" by auto
    then have "Suc q * PGSIZE \<le> p * PGSIZE \<or> (p + 2 ^ k) * PGSIZE \<le> q * PGSIZE"
      by (simp only: mult_le_cancel2) auto
    then show ?thesis unfolding q(1) block_bytes_def by (auto simp: add_mult_distrib)
  qed
  have old: "bs_mem s' x = bs_mem s x" if "f \<in> frames s" "x \<in> page_bytes f" for f x
    using apart [OF that(1)] that(2) unfolding mem block_bytes_def by auto
  have t: "bs_mem s' x = bs_mem s x" if "T q = Some t" "x \<in> page_bytes t" for q t x
    using old [of t x] I that by blast
  have fr: "frames s \<subseteq> frames s'" using s'(4,8) unfolding frames_def by (auto simp: same_region_def)
  have "pt_tree (bs_mem s') pt T" by (rule pt_tree_cong [of "bs_mem s"]) (use I t in blast)+
  then have "pt_inv s' pt T" using I s'(2,3) fr unfolding pt_inv_def by blast
  moreover have "pte_at (bs_mem s') T va = pte_at (bs_mem s) T va" for va by (rule pte_at_cong [OF t])
  then have "grows (2 ^ k) s T s' T" using s'(4,9,11) fr old unfolding grows_def by auto
  moreover have "PGSIZE dvd ?a" "0 < ?a" using geo unfolding buddy_geom_def by auto
  moreover have "bs_mem s' x = 0" if "x \<in> block_bytes (?a, k)" for x using that unfolding mem block_bytes_def by auto
  ultimately show ?thesis using s'(1,9) lim apart by blast
qed

text \<open>Writing to a frame that is not a table.\<close>

lemma fill_frame:
  assumes i: "pt_inv s pt T" and a: "PGSIZE dvd a" "\<And>p. T p \<noteq> Some a" and m: "\<And>x. x \<notin> page_bytes a \<Longrightarrow> m x = bs_mem s x"
  shows "pt_inv (s\<lparr>bs_mem := m\<rparr>) pt T" "pte_at m T va = pte_at (bs_mem s) T va"
proof -
  have T: "pt_tree (bs_mem s) pt T" using i by (simp add: pt_inv_def)
  show "pt_inv (s\<lparr>bs_mem := m\<rparr>) pt T" using i table_untouched(1) [OF T a m] by (simp add: pt_inv_def)
  show "pte_at m T va = pte_at (bs_mem s) T va" by (rule table_untouched(2) [OF T a m])
qed

lemma empty_table:
  assumes "\<And>x. x \<in> page_bytes pt \<Longrightarrow> m x = 0" "PGSIZE dvd pt" "0 < pt" "pt < 2 ^ 64"
  shows "pt_tree m pt [[] \<mapsto> pt]" "pte_at m [[] \<mapsto> pt] va = 0"
proof -
  have "read64 m (pt + 8 * i) = 0" if "i < 512" for i by (rule read64_zero) (use assms(1) that in auto)
  then show "pt_tree m pt [[] \<mapsto> pt]" using assms(2-4) by (auto simp: pt_tree_def split: if_splits)
  show "pte_at m [[] \<mapsto> pt] va = 0" by (simp add: pte_at_def slot_def)
qed

section \<open>Mapping a range\<close>

lemma PGROUNDDOWN_end:
  assumes "0 < len" "va + len \<le> MAXVA"
  shows "PGROUNDDOWN (sub64 (add64 va len) 1) = (va + len - 1) div PGSIZE * PGSIZE"
proof -
  have "va + len < 2 ^ 64" using assms(2) by simp
  then have "sub64 (add64 va len) 1 = va + len - 1" using assms(1) by (simp add: add64_in_range sub64_in_range)
  then show ?thesis using assms by (simp add: PGROUNDDOWN_va)
qed

text \<open>The pages of a byte range, counted.\<close>

definition page_count :: "addr \<Rightarrow> nat \<Rightarrow> nat" where
  "page_count va len = (va + len - 1) div PGSIZE - va div PGSIZE + 1"

lemma map_pages_eq:
  assumes "0 < len" "va + len \<le> MAXVA" "pa mod PGSIZE = 0"
  shows "mappages_internal s pt va pa len perm =
    map_loop s pt (va div PGSIZE * PGSIZE) (va div PGSIZE * PGSIZE + (page_count va len - 1) * PGSIZE) pa perm"
proof -
  have "va div PGSIZE \<le> (va + len - 1) div PGSIZE" using assms(1) by (intro div_le_mono) simp
  then have "va div PGSIZE * PGSIZE + (page_count va len - 1) * PGSIZE = (va + len - 1) div PGSIZE * PGSIZE"
    by (simp add: page_count_def add_mult_distrib [symmetric])
  moreover have "va < MAXVA" using assms by simp
  ultimately show ?thesis
    unfolding mappages_internal_def PGROUNDDOWN_end [OF assms(1,2)] using assms(3) by (simp add: PGROUNDDOWN_va)
qed

lemma page_count_end:
  assumes "0 < len" "va + len \<le> MAXVA"
  shows "va div PGSIZE * PGSIZE + page_count va len * PGSIZE \<le> MAXVA"
proof -
  have "va div PGSIZE \<le> (va + len - 1) div PGSIZE" using assms(1) by (intro div_le_mono) simp
  then have "va div PGSIZE * PGSIZE + page_count va len * PGSIZE = ((va + len - 1) div PGSIZE + 1) * PGSIZE"
    by (simp add: page_count_def algebra_simps)
  moreover have "(va + len - 1) div PGSIZE < 2 ^ 26" using assms by (intro less_mult_imp_div_less) simp
  then have "((va + len - 1) div PGSIZE + 1) * PGSIZE \<le> 2 ^ 26 * PGSIZE" by (intro mult_le_mono1) simp
  ultimately show ?thesis by simp
qed

lemma in_page_range:
  "va div PGSIZE * PGSIZE \<le> vb \<and> vb < va div PGSIZE * PGSIZE + n * PGSIZE \<longleftrightarrow>
   va div PGSIZE \<le> vb div PGSIZE \<and> vb div PGSIZE < va div PGSIZE + n"
proof -
  have 1: "c * PGSIZE \<le> vb \<longleftrightarrow> c \<le> vb div PGSIZE" for c by (simp add: less_eq_div_iff_mult_less_eq)
  then have 2: "vb < c * PGSIZE \<longleftrightarrow> vb div PGSIZE < c" for c by (meson not_le)
  show ?thesis unfolding add_mult_distrib [symmetric] 1 2 ..
qed

lemma map_range:
  assumes i: "pt_inv s pt T" and len: "0 < len" "va + len \<le> MAXVA" and pa: "pa mod PGSIZE = 0"
    and av: "2 * page_count va len \<le> free_count s"
    and un: "\<And>vb. va div PGSIZE \<le> vb div PGSIZE \<Longrightarrow> vb div PGSIZE < va div PGSIZE + page_count va len \<Longrightarrow>
      pte_at (bs_mem s) T vb AND PTE_V = 0"
  shows "\<exists>s' T'. mappages_internal s pt va pa len perm = Some (1, s') \<and> pt_inv s' pt T' \<and>
    remaps (2 * page_count va len) s T
      {vb. va div PGSIZE \<le> vb div PGSIZE \<and> vb div PGSIZE < va div PGSIZE + page_count va len} (leaf_entry pa va perm) s' T'"
proof -
  let ?b = "va div PGSIZE * PGSIZE" and ?n = "page_count va len"
  define m where "m = ?n - 1"
  have n: "?n = Suc m" by (simp add: m_def page_count_def)
  have b0: "?b mod PGSIZE = 0" by simp
  have lim: "?b + ?n * PGSIZE \<le> MAXVA" by (rule page_count_end [OF len])
  have g: "leaf_entry pa ?b perm = leaf_entry pa va perm" by (simp add: leaf_entry_def fun_eq_iff)
  have un': "pte_at (bs_mem s) T vb AND PTE_V = 0" if "?b \<le> vb" "vb < ?b + ?n * PGSIZE" for vb
    using un [of vb] in_page_range [of va vb ?n] that by blast
  obtain s1 T1 where 1: "map_loop s pt ?b (?b + m * PGSIZE) pa perm =
      map_loop s1 pt (?b + m * PGSIZE) (?b + m * PGSIZE) (pa + m * PGSIZE) perm" "pt_inv s1 pt T1"
      "remaps (2 * m) s T {?b..<?b + m * PGSIZE} (leaf_entry pa ?b perm) s1 T1"
    using map_prefix [OF b0 _ order_refl i, of m pa perm] lim av un' n by auto
  let ?c = "?b + m * PGSIZE"
  have c: "?c < MAXVA" using lim n by simp
  have "pte_at (bs_mem s1) T1 ?c AND PTE_V = 0"
    using remapsD(6) [OF 1(3) c] un' [of ?c] n by simp
  moreover have "leaf_entry pa ?b perm vb = PA2PTE (pa + m * PGSIZE) OR perm OR PTE_V" if "vb div PGSIZE = ?c div PGSIZE" for vb
    unfolding leaf_entry_def that by simp
  moreover have "2 \<le> free_count s1" using remapsD(3) [OF 1(3)] av n by simp
  ultimately obtain s2 T2 where 2: "map_loop s1 pt ?c ?c (pa + m * PGSIZE) perm = Some (1, s2)"
      "pt_inv s2 pt T2" "remaps 2 s1 T1 (same_page ?c) (leaf_entry pa ?b perm) s2 T2"
    using map_one [OF 1(2) _ c, of "leaf_entry pa ?b perm" "pa + m * PGSIZE" perm ?c] by auto
  have "{?b..<?c} \<union> same_page ?c = {?b..<?b + ?n * PGSIZE}" unfolding page_range [OF b0] n by auto
  also have "\<dots> = {vb. va div PGSIZE \<le> vb div PGSIZE \<and> vb div PGSIZE < va div PGSIZE + ?n}"
    using in_page_range [of va _ ?n] by (intro set_eqI) (simp only: atLeastLessThan_iff mem_Collect_eq)
  finally have "remaps (2 * ?n) s T {vb. va div PGSIZE \<le> vb div PGSIZE \<and> vb div PGSIZE < va div PGSIZE + ?n}
      (leaf_entry pa va perm) s2 T2"
    using remaps_trans [OF 1(3) 2(3)] unfolding g n by (simp add: add.commute)
  moreover have "mappages_internal s pt va pa len perm = Some (1, s2)"
    unfolding map_pages_eq [OF len pa] using 1(1) 2(1) by (simp add: m_def)
  ultimately show ?thesis using 2(2) by blast
qed

lemma PTE_FLAGS_leaf:
  assumes "perm AND NOT 0x3FF = 0"
  shows "PTE_FLAGS (PA2PTE pa OR perm OR PTE_V) = perm OR PTE_V"
proof -
  have m: "(0x3FF :: pte) = mask 10" by (simp add: mask_eq_exp_minus_1)
  have "\<not> bit perm n" if "10 \<le> n" "n < 64" for n
  proof
    assume "bit perm n"
    then have "bit (perm AND NOT (mask 10)) n" using that by (simp add: bit_simps)
    then show False using assms unfolding m by simp
  qed
  then show ?thesis unfolding PTE_FLAGS_def m
    by (intro bit_word_eqI) (auto simp: PA2PTE_def bit_simps not_le [symmetric])
qed

section \<open>Checking user ranges\<close>

lemma range_ok_pages:
  assumes T: "pt_tree (bs_mem (vs_pm v)) pt T" and l: "\<not> vs_lock v"
  shows "cur mod PGSIZE = 0 \<Longrightarrow> limit \<le> MAXVA \<Longrightarrow> range_ok v pt need cur limit =
    Some (\<forall>x. cur \<le> x \<and> x < limit \<longrightarrow>
      (let e = pte_at (bs_mem (vs_pm v)) T x in e AND PTE_V \<noteq> 0 \<and> e AND PTE_U \<noteq> 0 \<and> e AND need \<noteq> 0))"
proof (induction "limit - cur" arbitrary: cur rule: less_induct)
  case less
  let ?P = "\<lambda>x. let e = pte_at (bs_mem (vs_pm v)) T x in e AND PTE_V \<noteq> 0 \<and> e AND PTE_U \<noteq> 0 \<and> e AND need \<noteq> 0"
  show ?case
  proof (cases "cur < limit")
    case False then show ?thesis by (subst range_ok.simps) auto
  next
    case True
    then have va: "cur < MAXVA" using less.prems by simp
    have w: "walk v pt cur False = Some (case slot T cur of None \<Rightarrow> 0 | Some a \<Rightarrow> a, v)"
      by (rule walk_unlocked [OF T l va])
    have sp: "?P x = ?P cur" if "cur \<le> x" "x < cur + PGSIZE" for x
    proof -
      have "same_page cur = {cur..<cur + PGSIZE}" using page_range [OF less.prems(1), of 0] by simp
      then have "x \<in> same_page cur" using that by simp
      then have "pte_at (bs_mem (vs_pm v)) T x = pte_at (bs_mem (vs_pm v)) T cur" by (rule same_page_entry)
      then show ?thesis by (simp only: )
    qed
    have IH: "range_ok v pt need (cur + PGSIZE) limit = Some (\<forall>x. cur + PGSIZE \<le> x \<and> x < limit \<longrightarrow> ?P x)"
      by (rule less.hyps) (use True less.prems in auto)
    have "range_ok v pt need cur limit = (if ?P cur then range_ok v pt need (cur + PGSIZE) limit else Some False)"
      using w True slot_nonzero [OF T, of cur]
      by (subst range_ok.simps) (auto simp: pte_at_def Let_def split: option.splits)
    also have "\<dots> = Some (\<forall>x. cur \<le> x \<and> x < limit \<longrightarrow> ?P x)"
    proof (cases "?P cur")
      case p: True
      have "(\<forall>x. cur + PGSIZE \<le> x \<and> x < limit \<longrightarrow> ?P x) \<longleftrightarrow> (\<forall>x. cur \<le> x \<and> x < limit \<longrightarrow> ?P x)"
      proof
        assume all: "\<forall>x. cur + PGSIZE \<le> x \<and> x < limit \<longrightarrow> ?P x"
        show "\<forall>x. cur \<le> x \<and> x < limit \<longrightarrow> ?P x"
        proof (intro allI impI)
          fix x assume "cur \<le> x \<and> x < limit"
          then show "?P x" using all p sp [of x] by (cases "x < cur + PGSIZE") auto
        qed
      qed simp
      then show ?thesis using p IH by (simp only: if_True)
    next
      case False
      then have "\<not> (\<forall>x. cur \<le> x \<and> x < limit \<longrightarrow> ?P x)" using True by blast
      then show ?thesis using False by (simp only: if_False)
    qed
    finally show ?thesis .
  qed
qed

section \<open>Copying one page of an address space\<close>

lemma page_count_split: "page_count 0x10000036e PGSIZE = 2"
  by (simp add: page_count_def)

lemma copy_page_split:
  assumes old: "pt_tree (bs_mem s) old To" and e: "e = pte_at (bs_mem s) To 0x10000036e" "e AND PTE_V \<noteq> 0"
    and new: "pt_inv s new T" and av: "5 \<le> free_count s"
    and un: "\<And>vb. vb div PGSIZE = 0x100000 \<or> vb div PGSIZE = 0x100001 \<Longrightarrow> pte_at (bs_mem s) T vb AND PTE_V = 0"
  shows "\<exists>mem s' T'. copy_page s old new 0x10000036e = Some (True, s') \<and> pt_inv s' new T' \<and> mem \<notin> frames s \<and>
    pte_at (bs_mem s') T' 0x100000000 = PA2PTE mem OR PTE_FLAGS e OR PTE_V \<and>
    pte_at (bs_mem s') T' 0x100001000 = PA2PTE (mem + PGSIZE) OR PTE_FLAGS e OR PTE_V"
proof -
  let ?va = "0x10000036e :: nat"
  obtain a where a: "slot To ?va = Some a" "read64 (bs_mem s) a = e"
    using e by (auto simp: pte_at_def split: option.splits)
  have a0: "a \<noteq> 0" using slot_nonzero [OF old a(1)] .
  obtain mem s2 where s2: "pmem_alloc_pages s 1 = Some (mem, s2)" "pt_inv s2 new T" "grows 1 s T s2 T"
    "PGSIZE dvd mem" "0 < mem" "mem < 2 ^ 64" "mem \<notin> frames s"
    using alloc_grows [OF new] av by auto
  define s3 where "s3 = s2\<lparr>bs_mem := memmove (bs_mem s2) mem (PTE2PA e) PGSIZE\<rparr>"
  have "T p \<noteq> Some mem" for p using new s2(7) unfolding pt_inv_def by blast
  note ff = fill_frame [OF s2(2,4) this, of "memmove (bs_mem s2) mem (PTE2PA e) PGSIZE"]
  have out: "memmove (bs_mem s2) mem (PTE2PA e) PGSIZE x = bs_mem s2 x" if "x \<notin> page_bytes mem" for x
    using that by (subst memmove_apply) auto
  have i3: "pt_inv s3 new T" unfolding s3_def by (rule ff(1) [OF out])
  have p3: "pte_at (bs_mem s3) T vb = pte_at (bs_mem s) T vb" for vb
    using ff(2) [OF out, of vb] growsD(6) [OF s2(3), of vb] by (simp add: s3_def)
  have av3: "2 * page_count ?va PGSIZE \<le> free_count s3"
    using growsD(3) [OF s2(3)] av by (simp add: s3_def page_count_split)
  have pa: "mem mod PGSIZE = 0" using s2(4) by (simp add: dvd_eq_mod_eq_0)
  have un3: "pte_at (bs_mem s3) T vb AND PTE_V = 0"
    if "?va div PGSIZE \<le> vb div PGSIZE" "vb div PGSIZE < ?va div PGSIZE + page_count ?va PGSIZE" for vb
  proof -
    have "vb div PGSIZE = 0x100000 \<or> vb div PGSIZE = 0x100001" using that unfolding page_count_split by simp linarith
    then show ?thesis using un [of vb] unfolding p3 by blast
  qed
  have len: "0 < PGSIZE" "?va + PGSIZE \<le> MAXVA" by simp_all
  obtain s4 T4 where s4: "mappages_internal s3 new ?va mem PGSIZE (PTE_FLAGS e) = Some (1, s4)" "pt_inv s4 new T4"
    "remaps (2 * page_count ?va PGSIZE) s3 T
      {vb. ?va div PGSIZE \<le> vb div PGSIZE \<and> vb div PGSIZE < ?va div PGSIZE + page_count ?va PGSIZE}
      (leaf_entry mem ?va (PTE_FLAGS e)) s4 T4"
    using map_range [OF i3 len pa av3 un3, of "PTE_FLAGS e"] by blast
  have "copy_page s old new ?va = Some (True, s4)"
    using walk_tree [OF old, of ?va] a a0 e(2) s2(1,5) s4(1)
    by (simp add: copy_page_def Let_def s3_def)
  moreover have "pte_at (bs_mem s4) T4 0x100000000 = PA2PTE mem OR PTE_FLAGS e OR PTE_V"
    using remapsD(6) [OF s4(3), of "0x100000000"] by (simp add: leaf_entry_def page_count_split)
  moreover have "pte_at (bs_mem s4) T4 0x100001000 = PA2PTE (mem + PGSIZE) OR PTE_FLAGS e OR PTE_V"
    using remapsD(6) [OF s4(3), of "0x100001000"] by (simp add: leaf_entry_def page_count_split)
  ultimately show ?thesis using s4(2) s2(7) by blast
qed

end
