(* ===== verification/Vmem_Props.thy ===== *)
theory Vmem_Props
  imports Vmem_Ops
begin

text \<open>
  The properties of virtual memory. Throughout, \<open>pt_inv s pt T\<close> says that the table at \<open>pt\<close> is a
  well-formed tree \<open>T\<close> of used frames of a well-formed allocator, and \<open>pte_at m T va\<close> is the leaf
  entry that translates \<open>va\<close>.
\<close>

section \<open>A first address space\<close>

lemma create_inv:
  assumes "buddy_wf (vs_pm v)" "\<not> bs_lock (vs_pm v)" "0 < free_count (vs_pm v)"
  shows "\<exists>pt v'. uvmcreate v = Some (pt, v') \<and> vs_lock v' = vs_lock v \<and> pt_inv (vs_pm v') pt [[] \<mapsto> pt] \<and>
    pt \<notin> frames (vs_pm v) \<and> frames (vs_pm v') = insert pt (frames (vs_pm v)) \<and>
    free_count (vs_pm v') = free_count (vs_pm v) - 1 \<and> same_region (vs_pm v) (vs_pm v') \<and> (pt, 0) \<in> live_blocks (vs_pm v') \<and>
    (\<forall>va. pte_at (bs_mem (vs_pm v')) [[] \<mapsto> pt] va = 0)"
proof -
  obtain a s' where s': "pmem_alloc_pages (vs_pm v) 1 = Some (a, s')" "buddy_wf s'" "\<not> bs_lock s'"
    "same_region (vs_pm v) s'" "PGSIZE dvd a" "0 < a" "a < 2 ^ 64" "a \<notin> frames (vs_pm v)"
    "frames s' = insert a (frames (vs_pm v))" "free_count s' = free_count (vs_pm v) - 1"
    "bs_mem s' = (\<lambda>x. if x \<in> page_bytes a then 0 else bs_mem (vs_pm v) x)"
    "live_blocks s' = insert (a, 0) (live_blocks (vs_pm v))"
    using alloc_one_frame [OF assms] by blast
  have z: "\<And>x. x \<in> page_bytes a \<Longrightarrow> bs_mem s' x = 0" unfolding s'(11) by simp
  note e = empty_table [OF z s'(5-7)]
  have "uvmcreate v = Some (a, v\<lparr>vs_pm := s'\<rparr>)" using s'(1) by (simp add: uvmcreate_def)
  then show ?thesis using s' e by (auto simp: pt_inv_def split: if_splits)
qed

lemma split_lengths:
  "k \<le> j \<Longrightarrow> length (free_lists (split_block s a j k) i) = length (free_lists s i) + (if k \<le> i \<and> i < j then 1 else 0)"
proof (induction j arbitrary: s)
  case 0 then show ?case by (simp add: split_block.simps)
next
  case (Suc j)
  show ?case
  proof (cases "k = Suc j")
    case True then show ?thesis by (simp add: split_block.simps)
  next
    case False
    then have k: "k \<le> j" using Suc.prems by simp
    let ?b = "add64 a (shl64 PGSIZE j)"
    let ?s = "set_buddy_free (push_free (set_block_metadata (set_node s (page_index s ?b) ?b (int j)) ?b j) j
      (page_index s ?b)) ?b j"
    have "split_block s a (Suc j) k = split_block ?s a j k" using k by (subst split_block.simps) (simp add: Let_def)
    then show ?thesis using Suc.IH [OF k, of ?s] k by (auto simp: push_free_def)
  qed
qed

text \<open>A one-page request out of a larger block leaves a block of at least two pages.\<close>

lemma alloc_leaves_block:
  assumes s: "buddy_wf s" "\<not> bs_lock s" and m: "2 \<le> m" "m \<le> BUDDY_MAX_ORDER" "free_lists s m \<noteq> []"
    and a: "pmem_alloc_pages s 1 = Some (a, s')"
  shows "find_order (free_lists s') 1 \<noteq> None"
proof -
  obtain j where j: "find_order (free_lists s) 0 = Some j"
    using find_order_None [of "free_lists s" 0] m(2,3) by (cases "find_order (free_lists s) 0") auto
  note J = find_order_Some [OF j]
  obtain p and s1 :: buddy_system where 1: "buddy_alloc s (int 0) = Some (page_addr s p, s1)"
    using alloc_effect [OF s _ j] by auto
  have "0 < mem_start s" using inv_geom [OF s(1)] by (simp add: buddy_geom_def)
  moreover have "get_order 1 = 0" by code_simp
  ultimately have s1: "s1 = s'" using a 1 by (simp add: pmem_alloc_pages_def Let_def)
  define s0 where "s0 = s\<lparr>bs_lock := True, free_lists := (free_lists s)(j := tl (free_lists s j))\<rparr>"
  define b where "b = nd_addr (bs_nodes s0 (hd (free_lists s j)))"
  have f: "free_lists s' = free_lists (split_block s0 b j 0)"
    using 1 s(2) j unfolding s1 by (auto simp: buddy_alloc_def Let_def s0_def b_def)
  have len: "length (free_lists s' i) = length (free_lists s0 i) + (if i < j then 1 else 0)" for i
    unfolding f by (simp add: split_lengths)
  have f1: "free_lists s' m \<noteq> []" if "j < m" using len [of m] that m(3) by (auto simp: s0_def)
  have f2: "free_lists s' (m - 1) \<noteq> []" if "j = m" using len [of "m - 1"] that m(1) by auto
  have jm: "j \<le> m" using J m(3) by (meson le0 not_le)
  have "\<exists>i \<ge> 1. i \<le> BUDDY_MAX_ORDER \<and> free_lists s' i \<noteq> []"
  proof (cases "j = m")
    case True
    then have "1 \<le> m - 1" "m - 1 \<le> BUDDY_MAX_ORDER" "free_lists s' (m - 1) \<noteq> []" using m f1 f2 jm by auto
    then show ?thesis by blast
  next
    case False
    then have "1 \<le> m" "free_lists s' m \<noteq> []" using m f1 f2 jm by auto
    then show ?thesis using m(2) by blast
  qed
  then show ?thesis using find_order_None [of "free_lists s'" 1] by blast
qed

text \<open>A concrete start: a region of 64 pages, initialised, with one empty page table.\<close>

lemma small_allocator:
  obtains s where "buddy_wf s" "\<not> bs_lock s" "32 \<le> free_count s" "mem_start s = 0x80000000" "mem_end s = 0x80040000"
    "\<exists>m. 2 \<le> m \<and> m \<le> BUDDY_MAX_ORDER \<and> free_lists s m \<noteq> []" "find_order (free_lists s) 5 \<noteq> None"
proof -
  obtain s m where s: "buddy_wf s" "\<not> bs_lock s" "mem_start s = 0x80000000" "total_pages s = 64"
    "\<forall>k \<le> BUDDY_MAX_ORDER. fits s (meta_pages 64) k \<longrightarrow> k \<le> m \<and> m \<le> BUDDY_MAX_ORDER \<and> free_lists s m \<noteq> []"
    using buddy_init_wf [of "0x80000000" 64 frag_state] by (auto simp: dvd_eq_mod_eq_0)
  have "meta_pages 64 = 1" by code_simp
  then have "fits s (meta_pages 64) 5"
    unfolding fits_def block_aligned_def using s(3,4) by (intro exI [of _ 32]) simp
  then have m: "5 \<le> m" "m \<le> BUDDY_MAX_ORDER" "free_lists s m \<noteq> []" using s(5) [rule_format, of 5] by auto
  have "(2::nat) ^ 5 \<le> 2 ^ m" using m(1) by (intro power_increasing) auto
  then have "32 \<le> free_count s" using free_count_ge [OF m(2,3)] by simp
  moreover have "mem_end s = 0x80040000" using inv_geom [OF s(1)] s(3,4) by (simp add: buddy_geom_def)
  moreover have "2 \<le> m" "find_order (free_lists s) 5 \<noteq> None" using m find_order_None [of "free_lists s" 5] by auto
  ultimately show thesis using that s(1-3) m(2,3) by blast
qed

lemma small_space:
  obtains v :: vmem and pt where "\<not> vs_lock v" "pt_inv (vs_pm v) pt [[] \<mapsto> pt]" "16 \<le> free_count (vs_pm v)"
    "\<forall>va. pte_at (bs_mem (vs_pm v)) [[] \<mapsto> pt] va = 0"
    "mem_start (vs_pm v) = 0x80000000" "mem_end (vs_pm v) = 0x80040000"
    "find_order (free_lists (vs_pm v)) 1 \<noteq> None"
proof -
  obtain s m where s: "buddy_wf s" "\<not> bs_lock s" "32 \<le> free_count s" "mem_start s = 0x80000000" "mem_end s = 0x80040000"
    and m: "2 \<le> m" "m \<le> BUDDY_MAX_ORDER" "free_lists s m \<noteq> []"
    using small_allocator by blast
  have "buddy_wf (vs_pm \<lparr>vs_pm = s, vs_lock = False\<rparr>)" "\<not> bs_lock (vs_pm \<lparr>vs_pm = s, vs_lock = False\<rparr>)"
    "0 < free_count (vs_pm \<lparr>vs_pm = s, vs_lock = False\<rparr>)" using s by simp_all
  from create_inv [OF this] obtain pt and v :: vmem where v: "uvmcreate \<lparr>vs_pm = s, vs_lock = False\<rparr> = Some (pt, v)"
    "\<not> vs_lock v" "pt_inv (vs_pm v) pt [[] \<mapsto> pt]"
    "free_count (vs_pm v) = free_count s - 1" "same_region s (vs_pm v)"
    "\<forall>va. pte_at (bs_mem (vs_pm v)) [[] \<mapsto> pt] va = 0"
    unfolding vmem.simps by blast
  have "pmem_alloc_pages s 1 = Some (pt, vs_pm v)" using v(1) by (auto simp: uvmcreate_def)
  then have "find_order (free_lists (vs_pm v)) 1 \<noteq> None" by (rule alloc_leaves_block [OF s(1,2) m])
  then show thesis using s v that [of v pt] by (simp add: same_region_def)
qed

lemma page_count_aligned: "va mod PGSIZE = 0 \<Longrightarrow> 0 < n \<Longrightarrow> page_count va (n * PGSIZE) = n"
proof -
  assume va: "va mod PGSIZE = 0" and n: "0 < n"
  have "va = va div PGSIZE * PGSIZE" using va div_mult_mod_eq [of va PGSIZE] by simp
  then have "va + n * PGSIZE - 1 = (va div PGSIZE + (n - 1)) * PGSIZE + (PGSIZE - 1)"
    using n by (simp add: algebra_simps)
  then have "(va + n * PGSIZE - 1) div PGSIZE = va div PGSIZE + (n - 1)"
    by (intro div_nat_eqI) simp_all
  then show ?thesis using n by (simp add: page_count_def)
qed

lemma aligned_range:
  "va mod PGSIZE = 0 \<Longrightarrow>
   {vb. va div PGSIZE \<le> vb div PGSIZE \<and> vb div PGSIZE < va div PGSIZE + n} = {va..<va + n * PGSIZE}"
proof (rule set_eqI)
  fix x
  assume "va mod PGSIZE = 0"
  then have b: "va div PGSIZE * PGSIZE = va" using div_mult_mod_eq [of va PGSIZE] by simp
  show "x \<in> {vb. va div PGSIZE \<le> vb div PGSIZE \<and> vb div PGSIZE < va div PGSIZE + n} \<longleftrightarrow> x \<in> {va..<va + n * PGSIZE}"
    using in_page_range [of va x n] unfolding b mem_Collect_eq atLeastLessThan_iff by blast
qed

lemma user_range_off_table:
  assumes T: "pt_tree m pt T" and r: "user_range m T va len" and t: "T p = Some t" "x \<in> page_bytes t" and i: "i < len"
  shows "x \<noteq> phys m T (va + i)"
proof -
  have "T p \<noteq> Some (PTE2PA (pte_at m T (va + i)))" using r i unfolding user_range_def by blast
  then have "t \<noteq> PTE2PA (pte_at m T (va + i))" using t(1) by blast
  then show ?thesis
    using pages_apart [OF _ PTE2PA_aligned] pt_treeD(2) [OF T t(1)] phys_in_page [of m T "va + i"] t(2) by blast
qed

text \<open>Every table of a well-formed tree lies in the allocator's region.\<close>

lemma table_region:
  assumes "pt_inv s pt T" "T p = Some t"
  shows "mem_start s \<le> t \<and> t + PGSIZE \<le> mem_end s"
proof -
  have t: "t \<in> frames s" and wf: "buddy_wf s" using assms unfolding pt_inv_def by blast+
  then obtain q where q: "t = page_addr s q" "q < total_pages s" unfolding frames_def used_pages_def by auto
  have "Suc q * PGSIZE \<le> total_pages s * PGSIZE" using q(2) by (intro mult_le_mono1) simp
  then show ?thesis using inv_geom [OF wf] q(1) unfolding buddy_geom_def by auto
qed

lemma leaf_flags:
  "(PA2PTE pa OR (PTE_R OR PTE_U) OR PTE_V) AND PTE_V \<noteq> 0 \<and> (PA2PTE pa OR (PTE_R OR PTE_U) OR PTE_V) AND PTE_U \<noteq> 0 \<and>
   (PA2PTE pa OR (PTE_R OR PTE_U) OR PTE_V) AND PTE_R \<noteq> 0 \<and> (PA2PTE pa OR (PTE_R OR PTE_U) OR PTE_V) AND PTE_W = 0"
  (is "?e AND _ \<noteq> 0 \<and> _")
proof -
  have b: "bit ?e 0" "bit ?e 1" "\<not> bit ?e 2" "bit ?e 4" unfolding PA2PTE_def by (simp_all add: bit_simps bit_numeral_rec)
  have x: "e AND x \<noteq> 0" if "bit e n" "bit x n" for e x :: pte and n using that by (metis bit_and_iff bit_0_eq bot_apply bot_bool_def)
  have "?e AND PTE_W = 0"
  proof (rule bit_word_eqI)
    fix n
    have "PTE_W = 2 ^ 2" by simp
    then have "bit PTE_W n \<longleftrightarrow> n = 2" by (simp only: bit_exp_iff) (auto simp: possible_bit_def)
    then show "bit (?e AND PTE_W) n = bit (0 :: pte) n" using b(3) by (auto simp only: bit_and_iff bit_0_eq bot_apply bot_bool_def)
  qed
  then show ?thesis using x [OF b(1), of PTE_V] x [OF b(2), of PTE_R] x [OF b(4), of PTE_U]
    by (simp add: bit_numeral_rec)
qed

text \<open>Two pages of it mapped: \<open>0x1000\<close> and \<open>0x2000\<close>, to device memory outside the region.\<close>

lemma small_mapped:
  obtains v :: vmem and pt T where "\<not> vs_lock v" "pt_inv (vs_pm v) pt T" "mem_start (vs_pm v) = 0x80000000"
    "mem_end (vs_pm v) = 0x80040000" "8 \<le> free_count (vs_pm v)"
    "\<forall>vb \<in> {0x1000..<0x3000}.
      pte_at (bs_mem (vs_pm v)) T vb = PA2PTE (0x90000000 + (vb div PGSIZE - 1) * PGSIZE) OR (PTE_R OR PTE_U) OR PTE_V"
    "\<forall>vb \<in> {0x3000..<MAXVA}. pte_at (bs_mem (vs_pm v)) T vb = 0"
proof -
  obtain v :: vmem and pt where s: "\<not> vs_lock v" "pt_inv (vs_pm v) pt [[] \<mapsto> pt]" "16 \<le> free_count (vs_pm v)"
    "\<forall>va. pte_at (bs_mem (vs_pm v)) [[] \<mapsto> pt] va = 0" "mem_start (vs_pm v) = 0x80000000" "mem_end (vs_pm v) = 0x80040000"
    using small_space by blast
  have c: "page_count 0x1000 0x2000 = 2" by (simp add: page_count_def)
  obtain s1 T1 where 1: "pt_inv s1 pt T1"
    "remaps (2 * page_count 0x1000 0x2000) (vs_pm v) [[] \<mapsto> pt]
      {vb. 0x1000 div PGSIZE \<le> vb div PGSIZE \<and> vb div PGSIZE < 0x1000 div PGSIZE + page_count 0x1000 0x2000}
      (leaf_entry 0x90000000 0x1000 (PTE_R OR PTE_U)) s1 T1"
    using map_range [OF s(2), of "0x2000" "0x1000" "0x90000000" "PTE_R OR PTE_U"] s(3,4) c by auto
  have R: "vb div PGSIZE \<in> {1..<3} \<longleftrightarrow> 0x1000 \<le> vb \<and> vb < 0x3000" for vb
    using in_page_range [of "0x1000" vb 2] by auto
  have e: "pte_at (bs_mem s1) T1 vb =
      (if 0x1000 \<le> vb \<and> vb < 0x3000 then leaf_entry 0x90000000 0x1000 (PTE_R OR PTE_U) vb else 0)" if "vb < MAXVA" for vb
    using remapsD(6) [OF 1(2) that] s(4) R [of vb] unfolding c by auto
  have m: "mem_start s1 = 0x80000000" "mem_end s1 = 0x80040000" "8 \<le> free_count s1"
    using remapsD(1,3) [OF 1(2)] s(3,5,6) unfolding c by (auto simp: same_region_def)
  show thesis
    by (rule that [of "\<lparr>vs_pm = s1, vs_lock = False\<rparr>" pt T1]) (use 1(1) m e in \<open>auto simp: leaf_entry_def\<close>)
qed

lemma small_phys:
  assumes ex: "\<forall>vb \<in> {0x1000..<0x3000}. pte_at m T vb = PA2PTE (0x90000000 + (vb div PGSIZE - 1) * PGSIZE) OR (PTE_R OR PTE_U) OR PTE_V"
    and vb: "0x1000 \<le> vb" "vb < 0x3000"
  shows "phys m T vb = 0x90000000 + (vb - 0x1000) \<and> PTE2PA (pte_at m T vb) = 0x90000000 + (vb div PGSIZE - 1) * PGSIZE \<and>
    user_page (pte_at m T vb)"
proof -
  have e: "pte_at m T vb = PA2PTE (0x90000000 + (vb div PGSIZE - 1) * PGSIZE) OR (PTE_R OR PTE_U) OR PTE_V"
    using ex vb by simp
  have d: "vb div PGSIZE \<in> {1, 2}"
    using in_page_range [of "0x1000" vb 2] vb by auto
  have f: "((PTE_R OR PTE_U) OR PTE_V) AND NOT 0x3FF = 0" by code_simp
  have pa: "PTE2PA (pte_at m T vb) = 0x90000000 + (vb div PGSIZE - 1) * PGSIZE"
    unfolding e using d by (intro PTE2PA_PA2PTE [OF _ _ f]) auto
  have "phys m T vb = 0x90000000 + (vb div PGSIZE - 1) * PGSIZE + vb mod PGSIZE" unfolding phys_def pa ..
  also have "\<dots> = 0x90000000 + (vb - 0x1000)"
    using d
  proof (elim insertE emptyE)
    assume k: "vb div PGSIZE = 1"
    show ?thesis using div_mult_mod_eq [of vb PGSIZE, unfolded k] unfolding k by linarith
  next
    assume k: "vb div PGSIZE = 2"
    show ?thesis using div_mult_mod_eq [of vb PGSIZE, unfolded k] unfolding k by linarith
  qed
  finally have "phys m T vb = 0x90000000 + (vb - 0x1000)" .
  moreover have "bit (pte_at m T vb AND PTE_U) 4" unfolding e by (simp add: bit_simps bit_numeral_rec)
  then have "pte_at m T vb AND PTE_U \<noteq> 0" by auto
  moreover have "pte_at m T vb AND PTE_V \<noteq> 0" unfolding e by (rule PA2PTE_valid)
  ultimately show ?thesis using pa by (simp add: user_page_def)
qed

lemma PGROUNDUP_aligned: "a mod PGSIZE = 0 \<Longrightarrow> a + PGSIZE \<le> 2 ^ 64 \<Longrightarrow> PGROUNDUP a = a"
proof -
  assume a: "a mod PGSIZE = 0" "a + PGSIZE \<le> 2 ^ 64"
  have d: "a = a div PGSIZE * PGSIZE" using a(1) div_mult_mod_eq [of a PGSIZE] by simp
  have "(a + 4095) div PGSIZE = a div PGSIZE" by (subst d) (rule div_nat_eqI; simp)
  then show ?thesis using PGROUNDUP_eq [OF a(2)] d by simp
qed

lemma page_in_block:
  assumes a: "PGSIZE dvd a" and x: "x \<in> block_bytes (a, k)"
  shows "x div PGSIZE * PGSIZE \<in> block_bytes (a, k)"
proof -
  obtain c where c: "a = PGSIZE * c" using a by blast
  have "c \<le> x div PGSIZE" using x c by (simp add: block_bytes_def less_eq_div_iff_mult_less_eq mult.commute)
  then have "c * PGSIZE \<le> x div PGSIZE * PGSIZE" by (rule mult_le_mono1)
  moreover have "x div PGSIZE * PGSIZE \<le> x" by simp
  ultimately show ?thesis using x c by (auto simp: block_bytes_def mult.commute)
qed

text \<open>The pages of a live block are used frames.\<close>

lemma block_frames:
  assumes i: "pt_inv s pt T" and b: "(a, k) \<in> live_blocks s" and f: "f \<in> block_bytes (a, k)" "PGSIZE dvd f"
  shows "f \<in> frames s"
proof -
  have wf: "buddy_wf s" using i unfolding pt_inv_def by blast
  obtain p where p: "a = page_addr s p" "is_block s p k" "page_used s p" using b by (auto simp: live_blocks_def)
  define q where "q = (f - mem_start s) div PGSIZE"
  have q: "q \<in> pages_of p k" using block_page [of f s p k] f(1) unfolding p(1) q_def .
  have rng: "mem_start s \<le> f" using live_in_region [OF wf b f(1)] by simp
  have "PGSIZE dvd mem_start s" using inv_geom [OF wf] by (simp add: buddy_geom_def)
  then have "PGSIZE dvd f - mem_start s" using f(2) by (rule dvd_diff_nat [rotated])
  then have "f = page_addr s q" using rng by (simp add: q_def)
  moreover have "q < total_pages s" using q inv_block(1) [OF wf p(2)] by simp
  moreover have "page_used s q" using inv_block(5) [OF wf p(2) _ q] p(3) by simp
  ultimately show ?thesis by (auto simp: frames_def used_pages_def)
qed

text \<open>\<^verbatim>\<open>uvmalloc1\<close> on its fast path, one block for the whole range.\<close>

lemma uvmalloc1_block:
  assumes i: "pt_inv (vs_pm v) pt T" and l: "\<not> vs_lock v"
    and r: "start mod PGSIZE = 0" "0 < n" "n < 2 ^ 31" "start + n * PGSIZE \<le> MAXVA"
    and k: "get_order n = int k" "k \<le> BUDDY_MAX_ORDER" "n \<le> 2 ^ k" "find_order (free_lists (vs_pm v)) k = Some j"
    and av: "2 ^ k + 2 * n \<le> free_count (vs_pm v)"
    and un: "\<And>vb. start \<le> vb \<Longrightarrow> vb < start + n * PGSIZE \<Longrightarrow> pte_at (bs_mem (vs_pm v)) T vb AND PTE_V = 0"
  shows "\<exists>v' T' a. uvmalloc1 v pt start (start + n * PGSIZE) perm = Some (1, v') \<and> \<not> vs_lock v' \<and> pt_inv (vs_pm v') pt T' \<and>
    (\<forall>vb < MAXVA. pte_at (bs_mem (vs_pm v')) T' vb =
       (if start \<le> vb \<and> vb < start + n * PGSIZE
        then PA2PTE (a + (vb div PGSIZE - start div PGSIZE) * PGSIZE) OR (perm OR PTE_U OR PTE_D) OR PTE_V
        else pte_at (bs_mem (vs_pm v)) T vb)) \<and>
    (a, k) \<in> live_blocks (vs_pm v') \<and> PGSIZE dvd a \<and> a + PGSIZE * 2 ^ k \<le> 2 ^ 64 \<and>
    (\<forall>x \<in> {a..<a + n * PGSIZE}. bs_mem (vs_pm v') x = 0) \<and>
    (\<forall>f \<in> frames (vs_pm v). page_bytes f \<inter> {a..<a + n * PGSIZE} = {}) \<and>
    (\<forall>p t. T' p = Some t \<longrightarrow> t \<notin> block_bytes (a, k)) \<and>
    remaps (2 ^ k + 2 * n) (vs_pm v) T {start..<start + n * PGSIZE} (leaf_entry a start (perm OR PTE_U OR PTE_D)) (vs_pm v') T'"
proof -
  let ?s = "vs_pm v" and ?R = "{start..<start + n * PGSIZE}" and ?perm = "perm OR PTE_U OR PTE_D"
  have "sub64 (PGROUNDUP (start + n * PGSIZE)) start = n * PGSIZE"
    using r by (subst PGROUNDUP_aligned) (auto simp: sub64_in_range mod_add_self2)
  then have np: "sub64 (PGROUNDUP (start + n * PGSIZE)) start div PGSIZE = n" by simp
  obtain a s1 where 1: "pmem_alloc_pages ?s (int n) = Some (a, s1)" "pt_inv s1 pt T" "grows (2 ^ k) ?s T s1 T"
    "(a, k) \<in> live_blocks s1" "PGSIZE dvd a" "0 < a" "a + PGSIZE * 2 ^ k \<le> 2 ^ 64"
    "\<forall>x \<in> block_bytes (a, k). bs_mem s1 x = 0" "\<forall>f \<in> frames ?s. page_bytes f \<inter> block_bytes (a, k) = {}"
    using alloc_block_grows [OF i r(2) k(1,2,4)] by metis
  have sub: "{a..<a + n * PGSIZE} \<subseteq> block_bytes (a, k)" using k(3) by (auto simp: block_bytes_def)
  have "(2::nat) ^ k \<le> 2 ^ BUDDY_MAX_ORDER" using k(2) by (intro power_increasing) auto
  then have "n * PGSIZE < 2 ^ 32" "a + n * PGSIZE \<le> 2 ^ 64" using k(3) 1(7) by simp_all
  then have "memset (bs_mem s1) a 0 (n * PGSIZE) = bs_mem s1"
    using 1(8) sub by (subst memset_apply) (auto simp: fun_eq_iff)
  then have s2: "s1\<lparr>bs_mem := memset (bs_mem s1) a 0 (n * PGSIZE)\<rparr> = s1" by simp
  note pc = page_count_aligned [OF r(1,2)] and R = aligned_range [OF r(1), of n]
  have len: "0 < n * PGSIZE" "a mod PGSIZE = 0" using r(2) 1(5) by (simp_all add: dvd_eq_mod_eq_0)
  have un1: "pte_at (bs_mem s1) T vb AND PTE_V = 0"
    if "start div PGSIZE \<le> vb div PGSIZE" "vb div PGSIZE < start div PGSIZE + page_count start (n * PGSIZE)" for vb
  proof -
    have "vb \<in> ?R" using that unfolding pc R [symmetric] by blast
    then show ?thesis using un [of vb] growsD(6) [OF 1(3), of vb] by simp
  qed
  have av1: "2 * page_count start (n * PGSIZE) \<le> free_count s1" using growsD(3) [OF 1(3)] av unfolding pc by simp
  obtain s3 T3 where 3: "mappages_internal s1 pt start a (n * PGSIZE) ?perm = Some (1, s3)" "pt_inv s3 pt T3"
    "remaps (2 * n) s1 T ?R (leaf_entry a start ?perm) s3 T3"
    using map_range [OF 1(2) len(1) r(4) len(2) av1 un1, of ?perm] unfolding pc R by blast
  have own: "f \<in> frames s1 \<and> (\<forall>p. T p \<noteq> Some f) \<and> (\<forall>p. T3 p \<noteq> Some f)" if "f \<in> block_bytes (a, k)" "PGSIZE dvd f" for f
    using block_frames [OF 1(2,4) that] remapsD(5) [OF 3(3), of _ f] 1(9) i that(1) by (fastforce simp: pt_inv_def)
  have z: "bs_mem s3 x = 0" if x: "x \<in> {a..<a + n * PGSIZE}" for x
  proof -
    have f: "x div PGSIZE * PGSIZE \<in> block_bytes (a, k)" "PGSIZE dvd x div PGSIZE * PGSIZE" "x \<in> page_bytes (x div PGSIZE * PGSIZE)"
      using page_in_block [OF 1(5), of x k] sub x by (auto simp: block_bytes_def)
    show ?thesis using remapsD(7) [OF 3(3), of "x div PGSIZE * PGSIZE" x] own [OF f(1,2)] f(3) 1(8) sub x by (metis subsetD)
  qed
  have "uvmalloc1 v pt start (start + n * PGSIZE) perm = Some (1, v\<lparr>vs_pm := s3\<rparr>)"
    using l r(2,3) 1(1,6) 3(1) s2 by (simp add: uvmalloc1_def Let_def np int32_in_range)
  moreover have "pte_at (bs_mem s3) T3 vb = (if start \<le> vb \<and> vb < start + n * PGSIZE
      then PA2PTE (a + (vb div PGSIZE - start div PGSIZE) * PGSIZE) OR ?perm OR PTE_V else pte_at (bs_mem ?s) T vb)"
    if "vb < MAXVA" for vb
    using remapsD(6) [OF 3(3) that] growsD(6) [OF 1(3), of vb] by (simp add: leaf_entry_def)
  moreover have "page_bytes f \<inter> {a..<a + n * PGSIZE} = {}" if "f \<in> frames ?s" for f using 1(9) sub that by blast
  moreover have "t \<notin> block_bytes (a, k)" if "T3 p = Some t" for p t
    using own [of t] pt_treeD(2) [of "bs_mem s3" pt T3 p t] 3(2) that unfolding pt_inv_def by blast
  moreover have "(a, k) \<in> live_blocks s3" using 1(4) remapsD(8) [OF 3(3)] by blast
  moreover have "remaps (2 ^ k + 2 * n) ?s T ?R (leaf_entry a start ?perm) s3 T3"
    using remaps_trans [OF grows_remaps [OF 1(3)] 3(3)] by simp
  ultimately show ?thesis using l 3(2) 1(5,7) z by (intro exI [of _ "v\<lparr>vs_pm := s3\<rparr>"] exI [of _ T3] exI [of _ a]) simp
qed

section \<open>Properties\<close>

text \<open>
  \<^verbatim>\<open>uvmcreate\<close>, while a frame is available, returns a fresh frame that is an empty, well-formed page
  table: it translates no address.
\<close>

theorem uvmcreate_empty:
  assumes "buddy_wf (vs_pm v)" "\<not> bs_lock (vs_pm v)" "0 < free_count (vs_pm v)"
  shows "\<exists>pt v'. uvmcreate v = Some (pt, v') \<and> pt_inv (vs_pm v') pt [[] \<mapsto> pt] \<and> pt \<notin> frames (vs_pm v) \<and>
    (\<forall>va. pte_at (bs_mem (vs_pm v')) [[] \<mapsto> pt] va = 0)"
  using create_inv [OF assms] by blast

theorem uvmcreate_empty_witness:
  "\<exists>s pt v'. uvmcreate \<lparr>vs_pm = s, vs_lock = False\<rparr> = Some (pt, v') \<and> pt_inv (vs_pm v') pt [[] \<mapsto> pt]"
proof -
  obtain s where s: "buddy_wf s" "\<not> bs_lock s" "32 \<le> free_count s" using small_allocator by blast
  then show ?thesis using uvmcreate_empty [of "\<lparr>vs_pm = s, vs_lock = False\<rparr>"] by auto
qed

text \<open>
  C3: \<^verbatim>\<open>mappages\<close> of a range none of whose pages is mapped, with enough free frames for the tables,
  returns 1; afterwards every page of the range translates to its physical page with the given
  permissions, every other address translates as before, the table is well formed again, and no
  frame that was in use and is not part of the table has changed.
\<close>

theorem mappages_maps:
  assumes i: "pt_inv (vs_pm v) pt T" and l: "\<not> vs_lock v" and len: "0 < len" "va + len \<le> MAXVA" and pa: "pa mod PGSIZE = 0"
    and av: "2 * page_count va len \<le> free_count (vs_pm v)"
    and un: "\<And>vb. va div PGSIZE \<le> vb div PGSIZE \<Longrightarrow> vb div PGSIZE < va div PGSIZE + page_count va len \<Longrightarrow>
      pte_at (bs_mem (vs_pm v)) T vb AND PTE_V = 0"
  shows "\<exists>v' T'. mappages v pt va pa len perm = Some (1, v') \<and> \<not> vs_lock v' \<and> pt_inv (vs_pm v') pt T' \<and>
    (\<forall>vb < MAXVA. pte_at (bs_mem (vs_pm v')) T' vb =
       (if va div PGSIZE \<le> vb div PGSIZE \<and> vb div PGSIZE < va div PGSIZE + page_count va len
        then PA2PTE (pa + (vb div PGSIZE - va div PGSIZE) * PGSIZE) OR perm OR PTE_V
        else pte_at (bs_mem (vs_pm v)) T vb)) \<and>
    (\<forall>f \<in> frames (vs_pm v). (\<forall>p. T p \<noteq> Some f) \<longrightarrow> (\<forall>x \<in> page_bytes f. bs_mem (vs_pm v') x = bs_mem (vs_pm v) x))"
proof -
  obtain s' T' where s': "mappages_internal (vs_pm v) pt va pa len perm = Some (1, s')" "pt_inv s' pt T'"
    "remaps (2 * page_count va len) (vs_pm v) T
      {vb. va div PGSIZE \<le> vb div PGSIZE \<and> vb div PGSIZE < va div PGSIZE + page_count va len} (leaf_entry pa va perm) s' T'"
    using map_range [OF i len pa av un] by blast
  have "mappages v pt va pa len perm = Some (1, v\<lparr>vs_pm := s'\<rparr>)" using l s'(1) by (simp add: mappages_def)
  moreover have "pte_at (bs_mem s') T' vb =
      (if va div PGSIZE \<le> vb div PGSIZE \<and> vb div PGSIZE < va div PGSIZE + page_count va len
       then PA2PTE (pa + (vb div PGSIZE - va div PGSIZE) * PGSIZE) OR perm OR PTE_V
       else pte_at (bs_mem (vs_pm v)) T vb)" if "vb < MAXVA" for vb
    using remapsD(6) [OF s'(3) that] by (simp add: leaf_entry_def)
  moreover have "bs_mem s' x = bs_mem (vs_pm v) x" if "f \<in> frames (vs_pm v)" "\<forall>p. T p \<noteq> Some f" "x \<in> page_bytes f" for f x
    using remapsD(7) [OF s'(3), of f x] that by blast
  ultimately show ?thesis using l s'(2) by (intro exI [of _ "v\<lparr>vs_pm := s'\<rparr>"] exI [of _ T']) simp
qed

theorem mappages_maps_witness:
  "\<exists>v pt v' T'. mappages v pt 0x1800 0x90000000 PGSIZE (PTE_R OR PTE_U) = Some (1, v') \<and>
     pte_at (bs_mem (vs_pm v')) T' 0x2000 = PA2PTE 0x90001000 OR (PTE_R OR PTE_U) OR PTE_V"
proof -
  obtain v :: vmem and pt where s: "\<not> vs_lock v" "pt_inv (vs_pm v) pt [[] \<mapsto> pt]" "16 \<le> free_count (vs_pm v)"
    "\<forall>va. pte_at (bs_mem (vs_pm v)) [[] \<mapsto> pt] va = 0" using small_space by blast
  have c: "page_count 0x1800 PGSIZE = 2" by (simp add: page_count_def)
  obtain v' T' where m: "mappages v pt 0x1800 0x90000000 PGSIZE (PTE_R OR PTE_U) = Some (1, v')"
    "\<forall>vb < MAXVA. pte_at (bs_mem (vs_pm v')) T' vb =
       (if 0x1800 div PGSIZE \<le> vb div PGSIZE \<and> vb div PGSIZE < 0x1800 div PGSIZE + page_count 0x1800 PGSIZE
        then PA2PTE (0x90000000 + (vb div PGSIZE - 0x1800 div PGSIZE) * PGSIZE) OR (PTE_R OR PTE_U) OR PTE_V
        else pte_at (bs_mem (vs_pm v)) [[] \<mapsto> pt] vb)"
    using mappages_maps [OF s(2,1), of PGSIZE "0x1800" "0x90000000" "PTE_R OR PTE_U"] s(3,4) c by auto
  from m(2) [rule_format, of "0x2000"] have "pte_at (bs_mem (vs_pm v')) T' 0x2000 = PA2PTE 0x90001000 OR (PTE_R OR PTE_U) OR PTE_V"
    unfolding c by simp
  then show ?thesis using m(1) by blast
qed

text \<open>
  When a page of the range is already mapped, \<^verbatim>\<open>mappages\<close> stops there with \<^verbatim>\<open>-EINVAL\<close>, not with the -1
  its comment announces, and the pages before it stay mapped: nothing is rolled back.
\<close>

theorem mappages_remap:
  assumes i: "pt_inv (vs_pm v) pt T" and l: "\<not> vs_lock v" and len: "0 < len" "va + len \<le> MAXVA" and pa: "pa mod PGSIZE = 0"
    and m: "m < page_count va len" and av: "2 * Suc m \<le> free_count (vs_pm v)"
    and un: "\<And>vb. va div PGSIZE \<le> vb div PGSIZE \<Longrightarrow> vb div PGSIZE < va div PGSIZE + m \<Longrightarrow>
      pte_at (bs_mem (vs_pm v)) T vb AND PTE_V = 0"
    and mapped: "pte_at (bs_mem (vs_pm v)) T ((va div PGSIZE + m) * PGSIZE) AND PTE_V \<noteq> 0"
  shows "\<exists>v' T'. mappages v pt va pa len perm = Some (- EINVAL, v') \<and> pt_inv (vs_pm v') pt T' \<and>
    (\<forall>vb < MAXVA. pte_at (bs_mem (vs_pm v')) T' vb =
       (if va div PGSIZE \<le> vb div PGSIZE \<and> vb div PGSIZE < va div PGSIZE + m
        then PA2PTE (pa + (vb div PGSIZE - va div PGSIZE) * PGSIZE) OR perm OR PTE_V
        else pte_at (bs_mem (vs_pm v)) T vb))"
proof -
  let ?b = "va div PGSIZE * PGSIZE" and ?s = "vs_pm v"
  let ?e = "?b + (page_count va len - 1) * PGSIZE"
  have b0: "?b mod PGSIZE = 0" by simp
  have lim: "?b + page_count va len * PGSIZE \<le> MAXVA" by (rule page_count_end [OF len])
  have g: "leaf_entry pa ?b perm = leaf_entry pa va perm" by (simp add: leaf_entry_def fun_eq_iff)
  have un': "pte_at (bs_mem ?s) T vb AND PTE_V = 0" if "?b \<le> vb" "vb < ?b + m * PGSIZE" for vb
    using un [of vb] in_page_range [of va vb m] that by blast
  have "Suc m * PGSIZE \<le> page_count va len * PGSIZE" using m by (intro mult_le_mono1) simp
  then have c: "?b + m * PGSIZE < MAXVA" using lim by simp
  have mle: "m \<le> page_count va len - 1" and mav: "2 * m \<le> free_count ?s" using m av by simp_all
  obtain s1 T1 where 1: "map_loop ?s pt ?b ?e pa perm = map_loop s1 pt (?b + m * PGSIZE) ?e (pa + m * PGSIZE) perm"
      "pt_inv s1 pt T1" "remaps (2 * m) ?s T {?b..<?b + m * PGSIZE} (leaf_entry pa va perm) s1 T1"
    using map_prefix [OF b0 less_imp_le [OF c] mle i mav un', of pa perm] unfolding g by blast
  have "?b + m * PGSIZE = (va div PGSIZE + m) * PGSIZE" by (simp add: add_mult_distrib)
  then have "pte_at (bs_mem s1) T1 (?b + m * PGSIZE) AND PTE_V \<noteq> 0"
    using remapsD(6) [OF 1(3) c] mapped by simp
  moreover have "2 \<le> free_count s1" using remapsD(3) [OF 1(3)] av by simp
  ultimately obtain s2 T2 where 2: "map_loop s1 pt (?b + m * PGSIZE) ?e (pa + m * PGSIZE) perm = Some (- EINVAL, s2)"
    "pt_inv s2 pt T2" "remaps 2 s1 T1 {} (leaf_entry pa va perm) s2 T2"
    using map_mapped [OF 1(2) _ c] by metis
  note r = remaps_trans [OF 1(3) 2(3)]
  have "mappages v pt va pa len perm = Some (- EINVAL, v\<lparr>vs_pm := s2\<rparr>)"
    using l 1(1) 2(1) by (simp add: mappages_def map_pages_eq [OF len pa])
  moreover have "pte_at (bs_mem s2) T2 vb =
      (if va div PGSIZE \<le> vb div PGSIZE \<and> vb div PGSIZE < va div PGSIZE + m
       then PA2PTE (pa + (vb div PGSIZE - va div PGSIZE) * PGSIZE) OR perm OR PTE_V
       else pte_at (bs_mem ?s) T vb)" if "vb < MAXVA" for vb
    using remapsD(6) [OF r that] in_page_range [of va vb m] by (simp add: leaf_entry_def)
  ultimately show ?thesis using 2(2) by (intro exI [of _ "v\<lparr>vs_pm := s2\<rparr>"] exI [of _ T2]) simp
qed

theorem mappages_remap_witness:
  "\<exists>v pt v'. mappages v pt 0x3000 0x90000000 0x2000 (PTE_R OR PTE_U) = Some (- EINVAL, v')"
proof -
  obtain v :: vmem and pt where s: "\<not> vs_lock v" "pt_inv (vs_pm v) pt [[] \<mapsto> pt]" "16 \<le> free_count (vs_pm v)"
    "\<forall>va. pte_at (bs_mem (vs_pm v)) [[] \<mapsto> pt] va = 0" using small_space by blast
  have c: "page_count 0x4000 PGSIZE = 1" "page_count 0x3000 0x2000 = 2" by (simp_all add: page_count_def)
  obtain s1 T1 where 1: "pt_inv s1 pt T1"
    "remaps (2 * page_count 0x4000 PGSIZE) (vs_pm v) [[] \<mapsto> pt]
      {vb. 0x4000 div PGSIZE \<le> vb div PGSIZE \<and> vb div PGSIZE < 0x4000 div PGSIZE + page_count 0x4000 PGSIZE}
      (leaf_entry 0 0x4000 PTE_R) s1 T1"
    using map_range [OF s(2), of PGSIZE "0x4000" 0 PTE_R] s(3,4) c by auto
  have e: "pte_at (bs_mem s1) T1 vb = (if vb div PGSIZE = 4 then leaf_entry 0 0x4000 PTE_R vb else 0)" if "vb < MAXVA" for vb
    using remapsD(6) [OF 1(2) that] s(4) unfolding c by auto
  let ?v = "\<lparr>vs_pm = s1, vs_lock = False\<rparr>"
  have i: "pt_inv (vs_pm ?v) pt T1" "\<not> vs_lock ?v" using 1(1) by simp_all
  have un: "pte_at (bs_mem (vs_pm ?v)) T1 vb AND PTE_V = 0"
    if "0x3000 div PGSIZE \<le> vb div PGSIZE" "vb div PGSIZE < 0x3000 div PGSIZE + 1" for vb
  proof -
    have d: "vb div PGSIZE = 3" using that by simp
    then have "vb < MAXVA" using div_mult_mod_eq [of vb PGSIZE] mod_less_divisor [of PGSIZE vb] by simp
    then show ?thesis using e [of vb] d by simp
  qed
  have mapped: "pte_at (bs_mem (vs_pm ?v)) T1 ((0x3000 div PGSIZE + 1) * PGSIZE) AND PTE_V \<noteq> 0"
    using e [of "0x4000"] PA2PTE_valid [of 0 PTE_R] by (simp add: leaf_entry_def)
  have "2 * Suc 1 \<le> free_count (vs_pm ?v)" using remapsD(3) [OF 1(2)] s(3) unfolding c by simp
  from mappages_remap [OF i _ _ _ _ this un mapped, of "0x2000" "0x90000000" "PTE_R OR PTE_U"]
  show ?thesis unfolding c by auto
qed

text \<open>
  Mapping a range of unmapped pages and unmapping it again, without releasing the memory, gives back
  an address space that translates every address as before and has no entry left in the range.
\<close>

theorem map_unmap_round_trip:
  assumes i: "pt_inv (vs_pm v) pt T" and l: "\<not> vs_lock v" and va: "va mod PGSIZE = 0" "0 < n" "va + n * PGSIZE \<le> MAXVA"
    and pa: "pa mod PGSIZE = 0" and perm: "perm AND NOT 0x3FF = 0" "perm OR PTE_V \<noteq> PTE_V"
    and av: "2 * n \<le> free_count (vs_pm v)"
    and un: "\<And>vb. va \<le> vb \<Longrightarrow> vb < va + n * PGSIZE \<Longrightarrow> pte_at (bs_mem (vs_pm v)) T vb AND PTE_V = 0"
  shows "\<exists>v1 v2 T'. mappages v pt va pa (n * PGSIZE) perm = Some (1, v1) \<and> vmunmap v1 pt va n False = Some v2 \<and>
    \<not> vs_lock v2 \<and> pt_inv (vs_pm v2) pt T' \<and>
    (\<forall>vb < MAXVA. pte_at (bs_mem (vs_pm v2)) T' vb =
       (if va \<le> vb \<and> vb < va + n * PGSIZE then 0 else pte_at (bs_mem (vs_pm v)) T vb))"
proof -
  let ?R = "{va..<va + n * PGSIZE}"
  note pc = page_count_aligned [OF va(1,2)] and R = aligned_range [OF va(1), of n]
  have len: "0 < n * PGSIZE" using va(2) by simp
  have un': "pte_at (bs_mem (vs_pm v)) T vb AND PTE_V = 0"
    if "va div PGSIZE \<le> vb div PGSIZE" "vb div PGSIZE < va div PGSIZE + page_count va (n * PGSIZE)" for vb
  proof -
    have "vb \<in> ?R" using that unfolding pc R [symmetric] by blast
    then show ?thesis using un [of vb] by simp
  qed
  obtain s1 T1 where 1: "mappages_internal (vs_pm v) pt va pa (n * PGSIZE) perm = Some (1, s1)" "pt_inv s1 pt T1"
    "remaps (2 * n) (vs_pm v) T ?R (leaf_entry pa va perm) s1 T1"
    using map_range [OF i len va(3) pa _ un', of perm] av unfolding pc R by blast
  have e1: "pte_at (bs_mem s1) T1 vb = leaf_entry pa va perm vb" if "va \<le> vb" "vb < va + n * PGSIZE" for vb
    using remapsD(6) [OF 1(3), of vb] that va(3) by simp
  have "PTE_FLAGS (pte_at (bs_mem s1) T1 vb) \<noteq> PTE_V" if "va \<le> vb" "vb < va + n * PGSIZE" for vb
    unfolding e1 [OF that] leaf_entry_def PTE_FLAGS_leaf [OF perm(1)] by (rule perm(2))
  from unmap_loop_keep [OF va(1,3) 1(2) this] obtain s2 where 2: "unmap_loop s1 pt va (va + n * PGSIZE) False = Some s2"
    "pt_inv s2 pt T1" "remaps 0 s1 T1 ?R (\<lambda>vb. cleared (pte_at (bs_mem s1) T1 vb)) s2 T1" by blast
  have "pte_at (bs_mem s2) T1 vb = (if va \<le> vb \<and> vb < va + n * PGSIZE then 0 else pte_at (bs_mem (vs_pm v)) T vb)"
    if vb: "vb < MAXVA" for vb
    using remapsD(6) [OF 1(3) vb] remapsD(6) [OF 2(3) vb] PA2PTE_valid
    by (auto simp: cleared_def leaf_entry_def)
  moreover have "mappages v pt va pa (n * PGSIZE) perm = Some (1, v\<lparr>vs_pm := s1\<rparr>)" using l 1(1) by (simp add: mappages_def)
  moreover have "add64 va (n * PGSIZE) = va + n * PGSIZE" using va(3) by (intro add64_in_range) simp
  then have "vmunmap (v\<lparr>vs_pm := s1\<rparr>) pt va n False = Some (v\<lparr>vs_pm := s2\<rparr>)" using l va(1) 2(1) by (simp add: vmunmap_def)
  ultimately show ?thesis using l 2(2) by (intro exI [of _ "v\<lparr>vs_pm := s1\<rparr>"] exI [of _ "v\<lparr>vs_pm := s2\<rparr>"] exI [of _ T1]) simp
qed

theorem map_unmap_round_trip_witness:
  "\<exists>v pt v1 v2 T'. mappages v pt 0x1000 0x90000000 (3 * PGSIZE) (PTE_R OR PTE_U) = Some (1, v1) \<and>
     vmunmap v1 pt 0x1000 3 False = Some v2 \<and> pt_inv (vs_pm v2) pt T' \<and> pte_at (bs_mem (vs_pm v2)) T' 0x2000 = 0"
proof -
  obtain v :: vmem and pt where s: "\<not> vs_lock v" "pt_inv (vs_pm v) pt [[] \<mapsto> pt]" "16 \<le> free_count (vs_pm v)"
    "\<forall>va. pte_at (bs_mem (vs_pm v)) [[] \<mapsto> pt] va = 0" using small_space by blast
  have p: "(PTE_R OR PTE_U) AND NOT 0x3FF = 0" "(PTE_R OR PTE_U) OR PTE_V \<noteq> PTE_V" by code_simp+
  obtain v1 v2 T' where m: "mappages v pt 0x1000 0x90000000 (3 * PGSIZE) (PTE_R OR PTE_U) = Some (1, v1)"
    "vmunmap v1 pt 0x1000 3 False = Some v2" "pt_inv (vs_pm v2) pt T'"
    "\<forall>vb < MAXVA. pte_at (bs_mem (vs_pm v2)) T' vb =
       (if 0x1000 \<le> vb \<and> vb < 0x1000 + 3 * PGSIZE then 0 else pte_at (bs_mem (vs_pm v)) [[] \<mapsto> pt] vb)"
    using map_unmap_round_trip [OF s(2,1) _ _ _ _ p, of "0x1000" 3 "0x90000000"] s(3,4) by auto
  have "pte_at (bs_mem (vs_pm v2)) T' 0x2000 = 0" using m(4) [rule_format, of "0x2000"] by simp
  then show ?thesis using m(1-3) by blast
qed

text \<open>
  C18: What \<^verbatim>\<open>copyout\<close> writes to a range of mapped user pages, \<^verbatim>\<open>copyin\<close> reads back: the bytes of the
  kernel's source buffer arrive in its destination buffer, across page boundaries and whatever
  physical pages lie behind the range, and nothing outside the user range and that buffer changes.
\<close>

theorem copyout_copyin:
  assumes T: "pt_tree (bs_mem (vs_pm v)) pt T" and l: "\<not> vs_lock v" and r: "user_range (bs_mem (vs_pm v)) T va len"
    and src: "\<And>i j. i < len \<Longrightarrow> j < len \<Longrightarrow> phys (bs_mem (vs_pm v)) T (va + i) \<noteq> src + j"
    and dst: "kernel_buf (bs_mem (vs_pm v)) T va len dst len"
  shows "\<exists>v1 v2. copyout v pt va src len = Some (0, v1) \<and> copyin v1 pt dst va len = Some (0, v2) \<and>
    (\<forall>i < len. bs_mem (vs_pm v2) (dst + i) = bs_mem (vs_pm v) (src + i)) \<and>
    (\<forall>x. x \<notin> {dst..<dst + len} \<longrightarrow> (\<forall>i < len. x \<noteq> phys (bs_mem (vs_pm v)) T (va + i)) \<longrightarrow>
       bs_mem (vs_pm v2) x = bs_mem (vs_pm v) x)"
proof -
  let ?m = "bs_mem (vs_pm v)"
  have va: "va \<le> MAXVA" using r by (simp add: user_range_def)
  obtain m1 where 1: "copyout_loop v pt va src len = Some (0, v\<lparr>vs_pm := (vs_pm v)\<lparr>bs_mem := m1\<rparr>\<rparr>)"
    "\<And>i. i < len \<Longrightarrow> m1 (phys ?m T (va + i)) = ?m (src + i)"
    "\<And>x. (\<And>i. i < len \<Longrightarrow> x \<noteq> phys ?m T (va + i)) \<Longrightarrow> m1 x = ?m x"
    using copyout_range [OF T l r src] by metis
  define v1 where "v1 = v\<lparr>vs_pm := (vs_pm v)\<lparr>bs_mem := m1\<rparr>\<rparr>"
  have v1: "bs_mem (vs_pm v1) = m1" "vs_lock v1 = vs_lock v" by (simp_all add: v1_def)
  have t: "m1 x = ?m x" if "T p = Some t" "x \<in> page_bytes t" for p t x
    by (rule 1(3)) (use user_range_off_table [OF T r that] in blast)
  have T1: "pt_tree m1 pt T" by (rule pt_tree_cong [OF T t])
  have e: "pte_at m1 T x = pte_at ?m T x" for x by (rule pte_at_cong [OF t])
  have ph: "phys m1 T x = phys ?m T x" for x by (simp add: phys_def e)
  have r1: "user_range m1 T va len" "kernel_buf m1 T va len dst len"
    using r dst by (simp_all add: user_range_def kernel_buf_def e ph)
  obtain m2 where 2: "copyin_loop v1 pt dst va len = Some (0, v1\<lparr>vs_pm := (vs_pm v1)\<lparr>bs_mem := m2\<rparr>\<rparr>)"
    "\<And>i. i < len \<Longrightarrow> m2 (dst + i) = m1 (phys ?m T (va + i))" "\<And>x. x \<notin> {dst..<dst + len} \<Longrightarrow> m2 x = m1 x"
    using copyin_range [of v1 pt T va len dst] T1 l r1 unfolding v1 ph by metis
  have "copyout v pt va src len = Some (0, v1)" using va 1(1) by (simp add: copyout_def v1_def)
  moreover have "copyin v1 pt dst va len = Some (0, v1\<lparr>vs_pm := (vs_pm v1)\<lparr>bs_mem := m2\<rparr>\<rparr>)" using va 2(1) by (simp add: copyin_def)
  ultimately show ?thesis using 1(2,3) 2(2,3) by (intro exI [of _ v1] exI [of _ "v1\<lparr>vs_pm := (vs_pm v1)\<lparr>bs_mem := m2\<rparr>\<rparr>"]) simp
qed

theorem copyout_copyin_witness:
  "\<exists>v pt v1 v2. copyout v pt 0x1ffc 0x1000 8 = Some (0, v1) \<and> copyin v1 pt 0x2000 0x1ffc 8 = Some (0, v2) \<and>
     bs_mem (vs_pm v2) 0x2007 = bs_mem (vs_pm v) 0x1007"
proof -
  obtain v :: vmem and pt T where s: "\<not> vs_lock v" "pt_inv (vs_pm v) pt T" "mem_start (vs_pm v) = 0x80000000"
    "mem_end (vs_pm v) = 0x80040000" "8 \<le> free_count (vs_pm v)"
    "\<forall>vb \<in> {0x1000..<0x3000}.
      pte_at (bs_mem (vs_pm v)) T vb = PA2PTE (0x90000000 + (vb div PGSIZE - 1) * PGSIZE) OR (PTE_R OR PTE_U) OR PTE_V"
    "\<forall>vb \<in> {0x3000..<MAXVA}. pte_at (bs_mem (vs_pm v)) T vb = 0"
    by (rule small_mapped)
  have T: "pt_tree (bs_mem (vs_pm v)) pt T" using s(2) by (simp add: pt_inv_def)
  have ph: "phys (bs_mem (vs_pm v)) T vb = 0x90000000 + (vb - 0x1000)"
    "PTE2PA (pte_at (bs_mem (vs_pm v)) T vb) = 0x90000000 + (vb div PGSIZE - 1) * PGSIZE"
    "user_page (pte_at (bs_mem (vs_pm v)) T vb)" if "0x1000 \<le> vb" "vb < 0x3000" for vb
    using small_phys [OF s(6) that] by blast+
  have tab: "0x80000000 \<le> t \<and> t + PGSIZE \<le> 0x80040000" if "T p = Some t" for p t
    using table_region [OF s(2) that] s(3,4) by simp
  have off: "T p \<noteq> Some (PTE2PA (pte_at (bs_mem (vs_pm v)) T vb))" if "0x1000 \<le> vb" "vb < 0x3000" for p vb
    using tab [of p] ph(2) [OF that] by (cases "T p") auto
  have "user_range (bs_mem (vs_pm v)) T 0x1ffc 8"
    unfolding user_range_def using off ph(3) by (auto simp: ph(1) inj_on_def)
  moreover have "kernel_buf (bs_mem (vs_pm v)) T 0x1ffc 8 0x2000 8"
    unfolding kernel_buf_def using tab by (force simp: ph(1))
  moreover have "phys (bs_mem (vs_pm v)) T (0x1ffc + i) \<noteq> 0x1000 + j" if "i < 8" "j < 8" for i j :: nat
    using that by (subst ph(1)) auto
  ultimately obtain v1 v2 where "copyout v pt 0x1ffc 0x1000 8 = Some (0, v1)" "copyin v1 pt 0x2000 0x1ffc 8 = Some (0, v2)"
    "\<forall>i < 8. bs_mem (vs_pm v2) (0x2000 + i) = bs_mem (vs_pm v) (0x1000 + i)"
    using copyout_copyin [OF T s(1), of "0x1ffc" 8 "0x1000" "0x2000"] by blast
  moreover from this(3) have "bs_mem (vs_pm v2) 0x2007 = bs_mem (vs_pm v) 0x1007" by (auto dest: spec [of _ 7])
  ultimately show ?thesis by blast
qed

text \<open>
  A copy whose first page is not a valid user page fails with -1 in either direction, and nothing
  is written.
\<close>

theorem copy_fault:
  assumes "pt_tree (bs_mem (vs_pm v)) pt T" "\<not> vs_lock v" "va < MAXVA" "0 < len"
    and "\<not> user_page (pte_at (bs_mem (vs_pm v)) T va)"
  shows "copyin v pt dst va len = Some (-1, v) \<and> copyout v pt va src len = Some (-1, v)"
  using copyin_fault [OF assms] by blast

theorem copy_fault_witness: "\<exists>v pt. copyin v pt 0x2000 0x5000 8 = Some (-1, v) \<and> copyout v pt 0x5000 0x1000 8 = Some (-1, v)"
proof -
  obtain v :: vmem and pt where s: "\<not> vs_lock v" "pt_inv (vs_pm v) pt [[] \<mapsto> pt]" "16 \<le> free_count (vs_pm v)"
    "\<forall>va. pte_at (bs_mem (vs_pm v)) [[] \<mapsto> pt] va = 0" using small_space by blast
  have "pt_tree (bs_mem (vs_pm v)) pt [[] \<mapsto> pt]" using s(2) by (simp add: pt_inv_def)
  then show ?thesis using copy_fault [of v pt "[[] \<mapsto> pt]" "0x5000" 8 "0x2000" "0x1000"] s(1,4) by (auto simp: user_page_def)
qed

text \<open>
  C27: \<^verbatim>\<open>access_ok\<close>, for a non-empty range below \<^verbatim>\<open>MAXVA\<close>, answers exactly whether every byte of the range
  lies in a valid user page with the requested permission, although it looks at one address a page.
\<close>

theorem access_ok_iff:
  assumes T: "pt_tree (bs_mem (vs_pm v)) pt T" and l: "\<not> vs_lock v" and r: "0 < sz" "a + sz \<le> MAXVA"
    and t: "typ = VERIFY_READ \<or> typ = VERIFY_WRITE"
  shows "access_ok v pt typ a sz = Some (\<forall>x \<in> {a..<a + sz}.
    (let e = pte_at (bs_mem (vs_pm v)) T x
     in e AND PTE_V \<noteq> 0 \<and> e AND PTE_U \<noteq> 0 \<and> e AND (if typ = VERIFY_WRITE then PTE_W else PTE_R) \<noteq> 0))"
proof -
  define need where "need = (if typ = VERIFY_WRITE then PTE_W else PTE_R)"
  define P where "P x = (let e = pte_at (bs_mem (vs_pm v)) T x in e AND PTE_V \<noteq> 0 \<and> e AND PTE_U \<noteq> 0 \<and> e AND need \<noteq> 0)" for x
  have a: "a < MAXVA" "add64 a sz = a + sz" using r by (simp_all add: add64_in_range)
  have d: "PGROUNDDOWN a = a div PGSIZE * PGSIZE" using a(1) by (rule PGROUNDDOWN_va)
  have P: "P x = P a" if "PGROUNDDOWN a \<le> x" "x \<le> a" for x
  proof -
    have "PGROUNDDOWN a div PGSIZE \<le> x div PGSIZE" "x div PGSIZE \<le> a div PGSIZE" using that by (simp_all add: div_le_mono)
    then have "x div PGSIZE = a div PGSIZE" unfolding d by simp
    then show ?thesis unfolding P_def by (simp only: pte_at_page [of x a])
  qed
  have "range_ok v pt need (PGROUNDDOWN a) (a + sz) = Some (\<forall>x. PGROUNDDOWN a \<le> x \<and> x < a + sz \<longrightarrow> P x)"
    unfolding P_def by (rule range_ok_pages [OF T l]) (use r in \<open>simp_all add: d\<close>)
  moreover have "(\<forall>x. PGROUNDDOWN a \<le> x \<and> x < a + sz \<longrightarrow> P x) \<longleftrightarrow> (\<forall>x \<in> {a..<a + sz}. P x)"
  proof
    assume all: "\<forall>x \<in> {a..<a + sz}. P x"
    then have "P a" using r(1) by simp
    then show "\<forall>x. PGROUNDDOWN a \<le> x \<and> x < a + sz \<longrightarrow> P x" using all P by (metis atLeastLessThan_iff le_cases)
  next
    have "PGROUNDDOWN a \<le> a" unfolding d by simp
    then show "\<forall>x \<in> {a..<a + sz}. P x" if "\<forall>x. PGROUNDDOWN a \<le> x \<and> x < a + sz \<longrightarrow> P x" using that by auto
  qed
  moreover have "access_ok v pt typ a sz = range_ok v pt need (PGROUNDDOWN a) (a + sz)"
    using t a r pt_treeD(2) [OF T pt_treeD(1) [OF T]] unfolding access_ok_def a(2) need_def by auto
  ultimately show ?thesis unfolding P_def need_def by simp
qed

theorem access_ok_iff_witness:
  "\<exists>v pt. access_ok v pt VERIFY_READ 0x1ffc 8 = Some True \<and> access_ok v pt VERIFY_WRITE 0x1ffc 8 = Some False"
proof -
  obtain v :: vmem and pt T where s: "\<not> vs_lock v" "pt_inv (vs_pm v) pt T" "mem_start (vs_pm v) = 0x80000000"
    "mem_end (vs_pm v) = 0x80040000" "8 \<le> free_count (vs_pm v)"
    "\<forall>vb \<in> {0x1000..<0x3000}.
      pte_at (bs_mem (vs_pm v)) T vb = PA2PTE (0x90000000 + (vb div PGSIZE - 1) * PGSIZE) OR (PTE_R OR PTE_U) OR PTE_V"
    "\<forall>vb \<in> {0x3000..<MAXVA}. pte_at (bs_mem (vs_pm v)) T vb = 0"
    by (rule small_mapped)
  have T: "pt_tree (bs_mem (vs_pm v)) pt T" using s(2) by (simp add: pt_inv_def)
  have f: "e AND PTE_V \<noteq> 0" "e AND PTE_U \<noteq> 0" "e AND PTE_R \<noteq> 0" "e AND PTE_W = 0"
    if "e = PA2PTE pa OR (PTE_R OR PTE_U) OR PTE_V" for e pa
    using leaf_flags [of pa] unfolding that by blast+
  have "access_ok v pt VERIFY_READ 0x1ffc 8 = Some True"
    using s(6) f by (subst access_ok_iff [OF T s(1)]) (auto simp: Let_def)
  moreover have "access_ok v pt VERIFY_WRITE 0x1ffc 8 = Some False"
    using s(6) f by (subst access_ok_iff [OF T s(1)]) (auto simp: Let_def intro!: bexI [of _ "0x1ffc"])
  ultimately show ?thesis by blast
qed

text \<open>
  \<^verbatim>\<open>vmunmap\<close> with \<^verbatim>\<open>do_free\<close> on one page of a larger allocated block releases the whole block: the
  other pages of the block stay mapped, and the frames they are mapped to are free.
\<close>

theorem vmunmap_frees_block:
  assumes i: "pt_inv (vs_pm v) pt T" and l: "\<not> vs_lock v" and va: "va mod PGSIZE = 0" "va + PGSIZE \<le> MAXVA" "vb < MAXVA"
    and e: "e = pte_at (bs_mem (vs_pm v)) T va" "e AND PTE_V \<noteq> 0" "PTE_FLAGS e \<noteq> PTE_V"
    and b: "(a, k) \<in> live_blocks (vs_pm v)" "PTE2PA e \<in> block_bytes (a, k)"
    and vb: "vb div PGSIZE \<noteq> va div PGSIZE" "PTE2PA (pte_at (bs_mem (vs_pm v)) T vb) \<in> block_bytes (a, k)"
    and T0: "\<And>p t. T p = Some t \<Longrightarrow> t \<notin> block_bytes (a, k)"
  shows "\<exists>v'. vmunmap v pt va 1 True = Some v' \<and> pt_inv (vs_pm v') pt T \<and> pte_at (bs_mem (vs_pm v')) T va = 0 \<and>
    pte_at (bs_mem (vs_pm v')) T vb = pte_at (bs_mem (vs_pm v)) T vb \<and>
    PTE2PA (pte_at (bs_mem (vs_pm v')) T vb) \<notin> frames (vs_pm v') \<and>
    live_blocks (vs_pm v') = live_blocks (vs_pm v) - {(a, k)}"
proof -
  have lt: "va < MAXVA" using va(2) by simp
  obtain s' where s': "unmap_page (vs_pm v) pt va True = Some s'" "pt_inv s' pt T"
    "live_blocks s' = live_blocks (vs_pm v) - {(a, k)}" "frames s' = frames (vs_pm v) - {f. f \<in> block_bytes (a, k)}"
    "\<forall>vb < MAXVA. pte_at (bs_mem s') T vb = (if vb \<in> same_page va then 0 else pte_at (bs_mem (vs_pm v)) T vb)"
    using unmap_page_block [OF i lt e b] T0 by blast
  have "unmap_loop (vs_pm v) pt va (va + PGSIZE) True = Some s'"
    using s'(1) by (simp add: unmap_loop.simps)
  moreover have "add64 va (1 * PGSIZE) = va + PGSIZE" using va(2) by (simp add: add64_in_range)
  ultimately have "vmunmap v pt va 1 True = Some (v\<lparr>vs_pm := s'\<rparr>)" using l va(1) by (simp add: vmunmap_def)
  moreover have "pte_at (bs_mem s') T va = 0" using s'(5) lt by simp
  moreover have "pte_at (bs_mem s') T vb = pte_at (bs_mem (vs_pm v)) T vb" using s'(5) va(3) vb(1) by simp
  ultimately show ?thesis using s'(2-4) vb(2) by (intro exI [of _ "v\<lparr>vs_pm := s'\<rparr>"]) simp
qed

text \<open>
  \<^verbatim>\<open>uvmalloc1\<close> of an unmapped, page-aligned range of at most 1024 pages, when one free block can serve
  it, returns 1: the range is mapped in order to memory nobody used before, readable as zeros, and
  every other address translates as before.
\<close>

theorem uvmalloc1_maps:
  assumes i: "pt_inv (vs_pm v) pt T" and l: "\<not> vs_lock v"
    and r: "start mod PGSIZE = 0" "0 < n" "start + n * PGSIZE \<le> MAXVA"
    and k: "get_order n = int k" "find_order (free_lists (vs_pm v)) k \<noteq> None"
    and av: "2 ^ k + 2 * n \<le> free_count (vs_pm v)"
    and un: "\<And>vb. start \<le> vb \<Longrightarrow> vb < start + n * PGSIZE \<Longrightarrow> pte_at (bs_mem (vs_pm v)) T vb AND PTE_V = 0"
  shows "\<exists>v' T' a. uvmalloc1 v pt start (start + n * PGSIZE) perm = Some (1, v') \<and> \<not> vs_lock v' \<and> pt_inv (vs_pm v') pt T' \<and>
    (\<forall>vb < MAXVA. pte_at (bs_mem (vs_pm v')) T' vb =
       (if start \<le> vb \<and> vb < start + n * PGSIZE
        then PA2PTE (a + (vb div PGSIZE - start div PGSIZE) * PGSIZE) OR (perm OR PTE_U OR PTE_D) OR PTE_V
        else pte_at (bs_mem (vs_pm v)) T vb)) \<and>
    (\<forall>x \<in> {a..<a + n * PGSIZE}. bs_mem (vs_pm v') x = 0) \<and>
    (\<forall>f \<in> frames (vs_pm v). page_bytes f \<inter> {a..<a + n * PGSIZE} = {})"
proof -
  obtain j where j: "find_order (free_lists (vs_pm v)) k = Some j" using k(2) by blast
  have o: "k \<le> 10" "n \<le> 2 ^ k" "n \<le> 2 ^ 10" using get_order_cases [OF refl, of n] k(1) by auto
  then have n: "n < 2 ^ 31" "k \<le> BUDDY_MAX_ORDER" by simp_all
  show ?thesis using uvmalloc1_block [OF i l r(1,2) n(1) r(3) k(1) n(2) o(2) j av un] by blast
qed

theorem uvmalloc1_maps_witness:
  "\<exists>v pt v' T' a. uvmalloc1 v pt 0x10000 (0x10000 + 2 * PGSIZE) PTE_R = Some (1, v') \<and>
     pte_at (bs_mem (vs_pm v')) T' 0x11000 = PA2PTE (a + PGSIZE) OR (PTE_R OR PTE_U OR PTE_D) OR PTE_V"
proof -
  obtain v :: vmem and pt where s: "\<not> vs_lock v" "pt_inv (vs_pm v) pt [[] \<mapsto> pt]" "16 \<le> free_count (vs_pm v)"
    "\<forall>va. pte_at (bs_mem (vs_pm v)) [[] \<mapsto> pt] va = 0" "mem_start (vs_pm v) = 0x80000000"
    "mem_end (vs_pm v) = 0x80040000" "find_order (free_lists (vs_pm v)) 1 \<noteq> None"
    by (rule small_space)
  have g: "get_order 2 = int 1" by code_simp
  have f: "find_order (free_lists (vs_pm v)) 1 \<noteq> None" "2 ^ 1 + 2 * 2 \<le> free_count (vs_pm v)" using s(3,7) by auto
  obtain v' T' a where a: "uvmalloc1 v pt 0x10000 (0x10000 + 2 * PGSIZE) PTE_R = Some (1, v')"
    "\<forall>vb < MAXVA. pte_at (bs_mem (vs_pm v')) T' vb =
       (if 0x10000 \<le> vb \<and> vb < 0x10000 + 2 * PGSIZE
        then PA2PTE (a + (vb div PGSIZE - 0x10000 div PGSIZE) * PGSIZE) OR (PTE_R OR PTE_U OR PTE_D) OR PTE_V
        else pte_at (bs_mem (vs_pm v)) [[] \<mapsto> pt] vb)"
    using uvmalloc1_maps [OF s(2,1) _ _ _ g f, of "0x10000" PTE_R] s(4) by auto
  from a(2) [rule_format, of "0x11000"]
  have "pte_at (bs_mem (vs_pm v')) T' 0x11000 = PA2PTE (a + PGSIZE) OR (PTE_R OR PTE_U OR PTE_D) OR PTE_V" by simp
  then show ?thesis using a(1) by blast
qed

theorem vmunmap_frees_block_witness:
  "\<exists>v pt v' T. vmunmap v pt 0x10000 1 True = Some v' \<and> pte_at (bs_mem (vs_pm v')) T 0x11000 AND PTE_V \<noteq> 0 \<and>
     PTE2PA (pte_at (bs_mem (vs_pm v')) T 0x11000) \<notin> frames (vs_pm v')"
proof -
  obtain v0 :: vmem and pt where s: "\<not> vs_lock v0" "pt_inv (vs_pm v0) pt [[] \<mapsto> pt]" "16 \<le> free_count (vs_pm v0)"
    "\<forall>va. pte_at (bs_mem (vs_pm v0)) [[] \<mapsto> pt] va = 0" "mem_start (vs_pm v0) = 0x80000000"
    "mem_end (vs_pm v0) = 0x80040000" "find_order (free_lists (vs_pm v0)) 1 \<noteq> None"
    by (rule small_space)
  then obtain j where j: "find_order (free_lists (vs_pm v0)) 1 = Some j" by blast
  have sc: "(0x10000::nat) mod PGSIZE = 0" "0 < (2::nat)" "(2::nat) < 2 ^ 31" "0x10000 + 2 * PGSIZE \<le> MAXVA" by simp_all
  have un: "pte_at (bs_mem (vs_pm v0)) [[] \<mapsto> pt] vb AND PTE_V = 0" for vb using s(4) by simp
  have g1: "get_order 2 = int 1" by code_simp
  have g: "(1::nat) \<le> BUDDY_MAX_ORDER" "(2::nat) \<le> 2 ^ 1" "2 ^ 1 + 2 * 2 \<le> free_count (vs_pm v0)"
    using s(3) by simp_all
  obtain v :: vmem and T a where a: "\<not> vs_lock v" "pt_inv (vs_pm v) pt T"
    "\<forall>vb < MAXVA. pte_at (bs_mem (vs_pm v)) T vb =
       (if 0x10000 \<le> vb \<and> vb < 0x10000 + 2 * PGSIZE
        then PA2PTE (a + (vb div PGSIZE - 0x10000 div PGSIZE) * PGSIZE) OR (PTE_R OR PTE_U OR PTE_D) OR PTE_V
        else pte_at (bs_mem (vs_pm v0)) [[] \<mapsto> pt] vb)"
    "(a, 1) \<in> live_blocks (vs_pm v)" "PGSIZE dvd a" "a + PGSIZE * 2 ^ 1 \<le> 2 ^ 64"
    "\<forall>p t. T p = Some t \<longrightarrow> t \<notin> block_bytes (a, 1)"
    using uvmalloc1_block [OF s(2,1) sc g1 g(1,2) j g(3) un, of PTE_R] by blast
  let ?f = "PTE_R OR PTE_U OR PTE_D" and ?m = "bs_mem (vs_pm v)"
  have f: "(?f OR PTE_V) AND NOT 0x3FF = 0" "?f AND NOT 0x3FF = 0" "?f OR PTE_V \<noteq> PTE_V" by code_simp+
  have e: "pte_at ?m T 0x10000 = PA2PTE a OR ?f OR PTE_V" "pte_at ?m T 0x11000 = PA2PTE (a + PGSIZE) OR ?f OR PTE_V"
    using a(3) [rule_format, of "0x10000"] a(3) [rule_format, of "0x11000"] by simp_all
  have pa: "PTE2PA (pte_at ?m T 0x10000) = a" "PTE2PA (pte_at ?m T 0x11000) = a + PGSIZE"
    unfolding e by (rule PTE2PA_PA2PTE [OF _ _ f(1)]; use a(5,6) in simp)+
  have h: "pte_at ?m T 0x10000 AND PTE_V \<noteq> 0" "PTE_FLAGS (pte_at ?m T 0x10000) \<noteq> PTE_V"
    unfolding e PTE_FLAGS_leaf [OF f(2)] by (rule PA2PTE_valid f(3))+
  have hb: "PTE2PA (pte_at ?m T 0x10000) \<in> block_bytes (a, 1)" "PTE2PA (pte_at ?m T 0x11000) \<in> block_bytes (a, 1)"
    unfolding pa by (simp_all add: block_bytes_def)
  obtain v' where "vmunmap v pt 0x10000 1 True = Some v'" "pte_at (bs_mem (vs_pm v')) T 0x11000 = pte_at ?m T 0x11000"
    "PTE2PA (pte_at (bs_mem (vs_pm v')) T 0x11000) \<notin> frames (vs_pm v')"
    using vmunmap_frees_block [OF a(2,1) _ _ _ refl h(1,2) a(4) hb(1) _ hb(2)] a(7) by auto
  moreover from this(2) have "pte_at (bs_mem (vs_pm v')) T 0x11000 AND PTE_V \<noteq> 0" unfolding e by (simp only: PA2PTE_valid not_False_eq_True)
  ultimately show ?thesis by blast
qed

text \<open>
  \<^verbatim>\<open>uvmcopy\<close> copies the page of the dynamic loader's address \<open>0x10000036e\<close> by mapping one page size at
  that unaligned address: the child gets two pages, and the second is the physical page after the
  copy, which was not allocated for it.
\<close>

theorem copy_page_maps_neighbour:
  assumes "pt_tree (bs_mem s) old To" "e = pte_at (bs_mem s) To 0x10000036e" "e AND PTE_V \<noteq> 0"
    and "pt_inv s new T" "5 \<le> free_count s"
    and "\<And>vb. vb div PGSIZE = 0x100000 \<or> vb div PGSIZE = 0x100001 \<Longrightarrow> pte_at (bs_mem s) T vb AND PTE_V = 0"
  shows "\<exists>mem s' T'. copy_page s old new 0x10000036e = Some (True, s') \<and> pt_inv s' new T' \<and> mem \<notin> frames s \<and>
    pte_at (bs_mem s') T' 0x100000000 = PA2PTE mem OR PTE_FLAGS e OR PTE_V \<and>
    pte_at (bs_mem s') T' 0x100001000 = PA2PTE (mem + PGSIZE) OR PTE_FLAGS e OR PTE_V"
  by (rule copy_page_split [OF assms])


theorem copy_page_maps_neighbour_witness:
  "\<exists>s old new mem s' T'. copy_page s old new 0x10000036e = Some (True, s') \<and> mem \<notin> frames s \<and>
     pte_at (bs_mem s') T' 0x100001000 = PA2PTE (mem + PGSIZE) OR (PTE_R OR PTE_U OR PTE_V) OR PTE_V"
proof -
  obtain v :: vmem and old where s: "\<not> vs_lock v" "pt_inv (vs_pm v) old [[] \<mapsto> old]" "16 \<le> free_count (vs_pm v)"
    "\<forall>va. pte_at (bs_mem (vs_pm v)) [[] \<mapsto> old] va = 0" using small_space by blast
  let ?a = "0x100000000 :: nat" and ?f = "PTE_R OR PTE_U"
  have c: "page_count ?a PGSIZE = 1" by (simp add: page_count_def)
  obtain s1 T1 where 1: "pt_inv s1 old T1"
    "remaps (2 * page_count ?a PGSIZE) (vs_pm v) [[] \<mapsto> old]
      {vb. ?a div PGSIZE \<le> vb div PGSIZE \<and> vb div PGSIZE < ?a div PGSIZE + page_count ?a PGSIZE} (leaf_entry 0x90000000 ?a ?f) s1 T1"
    using map_range [OF s(2), of PGSIZE ?a "0x90000000" ?f] s(3,4) c by auto
  have e1: "pte_at (bs_mem s1) T1 0x10000036e = PA2PTE 0x90000000 OR ?f OR PTE_V"
    using remapsD(6) [OF 1(2), of "0x10000036e"] unfolding c by (simp add: leaf_entry_def)
  have n1: "8 \<le> free_count s1" using remapsD(3) [OF 1(2)] s(3) unfolding c by simp
  obtain new s2 where 2: "pt_inv s2 old T1" "grows 1 s1 T1 s2 T1" "PGSIZE dvd new" "0 < new" "new < 2 ^ 64" "new \<in> frames s2"
    "\<forall>x \<in> page_bytes new. bs_mem s2 x = 0" using alloc_grows [OF 1(1)] n1 by (metis zero_less_numeral less_le_trans)
  have n: "pt_tree (bs_mem s2) new [[] \<mapsto> new]" "pte_at (bs_mem s2) [[] \<mapsto> new] vb = 0" for vb
    using empty_table [of new "bs_mem s2"] 2(3-5,7) by blast+
  have inv: "pt_inv s2 new [[] \<mapsto> new]" using 2(1,6) n(1) unfolding pt_inv_def by (auto split: if_splits)
  have old: "pt_tree (bs_mem s2) old T1" using 2(1) unfolding pt_inv_def by blast
  have e2: "pte_at (bs_mem s2) T1 0x10000036e = PA2PTE 0x90000000 OR ?f OR PTE_V"
    using growsD(6) [OF 2(2)] e1 by simp
  have fl: "PTE_FLAGS (PA2PTE 0x90000000 OR ?f OR PTE_V) = ?f OR PTE_V" by (rule PTE_FLAGS_leaf) code_simp
  have v: "(PA2PTE 0x90000000 OR ?f OR PTE_V) AND PTE_V \<noteq> 0" by (rule PA2PTE_valid)
  have av: "5 \<le> free_count s2" using growsD(3) [OF 2(2)] n1 by simp
  have un: "pte_at (bs_mem s2) [[] \<mapsto> new] vb AND PTE_V = 0" for vb unfolding n(2) by simp
  show ?thesis using copy_page_maps_neighbour [OF old e2 [symmetric] v inv av un] unfolding fl by (simp only: or.assoc) blast
qed

end
