(* ===== verification/Vmem_Free.thy ===== *)
theory Vmem_Free
  imports Vmem_Props
begin

text \<open>
  Releasing a whole page table. \<^verbatim>\<open>freewalk\<close> recurses into every entry that looks like a pointer to a
  table; on a well-formed tree of tables it ends and releases every table, and nothing else.
\<close>

section \<open>The tables below an entry\<close>

text \<open>
  What \<^verbatim>\<open>freewalk\<close> relies on: an entry has no flag but \<^verbatim>\<open>PTE_V\<close> exactly when it points to a table.
\<close>

definition free_shape :: "mem \<Rightarrow> tree \<Rightarrow> bool" where
  "free_shape m T \<longleftrightarrow> (\<forall>p t i. T p = Some t \<and> i < 512 \<and> read64 m (t + 8 * i) AND PTE_V \<noteq> 0 \<longrightarrow>
     (PTE_FLAGS (read64 m (t + 8 * i)) = PTE_V \<longleftrightarrow> length p < 2))"

definition sub_tables :: "tree \<Rightarrow> nat list \<Rightarrow> addr set" where
  "sub_tables T p = {u. \<exists>q. T (p @ q) = Some u}"

text \<open>The table at \<open>p\<close> and those below its entries from \<open>i\<close> on.\<close>

definition tables_from :: "tree \<Rightarrow> nat list \<Rightarrow> nat \<Rightarrow> addr set" where
  "tables_from T p i = {u. T p = Some u} \<union> (\<Union>j \<in> {i..}. sub_tables T (p @ [j]))"

lemma tree_prefix: "pt_tree m pt T \<Longrightarrow> T (p @ q) \<noteq> None \<Longrightarrow> T p \<noteq> None"
proof (induction q rule: rev_induct)
  case (snoc i q)
  then have "T ((p @ q) @ [i]) \<noteq> None" by simp
  then have "T (p @ q) \<noteq> None" using pt_treeD(4) [OF snoc.prems(1)] by blast
  then show ?case using snoc by blast
qed simp

lemma sub_tables_from: "sub_tables T p = tables_from T p 0"
proof -
  have "(\<exists>q. T (p @ q) = Some u) \<longleftrightarrow> T p = Some u \<or> (\<exists>j q. T ((p @ [j]) @ q) = Some u)" for u
  proof
    assume "\<exists>q. T (p @ q) = Some u"
    then obtain q where q: "T (p @ q) = Some u" by blast
    show "T p = Some u \<or> (\<exists>j q. T ((p @ [j]) @ q) = Some u)"
    proof (cases q)
      case Nil then show ?thesis using q by simp
    next
      case (Cons j q1) then have "T ((p @ [j]) @ q1) = Some u" using q by simp
      then show ?thesis by blast
    qed
  next
    assume "T p = Some u \<or> (\<exists>j q. T ((p @ [j]) @ q) = Some u)"
    then show "\<exists>q. T (p @ q) = Some u" by (metis append.right_neutral append.assoc)
  qed
  then show ?thesis by (auto simp: sub_tables_def tables_from_def)
qed

lemma tables_from_step: "tables_from T p i = tables_from T p (Suc i) \<union> sub_tables T (p @ [i])"
proof -
  have "{i..} = insert i {Suc i..}" by auto
  then show ?thesis by (auto simp: tables_from_def)
qed

lemma sub_tables_none: "pt_tree m pt T \<Longrightarrow> T p = None \<Longrightarrow> sub_tables T p = {}"
  using tree_prefix [of m pt T p] by (auto simp: sub_tables_def)

lemma tables_from_end:
  assumes T: "pt_tree m pt T" and i: "512 \<le> i" shows "tables_from T p i = {u. T p = Some u}"
proof -
  have "sub_tables T (p @ [j]) = {}" if "512 \<le> j" for j
    by (rule sub_tables_none [OF T]) (use pt_treeD(4) [OF T, of p j] that in force)
  then show ?thesis using i by (auto simp: tables_from_def)
qed

lemma sub_tables_apart:
  assumes T: "pt_tree m pt T" and u: "u \<in> sub_tables T (p @ [i])"
  shows "u \<notin> tables_from T p (Suc i)"
proof
  assume "u \<in> tables_from T p (Suc i)"
  obtain q where q: "T (p @ [i] @ q) = Some u" using u by (auto simp: sub_tables_def)
  from \<open>u \<in> tables_from T p (Suc i)\<close> consider "T p = Some u" | j r where "Suc i \<le> j" "T (p @ [j] @ r) = Some u"
    by (auto simp: tables_from_def sub_tables_def)
  then show False
  proof cases
    case 1 then show False using pt_treeD(3) [OF T q 1] by simp
  next
    case 2 then show False using pt_treeD(3) [OF T q 2(2)] by simp
  qed
qed

section \<open>The walk\<close>

text \<open>
  \<open>releases s X s'\<close>: the single-page blocks \<open>X\<close> are released, and memory outside them is untouched.
\<close>

definition releases :: "buddy_system \<Rightarrow> addr set \<Rightarrow> buddy_system \<Rightarrow> bool" where
  "releases s X s' \<longleftrightarrow> buddy_wf s' \<and> \<not> bs_lock s' \<and> same_region s s' \<and>
     live_blocks s' = live_blocks s - (\<lambda>u. (u, 0)) ` X \<and>
     (\<forall>x. (\<forall>u \<in> X. x \<notin> page_bytes u) \<longrightarrow> bs_mem s' x = bs_mem s x)"

lemma releases_trans: "releases s X s1 \<Longrightarrow> releases s1 Y s2 \<Longrightarrow> releases s (X \<union> Y) s2"
  unfolding releases_def by (auto simp: image_Un Diff_Diff_Int same_region_def)

text \<open>\<open>holds_tables m s X\<close>: the tables \<open>X\<close> are live single pages with the contents they have in \<open>m\<close>.\<close>

definition holds_tables :: "mem \<Rightarrow> buddy_system \<Rightarrow> addr set \<Rightarrow> bool" where
  "holds_tables m s X \<longleftrightarrow> (\<forall>u \<in> X. (u, 0) \<in> live_blocks s \<and> (\<forall>x \<in> page_bytes u. bs_mem s x = m x))"

lemma holds_after:
  assumes "holds_tables m s X" "releases s Y s'" "X \<inter> Y = {}" "\<And>u. u \<in> X \<union> Y \<Longrightarrow> PGSIZE dvd u"
  shows "holds_tables m s' X"
  unfolding holds_tables_def
proof (intro ballI conjI)
  fix u assume u: "u \<in> X"
  then have "u \<notin> Y" using assms(3) by blast
  then show "(u, 0) \<in> live_blocks s'" using assms(1,2) u by (auto simp: holds_tables_def releases_def)
  fix x assume x: "x \<in> page_bytes u"
  have "x \<notin> page_bytes w" if "w \<in> Y" for w
    using pages_apart [of u w] assms(4) [of u] assms(4) [of w] u \<open>u \<notin> Y\<close> that x by blast
  then have "bs_mem s' x = bs_mem s x" using assms(2) unfolding releases_def by blast
  then show "bs_mem s' x = m x" using assms(1) u x by (simp add: holds_tables_def)
qed

text \<open>The loop over the entries of one table, given that the walk of its children is right.\<close>

lemma freewalk_loop:
  assumes T: "pt_tree m pt T" and sh: "free_shape m T" and p: "T p = Some t"
    and child: "\<And>s i u. i < 512 \<Longrightarrow> T (p @ [i]) = Some u \<Longrightarrow> buddy_wf s \<Longrightarrow> \<not> bs_lock s \<Longrightarrow>
      holds_tables m s (sub_tables T (p @ [i])) \<Longrightarrow>
      \<exists>s'. freewalk_from s u 0 = Some s' \<and> releases s (sub_tables T (p @ [i])) s'"
  shows "i \<le> 512 \<Longrightarrow> buddy_wf s \<Longrightarrow> \<not> bs_lock s \<Longrightarrow> (t, 0) \<in> live_blocks s \<Longrightarrow>
    holds_tables m s (tables_from T p i - {t}) \<Longrightarrow>
    (\<And>j. i \<le> j \<Longrightarrow> j < 512 \<Longrightarrow> get64 s (t + 8 * j) = read64 m (t + 8 * j)) \<Longrightarrow>
    \<exists>s'. freewalk_from s t i = Some s' \<and> releases s (tables_from T p i) s'"
proof (induction "512 - i" arbitrary: i s)
  case 0
  then have i: "i = 512" by simp
  have "t \<in> block_bytes (t, 0)" by (simp add: block_bytes_def)
  then obtain s' where s': "pmem_free_pages s t 1 = Some s'" "buddy_wf s'" "\<not> bs_lock s'" "bs_mem s' = bs_mem s"
    "same_region s s'" "live_blocks s' = live_blocks s - {(t, 0)}"
    using pmem_free_live [OF 0(3-5), of t 1] by auto
  moreover have "tables_from T p i = {t}" using tables_from_end [OF T, of i p] p i by auto
  ultimately show ?case unfolding i by (subst freewalk_from.simps) (auto simp: releases_def)
next
  case (Suc n)
  then have i: "i < 512" by simp
  let ?e = "read64 m (t + 8 * i)"
  have e: "get64 s (t + 8 * i) = ?e" using Suc.prems(6) [of i] i by simp
  have al: "PGSIZE dvd u" if "u \<in> tables_from T p i" for u
    using that pt_treeD(2) [OF T] by (auto simp: tables_from_def sub_tables_def)
  show ?case
  proof (cases "?e AND PTE_V \<noteq> 0 \<and> PTE_FLAGS ?e = PTE_V")
    case True
    then have "length p < 2" using sh p i by (auto simp: free_shape_def)
    then have ch: "T (p @ [i]) = Some (PTE2PA ?e)" using pt_treeD(5) [OF T p _ i] True by simp
    have tn: "t \<notin> sub_tables T (p @ [i])" using pt_treeD(3) [OF T p] by (auto simp: sub_tables_def)
    have "holds_tables m s (sub_tables T (p @ [i]))"
      using Suc.prems(5) tn tables_from_step [of T p i] by (auto simp: holds_tables_def)
    from child [OF i ch Suc.prems(2,3) this] obtain s1 where s1: "freewalk_from s (PTE2PA ?e) 0 = Some s1"
      "releases s (sub_tables T (p @ [i])) s1" by blast
    define s2 where "s2 = put64 s1 (t + 8 * i) 0"
    have al': "PGSIZE dvd u" if "u \<in> insert t (tables_from T p (Suc i)) \<union> sub_tables T (p @ [i])" for u
      using al [of u] that tables_from_step [of T p i] p by (auto simp: tables_from_def)
    have pt: "PGSIZE dvd t" using pt_treeD(2) [OF T p] by blast
    have w2: "bs_mem s2 x = bs_mem s1 x" if "x \<notin> page_bytes t" for x
      using that i by (auto simp: s2_def put64_def intro!: write64_other)
    have wf2: "buddy_wf s2" "\<not> bs_lock s2" "live_blocks s2 = live_blocks s - (\<lambda>u. (u, 0)) ` sub_tables T (p @ [i])"
      using s1(2) by (auto simp: s2_def put64_def releases_def)
    have h1: "holds_tables m s1 (tables_from T p (Suc i) - {t})"
      by (rule holds_after [OF _ s1(2)])
        (use Suc.prems(5) tables_from_step [of T p i] sub_tables_apart [OF T] al' in \<open>auto simp: holds_tables_def\<close>)
    have "bs_mem s2 x = bs_mem s1 x" if "u \<in> tables_from T p (Suc i) - {t}" "x \<in> page_bytes u" for u x
      using w2 [of x] pages_apart [OF _ pt, of u] al' [of u] that by blast
    then have "holds_tables m s2 (tables_from T p (Suc i) - {t})"
      using h1 by (auto simp: holds_tables_def s2_def put64_def)
    moreover have "(t, 0) \<in> live_blocks s2" using Suc.prems(4) wf2(3) tn by auto
    moreover have "get64 s2 (t + 8 * j) = read64 m (t + 8 * j)" if "Suc i \<le> j" "j < 512" for j
    proof -
      have "get64 s2 (t + 8 * j) = get64 s1 (t + 8 * j)"
        unfolding s2_def put64_def using that i by (simp, intro read_write64_other) auto
      also have "\<dots> = get64 s (t + 8 * j)"
      proof (rule read64_page_cong [OF _ that(2)])
        fix x assume x: "x \<in> page_bytes t"
        have "x \<notin> page_bytes u" if "u \<in> sub_tables T (p @ [i])" for u
        proof -
          have "t \<noteq> u" using that tn by blast
          then show ?thesis using pages_apart [OF pt al', of u] that x by blast
        qed
        then show "bs_mem s1 x = bs_mem s x" using s1(2) unfolding releases_def by blast
      qed
      finally show ?thesis using Suc.prems(6) [of j] that by simp
    qed
    moreover have "n = 512 - Suc i" "Suc i \<le> 512" using Suc.hyps(2) i by simp_all
    ultimately obtain s' where s': "freewalk_from s2 t (Suc i) = Some s'" "releases s2 (tables_from T p (Suc i)) s'"
      using Suc.hyps(1) [of "Suc i" s2] wf2 by blast
    have "freewalk_from s t i = Some s'"
      using i e True s1(1) s'(1) by (subst freewalk_from.simps) (simp add: Let_def s2_def)
    moreover have "releases s1 (tables_from T p (Suc i)) s'"
    proof -
      have "t \<in> tables_from T p (Suc i)" using p by (simp add: tables_from_def)
      then have "bs_mem s' x = bs_mem s1 x" if "\<forall>u \<in> tables_from T p (Suc i). x \<notin> page_bytes u" for x
        using that s'(2) w2 [of x] unfolding releases_def by auto
      then show ?thesis using s'(2) by (auto simp: releases_def s2_def put64_def same_region_def)
    qed
    with s1(2) have "releases s (tables_from T p i) s'"
      unfolding tables_from_step [of T p i] by (metis releases_trans Un_commute)
    ultimately show ?thesis by blast
  next
    case False
    have "sub_tables T (p @ [i]) = {}"
    proof (rule sub_tables_none [OF T], rule ccontr)
      assume c: "T (p @ [i]) \<noteq> None"
      then obtain u where "T (p @ [i]) = Some u" by blast
      then have "length p < 2" using pt_treeD(2) [OF T, of "p @ [i]"] by auto
      then show False using pt_treeD(5) [OF T p _ i] sh p i False c by (auto simp: free_shape_def split: if_splits)
    qed
    then have st: "tables_from T p i = tables_from T p (Suc i)" using tables_from_step [of T p i] by simp
    have n: "n = 512 - Suc i" "Suc i \<le> 512" using Suc.hyps(2) i by simp_all
    have "freewalk_from s t i = freewalk_from s t (Suc i)"
      using i e False by (subst freewalk_from.simps) (auto simp: Let_def)
    then show ?thesis
      using Suc.hyps(1) [OF n Suc.prems(2-4)] Suc.prems(5,6) unfolding st by auto
  qed
qed

lemma freewalk_tables:
  assumes T: "pt_tree m pt T" and sh: "free_shape m T"
  shows "T p = Some t \<Longrightarrow> length p + d = 2 \<Longrightarrow> buddy_wf s \<Longrightarrow> \<not> bs_lock s \<Longrightarrow> holds_tables m s (sub_tables T p) \<Longrightarrow>
    \<exists>s'. freewalk_from s t 0 = Some s' \<and> releases s (sub_tables T p) s'"
proof (induction d arbitrary: p t s)
  case 0
  have none: "T (p @ [i]) = None" for i
  proof (rule ccontr)
    assume "T (p @ [i]) \<noteq> None"
    then have "length (p @ [i]) \<le> 2" using pt_treeD(2) [OF T] by blast
    then show False using 0(2) by simp
  qed
  have t: "t \<in> sub_tables T p" "tables_from T p 0 = sub_tables T p" using 0(1) by (auto simp: sub_tables_def sub_tables_from [symmetric] intro: exI [of _ "[]"])
  show ?case
    using freewalk_loop [OF T sh 0(1), of 0 s] none 0(3-5) t read64_page_cong [of t "bs_mem s" m]
    by (auto simp: holds_tables_def)
next
  case (Suc d)
  have child: "\<exists>s'. freewalk_from s u 0 = Some s' \<and> releases s (sub_tables T (p @ [i])) s'"
    if "T (p @ [i]) = Some u" "buddy_wf s" "\<not> bs_lock s" "holds_tables m s (sub_tables T (p @ [i]))" for s i u
    by (rule Suc.IH) (use that Suc.prems(2) in auto)
  have t: "t \<in> sub_tables T p" "tables_from T p 0 = sub_tables T p" using Suc.prems(1) by (auto simp: sub_tables_def sub_tables_from [symmetric] intro: exI [of _ "[]"])
  show ?case
    using freewalk_loop [OF T sh Suc.prems(1) child, of 0 s] Suc.prems(3-5) t read64_page_cong [of t "bs_mem s" m]
    by (auto simp: holds_tables_def)
qed

text \<open>
  C26: \<^verbatim>\<open>freewalk\<close> of a well-formed table whose table pages are single allocated pages ends, for all its
  recursion; it releases exactly the pages of the table and leaves the memory of every other page
  as it was.
\<close>

theorem freewalk_releases:
  assumes i: "pt_inv (vs_pm v) pt T" and sh: "free_shape (bs_mem (vs_pm v)) T"
    and live: "\<forall>p t. T p = Some t \<longrightarrow> (t, 0) \<in> live_blocks (vs_pm v)"
  shows "\<exists>v'. freewalk v pt = Some v' \<and> buddy_wf (vs_pm v') \<and> vs_lock v' = vs_lock v \<and>
    live_blocks (vs_pm v') = live_blocks (vs_pm v) - {(t, 0) | t. \<exists>p. T p = Some t} \<and>
    (\<forall>x. (\<forall>p t. T p = Some t \<longrightarrow> x \<notin> page_bytes t) \<longrightarrow> bs_mem (vs_pm v') x = bs_mem (vs_pm v) x)"
proof -
  note I = i [unfolded pt_inv_def]
  have T: "pt_tree (bs_mem (vs_pm v)) pt T" using I by blast
  have all: "sub_tables T [] = {t. \<exists>p. T p = Some t}" by (simp add: sub_tables_def)
  have "holds_tables (bs_mem (vs_pm v)) (vs_pm v) (sub_tables T [])" using live by (auto simp: holds_tables_def all)
  then obtain s' where s': "freewalk_from (vs_pm v) pt 0 = Some s'" "releases (vs_pm v) (sub_tables T []) s'"
    using freewalk_tables [OF T sh pt_treeD(1) [OF T], of 2 "vs_pm v"] I by auto
  have "(\<lambda>u. (u, 0::nat)) ` sub_tables T [] = {(t, 0) | t. \<exists>p. T p = Some t}" by (auto simp: all)
  moreover have "bs_mem s' x = bs_mem (vs_pm v) x" if "\<forall>p t. T p = Some t \<longrightarrow> x \<notin> page_bytes t" for x
  proof -
    have "\<forall>u \<in> sub_tables T []. x \<notin> page_bytes u" using that unfolding all by blast
    then show ?thesis using s'(2) unfolding releases_def by blast
  qed
  ultimately show ?thesis using s' unfolding releases_def
    by (intro exI [of _ "v\<lparr>vs_pm := s'\<rparr>"]) (simp add: freewalk_def)
qed

theorem freewalk_releases_witness: "\<exists>v pt v'. freewalk v pt = Some v' \<and> (pt, 0) \<in> live_blocks (vs_pm v) \<and> (pt, 0) \<notin> live_blocks (vs_pm v')"
proof -
  obtain s where s: "buddy_wf s" "\<not> bs_lock s" "32 \<le> free_count s" using small_allocator by blast
  then have "buddy_wf (vs_pm \<lparr>vs_pm = s, vs_lock = False\<rparr>)" "\<not> bs_lock (vs_pm \<lparr>vs_pm = s, vs_lock = False\<rparr>)"
    "0 < free_count (vs_pm \<lparr>vs_pm = s, vs_lock = False\<rparr>)" by simp_all
  from create_inv [OF this] obtain pt and v :: vmem where v: "pt_inv (vs_pm v) pt [[] \<mapsto> pt]" "(pt, 0) \<in> live_blocks (vs_pm v)"
    by blast
  have "pt_tree (bs_mem (vs_pm v)) pt [[] \<mapsto> pt]" using v(1) by (simp add: pt_inv_def)
  then have "read64 (bs_mem (vs_pm v)) (pt + 8 * i) AND PTE_V = 0" if "i < 512" for i
    using pt_treeD(5) [of "bs_mem (vs_pm v)" pt "[[] \<mapsto> pt]" "[]" pt i] that
    by (cases "read64 (bs_mem (vs_pm v)) (pt + 8 * i) AND PTE_V = 0") auto
  then have sh: "free_shape (bs_mem (vs_pm v)) [[] \<mapsto> pt]" by (auto simp: free_shape_def split: if_splits)
  have "\<forall>p t. ([[] \<mapsto> pt] :: tree) p = Some t \<longrightarrow> (t, 0) \<in> live_blocks (vs_pm v)" using v(2) by (auto split: if_splits)
  from freewalk_releases [OF v(1) sh this] obtain v' :: vmem where v': "freewalk v pt = Some v'"
    "live_blocks (vs_pm v') = live_blocks (vs_pm v) - {(t, 0) | t. \<exists>p. ([[] \<mapsto> pt] :: tree) p = Some t}" by blast
  have "([[] \<mapsto> pt] :: tree) [] = Some pt" by simp
  then have "(pt, 0) \<notin> live_blocks (vs_pm v')" unfolding v'(2) by blast
  then show ?thesis using v'(1) v(2) by blast
qed

end
