(* ===== verification/Bcache.thy ===== *)
theory Bcache
  imports Locks "HOL-Library.Multiset"
begin

text \<open>
  The buffer cache (\<^verbatim>\<open>kernel/fs/bio.c\<close>): \<^verbatim>\<open>NBUF\<close> buffers on a circular doubly linked list, most recently
  released first. A buffer is its index in \<^verbatim>\<open>bcache.buf\<close>; the index \<open>HEAD\<close> stands for \<^verbatim>\<open>bcache.head\<close>. The
  code between \<^verbatim>\<open>acquire(&bcache.lock)\<close> and \<^verbatim>\<open>release\<close> is one function on the cache; the sleep lock of
  a buffer is taken after it, in a step of its own. The disk is a function from block numbers to
  blocks, which the transfer of the device driver reads or writes.
\<close>

section \<open>Model\<close>

abbreviation NBUF :: nat where "NBUF \<equiv> 3000"
abbreviation (input) HEAD :: nat where "HEAD \<equiv> 3000"

type_synonym block = "8 word list"

record buf =
  b_valid :: bool
  b_dev :: nat
  b_blockno :: nat
  b_lock :: sleeplock
  b_refcnt :: nat
  b_prev :: nat
  b_next :: nat
  b_data :: block

record bcache =
  bc_buf :: "nat \<Rightarrow> buf"
  bc_disk :: "nat \<Rightarrow> block"

definition upd :: "bcache \<Rightarrow> nat \<Rightarrow> (buf \<Rightarrow> buf) \<Rightarrow> bcache" where
  "upd c b f = c\<lparr>bc_buf := (bc_buf c)(b := f (bc_buf c b))\<rparr>"

definition set_next :: "bcache \<Rightarrow> nat \<Rightarrow> nat \<Rightarrow> bcache" where
  "set_next c b x = upd c b (\<lambda>r. r\<lparr>b_next := x\<rparr>)"

definition set_prev :: "bcache \<Rightarrow> nat \<Rightarrow> nat \<Rightarrow> bcache" where
  "set_prev c b x = upd c b (\<lambda>r. r\<lparr>b_prev := x\<rparr>)"

abbreviation next_of :: "bcache \<Rightarrow> nat \<Rightarrow> nat" where "next_of c b \<equiv> b_next (bc_buf c b)"
abbreviation prev_of :: "bcache \<Rightarrow> nat \<Rightarrow> nat" where "prev_of c b \<equiv> b_prev (bc_buf c b)"

text \<open>The four assignments that put a buffer behind the head, the same in \<^verbatim>\<open>binit\<close> and \<^verbatim>\<open>brelse\<close>.\<close>

definition push_head :: "bcache \<Rightarrow> nat \<Rightarrow> bcache" where
  "push_head c b =
     (let c1 = set_next c b (next_of c HEAD);
          c2 = set_prev c1 b HEAD;
          c3 = set_prev c2 (next_of c2 HEAD) b
      in set_next c3 HEAD b)"

definition unlink :: "bcache \<Rightarrow> nat \<Rightarrow> bcache" where
  "unlink c b =
     (let c1 = set_prev c (next_of c b) (prev_of c b)
      in set_next c1 (prev_of c1 b) (next_of c1 b))"

definition binit :: "bcache \<Rightarrow> bcache" where
  "binit c =
     (let c1 = set_next (set_prev c HEAD HEAD) HEAD HEAD
      in fold (\<lambda>b c. upd (push_head c b) b (\<lambda>r. r\<lparr>b_lock := initsleeplock\<rparr>)) [0..<NBUF] c1)"

text \<open>The two loops of \<^verbatim>\<open>bget\<close>; \<open>HEAD\<close> as a result means that the loop ran to its end.\<close>

partial_function (option) find_cached :: "bcache \<Rightarrow> nat \<Rightarrow> nat \<Rightarrow> nat \<Rightarrow> nat option" where
  "find_cached c dev blockno b =
     (if b = HEAD then Some HEAD
      else if b_dev (bc_buf c b) = dev \<and> b_blockno (bc_buf c b) = blockno then Some b
      else find_cached c dev blockno (next_of c b))"

partial_function (option) find_unused :: "bcache \<Rightarrow> nat \<Rightarrow> nat option" where
  "find_unused c b =
     (if b = HEAD then Some HEAD
      else if b_refcnt (bc_buf c b) = 0 then Some b
      else find_unused c (prev_of c b))"

text \<open>\<^verbatim>\<open>bget\<close> up to \<^verbatim>\<open>acquiresleep\<close>; \<open>None\<close> is the panic when every buffer is in use.\<close>

definition bget :: "bcache \<Rightarrow> nat \<Rightarrow> nat \<Rightarrow> (nat \<times> bcache) option" where
  "bget c dev blockno =
     (case find_cached c dev blockno (next_of c HEAD) of
        None \<Rightarrow> None
      | Some b \<Rightarrow>
          (if b \<noteq> HEAD then Some (b, upd c b (\<lambda>r. r\<lparr>b_refcnt := add32 (b_refcnt r) 1\<rparr>))
           else
             (case find_unused c (prev_of c HEAD) of
                None \<Rightarrow> None
              | Some b \<Rightarrow>
                  (if b \<noteq> HEAD
                   then Some (b, upd c b (\<lambda>r. r\<lparr>b_dev := dev, b_blockno := blockno, b_valid := False, b_refcnt := 1\<rparr>))
                   else None))))"

text \<open>The sleep lock of the buffer: \<open>None\<close> means that the process sleeps on it.\<close>

definition buf_lock :: "bcache \<Rightarrow> int \<Rightarrow> nat \<Rightarrow> bcache option" where
  "buf_lock c pid b = map_option (\<lambda>lk. upd c b (\<lambda>r. r\<lparr>b_lock := lk\<rparr>)) (acquiresleep pid (b_lock (bc_buf c b)))"

text \<open>What \<^verbatim>\<open>bread\<close> does once \<^verbatim>\<open>bget\<close> has returned the locked buffer.\<close>

definition bread :: "bcache \<Rightarrow> nat \<Rightarrow> nat \<Rightarrow> bcache" where
  "bread c dev b =
     (if \<not> b_valid (bc_buf c b) then
        (let c1 = (if dev = 0 then upd c b (\<lambda>r. r\<lparr>b_data := bc_disk c (b_blockno r)\<rparr>) else c)
         in upd c1 b (\<lambda>r. r\<lparr>b_valid := True\<rparr>))
      else c)"

definition bwrite :: "bcache \<Rightarrow> int \<Rightarrow> nat \<Rightarrow> bcache option" where
  "bwrite c pid b =
     (if \<not> holdingsleep pid (b_lock (bc_buf c b)) then None
      else if b_dev (bc_buf c b) = 0
      then Some (c\<lparr>bc_disk := (bc_disk c)(b_blockno (bc_buf c b) := b_data (bc_buf c b))\<rparr>)
      else Some c)"

text \<open>\<^verbatim>\<open>brelse\<close>: releasing the sleep lock, and then the section that drops the reference.\<close>

definition brelse_unlock :: "bcache \<Rightarrow> int \<Rightarrow> nat \<Rightarrow> bcache option" where
  "brelse_unlock c pid b =
     (if \<not> holdingsleep pid (b_lock (bc_buf c b)) then None else Some (upd c b (\<lambda>r. r\<lparr>b_lock := releasesleep (b_lock r)\<rparr>)))"

definition brelse_drop :: "bcache \<Rightarrow> nat \<Rightarrow> bcache" where
  "brelse_drop c b =
     (let c2 = upd c b (\<lambda>r. r\<lparr>b_refcnt := sub32 (b_refcnt r) 1\<rparr>)
      in if b_refcnt (bc_buf c2 b) = 0 then push_head (unlink c2 b) b else c2)"

definition brelse :: "bcache \<Rightarrow> int \<Rightarrow> nat \<Rightarrow> bcache option" where
  "brelse c pid b = map_option (\<lambda>c1. brelse_drop c1 b) (brelse_unlock c pid b)"

definition bpin :: "bcache \<Rightarrow> nat \<Rightarrow> bcache" where
  "bpin c b = upd c b (\<lambda>r. r\<lparr>b_refcnt := add32 (b_refcnt r) 1\<rparr>)"

definition bunpin :: "bcache \<Rightarrow> nat \<Rightarrow> bcache" where
  "bunpin c b = upd c b (\<lambda>r. r\<lparr>b_refcnt := sub32 (b_refcnt r) 1\<rparr>)"

section \<open>The list of buffers\<close>

definition linked :: "bcache \<Rightarrow> nat \<Rightarrow> nat \<Rightarrow> bool" where
  "linked c a b \<longleftrightarrow> next_of c a = b \<and> prev_of c b = a"

text \<open>\<open>ring c xs\<close>: the list from \<^verbatim>\<open>head.next\<close> on is \<open>xs\<close>, in both directions.\<close>

definition ring :: "bcache \<Rightarrow> nat list \<Rightarrow> bool" where
  "ring c xs \<longleftrightarrow> distinct (HEAD # xs) \<and> successively (linked c) (HEAD # xs @ [HEAD])"

lemma linked_cong:
  "next_of c' a = next_of c a \<Longrightarrow> prev_of c' b = prev_of c b \<Longrightarrow> linked c' a b = linked c a b"
  by (simp add: linked_def)

lemma ring_cong: "(\<And>b. next_of c' b = next_of c b \<and> prev_of c' b = prev_of c b) \<Longrightarrow> ring c' xs = ring c xs"
  by (simp add: ring_def linked_def fun_eq_iff)

lemma path_cong:
  assumes "\<And>a. a \<in> set (butlast (x # xs)) \<Longrightarrow> next_of c' a = next_of c a" "\<And>b. b \<in> set xs \<Longrightarrow> prev_of c' b = prev_of c b"
  shows "successively (linked c') (x # xs) = successively (linked c) (x # xs)"
  using assms
proof (induction xs arbitrary: x)
  case (Cons y ys)
  then show ?case by (simp add: linked_def)
qed simp

lemma ring_push_head:
  assumes r: "ring c xs" and b: "b \<notin> set xs" "b \<noteq> HEAD"
  shows "ring (push_head c b) (b # xs)"
proof -
  define F where "F = hd (xs @ [HEAD])"
  have F: "next_of c HEAD = F" using r by (cases xs) (auto simp: ring_def linked_def F_def)
  have d: "distinct (HEAD # xs)" using r by (simp add: ring_def)
  have e: "next_of (push_head c b) a = (if a = HEAD then b else if a = b then F else next_of c a)"
    "prev_of (push_head c b) a = (if a = F then b else if a = b then HEAD else prev_of c a)" for a
    using F b by (auto simp: push_head_def set_next_def set_prev_def upd_def Let_def)
  have s: "successively (linked c) (F # tl (xs @ [HEAD]))" using r by (cases xs) (auto simp: ring_def F_def)
  have "successively (linked (push_head c b)) (F # tl (xs @ [HEAD])) = successively (linked c) (F # tl (xs @ [HEAD]))"
    by (rule path_cong) (use b d in \<open>cases xs; auto simp: e F_def butlast_append\<close>)+
  moreover have "F # tl (xs @ [HEAD]) = xs @ [HEAD]" by (simp add: F_def)
  moreover have "F \<noteq> b" using b by (cases xs) (auto simp: F_def)
  then have "linked (push_head c b) HEAD b" "linked (push_head c b) b F" using b by (auto simp: linked_def e)
  ultimately show ?thesis using s d b unfolding ring_def by (cases xs) (auto simp: F_def)
qed

lemma ring_unlink:
  assumes r: "ring c (xs @ b # ys)"
  shows "ring (unlink c b) (xs @ ys)"
proof -
  define P where "P = last (HEAD # xs)"
  define N where "N = hd (ys @ [HEAD])"
  have d: "distinct (HEAD # xs @ b # ys)" using r by (simp add: ring_def)
  have s: "successively (linked c) ((HEAD # xs) @ [b] @ (ys @ [HEAD]))" using r by (simp add: ring_def)
  have pb: "prev_of c b = P" "next_of c b = N"
    and s1: "successively (linked c) (HEAD # xs)" and s2: "successively (linked c) (ys @ [HEAD])"
    using s unfolding successively_append_iff by (auto simp: linked_def P_def N_def hd_append split: if_splits)
  have Nb: "N \<noteq> b" using d by (cases ys) (auto simp: N_def)
  have e: "next_of (unlink c b) a = (if a = P then N else next_of c a)"
    "prev_of (unlink c b) a = (if a = N then P else prev_of c a)" for a
    using pb Nb by (auto simp: unlink_def set_next_def set_prev_def upd_def Let_def)
  have "P \<notin> set (butlast (HEAD # xs))" using d unfolding P_def by (cases xs rule: rev_cases) (auto simp: butlast_append)
  moreover have "N \<notin> set xs" using d by (cases ys) (auto simp: N_def)
  ultimately have c1: "successively (linked (unlink c b)) (HEAD # xs) = successively (linked c) (HEAD # xs)"
    by (intro path_cong) (auto simp: e)
  have ne: "N # tl (ys @ [HEAD]) = ys @ [HEAD]" by (cases ys) (auto simp: N_def)
  have "P \<notin> set (butlast (ys @ [HEAD]))" using d by (cases xs rule: rev_cases) (auto simp: P_def butlast_append)
  moreover have "N \<notin> set (tl (ys @ [HEAD]))" using d by (cases ys) (auto simp: N_def)
  ultimately have "successively (linked (unlink c b)) (N # tl (ys @ [HEAD])) = successively (linked c) (N # tl (ys @ [HEAD]))"
    by (intro path_cong) (auto simp only: e ne split: if_splits)
  then have c2: "successively (linked (unlink c b)) (ys @ [HEAD]) = successively (linked c) (ys @ [HEAD])"
    unfolding ne .
  have "linked (unlink c b) P N" by (simp add: linked_def e)
  then have "successively (linked (unlink c b)) ((HEAD # xs) @ (ys @ [HEAD]))"
    using s1 s2 by (subst successively_append_iff, intro conjI disjI2) (simp_all only: c1 c2 P_def N_def)
  then show ?thesis using d by (auto simp: ring_def)
qed

lemma ring_to_front:
  assumes "ring c (xs @ b # ys)"
  shows "ring (push_head (unlink c b) b) (b # xs @ ys)"
  by (rule ring_push_head [OF ring_unlink [OF assms]]) (use assms in \<open>auto simp: ring_def\<close>)

lemma find_cached_path:
  "successively (linked c) (p # xs @ [HEAD]) \<Longrightarrow> HEAD \<notin> set xs \<Longrightarrow>
   find_cached c dev blockno (next_of c p) =
     Some (case find (\<lambda>b. b_dev (bc_buf c b) = dev \<and> b_blockno (bc_buf c b) = blockno) xs of None \<Rightarrow> HEAD | Some b \<Rightarrow> b)"
proof (induction xs arbitrary: p)
  case Nil
  then show ?case by (simp add: linked_def find_cached.simps)
next
  case (Cons x xs)
  then have "next_of c p = x" "x \<noteq> HEAD" by (auto simp: linked_def)
  then show ?case using Cons.IH [of x] Cons.prems by (subst find_cached.simps) auto
qed

lemma find_unused_path:
  "successively (linked c) (HEAD # xs @ [q]) \<Longrightarrow> HEAD \<notin> set xs \<Longrightarrow>
   find_unused c (prev_of c q) = Some (case find (\<lambda>b. b_refcnt (bc_buf c b) = 0) (rev xs) of None \<Rightarrow> HEAD | Some b \<Rightarrow> b)"
proof (induction xs arbitrary: q rule: rev_induct)
  case Nil
  then show ?case by (simp add: linked_def find_unused.simps)
next
  case (snoc x xs)
  have s: "successively (linked c) ((HEAD # xs @ [x]) @ [q])" using snoc.prems by simp
  then have "prev_of c q = x" "x \<noteq> HEAD" "successively (linked c) (HEAD # xs @ [x])"
    using snoc.prems(2) unfolding successively_append_iff by (auto simp: linked_def)
  then show ?case using snoc.IH [of x] snoc.prems by (subst find_unused.simps) auto
qed

lemma ring_finds:
  assumes "ring c xs"
  shows "find_cached c dev blockno (next_of c HEAD) =
      Some (case find (\<lambda>b. b_dev (bc_buf c b) = dev \<and> b_blockno (bc_buf c b) = blockno) xs of None \<Rightarrow> HEAD | Some b \<Rightarrow> b)"
    and "find_unused c (prev_of c HEAD) =
      Some (case find (\<lambda>b. b_refcnt (bc_buf c b) = 0) (rev xs) of None \<Rightarrow> HEAD | Some b \<Rightarrow> b)"
  using assms by (auto simp: ring_def intro!: find_cached_path find_unused_path)

lemma find_Some: "find P xs = Some x \<longleftrightarrow> (\<exists>us vs. xs = us @ x # vs \<and> P x \<and> (\<forall>y \<in> set us. \<not> P y))"
proof (induction xs)
  case (Cons a xs)
  show ?case
  proof
    assume "find P (a # xs) = Some x"
    then show "\<exists>us vs. a # xs = us @ x # vs \<and> P x \<and> (\<forall>y \<in> set us. \<not> P y)"
    proof (cases "P a")
      case True then show ?thesis using \<open>find P (a # xs) = Some x\<close> by (intro exI [of _ "[]"] exI [of _ xs]) auto
    next
      case False
      then obtain us vs where "xs = us @ x # vs" "P x" "\<forall>y \<in> set us. \<not> P y"
        using \<open>find P (a # xs) = Some x\<close> Cons.IH by auto
      then show ?thesis using False by (intro exI [of _ "a # us"] exI [of _ vs]) auto
    qed
  next
    assume "\<exists>us vs. a # xs = us @ x # vs \<and> P x \<and> (\<forall>y \<in> set us. \<not> P y)"
    then show "find P (a # xs) = Some x" using Cons.IH by (auto simp: Cons_eq_append_conv)
  qed
qed simp

lemma append_position:
  assumes "us @ vs = us1 @ a # vs1"
  shows "(\<exists>w. us = us1 @ a # w) \<or> (\<exists>w. us1 = us @ w \<and> vs = w @ a # vs1)"
proof -
  obtain w where "us = us1 @ w \<and> w @ vs = a # vs1 \<or> us @ w = us1 \<and> vs = w @ a # vs1"
    using assms unfolding append_eq_append_conv2 by blast
  then show ?thesis by (cases w) auto
qed

lemma ring_split: "ring c zs \<Longrightarrow> zs = us @ a # vs \<Longrightarrow> zs = us' @ a # vs' \<Longrightarrow> us = us' \<and> vs = vs'"
  using append_Cons_eq_iff [of a us vs us' vs'] by (auto simp: ring_def)

section \<open>Invariant\<close>

abbreviation key :: "bcache \<Rightarrow> nat \<Rightarrow> nat \<times> nat" where
  "key c b \<equiv> (b_dev (bc_buf c b), b_blockno (bc_buf c b))"

text \<open>A buffer that has never been used looks like an invalid copy of block 0 of device 0.\<close>

definition fresh :: "bcache \<Rightarrow> nat \<Rightarrow> bool" where
  "fresh c b \<longleftrightarrow> key c b = (0, 0) \<and> \<not> b_valid (bc_buf c b) \<and> b_refcnt (bc_buf c b) = 0 \<and> b_lock (bc_buf c b) = initsleeplock"

text \<open>
  \<open>zs\<close> is the list and \<open>U\<close> the set of the buffers that have been used. Used buffers hold different
  blocks; and no unused buffer comes before a used copy of block 0, which it could be taken for.
\<close>

definition bc_inv :: "bcache \<Rightarrow> nat list \<Rightarrow> nat set \<Rightarrow> bool" where
  "bc_inv c zs U \<longleftrightarrow>
     ring c zs \<and> set zs = {..<NBUF} \<and> U \<subseteq> {..<NBUF} \<and> inj_on (key c) U \<and>
     (\<forall>b < NBUF. b \<notin> U \<longrightarrow> fresh c b) \<and>
     (\<forall>us a vs. zs = us @ a # vs \<and> a \<in> U \<and> key c a = (0, 0) \<longrightarrow> set us \<subseteq> U)"

lemma bc_invD:
  assumes "bc_inv c zs U"
  shows "ring c zs" "set zs = {..<NBUF}" "U \<subseteq> {..<NBUF}" "inj_on (key c) U"
    and "b < NBUF \<Longrightarrow> b \<notin> U \<Longrightarrow> fresh c b"
    and "zs = us @ a # vs \<Longrightarrow> a \<in> U \<Longrightarrow> key c a = (0, 0) \<Longrightarrow> set us \<subseteq> U"
  using assms unfolding bc_inv_def by blast+

definition cached :: "bcache \<Rightarrow> nat set \<Rightarrow> nat \<Rightarrow> nat \<Rightarrow> bool" where
  "cached c U dev blockno \<longleftrightarrow> (\<exists>b \<in> U. key c b = (dev, blockno))"

lemma upd_simps [simp]:
  "bc_buf (upd c b f) a = (if a = b then f (bc_buf c b) else bc_buf c a)" "bc_disk (upd c b f) = bc_disk c"
  by (simp_all add: upd_def)

text \<open>The list operations touch the links only.\<close>

lemma link_fields:
  "b_dev (bc_buf (set_next c x y) a) = b_dev (bc_buf c a)"
  "b_blockno (bc_buf (set_next c x y) a) = b_blockno (bc_buf c a)"
  "b_valid (bc_buf (set_next c x y) a) = b_valid (bc_buf c a)"
  "b_data (bc_buf (set_next c x y) a) = b_data (bc_buf c a)"
  "b_refcnt (bc_buf (set_next c x y) a) = b_refcnt (bc_buf c a)"
  "b_lock (bc_buf (set_next c x y) a) = b_lock (bc_buf c a)"
  "bc_disk (set_next c x y) = bc_disk c"
  "b_dev (bc_buf (set_prev c x y) a) = b_dev (bc_buf c a)"
  "b_blockno (bc_buf (set_prev c x y) a) = b_blockno (bc_buf c a)"
  "b_valid (bc_buf (set_prev c x y) a) = b_valid (bc_buf c a)"
  "b_data (bc_buf (set_prev c x y) a) = b_data (bc_buf c a)"
  "b_refcnt (bc_buf (set_prev c x y) a) = b_refcnt (bc_buf c a)"
  "b_lock (bc_buf (set_prev c x y) a) = b_lock (bc_buf c a)"
  "bc_disk (set_prev c x y) = bc_disk c"
  by (simp_all add: set_next_def set_prev_def)

text \<open>Changing a used buffer, or starting to use one, without touching the list.\<close>

lemma bc_inv_upd:
  assumes i: "bc_inv c zs U" and b: "b < NBUF"
    and f: "b_next (f (bc_buf c b)) = b_next (bc_buf c b)" "b_prev (f (bc_buf c b)) = b_prev (bc_buf c b)"
    and k: "\<And>a. a \<in> U \<Longrightarrow> a \<noteq> b \<Longrightarrow> key c a \<noteq> key (upd c b f) b"
    and z: "\<And>us vs. zs = us @ b # vs \<Longrightarrow> key (upd c b f) b = (0, 0) \<Longrightarrow> set us \<subseteq> insert b U"
  shows "bc_inv (upd c b f) zs (insert b U)"
proof -
  note D = bc_invD [OF i]
  have "ring (upd c b f) zs" using D(1) ring_cong [of "upd c b f" c zs] f by simp
  moreover have "inj_on (key (upd c b f)) (insert b U)"
  proof (rule inj_onI)
    fix x y assume xy: "x \<in> insert b U" "y \<in> insert b U" "key (upd c b f) x = key (upd c b f) y"
    show "x = y"
    proof (cases "x = b \<or> y = b")
      case True then show ?thesis using k [of x] k [of y] xy by (auto split: if_splits)
    next
      case False then show ?thesis using xy inj_onD [OF D(4), of x y] by simp
    qed
  qed
  moreover have "fresh (upd c b f) a" if "a < NBUF" "a \<notin> insert b U" for a
    using D(5) [of a] that by (simp add: fresh_def)
  moreover have "set us \<subseteq> insert b U" if "zs = us @ a # vs" "a \<in> insert b U" "key (upd c b f) a = (0, 0)" for us a vs
    using z [of us vs] D(6) [of us a vs] that by (cases "a = b") auto
  ultimately show ?thesis using D(2,3) b unfolding bc_inv_def by (simp add: subset_insertI2)
qed

lemma fresh_not_used: "fresh c b \<Longrightarrow> b_refcnt (bc_buf c b) = 0 \<and> key c b = (0, 0) \<and> \<not> slk_locked (b_lock (bc_buf c b))"
  by (simp add: fresh_def initsleeplock_def)

lemma bget_hit:
  assumes i: "bc_inv c zs U" and h: "cached c U dev blockno"
  shows "\<exists>b \<in> U. key c b = (dev, blockno) \<and>
    bget c dev blockno = Some (b, upd c b (\<lambda>r. r\<lparr>b_refcnt := add32 (b_refcnt r) 1\<rparr>))"
proof -
  note D = bc_invD [OF i]
  let ?P = "\<lambda>b. b_dev (bc_buf c b) = dev \<and> b_blockno (bc_buf c b) = blockno"
  obtain a where a: "a \<in> U" "?P a" using h by (auto simp: cached_def)
  then have "a \<in> set zs" using D(2,3) by blast
  then obtain b where b: "find ?P zs = Some b" using a(2) by (cases "find ?P zs") (auto simp: find_None_iff)
  then obtain us vs where z: "zs = us @ b # vs" "?P b" "\<forall>y \<in> set us. \<not> ?P y" by (auto simp: find_Some)
  have bn: "b < NBUF" using z(1) D(2) by auto
  have "b \<in> U"
  proof (rule ccontr)
    assume nb: "b \<notin> U"
    then have k: "(dev, blockno) = (0, 0)" using D(5) [OF bn] z(2) by (auto simp: fresh_def)
    have "a \<noteq> b" "a \<notin> set us" using a nb z(3) by auto
    then obtain vs1 vs2 where "vs = vs1 @ a # vs2" using \<open>a \<in> set zs\<close> z(1) by (auto simp: in_set_conv_decomp)
    then have "zs = (us @ b # vs1) @ a # vs2" using z(1) by simp
    then have "set (us @ b # vs1) \<subseteq> U" by (rule D(6)) (use a k in auto)
    then show False using nb by simp
  qed
  moreover have "find_cached c dev blockno (next_of c HEAD) = Some b" using ring_finds(1) [OF D(1)] b by simp
  ultimately show ?thesis using bn z(2) by (auto simp: bget_def)
qed

lemma bget_miss:
  assumes i: "bc_inv c zs U" and h: "\<not> cached c U dev blockno" and n: "b < NBUF" "b_refcnt (bc_buf c b) = 0"
  shows "\<exists>b c'. bget c dev blockno = Some (b, c') \<and> b < NBUF \<and> b_refcnt (bc_buf c b) = 0 \<and> bc_inv c' zs (insert b U) \<and>
    key c' b = (dev, blockno) \<and> b_refcnt (bc_buf c' b) = 1 \<and> \<not> b_valid (bc_buf c' b) \<and>
    b_lock (bc_buf c' b) = b_lock (bc_buf c b) \<and> bc_disk c' = bc_disk c \<and> (\<forall>a. a \<noteq> b \<longrightarrow> bc_buf c' a = bc_buf c a) \<and>
    (fresh c b \<or> (\<forall>us vs. zs = us @ b # vs \<longrightarrow> (\<forall>y \<in> set vs. b_refcnt (bc_buf c y) \<noteq> 0)))"
proof -
  note D = bc_invD [OF i]
  let ?P = "\<lambda>b. b_dev (bc_buf c b) = dev \<and> b_blockno (bc_buf c b) = blockno"
  note F = ring_finds(1) [OF D(1), of dev blockno] ring_finds(2) [OF D(1)]
  have nU: "key c a \<noteq> (dev, blockno)" if "a \<in> U" for a using h that by (auto simp: cached_def)
  show ?thesis
  proof (cases "find ?P zs")
    case (Some a)
    then obtain us vs where z: "zs = us @ a # vs" "?P a" "\<forall>y \<in> set us. \<not> ?P y" by (auto simp: find_Some)
    have an: "a < NBUF" "a \<notin> U" using z D(2) nU [of a] by auto
    note fr = D(5) [OF an]
    let ?f = "\<lambda>r. r\<lparr>b_refcnt := add32 (b_refcnt r) 1\<rparr>"
    have pre: "set us' \<subseteq> insert a U" if "zs = us' @ a # vs'" for us' vs'
    proof
      fix y assume y: "y \<in> set us'"
      have "us' = us" using ring_split [OF D(1) z(1) that] by simp
      then have "\<not> ?P y" "y < NBUF" using y z D(2) by auto
      then show "y \<in> insert a U" using D(5) [of y] fr z(2) by (auto simp: fresh_def)
    qed
    have "bc_inv (upd c a ?f) zs (insert a U)"
      by (rule bc_inv_upd [OF i an(1)]) (use nU z(2) pre in auto)
    moreover have "bget c dev blockno = Some (a, upd c a ?f)" using F(1) Some an(1) by (simp add: bget_def)
    ultimately show ?thesis using fr z(2) an(1)
      by (intro exI [of _ a] exI [of _ "upd c a ?f"]) (auto simp: fresh_def add32_def)
  next
    case None
    have "b \<in> set (rev zs)" using n(1) D(2) by simp
    then obtain a where a: "find (\<lambda>b. b_refcnt (bc_buf c b) = 0) (rev zs) = Some a"
      using n(2) by (cases "find (\<lambda>b. b_refcnt (bc_buf c b) = 0) (rev zs)") (auto simp: find_None_iff)
    then obtain us1 vs1 where r: "rev zs = us1 @ a # vs1" "b_refcnt (bc_buf c a) = 0" "\<forall>y \<in> set us1. b_refcnt (bc_buf c y) \<noteq> 0"
      by (auto simp: find_Some)
    have zr: "zs = rev vs1 @ a # rev us1" using arg_cong [OF r(1), of rev] by simp
    have an: "b_refcnt (bc_buf c a) = 0" "a < NBUF" using D(2) r(2) zr by auto
    let ?f = "\<lambda>r. r\<lparr>b_dev := dev, b_blockno := blockno, b_valid := False, b_refcnt := 1\<rparr>"
    have all: "\<not> ?P y" if "y < NBUF" for y using None that D(2) by (auto simp: find_None_iff)
    have "y \<in> U" if "y < NBUF" "(dev, blockno) = (0, 0)" for y
      by (rule ccontr) (use all [OF that(1)] D(5) [OF that(1)] that(2) in \<open>auto simp: fresh_def\<close>)
    then have "bc_inv (upd c a ?f) zs (insert a U)"
      by (intro bc_inv_upd [OF i an(2)]) (use nU D(2) in auto)
    moreover have "bget c dev blockno = Some (a, upd c a ?f)" using F None a an(2) by (simp add: bget_def)
    moreover have "b_refcnt (bc_buf c y) \<noteq> 0" if "zs = us @ a # vs" "y \<in> set vs" for us vs y
      using ring_split [OF D(1) that(1) zr] r(3) that(2) by simp
    ultimately show ?thesis using an by (intro exI [of _ a] exI [of _ "upd c a ?f"]) auto
  qed
qed

lemma bget_full:
  assumes i: "bc_inv c zs U" and h: "\<not> cached c U dev blockno" and n: "\<And>b. b < NBUF \<Longrightarrow> b_refcnt (bc_buf c b) \<noteq> 0"
  shows "bget c dev blockno = None"
proof -
  note D = bc_invD [OF i]
  have U: "b \<in> U" if "b < NBUF" for b using D(5) [OF that] n [OF that] by (auto simp: fresh_def)
  have 1: "find (\<lambda>b. b_dev (bc_buf c b) = dev \<and> b_blockno (bc_buf c b) = blockno) zs = None"
    using h U D(2) by (auto simp: find_None_iff cached_def)
  have 2: "find (\<lambda>b. b_refcnt (bc_buf c b) = 0) (rev zs) = None" using n D(2) by (auto simp: find_None_iff)
  show ?thesis using ring_finds(1) [OF D(1), of dev blockno] ring_finds(2) [OF D(1)] unfolding 1 2 by (simp add: bget_def)
qed

lemma bc_inv_same:
  assumes i: "bc_inv c zs U" and b: "b \<in> U"
    and f: "\<And>r. b_next (f r) = b_next r \<and> b_prev (f r) = b_prev r \<and> b_dev (f r) = b_dev r \<and> b_blockno (f r) = b_blockno r"
  shows "bc_inv (upd c b f) zs U"
proof -
  note D = bc_invD [OF i]
  have n: "b < NBUF" "insert b U = U" using b D(3) by auto
  show ?thesis using bc_inv_upd [OF i n(1), of f] D(6) [of _ b] inj_onD [OF D(4), of _ b] f b n(2) by auto
qed

lemma brelse_drop_inv:
  assumes i: "bc_inv c zs U" and b: "b \<in> U"
    and r: "0 < b_refcnt (bc_buf c b)" "b_refcnt (bc_buf c b) < 2 ^ 32"
  shows "\<exists>zs'. bc_inv (brelse_drop c b) zs' U \<and> bc_disk (brelse_drop c b) = bc_disk c \<and>
    (\<forall>a. key (brelse_drop c b) a = key c a \<and> b_valid (bc_buf (brelse_drop c b) a) = b_valid (bc_buf c a) \<and>
       b_data (bc_buf (brelse_drop c b) a) = b_data (bc_buf c a) \<and>
       b_refcnt (bc_buf (brelse_drop c b) a) = b_refcnt (bc_buf c a) - (if a = b then 1 else 0) \<and>
       b_lock (bc_buf (brelse_drop c b) a) = b_lock (bc_buf c a)) \<and>
    (b_refcnt (bc_buf c b) = 1 \<longrightarrow> (\<exists>us vs. zs = us @ b # vs \<and> zs' = b # us @ vs)) \<and>
    (b_refcnt (bc_buf c b) \<noteq> 1 \<longrightarrow> zs' = zs)"
proof -
  note D = bc_invD [OF i]
  define c2 where "c2 = upd c b (\<lambda>r. r\<lparr>b_refcnt := sub32 (b_refcnt r) 1\<rparr>)"
  have rc: "sub32 (b_refcnt (bc_buf c b)) 1 = b_refcnt (bc_buf c b) - 1" using r by (simp add: sub32_in_range)
  have bn: "b < NBUF" "insert b U = U" using b D(3) by auto
  have i2: "bc_inv c2 zs U"
  proof -
    have u: "bc_inv (upd x b f) zs U" if "bc_inv x zs U" "\<And>r. b_next (f r) = b_next r \<and> b_prev (f r) = b_prev r \<and>
        b_dev (f r) = b_dev r \<and> b_blockno (f r) = b_blockno r" for x f
      using bc_inv_upd [OF that(1) bn(1), of f] bc_invD(6) [OF that(1), of _ b] inj_onD [OF bc_invD(4) [OF that(1)], of _ b]
        that(2) b bn(2) by auto
    show ?thesis unfolding c2_def by (intro u i) auto
  qed
  have e: "brelse_drop c b = (if b_refcnt (bc_buf c b) = 1 then push_head (unlink c2 b) b else c2)"
    using r rc by (auto simp: brelse_drop_def Let_def c2_def)
  show ?thesis
  proof (cases "b_refcnt (bc_buf c b) = 1")
    case False then show ?thesis using e i2 rc by (intro exI [of _ zs]) (auto simp: c2_def)
  next
    case True
    have "b \<in> set zs" using D(2) bn(1) by simp
    then obtain us vs where z: "zs = us @ b # vs" by (auto simp: in_set_conv_decomp)
    let ?c = "push_head (unlink c2 b) b"
    have f: "key ?c a = key c2 a" "b_valid (bc_buf ?c a) = b_valid (bc_buf c2 a)" "b_data (bc_buf ?c a) = b_data (bc_buf c2 a)"
      "b_refcnt (bc_buf ?c a) = b_refcnt (bc_buf c2 a)" "b_lock (bc_buf ?c a) = b_lock (bc_buf c2 a)" "bc_disk ?c = bc_disk c2" for a
      by (simp_all add: link_fields push_head_def unlink_def Let_def)
    note D2 = bc_invD [OF i2]
    have "ring ?c (b # us @ vs)" using ring_to_front [of c2 us b vs] D2(1) z by simp
    moreover have "set us' \<subseteq> U" if "b # us @ vs = us' @ a # vs'" "a \<in> U" "key ?c a = (0, 0)" for us' a vs'
    proof (cases us')
      case (Cons x us1)
      then have x: "x = b" "us @ vs = us1 @ a # vs'" using that(1) by auto
      have "set us1 \<subseteq> U"
      proof -
        consider w where "us = us1 @ a # w" | w where "us1 = us @ w" "vs = w @ a # vs'"
          using append_position [OF x(2)] by blast
        then show ?thesis
        proof cases
          case 1 then show ?thesis using D2(6) [of us1 a] z that(2,3) f(1) by simp
        next
          case 2 then show ?thesis using D2(6) [of "us @ b # w" a vs'] z that(2,3) f(1) by simp
        qed
      qed
      then show ?thesis using Cons x b by simp
    qed simp
    moreover have "inj_on (key ?c) U" using D2(4) f(1) by (simp add: inj_on_def)
    moreover have "fresh ?c a" if "a < NBUF" "a \<notin> U" for a using D2(5) [OF that] f by (simp add: fresh_def)
    ultimately have "bc_inv ?c (b # us @ vs) U" using D(2,3) z unfolding bc_inv_def by auto
    then show ?thesis using e True z rc f by (intro exI [of _ "b # us @ vs"]) (auto simp: c2_def)
  qed
qed

lemma brelse_inv:
  assumes i: "bc_inv c zs U" and b: "b \<in> U" and h: "holdingsleep pid (b_lock (bc_buf c b))"
    and r: "0 < b_refcnt (bc_buf c b)" "b_refcnt (bc_buf c b) < 2 ^ 32"
  shows "\<exists>c' zs'. brelse c pid b = Some c' \<and> bc_inv c' zs' U \<and> bc_disk c' = bc_disk c \<and>
    (\<forall>a. key c' a = key c a \<and> b_valid (bc_buf c' a) = b_valid (bc_buf c a) \<and> b_data (bc_buf c' a) = b_data (bc_buf c a) \<and>
       b_refcnt (bc_buf c' a) = b_refcnt (bc_buf c a) - (if a = b then 1 else 0) \<and>
       b_lock (bc_buf c' a) = (if a = b then releasesleep (b_lock (bc_buf c b)) else b_lock (bc_buf c a))) \<and>
    (b_refcnt (bc_buf c b) = 1 \<longrightarrow> (\<exists>us vs. zs = us @ b # vs \<and> zs' = b # us @ vs)) \<and>
    (b_refcnt (bc_buf c b) \<noteq> 1 \<longrightarrow> zs' = zs)"
proof -
  let ?c = "upd c b (\<lambda>r. r\<lparr>b_lock := releasesleep (b_lock r)\<rparr>)"
  have "bc_inv ?c zs U" by (rule bc_inv_same [OF i b]) simp
  from brelse_drop_inv [OF this b] r obtain zs' where
    d: "bc_inv (brelse_drop ?c b) zs' U" "bc_disk (brelse_drop ?c b) = bc_disk c"
    and e: "\<And>a. key (brelse_drop ?c b) a = key ?c a \<and> b_valid (bc_buf (brelse_drop ?c b) a) = b_valid (bc_buf ?c a) \<and>
       b_data (bc_buf (brelse_drop ?c b) a) = b_data (bc_buf ?c a) \<and>
       b_refcnt (bc_buf (brelse_drop ?c b) a) = b_refcnt (bc_buf ?c a) - (if a = b then 1 else 0) \<and>
       b_lock (bc_buf (brelse_drop ?c b) a) = b_lock (bc_buf ?c a)"
    and z: "b_refcnt (bc_buf c b) = 1 \<longrightarrow> (\<exists>us vs. zs = us @ b # vs \<and> zs' = b # us @ vs)" "b_refcnt (bc_buf c b) \<noteq> 1 \<longrightarrow> zs' = zs"
    by auto
  have "brelse c pid b = Some (brelse_drop ?c b)" using h by (simp add: brelse_def brelse_unlock_def)
  then show ?thesis using d z e by (intro exI [of _ "brelse_drop ?c b"] exI [of _ zs'] conjI) auto
qed

text \<open>\<^verbatim>\<open>binit\<close> on zeroed memory, as \<^verbatim>\<open>bcache\<close> is at boot.\<close>

definition zeroed :: "bcache \<Rightarrow> bool" where
  "zeroed c \<longleftrightarrow> (\<forall>b. key c b = (0, 0) \<and> \<not> b_valid (bc_buf c b) \<and> b_refcnt (bc_buf c b) = 0)"

lemma binit_round:
  assumes "ring c xs" "b \<notin> set xs" "b \<noteq> HEAD" "zeroed c" "\<forall>a \<in> set xs. b_lock (bc_buf c a) = initsleeplock"
  shows "ring (upd (push_head c b) b (\<lambda>r. r\<lparr>b_lock := initsleeplock\<rparr>)) (b # xs)"
    and "zeroed (upd (push_head c b) b (\<lambda>r. r\<lparr>b_lock := initsleeplock\<rparr>))"
    and "\<forall>a \<in> set (b # xs). b_lock (bc_buf (upd (push_head c b) b (\<lambda>r. r\<lparr>b_lock := initsleeplock\<rparr>)) a) = initsleeplock"
    and "bc_disk (upd (push_head c b) b (\<lambda>r. r\<lparr>b_lock := initsleeplock\<rparr>)) = bc_disk c"
proof -
  have "ring (push_head c b) (b # xs)" using assms(1-3) by (rule ring_push_head)
  then show "ring (upd (push_head c b) b (\<lambda>r. r\<lparr>b_lock := initsleeplock\<rparr>)) (b # xs)"
    using ring_cong [of "upd (push_head c b) b (\<lambda>r. r\<lparr>b_lock := initsleeplock\<rparr>)" "push_head c b"] by simp
qed (use assms(4,5) in \<open>auto simp: zeroed_def push_head_def link_fields Let_def\<close>)

lemma binit_inv:
  assumes z: "zeroed c"
  shows "bc_inv (binit c) (rev [0..<NBUF]) {} \<and> bc_disk (binit c) = bc_disk c"
proof -
  define c1 where "c1 = set_next (set_prev c HEAD HEAD) HEAD HEAD"
  let ?f = "\<lambda>b c. upd (push_head c b) b (\<lambda>r. r\<lparr>b_lock := initsleeplock\<rparr>)"
  have "ring c1 []" by (simp add: c1_def ring_def linked_def set_next_def set_prev_def)
  have "ring (fold ?f [0..<n] c1) (rev [0..<n]) \<and> zeroed (fold ?f [0..<n] c1) \<and>
      (\<forall>a \<in> set (rev [0..<n]). b_lock (bc_buf (fold ?f [0..<n] c1) a) = initsleeplock) \<and>
      bc_disk (fold ?f [0..<n] c1) = bc_disk c" if "n \<le> NBUF" for n
    using that
  proof (induction n)
    case 0
    then show ?case using z \<open>ring c1 []\<close> by (simp add: c1_def zeroed_def link_fields)
  next
    case (Suc n)
    let ?c = "fold ?f [0..<n] c1"
    have "ring ?c (rev [0..<n])" "n \<notin> set (rev [0..<n])" "n \<noteq> HEAD" "zeroed ?c"
      "\<forall>a \<in> set (rev [0..<n]). b_lock (bc_buf ?c a) = initsleeplock" "bc_disk ?c = bc_disk c"
      using Suc by auto
    note * = binit_round [OF this(1-5)] this(6)
    have "fold ?f [0..<Suc n] c1 = ?f n ?c" "rev [0..<Suc n] = n # rev [0..<n]" by simp_all
    then show ?case using * by (simp only:)
  qed
  from this [of NBUF]
  have f: "ring (binit c) (rev [0..<NBUF])" "zeroed (binit c)" "bc_disk (binit c) = bc_disk c"
    "\<And>a. a < NBUF \<Longrightarrow> b_lock (bc_buf (binit c) a) = initsleeplock"
    unfolding binit_def Let_def c1_def [symmetric] by auto
  then show ?thesis unfolding bc_inv_def by (auto simp: zeroed_def fresh_def)
qed

section \<open>Processes using the cache\<close>

text \<open>
  \<open>bs_wait\<close> counts the processes between the two critical sections of \<^verbatim>\<open>bget\<close>, \<open>bs_hold\<close> are the
  processes that hold a buffer, \<open>bs_rel\<close> counts those between the two of \<^verbatim>\<open>brelse\<close>, and \<open>bs_pins\<close> the pins. A process
  takes a buffer by \<^verbatim>\<open>bread\<close> (rule \<open>lock\<close>) or by \<^verbatim>\<open>bget\<close> alone, as the writers of \<^verbatim>\<open>blockdev.c\<close> do (\<open>lock_only\<close>). A client
  follows the interface: it releases a buffer only when its contents are those of the disk, unmodified or written
  back, and pins only buffers it holds. The reference count is kept below its 32 bits.
\<close>

record bsys =
  bs_c :: bcache
  bs_wait :: "(int \<times> nat) multiset"
  bs_hold :: "(int \<times> nat) set"
  bs_rel :: "nat multiset"
  bs_pins :: "nat multiset"

definition clean :: "bcache \<Rightarrow> nat \<Rightarrow> bool" where
  "clean c b \<longleftrightarrow> b_dev (bc_buf c b) = 0 \<longrightarrow> b_data (bc_buf c b) = bc_disk c (b_blockno (bc_buf c b))"

inductive bc_step :: "bsys \<Rightarrow> bsys \<Rightarrow> bool" where
  get: "bget (bs_c s) dev blockno = Some (b, c') \<Longrightarrow> b_refcnt (bc_buf (bs_c s) b) + 1 < 2 ^ 32 \<Longrightarrow>
    bc_step s (s\<lparr>bs_c := c', bs_wait := add_mset (pid, b) (bs_wait s)\<rparr>)"
| lock: "(pid, b) \<in># bs_wait s \<Longrightarrow> buf_lock (bs_c s) pid b = Some c' \<Longrightarrow>
    bc_step s (s\<lparr>bs_c := bread c' (b_dev (bc_buf c' b)) b, bs_wait := bs_wait s - {#(pid, b)#}, bs_hold := insert (pid, b) (bs_hold s)\<rparr>)"
| lock_only: "(pid, b) \<in># bs_wait s \<Longrightarrow> buf_lock (bs_c s) pid b = Some c' \<Longrightarrow>
    bc_step s (s\<lparr>bs_c := c', bs_wait := bs_wait s - {#(pid, b)#}, bs_hold := insert (pid, b) (bs_hold s)\<rparr>)"
| modify: "(pid, b) \<in> bs_hold s \<Longrightarrow>
    bc_step s (s\<lparr>bs_c := upd (bs_c s) b (\<lambda>r. r\<lparr>b_data := d\<rparr>)\<rparr>)"
| writeback: "(pid, b) \<in> bs_hold s \<Longrightarrow> bwrite (bs_c s) pid b = Some c' \<Longrightarrow> bc_step s (s\<lparr>bs_c := c'\<rparr>)"
| release: "(pid, b) \<in> bs_hold s \<Longrightarrow> clean (bs_c s) b \<Longrightarrow> brelse_unlock (bs_c s) pid b = Some c' \<Longrightarrow>
    bc_step s (s\<lparr>bs_c := c', bs_hold := bs_hold s - {(pid, b)}, bs_rel := add_mset b (bs_rel s)\<rparr>)"
| drop: "b \<in># bs_rel s \<Longrightarrow> bc_step s (s\<lparr>bs_c := brelse_drop (bs_c s) b, bs_rel := bs_rel s - {#b#}\<rparr>)"
| pin: "(pid, b) \<in> bs_hold s \<Longrightarrow> b_refcnt (bc_buf (bs_c s) b) + 1 < 2 ^ 32 \<Longrightarrow>
    bc_step s (s\<lparr>bs_c := bpin (bs_c s) b, bs_pins := add_mset b (bs_pins s)\<rparr>)"
| unpin: "b \<in># bs_pins s \<Longrightarrow> bc_step s (s\<lparr>bs_c := bunpin (bs_c s) b, bs_pins := bs_pins s - {#b#}\<rparr>)"

inductive_cases bc_stepE: "bc_step s s'"

definition bs_start :: "bcache \<Rightarrow> bsys" where
  "bs_start c = \<lparr>bs_c = binit c, bs_wait = {#}, bs_hold = {}, bs_rel = {#}, bs_pins = {#}\<rparr>"

definition held :: "bsys \<Rightarrow> nat \<Rightarrow> bool" where
  "held s b \<longleftrightarrow> (\<exists>p. (p, b) \<in> bs_hold s)"

definition refs :: "bsys \<Rightarrow> nat \<Rightarrow> nat" where
  "refs s b = count (image_mset snd (bs_wait s)) b + (if held s b then 1 else 0) + count (bs_rel s) b + count (bs_pins s) b"

text \<open>
  The invariant of the system: the cache is well formed, reference counts count references, the lock
  of a buffer names its holder, and a valid buffer that nobody holds agrees with the disk.
\<close>

definition bs_ok :: "bsys \<Rightarrow> nat list \<Rightarrow> nat set \<Rightarrow> bool" where
  "bs_ok s zs U \<longleftrightarrow> bc_inv (bs_c s) zs U \<and>
     (\<forall>b. 0 < refs s b \<longrightarrow> b \<in> U) \<and>
     (\<forall>b < NBUF. b_refcnt (bc_buf (bs_c s) b) = refs s b \<and> refs s b < 2 ^ 32) \<and>
     (\<forall>b < NBUF. \<forall>p. (p, b) \<in> bs_hold s \<longleftrightarrow> holdingsleep p (b_lock (bc_buf (bs_c s) b))) \<and>
     (\<forall>b < NBUF. b_valid (bc_buf (bs_c s) b) \<and> \<not> held s b \<longrightarrow> clean (bs_c s) b)"

definition bs_inv :: "bsys \<Rightarrow> bool" where
  "bs_inv s \<longleftrightarrow> (\<exists>zs U. bs_ok s zs U)"

lemma bs_okD:
  assumes "bs_ok s zs U"
  shows "bc_inv (bs_c s) zs U" "\<And>b. 0 < refs s b \<Longrightarrow> b \<in> U"
    "\<And>b. b < NBUF \<Longrightarrow> b_refcnt (bc_buf (bs_c s) b) = refs s b" "\<And>b. b < NBUF \<Longrightarrow> refs s b < 2 ^ 32"
    "\<And>b p. b < NBUF \<Longrightarrow> (p, b) \<in> bs_hold s \<longleftrightarrow> holdingsleep p (b_lock (bc_buf (bs_c s) b))"
    "\<And>b. b < NBUF \<Longrightarrow> b_valid (bc_buf (bs_c s) b) \<Longrightarrow> \<not> held s b \<Longrightarrow> clean (bs_c s) b"
  using assms unfolding bs_ok_def by blast+

lemma bs_invI:
  assumes "bc_inv (bs_c s) zs U" "\<And>b. 0 < refs s b \<Longrightarrow> b \<in> U"
    "\<And>b. b < NBUF \<Longrightarrow> b_refcnt (bc_buf (bs_c s) b) = refs s b" "\<And>b. b < NBUF \<Longrightarrow> refs s b < 2 ^ 32"
    "\<And>b p. b < NBUF \<Longrightarrow> (p, b) \<in> bs_hold s \<longleftrightarrow> holdingsleep p (b_lock (bc_buf (bs_c s) b))"
    "\<And>b. b < NBUF \<Longrightarrow> b_valid (bc_buf (bs_c s) b) \<Longrightarrow> \<not> held s b \<Longrightarrow> clean (bs_c s) b"
  shows "bs_inv s"
  unfolding bs_inv_def bs_ok_def using assms by (intro exI [of _ zs] exI [of _ U]) blast

lemma refs_held: "(p, b) \<in> bs_hold s \<Longrightarrow> 0 < refs s b"
  by (auto simp: refs_def held_def)

lemma bc_inv_disk [simp]: "bc_inv (c\<lparr>bc_disk := d\<rparr>) zs U = bc_inv c zs U"
  by (simp add: bc_inv_def ring_def linked_def fresh_def)

text \<open>A step that concerns one buffer: the rest of the invariant carries over.\<close>

lemma bs_frame:
  assumes ok: "bs_ok s zs U" and inv: "bc_inv (bs_c s') zs' U'" and U: "U \<subseteq> U'" and b: "b \<in> U'"
    and other: "\<And>a. a \<noteq> b \<Longrightarrow> b_refcnt (bc_buf (bs_c s') a) = b_refcnt (bc_buf (bs_c s) a) \<and>
      b_lock (bc_buf (bs_c s') a) = b_lock (bc_buf (bs_c s) a) \<and> b_valid (bc_buf (bs_c s') a) = b_valid (bc_buf (bs_c s) a) \<and>
      key (bs_c s') a = key (bs_c s) a \<and> b_data (bc_buf (bs_c s') a) = b_data (bc_buf (bs_c s) a)"
    and refs: "\<And>a. a \<noteq> b \<Longrightarrow> refs s' a = refs s a"
    and hold: "\<And>a p. a \<noteq> b \<Longrightarrow> (p, a) \<in> bs_hold s' \<longleftrightarrow> (p, a) \<in> bs_hold s"
    and disk: "\<And>a. a < NBUF \<Longrightarrow> a \<noteq> b \<Longrightarrow> b_valid (bc_buf (bs_c s) a) \<Longrightarrow> b_dev (bc_buf (bs_c s) a) = 0 \<Longrightarrow>
      bc_disk (bs_c s') (b_blockno (bc_buf (bs_c s) a)) = bc_disk (bs_c s) (b_blockno (bc_buf (bs_c s) a))"
    and at_b: "b_refcnt (bc_buf (bs_c s') b) = refs s' b" "refs s' b < 2 ^ 32"
      "\<And>p. (p, b) \<in> bs_hold s' \<longleftrightarrow> holdingsleep p (b_lock (bc_buf (bs_c s') b))"
      "b_valid (bc_buf (bs_c s') b) \<Longrightarrow> \<not> held s' b \<Longrightarrow> clean (bs_c s') b"
  shows "bs_inv s'"
proof (rule bs_invI [OF inv])
  note I = bs_okD [OF ok]
  fix a
  have held: "held s' a = held s a" if "a \<noteq> b" using hold [OF that] by (simp add: held_def)
  show "0 < refs s' a \<Longrightarrow> a \<in> U'" using I(2) [of a] refs [of a] U b by (cases "a = b") auto
  show "b_refcnt (bc_buf (bs_c s') a) = refs s' a" "refs s' a < 2 ^ 32" if "a < NBUF"
    using I(3,4) [OF that] refs [of a] other [of a] at_b(1,2) by (cases "a = b"; simp)+
  show "(p, a) \<in> bs_hold s' \<longleftrightarrow> holdingsleep p (b_lock (bc_buf (bs_c s') a))" if "a < NBUF" for p
    using I(5) [OF that] hold [of a p] other [of a] at_b(3) by (cases "a = b") auto
  show "clean (bs_c s') a" if "a < NBUF" "b_valid (bc_buf (bs_c s') a)" "\<not> held s' a"
    using I(6) [OF that(1)] other [of a] held that disk [of a] at_b(4) by (cases "a = b") (auto simp: clean_def)
qed

lemma step_get:
  assumes i: "bs_ok s zs U" and g: "bget (bs_c s) dev blockno = Some (b, c')" "b_refcnt (bc_buf (bs_c s) b) + 1 < 2 ^ 32"
  shows "bs_inv (s\<lparr>bs_c := c', bs_wait := add_mset (pid, b) (bs_wait s)\<rparr>)" (is "bs_inv ?s")
proof -
  note I = bs_okD [OF i]
  have r: "refs (s\<lparr>bs_c := x, bs_wait := add_mset (pid, b) (bs_wait s)\<rparr>) a = refs s a + (if a = b then 1 else 0)"
    "held (s\<lparr>bs_c := x, bs_wait := add_mset (pid, b) (bs_wait s)\<rparr>) a = held s a" for a x
    by (auto simp: refs_def held_def)
  show ?thesis
  proof (cases "cached (bs_c s) U dev blockno")
    case True
    then have b: "b \<in> U" and c': "c' = upd (bs_c s) b (\<lambda>r. r\<lparr>b_refcnt := add32 (b_refcnt r) 1\<rparr>)"
      using bget_hit [OF I(1) True] g(1) by auto
    then have bn: "b < NBUF" using bc_invD(3) [OF I(1)] by auto
    have "add32 (b_refcnt (bc_buf (bs_c s) b)) 1 = refs s b + 1" using g(2) I(3) [OF bn] by (simp add: add32_in_range)
    moreover have "bc_inv (bs_c ?s) zs U" using bc_inv_same [OF I(1) b] c' by simp
    ultimately show ?thesis
      by (intro bs_frame [OF i _ order_refl b, of ?s]) (use I(3,5,6) [OF bn] g(2) in \<open>auto simp: c' r clean_def\<close>)
  next
    case False
    have "\<exists>a < NBUF. b_refcnt (bc_buf (bs_c s) a) = 0"
      using bget_full [OF I(1) False] g(1) by fastforce
    then obtain a where a: "a < NBUF" "b_refcnt (bc_buf (bs_c s) a) = 0" by blast
    from bget_miss [OF I(1) False this] g(1)
    have b: "b < NBUF" "b_refcnt (bc_buf (bs_c s) b) = 0" "bc_inv c' zs (insert b U)" "b_refcnt (bc_buf c' b) = 1"
      "\<not> b_valid (bc_buf c' b)" "b_lock (bc_buf c' b) = b_lock (bc_buf (bs_c s) b)" "bc_disk c' = bc_disk (bs_c s)"
      "\<And>a. a \<noteq> b \<Longrightarrow> bc_buf c' a = bc_buf (bs_c s) a" by auto
    have rb: "refs s b = 0" using I(3) [OF b(1)] b(2) by simp
    then have "\<not> held s b" by (auto simp: refs_def split: if_splits)
    then show ?thesis
      by (intro bs_frame [OF i, of ?s zs "insert b U" b]) (use b I(5) [OF b(1)] rb in \<open>auto simp: r\<close>)
  qed
qed

lemma step_lock:
  assumes i: "bs_ok s zs U" and w: "(pid, b) \<in># bs_wait s" and l: "buf_lock (bs_c s) pid b = Some c'"
  shows "bs_inv (s\<lparr>bs_c := bread c' (b_dev (bc_buf c' b)) b, bs_wait := bs_wait s - {#(pid, b)#}, bs_hold := insert (pid, b) (bs_hold s)\<rparr>)"
    (is "bs_inv ?s")
    and "b_dev (bc_buf (bs_c s) b) = 0 \<Longrightarrow>
      b_data (bc_buf (bread c' (b_dev (bc_buf c' b)) b) b) = bc_disk (bs_c s) (b_blockno (bc_buf (bs_c s) b))"
proof -
  note I = bs_okD [OF i]
  obtain w' where w': "bs_wait s = add_mset (pid, b) w'" using w by (metis insert_DiffM)
  then have bU: "b \<in> U" using I(2) [of b] by (simp add: refs_def)
  then have bn: "b < NBUF" using bc_invD(3) [OF I(1)] by auto
  obtain lk where lk: "acquiresleep pid (b_lock (bc_buf (bs_c s) b)) = Some lk" and c': "c' = upd (bs_c s) b (\<lambda>r. r\<lparr>b_lock := lk\<rparr>)"
    using l by (auto simp: buf_lock_def)
  have h: "holdingsleep p lk \<longleftrightarrow> p = pid" "\<not> holdingsleep p (b_lock (bc_buf (bs_c s) b))" for p
    using lk by (auto simp: acquiresleep_def holdingsleep_def split: if_splits)
  have nh: "\<not> held s b" using I(5) [OF bn] h(2) by (auto simp: held_def)
  define c2 where "c2 = bread c' (b_dev (bc_buf c' b)) b"
  have e: "a \<noteq> b \<Longrightarrow> bc_buf c2 a = bc_buf (bs_c s) a" "b_valid (bc_buf c2 b)" "b_lock (bc_buf c2 b) = lk" "bc_disk c2 = bc_disk (bs_c s)"
    "b_refcnt (bc_buf c2 a) = b_refcnt (bc_buf (bs_c s) a)" for a
    by (auto simp: c2_def bread_def c' Let_def)
  show d: "b_data (bc_buf (bread c' (b_dev (bc_buf c' b)) b) b) = bc_disk (bs_c s) (b_blockno (bc_buf (bs_c s) b))"
    if "b_dev (bc_buf (bs_c s) b) = 0"
    using I(6) [OF bn _ nh] that by (auto simp: bread_def c' clean_def Let_def)
  have "bc_inv c2 zs U" unfolding c2_def bread_def c' Let_def
    by (simp, intro conjI impI; intro bc_inv_same [OF _ bU] I(1); simp)
  moreover have r: "refs (s\<lparr>bs_c := x, bs_wait := bs_wait s - {#(pid, b)#}, bs_hold := insert (pid, b) (bs_hold s)\<rparr>) a = refs s a"
    "held (s\<lparr>bs_c := x, bs_wait := bs_wait s - {#(pid, b)#}, bs_hold := insert (pid, b) (bs_hold s)\<rparr>) a \<longleftrightarrow> held s a \<or> a = b" for a x
    using nh by (auto simp: refs_def held_def w')
  ultimately show "bs_inv ?s"
    unfolding c2_def [symmetric]
    by (intro bs_frame [OF i _ order_refl bU]) (use I(3-5) [OF bn] e h in \<open>auto simp: r\<close>)
qed

text \<open>The holder of a buffer, for the remaining steps.\<close>

lemma holder:
  assumes i: "bs_ok s zs U" and h: "(pid, b) \<in> bs_hold s"
  shows "b \<in> U" "b < NBUF" "held s b" "holdingsleep pid (b_lock (bc_buf (bs_c s) b))"
    "0 < b_refcnt (bc_buf (bs_c s) b)" "b_refcnt (bc_buf (bs_c s) b) < 2 ^ 32"
    "\<And>q. (q, b) \<in> bs_hold s \<longleftrightarrow> q = pid"
proof -
  note I = bs_okD [OF i]
  show b: "b \<in> U" using I(2) refs_held [OF h] by blast
  then show n: "b < NBUF" using bc_invD(3) [OF I(1)] by auto
  show hd: "held s b" using h by (auto simp: held_def)
  show hs: "holdingsleep pid (b_lock (bc_buf (bs_c s) b))" using I(5) [OF n] h by blast
  show "0 < b_refcnt (bc_buf (bs_c s) b)" "b_refcnt (bc_buf (bs_c s) b) < 2 ^ 32"
    using I(3,4) [OF n] refs_held [OF h] by auto
  show "(q, b) \<in> bs_hold s \<longleftrightarrow> q = pid" for q using I(5) [OF n, of q] hs by (auto simp: holdingsleep_def)
qed

lemma refs_c [simp]: "refs (s\<lparr>bs_c := x\<rparr>) a = refs s a" "held (s\<lparr>bs_c := x\<rparr>) a = held s a"
  by (simp_all add: refs_def held_def)

lemma step_modify:
  assumes i: "bs_ok s zs U" and h: "(pid, b) \<in> bs_hold s"
  shows "bs_inv (s\<lparr>bs_c := upd (bs_c s) b (\<lambda>r. r\<lparr>b_data := d\<rparr>)\<rparr>)"
proof -
  note H = holder [OF i h] and I = bs_okD [OF i]
  show ?thesis
    by (rule bs_frame [OF i _ order_refl H(1)])
      (use bc_inv_same [OF I(1) H(1), of "\<lambda>r. r\<lparr>b_data := d\<rparr>"] I(3-5) [OF H(2)] H(3) in auto)
qed

lemma step_writeback:
  assumes i: "bs_ok s zs U" and h: "(pid, b) \<in> bs_hold s" and w: "bwrite (bs_c s) pid b = Some c'"
  shows "bs_inv (s\<lparr>bs_c := c'\<rparr>)"
proof -
  note H = holder [OF i h] and I = bs_okD [OF i]
  have c': "bc_buf c' = bc_buf (bs_c s)" "bc_inv c' zs U"
    "bc_disk c' = (if b_dev (bc_buf (bs_c s) b) = 0
      then (bc_disk (bs_c s))(b_blockno (bc_buf (bs_c s) b) := b_data (bc_buf (bs_c s) b)) else bc_disk (bs_c s))"
    using w I(1) H(4) by (auto simp: bwrite_def split: if_splits)
  have "key (bs_c s) a \<noteq> key (bs_c s) b" if "a < NBUF" "a \<noteq> b" "b_valid (bc_buf (bs_c s) a)" for a
  proof -
    have "a \<in> U" using bc_invD(5) [OF I(1) that(1)] that(3) by (auto simp: fresh_def)
    then show ?thesis using inj_onD [OF bc_invD(4) [OF I(1)], of a b] H(1) that(2) by blast
  qed
  then show ?thesis
    by (intro bs_frame [OF i _ order_refl H(1)]) (use c' I(3-5) [OF H(2)] H(3) in auto)
qed

lemma step_lock_only:
  assumes i: "bs_ok s zs U" and w: "(pid, b) \<in># bs_wait s" and l: "buf_lock (bs_c s) pid b = Some c'"
  shows "bs_inv (s\<lparr>bs_c := c', bs_wait := bs_wait s - {#(pid, b)#}, bs_hold := insert (pid, b) (bs_hold s)\<rparr>)" (is "bs_inv ?s")
proof -
  note I = bs_okD [OF i]
  obtain w' where w': "bs_wait s = add_mset (pid, b) w'" using w by (metis insert_DiffM)
  then have bU: "b \<in> U" using I(2) [of b] by (simp add: refs_def)
  then have bn: "b < NBUF" using bc_invD(3) [OF I(1)] by auto
  obtain lk where lk: "acquiresleep pid (b_lock (bc_buf (bs_c s) b)) = Some lk" and c': "c' = upd (bs_c s) b (\<lambda>r. r\<lparr>b_lock := lk\<rparr>)"
    using l by (auto simp: buf_lock_def)
  have h: "holdingsleep p lk \<longleftrightarrow> p = pid" "\<not> holdingsleep p (b_lock (bc_buf (bs_c s) b))" for p
    using lk by (auto simp: acquiresleep_def holdingsleep_def split: if_splits)
  have nh: "\<not> held s b" using I(5) [OF bn] h(2) by (auto simp: held_def)
  have "bc_inv c' zs U" unfolding c' by (rule bc_inv_same [OF I(1) bU]) simp
  moreover have "refs ?s a = refs s a" "held ?s a \<longleftrightarrow> held s a \<or> a = b" for a
    using nh by (auto simp: refs_def held_def w')
  ultimately show ?thesis
    by (intro bs_frame [OF i _ order_refl bU]) (use I(3-5) [OF bn] h in \<open>auto simp: c'\<close>)
qed

lemma step_release:
  assumes i: "bs_ok s zs U" and h: "(pid, b) \<in> bs_hold s" and cl: "clean (bs_c s) b" and r: "brelse_unlock (bs_c s) pid b = Some c'"
  shows "bs_inv (s\<lparr>bs_c := c', bs_hold := bs_hold s - {(pid, b)}, bs_rel := add_mset b (bs_rel s)\<rparr>)" (is "bs_inv ?s")
proof -
  note H = holder [OF i h] and I = bs_okD [OF i]
  have c': "c' = upd (bs_c s) b (\<lambda>r. r\<lparr>b_lock := releasesleep (b_lock r)\<rparr>)" using r by (auto simp: brelse_unlock_def split: if_splits)
  have "bc_inv c' zs U" unfolding c' by (rule bc_inv_same [OF I(1) H(1)]) simp
  moreover have "refs ?s a = refs s a" for a using H(3,7) by (auto simp: refs_def held_def)
  moreover have "clean c' b" using cl by (simp add: clean_def c')
  ultimately show ?thesis
    by (intro bs_frame [OF i _ order_refl H(1)])
      (use I(3,4) [OF H(2)] H(7) in \<open>auto simp: c' releasesleep_def holdingsleep_def\<close>)
qed

lemma step_drop:
  assumes i: "bs_ok s zs U" and d: "b \<in># bs_rel s"
  shows "bs_inv (s\<lparr>bs_c := brelse_drop (bs_c s) b, bs_rel := bs_rel s - {#b#}\<rparr>)" (is "bs_inv ?s")
proof -
  note I = bs_okD [OF i]
  have pos: "0 < refs s b" using d by (auto simp: refs_def)
  then have b: "b \<in> U" "b < NBUF" using I(2) bc_invD(3) [OF I(1)] by auto
  have "0 < b_refcnt (bc_buf (bs_c s) b)" "b_refcnt (bc_buf (bs_c s) b) < 2 ^ 32" using pos I(3,4) [OF b(2)] by simp_all
  from brelse_drop_inv [OF I(1) b(1) this] obtain zs' where
    c': "bc_inv (brelse_drop (bs_c s) b) zs' U" "bc_disk (brelse_drop (bs_c s) b) = bc_disk (bs_c s)"
    and e: "\<And>a. key (brelse_drop (bs_c s) b) a = key (bs_c s) a \<and> b_valid (bc_buf (brelse_drop (bs_c s) b) a) = b_valid (bc_buf (bs_c s) a) \<and>
       b_data (bc_buf (brelse_drop (bs_c s) b) a) = b_data (bc_buf (bs_c s) a) \<and>
       b_refcnt (bc_buf (brelse_drop (bs_c s) b) a) = b_refcnt (bc_buf (bs_c s) a) - (if a = b then 1 else 0) \<and>
       b_lock (bc_buf (brelse_drop (bs_c s) b) a) = b_lock (bc_buf (bs_c s) a)" by blast
  have r: "refs ?s a = refs s a - (if a = b then 1 else 0)" "held ?s a = held s a" for a
    using d count_greater_zero_iff [of "bs_rel s" b] by (auto simp: refs_def held_def simp del: count_greater_zero_iff)
  have k: "b_dev (bc_buf (brelse_drop (bs_c s) b) a) = b_dev (bc_buf (bs_c s) a)"
    "b_blockno (bc_buf (brelse_drop (bs_c s) b) a) = b_blockno (bc_buf (bs_c s) a)" for a using e [of a] by auto
  show ?thesis
    by (intro bs_frame [OF i _ order_refl b(1)]) (use c' e k I(3-6) [OF b(2)] r in \<open>auto simp: clean_def\<close>)
qed

lemma step_pin:
  assumes i: "bs_ok s zs U" and h: "(pid, b) \<in> bs_hold s" and n: "b_refcnt (bc_buf (bs_c s) b) + 1 < 2 ^ 32"
  shows "bs_inv (s\<lparr>bs_c := bpin (bs_c s) b, bs_pins := add_mset b (bs_pins s)\<rparr>)"
proof -
  note H = holder [OF i h] and I = bs_okD [OF i]
  have r: "refs (s\<lparr>bs_c := x, bs_pins := add_mset b (bs_pins s)\<rparr>) a = refs s a + (if a = b then 1 else 0)"
    "held (s\<lparr>bs_c := x, bs_pins := add_mset b (bs_pins s)\<rparr>) a = held s a" for a x
    by (auto simp: refs_def held_def)
  have "add32 (b_refcnt (bc_buf (bs_c s) b)) 1 = refs s b + 1" using n I(3) [OF H(2)] by (simp add: add32_in_range)
  moreover have "bc_inv (bpin (bs_c s) b) zs U" unfolding bpin_def by (rule bc_inv_same [OF I(1) H(1)]) simp
  ultimately show ?thesis
    by (intro bs_frame [OF i _ order_refl H(1)]) (use I(3,5) [OF H(2)] H(3) n in \<open>auto simp: bpin_def r\<close>)
qed

lemma step_unpin:
  assumes i: "bs_ok s zs U" and p: "b \<in># bs_pins s"
  shows "bs_inv (s\<lparr>bs_c := bunpin (bs_c s) b, bs_pins := bs_pins s - {#b#}\<rparr>)"
proof -
  note I = bs_okD [OF i]
  have pos: "0 < refs s b" using p by (auto simp: refs_def)
  then have b: "b \<in> U" "b < NBUF" using I(2) bc_invD(3) [OF I(1)] by auto
  have r: "refs (s\<lparr>bs_c := x, bs_pins := bs_pins s - {#b#}\<rparr>) a = refs s a - (if a = b then 1 else 0)"
    "held (s\<lparr>bs_c := x, bs_pins := bs_pins s - {#b#}\<rparr>) a = held s a" for a x
    using p by (auto simp: refs_def held_def)
  have "sub32 (b_refcnt (bc_buf (bs_c s) b)) 1 = refs s b - 1"
    using pos I(3,4) [OF b(2)] by (simp add: sub32_in_range)
  moreover have "bc_inv (bunpin (bs_c s) b) zs U" unfolding bunpin_def by (rule bc_inv_same [OF I(1) b(1)]) simp
  ultimately show ?thesis
    by (intro bs_frame [OF i _ order_refl b(1)]) (use I(4-6) [OF b(2)] in \<open>auto simp: bunpin_def r clean_def\<close>)
qed

lemma bs_inv_start: "zeroed c \<Longrightarrow> bs_inv (bs_start c)"
proof -
  assume "zeroed c"
  then obtain zs where I: "bc_inv (binit c) zs {}" using binit_inv by blast
  have f: "b_refcnt (bc_buf (binit c) a) = 0" "\<not> holdingsleep p (b_lock (bc_buf (binit c) a))" "\<not> b_valid (bc_buf (binit c) a)"
    if "a < NBUF" for a p
    using bc_invD(5) [OF I that] by (auto simp: fresh_def initsleeplock_def holdingsleep_def)
  have s: "bs_c (bs_start c) = binit c" "refs (bs_start c) a = 0" "bs_hold (bs_start c) = {}" "\<not> held (bs_start c) a" for a
    by (simp_all add: bs_start_def refs_def held_def)
  show ?thesis by (rule bs_invI [of _ zs "{}"]) (use I in \<open>simp_all add: s f\<close>)
qed

lemma bs_inv_reachable: "bc_step\<^sup>*\<^sup>* s s' \<Longrightarrow> bs_inv s \<Longrightarrow> bs_inv s'"
proof (induction rule: rtranclp_induct)
  case (step s1 s2)
  then obtain zs U where ok: "bs_ok s1 zs U" by (auto simp: bs_inv_def)
  from step.hyps(2) show ?case
  proof (cases rule: bc_step.cases)
    case (get dev blockno b c' pid) then show ?thesis using step_get [OF ok] by blast
  next
    case (lock pid b c') then show ?thesis using step_lock(1) [OF ok] by blast
  next
    case (lock_only pid b c') then show ?thesis using step_lock_only [OF ok] by blast
  next
    case (modify pid b d) then show ?thesis using step_modify [OF ok] by blast
  next
    case (writeback pid b c') then show ?thesis using step_writeback [OF ok] by blast
  next
    case (release pid b c') then show ?thesis using step_release [OF ok] by blast
  next
    case (drop b) then show ?thesis using step_drop [OF ok] by blast
  next
    case (pin pid b) then show ?thesis using step_pin [OF ok] by blast
  next
    case (unpin b) then show ?thesis using step_unpin [OF ok] by blast
  qed
qed

section \<open>Properties\<close>

text \<open>
  C2: Whatever processes do with the buffer cache through its interface, starting from \<^verbatim>\<open>binit\<close>, while a
  buffer is released only when it holds what the disk holds and its count stays below 2^32, two
  processes never hold the same disk block at the same time, in the same buffer or in two: a block
  has one buffer, and a buffer one holder.
\<close>

theorem bcache_block_exclusive:
  assumes "zeroed c" "bc_step\<^sup>*\<^sup>* (bs_start c) s" "(p, a) \<in> bs_hold s" "(q, b) \<in> bs_hold s"
    and "key (bs_c s) a = key (bs_c s) b"
  shows "p = q \<and> a = b"
proof -
  obtain zs U where ok: "bs_ok s zs U"
    using bs_inv_reachable [OF assms(2) bs_inv_start [OF assms(1)]] by (auto simp: bs_inv_def)
  have "a = b" using inj_onD [OF bc_invD(4) [OF bs_okD(1) [OF ok]] assms(5)] holder(1) [OF ok] assms(3,4) by blast
  then show ?thesis using holder(7) [OF ok assms(3), of q] assms(4) by simp
qed

text \<open>
  C20: When every process that releases a buffer leaves in it what the disk holds, because it has not changed it or
  has written it back, then a process that obtains a buffer of device 0 by \<^verbatim>\<open>bread\<close> finds in it what the disk
  holds: the copy that stayed in the cache, or the one just read, agrees with the last block written back by
  any process, also by one that took the buffer with \<^verbatim>\<open>bget\<close> without reading it.
\<close>

theorem bread_returns_disk:
  assumes "zeroed c" "bc_step\<^sup>*\<^sup>* (bs_start c) s" "(pid, b) \<in># bs_wait s" "buf_lock (bs_c s) pid b = Some c'"
    and "b_dev (bc_buf (bs_c s) b) = 0"
  shows "b_data (bc_buf (bread c' 0 b) b) = bc_disk (bs_c s) (b_blockno (bc_buf (bs_c s) b))"
proof -
  obtain zs U where ok: "bs_ok s zs U"
    using bs_inv_reachable [OF assms(2) bs_inv_start [OF assms(1)]] by (auto simp: bs_inv_def)
  have "b_dev (bc_buf c' b) = 0" using assms(4,5) by (auto simp: buf_lock_def)
  then show ?thesis using step_lock(2) [OF ok assms(3-5)] by simp
qed

text \<open>
  \<^verbatim>\<open>bget\<close> on a well-formed cache: a cached block is returned in its buffer, with its contents; for any
  other block the buffer recycled is one nobody references, an unused one or the least recently
  released, and it comes out invalid; no other buffer changes. Only when the block is not cached and
  every buffer is referenced does the kernel panic.
\<close>

theorem bget_correct:
  assumes i: "bc_inv c zs U"
  shows "case bget c dev blockno of
      None \<Rightarrow> \<not> cached c U dev blockno \<and> (\<forall>b < NBUF. b_refcnt (bc_buf c b) \<noteq> 0)
    | Some (b, c') \<Rightarrow> b < NBUF \<and> key c' b = (dev, blockno) \<and> bc_inv c' zs (insert b U) \<and>
        (\<forall>a. a \<noteq> b \<longrightarrow> bc_buf c' a = bc_buf c a) \<and>
        (if cached c U dev blockno
         then b \<in> U \<and> b_refcnt (bc_buf c' b) = add32 (b_refcnt (bc_buf c b)) 1 \<and>
           b_data (bc_buf c' b) = b_data (bc_buf c b) \<and> b_valid (bc_buf c' b) = b_valid (bc_buf c b)
         else b_refcnt (bc_buf c b) = 0 \<and> b_refcnt (bc_buf c' b) = 1 \<and> \<not> b_valid (bc_buf c' b) \<and>
           (fresh c b \<or> (\<forall>us vs. zs = us @ b # vs \<longrightarrow> (\<forall>y \<in> set vs. b_refcnt (bc_buf c y) \<noteq> 0))))"
proof (cases "cached c U dev blockno")
  case True
  from bget_hit [OF i True] obtain b where b: "b \<in> U" "key c b = (dev, blockno)"
    "bget c dev blockno = Some (b, upd c b (\<lambda>r. r\<lparr>b_refcnt := add32 (b_refcnt r) 1\<rparr>))" by blast
  have "bc_inv (upd c b (\<lambda>r. r\<lparr>b_refcnt := add32 (b_refcnt r) 1\<rparr>)) zs U" by (rule bc_inv_same [OF i b(1)]) simp
  moreover have "insert b U = U" "b < NBUF" using b(1) bc_invD(3) [OF i] by auto
  ultimately show ?thesis using b True by simp
next
  case False
  show ?thesis
  proof (cases "\<exists>b < NBUF. b_refcnt (bc_buf c b) = 0")
    case True
    then obtain b0 where b0: "b0 < NBUF" "b_refcnt (bc_buf c b0) = 0" by blast
    from bget_miss [OF i False b0] obtain b c' where "bget c dev blockno = Some (b, c')" "b < NBUF" "b_refcnt (bc_buf c b) = 0"
      "bc_inv c' zs (insert b U)" "key c' b = (dev, blockno)" "b_refcnt (bc_buf c' b) = 1" "\<not> b_valid (bc_buf c' b)"
      "\<forall>a. a \<noteq> b \<longrightarrow> bc_buf c' a = bc_buf c a"
      "fresh c b \<or> (\<forall>us vs. zs = us @ b # vs \<longrightarrow> (\<forall>y \<in> set vs. b_refcnt (bc_buf c y) \<noteq> 0))" by blast
    then show ?thesis using False by simp
  next
    case full: False
    then show ?thesis using bget_full [OF i False] False by auto
  qed
qed

text \<open>
  \<^verbatim>\<open>brelse\<close> by the holder lets go of the lock and of one reference; the last reference moves the
  buffer to the front of the list, ahead of all others, so that it is recycled last. It keeps the
  cached contents and the well-formedness of the list.
\<close>

theorem brelse_correct:
  assumes "bc_inv c zs U" "b \<in> U" "holdingsleep pid (b_lock (bc_buf c b))"
    and "0 < b_refcnt (bc_buf c b)" "b_refcnt (bc_buf c b) < 2 ^ 32"
  shows "\<exists>c' zs'. brelse c pid b = Some c' \<and> bc_inv c' zs' U \<and> bc_disk c' = bc_disk c \<and>
    (\<forall>a. key c' a = key c a \<and> b_data (bc_buf c' a) = b_data (bc_buf c a) \<and>
       b_refcnt (bc_buf c' a) = b_refcnt (bc_buf c a) - (if a = b then 1 else 0)) \<and>
    \<not> slk_locked (b_lock (bc_buf c' b)) \<and>
    (b_refcnt (bc_buf c b) = 1 \<longrightarrow> (\<exists>us vs. zs = us @ b # vs \<and> zs' = b # us @ vs)) \<and>
    (b_refcnt (bc_buf c b) \<noteq> 1 \<longrightarrow> zs' = zs)"
proof -
  obtain c' zs' where r: "brelse c pid b = Some c'" "bc_inv c' zs' U" "bc_disk c' = bc_disk c"
    and e: "\<forall>a. key c' a = key c a \<and> b_valid (bc_buf c' a) = b_valid (bc_buf c a) \<and> b_data (bc_buf c' a) = b_data (bc_buf c a) \<and>
       b_refcnt (bc_buf c' a) = b_refcnt (bc_buf c a) - (if a = b then 1 else 0) \<and>
       b_lock (bc_buf c' a) = (if a = b then releasesleep (b_lock (bc_buf c b)) else b_lock (bc_buf c a))"
    and z: "b_refcnt (bc_buf c b) = 1 \<longrightarrow> (\<exists>us vs. zs = us @ b # vs \<and> zs' = b # us @ vs)" "b_refcnt (bc_buf c b) \<noteq> 1 \<longrightarrow> zs' = zs"
    using brelse_inv [OF assms] by blast
  have "\<not> slk_locked (b_lock (bc_buf c' b))" using e by (simp add: releasesleep_def)
  then show ?thesis using r z e by (intro exI [of _ c'] exI [of _ zs'] conjI) auto
qed

section \<open>Witnesses\<close>

text \<open>A cache in use: process 7 holds block 5 of device 0, read from a disk whose block 5 is \<open>[42]\<close>.\<close>

definition boot_cache :: bcache where
  "boot_cache = \<lparr>bc_buf = (\<lambda>_. \<lparr>b_valid = False, b_dev = 0, b_blockno = 0, b_lock = initsleeplock, b_refcnt = 0,
     b_prev = 0, b_next = 0, b_data = []\<rparr>), bc_disk = (\<lambda>n. if n = 5 then [42] else [])\<rparr>"

lemma boot_zeroed: "zeroed boot_cache"
  by (simp add: zeroed_def boot_cache_def)

lemma boot_wait:
  obtains b c1 zs where "bget (binit boot_cache) 0 5 = Some (b, c1)" "bc_inv c1 zs {b}" "b < NBUF" "key c1 b = (0, 5)"
    "b_refcnt (bc_buf c1 b) = 1" "b_lock (bc_buf c1 b) = initsleeplock" "bc_disk c1 = bc_disk boot_cache"
    "bc_step (bs_start boot_cache) (bs_start boot_cache\<lparr>bs_c := c1, bs_wait := {#(7, b)#}\<rparr>)"
proof -
  obtain zs where I: "bc_inv (binit boot_cache) zs {}" and d: "bc_disk (binit boot_cache) = bc_disk boot_cache"
    using binit_inv [OF boot_zeroed] by blast
  have f: "fresh (binit boot_cache) a" if "a < NBUF" for a using bc_invD(5) [OF I that] by blast
  have "\<not> cached (binit boot_cache) {} 0 5" by (simp add: cached_def)
  moreover have "b_refcnt (bc_buf (binit boot_cache) 0) = 0" using f [of 0] by (simp add: fresh_def)
  ultimately obtain b c1 where b: "bget (binit boot_cache) 0 5 = Some (b, c1)" "b < NBUF" "b_refcnt (bc_buf (binit boot_cache) b) = 0"
    "bc_inv c1 zs {b}" "key c1 b = (0, 5)" "b_refcnt (bc_buf c1 b) = 1" "b_lock (bc_buf c1 b) = b_lock (bc_buf (binit boot_cache) b)"
    "bc_disk c1 = bc_disk (binit boot_cache)"
    using bget_miss [OF I, of 0 5 0] by auto
  have "bc_step (bs_start boot_cache) (bs_start boot_cache\<lparr>bs_c := c1, bs_wait := add_mset (7, b) (bs_wait (bs_start boot_cache))\<rparr>)"
    by (rule get [of _ 0 5]) (use b in \<open>simp_all add: bs_start_def\<close>)
  then have "bc_step (bs_start boot_cache) (bs_start boot_cache\<lparr>bs_c := c1, bs_wait := {#(7, b)#}\<rparr>)"
    by (simp add: bs_start_def)
  then show thesis using that [of b c1 zs] b d f [OF b(2)] by (simp add: fresh_def)
qed

lemma boot_hold:
  obtains b c2 zs where "bc_step\<^sup>*\<^sup>* (bs_start boot_cache) (bs_start boot_cache\<lparr>bs_c := c2, bs_hold := {(7, b)}\<rparr>)"
    "bc_inv c2 zs {b}" "key c2 b = (0, 5)" "holdingsleep 7 (b_lock (bc_buf c2 b))" "b_refcnt (bc_buf c2 b) = 1"
proof -
  obtain b c1 zs where b: "bget (binit boot_cache) 0 5 = Some (b, c1)" "bc_inv c1 zs {b}" "b < NBUF" "key c1 b = (0, 5)"
    "b_refcnt (bc_buf c1 b) = 1" "b_lock (bc_buf c1 b) = initsleeplock" "bc_disk c1 = bc_disk boot_cache"
    "bc_step (bs_start boot_cache) (bs_start boot_cache\<lparr>bs_c := c1, bs_wait := {#(7, b)#}\<rparr>)"
    by (rule boot_wait)
  let ?lk = "initsleeplock\<lparr>slk_locked := True, slk_pid := 7\<rparr>"
  define c' where "c' = upd c1 b (\<lambda>r. r\<lparr>b_lock := ?lk\<rparr>)"
  define c2 where "c2 = bread c' (b_dev (bc_buf c' b)) b"
  let ?s = "bs_start boot_cache\<lparr>bs_c := c1, bs_wait := {#(7, b)#}\<rparr>"
  have "buf_lock c1 7 b = Some c'" using b(6) by (simp add: buf_lock_def acquiresleep_def initsleeplock_def c'_def)
  then have "bc_step ?s (?s\<lparr>bs_c := c2, bs_wait := bs_wait ?s - {#(7, b)#}, bs_hold := insert (7, b) (bs_hold ?s)\<rparr>)"
    unfolding c2_def by (intro lock) simp_all
  then have st: "bc_step ?s (bs_start boot_cache\<lparr>bs_c := c2, bs_hold := {(7, b)}\<rparr>)" by (simp add: bs_start_def)
  have "bc_inv c2 zs {b}" unfolding c2_def bread_def c'_def Let_def
    by (simp, intro conjI impI; intro bc_inv_same [OF _ insertI1] b(2); simp)
  moreover have "bc_step\<^sup>*\<^sup>* (bs_start boot_cache) (bs_start boot_cache\<lparr>bs_c := c2, bs_hold := {(7, b)}\<rparr>)"
    using b(8) st by (rule converse_rtranclp_into_rtranclp [OF _ r_into_rtranclp])
  moreover have "key c2 b = (0, 5)" "holdingsleep 7 (b_lock (bc_buf c2 b))" "b_refcnt (bc_buf c2 b) = 1"
    using b(4,5) by (auto simp: c2_def bread_def c'_def Let_def holdingsleep_def initsleeplock_def)
  ultimately show thesis using that by blast
qed

theorem bcache_block_exclusive_witness:
  "\<exists>s b. bc_step\<^sup>*\<^sup>* (bs_start boot_cache) s \<and> (7, b) \<in> bs_hold s \<and> key (bs_c s) b = (0, 5) \<and> (8, b) \<notin> bs_hold s"
proof -
  obtain b c2 zs where s: "bc_step\<^sup>*\<^sup>* (bs_start boot_cache) (bs_start boot_cache\<lparr>bs_c := c2, bs_hold := {(7, b)}\<rparr>)"
    "bc_inv c2 zs {b}" "key c2 b = (0, 5)" "holdingsleep 7 (b_lock (bc_buf c2 b))" "b_refcnt (bc_buf c2 b) = 1"
    by (rule boot_hold)
  from bcache_block_exclusive [OF boot_zeroed s(1), of 7 b 8 b]
  have "(8, b) \<notin> bs_hold (bs_start boot_cache\<lparr>bs_c := c2, bs_hold := {(7, b)}\<rparr>)" by auto
  then show ?thesis using s(1,3) by (intro exI [of _ "bs_start boot_cache\<lparr>bs_c := c2, bs_hold := {(7, b)}\<rparr>"] exI [of _ b]) simp
qed

text \<open>Process 7 waits for block 5, which is not in the cache and holds \<open>[42]\<close> on the disk; it reads that.\<close>

theorem bread_returns_disk_witness:
  "\<exists>s b c'. zeroed boot_cache \<and> bc_step\<^sup>*\<^sup>* (bs_start boot_cache) s \<and> (7, b) \<in># bs_wait s \<and> key (bs_c s) b = (0, 5) \<and>
     buf_lock (bs_c s) 7 b = Some c' \<and> b_data (bc_buf (bread c' 0 b) b) = bc_disk (bs_c s) 5 \<and> bc_disk (bs_c s) 5 = [42]"
proof -
  obtain b c1 zs where b: "bget (binit boot_cache) 0 5 = Some (b, c1)" "bc_inv c1 zs {b}" "b < NBUF" "key c1 b = (0, 5)"
    "b_refcnt (bc_buf c1 b) = 1" "b_lock (bc_buf c1 b) = initsleeplock" "bc_disk c1 = bc_disk boot_cache"
    "bc_step (bs_start boot_cache) (bs_start boot_cache\<lparr>bs_c := c1, bs_wait := {#(7, b)#}\<rparr>)"
    by (rule boot_wait)
  let ?s = "bs_start boot_cache\<lparr>bs_c := c1, bs_wait := {#(7, b)#}\<rparr>"
  let ?c = "upd c1 b (\<lambda>r. r\<lparr>b_lock := initsleeplock\<lparr>slk_locked := True, slk_pid := 7\<rparr>\<rparr>)"
  have l: "buf_lock c1 7 b = Some ?c" using b(6) by (simp add: buf_lock_def acquiresleep_def initsleeplock_def)
  then have "b_data (bc_buf (bread ?c 0 b) b) = bc_disk c1 (b_blockno (bc_buf c1 b))"
    using bread_returns_disk [OF boot_zeroed r_into_rtranclp [of bc_step, OF b(8)], of 7 b ?c] b(4) by simp
  moreover have "bc_disk c1 5 = [42]" using b(7) by (simp add: boot_cache_def)
  ultimately show ?thesis using b(4) l boot_zeroed r_into_rtranclp [of bc_step, OF b(8)]
    by (intro exI [of _ ?s] exI [of _ b] exI [of _ ?c]) auto
qed

theorem bget_correct_witness:
  "\<exists>b c'. bget (binit boot_cache) 0 5 = Some (b, c') \<and> key c' b = (0, 5) \<and> \<not> b_valid (bc_buf c' b)"
proof -
  obtain b c1 zs where b: "bget (binit boot_cache) 0 5 = Some (b, c1)" by (rule boot_wait)
  obtain zs where I: "bc_inv (binit boot_cache) zs {}" using binit_inv [OF boot_zeroed] by blast
  have "\<not> cached (binit boot_cache) {} 0 5" by (simp add: cached_def)
  then show ?thesis using bget_correct [OF I, of 0 5] b by auto
qed

theorem brelse_correct_witness: "\<exists>c b c'. brelse c 7 b = Some c' \<and> \<not> slk_locked (b_lock (bc_buf c' b))"
proof -
  obtain b c2 zs where s: "bc_step\<^sup>*\<^sup>* (bs_start boot_cache) (bs_start boot_cache\<lparr>bs_c := c2, bs_hold := {(7, b)}\<rparr>)"
    "bc_inv c2 zs {b}" "key c2 b = (0, 5)" "holdingsleep 7 (b_lock (bc_buf c2 b))" "b_refcnt (bc_buf c2 b) = 1"
    by (rule boot_hold)
  show ?thesis using brelse_correct [OF s(2) _ s(4)] s(5) by auto
qed

end
