(* ===== verification/Proc.thy ===== *)
theory Proc
  imports Vmem Futex
begin

text \<open>
  Processes and threads (\<^verbatim>\<open>kernel/process.c\<close>, \<^verbatim>\<open>kernel/thread.c\<close>, with the system calls of
  \<^verbatim>\<open>kernel/syscall.c\<close> that send signals): the process table, process numbers, wake-ups, re-parenting,
  signal sending, and the permission checks that read a process's credentials. A process is an index
  into \<^verbatim>\<open>pool\<close>, a thread an index into \<^verbatim>\<open>thread_pools\<close>. The fields of a thread that the futex queue reads
  and writes (state, wake-up time, timeout flag) are in \<open>ks_futex\<close>, the others in \<open>ks_threads\<close>. The body
  of a loop over the table runs under the lock of the process it looks at; the functions are the
  sequential composition of these critical sections. \<open>None\<close> is a panic or an access the code must not
  make: through a null pointer, or outside an array.
\<close>

unbundle bit_operations_syntax

section \<open>Trap frames\<close>

record trapframe =
  tf_kernel_satp :: nat
  tf_kernel_sp :: nat
  tf_kernel_trap :: nat
  tf_epc :: nat
  tf_kernel_hartid :: nat
  tf_ra :: nat
  tf_sp :: nat
  tf_gp :: nat
  tf_tp :: nat
  tf_t0 :: nat
  tf_t1 :: nat
  tf_t2 :: nat
  tf_s0 :: nat
  tf_s1 :: nat
  tf_a0 :: nat
  tf_a1 :: nat
  tf_a2 :: nat
  tf_a3 :: nat
  tf_a4 :: nat
  tf_a5 :: nat
  tf_a6 :: nat
  tf_a7 :: nat
  tf_s2 :: nat
  tf_s3 :: nat
  tf_s4 :: nat
  tf_s5 :: nat
  tf_s6 :: nat
  tf_s7 :: nat
  tf_s8 :: nat
  tf_s9 :: nat
  tf_s10 :: nat
  tf_s11 :: nat
  tf_t3 :: nat
  tf_t4 :: nat
  tf_t5 :: nat
  tf_t6 :: nat

definition copytrapframe :: "trapframe \<Rightarrow> trapframe \<Rightarrow> trapframe" where
  "copytrapframe f1 f2 =
     f1\<lparr>tf_kernel_satp := tf_kernel_satp f2, tf_kernel_sp := tf_kernel_sp f2,
        tf_kernel_trap := tf_kernel_trap f2, tf_epc := tf_epc f2, tf_kernel_hartid := tf_kernel_hartid f2,
        tf_ra := tf_ra f2, tf_sp := tf_sp f2, tf_gp := tf_gp f2, tf_tp := tf_tp f2, tf_t0 := tf_t0 f2,
        tf_t1 := tf_t1 f2, tf_t2 := tf_t2 f2, tf_s0 := tf_s0 f2, tf_s1 := tf_s1 f2, tf_a0 := tf_a0 f2,
        tf_a1 := tf_a1 f2, tf_a2 := tf_a2 f2, tf_a3 := tf_a3 f2, tf_a4 := tf_a4 f2, tf_a5 := tf_a5 f2,
        tf_a6 := tf_a6 f2, tf_a7 := tf_a7 f2, tf_s2 := tf_s2 f2, tf_s3 := tf_s3 f2, tf_s4 := tf_s4 f2,
        tf_s5 := tf_s5 f2, tf_s6 := tf_s6 f2, tf_s7 := tf_s7 f2, tf_s8 := tf_s8 f2, tf_s9 := tf_s9 f2,
        tf_s10 := tf_s10 f2, tf_s11 := tf_s11 f2, tf_t3 := tf_t3 f2, tf_t4 := tf_t4 f2,
        tf_t5 := tf_t5 f2, tf_t6 := tf_t6 f2\<rparr>"

lemma copytrapframe_complete [simp]: "copytrapframe f1 f2 = f2"
  by (simp add: copytrapframe_def)

section \<open>Processes and threads\<close>

abbreviation NPROC :: nat where "NPROC \<equiv> 128"
abbreviation NGROUPS_MAX :: nat where "NGROUPS_MAX \<equiv> 32"
abbreviation (input) PID_MAX :: int where "PID_MAX \<equiv> 10000"
abbreviation (input) EPERM :: int where "EPERM \<equiv> 1"
abbreviation (input) ESRCH :: int where "ESRCH \<equiv> 3"
abbreviation (input) INT_MIN :: int where "INT_MIN \<equiv> - 2147483648"
abbreviation (input) INT_MAX :: int where "INT_MAX \<equiv> 2147483647"

abbreviation (input) SIGKILL :: int where "SIGKILL \<equiv> 9"
abbreviation (input) SIGSEGV :: int where "SIGSEGV \<equiv> 11"
abbreviation (input) SIGCHLD :: int where "SIGCHLD \<equiv> 17"
abbreviation (input) SIGCONT :: int where "SIGCONT \<equiv> 18"
abbreviation (input) SIGSTOP :: int where "SIGSTOP \<equiv> 19"
abbreviation (input) SIGRTMIN :: int where "SIGRTMIN \<equiv> 32"
abbreviation (input) SIGCANCEL :: int where "SIGCANCEL \<equiv> SIGRTMIN"
abbreviation (input) SIGRTMAX :: int where "SIGRTMAX \<equiv> 64"

text \<open>\<^verbatim>\<open>SIG_DFL\<close> and \<^verbatim>\<open>NULL\<close> are the same handler address, 0.\<close>

abbreviation (input) SIG_DFL :: addr where "SIG_DFL \<equiv> 0"
abbreviation (input) SIG_IGN :: addr where "SIG_IGN \<equiv> 1"

type_synonym sigset = "64 word"

record sigaction =
  sa_handler :: addr
  sa_mask :: sigset
  sa_flags :: "32 word"

record sigstack =
  ss_sp :: addr
  ss_flags :: int
  ss_size :: nat

text \<open>A signal frame: the two pages it occupies and what the code stores there.\<close>

record signal_frame =
  sf_page :: addr
  sf_tf_page :: addr
  sf_tf :: trapframe
  sf_signal_number :: int
  sf_return_address :: addr
  sf_signal_mask :: sigset

text \<open>A wait channel is the address of a kernel object; the process structures are among them.\<close>

datatype wchan = ChanNull | ChanProc nat | ChanAddr addr

record kthread =
  kt_tid :: int
  kt_sig_set :: sigset
  kt_sig_pending :: sigset
  kt_sigaction :: "int \<Rightarrow> sigaction"
  kt_signal_frames :: "signal_frame list"
  kt_current_signal :: int
  kt_signal_interrupted :: bool
  kt_altstack :: sigstack
  kt_handling_signal :: int
  kt_cancel_state :: int
  kt_cancel_type :: int
  kt_cancel_requested :: bool
  kt_exit_status :: int
  kt_join_futex_addr :: addr
  kt_should_exit :: bool
  kt_exit_value :: int
  kt_chan :: wchan
  kt_sz :: nat
  kt_clear_child_tid :: addr
  kt_stack_vma :: addr
  kt_trapframe_page :: addr
  kt_stopped :: bool
  kt_stop_signal :: int
  kt_thread_idx :: nat

datatype procstate = UNUSED | USED | SLEEPING | RUNNABLE | RUNNING | ZOMBIE

datatype segtype = NONE | MMAP | STACK | SHARE

text \<open>
  A memory area: the address of its structure (one page) and the fields. The areas of a process are
  linked in a ring with a head; the model has the list of them, in the order of the ring, and the head.
\<close>

record vma =
  vma_self :: addr
  vma_type :: segtype
  vma_perm :: "32 word"
  vma_orig_prot :: int
  vma_addr :: addr
  vma_size :: nat
  vma_end :: addr
  vma_flags :: "32 word"
  vma_fd :: int
  vma_f_off :: nat
  vma_fsize :: nat
  vma_ref_count :: int
  vma_shm_kernel :: "nat option"

text \<open>
  A shared memory segment: the address of its structure and the fields; \<open>shm_attaches\<close> is the area the
  segment's \<^verbatim>\<open>attaches\<close> points to. A record of an attachment is in a list of the process and, as a copy, in
  one of the segment.
\<close>

record ipc_perm =
  ip_key :: int
  ip_uid :: nat
  ip_gid :: nat
  ip_cuid :: nat
  ip_cgid :: nat
  ip_mode :: "32 word"

record shm_attach =
  at_self :: addr
  at_addr :: addr
  at_shmid :: nat

record shmid_kernel =
  shm_self :: addr
  shm_key :: int
  shm_shmid :: nat
  shm_size :: nat
  shm_flag :: "32 word"
  shm_attach_count :: int
  shm_is_deleted :: bool
  shm_pages :: addr
  shm_attaches :: addr
  shm_perm :: ipc_perm
  shm_segsz :: nat
  shm_cpid :: int
  shm_lpid :: int
  shm_nattch :: int
  shm_attach_list :: "shm_attach list"

record proc =
  p_chan :: wchan
  p_parent :: "nat option"
  p_current_thread :: "nat option"
  p_thread_queue :: "nat list"
  p_state :: procstate
  p_exit_state :: int
  p_killed :: int
  p_pid :: int
  p_ruid :: nat
  p_euid :: nat
  p_egid :: nat
  p_pgid :: int
  p_supplementary_groups :: "nat list"
  p_ngroups :: nat
  p_trapframe :: trapframe
  p_pagetable :: addr
  p_vma_head :: addr
  p_vma :: "vma list"
  p_sz :: nat
  p_shm_attaches :: "shm_attach list"
  p_sig_trapframe :: trapframe
  p_continued :: bool
  p_stopped :: bool
  p_stop_signal :: int

record ksys =
  ks_procs :: "nat \<Rightarrow> proc"
  ks_threads :: "nat \<Rightarrow> kthread"
  ks_futex :: futex_state
  ks_vm :: vmem
  ks_PID :: int
  ks_initproc :: nat
  ks_free_thread :: "nat list"
  ks_map_addr :: addr
  ks_shm_segs :: "nat \<Rightarrow> shmid_kernel option"
  ks_sharemem_start :: int

definition upd_proc :: "nat \<Rightarrow> (proc \<Rightarrow> proc) \<Rightarrow> ksys \<Rightarrow> ksys" where
  "upd_proc i f k = k\<lparr>ks_procs := (ks_procs k)(i := f (ks_procs k i))\<rparr>"

definition upd_thread :: "nat \<Rightarrow> (kthread \<Rightarrow> kthread) \<Rightarrow> ksys \<Rightarrow> ksys" where
  "upd_thread t f k = k\<lparr>ks_threads := (ks_threads k)(t := f (ks_threads k t))\<rparr>"

definition upd_thread_state :: "nat \<Rightarrow> thread_state \<Rightarrow> ksys \<Rightarrow> ksys" where
  "upd_thread_state t st k =
     k\<lparr>ks_futex := (ks_futex k)\<lparr>fx_threads := (fx_threads (ks_futex k))
        (t := (fx_threads (ks_futex k) t)\<lparr>th_state := st\<rparr>)\<rparr>\<rparr>"

abbreviation thread_state_of :: "ksys \<Rightarrow> nat \<Rightarrow> thread_state" where
  "thread_state_of k t \<equiv> th_state (fx_threads (ks_futex k) t)"

section \<open>The thread pool\<close>

abbreviation THREAD_NUM :: nat where "THREAD_NUM \<equiv> 2048"
abbreviation (input) PTHREAD_CANCEL_ENABLE :: int where "PTHREAD_CANCEL_ENABLE \<equiv> 0"
abbreviation (input) PTHREAD_CANCEL_DEFERRED :: int where "PTHREAD_CANCEL_DEFERRED \<equiv> 0"
abbreviation (input) PTHREAD_CANCELED :: int where "PTHREAD_CANCELED \<equiv> -1"

abbreviation ks_pm :: "ksys \<Rightarrow> buddy_system" where
  "ks_pm k \<equiv> vs_pm (ks_vm k)"

definition with_pm :: "ksys \<Rightarrow> buddy_system \<Rightarrow> ksys" where
  "with_pm k s = k\<lparr>ks_vm := (ks_vm k)\<lparr>vs_pm := s\<rparr>\<rparr>"

definition thread_init :: "ksys \<Rightarrow> ksys" where
  "thread_init k =
     fold (\<lambda>i k. let k1 = upd_thread i (\<lambda>t. t\<lparr>kt_thread_idx := i\<rparr>) (upd_thread_state i T_UNUSED k)
                 in k1\<lparr>ks_free_thread := ks_free_thread k1 @ [i]\<rparr>)
       [0..<THREAD_NUM] (k\<lparr>ks_free_thread := []\<rparr>)"

text \<open>A new thread gets a page for its trap frame; an empty pool and a failed allocation are panics.\<close>

definition alloc_thread :: "ksys \<Rightarrow> (nat \<times> ksys) option" where
  "alloc_thread k =
     (case ks_free_thread k of
        [] \<Rightarrow> None
      | t # ts \<Rightarrow>
          (case kalloc (ks_pm k) of
             None \<Rightarrow> None
           | Some (a, s) \<Rightarrow>
               let k1 = with_pm (k\<lparr>ks_free_thread := ts\<rparr>) s;
                   k2 = k1\<lparr>ks_futex := (ks_futex k1)\<lparr>fx_threads := (fx_threads (ks_futex k1))
                     (t := (fx_threads (ks_futex k1) t)\<lparr>th_state := T_USED, th_awakeTime := 0,
                            th_timeout_occurred := False\<rparr>)\<rparr>\<rparr>
               in Some (t, upd_thread t (\<lambda>th. th\<lparr>kt_trapframe_page := a, kt_chan := ChanNull, kt_sz := 0,
                    kt_clear_child_tid := 0, kt_stack_vma := 0,
                    kt_cancel_state := PTHREAD_CANCEL_ENABLE, kt_cancel_type := PTHREAD_CANCEL_DEFERRED,
                    kt_cancel_requested := False, kt_exit_status := 0, kt_join_futex_addr := 0,
                    kt_sig_pending := 0, kt_sig_set := 0,
                    kt_sigaction := (\<lambda>i. if 0 \<le> i \<and> i \<le> SIGRTMAX
                      then \<lparr>sa_handler = 0, sa_mask = 0, sa_flags = 0\<rparr> else kt_sigaction th i),
                    kt_signal_frames := [], kt_current_signal := 0, kt_signal_interrupted := False,
                    kt_stopped := False, kt_stop_signal := 0, kt_handling_signal := -1,
                    kt_altstack := \<lparr>ss_sp = 0, ss_flags = 0, ss_size = 0\<rparr>,
                    kt_should_exit := False, kt_exit_value := 0\<rparr>) k2)))"

section \<open>The process table\<close>

definition allocpid :: "ksys \<Rightarrow> int \<times> ksys" where
  "allocpid k =
     (let pid = ks_PID k; k1 = k\<lparr>ks_PID := signed_take_bit 31 (ks_PID k + 1)\<rparr>
      in if pid > PID_MAX then (-1, k1) else (pid, k1))"

definition getproc :: "ksys \<Rightarrow> int \<Rightarrow> nat option" where
  "getproc k pid = find (\<lambda>i. p_pid (ks_procs k i) = pid) [0..<NPROC]"

definition procnum :: "ksys \<Rightarrow> nat" where
  "procnum k = length (filter (\<lambda>i. p_state (ks_procs k i) \<noteq> UNUSED) [0..<NPROC])"

definition killed :: "ksys \<Rightarrow> nat \<Rightarrow> int" where
  "killed k i = p_killed (ks_procs k i)"

definition wake_one :: "nat \<Rightarrow> wchan \<Rightarrow> nat \<Rightarrow> ksys \<Rightarrow> ksys" where
  "wake_one me chan i k =
     (if i \<noteq> me \<and> p_state (ks_procs k i) = SLEEPING \<and> p_chan (ks_procs k i) = chan
      then upd_proc i (\<lambda>p. p\<lparr>p_state := RUNNABLE\<rparr>) k else k)"

definition wakeup :: "nat \<Rightarrow> wchan \<Rightarrow> ksys \<Rightarrow> ksys" where
  "wakeup me chan k = fold (wake_one me chan) [0..<NPROC] k"

definition reparent_one :: "nat \<Rightarrow> nat \<Rightarrow> nat \<Rightarrow> ksys \<Rightarrow> ksys" where
  "reparent_one me p child k =
     (if p_parent (ks_procs k child) = Some p
      then wakeup me (ChanProc (ks_initproc k)) (upd_proc child (\<lambda>c. c\<lparr>p_parent := Some (ks_initproc k)\<rparr>) k)
      else k)"

definition reparent :: "nat \<Rightarrow> nat \<Rightarrow> ksys \<Rightarrow> ksys" where
  "reparent me p k = fold (reparent_one me p) [0..<NPROC] k"

section \<open>Sending signals\<close>

definition sig_bit :: "int \<Rightarrow> sigset" where
  "sig_bit sig = push_bit (nat (sig - 1)) 1"

definition post_pending :: "nat \<Rightarrow> int \<Rightarrow> ksys \<Rightarrow> ksys" where
  "post_pending t sig k = upd_thread t (\<lambda>th. th\<lparr>kt_sig_pending := kt_sig_pending th OR sig_bit sig\<rparr>) k"

definition may_signal :: "proc \<Rightarrow> proc \<Rightarrow> bool" where
  "may_signal c p \<longleftrightarrow> \<not> (p_euid c \<noteq> 0 \<and> p_euid c \<noteq> p_euid p \<and> p_euid c \<noteq> p_ruid p)"

text \<open>
  What \<^verbatim>\<open>kill\<close> and \<^verbatim>\<open>tgkill\<close> do to the \<^verbatim>\<open>killed\<close> flag; the handler is looked up in the current thread's
  table of \<^verbatim>\<open>SIGRTMAX + 1\<close> entries. \<open>rt\<close>: real-time signals leave the flag alone (in \<^verbatim>\<open>kill\<close> only).
\<close>

definition mark_killed :: "bool \<Rightarrow> ksys \<Rightarrow> int \<Rightarrow> proc \<Rightarrow> proc option" where
  "mark_killed rt k sig p =
     (if sig = SIGCONT \<and> p_killed p = SIGSTOP then Some (p\<lparr>p_killed := 0, p_continued := True\<rparr>)
      else case p_current_thread p of
        None \<Rightarrow> None
      | Some t \<Rightarrow>
          (if sig < 0 \<or> sig > SIGRTMAX then None
           else if sa_handler (kt_sigaction (ks_threads k t) sig) = SIG_DFL then
             (if rt \<and> \<not> (sig < SIGRTMIN \<or> sig > SIGRTMAX) then Some p
              else if p_killed p = 0 \<or> p_killed p > sig then Some (p\<lparr>p_killed := sig\<rparr>)
              else Some p)
           else Some p))"

definition rouse :: "proc \<Rightarrow> proc" where
  "rouse p = (if p_state p = SLEEPING then p\<lparr>p_state := RUNNABLE\<rparr> else p)"

definition kill :: "nat \<Rightarrow> int \<Rightarrow> int \<Rightarrow> ksys \<Rightarrow> (int \<times> ksys) option" where
  "kill me pid sig k =
     (case find (\<lambda>i. p_pid (ks_procs k i) = pid) [0..<NPROC] of
        None \<Rightarrow> Some (- ESRCH, k)
      | Some i \<Rightarrow>
          let p = ks_procs k i
          in if \<not> may_signal (ks_procs k me) p then Some (- EPERM, k)
             else
               let k1 = (if sig > 0 \<and> sig \<le> 64
                         then case p_current_thread p of None \<Rightarrow> k | Some t \<Rightarrow> post_pending t sig k
                         else k)
               in case mark_killed True k1 sig p of
                    None \<Rightarrow> None
                  | Some p1 \<Rightarrow> Some (0, upd_proc i (\<lambda>_. rouse p1) k1))"

definition tgkill :: "nat \<Rightarrow> int \<Rightarrow> int \<Rightarrow> int \<Rightarrow> ksys \<Rightarrow> (int \<times> ksys) option" where
  "tgkill me tgid tid sig k =
     (let at = (\<lambda>i. find (\<lambda>t. kt_tid (ks_threads k t) = tid) (p_thread_queue (ks_procs k i)))
      in case find (\<lambda>i. p_pid (ks_procs k i) = tgid \<and> at i \<noteq> None) [0..<NPROC] of
           None \<Rightarrow> Some (- ESRCH, k)
         | Some i \<Rightarrow>
             (case at i of
                None \<Rightarrow> None
              | Some t \<Rightarrow>
                  let p = ks_procs k i
                  in if \<not> may_signal (ks_procs k me) p then Some (- EPERM, k)
                     else
                       let k1 = (if sig > 0 \<and> sig \<le> 64 then
                                   (let k0 = post_pending t sig k
                                    in if sig = SIGCANCEL \<and> thread_state_of k0 t = T_SLEEPING
                                       then upd_thread_state t T_RUNNABLE k0 else k0)
                                 else k)
                       in case mark_killed False k1 sig p of
                            None \<Rightarrow> None
                          | Some p1 \<Rightarrow> Some (0, upd_proc i (\<lambda>_. rouse p1) k1)))"

text \<open>The system calls. A process group is signalled one process after the other; errors are ignored.\<close>

fun kill_group :: "nat \<Rightarrow> int \<Rightarrow> int \<Rightarrow> nat list \<Rightarrow> ksys \<Rightarrow> ksys option" where
  "kill_group me pgid sig [] k = Some k"
| "kill_group me pgid sig (i # is) k =
     (if p_pgid (ks_procs k i) = pgid \<and> p_state (ks_procs k i) \<noteq> UNUSED
      then case kill me (p_pid (ks_procs k i)) sig k of
             None \<Rightarrow> None
           | Some (r, k1) \<Rightarrow> kill_group me pgid sig is k1
      else kill_group me pgid sig is k)"

definition sys_kill :: "nat \<Rightarrow> int \<Rightarrow> int \<Rightarrow> ksys \<Rightarrow> (int \<times> ksys) option" where
  "sys_kill me pid sig k =
     (if sig < 0 \<or> sig \<ge> SIGRTMAX then Some (- EINVAL, k)
      else if pid > 0 then kill me pid sig k
      else if pid < -1 then
        (if pid \<le> INT_MIN then Some (- ESRCH, k)
         else map_option (Pair 0) (kill_group me (- pid) sig [0..<NPROC] k))
      else if pid = 0 then map_option (Pair 0) (kill_group me (p_pgid (ks_procs k me)) sig [0..<NPROC] k)
      else None)"

definition sys_tgkill :: "nat \<Rightarrow> nat \<Rightarrow> nat \<Rightarrow> int \<Rightarrow> ksys \<Rightarrow> (int \<times> ksys) option" where
  "sys_tgkill me tgid tid sig k = tgkill me (int32 tgid) (int32 tid) sig k"

fun tkill_queue :: "nat \<Rightarrow> int \<Rightarrow> int \<Rightarrow> int \<Rightarrow> nat list \<Rightarrow> bool \<times> ksys \<Rightarrow> (bool \<times> ksys) option" where
  "tkill_queue me pid tid sig [] r = Some r"
| "tkill_queue me pid tid sig (t # ts) (found, k) =
     (if kt_tid (ks_threads k t) = tid
      then case tgkill me pid tid sig k of
             None \<Rightarrow> None
           | Some (r, k1) \<Rightarrow> tkill_queue me pid tid sig ts (True, k1)
      else tkill_queue me pid tid sig ts (found, k))"

fun tkill_scan :: "nat \<Rightarrow> int \<Rightarrow> int \<Rightarrow> nat list \<Rightarrow> bool \<times> ksys \<Rightarrow> (bool \<times> ksys) option" where
  "tkill_scan me tid sig [] r = Some r"
| "tkill_scan me tid sig (i # is) (found, k) =
     (let p = ks_procs k i
      in if p_state p = RUNNABLE \<or> p_state p = RUNNING
         then Option.bind (tkill_queue me (p_pid p) tid sig (p_thread_queue p) (found, k)) (tkill_scan me tid sig is)
         else tkill_scan me tid sig is (found, k))"

definition sys_tkill :: "nat \<Rightarrow> int \<Rightarrow> int \<Rightarrow> ksys \<Rightarrow> (int \<times> ksys) option" where
  "sys_tkill me tid sig k =
     (if tid < 0 then Some (- EINVAL, k)
      else case tkill_scan me tid sig [0..<NPROC] (False, k) of
        None \<Rightarrow> None
      | Some (found, k1) \<Rightarrow> Some (if found then 0 else - ESRCH, k1))"

section \<open>Permissions\<close>

record kstat =
  st_mode :: "32 word"
  st_uid :: nat
  st_gid :: nat

abbreviation (input) R_OK :: "32 word" where "R_OK \<equiv> 4"
abbreviation (input) W_OK :: "32 word" where "W_OK \<equiv> 2"
abbreviation (input) X_OK :: "32 word" where "X_OK \<equiv> 1"

text \<open>
  The permission bits of one class (owner 6, group 3, others 0) that a mode asks for: \<^verbatim>\<open>S_IRUSR\<close> is
  \<^verbatim>\<open>0400\<close>, \<^verbatim>\<open>S_IRGRP\<close> \<^verbatim>\<open>040\<close>, \<^verbatim>\<open>S_IROTH\<close> \<^verbatim>\<open>04\<close>, and so on.
\<close>

definition class_perms :: "nat \<Rightarrow> 32 word \<Rightarrow> 32 word" where
  "class_perms cls mode =
     (let a = (if mode AND R_OK \<noteq> 0 then push_bit cls 4 else 0);
          b = (if mode AND W_OK \<noteq> 0 then a OR push_bit cls 2 else a)
      in if mode AND X_OK \<noteq> 0 then b OR push_bit cls 1 else b)"

definition class_grants :: "nat \<Rightarrow> kstat \<Rightarrow> 32 word \<Rightarrow> bool" where
  "class_grants cls st mode \<longleftrightarrow> class_perms cls mode AND st_mode st = class_perms cls mode"

definition check_root_access :: "proc \<Rightarrow> kstat \<Rightarrow> 32 word \<Rightarrow> bool" where
  "check_root_access p st mode \<longleftrightarrow>
     (if p_euid p = 0 then
        (if mode AND X_OK \<noteq> 0 then st_mode st AND (64 OR 8 OR 1) \<noteq> 0
         else mode AND (R_OK OR W_OK) \<noteq> 0)
      else False)"

definition check_file_access :: "proc \<Rightarrow> kstat \<Rightarrow> 32 word \<Rightarrow> bool" where
  "check_file_access p st mode \<longleftrightarrow>
     (if p_euid p = 0 then True
      else if p_euid p = st_uid st \<and> class_grants 6 st mode then True
      else if p_egid p = st_gid st \<and> class_grants 3 st mode then True
      else if (\<exists>i < p_ngroups p. p_supplementary_groups p ! i = st_gid st \<and> class_grants 3 st mode) then True
      else class_grants 0 st mode)"

section \<open>Waking and re-parenting\<close>

lemma upd_proc_simps [simp]:
  "ks_procs (upd_proc i f k) = (ks_procs k)(i := f (ks_procs k i))"
  "ks_threads (upd_proc i f k) = ks_threads k" "ks_futex (upd_proc i f k) = ks_futex k"
  "ks_vm (upd_proc i f k) = ks_vm k" "ks_PID (upd_proc i f k) = ks_PID k"
  "ks_initproc (upd_proc i f k) = ks_initproc k"
  by (simp_all add: upd_proc_def)

lemma upd_thread_simps [simp]:
  "ks_threads (upd_thread t g k) = (ks_threads k)(t := g (ks_threads k t))"
  "ks_procs (upd_thread t g k) = ks_procs k" "ks_futex (upd_thread t g k) = ks_futex k"
  "ks_vm (upd_thread t g k) = ks_vm k" "ks_PID (upd_thread t g k) = ks_PID k"
  "ks_initproc (upd_thread t g k) = ks_initproc k"
  by (simp_all add: upd_thread_def)

text \<open>The state with another process table.\<close>

abbreviation with_procs :: "ksys \<Rightarrow> (nat \<Rightarrow> proc) \<Rightarrow> ksys" where
  "with_procs k ps \<equiv> k\<lparr>ks_procs := ps\<rparr>"

definition woken :: "nat \<Rightarrow> wchan \<Rightarrow> nat \<Rightarrow> proc \<Rightarrow> proc" where
  "woken me chan i p =
     (if i \<noteq> me \<and> p_state p = SLEEPING \<and> p_chan p = chan then p\<lparr>p_state := RUNNABLE\<rparr> else p)"

lemma wake_one_woken: "wake_one me chan i k = upd_proc i (woken me chan i) k"
  by (cases k) (simp add: wake_one_def woken_def upd_proc_def)

lemma woken_idem [simp]: "woken me chan i (woken me chan i p) = woken me chan i p"
  by (simp add: woken_def)

lemma fold_upd_proc:
  "distinct xs \<Longrightarrow>
   fold (\<lambda>i. upd_proc i (f i)) xs k = with_procs k (\<lambda>i. if i \<in> set xs then f i (ks_procs k i) else ks_procs k i)"
proof (induction xs arbitrary: k)
  case (Cons x xs)
  then have "fold (\<lambda>i. upd_proc i (f i)) (x # xs) k = with_procs (upd_proc x (f x) k)
      (\<lambda>i. if i \<in> set xs then f i (ks_procs (upd_proc x (f x) k) i) else ks_procs (upd_proc x (f x) k) i)"
    by simp
  also have "\<dots> = with_procs k (\<lambda>i. if i \<in> set (x # xs) then f i (ks_procs k i) else ks_procs k i)"
    using Cons.prems by (auto simp: upd_proc_def fun_eq_iff)
  finally show ?case .
qed simp

lemma wakeup_procs:
  "wakeup me chan k = with_procs k (\<lambda>i. if i < NPROC then woken me chan i (ks_procs k i) else ks_procs k i)"
proof -
  have w: "wake_one me chan = (\<lambda>i. upd_proc i (woken me chan i))" by (simp add: fun_eq_iff wake_one_woken)
  show ?thesis unfolding wakeup_def w by (subst fold_upd_proc) simp_all
qed

lemma wakeup_parent [simp]: "p_parent (ks_procs (wakeup me chan k) i) = p_parent (ks_procs k i)"
  by (simp add: wakeup_procs woken_def)

lemma wakeup_initproc [simp]: "ks_initproc (wakeup me chan k) = ks_initproc k"
  by (simp add: wakeup_procs)

lemma wakeup_keeps_awake:
  "p_state (ks_procs k i) \<noteq> SLEEPING \<Longrightarrow> p_state (ks_procs (wakeup me chan k) i) = p_state (ks_procs k i)"
  by (simp add: wakeup_procs woken_def)

text \<open>What re-parenting the processes of a list does, by induction on the list.\<close>

definition asleep_on :: "ksys \<Rightarrow> nat \<Rightarrow> wchan \<Rightarrow> bool" where
  "asleep_on k i chan \<longleftrightarrow> p_state (ks_procs k i) = SLEEPING \<and> p_chan (ks_procs k i) = chan"

lemma asleep_parent [simp]:
  "asleep_on (upd_proc c (\<lambda>d. d\<lparr>p_parent := q\<rparr>) k) i ch \<longleftrightarrow> asleep_on k i ch"
  by (simp add: asleep_on_def)

lemma wakeup_asleep:
  "asleep_on (wakeup me chan k) i ch \<longleftrightarrow> asleep_on k i ch \<and> \<not> (i < NPROC \<and> i \<noteq> me \<and> ch = chan)"
  by (auto simp: asleep_on_def wakeup_procs woken_def)

lemma reparent_fold:
  assumes "p \<noteq> ks_initproc k"
  shows "ks_initproc (fold (reparent_one me p) xs k) = ks_initproc k"
    and "p_parent (ks_procs (fold (reparent_one me p) xs k) c) =
      (if c \<in> set xs \<and> p_parent (ks_procs k c) = Some p then Some (ks_initproc k) else p_parent (ks_procs k c))"
  using assms by (induction xs arbitrary: k) (auto simp: reparent_one_def)

lemma reparent_asleep:
  "asleep_on (fold (reparent_one me p) xs k) i ch \<longleftrightarrow> asleep_on k i ch \<and>
     \<not> (i < NPROC \<and> i \<noteq> me \<and> ch = ChanProc (ks_initproc k) \<and> (\<exists>c \<in> set xs. p_parent (ks_procs k c) = Some p))"
  if "p \<noteq> ks_initproc k"
  using that
proof (induction xs arbitrary: k)
  case (Cons c xs)
  let ?k = "reparent_one me p c k"
  have i: "ks_initproc ?k = ks_initproc k" by (simp add: reparent_one_def)
  have a: "asleep_on ?k i ch \<longleftrightarrow> asleep_on k i ch \<and>
      \<not> (i < NPROC \<and> i \<noteq> me \<and> ch = ChanProc (ks_initproc k) \<and> p_parent (ks_procs k c) = Some p)"
    by (auto simp: reparent_one_def wakeup_asleep)
  have pa: "p_parent (ks_procs ?k d) = Some p \<longleftrightarrow> p_parent (ks_procs k d) = Some p \<and> d \<noteq> c" for d
    using Cons.prems by (auto simp: reparent_one_def)
  show ?case using Cons.IH [of ?k] Cons.prems by (auto simp: i a pa)
qed simp

section \<open>What a signal changes\<close>

text \<open>
  Sending a signal keeps who the processes are and only adds pending signals. \<open>table_ok\<close>: a process in
  use is the only one with its number and has a current thread.
\<close>

definition table_ok :: "ksys \<Rightarrow> bool" where
  "table_ok k \<longleftrightarrow> (\<forall>i < NPROC. p_state (ks_procs k i) \<noteq> UNUSED \<longrightarrow>
     p_current_thread (ks_procs k i) \<noteq> None \<and> (\<forall>j < NPROC. p_pid (ks_procs k j) = p_pid (ks_procs k i) \<longrightarrow> j = i))"

definition same_process :: "proc \<Rightarrow> proc \<Rightarrow> bool" where
  "same_process p q \<longleftrightarrow> p_pid q = p_pid p \<and> p_pgid q = p_pgid p \<and> p_euid q = p_euid p \<and> p_ruid q = p_ruid p \<and>
     p_current_thread q = p_current_thread p \<and> p_thread_queue q = p_thread_queue p \<and>
     (p_state q = UNUSED \<longleftrightarrow> p_state p = UNUSED)"

definition pends_more :: "kthread \<Rightarrow> kthread \<Rightarrow> bool" where
  "pends_more t u \<longleftrightarrow> kt_tid u = kt_tid t \<and> kt_sigaction u = kt_sigaction t \<and>
     (\<forall>n. bit (kt_sig_pending t) n \<longrightarrow> bit (kt_sig_pending u) n)"

definition signalled :: "ksys \<Rightarrow> ksys \<Rightarrow> bool" where
  "signalled k k' \<longleftrightarrow> (\<forall>i. same_process (ks_procs k i) (ks_procs k' i)) \<and>
     (\<forall>t. pends_more (ks_threads k t) (ks_threads k' t))"

lemma signalled_refl [simp]: "signalled k k"
  by (simp add: signalled_def same_process_def pends_more_def)

lemma signalled_trans: "signalled k k1 \<Longrightarrow> signalled k1 k2 \<Longrightarrow> signalled k k2"
  by (auto simp: signalled_def same_process_def pends_more_def)

lemma table_ok_signalled: "signalled k k' \<Longrightarrow> table_ok k \<Longrightarrow> table_ok k'"
  by (auto simp: table_ok_def signalled_def same_process_def)

lemma may_signal_same: "same_process c c' \<Longrightarrow> same_process p p' \<Longrightarrow> may_signal c' p' = may_signal c p"
  by (auto simp: may_signal_def same_process_def)

lemma bit_sig_bit: "0 < sig \<Longrightarrow> sig \<le> 64 \<Longrightarrow> bit (sig_bit sig) n \<longleftrightarrow> n = nat (sig - 1)"
  by (auto simp: sig_bit_def bit_simps)

lemma mark_killed_same: "mark_killed rt k sig p = Some q \<Longrightarrow> same_process p (rouse q)"
  by (auto simp: mark_killed_def same_process_def rouse_def split: if_splits option.splits)

lemma mark_killed_defined:
  "p_current_thread p = Some t \<Longrightarrow> 0 \<le> sig \<Longrightarrow> sig \<le> SIGRTMAX \<Longrightarrow> \<exists>q. mark_killed rt k sig p = Some q"
  by (auto simp: mark_killed_def)

lemma mark_killed_stays:
  "mark_killed rt k sig p = Some q \<Longrightarrow> sig \<noteq> 0 \<Longrightarrow> p_killed p \<noteq> 0 \<Longrightarrow> p_killed p \<noteq> SIGSTOP \<Longrightarrow>
   p_killed (rouse q) \<noteq> 0"
  by (auto simp: mark_killed_def rouse_def split: if_splits option.splits)

lemma post_pending_signalled: "signalled k (post_pending t sig k)"
  by (simp add: signalled_def same_process_def pends_more_def post_pending_def bit_or_iff)

lemma post_pending_simps [simp]:
  "ks_procs (post_pending t sig k) = ks_procs k" "ks_futex (post_pending t sig k) = ks_futex k"
  "ks_vm (post_pending t sig k) = ks_vm k"
  by (simp_all add: post_pending_def)

lemma finish_signalled:
  "mark_killed rt k1 sig (ks_procs k i) = Some q \<Longrightarrow> signalled k k1 \<Longrightarrow> ks_procs k1 = ks_procs k \<Longrightarrow>
   signalled k (upd_proc i (\<lambda>_. rouse q) k1)"
  using mark_killed_same [of rt k1 sig "ks_procs k i" q] by (auto simp: signalled_def)

lemma kill_signalled: "kill me pid sig k = Some (r, k') \<Longrightarrow> signalled k k'"
  unfolding kill_def Let_def
  by (auto split: option.splits if_splits simp: post_pending_signalled
      intro!: finish_signalled [where k = k])

lemma find_proc:
  assumes "table_ok k" "i < NPROC" "p_state (ks_procs k i) \<noteq> UNUSED"
  shows "find (\<lambda>j. p_pid (ks_procs k j) = p_pid (ks_procs k i)) [0..<NPROC] = Some i"
proof -
  have u: "j = i" if "j < NPROC" "p_pid (ks_procs k j) = p_pid (ks_procs k i)" for j
    using assms that unfolding table_ok_def by blast
  have "p_pid (ks_procs k j) \<noteq> p_pid (ks_procs k i)" if "j < i" for j
    using u [of j] that assms(2) by auto
  then show ?thesis using assms(2) by (auto simp: find_Some_iff intro!: exI [of _ i])
qed

text \<open>Signalling a process in use: never an invalid access, and the signal becomes pending if it is allowed.\<close>

lemma kill_process:
  assumes ok: "table_ok k" and i: "i < NPROC" "p_state (ks_procs k i) \<noteq> UNUSED"
    and sig: "0 \<le> sig" "sig \<le> SIGRTMAX" and t: "p_current_thread (ks_procs k i) = Some t"
  shows "\<exists>k'. kill me (p_pid (ks_procs k i)) sig k =
      Some (if may_signal (ks_procs k me) (ks_procs k i) then 0 else - EPERM, k') \<and> signalled k k' \<and>
      (may_signal (ks_procs k me) (ks_procs k i) \<longrightarrow> p_state (ks_procs k' i) \<noteq> SLEEPING \<and>
        (0 < sig \<longrightarrow> bit (kt_sig_pending (ks_threads k' t)) (nat (sig - 1))))"
proof (cases "may_signal (ks_procs k me) (ks_procs k i)")
  case False
  then show ?thesis using find_proc [OF ok i] by (auto simp: kill_def)
next
  case True
  let ?k = "if 0 < sig then post_pending t sig k else k"
  obtain q where q: "mark_killed True ?k sig (ks_procs k i) = Some q"
    using mark_killed_defined [OF t sig] by blast
  have e: "kill me (p_pid (ks_procs k i)) sig k = Some (0, upd_proc i (\<lambda>_. rouse q) ?k)"
    using find_proc [OF ok i] True q t sig by (auto simp: kill_def Let_def)
  have "bit (kt_sig_pending (ks_threads (upd_proc i (\<lambda>_. rouse q) ?k) t)) (nat (sig - 1))" if "0 < sig"
    using that sig(2) by (simp add: post_pending_def bit_or_iff bit_sig_bit)
  then show ?thesis using e kill_signalled [OF e] True by (auto simp: rouse_def)
qed

lemma kill_group_signals:
  assumes "table_ok k" "0 \<le> sig" "sig \<le> SIGRTMAX" "set is \<subseteq> {..<NPROC}"
  shows "\<exists>k'. kill_group me g sig is k = Some k' \<and> signalled k k' \<and>
    (\<forall>i \<in> set is. p_pgid (ks_procs k i) = g \<and> p_state (ks_procs k i) \<noteq> UNUSED \<and>
       may_signal (ks_procs k me) (ks_procs k i) \<and> 0 < sig \<longrightarrow>
       bit (kt_sig_pending (ks_threads k' (the (p_current_thread (ks_procs k i))))) (nat (sig - 1)))"
  using assms(1,4)
proof (induction "is" arbitrary: k)
  case (Cons i "is")
  show ?case
  proof (cases "p_pgid (ks_procs k i) = g \<and> p_state (ks_procs k i) \<noteq> UNUSED")
    case False
    then show ?thesis using Cons.IH [of k] Cons.prems by auto
  next
    case True
    have i: "i < NPROC" using Cons.prems(2) by auto
    obtain t where t: "p_current_thread (ks_procs k i) = Some t"
      using True Cons.prems(1) i by (auto simp: table_ok_def)
    obtain r k1 where k1: "kill me (p_pid (ks_procs k i)) sig k = Some (r, k1)" "signalled k k1"
        "may_signal (ks_procs k me) (ks_procs k i) \<and> 0 < sig \<longrightarrow> bit (kt_sig_pending (ks_threads k1 t)) (nat (sig - 1))"
      using kill_process [OF Cons.prems(1) i _ assms(2,3) t] True by blast
    obtain k' where k': "kill_group me g sig is k1 = Some k'" "signalled k1 k'"
        "\<forall>j \<in> set is. p_pgid (ks_procs k1 j) = g \<and> p_state (ks_procs k1 j) \<noteq> UNUSED \<and>
           may_signal (ks_procs k1 me) (ks_procs k1 j) \<and> 0 < sig \<longrightarrow>
           bit (kt_sig_pending (ks_threads k' (the (p_current_thread (ks_procs k1 j))))) (nat (sig - 1))"
      using Cons.IH [OF table_ok_signalled [OF k1(2) Cons.prems(1)]] Cons.prems(2) by auto
    have s: "same_process (ks_procs k j) (ks_procs k1 j)" for j using k1(2) by (simp add: signalled_def)
    have m: "may_signal (ks_procs k1 me) (ks_procs k1 j) = may_signal (ks_procs k me) (ks_procs k j)" for j
      by (rule may_signal_same [OF s s])
    have "bit (kt_sig_pending (ks_threads k1 t)) n \<Longrightarrow> bit (kt_sig_pending (ks_threads k' t)) n" for n
      using k'(2) by (simp add: signalled_def pends_more_def)
    moreover have "kill_group me g sig (i # is) k = Some k'" using True k1(1) k'(1) by simp
    moreover have "p_pgid (ks_procs k1 j) = p_pgid (ks_procs k j)"
        "p_state (ks_procs k1 j) = UNUSED \<longleftrightarrow> p_state (ks_procs k j) = UNUSED"
        "p_current_thread (ks_procs k1 j) = p_current_thread (ks_procs k j)" for j
      using s [of j] by (auto simp: same_process_def)
    ultimately show ?thesis
      using k1(3) k'(3) t signalled_trans [OF k1(2) k'(2)] by (auto simp: m)
  qed
qed simp

text \<open>No thread but the current ones of the processes of the group is touched.\<close>

lemma kill_frame:
  assumes "kill me pid sig k = Some (r, k')" "ks_threads k' u \<noteq> ks_threads k u"
  shows "\<exists>j < NPROC. p_pid (ks_procs k j) = pid \<and> p_current_thread (ks_procs k j) = Some u \<and> may_signal (ks_procs k me) (ks_procs k j)"
proof (cases "find (\<lambda>i. p_pid (ks_procs k i) = pid) [0..<NPROC]")
  case (Some i)
  then have "i < NPROC" "p_pid (ks_procs k i) = pid" by (auto simp: find_Some_iff)
  moreover have "p_current_thread (ks_procs k i) = Some u \<and> may_signal (ks_procs k me) (ks_procs k i)"
    using assms Some by (auto simp: kill_def Let_def post_pending_def upd_thread_def upd_proc_def split: option.splits if_splits)
  ultimately show ?thesis by blast
qed (use assms in \<open>simp add: kill_def\<close>)

lemma kill_group_frame:
  assumes "table_ok k" "0 \<le> sig" "sig \<le> SIGRTMAX" "set is \<subseteq> {..<NPROC}" "kill_group me g sig is k = Some k'"
    and "ks_threads k' u \<noteq> ks_threads k u"
  shows "\<exists>i < NPROC. p_pgid (ks_procs k i) = g \<and> p_state (ks_procs k i) \<noteq> UNUSED \<and> may_signal (ks_procs k me) (ks_procs k i) \<and>
    p_current_thread (ks_procs k i) = Some u"
  using assms(1,4-)
proof (induction "is" arbitrary: k)
  case (Cons i "is")
  show ?case
  proof (cases "p_pgid (ks_procs k i) = g \<and> p_state (ks_procs k i) \<noteq> UNUSED")
    case False
    then show ?thesis using Cons by auto
  next
    case True
    have i: "i < NPROC" using Cons.prems(2) by auto
    obtain t where t: "p_current_thread (ks_procs k i) = Some t" using True Cons.prems(1) i by (auto simp: table_ok_def)
    obtain r k1 where k1: "kill me (p_pid (ks_procs k i)) sig k = Some (r, k1)" "signalled k k1"
      using kill_process [OF Cons.prems(1) i _ assms(2,3) t] True by blast
    have k': "kill_group me g sig is k1 = Some k'" using Cons.prems(3) True k1(1) by simp
    have s: "same_process (ks_procs k j) (ks_procs k1 j)" for j using k1(2) by (simp add: signalled_def)
    have m: "may_signal (ks_procs k1 me) (ks_procs k1 j) = may_signal (ks_procs k me) (ks_procs k j)" for j
      by (rule may_signal_same [OF s s])
    show ?thesis
    proof (cases "ks_threads k1 u = ks_threads k u")
      case True
      then show ?thesis
        using Cons.IH [OF table_ok_signalled [OF k1(2) Cons.prems(1)] _ k'] Cons.prems(2,4) s m unfolding same_process_def by auto
    next
      case False
      from kill_frame [OF k1(1) False] obtain j where
        j: "j < NPROC" "p_pid (ks_procs k j) = p_pid (ks_procs k i)" "p_current_thread (ks_procs k j) = Some u"
          "may_signal (ks_procs k me) (ks_procs k j)" by blast
      then have "j = i" using Cons.prems(1) i True unfolding table_ok_def by blast
      then show ?thesis using j i True by blast
    qed
  qed
qed simp

section \<open>Permission classes\<close>

definition in_group :: "proc \<Rightarrow> nat \<Rightarrow> bool" where
  "in_group p g \<longleftrightarrow> p_egid p = g \<or> (\<exists>i < p_ngroups p. p_supplementary_groups p ! i = g)"

text \<open>The rule of POSIX: the first class that applies decides.\<close>

definition posix_access :: "proc \<Rightarrow> kstat \<Rightarrow> 32 word \<Rightarrow> bool" where
  "posix_access p st mode \<longleftrightarrow>
     (if p_euid p = 0 then True
      else if p_euid p = st_uid st then class_grants 6 st mode
      else if in_group p (st_gid st) then class_grants 3 st mode
      else class_grants 0 st mode)"

lemma and_bit_nonzero: "w AND push_bit n 1 \<noteq> 0 \<longleftrightarrow> bit w n" for w :: "'a::len word"
  by (metis and_exp_eq_0_iff_not_bit push_bit_of_1)

lemma class_perms_bits: "class_perms cls mode = push_bit cls (mode AND 7)"
proof -
  have m: "mode AND R_OK \<noteq> 0 \<longleftrightarrow> bit mode 2" "mode AND W_OK \<noteq> 0 \<longleftrightarrow> bit mode 1" "mode AND X_OK \<noteq> 0 \<longleftrightarrow> bit mode 0"
    using and_bit_nonzero [of mode 2] and_bit_nonzero [of mode 1] and_bit_nonzero [of mode 0] by simp_all
  have 7: "mode AND 7 = take_bit 3 mode" by (simp add: take_bit_eq_mask mask_eq_exp_minus_1)
  have "mode AND 7 = (if bit mode 2 then push_bit 2 1 else 0) OR (if bit mode 1 then push_bit 1 1 else 0) OR
      (if bit mode 0 then push_bit 0 1 else 0)"
    (is "_ = ?w")
  proof (rule bit_word_eqI)
    fix n :: nat assume n: "n < LENGTH(32)"
    have i: "bit (if b then push_bit j 1 else 0 :: 32 word) n \<longleftrightarrow> b \<and> n = j" for b j
      using n by (auto simp: bit_simps)
    have "n < 3 \<longleftrightarrow> n = 2 \<or> n = 1 \<or> n = 0" by auto
    then show "bit (mode AND 7) n \<longleftrightarrow> bit ?w n" unfolding 7 bit_or_iff i by (auto simp: bit_take_bit_iff)
  qed
  then show ?thesis unfolding class_perms_def m Let_def by (simp add: push_bit_or ac_simps)
qed

lemma class_grants_bits:
  assumes "cls \<le> 6"
  shows "class_grants cls st mode \<longleftrightarrow> (\<forall>b < 3. bit mode b \<longrightarrow> bit (st_mode st) (cls + b))"
proof -
  have 7: "mode AND 7 = take_bit 3 mode" by (simp add: take_bit_eq_mask mask_eq_exp_minus_1)
  have "class_grants cls st mode \<longleftrightarrow>
      (\<forall>n < 32. cls \<le> n \<and> n - cls < 3 \<and> bit mode (n - cls) \<longrightarrow> bit (st_mode st) n)"
    unfolding class_grants_def class_perms_bits 7 bit_eq_iff by (auto simp: bit_simps)
  also have "\<dots> \<longleftrightarrow> (\<forall>b < 3. bit mode b \<longrightarrow> bit (st_mode st) (cls + b))"
  proof (intro iffI allI impI)
    fix b assume "\<forall>n < 32. cls \<le> n \<and> n - cls < 3 \<and> bit mode (n - cls) \<longrightarrow> bit (st_mode st) n" "b < 3" "bit mode b"
    then show "bit (st_mode st) (cls + b)" using assms by (auto dest: spec [of _ "cls + b"])
  next
    fix n assume "\<forall>b < 3. bit mode b \<longrightarrow> bit (st_mode st) (cls + b)" "n < 32" "cls \<le> n \<and> n - cls < 3 \<and> bit mode (n - cls)"
    then show "bit (st_mode st) n" by (auto dest: spec [of _ "n - cls"])
  qed
  finally show ?thesis .
qed

section \<open>Properties\<close>

text \<open>A small system: process 0 runs as user 1000, process 1 is asleep and about to be killed.\<close>

definition sample_sys :: "ksys \<Rightarrow> ksys" where
  "sample_sys k = k\<lparr>
     ks_procs := (\<lambda>i. (ks_procs k i)\<lparr>p_state := (if i = 0 then RUNNING else if i = 1 then SLEEPING else UNUSED),
        p_pid := (if i < 2 then int i + 1 else 0), p_pgid := 1, p_euid := 1000, p_ruid := 1000,
        p_current_thread := (if i < 2 then Some i else None), p_thread_queue := (if i < 2 then [i] else []),
        p_killed := (if i = 1 then SIGKILL else 0), p_parent := (if i = 1 then Some 0 else None)\<rparr>),
     ks_threads := (\<lambda>t. (ks_threads k t)\<lparr>kt_tid := int t + 1, kt_sig_set := 0, kt_sig_pending := 0,
        kt_sigaction := (\<lambda>_. \<lparr>sa_handler = 0, sa_mask = 0, sa_flags = 0\<rparr>)\<rparr>),
     ks_initproc := 2\<rparr>"

lemma sample_sys_simps [simp]:
  "p_state (ks_procs (sample_sys k) i) = (if i = 0 then RUNNING else if i = 1 then SLEEPING else UNUSED)"
  "p_pid (ks_procs (sample_sys k) i) = (if i < 2 then int i + 1 else 0)"
  "p_killed (ks_procs (sample_sys k) i) = (if i = 1 then SIGKILL else 0)"
  "p_parent (ks_procs (sample_sys k) i) = (if i = 1 then Some 0 else None)"
  "p_current_thread (ks_procs (sample_sys k) i) = (if i < 2 then Some i else None)"
  "kt_sigaction (ks_threads (sample_sys k) t) = (\<lambda>_. \<lparr>sa_handler = 0, sa_mask = 0, sa_flags = 0\<rparr>)"
  "may_signal (ks_procs (sample_sys k) i) (ks_procs (sample_sys k) j)" "ks_initproc (sample_sys k) = 2"
  by (simp_all add: sample_sys_def may_signal_def)

lemma sample_table_ok: "table_ok (sample_sys k)"
  by (auto simp: table_ok_def)

text \<open>
  C13: \<^verbatim>\<open>sys_kill\<close> with process number 0, or below -1, signals a process group, that of the caller or the one of the negated
  number. In a table where every process in use has a current thread and a number of its own: a signal number
  outside 0 to 63 gives \<^verbatim>\<open>-EINVAL\<close> and the least integer \<^verbatim>\<open>-ESRCH\<close>, and nothing changes; otherwise the call returns 0,
  a signal that is not 0 becomes pending in the current thread of every process of the group that the caller may signal,
  no thread loses a pending signal, and no other thread is changed.
\<close>
theorem sys_kill_group_delivers:
  assumes "table_ok k" "pid = 0 \<or> pid < -1" and g: "g = (if pid = 0 then p_pgid (ks_procs k me) else - pid)"
  shows "if sig < 0 \<or> sig \<ge> 64 then sys_kill me pid sig k = Some (- EINVAL, k)
    else if pid \<le> INT_MIN then sys_kill me pid sig k = Some (- ESRCH, k)
    else \<exists>k'. sys_kill me pid sig k = Some (0, k') \<and> signalled k k' \<and>
      (\<forall>i < NPROC. p_pgid (ks_procs k i) = g \<and> p_state (ks_procs k i) \<noteq> UNUSED \<and>
         may_signal (ks_procs k me) (ks_procs k i) \<and> 0 < sig \<longrightarrow>
         bit (kt_sig_pending (ks_threads k' (the (p_current_thread (ks_procs k i))))) (nat (sig - 1))) \<and>
      (\<forall>u. ks_threads k' u \<noteq> ks_threads k u \<longrightarrow>
         (\<exists>i < NPROC. p_pgid (ks_procs k i) = g \<and> p_state (ks_procs k i) \<noteq> UNUSED \<and> may_signal (ks_procs k me) (ks_procs k i) \<and>
            p_current_thread (ks_procs k i) = Some u))"
proof (cases "sig < 0 \<or> sig \<ge> 64 \<or> pid \<le> INT_MIN")
  case True
  then show ?thesis using assms(2) by (auto simp: sys_kill_def)
next
  case False
  obtain k' where k': "kill_group me g sig [0..<NPROC] k = Some k'" "signalled k k'"
      "\<forall>i \<in> set [0..<NPROC]. p_pgid (ks_procs k i) = g \<and> p_state (ks_procs k i) \<noteq> UNUSED \<and>
       may_signal (ks_procs k me) (ks_procs k i) \<and> 0 < sig \<longrightarrow>
       bit (kt_sig_pending (ks_threads k' (the (p_current_thread (ks_procs k i))))) (nat (sig - 1))"
    using kill_group_signals [of k sig "[0..<NPROC]" me g] assms(1) False by fastforce
  have "sys_kill me pid sig k = Some (0, k')" using assms(2) g k'(1) False by (auto simp: sys_kill_def)
  moreover have "\<exists>i < NPROC. p_pgid (ks_procs k i) = g \<and> p_state (ks_procs k i) \<noteq> UNUSED \<and> may_signal (ks_procs k me) (ks_procs k i) \<and>
            p_current_thread (ks_procs k i) = Some u" if "ks_threads k' u \<noteq> ks_threads k u" for u
    by (rule kill_group_frame [OF assms(1) _ _ _ k'(1) that]) (use False in auto)
  ultimately show ?thesis using k'(2,3) False by auto
qed

text \<open>
  A fatal signal stays fatal: once the \<^verbatim>\<open>killed\<close> flag of a process is set by a signal other than
  \<^verbatim>\<open>SIGSTOP\<close>, \<^verbatim>\<open>kill\<close> with any signal but 0 leaves it set, whatever the target.
\<close>
theorem kill_keeps_killed:
  assumes "kill me pid sig k = Some (r, k')" "sig \<noteq> 0"
    and "p_killed (ks_procs k j) \<noteq> 0" "p_killed (ks_procs k j) \<noteq> SIGSTOP"
  shows "p_killed (ks_procs k' j) \<noteq> 0"
proof (cases "ks_procs k' j = ks_procs k j")
  case False
  then obtain i k1 q where "j = i" "mark_killed True k1 sig (ks_procs k i) = Some q" "ks_procs k' i = rouse q"
    using assms(1) by (auto simp: kill_def Let_def split: option.splits if_splits)
  then show ?thesis using mark_killed_stays assms(2-4) by metis
qed (simp add: assms(3))

text \<open>
  C34: The null signal, which is only to probe whether a process can be signalled, cancels a pending
  kill: \<^verbatim>\<open>sys_kill(pid, 0)\<close> resets the \<^verbatim>\<open>killed\<close> flag of a process that the caller may signal and whose entry 0 of the
  handler table has not been set (\<^verbatim>\<open>set_sigaction\<close> never sets it), and makes the process runnable if it sleeps.
\<close>
theorem sys_kill_null_signal_revives:
  assumes "table_ok k" "i < NPROC" "p_state (ks_procs k i) \<noteq> UNUSED" "0 < p_pid (ks_procs k i)"
    and "may_signal (ks_procs k me) (ks_procs k i)" "p_current_thread (ks_procs k i) = Some t"
    and "sa_handler (kt_sigaction (ks_threads k t) 0) = SIG_DFL" "0 < p_killed (ks_procs k i)"
  shows "\<exists>k'. sys_kill me (p_pid (ks_procs k i)) 0 k = Some (0, k') \<and> p_killed (ks_procs k' i) = 0 \<and>
    p_state (ks_procs k' i) = (if p_state (ks_procs k i) = SLEEPING then RUNNABLE else p_state (ks_procs k i))"
proof -
  have "kill me (p_pid (ks_procs k i)) 0 k =
      Some (0, upd_proc i (\<lambda>_. rouse ((ks_procs k i)\<lparr>p_killed := 0\<rparr>)) k)"
    using find_proc [OF assms(1-3)] assms by (simp add: kill_def mark_killed_def)
  then show ?thesis using assms(4) by (simp add: sys_kill_def rouse_def)
qed

text \<open>
  \<^verbatim>\<open>reparent\<close> moves exactly the children of the exiting process to the init process, and when it
  moves one, the init process is not left asleep waiting for its children.
\<close>
theorem reparent_moves_children:
  assumes "p \<noteq> ks_initproc k"
  shows "(\<forall>c < NPROC. p_parent (ks_procs (reparent me p k) c) =
      (if p_parent (ks_procs k c) = Some p then Some (ks_initproc k) else p_parent (ks_procs k c))) \<and>
    ((\<exists>c < NPROC. p_parent (ks_procs k c) = Some p) \<and> ks_initproc k < NPROC \<and> ks_initproc k \<noteq> me \<longrightarrow>
      \<not> asleep_on (reparent me p k) (ks_initproc k) (ChanProc (ks_initproc k)))"
  using reparent_fold(2) [OF assms] reparent_asleep [OF assms] by (auto simp: reparent_def)

text \<open>
  C32: Permission checks: \<^verbatim>\<open>check_file_access\<close> grants whatever the POSIX rule grants, and the two agree on
  every file whose mode gives the group no right the owner lacks and others no right the group lacks.
\<close>
theorem check_file_access_posix:
  "(posix_access p st mode \<longrightarrow> check_file_access p st mode) \<and>
   ((\<forall>b < 3. (bit (st_mode st) b \<longrightarrow> bit (st_mode st) (3 + b)) \<and> (bit (st_mode st) (3 + b) \<longrightarrow> bit (st_mode st) (6 + b))) \<longrightarrow>
    check_file_access p st mode = posix_access p st mode)"
proof -
  note g = class_grants_bits [of 0] class_grants_bits [of 3] class_grants_bits [of 6]
  have m: "(class_grants 0 st mode \<longrightarrow> class_grants 3 st mode) \<and> (class_grants 3 st mode \<longrightarrow> class_grants 6 st mode)"
    if "\<forall>b < 3. (bit (st_mode st) b \<longrightarrow> bit (st_mode st) (3 + b)) \<and> (bit (st_mode st) (3 + b) \<longrightarrow> bit (st_mode st) (6 + b))"
    using that by (simp add: g)
  have 1: "posix_access p st mode \<Longrightarrow> check_file_access p st mode"
    by (auto simp: posix_access_def check_file_access_def in_group_def split: if_splits)
  have 2: "check_file_access p st mode \<Longrightarrow> posix_access p st mode"
    if "class_grants 0 st mode \<longrightarrow> class_grants 3 st mode" "class_grants 3 st mode \<longrightarrow> class_grants 6 st mode"
    using that unfolding posix_access_def check_file_access_def in_group_def by metis
  show ?thesis
    by (intro conjI impI iffI) (use 1 in simp, use 2 m in simp, use 1 in simp)
qed

text \<open>An owner without any permission on the file gets in through the permissions of others.\<close>

lemma check_file_access_owner_denied:
  "p_euid p = 1000 \<Longrightarrow> p_egid p \<noteq> 7 \<Longrightarrow>
   check_file_access p \<lparr>st_mode = 7, st_uid = 1000, st_gid = 7\<rparr> R_OK \<and>
   \<not> posix_access p \<lparr>st_mode = 7, st_uid = 1000, st_gid = 7\<rparr> R_OK"
  by (simp add: check_file_access_def posix_access_def class_grants_def class_perms_def)

theorem sys_kill_group_delivers_witness:
  "\<exists>k k'. kt_sig_pending (ks_threads k 1) = 0 \<and> sys_kill 0 0 15 k = Some (0, k') \<and> bit (kt_sig_pending (ks_threads k' 1)) 14"
proof -
  let ?k = "sample_sys undefined"
  have g: "p_pgid (ks_procs ?k i) = 1" "kt_sig_pending (ks_threads ?k 1) = 0" for i by (simp_all add: sample_sys_def)
  then obtain k' where k': "sys_kill 0 0 15 ?k = Some (0, k')"
    "\<forall>i < NPROC. p_pgid (ks_procs ?k i) = 1 \<and> p_state (ks_procs ?k i) \<noteq> UNUSED \<and> may_signal (ks_procs ?k 0) (ks_procs ?k i) \<longrightarrow>
       bit (kt_sig_pending (ks_threads k' (the (p_current_thread (ks_procs ?k i))))) 14"
    using sys_kill_group_delivers [OF sample_table_ok, of 0 1 undefined 0 15] by auto
  have "bit (kt_sig_pending (ks_threads k' 1)) 14" using k'(2) [rule_format, of 1] g by simp
  then show ?thesis using k'(1) g(2) by blast
qed

theorem kill_keeps_killed_witness:
  "\<exists>k r k'. kill 0 2 15 k = Some (r, k') \<and> p_killed (ks_procs k 1) = SIGKILL \<and> p_killed (ks_procs k' 1) \<noteq> 0"
proof -
  let ?k = "sample_sys undefined"
  have p: "1 < NPROC" "p_state (ks_procs ?k 1) \<noteq> UNUSED" "p_pid (ks_procs ?k 1) = 2" "p_killed (ks_procs ?k 1) = SIGKILL"
    and t: "p_current_thread (ks_procs ?k 1) = Some 1"
    by simp_all
  obtain r k' where "kill 0 2 15 ?k = Some (r, k')"
    using kill_process [OF sample_table_ok p(1,2) _ _ t, of 15 0] p(3) by auto
  moreover have "p_killed (ks_procs k' 1) \<noteq> 0"
    by (rule kill_keeps_killed [OF calculation]) (simp_all add: p)
  ultimately show ?thesis using p(4) by blast
qed

theorem sys_kill_null_signal_revives_witness:
  "\<exists>k k'. p_killed (ks_procs k 1) = SIGKILL \<and> p_state (ks_procs k 1) = SLEEPING \<and> sys_kill 0 2 0 k = Some (0, k') \<and>
     p_killed (ks_procs k' 1) = 0 \<and> p_state (ks_procs k' 1) = RUNNABLE"
proof -
  have "\<exists>k'. sys_kill 0 (p_pid (ks_procs (sample_sys undefined) 1)) 0 (sample_sys undefined) = Some (0, k') \<and>
      p_killed (ks_procs k' 1) = 0 \<and>
      p_state (ks_procs k' 1) = (if p_state (ks_procs (sample_sys undefined) 1) = SLEEPING then RUNNABLE else p_state (ks_procs (sample_sys undefined) 1))"
    by (rule sys_kill_null_signal_revives [OF sample_table_ok, where t = 1]) simp_all
  note e = this
  show ?thesis by (rule exI [of _ "sample_sys undefined"]) (use e in simp)
qed

theorem reparent_moves_children_witness:
  "\<exists>k. p_parent (ks_procs k 1) = Some 0 \<and> p_parent (ks_procs (reparent 0 0 k) 1) = Some 2"
  using reparent_moves_children [of 0 "sample_sys undefined" 0]
  by (intro exI [of _ "sample_sys undefined"]) auto

theorem check_file_access_posix_witness:
  "\<exists>p. p_euid p = 1000 \<and> p_egid p \<noteq> 7 \<and> p_ngroups p = 0 \<and>
    check_file_access p \<lparr>st_mode = 0x1A4, st_uid = 5, st_gid = 7\<rparr> R_OK =
    posix_access p \<lparr>st_mode = 0x1A4, st_uid = 5, st_gid = 7\<rparr> R_OK"
  using check_file_access_posix [of "undefined\<lparr>p_euid := 1000, p_egid := 8, p_ngroups := 0\<rparr>"
      "\<lparr>st_mode = 0x1A4, st_uid = 5, st_gid = 7\<rparr>" R_OK]
  by (intro exI [of _ "undefined\<lparr>p_euid := 1000, p_egid := 8, p_ngroups := 0\<rparr>"])
    (simp add: numeral_3_eq_3 less_Suc_eq)

end
