(* ===== verification/Signal.thy ===== *)
theory Signal
  imports Proc Vmem_Ops
begin

text \<open>
  Signals (\<^verbatim>\<open>kernel/signal.c\<close>, the cancellation points of \<^verbatim>\<open>kernel/thread.c\<close> and \<^verbatim>\<open>sys_sigreturn\<close> of
  \<^verbatim>\<open>kernel/syscall.c\<close>): masks, handlers, the choice of the next signal, its default action, the call of
  a user handler on the way back to user mode and the return from it. The trap frame argument of the
  code is always the one of the process, \<^verbatim>\<open>p->trapframe\<close>. \<open>None\<close> is a panic or an access through a null
  pointer. \<^verbatim>\<open>thread_exit\<close> does not return, so a call of it is an outcome of its own.
\<close>

unbundle bit_operations_syntax

section \<open>Masks and handlers\<close>

abbreviation (input) SIG_BLOCK :: int where "SIG_BLOCK \<equiv> 0"
abbreviation (input) SIG_UNBLOCK :: int where "SIG_UNBLOCK \<equiv> 1"
abbreviation (input) SIG_SETMASK :: int where "SIG_SETMASK \<equiv> 2"
abbreviation (input) SIGTERM :: int where "SIGTERM \<equiv> 15"
abbreviation (input) SIGSTKFLT :: int where "SIGSTKFLT \<equiv> 16"

text \<open>The result holds what the loop last stored in \<^verbatim>\<open>*oldact\<close>: the old action of the last thread.\<close>

definition set_sigaction :: "nat \<Rightarrow> int \<Rightarrow> sigaction option \<Rightarrow> ksys \<Rightarrow> int \<times> sigaction option \<times> ksys" where
  "set_sigaction me signum act k =
     (if p_current_thread (ks_procs k me) = None then (-1, None, k)
      else if signum \<le> 0 \<or> signum > SIGRTMAX then (-1, None, k)
      else if signum = SIGKILL \<or> signum = SIGSTOP then (-1, None, k)
      else
        let (old, k') = fold (\<lambda>t (old, k).
               (Some (kt_sigaction (ks_threads k t) signum),
                case act of None \<Rightarrow> k
                | Some a \<Rightarrow> upd_thread t (\<lambda>th. th\<lparr>kt_sigaction := (kt_sigaction th)(signum := a)\<rparr>) k))
             (p_thread_queue (ks_procs k me)) (None, k)
        in (0, old, k'))"

definition fix_mask :: "sigset \<Rightarrow> sigset" where
  "fix_mask s1 =
     (let s2 = s1 OR (push_bit (nat (SIGKILL - 1)) 1 OR push_bit (nat (SIGSTOP - 1)) 1)
      in s2 AND NOT (push_bit (nat SIGTERM) 1))"

text \<open>\<open>sset\<close> is \<open>None\<close> for a null pointer, which the switch dereferences. The result holds \<^verbatim>\<open>*oldset\<close>.\<close>

definition sigprocmask :: "nat \<Rightarrow> int \<Rightarrow> sigset option \<Rightarrow> ksys \<Rightarrow> (int \<times> sigset option \<times> ksys) option" where
  "sigprocmask me how sset k =
     (case p_current_thread (ks_procs k me) of
        None \<Rightarrow> Some (-1, None, k)
      | Some t \<Rightarrow>
          let old = kt_sig_set (ks_threads k t)
          in if how \<noteq> SIG_BLOCK \<and> how \<noteq> SIG_UNBLOCK \<and> how \<noteq> SIG_SETMASK then Some (-1, Some old, k)
             else case sset of
               None \<Rightarrow> None
             | Some m \<Rightarrow>
                 let s1 = (if how = SIG_BLOCK then old OR m
                           else if how = SIG_UNBLOCK then old AND NOT m
                           else m)
                 in Some (0, Some old, upd_thread t (\<lambda>th. th\<lparr>kt_sig_set := fix_mask s1\<rparr>) k))"

section \<open>The next signal\<close>

text \<open>
  The loop over the signal numbers; \<open>pending\<close> is the local variable, the pending signals that are not
  blocked when it was last computed.
\<close>

fun pending_scan :: "(int \<Rightarrow> sigaction) \<Rightarrow> sigset \<Rightarrow> sigset \<Rightarrow> sigset \<Rightarrow> int list \<Rightarrow> int \<times> sigset" where
  "pending_scan act blocked pend pending [] = (0, pend)"
| "pending_scan act blocked pend pending (sig # sigs) =
     (if pending AND sig_bit sig \<noteq> 0 then
        if sa_handler (act sig) = SIG_IGN then
          let pend' = pend AND NOT (sig_bit sig); pending' = pend' AND NOT blocked
          in if pending' = 0 then (0, pend') else pending_scan act blocked pend' pending' sigs
        else (sig, pend)
      else pending_scan act blocked pend pending sigs)"

definition check_pending_signals :: "nat \<Rightarrow> ksys \<Rightarrow> int \<times> ksys" where
  "check_pending_signals i k =
     (case p_current_thread (ks_procs k i) of
        None \<Rightarrow> (0, k)
      | Some t \<Rightarrow>
          if p_state (ks_procs k i) = ZOMBIE then (0, k)
          else
            let th = ks_threads k t; pending = kt_sig_pending th AND NOT (kt_sig_set th)
            in if pending = 0 then (0, k)
               else
                 let (sig, pend) = pending_scan (kt_sigaction th) (kt_sig_set th) (kt_sig_pending th) pending [1..SIGRTMAX]
                 in (sig, upd_thread t (\<lambda>th. th\<lparr>kt_sig_pending := pend\<rparr>) k))"

section \<open>Cancellation\<close>

text \<open>The thread argument is \<open>None\<close> for a null pointer.\<close>

definition thread_set_cancel_state :: "nat option \<Rightarrow> int \<Rightarrow> ksys \<Rightarrow> int \<times> ksys" where
  "thread_set_cancel_state t state k =
     (case t of None \<Rightarrow> (-1, k)
      | Some t \<Rightarrow> (kt_cancel_state (ks_threads k t), upd_thread t (\<lambda>th. th\<lparr>kt_cancel_state := state\<rparr>) k))"

definition thread_set_cancel_type :: "nat option \<Rightarrow> int \<Rightarrow> ksys \<Rightarrow> int \<times> ksys" where
  "thread_set_cancel_type t type k =
     (case t of None \<Rightarrow> (-1, k)
      | Some t \<Rightarrow> (kt_cancel_type (ks_threads k t), upd_thread t (\<lambda>th. th\<lparr>kt_cancel_type := type\<rparr>) k))"

definition thread_should_cancel :: "nat option \<Rightarrow> ksys \<Rightarrow> bool" where
  "thread_should_cancel t k =
     (case t of None \<Rightarrow> False
      | Some t \<Rightarrow> kt_cancel_state (ks_threads k t) = PTHREAD_CANCEL_ENABLE \<and> kt_cancel_requested (ks_threads k t))"

definition thread_check_cancellation :: "nat option \<Rightarrow> ksys \<Rightarrow> bool \<times> ksys" where
  "thread_check_cancellation t k =
     (case t of None \<Rightarrow> (False, k)
      | Some t' \<Rightarrow>
          if thread_should_cancel t k
          then (True, upd_thread t' (\<lambda>th. th\<lparr>kt_should_exit := True, kt_exit_value := PTHREAD_CANCELED,
                                            kt_exit_status := PTHREAD_CANCELED\<rparr>) k)
          else (False, k))"

section \<open>Actions\<close>

definition clear_pending :: "nat \<Rightarrow> int \<Rightarrow> ksys \<Rightarrow> ksys" where
  "clear_pending t sig k = upd_thread t (\<lambda>th. th\<lparr>kt_sig_pending := kt_sig_pending th AND NOT (sig_bit sig)\<rparr>) k"

definition request_cancel :: "nat \<Rightarrow> ksys \<Rightarrow> ksys" where
  "request_cancel t k =
     (let k1 = upd_thread t (\<lambda>th. th\<lparr>kt_cancel_requested := True\<rparr>) k;
          a = kt_join_futex_addr (ks_threads k1 t);
          k2 = (if a \<noteq> 0 then k1\<lparr>ks_futex := snd (futex_wake (ks_futex k1) a INT_MAX)\<rparr> else k1)
      in upd_thread t (\<lambda>th. th\<lparr>kt_should_exit := True, kt_exit_value := PTHREAD_CANCELED\<rparr>) k2)"

definition default_action :: "nat \<Rightarrow> int \<Rightarrow> ksys \<Rightarrow> ksys" where
  "default_action i sig k =
     (if sig = SIGSTOP then upd_proc i (\<lambda>p. p\<lparr>p_stopped := True, p_stop_signal := sig\<rparr>) k
      else if sig = SIGCONT then
        (if p_stopped (ks_procs k i)
         then upd_proc i (\<lambda>p. p\<lparr>p_stopped := False, p_stop_signal := 0, p_continued := True\<rparr>) k else k)
      else if sig \<noteq> SIGCHLD then upd_proc i (\<lambda>p. p\<lparr>p_killed := sig\<rparr>) k
      else k)"

text \<open>Every path ends by clearing the pending bit; a user handler is left to the caller.\<close>

definition handle_signal :: "nat \<Rightarrow> int \<Rightarrow> ksys \<Rightarrow> int \<times> ksys" where
  "handle_signal i sig k =
     (case p_current_thread (ks_procs k i) of
        None \<Rightarrow> (-1, k)
      | Some t \<Rightarrow>
          if p_state (ks_procs k i) = ZOMBIE then (0, clear_pending t sig k)
          else if sig \<le> 0 \<or> sig > SIGRTMAX then (-1, k)
          else if sig = SIGCANCEL \<or> sig = SIGCANCEL + 1 then
            (0, clear_pending t sig
                  (if kt_cancel_state (ks_threads k t) = PTHREAD_CANCEL_ENABLE then request_cancel t k else k))
          else
            let h = sa_handler (kt_sigaction (ks_threads k t) sig)
            in if h = SIG_IGN then (0, clear_pending t sig k)
               else if h = SIG_DFL then (0, clear_pending t sig (default_action i sig k))
               else (0, clear_pending t sig k))"

section \<open>Calling a handler\<close>

abbreviation (input) SIGTRAMPOLINE :: addr where "SIGTRAMPOLINE \<equiv> MAXVA - 0x10000000"
abbreviation (input) SA_NODEFER :: "32 word" where "SA_NODEFER \<equiv> 0x08000000"
abbreviation (input) SA_ONSTACK :: "32 word" where "SA_ONSTACK \<equiv> 0x08000000"
abbreviation (input) SIZEOF_SIGINFO :: nat where "SIZEOF_SIGINFO \<equiv> 72"
abbreviation (input) SIZEOF_UCONTEXT :: nat where "SIZEOF_UCONTEXT \<equiv> 176"
abbreviation (input) SIZEOF_TRAPFRAME :: nat where "SIZEOF_TRAPFRAME \<equiv> 288"

definition ALIGN_DOWN :: "addr \<Rightarrow> nat \<Rightarrow> addr" where
  "ALIGN_DOWN a align = unat (word_of_nat a AND NOT (word_of_nat align - 1) :: 64 word)"

fun is_valid_user_stack_addr :: "addr \<Rightarrow> vma list \<Rightarrow> bool" where
  "is_valid_user_stack_addr a [] = True"
| "is_valid_user_stack_addr a (v # vs) =
     (if vma_addr v \<le> a \<and> a < vma_end v then vma_perm v AND 4 \<noteq> 0 else is_valid_user_stack_addr a vs)"

definition safe_write_user_stack :: "addr \<Rightarrow> addr \<Rightarrow> nat \<Rightarrow> proc \<Rightarrow> vmem \<Rightarrow> (int \<times> vmem) option" where
  "safe_write_user_stack a data sz p v =
     (if \<not> is_valid_user_stack_addr a (p_vma p) then Some (-1, v)
      else case copyout v (p_pagetable p) a data sz of
        None \<Rightarrow> None
      | Some (r, v1) \<Rightarrow> Some (if r < 0 then -1 else 0, v1))"

definition write32 :: "mem \<Rightarrow> addr \<Rightarrow> 32 word \<Rightarrow> mem" where
  "write32 m a v = (\<lambda>b. if a \<le> b \<and> b < a + 4 then of_nat (unat v div 256 ^ (b - a)) else m b)"

text \<open>The assignments to the local \<^verbatim>\<open>info\<close> at address \<open>a\<close>, and to \<^verbatim>\<open>context\<close>; the other bytes keep their value.\<close>

definition store_siginfo :: "addr \<Rightarrow> int \<Rightarrow> int \<Rightarrow> mem \<Rightarrow> mem" where
  "store_siginfo a sig pid m =
     (let m1 = write32 m a (word_of_int sig); m2 = write32 m1 (a + 4) 0; m3 = write32 m2 (a + 8) 0;
          m4 = write32 m3 (a + 16) (word_of_int pid); m5 = write32 m4 (a + 20) 0;
          m6 = write32 m5 (a + 24) 0; m7 = write64 m6 (a + 32) 0
      in write32 m7 (a + 48) 0)"

definition store_ucontext :: "addr \<Rightarrow> addr \<Rightarrow> sigset \<Rightarrow> mem \<Rightarrow> mem" where
  "store_ucontext a sp sigs m =
     (let m1 = write64 m a 0; m2 = write64 m1 (a + 8) 0; m3 = write64 m2 (a + 16) (of_nat sp);
          m4 = write64 m3 (a + 32) 4096; m5 = write32 m4 (a + 24) 0; m6 = write64 m5 (a + 40) sigs
      in write64 m6 (a + 168) 0)"

definition with_mem :: "(mem \<Rightarrow> mem) \<Rightarrow> vmem \<Rightarrow> vmem" where
  "with_mem f v = v\<lparr>vs_pm := (vs_pm v)\<lparr>bs_mem := f (bs_mem (vs_pm v))\<rparr>\<rparr>"

definition zero_trapframe :: trapframe where
  "zero_trapframe = \<lparr>tf_kernel_satp = 0, tf_kernel_sp = 0, tf_kernel_trap = 0, tf_epc = 0, tf_kernel_hartid = 0,
     tf_ra = 0, tf_sp = 0, tf_gp = 0, tf_tp = 0, tf_t0 = 0, tf_t1 = 0, tf_t2 = 0, tf_s0 = 0, tf_s1 = 0,
     tf_a0 = 0, tf_a1 = 0, tf_a2 = 0, tf_a3 = 0, tf_a4 = 0, tf_a5 = 0, tf_a6 = 0, tf_a7 = 0, tf_s2 = 0,
     tf_s3 = 0, tf_s4 = 0, tf_s5 = 0, tf_s6 = 0, tf_s7 = 0, tf_s8 = 0, tf_s9 = 0, tf_s10 = 0, tf_s11 = 0,
     tf_t3 = 0, tf_t4 = 0, tf_t5 = 0, tf_t6 = 0\<rparr>"

text \<open>
  Saving the interrupted context. Both allocations panic instead of returning a null pointer, so the
  fall-back to \<^verbatim>\<open>p->sig_trapframe\<close> is never taken.
\<close>

definition push_signal_frame :: "nat \<Rightarrow> nat \<Rightarrow> int \<Rightarrow> ksys \<Rightarrow> (signal_frame \<times> ksys) option" where
  "push_signal_frame i t sig k =
     (case kalloc (ks_pm k) of
        None \<Rightarrow> None
      | Some (fr, s1) \<Rightarrow>
          (case kmalloc s1 SIZEOF_TRAPFRAME of
             None \<Rightarrow> None
           | Some (tf, s2) \<Rightarrow>
               let f = \<lparr>sf_page = fr, sf_tf_page = tf,
                        sf_tf = copytrapframe zero_trapframe (p_trapframe (ks_procs k i)),
                        sf_signal_number = sig, sf_return_address = tf_ra (p_trapframe (ks_procs k i)),
                        sf_signal_mask = kt_sig_set (ks_threads k t)\<rparr>
               in Some (f, upd_thread t (\<lambda>th. th\<lparr>kt_signal_frames := f # kt_signal_frames th\<rparr>) (with_pm k s2))))"

definition upd_trapframe :: "nat \<Rightarrow> (trapframe \<Rightarrow> trapframe) \<Rightarrow> ksys \<Rightarrow> ksys" where
  "upd_trapframe i f k = upd_proc i (\<lambda>p. p\<lparr>p_trapframe := f (p_trapframe p)\<rparr>) k"

text \<open>
  The stack for a handler that takes \<^verbatim>\<open>siginfo\<close> and \<^verbatim>\<open>ucontext\<close> arguments, or for a plain one: the choice
  of the stack pointer (\<open>None\<close>: no valid stack), and the arguments. \<open>False\<close> is the early return 0.
  \<open>kinfo\<close> and \<open>kctx\<close> are the addresses of the locals \<^verbatim>\<open>info\<close> and \<^verbatim>\<open>context\<close>.
\<close>

definition handler_stack :: "nat \<Rightarrow> addr \<Rightarrow> proc \<Rightarrow> kthread \<Rightarrow> addr option" where
  "handler_stack need sp p th =
     (if is_valid_user_stack_addr sp (p_vma p) then Some sp
      else if ss_sp (kt_altstack th) \<noteq> 0 \<and> ss_size (kt_altstack th) \<ge> need
      then Some (ALIGN_DOWN (sub64 (add64 (ss_sp (kt_altstack th)) (ss_size (kt_altstack th))) need) 16)
      else None)"

definition setup_info_args :: "addr \<Rightarrow> addr \<Rightarrow> nat \<Rightarrow> nat \<Rightarrow> int \<Rightarrow> ksys \<Rightarrow> (bool \<times> ksys) option" where
  "setup_info_args kinfo kctx i t sig k =
     (let p = ks_procs k i; sp0 = tf_sp (p_trapframe p)
      in case handler_stack (SIZEOF_SIGINFO + SIZEOF_UCONTEXT) (sub64 (sub64 sp0 SIZEOF_SIGINFO) SIZEOF_UCONTEXT) p
             (ks_threads k t) of
           None \<Rightarrow> Some (False, upd_proc i (\<lambda>p. p\<lparr>p_killed := SIGSEGV\<rparr>) k)
         | Some sp \<Rightarrow>
             (case safe_write_user_stack sp kinfo SIZEOF_SIGINFO p
                     (with_mem (store_siginfo kinfo sig (p_pid p)) (ks_vm k)) of
                None \<Rightarrow> None
              | Some (r, v1) \<Rightarrow>
                  if r < 0 then Some (False, k\<lparr>ks_vm := v1\<rparr>)
                  else
                    (case safe_write_user_stack (add64 sp SIZEOF_SIGINFO) kctx SIZEOF_UCONTEXT p
                            (with_mem (store_ucontext kctx sp0 (kt_sig_set (ks_threads k t))) v1) of
                       None \<Rightarrow> None
                     | Some (r2, v2) \<Rightarrow>
                         if r2 < 0 then Some (False, k\<lparr>ks_vm := v2\<rparr>)
                         else Some (True, upd_trapframe i (\<lambda>tf. tf\<lparr>tf_a1 := sp, tf_a2 := add64 sp SIZEOF_SIGINFO,
                                tf_sp := sp\<rparr>) (k\<lparr>ks_vm := v2\<rparr>)))))"

definition setup_plain_args :: "nat \<Rightarrow> nat \<Rightarrow> ksys \<Rightarrow> bool \<times> ksys" where
  "setup_plain_args i t k =
     (let p = ks_procs k i; sp0 = tf_sp (p_trapframe p)
      in case handler_stack 128 (ALIGN_DOWN (sub64 sp0 128) 16) p (ks_threads k t) of
           None \<Rightarrow> (False, upd_proc i (\<lambda>p. p\<lparr>p_killed := SIGSEGV\<rparr>) k)
         | Some sp \<Rightarrow> (True, upd_trapframe i (\<lambda>tf. tf\<lparr>tf_a1 := 0, tf_a2 := 0, tf_sp := sp\<rparr>) k))"

datatype sig_outcome = Returns int | Exits int

text \<open>\<open>kfree\<close> of the two pages of a frame, in the order of the code.\<close>

definition free_frame :: "signal_frame \<Rightarrow> ksys \<Rightarrow> ksys option" where
  "free_frame f k =
     (case kfree (ks_pm k) (sf_tf_page f) of
        None \<Rightarrow> None
      | Some s1 \<Rightarrow> map_option (with_pm k) (kfree s1 (sf_page f)))"

text \<open>The rest of the delivery, once the stack and the arguments are set up.\<close>

definition enter_handler :: "nat \<Rightarrow> nat \<Rightarrow> int \<Rightarrow> signal_frame \<Rightarrow> ksys \<Rightarrow> (sig_outcome \<times> ksys) option" where
  "enter_handler i t sig f k =
     (let act = kt_sigaction (ks_threads k t) sig; h = sa_handler act
      in if h = 0 \<or> h < 0x1000 then Some (Returns 0, k)
         else
           let k1 = upd_trapframe i (\<lambda>tf. tf\<lparr>tf_epc := h, tf_ra := SIGTRAMPOLINE\<rparr>) k;
               alt = kt_altstack (ks_threads k1 t);
               k2 = (if sa_flags act AND SA_ONSTACK \<noteq> 0 \<and> ss_sp alt \<noteq> 0
                     then upd_trapframe i (\<lambda>tf. tf\<lparr>tf_sp := add64 (ss_sp alt) (ss_size alt)\<rparr>) k1 else k1);
               k3 = (if sa_flags act AND SA_NODEFER = 0
                     then upd_thread t (\<lambda>th. th\<lparr>kt_sig_set := kt_sig_set th OR sig_bit sig\<rparr>) k2 else k2);
               k4 = upd_thread t (\<lambda>th. th\<lparr>kt_current_signal := sig, kt_signal_interrupted := True,
                                           kt_handling_signal := sig\<rparr>) k3
           in if kt_should_exit (ks_threads k4 t)
              then map_option (Pair (Exits (kt_exit_value (ks_threads k4 t)))) (free_frame f k4)
              else Some (Returns 1, k4))"

definition deliver_signal :: "addr \<Rightarrow> addr \<Rightarrow> nat \<Rightarrow> nat \<Rightarrow> int \<Rightarrow> ksys \<Rightarrow> (sig_outcome \<times> ksys) option" where
  "deliver_signal kinfo kctx i t sig k =
     (if p_state (ks_procs k i) = ZOMBIE then Some (Returns 0, clear_pending t sig k)
      else
        case push_signal_frame i t sig k of
          None \<Rightarrow> None
        | Some (f, k1) \<Rightarrow>
            let k2 = upd_trapframe i (\<lambda>tf. tf\<lparr>tf_a0 := nat sig\<rparr>) k1
            in case (if sa_flags (kt_sigaction (ks_threads k2 t) sig) \<noteq> 0
                     then setup_info_args kinfo kctx i t sig k2
                     else Some (setup_plain_args i t k2)) of
                 None \<Rightarrow> None
               | Some (False, k3) \<Rightarrow> Some (Returns 0, k3)
               | Some (True, k3) \<Rightarrow> enter_handler i t sig f k3)"

definition check_and_handle_signals :: "addr \<Rightarrow> addr \<Rightarrow> nat \<Rightarrow> ksys \<Rightarrow> (sig_outcome \<times> ksys) option" where
  "check_and_handle_signals kinfo kctx i k =
     (case p_current_thread (ks_procs k i) of
        None \<Rightarrow> Some (Returns 0, k)
      | Some t \<Rightarrow>
          if p_state (ks_procs k i) = ZOMBIE then Some (Returns 0, k)
          else
            let (c, k1) = thread_check_cancellation (Some t) k
            in if c then Some (Exits PTHREAD_CANCELED, k1)
               else if kt_should_exit (ks_threads k1 t) then Some (Exits (kt_exit_value (ks_threads k1 t)), k1)
               else
                 let (sig, k2) = check_pending_signals i k1
                 in if sig = 0 then Some (Returns 0, k2)
                    else
                      let (r, k3) = handle_signal i sig k2
                      in if r = 0 \<and> sa_handler (kt_sigaction (ks_threads k3 t) sig) \<noteq> 0
                         then deliver_signal kinfo kctx i t sig k3
                         else Some (Returns 0, k3))"

definition setup_signal_frame :: "nat \<Rightarrow> int \<Rightarrow> ksys \<Rightarrow> (int \<times> ksys) option" where
  "setup_signal_frame i sig k =
     (case p_current_thread (ks_procs k i) of
        None \<Rightarrow> Some (-1, k)
      | Some t \<Rightarrow>
          if p_state (ks_procs k i) = ZOMBIE then Some (-1, k)
          else map_option (\<lambda>(f, k1). (0, k1)) (push_signal_frame i t sig k))"

section \<open>Returning from a handler\<close>

definition restore_signal_context :: "nat \<Rightarrow> ksys \<Rightarrow> (sig_outcome \<times> ksys) option" where
  "restore_signal_context i k =
     (case p_current_thread (ks_procs k i) of
        None \<Rightarrow> Some (Returns (-1), k)
      | Some t \<Rightarrow>
          if p_state (ks_procs k i) = ZOMBIE then Some (Returns (-1), k)
          else case kt_signal_frames (ks_threads k t) of
            [] \<Rightarrow> Some (Returns (-1), k)
          | f # fs \<Rightarrow>
              let k1 = upd_thread t (\<lambda>th. th\<lparr>kt_signal_frames := fs\<rparr>) k;
                  k2 = upd_trapframe i (\<lambda>tf. copytrapframe tf (sf_tf f)) k1;
                  k3 = upd_thread t (\<lambda>th. th\<lparr>kt_sig_set := sf_signal_mask f\<rparr>) k2
              in if kt_should_exit (ks_threads k3 t)
                 then map_option (Pair (Exits (kt_exit_value (ks_threads k3 t)))) (free_frame f k3)
                 else
                   map_option (Pair (Returns 0)) (free_frame f
                     (upd_thread t (\<lambda>th. th\<lparr>kt_current_signal := 0, kt_signal_interrupted := False,
                                            kt_handling_signal := -1\<rparr>) k3)))"

definition sys_sigreturn :: "nat \<Rightarrow> ksys \<Rightarrow> (sig_outcome \<times> ksys) option" where
  "sys_sigreturn i k =
     (case p_current_thread (ks_procs k i) of
        None \<Rightarrow> Some (Returns (-1), k)
      | Some t \<Rightarrow>
          if kt_signal_frames (ks_threads k t) = [] then Some (Returns (-1), k)
          else case restore_signal_context i k of
            None \<Rightarrow> None
          | Some (Exits v, k1) \<Rightarrow> Some (Exits v, k1)
          | Some (Returns r, k1) \<Rightarrow>
              if r < 0 then Some (Returns (-1), k1)
              else Some (Returns 0, upd_thread t (\<lambda>th. th\<lparr>kt_handling_signal := -1, kt_current_signal := 0\<rparr>) k1))"

text \<open>The system call: \<^verbatim>\<open>syscall\<close> dispatches to \<^verbatim>\<open>sys_sigreturn\<close> and stores the result in \<^verbatim>\<open>a0\<close>.\<close>

definition syscall_sigreturn :: "nat \<Rightarrow> ksys \<Rightarrow> (sig_outcome \<times> ksys) option" where
  "syscall_sigreturn i k =
     (case sys_sigreturn i k of
        None \<Rightarrow> None
      | Some (Exits v, k1) \<Rightarrow> Some (Exits v, k1)
      | Some (Returns r, k1) \<Rightarrow>
          Some (Returns r, upd_trapframe i (\<lambda>tf. tf\<lparr>tf_a0 := unat (word_of_int r :: 64 word)\<rparr>) k1))"

section \<open>The choice of the next signal\<close>

text \<open>A signal that can be taken: pending, not blocked and not ignored.\<close>

definition takeable :: "(int \<Rightarrow> sigaction) \<Rightarrow> sigset \<Rightarrow> sigset \<Rightarrow> int \<Rightarrow> bool" where
  "takeable act blocked pend s \<longleftrightarrow> 1 \<le> s \<and> s \<le> SIGRTMAX \<and> bit pend (nat (s - 1)) \<and> \<not> bit blocked (nat (s - 1)) \<and>
     sa_handler (act s) \<noteq> SIG_IGN"

definition dropped :: "(int \<Rightarrow> sigaction) \<Rightarrow> sigset \<Rightarrow> int \<Rightarrow> int \<Rightarrow> nat \<Rightarrow> bool" where
  "dropped act blocked n lim b \<longleftrightarrow> n \<le> int b + 1 \<and> int b + 1 < lim \<and> \<not> bit blocked b \<and> sa_handler (act (int b + 1)) = SIG_IGN"

abbreviation scan_limit :: "int \<Rightarrow> int" where
  "scan_limit sig \<equiv> (if sig = 0 then SIGRTMAX + 1 else sig)"

lemma and_sig_bit: "w AND sig_bit s \<noteq> 0 \<longleftrightarrow> bit w (nat (s - 1))"
  unfolding sig_bit_def by (rule and_bit_nonzero)

lemma bit_clear_sig:
  "1 \<le> s \<Longrightarrow> s \<le> 64 \<Longrightarrow> bit (w AND NOT (sig_bit s)) b \<longleftrightarrow> bit w b \<and> int b + 1 \<noteq> s" for w :: sigset
proof (cases "b < 64")
  case False
  then have "\<not> bit w b" using bit_imp_le_length [of w b] by auto
  then show ?thesis by (simp add: bit_and_iff)
qed (auto simp: bit_and_iff bit_not_iff bit_sig_bit)

lemma pending_scan_spec:
  assumes "pending_scan act blocked pend pending [n..64] = (sig, pend')" "pending = pend AND NOT blocked" "1 \<le> n" "n \<le> 65"
  shows "(sig = 0 \<or> n \<le> sig \<and> takeable act blocked pend sig) \<and>
    (\<forall>s. n \<le> s \<and> s < scan_limit sig \<longrightarrow> \<not> takeable act blocked pend s) \<and>
    (\<forall>b. bit pend' b \<longleftrightarrow> bit pend b \<and> \<not> dropped act blocked n (scan_limit sig) b)"
  using assms
proof (induction "nat (65 - n)" arbitrary: n pend pending)
  case 0
  then show ?case by (auto simp: takeable_def dropped_def)
next
  case (Suc d)
  then have n: "n \<le> 64" "1 \<le> n" by auto
  then have e: "[n..64] = n # [n + 1..64]" by (simp add: upto_rec1)
  have m: "d = nat (65 - (n + 1))" "1 \<le> n + 1" "n + 1 \<le> 65" using Suc.hyps(2) n by auto
  have pb: "bit pending b \<longleftrightarrow> bit pend b \<and> \<not> bit blocked b" for b
    using bit_imp_le_length [of pend b] by (auto simp: Suc.prems(2) bit_and_iff bit_not_iff)
  show ?case
  proof (cases "bit pend (nat (n - 1)) \<and> \<not> bit blocked (nat (n - 1))")
    case False
    have r: "pending_scan act blocked pend pending [n + 1..64] = (sig, pend')"
      using Suc.prems(1) unfolding e pending_scan.simps and_sig_bit pb if_not_P [OF False] .
    note IH = Suc.hyps(1) [OF m(1) r Suc.prems(2) m(2,3)]
    have "\<not> takeable act blocked pend n" using False by (simp add: takeable_def)
    then have 1: "\<not> takeable act blocked pend s" if "n \<le> s" "s < scan_limit sig" for s
      using IH that by (cases "s = n") auto
    have 2: "dropped act blocked n l b \<longleftrightarrow> dropped act blocked (n + 1) l b" if "bit pend b" for l b
    proof (cases "int b + 1 = n")
      case True
      then have "b = nat (n - 1)" by simp
      then show ?thesis using False that by (simp add: dropped_def)
    qed (auto simp: dropped_def)
    have 3: "sig = 0 \<or> n \<le> sig \<and> takeable act blocked pend sig" using IH by auto
    show ?thesis using 1 2 3 IH by blast
  next
    case True
    show ?thesis
    proof (cases "sa_handler (act n) = SIG_IGN")
      case False
      then show ?thesis using Suc.prems(1) True n unfolding e
        by (auto simp: and_sig_bit pb takeable_def dropped_def)
    next
      case ign: True
      let ?pend = "pend AND NOT (sig_bit n)"
      have b: "bit ?pend b \<longleftrightarrow> bit pend b \<and> int b + 1 \<noteq> n" for b using bit_clear_sig n by auto
      have t: "takeable act blocked ?pend s \<longleftrightarrow> takeable act blocked pend s" for s
        using ign by (auto simp: takeable_def b)
      have dr: "dropped act blocked n l c \<longleftrightarrow> dropped act blocked (n + 1) l c \<or> int c + 1 = n" if "n < l" "bit pend c" for l c
        using that ign True by (auto simp: dropped_def)
      show ?thesis
      proof (cases "?pend AND NOT blocked = 0")
        case z: True
        have nb: "\<not> (bit ?pend c \<and> \<not> bit blocked c)" for c
        proof -
          have "\<not> bit (?pend AND NOT blocked) c" by (simp only: z) simp
          then show ?thesis using bit_imp_le_length [of ?pend c] by (auto simp: bit_and_iff bit_not_iff)
        qed
        have "sig = 0" "pend' = ?pend" using Suc.prems(1) True ign z unfolding e by (auto simp: and_sig_bit pb)
        moreover have "\<not> takeable act blocked pend s" for s
          using nb [of "nat (s - 1)"] t [of s] by (auto simp: takeable_def)
        moreover have "bit ?pend c \<longleftrightarrow> bit pend c \<and> \<not> dropped act blocked n 65 c" for c
          using nb [of c] dr [of 65 c] n by (auto simp: b dropped_def)
        ultimately show ?thesis by simp
      next
        case False
        then have "pending_scan act blocked ?pend (?pend AND NOT blocked) [n + 1..64] = (sig, pend')"
          using Suc.prems(1) True ign unfolding e by (auto simp: and_sig_bit pb Let_def)
        note IH = Suc.hyps(1) [OF m(1) this refl m(2,3)]
        have "\<not> takeable act blocked pend n" using ign by (simp add: takeable_def)
        then have 1: "\<not> takeable act blocked pend s" if "n \<le> s" "s < scan_limit sig" for s
          using IH that unfolding t by (cases "s = n") auto
        have 2: "sig = 0 \<or> n \<le> sig \<and> takeable act blocked pend sig" using IH by (auto simp: t)
        have l: "n < scan_limit sig" using IH n by auto
        have 3: "bit pend' c \<longleftrightarrow> bit pend c \<and> \<not> dropped act blocked n (scan_limit sig) c" for c
          using IH dr [OF l, of c] by (auto simp: b)
        show ?thesis using 1 2 3 by blast
      qed
    qed
  qed
qed

lemma check_pending_unchanged:
  "check_pending_signals i k = (sig, k') \<Longrightarrow> p_current_thread (ks_procs k i) = Some t \<Longrightarrow>
   \<exists>pend. k' = upd_thread t (\<lambda>th. th\<lparr>kt_sig_pending := pend\<rparr>) k"
proof -
  have "k = upd_thread t (\<lambda>th. th\<lparr>kt_sig_pending := kt_sig_pending (ks_threads k t)\<rparr>) k"
    by (simp add: upd_thread_def)
  then show "check_pending_signals i k = (sig, k') \<Longrightarrow> p_current_thread (ks_procs k i) = Some t \<Longrightarrow> ?thesis"
    by (auto simp: check_pending_signals_def Let_def split: if_splits prod.splits)
qed

lemma check_pending_spec:
  assumes "check_pending_signals i k = (sig, k')" "p_current_thread (ks_procs k i) = Some t" "p_state (ks_procs k i) \<noteq> ZOMBIE"
  defines "th \<equiv> ks_threads k t"
  shows "(sig = 0 \<or> takeable (kt_sigaction th) (kt_sig_set th) (kt_sig_pending th) sig) \<and>
    (\<forall>s < scan_limit sig. \<not> takeable (kt_sigaction th) (kt_sig_set th) (kt_sig_pending th) s) \<and>
    (\<forall>b. bit (kt_sig_pending (ks_threads k' t)) b \<longleftrightarrow>
       bit (kt_sig_pending th) b \<and> \<not> dropped (kt_sigaction th) (kt_sig_set th) 1 (scan_limit sig) b)"
proof (cases "kt_sig_pending th AND NOT (kt_sig_set th) = 0")
  case True
  have nb: "\<not> (bit (kt_sig_pending th) c \<and> \<not> bit (kt_sig_set th) c)" for c
  proof -
    have "\<not> bit (kt_sig_pending th AND NOT (kt_sig_set th)) c" by (simp only: True) simp
    then show ?thesis using bit_imp_le_length [of "kt_sig_pending th" c] by (auto simp: bit_and_iff bit_not_iff)
  qed
  have "sig = 0" "k' = k" using assms True by (auto simp: check_pending_signals_def Let_def)
  then show ?thesis using nb by (auto simp: takeable_def dropped_def th_def)
next
  case False
  obtain pend where r: "pending_scan (kt_sigaction th) (kt_sig_set th) (kt_sig_pending th)
      (kt_sig_pending th AND NOT (kt_sig_set th)) [1..64] = (sig, pend)"
      "k' = upd_thread t (\<lambda>th. th\<lparr>kt_sig_pending := pend\<rparr>) k"
    using assms False by (auto simp: check_pending_signals_def Let_def split: prod.splits)
  have "\<not> takeable (kt_sigaction th) (kt_sig_set th) (kt_sig_pending th) s" if "s < 1" for s
    using that by (simp add: takeable_def)
  then have "\<not> takeable (kt_sigaction th) (kt_sig_set th) (kt_sig_pending th) s" if "s < scan_limit sig" for s
    using pending_scan_spec [OF r(1) refl] that by (cases "1 \<le> s") auto
  then show ?thesis using pending_scan_spec [OF r(1) refl] r(2) by auto
qed

text \<open>
  C12: The next signal. \<^verbatim>\<open>check_pending_signals\<close> returns the lowest numbered signal that is pending, not
  blocked and not ignored, and 0 exactly when there is none. Of the pending signals it discards only
  ignored ones below the one it returns; it changes nothing else in the system.
\<close>
theorem check_pending_signals_least:
  assumes "check_pending_signals i k = (sig, k')" "p_current_thread (ks_procs k i) = Some t" "p_state (ks_procs k i) \<noteq> ZOMBIE"
  defines "ok \<equiv> takeable (kt_sigaction (ks_threads k t)) (kt_sig_set (ks_threads k t)) (kt_sig_pending (ks_threads k t))"
  shows "(sig = 0 \<longleftrightarrow> (\<forall>s. \<not> ok s)) \<and> (sig \<noteq> 0 \<longrightarrow> ok sig \<and> (\<forall>s. ok s \<longrightarrow> sig \<le> s)) \<and>
    (\<exists>pend. k' = upd_thread t (\<lambda>th. th\<lparr>kt_sig_pending := pend\<rparr>) k \<and>
      (\<forall>b. bit pend b \<longleftrightarrow> bit (kt_sig_pending (ks_threads k t)) b \<and>
        \<not> dropped (kt_sigaction (ks_threads k t)) (kt_sig_set (ks_threads k t)) 1 (scan_limit sig) b))"
proof -
  note sp = check_pending_spec [OF assms(1-3), folded ok_def]
  obtain pend where k': "k' = upd_thread t (\<lambda>th. th\<lparr>kt_sig_pending := pend\<rparr>) k"
    using check_pending_unchanged [OF assms(1,2)] by blast
  have r: "ok s \<Longrightarrow> 1 \<le> s \<and> s < SIGRTMAX + 1" for s by (auto simp: ok_def takeable_def)
  have 1: "(sig = 0 \<longleftrightarrow> (\<forall>s. \<not> ok s)) \<and> (sig \<noteq> 0 \<longrightarrow> ok sig \<and> (\<forall>s. ok s \<longrightarrow> sig \<le> s))"
  proof (cases "sig = 0")
    case True
    then show ?thesis using sp r by auto
  next
    case False
    then show ?thesis using sp by (auto simp: not_less [symmetric])
  qed
  have 2: "\<forall>b. bit pend b \<longleftrightarrow> bit (kt_sig_pending (ks_threads k t)) b \<and>
        \<not> dropped (kt_sigaction (ks_threads k t)) (kt_sig_set (ks_threads k t)) 1 (scan_limit sig) b"
    using sp by (simp add: k')
  show ?thesis by (intro conjI exI [of _ pend] conjunct1 [OF 1] conjunct2 [OF 1] k' 2)
qed

lemma bit_set_clear:
  fixes m :: sigset
  assumes "i < 64" "j < 64"
  shows "bit ((m OR (push_bit i 1 OR push_bit j 1)) AND NOT (push_bit l 1)) b \<longleftrightarrow> (b = i \<or> b = j \<or> bit m b) \<and> b \<noteq> l"
  using assms bit_imp_le_length [of m b] by (auto simp: bit_simps)

lemma bit_fix_mask: "bit (fix_mask m) b \<longleftrightarrow> b = 8 \<or> b = 18 \<or> bit m b \<and> b \<noteq> 15"
proof -
  have n: "nat (SIGKILL - 1) = 8" "nat (SIGSTOP - 1) = 18" "nat SIGTERM = 15" by simp_all
  have "bit (fix_mask m) b \<longleftrightarrow> (b = 8 \<or> b = 18 \<or> bit m b) \<and> b \<noteq> 15"
    unfolding fix_mask_def Let_def n by (rule bit_set_clear) simp_all
  then show ?thesis by auto
qed

text \<open>
  What \<^verbatim>\<open>sigprocmask\<close> really does to the mask of the calling thread: it adds, removes or sets the
  given signals, but afterwards \<^verbatim>\<open>SIGKILL\<close> and \<^verbatim>\<open>SIGSTOP\<close> are always blocked and signal 16 (not
  \<^verbatim>\<open>SIGTERM\<close>, 15) never is; the old mask is returned.
\<close>
theorem sigprocmask_effect:
  assumes "p_current_thread (ks_procs k me) = Some t" "how = SIG_BLOCK \<or> how = SIG_UNBLOCK \<or> how = SIG_SETMASK"
  shows "\<exists>s'. sigprocmask me how (Some m) k =
      Some (0, Some (kt_sig_set (ks_threads k t)), upd_thread t (\<lambda>th. th\<lparr>kt_sig_set := s'\<rparr>) k) \<and>
    bit s' (nat (SIGKILL - 1)) \<and> bit s' (nat (SIGSTOP - 1)) \<and> \<not> bit s' (nat (SIGSTKFLT - 1)) \<and>
    (\<forall>b < 64. b \<noteq> nat (SIGKILL - 1) \<and> b \<noteq> nat (SIGSTOP - 1) \<and> b \<noteq> nat (SIGSTKFLT - 1) \<longrightarrow>
       (bit s' b \<longleftrightarrow>
        (if how = SIG_BLOCK then bit (kt_sig_set (ks_threads k t)) b \<or> bit m b
         else if how = SIG_UNBLOCK then bit (kt_sig_set (ks_threads k t)) b \<and> \<not> bit m b
         else bit m b)))"
  using assms by (auto simp: sigprocmask_def Let_def bit_fix_mask bit_and_iff bit_or_iff bit_not_iff)

text \<open>So a thread that has called \<^verbatim>\<open>sigprocmask\<close> is never given \<^verbatim>\<open>SIGKILL\<close>.\<close>

lemma sigprocmask_hides_SIGKILL:
  assumes "sigprocmask me how (Some m) k = Some (0, old, k1)" "p_current_thread (ks_procs k me) = Some t"
    and "p_state (ks_procs k me) \<noteq> ZOMBIE" "check_pending_signals me (post_pending t SIGKILL k1) = (sig, k2)"
  shows "sig \<noteq> SIGKILL"
proof -
  have b: "bit (kt_sig_set (ks_threads k1 t)) 8" and p: "ks_procs k1 = ks_procs k"
    using assms(1,2) by (auto simp: sigprocmask_def Let_def bit_fix_mask split: if_splits)
  show ?thesis using check_pending_spec [OF assms(4)] assms(2,3) b by (auto simp: p post_pending_def takeable_def)
qed

theorem check_pending_signals_least_witness:
  "\<exists>k. fst (check_pending_signals 0 k) = 5 \<and> kt_sig_set (ks_threads k 0) = 0"
proof -
  let ?k = "post_pending 0 5 (sample_sys undefined)"
  let ?ok = "takeable (kt_sigaction (ks_threads ?k 0)) (kt_sig_set (ks_threads ?k 0)) (kt_sig_pending (ks_threads ?k 0))"
  have f: "p_current_thread (ks_procs ?k 0) = Some 0" "p_state (ks_procs ?k 0) \<noteq> ZOMBIE" by simp_all
  have s: "kt_sig_set (ks_threads ?k 0) = 0" "kt_sig_pending (ks_threads ?k 0) = sig_bit 5"
      "kt_sigaction (ks_threads ?k 0) = (\<lambda>_. \<lparr>sa_handler = 0, sa_mask = 0, sa_flags = 0\<rparr>)"
    by (simp_all add: post_pending_def sample_sys_def)
  have ok: "?ok s \<longleftrightarrow> s = 5" for s unfolding s by (auto simp: takeable_def bit_sig_bit)
  obtain sig k' where c: "check_pending_signals 0 ?k = (sig, k')" by force
  have "(sig = 0 \<longleftrightarrow> (\<forall>s. \<not> ?ok s)) \<and> (sig \<noteq> 0 \<longrightarrow> ?ok sig \<and> (\<forall>s. ?ok s \<longrightarrow> sig \<le> s))"
    using check_pending_signals_least [OF c f] by blast
  then have "sig = 5" unfolding ok by auto
  then show ?thesis using c s(1) by (intro exI [of _ ?k]) simp
qed

theorem sigprocmask_effect_witness:
  "\<exists>k s' k'. sigprocmask 0 SIG_SETMASK (Some 0) k = Some (0, s', k') \<and> bit (kt_sig_set (ks_threads k' 0)) 8"
proof -
  let ?k = "sample_sys undefined"
  obtain s' where e: "sigprocmask 0 SIG_SETMASK (Some 0) ?k =
      Some (0, Some (kt_sig_set (ks_threads ?k 0)), upd_thread 0 (\<lambda>th. th\<lparr>kt_sig_set := s'\<rparr>) ?k)" "bit s' (nat (SIGKILL - 1))"
    using sigprocmask_effect [of ?k 0 0 SIG_SETMASK 0] by auto
  show ?thesis by (intro exI conjI, rule e(1)) (use e(2) in simp)
qed

end
