(* ===== verification/Signal_Frame.thy ===== *)
theory Signal_Frame
  imports Signal
begin

text \<open>
  Calling a user handler and returning from it: the delivery of a signal pushes one frame that holds the
  interrupted registers and the mask, on two fresh pages, and \<^verbatim>\<open>sys_sigreturn\<close> pops it. The frames of a
  thread form a stack, so nested handlers return in the opposite order.
\<close>

unbundle bit_operations_syntax

section \<open>Copying to user memory changes memory only\<close>

lemma walk_levels_pure: "walk_levels s pt va False l = Some (a, s') \<Longrightarrow> s' = s"
  by (induction l arbitrary: pt) (auto simp: Let_def split: if_splits)

lemma walkaddr_pure: "walkaddr v pt va = Some (a, v') \<Longrightarrow> v' = v"
  by (auto simp: walkaddr_def walk_def walk_internal_def Let_def dest!: walk_levels_pure
      split: if_splits option.splits)

definition mem_only :: "vmem \<Rightarrow> vmem \<Rightarrow> bool" where
  "mem_only v v' \<longleftrightarrow> (\<exists>m. v' = v\<lparr>vs_pm := (vs_pm v)\<lparr>bs_mem := m\<rparr>\<rparr>)"

lemma mem_only_refl [simp]: "mem_only v v"
  unfolding mem_only_def by (rule exI [of _ "bs_mem (vs_pm v)"]) simp

lemma mem_only_trans: "mem_only v v1 \<Longrightarrow> mem_only v1 v2 \<Longrightarrow> mem_only v v2"
  by (auto simp: mem_only_def)

lemma mem_only_move [simp]: "mem_only v (move_mem v dst src n)"
  by (auto simp: mem_only_def move_mem_def)

lemma mem_only_with [simp]: "mem_only v (with_mem f v)"
  by (auto simp: mem_only_def with_mem_def)

lemma copyout_loop_mem_only: "copyout_loop v pt dst src len = Some (r, v') \<Longrightarrow> mem_only v v'"
proof (induction v pt dst src len rule: copyout_loop.induct)
  case (1 v pt dst src len)
  show ?case
  proof (cases "0 < len")
    case False
    then show ?thesis using 1(2) by (subst (asm) copyout_loop.simps) simp
  next
    case True
    then obtain pa v1 where w: "walkaddr v pt (PGROUNDDOWN dst) = Some (pa, v1)"
      using 1(2) by (subst (asm) copyout_loop.simps) (auto split: option.splits)
    have [simp]: "v1 = v" by (rule walkaddr_pure [OF w])
    show ?thesis
    proof (cases "pa = 0")
      case pa: True
      then show ?thesis using 1(2) True w by (subst (asm) copyout_loop.simps) simp
    next
      case False
      let ?n = "min (PGSIZE - page_off dst) len"
      have "copyout_loop (move_mem v (pa + page_off dst) src ?n) pt (PGROUNDDOWN dst + PGSIZE) (src + ?n) (len - ?n) = Some (r, v')"
        using 1(2) True w False by (subst (asm) copyout_loop.simps) (simp add: Let_def)
      then have "mem_only (move_mem v (pa + page_off dst) src ?n) v'"
        using 1(1) [OF True, of "(pa, v)" pa v ?n] w False by simp
      then show ?thesis by (rule mem_only_trans [OF mem_only_move])
    qed
  qed
qed

lemma safe_write_mem_only: "safe_write_user_stack a d n p v = Some (r, v') \<Longrightarrow> mem_only v v'"
  by (auto simp: safe_write_user_stack_def copyout_def dest!: copyout_loop_mem_only split: if_splits option.splits)

section \<open>The context of a thread\<close>

text \<open>What the steps before a delivery leave alone.\<close>

definition same_context :: "nat \<Rightarrow> nat \<Rightarrow> ksys \<Rightarrow> ksys \<Rightarrow> bool" where
  "same_context i t k k' \<longleftrightarrow> p_trapframe (ks_procs k' i) = p_trapframe (ks_procs k i) \<and>
     p_state (ks_procs k' i) = p_state (ks_procs k i) \<and> p_current_thread (ks_procs k' i) = p_current_thread (ks_procs k i) \<and>
     kt_sig_set (ks_threads k' t) = kt_sig_set (ks_threads k t) \<and>
     kt_sigaction (ks_threads k' t) = kt_sigaction (ks_threads k t) \<and>
     kt_signal_frames (ks_threads k' t) = kt_signal_frames (ks_threads k t) \<and> ks_vm k' = ks_vm k"

lemma same_context_trans: "same_context i t k k1 \<Longrightarrow> same_context i t k1 k2 \<Longrightarrow> same_context i t k k2"
  by (simp add: same_context_def)

lemma check_pending_context:
  "check_pending_signals i k = (sig, k') \<Longrightarrow> p_current_thread (ks_procs k i) = Some t \<Longrightarrow> same_context i t k k'"
  using check_pending_unchanged [of i k sig k' t] by (auto simp: same_context_def)

lemma clear_pending_context [simp]: "same_context i t k (clear_pending t sig k') = same_context i t k k'"
  by (simp add: same_context_def clear_pending_def)

lemma handle_signal_context:
  "handle_signal i sig k = (r, k') \<Longrightarrow> p_current_thread (ks_procs k i) = Some t \<Longrightarrow> same_context i t k k'"
proof -
  have "same_context i t k k" by (simp add: same_context_def)
  moreover have "same_context i t k (request_cancel t k)"
    by (simp add: same_context_def request_cancel_def Let_def)
  moreover have "same_context i t k (default_action i sig k)"
    by (simp add: same_context_def default_action_def)
  ultimately show "handle_signal i sig k = (r, k') \<Longrightarrow> p_current_thread (ks_procs k i) = Some t \<Longrightarrow> ?thesis"
    by (auto simp: handle_signal_def Let_def split: if_splits)
qed

section \<open>Pushing a frame\<close>

definition pm_ok :: "ksys \<Rightarrow> bool" where
  "pm_ok k \<longleftrightarrow> buddy_wf (ks_pm k) \<and> \<not> bs_lock (ks_pm k)"

definition frame_pages :: "signal_frame \<Rightarrow> (addr \<times> nat) set" where
  "frame_pages f = {(sf_page f, 0), (sf_tf_page f, 0)}"

lemma kalloc_page:
  assumes "buddy_wf s" "\<not> bs_lock s" "0 < free_count s"
  obtains a s' where "kalloc s = Some (a, s')" "buddy_wf s'" "\<not> bs_lock s'" "(a, 0) \<notin> live_blocks s"
    "live_blocks s' = insert (a, 0) (live_blocks s)" "free_count s' = free_count s - 1"
proof -
  obtain a and s' :: buddy_system where a: "pmem_alloc_pages s 1 = Some (a, s')" "buddy_wf s'" "\<not> bs_lock s'" "0 < a" "a \<notin> frames s"
      "live_blocks s' = insert (a, 0) (live_blocks s)" "free_count s' = free_count s - 1"
    using alloc_one_frame [OF assms] by blast
  have "(a, 0) \<notin> live_blocks s"
    using a(5) by (auto simp: live_blocks_def frames_def used_pages_def is_block_def)
  then show ?thesis using that [of a s'] a by (simp add: kalloc_def)
qed

lemma push_frame_effect:
  assumes ok: "pm_ok k" and av: "2 \<le> free_count (ks_pm k)"
  obtains f k1 where "push_signal_frame i t sig k = Some (f, k1)" "pm_ok k1"
    "sf_tf f = p_trapframe (ks_procs k i)" "sf_signal_mask f = kt_sig_set (ks_threads k t)" "sf_page f \<noteq> sf_tf_page f"
    "frame_pages f \<inter> live_blocks (ks_pm k) = {}" "live_blocks (ks_pm k1) = frame_pages f \<union> live_blocks (ks_pm k)"
    "ks_procs k1 = ks_procs k"
    "ks_threads k1 = (ks_threads k)(t := (ks_threads k t)\<lparr>kt_signal_frames := f # kt_signal_frames (ks_threads k t)\<rparr>)"
proof -
  have ok': "buddy_wf (ks_pm k)" "\<not> bs_lock (ks_pm k)" "0 < free_count (ks_pm k)" using ok av by (auto simp: pm_ok_def)
  obtain a s1 where a: "kalloc (ks_pm k) = Some (a, s1)" "buddy_wf s1" "\<not> bs_lock s1" "(a, 0) \<notin> live_blocks (ks_pm k)"
      "live_blocks s1 = insert (a, 0) (live_blocks (ks_pm k))" "free_count s1 = free_count (ks_pm k) - 1"
    by (rule kalloc_page [OF ok'])
  have pos: "0 < free_count s1" using a(6) av by simp
  obtain b s2 where b: "kalloc s1 = Some (b, s2)" "buddy_wf s2" "\<not> bs_lock s2" "(b, 0) \<notin> live_blocks s1"
      "live_blocks s2 = insert (b, 0) (live_blocks s1)" "free_count s2 = free_count s1 - 1"
    by (rule kalloc_page [OF a(2,3) pos])
  define f where "f = \<lparr>sf_page = a, sf_tf_page = b, sf_tf = p_trapframe (ks_procs k i), sf_signal_number = sig,
    sf_return_address = tf_ra (p_trapframe (ks_procs k i)), sf_signal_mask = kt_sig_set (ks_threads k t)\<rparr>"
  have e: "push_signal_frame i t sig k = Some (f, upd_thread t (\<lambda>th. th\<lparr>kt_signal_frames := f # kt_signal_frames th\<rparr>) (with_pm k s2))"
    using a(1) b(1) by (simp add: push_signal_frame_def kmalloc_def f_def Let_def)
  show ?thesis
    by (rule that [OF e]) (use a b in \<open>auto simp: f_def with_pm_def pm_ok_def frame_pages_def\<close>)
qed

section \<open>Delivery\<close>

definition delivered :: "nat \<Rightarrow> nat \<Rightarrow> ksys \<Rightarrow> signal_frame \<Rightarrow> ksys \<Rightarrow> bool" where
  "delivered i t k f k' \<longleftrightarrow>
     kt_signal_frames (ks_threads k' t) = f # kt_signal_frames (ks_threads k t) \<and>
     sf_tf f = p_trapframe (ks_procs k i) \<and> sf_signal_mask f = kt_sig_set (ks_threads k t) \<and>
     sf_page f \<noteq> sf_tf_page f \<and> frame_pages f \<inter> live_blocks (ks_pm k) = {} \<and>
     live_blocks (ks_pm k') = frame_pages f \<union> live_blocks (ks_pm k) \<and> pm_ok k' \<and>
     \<not> kt_should_exit (ks_threads k' t) \<and> p_state (ks_procs k' i) = p_state (ks_procs k i) \<and>
     p_current_thread (ks_procs k' i) = p_current_thread (ks_procs k i)"

lemma mem_onlyD:
  "mem_only (ks_vm k) (ks_vm k') \<Longrightarrow> live_blocks (ks_pm k') = live_blocks (ks_pm k) \<and> pm_ok k' = pm_ok k"
  by (auto simp: mem_only_def pm_ok_def)

lemma upd_trapframe_simps [simp]:
  "ks_threads (upd_trapframe i g k) = ks_threads k" "ks_vm (upd_trapframe i g k) = ks_vm k"
  "p_trapframe (ks_procs (upd_trapframe i g k) i) = g (p_trapframe (ks_procs k i))"
  "p_state (ks_procs (upd_trapframe i g k) i) = p_state (ks_procs k i)"
  "p_current_thread (ks_procs (upd_trapframe i g k) i) = p_current_thread (ks_procs k i)"
  by (simp_all add: upd_trapframe_def)

definition args_set :: "nat \<Rightarrow> ksys \<Rightarrow> ksys \<Rightarrow> bool" where
  "args_set i k k' \<longleftrightarrow> ks_threads k' = ks_threads k \<and> mem_only (ks_vm k) (ks_vm k') \<and>
     p_state (ks_procs k' i) = p_state (ks_procs k i) \<and> p_current_thread (ks_procs k' i) = p_current_thread (ks_procs k i)"

lemma setup_plain_args_set: "setup_plain_args i t k = (True, k') \<Longrightarrow> args_set i k k'"
  by (auto simp: setup_plain_args_def args_set_def Let_def split: option.splits)

lemma setup_info_args_set:
  assumes "setup_info_args kinfo kctx i t sig k = Some (True, k')"
  shows "args_set i k k'"
proof -
  obtain sp r v1 r2 v2 where
    s: "safe_write_user_stack sp kinfo 72 (ks_procs k i) (with_mem (store_siginfo kinfo sig (p_pid (ks_procs k i))) (ks_vm k)) = Some (r, v1)"
      "safe_write_user_stack (add64 sp 72) kctx 176 (ks_procs k i)
        (with_mem (store_ucontext kctx (tf_sp (p_trapframe (ks_procs k i))) (kt_sig_set (ks_threads k t))) v1) = Some (r2, v2)"
    and k': "k' = upd_trapframe i (\<lambda>tf. tf\<lparr>tf_a1 := sp, tf_a2 := add64 sp 72, tf_sp := sp\<rparr>) (k\<lparr>ks_vm := v2\<rparr>)"
    using assms unfolding setup_info_args_def Let_def by (auto split: option.splits if_splits)
  have "mem_only (ks_vm k) v2"
    using mem_only_trans [OF mem_only_trans [OF mem_only_with safe_write_mem_only [OF s(1)]]
        mem_only_trans [OF mem_only_with safe_write_mem_only [OF s(2)]]] .
  then show ?thesis by (simp add: k' args_set_def)
qed

lemma enter_handler_returns:
  assumes "enter_handler i t sig f k = Some (Returns 1, k')"
  shows "kt_signal_frames (ks_threads k' t) = kt_signal_frames (ks_threads k t)" "\<not> kt_should_exit (ks_threads k' t)"
    "ks_vm k' = ks_vm k" "p_state (ks_procs k' i) = p_state (ks_procs k i)"
    "p_current_thread (ks_procs k' i) = p_current_thread (ks_procs k i)"
  using assms by (auto simp: enter_handler_def Let_def split: if_splits)

lemma deliver_signal_delivered:
  assumes d: "deliver_signal kinfo kctx i t sig k = Some (Returns 1, k')" and ok: "pm_ok k" and av: "2 \<le> free_count (ks_pm k)"
  shows "\<exists>f. delivered i t k f k'"
proof -
  obtain f k1 where p: "push_signal_frame i t sig k = Some (f, k1)" "pm_ok k1"
    "sf_tf f = p_trapframe (ks_procs k i)" "sf_signal_mask f = kt_sig_set (ks_threads k t)" "sf_page f \<noteq> sf_tf_page f"
    "frame_pages f \<inter> live_blocks (ks_pm k) = {}" "live_blocks (ks_pm k1) = frame_pages f \<union> live_blocks (ks_pm k)"
    "ks_procs k1 = ks_procs k"
    "ks_threads k1 = (ks_threads k)(t := (ks_threads k t)\<lparr>kt_signal_frames := f # kt_signal_frames (ks_threads k t)\<rparr>)"
    by (rule push_frame_effect [OF ok av])
  let ?k = "upd_trapframe i (\<lambda>tf. tf\<lparr>tf_a0 := nat sig\<rparr>) k1"
  obtain k2 where a: "args_set i ?k k2" and e: "enter_handler i t sig f k2 = Some (Returns 1, k')"
    using d p(1) unfolding deliver_signal_def Let_def
    by (auto dest!: setup_plain_args_set setup_info_args_set split: if_splits option.splits bool.splits prod.splits)
  have m: "live_blocks (ks_pm k2) = live_blocks (ks_pm k1)" "pm_ok k2"
    using mem_onlyD [of ?k k2] a p(2) by (auto simp: args_set_def pm_ok_def)
  note r = enter_handler_returns [OF e]
  have "pm_ok k'" using m(2) r(3) by (simp add: pm_ok_def)
  then show ?thesis using a m(1) r p by (intro exI [of _ f]) (simp add: delivered_def args_set_def)
qed

lemma check_and_handle_delivered:
  assumes c: "check_and_handle_signals kinfo kctx i k = Some (Returns 1, k')" and t: "p_current_thread (ks_procs k i) = Some t"
    and ok: "pm_ok k" and av: "2 \<le> free_count (ks_pm k)"
  shows "p_state (ks_procs k i) \<noteq> ZOMBIE \<and> (\<exists>f. delivered i t k f k')"
proof -
  have z: "p_state (ks_procs k i) \<noteq> ZOMBIE" and cc: "thread_check_cancellation (Some t) k = (False, k)"
    using c t by (auto simp: check_and_handle_signals_def thread_check_cancellation_def split: if_splits)
  obtain sig k2 where p: "check_pending_signals i k = (sig, k2)" by force
  obtain r k3 where h: "handle_signal i sig k2 = (r, k3)" by force
  have d: "deliver_signal kinfo kctx i t sig k3 = Some (Returns 1, k')"
    using c t z cc p h by (auto simp: check_and_handle_signals_def Let_def split: if_splits)
  have 1: "same_context i t k k2" by (rule check_pending_context [OF p t])
  then have "p_current_thread (ks_procs k2 i) = Some t" using t by (simp add: same_context_def)
  then have s: "same_context i t k k3" using handle_signal_context [OF h] same_context_trans [OF 1] by blast
  then obtain f where "delivered i t k3 f k'"
    using deliver_signal_delivered [OF d] ok av by (auto simp: same_context_def pm_ok_def)
  then have "delivered i t k f k'" using s by (simp add: delivered_def same_context_def)
  then show ?thesis using z by blast
qed

section \<open>Return\<close>

lemma kfree_page:
  assumes "buddy_wf s" "\<not> bs_lock s" "(a, 0) \<in> live_blocks s"
  shows "\<exists>s'. kfree s a = Some s' \<and> buddy_wf s' \<and> \<not> bs_lock s' \<and> live_blocks s' = live_blocks s - {(a, 0)}"
proof -
  have "a \<in> block_bytes (a, 0)" by (simp add: block_bytes_def)
  then show ?thesis using pmem_free_live [OF assms, of a 1] by (auto simp: kfree_def)
qed

lemma free_frame_effect:
  assumes "pm_ok k" "frame_pages f \<subseteq> live_blocks (ks_pm k)" "sf_page f \<noteq> sf_tf_page f"
  shows "\<exists>s'. free_frame f k = Some (with_pm k s') \<and> pm_ok (with_pm k s') \<and>
    live_blocks s' = live_blocks (ks_pm k) - frame_pages f"
proof -
  obtain s1 where s1: "kfree (ks_pm k) (sf_tf_page f) = Some s1" "buddy_wf s1" "\<not> bs_lock s1"
      "live_blocks s1 = live_blocks (ks_pm k) - {(sf_tf_page f, 0)}"
    using kfree_page [of "ks_pm k" "sf_tf_page f"] assms by (auto simp: pm_ok_def frame_pages_def)
  obtain s2 where "kfree s1 (sf_page f) = Some s2" "buddy_wf s2" "\<not> bs_lock s2"
      "live_blocks s2 = live_blocks s1 - {(sf_page f, 0)}"
    using kfree_page [OF s1(2,3), of "sf_page f"] assms s1(4) by (auto simp: frame_pages_def)
  then show ?thesis using s1 by (auto simp: free_frame_def with_pm_def pm_ok_def frame_pages_def)
qed

lemma with_pm_simps [simp]:
  "ks_procs (with_pm k s) = ks_procs k" "ks_threads (with_pm k s) = ks_threads k" "ks_pm (with_pm k s) = s"
  by (simp_all add: with_pm_def)

lemma sigreturn_effect:
  assumes t: "p_current_thread (ks_procs k i) = Some t" "p_state (ks_procs k i) \<noteq> ZOMBIE"
    and f: "kt_signal_frames (ks_threads k t) = f # fs" "\<not> kt_should_exit (ks_threads k t)"
    and pg: "pm_ok k" "frame_pages f \<subseteq> live_blocks (ks_pm k)" "sf_page f \<noteq> sf_tf_page f"
  shows "\<exists>k'. sys_sigreturn i k = Some (Returns 0, k') \<and> p_trapframe (ks_procs k' i) = sf_tf f \<and>
    kt_sig_set (ks_threads k' t) = sf_signal_mask f \<and> kt_signal_frames (ks_threads k' t) = fs \<and> pm_ok k' \<and>
    live_blocks (ks_pm k') = live_blocks (ks_pm k) - frame_pages f"
proof -
  define k1 where "k1 = upd_thread t (\<lambda>th. th\<lparr>kt_current_signal := 0, kt_signal_interrupted := False, kt_handling_signal := -1\<rparr>)
    (upd_thread t (\<lambda>th. th\<lparr>kt_sig_set := sf_signal_mask f\<rparr>)
      (upd_trapframe i (\<lambda>tf. copytrapframe tf (sf_tf f)) (upd_thread t (\<lambda>th. th\<lparr>kt_signal_frames := fs\<rparr>) k)))"
  have vm: "ks_vm k1 = ks_vm k" by (simp add: k1_def)
  obtain s' where s: "free_frame f k1 = Some (with_pm k1 s')" "pm_ok (with_pm k1 s')" "live_blocks s' = live_blocks (ks_pm k) - frame_pages f"
    using free_frame_effect [of k1 f] pg by (auto simp: vm pm_ok_def)
  have "restore_signal_context i k = Some (Returns 0, with_pm k1 s')"
    using t f s(1) by (simp add: restore_signal_context_def Let_def k1_def)
  then have "sys_sigreturn i k = Some (Returns 0, upd_thread t (\<lambda>th. th\<lparr>kt_handling_signal := -1, kt_current_signal := 0\<rparr>) (with_pm k1 s'))"
    using t f by (simp add: sys_sigreturn_def)
  moreover have "p_trapframe (ks_procs k1 i) = sf_tf f" by (simp add: k1_def)
  moreover have "kt_sig_set (ks_threads k1 t) = sf_signal_mask f" "kt_signal_frames (ks_threads k1 t) = fs"
    by (simp_all add: k1_def)
  ultimately show ?thesis using s by (simp add: pm_ok_def)
qed

section \<open>A plain handler\<close>

lemma deliver_plain_handler:
  assumes ok: "pm_ok k" "2 \<le> free_count (ks_pm k)"
    and t: "p_current_thread (ks_procs k i) = Some t" "p_state (ks_procs k i) \<noteq> ZOMBIE"
    and nc: "\<not> kt_cancel_requested (ks_threads k t)" "\<not> kt_should_exit (ks_threads k t)"
    and sig: "takeable (kt_sigaction (ks_threads k t)) (kt_sig_set (ks_threads k t)) (kt_sig_pending (ks_threads k t)) sig"
    and least: "\<forall>s < sig. \<not> takeable (kt_sigaction (ks_threads k t)) (kt_sig_set (ks_threads k t)) (kt_sig_pending (ks_threads k t)) s"
    and act: "kt_sigaction (ks_threads k t) sig = act" "0x1000 \<le> sa_handler act" "sa_flags act = 0"
    and nrt: "sig \<noteq> SIGCANCEL" "sig \<noteq> SIGCANCEL + 1"
    and sp: "sp = ALIGN_DOWN (sub64 (tf_sp (p_trapframe (ks_procs k i))) 128) 16" "is_valid_user_stack_addr sp (p_vma (ks_procs k i))"
  shows "\<exists>f k'. check_and_handle_signals kinfo kctx i k = Some (Returns 1, k') \<and> delivered i t k f k' \<and>
    p_trapframe (ks_procs k' i) = (p_trapframe (ks_procs k i))\<lparr>tf_a0 := nat sig, tf_a1 := 0, tf_a2 := 0, tf_sp := sp,
      tf_epc := sa_handler act, tf_ra := SIGTRAMPOLINE\<rparr> \<and>
    kt_sig_set (ks_threads k' t) = kt_sig_set (ks_threads k t) OR sig_bit sig \<and>
    \<not> bit (kt_sig_pending (ks_threads k' t)) (nat (sig - 1))"
proof -
  obtain s1 k2 where p: "check_pending_signals i k = (s1, k2)" by force
  have s1: "s1 = sig"
  proof -
    let ?T = "takeable (kt_sigaction (ks_threads k t)) (kt_sig_set (ks_threads k t)) (kt_sig_pending (ks_threads k t))"
    have c: "s1 = 0 \<or> ?T s1" "\<forall>s < scan_limit s1. \<not> ?T s" using check_pending_spec [OF p t] by blast+
    have "sig < SIGRTMAX + 1" using sig by (simp add: takeable_def)
    then have "s1 \<noteq> 0" using c(2) sig by auto
    then show ?thesis using c sig least by (cases s1 sig rule: linorder_cases) auto
  qed
  obtain pend where k2: "k2 = upd_thread t (\<lambda>th. th\<lparr>kt_sig_pending := pend\<rparr>) k"
    using check_pending_unchanged [OF p t(1)] by blast
  have n: "0 < sig" "sig \<le> 64" "sa_handler act \<noteq> SIG_IGN" "sa_handler act \<noteq> SIG_DFL" "\<not> sa_handler act < 0x1000"
    using sig act(2) by (auto simp: takeable_def)
  define k3 where "k3 = clear_pending t sig k2"
  have h: "handle_signal i sig k2 = (0, k3)"
    using t n nrt act(1) by (simp add: handle_signal_def k2 k3_def)
  have c3: "pm_ok k3" "2 \<le> free_count (ks_pm k3)" "ks_procs k3 = ks_procs k" "kt_sigaction (ks_threads k3 t) sig = act"
      "\<not> bit (kt_sig_pending (ks_threads k3 t)) (nat (sig - 1))" "\<not> kt_should_exit (ks_threads k3 t)"
      "kt_sig_set (ks_threads k3 t) = kt_sig_set (ks_threads k t)"
    using ok act(1) n nc by (auto simp: k3_def k2 clear_pending_def pm_ok_def bit_clear_sig)
  obtain f k4 where f: "push_signal_frame i t sig k3 = Some (f, k4)" "ks_procs k4 = ks_procs k3"
    "ks_threads k4 = (ks_threads k3)(t := (ks_threads k3 t)\<lparr>kt_signal_frames := f # kt_signal_frames (ks_threads k3 t)\<rparr>)"
    by (rule push_frame_effect [OF c3(1,2), of i t sig])
  define k5 where "k5 = upd_trapframe i (\<lambda>tf. tf\<lparr>tf_a1 := 0, tf_a2 := 0, tf_sp := sp\<rparr>) (upd_trapframe i (\<lambda>tf. tf\<lparr>tf_a0 := nat sig\<rparr>) k4)"
  have pa: "setup_plain_args i t (upd_trapframe i (\<lambda>tf. tf\<lparr>tf_a0 := nat sig\<rparr>) k4) = (True, k5)"
    using sp by (simp add: setup_plain_args_def handler_stack_def k5_def f(2) c3(3) upd_trapframe_def Let_def)
  have a5: "kt_sigaction (ks_threads k5 t) sig = act" "\<not> kt_should_exit (ks_threads k5 t)"
    using c3 by (simp_all add: k5_def f(3))
  define k' where "k' = upd_thread t (\<lambda>th. th\<lparr>kt_current_signal := sig, kt_signal_interrupted := True, kt_handling_signal := sig\<rparr>)
    (upd_thread t (\<lambda>th. th\<lparr>kt_sig_set := kt_sig_set th OR sig_bit sig\<rparr>)
      (upd_trapframe i (\<lambda>tf. tf\<lparr>tf_epc := sa_handler act, tf_ra := SIGTRAMPOLINE\<rparr>) k5))"
  have e: "enter_handler i t sig f k5 = Some (Returns 1, k')"
    using a5 n act(3) by (simp add: enter_handler_def k'_def)
  have "deliver_signal kinfo kctx i t sig k3 = Some (Returns 1, k')"
    using f(1,3) pa e t(2) act(3) c3(3,4) by (simp add: deliver_signal_def)
  then have r: "check_and_handle_signals kinfo kctx i k = Some (Returns 1, k')"
    using t nc p s1 h n c3(4) by (simp add: check_and_handle_signals_def thread_check_cancellation_def thread_should_cancel_def)
  obtain f' where "delivered i t k f' k'" using check_and_handle_delivered [OF r t(1) ok] by blast
  moreover have "p_trapframe (ks_procs k' i) = (p_trapframe (ks_procs k i))\<lparr>tf_a0 := nat sig, tf_a1 := 0, tf_a2 := 0,
      tf_sp := sp, tf_epc := sa_handler act, tf_ra := SIGTRAMPOLINE\<rparr>"
    by (simp add: k'_def k5_def f(2) c3(3))
  moreover have "kt_sig_set (ks_threads k' t) = kt_sig_set (ks_threads k t) OR sig_bit sig"
      "kt_sig_pending (ks_threads k' t) = kt_sig_pending (ks_threads k3 t)"
    by (simp_all add: k'_def k5_def f(3) c3(7))
  ultimately show ?thesis using r c3(5) by (intro exI [of _ f'] exI [of _ k']) simp
qed

section \<open>Properties\<close>

text \<open>Rounding the stack pointer down.\<close>

lemma ALIGN_DOWN_16:
  assumes "n < 2 ^ 64"
  shows "ALIGN_DOWN n 16 = 16 * (n div 16)"
proof -
  have "word_of_nat n AND NOT (15 :: 64 word) = word_of_nat n AND NOT (mask 4)" by (simp add: mask_eq_exp_minus_1)
  also have "\<dots> = push_bit 4 (drop_bit 4 (word_of_nat n))" by (rule bit_eqI) (auto simp: bit_simps)
  finally have "ALIGN_DOWN n 16 = unat (push_bit 4 (drop_bit 4 (word_of_nat n :: 64 word)))" by (simp add: ALIGN_DOWN_def)
  also have "\<dots> = take_bit 64 (push_bit 4 (drop_bit 4 n))"
    using assms by (simp add: unsigned_push_bit_eq unsigned_drop_bit_eq unat_of_nat take_bit_nat_eq_self)
  also have "\<dots> = 16 * (n div 16)" using assms by (simp add: push_bit_eq_mult drop_bit_eq_div take_bit_nat_eq_self)
  finally show ?thesis .
qed

lemma handler_sp: "128 \<le> a \<Longrightarrow> a < 2 ^ 64 \<Longrightarrow> ALIGN_DOWN (sub64 a 128) 16 = 16 * ((a - 128) div 16)"
  by (subst ALIGN_DOWN_16) (simp_all add: sub64_def mod_if)

text \<open>
  C14: Delivery of a signal to a plain handler, in a thread that is not asked to exit or cancelled, of a process that is
  no zombie. If the next signal to take is not one of the two cancellation signals 32 and 33 and has a user
  handler, at or above \<open>0x1000\<close>, without flags, the user stack has 128 bytes below the stack pointer and the new
  stack pointer lies in no area that is not writable, and two pages are free, then the return to user mode enters the handler:
  the program counter is the handler, \<^verbatim>\<open>a0\<close> the signal number, \<^verbatim>\<open>ra\<close> the signal trampoline, the stack
  pointer is the greatest multiple of 16 that is at least 128 bytes lower, the signal is blocked and no longer pending, and
  a frame with the interrupted registers and the old mask is pushed on two fresh pages.
\<close>
theorem signal_entry:
  assumes ok: "pm_ok k" "2 \<le> free_count (ks_pm k)"
    and t: "p_current_thread (ks_procs k i) = Some t" "p_state (ks_procs k i) \<noteq> ZOMBIE"
    and nc: "\<not> kt_cancel_requested (ks_threads k t)" "\<not> kt_should_exit (ks_threads k t)"
    and sig: "takeable (kt_sigaction (ks_threads k t)) (kt_sig_set (ks_threads k t)) (kt_sig_pending (ks_threads k t)) sig"
    and least: "\<forall>s < sig. \<not> takeable (kt_sigaction (ks_threads k t)) (kt_sig_set (ks_threads k t)) (kt_sig_pending (ks_threads k t)) s"
    and act: "kt_sigaction (ks_threads k t) sig = act" "0x1000 \<le> sa_handler act" "sa_flags act = 0"
    and nrt: "sig \<noteq> SIGCANCEL" "sig \<noteq> SIGCANCEL + 1"
    and tf: "p_trapframe (ks_procs k i) = tf" "128 \<le> tf_sp tf" "tf_sp tf < 2 ^ 64"
    and sp: "sp = 16 * ((tf_sp tf - 128) div 16)" "is_valid_user_stack_addr sp (p_vma (ks_procs k i))"
  shows "\<exists>f k'. check_and_handle_signals kinfo kctx i k = Some (Returns 1, k') \<and> delivered i t k f k' \<and>
    p_trapframe (ks_procs k' i) = tf\<lparr>tf_a0 := nat sig, tf_a1 := 0, tf_a2 := 0, tf_sp := sp,
      tf_epc := sa_handler act, tf_ra := SIGTRAMPOLINE\<rparr> \<and>
    kt_sig_set (ks_threads k' t) = kt_sig_set (ks_threads k t) OR sig_bit sig \<and>
    \<not> bit (kt_sig_pending (ks_threads k' t)) (nat (sig - 1))"
proof -
  have "sp = ALIGN_DOWN (sub64 (tf_sp (p_trapframe (ks_procs k i))) 128) 16" using handler_sp [OF tf(2,3)] tf(1) sp(1) by simp
  from deliver_plain_handler [OF ok t nc sig least act nrt this sp(2)] show ?thesis unfolding tf(1) .
qed

text \<open>
  C6: Round trip. Whatever the handler does to its registers and to the signal mask, returning from it
  through \<^verbatim>\<open>sys_sigreturn\<close> restores the interrupted registers, the mask and the frames below, and gives
  back exactly the two pages of the frame.
\<close>
theorem signal_round_trip:
  assumes "pm_ok k" "2 \<le> free_count (ks_pm k)" "p_current_thread (ks_procs k i) = Some t"
    and "check_and_handle_signals kinfo kctx i k = Some (Returns 1, k1)"
    and "p_current_thread (ks_procs k2 i) = Some t" "p_state (ks_procs k2 i) \<noteq> ZOMBIE" "pm_ok k2"
    and "kt_signal_frames (ks_threads k2 t) = kt_signal_frames (ks_threads k1 t)" "\<not> kt_should_exit (ks_threads k2 t)"
    and "live_blocks (ks_pm k2) = live_blocks (ks_pm k1)"
  shows "\<exists>k3. sys_sigreturn i k2 = Some (Returns 0, k3) \<and>
    p_trapframe (ks_procs k3 i) = p_trapframe (ks_procs k i) \<and>
    kt_sig_set (ks_threads k3 t) = kt_sig_set (ks_threads k t) \<and>
    kt_signal_frames (ks_threads k3 t) = kt_signal_frames (ks_threads k t) \<and>
    live_blocks (ks_pm k3) = live_blocks (ks_pm k)"
proof -
  obtain f where d: "delivered i t k f k1" using check_and_handle_delivered [OF assms(4,3,1,2)] by blast
  have l: "frame_pages f \<subseteq> live_blocks (ks_pm k2)" "live_blocks (ks_pm k2) - frame_pages f = live_blocks (ks_pm k)"
    using d assms(10) by (auto simp: delivered_def)
  have "kt_signal_frames (ks_threads k2 t) = f # kt_signal_frames (ks_threads k t)" "sf_page f \<noteq> sf_tf_page f"
    using d assms(8) by (auto simp: delivered_def)
  from sigreturn_effect [OF assms(5,6) this(1) assms(9,7) l(1) this(2)] obtain k3 where
    "sys_sigreturn i k2 = Some (Returns 0, k3)" "p_trapframe (ks_procs k3 i) = sf_tf f"
    "kt_sig_set (ks_threads k3 t) = sf_signal_mask f" "kt_signal_frames (ks_threads k3 t) = kt_signal_frames (ks_threads k t)"
    "live_blocks (ks_pm k3) = live_blocks (ks_pm k2) - frame_pages f" by blast
  then show ?thesis using d l(2) by (intro exI [of _ k3]) (simp add: delivered_def)
qed

text \<open>
  C33: The system call layer undoes part of it: after \<^verbatim>\<open>sys_sigreturn\<close> has restored the registers,
  \<^verbatim>\<open>syscall\<close> stores the result 0 in \<^verbatim>\<open>a0\<close>, so the interrupted program resumes with \<^verbatim>\<open>a0\<close> lost; if the
  signal arrived during a system call, its result is replaced by 0.
\<close>
theorem syscall_sigreturn_loses_a0:
  assumes "pm_ok k" "2 \<le> free_count (ks_pm k)" "p_current_thread (ks_procs k i) = Some t"
    and "check_and_handle_signals kinfo kctx i k = Some (Returns 1, k1)" "p_state (ks_procs k1 i) \<noteq> ZOMBIE"
  shows "\<exists>k3. syscall_sigreturn i k1 = Some (Returns 0, k3) \<and>
    p_trapframe (ks_procs k3 i) = (p_trapframe (ks_procs k i))\<lparr>tf_a0 := 0\<rparr>"
proof -
  obtain f where d: "delivered i t k f k1" using check_and_handle_delivered [OF assms(4,3,1,2)] by blast
  have "p_current_thread (ks_procs k1 i) = Some t" "kt_signal_frames (ks_threads k1 t) = f # kt_signal_frames (ks_threads k t)"
    "\<not> kt_should_exit (ks_threads k1 t)" "pm_ok k1" "frame_pages f \<subseteq> live_blocks (ks_pm k1)" "sf_page f \<noteq> sf_tf_page f"
    using d assms(3) by (auto simp: delivered_def)
  from sigreturn_effect [OF this(1) assms(5) this(2-6)] obtain k3 where
    "sys_sigreturn i k1 = Some (Returns 0, k3)" "p_trapframe (ks_procs k3 i) = sf_tf f" by blast
  then show ?thesis using d by (simp add: syscall_sigreturn_def delivered_def)
qed

text \<open>A thread with signal 10 pending and a handler for it, in a system with three free pages.\<close>

definition sample_pending :: "ksys \<Rightarrow> ksys" where
  "sample_pending k0 = (let k = sample_sys k0 in k\<lparr>
     ks_procs := (ks_procs k)(0 := (ks_procs k 0)\<lparr>p_vma := [], p_trapframe := zero_trapframe\<lparr>tf_sp := 0x10000, tf_a0 := 5\<rparr>\<rparr>),
     ks_threads := (ks_threads k)(0 := (ks_threads k 0)\<lparr>kt_sig_set := 0, kt_sig_pending := sig_bit 10,
        kt_sigaction := (\<lambda>_. \<lparr>sa_handler = 0x2000, sa_mask = 0, sa_flags = 0\<rparr>), kt_signal_frames := [],
        kt_cancel_requested := False, kt_should_exit := False\<rparr>),
     ks_vm := \<lparr>vs_pm = frag_state, vs_lock = False\<rparr>\<rparr>)"

lemma sample_pending_simps [simp]:
  "p_current_thread (ks_procs (sample_pending k) 0) = Some 0" "p_state (ks_procs (sample_pending k) 0) = RUNNING"
  "p_vma (ks_procs (sample_pending k) 0) = []"
  "p_trapframe (ks_procs (sample_pending k) 0) = zero_trapframe\<lparr>tf_sp := 0x10000, tf_a0 := 5\<rparr>"
  "kt_sig_set (ks_threads (sample_pending k) 0) = 0" "kt_sig_pending (ks_threads (sample_pending k) 0) = sig_bit 10"
  "kt_sigaction (ks_threads (sample_pending k) 0) = (\<lambda>_. \<lparr>sa_handler = 0x2000, sa_mask = 0, sa_flags = 0\<rparr>)"
  "\<not> kt_cancel_requested (ks_threads (sample_pending k) 0)" "\<not> kt_should_exit (ks_threads (sample_pending k) 0)"
  "ks_pm (sample_pending k) = frag_state"
  by (simp_all add: sample_pending_def Let_def)

lemma sample_pending_ok: "pm_ok (sample_pending k)" "2 \<le> free_count (ks_pm (sample_pending k))"
proof -
  show "pm_ok (sample_pending k)" using frag_wf by (simp add: pm_ok_def) (simp add: frag_state_def)
  show "2 \<le> free_count (ks_pm (sample_pending k))"
    using free_count_ge [of 1 frag_state] by (simp add: frag_state_def)
qed

lemma sample_takeable:
  "takeable (\<lambda>_. \<lparr>sa_handler = 0x2000, sa_mask = 0, sa_flags = 0\<rparr>) 0 (sig_bit 10) s \<longleftrightarrow> s = 10"
  by (auto simp: takeable_def bit_sig_bit)

theorem signal_entry_witness:
  "\<exists>k k'. check_and_handle_signals 0 0 0 k = Some (Returns 1, k') \<and> tf_sp (p_trapframe (ks_procs k 0)) = 0x10000 \<and>
     tf_epc (p_trapframe (ks_procs k' 0)) = 0x2000 \<and> tf_a0 (p_trapframe (ks_procs k' 0)) = 10 \<and> tf_sp (p_trapframe (ks_procs k' 0)) = 0xff80"
proof -
  let ?k = "sample_pending undefined" and ?act = "\<lparr>sa_handler = 0x2000, sa_mask = 0, sa_flags = 0\<rparr>" and ?tf = "zero_trapframe\<lparr>tf_sp := 0x10000, tf_a0 := 5\<rparr>"
  have "\<exists>f k'. check_and_handle_signals 0 0 0 ?k = Some (Returns 1, k') \<and> delivered 0 0 ?k f k' \<and>
    p_trapframe (ks_procs k' 0) = ?tf\<lparr>tf_a0 := nat 10, tf_a1 := 0, tf_a2 := 0, tf_sp := 0xff80, tf_epc := sa_handler ?act, tf_ra := SIGTRAMPOLINE\<rparr> \<and>
    kt_sig_set (ks_threads k' 0) = kt_sig_set (ks_threads ?k 0) OR sig_bit 10 \<and>
    \<not> bit (kt_sig_pending (ks_threads k' 0)) (nat (10 - 1))"
    by (rule signal_entry [OF sample_pending_ok]) (simp_all add: sample_takeable)
  then show ?thesis by (elim exE conjE) (intro exI [of _ ?k] exI conjI, assumption, simp_all)
qed

lemma sample_delivery:
  "\<exists>k1. check_and_handle_signals 0 0 0 (sample_pending k) = Some (Returns 1, k1) \<and>
     (\<exists>f. delivered 0 0 (sample_pending k) f k1)"
  using deliver_plain_handler [OF sample_pending_ok, of k 0 0 10, OF _ _ _ _ _ _ refl _ _ _ _ refl, of 0 0]
  by (auto simp: sample_takeable)

theorem signal_round_trip_witness:
  "\<exists>k k1 k3. check_and_handle_signals 0 0 0 k = Some (Returns 1, k1) \<and> sys_sigreturn 0 k1 = Some (Returns 0, k3) \<and>
     p_trapframe (ks_procs k3 0) = p_trapframe (ks_procs k 0)"
proof -
  obtain k1 f where k1: "check_and_handle_signals 0 0 0 (sample_pending undefined) = Some (Returns 1, k1)"
      "delivered 0 0 (sample_pending undefined) f k1"
    using sample_delivery by blast
  have d: "p_current_thread (ks_procs k1 0) = Some 0" "p_state (ks_procs k1 0) \<noteq> ZOMBIE" "pm_ok k1" "\<not> kt_should_exit (ks_threads k1 0)"
    using k1(2) by (auto simp: delivered_def)
  obtain k3 where k3: "sys_sigreturn 0 k1 = Some (Returns 0, k3)"
      "p_trapframe (ks_procs k3 0) = p_trapframe (ks_procs (sample_pending undefined) 0)"
    using signal_round_trip [OF sample_pending_ok _ k1(1) d(1-3) refl d(4) refl] by auto
  show ?thesis by (intro exI [of _ "sample_pending undefined"] exI [of _ k1] exI [of _ k3] conjI k1(1) k3)
qed

theorem syscall_sigreturn_loses_a0_witness:
  "\<exists>k k1 k3. check_and_handle_signals 0 0 0 k = Some (Returns 1, k1) \<and> syscall_sigreturn 0 k1 = Some (Returns 0, k3) \<and>
     tf_a0 (p_trapframe (ks_procs k 0)) = 5 \<and> tf_a0 (p_trapframe (ks_procs k3 0)) = 0"
proof -
  obtain k1 f where k1: "check_and_handle_signals 0 0 0 (sample_pending undefined) = Some (Returns 1, k1)"
      "delivered 0 0 (sample_pending undefined) f k1"
    using sample_delivery by blast
  have d: "p_state (ks_procs k1 0) \<noteq> ZOMBIE" using k1(2) by (auto simp: delivered_def)
  obtain k3 where k3: "syscall_sigreturn 0 k1 = Some (Returns 0, k3)"
      "p_trapframe (ks_procs k3 0) = (p_trapframe (ks_procs (sample_pending undefined) 0))\<lparr>tf_a0 := 0\<rparr>"
    using syscall_sigreturn_loses_a0 [OF sample_pending_ok _ k1(1) d] by auto
  show ?thesis
    by (intro exI [of _ "sample_pending undefined"] exI [of _ k1] exI [of _ k3] conjI k1(1) k3(1)) (simp_all add: k3(2))
qed

end
