(* ===== verification/Vma.thy ===== *)
theory Vma
  imports Proc Vmem_Ops
begin

text \<open>
  Memory areas (\<^verbatim>\<open>kernel/vma.c\<close>, with \<^verbatim>\<open>uvmalloc\<close>, \<^verbatim>\<open>uvmdealloc\<close>, \<^verbatim>\<open>uvm_grow\<close> of \<^verbatim>\<open>kernel/vmem.c\<close> and
  \<^verbatim>\<open>growproc\<close> of \<^verbatim>\<open>kernel/process.c\<close>): the list of areas of a process, its changes by allocation,
  release and \<^verbatim>\<open>munmap\<close>, and the page tables behind it, in the RISC-V build. \<open>None\<close> is a panic or an
  access through a pointer that does not point to a live structure.
\<close>

unbundle bit_operations_syntax

section \<open>Permissions\<close>

abbreviation USER_MMAP_START :: addr where "USER_MMAP_START \<equiv> 0x5FFFE000"
abbreviation USER_STACK_TOP :: addr where "USER_STACK_TOP \<equiv> 0x7FFFF000"
abbreviation USER_STACK_SIZE :: nat where "USER_STACK_SIZE \<equiv> 100 * PGSIZE"
abbreviation (input) PROT_NONE :: "32 word" where "PROT_NONE \<equiv> 0"
abbreviation (input) PROT_READ :: "32 word" where "PROT_READ \<equiv> 1"
abbreviation (input) PROT_WRITE :: "32 word" where "PROT_WRITE \<equiv> 2"
abbreviation (input) PROT_EXEC :: "32 word" where "PROT_EXEC \<equiv> 4"
abbreviation (input) MAP_PRIVATE :: "32 word" where "MAP_PRIVATE \<equiv> 2"
abbreviation (input) MAP_ALLOC :: "32 word" where "MAP_ALLOC \<equiv> 0xf00"

definition get_mmapperms :: "32 word \<Rightarrow> pte" where
  "get_mmapperms prot =
     (if prot = PROT_NONE then 0
      else
        let perm = PTE_U;
            perm1 = (if prot AND PROT_READ \<noteq> 0 then perm OR PTE_R else perm);
            perm2 = (if prot AND PROT_WRITE \<noteq> 0 then perm1 OR PTE_W else perm1)
        in if prot AND PROT_EXEC \<noteq> 0 then perm2 OR PTE_X else perm2)"

definition experm :: "vmem \<Rightarrow> addr \<Rightarrow> addr \<Rightarrow> pte \<Rightarrow> (addr \<times> vmem) option" where
  "experm v pt va perm =
     (if va \<ge> MAXVA then Some (0, v)
      else case walk v pt va False of
        None \<Rightarrow> None
      | Some (a, v1) \<Rightarrow>
          (if a = 0 then Some (0, v1)
           else
             let e = get64 (vs_pm v1) a
             in if e AND PTE_V = 0 then Some (0, v1)
                else if e AND PTE_U = 0 then Some (0, v1)
                else Some (PTE2PA (e OR perm), v1\<lparr>vs_pm := put64 (vs_pm v1) a (e OR perm)\<rparr>)))"

definition vm_protect :: "vmem \<Rightarrow> addr \<Rightarrow> addr \<Rightarrow> addr \<Rightarrow> pte \<Rightarrow> (int \<times> vmem) option" where
  "vm_protect v pt va a perm = map_option (\<lambda>(r, v1). (int32 r, v1)) (experm v pt va perm)"

section \<open>Allocating areas\<close>

text \<open>
  The search of \<^verbatim>\<open>alloc_vma\<close> through the list: the position to insert at, an area that contains the range
  already, or a partial overlap, which is a panic.
\<close>

datatype vma_place = Insert_at nat | Inside vma | Clash

fun place_vma :: "addr \<Rightarrow> addr \<Rightarrow> vma list \<Rightarrow> vma_place" where
  "place_vma start end [] = Insert_at 0"
| "place_vma start end (v # vs) =
     (if end \<le> vma_addr v then Insert_at 0
      else if start \<ge> vma_end v then
        (case place_vma start end vs of Insert_at n \<Rightarrow> Insert_at (Suc n) | r \<Rightarrow> r)
      else if start \<ge> vma_addr v \<and> end \<le> vma_end v then Inside v
      else Clash)"

definition insert_at :: "nat \<Rightarrow> 'a \<Rightarrow> 'a list \<Rightarrow> 'a list" where
  "insert_at n x xs = take n xs @ x # drop n xs"

definition u64 :: "int \<Rightarrow> nat" where
  "u64 i = nat (i mod 2 ^ 64)"

definition with_vm :: "ksys \<Rightarrow> vmem \<Rightarrow> ksys" where
  "with_vm k v = k\<lparr>ks_vm := v\<rparr>"

text \<open>
  The call of \<^verbatim>\<open>mappages\<close> passes \<^verbatim>\<open>end\<close> where the physical address is expected and \<^verbatim>\<open>pa\<close> where the length
  is. The fields that the function does not set are those of the zeroed page.
\<close>

definition alloc_vma ::
    "nat \<Rightarrow> segtype \<Rightarrow> addr \<Rightarrow> int \<Rightarrow> 32 word \<Rightarrow> bool \<Rightarrow> addr \<Rightarrow> ksys \<Rightarrow> (vma \<times> ksys) option" where
  "alloc_vma i type a sz perm alloc pa k =
     (let p = ks_procs k i; start = PGROUNDUP a; end = PGROUNDUP (add64 a (u64 sz))
      in if p_vma_head p = 0 then None
         else case place_vma start end (p_vma p) of
           Clash \<Rightarrow> None
         | Inside v \<Rightarrow> Some (v, k)
         | Insert_at n \<Rightarrow>
             (case pmem_alloc_pages (ks_pm k) 1 of
                None \<Rightarrow> None
              | Some (self, s) \<Rightarrow>
                  if self = 0 then None
                  else
                    let vm = (ks_vm k)\<lparr>vs_pm := s\<rparr>;
                        new = \<lparr>vma_self = self, vma_type = type, vma_perm = perm, vma_orig_prot = 0,
                               vma_addr = start, vma_size = u64 sz, vma_end = end, vma_flags = 0, vma_fd = -1,
                               vma_f_off = 0, vma_fsize = 0, vma_ref_count = 1, vma_shm_kernel = None\<rparr>;
                        finish = (\<lambda>vm'. Some (new, upd_proc i (\<lambda>p. p\<lparr>p_vma := insert_at n new (p_vma p)\<rparr>) (with_vm k vm')))
                    in if sz \<noteq> 0 \<and> alloc then
                         (case uvmalloc1 vm (p_pagetable p) start end (scast perm) of
                            None \<Rightarrow> None
                          | Some (r, vm') \<Rightarrow> if r = 0 then None else finish vm')
                       else if sz \<noteq> 0 \<and> pa \<noteq> 0 then
                         (case mappages vm (p_pagetable p) start end pa (scast perm) of
                            None \<Rightarrow> None
                          | Some (r, vm') \<Rightarrow> if r = -1 then None else finish vm')
                       else finish vm))"

definition find_mmap_vma :: "vma list \<Rightarrow> vma option" where
  "find_mmap_vma vs = find (\<lambda>v. (vma_type v = MMAP \<or> vma_type v = SHARE) \<and> vma_addr v < USER_MMAP_START) vs"

text \<open>Updating an area of the list through a pointer to it.\<close>

definition upd_vma :: "addr \<Rightarrow> (vma \<Rightarrow> vma) \<Rightarrow> vma list \<Rightarrow> vma list" where
  "upd_vma self f vs = map (\<lambda>v. if vma_self v = self then f v else v) vs"

text \<open>The address chosen for a mapping without one; the head of the list has the address 0.\<close>

definition mmap_address :: "nat \<Rightarrow> int \<Rightarrow> ksys \<Rightarrow> addr \<times> ksys" where
  "mmap_address i len k =
     (let p = ks_procs k i; heap_end = PGROUNDUP (p_sz p);
          fa = (case find_mmap_vma (p_vma p) of None \<Rightarrow> 0 | Some v \<Rightarrow> vma_addr v)
      in if u64 len < fa \<and> sub64 fa (u64 len) > heap_end then (PGROUNDDOWN (sub64 fa (u64 len)), k)
         else
           let start = ks_map_addr k; k1 = k\<lparr>ks_map_addr := PGROUNDUP (add64 (ks_map_addr k) (u64 len))\<rparr>
           in if start < heap_end
              then (heap_end, upd_proc i (\<lambda>p. p\<lparr>p_sz := PGROUNDUP (add64 (p_sz p) (u64 len))\<rparr>) k1)
              else (start, k1))"

definition alloc_mmap_vma ::
    "nat \<Rightarrow> 32 word \<Rightarrow> addr \<Rightarrow> int \<Rightarrow> 32 word \<Rightarrow> int \<Rightarrow> int \<Rightarrow> ksys \<Rightarrow> (vma \<times> ksys) option" where
  "alloc_mmap_vma i flags start len perm fd off k =
     (let (start', k1) = (if start = 0 then mmap_address i len k else (start, k));
          isalloc = (flags AND MAP_ALLOC \<noteq> 0 \<or> fd \<noteq> -1 \<and> perm \<noteq> 0) \<and> flags AND 1 = 0
      in case alloc_vma i MMAP start' len perm isalloc 0 k1 of
           None \<Rightarrow> None
         | Some (v, k2) \<Rightarrow>
             let f = (\<lambda>v. v\<lparr>vma_fd := fd, vma_f_off := u64 off, vma_orig_prot := 0\<rparr>)
             in Some (f v, upd_proc i (\<lambda>p. p\<lparr>p_vma := upd_vma (vma_self v) f (p_vma p)\<rparr>) k2))"

definition alloc_vma_stack :: "nat \<Rightarrow> ksys \<Rightarrow> (int \<times> ksys) option" where
  "alloc_vma_stack i k =
     (let p = ks_procs k i; end = USER_STACK_TOP; start = end - USER_STACK_SIZE
      in case pmem_alloc_pages (ks_pm k) 1 of
           None \<Rightarrow> None
         | Some (self, s) \<Rightarrow>
             if self = 0 then None
             else case uvmalloc1 ((ks_vm k)\<lparr>vs_pm := s\<rparr>) (p_pagetable p) start end (PTE_R OR PTE_W OR PTE_U) of
               None \<Rightarrow> None
             | Some (r, vm) \<Rightarrow>
                 if r \<noteq> 1 then None
                 else
                   let new = \<lparr>vma_self = self, vma_type = STACK, vma_perm = 2 OR 4, vma_orig_prot = 0,
                              vma_addr = start, vma_size = USER_STACK_SIZE, vma_end = end, vma_flags = 0, vma_fd = -1,
                              vma_f_off = 2 ^ 64 - 1, vma_fsize = 0, vma_ref_count = 0, vma_shm_kernel = None\<rparr>
                   in Some (0, upd_proc i (\<lambda>p. p\<lparr>p_vma := p_vma p @ [new]\<rparr>) (with_vm k vm)))"

definition vma_init :: "nat \<Rightarrow> ksys \<Rightarrow> (addr \<times> ksys) option" where
  "vma_init i k =
     (case pmem_alloc_pages (ks_pm k) 1 of
        None \<Rightarrow> None
      | Some (h0, s) \<Rightarrow>
          if h0 = 0 then None
          else
            let k1 = upd_proc i (\<lambda>p. p\<lparr>p_vma_head := h0, p_vma := []\<rparr>)
                       (with_pm k (s\<lparr>bs_mem := memset (bs_mem s) h0 0 PGSIZE\<rparr>))
            in map_option (\<lambda>(v, k2). (h0, k2)) (alloc_mmap_vma i 0 USER_MMAP_START 0 0 0 0 k1))"

definition get_proc_sp :: "vma list \<Rightarrow> addr option" where
  "get_proc_sp vs = map_option vma_end (find (\<lambda>v. vma_type v = STACK) vs)"

definition msync :: "vma list \<Rightarrow> addr \<Rightarrow> int" where
  "msync vs a = (if \<exists>v \<in> set vs. vma_addr v \<le> a \<and> a < vma_end v then 0 else -1)"

section \<open>Releasing areas\<close>

text \<open>
  The loop of \<^verbatim>\<open>free_vma\<close>. Its next area is read before the current one is split, so the parts it makes
  are not visited.
\<close>

text \<open>An area that overlaps the range in part: the new structures for what is left, then the old one is released.\<close>

definition split_area :: "addr \<Rightarrow> addr \<Rightarrow> vma \<Rightarrow> buddy_system \<Rightarrow> (vma list \<times> buddy_system) option" where
  "split_area start end v s =
     Option.bind
       (if vma_addr v < start
        then Option.bind (pmem_alloc_pages s 1) (\<lambda>(l, s1). if l = 0 then None
          else Some ([v\<lparr>vma_self := l, vma_size := start - vma_addr v, vma_end := start\<rparr>], s1))
        else Some ([], s)) (\<lambda>(left, s1).
     Option.bind
       (if vma_end v > end
        then Option.bind (pmem_alloc_pages s1 1) (\<lambda>(r, s2). if r = 0 then None
          else Some ([v\<lparr>vma_self := r, vma_addr := end, vma_size := vma_end v - end,
                        vma_f_off := add64 (vma_f_off v) (sub64 end (vma_addr v))\<rparr>], s2))
        else Some ([], s1)) (\<lambda>(right, s2).
     map_option (\<lambda>s3. (left @ right, s3)) (pmem_free_pages s2 (vma_self v) 1)))"

definition free_area :: "addr \<Rightarrow> addr \<Rightarrow> vma \<Rightarrow> buddy_system \<Rightarrow> (vma list \<times> buddy_system) option" where
  "free_area start end v s =
     (if vma_end v > start \<and> vma_addr v < end then
        (if vma_addr v \<ge> start \<and> vma_end v \<le> end
         then map_option (\<lambda>s1. ([], s1)) (pmem_free_pages s (vma_self v) 1)
         else split_area start end v s)
      else Some ([v], s))"

fun free_areas :: "addr \<Rightarrow> addr \<Rightarrow> vma list \<Rightarrow> buddy_system \<Rightarrow> (vma list \<times> buddy_system) option" where
  "free_areas start end [] s = Some ([], s)"
| "free_areas start end (v # vs) s =
     Option.bind (free_area start end v s) (\<lambda>(l, s1).
     map_option (\<lambda>(vs', s2). (l @ vs', s2)) (free_areas start end vs s1))"

definition free_vma :: "nat \<Rightarrow> addr \<Rightarrow> addr \<Rightarrow> ksys \<Rightarrow> (int \<times> ksys) option" where
  "free_vma i start end k =
     (let p = ks_procs k i
      in if p_vma_head p = 0 then Some (-1, k)
         else map_option (\<lambda>(vs, s). (1, upd_proc i (\<lambda>p. p\<lparr>p_vma := vs\<rparr>) (with_pm k s)))
                (free_areas start end (p_vma p) (ks_pm k)))"

text \<open>
  \<^verbatim>\<open>munmap\<close>. Detaching an area from its segment: the pointer of the segment is cleared if it points to this
  area; otherwise the code walks the ring from the area the segment points to and unlinks this one, which
  the removal from the list does again.
\<close>

definition detach_area :: "vma \<Rightarrow> ksys \<Rightarrow> ksys" where
  "detach_area v k =
     (case vma_shm_kernel v of
        None \<Rightarrow> k
      | Some n \<Rightarrow>
          k\<lparr>ks_shm_segs := (ks_shm_segs k)(n := map_option (\<lambda>sg.
             if shm_attaches sg = vma_self v then sg\<lparr>shm_attaches := 0\<rparr> else sg) (ks_shm_segs k n))\<rparr>)"

text \<open>Is the segment of the area alive: not marked deleted, and with pages? \<open>None\<close>: there is no such segment.\<close>

definition shm_alive :: "vma \<Rightarrow> ksys \<Rightarrow> bool option" where
  "shm_alive v k =
     (case vma_shm_kernel v of
        None \<Rightarrow> Some False
      | Some n \<Rightarrow> map_option (\<lambda>sg. \<not> shm_is_deleted sg \<and> shm_pages sg \<noteq> 0) (ks_shm_segs k n))"

definition unmap_pages :: "addr \<Rightarrow> addr \<Rightarrow> addr \<Rightarrow> bool \<Rightarrow> ksys \<Rightarrow> ksys option" where
  "unmap_pages pt a b do_free k =
     map_option (with_vm k) (vmunmap (ks_vm k) pt a (sub64 b a div PGSIZE) do_free)"

definition free_struct :: "vma \<Rightarrow> ksys \<Rightarrow> ksys option" where
  "free_struct v k = map_option (with_pm k) (pmem_free_pages (ks_pm k) (vma_self v) 1)"

definition new_struct :: "ksys \<Rightarrow> (addr \<times> ksys) option" where
  "new_struct k =
     (case pmem_alloc_pages (ks_pm k) 1 of
        None \<Rightarrow> None
      | Some (a, s) \<Rightarrow> if a = 0 then None else Some (a, with_pm k s))"

text \<open>An area inside the range: what is left of it, and the state.\<close>

definition munmap_whole :: "addr \<Rightarrow> vma \<Rightarrow> ksys \<Rightarrow> (vma list \<times> ksys) option" where
  "munmap_whole pt v k =
     (if vma_ref_count v > 1 then Some ([v\<lparr>vma_ref_count := vma_ref_count v - 1\<rparr>], k)
      else
        Option.bind
          (if vma_type v = SHARE \<and> vma_shm_kernel v \<noteq> None
           then Option.bind (shm_alive v k) (\<lambda>alive.
             Option.bind (unmap_pages pt (vma_addr v) (vma_end v) False k) (\<lambda>k1.
             Some (if alive then detach_area v k1 else k1)))
           else unmap_pages pt (vma_addr v) (vma_end v) True k) (\<lambda>k1.
        map_option (\<lambda>k2. ([], k2)) (free_struct v k1)))"

text \<open>An area that overlaps the range in part: the parts before and after it stay.\<close>

definition munmap_part :: "addr \<Rightarrow> addr \<Rightarrow> addr \<Rightarrow> vma \<Rightarrow> ksys \<Rightarrow> (vma list \<times> ksys) option" where
  "munmap_part pt start end v k =
     Option.bind (if vma_type v = SHARE then shm_alive v k else Some False) (\<lambda>backup.
     Option.bind
       (if vma_addr v < start
        then map_option (\<lambda>(a, k1). ([v\<lparr>vma_self := a, vma_end := start, vma_size := start - vma_addr v\<rparr>], k1)) (new_struct k)
        else Some ([], k)) (\<lambda>(front, k1).
     Option.bind
       (if vma_end v > end
        then map_option (\<lambda>(a, k2). ([v\<lparr>vma_self := a, vma_addr := end, vma_size := vma_end v - end,
               vma_f_off := add64 (vma_f_off v) (sub64 end (vma_addr v))\<rparr>], k2)) (new_struct k1)
        else Some ([], k1)) (\<lambda>(back, k2).
     let ustart = (if vma_addr v > start then vma_addr v else start);
         uend = (if vma_end v < end then vma_end v else end)
     in Option.bind (if uend > ustart then unmap_pages pt ustart uend (\<not> backup) k2 else Some k2) (\<lambda>k3.
        map_option (\<lambda>k4. (front @ back, k4)) (free_struct v k3)))))"

fun munmap_areas :: "addr \<Rightarrow> addr \<Rightarrow> addr \<Rightarrow> vma list \<Rightarrow> ksys \<Rightarrow> (bool \<times> vma list \<times> ksys) option" where
  "munmap_areas pt start end [] k = Some (False, [], k)"
| "munmap_areas pt start end (v # vs) k =
     (if vma_end v > start \<and> vma_addr v \<le> end then
        Option.bind
          (if vma_addr v \<ge> start \<and> vma_end v \<le> end then munmap_whole pt v k
           else if vma_addr v < start \<or> vma_end v > end then munmap_part pt start end v k
           else Some ([v], k)) (\<lambda>(left, k1).
        map_option (\<lambda>(found, vs', k2). (True, left @ vs', k2)) (munmap_areas pt start end vs k1))
      else map_option (\<lambda>(found, vs', k1). (found, v # vs', k1)) (munmap_areas pt start end vs k))"

definition munmap :: "nat \<Rightarrow> addr \<Rightarrow> int \<Rightarrow> ksys \<Rightarrow> (int \<times> ksys) option" where
  "munmap i a len k =
     (let p = ks_procs k i; end = PGROUNDDOWN (add64 a (u64 len)); start = PGROUNDDOWN a
      in if start \<noteq> PGROUNDDOWN start \<or> len \<le> 0 then Some (-1, k)
         else map_option (\<lambda>(found, vs, k1). (if found then 0 else -1, upd_proc i (\<lambda>p. p\<lparr>p_vma := vs\<rparr>) k1))
                (munmap_areas (p_pagetable p) start end (p_vma p) k))"

section \<open>Copy on write\<close>

text \<open>\<^verbatim>\<open>dmwin_win0\<close> is 0 on RISC-V.\<close>

fun handle_cow_write :: "addr \<Rightarrow> addr \<Rightarrow> vma list \<Rightarrow> vmem \<Rightarrow> (int \<times> vmem) option" where
  "handle_cow_write pt va [] v = Some (-1, v)"
| "handle_cow_write pt va (a # as) v =
     (if vma_addr a \<le> va \<and> va < vma_end a then
        if vma_flags a AND MAP_PRIVATE \<noteq> 0 then
          (case walk v pt va False of
             None \<Rightarrow> None
           | Some (pte, v1) \<Rightarrow>
               if pte \<noteq> 0 \<and> get64 (vs_pm v1) pte AND PTE_V \<noteq> 0 then
                 (case pmem_alloc_pages (vs_pm v1) 1 of
                    None \<Rightarrow> None
                  | Some (new_pa, s) \<Rightarrow>
                      if new_pa = 0 then Some (-1, v1\<lparr>vs_pm := s\<rparr>)
                      else
                        let e = get64 s pte; v2 = move_mem (v1\<lparr>vs_pm := s\<rparr>) new_pa (PTE2PA e) PGSIZE
                        in Some (0, v2\<lparr>vs_pm := put64 (vs_pm v2) pte (PA2PTE new_pa OR (PTE_FLAGS e OR PTE_W) OR PTE_V)\<rparr>))
               else Some (-1, v1))
        else Some (-1, v)
      else handle_cow_write pt va as v)"

section \<open>The size of a process\<close>

definition uvmdealloc :: "nat \<Rightarrow> addr \<Rightarrow> nat \<Rightarrow> nat \<Rightarrow> ksys \<Rightarrow> (nat \<times> ksys) option" where
  "uvmdealloc me pt oldsz newsz k =
     (if newsz \<ge> oldsz then Some (oldsz, k)
      else if PGROUNDUP newsz < PGROUNDUP oldsz then
        Option.bind (free_vma me newsz oldsz k) (\<lambda>(_, k1).
        map_option (\<lambda>v. (newsz, with_vm k1 v))
          (vmunmap (ks_vm k1) pt (PGROUNDUP newsz)
            (u64 (int32 ((PGROUNDUP oldsz - PGROUNDUP newsz) div PGSIZE))) True))
      else Some (newsz, k))"

text \<open>
  The page-by-page loop of \<^verbatim>\<open>uvmalloc\<close>, which runs under \<^verbatim>\<open>vmem_lock\<close>. When the pages run out it releases
  the lock and gives the pages back; when a mapping fails it does so with the lock held.
\<close>

function uvmalloc_loop :: "nat \<Rightarrow> addr \<Rightarrow> nat \<Rightarrow> nat \<Rightarrow> nat \<Rightarrow> pte \<Rightarrow> ksys \<Rightarrow> (nat \<times> ksys) option" where
  "uvmalloc_loop me pt oldsz a newsz perm k =
     (if a < newsz then
        (case pmem_alloc_pages (ks_pm k) 1 of
           None \<Rightarrow> None
         | Some (m, s) \<Rightarrow>
             if m = 0 then
               map_option (\<lambda>(_, k1). (0, k1))
                 (uvmdealloc me pt a oldsz (with_vm k ((ks_vm k)\<lparr>vs_pm := s, vs_lock := False\<rparr>)))
             else
               (case mappages_internal (s\<lparr>bs_mem := memset (bs_mem s) m 0 PGSIZE\<rparr>) pt a m PGSIZE (perm OR PTE_U OR PTE_D) of
                  None \<Rightarrow> None
                | Some (r, s1) \<Rightarrow>
                    if r \<noteq> 1 then
                      Option.bind (pmem_free_pages s1 m 1) (\<lambda>s2.
                      map_option (\<lambda>(_, k1). (0, with_vm k1 ((ks_vm k1)\<lparr>vs_lock := False\<rparr>)))
                        (uvmdealloc me pt a oldsz (with_pm k s2)))
                    else uvmalloc_loop me pt oldsz (a + PGSIZE) newsz perm (with_pm k s1)))
      else Some (newsz, with_vm k ((ks_vm k)\<lparr>vs_lock := False\<rparr>)))"
  by pat_completeness auto
termination
  by (relation "measure (\<lambda>(me, pt, oldsz, a, newsz, perm, k). newsz - a)") auto

declare uvmalloc_loop.simps [simp del]

definition uvmalloc :: "nat \<Rightarrow> addr \<Rightarrow> nat \<Rightarrow> nat \<Rightarrow> pte \<Rightarrow> ksys \<Rightarrow> (nat \<times> ksys) option" where
  "uvmalloc me pt oldsz0 newsz perm k =
     (if vs_lock (ks_vm k) then None
      else if newsz < oldsz0 then Some (oldsz0, k)
      else
        let oldsz = PGROUNDUP oldsz0; npages = sub64 (PGROUNDUP newsz) oldsz div PGSIZE;
            k0 = with_vm k ((ks_vm k)\<lparr>vs_lock := True\<rparr>)
        in if npages > 0 then
             (case pmem_alloc_pages (ks_pm k0) (int32 npages) of
                None \<Rightarrow> None
              | Some (m, s) \<Rightarrow>
                  if m = 0 then uvmalloc_loop me pt oldsz oldsz newsz perm (with_pm k0 s)
                  else
                    (case mappages_internal (s\<lparr>bs_mem := memset (bs_mem s) m 0 (npages * PGSIZE)\<rparr>) pt oldsz m
                            (npages * PGSIZE) (perm OR PTE_U OR PTE_D) of
                       None \<Rightarrow> None
                     | Some (r, s1) \<Rightarrow>
                         if r = 1 then Some (newsz, with_pm k s1)
                         else map_option (\<lambda>s2. (u64 (- EINVAL), with_pm k s2)) (pmem_free_pages s1 m (int32 npages))))
           else uvmalloc_loop me pt oldsz oldsz newsz perm k0)"

text \<open>\<^verbatim>\<open>uvm_grow\<close> does the same with a lock around each mapping.\<close>

function grow_loop :: "nat \<Rightarrow> addr \<Rightarrow> nat \<Rightarrow> nat \<Rightarrow> nat \<Rightarrow> pte \<Rightarrow> ksys \<Rightarrow> (nat \<times> ksys) option" where
  "grow_loop me pt oldsz a newsz perm k =
     (if a < newsz then
        (case pmem_alloc_pages (ks_pm k) 1 of
           None \<Rightarrow> None
         | Some (m, s) \<Rightarrow>
             if m = 0 then map_option (\<lambda>(_, k1). (0, k1)) (uvmdealloc me pt a oldsz (with_pm k s))
             else
               (case mappages ((ks_vm k)\<lparr>vs_pm := s\<lparr>bs_mem := memset (bs_mem s) m 0 PGSIZE\<rparr>\<rparr>) pt a m PGSIZE (perm OR PTE_U OR PTE_D) of
                  None \<Rightarrow> None
                | Some (r, v) \<Rightarrow>
                    if r \<noteq> 1 then
                      Option.bind (pmem_free_pages (vs_pm v) m 1) (\<lambda>s2.
                      map_option (\<lambda>(_, k1). (0, k1)) (uvmdealloc me pt a oldsz (with_pm k s2)))
                    else grow_loop me pt oldsz (a + PGSIZE) newsz perm (with_vm k v)))
      else Some (newsz, k))"
  by pat_completeness auto
termination
  by (relation "measure (\<lambda>(me, pt, oldsz, a, newsz, perm, k). newsz - a)") auto

declare grow_loop.simps [simp del]

definition uvm_grow :: "nat \<Rightarrow> addr \<Rightarrow> nat \<Rightarrow> nat \<Rightarrow> pte \<Rightarrow> ksys \<Rightarrow> (nat \<times> ksys) option" where
  "uvm_grow me pt oldsz0 newsz perm k =
     (if newsz \<le> oldsz0 then Some (oldsz0, k)
      else
        let oldsz = PGROUNDUP oldsz0; npages = sub64 (PGROUNDUP newsz) oldsz div PGSIZE
        in if npages > 0 then
             (case pmem_alloc_pages (ks_pm k) (int32 npages) of
                None \<Rightarrow> None
              | Some (m, s) \<Rightarrow>
                  if m = 0 then grow_loop me pt oldsz oldsz newsz perm (with_pm k s)
                  else
                    (case mappages ((ks_vm k)\<lparr>vs_pm := s\<lparr>bs_mem := memset (bs_mem s) m 0 (npages * PGSIZE)\<rparr>\<rparr>) pt oldsz m
                            (npages * PGSIZE) (perm OR PTE_U OR PTE_D) of
                       None \<Rightarrow> None
                     | Some (r, v) \<Rightarrow>
                         if r = 1 then Some (newsz, with_vm k v)
                         else Option.bind (pmem_free_pages (vs_pm v) m (int32 npages))
                                (\<lambda>s2. grow_loop me pt oldsz oldsz newsz perm (with_pm k s2))))
           else grow_loop me pt oldsz oldsz newsz perm k)"

abbreviation (input) PTE_RW :: pte where "PTE_RW \<equiv> PTE_R OR PTE_W"
abbreviation (input) ENOMEM :: int where "ENOMEM \<equiv> 12"

definition growproc :: "nat \<Rightarrow> int \<Rightarrow> ksys \<Rightarrow> (int \<times> ksys) option" where
  "growproc me n k =
     (let p = ks_procs k me; sz = p_sz p;
          finish = (\<lambda>(sz', k1). if int32 (sz' mod 2 ^ 32) < 0 then Some (- EINVAL, k1)
                      else Some (0, upd_proc me (\<lambda>p. p\<lparr>p_sz := add64 (p_sz p) (u64 n)\<rparr>) k1))
      in if n > 0 then
           (if add64 sz (u64 n) \<ge> MAXVA - PGSIZE then Some (-1, k)
            else if n \<ge> 0x10000 then
              Option.bind (uvmalloc me (p_pagetable p) sz (add64 sz 0x10000) PTE_RW k)
                (\<lambda>(sz', k1). if sz' = 0 then Some (-1, k1) else finish (sz', k1))
            else
              Option.bind (uvmalloc me (p_pagetable p) sz (add64 sz (u64 n)) PTE_RW k)
                (\<lambda>(sz', k1). if sz' = 0 then Some (- ENOMEM, k1) else finish (sz', k1)))
         else if n < 0 then Option.bind (uvmdealloc me (p_pagetable p) sz (add64 sz (u64 n)) k) finish
         else finish (sz, k))"

end
