(* ===== verification/Frame_Count.thy ===== *)
theory Frame_Count
  imports Vmem_Ops
begin

text \<open>
  Counting free pages. In a well-formed allocator \<open>free_count\<close>, the sum over the free lists, is the number
  of pages that are not used and belong to a block, so a release makes at least as many pages available
  as the block has. The locale \<open>struct_pages\<close> is the interface of the kernel code that keeps one structure
  per page: what an allocation and a release do to the set of structures and to the pages available.
\<close>

definition free_pages :: "buddy_system \<Rightarrow> nat set" where
  "free_pages s = {q. q < total_pages s \<and> \<not> page_used s q \<and> nd_addr (bs_nodes s q) \<noteq> 0}"

lemma free_pages_blocks:
  assumes wf: "buddy_wf s"
  shows "free_pages s = (\<Union>k \<le> BUDDY_MAX_ORDER. \<Union>p \<in> set (free_lists s k). pages_of p k)"
proof (intro subset_antisym subsetI)
  fix q assume q: "q \<in> free_pages s"
  then have "nd_order (bs_nodes s q) \<noteq> -1" using wf unfolding buddy_inv_def free_pages_def by blast
  then obtain p k where p: "is_block s p k" "q \<in> pages_of p k"
    using wf q unfolding buddy_inv_def free_pages_def by blast
  then have "\<not> page_used s p" "k \<le> BUDDY_MAX_ORDER" using q inv_block(5) [OF wf p(1) _ p(2)]
    by (auto simp: free_pages_def is_block_def)
  then show "q \<in> (\<Union>k \<le> BUDDY_MAX_ORDER. \<Union>p \<in> set (free_lists s k). pages_of p k)"
    using in_free_list [OF wf] p by blast
next
  fix q assume "q \<in> (\<Union>k \<le> BUDDY_MAX_ORDER. \<Union>p \<in> set (free_lists s k). pages_of p k)"
  then obtain p k where p: "is_block s p k" "\<not> page_used s p" "q \<in> pages_of p k" using in_free_list [OF wf] by blast
  have "q < total_pages s" using inv_block(1) [OF wf p(1)] p(3) by simp
  moreover have "0 < mem_start s" using inv_geom [OF wf] by (simp add: buddy_geom_def)
  ultimately show "q \<in> free_pages s" using inv_block(4,5) [OF wf p(1) _ p(3)] p(2) by (simp add: free_pages_def)
qed

lemma free_count_pages:
  assumes wf: "buddy_wf s"
  shows "free_count s = card (free_pages s)"
proof -
  have one: "card (\<Union>p \<in> set (free_lists s k). pages_of p k) = length (free_lists s k) * 2 ^ k" if k: "k \<le> BUDDY_MAX_ORDER" for k
  proof -
    have "card (\<Union>p \<in> set (free_lists s k). pages_of p k) = (\<Sum>p \<in> set (free_lists s k). card (pages_of p k))"
    proof (rule card_UN_disjoint)
      show "\<forall>p \<in> set (free_lists s k). \<forall>p' \<in> set (free_lists s k). p \<noteq> p' \<longrightarrow> pages_of p k \<inter> pages_of p' k = {}"
        using blocks_disjoint [OF wf] in_free_list [OF wf k] by blast
    qed simp_all
    then show ?thesis using distinct_card [OF inv_lists(1) [OF wf k]] by simp
  qed
  have "card (free_pages s) = (\<Sum>k \<le> BUDDY_MAX_ORDER. card (\<Union>p \<in> set (free_lists s k). pages_of p k))"
    unfolding free_pages_blocks [OF wf]
  proof (rule card_UN_disjoint)
    show "\<forall>k \<in> {..BUDDY_MAX_ORDER}. \<forall>j \<in> {..BUDDY_MAX_ORDER}. k \<noteq> j \<longrightarrow>
      (\<Union>p \<in> set (free_lists s k). pages_of p k) \<inter> (\<Union>p \<in> set (free_lists s j). pages_of p j) = {}"
      using blocks_disjoint [OF wf] in_free_list [OF wf] by blast
  qed simp_all
  also have "\<dots> = free_count s" unfolding free_count_def by (rule sum.cong) (use one in auto)
  finally show ?thesis by simp
qed

lemma free_count_free:
  assumes wf: "buddy_wf s" and l: "\<not> bs_lock s" and b: "(a, k) \<in> live_blocks s"
    and f: "buddy_free s a (int k) = Some s'"
  shows "free_count s + 2 ^ k \<le> free_count s'"
proof -
  obtain p where p: "a = page_addr s p" "is_block s p k" "page_used s p" using b by (auto simp: live_blocks_def)
  have k: "0 \<le> int k" "int k \<le> int BUDDY_MAX_ORDER" using p(2) by (auto simp: is_block_def)
  obtain t p' k' where t: "buddy_free s a (int k) = Some t" "buddy_wf t" "same_region s t"
      "\<And>q. page_used t q \<longleftrightarrow> q \<notin> pages_of p k \<and> page_used s q" "is_block t p' k'" "pages_of p k \<subseteq> pages_of p' k'"
      "\<forall>q \<in> pages_of p' k'. \<not> page_used t q" "\<And>q. q \<notin> pages_of p' k' \<Longrightarrow> bs_nodes t q = bs_nodes s q"
    by (rule buddy_free_block [OF wf l p(2,3) pages_of_start, of a "int k"]) (use k p(1) in auto)
  have tot: "total_pages t = total_pages s" using t(3) by (simp add: same_region_def)
  have new: "pages_of p' k' \<subseteq> free_pages t"
  proof
    fix q assume q: "q \<in> pages_of p' k'"
    have "0 < mem_start t" using inv_geom [OF t(2)] by (simp add: buddy_geom_def)
    moreover have "q < total_pages t" using inv_block(1) [OF t(2,5)] q by simp
    ultimately show "q \<in> free_pages t" using t(7) q inv_block(4) [OF t(2,5) _ q] by (simp add: free_pages_def)
  qed
  have old: "q \<in> free_pages t" if "q \<in> free_pages s" "q \<notin> pages_of p' k'" for q
    using that t(4,8) [of q] tot by (simp add: free_pages_def)
  have "free_pages s \<union> pages_of p k \<subseteq> free_pages t" using new old t(6) by blast
  moreover have "finite (free_pages t)" unfolding free_pages_def by simp
  moreover have "free_pages s \<inter> pages_of p k = {}" using inv_block(5) [OF wf p(2)] p(3) by (auto simp: free_pages_def)
  moreover have "finite (free_pages s)" unfolding free_pages_def by simp
  ultimately have "card (free_pages s) + 2 ^ k \<le> card (free_pages t)"
    using card_mono [of "free_pages t" "free_pages s \<union> pages_of p k"] by (simp add: card_Un_disjoint)
  then show ?thesis using f t(1) free_count_pages [OF wf] free_count_pages [OF t(2)] by simp
qed

lemma pmem_free_struct:
  assumes wf: "buddy_wf s" and l: "\<not> bs_lock s" and b: "(a, 0) \<in> live_blocks s"
  shows "\<exists>s'. pmem_free_pages s a 1 = Some s' \<and> buddy_wf s' \<and> \<not> bs_lock s' \<and> bs_mem s' = bs_mem s \<and>
    live_blocks s' = live_blocks s - {(a, 0)} \<and> frames s' = frames s - {a} \<and> free_count s < free_count s'"
proof -
  have a: "a \<in> block_bytes (a, 0)" by (simp add: block_bytes_def)
  obtain s' where s': "pmem_free_pages s a 1 = Some s'" "buddy_wf s'" "\<not> bs_lock s'" "bs_mem s' = bs_mem s"
    "live_blocks s' = live_blocks s - {(a, 0)}" "frames s' = frames s - {f. f \<in> block_bytes (a, 0)}"
    using pmem_free_live [OF wf l b a, of 1] by auto
  obtain p where p: "a = page_addr s p" "is_block s p 0" "page_used s p" using b by (auto simp: live_blocks_def)
  have geo: "buddy_geom s" by (rule inv_geom [OF wf])
  note ib = inv_block [OF wf p(2)]
  have pt: "p < total_pages s" using p(2) by (auto simp: is_block_def)
  have ix: "page_index s a = p" unfolding p(1) by (rule page_index_addr [OF geo]) (use pt in simp)
  have "pmem_free_pages s a 1 = buddy_free s a (int 0)"
    using pmem_free_pages_node [OF geo p(2) ib(1,2) _ ix pt, of 1] live_in_region [OF wf b a] ib(4) [OF _ pages_of_start] p
    by (auto simp: is_block_def split: if_splits)
  then have fc: "free_count s < free_count s'" using free_count_free [OF wf l b, of s'] s'(1) by simp
  have pa: "PGSIZE dvd a" if "a \<in> frames s" for a using frames_aligned [OF wf that] .
  have "a \<in> frames s" using p pt by (auto simp: frames_def used_pages_def)
  then have "f = a" if "f \<in> block_bytes (a, 0)" "f \<in> frames s" for f
    using pages_apart [of a f] pa [of a] pa [of f] that by (fastforce simp: block_bytes_def)
  then have "frames s' = frames s - {a}" using s'(6) a by auto
  then show ?thesis using s' fc by blast
qed

section \<open>One structure per page\<close>

locale struct_pages =
  fixes ok :: "'s \<Rightarrow> bool"
    and structs :: "'s \<Rightarrow> addr set"
    and avail :: "'s \<Rightarrow> nat"
    and new :: "'s \<Rightarrow> (addr \<times> 's) option"
    and del :: "'s \<Rightarrow> addr \<Rightarrow> 's option"
  assumes new_struct: "ok s \<Longrightarrow> 0 < avail s \<Longrightarrow>
      \<exists>a s'. new s = Some (a, s') \<and> ok s' \<and> a \<noteq> 0 \<and> a \<notin> structs s \<and> structs s' = insert a (structs s) \<and> avail s' = avail s - 1"
    and del_struct: "ok s \<Longrightarrow> a \<in> structs s \<Longrightarrow>
      \<exists>s'. del s a = Some s' \<and> ok s' \<and> structs s' = structs s - {a} \<and> avail s < avail s'"
begin

text \<open>Replacing a structure by a new one needs one page, and gives it back.\<close>

lemma replace_struct:
  assumes "ok s" "0 < avail s" "a \<in> structs s"
  shows "\<exists>b s1 s'. new s = Some (b, s1) \<and> del s1 a = Some s' \<and> ok s' \<and> b \<noteq> 0 \<and> b \<notin> structs s \<and>
    structs s' = insert b (structs s - {a}) \<and> avail s \<le> avail s'"
proof -
  obtain b s1 where b: "new s = Some (b, s1)" "ok s1" "b \<noteq> 0" "b \<notin> structs s" "structs s1 = insert b (structs s)"
    "avail s1 = avail s - 1" using new_struct [OF assms(1,2)] by blast
  then obtain s' where s': "del s1 a = Some s'" "ok s'" "structs s' = structs s1 - {a}" "avail s1 < avail s'"
    using del_struct [of s1 a] assms(3) by auto
  have "b \<noteq> a" using b(4) assms(3) by blast
  then have "structs s' = insert b (structs s - {a})" using s'(3) b(5) by blast
  moreover have "avail s \<le> avail s'" using s'(4) b(6) assms(2) by linarith
  ultimately show ?thesis using b(1,3,4) s'(1,2) by blast
qed

end

definition live_structs :: "buddy_system \<Rightarrow> addr set" where
  "live_structs s = {a. (a, 0) \<in> live_blocks s}"

interpretation pg: struct_pages "\<lambda>s. buddy_wf s \<and> \<not> bs_lock s" live_structs free_count
  "\<lambda>s. pmem_alloc_pages s 1" "\<lambda>s a. pmem_free_pages s a 1"
proof unfold_locales
  fix s :: buddy_system assume s: "buddy_wf s \<and> \<not> bs_lock s" "0 < free_count s"
  obtain a s' where a: "pmem_alloc_pages s 1 = Some (a, s')" "buddy_wf s'" "\<not> bs_lock s'" "0 < a" "a \<notin> frames s"
    "free_count s' = free_count s - 1" "live_blocks s' = insert (a, 0) (live_blocks s)"
    using alloc_one_frame [of s] s by blast
  have "a \<notin> live_structs s"
    using a(5) by (auto simp: live_structs_def live_blocks_def frames_def used_pages_def is_block_def)
  then show "\<exists>a s'. pmem_alloc_pages s 1 = Some (a, s') \<and> (buddy_wf s' \<and> \<not> bs_lock s') \<and> a \<noteq> 0 \<and>
      a \<notin> live_structs s \<and> live_structs s' = insert a (live_structs s) \<and> free_count s' = free_count s - 1"
    using a by (intro exI [of _ a] exI [of _ s']) (auto simp: live_structs_def)
next
  fix s :: buddy_system and a assume s: "buddy_wf s \<and> \<not> bs_lock s" "a \<in> live_structs s"
  then obtain s' where "pmem_free_pages s a 1 = Some s'" "buddy_wf s'" "\<not> bs_lock s'"
    "live_blocks s' = live_blocks s - {(a, 0)}" "free_count s < free_count s'"
    using pmem_free_struct [of s a] by (auto simp: live_structs_def)
  then show "\<exists>s'. pmem_free_pages s a 1 = Some s' \<and> (buddy_wf s' \<and> \<not> bs_lock s') \<and>
      live_structs s' = live_structs s - {a} \<and> free_count s < free_count s'"
    by (intro exI [of _ s']) (auto simp: live_structs_def)
qed

end
