(* ===== verification/Vma_Props.thy ===== *)
theory Vma_Props
  imports Vma Frame_Count Vmem_Props
begin

text \<open>
  What the memory areas of a process promise. \<open>view\<close> is the abstract state: what each address is mapped to,
  if it is in an area. \<open>areas_ok\<close> is the invariant of the list: the areas are in order and do not overlap.
  Adding an area and taking a range away are functions of the view.
\<close>

section \<open>The invariant and the abstract view\<close>

definition areas_ok :: "vma list \<Rightarrow> bool" where
  "areas_ok vs \<longleftrightarrow> sorted_wrt (\<lambda>v w. vma_end v \<le> vma_addr w) vs \<and> (\<forall>v \<in> set vs. vma_addr v \<le> vma_end v)"

abbreviation covers :: "vma \<Rightarrow> addr \<Rightarrow> bool" where
  "covers v a \<equiv> vma_addr v \<le> a \<and> a < vma_end v"

type_synonym mapping_attr = "segtype \<times> 32 word \<times> 32 word \<times> int \<times> nat \<times> nat option"

definition attr :: "addr \<Rightarrow> vma \<Rightarrow> mapping_attr" where
  "attr a v = (vma_type v, vma_perm v, vma_flags v, vma_fd v, (vma_f_off v + (a - vma_addr v)) mod 2 ^ 64, vma_shm_kernel v)"

definition view :: "vma list \<Rightarrow> addr \<Rightarrow> mapping_attr option" where
  "view vs a = map_option (attr a) (find (\<lambda>v. covers v a) vs)"

lemma view_simps [simp]:
  "view [] a = None"
  "view (v # vs) a = (if covers v a then Some (attr a v) else view vs a)"
  by (simp_all add: view_def)

lemma view_append [simp]: "view (vs @ ws) a = (case view vs a of None \<Rightarrow> view ws a | Some x \<Rightarrow> Some x)"
  by (induction vs) auto

lemma view_None: "view vs a = None \<longleftrightarrow> (\<forall>v \<in> set vs. \<not> covers v a)"
  by (induction vs) auto

lemma areas_ok_simps [simp]:
  "areas_ok []"
  "areas_ok (v # vs) \<longleftrightarrow> vma_addr v \<le> vma_end v \<and> (\<forall>w \<in> set vs. vma_end v \<le> vma_addr w) \<and> areas_ok vs"
  by (auto simp: areas_ok_def)

lemma areas_ok_append [simp]:
  "areas_ok (vs @ ws) \<longleftrightarrow> areas_ok vs \<and> areas_ok ws \<and> (\<forall>v \<in> set vs. \<forall>w \<in> set ws. vma_end v \<le> vma_addr w)"
  by (auto simp: areas_ok_def sorted_wrt_append)

text \<open>The invariant and the view do not depend on where the structures are.\<close>

definition strip :: "vma \<Rightarrow> vma" where
  "strip v = v\<lparr>vma_self := 0\<rparr>"

lemma strip_fields [simp]:
  "vma_addr (strip v) = vma_addr v" "vma_end (strip v) = vma_end v" "attr a (strip v) = attr a v"
  by (simp_all add: strip_def attr_def)

lemma view_strip: "view (map strip vs) a = view vs a"
  by (induction vs) auto

lemma areas_ok_strip: "areas_ok (map strip vs) = areas_ok vs"
  by (induction vs) auto

section \<open>Taking a range away\<close>

text \<open>The parts of an area before and after a range.\<close>

definition fragments :: "addr \<Rightarrow> addr \<Rightarrow> vma \<Rightarrow> vma list" where
  "fragments start end v =
     (if vma_addr v < start then [v\<lparr>vma_size := start - vma_addr v, vma_end := start\<rparr>] else []) @
     (if end < vma_end v then [v\<lparr>vma_addr := end, vma_size := vma_end v - end,
        vma_f_off := add64 (vma_f_off v) (sub64 end (vma_addr v))\<rparr>] else [])"

definition cut_area :: "addr \<Rightarrow> addr \<Rightarrow> vma \<Rightarrow> vma list" where
  "cut_area start end v = (if start < vma_end v \<and> vma_addr v < end then fragments start end v else [v])"

lemma attr_shift:
  "vma_addr v \<le> b \<Longrightarrow> b \<le> a \<Longrightarrow> b < 2 ^ 64 \<Longrightarrow>
   attr a (v\<lparr>vma_addr := b, vma_size := n, vma_f_off := add64 (vma_f_off v) (sub64 b (vma_addr v))\<rparr>) = attr a v"
proof -
  assume b: "vma_addr v \<le> b" "b \<le> a" "b < 2 ^ 64"
  then have "vma_f_off v + (b - vma_addr v) + (a - b) = vma_f_off v + (a - vma_addr v)" by simp
  then have "(add64 (vma_f_off v) (sub64 b (vma_addr v)) + (a - b)) mod 2 ^ 64 = (vma_f_off v + (a - vma_addr v)) mod 2 ^ 64"
    unfolding add64_def sub64_in_range [OF b(1,3)] mod_add_left_eq by (simp only:)
  then show ?thesis by (simp add: attr_def)
qed

lemma view_fragments:
  assumes "start < vma_end v" "vma_addr v \<le> end" "start \<le> end" "end < 2 ^ 64"
  shows "view (fragments start end v) a = (if start \<le> a \<and> a < end then None else view [v] a)"
proof -
  have "attr a (v\<lparr>vma_size := n, vma_end := e\<rparr>) = attr a v" for n e by (simp add: attr_def)
  then show ?thesis using assms attr_shift [of v "end" a] by (auto simp: fragments_def)
qed

lemma fragments_inside:
  "w \<in> set (fragments start end v) \<Longrightarrow> start < vma_end v \<Longrightarrow> vma_addr v \<le> end \<Longrightarrow> vma_addr v \<le> vma_end v \<Longrightarrow>
   vma_addr v \<le> vma_addr w \<and> vma_end w \<le> vma_end v \<and> vma_addr w \<le> vma_end w"
  by (auto simp: fragments_def split: if_splits)

lemma fragments_ok: "start \<le> end \<Longrightarrow> vma_addr v \<le> vma_end v \<Longrightarrow> areas_ok (fragments start end v)"
  by (auto simp: fragments_def)

lemma view_cut:
  "start \<le> end \<Longrightarrow> end < 2 ^ 64 \<Longrightarrow> view (cut_area start end v) a = (if start \<le> a \<and> a < end then None else view [v] a)"
  unfolding cut_area_def using view_fragments [of start v "end" a] by auto

lemma cut_inside:
  "w \<in> set (cut_area start end v) \<Longrightarrow> vma_addr v \<le> vma_end v \<Longrightarrow>
   vma_addr v \<le> vma_addr w \<and> vma_end w \<le> vma_end v \<and> vma_addr w \<le> vma_end w"
  using fragments_inside [of w start "end" v] by (auto simp: cut_area_def split: if_splits)

text \<open>Replacing every area of a list by pieces of it.\<close>

lemma pieces_view:
  assumes "\<And>v. v \<in> set vs \<Longrightarrow> view (c v) a = (if P then None else view [v] a)"
  shows "view (concat (map c vs)) a = (if P then None else view vs a)"
  using assms by (induction vs) auto

lemma pieces_ok:
  assumes "\<And>v. v \<in> set vs \<Longrightarrow> areas_ok (c v)"
    and "\<And>v w. v \<in> set vs \<Longrightarrow> w \<in> set (c v) \<Longrightarrow> vma_addr v \<le> vma_addr w \<and> vma_end w \<le> vma_end v"
    and "areas_ok vs"
  shows "areas_ok (concat (map c vs))"
  using assms
proof (induction vs)
  case (Cons v vs)
  have "vma_end x \<le> vma_addr y" if "x \<in> set (c v)" "w \<in> set vs" "y \<in> set (c w)" for x w y
    using Cons.prems(2) [of v x] Cons.prems(2) [of w y] Cons.prems(3) that by fastforce
  then show ?case using Cons by simp
qed simp

lemma view_cuts:
  "start \<le> end \<Longrightarrow> end < 2 ^ 64 \<Longrightarrow>
   view (concat (map (cut_area start end) vs)) a = (if start \<le> a \<and> a < end then None else view vs a)"
  by (rule pieces_view) (rule view_cut)

lemma cuts_ok: "start \<le> end \<Longrightarrow> areas_ok vs \<Longrightarrow> areas_ok (concat (map (cut_area start end) vs))"
proof (rule pieces_ok)
  assume "start \<le> end" "areas_ok vs"
  then show "areas_ok (cut_area start end v)" if "v \<in> set vs" for v
    using fragments_ok [of start "end" v] that by (auto simp: cut_area_def areas_ok_def)
  show "vma_addr v \<le> vma_addr w \<and> vma_end w \<le> vma_end v" if "v \<in> set vs" "w \<in> set (cut_area start end v)" for v w
    using cut_inside [OF that(2)] that(1) \<open>areas_ok vs\<close> by (auto simp: areas_ok_def)
qed

section \<open>The structures\<close>

text \<open>\<open>owned vs s\<close>: the structures of the areas are different pages of the allocator.\<close>

abbreviation selfs :: "vma list \<Rightarrow> addr set" where
  "selfs vs \<equiv> vma_self ` set vs"

definition owned :: "vma list \<Rightarrow> buddy_system \<Rightarrow> bool" where
  "owned vs s \<longleftrightarrow> distinct (map vma_self vs) \<and> selfs vs \<subseteq> live_structs s \<and> buddy_wf s \<and> \<not> bs_lock s"

text \<open>
  \<open>swaps vs s vs' s'\<close>: the structures of \<open>vs\<close> were given back and those of \<open>vs'\<close> taken, and no other structure
  was touched.
\<close>

definition swaps :: "vma list \<Rightarrow> buddy_system \<Rightarrow> vma list \<Rightarrow> buddy_system \<Rightarrow> bool" where
  "swaps vs s vs' s' \<longleftrightarrow> distinct (map vma_self vs') \<and> buddy_wf s' \<and> \<not> bs_lock s' \<and>
     selfs vs' \<inter> (live_structs s - selfs vs) = {} \<and> live_structs s' = (live_structs s - selfs vs) \<union> selfs vs'"

lemma swaps_owned: "swaps vs s vs' s' \<Longrightarrow> owned vs' s'"
  by (auto simp: swaps_def owned_def)

lemma swaps_rest: "owned (vs @ ws) s \<Longrightarrow> swaps vs s vs' s' \<Longrightarrow> owned ws s'"
  by (auto simp: owned_def swaps_def)

lemma swaps_append:
  assumes "owned (vs @ ws) s" "swaps vs s vs' s1" "swaps ws s1 ws' s2"
  shows "swaps (vs @ ws) s (vs' @ ws') s2"
proof -
  have o: "distinct (map vma_self ws)" "selfs vs \<inter> selfs ws = {}" "selfs ws \<subseteq> live_structs s" "selfs vs \<subseteq> live_structs s"
    using assms(1) by (auto simp: owned_def)
  have a: "distinct (map vma_self vs')" "buddy_wf s1" "\<not> bs_lock s1" "selfs vs' \<inter> (live_structs s - selfs vs) = {}"
    "live_structs s1 = (live_structs s - selfs vs) \<union> selfs vs'" using assms(2) by (auto simp: swaps_def)
  have b: "distinct (map vma_self ws')" "buddy_wf s2" "\<not> bs_lock s2" "selfs ws' \<inter> (live_structs s1 - selfs ws) = {}"
    "live_structs s2 = (live_structs s1 - selfs ws) \<union> selfs ws'" using assms(3) by (auto simp: swaps_def)
  have d: "selfs vs' \<inter> selfs ws = {}" using a(4) o(2,3) by blast
  then have "selfs vs' \<inter> selfs ws' = {}" using a(5) b(4) by blast
  moreover have "selfs (vs' @ ws') \<inter> (live_structs s - selfs (vs @ ws)) = {}" using a(4,5) b(4) by auto
  moreover have "live_structs s2 = (live_structs s - selfs (vs @ ws)) \<union> selfs (vs' @ ws')" using a(5) b(5) d by auto
  ultimately show ?thesis using a(1) b(1-3) unfolding swaps_def by simp
qed

lemma add_struct:
  assumes "buddy_wf s" "\<not> bs_lock s" "0 < free_count s"
  shows "\<exists>b s1. pmem_alloc_pages s 1 = Some (b, s1) \<and> b \<noteq> 0 \<and> (\<forall>v. vma_self v = b \<longrightarrow> swaps [] s [v] s1) \<and>
    free_count s1 = free_count s - 1"
  using pg.new_struct [of s] assms by (fastforce simp: swaps_def)

lemma drop_struct:
  assumes "owned [v] s"
  shows "\<exists>s1. pmem_free_pages s (vma_self v) 1 = Some s1 \<and> swaps [v] s [] s1 \<and> free_count s < free_count s1"
  using pg.del_struct [of s "vma_self v"] assms by (fastforce simp: swaps_def owned_def)

lemma swaps_refl: "owned vs s \<Longrightarrow> swaps vs s vs s"
  by (auto simp: owned_def swaps_def)

lemma split_area_swaps:
  assumes o: "owned [v] s" and f: "2 \<le> free_count s" and ov: "start < vma_end v" "vma_addr v < end"
  shows "\<exists>l s'. split_area start end v s = Some (l, s') \<and> map strip l = map strip (fragments start end v) \<and>
    swaps [v] s l s' \<and> (2 \<le> free_count s' \<or> end < vma_end v)"
proof -
  have s: "buddy_wf s" "\<not> bs_lock s" "0 < free_count s" using o f by (auto simp: owned_def)
  let ?L = "vma_addr v < start" and ?R = "end < vma_end v"
  define left where "left a = v\<lparr>vma_self := a, vma_size := start - vma_addr v, vma_end := start\<rparr>" for a
  define right where "right a = v\<lparr>vma_self := a, vma_addr := end, vma_size := vma_end v - end,
      vma_f_off := add64 (vma_f_off v) (sub64 end (vma_addr v))\<rparr>" for a
  obtain l s1 where l: "(if ?L then Option.bind (pmem_alloc_pages s 1) (\<lambda>(l, s1). if l = 0 then None else Some ([left l], s1))
      else Some ([], s)) = Some (l, s1)" "map strip l = (if ?L then [strip (left 0)] else [])" "swaps [] s l s1"
      "free_count s \<le> free_count s1 + (if ?L then 1 else 0)"
  proof (cases ?L)
    case True
    obtain b s1 where "pmem_alloc_pages s 1 = Some (b, s1)" "b \<noteq> 0" "swaps [] s [left b] s1" "free_count s1 = free_count s - 1"
      using add_struct [OF s] by (auto simp: left_def)
    then show thesis using that [of "[left b]" s1] True s(3) by (auto simp: strip_def left_def)
  qed (use that [of "[]" s] swaps_refl [of "[]" s] s in \<open>auto simp: owned_def\<close>)
  have s1: "buddy_wf s1" "\<not> bs_lock s1" "0 < free_count s1" using l(3,4) f by (auto simp: swaps_def split: if_splits)
  obtain r s2 where r: "(if ?R then Option.bind (pmem_alloc_pages s1 1) (\<lambda>(r, s2). if r = 0 then None else Some ([right r], s2))
      else Some ([], s1)) = Some (r, s2)" "map strip r = (if ?R then [strip (right 0)] else [])" "swaps [] s1 r s2"
      "free_count s1 \<le> free_count s2 + (if ?R then 1 else 0)"
  proof (cases ?R)
    case True
    obtain b s2 where "pmem_alloc_pages s1 1 = Some (b, s2)" "b \<noteq> 0" "swaps [] s1 [right b] s2" "free_count s2 = free_count s1 - 1"
      using add_struct [OF s1] by (auto simp: right_def)
    then show thesis using that [of "[right b]" s2] True s1(3) by (auto simp: strip_def right_def)
  qed (use that [of "[]" s1] swaps_refl [of "[]" s1] s1 in \<open>auto simp: owned_def\<close>)
  have o1: "owned ([] @ []) s" "owned ([] @ [v]) s" using o by (auto simp: owned_def)
  have sw: "swaps [] s (l @ r) s2" using swaps_append [OF o1(1) l(3) r(3)] by simp
  have ov2: "owned [v] s2" by (rule swaps_rest [OF o1(2) sw])
  obtain s3 where s3: "pmem_free_pages s2 (vma_self v) 1 = Some s3" "swaps [v] s2 [] s3" "free_count s2 < free_count s3"
    using drop_struct [OF ov2] by blast
  have "split_area start end v s = Some (l @ r, s3)"
    using l(1) r(1) s3(1) unfolding split_area_def left_def right_def by simp
  moreover have "swaps [v] s (l @ r) s3" using swaps_append [OF o1(2) sw s3(2)] by simp
  moreover have "map strip (l @ r) = map strip (fragments start end v)"
    unfolding map_append l(2) r(2) by (auto simp: fragments_def strip_def left_def right_def)
  moreover have "2 \<le> free_count s3 \<or> end < vma_end v" using s3(3) r(4) l(4) f by (auto split: if_splits)
  ultimately show ?thesis by blast
qed

lemma free_area_swaps:
  assumes o: "owned [v] s" and f: "2 \<le> free_count s \<or> end \<le> vma_addr v"
  shows "\<exists>l s'. free_area start end v s = Some (l, s') \<and> map strip l = map strip (cut_area start end v) \<and>
    swaps [v] s l s' \<and> (2 \<le> free_count s' \<or> end \<le> vma_end v \<or> end \<le> vma_addr v)"
proof (cases "start < vma_end v \<and> vma_addr v < end")
  case False then show ?thesis using f swaps_refl [OF o] by (auto simp: free_area_def cut_area_def)
next
  case True
  then have f2: "2 \<le> free_count s" using f by simp
  show ?thesis
  proof (cases "vma_addr v \<ge> start \<and> vma_end v \<le> end")
    case False
    then show ?thesis using split_area_swaps [OF o f2, of start "end"] True by (auto simp: free_area_def cut_area_def)
  next
    case inside: True
    then have "fragments start end v = []" by (auto simp: fragments_def)
    then show ?thesis using drop_struct [OF o] inside True f2 by (auto simp: free_area_def cut_area_def)
  qed
qed

lemma free_areas_cuts:
  "owned vs s \<Longrightarrow> areas_ok vs \<Longrightarrow> 2 \<le> free_count s \<or> (\<forall>v \<in> set vs. end \<le> vma_addr v) \<Longrightarrow>
   \<exists>vs' s'. free_areas start end vs s = Some (vs', s') \<and> swaps vs s vs' s' \<and>
     map strip vs' = map strip (concat (map (cut_area start end) vs))"
proof (induction vs arbitrary: s)
  case Nil then show ?case using swaps_refl by auto
next
  case (Cons v vs)
  have o: "owned ([v] @ vs) s" "owned [v] s" using Cons.prems(1) by (auto simp: owned_def)
  obtain l s1 where l: "free_area start end v s = Some (l, s1)" "map strip l = map strip (cut_area start end v)"
    "swaps [v] s l s1" "2 \<le> free_count s1 \<or> end \<le> vma_end v \<or> end \<le> vma_addr v"
    using free_area_swaps [OF o(2), of "end" start] Cons.prems(3) by auto
  have "2 \<le> free_count s1 \<or> (\<forall>w \<in> set vs. end \<le> vma_addr w)" using l(4) Cons.prems(2) by fastforce
  moreover have "owned vs s1" by (rule swaps_rest [OF o(1) l(3)])
  ultimately obtain vs' s' where v: "free_areas start end vs s1 = Some (vs', s')" "swaps vs s1 vs' s'"
    "map strip vs' = map strip (concat (map (cut_area start end) vs))" using Cons.IH [of s1] Cons.prems(2) by auto
  have "swaps (v # vs) s (l @ vs') s'" using swaps_append [OF o(1) l(3) v(2)] by simp
  then show ?case using l(1,2) v(1,3) by (intro exI [of _ "l @ vs'"] exI [of _ s']) simp
qed

text \<open>The view and the order of a list that is another one up to the places of the structures.\<close>

lemma same_areas: "map strip vs' = map strip vs \<Longrightarrow> areas_ok vs' = areas_ok vs \<and> view vs' = view vs"
  using areas_ok_strip [of vs] areas_ok_strip [of vs'] view_strip [of vs] view_strip [of vs'] by auto

section \<open>Adding an area\<close>

lemma place_split:
  assumes "\<And>v. v \<in> set vs \<Longrightarrow> vma_end v \<le> start \<or> end \<le> vma_addr v" "areas_ok vs" "start \<le> end"
  shows "\<exists>n. place_vma start end vs = Insert_at n \<and> (\<forall>v \<in> set (take n vs). vma_end v \<le> start) \<and>
    (\<forall>v \<in> set (drop n vs). end \<le> vma_addr v)"
  using assms
proof (induction vs)
  case (Cons v vs)
  show ?case
  proof (cases "end \<le> vma_addr v")
    case True
    then have "end \<le> vma_addr w" if "w \<in> set vs" for w using Cons.prems(2) that by fastforce
    then show ?thesis using True by (intro exI [of _ 0]) auto
  next
    case False
    then have e: "vma_end v \<le> start" using Cons.prems(1) by auto
    obtain n where "place_vma start end vs = Insert_at n" "\<forall>v \<in> set (take n vs). vma_end v \<le> start"
      "\<forall>v \<in> set (drop n vs). end \<le> vma_addr v" using Cons by auto
    then show ?thesis using False e by (intro exI [of _ "Suc n"]) auto
  qed
qed simp

lemma insert_area:
  assumes "\<forall>v \<in> set (take n vs). vma_end v \<le> vma_addr w" "\<forall>v \<in> set (drop n vs). vma_end w \<le> vma_addr v"
    and "areas_ok vs" "vma_addr w \<le> vma_end w"
  shows "areas_ok (insert_at n w vs)" "view (insert_at n w vs) a = (if covers w a then Some (attr a w) else view vs a)"
proof -
  have e: "vs = take n vs @ drop n vs" by simp
  have ok: "areas_ok (take n vs)" "areas_ok (drop n vs)" "\<forall>x \<in> set (take n vs). \<forall>y \<in> set (drop n vs). vma_end x \<le> vma_addr y"
    using assms(3) by (subst (asm) e, unfold areas_ok_append, blast)+
  then show "areas_ok (insert_at n w vs)" using assms(1,2,4) unfolding insert_at_def by fastforce
  have "view (take n vs) a = None" if "covers w a" using assms(1) that unfolding view_None by fastforce
  moreover have "view vs a = (case view (take n vs) a of None \<Rightarrow> view (drop n vs) a | Some x \<Rightarrow> Some x)"
    by (subst e, rule view_append)
  ultimately show "view (insert_at n w vs) a = (if covers w a then Some (attr a w) else view vs a)"
    by (auto simp: insert_at_def split: option.splits)
qed

lemma owned_insert:
  assumes "owned vs s" "swaps [] s [w] s'"
  shows "owned (insert_at n w vs) s'"
proof -
  have o: "distinct (map vma_self (take n vs @ drop n vs))" using assms(1) by (simp add: owned_def)
  have sub: "selfs (take n vs) \<subseteq> live_structs s" "selfs (drop n vs) \<subseteq> live_structs s"
    using assms(1) set_take_subset [of n vs] set_drop_subset [of n vs] unfolding owned_def by blast+
  have w: "vma_self w \<notin> live_structs s" "live_structs s' = insert (vma_self w) (live_structs s)" "buddy_wf s'" "\<not> bs_lock s'"
    using assms(2) by (auto simp: swaps_def)
  have "distinct (map vma_self (take n vs))" "distinct (map vma_self (drop n vs))"
    "selfs (take n vs) \<inter> selfs (drop n vs) = {}"
    using o unfolding map_append distinct_append by auto
  then show ?thesis using w sub unfolding owned_def insert_at_def by auto
qed

text \<open>
  C24: \<^verbatim>\<open>alloc_vma\<close> of a range that meets no area, without memory to map: it adds one area for exactly the range
  rounded to pages, in the right place of the list; every other address keeps what it was mapped to, the areas
  are still in order and apart, and the structures are different live pages.
\<close>

theorem alloc_vma_adds:
  fixes a :: addr and sz :: int
  defines "start \<equiv> PGROUNDUP a" and "end \<equiv> PGROUNDUP (add64 a (u64 sz))"
  assumes h: "p_vma_head (ks_procs k i) \<noteq> 0" and ok: "areas_ok (p_vma (ks_procs k i))"
    and o: "owned (p_vma (ks_procs k i)) (ks_pm k)" and f: "0 < free_count (ks_pm k)" and r: "start \<le> end"
    and free: "\<And>v. v \<in> set (p_vma (ks_procs k i)) \<Longrightarrow> vma_end v \<le> start \<or> end \<le> vma_addr v"
  shows "\<exists>v k'. alloc_vma i t a sz perm False 0 k = Some (v, k') \<and> v \<in> set (p_vma (ks_procs k' i)) \<and>
    vma_type v = t \<and> vma_perm v = perm \<and> areas_ok (p_vma (ks_procs k' i)) \<and> owned (p_vma (ks_procs k' i)) (ks_pm k') \<and>
    (\<forall>x. view (p_vma (ks_procs k' i)) x =
       (if start \<le> x \<and> x < end then Some (t, perm, 0, -1, (x - start) mod 2 ^ 64, None) else view (p_vma (ks_procs k i)) x)) \<and>
    (\<forall>j. j \<noteq> i \<longrightarrow> ks_procs k' j = ks_procs k j)"
proof -
  let ?vs = "p_vma (ks_procs k i)"
  have s: "buddy_wf (ks_pm k)" "\<not> bs_lock (ks_pm k)" using o by (auto simp: owned_def)
  obtain n where n: "place_vma start end ?vs = Insert_at n" "\<forall>v \<in> set (take n ?vs). vma_end v \<le> start"
    "\<forall>v \<in> set (drop n ?vs). end \<le> vma_addr v" using place_split [OF free ok r] by blast
  obtain b s1 where b: "pmem_alloc_pages (ks_pm k) 1 = Some (b, s1)" "b \<noteq> 0"
    "\<And>v. vma_self v = b \<Longrightarrow> swaps [] (ks_pm k) [v] s1" using add_struct [OF s f] by blast
  define w where "w = \<lparr>vma_self = b, vma_type = t, vma_perm = perm, vma_orig_prot = 0,
     vma_addr = start, vma_size = u64 sz, vma_end = end, vma_flags = 0, vma_fd = -1,
     vma_f_off = 0, vma_fsize = 0, vma_ref_count = 1, vma_shm_kernel = None\<rparr>"
  let ?k = "upd_proc i (\<lambda>p. p\<lparr>p_vma := insert_at n w (p_vma p)\<rparr>) (with_vm k ((ks_vm k)\<lparr>vs_pm := s1\<rparr>))"
  have "alloc_vma i t a sz perm False 0 k = Some (w, ?k)"
    using h n(1) b(1,2) unfolding alloc_vma_def Let_def start_def end_def by (simp add: w_def start_def end_def)
  moreover have k: "p_vma (ks_procs ?k i) = insert_at n w ?vs" "ks_pm ?k = s1" "\<And>j. j \<noteq> i \<Longrightarrow> ks_procs ?k j = ks_procs k j"
    by (simp_all add: upd_proc_def with_vm_def)
  moreover have "attr x w = (t, perm, 0, -1, (x - start) mod 2 ^ 64, None)" for x by (simp add: attr_def w_def)
  moreover have "w \<in> set (insert_at n w ?vs)" by (simp add: insert_at_def)
  moreover have "areas_ok (insert_at n w ?vs)" "\<And>x. view (insert_at n w ?vs) x = (if covers w x then Some (attr x w) else view ?vs x)"
    using insert_area [of n ?vs w] n(2,3) ok r by (simp_all add: w_def)
  moreover have "owned (insert_at n w ?vs) s1" by (rule owned_insert [OF o b(3)]) (simp add: w_def)
  moreover have "vma_addr w = start" "vma_end w = end" "vma_type w = t" "vma_perm w = perm" by (simp_all add: w_def)
  ultimately show ?thesis by (intro exI [of _ w] exI [of _ ?k]) simp
qed

text \<open>
  C25: \<^verbatim>\<open>free_vma\<close> takes exactly the addresses from \<open>start\<close> to \<open>end\<close> away from a process: it returns 1, every
  address outside the range keeps its area's type, permissions, file and file offset, the areas are
  still in order and apart, their structures are different live pages, and nothing but the structures
  of the old and of the new areas changed hands. Two free pages are enough for it.
\<close>

theorem free_vma_removes:
  assumes h: "p_vma_head (ks_procs k i) \<noteq> 0" and ok: "areas_ok (p_vma (ks_procs k i))"
    and o: "owned (p_vma (ks_procs k i)) (ks_pm k)" and f: "2 \<le> free_count (ks_pm k)" and r: "start \<le> end" "end < 2 ^ 64"
  shows "\<exists>k'. free_vma i start end k = Some (1, k') \<and> areas_ok (p_vma (ks_procs k' i)) \<and>
    swaps (p_vma (ks_procs k i)) (ks_pm k) (p_vma (ks_procs k' i)) (ks_pm k') \<and>
    (\<forall>a. view (p_vma (ks_procs k' i)) a = (if start \<le> a \<and> a < end then None else view (p_vma (ks_procs k i)) a)) \<and>
    (\<forall>j. j \<noteq> i \<longrightarrow> ks_procs k' j = ks_procs k j)"
proof -
  obtain vs s where v: "free_areas start end (p_vma (ks_procs k i)) (ks_pm k) = Some (vs, s)"
    "swaps (p_vma (ks_procs k i)) (ks_pm k) vs s"
    "map strip vs = map strip (concat (map (cut_area start end) (p_vma (ks_procs k i))))"
    using free_areas_cuts [OF o ok] f by blast
  let ?k = "upd_proc i (\<lambda>p. p\<lparr>p_vma := vs\<rparr>) (with_pm k s)"
  have "free_vma i start end k = Some (1, ?k)" using h v(1) by (simp add: free_vma_def)
  moreover have "p_vma (ks_procs ?k i) = vs" "ks_pm ?k = s" "\<And>j. j \<noteq> i \<Longrightarrow> ks_procs ?k j = ks_procs k j"
    by (simp_all add: upd_proc_def with_pm_def)
  ultimately show ?thesis
    using same_areas [OF v(3)] cuts_ok [OF r(1) ok] view_cuts [OF r] v(2) by (intro exI [of _ ?k]) auto
qed

section \<open>Witnesses\<close>

definition sample_area :: "addr \<Rightarrow> vma" where
  "sample_area a = \<lparr>vma_self = a, vma_type = MMAP, vma_perm = 22, vma_orig_prot = 3, vma_addr = 0x10000, vma_size = 0x4000,
     vma_end = 0x14000, vma_flags = 0, vma_fd = 5, vma_f_off = 0, vma_fsize = 0, vma_ref_count = 1, vma_shm_kernel = None\<rparr>"

definition sample_proc :: "buddy_system \<Rightarrow> addr \<Rightarrow> vma list \<Rightarrow> ksys" where
  "sample_proc s pt vs = undefined\<lparr>ks_vm := \<lparr>vs_pm = s, vs_lock = False\<rparr>,
     ks_procs := (\<lambda>_. undefined\<lparr>p_pagetable := pt, p_vma_head := 1, p_vma := vs\<rparr>)\<rparr>"

lemma sample_proc_simps [simp]:
  "ks_vm (sample_proc s pt vs) = \<lparr>vs_pm = s, vs_lock = False\<rparr>" "p_vma (ks_procs (sample_proc s pt vs) i) = vs"
  "p_vma_head (ks_procs (sample_proc s pt vs) i) = 1" "p_pagetable (ks_procs (sample_proc s pt vs) i) = pt"
  by (simp_all add: sample_proc_def)

theorem alloc_vma_adds_witness:
  "\<exists>k v k'. alloc_vma 0 MMAP 0x10000 0x4000 22 False 0 k = Some (v, k') \<and>
     view (p_vma (ks_procs k' 0)) 0x13000 = Some (MMAP, 22, 0, -1, 0x3000, None)"
proof -
  obtain s where s: "buddy_wf s" "\<not> bs_lock s" "32 \<le> free_count s" using small_allocator by blast
  let ?k = "sample_proc s 0 []"
  have r: "PGROUNDUP 0x10000 = 0x10000" "PGROUNDUP (add64 0x10000 (u64 0x4000)) = 0x14000" by code_simp+
  have "\<exists>v k'. alloc_vma 0 MMAP 0x10000 0x4000 22 False 0 ?k = Some (v, k') \<and> v \<in> set (p_vma (ks_procs k' 0)) \<and>
    vma_type v = MMAP \<and> vma_perm v = 22 \<and> areas_ok (p_vma (ks_procs k' 0)) \<and> owned (p_vma (ks_procs k' 0)) (ks_pm k') \<and>
    (\<forall>x. view (p_vma (ks_procs k' 0)) x =
       (if PGROUNDUP 0x10000 \<le> x \<and> x < PGROUNDUP (add64 0x10000 (u64 0x4000))
        then Some (MMAP, 22, 0, -1, (x - PGROUNDUP 0x10000) mod 2 ^ 64, None) else view (p_vma (ks_procs ?k 0)) x)) \<and>
    (\<forall>j. j \<noteq> 0 \<longrightarrow> ks_procs k' j = ks_procs ?k j)"
    by (rule alloc_vma_adds) (use s r in \<open>simp_all add: owned_def\<close>)
  then obtain v k' where "alloc_vma 0 MMAP 0x10000 0x4000 22 False 0 ?k = Some (v, k')"
    "\<forall>x. view (p_vma (ks_procs k' 0)) x = (if 0x10000 \<le> x \<and> x < 0x14000
        then Some (MMAP, 22, 0, -1, (x - 0x10000) mod 2 ^ 64, None) else view (p_vma (ks_procs ?k 0)) x)"
    unfolding r by blast
  then show ?thesis by (intro exI [of _ ?k] exI [of _ v] exI [of _ k']) simp
qed

theorem free_vma_removes_witness:
  "\<exists>k k'. free_vma 0 0x11000 0x12000 k = Some (1, k') \<and> view (p_vma (ks_procs k' 0)) 0x11fff = None \<and>
     view (p_vma (ks_procs k' 0)) 0x12000 = Some (MMAP, 22, 0, 5, 0x2000, None)"
proof -
  obtain s where s: "buddy_wf s" "\<not> bs_lock s" "32 \<le> free_count s" using small_allocator by blast
  then obtain b s1 where b: "\<And>v. vma_self v = b \<Longrightarrow> swaps [] s [v] s1" "free_count s1 = free_count s - 1"
    using add_struct [OF s(1,2)] by fastforce
  let ?w = "sample_area b" and ?k = "sample_proc s1 0 [sample_area b]"
  have o: "owned [?w] s1" by (rule swaps_owned [OF b(1)]) (simp add: sample_area_def)
  have "\<exists>k'. free_vma 0 0x11000 0x12000 ?k = Some (1, k') \<and> areas_ok (p_vma (ks_procs k' 0)) \<and>
    swaps (p_vma (ks_procs ?k 0)) (ks_pm ?k) (p_vma (ks_procs k' 0)) (ks_pm k') \<and>
    (\<forall>a. view (p_vma (ks_procs k' 0)) a = (if 0x11000 \<le> a \<and> a < 0x12000 then None else view (p_vma (ks_procs ?k 0)) a)) \<and>
    (\<forall>j. j \<noteq> 0 \<longrightarrow> ks_procs k' j = ks_procs ?k j)"
    by (rule free_vma_removes) (use o b(2) s(3) in \<open>simp_all add: sample_area_def\<close>)
  then obtain k' where "free_vma 0 0x11000 0x12000 ?k = Some (1, k')"
    "\<forall>a. view (p_vma (ks_procs k' 0)) a = (if 0x11000 \<le> a \<and> a < 0x12000 then None else view [?w] a)" by auto
  then show ?thesis by (intro exI [of _ ?k] exI [of _ k']) (simp add: sample_area_def attr_def)
qed

end
