(* ===== verification/Vma_Unmap.thy ===== *)
theory Vma_Unmap
  imports Vma_Props "HOL-Library.Multiset"
begin

text \<open>
  \<^verbatim>\<open>munmap\<close> on areas whose pages are private: each mapped page of the areas \<open>D\<close> is a block of one page of the
  page allocator that belongs to this page alone, as the anonymous mappings of \<^verbatim>\<open>mmap\<close>, copying on write and the copies of
  \<^verbatim>\<open>fork\<close> make them (\<open>space_map_page\<close>). The pages of a file mapping and of the stack come from one block of many pages
  and are not of this kind: there the first page that is unmapped releases the whole block (\<open>vmunmap_frees_block\<close>).
  \<open>space_ok\<close> is the invariant of the page table, of these pages and of
  the structures of the areas; allocating a structure, releasing one, mapping a page and unmapping a range keep it.
\<close>

unbundle bit_operations_syntax

definition mapped :: "buddy_system \<Rightarrow> tree \<Rightarrow> addr set \<Rightarrow> addr set" where
  "mapped s T D = {va \<in> D. PGSIZE dvd va \<and> pte_at (bs_mem s) T va AND PTE_V \<noteq> 0}"

abbreviation page_of :: "buddy_system \<Rightarrow> tree \<Rightarrow> addr \<Rightarrow> addr" where
  "page_of s T va \<equiv> PTE2PA (pte_at (bs_mem s) T va)"

definition space_ok :: "buddy_system \<Rightarrow> addr \<Rightarrow> tree \<Rightarrow> addr set \<Rightarrow> vma list \<Rightarrow> bool" where
  "space_ok s pt T D vs \<longleftrightarrow> pt_inv s pt T \<and> owned vs s \<and> D \<subseteq> {..<MAXVA} \<and>
     (\<forall>va \<in> mapped s T D. PTE_FLAGS (pte_at (bs_mem s) T va) \<noteq> PTE_V \<and> page_of s T va \<in> live_structs s - selfs vs - ran T) \<and>
     inj_on (page_of s T) (mapped s T D) \<and> selfs vs \<inter> ran T = {}"

lemma space_okD:
  assumes "space_ok s pt T D vs"
  shows "pt_inv s pt T" "owned vs s" "buddy_wf s" "\<not> bs_lock s" "D \<subseteq> {..<MAXVA}" "inj_on (page_of s T) (mapped s T D)"
    "selfs vs \<inter> ran T = {}"
    and "va \<in> mapped s T D \<Longrightarrow> PTE_FLAGS (pte_at (bs_mem s) T va) \<noteq> PTE_V \<and> page_of s T va \<in> live_structs s - selfs vs - ran T"
  using assms unfolding space_ok_def pt_inv_def by blast+

lemma live_frames: "live_structs s \<subseteq> frames s"
  by (auto simp: live_structs_def live_blocks_def frames_def used_pages_def is_block_def)

lemma pt_inv_ran: "pt_inv s pt T \<Longrightarrow> ran T \<subseteq> frames s"
  by (auto simp: pt_inv_def ran_def)

section \<open>The three steps\<close>

lemma space_alloc:
  assumes sp: "space_ok s pt T D vs" and f: "0 < free_count s"
  shows "\<exists>b s1. pmem_alloc_pages s 1 = Some (b, s1) \<and> b \<noteq> 0 \<and> (\<forall>v. vma_self v = b \<longrightarrow> space_ok s1 pt T D (v # vs)) \<and>
    (\<forall>va. pte_at (bs_mem s1) T va = pte_at (bs_mem s) T va) \<and> free_count s1 = free_count s - 1"
proof -
  note S = space_okD [OF sp]
  obtain b s1 where b: "pmem_alloc_pages s 1 = Some (b, s1)" "pt_inv s1 pt T" "grows 1 s T s1 T" "0 < b" "b \<notin> frames s"
    using alloc_grows [OF S(1) f] by blast
  have e: "pte_at (bs_mem s1) T va = pte_at (bs_mem s) T va" for va using growsD(6) [OF b(3)] .
  have l: "live_structs s1 = insert b (live_structs s)" "free_count s1 = free_count s - 1" "buddy_wf s1" "\<not> bs_lock s1"
    using pg.new_struct [of s] S(3,4) f b(1) by auto
  have m: "mapped s1 T D = mapped s T D" by (simp add: mapped_def e)
  have nb: "b \<notin> live_structs s" "b \<notin> ran T" using b(5) live_frames pt_inv_ran [OF S(1)] by blast+
  have o: "distinct (map vma_self vs)" "selfs vs \<subseteq> live_structs s" using S(2) by (auto simp: owned_def)
  have "space_ok s1 pt T D (v # vs)" if v: "vma_self v = b" for v
    unfolding space_ok_def m e
  proof (intro conjI ballI)
    show "owned (v # vs) s1" using o nb(1) l v by (auto simp: owned_def)
    show "selfs (v # vs) \<inter> ran T = {}" using S(7) nb(2) v by auto
    fix va assume va: "va \<in> mapped s T D"
    note S(8) [OF va]
    then show "PTE_FLAGS (pte_at (bs_mem s) T va) \<noteq> PTE_V" "page_of s T va \<in> live_structs s1 - selfs (v # vs) - ran T"
      using nb(1) l(1) v by auto
  qed (rule b(2) S(5) S(6))+
  then show ?thesis using b(1,4) e l(2) by blast
qed

lemma space_free:
  assumes sp: "space_ok s pt T D (v # vs)"
  shows "\<exists>s1. pmem_free_pages s (vma_self v) 1 = Some s1 \<and> space_ok s1 pt T D vs \<and> bs_mem s1 = bs_mem s \<and> free_count s < free_count s1"
proof -
  note S = space_okD [OF sp]
  have o: "vma_self v \<in> live_structs s" "vma_self v \<notin> selfs vs" "distinct (map vma_self vs)" "selfs vs \<subseteq> live_structs s"
    using S(2) by (auto simp: owned_def)
  obtain s1 where s1: "pmem_free_pages s (vma_self v) 1 = Some s1" "buddy_wf s1" "\<not> bs_lock s1" "bs_mem s1 = bs_mem s"
    "live_blocks s1 = live_blocks s - {(vma_self v, 0)}" "frames s1 = frames s - {vma_self v}" "free_count s < free_count s1"
    using pmem_free_struct [OF S(3,4), of "vma_self v"] o(1) unfolding live_structs_def by blast
  have l: "live_structs s1 = live_structs s - {vma_self v}" using s1(5) by (auto simp: live_structs_def)
  have m: "mapped s1 T D = mapped s T D" by (simp add: mapped_def s1(4))
  have "space_ok s1 pt T D vs"
    unfolding space_ok_def m s1(4)
  proof (intro conjI ballI)
    have "vma_self v \<notin> ran T" using S(7) by simp
    then show "pt_inv s1 pt T" using S(1) s1(2-4,6) unfolding pt_inv_def by (auto intro: ranI)
    show "owned vs s1" using o s1(2,3) unfolding owned_def l by blast
    show "selfs vs \<inter> ran T = {}" using S(7) by auto
    fix va assume va: "va \<in> mapped s T D"
    note S(8) [OF va]
    then show "PTE_FLAGS (pte_at (bs_mem s) T va) \<noteq> PTE_V" "page_of s T va \<in> live_structs s1 - selfs vs - ran T"
      using l by auto
  qed (rule S(5) S(6))+
  then show ?thesis using s1(1,4,7) by blast
qed

lemma put64_pm [simp]:
  "live_structs (put64 s a e) = live_structs s" "free_count (put64 s a e) = free_count s"
  "buddy_wf (put64 s a e) = buddy_wf s" "bs_lock (put64 s a e) = bs_lock s" "frames (put64 s a e) = frames s"
  by (simp_all add: put64_def live_structs_def)

lemma space_unmap_page:
  assumes sp: "space_ok s pt T D vs" and va: "va \<in> D" "PGSIZE dvd va"
  shows "\<exists>s1. unmap_page s pt va True = Some s1 \<and> space_ok s1 pt T D vs \<and> free_count s \<le> free_count s1 \<and>
    (\<forall>vb < MAXVA. pte_at (bs_mem s1) T vb = (if vb \<in> same_page va then cleared (pte_at (bs_mem s) T vb) else pte_at (bs_mem s) T vb))"
proof (cases "pte_at (bs_mem s) T va AND PTE_V = 0")
  case True
  note S = space_okD [OF sp]
  have T: "pt_tree (bs_mem s) pt T" and lt: "va < MAXVA" using S(1,5) va(1) by (auto simp: pt_inv_def)
  have "unmap_page s pt va True = Some s"
    using walk_tree [OF T lt] True by (auto simp: unmap_page_def pte_at_def split: option.splits)
  moreover have "cleared (pte_at (bs_mem s) T vb) = pte_at (bs_mem s) T vb" if "vb \<in> same_page va" for vb
    using True same_page_entry [OF that] by (simp add: cleared_def)
  ultimately show ?thesis using sp by (intro exI [of _ s]) simp
next
  case False
  note S = space_okD [OF sp]
  have T: "pt_tree (bs_mem s) pt T" and lt: "va < MAXVA" using S(1,5) va(1) by (auto simp: pt_inv_def)
  let ?e = "pte_at (bs_mem s) T va"
  have m: "va \<in> mapped s T D" using va False by (simp add: mapped_def)
  have pa: "PTE_FLAGS ?e \<noteq> PTE_V" "(PTE2PA ?e, 0) \<in> live_blocks s" "PTE2PA ?e \<notin> selfs vs" "PTE2PA ?e \<notin> ran T"
    using S(8) [OF m] by (auto simp: live_structs_def)
  obtain sl where sl: "slot T va = Some sl" "read64 (bs_mem s) sl = ?e" using False by (auto simp: pte_at_def split: option.splits)
  obtain s1 where s1: "pmem_free_pages s (PTE2PA ?e) 1 = Some s1" "buddy_wf s1" "\<not> bs_lock s1" "bs_mem s1 = bs_mem s"
    "live_blocks s1 = live_blocks s - {(PTE2PA ?e, 0)}" "frames s1 = frames s - {PTE2PA ?e}" "free_count s < free_count s1"
    using pmem_free_struct [OF S(3,4) pa(2)] by blast
  have i1: "pt_inv s1 pt T" using S(1) s1(2-4,6) pa(4) unfolding pt_inv_def by (auto intro: ranI)
  let ?s = "put64 s1 sl 0"
  have rng: "mem_start s \<le> PTE2PA ?e" "PTE2PA ?e < mem_end s"
    using live_in_region [OF S(3) pa(2), of "PTE2PA ?e"] by (auto simp: block_bytes_def)
  moreover have "PTE2PA ?e \<noteq> 0" using rng inv_geom [OF S(3)] by (auto simp: buddy_geom_def)
  ultimately have u: "unmap_page s pt va True = Some ?s"
    using walk_tree [OF T lt] sl slot_nonzero [OF T sl(1)] False pa(1) s1(1) by (simp add: unmap_page_def Let_def)
  have i2: "pt_inv ?s pt T" "remaps 0 s1 T (same_page va) (\<lambda>_. 0) ?s T" using put_leaf [OF i1 sl(1) lt, of "\<lambda>_. 0" 0] by auto
  have e: "pte_at (bs_mem ?s) T vb = (if vb \<in> same_page va then 0 else pte_at (bs_mem s) T vb)" if "vb < MAXVA" for vb
    using remapsD(6) [OF i2(2) that] s1(4) by simp
  have cl: "cleared (pte_at (bs_mem s) T vb) = 0" if "vb \<in> same_page va" for vb
    using False same_page_entry [OF that] by (simp add: cleared_def)
  have l: "live_structs ?s = live_structs s - {PTE2PA ?e}" unfolding put64_pm by (simp only: live_structs_def s1(5)) blast
  have m': "vb \<in> mapped s T D" "vb \<noteq> va" "pte_at (bs_mem ?s) T vb = pte_at (bs_mem s) T vb" if "vb \<in> mapped ?s T D" for vb
    using that e [of vb] S(5) by (auto simp: mapped_def split: if_splits)
  have "space_ok ?s pt T D vs"
    unfolding space_ok_def
  proof (intro conjI ballI)
    show "owned vs ?s" using S(2) pa(3) s1(2,3) unfolding owned_def l by simp blast
    show "inj_on (page_of ?s T) (mapped ?s T D)" using S(6) m' unfolding inj_on_def by metis
    fix vb assume vb: "vb \<in> mapped ?s T D"
    have "page_of s T vb \<noteq> PTE2PA ?e" using inj_onD [OF S(6) _ m'(1) [OF vb] m] m'(2) [OF vb] by blast
    then show "PTE_FLAGS (pte_at (bs_mem ?s) T vb) \<noteq> PTE_V" "page_of ?s T vb \<in> live_structs ?s - selfs vs - ran T"
      using S(8) [OF m'(1) [OF vb]] l unfolding m'(3) [OF vb] by auto
  qed (rule i2(1) S(5) S(7))+
  then show ?thesis using u e cl s1(7) by (intro exI [of _ ?s]) auto
qed

text \<open>
  A page of an anonymous mapping: a new block of one page, mapped at an address that has no page.
\<close>

lemma space_map_page:
  assumes sp: "space_ok s pt T D vs" and f: "3 \<le> free_count s" and va: "va \<in> D" "PGSIZE dvd va" "va + PGSIZE \<le> MAXVA"
    and un: "pte_at (bs_mem s) T va AND PTE_V = 0" and perm: "perm AND NOT 0x3FF = 0" "(perm OR PTE_V) AND NOT 0x3FF = 0" "perm OR PTE_V \<noteq> PTE_V"
  shows "\<exists>pa s1 s2 T'. pmem_alloc_pages s 1 = Some (pa, s1) \<and> mappages_internal s1 pt va pa PGSIZE perm = Some (1, s2) \<and>
    space_ok s2 pt T' D vs \<and> free_count s \<le> free_count s2 + 3 \<and> pte_at (bs_mem s2) T' va = PA2PTE pa OR perm OR PTE_V \<and>
    (\<forall>vb < MAXVA. vb \<notin> same_page va \<longrightarrow> pte_at (bs_mem s2) T' vb = pte_at (bs_mem s) T vb)"
proof -
  have f1: "0 < free_count s" using f by simp
  obtain pa s1 where a: "pmem_alloc_pages s 1 = Some (pa, s1)" "\<And>v. vma_self v = pa \<Longrightarrow> space_ok s1 pt T D (v # vs)"
    "\<And>vb. pte_at (bs_mem s1) T vb = pte_at (bs_mem s) T vb" "free_count s1 = free_count s - 1"
    using space_alloc [OF sp f1] by blast
  define v :: vma where "v = undefined\<lparr>vma_self := pa\<rparr>"
  have v: "vma_self v = pa" by (simp add: v_def)
  note S = space_okD [OF a(2) [OF v]]
  have pa: "PGSIZE dvd pa" "pa < 2 ^ 64" using alloc_grows [OF space_okD(1) [OF sp] f1] a(1) by auto
  have sv: "pa \<in> live_structs s1" "pa \<notin> selfs vs" "selfs vs \<subseteq> live_structs s1" "distinct (map vma_self vs)" using S(2) v by (auto simp: owned_def)
  have pc: "page_count va PGSIZE = 1" using page_count_aligned [of va 1] va(2) by (simp add: dvd_eq_mod_eq_0)
  have R: "{vb. va div PGSIZE \<le> vb div PGSIZE \<and> vb div PGSIZE < va div PGSIZE + 1} = same_page va" by auto
  have un': "pte_at (bs_mem s1) T vb AND PTE_V = 0" if "va div PGSIZE \<le> vb div PGSIZE" "vb div PGSIZE < va div PGSIZE + page_count va PGSIZE" for vb
    using same_page_entry [of vb va "bs_mem s1" T] un that unfolding pc a(3) by auto
  have len: "0 < PGSIZE" "pa mod PGSIZE = 0" "2 * page_count va PGSIZE \<le> free_count s1" using pa(1) f a(4) by (simp_all add: pc dvd_eq_mod_eq_0)
  obtain s2 T' where 2: "mappages_internal s1 pt va pa PGSIZE perm = Some (1, s2)" "pt_inv s2 pt T'"
    "remaps 2 s1 T (same_page va) (leaf_entry pa va perm) s2 T'"
    using map_range [where perm = perm, OF S(1) len(1) va(3) len(2,3) un'] unfolding pc R by auto
  note m = remapsD [OF 2(3)]
  have e: "pte_at (bs_mem s2) T' va = PA2PTE pa OR perm OR PTE_V" using m(6) [of va] va(3) by (simp add: leaf_entry_def)
  have same: "pte_at (bs_mem s2) T' vb = pte_at (bs_mem s) T vb" if "vb < MAXVA" "vb \<notin> same_page va" for vb using m(6) [OF that(1)] that(2) a(3) by simp
  have live: "live_structs s1 \<subseteq> live_structs s2" using m(8) by (auto simp: live_structs_def)
  have ran: "x \<notin> ran T'" if "x \<in> live_structs s1" "x \<notin> ran T" for x using m(5) that live_frames by (fastforce simp: ran_def)
  have mp: "vb = va \<or> vb \<in> mapped s1 T D \<and> page_of s2 T' vb = page_of s1 T vb \<and> pte_at (bs_mem s2) T' vb = pte_at (bs_mem s1) T vb"
    if "vb \<in> mapped s2 T' D" for vb
  proof (cases "vb \<in> same_page va")
    case True
    then show ?thesis using that va(2) by (auto simp: mapped_def elim!: dvdE)
  next
    case False
    then show ?thesis using same [of vb] a(3) [of vb] that S(5) by (auto simp: mapped_def)
  qed
  have pv: "page_of s2 T' va = pa" unfolding e using PTE2PA_PA2PTE [OF pa perm(2)] by (simp only: or.assoc)
  have old: "page_of s1 T vb \<in> live_structs s1 - selfs (v # vs) - ran T" if "vb \<in> mapped s1 T D" for vb using S(8) [OF that] by blast
  have "space_ok s2 pt T' D vs"
    unfolding space_ok_def
  proof (intro conjI ballI)
    show "pt_inv s2 pt T'" "D \<subseteq> {..<MAXVA}" by (rule 2(2) S(5))+
    show "owned vs s2" using sv live 2(2) by (auto simp: owned_def pt_inv_def)
    show "selfs vs \<inter> ran T' = {}" using ran sv(3) S(7) by fastforce
    show "inj_on (page_of s2 T') (mapped s2 T' D)"
    proof (rule inj_onI)
      fix x y assume x: "x \<in> mapped s2 T' D" and y: "y \<in> mapped s2 T' D" and eq: "page_of s2 T' x = page_of s2 T' y"
      have np: "page_of s1 T z \<noteq> pa" if "z \<in> mapped s1 T D" for z using old [OF that] v by auto
      show "x = y" using mp [OF x] mp [OF y] eq pv np S(6) unfolding inj_on_def by metis
    qed
    fix vb assume vb: "vb \<in> mapped s2 T' D"
    show "PTE_FLAGS (pte_at (bs_mem s2) T' vb) \<noteq> PTE_V"
      using mp [OF vb] S(8) [of vb] e PTE_FLAGS_leaf [OF perm(1), of pa] perm(3) by metis
    have "pa \<notin> ran T" using S(7) v by auto
    then show "page_of s2 T' vb \<in> live_structs s2 - selfs vs - ran T'"
      using mp [OF vb] pv old [of vb] ran sv(1,2) live by auto
  qed
  then show ?thesis using a(1,4) 2(1) m(3) e same f by (intro exI [of _ pa] exI [of _ s1] exI [of _ s2] exI [of _ T']) auto
qed

section \<open>Unmapping a range\<close>

text \<open>\<open>clears s T X s'\<close>: the entries of the addresses \<open>X\<close> are cleared, the others are as before.\<close>

definition clears :: "buddy_system \<Rightarrow> tree \<Rightarrow> addr set \<Rightarrow> buddy_system \<Rightarrow> bool" where
  "clears s T X s' \<longleftrightarrow> (\<forall>vb < MAXVA. pte_at (bs_mem s') T vb =
     (if vb \<in> X then cleared (pte_at (bs_mem s) T vb) else pte_at (bs_mem s) T vb))"

lemma cleared_idem [simp]: "cleared (cleared e) = cleared e"
  by (simp add: cleared_def)

lemma clears_trans: "clears s T X s1 \<Longrightarrow> clears s1 T Y s2 \<Longrightarrow> clears s T (X \<union> Y) s2"
  by (auto simp: clears_def)

lemma clears_empty: "(\<And>va. pte_at (bs_mem s') T va = pte_at (bs_mem s) T va) \<Longrightarrow> clears s T {} s'"
  by (simp add: clears_def)

lemma space_unmap_loop:
  "space_ok s pt T D vs \<Longrightarrow> PGSIZE dvd b \<Longrightarrow> {b..<b + n * PGSIZE} \<subseteq> D \<Longrightarrow>
   \<exists>s1. unmap_loop s pt b (b + n * PGSIZE) True = Some s1 \<and> space_ok s1 pt T D vs \<and> free_count s \<le> free_count s1 \<and>
     clears s T {b..<b + n * PGSIZE} s1"
proof (induction n arbitrary: b s)
  case 0
  then show ?case by (subst unmap_loop.simps) (auto intro: clears_empty)
next
  case (Suc n)
  have b: "b \<in> D" "b mod PGSIZE = 0" using Suc.prems(2,3) by auto
  obtain s1 where 1: "unmap_page s pt b True = Some s1" "space_ok s1 pt T D vs" "free_count s \<le> free_count s1"
    "\<forall>vb < MAXVA. pte_at (bs_mem s1) T vb = (if vb \<in> same_page b then cleared (pte_at (bs_mem s) T vb) else pte_at (bs_mem s) T vb)"
    using space_unmap_page [OF Suc.prems(1) b(1) Suc.prems(2)] by blast
  have sp: "same_page b = {b..<b + PGSIZE}" using page_range [OF b(2), of 0] by simp
  have c1: "clears s T {b..<b + PGSIZE} s1" unfolding clears_def sp [symmetric] by (rule 1(4))
  have "PGSIZE dvd b + PGSIZE" "{b + PGSIZE..<b + PGSIZE + n * PGSIZE} \<subseteq> D" using Suc.prems(2,3) by auto
  then obtain s2 where 2: "unmap_loop s1 pt (b + PGSIZE) (b + PGSIZE + n * PGSIZE) True = Some s2" "space_ok s2 pt T D vs"
    "free_count s1 \<le> free_count s2" "clears s1 T {b + PGSIZE..<b + PGSIZE + n * PGSIZE} s2"
    using Suc.IH [OF 1(2), of "b + PGSIZE"] by blast
  have "{b..<b + PGSIZE} \<union> {b + PGSIZE..<b + PGSIZE + n * PGSIZE} = {b..<b + Suc n * PGSIZE}" by auto
  then have "clears s T {b..<b + Suc n * PGSIZE} s2" using clears_trans [OF c1 2(4)] by simp
  moreover have "unmap_loop s pt b (b + Suc n * PGSIZE) True = Some s2"
    using 1(1) 2(1) by (subst unmap_loop.simps) (simp add: add.assoc)
  ultimately show ?case using 1(3) 2(2,3) by auto
qed

lemma ks_pm_simps [simp]:
  "with_pm (with_pm k s) s' = with_pm k s'" "ks_pm (with_pm k s) = s" "with_pm k (ks_pm k) = k"
  "vs_lock (ks_vm (with_pm k s)) = vs_lock (ks_vm k)" "ks_procs (with_pm k s) = ks_procs k"
  by (simp_all add: with_pm_def)

lemma unmap_range:
  assumes sp: "space_ok (ks_pm k) pt T D vs" and l: "\<not> vs_lock (ks_vm k)"
    and r: "PGSIZE dvd a" "PGSIZE dvd b" "a \<le> b" "b \<le> MAXVA" "{a..<b} \<subseteq> D"
  shows "\<exists>s1. unmap_pages pt a b True k = Some (with_pm k s1) \<and> space_ok s1 pt T D vs \<and>
    free_count (ks_pm k) \<le> free_count s1 \<and> clears (ks_pm k) T {a..<b} s1"
proof -
  obtain x y where xy: "a = PGSIZE * x" "b = PGSIZE * y" using r(1,2) by (auto elim!: dvdE)
  then have n: "b = a + (y - x) * PGSIZE" "(b - a) div PGSIZE = y - x" using r(3) by (simp_all add: diff_mult_distrib2 [symmetric])
  have sub: "sub64 b a = b - a" using r(3,4) by (simp add: sub64_in_range)
  have add: "add64 a ((y - x) * PGSIZE) = b" using n(1) r(4) by (simp add: add64_def)
  obtain s1 where s1: "unmap_loop (ks_pm k) pt a b True = Some s1" "space_ok s1 pt T D vs"
    "free_count (ks_pm k) \<le> free_count s1" "clears (ks_pm k) T {a..<b} s1"
    using space_unmap_loop [OF sp r(1), of "y - x"] r(5) unfolding n(1) [symmetric] by blast
  have "a mod PGSIZE = 0" using r(1) by auto
  then have "unmap_pages pt a b True k = Some (with_pm k s1)"
    using l s1(1) by (simp add: unmap_pages_def vmunmap_def sub n(2) add with_vm_def with_pm_def)
  then show ?thesis using s1(2-4) by blast
qed

section \<open>The areas of a range\<close>

text \<open>What \<^verbatim>\<open>munmap\<close> is called on: areas on page boundaries, not shared, each used by one thread.\<close>

definition plain :: "vma \<Rightarrow> bool" where
  "plain v \<longleftrightarrow> PGSIZE dvd vma_addr v \<and> PGSIZE dvd vma_end v \<and> vma_addr v \<le> vma_end v \<and> vma_end v \<le> MAXVA \<and>
     vma_ref_count v \<le> 1 \<and> vma_type v \<noteq> SHARE"

abbreviation area :: "vma \<Rightarrow> addr set" where
  "area v \<equiv> {vma_addr v..<vma_end v}"

lemma munmap_whole_plain:
  assumes sp: "space_ok (ks_pm k) pt T D (v # vs)" and l: "\<not> vs_lock (ks_vm k)" and v: "plain v" "area v \<subseteq> D"
  shows "\<exists>s1. munmap_whole pt v k = Some ([], with_pm k s1) \<and> space_ok s1 pt T D vs \<and>
    free_count (ks_pm k) < free_count s1 \<and> clears (ks_pm k) T (area v) s1"
proof -
  obtain s1 where s1: "unmap_pages pt (vma_addr v) (vma_end v) True k = Some (with_pm k s1)" "space_ok s1 pt T D (v # vs)"
    "free_count (ks_pm k) \<le> free_count s1" "clears (ks_pm k) T (area v) s1"
    using unmap_range [OF sp l _ _ _ _ v(2)] v(1) unfolding plain_def by blast
  obtain s2 where s2: "pmem_free_pages s1 (vma_self v) 1 = Some s2" "space_ok s2 pt T D vs" "bs_mem s2 = bs_mem s1"
    "free_count s1 < free_count s2" using space_free [OF s1(2)] by blast
  have "munmap_whole pt v k = Some ([], with_pm k s2)"
    using v(1) s1(1) s2(1) by (simp add: munmap_whole_def plain_def free_struct_def)
  moreover have "clears (ks_pm k) T (area v) s2" using s1(4) s2(3) by (simp add: clears_def)
  ultimately show ?thesis using s1(3) s2(2,4) by (intro exI [of _ s2]) auto
qed

lemma space_perm: "space_ok s pt T D vs \<Longrightarrow> mset ws = mset vs \<Longrightarrow> space_ok s pt T D ws"
proof -
  assume sp: "space_ok s pt T D vs" and m: "mset ws = mset vs"
  have "mset (map vma_self ws) = mset (map vma_self vs)" using m by simp
  then have "distinct (map vma_self ws) = distinct (map vma_self vs)" by (rule mset_eq_imp_distinct_iff)
  then show ?thesis using sp mset_eq_setD [OF m] unfolding space_ok_def owned_def by simp
qed

text \<open>A new structure for a part of an area, if there is such a part.\<close>

lemma optional_struct:
  assumes sp: "space_ok (ks_pm k) pt T D vs" and f: "c \<Longrightarrow> 0 < free_count (ks_pm k)" and w: "\<And>a. vma_self (w a) = a"
  shows "\<exists>l s1. (if c then map_option (\<lambda>(a, k1). ([w a], k1)) (new_struct k) else Some ([], k)) = Some (l, with_pm k s1) \<and>
    (\<exists>a. l = (if c then [w a] else [])) \<and> space_ok s1 pt T D (l @ vs) \<and> clears (ks_pm k) T {} s1 \<and>
    free_count (ks_pm k) = free_count s1 + (if c then 1 else 0)"
proof (cases c)
  case True
  obtain b s1 where b: "pmem_alloc_pages (ks_pm k) 1 = Some (b, s1)" "b \<noteq> 0"
    "\<And>v. vma_self v = b \<Longrightarrow> space_ok s1 pt T D (v # vs)" "\<And>va. pte_at (bs_mem s1) T va = pte_at (bs_mem (ks_pm k)) T va"
    "free_count s1 = free_count (ks_pm k) - 1" using space_alloc [OF sp f [OF True]] by blast
  have "new_struct k = Some (b, with_pm k s1)" using b(1,2) by (simp add: new_struct_def)
  then show ?thesis using True b(3) [of "w b"] w clears_empty [OF b(4)] b(5) f by (intro exI [of _ "[w b]"] exI [of _ s1]) auto
next
  case False
  then show ?thesis using sp by (intro exI [of _ "[]"] exI [of _ "ks_pm k"]) (auto intro: clears_empty)
qed

lemma munmap_part_plain:
  assumes sp: "space_ok (ks_pm k) pt T D (v # vs)" and l: "\<not> vs_lock (ks_vm k)" and v: "plain v" "area v \<subseteq> D"
    and r: "PGSIZE dvd start" "PGSIZE dvd end" "start < vma_end v" "vma_addr v \<le> end" "start \<le> end"
    and f: "2 \<le> free_count (ks_pm k)"
  shows "\<exists>l s1. munmap_part pt start end v k = Some (l, with_pm k s1) \<and> space_ok s1 pt T D (l @ vs) \<and>
    map strip l = map strip (fragments start end v) \<and> clears (ks_pm k) T (area v \<inter> {start..<end}) s1 \<and>
    (2 \<le> free_count s1 \<or> end < vma_end v)"
proof -
  let ?L = "vma_addr v < start" and ?R = "vma_end v > end"
  define wl where "wl a = v\<lparr>vma_self := a, vma_end := start, vma_size := start - vma_addr v\<rparr>" for a
  define wr where "wr a = v\<lparr>vma_self := a, vma_addr := end, vma_size := vma_end v - end,
      vma_f_off := add64 (vma_f_off v) (sub64 end (vma_addr v))\<rparr>" for a
  have w: "vma_self (wl a) = a" "vma_self (wr a) = a" for a by (simp_all add: wl_def wr_def)
  have f0: "0 < free_count (ks_pm k)" using f by simp
  obtain l s1 a where l1: "(if ?L then map_option (\<lambda>(a, k1). ([wl a], k1)) (new_struct k) else Some ([], k)) = Some (l, with_pm k s1)"
    "l = (if ?L then [wl a] else [])" "space_ok s1 pt T D (l @ v # vs)" "clears (ks_pm k) T {} s1"
    "free_count (ks_pm k) = free_count s1 + (if ?L then 1 else 0)"
    using optional_struct [OF sp f0, of wl ?L] w by blast
  have f1: "0 < free_count s1" using f l1(5) by (auto split: if_splits)
  have sp1: "space_ok (ks_pm (with_pm k s1)) pt T D (l @ v # vs)" "0 < free_count (ks_pm (with_pm k s1))" using l1(3) f1 by simp_all
  obtain r s2 b where r1: "(if ?R then map_option (\<lambda>(a, k1). ([wr a], k1)) (new_struct (with_pm k s1)) else Some ([], with_pm k s1)) =
      Some (r, with_pm k s2)" "r = (if ?R then [wr b] else [])" "space_ok s2 pt T D (r @ l @ v # vs)" "clears s1 T {} s2"
    "free_count s1 = free_count s2 + (if ?R then 1 else 0)"
    using optional_struct [OF sp1, of wr ?R] w unfolding ks_pm_simps by blast
  define us ue where "us = (if vma_addr v > start then vma_addr v else start)" "ue = (if vma_end v < end then vma_end v else end)"
  have al: "PGSIZE dvd us" "PGSIZE dvd ue" "ue \<le> MAXVA" "{us..<ue} = area v \<inter> {start..<end}"
    using v(1) r unfolding us_ue_def plain_def by auto
  obtain s3 where s3: "(if ue > us then unmap_pages pt us ue True (with_pm k s2) else Some (with_pm k s2)) = Some (with_pm k s3)"
    "space_ok s3 pt T D (r @ l @ v # vs)" "clears s2 T (area v \<inter> {start..<end}) s3" "free_count s2 \<le> free_count s3"
  proof (cases "ue > us")
    case True
    have "{us..<ue} \<subseteq> D" using v(2) unfolding al(4) by blast
    then obtain s3 where "unmap_pages pt us ue True (with_pm k s2) = Some (with_pm k s3)" "space_ok s3 pt T D (r @ l @ v # vs)"
      "clears s2 T {us..<ue} s3" "free_count s2 \<le> free_count s3"
      using unmap_range [of "with_pm k s2" pt T D "r @ l @ v # vs" us ue] r1(3) l al(1-3) True by (auto simp: ks_pm_simps)
    then show thesis using that [of s3] True al(4) by auto
  next
    case False
    then have "area v \<inter> {start..<end} = {}" using al(4) by auto
    then show thesis using that [of s2] False r1(3) clears_empty [of s2 T s2] by auto
  qed
  have "space_ok s3 pt T D (v # l @ r @ vs)" by (rule space_perm [OF s3(2)]) simp
  then obtain s4 where s4: "pmem_free_pages s3 (vma_self v) 1 = Some s4" "space_ok s4 pt T D ((l @ r) @ vs)" "bs_mem s4 = bs_mem s3"
    "free_count s3 < free_count s4" using space_free by fastforce
  have "munmap_part pt start end v k = Some (l @ r, with_pm k s4)"
    using v(1) l1(1) r1(1) s3(1) s4(1) unfolding munmap_part_def wl_def wr_def Let_def us_ue_def [symmetric]
    by (simp add: plain_def free_struct_def split del: if_split cong: if_cong)
  moreover have "clears (ks_pm k) T (area v \<inter> {start..<end}) s4"
    using clears_trans [OF clears_trans [OF l1(4) r1(4)] s3(3)] s4(3) by (simp add: clears_def)
  moreover have "map strip (l @ r) = map strip (fragments start end v)"
    unfolding l1(2) r1(2) by (simp add: fragments_def strip_def wl_def wr_def)
  moreover have "2 \<le> free_count s4 \<or> end < vma_end v" using f l1(5) r1(5) s3(4) s4(4) by (auto split: if_splits)
  ultimately show ?thesis using s4(2) by blast
qed

definition cut_touching :: "addr \<Rightarrow> addr \<Rightarrow> vma \<Rightarrow> vma list" where
  "cut_touching start end v = (if start < vma_end v \<and> vma_addr v \<le> end then fragments start end v else [v])"

lemma view_touching:
  "start \<le> end \<Longrightarrow> end < 2 ^ 64 \<Longrightarrow>
   view (concat (map (cut_touching start end) vs)) a = (if start \<le> a \<and> a < end then None else view vs a)"
proof (rule pieces_view)
  assume "start \<le> end" "end < 2 ^ 64"
  then show "view (cut_touching start end v) a = (if start \<le> a \<and> a < end then None else view [v] a)" for v
    unfolding cut_touching_def using view_fragments [of start v "end" a] by auto
qed

lemma touching_ok: "start \<le> end \<Longrightarrow> areas_ok vs \<Longrightarrow> areas_ok (concat (map (cut_touching start end) vs))"
proof (rule pieces_ok)
  assume "start \<le> end" "areas_ok vs"
  then show "areas_ok (cut_touching start end v)" if "v \<in> set vs" for v
    using fragments_ok [of start "end" v] that by (auto simp: cut_touching_def areas_ok_def)
  show "vma_addr v \<le> vma_addr w \<and> vma_end w \<le> vma_end v" if "v \<in> set vs" "w \<in> set (cut_touching start end v)" for v w
    using fragments_inside [of w start "end" v] that \<open>areas_ok vs\<close> by (auto simp: areas_ok_def cut_touching_def split: if_splits)
qed

text \<open>One area that touches the range.\<close>

lemma munmap_one_plain:
  assumes sp: "space_ok (ks_pm k) pt T D (v # vs)" and l: "\<not> vs_lock (ks_vm k)" and v: "plain v" "area v \<subseteq> D"
    and r: "PGSIZE dvd start" "PGSIZE dvd end" "start < vma_end v" "vma_addr v \<le> end" "start \<le> end"
    and f: "2 \<le> free_count (ks_pm k)"
  shows "\<exists>l s1. (if vma_addr v \<ge> start \<and> vma_end v \<le> end then munmap_whole pt v k
      else if vma_addr v < start \<or> vma_end v > end then munmap_part pt start end v k else Some ([v], k)) = Some (l, with_pm k s1) \<and>
    space_ok s1 pt T D (l @ vs) \<and> map strip l = map strip (fragments start end v) \<and>
    clears (ks_pm k) T (area v \<inter> {start..<end}) s1 \<and> (2 \<le> free_count s1 \<or> end < vma_end v)"
proof (cases "vma_addr v \<ge> start \<and> vma_end v \<le> end")
  case True
  then have "fragments start end v = []" "area v \<inter> {start..<end} = area v" by (auto simp: fragments_def)
  then show ?thesis using munmap_whole_plain [OF sp l v] True f by auto
next
  case False
  then show ?thesis using munmap_part_plain [OF sp l v r f] by auto
qed

lemma munmap_areas_plain:
  assumes r: "PGSIZE dvd start" "PGSIZE dvd end" "start \<le> end"
  shows "space_ok (ks_pm k) pt T D (vs @ ws) \<Longrightarrow> \<not> vs_lock (ks_vm k) \<Longrightarrow> (\<And>v. v \<in> set vs \<Longrightarrow> plain v \<and> area v \<subseteq> D) \<Longrightarrow>
    areas_ok vs \<Longrightarrow> 2 \<le> free_count (ks_pm k) \<or> (\<forall>v \<in> set vs. end < vma_addr v) \<Longrightarrow>
    \<exists>vs' s1. munmap_areas pt start end vs k = Some (\<exists>v \<in> set vs. start < vma_end v \<and> vma_addr v \<le> end, vs', with_pm k s1) \<and>
      space_ok s1 pt T D (vs' @ ws) \<and> map strip vs' = map strip (concat (map (cut_touching start end) vs)) \<and>
      clears (ks_pm k) T ((\<Union>v \<in> set vs. area v) \<inter> {start..<end}) s1"
proof (induction vs arbitrary: k ws)
  case Nil
  then show ?case by (intro exI [of _ "[]"] exI [of _ "ks_pm k"]) (auto intro: clears_empty)
next
  case (Cons v vs)
  let ?t = "start < vma_end v \<and> vma_addr v \<le> end"
  have v: "plain v" "area v \<subseteq> D" "vma_addr v \<le> vma_end v" "areas_ok vs" "\<And>w. w \<in> set vs \<Longrightarrow> vma_end v \<le> vma_addr w"
    using Cons.prems(3) [of v] Cons.prems(4) by auto
  have rest: "\<And>w. w \<in> set vs \<Longrightarrow> plain w \<and> area w \<subseteq> D" using Cons.prems(3) by simp
  show ?case
  proof (cases ?t)
    case False
    have sp: "space_ok (ks_pm k) pt T D (vs @ v # ws)" by (rule space_perm [OF Cons.prems(1)]) simp
    have "2 \<le> free_count (ks_pm k) \<or> (\<forall>w \<in> set vs. end < vma_addr w)" using Cons.prems(5) by auto
    from Cons.IH [OF sp Cons.prems(2) rest v(4) this] obtain vs' s1 where
      s1: "munmap_areas pt start end vs k = Some (\<exists>v \<in> set vs. start < vma_end v \<and> vma_addr v \<le> end, vs', with_pm k s1)"
      "space_ok s1 pt T D (vs' @ v # ws)" "map strip vs' = map strip (concat (map (cut_touching start end) vs))"
      "clears (ks_pm k) T ((\<Union>v \<in> set vs. area v) \<inter> {start..<end}) s1" by blast
    have "space_ok s1 pt T D ((v # vs') @ ws)" by (rule space_perm [OF s1(2)]) simp
    moreover have "(\<Union>w \<in> set (v # vs). area w) \<inter> {start..<end} = (\<Union>w \<in> set vs. area w) \<inter> {start..<end}" using False by auto
    moreover have "cut_touching start end v = [v]" using False by (auto simp: cut_touching_def)
    then have "map strip (v # vs') = map strip (concat (map (cut_touching start end) (v # vs)))" using s1(3) by simp
    moreover have "munmap_areas pt start end (v # vs) k =
        Some (\<exists>w \<in> set (v # vs). start < vma_end w \<and> vma_addr w \<le> end, v # vs', with_pm k s1)"
      using False s1(1) by auto
    ultimately show ?thesis using s1(4) by (intro exI [of _ "v # vs'"] exI [of _ s1] conjI) (simp_all only:)
  next
    case True
    have f: "2 \<le> free_count (ks_pm k)" using Cons.prems(5) True by auto
    have sp: "space_ok (ks_pm k) pt T D (v # vs @ ws)" using Cons.prems(1) by simp
    have tt: "start < vma_end v" "vma_addr v \<le> end" using True by auto
    obtain l s1 where l: "(if vma_addr v \<ge> start \<and> vma_end v \<le> end then munmap_whole pt v k
        else if vma_addr v < start \<or> vma_end v > end then munmap_part pt start end v k else Some ([v], k)) = Some (l, with_pm k s1)"
      "space_ok s1 pt T D (l @ vs @ ws)" "map strip l = map strip (fragments start end v)"
      "clears (ks_pm k) T (area v \<inter> {start..<end}) s1" "2 \<le> free_count s1 \<or> end < vma_end v"
      using munmap_one_plain [OF sp Cons.prems(2) v(1,2) r(1,2) tt r(3) f] by blast
    have sp1: "space_ok (ks_pm (with_pm k s1)) pt T D (vs @ l @ ws)"
      unfolding ks_pm_simps by (rule space_perm [OF l(2)]) simp
    have l1: "\<not> vs_lock (ks_vm (with_pm k s1))" using Cons.prems(2) by simp
    have f1: "2 \<le> free_count (ks_pm (with_pm k s1)) \<or> (\<forall>w \<in> set vs. end < vma_addr w)" using l(5) v(5) by fastforce
    from Cons.IH [OF sp1 l1 rest v(4) f1] obtain vs' s2 where
      s2: "munmap_areas pt start end vs (with_pm k s1) = Some (\<exists>v \<in> set vs. start < vma_end v \<and> vma_addr v \<le> end, vs', with_pm k s2)"
      "space_ok s2 pt T D (vs' @ l @ ws)" "map strip vs' = map strip (concat (map (cut_touching start end) vs))"
      "clears s1 T ((\<Union>v \<in> set vs. area v) \<inter> {start..<end}) s2" unfolding ks_pm_simps by blast
    have "munmap_areas pt start end (v # vs) k = Some (True, l @ vs', with_pm k s2)"
      using True l(1) s2(1) by (simp split del: if_split)
    moreover have "space_ok s2 pt T D ((l @ vs') @ ws)" by (rule space_perm [OF s2(2)]) simp
    moreover have "(\<Union>w \<in> set (v # vs). area w) \<inter> {start..<end} =
      area v \<inter> {start..<end} \<union> (\<Union>w \<in> set vs. area w) \<inter> {start..<end}" by auto
    then have "clears (ks_pm k) T ((\<Union>w \<in> set (v # vs). area w) \<inter> {start..<end}) s2" using clears_trans [OF l(4) s2(4)] by simp
    moreover have "map strip (l @ vs') = map strip (concat (map (cut_touching start end) (v # vs)))"
      using l(3) s2(3) True by (simp add: cut_touching_def)
    moreover have "(\<exists>w \<in> set (v # vs). start < vma_end w \<and> vma_addr w \<le> end) = True" using True by simp
    ultimately show ?thesis by (intro exI [of _ "l @ vs'"] exI [of _ s2] conjI) (simp_all only:)
  qed
qed

lemma munmap_plain:
  assumes sp: "space_ok (ks_pm k) pt T D (p_vma p)" and p: "p = ks_procs k i" "pt = p_pagetable p" and l: "\<not> vs_lock (ks_vm k)"
    and v: "\<And>v. v \<in> set (p_vma p) \<Longrightarrow> plain v \<and> area v \<subseteq> D" and ok: "areas_ok (p_vma p)" and f: "2 \<le> free_count (ks_pm k)"
    and len: "0 < len" "len < 2 ^ 31" and a: "a < MAXVA"
    and r: "start = PGROUNDDOWN a" "end = PGROUNDDOWN (a + nat len)"
  shows "\<exists>k'. munmap i a len k = Some (if \<exists>v \<in> set (p_vma p). start < vma_end v \<and> vma_addr v \<le> end then 0 else -1, k') \<and>
    areas_ok (p_vma (ks_procs k' i)) \<and> space_ok (ks_pm k') pt T D (p_vma (ks_procs k' i)) \<and>
    (\<forall>x. view (p_vma (ks_procs k' i)) x = (if start \<le> x \<and> x < end then None else view (p_vma p) x)) \<and>
    (\<forall>x < MAXVA. pte_at (bs_mem (ks_pm k')) T x =
       (if start \<le> x \<and> x < end \<and> view (p_vma p) x \<noteq> None then cleared (pte_at (bs_mem (ks_pm k)) T x)
        else pte_at (bs_mem (ks_pm k)) T x))"
proof -
  have u: "u64 len = nat len" "add64 a (nat len) = a + nat len" using len a by (simp_all add: u64_def add64_def nat_less_iff)
  have lt: "a + nat len < 2 ^ 64" using len a by simp
  have e: "start = a div PGSIZE * PGSIZE" "end = (a + nat len) div PGSIZE * PGSIZE"
    using r a lt by (simp_all add: PGROUNDDOWN_eq)
  have le: "x div PGSIZE * PGSIZE \<le> x" for x using div_mult_mod_eq [of x PGSIZE] by linarith
  have al: "PGSIZE dvd start" "PGSIZE dvd end" "start \<le> end" "end < 2 ^ 64"
    using le [of "a + nat len"] lt unfolding e by (auto intro!: mult_le_mono1 div_le_mono)
  have "start < 2 ^ 64" using al(3,4) by simp
  then have st: "start = PGROUNDDOWN start" using e(1) by (simp add: PGROUNDDOWN_eq)
  obtain vs' s1 where s1: "munmap_areas pt start end (p_vma p) k =
      Some (\<exists>v \<in> set (p_vma p). start < vma_end v \<and> vma_addr v \<le> end, vs', with_pm k s1)"
    "space_ok s1 pt T D vs'" "map strip vs' = map strip (concat (map (cut_touching start end) (p_vma p)))"
    "clears (ks_pm k) T ((\<Union>v \<in> set (p_vma p). area v) \<inter> {start..<end}) s1"
    using munmap_areas_plain [OF al(1-3), of k pt T D "p_vma p" "[]"] sp l v ok f by auto
  let ?k = "upd_proc i (\<lambda>p. p\<lparr>p_vma := vs'\<rparr>) (with_pm k s1)"
  have "munmap i a len k = Some (if \<exists>v \<in> set (p_vma p). start < vma_end v \<and> vma_addr v \<le> end then 0 else -1, ?k)"
    using s1(1) st len(1) unfolding munmap_def Let_def u p(1,2) [symmetric] r [symmetric] by simp
  moreover have k: "p_vma (ks_procs ?k i) = vs'" "ks_pm ?k = s1" by (simp_all add: upd_proc_def with_pm_def)
  moreover have "areas_ok vs'" "view vs' x = (if start \<le> x \<and> x < end then None else view (p_vma p) x)" for x
    using same_areas [OF s1(3)] touching_ok [OF al(3) ok] view_touching [OF al(3,4)] by auto
  moreover have "pte_at (bs_mem s1) T x =
       (if start \<le> x \<and> x < end \<and> view (p_vma p) x \<noteq> None then cleared (pte_at (bs_mem (ks_pm k)) T x)
        else pte_at (bs_mem (ks_pm k)) T x)" if "x < MAXVA" for x
  proof -
    have "x \<in> (\<Union>v \<in> set (p_vma p). area v) \<inter> {start..<end} \<longleftrightarrow> start \<le> x \<and> x < end \<and> view (p_vma p) x \<noteq> None"
      unfolding view_None by auto
    then show ?thesis using s1(4) that unfolding clears_def by simp
  qed
  ultimately show ?thesis using s1(2) by (intro exI [of _ ?k]) (simp only:, blast)
qed

text \<open>
  C8: \<^verbatim>\<open>munmap\<close> of a positive length below 2^31 at an address below \<^verbatim>\<open>MAXVA\<close>, on a process whose areas are private
  (not of type \<^verbatim>\<open>SHARE\<close>, used by one thread), on page boundaries, in order, apart and on different live pages, and whose
  mapped pages in these areas are each a block of one page of the page allocator, used by no other page, table or structure (as
  anonymous mappings make them; the pages of a file mapping or of the stack, which come from one block of many pages, are
  excluded), with two free pages for the parts of an area that is cut: the call returns, and unmaps exactly the pages of the
  areas between \<open>start\<close> and \<open>end\<close>, the page boundaries at or below the two ends of the request. Their entries are cleared, every
  other translation is as before, every address outside keeps its area's attributes, and the areas are again in
  order, apart and on different live pages. The result is 0 if an area meets or begins at the end of the range, and -1 otherwise.
\<close>

theorem munmap_removes:
  assumes sp: "space_ok (ks_pm k) (p_pagetable (ks_procs k i)) T D (p_vma (ks_procs k i))" and l: "\<not> vs_lock (ks_vm k)"
    and v: "\<And>v. v \<in> set (p_vma (ks_procs k i)) \<Longrightarrow> plain v \<and> area v \<subseteq> D" and ok: "areas_ok (p_vma (ks_procs k i))"
    and f: "2 \<le> free_count (ks_pm k)" and len: "0 < len" "len < 2 ^ 31" and a: "a < MAXVA"
    and r: "start = PGROUNDDOWN a" "end = PGROUNDDOWN (a + nat len)"
  shows "\<exists>k'. munmap i a len k =
      Some (if \<exists>v \<in> set (p_vma (ks_procs k i)). start < vma_end v \<and> vma_addr v \<le> end then 0 else -1, k') \<and>
    areas_ok (p_vma (ks_procs k' i)) \<and> space_ok (ks_pm k') (p_pagetable (ks_procs k i)) T D (p_vma (ks_procs k' i)) \<and>
    (\<forall>x. view (p_vma (ks_procs k' i)) x = (if start \<le> x \<and> x < end then None else view (p_vma (ks_procs k i)) x)) \<and>
    (\<forall>x < MAXVA. pte_at (bs_mem (ks_pm k')) T x =
       (if start \<le> x \<and> x < end \<and> view (p_vma (ks_procs k i)) x \<noteq> None then cleared (pte_at (bs_mem (ks_pm k)) T x)
        else pte_at (bs_mem (ks_pm k)) T x))"
  by (rule munmap_plain [OF sp refl refl l v ok f len a r])


section \<open>Witnesses\<close>

lemma sample_space:
  obtains s pt T b where "space_ok s pt T {0x10000..<0x14000} [sample_area b]" "2 \<le> free_count s"
    "pte_at (bs_mem s) T 0x11000 AND PTE_V \<noteq> 0"
proof -
  let ?D = "{0x10000..<0x14000} :: addr set"
  obtain v :: vmem and pt where s: "pt_inv (vs_pm v) pt [[] \<mapsto> pt]" "16 \<le> free_count (vs_pm v)"
    "\<forall>va. pte_at (bs_mem (vs_pm v)) [[] \<mapsto> pt] va = 0" by (rule small_space)
  have "mapped (vs_pm v) [[] \<mapsto> pt] D = {}" for D using s(3) by (simp add: mapped_def)
  then have "space_ok (vs_pm v) pt [[] \<mapsto> pt] ?D []"
    using s(1) by (auto simp: space_ok_def owned_def pt_inv_def)
  then obtain b s1 where b: "\<And>w. vma_self w = b \<Longrightarrow> space_ok s1 pt [[] \<mapsto> pt] ?D [w]"
    "free_count s1 = free_count (vs_pm v) - 1" "\<And>va. pte_at (bs_mem s1) [[] \<mapsto> pt] va = 0"
    using space_alloc [of "vs_pm v" pt "[[] \<mapsto> pt]" ?D "[]"] s(2,3) by auto
  have perm: "(22 :: pte) AND NOT 0x3FF = 0" "((22 :: pte) OR PTE_V) AND NOT 0x3FF = 0" "(22 :: pte) OR PTE_V \<noteq> PTE_V" by code_simp+
  have "space_ok s1 pt [[] \<mapsto> pt] ?D [sample_area b]" by (rule b(1)) (simp add: sample_area_def)
  moreover have "3 \<le> free_count s1" "0x11000 \<in> ?D" "PGSIZE dvd 0x11000" "0x11000 + PGSIZE \<le> MAXVA" "pte_at (bs_mem s1) [[] \<mapsto> pt] 0x11000 AND PTE_V = 0"
    using b(2,3) s(2) by (auto simp: dvd_eq_mod_eq_0)
  ultimately obtain pa s2 T' where m: "space_ok s2 pt T' ?D [sample_area b]" "free_count s1 \<le> free_count s2 + 3"
    "pte_at (bs_mem s2) T' 0x11000 = PA2PTE pa OR 22 OR PTE_V" using space_map_page [OF _ _ _ _ _ _ perm] by metis
  show thesis by (rule that [OF m(1)]) (use m(2,3) b(2) s(2) PA2PTE_valid [of pa 22] in auto)
qed

lemma sample_plain:
  "plain (sample_area b)" "area (sample_area b) = {0x10000..<0x14000}" "vma_addr (sample_area b) \<le> vma_end (sample_area b)"
  by (simp_all add: plain_def sample_area_def dvd_eq_mod_eq_0)

theorem munmap_removes_witness:
  "\<exists>k k' T. pte_at (bs_mem (ks_pm k)) T 0x11000 AND PTE_V \<noteq> 0 \<and> munmap 0 0x11000 0x1800 k = Some (0, k') \<and>
     pte_at (bs_mem (ks_pm k')) T 0x11000 = 0 \<and> view (p_vma (ks_procs k' 0)) 0x11fff = None \<and>
     view (p_vma (ks_procs k' 0)) 0x12000 = Some (MMAP, 22, 0, 5, 0x2000, None)"
proof -
  obtain s pt T b where s: "space_ok s pt T {0x10000..<0x14000} [sample_area b]" "2 \<le> free_count s" "pte_at (bs_mem s) T 0x11000 AND PTE_V \<noteq> 0"
    by (rule sample_space)
  let ?k = "sample_proc s pt [sample_area b]"
  have r: "0x11000 = PGROUNDDOWN 0x11000" "0x12000 = PGROUNDDOWN (0x11000 + nat 0x1800)" by code_simp+
  obtain k' where k': "munmap 0 0x11000 0x1800 ?k =
      Some (if \<exists>v \<in> set (p_vma (ks_procs ?k 0)). 0x11000 < vma_end v \<and> vma_addr v \<le> 0x12000 then 0 else -1, k')"
    "\<forall>x. view (p_vma (ks_procs k' 0)) x = (if 0x11000 \<le> x \<and> x < 0x12000 then None else view (p_vma (ks_procs ?k 0)) x)"
    "\<forall>x < MAXVA. pte_at (bs_mem (ks_pm k')) T x =
       (if 0x11000 \<le> x \<and> x < 0x12000 \<and> view (p_vma (ks_procs ?k 0)) x \<noteq> None then cleared (pte_at (bs_mem (ks_pm ?k)) T x)
        else pte_at (bs_mem (ks_pm ?k)) T x)"
    using munmap_removes [of ?k 0 T "{0x10000..<0x14000}" "0x1800" "0x11000", OF _ _ _ _ _ _ _ _ r] s sample_plain by auto
  have "view (p_vma (ks_procs ?k 0)) 0x11000 \<noteq> None" by (simp add: sample_area_def)
  then have "pte_at (bs_mem (ks_pm k')) T 0x11000 = 0" using k'(3) [rule_format, of "0x11000"] s(3) by (simp add: cleared_def)
  moreover have "munmap 0 0x11000 0x1800 ?k = Some (0, k')" using k'(1) by (simp add: sample_area_def)
  moreover have "view (p_vma (ks_procs k' 0)) 0x11fff = None" using k'(2) by simp
  moreover have "view (p_vma (ks_procs k' 0)) 0x12000 = Some (MMAP, 22, 0, 5, 0x2000, None)" using k'(2) by (simp add: sample_area_def attr_def)
  ultimately show ?thesis using s(3) by (intro exI [of _ ?k] exI [of _ k'] exI [of _ T]) simp
qed


end
