(* ===== verification/Wait.thy ===== *)
theory Wait
  imports Proc
begin

text \<open>
  Sleeping and waking, leaving and waiting (\<^verbatim>\<open>sleep_on_chan\<close>, \<^verbatim>\<open>wakeup\<close>, \<^verbatim>\<open>yield\<close>, \<^verbatim>\<open>fork\<close>, \<^verbatim>\<open>exit\<close>, \<^verbatim>\<open>waitpid\<close> of
  \<^verbatim>\<open>kernel/process.c\<close>) as the processors interleave them. The state is the process table, the holder of
  \<^verbatim>\<open>parent_lock\<close>, the locks of the processes, and the contexts: kernel threads of control, each with the
  process it runs for and the place in the code it has reached. A step is what a context does from one
  place to the next; it touches only what the locks it holds protect. Processes have one thread here. What
  \<^verbatim>\<open>fork\<close> copies, and the memory, files, futexes and segments that \<^verbatim>\<open>exit\<close> and \<^verbatim>\<open>freeproc\<close> give back under no lock of
  the process table, are not part of this model.
\<close>

unbundle bit_operations_syntax

abbreviation (input) ECHILD :: int where "ECHILD \<equiv> 10"
abbreviation (input) EINTR :: int where "EINTR \<equiv> 4"
abbreviation (input) EFAULT :: int where "EFAULT \<equiv> 14"
abbreviation (input) WNOHANG :: "32 word" where "WNOHANG \<equiv> 1"
abbreviation (input) WNOWAIT :: int where "WNOWAIT \<equiv> 0x1000000"

section \<open>The pieces of the code\<close>

text \<open>The status word of a child (\<^verbatim>\<open>uint16_t\<close>): the signal with the core flag, or the exit code.\<close>

definition core_signals :: "int set" where
  "core_signals = {6, 11, 7, 8, 4, 5, 3, 31, 24, 25}"

definition wait_status :: "int \<Rightarrow> int \<Rightarrow> 16 word" where
  "wait_status sig exit_state =
     (if sig \<noteq> 0
      then let status = word_of_int sig in if sig \<in> core_signals then status OR 0x80 else status
      else word_of_int ((exit_state AND 0xFF) * 2 ^ 8))"

text \<open>What \<^verbatim>\<open>waitpid\<close> does after a pass over the table without a child to collect: return, or sleep.\<close>

definition wait_after :: "int \<Rightarrow> 32 word \<Rightarrow> bool \<Rightarrow> bool \<Rightarrow> int \<Rightarrow> int option" where
  "wait_after pid options havekids found_target sig =
     (if \<not> havekids \<or> sig \<noteq> 0 then Some (if \<not> havekids then - ECHILD else - EINTR)
      else if pid > 0 \<and> \<not> found_target then Some (- ECHILD)
      else if options AND WNOHANG \<noteq> 0 then Some 0
      else None)"

definition wait_args :: "int \<Rightarrow> 32 word \<Rightarrow> int option" where
  "wait_args pid options =
     (if pid < -1 then Some (- ESRCH)
      else if sint options < 0 \<or> sint options > WNOWAIT then Some (- EINVAL)
      else None)"

definition set_thread_of :: "nat \<Rightarrow> thread_state \<Rightarrow> ksys \<Rightarrow> ksys" where
  "set_thread_of p st k = (case p_current_thread (ks_procs k p) of None \<Rightarrow> k | Some t \<Rightarrow> upd_thread_state t st k)"

definition go_to_sleep :: "nat \<Rightarrow> wchan \<Rightarrow> ksys \<Rightarrow> ksys" where
  "go_to_sleep p chan k =
     set_thread_of p T_RUNNABLE (upd_proc p (\<lambda>p. p\<lparr>p_chan := chan, p_state := SLEEPING\<rparr>) k)"

definition become_zombie :: "nat \<Rightarrow> int \<Rightarrow> ksys \<Rightarrow> ksys" where
  "become_zombie p st k = set_thread_of p T_ZOMBIE (upd_proc p (\<lambda>p. p\<lparr>p_exit_state := st, p_state := ZOMBIE\<rparr>) k)"

definition yield_cpu :: "nat \<Rightarrow> ksys \<Rightarrow> ksys" where
  "yield_cpu p k = set_thread_of p T_RUNNABLE (upd_proc p (\<lambda>p. p\<lparr>p_state := RUNNABLE\<rparr>) k)"

text \<open>The scheduler picks the process and its thread.\<close>

definition take_cpu :: "nat \<Rightarrow> ksys \<Rightarrow> ksys" where
  "take_cpu p k = set_thread_of p T_RUNNING (upd_proc p (\<lambda>p. p\<lparr>p_state := RUNNING\<rparr>) k)"

text \<open>The fields of the process that \<^verbatim>\<open>freeproc\<close> resets.\<close>

definition free_fields :: "nat \<Rightarrow> ksys \<Rightarrow> ksys" where
  "free_fields p k = upd_proc p (\<lambda>p. p\<lparr>p_pid := 0, p_state := UNUSED, p_current_thread := None,
     p_parent := None, p_exit_state := 0, p_killed := 0\<rparr>) (set_thread_of p T_UNUSED k)"

definition parent_chan :: "nat \<Rightarrow> ksys \<Rightarrow> wchan" where
  "parent_chan p k = (case p_parent (ks_procs k p) of None \<Rightarrow> ChanNull | Some q \<Rightarrow> ChanProc q)"

definition is_target :: "int \<Rightarrow> nat \<Rightarrow> ksys \<Rightarrow> bool" where
  "is_target pid np k \<longleftrightarrow> pid = -1 \<or> p_pid (ks_procs k np) = pid"

section \<open>Contexts and steps\<close>

datatype place =
    Running
  | Exit_zombie | Exit_parent | Exit_woken | Gone
  | Wait_call int "32 word" | Wait_scan int "32 word" nat bool bool | Wait_sleep int "32 word" | Wait_asleep int "32 word"
  | Return int
  | Fork_new nat | Fork_child nat

record wsys =
  ws_k :: ksys
  ws_held :: "nat \<Rightarrow> bool"
  ws_plock :: "nat option"
  ws_ctx :: "nat \<Rightarrow> (nat \<times> place) option"

abbreviation ws_proc :: "wsys \<Rightarrow> nat \<Rightarrow> proc" where
  "ws_proc s p \<equiv> ks_procs (ws_k s) p"

abbreviation ws_init :: "wsys \<Rightarrow> nat" where
  "ws_init s \<equiv> ks_initproc (ws_k s)"

definition goes :: "nat \<Rightarrow> nat \<Rightarrow> place \<Rightarrow> (ksys \<Rightarrow> ksys) \<Rightarrow> wsys \<Rightarrow> wsys" where
  "goes c p l f s = s\<lparr>ws_k := f (ws_k s), ws_ctx := (ws_ctx s)(c \<mapsto> (p, l))\<rparr>"

text \<open>A context of a process that is on a processor.\<close>

definition runs :: "wsys \<Rightarrow> nat \<Rightarrow> nat \<Rightarrow> place \<Rightarrow> bool" where
  "runs s c p l \<longleftrightarrow> ws_ctx s c = Some (p, l) \<and> p_state (ws_proc s p) = RUNNING"

inductive wstep :: "wsys \<Rightarrow> wsys \<Rightarrow> bool" where
  exit_zombie: "runs s c p Running \<Longrightarrow> p \<noteq> ws_init s \<Longrightarrow> \<not> ws_held s p \<Longrightarrow>
    wstep s (goes c p Exit_zombie (become_zombie p st) s)"
| exit_reparent: "ws_ctx s c = Some (p, Exit_zombie) \<Longrightarrow> ws_plock s = None \<Longrightarrow>
    (\<And>j. j < NPROC \<Longrightarrow> p_parent (ws_proc s j) = Some p \<Longrightarrow> \<not> ws_held s (ws_init s)) \<Longrightarrow>
    wstep s (goes c p Exit_parent (reparent p p) (s\<lparr>ws_plock := Some c\<rparr>))"
| exit_wake: "ws_ctx s c = Some (p, Exit_parent) \<Longrightarrow> (\<And>q. p_parent (ws_proc s p) = Some q \<Longrightarrow> \<not> ws_held s q) \<Longrightarrow>
    wstep s (goes c p Exit_woken (wakeup p (parent_chan p (ws_k s))) (s\<lparr>ws_plock := None\<rparr>))"
| exit_gone: "ws_ctx s c = Some (p, Exit_woken) \<Longrightarrow> \<not> ws_held s p \<Longrightarrow> wstep s (goes c p Gone id s)"
| wait_call: "runs s c p Running \<Longrightarrow>
    wstep s (goes c p (case wait_args pid opt of None \<Rightarrow> Wait_call pid opt | Some r \<Rightarrow> Return r) id s)"
| wait_lock: "runs s c p (Wait_call pid opt) \<Longrightarrow> ws_plock s = None \<Longrightarrow>
    wstep s (goes c p (Wait_scan pid opt 0 False False) id (s\<lparr>ws_plock := Some c\<rparr>))"
| wait_other: "runs s c p (Wait_scan pid opt j kids found) \<Longrightarrow> j < NPROC \<Longrightarrow> p_parent (ws_proc s j) \<noteq> Some p \<Longrightarrow>
    wstep s (goes c p (Wait_scan pid opt (Suc j) kids found) id s)"
| wait_child: "runs s c p (Wait_scan pid opt j kids found) \<Longrightarrow> j < NPROC \<Longrightarrow> p_parent (ws_proc s j) = Some p \<Longrightarrow>
    \<not> ws_held s j \<Longrightarrow> \<not> (is_target pid j (ws_k s) \<and> p_state (ws_proc s j) = ZOMBIE) \<Longrightarrow>
    wstep s (goes c p (Wait_scan pid opt (Suc j) True (found \<or> is_target pid j (ws_k s))) id s)"
| wait_reap: "runs s c p (Wait_scan pid opt j kids found) \<Longrightarrow> j < NPROC \<Longrightarrow> p_parent (ws_proc s j) = Some p \<Longrightarrow>
    \<not> ws_held s j \<Longrightarrow> is_target pid j (ws_k s) \<Longrightarrow> p_state (ws_proc s j) = ZOMBIE \<Longrightarrow>
    wstep s (goes c p (Return (p_pid (ws_proc s j))) (free_fields j) (s\<lparr>ws_plock := None\<rparr>))"
| wait_fault: "runs s c p (Wait_scan pid opt j kids found) \<Longrightarrow> j < NPROC \<Longrightarrow> p_parent (ws_proc s j) = Some p \<Longrightarrow>
    \<not> ws_held s j \<Longrightarrow> is_target pid j (ws_k s) \<Longrightarrow> p_state (ws_proc s j) = ZOMBIE \<Longrightarrow>
    wstep s (goes c p (Return (- EFAULT)) id (s\<lparr>ws_plock := None\<rparr>))"
| wait_return: "runs s c p (Wait_scan pid opt NPROC kids found) \<Longrightarrow>
    wait_after pid opt kids found (p_killed (ws_proc s p)) = Some r \<Longrightarrow>
    wstep s (goes c p (Return r) id (s\<lparr>ws_plock := None\<rparr>))"
| wait_sleep: "runs s c p (Wait_scan pid opt NPROC kids found) \<Longrightarrow>
    wait_after pid opt kids found (p_killed (ws_proc s p)) = None \<Longrightarrow> \<not> ws_held s p \<Longrightarrow>
    wstep s (goes c p (Wait_sleep pid opt) id (s\<lparr>ws_plock := None, ws_held := (ws_held s)(p := True)\<rparr>))"
| wait_switch: "runs s c p (Wait_sleep pid opt) \<Longrightarrow>
    wstep s (goes c p (Wait_asleep pid opt) (go_to_sleep p (ChanProc p)) (s\<lparr>ws_held := (ws_held s)(p := False)\<rparr>))"
| wait_awake: "runs s c p (Wait_asleep pid opt) \<Longrightarrow>
    wstep s (goes c p (Wait_call pid opt) (upd_proc p (\<lambda>q. q\<lparr>p_chan := ChanNull\<rparr>)) s)"
| sys_return: "runs s c p (Return r) \<Longrightarrow> wstep s (goes c p Running id s)"
| fork_alloc: "runs s c p Running \<Longrightarrow> j < NPROC \<Longrightarrow> \<not> ws_held s j \<Longrightarrow> p_state (ws_proc s j) = UNUSED \<Longrightarrow>
    wstep s (goes c p (Fork_new j) (upd_proc j (\<lambda>q. q\<lparr>p_pid := pid, p_state := USED, p_exit_state := 0, p_killed := 0, p_current_thread := Some t\<rparr>)) s)"
| fork_parent: "runs s c p (Fork_new j) \<Longrightarrow> ws_plock s = None \<Longrightarrow>
    wstep s (goes c p (Fork_child j) (upd_proc j (\<lambda>q. q\<lparr>p_parent := Some p\<rparr>)) s)"
| fork_run: "runs s c p (Fork_child j) \<Longrightarrow> \<not> ws_held s j \<Longrightarrow> ws_ctx s d = None \<Longrightarrow> c \<noteq> d \<Longrightarrow>
    wstep s (goes c p Running (yield_cpu j) (goes d j Running id s))"
| dispatch: "\<not> ws_held s p \<Longrightarrow> p_state (ws_proc s p) = RUNNABLE \<Longrightarrow>
    wstep s (s\<lparr>ws_k := take_cpu p (ws_k s)\<rparr>)"
| preempt: "\<not> ws_held s p \<Longrightarrow> p_state (ws_proc s p) = RUNNING \<Longrightarrow>
    (\<And>c l. ws_plock s = Some c \<Longrightarrow> ws_ctx s c \<noteq> Some (p, l)) \<Longrightarrow> wstep s (s\<lparr>ws_k := yield_cpu p (ws_k s)\<rparr>)"
| sent_signal: "\<not> ws_held s p \<Longrightarrow> wstep s (s\<lparr>ws_k := upd_proc p (\<lambda>q. rouse (q\<lparr>p_killed := sig\<rparr>)) (ws_k s)\<rparr>)"

inductive_cases wstepE: "wstep s s'"

section \<open>What a step changes\<close>

lemma proc_fields [simp]:
  "ks_procs (set_thread_of p st k) = ks_procs k" "ks_initproc (set_thread_of p st k) = ks_initproc k"
  "ks_procs (upd_proc p f k) q = (if q = p then f (ks_procs k p) else ks_procs k q)" "ks_initproc (upd_proc p f k) = ks_initproc k"
  by (simp_all add: set_thread_of_def upd_thread_state_def upd_proc_def split: option.split)

lemma cpu_fields [simp]:
  "ks_procs (yield_cpu p k) q = (if q = p then (ks_procs k p)\<lparr>p_state := RUNNABLE\<rparr> else ks_procs k q)" "ks_initproc (yield_cpu p k) = ks_initproc k"
  "ks_procs (take_cpu p k) q = (if q = p then (ks_procs k p)\<lparr>p_state := RUNNING\<rparr> else ks_procs k q)" "ks_initproc (take_cpu p k) = ks_initproc k"
  by (simp_all add: yield_cpu_def take_cpu_def)

lemma goes_simps [simp]:
  "ws_k (goes c p l f s) = f (ws_k s)" "ws_held (goes c p l f s) = ws_held s" "ws_plock (goes c p l f s) = ws_plock s"
  "ws_ctx (goes c p l f s) = (ws_ctx s)(c \<mapsto> (p, l))"
  by (simp_all add: goes_def)

text \<open>\<open>softly k k'\<close>: processes were only woken, and possibly given another parent.\<close>

definition softly :: "ksys \<Rightarrow> ksys \<Rightarrow> bool" where
  "softly k k' \<longleftrightarrow> ks_initproc k' = ks_initproc k \<and> (\<forall>i. p_pid (ks_procs k' i) = p_pid (ks_procs k i) \<and>
     p_chan (ks_procs k' i) = p_chan (ks_procs k i) \<and>
     (p_state (ks_procs k' i) = p_state (ks_procs k i) \<or> p_state (ks_procs k i) = SLEEPING \<and> p_state (ks_procs k' i) = RUNNABLE))"

lemma softly_refl: "softly k k"
  by (simp add: softly_def)

lemma softly_trans: "softly k k1 \<Longrightarrow> softly k1 k2 \<Longrightarrow> softly k k2"
  unfolding softly_def by (metis procstate.distinct(21))

lemma softly_wakeup: "softly k (wakeup me chan k)"
  by (auto simp: softly_def wakeup_procs woken_def)

lemma softly_reparent: "softly k (reparent me p k)"
proof -
  have one: "softly k (reparent_one me p c k)" for c k
  proof (cases "p_parent (ks_procs k c) = Some p")
    case True
    have "softly k (upd_proc c (\<lambda>c. c\<lparr>p_parent := Some (ks_initproc k)\<rparr>) k)" by (simp add: softly_def)
    then show ?thesis using True softly_wakeup softly_trans unfolding reparent_one_def by auto
  qed (simp add: reparent_one_def softly_refl)
  have "softly k (fold (reparent_one me p) xs k)" for xs
    by (induction xs arbitrary: k) (auto intro: softly_refl softly_trans [OF one])
  then show ?thesis by (simp add: reparent_def)
qed

lemma reparent_parent:
  "p \<noteq> ks_initproc k \<Longrightarrow> p_parent (ks_procs (reparent me p k) c) =
     (if c < NPROC \<and> p_parent (ks_procs k c) = Some p then Some (ks_initproc k) else p_parent (ks_procs k c))"
  by (simp add: reparent_def reparent_fold(2))

section \<open>The invariant\<close>

fun leaving :: "place \<Rightarrow> bool" where
  "leaving Exit_zombie = True"
| "leaving Exit_parent = True"
| "leaving Exit_woken = True"
| "leaving Gone = True"
| "leaving _ = False"

fun holds_parent_lock :: "place \<Rightarrow> bool" where
  "holds_parent_lock Exit_parent = True"
| "holds_parent_lock (Wait_scan pid opt j kids found) = True"
| "holds_parent_lock _ = False"

text \<open>The first process is always there, nobody is its own parent, and only other processes leave.\<close>

definition table_sane :: "ksys \<Rightarrow> bool" where
  "table_sane k \<longleftrightarrow> ks_initproc k < NPROC \<and> p_parent (ks_procs k (ks_initproc k)) = None \<and>
     p_state (ks_procs k (ks_initproc k)) \<notin> {UNUSED, USED, ZOMBIE} \<and> (\<forall>j. p_parent (ks_procs k j) \<noteq> Some j)"

definition slots_ok :: "nat \<Rightarrow> (nat \<Rightarrow> (nat \<times> place) option) \<Rightarrow> bool" where
  "slots_ok n ctx \<longleftrightarrow> (\<forall>c p l. ctx c = Some (p, l) \<longrightarrow> p < NPROC \<and> (leaving l \<longrightarrow> p \<noteq> n))"

text \<open>The slot of an unfinished \<^verbatim>\<open>fork\<close> is in no other use.\<close>

fun forking :: "place \<Rightarrow> nat option" where
  "forking (Fork_new j) = Some j"
| "forking (Fork_child j) = Some j"
| "forking _ = None"

type_synonym contexts = "nat \<Rightarrow> (nat \<times> place) option"

definition forked :: "contexts \<Rightarrow> nat \<Rightarrow> nat option" where
  "forked ctx c = (case ctx c of None \<Rightarrow> None | Some (p, l) \<Rightarrow> forking l)"

definition forks_ok :: "ksys \<Rightarrow> (nat \<Rightarrow> nat option) \<Rightarrow> bool" where
  "forks_ok k F \<longleftrightarrow> (\<forall>c j. F c = Some j \<longrightarrow> j < NPROC \<and> p_state (ks_procs k j) = USED \<and> (\<forall>d. F d = Some j \<longrightarrow> d = c))"

text \<open>\<^verbatim>\<open>parent_lock\<close> is held by the context that is between its acquisition and its release.\<close>

definition holds_lock :: "contexts \<Rightarrow> nat \<Rightarrow> bool" where
  "holds_lock ctx c \<longleftrightarrow> (case ctx c of None \<Rightarrow> False | Some (p, l) \<Rightarrow> holds_parent_lock l)"

definition plock_ok :: "nat option \<Rightarrow> (nat \<Rightarrow> bool) \<Rightarrow> bool" where
  "plock_ok h H \<longleftrightarrow> (\<forall>c. H c \<longleftrightarrow> h = Some c)"

text \<open>A process that is about to switch away in \<^verbatim>\<open>sleep_on_chan\<close> holds its own lock.\<close>

fun sleeping :: "place \<Rightarrow> bool" where
  "sleeping (Wait_sleep pid opt) = True"
| "sleeping _ = False"

definition switching :: "contexts \<Rightarrow> nat \<Rightarrow> nat option" where
  "switching ctx c = (case ctx c of None \<Rightarrow> None | Some (p, l) \<Rightarrow> if sleeping l then Some p else None)"

definition held_ok :: "(nat \<Rightarrow> bool) \<Rightarrow> (nat \<Rightarrow> nat option) \<Rightarrow> bool" where
  "held_ok held S \<longleftrightarrow> (\<forall>c p. S c = Some p \<longrightarrow> held p \<and> (\<forall>d. S d = Some p \<longrightarrow> d = c))"

lemma ctx_upd [simp]:
  "forked (ctx(c \<mapsto> (p, l))) = (forked ctx)(c := forking l)"
  "holds_lock (ctx(c \<mapsto> (p, l))) = (holds_lock ctx)(c := holds_parent_lock l)"
  "switching (ctx(c \<mapsto> (p, l))) = (switching ctx)(c := if sleeping l then Some p else None)"
  by (auto simp: forked_def holds_lock_def switching_def fun_eq_iff)

lemma ctx_at:
  "ws_ctx s c = Some (p, l) \<Longrightarrow> forked (ws_ctx s) c = forking l"
  "ws_ctx s c = Some (p, l) \<Longrightarrow> holds_lock (ws_ctx s) c = holds_parent_lock l"
  "ws_ctx s c = Some (p, l) \<Longrightarrow> switching (ws_ctx s) c = (if sleeping l then Some p else None)"
  "ws_ctx s c = None \<Longrightarrow> forked (ws_ctx s) c = None"
  "ws_ctx s c = None \<Longrightarrow> \<not> holds_lock (ws_ctx s) c" "ws_ctx s c = None \<Longrightarrow> switching (ws_ctx s) c = None"
  by (simp_all add: forked_def holds_lock_def switching_def)

text \<open>A child that its parent could collect, and a context that will still wake the child's parent.\<close>

definition zombie_for :: "wsys \<Rightarrow> nat \<Rightarrow> int \<Rightarrow> nat \<Rightarrow> bool" where
  "zombie_for s p pid np \<longleftrightarrow> np < NPROC \<and> p_parent (ws_proc s np) = Some p \<and> p_state (ws_proc s np) = ZOMBIE \<and>
     is_target pid np (ws_k s)"

fun waking :: "place \<Rightarrow> bool" where
  "waking Exit_zombie = True"
| "waking Exit_parent = True"
| "waking _ = False"

definition will_wake :: "wsys \<Rightarrow> nat \<Rightarrow> bool" where
  "will_wake s np \<longleftrightarrow> (\<exists>d l. ws_ctx s d = Some (np, l) \<and> waking l)"

lemmas op_defs = become_zombie_def go_to_sleep_def yield_cpu_def take_cpu_def free_fields_def rouse_def

lemma softlyD:
  assumes "softly k k'"
  shows "p_state (ks_procs k' i) = ZOMBIE \<longleftrightarrow> p_state (ks_procs k i) = ZOMBIE"
    "p_state (ks_procs k' i) = UNUSED \<longleftrightarrow> p_state (ks_procs k i) = UNUSED"
    "p_state (ks_procs k' i) = USED \<longleftrightarrow> p_state (ks_procs k i) = USED"
    "p_state (ks_procs k' i) = SLEEPING \<Longrightarrow> p_state (ks_procs k i) = SLEEPING"
    "p_pid (ks_procs k' i) = p_pid (ks_procs k i)" "p_chan (ks_procs k' i) = p_chan (ks_procs k i)"
    "ks_initproc k' = ks_initproc k"
  using assms unfolding softly_def by (metis procstate.distinct)+

lemmas soft_ops = softlyD(1-3,5-7) [OF softly_reparent] softlyD(1-3,5-7) [OF softly_wakeup]

text \<open>How updates keep these.\<close>

lemma table_upd:
  assumes "table_sane k" "p = ks_initproc k \<Longrightarrow> p_parent (f (ks_procs k p)) = None \<and> p_state (f (ks_procs k p)) \<notin> {UNUSED, USED, ZOMBIE}"
    "p_parent (f (ks_procs k p)) \<noteq> Some p"
  shows "table_sane (upd_proc p f k)"
  using assms by (cases "p = ks_initproc k") (auto simp: table_sane_def)

lemma table_thread [simp]: "table_sane (set_thread_of p st k) = table_sane k"
  by (simp add: table_sane_def)

lemma table_soft:
  assumes "table_sane k" "softly k k'" "\<And>j. p_parent (ks_procs k' j) = p_parent (ks_procs k j) \<or>
      p_parent (ks_procs k j) \<noteq> None \<and> p_parent (ks_procs k' j) = Some (ks_initproc k)"
  shows "table_sane k'"
proof -
  note T = assms(1) [unfolded table_sane_def] and S = softlyD [OF assms(2)]
  have "p_parent (ks_procs k' j) \<noteq> Some j" for j using T assms(3) [of j] by (cases "j = ks_initproc k") auto
  then show ?thesis using T S assms(3) [of "ks_initproc k"] unfolding table_sane_def by auto
qed

lemma slots_upd: "slots_ok n ctx \<Longrightarrow> p < NPROC \<Longrightarrow> (leaving l \<Longrightarrow> p \<noteq> n) \<Longrightarrow> slots_ok n (ctx(c \<mapsto> (p, l)))"
  by (simp add: slots_ok_def)

lemma slotsD: "slots_ok n ctx \<Longrightarrow> ctx c = Some (p, l) \<Longrightarrow> p < NPROC \<and> (leaving l \<longrightarrow> p \<noteq> n)"
  by (simp add: slots_ok_def)

lemma forks_drop: "forks_ok k F \<Longrightarrow> forks_ok k (F(c := None))"
  by (auto simp: forks_ok_def)

lemma forks_state:
  "forks_ok k F \<Longrightarrow> (\<And>j. p_state (ks_procs k j) = USED \<Longrightarrow> p_state (ks_procs k' j) = USED) \<Longrightarrow> forks_ok k' F"
  unfolding forks_ok_def by blast

lemma sys_upd:
  "ws_ctx (s\<lparr>ws_plock := x\<rparr>) = ws_ctx s" "ws_k (s\<lparr>ws_plock := x\<rparr>) = ws_k s" "ws_ctx (s\<lparr>ws_held := h\<rparr>) = ws_ctx s"
  "ws_held (s\<lparr>ws_held := h\<rparr>) = h" "ws_k (s\<lparr>ws_held := h\<rparr>) = ws_k s"
  by simp_all

lemma plock_take: "plock_ok None H \<Longrightarrow> plock_ok (Some c) (H(c := True))"
  by (auto simp: plock_ok_def)

lemma plock_drop: "plock_ok h H \<Longrightarrow> H c \<Longrightarrow> plock_ok None (H(c := False))"
  by (auto simp: plock_ok_def)

lemma plock_keep: "plock_ok h H \<Longrightarrow> H c = b \<Longrightarrow> plock_ok h (H(c := b))"
  by (auto simp: plock_ok_def)

lemma held_take: "held_ok held S \<Longrightarrow> \<not> held p \<Longrightarrow> held_ok (held(p := True)) (S(c \<mapsto> p))"
  by (auto simp: held_ok_def)

lemma held_drop: "held_ok held S \<Longrightarrow> S c = Some p \<Longrightarrow> held_ok (held(p := False)) (S(c := None))"
  by (auto simp: held_ok_def)

lemma held_none: "held_ok held S \<Longrightarrow> held_ok held (S(c := None))"
  by (auto simp: held_ok_def)

lemma table_step: "wstep s s' \<Longrightarrow> table_sane (ws_k s) \<Longrightarrow> slots_ok (ws_init s) (ws_ctx s) \<Longrightarrow> forks_ok (ws_k s) (forked (ws_ctx s)) \<Longrightarrow> table_sane (ws_k s')"
proof (induction rule: wstep.induct)
  case (exit_zombie s c p st)
  then show ?case unfolding runs_def op_defs by (auto simp: table_sane_def split: if_splits)
next
  case (exit_reparent s c p)
  then have "p \<noteq> ks_initproc (ws_k s)" using slotsD by fastforce
  then show ?case using table_soft [OF exit_reparent.prems(1) softly_reparent, of p p] by (simp add: reparent_parent)
next
  case (exit_wake s c p)
  then show ?case using table_soft [OF exit_wake.prems(1) softly_wakeup] by simp
next
  case (exit_gone s c p)
  then show ?case by simp
next
  case (wait_call s c p pid opt)
  then show ?case by simp
next
  case (wait_lock s c p pid opt)
  then show ?case by simp
next
  case (wait_other s c p pid opt j kids found)
  then show ?case by simp
next
  case (wait_child s c p pid opt j kids found)
  then show ?case by simp
next
  case (wait_reap s c p pid opt j kids found)
  then show ?case unfolding runs_def op_defs by (auto simp: table_sane_def split: if_splits)
next
  case (wait_fault s c p pid opt j kids found)
  then show ?case by simp
next
  case (wait_return s c p pid opt kids found r)
  then show ?case by simp
next
  case (wait_sleep s c p pid opt kids found)
  then show ?case by simp
next
  case (wait_switch s c p pid opt)
  then show ?case unfolding runs_def op_defs by (auto simp: table_sane_def split: if_splits)
next
  case (wait_awake s c p pid opt)
  then show ?case unfolding runs_def op_defs by (auto simp: table_sane_def split: if_splits)
next
  case (sys_return s c p r)
  then show ?case by simp
next
  case (fork_alloc s c p j pid)
  then show ?case unfolding runs_def op_defs by (auto simp: table_sane_def split: if_splits)
next
  case (fork_parent s c p j)
  have u: "p_state (ws_proc s j) = USED" using fork_parent.hyps(1) fork_parent.prems(3) ctx_at(1) by (fastforce simp: runs_def forks_ok_def)
  then have "j \<noteq> ws_init s" "j \<noteq> p" using fork_parent.hyps(1) fork_parent.prems(1) by (auto simp: runs_def table_sane_def)
  then show ?case using fork_parent.prems(1) by (auto intro!: table_upd)
next
  case (fork_run s c p j d)
  have "p_state (ws_proc s j) = USED" using fork_run.hyps(1) fork_run.prems(3) ctx_at(1) by (fastforce simp: runs_def forks_ok_def)
  then have "j \<noteq> ws_init s" using fork_run.prems(1) by (auto simp: table_sane_def)
  then show ?case using fork_run.prems(1) by (auto simp: table_sane_def)
next
  case (dispatch s p)
  then show ?case unfolding runs_def op_defs by (auto simp: table_sane_def split: if_splits)
next
  case (preempt s p)
  then show ?case unfolding runs_def op_defs by (auto simp: table_sane_def split: if_splits)
next
  case (sent_signal s p sig)
  then show ?case unfolding runs_def op_defs by (auto simp: table_sane_def split: if_splits)
qed

lemma init_step: "wstep s s' \<Longrightarrow> ws_init s' = ws_init s"
  by (induction rule: wstep.induct) (simp_all add: op_defs soft_ops)

lemma slots_step:
  "wstep s s' \<Longrightarrow> slots_ok (ws_init s) (ws_ctx s) \<Longrightarrow> forks_ok (ws_k s) (forked (ws_ctx s)) \<Longrightarrow> slots_ok (ws_init s) (ws_ctx s')"
proof (induction rule: wstep.induct)
  case (fork_run s c p j d)
  then have "j < NPROC" "p < NPROC" using ctx_at(1) slotsD by (fastforce simp: runs_def forks_ok_def)+
  then show ?case unfolding goes_simps using fork_run.prems(1) by (intro slots_upd) auto
qed (auto simp: runs_def intro!: slots_upd split: option.split dest: slotsD)

lemma plock_step:
  "wstep s s' \<Longrightarrow> plock_ok (ws_plock s) (holds_lock (ws_ctx s)) \<Longrightarrow> plock_ok (ws_plock s') (holds_lock (ws_ctx s'))"
proof (induction rule: wstep.induct)
  case (wait_call s c p pid opt)
  then have "holds_lock (ws_ctx s) c = holds_parent_lock (case wait_args pid opt of None \<Rightarrow> Wait_call pid opt | Some r \<Rightarrow> Return r)"
    using ctx_at(2) [of s c p Running] by (simp add: runs_def split: option.split)
  then show ?case unfolding goes_simps ctx_upd by (rule plock_keep [OF wait_call.prems])
next
  case (fork_run s c p j d)
  then have "holds_lock (ws_ctx s) d = False" "((holds_lock (ws_ctx s))(d := False)) c = False"
    using ctx_at(2,5) by (fastforce simp: runs_def)+
  then show ?case unfolding goes_simps ctx_upd holds_parent_lock.simps by (intro plock_keep fork_run.prems)
qed (simp_all add: runs_def plock_keep plock_take plock_drop ctx_at)

lemma held_step:
  "wstep s s' \<Longrightarrow> held_ok (ws_held s) (switching (ws_ctx s)) \<Longrightarrow> held_ok (ws_held s') (switching (ws_ctx s'))"
proof (induction rule: wstep.induct)
  case (wait_call s c p pid opt)
  have "\<not> sleeping (case wait_args pid opt of None \<Rightarrow> Wait_call pid opt | Some r \<Rightarrow> Return r)" by (simp split: option.split)
  then show ?case using held_none [OF wait_call.prems] unfolding goes_simps ctx_upd by (simp only: if_False)
next
  case (wait_switch s c p pid opt)
  then have "switching (ws_ctx s) c = Some p" using ctx_at(3) by (fastforce simp: runs_def)
  then show ?case using held_drop [OF wait_switch.prems] by (simp only: goes_simps ctx_upd sys_upd sleeping.simps if_False)
qed (simp_all add: held_none held_take)

lemma forks_step:
  "wstep s s' \<Longrightarrow> forks_ok (ws_k s) (forked (ws_ctx s)) \<Longrightarrow> forks_ok (ws_k s') (forked (ws_ctx s'))"
proof (induction rule: wstep.induct)
  case (wait_call s c p pid opt)
  have "forking (case wait_args pid opt of None \<Rightarrow> Wait_call pid opt | Some r \<Rightarrow> Return r) = None" by (simp split: option.split)
  then show ?case using forks_drop [OF wait_call.prems] unfolding goes_simps ctx_upd id_def by (simp only:)
next
  case (fork_alloc s c p j pid)
  have n: "forked (ws_ctx s) d \<noteq> Some j" for d using fork_alloc.hyps(4) fork_alloc.prems by (auto simp: forks_ok_def)
  then show ?case using fork_alloc.hyps(2) fork_alloc.prems unfolding forks_ok_def goes_simps ctx_upd proc_fields by auto
next
  case (fork_parent s c p j)
  then have "forked (ws_ctx s) c = Some j" using ctx_at(1) by (fastforce simp: runs_def)
  then show ?case using fork_parent.prems unfolding forks_ok_def goes_simps ctx_upd proc_fields by auto
next
  case (fork_run s c p j d)
  then have j: "forked (ws_ctx s) c = Some j" "forked (ws_ctx s) d = None" using ctx_at(1,4) by (fastforce simp: runs_def)+
  then show ?case using fork_run.prems unfolding forks_ok_def goes_simps ctx_upd proc_fields by auto
next
  case (exit_reparent s c p)
  show ?case using forks_state [OF forks_drop [OF exit_reparent.prems]] soft_ops(3)
    by (simp only: goes_simps ctx_upd sys_upd forking.simps)
next
  case (exit_wake s c p)
  show ?case using forks_state [OF forks_drop [OF exit_wake.prems]] soft_ops(9)
    by (simp only: goes_simps ctx_upd sys_upd forking.simps)
qed (auto simp: op_defs runs_def intro!: forks_drop elim!: forks_state)

definition frame_ok :: "wsys \<Rightarrow> bool" where
  "frame_ok s \<longleftrightarrow> table_sane (ws_k s) \<and> slots_ok (ws_init s) (ws_ctx s) \<and> forks_ok (ws_k s) (forked (ws_ctx s)) \<and>
     plock_ok (ws_plock s) (holds_lock (ws_ctx s)) \<and> held_ok (ws_held s) (switching (ws_ctx s))"

lemma frame_step: "wstep s s' \<Longrightarrow> frame_ok s \<Longrightarrow> frame_ok s'"
  unfolding frame_ok_def init_step by (metis table_step slots_step forks_step plock_step held_step init_step)

lemma will_goes:
  assumes "will_wake s np" "ws_ctx s c = Some (p, l)" "ws_ctx s' = (ws_ctx s)(c \<mapsto> (p, l'))" "p \<noteq> np \<or> \<not> waking l \<or> waking l'"
  shows "will_wake s' np"
proof -
  obtain d m where d: "ws_ctx s d = Some (np, m)" "waking m" using assms(1) unfolding will_wake_def by blast
  then have "ws_ctx s' d = Some (np, if d = c then l' else m)" "waking (if d = c then l' else m)" using assms(2-4) by auto
  then show ?thesis unfolding will_wake_def by blast
qed

lemma will_run:
  "runs s c p l \<Longrightarrow> will_wake s np \<Longrightarrow> ws_ctx s2 = ws_ctx s \<Longrightarrow> \<not> waking l \<Longrightarrow> will_wake (goes c p l' f s2) np"
  by (rule will_goes [of s np c p l _ l']) (simp_all add: runs_def)

lemma will_step:
  "wstep s s' \<Longrightarrow> will_wake s np \<Longrightarrow> will_wake s' np \<or>
     (\<exists>c. ws_ctx s c = Some (np, Exit_parent) \<and> s' = goes c np Exit_woken (wakeup np (parent_chan np (ws_k s))) (s\<lparr>ws_plock := None\<rparr>) \<and>
        (\<forall>q. p_parent (ws_proc s np) = Some q \<longrightarrow> \<not> ws_held s q))"
proof (induction rule: wstep.induct)
  case (exit_wake s c p)
  show ?case
  proof (cases "p = np")
    case False then show ?thesis using will_goes [OF exit_wake.prems exit_wake.hyps(1)] by simp
  qed (use exit_wake.hyps in auto)
next
  case (fork_run s c p j d)
  obtain e l where "ws_ctx s e = Some (np, l)" "waking l" using fork_run.prems unfolding will_wake_def by blast
  moreover from this have "e \<noteq> d" using fork_run.hyps(3) by auto
  ultimately have "ws_ctx (goes d j Running id s) e = Some (np, l)" "waking l" by simp_all
  then have "will_wake (goes d j Running id s) np" unfolding will_wake_def by blast
  moreover have "ws_ctx (goes d j Running id s) c = Some (p, Fork_child j)" using fork_run.hyps(1,4) by (simp add: runs_def)
  ultimately show ?case using will_goes by simp
next
  case (dispatch s p) then show ?case by (simp add: will_wake_def)
next
  case (preempt s p) then show ?case by (simp add: will_wake_def)
next
  case (sent_signal s p sig) then show ?case by (simp add: will_wake_def)
next
  case (exit_reparent s c p)
  then show ?case using will_goes [OF exit_reparent.prems exit_reparent.hyps(1)] by simp
next
  case (exit_gone s c p)
  then show ?case using will_goes [OF exit_gone.prems exit_gone.hyps(1)] by simp
qed (rule disjI1, erule will_run, assumption, simp, simp)+

section \<open>One active context per process\<close>

definition active :: "contexts \<Rightarrow> nat \<Rightarrow> nat option" where
  "active ctx c = (case ctx c of None \<Rightarrow> None | Some (p, l) \<Rightarrow> if leaving l then None else Some p)"

definition active_ok :: "ksys \<Rightarrow> (nat \<Rightarrow> nat option) \<Rightarrow> bool" where
  "active_ok k A \<longleftrightarrow> (\<forall>c p. A c = Some p \<longrightarrow> p_state (ks_procs k p) \<notin> {UNUSED, USED, ZOMBIE} \<and> (\<forall>d. A d = Some p \<longrightarrow> d = c))"

lemma active_upd: "active (ctx(c \<mapsto> (p, l))) = (active ctx)(c := if leaving l then None else Some p)"
  by (auto simp: active_def fun_eq_iff)

lemma active_at:
  "ws_ctx s c = Some (p, l) \<Longrightarrow> active (ws_ctx s) c = (if leaving l then None else Some p)"
  "ws_ctx s c = None \<Longrightarrow> active (ws_ctx s) c = None"
  by (simp_all add: active_def)

lemma active_keep:
  assumes "active_ok k A" "A c = x" "\<And>j. p_state (ks_procs k j) \<notin> {UNUSED, USED, ZOMBIE} \<Longrightarrow> p_state (ks_procs k' j) \<notin> {UNUSED, USED, ZOMBIE}"
  shows "active_ok k' (A(c := x))"
proof -
  have "A(c := x) = A" using assms(2) by auto
  then show ?thesis using assms(1,3) unfolding active_ok_def by metis
qed

lemma active_run:
  assumes "runs s c p l" "active_ok (ws_k s) (active (ws_ctx s))" "ws_ctx s2 = ws_ctx s" "\<not> leaving l" "\<not> leaving l'"
    and "\<And>j. p_state (ks_procs (ws_k s) j) \<notin> {UNUSED, USED, ZOMBIE} \<Longrightarrow> p_state (ks_procs (f (ws_k s2)) j) \<notin> {UNUSED, USED, ZOMBIE}"
  shows "active_ok (ws_k (goes c p l' f s2)) (active (ws_ctx (goes c p l' f s2)))"
  unfolding goes_simps active_upd assms(3) using assms(1,4,5) active_at(1) [of s c p l]
  by (intro active_keep [OF assms(2)] assms(6)) (auto simp: runs_def)

lemma active_step:
  "wstep s s' \<Longrightarrow> forks_ok (ws_k s) (forked (ws_ctx s)) \<Longrightarrow> active_ok (ws_k s) (active (ws_ctx s)) \<Longrightarrow>
   active_ok (ws_k s') (active (ws_ctx s'))"
proof (induction rule: wstep.induct)
  case (exit_zombie s c p st)
  then have "active (ws_ctx s) c = Some p" using active_at(1) [of s c p Running] by (simp add: runs_def)
  then show ?case using exit_zombie.prems(2) unfolding active_ok_def goes_simps active_upd op_defs proc_fields by auto
next
  case (exit_reparent s c p)
  show ?case unfolding goes_simps active_upd sys_upd
    by (rule active_keep [OF exit_reparent.prems(2)]) (use active_at(1) [OF exit_reparent.hyps(1)] in \<open>auto simp: soft_ops\<close>)
next
  case (exit_wake s c p)
  show ?case unfolding goes_simps active_upd sys_upd
    by (rule active_keep [OF exit_wake.prems(2)]) (use active_at(1) [OF exit_wake.hyps(1)] in \<open>auto simp: soft_ops\<close>)
next
  case (exit_gone s c p)
  show ?case unfolding goes_simps active_upd sys_upd
    by (rule active_keep [OF exit_gone.prems(2)]) (use active_at(1) [OF exit_gone.hyps(1)] in auto)
next
  case (fork_run s c p j d)
  have c: "active (ws_ctx s) c = Some p" "active (ws_ctx s) d = None"
    using active_at fork_run.hyps(1,3) by (fastforce simp: runs_def)+
  have u: "p_state (ws_proc s j) = USED" using fork_run.hyps(1) fork_run.prems(1) ctx_at(1) by (fastforce simp: runs_def forks_ok_def)
  have n: "active (ws_ctx s) e \<noteq> Some j" for e using u fork_run.prems(2) by (auto simp: active_ok_def)
  have "active_ok (yield_cpu j (ws_k s)) ((active (ws_ctx s))(d \<mapsto> j))"
    using fork_run.prems(2) n unfolding active_ok_def proc_fields by auto
  then have "active_ok (yield_cpu j (ws_k s)) ((active (ws_ctx s))(d \<mapsto> j, c \<mapsto> p))"
    by (rule active_keep) (use c fork_run.hyps(4) in auto)
  then show ?case unfolding goes_simps active_upd leaving.simps if_False id_def .
next
  case (wait_reap s c p pid opt j kids found)
  then show ?case by (intro active_run [OF wait_reap.hyps(1)]) (auto simp: op_defs)
next
  case (wait_call s c p pid opt)
  then show ?case by (intro active_run [OF wait_call.hyps(1)]) (auto split: option.split)
next
  case (wait_switch s c p pid opt)
  then show ?case by (intro active_run [OF wait_switch.hyps(1)]) (auto simp: op_defs)
next
  case (wait_awake s c p pid opt)
  then show ?case by (intro active_run [OF wait_awake.hyps(1)]) (auto simp: op_defs)
next
  case (fork_parent s c p j)
  then show ?case by (intro active_run [OF fork_parent.hyps(1)]) (auto simp: op_defs)
next
  case (fork_alloc s c p j pid)
  then show ?case by (intro active_run [OF fork_alloc.hyps(1)]) (auto simp: op_defs)
next
  case (dispatch s p) then show ?case by (auto simp: active_ok_def)
next
  case (preempt s p) then show ?case by (auto simp: active_ok_def op_defs)
next
  case (sent_signal s p sig) then show ?case by (auto simp: active_ok_def op_defs)
qed (erule active_run, assumption, simp, simp, simp, simp)+

section \<open>Children to collect\<close>

text \<open>A child appears to its parent by leaving, or by losing its parent to the first process.\<close>

lemma zombie_step:
  "wstep s s' \<Longrightarrow> slots_ok (ws_init s) (ws_ctx s) \<Longrightarrow> forks_ok (ws_k s) (forked (ws_ctx s)) \<Longrightarrow> zombie_for s' p pid np \<Longrightarrow>
   zombie_for s p pid np \<or> will_wake s' np \<or>
   (\<exists>c q. ws_ctx s c = Some (q, Exit_zombie) \<and> ws_plock s = None \<and> p = ws_init s \<and> \<not> ws_held s p \<and>
      s' = goes c q Exit_parent (reparent q q) (s\<lparr>ws_plock := Some c\<rparr>) \<and> np < NPROC \<and> p_parent (ws_proc s np) = Some q)"
proof (induction rule: wstep.induct)
  case (exit_zombie s c q st)
  show ?case
  proof (cases "np = q")
    case True then show ?thesis by (auto simp: will_wake_def)
  qed (use exit_zombie.prems(3) in \<open>auto simp: zombie_for_def is_target_def op_defs\<close>)
next
  case (exit_reparent s c q)
  have q: "q \<noteq> ks_initproc (ws_k s)" using slotsD [OF exit_reparent.prems(1) exit_reparent.hyps(1)] by simp
  then have z: "np < NPROC" "p_state (ws_proc s np) = ZOMBIE" "is_target pid np (ws_k s)"
    "p_parent (ws_proc s np) = Some p \<or> p_parent (ws_proc s np) = Some q \<and> p = ws_init s"
    using exit_reparent.prems(3) by (auto simp: zombie_for_def is_target_def soft_ops reparent_parent split: if_splits)
  show ?case
  proof (cases "p_parent (ws_proc s np) = Some p")
    case True then show ?thesis using z by (simp add: zombie_for_def)
  next
    case False
    then have "p_parent (ws_proc s np) = Some q" "p = ws_init s" using z(4) by auto
    then show ?thesis using exit_reparent.hyps z(1) by (intro disjI2 exI [of _ c] exI [of _ q]) auto
  qed
next
  case (exit_wake s c q)
  then show ?case by (simp add: zombie_for_def is_target_def soft_ops)
next
  case (fork_parent s c q j)
  then have "p_state (ws_proc s j) = USED" using ctx_at(1) [of s c q "Fork_new j"] by (auto simp: runs_def forks_ok_def)
  then show ?case using fork_parent.prems(3) by (auto simp: zombie_for_def is_target_def split: if_splits)
qed (auto simp: zombie_for_def is_target_def op_defs split: if_splits)

text \<open>How a context gets to a place inside \<^verbatim>\<open>waitpid\<close>.\<close>

definition scanned :: "wsys \<Rightarrow> nat \<Rightarrow> nat \<Rightarrow> int \<Rightarrow> nat \<Rightarrow> bool" where
  "scanned s c p pid j \<longleftrightarrow> (\<exists>opt kids found. ws_ctx s c = Some (p, Wait_scan pid opt j kids found))"

lemma scan_step:
  "wstep s s' \<Longrightarrow> scanned s' c p pid j \<Longrightarrow> scanned s c p pid j \<or> j = 0 \<or>
     (\<exists>i. j = Suc i \<and> scanned s c p pid i \<and> \<not> zombie_for s p pid i \<and> ws_k s' = ws_k s)"
  by (induction rule: wstep.induct)
    (auto simp: scanned_def runs_def zombie_for_def split: if_splits option.splits)

lemma switch_step:
  "wstep s s' \<Longrightarrow> ws_ctx s' c = Some (p, Wait_sleep pid opt) \<Longrightarrow>
   ws_ctx s c = Some (p, Wait_sleep pid opt) \<or> scanned s c p pid NPROC \<and> ws_k s' = ws_k s"
  by (induction rule: wstep.induct) (auto simp: scanned_def runs_def split: if_splits option.splits)

lemma asleep_step:
  "wstep s s' \<Longrightarrow> active_ok (ws_k s) (active (ws_ctx s)) \<Longrightarrow> ws_ctx s' c = Some (p, Wait_asleep pid opt) \<Longrightarrow> p_state (ws_proc s' p) = SLEEPING \<Longrightarrow>
   ws_ctx s c = Some (p, Wait_asleep pid opt) \<and> p_state (ws_proc s p) = SLEEPING \<and> p_chan (ws_proc s' p) = p_chan (ws_proc s p) \<or>
   ws_ctx s c = Some (p, Wait_sleep pid opt) \<and> p_chan (ws_proc s' p) = ChanProc p \<and> (\<forall>np. zombie_for s' p pid np \<longrightarrow> zombie_for s p pid np)"
proof (induction rule: wstep.induct)
  case (wait_switch s d q pid' opt')
  show ?case
  proof (cases "c = d")
    case True
    then show ?thesis using wait_switch by (auto simp: runs_def op_defs zombie_for_def is_target_def split: if_splits)
  next
    case False
    then have "ws_ctx s c = Some (p, Wait_asleep pid opt)" using wait_switch.prems(2) by simp
    then have "p \<noteq> q" using wait_switch.prems(1) wait_switch.hyps(1) False active_at(1) [of s c] active_at(1) [of s d]
      unfolding active_ok_def runs_def by fastforce
    then show ?thesis using wait_switch False by (simp add: op_defs)
  qed
next
  case (exit_reparent s d q)
  then show ?case using softlyD(4) [OF softly_reparent] by (auto simp: soft_ops split: if_splits)
next
  case (exit_wake s d q)
  then show ?case using softlyD(4) [OF softly_wakeup] by (auto simp: soft_ops split: if_splits)
qed (auto simp: runs_def op_defs split: if_splits option.splits)

section \<open>No wake-up is lost\<close>

definition waits_ok :: "wsys \<Rightarrow> bool" where
  "waits_ok s \<longleftrightarrow>
     (\<forall>c p pid j np. scanned s c p pid j \<and> np < j \<and> zombie_for s p pid np \<longrightarrow> will_wake s np) \<and>
     (\<forall>c p pid opt np. ws_ctx s c = Some (p, Wait_sleep pid opt) \<and> zombie_for s p pid np \<longrightarrow> will_wake s np) \<and>
     (\<forall>c p pid opt. ws_ctx s c = Some (p, Wait_asleep pid opt) \<and> p_state (ws_proc s p) = SLEEPING \<longrightarrow>
        p_chan (ws_proc s p) = ChanProc p \<and> (\<forall>np. zombie_for s p pid np \<longrightarrow> will_wake s np))"

definition wait_inv :: "wsys \<Rightarrow> bool" where
  "wait_inv s \<longleftrightarrow> frame_ok s \<and> active_ok (ws_k s) (active (ws_ctx s)) \<and> waits_ok s"

lemma scanned_plock: "frame_ok s \<Longrightarrow> scanned s c p pid j \<Longrightarrow> ws_plock s = Some c"
  using ctx_at(2) [of s c] by (fastforce simp: frame_ok_def plock_ok_def scanned_def)

lemma leaver_plock: "frame_ok s \<Longrightarrow> ws_ctx s d = Some (q, Exit_parent) \<Longrightarrow> ws_plock s = Some d"
  using ctx_at(2) [of s d] by (fastforce simp: frame_ok_def plock_ok_def)

lemma sleeper_held: "frame_ok s \<Longrightarrow> ws_ctx s c = Some (p, Wait_sleep pid opt) \<Longrightarrow> ws_held s p"
  using ctx_at(3) [of s c] by (fastforce simp: frame_ok_def held_ok_def)

text \<open>What may happen to a child that can be collected and whose parent is not yet woken.\<close>

lemma carry:
  assumes st: "wstep s s'" and f: "frame_ok s" and z: "zombie_for s' p pid np" and ih: "zombie_for s p pid np \<Longrightarrow> will_wake s np"
    and c: "ws_plock s = Some c \<and> (\<forall>q. ws_ctx s c \<noteq> Some (q, Exit_parent)) \<or> ws_held s p"
  shows "will_wake s' np"
proof (rule ccontr)
  assume n: "\<not> will_wake s' np"
  have so: "slots_ok (ws_init s) (ws_ctx s)" "forks_ok (ws_k s) (forked (ws_ctx s))" using f by (simp_all add: frame_ok_def)
  from zombie_step [OF st so z] n have "zombie_for s p pid np" using c by auto
  then have "p_parent (ws_proc s np) = Some p" "will_wake s np" using ih by (auto simp: zombie_for_def)
  with will_step [OF st this(2)] n obtain d where "ws_ctx s d = Some (np, Exit_parent)" "\<not> ws_held s p" by blast
  then show False using c leaver_plock [OF f] by fastforce
qed

lemma carry_asleep:
  assumes st: "wstep s s'" and f: "frame_ok s" and z: "zombie_for s' p pid np" and ih: "zombie_for s p pid np \<Longrightarrow> will_wake s np"
    and c: "p < NPROC" "p_state (ws_proc s p) = SLEEPING" "p_chan (ws_proc s p) = ChanProc p" "p_state (ws_proc s' p) = SLEEPING"
  shows "will_wake s' np"
proof (rule ccontr)
  assume n: "\<not> will_wake s' np"
  have so: "slots_ok (ws_init s) (ws_ctx s)" "forks_ok (ws_k s) (forked (ws_ctx s))" "table_sane (ws_k s)" using f by (simp_all add: frame_ok_def)
  have al: "asleep_on (ws_k s) p (ChanProc p)" using c by (simp add: asleep_on_def)
  have soft: "softly k k' \<Longrightarrow> ws_k s = k \<Longrightarrow> ws_k s' = k' \<Longrightarrow> asleep_on k' p (ChanProc p)" for k k'
    using c softlyD(6) by (simp add: asleep_on_def)
  from zombie_step [OF st so(1,2) z] n
  consider "zombie_for s p pid np" | d q where "ws_ctx s d = Some (q, Exit_zombie)" "p = ws_init s" "np < NPROC"
      "p_parent (ws_proc s np) = Some q" "s' = goes d q Exit_parent (reparent q q) (s\<lparr>ws_plock := Some d\<rparr>)" by blast
  then show False
  proof cases
    case 1
    then have pa: "p_parent (ws_proc s np) = Some p" "will_wake s np" using ih by (auto simp: zombie_for_def)
    have "np \<noteq> p" using pa(1) so(3) by (auto simp: table_sane_def)
    moreover from will_step [OF st pa(2)] n obtain d where "s' = goes d np Exit_woken (wakeup np (parent_chan np (ws_k s))) (s\<lparr>ws_plock := None\<rparr>)"
      by blast
    then have "ws_k s' = wakeup np (ChanProc p) (ws_k s)" using pa(1) by (simp add: parent_chan_def)
    then have "asleep_on (wakeup np (ChanProc p) (ws_k s)) p (ChanProc p)" using soft [OF softly_wakeup refl] by blast
    ultimately show False using c(1) by (simp add: wakeup_asleep)
  next
    case 2
    have q: "q \<noteq> ks_initproc (ws_k s)" using slotsD [OF so(1) 2(1)] by simp
    have "ws_k s' = reparent q q (ws_k s)" using 2(5) by simp
    then have "asleep_on (reparent q q (ws_k s)) p (ChanProc p)" using soft [OF softly_reparent refl] by blast
    then show False using reparent_asleep [OF q, of q "[0..<NPROC]" p "ChanProc p"] 2 q c(1) unfolding reparent_def by auto
  qed
qed

lemma waits_step:
  assumes st: "wstep s s'" and i: "wait_inv s"
  shows "waits_ok s'"
proof -
  have f: "frame_ok s" and a: "active_ok (ws_k s) (active (ws_ctx s))" and w: "waits_ok s" using i by (simp_all add: wait_inv_def)
  have sc: "ws_plock s = Some c \<and> (\<forall>q. ws_ctx s c \<noteq> Some (q, Exit_parent)) \<or> ws_held s p" if "scanned s c p pid j" for c p pid j
    using scanned_plock [OF f that] that by (auto simp: scanned_def)
  show ?thesis
    unfolding waits_ok_def
  proof (intro conjI allI impI; elim conjE)
    fix c p pid j np
    assume h: "scanned s' c p pid j" "np < j" "zombie_for s' p pid np"
    then consider "scanned s c p pid j" | k where "j = Suc k" "scanned s c p pid k" "\<not> zombie_for s p pid k" using scan_step [OF st h(1)] by auto
    then show "will_wake s' np"
    proof cases
      case 1 then show ?thesis using carry [OF st f h(3) _ sc [OF 1]] w h(2) unfolding waits_ok_def by blast
    next
      case 2
      then have "zombie_for s p pid np \<Longrightarrow> will_wake s np" using w h(2) less_antisym unfolding waits_ok_def by metis
      then show ?thesis using carry [OF st f h(3) _ sc [OF 2(2)]] by blast
    qed
  next
    fix c p pid opt np
    assume h: "ws_ctx s' c = Some (p, Wait_sleep pid opt)" "zombie_for s' p pid np"
    from switch_step [OF st h(1)] consider "ws_ctx s c = Some (p, Wait_sleep pid opt)" | "scanned s c p pid NPROC" by blast
    then show "will_wake s' np"
    proof cases
      case 1 then show ?thesis using carry [OF st f h(2)] sleeper_held [OF f 1] w unfolding waits_ok_def by blast
    next
      case 2
      have "zombie_for s p pid np \<Longrightarrow> will_wake s np" using w 2 unfolding waits_ok_def zombie_for_def by blast
      then show ?thesis using carry [OF st f h(2) _ sc [OF 2]] by blast
    qed
  next
    fix c p pid opt
    assume h: "ws_ctx s' c = Some (p, Wait_asleep pid opt)" "p_state (ws_proc s' p) = SLEEPING"
    from asleep_step [OF st a h] show "p_chan (ws_proc s' p) = ChanProc p"
      using w unfolding waits_ok_def by metis
  next
    fix c p pid opt np
    assume h: "ws_ctx s' c = Some (p, Wait_asleep pid opt)" "p_state (ws_proc s' p) = SLEEPING" and z: "zombie_for s' p pid np"
    from asleep_step [OF st a h] show "will_wake s' np"
    proof (elim disjE conjE)
      assume o: "ws_ctx s c = Some (p, Wait_asleep pid opt)" "p_state (ws_proc s p) = SLEEPING"
      then have "p < NPROC" using f slotsD by (fastforce simp: frame_ok_def)
      then show ?thesis using carry_asleep [OF st f z] o h(2) w unfolding waits_ok_def by blast
    next
      assume "ws_ctx s c = Some (p, Wait_sleep pid opt)"
      then show ?thesis using carry [OF st f z] sleeper_held [OF f] w unfolding waits_ok_def by blast
    qed
  qed
qed

lemma wait_inv_step: "wstep s s' \<Longrightarrow> wait_inv s \<Longrightarrow> wait_inv s'"
  using waits_step frame_step active_step unfolding wait_inv_def frame_ok_def by blast

lemma wait_inv_reachable: "wstep\<^sup>*\<^sup>* s0 s \<Longrightarrow> wait_inv s0 \<Longrightarrow> wait_inv s"
  by (induction rule: rtranclp_induct) (auto intro: wait_inv_step)

section \<open>Properties\<close>

text \<open>The first process runs, and every other slot of the table is free.\<close>

definition booted :: "ksys \<Rightarrow> bool" where
  "booted k \<longleftrightarrow> ks_initproc k = 0 \<and> p_state (ks_procs k 0) = RUNNING \<and> p_parent (ks_procs k 0) = None \<and>
     (\<forall>i > 0. p_state (ks_procs k i) = UNUSED \<and> p_parent (ks_procs k i) = None)"

definition boot :: "ksys \<Rightarrow> wsys" where
  "boot k = \<lparr>ws_k = k, ws_held = (\<lambda>_. False), ws_plock = None, ws_ctx = [0 \<mapsto> (ks_initproc k, Running)]\<rparr>"

lemma boot_inv: "booted k \<Longrightarrow> wait_inv (boot k)"
proof -
  assume b: "booted k"
  then have p: "p_parent (ks_procs k i) = None" for i by (cases i) (auto simp: booted_def)
  have c: "ws_ctx (boot k) c = Some (q, l) \<longleftrightarrow> c = 0 \<and> q = 0 \<and> l = Running" for c q l
    using b by (auto simp: boot_def booted_def)
  have e: "forked (ws_ctx (boot k)) = (\<lambda>_. None)" "holds_lock (ws_ctx (boot k)) = (\<lambda>_. False)" "switching (ws_ctx (boot k)) = (\<lambda>_. None)"
    "active (ws_ctx (boot k)) = [0 \<mapsto> 0]"
    using b by (auto simp: forked_def holds_lock_def switching_def active_def boot_def booted_def fun_eq_iff)
  have "frame_ok (boot k)"
    unfolding frame_ok_def e slots_ok_def c using b p
    by (auto simp: boot_def booted_def table_sane_def forks_ok_def plock_ok_def held_ok_def)
  moreover have "active_ok (ws_k (boot k)) (active (ws_ctx (boot k)))" unfolding e using b
    by (auto simp: boot_def booted_def active_ok_def split: if_splits)
  moreover have "waits_ok (boot k)" unfolding waits_ok_def scanned_def c by simp
  ultimately show ?thesis by (simp add: wait_inv_def)
qed

text \<open>
  C7: No wake-up is lost between \<^verbatim>\<open>exit\<close> and \<^verbatim>\<open>waitpid\<close>: whatever the processors do, when a process sleeps in
  \<^verbatim>\<open>waitpid\<close> and one of the children it waits for is a zombie, the process sleeps on the channel the child
  will wake, and the context of the child has not reached its \<^verbatim>\<open>wakeup\<close> yet.
\<close>

theorem waitpid_no_lost_wakeup:
  assumes "booted k" "wstep\<^sup>*\<^sup>* (boot k) s" "ws_ctx s c = Some (p, Wait_asleep pid opt)" "p_state (ws_proc s p) = SLEEPING"
    and "np < NPROC" "p_parent (ws_proc s np) = Some p" "p_state (ws_proc s np) = ZOMBIE" "pid = -1 \<or> p_pid (ws_proc s np) = pid"
  shows "p_chan (ws_proc s p) = ChanProc p \<and>
    (\<exists>d. ws_ctx s d = Some (np, Exit_zombie) \<or> ws_ctx s d = Some (np, Exit_parent))"
proof -
  have z: "zombie_for s p pid np" using assms(5-8) by (auto simp: zombie_for_def is_target_def)
  have "waits_ok s" using wait_inv_reachable [OF assms(2) boot_inv [OF assms(1)]] by (simp add: wait_inv_def)
  then have w: "p_chan (ws_proc s p) = ChanProc p" "will_wake s np" using assms(3,4) z unfolding waits_ok_def by blast+
  obtain d l where d: "ws_ctx s d = Some (np, l)" "waking l" using w(2) by (auto simp: will_wake_def)
  then have "l = Exit_zombie \<or> l = Exit_parent" by (cases l) auto
  then show ?thesis using w(1) d(1) by blast
qed

text \<open>A state the kernel reaches: the first process with one running child.\<close>

definition two_procs :: "ksys \<Rightarrow> wsys \<Rightarrow> bool" where
  "two_procs k s \<longleftrightarrow> ws_ctx s 0 = Some (0, Running) \<and> ws_ctx s 1 = Some (1, Running) \<and> ws_init s = 0 \<and>
     ws_plock s = None \<and> ws_held s = (\<lambda>_. False) \<and> p_state (ws_proc s 0) = RUNNING \<and> p_state (ws_proc s 1) = RUNNING \<and>
     p_parent (ws_proc s 1) = Some 0 \<and> (\<forall>i. i \<noteq> 1 \<longrightarrow> p_parent (ws_proc s i) = None) \<and> p_killed (ws_proc s 0) = p_killed (ks_procs k 0)"

lemma reach_two:
  assumes b: "booted k"
  obtains s where "wstep\<^sup>*\<^sup>* (boot k) s" "two_procs k s"
proof -
  define s1 where "s1 = goes 0 0 (Fork_new 1) (upd_proc 1 (\<lambda>q. q\<lparr>p_pid := 2, p_state := USED, p_exit_state := 0, p_killed := 0, p_current_thread := Some 0\<rparr>)) (boot k)"
  define s2 where "s2 = goes 0 0 (Fork_child 1) (upd_proc 1 (\<lambda>q. q\<lparr>p_parent := Some 0\<rparr>)) s1"
  define s3 where "s3 = goes 0 0 Running (yield_cpu 1) (goes 1 1 Running id s2)"
  define s4 where "s4 = s3\<lparr>ws_k := take_cpu 1 (ws_k s3)\<rparr>"
  note B = b [unfolded booted_def]
  have st: "ws_ctx (boot k) = [0 \<mapsto> (0, Running)]" "ws_k (boot k) = k" "ws_plock (boot k) = None" "ws_held (boot k) = (\<lambda>_. False)"
    using B by (simp_all add: boot_def)
  have "wstep (boot k) s1" unfolding s1_def by (rule fork_alloc) (use B in \<open>simp_all add: runs_def st\<close>)
  moreover have "wstep s1 s2" unfolding s2_def by (rule fork_parent) (use B in \<open>simp_all add: runs_def st s1_def\<close>)
  moreover have "wstep s2 s3" unfolding s3_def by (rule fork_run) (use B in \<open>simp_all add: runs_def st s1_def s2_def\<close>)
  moreover have "wstep s3 s4" unfolding s4_def by (rule dispatch) (use B in \<open>simp_all add: runs_def st s1_def s2_def s3_def\<close>)
  ultimately have "wstep\<^sup>*\<^sup>* (boot k) s4" by (meson rtranclp.rtrancl_into_rtrancl rtranclp.rtrancl_refl)
  moreover have "p_parent (ks_procs k i) = None" for i using B by (cases i) auto
  then have "two_procs k s4" using B by (simp add: two_procs_def s4_def s3_def s2_def s1_def st)
  ultimately show thesis by (rule that)
qed

text \<open>
  C39: A child can be collected while its own context still runs: \<^verbatim>\<open>exit\<close> marks the process a zombie and releases
  its lock before it takes \<^verbatim>\<open>parent_lock\<close>, so \<^verbatim>\<open>waitpid\<close> on another processor may free it, and the context goes
  on in \<^verbatim>\<open>exit\<close> for a slot that is free.
\<close>

theorem exit_collected_while_running:
  assumes b: "booted k"
  shows "\<exists>s. wstep\<^sup>*\<^sup>* (boot k) s \<and> ws_ctx s 1 = Some (1, Exit_zombie) \<and> p_state (ws_proc s 1) = UNUSED \<and>
    p_current_thread (ws_proc s 1) = None \<and> p_parent (ws_proc s 1) = None"
proof -
  obtain s4 where s4: "wstep\<^sup>*\<^sup>* (boot k) s4" "two_procs k s4" by (rule reach_two [OF b])
  note T = s4(2) [unfolded two_procs_def]
  define s5 where "s5 = goes 1 1 Exit_zombie (become_zombie 1 0) s4"
  define s6 where "s6 = goes 0 0 (Wait_call (-1) 0) id s5"
  define s7 where "s7 = goes 0 0 (Wait_scan (-1) 0 0 False False) id (s6\<lparr>ws_plock := Some 0\<rparr>)"
  define s8 where "s8 = goes 0 0 (Wait_scan (-1) 0 (Suc 0) False False) id s7"
  define s9 where "s9 = goes 0 0 (Return (p_pid (ws_proc s8 (Suc 0)))) (free_fields (Suc 0)) (s8\<lparr>ws_plock := None\<rparr>)"
  have "wstep s4 s5" unfolding s5_def by (rule exit_zombie) (use T in \<open>simp_all add: runs_def\<close>)
  moreover have "wait_args (-1) 0 = None" by (simp add: wait_args_def)
  then have "wstep s5 s6" unfolding s6_def using wait_call [of s5 0 0 "-1" 0] T by (simp add: runs_def s5_def op_defs)
  moreover have "wstep s6 s7" unfolding s7_def
    by (rule wait_lock) (use T in \<open>simp_all add: runs_def s5_def s6_def op_defs\<close>)
  moreover have "wstep s7 s8" unfolding s8_def
    by (rule wait_other) (use T in \<open>simp_all add: runs_def s5_def s6_def s7_def op_defs\<close>)
  moreover have "wstep s8 s9" unfolding s9_def
    by (rule wait_reap [where pid = "-1" and opt = 0 and kids = False and found = False])
      (use T in \<open>simp_all add: runs_def s5_def s6_def s7_def s8_def op_defs is_target_def\<close>)
  ultimately have "wstep\<^sup>*\<^sup>* (boot k) s9" using s4(1) by (meson rtranclp.rtrancl_into_rtrancl)
  moreover have "ws_ctx s9 1 = Some (1, Exit_zombie)" "p_state (ws_proc s9 1) = UNUSED" "p_current_thread (ws_proc s9 1) = None"
    "p_parent (ws_proc s9 1) = None" by (simp_all add: s5_def s6_def s7_def s8_def s9_def free_fields_def)
  ultimately show ?thesis by blast
qed

text \<open>
  The status word that \<^verbatim>\<open>waitpid\<close> hands out can be decoded: the low seven bits are 0 exactly for a normal
  exit, whose code is then the second byte; after a signal they are the signal, and bit 7 says whether it dumps core.
\<close>

theorem wait_status_decodes:
  "wait_status 0 e AND 0x7F = 0 \<and> uint (drop_bit 8 (wait_status 0 e)) = e mod 256 \<and>
   (1 \<le> sig \<and> sig \<le> 64 \<longrightarrow> uint (wait_status sig e AND 0x7F) = sig \<and> drop_bit 8 (wait_status sig e) = 0 \<and>
      (bit (wait_status sig e) 7 \<longleftrightarrow> sig \<in> core_signals))"
proof -
  have a: "\<forall>x \<in> set [0..255]. (word_of_int (x * 2 ^ 8) :: 16 word) AND 0x7F = 0 \<and> uint (drop_bit 8 (word_of_int (x * 2 ^ 8) :: 16 word)) = x"
    by code_simp
  have e: "e AND 0xFF = e mod 256" using take_bit_eq_mask [of 8 e] by (simp add: take_bit_eq_mod mask_eq_exp_minus_1)
  have "e mod 256 \<in> set [0..255]" by simp
  from bspec [OF a this] have 1: "wait_status 0 e AND 0x7F = 0 \<and> uint (drop_bit 8 (wait_status 0 e)) = e mod 256"
    unfolding wait_status_def e by (simp only: simp_thms if_False)
  have b: "\<forall>x \<in> set [1..64]. uint (wait_status x 0 AND 0x7F) = x \<and> drop_bit 8 (wait_status x 0) = 0 \<and>
      (bit (wait_status x 0) 7 \<longleftrightarrow> x \<in> core_signals)"
    by code_simp
  have "wait_status sig e = wait_status sig 0" if "1 \<le> sig" using that by (simp add: wait_status_def)
  then show ?thesis using 1 b by auto
qed

text \<open>
  With the number 0, no child is ever the one waited for, and a pass over the table of a process with children ends
  in sleep, zombies or not.
\<close>

lemma waitpid_zero_sleeps:
  "opt AND WNOHANG = 0 \<Longrightarrow> p_pid (ks_procs k np) \<noteq> 0 \<Longrightarrow> \<not> is_target 0 np k \<and> wait_after 0 opt True found 0 = None"
  by (simp add: is_target_def wait_after_def)

section \<open>Witnesses\<close>

definition sample_boot :: ksys where
  "sample_boot = undefined\<lparr>ks_initproc := 0, ks_procs := (\<lambda>i. undefined\<lparr>p_state := (if i = 0 then RUNNING else UNUSED), p_parent := None,
     p_current_thread := None, p_killed := 0\<rparr>)\<rparr>"

lemma sample_booted: "booted sample_boot"
  by (simp add: booted_def sample_boot_def)

theorem exit_collected_while_running_witness:
  "\<exists>s. wstep\<^sup>*\<^sup>* (boot sample_boot) s \<and> ws_ctx s 1 = Some (1, Exit_zombie) \<and> p_state (ws_proc s 1) = UNUSED"
  using exit_collected_while_running [OF sample_booted] by blast

text \<open>A scan over slots that are not children.\<close>

lemma scan_rest:
  assumes "runs s c p (Wait_scan pid opt j kids found)" "j \<le> NPROC" "\<And>i. j \<le> i \<Longrightarrow> p_parent (ws_proc s i) \<noteq> Some p"
  shows "wstep\<^sup>*\<^sup>* s (goes c p (Wait_scan pid opt NPROC kids found) id s)"
  using assms
proof (induction "NPROC - j" arbitrary: j s)
  case 0
  then have "j = NPROC" by simp
  then have "goes c p (Wait_scan pid opt NPROC kids found) id s = s" using 0(2) by (simp add: goes_def runs_def map_upd_triv)
  then show ?case by (metis rtranclp.rtrancl_refl)
next
  case (Suc n)
  let ?s = "goes c p (Wait_scan pid opt (Suc j) kids found) id s"
  have "wstep s ?s" by (rule wait_other) (use Suc in auto)
  moreover have "wstep\<^sup>*\<^sup>* ?s (goes c p (Wait_scan pid opt NPROC kids found) id ?s)"
    by (rule Suc.hyps(1) [of "Suc j"]) (use Suc in \<open>auto simp: runs_def\<close>)
  moreover have "goes c p (Wait_scan pid opt NPROC kids found) id ?s = goes c p (Wait_scan pid opt NPROC kids found) id s"
    by (simp add: goes_def)
  ultimately show ?case by (metis converse_rtranclp_into_rtranclp)
qed

theorem waitpid_no_lost_wakeup_witness:
  "\<exists>s. wstep\<^sup>*\<^sup>* (boot sample_boot) s \<and> p_state (ws_proc s 0) = SLEEPING \<and> p_state (ws_proc s 1) = ZOMBIE \<and>
     (\<exists>d. ws_ctx s d = Some (1, Exit_zombie) \<or> ws_ctx s d = Some (1, Exit_parent))"
proof -
  obtain s4 where s4: "wstep\<^sup>*\<^sup>* (boot sample_boot) s4" "two_procs sample_boot s4" by (rule reach_two [OF sample_booted])
  note T = s4(2) [unfolded two_procs_def]
  have k0: "p_killed (ks_procs sample_boot 0) = 0" by (simp add: sample_boot_def)
  define s5 where "s5 = goes 0 0 (Wait_call (-1) 0) id s4"
  define s6 where "s6 = goes 0 0 (Wait_scan (-1) 0 0 False False) id (s5\<lparr>ws_plock := Some 0\<rparr>)"
  define s7 where "s7 = goes 0 0 (Wait_scan (-1) 0 (Suc 0) False False) id s6"
  define s8 where "s8 = goes 0 0 (Wait_scan (-1) 0 (Suc (Suc 0)) True (False \<or> is_target (-1) (Suc 0) (ws_k s7))) id s7"
  define s9 where "s9 = goes 0 0 (Wait_scan (-1) 0 NPROC True (False \<or> is_target (-1) (Suc 0) (ws_k s7))) id s8"
  define s10 where "s10 = goes 0 0 (Wait_sleep (-1) 0) id (s9\<lparr>ws_plock := None, ws_held := (ws_held s9)(0 := True)\<rparr>)"
  define s11 where "s11 = goes 0 0 (Wait_asleep (-1) 0) (go_to_sleep 0 (ChanProc 0)) (s10\<lparr>ws_held := (ws_held s10)(0 := False)\<rparr>)"
  define s12 where "s12 = goes 1 1 Exit_zombie (become_zombie 1 0) s11"
  have "wait_args (-1) 0 = None" by (simp add: wait_args_def)
  then have "wstep s4 s5" unfolding s5_def using wait_call [of s4 0 0 "-1" 0] T by (simp add: runs_def)
  moreover have "wstep s5 s6" unfolding s6_def by (rule wait_lock) (use T in \<open>simp_all add: runs_def s5_def\<close>)
  moreover have "wstep s6 s7" unfolding s7_def by (rule wait_other) (use T in \<open>simp_all add: runs_def s5_def s6_def\<close>)
  moreover have "wstep s7 s8" unfolding s8_def
    by (rule wait_child [where kids = False and found = False]) (use T in \<open>simp_all add: runs_def s5_def s6_def s7_def\<close>)
  ultimately have "wstep\<^sup>*\<^sup>* (boot sample_boot) s8" using s4(1) by (meson rtranclp.rtrancl_into_rtrancl)
  moreover have "wstep\<^sup>*\<^sup>* s8 s9" unfolding s9_def
    by (rule scan_rest [where j = "Suc (Suc 0)"]) (use T in \<open>auto simp: runs_def s5_def s6_def s7_def s8_def\<close>)
  moreover have "wstep s9 s10" unfolding s10_def
    by (rule wait_sleep) (use T k0 in \<open>simp_all add: runs_def s5_def s6_def s7_def s8_def s9_def wait_after_def\<close>)
  moreover have "wstep s10 s11" unfolding s11_def
    by (rule wait_switch) (use T in \<open>simp_all add: runs_def s5_def s6_def s7_def s8_def s9_def s10_def\<close>)
  moreover have "wstep s11 s12" unfolding s12_def
    by (rule exit_zombie) (use T in \<open>simp_all add: runs_def s5_def s6_def s7_def s8_def s9_def s10_def s11_def op_defs\<close>)
  ultimately have r: "wstep\<^sup>*\<^sup>* (boot sample_boot) s12" by (meson rtranclp.rtrancl_into_rtrancl rtranclp_trans)
  have e: "ws_ctx s12 0 = Some (0, Wait_asleep (-1) 0)" "p_state (ws_proc s12 0) = SLEEPING" "p_parent (ws_proc s12 1) = Some 0"
    "p_state (ws_proc s12 1) = ZOMBIE"
    using T by (simp_all add: s12_def s11_def s10_def s9_def s8_def s7_def s6_def s5_def op_defs)
  have "p_chan (ws_proc s12 0) = ChanProc 0 \<and> (\<exists>d. ws_ctx s12 d = Some (1, Exit_zombie) \<or> ws_ctx s12 d = Some (1, Exit_parent))"
    by (rule waitpid_no_lost_wakeup [OF sample_booted r e(1,2) _ e(3,4)]) simp_all
  then show ?thesis using r e by blast
qed

theorem wait_status_decodes_witness: "uint (wait_status 11 0 AND 0x7F) = 11 \<and> bit (wait_status 11 0) 7 \<and> uint (drop_bit 8 (wait_status 0 258)) = 2"
proof -
  have "1 \<le> (11::int) \<and> (11::int) \<le> 64" by simp
  then have "uint (wait_status 11 0 AND 0x7F) = 11 \<and> (bit (wait_status 11 0) 7 \<longleftrightarrow> 11 \<in> core_signals)" using wait_status_decodes [of 0 11] by blast
  moreover have "uint (drop_bit 8 (wait_status 0 258)) = 258 mod 256" using wait_status_decodes [of 258 1] by blast
  moreover have "(11::int) \<in> core_signals" "(258::int) mod 256 = 2" by (simp_all add: core_signals_def)
  ultimately show ?thesis by metis
qed

end
