(* ===== verification/Slab.thy ===== *)
theory Slab
  imports Vmem_Ops
begin

text \<open>
  The slab allocator (\<^verbatim>\<open>kernel/slab_common.c\<close>): objects of eight sizes, carved out of single pages. A slab
  is a page with a header of 32 bytes; its free objects are linked through their first eight bytes. The
  headers and the links are in the memory of the page allocator, where the code has them; the eight
  caches and the pointers of the boot page are a record. \<open>None\<close> is a panic, an access through \<^verbatim>\<open>NULL\<close>, or a
  walk along a list that does not end.
\<close>

section \<open>Words of 32 bits in memory\<close>

definition read32 :: "mem \<Rightarrow> addr \<Rightarrow> nat" where
  "read32 m a = (\<Sum>i<4. unat (m (a + i)) * 256 ^ i)"

definition write32 :: "mem \<Rightarrow> addr \<Rightarrow> nat \<Rightarrow> mem" where
  "write32 m a v = (\<lambda>b. if a \<le> b \<and> b < a + 4 then of_nat (v div 256 ^ (b - a)) else m b)"

lemma read_write32 [simp]: "read32 (write32 m a v) a = v mod 2 ^ 32"
proof -
  have "(\<Sum>i<4. unat (write32 m a v (a + i)) * 256 ^ i) = (\<Sum>i<4. v div 256 ^ i mod 256 * 256 ^ i)"
    by (rule sum.cong) (simp_all add: write32_def unat_byte_of_nat)
  also have "\<dots> = v mod 256 ^ 4" by (rule digits_sum)
  finally show ?thesis by (simp add: read32_def)
qed

lemma read32_cong: "(\<And>i. i < 4 \<Longrightarrow> m' (a + i) = m (a + i)) \<Longrightarrow> read32 m' a = read32 m a"
  by (simp add: read32_def)

section \<open>Caches and slabs\<close>

abbreviation (input) FIXED_CACHE_LEVEL_NUM :: nat where "FIXED_CACHE_LEVEL_NUM \<equiv> 8"
abbreviation (input) SLAB_MAGIC :: "64 word" where "SLAB_MAGIC \<equiv> 0x534C414242414C53"
abbreviation (input) slab_header :: nat where "slab_header \<equiv> 32"

definition slab_size_table :: "nat list" where
  "slab_size_table = [8, 16, 32, 64, 128, 256, 512, 1024]"

record kmem_cache =
  free_slab :: addr
  full_slab :: addr
  kc_size :: nat

record slab_allocator =
  sl_pm :: buddy_system
  sl_caches :: "nat \<Rightarrow> kmem_cache"
  sl_boot_page :: addr
  sl_alloc_count :: nat

text \<open>The fields of \<^verbatim>\<open>struct slab\<close> at an address.\<close>

definition slab_magic :: "mem \<Rightarrow> addr \<Rightarrow> 64 word" where "slab_magic m a = read64 m a"
definition slab_next :: "mem \<Rightarrow> addr \<Rightarrow> addr" where "slab_next m a = unat (read64 m (a + 8))"
definition slab_object :: "mem \<Rightarrow> addr \<Rightarrow> addr" where "slab_object m a = unat (read64 m (a + 16))"
definition slab_objsize :: "mem \<Rightarrow> addr \<Rightarrow> nat" where "slab_objsize m a = read32 m (a + 24)"
definition slab_nfree :: "mem \<Rightarrow> addr \<Rightarrow> nat" where "slab_nfree m a = read32 m (a + 28)"
definition obj_next :: "mem \<Rightarrow> addr \<Rightarrow> addr" where "obj_next m a = unat (read64 m a)"

definition set_slab_magic :: "addr \<Rightarrow> 64 word \<Rightarrow> mem \<Rightarrow> mem" where "set_slab_magic a v m = write64 m a v"
definition set_slab_next :: "addr \<Rightarrow> addr \<Rightarrow> mem \<Rightarrow> mem" where "set_slab_next a v m = write64 m (a + 8) (of_nat v)"
definition set_slab_object :: "addr \<Rightarrow> addr \<Rightarrow> mem \<Rightarrow> mem" where "set_slab_object a v m = write64 m (a + 16) (of_nat v)"
definition set_slab_objsize :: "addr \<Rightarrow> nat \<Rightarrow> mem \<Rightarrow> mem" where "set_slab_objsize a v m = write32 m (a + 24) v"
definition set_slab_nfree :: "addr \<Rightarrow> nat \<Rightarrow> mem \<Rightarrow> mem" where "set_slab_nfree a v m = write32 m (a + 28) v"
definition set_obj_next :: "addr \<Rightarrow> addr \<Rightarrow> mem \<Rightarrow> mem" where "set_obj_next a v m = write64 m a (of_nat v)"

definition upd_mem :: "(mem \<Rightarrow> mem) \<Rightarrow> slab_allocator \<Rightarrow> slab_allocator" where
  "upd_mem f s = s\<lparr>sl_pm := (sl_pm s)\<lparr>bs_mem := f (bs_mem (sl_pm s))\<rparr>\<rparr>"

abbreviation sl_mem :: "slab_allocator \<Rightarrow> mem" where
  "sl_mem s \<equiv> bs_mem (sl_pm s)"

definition upd_cache :: "nat \<Rightarrow> (kmem_cache \<Rightarrow> kmem_cache) \<Rightarrow> slab_allocator \<Rightarrow> slab_allocator" where
  "upd_cache i f s = s\<lparr>sl_caches := (sl_caches s)(i := f (sl_caches s i))\<rparr>"

section \<open>Initialisation\<close>

definition simple_alloc :: "nat \<Rightarrow> slab_allocator \<Rightarrow> (addr \<times> slab_allocator) option" where
  "simple_alloc sz s =
     Option.bind
       (if sl_alloc_count s + sz > PGSIZE
        then map_option (\<lambda>(p, pm). s\<lparr>sl_pm := pm, sl_boot_page := p, sl_alloc_count := 0\<rparr>) (pmem_alloc_pages (sl_pm s) 1)
        else Some s) (\<lambda>s1.
     let ptr = sl_boot_page s1 + sl_alloc_count s1
     in if sl_boot_page s1 = 0 then None
        else Some (ptr, (upd_mem (\<lambda>m. memset m ptr 0 sz) s1)\<lparr>sl_alloc_count := sl_alloc_count s1 + sz\<rparr>))"

text \<open>The loop that links the objects of a new slab.\<close>

fun link_objects :: "nat \<Rightarrow> nat \<Rightarrow> addr \<Rightarrow> mem \<Rightarrow> mem" where
  "link_objects 0 sz obj m = m"
| "link_objects (Suc n) sz obj m = link_objects n sz (obj + sz) (set_obj_next obj (obj + sz) m)"

definition object_num :: "nat \<Rightarrow> nat" where
  "object_num sz = (PGSIZE - slab_header) div sz"

definition create_slab_with_size :: "nat \<Rightarrow> slab_allocator \<Rightarrow> (addr \<times> slab_allocator) option" where
  "create_slab_with_size sz s =
     (case pmem_alloc_pages (sl_pm s) 1 of
        None \<Rightarrow> None
      | Some (slab, pm) \<Rightarrow>
          if slab = 0 then None
          else
            let obj = slab + slab_header
            in Some (slab, upd_mem
                 (set_slab_nfree slab (object_num sz) \<circ> set_slab_objsize slab sz \<circ> set_slab_magic slab SLAB_MAGIC \<circ>
                  link_objects (object_num sz - 1) sz obj \<circ> set_slab_object slab obj \<circ> set_slab_next slab 0)
                 (s\<lparr>sl_pm := pm\<rparr>)))"

text \<open>\<^verbatim>\<open>sizeof\<close> the allocator is 152 and a cache is 24 bytes.\<close>

fun init_caches :: "nat list \<Rightarrow> slab_allocator \<Rightarrow> slab_allocator option" where
  "init_caches [] s = Some s"
| "init_caches (i # is) s =
     Option.bind (simple_alloc 24 s) (\<lambda>(_, s1).
     Option.bind (create_slab_with_size (slab_size_table ! i) s1) (\<lambda>(slab, s2).
     init_caches is (upd_cache i (\<lambda>_. \<lparr>free_slab = slab, full_slab = 0, kc_size = slab_size_table ! i\<rparr>) s2)))"

definition slab_init :: "slab_allocator \<Rightarrow> slab_allocator option" where
  "slab_init s = Option.bind (simple_alloc 152 s) (\<lambda>(_, s1). init_caches [0..<FIXED_CACHE_LEVEL_NUM] s1)"

section \<open>Allocation\<close>

definition slab_size :: "nat \<Rightarrow> nat" where
  "slab_size sz = (case find (\<lambda>t. sz \<le> t) slab_size_table of None \<Rightarrow> 0 | Some t \<Rightarrow> t)"

definition fine_kmem_cache :: "nat \<Rightarrow> slab_allocator \<Rightarrow> nat option" where
  "fine_kmem_cache sz s = find (\<lambda>i. sz = kc_size (sl_caches s i)) [0..<FIXED_CACHE_LEVEL_NUM]"

partial_function (option) last_slab :: "mem \<Rightarrow> addr \<Rightarrow> addr option" where
  "last_slab m it = (if slab_next m it = 0 then Some it else last_slab m (slab_next m it))"

declare last_slab.simps [code]

text \<open>The slab whose last object is taken goes to the end of the full list.\<close>

definition move_to_full :: "nat \<Rightarrow> addr \<Rightarrow> slab_allocator \<Rightarrow> slab_allocator option" where
  "move_to_full i slab s =
     (let s1 = upd_cache i (\<lambda>c. c\<lparr>free_slab := slab_next (sl_mem s) slab\<rparr>) s; full = full_slab (sl_caches s1 i)
      in if full = 0 then Some (upd_cache i (\<lambda>c. c\<lparr>full_slab := slab\<rparr>) s1)
         else map_option (\<lambda>it. upd_mem (set_slab_next slab 0 \<circ> set_slab_next it slab) s1) (last_slab (sl_mem s1) full))"

definition alloc_from_kmem_cache :: "nat \<Rightarrow> slab_allocator \<Rightarrow> (addr \<times> slab_allocator) option" where
  "alloc_from_kmem_cache i s =
     (let slab = free_slab (sl_caches s i); m = sl_mem s; obj = slab_object m slab
      in if slab \<noteq> 0 then
           if slab_nfree m slab > 1 then
             (if obj = 0 then None
              else Some (obj, upd_mem (set_slab_nfree slab (slab_nfree m slab - 1) \<circ> set_slab_object slab (obj_next m obj)) s))
           else if slab_nfree m slab = 1 then
             map_option (Pair obj) (move_to_full i slab (upd_mem (set_slab_nfree slab 0 \<circ> set_slab_object slab 0) s))
           else None
         else
           (case create_slab_with_size (kc_size (sl_caches s i)) s of
              None \<Rightarrow> None
            | Some (new, s1) \<Rightarrow>
                let m1 = sl_mem s1; obj1 = slab_object m1 new
                in Some (obj1, upd_mem (set_slab_nfree new (slab_nfree m1 new - 1) \<circ> set_slab_object new (obj_next m1 obj1))
                     (upd_cache i (\<lambda>c. c\<lparr>free_slab := new\<rparr>) s1))))"

definition slab_alloc :: "nat \<Rightarrow> slab_allocator \<Rightarrow> (addr \<times> slab_allocator) option" where
  "slab_alloc sz s =
     (let aligned_size = slab_size sz
      in if aligned_size = 0 \<or> aligned_size > 1024 then
           let pages = int32 ((add64 sz (PGSIZE - 1) div PGSIZE) mod 2 ^ 32)
           in map_option (\<lambda>(ptr, pm).
                (ptr, upd_mem (\<lambda>m. if ptr = 0 then m else memset m ptr 0 (nat pages * PGSIZE)) (s\<lparr>sl_pm := pm\<rparr>)))
                (pmem_alloc_pages (sl_pm s) pages)
         else case fine_kmem_cache aligned_size s of
           None \<Rightarrow> None
         | Some i \<Rightarrow> alloc_from_kmem_cache i s)"

section \<open>Release\<close>

text \<open>The search for the place of an object in the list of free objects.\<close>

partial_function (option) find_place :: "mem \<Rightarrow> addr \<Rightarrow> addr \<Rightarrow> addr option" where
  "find_place m obj it =
     (if it = 0 then None
      else if it < obj \<and> obj < obj_next m it \<and> obj_next m it \<noteq> 0 then Some it
      else if obj_next m it \<noteq> 0 then find_place m obj (obj_next m it)
      else Some it)"

declare find_place.simps [code]

definition put_back :: "addr \<Rightarrow> addr \<Rightarrow> mem \<Rightarrow> mem option" where
  "put_back slab obj m =
     (let it = slab_object m slab;
          m1 = (if obj < it then set_slab_object slab obj (set_obj_next obj it m) else m)
      in map_option (\<lambda>it'. set_slab_nfree slab (add32 (slab_nfree m slab) 1)
             (set_obj_next it' obj (set_obj_next obj (obj_next m1 it') m1))) (find_place m1 obj it))"

definition slab_free :: "addr \<Rightarrow> slab_allocator \<Rightarrow> slab_allocator option" where
  "slab_free a s =
     (let page_start = PGROUNDDOWN a; m = sl_mem s
      in if slab_magic m page_start = SLAB_MAGIC then
           (let slab = page_start
            in if sub64 a slab_header mod slab_objsize m slab \<noteq> 0 then None
               else if slab_nfree m slab = 0 then
                 let s1 = upd_mem (set_slab_nfree slab (add32 (slab_nfree m slab) 1) \<circ> set_obj_next a 0 \<circ> set_slab_object slab a) s
                 in case fine_kmem_cache (slab_objsize (sl_mem s1) slab) s1 of
                      None \<Rightarrow> Some s1
                    | Some i \<Rightarrow>
                        let s2 = upd_cache i (\<lambda>c. c\<lparr>full_slab := slab_next (sl_mem s1) slab\<rparr>) s1;
                            s3 = upd_mem (set_slab_next slab (free_slab (sl_caches s2 i))) s2
                        in Some (upd_cache i (\<lambda>c. c\<lparr>free_slab := slab\<rparr>) s3)
               else map_option (\<lambda>m'. upd_mem (\<lambda>_. m') s) (put_back slab a m))
         else if a mod PGSIZE = 0 then map_option (\<lambda>pm. s\<lparr>sl_pm := pm\<rparr>) (pmem_free_pages (sl_pm s) a 1)
         else None)"

end
