(* ===== verification/Slab_Props.thy ===== *)
theory Slab_Props
  imports Slab Frame_Count Vmem_Props
begin

text \<open>
  Correctness of the slab allocator. A slab is described by the list of its free objects (\<open>slab_ok\<close>); the
  objects clients hold are those that are not in the list. While objects are released above the first
  free object of their slab, every object handed out is disjoint from all others and from the pages of
  other code. The release of an object below the first free one, which the most recent object always is,
  loses the list.
\<close>

section \<open>Cells of memory\<close>

lemma read64_write32_other: "a + 4 \<le> b \<or> b + 8 \<le> a \<Longrightarrow> read64 (write32 m a v) b = read64 m b"
  by (rule read64_cong) (auto simp: write32_def)

lemma read32_write64_other: "a + 8 \<le> b \<or> b + 4 \<le> a \<Longrightarrow> read32 (write64 m a v) b = read32 m b"
  by (rule read32_cong) (auto simp: write64_def)

lemma read32_write32_other: "a + 4 \<le> b \<or> b + 4 \<le> a \<Longrightarrow> read32 (write32 m a v) b = read32 m b"
  by (rule read32_cong) (auto simp: write32_def)

lemma read32_less: "read32 m a < 2 ^ 32"
proof -
  have "unat (m (a + i)) \<le> 255" for i using unsigned_less [of "m (a + i)", where 'a = nat] by simp
  then have "read32 m a \<le> (\<Sum>i<4. 255 * 256 ^ i)" unfolding read32_def by (intro sum_mono mult_le_mono1) simp
  also have "{..<4 :: nat} = {0, 1, 2, 3}" by auto
  then have "(\<Sum>i<4. 255 * 256 ^ i) < (2 :: nat) ^ 32" by simp
  finally show ?thesis .
qed

lemma write32_other: "b < a \<or> a + 4 \<le> b \<Longrightarrow> write32 m a v b = m b"
  by (auto simp: write32_def)

lemmas cells = read_write64_other read64_write32_other read32_write64_other read32_write32_other write64_other write32_other

lemmas fields = slab_magic_def slab_next_def slab_object_def slab_objsize_def slab_nfree_def obj_next_def
  set_slab_magic_def set_slab_next_def set_slab_object_def set_slab_objsize_def set_slab_nfree_def set_obj_next_def

lemma obj_next_less: "obj_next m a < 2 ^ 64"
  using unsigned_less [of "read64 m a", where 'a = nat] by (simp add: obj_next_def)

lemma obj_next_set:
  "v < 2 ^ 64 \<Longrightarrow> obj_next (set_obj_next a v m) a = v"
  "a + 8 \<le> b \<or> b + 8 \<le> a \<Longrightarrow> obj_next (set_obj_next a v m) b = obj_next m b"
  by (simp_all add: fields cells unat_of_nat64)

section \<open>Lists of free objects\<close>

fun ochain :: "mem \<Rightarrow> addr \<Rightarrow> addr list \<Rightarrow> bool" where
  "ochain m a [] \<longleftrightarrow> a = 0"
| "ochain m a (x # xs) \<longleftrightarrow> a = x \<and> x \<noteq> 0 \<and> ochain m (obj_next m x) xs"

lemma ochain_cong: "(\<And>x. x \<in> set xs \<Longrightarrow> obj_next m' x = obj_next m x) \<Longrightarrow> ochain m' a xs = ochain m a xs"
  by (induction xs arbitrary: a) auto

lemma find_place_sorted:
  "ochain m x (x # xs) \<Longrightarrow> sorted (x # xs) \<Longrightarrow> a \<notin> set (x # xs) \<Longrightarrow> x < a \<Longrightarrow>
   \<exists>us it vs. x # xs = us @ it # vs \<and> find_place m a x = Some it \<and> insort a (x # xs) = us @ it # a # vs"
proof (induction xs arbitrary: x)
  case Nil
  then have "find_place m a x = Some x" by (subst find_place.simps) simp
  then show ?case using Nil by (intro exI [of _ "[]"] exI [of _ x]) simp
next
  case (Cons y ys)
  have y: "obj_next m x = y" "y \<noteq> 0" "x \<noteq> 0" using Cons.prems(1) by auto
  show ?case
  proof (cases "a < y")
    case True
    then have "find_place m a x = Some x" using y Cons.prems(4) by (subst find_place.simps) simp
    then show ?thesis using True Cons.prems(4) by (intro exI [of _ "[]"] exI [of _ x] exI [of _ "y # ys"]) simp
  next
    case False
    then have "y < a" using Cons.prems(3) by auto
    moreover have "ochain m y (y # ys)" "sorted (y # ys)" "a \<notin> set (y # ys)" using Cons.prems by auto
    ultimately obtain us it vs where u: "y # ys = us @ it # vs" "find_place m a y = Some it" "insort a (y # ys) = us @ it # a # vs"
      using Cons.IH [of y] by blast
    have "find_place m a x = find_place m a y" using False y by (subst find_place.simps) simp
    then show ?thesis using u Cons.prems(4) \<open>y < a\<close> by (intro exI [of _ "x # us"] exI [of _ it] exI [of _ vs]) auto
  qed
qed

lemma ochain_insert:
  assumes "ochain m h (us @ it # vs)" "distinct (us @ it # vs)" "a \<notin> set (us @ it # vs)" "a \<noteq> 0"
    and "\<And>y. y \<in> insert a (set (us @ it # vs)) \<Longrightarrow> obj_next m' y = (if y = it then a else if y = a then obj_next m it else obj_next m y)"
  shows "ochain m' h (us @ it # a # vs)"
  using assms
proof (induction us arbitrary: h)
  case Nil
  have "ochain m' (obj_next m it) vs = ochain m (obj_next m it) vs" by (rule ochain_cong) (use Nil in auto)
  then show ?case using Nil by auto
next
  case (Cons u us)
  have e: "obj_next m' u = obj_next m u" using Cons.prems(2,3) Cons.prems(5) [of u] by auto
  have "ochain m' (obj_next m u) (us @ it # a # vs)" by (rule Cons.IH) (use Cons.prems in auto)
  then show ?case using Cons.prems(1) e by simp
qed

section \<open>One slab\<close>

lemma page_end: "PGSIZE dvd P \<Longrightarrow> P < 2 ^ 64 \<Longrightarrow> P + PGSIZE \<le> 2 ^ 64"
  by (elim dvdE) simp

definition objs :: "addr \<Rightarrow> nat \<Rightarrow> addr set" where
  "objs P z = (\<lambda>j. P + slab_header + j * z) ` {..<object_num z}"

definition slab_ok :: "mem \<Rightarrow> addr \<Rightarrow> nat \<Rightarrow> addr list \<Rightarrow> bool" where
  "slab_ok m P z xs \<longleftrightarrow> PGSIZE dvd P \<and> 0 < P \<and> P < 2 ^ 64 \<and>
     slab_magic m P = SLAB_MAGIC \<and> slab_objsize m P = z \<and> slab_nfree m P = length xs \<and>
     ochain m (slab_object m P) xs \<and> sorted xs \<and> distinct xs \<and> set xs \<subseteq> objs P z"

lemma table_sizes: "z \<in> set slab_size_table \<Longrightarrow> 8 \<le> z \<and> z \<le> 1024 \<and> 3 \<le> object_num z \<and> object_num z * z \<le> 4064 \<and> z dvd PGSIZE"
  unfolding slab_size_table_def object_num_def by auto

lemma objs_bounds:
  assumes "z \<in> set slab_size_table" "x \<in> objs P z"
  shows "P + 32 \<le> x" "x + z \<le> P + PGSIZE" "x + 8 \<le> P + PGSIZE"
proof -
  obtain j where j: "x = P + 32 + j * z" "j < object_num z" using assms(2) by (auto simp: objs_def)
  have "Suc j * z \<le> object_num z * z" using j(2) by (intro mult_le_mono1) simp
  then show "x + z \<le> P + PGSIZE" using j(1) table_sizes [OF assms(1)] by simp
  then show "x + 8 \<le> P + PGSIZE" using table_sizes [OF assms(1)] by linarith
  show "P + 32 \<le> x" using j by simp
qed

lemma objs_apart: "x \<in> objs P z \<Longrightarrow> y \<in> objs P z \<Longrightarrow> x < y \<Longrightarrow> x + z \<le> y"
proof -
  assume "x \<in> objs P z" "y \<in> objs P z" and l: "x < y"
  then obtain i j where ij: "x = P + 32 + i * z" "y = P + 32 + j * z" by (auto simp: objs_def)
  have "i < j" using l ij by simp
  then have "Suc i * z \<le> j * z" by (intro mult_le_mono1) simp
  then show ?thesis using ij by simp
qed

lemma objs_distinct_cells:
  assumes "z \<in> set slab_size_table" "x \<in> objs P z" "y \<in> objs P z" "x \<noteq> y"
  shows "x + 8 \<le> y \<or> y + 8 \<le> x"
  using objs_apart [OF assms(2,3)] objs_apart [OF assms(3,2)] table_sizes [OF assms(1)] assms(4) by linarith

lemma slab_ok_cong:
  assumes "z \<in> set slab_size_table" "\<And>x. x \<in> page_bytes P \<Longrightarrow> m' x = m x"
  shows "slab_ok m P z xs \<Longrightarrow> slab_ok m' P z xs"
proof -
  assume ok: "slab_ok m P z xs"
  have 64: "read64 m' a = read64 m a" if "P \<le> a" "a + 8 \<le> P + PGSIZE" for a
    by (rule read64_cong, rule assms(2)) (use that in auto)
  have 32: "read32 m' a = read32 m a" if "P \<le> a" "a + 4 \<le> P + PGSIZE" for a
    by (rule read32_cong, rule assms(2)) (use that in auto)
  have "obj_next m' x = obj_next m x" if "x \<in> set xs" for x
  proof -
    have "x \<in> objs P z" using ok that by (auto simp: slab_ok_def)
    then show ?thesis unfolding obj_next_def using objs_bounds [OF assms(1), of x P] by (subst 64) auto
  qed
  then have "ochain m' a xs = ochain m a xs" for a by (rule ochain_cong)
  then show "slab_ok m' P z xs" using ok
    by (simp add: slab_ok_def slab_magic_def slab_objsize_def slab_nfree_def slab_object_def 64 32)
qed

lemma slab_next_cong: "(\<And>x. x \<in> page_bytes P \<Longrightarrow> m' x = m x) \<Longrightarrow> slab_next m' P = slab_next m P"
  unfolding slab_next_def by (rule arg_cong [where f = unat], rule read64_cong) auto

text \<open>Taking the first object.\<close>

lemma take_object:
  assumes ok: "slab_ok m P z (x # xs)" and z: "z \<in> set slab_size_table"
    and m': "m' = (set_slab_nfree P (length xs) \<circ> set_slab_object P (obj_next m x)) m"
  shows "slab_ok m' P z xs" "slab_next m' P = slab_next m P" "\<And>b. b \<notin> {P..<P + 32} \<Longrightarrow> m' b = m b"
proof -
  have n: "length (x # xs) < 2 ^ 32" using ok using read32_less [of m "P + 28"] by (simp add: slab_ok_def slab_nfree_def)
  have s: "set (x # xs) \<subseteq> objs P z" using ok by (simp add: slab_ok_def)
  have o: "obj_next m' y = obj_next m y" if "y \<in> objs P z" for y
    using objs_bounds [OF z that] unfolding m' by (simp add: fields cells)
  have "ochain m' (obj_next m x) xs = ochain m (obj_next m x) xs" by (rule ochain_cong) (use o s in auto)
  moreover have "slab_object m' P = obj_next m x" unfolding m' by (simp add: fields cells)
  moreover have "slab_magic m' P = slab_magic m P" "slab_objsize m' P = slab_objsize m P" "slab_nfree m' P = length xs"
    using n unfolding m' by (simp_all add: fields cells)
  ultimately show "slab_ok m' P z xs" using ok by (simp add: slab_ok_def)
  show "slab_next m' P = slab_next m P" unfolding m' by (simp add: fields cells)
  show "m' b = m b" if "b \<notin> {P..<P + 32}" for b using that unfolding m' by (auto simp: fields cells)
qed

text \<open>Giving back an object above the first free one.\<close>

lemma put_back_ok:
  assumes ok: "slab_ok m P z (x # xs)" and z: "z \<in> set slab_size_table" and a: "a \<in> objs P z" "a \<notin> set (x # xs)" "x < a"
  shows "\<exists>m'. put_back P a m = Some m' \<and> slab_ok m' P z (insort a (x # xs)) \<and> slab_next m' P = slab_next m P \<and>
    (\<forall>b. b \<notin> {P..<P + 32} \<and> (\<forall>y \<in> set (a # x # xs). b \<notin> {y..<y + 8}) \<longrightarrow> m' b = m b)"
proof -
  have c: "ochain m x (x # xs)" "sorted (x # xs)" "slab_object m P = x" "slab_nfree m P = Suc (length xs)" "distinct (x # xs)"
    "set (x # xs) \<subseteq> objs P z" "P < 2 ^ 64" "PGSIZE dvd P" using ok by (auto simp: slab_ok_def)
  obtain us it vs where u: "x # xs = us @ it # vs" "find_place m a x = Some it" "insort a (x # xs) = us @ it # a # vs"
    using find_place_sorted [OF c(1,2) a(2,3)] by blast
  define m' where "m' = set_slab_nfree P (Suc (Suc (length xs))) (set_obj_next it a (set_obj_next a (obj_next m it) m))"
  have it: "it \<in> objs P z" "it \<noteq> a" using c(6) a(2) u(1) by auto
  note ba = objs_bounds [OF z a(1)] and bi = objs_bounds [OF z it(1)] and ai = objs_distinct_cells [OF z it(1) a(1) it(2)]
  have len: "Suc (length xs) < object_num z"
  proof -
    have "card (insert a (set (x # xs))) \<le> card (objs P z)" by (rule card_mono) (use a c(6) in \<open>auto simp: objs_def\<close>)
    moreover have "card (insert a (set (x # xs))) = Suc (length (x # xs))" using a(2) c(5) distinct_card [OF c(5)] by simp
    moreover have "card (objs P z) \<le> object_num z" unfolding objs_def using card_image_le [of "{..<object_num z}"] by simp
    ultimately show ?thesis by simp
  qed
  moreover have "object_num z \<le> 4064" unfolding object_num_def using div_le_dividend [of "PGSIZE - 32" z] by simp
  ultimately have n: "add32 (slab_nfree m P) 1 = Suc (Suc (length xs))" unfolding c(4) add32_def by simp
  have pb: "put_back P a m = Some m'" unfolding put_back_def c(3) Let_def using a(3) u(2) n by (simp add: m'_def)
  have a64: "a < 2 ^ 64" using ba(3) c(7,8) page_end [of P] by linarith
  have o: "obj_next m' y = (if y = it then a else if y = a then obj_next m it else obj_next m y)" if "y \<in> objs P z" for y
  proof -
    note yb = objs_bounds [OF z that]
    have "obj_next m' y = obj_next (set_obj_next it a (set_obj_next a (obj_next m it) m)) y"
      unfolding m'_def using yb by (simp add: set_slab_nfree_def obj_next_def cells)
    also have "\<dots> = (if y = it then a else obj_next (set_obj_next a (obj_next m it) m) y)"
      using objs_distinct_cells [OF z it(1) that] a64 by (auto simp: obj_next_set)
    also have "\<dots> = (if y = it then a else if y = a then obj_next m it else obj_next m y)"
      using objs_distinct_cells [OF z a(1) that] obj_next_less by (auto simp: obj_next_set)
    finally show ?thesis .
  qed
  have "ochain m' x (us @ it # a # vs)"
    by (rule ochain_insert) (use c a u(1) o ba in auto)
  moreover have "slab_object m' P = x" "slab_magic m' P = slab_magic m P" "slab_objsize m' P = slab_objsize m P"
    "slab_nfree m' P = Suc (Suc (length xs))" "slab_next m' P = slab_next m P"
    using ba bi c(3) n unfolding m'_def by (simp_all add: fields cells add32_def)
  moreover have "sorted (insort a (x # xs))" "distinct (insort a (x # xs))" "set (insort a (x # xs)) \<subseteq> objs P z"
    using c a by (simp_all only: sorted_insort distinct_insort set_insort_key) auto
  ultimately have "slab_ok m' P z (insort a (x # xs))" using ok u(3) arg_cong [OF u(1), of length] unfolding slab_ok_def by simp
  moreover have "m' b = m b" if "b \<notin> {P..<P + 32}" "\<forall>y \<in> set (a # x # xs). b \<notin> {y..<y + 8}" for b
  proof -
    have "b \<notin> {a..<a + 8}" "b \<notin> {it..<it + 8}" using that(2) u(1) by auto
    then show ?thesis using that(1) unfolding m'_def by (auto simp: fields write64_def write32_def)
  qed
  ultimately show ?thesis using pb \<open>slab_next m' P = slab_next m P\<close> by blast
qed

text \<open>A new slab.\<close>

lemma link_other: "b < obj \<or> obj + n * z \<le> b \<Longrightarrow> 8 \<le> z \<Longrightarrow> link_objects n z obj m b = m b"
proof (induction n arbitrary: obj m)
  case (Suc n)
  then have "link_objects n z (obj + z) (set_obj_next obj (obj + z) m) b = set_obj_next obj (obj + z) m b"
    by (intro Suc.IH) auto
  also have "\<dots> = m b" using Suc.prems by (auto simp: set_obj_next_def write64_def)
  finally show ?case by simp
qed simp

lemma link_next: "b + 8 \<le> obj \<or> obj + n * z \<le> b \<Longrightarrow> 8 \<le> z \<Longrightarrow> obj_next (link_objects n z obj m) b = obj_next m b"
  unfolding obj_next_def by (rule arg_cong [where f = unat], rule read64_cong, rule link_other) auto

lemma link_chain:
  "obj_next m (obj + n * z) = 0 \<Longrightarrow> 8 \<le> z \<Longrightarrow> 0 < obj \<Longrightarrow> obj + n * z < 2 ^ 64 \<Longrightarrow>
   ochain (link_objects n z obj m) obj (map (\<lambda>j. obj + j * z) [0..<Suc n])"
proof (induction n arbitrary: obj m)
  case (Suc n)
  let ?m = "link_objects n z (obj + z) (set_obj_next obj (obj + z) m)"
  have e: "obj + z + n * z = obj + Suc n * z" by simp
  have "obj_next (set_obj_next obj (obj + z) m) (obj + Suc n * z) = obj_next m (obj + Suc n * z)"
    by (rule obj_next_set) (use Suc.prems in simp)
  then have "obj_next (set_obj_next obj (obj + z) m) (obj + z + n * z) = 0" "obj + z + n * z < 2 ^ 64"
    using Suc.prems(1,4) unfolding e by simp_all
  then have "ochain ?m (obj + z) (map (\<lambda>j. obj + z + j * z) [0..<Suc n])"
    using Suc.IH [of "set_obj_next obj (obj + z) m" "obj + z"] Suc.prems(2,3) by simp
  moreover have "obj_next ?m obj = obj + z"
    using link_next [of obj "obj + z" n z] Suc.prems by (simp add: obj_next_set)
  moreover have "map (\<lambda>j. obj + j * z) [0..<Suc (Suc n)] = obj # map (\<lambda>j. obj + z + j * z) [0..<Suc n]"
    by (subst upt_conv_Cons) (simp_all add: map_Suc_upt [symmetric] add.assoc del: upt_Suc)
  ultimately show ?case using Suc.prems(3) by (simp del: upt_Suc)
qed simp

definition slab_objects :: "addr \<Rightarrow> nat \<Rightarrow> addr list" where
  "slab_objects P z = map (\<lambda>j. P + slab_header + j * z) [0..<object_num z]"

lemma slab_objects_props:
  "set (slab_objects P z) = objs P z" "length (slab_objects P z) = object_num z"
  "z \<in> set slab_size_table \<Longrightarrow> sorted (slab_objects P z) \<and> distinct (slab_objects P z)"
proof -
  show "set (slab_objects P z) = objs P z" by (auto simp: slab_objects_def objs_def)
  show "length (slab_objects P z) = object_num z" by (simp add: slab_objects_def)
  show "z \<in> set slab_size_table \<Longrightarrow> sorted (slab_objects P z) \<and> distinct (slab_objects P z)"
    unfolding slab_objects_def using table_sizes [of z]
    by (auto simp: sorted_map distinct_map inj_on_def sorted_wrt_upt intro!: sorted_wrt_mono_rel [OF _ sorted_wrt_upt])
qed

lemma new_slab_ok:
  assumes z: "z \<in> set slab_size_table" and P: "PGSIZE dvd P" "0 < P" "P < 2 ^ 64" and zero: "\<And>b. b \<in> page_bytes P \<Longrightarrow> m b = 0"
    and m': "m' = (set_slab_nfree P (object_num z) \<circ> set_slab_objsize P z \<circ> set_slab_magic P SLAB_MAGIC \<circ>
      link_objects (object_num z - 1) z (P + slab_header) \<circ> set_slab_object P (P + slab_header) \<circ> set_slab_next P 0) m"
  shows "slab_ok m' P z (slab_objects P z)" "slab_next m' P = 0" "\<And>b. b \<notin> page_bytes P \<Longrightarrow> m' b = m b"
proof -
  define n where "n = object_num z - 1"
  note t = table_sizes [OF z]
  have o4: "object_num z \<le> 4064" unfolding object_num_def using div_le_dividend [of "PGSIZE - 32" z] by simp
  then have n: "Suc n = object_num z" "object_num z < 2 ^ 32" using t by (simp_all add: n_def)
  have "Suc n * z \<le> 4064" using t n(1) by simp
  then have b: "P + 32 + n * z + 8 \<le> P + PGSIZE" "n * z + 8 \<le> 4064" using t by simp_all
  define m0 where "m0 = set_slab_object P (P + 32) (set_slab_next P 0 m)"
  define m1 where "m1 = link_objects n z (P + 32) m0"
  have e: "m' = set_slab_nfree P (object_num z) (set_slab_objsize P z (set_slab_magic P SLAB_MAGIC m1))"
    unfolding m' m1_def m0_def n_def by simp
  have head: "m1 x = m0 x" if "x < P + 32" for x unfolding m1_def by (rule link_other) (use that t in auto)
  have "obj_next m0 (P + 32 + n * z) = obj_next m (P + 32 + n * z)" unfolding m0_def by (simp add: fields cells)
  also have "\<dots> = 0" unfolding obj_next_def by (subst read64_zero) (use zero b in auto)
  finally have "ochain m1 (P + 32) (map (\<lambda>j. P + 32 + j * z) [0..<Suc n])"
    unfolding m1_def by (rule link_chain) (use t b page_end [OF P(1,3)] in auto)
  then have oc: "ochain m1 (P + 32) (slab_objects P z)" unfolding slab_objects_def n(1) by simp
  have ob: "obj_next m' y = obj_next m1 y" if "y \<in> objs P z" for y
    using objs_bounds [OF z that] unfolding e by (simp add: fields cells)
  have h64: "read64 m1 (P + k) = read64 m0 (P + k)" if "k + 8 \<le> 32" for k by (rule read64_cong, rule head) (use that in auto)
  have "slab_object m' P = P + 32" using page_end [OF P(1,3)] unfolding e
    by (simp add: fields cells h64) (simp add: m0_def fields cells unat_of_nat64 del: of_nat_add)
  moreover have "slab_magic m' P = SLAB_MAGIC" "slab_objsize m' P = z" "slab_nfree m' P = object_num z"
    using n(2) t unfolding e by (simp_all add: fields cells)
  moreover have "ochain m' (P + 32) (slab_objects P z)"
    using oc ochain_cong [of "slab_objects P z" m' m1 "P + 32"] ob slab_objects_props(1) by blast
  ultimately show "slab_ok m' P z (slab_objects P z)"
    unfolding slab_ok_def using P slab_objects_props z by simp
  show "slab_next m' P = 0" unfolding e by (simp add: fields cells h64) (simp add: m0_def fields cells)
  show "m' x = m x" if "x \<notin> page_bytes P" for x
  proof -
    have "m' x = m1 x" using that unfolding e by (auto simp: fields cells)
    also have "\<dots> = m0 x" unfolding m1_def by (rule link_other) (use that t b in auto)
    also have "\<dots> = m x" using that unfolding m0_def by (auto simp: fields cells)
    finally show ?thesis .
  qed
qed

section \<open>The lists of slabs and the objects of clients\<close>

fun schain :: "mem \<Rightarrow> addr \<Rightarrow> addr list \<Rightarrow> bool" where
  "schain m a [] \<longleftrightarrow> a = 0"
| "schain m a (x # xs) \<longleftrightarrow> a = x \<and> x \<noteq> 0 \<and> schain m (slab_next m x) xs"

lemma schain_cong: "(\<And>x. x \<in> set xs \<Longrightarrow> slab_next m' x = slab_next m x) \<Longrightarrow> schain m' a xs = schain m a xs"
  by (induction xs arbitrary: a) auto

lemma last_slab_chain: "schain m x (x # xs) \<Longrightarrow> last_slab m x = Some (last (x # xs))"
proof (induction xs arbitrary: x)
  case Nil then show ?case by (subst last_slab.simps) simp
next
  case (Cons y ys)
  then have "last_slab m y = Some (last (y # ys))" by auto
  then show ?case using Cons.prems by (subst last_slab.simps) auto
qed

lemma schain_append:
  assumes "schain m a (xs @ [x])" "distinct (xs @ [x, y])" "y \<noteq> 0" "\<And>u. u \<in> set xs \<Longrightarrow> slab_next m' u = slab_next m u"
    "slab_next m' x = y" "slab_next m' y = 0"
  shows "schain m' a (xs @ [x, y])"
  using assms by (induction xs arbitrary: a) auto

text \<open>Every slab has its cache and the list of its free objects.\<close>

type_synonym slabs = "addr \<Rightarrow> (nat \<times> addr list) option"

abbreviation csize :: "nat \<Rightarrow> nat" where "csize i \<equiv> slab_size_table ! i"

lemma csize_in [simp]: "i < 8 \<Longrightarrow> csize i \<in> set slab_size_table"
  by (rule nth_mem) (simp add: slab_size_table_def)

definition slabs_ok :: "mem \<Rightarrow> slabs \<Rightarrow> bool" where
  "slabs_ok m S \<longleftrightarrow> (\<forall>P i xs. S P = Some (i, xs) \<longrightarrow> i < 8 \<and> slab_ok m P (csize i) xs)"

definition cache_ok :: "mem \<Rightarrow> slabs \<Rightarrow> kmem_cache \<Rightarrow> nat \<Rightarrow> addr list \<Rightarrow> bool" where
  "cache_ok m S c i G \<longleftrightarrow> kc_size c = csize i \<and>
     (free_slab c \<noteq> 0 \<longrightarrow> (\<exists>x xs. S (free_slab c) = Some (i, x # xs)) \<and> slab_next m (free_slab c) = 0) \<and>
     schain m (full_slab c) G \<and> distinct G \<and> (\<forall>P \<in> set G. S P = Some (i, []))"

definition objects_ok :: "slabs \<Rightarrow> (addr \<times> nat) set \<Rightarrow> bool" where
  "objects_ok S L \<longleftrightarrow> (\<forall>(a, z) \<in> L. \<exists>P i xs. S P = Some (i, xs) \<and> z = csize i \<and> a \<in> objs P z \<and> a \<notin> set xs)"

lemma objectsD:
  "objects_ok S L \<Longrightarrow> (a, z) \<in> L \<Longrightarrow> \<exists>P i xs. S P = Some (i, xs) \<and> z = csize i \<and> a \<in> objs P z \<and> a \<notin> set xs"
  by (fastforce simp: objects_ok_def)

lemma objectsI:
  "(\<And>a z. (a, z) \<in> L \<Longrightarrow> \<exists>P i xs. S P = Some (i, xs) \<and> z = csize i \<and> a \<in> objs P z \<and> a \<notin> set xs) \<Longrightarrow> objects_ok S L"
  by (auto simp: objects_ok_def)

definition pages_ok :: "buddy_system \<Rightarrow> slabs \<Rightarrow> addr set \<Rightarrow> bool" where
  "pages_ok pm S W \<longleftrightarrow> buddy_wf pm \<and> \<not> bs_lock pm \<and> (\<forall>P \<in> dom S \<union> W. (P, 0) \<in> live_blocks pm) \<and> W \<inter> dom S = {}"

definition slab_inv :: "slab_allocator \<Rightarrow> slabs \<Rightarrow> (nat \<Rightarrow> addr list) \<Rightarrow> (addr \<times> nat) set \<Rightarrow> addr set \<Rightarrow> bool" where
  "slab_inv s S G L W \<longleftrightarrow> pages_ok (sl_pm s) S W \<and> slabs_ok (sl_mem s) S \<and>
     (\<forall>i < 8. cache_ok (sl_mem s) S (sl_caches s i) i (G i)) \<and> objects_ok S L"

lemma live_frame: "(P, 0) \<in> live_blocks s \<Longrightarrow> P \<in> frames s"
  by (auto simp: live_blocks_def frames_def used_pages_def is_block_def)

lemma pages_ok_aligned: "pages_ok pm S W \<Longrightarrow> P \<in> dom S \<union> W \<Longrightarrow> PGSIZE dvd P"
  by (auto simp: pages_ok_def intro: frames_aligned live_frame)

text \<open>An object lies in its page, behind the header.\<close>

lemma object_bytes:
  assumes "i < 8" "a \<in> objs P (csize i)" "x \<in> {a..<a + csize i}"
  shows "x \<in> {P + 32..<P + PGSIZE}"
  using objs_bounds [OF csize_in [OF assms(1)] assms(2)] assms(3) by auto

lemma objects_disjoint:
  assumes p: "pages_ok pm S W" and m: "slabs_ok m S" and o: "objects_ok S L" and ab: "(a, z) \<in> L" "(b, y) \<in> L" "(a, z) \<noteq> (b, y)"
  shows "{a..<a + z} \<inter> {b..<b + y} = {}"
proof -
  obtain P i xs where P: "S P = Some (i, xs)" "z = csize i" "a \<in> objs P z" using o ab(1) by (auto simp: objects_ok_def)
  obtain Q j ys where Q: "S Q = Some (j, ys)" "y = csize j" "b \<in> objs Q y" using o ab(2) by (auto simp: objects_ok_def)
  have ij: "i < 8" "j < 8" using m P(1) Q(1) by (auto simp: slabs_ok_def)
  have sub: "{a..<a + z} \<subseteq> page_bytes P" "{b..<b + y} \<subseteq> page_bytes Q"
    using object_bytes [of i a P] object_bytes [of j b Q] ij P Q by fastforce+
  show ?thesis
  proof (cases "P = Q")
    case True
    then have "a \<noteq> b" "z = y" using P Q ab(3) by auto
    then show ?thesis using objs_apart [of a P z b] objs_apart [of b P z a] P(3) Q(3) True by (cases "a < b") force+
  next
    case False
    then have "page_bytes P \<inter> page_bytes Q = {}"
      using pages_apart pages_ok_aligned [OF p] P(1) Q(1) by blast
    then show ?thesis using sub by blast
  qed
qed

lemma object_page_disjoint:
  assumes p: "pages_ok pm S W" and m: "slabs_ok m S" and o: "objects_ok S L" and ab: "(a, z) \<in> L" "w \<in> W"
  shows "{a..<a + z} \<inter> page_bytes w = {}"
proof -
  obtain P i xs where P: "S P = Some (i, xs)" "z = csize i" "a \<in> objs P z" using o ab(1) by (auto simp: objects_ok_def)
  have "i < 8" using m P(1) by (auto simp: slabs_ok_def)
  then have "{a..<a + z} \<subseteq> page_bytes P" using object_bytes [of i a P] P by fastforce
  moreover have "P \<noteq> w" using p ab(2) P(1) by (auto simp: pages_ok_def)
  then have "page_bytes P \<inter> page_bytes w = {}" using pages_apart pages_ok_aligned [OF p] P(1) ab(2) by blast
  ultimately show ?thesis by blast
qed

lemma cache_ok_step:
  assumes "cache_ok m S c i G" "\<And>Q. Q \<in> dom S \<Longrightarrow> slab_next m' Q = slab_next m Q"
    and "\<And>Q. S Q = Some (i, []) \<Longrightarrow> S' Q = Some (i, [])"
    and "\<And>x xs. free_slab c \<noteq> 0 \<Longrightarrow> S (free_slab c) = Some (i, x # xs) \<Longrightarrow> \<exists>x xs. S' (free_slab c) = Some (i, x # xs)"
  shows "cache_ok m' S' c i G"
proof -
  have "schain m' (full_slab c) G = schain m (full_slab c) G"
    by (rule schain_cong, rule assms(2)) (use assms(1) in \<open>auto simp: cache_ok_def\<close>)
  moreover have "slab_next m' (free_slab c) = 0" if "free_slab c \<noteq> 0"
    using assms(1) assms(2) [of "free_slab c"] that by (auto simp: cache_ok_def)
  ultimately show ?thesis using assms unfolding cache_ok_def by metis
qed

end
