(* ===== verification/Slab_Safe.thy ===== *)
theory Slab_Safe
  imports Slab_Props
begin

text \<open>
  The slab allocator as its clients use it: the invariant through allocation and release, the run of a
  kernel whose other code allocates, writes and frees pages in between, and what goes wrong when an object
  is released below the first free one.
\<close>

section \<open>Steps on the slabs\<close>

lemma pages_ok_mem [simp]: "pages_ok (pm\<lparr>bs_mem := m\<rparr>) S W = pages_ok pm S W"
  by (simp add: pages_ok_def)

lemma pages_ok_dom: "dom S' = dom S \<Longrightarrow> pages_ok pm S W \<Longrightarrow> pages_ok pm S' W"
  by (simp add: pages_ok_def)

lemma other_page:
  assumes "pages_ok pm S W" "P \<in> dom S \<union> W" "Q \<in> dom S \<union> W" "P \<noteq> Q" "x \<in> page_bytes Q"
  shows "x \<notin> page_bytes P"
  using pages_apart [OF pages_ok_aligned [OF assms(1,2)] pages_ok_aligned [OF assms(1,3)] assms(4)] assms(5) by blast

text \<open>A change inside one page, to a new list of free objects.\<close>

lemma slabs_ok_upd:
  assumes p: "pages_ok pm S W" and m: "slabs_ok m S" and P: "P \<in> dom S" and i: "i < 8" and ok: "slab_ok m' P (csize i) xs"
    and out: "\<And>b. b \<notin> page_bytes P \<Longrightarrow> m' b = m b"
  shows "slabs_ok m' (S(P \<mapsto> (i, xs)))" "\<And>Q. Q \<in> dom S \<Longrightarrow> Q \<noteq> P \<Longrightarrow> slab_next m' Q = slab_next m Q"
proof -
  have same: "m' x = m x" if "Q \<in> dom S" "Q \<noteq> P" "x \<in> page_bytes Q" for Q x
    by (rule out) (use other_page [OF p, of P Q x] P that in blast)
  have "slab_ok m' Q (csize j) ys" if "S Q = Some (j, ys)" "Q \<noteq> P" for Q j ys
  proof (rule slab_ok_cong [of "csize j" Q m' m])
    show "csize j \<in> set slab_size_table" "slab_ok m Q (csize j) ys" using m that(1) by (auto simp: slabs_ok_def)
  qed (use same [of Q] that in auto)
  then show "slabs_ok m' (S(P \<mapsto> (i, xs)))" using m i ok by (auto simp: slabs_ok_def)
  show "slab_next m' Q = slab_next m Q" if "Q \<in> dom S" "Q \<noteq> P" for Q
    by (rule slab_next_cong) (use same that in auto)
qed

lemma slab_at:
  assumes "slabs_ok m S" "S P = Some (i, xs)"
  shows "i < 8" "slab_ok m P (csize i) xs" "csize i \<in> set slab_size_table" "PGSIZE dvd P" "0 < P" "P < 2 ^ 64" "set xs \<subseteq> objs P (csize i)"
  using assms by (auto simp: slabs_ok_def slab_ok_def)

lemma header_in_page: "b \<notin> page_bytes P \<Longrightarrow> b \<notin> {P..<P + 32}"
  by auto

lemma take_parts:
  assumes p: "pages_ok pm S W" and m: "slabs_ok m S" and o: "objects_ok S L" and P: "S P = Some (i, x # xs)"
    and m': "m' = (set_slab_nfree P (length xs) \<circ> set_slab_object P (obj_next m x)) m"
  shows "slabs_ok m' (S(P \<mapsto> (i, xs)))" "objects_ok (S(P \<mapsto> (i, xs))) (insert (x, csize i) L)" "(x, csize i) \<notin> L"
    "\<And>Q. Q \<in> dom S \<Longrightarrow> slab_next m' Q = slab_next m Q" "\<And>b. b \<notin> {P..<P + 32} \<Longrightarrow> m' b = m b" "x \<noteq> 0"
proof -
  note at = slab_at [OF m P]
  note t = take_object [OF at(2,3) m']
  note u = slabs_ok_upd [OF p m _ at(1) t(1)]
  have d: "distinct (x # xs)" using at(2) by (simp add: slab_ok_def)
  show "slabs_ok m' (S(P \<mapsto> (i, xs)))" by (rule u(1)) (use P t(3) header_in_page in auto)
  show "slab_next m' Q = slab_next m Q" if "Q \<in> dom S" for Q
    using u(2) [of Q] t(2) t(3) header_in_page P that by (cases "Q = P") blast+
  show "m' b = m b" if "b \<notin> {P..<P + 32}" for b by (rule t(3) [OF that])
  show "x \<noteq> 0" using at(2) by (auto simp: slab_ok_def)
  have keep: "\<exists>Q j ys. (S(P \<mapsto> (i, xs))) Q = Some (j, ys) \<and> z = csize j \<and> a \<in> objs Q z \<and> a \<notin> set ys" if "(a, z) \<in> L" for a z
  proof -
    obtain Q j ys where "S Q = Some (j, ys)" "z = csize j" "a \<in> objs Q z" "a \<notin> set ys"
      using objectsD [OF o \<open>(a, z) \<in> L\<close>] by blast
    then show ?thesis by - (rule exI [of _ Q], use P in auto)
  qed
  have "\<exists>Q j ys. (S(P \<mapsto> (i, xs))) Q = Some (j, ys) \<and> csize i = csize j \<and> x \<in> objs Q (csize i) \<and> x \<notin> set ys"
    by (rule exI [of _ P]) (use at(7) d in auto)
  with keep show "objects_ok (S(P \<mapsto> (i, xs))) (insert (x, csize i) L)" unfolding objects_ok_def by blast
  show "(x, csize i) \<notin> L"
  proof
    assume "(x, csize i) \<in> L"
    then obtain Q j ys where Q: "S Q = Some (j, ys)" "csize i = csize j" "x \<in> objs Q (csize i)" "x \<notin> set ys"
      using o by (auto simp: objects_ok_def)
    have "Q = P"
    proof (rule ccontr)
      assume "Q \<noteq> P"
      then have "page_bytes P \<inter> page_bytes Q = {}" using pages_apart at(4) slab_at(4) [OF m Q(1)] by metis
      moreover have "x \<in> page_bytes P" "x \<in> page_bytes Q"
        using objs_bounds [OF at(3)] Q(3) at(7) by fastforce+
      ultimately show False by blast
    qed
    then show False using Q(1,4) P by auto
  qed
qed

lemma set_next_parts:
  assumes p: "pages_ok pm S W" and m: "slabs_ok m S" and P: "P \<in> dom S" and v: "v < 2 ^ 64"
  shows "slabs_ok (set_slab_next P v m) S" "\<And>Q. Q \<in> dom S \<Longrightarrow> slab_next (set_slab_next P v m) Q = (if Q = P then v else slab_next m Q)"
    "\<And>b. b \<notin> {P..<P + 32} \<Longrightarrow> set_slab_next P v m b = m b"
proof -
  obtain i xs where i: "S P = Some (i, xs)" using P by auto
  note at = slab_at [OF m i]
  show out: "set_slab_next P v m b = m b" if "b \<notin> {P..<P + 32}" for b using that by (auto simp: fields cells)
  have ob: "obj_next (set_slab_next P v m) x = obj_next m x" if "x \<in> set xs" for x
    using objs_bounds(1) [OF at(3), of x P] at(7) that by (simp add: fields cells subset_iff)
  have "slab_ok (set_slab_next P v m) P (csize i) xs"
    using at(2) ochain_cong [OF ob] unfolding slab_ok_def by (simp add: fields cells)
  note ok = this
  have out2: "set_slab_next P v m b = m b" if "b \<notin> page_bytes P" for b using out header_in_page [OF that] by blast
  have u: "slabs_ok (set_slab_next P v m) (S(P \<mapsto> (i, xs)))" by (rule slabs_ok_upd(1) [OF p m P at(1) ok]) (rule out2)
  have u2: "slab_next (set_slab_next P v m) Q = slab_next m Q" if "Q \<in> dom S" "Q \<noteq> P" for Q
    by (rule slabs_ok_upd(2) [OF p m P at(1) ok _ that]) (rule out2)
  show "slabs_ok (set_slab_next P v m) S" using u i by (simp add: fun_upd_idem)
  show "slab_next (set_slab_next P v m) Q = (if Q = P then v else slab_next m Q)" if "Q \<in> dom S" for Q
    using u2 [OF that] v by (auto simp: fields unat_of_nat64)
qed

section \<open>Allocation\<close>

lemma sl_upd [simp]:
  "sl_pm (upd_mem f s) = (sl_pm s)\<lparr>bs_mem := f (sl_mem s)\<rparr>" "sl_caches (upd_mem f s) = sl_caches s"
  "sl_pm (upd_cache i g s) = sl_pm s" "sl_caches (upd_cache i g s) = (sl_caches s)(i := g (sl_caches s i))"
  by (simp_all add: upd_mem_def upd_cache_def)

definition kept :: "(addr \<times> nat) set \<Rightarrow> addr set \<Rightarrow> mem \<Rightarrow> mem \<Rightarrow> bool" where
  "kept L W m m' \<longleftrightarrow> (\<forall>(b, y) \<in> L. \<forall>x \<in> {b..<b + y}. m' x = m x) \<and> (\<forall>w \<in> W. \<forall>x \<in> page_bytes w. m' x = m x)"

lemma kept_headers:
  assumes "pages_ok pm S W" "slabs_ok m S" "objects_ok S L" "\<And>b. (\<forall>P \<in> dom S. b \<notin> {P..<P + 32}) \<Longrightarrow> m' b = m0 b"
  shows "kept L W m0 m'"
proof -
  have "m' x = m0 x" if h: "(b, y) \<in> L" "x \<in> {b..<b + y}" for b y x
  proof (rule assms(4), intro ballI)
    fix P assume P: "P \<in> dom S"
    obtain Q i xs where Q: "S Q = Some (i, xs)" "y = csize i" "b \<in> objs Q y" using objectsD [OF assms(3) h(1)] by blast
    then have x: "x \<in> {Q + 32..<Q + PGSIZE}" using object_bytes [of i b Q x] slab_at(1) [OF assms(2) Q(1)] h(2) by simp
    show "x \<notin> {P..<P + 32}"
    proof (cases "P = Q")
      case False
      then have "x \<notin> page_bytes P" using other_page [OF assms(1), of P Q x] P Q(1) x by auto
      then show ?thesis by auto
    qed (use x in auto)
  qed
  moreover have "m' x = m0 x" if "w \<in> W" "x \<in> page_bytes w" for w x
  proof (rule assms(4), intro ballI)
    fix P assume P: "P \<in> dom S"
    then have "P \<noteq> w" using assms(1) that(1) by (auto simp: pages_ok_def)
    then have "x \<notin> page_bytes P" using other_page [OF assms(1), of P w x] P that by auto
    then show "x \<notin> {P..<P + 32}" by auto
  qed
  ultimately show ?thesis by (auto simp: kept_def)
qed

lemma take_more:
  assumes inv: "slab_inv s S G L W" and i: "i < 8" and P: "S P = Some (i, x # y # xs)"
    and m': "m' = (set_slab_nfree P (Suc (length xs)) \<circ> set_slab_object P (obj_next (sl_mem s) x)) (sl_mem s)"
  shows "slab_inv (upd_mem (\<lambda>_. m') s) (S(P \<mapsto> (i, y # xs))) G (insert (x, csize i) L) W" "(x, csize i) \<notin> L" "x \<noteq> 0"
    "kept L W (sl_mem s) m'"
proof -
  have I: "pages_ok (sl_pm s) S W" "slabs_ok (sl_mem s) S" "objects_ok S L" "\<And>j. j < 8 \<Longrightarrow> cache_ok (sl_mem s) S (sl_caches s j) j (G j)"
    using inv by (auto simp: slab_inv_def)
  have mm: "m' = (set_slab_nfree P (length (y # xs)) \<circ> set_slab_object P (obj_next (sl_mem s) x)) (sl_mem s)" using m' by simp
  note t = take_parts [OF I(1-3) P mm]
  have "pages_ok (sl_pm s) (S(P \<mapsto> (i, y # xs))) W" by (rule pages_ok_dom [OF _ I(1)]) (use P in auto)
  moreover have "cache_ok m' (S(P \<mapsto> (i, y # xs))) (sl_caches s j) j (G j)" if "j < 8" for j
    by (rule cache_ok_step [OF I(4) [OF that] t(4)]) (use P in auto)
  ultimately show "slab_inv (upd_mem (\<lambda>_. m') s) (S(P \<mapsto> (i, y # xs))) G (insert (x, csize i) L) W"
    using t(1,2) by (simp add: slab_inv_def)
  show "(x, csize i) \<notin> L" "x \<noteq> 0" using t(3,6) by auto
  show "kept L W (sl_mem s) m'" by (rule kept_headers [OF I(1-3)], rule t(5)) (use P in auto)
qed

lemma take_last:
  assumes inv: "slab_inv s S G L W" and i: "i < 8" and P: "S P = Some (i, [x])" "free_slab (sl_caches s i) = P"
  shows "\<exists>s' G'. move_to_full i P (upd_mem (set_slab_nfree P 0 \<circ> set_slab_object P 0) s) = Some s' \<and>
    slab_inv s' (S(P \<mapsto> (i, []))) G' (insert (x, csize i) L) W \<and> (x, csize i) \<notin> L \<and> x \<noteq> 0 \<and> kept L W (sl_mem s) (sl_mem s')"
proof -
  have I: "pages_ok (sl_pm s) S W" "slabs_ok (sl_mem s) S" "objects_ok S L" "\<And>j. j < 8 \<Longrightarrow> cache_ok (sl_mem s) S (sl_caches s j) j (G j)"
    using inv by (auto simp: slab_inv_def)
  note at = slab_at [OF I(2) P(1)]
  define m where "m = (set_slab_nfree P 0 \<circ> set_slab_object P 0) (sl_mem s)"
  have nx: "obj_next (sl_mem s) x = 0" using at(2) by (simp add: slab_ok_def)
  have m: "m = (set_slab_nfree P (length []) \<circ> set_slab_object P (obj_next (sl_mem s) x)) (sl_mem s)" by (simp add: m_def nx)
  note t = take_parts [OF I(1-3) P(1) m]
  let ?S = "S(P \<mapsto> (i, []))"
  have dom: "dom ?S = dom S" using P(1) by auto
  have p: "pages_ok (sl_pm s) ?S W" by (rule pages_ok_dom [OF dom I(1)])
  have c: "cache_ok (sl_mem s) S (sl_caches s i) i (G i)" by (rule I(4) [OF i])
  have G: "P \<notin> set (G i)" "distinct (G i)" "set (G i) \<subseteq> dom S" "kc_size (sl_caches s i) = csize i" "slab_next (sl_mem s) P = 0"
    "schain (sl_mem s) (full_slab (sl_caches s i)) (G i)" "\<forall>Q \<in> set (G i). S Q = Some (i, [])"
    using c P at(5) by (auto simp: cache_ok_def)
  have nP: "slab_next m P = 0" using t(4) [of P] P(1) G(5) by auto
  have ch: "schain m (full_slab (sl_caches s i)) (G i)"
    using G(6) schain_cong [of "G i" m "sl_mem s"] t(4) G(3) by blast
  have other: "cache_ok m' ?S (sl_caches s j) j (G j)" if "j < 8" "j \<noteq> i" "\<And>Q. Q \<in> dom S \<Longrightarrow> Q \<notin> insert P (set (G i)) \<Longrightarrow> slab_next m' Q = slab_next m Q" for j m'
  proof -
    have cj: "cache_ok m ?S (sl_caches s j) j (G j)" by (rule cache_ok_step [OF I(4) [OF that(1)] t(4)]) (use P that(2) in auto)
    have nG: "Q \<notin> insert P (set (G i))" "Q \<in> dom S" if "?S Q = Some (j, ys)" for Q ys
      using G(7) that P(1) \<open>j \<noteq> i\<close> by (auto split: if_splits)
    have "schain m' (full_slab (sl_caches s j)) (G j) = schain m (full_slab (sl_caches s j)) (G j)"
      by (rule schain_cong, rule that(3)) (use cj nG in \<open>auto simp: cache_ok_def\<close>)
    moreover have "slab_next m' (free_slab (sl_caches s j)) = 0" if "free_slab (sl_caches s j) \<noteq> 0"
      using cj that \<open>\<And>Q. Q \<in> dom S \<Longrightarrow> Q \<notin> insert P (set (G i)) \<Longrightarrow> slab_next m' Q = slab_next m Q\<close> [of "free_slab (sl_caches s j)"]
        nG [of "free_slab (sl_caches s j)"] unfolding cache_ok_def by metis
    ultimately show ?thesis using cj unfolding cache_ok_def by blast
  qed
  show ?thesis
  proof (cases "full_slab (sl_caches s i) = 0")
    case True
    then have "G i = []" using ch at(5) by (cases "G i") auto
    define s' where "s' = upd_cache i (\<lambda>c. c\<lparr>full_slab := P\<rparr>) (upd_cache i (\<lambda>c. c\<lparr>free_slab := 0\<rparr>) (upd_mem (\<lambda>_. m) s))"
    have "move_to_full i P (upd_mem (set_slab_nfree P 0 \<circ> set_slab_object P 0) s) = Some s'"
      using True nP unfolding move_to_full_def Let_def s'_def m_def by (simp add: upd_mem_def upd_cache_def)
    moreover have "cache_ok m ?S (sl_caches s' i) i [P]" using nP at(5) G(4) by (simp add: cache_ok_def s'_def)
    then have "slab_inv s' ?S (G(i := [P])) (insert (x, csize i) L) W"
      using p t(1,2) other [of _ m] by (auto simp: slab_inv_def s'_def)
    moreover have "kept L W (sl_mem s) m" by (rule kept_headers [OF I(1-3)], rule t(5)) (use P in auto)
    ultimately show ?thesis using t(3,6) by (intro exI [of _ s'] exI [of _ "G(i := [P])"]) (simp add: s'_def)
  next
    case False
    then obtain f fs where f: "G i = f # fs" "full_slab (sl_caches s i) = f" using ch by (cases "G i") auto
    define l where "l = last (G i)"
    define m2 where "m2 = set_slab_next P 0 (set_slab_next l P m)"
    define s' where "s' = upd_cache i (\<lambda>c. c\<lparr>free_slab := 0\<rparr>) (upd_mem (\<lambda>_. m2) s)"
    have l2: "l \<in> set (G i)" using f unfolding l_def by simp
    then have l: "last_slab m f = Some l" "l \<in> set (G i)" "l \<in> dom S" "l \<noteq> P"
      using last_slab_chain [of m f fs] ch f G(1,3) unfolding l_def by auto
    note n1 = set_next_parts [OF p t(1), of l P] and n2 = set_next_parts [OF p, of "set_slab_next l P m" P 0]
    have ok2: "slabs_ok m2 ?S" unfolding m2_def by (rule n2(1), rule n1(1)) (use l at(6) P in auto)
    have nx2: "slab_next m2 Q = (if Q = P then 0 else if Q = l then P else slab_next m Q)" if "Q \<in> dom S" for Q
      unfolding m2_def using n1 n2(2) that l at(6) P by auto
    have mv: "move_to_full i P (upd_mem (set_slab_nfree P 0 \<circ> set_slab_object P 0) s) = Some s'"
      using False nP f l(1) unfolding move_to_full_def Let_def s'_def m_def m2_def by (simp add: upd_mem_def upd_cache_def)
    have "schain m2 (full_slab (sl_caches s i)) (butlast (G i) @ [l, P])"
    proof (rule schain_append [of m])
      have eq: "butlast (G i) @ [l] = G i" using f by (simp add: l_def)
      then show "schain m (full_slab (sl_caches s i)) (butlast (G i) @ [l])" using ch by simp
      from eq have "distinct (butlast (G i) @ [l])" "set (butlast (G i)) \<subseteq> set (G i)" using G(2) by (metis, metis in_set_butlastD subsetI)
      then show "distinct (butlast (G i) @ [l, P])" using G(1) l(4) by auto
      then show "slab_next m2 u = slab_next m u" if "u \<in> set (butlast (G i))" for u
        using nx2 [OF subsetD [OF G(3) in_set_butlastD [OF that]]] that by auto
    qed (use nx2 [of l] nx2 [of P] l P at(5) in auto)
    moreover have "butlast (G i) @ [l, P] = G i @ [P]"
      using append_butlast_last_id [of "G i"] f(1) unfolding l_def by (metis append.assoc append_Cons append_Nil list.distinct(1))
    ultimately have "schain m2 (full_slab (sl_caches s i)) (G i @ [P])" by simp
    then have "cache_ok m2 ?S (sl_caches s' i) i (G i @ [P])"
      using G(1,2,4,7) unfolding cache_ok_def s'_def by auto
    moreover have "cache_ok m2 ?S (sl_caches s j) j (G j)" if "j < 8" "j \<noteq> i" for j
      by (rule other [OF that]) (use nx2 l(2) in auto)
    ultimately have "slab_inv s' ?S (G(i := G i @ [P])) (insert (x, csize i) L) W"
      using p t(2) ok2 by (auto simp: slab_inv_def s'_def)
    moreover have "m2 b = sl_mem s b" if "\<forall>Q \<in> dom S. b \<notin> {Q..<Q + 32}" for b
    proof -
      have "b \<notin> {l..<l + 32}" "b \<notin> {P..<P + 32}" using that l(3) P(1) by blast+
      then show ?thesis unfolding m2_def using t(5) [of b] by (auto simp: set_slab_next_def write64_def)
    qed
    then have "kept L W (sl_mem s) m2" by (rule kept_headers [OF I(1-3)])
    ultimately show ?thesis using mv t(3,6) by (intro exI [of _ s'] exI [of _ "G(i := G i @ [P])"]) (simp add: s'_def)
  qed
qed

lemma kept_outside:
  assumes p: "pages_ok pm S W" and m: "slabs_ok m S" and o: "objects_ok S L" and P: "PGSIZE dvd P" "P \<notin> dom S \<union> W"
    and out: "\<And>b. b \<notin> page_bytes P \<Longrightarrow> m' b = m0 b"
  shows "kept L W m0 m'"
proof -
  have page: "m' x = m0 x" if "Q \<in> dom S \<union> W" "x \<in> page_bytes Q" for Q x
  proof (rule out)
    have "page_bytes P \<inter> page_bytes Q = {}" by (rule pages_apart [OF P(1) pages_ok_aligned [OF p that(1)]]) (use P(2) that(1) in blast)
    then show "x \<notin> page_bytes P" using that(2) by blast
  qed
  have "m' x = m0 x" if h: "(b, y) \<in> L" "x \<in> {b..<b + y}" for b y x
  proof -
    obtain Q i xs where Q: "S Q = Some (i, xs)" "y = csize i" "b \<in> objs Q y" using objectsD [OF o h(1)] by blast
    then have "x \<in> page_bytes Q" using object_bytes [of i b Q x] slab_at(1) [OF m Q(1)] h(2) by simp
    then show ?thesis using page [of Q x] Q(1) by blast
  qed
  then show ?thesis using page unfolding kept_def by blast
qed

lemma kept_trans: "kept L W m0 m1 \<Longrightarrow> kept L W m1 m2 \<Longrightarrow> kept L W m0 m2"
  by (fastforce simp: kept_def)

lemma create_parts:
  assumes p: "pages_ok (sl_pm s) S W" and m: "slabs_ok (sl_mem s) S" and o: "objects_ok S L" and i: "i < 8"
    and av: "0 < free_count (sl_pm s)"
  obtains P s1 where "create_slab_with_size (csize i) s = Some (P, s1)" "P \<notin> dom S \<union> W" "P \<noteq> 0" "sl_caches s1 = sl_caches s"
    "free_count (sl_pm s1) = free_count (sl_pm s) - 1" "sl_boot_page s1 = sl_boot_page s" "sl_alloc_count s1 = sl_alloc_count s"
    "pages_ok (sl_pm s1) (S(P \<mapsto> (i, slab_objects P (csize i)))) W"
    "slabs_ok (sl_mem s1) (S(P \<mapsto> (i, slab_objects P (csize i))))" "objects_ok (S(P \<mapsto> (i, slab_objects P (csize i)))) L"
    "slab_next (sl_mem s1) P = 0" "\<And>Q. Q \<in> dom S \<Longrightarrow> slab_next (sl_mem s1) Q = slab_next (sl_mem s) Q" "kept L W (sl_mem s) (sl_mem s1)"
proof -
  have wf: "buddy_wf (sl_pm s)" "\<not> bs_lock (sl_pm s)" using p by (auto simp: pages_ok_def)
  obtain P pm where a: "pmem_alloc_pages (sl_pm s) 1 = Some (P, pm)" "buddy_wf pm" "\<not> bs_lock pm" "PGSIZE dvd P" "0 < P" "P < 2 ^ 64"
    "P \<notin> frames (sl_pm s)" "free_count pm = free_count (sl_pm s) - 1" "bs_mem pm = (\<lambda>x. if x \<in> page_bytes P then 0 else sl_mem s x)"
    "live_blocks pm = insert (P, 0) (live_blocks (sl_pm s))" using alloc_one_frame [OF wf av] by blast
  have fresh: "P \<notin> dom S \<union> W" using a(7) live_frame p by (fastforce simp: pages_ok_def)
  define m' where "m' = (set_slab_nfree P (object_num (csize i)) \<circ> set_slab_objsize P (csize i) \<circ> set_slab_magic P SLAB_MAGIC \<circ>
    link_objects (object_num (csize i) - 1) (csize i) (P + slab_header) \<circ> set_slab_object P (P + slab_header) \<circ> set_slab_next P 0) (bs_mem pm)"
  define s1 where "s1 = upd_mem (\<lambda>_. m') (s\<lparr>sl_pm := pm\<rparr>)"
  let ?S = "S(P \<mapsto> (i, slab_objects P (csize i)))"
  have new: "slab_ok m' P (csize i) (slab_objects P (csize i))" "slab_next m' P = 0" "\<And>b. b \<notin> page_bytes P \<Longrightarrow> m' b = bs_mem pm b"
    using new_slab_ok [OF csize_in [OF i] a(4-6) _ m'_def] a(9) by auto
  have out: "m' b = sl_mem s b" if "b \<notin> page_bytes P" for b using new(3) [OF that] that unfolding a(9) by auto
  have page: "m' x = sl_mem s x" if "Q \<in> dom S" "x \<in> page_bytes Q" for Q x
  proof (rule out)
    have "page_bytes P \<inter> page_bytes Q = {}" by (rule pages_apart [OF a(4) pages_ok_aligned [OF p]]) (use fresh that(1) in blast)+
    then show "x \<notin> page_bytes P" using that(2) by blast
  qed
  have "slab_ok m' Q (csize j) ys" if "S Q = Some (j, ys)" for Q j ys
  proof (rule slab_ok_cong [of "csize j" Q m' "sl_mem s"])
    show "csize j \<in> set slab_size_table" "slab_ok (sl_mem s) Q (csize j) ys" using slab_at [OF m that] by auto
  qed (use page [of Q] that in auto)
  then have ok: "slabs_ok m' ?S" using new(1) i m by (auto simp: slabs_ok_def)
  have nx: "slab_next m' Q = slab_next (sl_mem s) Q" if "Q \<in> dom S" for Q by (rule slab_next_cong) (use page that in auto)
  have pg: "pages_ok (sl_pm s1) ?S W" using p a(2,3,10) fresh by (auto simp: pages_ok_def s1_def)
  have ob: "objects_ok ?S L"
  proof -
    have "S Q = Some (j, ys) \<Longrightarrow> ?S Q = Some (j, ys)" for Q j ys using fresh by auto
    then show ?thesis using o unfolding objects_ok_def by fast
  qed
  have "create_slab_with_size (csize i) s = Some (P, s1)"
    using a(1,5) unfolding create_slab_with_size_def Let_def s1_def m'_def by (simp add: upd_mem_def)
  then show thesis
    by (rule that) (use fresh a(5,8) pg ok ob new(2) nx kept_outside [OF p m o a(4) fresh out] in \<open>auto simp: s1_def upd_mem_def\<close>)
qed

lemma alloc_step:
  assumes inv: "slab_inv s S G L W" and i: "i < 8" and av: "0 < free_count (sl_pm s)"
  shows "\<exists>a s' S' G'. alloc_from_kmem_cache i s = Some (a, s') \<and> slab_inv s' S' G' (insert (a, csize i) L) W \<and>
    (a, csize i) \<notin> L \<and> a \<noteq> 0 \<and> kept L W (sl_mem s) (sl_mem s')"
proof -
  have I: "pages_ok (sl_pm s) S W" "slabs_ok (sl_mem s) S" "objects_ok S L" "\<And>j. j < 8 \<Longrightarrow> cache_ok (sl_mem s) S (sl_caches s j) j (G j)"
    using inv by (auto simp: slab_inv_def)
  let ?P = "free_slab (sl_caches s i)"
  show ?thesis
  proof (cases "?P = 0")
    case False
    then obtain x xs where x: "S ?P = Some (i, x # xs)" using I(4) [OF i] by (auto simp: cache_ok_def)
    note at = slab_at [OF I(2) x]
    have f: "slab_object (sl_mem s) ?P = x" "slab_nfree (sl_mem s) ?P = Suc (length xs)" "x \<noteq> 0" using at(2) by (auto simp: slab_ok_def)
    show ?thesis
    proof (cases xs)
      case Nil
      then show ?thesis using take_last [OF inv i _ refl] x False f unfolding alloc_from_kmem_cache_def Let_def by auto
    next
      case (Cons y ys)
      define m' where "m' = (set_slab_nfree ?P (Suc (length ys)) \<circ> set_slab_object ?P (obj_next (sl_mem s) x)) (sl_mem s)"
      have "alloc_from_kmem_cache i s = Some (x, upd_mem (\<lambda>_. m') s)"
        using False f Cons unfolding alloc_from_kmem_cache_def Let_def m'_def by (simp add: upd_mem_def)
      then show ?thesis using take_more [OF inv i x [unfolded Cons] m'_def] by auto
    qed
  next
    case True
    obtain P s1 where c: "create_slab_with_size (csize i) s = Some (P, s1)" "P \<notin> dom S \<union> W" "P \<noteq> 0" "sl_caches s1 = sl_caches s"
      "pages_ok (sl_pm s1) (S(P \<mapsto> (i, slab_objects P (csize i)))) W"
      "slabs_ok (sl_mem s1) (S(P \<mapsto> (i, slab_objects P (csize i))))" "objects_ok (S(P \<mapsto> (i, slab_objects P (csize i)))) L"
      "slab_next (sl_mem s1) P = 0" "\<And>Q. Q \<in> dom S \<Longrightarrow> slab_next (sl_mem s1) Q = slab_next (sl_mem s) Q" "kept L W (sl_mem s) (sl_mem s1)"
      by (rule create_parts [OF I(1-3) i av]) blast
    let ?S = "S(P \<mapsto> (i, slab_objects P (csize i)))"
    define s2 where "s2 = upd_cache i (\<lambda>c. c\<lparr>free_slab := P\<rparr>) s1"
    have "length (slab_objects P (csize i)) \<ge> 3" using table_sizes [OF csize_in [OF i]] slab_objects_props(2) by simp
    then obtain x y ys where xs: "slab_objects P (csize i) = x # y # ys"
      by (cases "slab_objects P (csize i)" rule: remdups_adj.cases) auto
    have "cache_ok (sl_mem s1) ?S (sl_caches s j) j (G j)" if "j < 8" for j
      by (rule cache_ok_step [OF I(4) [OF that] c(9)]) (use c(2) in auto)
    then have inv2: "slab_inv s2 ?S G L W" using c(3-8) i xs by (auto simp: slab_inv_def s2_def cache_ok_def)
    have PS: "?S P = Some (i, x # y # ys)" using xs by simp
    note at = slab_at [OF c(6) PS]
    have f: "slab_object (sl_mem s1) P = x" "slab_nfree (sl_mem s1) P = Suc (Suc (length ys))" using at(2) by (auto simp: slab_ok_def)
    define m' where "m' = (set_slab_nfree P (Suc (length ys)) \<circ> set_slab_object P (obj_next (sl_mem s2) x)) (sl_mem s2)"
    have kc: "kc_size (sl_caches s i) = csize i" using I(4) [OF i] by (simp add: cache_ok_def)
    have "alloc_from_kmem_cache i s = Some (x, upd_mem (\<lambda>_. m') s2)"
      unfolding alloc_from_kmem_cache_def Let_def kc c(1) m'_def s2_def using True f by (simp add: upd_mem_def)
    moreover have "kept L W (sl_mem s) (sl_mem s2)" using c(10) by (simp add: s2_def)
    ultimately show ?thesis using take_more [OF inv2 i PS m'_def] kept_trans by auto
  qed
qed

lemma fine_ok: "(\<And>i. i < 8 \<Longrightarrow> kc_size (sl_caches s i) = csize i) \<Longrightarrow> i < 8 \<Longrightarrow> fine_kmem_cache (csize i) s = Some i"
proof -
  assume k: "\<And>i. i < 8 \<Longrightarrow> kc_size (sl_caches s i) = csize i" and i: "i < 8"
  have "[0..<8] = [0, 1, 2, 3, 4, 5, 6, 7]" by code_simp
  moreover from i have "i = 0 \<or> i = 1 \<or> i = 2 \<or> i = 3 \<or> i = 4 \<or> i = 5 \<or> i = 6 \<or> i = 7" by auto
  ultimately show ?thesis unfolding fine_kmem_cache_def using k by (elim disjE) (simp_all add: slab_size_table_def)
qed

lemma slab_size_cache: "z \<le> 1024 \<Longrightarrow> \<exists>i < 8. slab_size z = csize i \<and> z \<le> csize i"
proof -
  assume "z \<le> 1024"
  moreover have "1024 \<in> set slab_size_table" by (simp add: slab_size_table_def)
  ultimately have "find (\<lambda>t. z \<le> t) slab_size_table \<noteq> None" by (auto simp: find_None_iff)
  then obtain t where t: "find (\<lambda>t. z \<le> t) slab_size_table = Some t" by auto
  then obtain i where "i < length slab_size_table" "t = csize i" "z \<le> t" unfolding find_Some_iff by blast
  then show ?thesis using t unfolding slab_size_def by (intro exI [of _ i]) (simp add: slab_size_table_def)
qed

lemma slab_alloc_small:
  assumes inv: "slab_inv s S G L W" and z: "z \<le> 1024"
  obtains i where "i < 8" "slab_size z = csize i" "z \<le> csize i" "slab_alloc z s = alloc_from_kmem_cache i s"
proof -
  obtain i where i: "i < 8" "slab_size z = csize i" "z \<le> csize i" using slab_size_cache [OF z] by blast
  have "fine_kmem_cache (csize i) s = Some i" by (rule fine_ok [OF _ i(1)]) (use inv in \<open>auto simp: slab_inv_def cache_ok_def\<close>)
  then have "slab_alloc z s = alloc_from_kmem_cache i s"
    using i(2) table_sizes [OF csize_in [OF i(1)]] by (simp add: slab_alloc_def Let_def)
  then show thesis using that i by blast
qed

section \<open>Release\<close>

lemma object_page:
  assumes "i < 8" "a \<in> objs P (csize i)" "PGSIZE dvd P" "P < 2 ^ 64"
  shows "PGROUNDDOWN a = P" "sub64 a slab_header mod csize i = 0" "a < 2 ^ 64"
proof -
  note b = objs_bounds [OF csize_in [OF assms(1)] assms(2)] and t = table_sizes [OF csize_in [OF assms(1)]]
  show a: "a < 2 ^ 64" using b(3) page_end [OF assms(3,4)] by linarith
  obtain q where q: "P = PGSIZE * q" using assms(3) by (elim dvdE)
  have "a div PGSIZE = q" using b q t by (intro div_nat_eqI) auto
  then show "PGROUNDDOWN a = P" using PGROUNDDOWN_eq [OF a] q by simp
  obtain j where j: "a = P + 32 + j * csize i" using assms(2) by (auto simp: objs_def)
  have "sub64 a 32 = P + j * csize i" using a j by (simp add: sub64_in_range)
  moreover have "csize i dvd P" using t assms(3) dvd_trans by blast
  ultimately show "sub64 a slab_header mod csize i = 0" by simp
qed

text \<open>The release of an object: a new list of free objects for its slab, and changes to its header and its free objects only.\<close>

lemma release_parts:
  assumes p: "pages_ok pm S W" and m: "slabs_ok m S" and o: "objects_ok S L" and P: "S P = Some (i, xs)" "z = csize i" "a \<in> objs P z"
    and ok: "slab_ok m' P (csize i) ys" "set ys = insert a (set xs)"
    and eq: "\<forall>b. b \<notin> {P..<P + 32} \<and> (\<forall>y \<in> insert a (set xs). b \<notin> {y..<y + 8}) \<longrightarrow> m' b = m b"
  shows "slabs_ok m' (S(P \<mapsto> (i, ys)))" "\<And>Q. Q \<in> dom S \<Longrightarrow> Q \<noteq> P \<Longrightarrow> slab_next m' Q = slab_next m Q"
    "pages_ok pm (S(P \<mapsto> (i, ys))) W" "objects_ok (S(P \<mapsto> (i, ys))) (L - {(a, z)})" "kept (L - {(a, z)}) W m m'"
proof -
  note at = slab_at [OF m P(1)]
  have dP: "P \<in> dom S" using P(1) by auto
  have cell: "y \<in> insert a (set xs) \<Longrightarrow> y \<in> objs P (csize i)" for y using P(2,3) at(7) by auto
  have out: "m' b = m b" if "b \<notin> page_bytes P" for b
  proof -
    have "b \<notin> {y..<y + 8}" if "y \<in> insert a (set xs)" for y using objs_bounds [OF at(3) cell [OF that]] \<open>b \<notin> page_bytes P\<close> by auto
    moreover have "b \<notin> {P..<P + 32}" using that by auto
    ultimately show ?thesis using eq by blast
  qed
  show "slabs_ok m' (S(P \<mapsto> (i, ys)))" by (rule slabs_ok_upd(1) [OF p m dP at(1) ok(1)]) (rule out)
  show "slab_next m' Q = slab_next m Q" if "Q \<in> dom S" "Q \<noteq> P" for Q
    by (rule slabs_ok_upd(2) [OF p m dP at(1) ok(1) out that])
  show "pages_ok pm (S(P \<mapsto> (i, ys))) W" by (rule pages_ok_dom [OF _ p]) (use P(1) in auto)
  show "objects_ok (S(P \<mapsto> (i, ys))) (L - {(a, z)})"
  proof (rule objectsI)
    fix b y assume b: "(b, y) \<in> L - {(a, z)}"
    obtain Q j us where Q: "S Q = Some (j, us)" "y = csize j" "b \<in> objs Q y" "b \<notin> set us" using objectsD [OF o, of b y] b by blast
    show "\<exists>P' i' xs'. (S(P \<mapsto> (i, ys))) P' = Some (i', xs') \<and> y = csize i' \<and> b \<in> objs P' y \<and> b \<notin> set xs'"
    proof (cases "Q = P")
      case True
      then have e: "j = i" "us = xs" using Q(1) P(1) by auto
      have "b \<noteq> a" using b Q(2) P(2) e(1) by blast
      then have "b \<notin> set ys" using Q(4) e(2) ok(2) by blast
      moreover have "(S(P \<mapsto> (i, ys))) P = Some (i, ys)" by simp
      ultimately show ?thesis using Q(2,3) True e(1) by blast
    next
      case False
      then have "(S(P \<mapsto> (i, ys))) Q = Some (j, us)" using Q(1) by simp
      then show ?thesis using Q(2-4) by blast
    qed
  qed
  have "m' u = m u" if h: "(b, y) \<in> L - {(a, z)}" "u \<in> {b..<b + y}" for b y u
  proof -
    obtain Q j us where Q: "S Q = Some (j, us)" "y = csize j" "b \<in> objs Q y" "b \<notin> set us" using objectsD [OF o, of b y] h(1) by blast
    have u: "u \<in> {Q + 32..<Q + PGSIZE}" using object_bytes [of j b Q u] slab_at(1) [OF m Q(1)] Q h(2) by simp
    show ?thesis
    proof (cases "Q = P")
      case False
      then have "u \<notin> page_bytes P" using other_page [OF p, of P Q u] P(1) Q(1) u by auto
      then show ?thesis by (rule out)
    next
      case True
      then have bo: "b \<in> objs P (csize i)" "y = csize i" "b \<notin> set xs" using Q P(1) by auto
      have "b \<noteq> a" using h(1) bo(2) P(2) by auto
      have "u \<notin> {v..<v + 8}" if "v \<in> insert a (set xs)" for v
      proof -
        have "v \<noteq> b" using that \<open>b \<noteq> a\<close> bo(3) by auto
        then show ?thesis using objs_apart [OF cell [OF that] bo(1)] objs_apart [OF bo(1) cell [OF that]] h(2) bo(2)
            table_sizes [OF at(3)] by (cases "v < b") auto
      qed
      moreover have "u \<notin> {P..<P + 32}" using u True by auto
      ultimately show ?thesis using eq by blast
    qed
  qed
  moreover have "m' u = m u" if "w \<in> W" "u \<in> page_bytes w" for w u
  proof (rule out)
    have "w \<noteq> P" using p that(1) dP by (auto simp: pages_ok_def)
    then show "u \<notin> page_bytes P" using other_page [OF p, of P w u] dP that by auto
  qed
  ultimately show "kept (L - {(a, z)}) W m m'" unfolding kept_def by blast
qed

lemma free_step:
  assumes inv: "slab_inv s S G L W" and a: "(a, z) \<in> L"
    and above: "slab_nfree (sl_mem s) (PGROUNDDOWN a) \<noteq> 0" "slab_object (sl_mem s) (PGROUNDDOWN a) < a"
  shows "\<exists>s' S'. slab_free a s = Some s' \<and> slab_inv s' S' G (L - {(a, z)}) W \<and> kept (L - {(a, z)}) W (sl_mem s) (sl_mem s') \<and>
    sl_boot_page s' = sl_boot_page s \<and> slab_nfree (sl_mem s') (PGROUNDDOWN a) = Suc (slab_nfree (sl_mem s) (PGROUNDDOWN a))"
proof -
  have I: "pages_ok (sl_pm s) S W" "slabs_ok (sl_mem s) S" "objects_ok S L" "\<And>j. j < 8 \<Longrightarrow> cache_ok (sl_mem s) S (sl_caches s j) j (G j)"
    using inv by (auto simp: slab_inv_def)
  obtain P i xs0 where P: "S P = Some (i, xs0)" "z = csize i" "a \<in> objs P z" "a \<notin> set xs0" using objectsD [OF I(3) a] by blast
  note at = slab_at [OF I(2) P(1)]
  note pg = object_page [OF at(1) P(3) [unfolded P(2)] at(4,6)]
  have "xs0 \<noteq> []" using above(1) at(2) unfolding pg(1) by (auto simp: slab_ok_def)
  then obtain x xs where xs: "xs0 = x # xs" by (cases xs0) auto
  have f: "slab_magic (sl_mem s) P = SLAB_MAGIC" "slab_objsize (sl_mem s) P = csize i" "slab_object (sl_mem s) P = x"
    "slab_nfree (sl_mem s) P = length (x # xs)" using at(2) xs by (auto simp: slab_ok_def)
  obtain m' where m': "put_back P a (sl_mem s) = Some m'" "slab_ok m' P (csize i) (insort a (x # xs))" "slab_next m' P = slab_next (sl_mem s) P"
    "\<forall>b. b \<notin> {P..<P + 32} \<and> (\<forall>y \<in> set (a # x # xs). b \<notin> {y..<y + 8}) \<longrightarrow> m' b = sl_mem s b"
    using put_back_ok [OF at(2) [unfolded xs] at(3) P(3) [unfolded P(2)]] P(4) above(2) f(3) unfolding xs pg(1) by auto
  let ?S = "S(P \<mapsto> (i, insort a (x # xs)))" and ?s = "upd_mem (\<lambda>_. m') s"
  have set: "set (insort a (x # xs)) = insert a (set xs0)" by (simp only: set_insort_key xs)
  have eq: "\<forall>b. b \<notin> {P..<P + 32} \<and> (\<forall>y \<in> insert a (set xs0). b \<notin> {y..<y + 8}) \<longrightarrow> m' b = sl_mem s b"
    using m'(4) by (simp add: xs)
  note r = release_parts [OF I(1-3) P(1-3) m'(2) set eq]
  have nx: "slab_next m' Q = slab_next (sl_mem s) Q" if "Q \<in> dom S" for Q
    using r(2) [OF that] m'(3) by (cases "Q = P") auto
  have cs: "cache_ok m' ?S (sl_caches s j) j (G j)" if "j < 8" for j
    by (rule cache_ok_step [OF I(4) [OF that] nx]) (use P(1) xs in \<open>auto split: if_splits\<close>)
  have "slab_free a s = Some ?s"
    using above f pg m'(1) unfolding slab_free_def Let_def by simp
  moreover have "slab_inv ?s ?S G (L - {(a, z)}) W" using r(1,3,4) cs by (simp add: slab_inv_def)
  moreover have "slab_nfree m' P = Suc (slab_nfree (sl_mem s) P)" using m'(2) f(4) by (simp add: slab_ok_def)
  ultimately show ?thesis using r(5) pg(1) by (intro exI [of _ ?s] exI [of _ ?S]) (simp add: upd_mem_def)
qed

text \<open>
  The release of an object of a full slab: the code takes the slab for the first of the full list. It becomes the
  only slab with free objects of its cache if there was none.
\<close>

lemma free_full_step:
  assumes inv: "slab_inv s S G L W" and a: "(a, z) \<in> L" and n0: "slab_nfree (sl_mem s) (PGROUNDDOWN a) = 0"
    and c: "k < 8" "kc_size (sl_caches s k) = slab_objsize (sl_mem s) (PGROUNDDOWN a)" "full_slab (sl_caches s k) = PGROUNDDOWN a"
      "free_slab (sl_caches s k) = 0"
  shows "\<exists>s' S' G'. slab_free a s = Some s' \<and> slab_inv s' S' G' (L - {(a, z)}) W \<and> kept (L - {(a, z)}) W (sl_mem s) (sl_mem s') \<and>
    sl_boot_page s' = sl_boot_page s \<and> slab_nfree (sl_mem s') (PGROUNDDOWN a) = Suc (slab_nfree (sl_mem s) (PGROUNDDOWN a))"
proof -
  have I: "pages_ok (sl_pm s) S W" "slabs_ok (sl_mem s) S" "objects_ok S L" "\<And>j. j < 8 \<Longrightarrow> cache_ok (sl_mem s) S (sl_caches s j) j (G j)"
    using inv by (auto simp: slab_inv_def)
  obtain P i xs0 where P: "S P = Some (i, xs0)" "z = csize i" "a \<in> objs P z" "a \<notin> set xs0" using objectsD [OF I(3) a] by blast
  note at = slab_at [OF I(2) P(1)]
  note pg = object_page [OF at(1) P(3) [unfolded P(2)] at(4,6)]
  have xs: "xs0 = []" using n0 at(2) unfolding pg(1) by (auto simp: slab_ok_def)
  have f: "slab_magic (sl_mem s) P = SLAB_MAGIC" "slab_objsize (sl_mem s) P = csize i" using at(2) by (auto simp: slab_ok_def)
  have kc: "\<And>j. j < 8 \<Longrightarrow> kc_size (sl_caches s j) = csize j" using I(4) by (simp add: cache_ok_def)
  have "fine_kmem_cache (csize i) s = Some i" by (rule fine_ok [OF _ at(1)]) (rule kc)
  moreover have "fine_kmem_cache (csize k) s = Some k" by (rule fine_ok [OF _ c(1)]) (rule kc)
  ultimately have ki: "k = i" using c(2) kc [OF c(1)] f(2) unfolding pg(1) by simp
  note c' = c(3,4) [unfolded ki pg(1)] and ci = I(4) [OF at(1)]
  note ba = objs_bounds [OF at(3) P(3) [unfolded P(2)]]
  define m1 where "m1 = (set_slab_nfree P 1 \<circ> set_obj_next a 0 \<circ> set_slab_object P a) (sl_mem s)"
  define m' where "m' = set_slab_next P 0 m1"
  have h: "slab_object m' P = a" "slab_nfree m' P = 1" "obj_next m' a = 0" "slab_magic m' P = SLAB_MAGIC" "slab_objsize m' P = csize i"
    "slab_next m1 P = slab_next (sl_mem s) P" "slab_next m' P = 0" "slab_objsize m1 P = csize i"
    using f ba pg(3) unfolding m'_def m1_def by (simp_all add: fields cells unat_of_nat64)
  have ok: "slab_ok m' P (csize i) [a]" using h at(4-6) P(2,3) ba by (auto simp: slab_ok_def)
  have set: "set [a] = insert a (set xs0)" by (simp add: xs)
  have eq: "\<forall>b. b \<notin> {P..<P + 32} \<and> (\<forall>y \<in> insert a (set xs0). b \<notin> {y..<y + 8}) \<longrightarrow> m' b = sl_mem s b"
    unfolding m'_def m1_def by (auto simp: fields write64_def write32_def)
  note r = release_parts [OF I(1-3) P(1-3) ok set eq]
  let ?S = "S(P \<mapsto> (i, [a]))"
  obtain gs where G: "G i = P # gs" using ci c'(1) at(5) by (cases "G i") (auto simp: cache_ok_def)
  define s' where "s' = upd_cache i (\<lambda>c. c\<lparr>free_slab := P\<rparr>) (upd_cache i (\<lambda>c. c\<lparr>full_slab := slab_next m1 P\<rparr>) (upd_mem (\<lambda>_. m') s))"
  have e: "add32 (slab_nfree (sl_mem s) P) 1 = 1" using n0 unfolding pg(1) by (simp add: add32_def)
  define s1 where "s1 = upd_mem (\<lambda>_. m1) s"
  have s1: "upd_mem (set_slab_nfree P 1 \<circ> set_obj_next a 0 \<circ> set_slab_object P a) s = s1" by (simp add: s1_def m1_def upd_mem_def)
  have s1f: "sl_mem s1 = m1" "free_slab (sl_caches s1 i) = 0" using c'(2) by (simp_all add: s1_def upd_mem_def)
  have fk: "fine_kmem_cache (csize i) s1 = Some i" by (rule fine_ok [OF _ at(1)]) (simp add: s1_def kc)
  have "slab_free a s = Some (upd_cache i (\<lambda>c. c\<lparr>free_slab := P\<rparr>) (upd_mem (set_slab_next P 0) (upd_cache i (\<lambda>c. c\<lparr>full_slab := slab_next m1 P\<rparr>) s1)))"
    unfolding slab_free_def Let_def pg(1) f e s1 s1f h(8) fk using pg(2) n0 [unfolded pg(1)] s1f by (simp add: upd_cache_def)
  also have "\<dots> = Some s'" by (simp add: s'_def s1_def m'_def upd_mem_def upd_cache_def)
  finally have "slab_free a s = Some s'" .
  moreover have "slab_inv s' ?S (G(i := gs)) (L - {(a, z)}) W"
  proof -
    have d: "distinct (P # gs)" "\<forall>Q \<in> set (P # gs). S Q = Some (i, [])" "schain (sl_mem s) P (P # gs)"
      using ci c'(1) G by (auto simp: cache_ok_def)
    have "schain m' (slab_next (sl_mem s) P) gs = schain (sl_mem s) (slab_next (sl_mem s) P) gs"
      by (rule schain_cong, rule r(2)) (use d(1,2) in auto)
    then have ci': "cache_ok m' ?S (sl_caches s' i) i gs"
      using d h(6,7) kc [OF at(1)] by (auto simp: cache_ok_def s'_def)
    have other: "cache_ok m' ?S (sl_caches s j) j (G j)" if j: "j < 8" "j \<noteq> i" for j
    proof -
      have "Q \<noteq> P" if "S Q = Some (j, us)" for Q us using that P(1) j(2) by auto
      then have nx: "slab_next m' Q = slab_next (sl_mem s) Q" "?S Q = S Q" if "S Q = Some (j, us)" for Q us using r(2) that by (auto simp: dom_def)
      note cj = I(4) [OF j(1)]
      have "schain m' (full_slab (sl_caches s j)) (G j) = schain (sl_mem s) (full_slab (sl_caches s j)) (G j)"
        by (rule schain_cong) (use cj nx in \<open>auto simp: cache_ok_def\<close>)
      then show ?thesis using cj nx unfolding cache_ok_def by metis
    qed
    have "cache_ok m' ?S (sl_caches s' j) j ((G(i := gs)) j)" if "j < 8" for j
      using ci' other [OF that] by (cases "j = i") (auto simp: s'_def)
    then show ?thesis using r(1,3,4) by (simp add: slab_inv_def s'_def)
  qed
  moreover have "sl_mem s' = m'" "sl_boot_page s' = sl_boot_page s" by (simp_all add: s'_def upd_mem_def upd_cache_def)
  ultimately show ?thesis using r(5) h(2) n0 unfolding pg(1) by (intro exI [of _ s'] exI [of _ ?S] exI [of _ "G(i := gs)"]) simp
qed

section \<open>Initialisation\<close>

text \<open>
  After \<open>n\<close> rounds of the loop: the caches made so far have one slab each, all of whose objects are free, and
  the boot page belongs to nobody else.
\<close>

definition init_ok :: "nat \<Rightarrow> slab_allocator \<Rightarrow> slabs \<Rightarrow> addr set \<Rightarrow> bool" where
  "init_ok n s S W \<longleftrightarrow> pages_ok (sl_pm s) S (insert (sl_boot_page s) W) \<and> sl_boot_page s \<notin> W \<and> sl_boot_page s \<noteq> 0 \<and>
     sl_alloc_count s = 152 + 24 * n \<and> slabs_ok (sl_mem s) S \<and>
     (\<forall>i < n. cache_ok (sl_mem s) S (sl_caches s i) i [] \<and> free_slab (sl_caches s i) \<noteq> 0 \<and>
        S (free_slab (sl_caches s i)) = Some (i, slab_objects (free_slab (sl_caches s i)) (csize i)))"

lemma boot_write:
  assumes "init_ok n s S W" "\<And>b. b \<notin> page_bytes (sl_boot_page s) \<Longrightarrow> m' b = sl_mem s b"
  shows "slabs_ok m' S" "\<And>Q. Q \<in> dom S \<Longrightarrow> slab_next m' Q = slab_next (sl_mem s) Q"
proof -
  let ?B = "sl_boot_page s"
  have p: "pages_ok (sl_pm s) S (insert ?B W)" and m: "slabs_ok (sl_mem s) S" using assms(1) by (auto simp: init_ok_def)
  have same: "m' x = sl_mem s x" if "Q \<in> dom S" "x \<in> page_bytes Q" for Q x
  proof (rule assms(2))
    have "?B \<noteq> Q" using p that(1) by (auto simp: pages_ok_def)
    then show "x \<notin> page_bytes ?B" using other_page [OF p, of ?B Q x] that by auto
  qed
  show "slab_next m' Q = slab_next (sl_mem s) Q" if "Q \<in> dom S" for Q by (rule slab_next_cong) (use same that in auto)
  have "slab_ok m' Q (csize j) ys" if "S Q = Some (j, ys)" for Q j ys
    by (rule slab_ok_cong [OF slab_at(3) [OF m that] _ slab_at(2) [OF m that]]) (use same that in auto)
  then show "slabs_ok m' S" using m by (auto simp: slabs_ok_def)
qed

lemma init_round:
  assumes ok: "init_ok n s S W" and n: "n < 8" and av: "0 < free_count (sl_pm s)"
  shows "\<exists>s1 P s2 S'. simple_alloc 24 s = Some (sl_boot_page s + sl_alloc_count s, s1) \<and> create_slab_with_size (csize n) s1 = Some (P, s2) \<and>
    init_ok (Suc n) (upd_cache n (\<lambda>_. \<lparr>free_slab = P, full_slab = 0, kc_size = csize n\<rparr>) s2) S' W \<and>
    free_count (sl_pm s2) = free_count (sl_pm s) - 1"
proof -
  let ?B = "sl_boot_page s" and ?p = "sl_boot_page s + sl_alloc_count s"
  have ct: "sl_alloc_count s = 152 + 24 * n" "?B \<noteq> 0" "?B \<notin> W" and p: "pages_ok (sl_pm s) S (insert ?B W)" using ok by (auto simp: init_ok_def)
  have wf: "buddy_wf (sl_pm s)" and lb: "(?B, 0) \<in> live_blocks (sl_pm s)" using p by (auto simp: pages_ok_def)
  have bi: "?B + PGSIZE - 1 \<in> block_bytes (?B, 0)" by (simp add: block_bytes_def)
  have "?B + PGSIZE \<le> 2 ^ 64" using live_in_region [OF wf lb bi] inv_geom [OF wf] by (auto simp: buddy_geom_def)
  then have le: "?p + 24 \<le> 2 ^ 64" "?p + 24 \<le> ?B + PGSIZE" using ct(1) n by auto
  define s1 where "s1 = (upd_mem (\<lambda>m. memset m ?p 0 24) s)\<lparr>sl_alloc_count := sl_alloc_count s + 24\<rparr>"
  have sa: "simple_alloc 24 s = Some (?p, s1)" using ct n by (simp add: simple_alloc_def Let_def s1_def)
  have o1: "sl_mem s1 b = sl_mem s b" if "b \<notin> page_bytes ?B" for b
    using that le by (auto simp: s1_def memset_apply)
  note w = boot_write [OF ok o1]
  have p1: "pages_ok (sl_pm s1) S (insert ?B W)" using p by (simp add: s1_def)
  have e1: "sl_caches s1 = sl_caches s" "sl_boot_page s1 = ?B" "free_count (sl_pm s1) = free_count (sl_pm s)" by (simp_all add: s1_def upd_mem_def)
  have "objects_ok S {}" "0 < free_count (sl_pm s1)" using av e1(3) by (simp_all add: objects_ok_def)
  then obtain P s2 where c: "create_slab_with_size (csize n) s1 = Some (P, s2)" "P \<notin> dom S \<union> insert ?B W" "P \<noteq> 0" "sl_caches s2 = sl_caches s1"
    "free_count (sl_pm s2) = free_count (sl_pm s1) - 1" "sl_boot_page s2 = sl_boot_page s1" "sl_alloc_count s2 = sl_alloc_count s1"
    "pages_ok (sl_pm s2) (S(P \<mapsto> (n, slab_objects P (csize n)))) (insert ?B W)"
    "slabs_ok (sl_mem s2) (S(P \<mapsto> (n, slab_objects P (csize n))))"
    "slab_next (sl_mem s2) P = 0" "\<And>Q. Q \<in> dom S \<Longrightarrow> slab_next (sl_mem s2) Q = slab_next (sl_mem s1) Q"
    using create_parts [OF p1 w(1) _ n] by metis
  let ?S = "S(P \<mapsto> (n, slab_objects P (csize n)))" and ?s = "upd_cache n (\<lambda>_. \<lparr>free_slab = P, full_slab = 0, kc_size = csize n\<rparr>) s2"
  have ne: "slab_objects P (csize n) \<noteq> []" using table_sizes [OF csize_in [OF n]] slab_objects_props(2) [of P "csize n"] by auto
  have old: "cache_ok (sl_mem s2) ?S (sl_caches s i) i [] \<and> free_slab (sl_caches s i) \<noteq> 0 \<and>
      ?S (free_slab (sl_caches s i)) = Some (i, slab_objects (free_slab (sl_caches s i)) (csize i))" if "i < n" for i
  proof -
    have i: "cache_ok (sl_mem s) S (sl_caches s i) i []" "free_slab (sl_caches s i) \<noteq> 0"
      "S (free_slab (sl_caches s i)) = Some (i, slab_objects (free_slab (sl_caches s i)) (csize i))" using ok that by (auto simp: init_ok_def)
    have "cache_ok (sl_mem s2) ?S (sl_caches s i) i []" by (rule cache_ok_step [OF i(1)]) (use c(2,11) w(2) in auto)
    moreover have "free_slab (sl_caches s i) \<noteq> P" using i(3) c(2) by auto
    ultimately show ?thesis using i by simp
  qed
  have "init_ok (Suc n) ?s ?S W"
    unfolding init_ok_def
  proof (intro conjI allI impI)
    fix i assume i: "i < Suc n"
    have new: "cache_ok (sl_mem ?s) ?S (sl_caches ?s n) n []"
      using c(3,10) ne by (cases "slab_objects P (csize n)") (auto simp: cache_ok_def)
    show "cache_ok (sl_mem ?s) ?S (sl_caches ?s i) i []" "free_slab (sl_caches ?s i) \<noteq> 0"
      "?S (free_slab (sl_caches ?s i)) = Some (i, slab_objects (free_slab (sl_caches ?s i)) (csize i))"
      using old [of i] new i c(3,4) e1(1) by (auto simp: less_Suc_eq)
  qed (use c(6-9) e1 ct in \<open>auto simp: s1_def upd_cache_def upd_mem_def\<close>)
  then show ?thesis using sa c(1,5) e1(3) by (intro exI [of _ s1] exI [of _ P] exI [of _ s2] exI [of _ ?S]) simp
qed

lemma init_caches_ok:
  "n \<le> 8 \<Longrightarrow> init_ok n s S W \<Longrightarrow> 8 - n \<le> free_count (sl_pm s) \<Longrightarrow>
   \<exists>s' S'. init_caches [n..<8] s = Some s' \<and> init_ok 8 s' S' W \<and> free_count (sl_pm s') = free_count (sl_pm s) - (8 - n)"
proof (induction "8 - n" arbitrary: n s S)
  case 0
  then have "n = 8" by simp
  then show ?case using 0 by auto
next
  case (Suc k)
  then have n: "n < 8" "0 < free_count (sl_pm s)" by auto
  obtain s1 P s2 S' where r: "simple_alloc 24 s = Some (sl_boot_page s + sl_alloc_count s, s1)" "create_slab_with_size (csize n) s1 = Some (P, s2)"
    "init_ok (Suc n) (upd_cache n (\<lambda>_. \<lparr>free_slab = P, full_slab = 0, kc_size = csize n\<rparr>) s2) S' W"
    "free_count (sl_pm s2) = free_count (sl_pm s) - 1" using init_round [OF Suc.prems(2) n] by blast
  let ?s = "upd_cache n (\<lambda>_. \<lparr>free_slab = P, full_slab = 0, kc_size = csize n\<rparr>) s2"
  have "\<exists>s' S'. init_caches [Suc n..<8] ?s = Some s' \<and> init_ok 8 s' S' W \<and> free_count (sl_pm s') = free_count (sl_pm ?s) - (8 - Suc n)"
    by (rule Suc.hyps(1)) (use Suc r(3,4) in auto)
  then have "\<exists>s' S'. init_caches [Suc n..<8] ?s = Some s' \<and> init_ok 8 s' S' W \<and> free_count (sl_pm s') = free_count (sl_pm s) - (8 - n)"
    using r(4) n(1) by (simp add: Suc_diff_Suc [symmetric])
  moreover have "[n..<8] = n # [Suc n..<8]" using n(1) by (rule upt_conv_Cons)
  ultimately show ?case using r by simp
qed

lemma slab_init_ok:
  assumes wf: "buddy_wf (sl_pm s)" "\<not> bs_lock (sl_pm s)" and ct: "sl_alloc_count s = PGSIZE" and av: "9 \<le> free_count (sl_pm s)"
    and W: "\<And>w. w \<in> W \<Longrightarrow> (w, 0) \<in> live_blocks (sl_pm s)"
  shows "\<exists>s' S'. slab_init s = Some s' \<and> init_ok 8 s' S' W \<and> free_count (sl_pm s') = free_count (sl_pm s) - 9"
proof -
  have av1: "0 < free_count (sl_pm s)" using av by simp
  obtain B pm where a: "pmem_alloc_pages (sl_pm s) 1 = Some (B, pm)" "buddy_wf pm" "\<not> bs_lock pm" "0 < B"
    "B \<notin> frames (sl_pm s)" "free_count pm = free_count (sl_pm s) - 1" "live_blocks pm = insert (B, 0) (live_blocks (sl_pm s))"
    using alloc_one_frame [OF wf av1] by blast
  define s1 where "s1 = (upd_mem (\<lambda>m. memset m B 0 152) (s\<lparr>sl_pm := pm, sl_boot_page := B, sl_alloc_count := 0\<rparr>))\<lparr>sl_alloc_count := 152\<rparr>"
  have sa: "simple_alloc 152 s = Some (B, s1)" using a(1,4) ct by (simp add: simple_alloc_def Let_def s1_def)
  have "B \<notin> W" using W a(5) live_frame by blast
  then have "init_ok 0 s1 (\<lambda>_. None) W"
    using a(2-4,7) W by (auto simp: init_ok_def pages_ok_def slabs_ok_def s1_def upd_mem_def)
  moreover have "8 - 0 \<le> free_count (sl_pm s1)" using av a(6) by (simp add: s1_def)
  moreover have "free_count (sl_pm s1) = free_count (sl_pm s) - 1" using a(6) by (simp add: s1_def)
  ultimately show ?thesis using init_caches_ok [of 0 s1] sa unfolding slab_init_def by auto
qed

section \<open>The kernel around the allocator\<close>

text \<open>
  Clients allocate objects of up to 1024 bytes, write into them, and release them where \<^verbatim>\<open>slab_free\<close> works
  (\<open>releasable\<close>): above the first free object of their slab, or in a full slab that is the first of the full list of its cache
  while no slab of the cache has a free object; other code allocates pages, writes into them and frees them. \<open>L\<close> are the objects in
  use with their sizes, \<open>W\<close> the pages of other code.
\<close>

definition releasable :: "slab_allocator \<Rightarrow> addr \<Rightarrow> bool" where
  "releasable s a \<longleftrightarrow>
     (let slab = PGROUNDDOWN a; m = sl_mem s
      in if slab_nfree m slab \<noteq> 0 then slab_object m slab < a
         else \<exists>k < 8. kc_size (sl_caches s k) = slab_objsize m slab \<and> full_slab (sl_caches s k) = slab \<and> free_slab (sl_caches s k) = 0)"

inductive slab_run :: "slab_allocator \<Rightarrow> (addr \<times> nat) set \<Rightarrow> addr set \<Rightarrow> bool" where
  boot: "buddy_wf (sl_pm s) \<Longrightarrow> \<not> bs_lock (sl_pm s) \<Longrightarrow> sl_alloc_count s = PGSIZE \<Longrightarrow> 9 \<le> free_count (sl_pm s) \<Longrightarrow>
    W \<subseteq> live_structs (sl_pm s) \<Longrightarrow> slab_init s = Some s' \<Longrightarrow> slab_run s' {} W"
| alloc: "slab_run s L W \<Longrightarrow> z \<le> 1024 \<Longrightarrow> 0 < free_count (sl_pm s) \<Longrightarrow> slab_alloc z s = Some (a, s') \<Longrightarrow>
    slab_run s' (insert (a, slab_size z) L) W"
| free: "slab_run s L W \<Longrightarrow> (a, z) \<in> L \<Longrightarrow> releasable s a \<Longrightarrow> slab_free a s = Some s' \<Longrightarrow> slab_run s' (L - {(a, z)}) W"
| store: "slab_run s L W \<Longrightarrow> (a, z) \<in> L \<Longrightarrow> x \<in> {a..<a + z} \<Longrightarrow> slab_run (upd_mem (\<lambda>m. m(x := v)) s) L W"
| page_alloc: "slab_run s L W \<Longrightarrow> 0 < free_count (sl_pm s) \<Longrightarrow> pmem_alloc_pages (sl_pm s) 1 = Some (w, pm) \<Longrightarrow>
    slab_run (s\<lparr>sl_pm := pm\<rparr>) L (insert w W)"
| page_store: "slab_run s L W \<Longrightarrow> w \<in> W \<Longrightarrow> x \<in> page_bytes w \<Longrightarrow> slab_run (upd_mem (\<lambda>m. m(x := v)) s) L W"
| page_free: "slab_run s L W \<Longrightarrow> w \<in> W \<Longrightarrow> pmem_free_pages (sl_pm s) w 1 = Some pm \<Longrightarrow> slab_run (s\<lparr>sl_pm := pm\<rparr>) L (W - {w})"

lemma inv_pages:
  assumes inv: "slab_inv s S G L W" and p: "pages_ok pm S W'" and same: "\<And>Q x. Q \<in> dom S \<Longrightarrow> x \<in> page_bytes Q \<Longrightarrow> bs_mem pm x = sl_mem s x"
  shows "slab_inv (s\<lparr>sl_pm := pm\<rparr>) S G L W'"
proof -
  have I: "slabs_ok (sl_mem s) S" "objects_ok S L" "\<And>j. j < 8 \<Longrightarrow> cache_ok (sl_mem s) S (sl_caches s j) j (G j)"
    using inv by (auto simp: slab_inv_def)
  have "slab_ok (bs_mem pm) Q (csize j) ys" if "S Q = Some (j, ys)" for Q j ys
    by (rule slab_ok_cong [OF slab_at(3) [OF I(1) that] _ slab_at(2) [OF I(1) that]]) (use same that in auto)
  then have "slabs_ok (bs_mem pm) S" using I(1) by (auto simp: slabs_ok_def)
  moreover have "slab_next (bs_mem pm) Q = slab_next (sl_mem s) Q" if "Q \<in> dom S" for Q
    by (rule slab_next_cong) (use same that in auto)
  then have "cache_ok (bs_mem pm) S (sl_caches s j) j (G j)" if "j < 8" for j by (rule cache_ok_step [OF I(3) [OF that]]) auto
  ultimately show ?thesis using p I(2) by (simp add: slab_inv_def)
qed

lemma inv_store:
  assumes inv: "slab_inv s S G L W" and a: "(a, z) \<in> L" "x \<in> {a..<a + z}"
  shows "slab_inv (upd_mem (\<lambda>m. m(x := v)) s) S G L W"
proof -
  have I: "pages_ok (sl_pm s) S W" "slabs_ok (sl_mem s) S" "objects_ok S L" "\<And>j. j < 8 \<Longrightarrow> cache_ok (sl_mem s) S (sl_caches s j) j (G j)"
    using inv by (auto simp: slab_inv_def)
  let ?m = "(sl_mem s)(x := v)"
  obtain P i xs where P: "S P = Some (i, xs)" "z = csize i" "a \<in> objs P z" "a \<notin> set xs" using objectsD [OF I(3) a(1)] by blast
  note at = slab_at [OF I(2) P(1)]
  have xp: "x \<in> {P + 32..<P + PGSIZE}" using object_bytes [of i a P x] P a(2) at(1) by simp
  have 64: "read64 ?m b = read64 (sl_mem s) b" if "x \<notin> {b..<b + 8}" for b by (rule read64_cong) (use that in auto)
  have 32: "read32 ?m b = read32 (sl_mem s) b" if "x \<notin> {b..<b + 4}" for b by (rule read32_cong) (use that in auto)
  have "obj_next ?m y = obj_next (sl_mem s) y" if "y \<in> set xs" for y
  proof -
    have y: "y \<in> objs P z" "y \<noteq> a" using that P at(7) by auto
    then have "x \<notin> {y..<y + 8}" using objs_apart [OF y(1) P(3)] objs_apart [OF P(3) y(1)] a(2) table_sizes [OF at(3)] P(2) by (cases "y < a") auto
    then show ?thesis unfolding obj_next_def using 64 [of y] by simp
  qed
  then have "ochain ?m h xs = ochain (sl_mem s) h xs" for h by (rule ochain_cong)
  moreover have "slab_magic ?m P = slab_magic (sl_mem s) P" "slab_objsize ?m P = slab_objsize (sl_mem s) P" "slab_nfree ?m P = slab_nfree (sl_mem s) P"
    "slab_object ?m P = slab_object (sl_mem s) P" and nP: "slab_next ?m P = slab_next (sl_mem s) P"
    using xp unfolding slab_magic_def slab_objsize_def slab_nfree_def slab_object_def slab_next_def by (auto simp: 64 32)
  ultimately have ok: "slab_ok ?m P (csize i) xs" using at(2) unfolding slab_ok_def by metis
  have out: "?m b = sl_mem s b" if "b \<notin> page_bytes P" for b using xp that by auto
  have dP: "P \<in> dom S" using P(1) by auto
  have sl: "slabs_ok ?m (S(P \<mapsto> (i, xs)))" by (rule slabs_ok_upd(1) [OF I(1,2) dP at(1) ok]) (rule out)
  have "slab_next ?m Q = slab_next (sl_mem s) Q" if "Q \<in> dom S" for Q
  proof (cases "Q = P")
    case False
    show ?thesis by (rule slabs_ok_upd(2) [OF I(1,2) dP at(1) ok _ that False]) (rule out)
  qed (simp only: nP)
  then have "cache_ok ?m S (sl_caches s j) j (G j)" if "j < 8" for j by (rule cache_ok_step [OF I(4) [OF that]]) auto
  moreover have "S(P \<mapsto> (i, xs)) = S" using P(1) by (simp add: fun_upd_idem)
  ultimately show ?thesis using sl I(1,3) by (simp add: slab_inv_def)
qed

definition run_ok :: "slab_allocator \<Rightarrow> (addr \<times> nat) set \<Rightarrow> addr set \<Rightarrow> bool" where
  "run_ok s L W \<longleftrightarrow> (\<exists>S G. slab_inv s S G L (insert (sl_boot_page s) W) \<and> sl_boot_page s \<notin> W)"

lemma alloc_boot: "alloc_from_kmem_cache i s = Some (a, s') \<Longrightarrow> sl_boot_page s' = sl_boot_page s"
  by (auto simp: alloc_from_kmem_cache_def move_to_full_def create_slab_with_size_def Let_def upd_mem_def upd_cache_def
      split: if_splits option.splits)

lemma run_alloc:
  assumes ok: "run_ok s L W" and z: "z \<le> 1024" and av: "0 < free_count (sl_pm s)"
  shows "\<exists>a s'. slab_alloc z s = Some (a, s') \<and> run_ok s' (insert (a, slab_size z) L) W \<and> (a, slab_size z) \<notin> L \<and> a \<noteq> 0 \<and>
    kept L W (sl_mem s) (sl_mem s')"
proof -
  obtain S G where S: "slab_inv s S G L (insert (sl_boot_page s) W)" "sl_boot_page s \<notin> W" using ok by (auto simp: run_ok_def)
  obtain i where i: "i < 8" "slab_size z = csize i" "slab_alloc z s = alloc_from_kmem_cache i s" by (rule slab_alloc_small [OF S(1) z])
  obtain a s' S' G' where a: "alloc_from_kmem_cache i s = Some (a, s')" "slab_inv s' S' G' (insert (a, csize i) L) (insert (sl_boot_page s) W)"
    "(a, csize i) \<notin> L" "a \<noteq> 0" "kept L (insert (sl_boot_page s) W) (sl_mem s) (sl_mem s')" using alloc_step [OF S(1) i(1) av] by blast
  have "run_ok s' (insert (a, csize i) L) W" using a(2) S(2) alloc_boot [OF a(1)] unfolding run_ok_def by metis
  moreover have "kept L W (sl_mem s) (sl_mem s')" using a(5) by (simp add: kept_def)
  ultimately show ?thesis using i a by auto
qed

lemma run_free:
  assumes ok: "run_ok s L W" and a: "(a, z) \<in> L" "releasable s a"
  shows "\<exists>s'. slab_free a s = Some s' \<and> run_ok s' (L - {(a, z)}) W \<and> kept (L - {(a, z)}) W (sl_mem s) (sl_mem s') \<and>
    slab_nfree (sl_mem s') (PGROUNDDOWN a) = Suc (slab_nfree (sl_mem s) (PGROUNDDOWN a))"
proof -
  obtain S G where S: "slab_inv s S G L (insert (sl_boot_page s) W)" "sl_boot_page s \<notin> W" using ok by (auto simp: run_ok_def)
  have "\<exists>s' S' G'. slab_free a s = Some s' \<and> slab_inv s' S' G' (L - {(a, z)}) (insert (sl_boot_page s) W) \<and>
    kept (L - {(a, z)}) (insert (sl_boot_page s) W) (sl_mem s) (sl_mem s') \<and> sl_boot_page s' = sl_boot_page s \<and>
    slab_nfree (sl_mem s') (PGROUNDDOWN a) = Suc (slab_nfree (sl_mem s) (PGROUNDDOWN a))"
  proof (cases "slab_nfree (sl_mem s) (PGROUNDDOWN a) = 0")
    case True
    then obtain k where "k < 8" "kc_size (sl_caches s k) = slab_objsize (sl_mem s) (PGROUNDDOWN a)" "full_slab (sl_caches s k) = PGROUNDDOWN a"
      "free_slab (sl_caches s k) = 0" using a(2) by (auto simp: releasable_def Let_def)
    from free_full_step [OF S(1) a(1) True this] show ?thesis .
  next
    case False
    then have "slab_object (sl_mem s) (PGROUNDDOWN a) < a" using a(2) by (simp add: releasable_def Let_def)
    from free_step [OF S(1) a(1) False this] show ?thesis by blast
  qed
  then obtain s' S' G' where s': "slab_free a s = Some s'" "slab_inv s' S' G' (L - {(a, z)}) (insert (sl_boot_page s) W)"
    "kept (L - {(a, z)}) (insert (sl_boot_page s) W) (sl_mem s) (sl_mem s')" "sl_boot_page s' = sl_boot_page s"
    "slab_nfree (sl_mem s') (PGROUNDDOWN a) = Suc (slab_nfree (sl_mem s) (PGROUNDDOWN a))" by blast
  then show ?thesis using S(2) by (intro exI [of _ s']) (auto simp: run_ok_def kept_def)
qed

lemma init_run: "init_ok 8 s S W \<Longrightarrow> run_ok s {} W"
  unfolding run_ok_def init_ok_def slab_inv_def
  by (intro exI [of _ S] exI [of _ "\<lambda>_. []"]) (simp add: objects_ok_def)

lemma run_invariant: "slab_run s L W \<Longrightarrow> run_ok s L W"
proof (induction rule: slab_run.induct)
  case (boot s W s')
  obtain t S where "slab_init s = Some t" "init_ok 8 t S W"
    using slab_init_ok [OF boot(1-4), of W] boot(5) by (auto simp: live_structs_def)
  then show ?case using boot(6) init_run by simp
next
  case (alloc s L W z a s') then show ?case using run_alloc [OF alloc.IH alloc.hyps(2,3)] by auto
next
  case (free s L W a z s') then show ?case using run_free [OF free.IH free.hyps(2,3)] by auto
next
  case (store s L W a z x v)
  then show ?case using inv_store by (fastforce simp: run_ok_def upd_mem_def)
next
  case (page_alloc s L W w pm)
  obtain S G where S: "slab_inv s S G L (insert (sl_boot_page s) W)" "sl_boot_page s \<notin> W" using page_alloc.IH by (auto simp: run_ok_def)
  have p: "pages_ok (sl_pm s) S (insert (sl_boot_page s) W)" using S(1) by (simp add: slab_inv_def)
  then have wf: "buddy_wf (sl_pm s)" "\<not> bs_lock (sl_pm s)" by (auto simp: pages_ok_def)
  have a: "buddy_wf pm" "\<not> bs_lock pm" "PGSIZE dvd w" "w \<notin> frames (sl_pm s)" "live_blocks pm = insert (w, 0) (live_blocks (sl_pm s))"
    "bs_mem pm = (\<lambda>x. if x \<in> page_bytes w then 0 else sl_mem s x)"
    using alloc_one_frame [OF wf page_alloc.hyps(2)] page_alloc.hyps(3) by auto
  have fresh: "w \<notin> dom S \<union> insert (sl_boot_page s) W" using a(4) live_frame p by (fastforce simp: pages_ok_def)
  have "pages_ok pm S (insert (sl_boot_page s) (insert w W))" using p a(1,2,5) fresh by (auto simp: pages_ok_def)
  moreover have "bs_mem pm x = sl_mem s x" if "Q \<in> dom S" "x \<in> page_bytes Q" for Q x
  proof -
    have "page_bytes w \<inter> page_bytes Q = {}" by (rule pages_apart [OF a(3) pages_ok_aligned [OF p]]) (use fresh that(1) in blast)+
    then show ?thesis using that(2) unfolding a(6) by auto
  qed
  ultimately have "slab_inv (s\<lparr>sl_pm := pm\<rparr>) S G L (insert (sl_boot_page s) (insert w W))" by (rule inv_pages [OF S(1)])
  then show ?case using S(2) fresh unfolding run_ok_def by (intro exI [of _ S] exI [of _ G]) auto
next
  case (page_store s L W w x v)
  obtain S G where S: "slab_inv s S G L (insert (sl_boot_page s) W)" "sl_boot_page s \<notin> W" using page_store.IH by (auto simp: run_ok_def)
  have p: "pages_ok (sl_pm s) S (insert (sl_boot_page s) W)" using S(1) by (simp add: slab_inv_def)
  let ?pm = "(sl_pm s)\<lparr>bs_mem := (sl_mem s)(x := v)\<rparr>"
  have "bs_mem ?pm y = sl_mem s y" if "Q \<in> dom S" "y \<in> page_bytes Q" for Q y
  proof -
    have "Q \<noteq> w" using p page_store.hyps(2) that(1) by (auto simp: pages_ok_def)
    then have "x \<notin> page_bytes Q" using other_page [OF p, of Q w x] that(1) page_store.hyps(2,3) by auto
    then show ?thesis using that(2) by auto
  qed
  then have "slab_inv (s\<lparr>sl_pm := ?pm\<rparr>) S G L (insert (sl_boot_page s) W)" using p by (intro inv_pages [OF S(1)]) simp_all
  then show ?case using S(2) unfolding run_ok_def upd_mem_def by (intro exI [of _ S] exI [of _ G]) simp
next
  case (page_free s L W w pm)
  obtain S G where S: "slab_inv s S G L (insert (sl_boot_page s) W)" "sl_boot_page s \<notin> W" using page_free.IH by (auto simp: run_ok_def)
  have p: "pages_ok (sl_pm s) S (insert (sl_boot_page s) W)" using S(1) by (simp add: slab_inv_def)
  then have wf: "buddy_wf (sl_pm s)" "\<not> bs_lock (sl_pm s)" "(w, 0) \<in> live_blocks (sl_pm s)" "w \<notin> dom S" "w \<noteq> sl_boot_page s"
    using page_free.hyps(2) S(2) by (auto simp: pages_ok_def)
  have f: "buddy_wf pm" "\<not> bs_lock pm" "bs_mem pm = sl_mem s" "live_blocks pm = live_blocks (sl_pm s) - {(w, 0)}"
    using pmem_free_struct [OF wf(1-3)] page_free.hyps(3) by auto
  have "pages_ok pm S (insert (sl_boot_page s) (W - {w}))" using p f(1,2,4) wf(4,5) by (auto simp: pages_ok_def)
  then have "slab_inv (s\<lparr>sl_pm := pm\<rparr>) S G L (insert (sl_boot_page s) (W - {w}))" by (rule inv_pages [OF S(1)]) (simp add: f(3))
  then show ?case using S(2) unfolding run_ok_def by (intro exI [of _ S] exI [of _ G]) simp
qed

section \<open>Properties\<close>

text \<open>
  C9: The slab allocator is safe as long as objects are released only where \<^verbatim>\<open>slab_free\<close> handles the release
  correctly: above the first free object of their slab, or in a full slab that is the first of the full list of its
  cache while no slab of the cache has a free object (the other releases corrupt its lists, at once or at a later allocation). In every
  state that allocations, such releases, writes into objects, and allocations, writes and releases of pages by
  other code reach from initialisation with at least nine free pages: objects in use are disjoint from each other and from the
  pages of other code; a request of up to 1024 bytes succeeds while a page is free, returns a new
  object of at least that size, and does not change the contents of any object in use; and such a release
  succeeds, gives its slab one more free object, and changes neither the other objects in use nor the pages of other code.
\<close>

theorem slab_client_safe:
  assumes "slab_run s L W"
  shows "(\<forall>(a, z) \<in> L. \<forall>(b, y) \<in> L. (a, z) \<noteq> (b, y) \<longrightarrow> {a..<a + z} \<inter> {b..<b + y} = {}) \<and>
    (\<forall>(a, z) \<in> L. \<forall>w \<in> W. {a..<a + z} \<inter> page_bytes w = {}) \<and>
    (\<forall>z. z \<le> 1024 \<and> 0 < free_count (sl_pm s) \<longrightarrow>
       (\<exists>a s'. slab_alloc z s = Some (a, s') \<and> a \<noteq> 0 \<and> z \<le> slab_size z \<and>
          (\<forall>(b, y) \<in> L. {a..<a + slab_size z} \<inter> {b..<b + y} = {} \<and> (\<forall>x \<in> {b..<b + y}. sl_mem s' x = sl_mem s x)) \<and>
          (\<forall>w \<in> W. {a..<a + slab_size z} \<inter> page_bytes w = {}))) \<and>
    (\<forall>(a, z) \<in> L. releasable s a \<longrightarrow>
       (\<exists>s'. slab_free a s = Some s' \<and> slab_nfree (sl_mem s') (PGROUNDDOWN a) = Suc (slab_nfree (sl_mem s) (PGROUNDDOWN a)) \<and>
          (\<forall>(b, y) \<in> L - {(a, z)}. \<forall>x \<in> {b..<b + y}. sl_mem s' x = sl_mem s x) \<and>
          (\<forall>w \<in> W. \<forall>x \<in> page_bytes w. sl_mem s' x = sl_mem s x)))"
proof -
  have dis: "(a, z) \<in> L \<Longrightarrow> (b, y) \<in> L \<Longrightarrow> (a, z) \<noteq> (b, y) \<Longrightarrow> {a..<a + z} \<inter> {b..<b + y} = {}"
      "(a, z) \<in> L \<Longrightarrow> w \<in> W \<Longrightarrow> {a..<a + z} \<inter> page_bytes w = {}" if r: "run_ok s L W" for s L a z b y w
  proof -
    obtain S G where S: "slab_inv s S G L (insert (sl_boot_page s) W)" using r by (auto simp: run_ok_def)
    then have I: "pages_ok (sl_pm s) S (insert (sl_boot_page s) W)" "slabs_ok (sl_mem s) S" "objects_ok S L" by (auto simp: slab_inv_def)
    show "(a, z) \<in> L \<Longrightarrow> (b, y) \<in> L \<Longrightarrow> (a, z) \<noteq> (b, y) \<Longrightarrow> {a..<a + z} \<inter> {b..<b + y} = {}" by (rule objects_disjoint [OF I])
    show "(a, z) \<in> L \<Longrightarrow> w \<in> W \<Longrightarrow> {a..<a + z} \<inter> page_bytes w = {}" by (rule object_page_disjoint [OF I]) auto
  qed
  have ok: "run_ok s L W" by (rule run_invariant [OF assms])
  have new: "\<exists>a s'. slab_alloc z s = Some (a, s') \<and> a \<noteq> 0 \<and> z \<le> slab_size z \<and>
      (\<forall>(b, y) \<in> L. {a..<a + slab_size z} \<inter> {b..<b + y} = {} \<and> (\<forall>x \<in> {b..<b + y}. sl_mem s' x = sl_mem s x)) \<and>
      (\<forall>w \<in> W. {a..<a + slab_size z} \<inter> page_bytes w = {})" if z: "z \<le> 1024" "0 < free_count (sl_pm s)" for z
  proof -
    obtain a s' where a: "slab_alloc z s = Some (a, s')" "run_ok s' (insert (a, slab_size z) L) W" "(a, slab_size z) \<notin> L" "a \<noteq> 0"
      "kept L W (sl_mem s) (sl_mem s')" using run_alloc [OF ok z] by blast
    have "z \<le> slab_size z" using slab_size_cache [OF z(1)] by auto
    moreover have "{a..<a + slab_size z} \<inter> {b..<b + y} = {} \<and> (\<forall>x \<in> {b..<b + y}. sl_mem s' x = sl_mem s x)" if "(b, y) \<in> L" for b y
    proof
      show "{a..<a + slab_size z} \<inter> {b..<b + y} = {}" by (rule dis(1) [OF a(2)]) (use that a(3) in auto)
      show "\<forall>x \<in> {b..<b + y}. sl_mem s' x = sl_mem s x" using a(5) that unfolding kept_def by blast
    qed
    moreover have "{a..<a + slab_size z} \<inter> page_bytes w = {}" if "w \<in> W" for w by (rule dis(2) [OF a(2) _ that]) simp
    ultimately show ?thesis using a(1,4) by blast
  qed
  have release: "\<exists>s'. slab_free a s = Some s' \<and> slab_nfree (sl_mem s') (PGROUNDDOWN a) = Suc (slab_nfree (sl_mem s) (PGROUNDDOWN a)) \<and>
      (\<forall>(b, y) \<in> L - {(a, z)}. \<forall>x \<in> {b..<b + y}. sl_mem s' x = sl_mem s x) \<and>
      (\<forall>w \<in> W. \<forall>x \<in> page_bytes w. sl_mem s' x = sl_mem s x)" if "(a, z) \<in> L" "releasable s a" for a z
    using run_free [OF ok that] unfolding kept_def by blast
  have disjoint: "\<forall>(a, z) \<in> L. \<forall>(b, y) \<in> L. (a, z) \<noteq> (b, y) \<longrightarrow> {a..<a + z} \<inter> {b..<b + y} = {}"
    using dis(1) [OF ok] by fastforce
  have apart: "\<forall>(a, z) \<in> L. \<forall>w \<in> W. {a..<a + z} \<inter> page_bytes w = {}" by clarify (rule dis(2) [OF ok])
  show ?thesis
  proof (intro conjI)
    show "\<forall>z. z \<le> 1024 \<and> 0 < free_count (sl_pm s) \<longrightarrow>
      (\<exists>a s'. slab_alloc z s = Some (a, s') \<and> a \<noteq> 0 \<and> z \<le> slab_size z \<and>
        (\<forall>(b, y) \<in> L. {a..<a + slab_size z} \<inter> {b..<b + y} = {} \<and> (\<forall>x \<in> {b..<b + y}. sl_mem s' x = sl_mem s x)) \<and>
        (\<forall>w \<in> W. {a..<a + slab_size z} \<inter> page_bytes w = {}))" by (intro allI impI, elim conjE) (rule new)
    show "\<forall>(a, z) \<in> L. releasable s a \<longrightarrow>
      (\<exists>s'. slab_free a s = Some s' \<and> slab_nfree (sl_mem s') (PGROUNDDOWN a) = Suc (slab_nfree (sl_mem s) (PGROUNDDOWN a)) \<and>
        (\<forall>(b, y) \<in> L - {(a, z)}. \<forall>x \<in> {b..<b + y}. sl_mem s' x = sl_mem s x) \<and>
        (\<forall>w \<in> W. \<forall>x \<in> page_bytes w. sl_mem s' x = sl_mem s x))" by (clarify, rule release)
  qed (rule disjoint apart)+
qed

text \<open>The walk through a list all of whose objects are above the released one ends at the last.\<close>

lemma find_place_below: "ochain m x (x # xs) \<Longrightarrow> (\<And>y. y \<in> set (x # xs) \<Longrightarrow> a < y) \<Longrightarrow> find_place m a x = Some (last (x # xs))"
proof (induction xs arbitrary: x)
  case Nil then show ?case by (subst find_place.simps) auto
next
  case (Cons y ys)
  have "find_place m a y = Some (last (y # ys))" by (rule Cons.IH) (use Cons.prems in auto)
  moreover have "\<not> x < a" using Cons.prems(2) [of x] by auto
  ultimately show ?case using Cons.prems(1) by (subst find_place.simps) auto
qed

lemma put_back_below:
  assumes ok: "slab_ok m P z (x # xs)" and z: "z \<in> set slab_size_table" and a: "a \<in> objs P z" "\<And>y. y \<in> set (x # xs) \<Longrightarrow> a < y"
  shows "\<exists>m'. put_back P a m = Some m' \<and> slab_object m' P = a \<and> obj_next m' a = 0 \<and> slab_nfree m' P = Suc (Suc (length xs)) \<and>
    slab_magic m' P = slab_magic m P \<and> slab_objsize m' P = slab_objsize m P"
proof -
  have c: "ochain m x (x # xs)" "slab_object m P = x" "slab_nfree m P = Suc (length xs)" "distinct (x # xs)" "set (x # xs) \<subseteq> objs P z"
    "PGSIZE dvd P" "P < 2 ^ 64" using ok by (auto simp: slab_ok_def)
  define m1 where "m1 = set_slab_object P a (set_obj_next a x m)"
  define l where "l = last (x # xs)"
  have lx: "l \<in> set (x # xs)" unfolding l_def by (rule last_in_set) simp
  then have l: "l \<in> objs P z" "l \<noteq> a" using c(5) a(2) [of l] by auto
  have n1: "obj_next m1 y = obj_next m y" if "y \<in> set (x # xs)" for y
  proof -
    have y: "y \<in> objs P z" "y \<noteq> a" using that c(5) a(2) [of y] by auto
    then show ?thesis unfolding m1_def using objs_distinct_cells [OF z a(1) y(1)] objs_bounds [OF z y(1)] by (auto simp: fields cells)
  qed
  then have "ochain m1 x (x # xs)" using c(1) ochain_cong [of "x # xs" m1 m x] by blast
  then have fp: "find_place m1 a x = Some l" unfolding l_def by (rule find_place_below) (rule a(2))
  have end0: "obj_next m l = 0"
  proof -
    have "ochain m h ys \<Longrightarrow> ys \<noteq> [] \<Longrightarrow> obj_next m (last ys) = 0" for h ys by (induction ys arbitrary: h) auto
    then show ?thesis using c(1) unfolding l_def by blast
  qed
  have "length (x # xs) \<le> card (objs P z)" using card_mono [OF _ c(5)] distinct_card [OF c(4)] by (auto simp: objs_def)
  also have "\<dots> \<le> object_num z" unfolding objs_def using card_image_le [of "{..<object_num z}"] by simp
  also have "\<dots> \<le> 4064" unfolding object_num_def using div_le_dividend [of "PGSIZE - 32" z] by simp
  finally have len: "add32 (slab_nfree m P) 1 = Suc (Suc (length xs))" unfolding c(3) add32_def by simp
  define m' where "m' = set_slab_nfree P (Suc (Suc (length xs))) (set_obj_next l a (set_obj_next a 0 m1))"
  have pb: "put_back P a m = Some m'"
    unfolding put_back_def c(2) Let_def len using a(2) [of x] fp n1 [OF lx] end0 by (simp add: m1_def m'_def)
  note ba = objs_bounds [OF z a(1)] and bl = objs_bounds [OF z l(1)] and al = objs_distinct_cells [OF z l(1) a(1) l(2)]
  have "a < 2 ^ 64" using ba(3) page_end [OF c(6,7)] by linarith
  then have "slab_object m' P = a" using ba bl unfolding m'_def m1_def by (simp add: fields cells unat_of_nat64)
  moreover have "obj_next m' a = 0"
  proof -
    have "obj_next m' a = obj_next (set_obj_next l a (set_obj_next a 0 m1)) a" using ba unfolding m'_def by (simp add: fields cells)
    also have "\<dots> = 0" using al by (simp add: obj_next_set)
    finally show ?thesis .
  qed
  moreover have "slab_nfree m' P = Suc (Suc (length xs))" using len c(3) unfolding m'_def by (simp add: fields add32_def)
  moreover have "slab_magic m' P = slab_magic m P" "slab_objsize m' P = slab_objsize m P"
    using ba bl unfolding m'_def m1_def by (simp_all add: fields cells)
  ultimately show ?thesis using pb by blast
qed

lemma upd_mem_cong: "f (sl_mem s) = m \<Longrightarrow> upd_mem f s = upd_mem (\<lambda>_. m) s"
  by (simp add: upd_mem_def)

lemma small_cache:
  assumes "z \<le> 1024" "\<And>i. i < 8 \<Longrightarrow> kc_size (sl_caches s i) = csize i" "i < 8" "slab_size z = csize i"
  shows "slab_alloc z s = alloc_from_kmem_cache i s"
  using fine_ok [OF assms(2,3)] assms(4) table_sizes [OF csize_in [OF assms(3)]] by (simp add: slab_alloc_def Let_def)

text \<open>
  C40: Releasing the object just allocated destroys the list of free objects of its slab: from the state
  after initialisation, for every size, one allocation, its release and two more allocations end in an
  access through \<^verbatim>\<open>NULL\<close>, although all other objects of the slab are free.
\<close>

theorem slab_free_loses_objects:
  assumes wf: "buddy_wf (sl_pm s)" "\<not> bs_lock (sl_pm s)" and ct: "sl_alloc_count s = PGSIZE" and av: "9 \<le> free_count (sl_pm s)" and z: "z \<le> 1024"
  shows "\<exists>s0 a s1 s2 s3. slab_init s = Some s0 \<and> slab_alloc z s0 = Some (a, s1) \<and> slab_free a s1 = Some s2 \<and>
    slab_alloc z s2 = Some (a, s3) \<and> slab_alloc z s3 = None"
proof -
  obtain s0 S where s0: "slab_init s = Some s0" "init_ok 8 s0 S {}" using slab_init_ok [OF wf ct av, of "{}"] by auto
  obtain i where i: "i < 8" "slab_size z = csize i" using slab_size_cache [OF z] by blast
  define P where "P = free_slab (sl_caches s0 i)"
  have P: "P \<noteq> 0" "S P = Some (i, slab_objects P (csize i))" and m0: "slabs_ok (sl_mem s0) S"
    and kc: "\<And>j. j < 8 \<Longrightarrow> kc_size (sl_caches s0 j) = csize j"
    using s0(2) i(1) unfolding init_ok_def P_def cache_ok_def by auto
  have "3 \<le> length (slab_objects P (csize i))" using table_sizes [OF csize_in [OF i(1)]] slab_objects_props(2) by simp
  then obtain a x y ys where xs: "slab_objects P (csize i) = a # x # y # ys"
    by (metis (no_types, opaque_lifting) Suc_le_length_iff numeral_3_eq_3)
  note at = slab_at [OF m0 P(2) [unfolded xs]]
  have so: "sorted (a # x # y # ys)" "distinct (a # x # y # ys)" "a \<noteq> 0" using at(2) by (auto simp: slab_ok_def)
  have f0: "slab_object (sl_mem s0) P = a" "slab_nfree (sl_mem s0) P = Suc (Suc (Suc (length ys)))" using at(2) by (auto simp: slab_ok_def)
  define m1 where "m1 = (set_slab_nfree P (length (x # y # ys)) \<circ> set_slab_object P (obj_next (sl_mem s0) a)) (sl_mem s0)"
  define s1 where "s1 = upd_mem (\<lambda>_. m1) s0"
  have e0: "slab_alloc z s0 = alloc_from_kmem_cache i s0" by (rule small_cache [OF z _ i]) (rule kc)
  have a1: "slab_alloc z s0 = Some (a, s1)"
    unfolding e0 alloc_from_kmem_cache_def Let_def P_def [symmetric] using P(1) f0 so(3)
    by (simp add: s1_def m1_def upd_mem_def)
  have ok1: "slab_ok m1 P (csize i) (x # y # ys)" by (rule take_object(1) [OF at(2,3) m1_def])
  have ao: "a \<in> objs P (csize i)" using at(7) by simp
  have "a < u" if "u \<in> set (x # y # ys)" for u using so that by (auto simp: order.order_iff_strict)
  from put_back_below [OF ok1 at(3) ao this] obtain m2 where m2: "put_back P a m1 = Some m2" "slab_object m2 P = a" "obj_next m2 a = 0"
    "slab_nfree m2 P = Suc (Suc (Suc (length ys)))" by auto
  define s2 where "s2 = upd_mem (\<lambda>_. m2) s0"
  note pg = object_page [OF at(1) ao at(4,6)]
  have a2: "slab_free a s1 = Some s2"
    using pg m2(1) ok1 unfolding slab_free_def Let_def s1_def s2_def by (simp add: slab_ok_def upd_mem_def)
  define m3 where "m3 = set_slab_nfree P (Suc (Suc (length ys))) (set_slab_object P 0 m2)"
  define s3 where "s3 = upd_mem (\<lambda>_. m3) s0"
  have k2: "kc_size (sl_caches s2 j) = csize j" "kc_size (sl_caches s3 j) = csize j" if "j < 8" for j using kc that by (simp_all add: s2_def s3_def)
  have fs: "free_slab (sl_caches s2 i) = P" "free_slab (sl_caches s3 i) = P" by (simp_all add: s2_def s3_def P_def)
  have e2: "slab_alloc z s2 = alloc_from_kmem_cache i s2" by (rule small_cache [OF z _ i]) (rule k2(1))
  have e3: "slab_alloc z s3 = alloc_from_kmem_cache i s3" by (rule small_cache [OF z _ i]) (rule k2(2))
  have a3: "slab_alloc z s2 = Some (a, s3)"
    unfolding e2 alloc_from_kmem_cache_def Let_def fs using P(1) m2 so(3)
    by (simp add: s2_def s3_def m3_def upd_mem_def)
  have len: "Suc (Suc (length ys)) < 2 ^ 32" using f0(2) read32_less [of "sl_mem s0" "P + 28"] by (simp add: slab_nfree_def)
  have "slab_object m3 P = 0" "slab_nfree m3 P = Suc (Suc (length ys))" using len unfolding m3_def by (simp_all add: fields cells)
  then have "slab_alloc z s3 = None"
    unfolding e3 alloc_from_kmem_cache_def Let_def fs using P(1) by (simp add: s3_def)
  then show ?thesis using s0(1) a1 a2 a3 by blast
qed

section \<open>Witnesses\<close>

definition sample_slab :: "buddy_system \<Rightarrow> slab_allocator" where
  "sample_slab pm = \<lparr>sl_pm = pm, sl_caches = (\<lambda>_. \<lparr>free_slab = 0, full_slab = 0, kc_size = 0\<rparr>), sl_boot_page = 0, sl_alloc_count = PGSIZE\<rparr>"

text \<open>Taking the first of at least two free objects, and the last free object of the only slab of a cache.\<close>

lemma take_first:
  assumes "slab_ok (sl_mem s) P (csize i) (x # y # xs)" "i < 8" "free_slab (sl_caches s i) = P"
  shows "\<exists>m'. alloc_from_kmem_cache i s = Some (x, upd_mem (\<lambda>_. m') s) \<and> slab_ok m' P (csize i) (y # xs) \<and> slab_next m' P = slab_next (sl_mem s) P"
proof -
  define m' where "m' = (set_slab_nfree P (length (y # xs)) \<circ> set_slab_object P (obj_next (sl_mem s) x)) (sl_mem s)"
  have "P \<noteq> 0" "slab_object (sl_mem s) P = x" "slab_nfree (sl_mem s) P = Suc (Suc (length xs))" "x \<noteq> 0" using assms(1) by (auto simp: slab_ok_def)
  then have "alloc_from_kmem_cache i s = Some (x, upd_mem (\<lambda>_. m') s)"
    unfolding alloc_from_kmem_cache_def Let_def assms(3) by (simp add: m'_def upd_mem_def)
  then show ?thesis using take_object(1,2) [OF assms(1) csize_in [OF assms(2)] m'_def] by blast
qed

lemma take_only:
  assumes "slab_ok (sl_mem s) P (csize i) [x]" "i < 8" "free_slab (sl_caches s i) = P" "full_slab (sl_caches s i) = 0" "slab_next (sl_mem s) P = 0"
  shows "\<exists>s'. alloc_from_kmem_cache i s = Some (x, s') \<and> slab_ok (sl_mem s') P (csize i) [] \<and> full_slab (sl_caches s' i) = P \<and>
    free_slab (sl_caches s' i) = 0 \<and> kc_size (sl_caches s' i) = kc_size (sl_caches s i)"
proof -
  define m' where "m' = (set_slab_nfree P 0 \<circ> set_slab_object P 0) (sl_mem s)"
  define s' where "s' = upd_cache i (\<lambda>c. c\<lparr>full_slab := P\<rparr>) (upd_cache i (\<lambda>c. c\<lparr>free_slab := 0\<rparr>) (upd_mem (\<lambda>_. m') s))"
  have f: "P \<noteq> 0" "slab_object (sl_mem s) P = x" "slab_nfree (sl_mem s) P = 1" "obj_next (sl_mem s) x = 0" using assms(1) by (auto simp: slab_ok_def)
  have m': "m' = (set_slab_nfree P (length []) \<circ> set_slab_object P (obj_next (sl_mem s) x)) (sl_mem s)" by (simp add: m'_def f)
  note t = take_object(1,2) [OF assms(1) csize_in [OF assms(2)] m']
  have "move_to_full i P (upd_mem (set_slab_nfree P 0 \<circ> set_slab_object P 0) s) = Some s'"
    using assms(4,5) t(2) unfolding move_to_full_def Let_def s'_def m'_def by (simp add: upd_mem_def upd_cache_def)
  then have "alloc_from_kmem_cache i s = Some (x, s')" using f unfolding alloc_from_kmem_cache_def Let_def assms(3) by simp
  then show ?thesis using t(1) by (simp add: s'_def upd_mem_def upd_cache_def)
qed

text \<open>Three allocations of 1024 bytes after initialisation fill the slab of the last cache; its objects can then be released.\<close>

lemma run_full_slab:
  assumes pm: "buddy_wf pm" "\<not> bs_lock pm" "32 \<le> free_count pm"
  shows "\<exists>s a b c. slab_run s {(a, 1024), (b, 1024), (c, 1024)} {} \<and> a < b \<and> b < c \<and>
    slab_nfree (sl_mem s) (PGROUNDDOWN a) = 0 \<and> releasable s a"
proof -
  obtain s S where s: "slab_init (sample_slab pm) = Some s" "init_ok 8 s S {}" "free_count (sl_pm s) = free_count pm - 9"
    using slab_init_ok [of "sample_slab pm" "{}"] pm by (auto simp: sample_slab_def)
  have r0: "slab_run s {} {}" by (rule boot [of "sample_slab pm"]) (use pm s in \<open>auto simp: sample_slab_def\<close>)
  have z: "slab_size 1024 = csize 7" "csize 7 = 1024" "object_num 1024 = 3" by code_simp+
  define P where "P = free_slab (sl_caches s 7)"
  have P: "P \<noteq> 0" "S P = Some (7, slab_objects P (csize 7))" "slab_next (sl_mem s) P = 0" and m0: "slabs_ok (sl_mem s) S"
    and kc: "\<And>j. j < 8 \<Longrightarrow> kc_size (sl_caches s j) = csize j"
    using s(2) unfolding init_ok_def P_def cache_ok_def by auto
  have c0: "cache_ok (sl_mem s) S (sl_caches s 7) 7 []" using s(2) by (simp add: init_ok_def)
  have "length (slab_objects P (csize 7)) = 3" using slab_objects_props(2) z by simp
  then obtain a b c where xs: "slab_objects P (csize 7) = [a, b, c]" by (auto simp: numeral_3_eq_3 length_Suc_conv)
  note at = slab_at [OF m0 P(2) [unfolded xs]]
  have i: "(7::nat) < 8" by simp
  have fs: "free_slab (sl_caches s 7) = P" "full_slab (sl_caches s 7) = 0" using c0 by (auto simp: P_def cache_ok_def)
  obtain m1 where m1: "alloc_from_kmem_cache 7 s = Some (a, upd_mem (\<lambda>_. m1) s)" "slab_ok m1 P (csize 7) [b, c]" "slab_next m1 P = 0"
    using take_first [OF at(2) i fs(1)] P(3) by auto
  let ?s1 = "upd_mem (\<lambda>_. m1) s"
  obtain m2 where m2: "alloc_from_kmem_cache 7 ?s1 = Some (b, upd_mem (\<lambda>_. m2) ?s1)" "slab_ok m2 P (csize 7) [c]" "slab_next m2 P = 0"
    using take_first [of ?s1 P 7 b c "[]"] m1(2,3) fs by auto
  let ?s2 = "upd_mem (\<lambda>_. m2) ?s1"
  obtain s3 where s3: "alloc_from_kmem_cache 7 ?s2 = Some (c, s3)" "slab_ok (sl_mem s3) P (csize 7) []" "full_slab (sl_caches s3 7) = P"
    "free_slab (sl_caches s3 7) = 0" "kc_size (sl_caches s3 7) = csize 7"
    using take_only [of ?s2 P 7 c] m2(2,3) fs kc by auto
  have e: "slab_alloc 1024 t = alloc_from_kmem_cache 7 t" if "sl_caches t = sl_caches s" for t
    by (rule small_cache [OF _ _ i z(1)]) (use that kc in auto)
  have fc: "free_count (pm'\<lparr>bs_mem := m\<rparr>) = free_count pm'" for pm' m by (rule free_count_cong) simp
  have av: "0 < free_count (sl_pm s)" using s(3) pm(3) by simp
  have r1: "slab_run ?s1 {(a, 1024)} {}" using slab_run.alloc [OF r0 _ av, of 1024 a ?s1] m1(1) e [of s] z by simp
  have r2: "slab_run ?s2 {(b, 1024), (a, 1024)} {}" using slab_run.alloc [OF r1, of 1024 b ?s2] m2(1) e [of ?s1] z av by (simp add: fc)
  have r3: "slab_run s3 {(c, 1024), (b, 1024), (a, 1024)} {}" using slab_run.alloc [OF r2, of 1024 c s3] s3(1) e [of ?s2] z av by (simp add: fc)
  have "a \<in> objs P (csize 7)" using at(7) by simp
  then have pa: "PGROUNDDOWN a = P" by (rule object_page(1) [OF i _ at(4,6)])
  have f3: "slab_nfree (sl_mem s3) P = 0" "slab_objsize (sl_mem s3) P = csize 7" using s3(2) by (auto simp: slab_ok_def)
  have "releasable s3 a" unfolding releasable_def Let_def pa f3 using s3(3-5) by (simp add: exI [of _ 7])
  moreover have "a < b" "b < c" using at(2) by (auto simp: slab_ok_def)
  moreover have "{(c, 1024), (b, 1024), (a, 1024)} = {(a, 1024), (b, 1024), (c, 1024::nat)}" by blast
  ultimately show ?thesis using r3 f3(1) pa by metis
qed

text \<open>In that state a release succeeds, keeps the contents of another object in use, and the run goes on.\<close>

theorem slab_client_safe_witness:
  "\<exists>s a b c s'. slab_run s {(a, 1024), (b, 1024), (c, 1024)} {} \<and> a < b \<and> b < c \<and> slab_free a s = Some s' \<and> slab_nfree (sl_mem s') (PGROUNDDOWN a) = 1 \<and>
    (\<forall>x \<in> {b..<b + 1024}. sl_mem s' x = sl_mem s x) \<and> slab_run s' {(b, 1024), (c, 1024)} {}"
proof -
  obtain pm where pm: "buddy_wf pm" "\<not> bs_lock pm" "32 \<le> free_count pm" using small_allocator by blast
  obtain s a b c where s: "slab_run s {(a, 1024), (b, 1024), (c, 1024)} {}" "a < b" "b < c" "slab_nfree (sl_mem s) (PGROUNDDOWN a) = 0" "releasable s a"
    using run_full_slab [OF pm] by blast
  let ?L = "{(a, 1024), (b, 1024), (c, 1024)} :: (addr \<times> nat) set"
  have aL: "(a, 1024) \<in> ?L" "(b, 1024) \<in> ?L - {(a, 1024)}" using s(2) by auto
  have "\<exists>s'. slab_free a s = Some s' \<and> slab_nfree (sl_mem s') (PGROUNDDOWN a) = Suc (slab_nfree (sl_mem s) (PGROUNDDOWN a)) \<and>
    (\<forall>(b, y) \<in> ?L - {(a, 1024)}. \<forall>x \<in> {b..<b + y}. sl_mem s' x = sl_mem s x) \<and> (\<forall>w \<in> {}. \<forall>x \<in> page_bytes w. sl_mem s' x = sl_mem s x)"
    using bspec [OF slab_client_safe [OF s(1), THEN conjunct2, THEN conjunct2, THEN conjunct2] aL(1)] s(5) by (simp only: prod.case simp_thms)
  then obtain s' where s': "slab_free a s = Some s'" "slab_nfree (sl_mem s') (PGROUNDDOWN a) = Suc (slab_nfree (sl_mem s) (PGROUNDDOWN a))"
    "\<forall>(b, y) \<in> ?L - {(a, 1024)}. \<forall>x \<in> {b..<b + y}. sl_mem s' x = sl_mem s x" by (elim exE conjE) (rule that)
  have one: "slab_nfree (sl_mem s') (PGROUNDDOWN a) = 1" using s'(2) s(4) by simp
  have "\<forall>x \<in> {b..<b + 1024}. sl_mem s' x = sl_mem s x" using bspec [OF s'(3) aL(2)] by simp
  moreover have "slab_run s' {(b, 1024), (c, 1024)} {}"
  proof -
    have "?L - {(a, 1024)} = {(b, 1024), (c, 1024)}" using s(2,3) by auto
    with slab_run.free [OF s(1) aL(1) s(5) s'(1)] show ?thesis by (simp only:)
  qed
  ultimately show ?thesis using s(1-3) s'(1) one by blast
qed

theorem slab_free_loses_objects_witness:
  "\<exists>s0 a s1 s2 s3. slab_alloc 64 s0 = Some (a, s1) \<and> slab_free a s1 = Some s2 \<and> slab_alloc 64 s2 = Some (a, s3) \<and> slab_alloc 64 s3 = None"
proof -
  obtain pm where pm: "buddy_wf pm" "\<not> bs_lock pm" "32 \<le> free_count pm" using small_allocator by blast
  have "buddy_wf (sl_pm (sample_slab pm))" "\<not> bs_lock (sl_pm (sample_slab pm))" "sl_alloc_count (sample_slab pm) = PGSIZE"
    "9 \<le> free_count (sl_pm (sample_slab pm))" using pm by (simp_all add: sample_slab_def)
  from slab_free_loses_objects [OF this, of 64] show ?thesis by simp blast
qed

end
