(* ===== verification/Shm.thy ===== *)
theory Shm
  imports Vma Slab
begin

text \<open>
  Shared memory segments (\<^verbatim>\<open>kernel/vma.c\<close>, and \<^verbatim>\<open>sys_shmget\<close>, \<^verbatim>\<open>sys_shmat\<close>, \<^verbatim>\<open>sys_shmdt\<close>, \<^verbatim>\<open>sys_shmctl\<close> of
  \<^verbatim>\<open>kernel/syscall.c\<close>), with the copying and the release of a list of areas, which attach and detach too.
  \<open>None\<close> is a panic, an access through a pointer that does not point to a live structure, or a loop that
  does not end. The times of a segment are always 0 and are left out, as are \<^verbatim>\<open>shm_num\<close>, \<^verbatim>\<open>shm_size\<close> and
  \<^verbatim>\<open>sharememory\<close> of a process, which are only reset.
\<close>

unbundle bit_operations_syntax

abbreviation SHMMNI :: nat where "SHMMNI \<equiv> 5000"
abbreviation (input) IPC_PRIVATE :: int where "IPC_PRIVATE \<equiv> 0"
abbreviation (input) IPC_CREAT :: "64 word" where "IPC_CREAT \<equiv> 512"
abbreviation (input) IPC_EXCL :: "64 word" where "IPC_EXCL \<equiv> 1024"
abbreviation (input) IPC_RMID :: "64 word" where "IPC_RMID \<equiv> 0"
abbreviation (input) IPC_SET :: "64 word" where "IPC_SET \<equiv> 1"
abbreviation (input) IPC_STAT :: "64 word" where "IPC_STAT \<equiv> 2"
abbreviation (input) SHM_RDONLY :: "64 word" where "SHM_RDONLY \<equiv> 4096"
abbreviation (input) SHM_RND :: "64 word" where "SHM_RND \<equiv> 8192"
abbreviation SHM_R :: "32 word" where "SHM_R \<equiv> 256"
abbreviation SHM_W :: "32 word" where "SHM_W \<equiv> 128"
abbreviation (input) ENOENT :: int where "ENOENT \<equiv> 2"
abbreviation (input) EACCES :: int where "EACCES \<equiv> 13"
abbreviation (input) EFAULT :: int where "EFAULT \<equiv> 14"
abbreviation (input) EEXIST :: int where "EEXIST \<equiv> 17"
abbreviation (input) ENOSPC :: int where "ENOSPC \<equiv> 28"

definition upd_seg :: "nat \<Rightarrow> (shmid_kernel \<Rightarrow> shmid_kernel) \<Rightarrow> ksys \<Rightarrow> ksys" where
  "upd_seg n f k = k\<lparr>ks_shm_segs := (ks_shm_segs k)(n := map_option f (ks_shm_segs k n))\<rparr>"

section \<open>The table of segments\<close>

definition findshm :: "int \<Rightarrow> ksys \<Rightarrow> int" where
  "findshm key k =
     (case find (\<lambda>i. \<exists>sg. ks_shm_segs k i = Some sg \<and> shm_key sg = key) [0..<SHMMNI] of None \<Rightarrow> -1 | Some i \<Rightarrow> int i)"

definition allocshmid :: "ksys \<Rightarrow> int" where
  "allocshmid k = (case find (\<lambda>i. ks_shm_segs k i = None) [0..<SHMMNI] of None \<Rightarrow> -1 | Some i \<Rightarrow> int i)"

text \<open>
  The pages of a size that is an \<^verbatim>\<open>int\<close> (division truncates), and of one that is a \<^verbatim>\<open>uint64\<close>.
\<close>

definition int_pages :: "int \<Rightarrow> int" where
  "int_pages sz = (let t = int32 (u64 (sz + 4095)) in sgn t * (\<bar>t\<bar> div 4096))"

definition seg_pages :: "nat \<Rightarrow> int" where
  "seg_pages sz = int32 (add64 sz 4095 div 4096)"

text \<open>
  \<^verbatim>\<open>newseg\<close> gives its structure back with \<^verbatim>\<open>slab_free\<close>. The structure is a page of the page allocator whose
  first eight bytes, the key and the number, are not those of a slab, so this is a release of the page
  (\<open>slab_free_page\<close>).
\<close>

lemma slab_free_page:
  "slab_magic (sl_mem s) a \<noteq> SLAB_MAGIC \<Longrightarrow> a mod PGSIZE = 0 \<Longrightarrow> a < 2 ^ 64 \<Longrightarrow>
   slab_free a s = map_option (\<lambda>pm. s\<lparr>sl_pm := pm\<rparr>) (pmem_free_pages (sl_pm s) a 1)"
  using PGROUNDDOWN_eq [of a] by (simp add: slab_free_def Let_def mod_eq_0_iff_dvd)

definition newseg :: "nat \<Rightarrow> int \<Rightarrow> 32 word \<Rightarrow> int \<Rightarrow> ksys \<Rightarrow> (int \<times> ksys) option" where
  "newseg me key shmflg sz k =
     (if key \<noteq> IPC_PRIVATE \<and> findshm key k \<ge> 0 then Some (- EEXIST, k)
      else
        Option.bind (kalloc (ks_pm k)) (\<lambda>(shp, s).
        let sysid = allocshmid k; p = ks_procs k me; bytes = u64 (int_pages sz * 8)
        in if sysid < 0 then map_option (\<lambda>s'. (- ENOSPC, with_pm k s')) (pmem_free_pages s shp 1)
           else
             Option.bind (pmem_alloc_pages s (int32 (add64 bytes PGSIZE div PGSIZE))) (\<lambda>(pages, s1).
             if pages = 0 then map_option (\<lambda>s'. (- ENOMEM, with_pm k s')) (pmem_free_pages s1 shp 1)
             else
               let seg = \<lparr>shm_self = shp, shm_key = key, shm_shmid = nat sysid, shm_size = u64 sz, shm_flag = shmflg,
                          shm_attach_count = 0, shm_is_deleted = False, shm_pages = pages, shm_attaches = 0,
                          shm_perm = \<lparr>ip_key = key, ip_uid = p_euid p, ip_gid = p_egid p, ip_cuid = p_euid p,
                                      ip_cgid = p_egid p, ip_mode = shmflg AND 511\<rparr>,
                          shm_segsz = u64 sz mod 2 ^ 32, shm_cpid = p_pid p, shm_lpid = p_pid p, shm_nattch = 0,
                          shm_attach_list = []\<rparr>
               in Some (sysid, (with_pm k (s1\<lparr>bs_mem := memset (bs_mem s1) pages 0 (bytes mod 2 ^ 32)\<rparr>))
                    \<lparr>ks_shm_segs := (ks_shm_segs k)(nat sysid \<mapsto> seg)\<rparr>))))"

section \<open>Permissions\<close>

definition is_root_user :: "proc \<Rightarrow> bool" where
  "is_root_user p \<longleftrightarrow> p_euid p = 0"

text \<open>The test of one class of users with its read and write bits.\<close>

definition class_allows :: "32 word \<Rightarrow> 32 word \<Rightarrow> 32 word \<Rightarrow> 32 word \<Rightarrow> bool" where
  "class_allows r w mode perm \<longleftrightarrow>
     perm = SHM_R \<and> mode AND r \<noteq> 0 \<or> perm = SHM_W \<and> mode AND w \<noteq> 0 \<or>
     perm = SHM_R OR SHM_W \<and> mode AND (r OR w) = (r OR w)"

definition has_shm_permission :: "proc \<Rightarrow> shmid_kernel \<Rightarrow> 32 word \<Rightarrow> bool" where
  "has_shm_permission p sg perm \<longleftrightarrow>
     (let mode = ip_mode (shm_perm sg)
      in is_root_user p \<or>
         p_euid p = ip_uid (shm_perm sg) \<and> class_allows 256 128 mode perm \<or>
         p_egid p = ip_gid (shm_perm sg) \<and> class_allows 32 16 mode perm \<or>
         class_allows 4 2 mode perm)"

definition check_shm_permissions :: "proc \<Rightarrow> shmid_kernel \<Rightarrow> 32 word \<Rightarrow> int" where
  "check_shm_permissions p sg req =
     (if req AND SHM_R \<noteq> 0 \<and> \<not> has_shm_permission p sg SHM_R then - EACCES
      else if req AND SHM_W \<noteq> 0 \<and> \<not> has_shm_permission p sg SHM_W then - EACCES
      else 0)"

definition sys_shmget :: "nat \<Rightarrow> 64 word \<Rightarrow> 64 word \<Rightarrow> 64 word \<Rightarrow> ksys \<Rightarrow> (int \<times> ksys) option" where
  "sys_shmget me key sz flag k =
     (let key' = sint (ucast key :: 32 word); sz' = sint (ucast sz :: 32 word)
      in if key' = IPC_PRIVATE then newseg me key' (ucast flag) sz' k
         else
           let shmid = findshm key' k
           in if shmid \<ge> 0 then
                (case ks_shm_segs k (nat shmid) of
                   None \<Rightarrow> None
                 | Some seg \<Rightarrow>
                     if flag AND IPC_EXCL \<noteq> 0 then Some (- EEXIST, k)
                     else
                       let req = (if flag AND ucast SHM_W \<noteq> 0 then SHM_R OR SHM_W else SHM_R);
                           check = check_shm_permissions (ks_procs k me) seg req
                       in if check \<noteq> 0 then Some (check, k) else Some (shmid, k))
              else if flag AND IPC_CREAT \<noteq> 0 then newseg me key' (ucast flag) sz' k
              else Some (- ENOENT, k))"

section \<open>Attaching\<close>

text \<open>The first attachment: the pages it was given are recorded in the segment.\<close>

fun save_pages :: "addr \<Rightarrow> addr \<Rightarrow> addr \<Rightarrow> nat list \<Rightarrow> vmem \<Rightarrow> vmem option" where
  "save_pages pt va pages [] v = Some v"
| "save_pages pt va pages (i # is) v =
     Option.bind (walk v pt (add64 va (i * PGSIZE)) False) (\<lambda>(pte, v1).
     save_pages pt va pages is
       (if pte \<noteq> 0 \<and> get64 (vs_pm v1) pte AND PTE_V \<noteq> 0
        then v1\<lparr>vs_pm := put64 (vs_pm v1) (pages + 8 * i) (of_nat (PTE2PA (get64 (vs_pm v1) pte)))\<rparr>
        else v1))"

text \<open>Further attachments map the pages of the segment.\<close>

fun map_pages :: "addr \<Rightarrow> addr \<Rightarrow> addr \<Rightarrow> pte \<Rightarrow> nat list \<Rightarrow> vmem \<Rightarrow> vmem option" where
  "map_pages pt va pages perm [] v = Some v"
| "map_pages pt va pages perm (i # is) v =
     (let pa = unat (get64 (vs_pm v) (pages + 8 * i))
      in if pa \<noteq> 0 then
           Option.bind (mappages v pt (add64 va (i * PGSIZE)) pa PGSIZE perm) (\<lambda>(r, v1).
           if r \<noteq> 1 then None else map_pages pt va pages perm is v1)
         else map_pages pt va pages perm is v)"

definition shm_conflict :: "addr \<Rightarrow> nat \<Rightarrow> vma \<Rightarrow> bool" where
  "shm_conflict a sz v \<longleftrightarrow>
     vma_addr v = a \<or> vma_addr v \<le> a \<and> a < vma_end v \<or> a \<le> vma_addr v \<and> vma_addr v < add64 a sz"

text \<open>The address a caller asks for, or the error.\<close>

definition attach_address :: "addr \<Rightarrow> 64 word \<Rightarrow> int \<Rightarrow> proc \<Rightarrow> int + addr" where
  "attach_address shmaddr shmflg sz p =
     (let a = (if shmflg AND SHM_RND \<noteq> 0 then shmaddr div PGSIZE * PGSIZE else shmaddr)
      in if shmflg AND SHM_RND = 0 \<and> shmaddr mod PGSIZE \<noteq> 0 then Inl (- EINVAL)
         else if a \<ge> MAXVA \<or> add64 a (u64 sz) > MAXVA then Inl (- EINVAL)
         else if a < p_sz p then Inl (- EINVAL)
         else if \<exists>v \<in> set (p_vma p). shm_conflict a (u64 sz) v then Inl (- EINVAL)
         else Inr a)"

definition new_attach :: "addr \<Rightarrow> nat \<Rightarrow> ksys \<Rightarrow> (shm_attach \<times> ksys) option" where
  "new_attach a n k =
     map_option (\<lambda>(self, s). (\<lparr>at_self = self, at_addr = a, at_shmid = n\<rparr>, with_pm k s)) (kalloc (ks_pm k))"

text \<open>The mapping of the area \<open>v\<close>, and the records of the attachment.\<close>

definition attach_pages :: "nat \<Rightarrow> shmid_kernel \<Rightarrow> vma \<Rightarrow> 32 word \<Rightarrow> ksys \<Rightarrow> ksys option" where
  "attach_pages me sg v perm k =
     (let pt = p_pagetable (ks_procs k me); is = [0..<nat (int_pages (int32 (shm_size sg)))]
      in if shm_attaches sg = 0 then
           Option.bind (uvmalloc1 (ks_vm k) pt (vma_addr v) (vma_end v) (scast perm)) (\<lambda>(r, vm).
           if r = 0 then None else map_option (with_vm k) (save_pages pt (vma_addr v) (shm_pages sg) is vm))
         else map_option (with_vm k) (map_pages pt (vma_addr v) (shm_pages sg) (scast perm) is (ks_vm k)))"

definition record_attach :: "nat \<Rightarrow> nat \<Rightarrow> vma \<Rightarrow> ksys \<Rightarrow> ksys option" where
  "record_attach me n v k =
     (let pid = p_pid (ks_procs k me);
          k1 = upd_seg n (\<lambda>sg. sg\<lparr>shm_attaches := vma_self v, shm_attach_count := shm_attach_count sg + 1,
                 shm_lpid := pid, shm_nattch := shm_attach_count sg + 1\<rparr>) k
      in Option.bind (new_attach (vma_addr v) n k1) (\<lambda>(at, k2).
         map_option (\<lambda>(shm_at, k4). upd_seg n (\<lambda>sg. sg\<lparr>shm_attach_list := shm_at # shm_attach_list sg\<rparr>) k4)
           (new_attach (vma_addr v) n (upd_proc me (\<lambda>p. p\<lparr>p_shm_attaches := at # p_shm_attaches p\<rparr>) k2))))"

definition sys_shmat :: "nat \<Rightarrow> nat \<Rightarrow> addr \<Rightarrow> 64 word \<Rightarrow> ksys \<Rightarrow> (int \<times> ksys) option" where
  "sys_shmat me shmid shmaddr shmflg k =
     (if shmid \<ge> SHMMNI then Some (- EINVAL, k)
      else case ks_shm_segs k shmid of
        None \<Rightarrow> Some (- EINVAL, k)
      | Some sg \<Rightarrow>
          if shm_is_deleted sg \<and> shm_pages sg = 0 then Some (- EINVAL, k)
          else
            let p = ks_procs k me; ro = (shmflg AND SHM_RDONLY \<noteq> 0);
                check = check_shm_permissions p sg (if ro then SHM_R else SHM_R OR SHM_W);
                sz = int32 (shm_size sg);
                perm = (if ro then 16 OR 2 else 16 OR 2 OR 4)
            in if check \<noteq> 0 then Some (check, k)
               else case (if shmaddr \<noteq> 0 then attach_address shmaddr shmflg sz p else Inr (u64 (ks_sharemem_start k))) of
                 Inl e \<Rightarrow> Some (e, k)
               | Inr a \<Rightarrow>
                   Option.bind (alloc_vma me SHARE a sz perm False 0 k) (\<lambda>(v, k1).
                   let k2 = upd_proc me (\<lambda>p. p\<lparr>p_vma := upd_vma (vma_self v) (\<lambda>v. v\<lparr>vma_shm_kernel := Some shmid\<rparr>) (p_vma p)\<rparr>) k1
                   in if shm_attach_count sg \<ge> 0x7FFFFFFF then
                        map_option (\<lambda>s. (- ENOMEM, upd_proc me (\<lambda>p. p\<lparr>p_vma := filter (\<lambda>w. vma_self w \<noteq> vma_self v) (p_vma p)\<rparr>) (with_pm k2 s)))
                          (pmem_free_pages (ks_pm k2) (vma_self v) 1)
                      else
                        Option.bind (attach_pages me sg v perm k2) (\<lambda>k3.
                        map_option (\<lambda>k5. (int (vma_addr v), k5)) (record_attach me shmid v
                          (if shmaddr = 0
                           then k3\<lparr>ks_sharemem_start := int32 (u64 (ks_sharemem_start k3 + sz + 4095) mod 2 ^ 32 div PGSIZE * PGSIZE)\<rparr>
                           else k3)))))"

section \<open>Detaching\<close>

fun remove_first :: "('a \<Rightarrow> bool) \<Rightarrow> 'a list \<Rightarrow> 'a list" where
  "remove_first P [] = []"
| "remove_first P (x # xs) = (if P x then xs else x # remove_first P xs)"

definition kfree_k :: "addr \<Rightarrow> ksys \<Rightarrow> ksys option" where
  "kfree_k a k = map_option (with_pm k) (kfree (ks_pm k) a)"

fun free_records :: "shm_attach list \<Rightarrow> ksys \<Rightarrow> ksys option" where
  "free_records [] k = Some k"
| "free_records (at # ats) k = Option.bind (kfree_k (at_self at) k) (free_records ats)"

fun free_seg_pages :: "addr \<Rightarrow> nat list \<Rightarrow> ksys \<Rightarrow> ksys option" where
  "free_seg_pages pages [] k = Some k"
| "free_seg_pages pages (i # is) k =
     (let pa = unat (get64 (ks_pm k) (pages + 8 * i))
      in Option.bind (if pa \<noteq> 0 then map_option (with_pm k) (pmem_free_pages (ks_pm k) pa 1) else Some k)
           (free_seg_pages pages is))"

text \<open>A segment that is marked deleted and has lost its last attachment.\<close>

definition destroy_seg :: "nat \<Rightarrow> shmid_kernel \<Rightarrow> ksys \<Rightarrow> ksys option" where
  "destroy_seg n sg k =
     Option.bind (free_records (shm_attach_list sg) k) (\<lambda>k1.
     Option.bind (free_seg_pages (shm_pages sg) [0..<nat (seg_pages (shm_size sg))] k1) (\<lambda>k2.
     Option.bind (kfree_k (shm_pages sg) k2) (\<lambda>k3.
     map_option (\<lambda>k4. k4\<lparr>ks_shm_segs := (ks_shm_segs k4)(n := None)\<rparr>) (kfree_k (shm_self sg) k3))))"

text \<open>Removing the record of an attachment from a list of records and releasing it.\<close>

definition drop_record :: "(shm_attach \<Rightarrow> bool) \<Rightarrow> shm_attach list \<Rightarrow> ksys \<Rightarrow> ksys option" where
  "drop_record P ats k = (case find P ats of None \<Rightarrow> Some k | Some at \<Rightarrow> kfree_k (at_self at) k)"

text \<open>
  What every detachment does to the segment: the counts, its record of the attachment, and its end when it
  is marked deleted.
\<close>

definition shm_release :: "nat \<Rightarrow> addr \<Rightarrow> int \<Rightarrow> ksys \<Rightarrow> ksys option" where
  "shm_release n a pid k =
     (case ks_shm_segs k n of
        None \<Rightarrow> None
      | Some sg \<Rightarrow>
          let P = (\<lambda>at. at_addr at = a \<and> at_shmid at = n);
              sg1 = sg\<lparr>shm_attach_count := shm_attach_count sg - 1, shm_lpid := pid, shm_nattch := shm_attach_count sg - 1,
                       shm_attach_list := remove_first P (shm_attach_list sg)\<rparr>
          in Option.bind (drop_record P (shm_attach_list sg) (upd_seg n (\<lambda>_. sg1) k)) (\<lambda>k1.
             if shm_is_deleted sg1 \<and> shm_attach_count sg1 = 0 then destroy_seg n sg1 k1 else Some k1))"

definition sys_shmdt :: "nat \<Rightarrow> addr \<Rightarrow> ksys \<Rightarrow> (int \<times> ksys) option" where
  "sys_shmdt me shmaddr k =
     (let p = ks_procs k me
      in case find (\<lambda>at. at_addr at = shmaddr) (p_shm_attaches p) of
           None \<Rightarrow> Some (- EINVAL, k)
         | Some at \<Rightarrow>
             let n = at_shmid at;
                 unlink = (\<lambda>k. map_option (upd_proc me (\<lambda>p. p\<lparr>p_shm_attaches := remove_first (\<lambda>at. at_addr at = shmaddr) (p_shm_attaches p)\<rparr>))
                             (kfree_k (at_self at) k))
             in if n \<ge> SHMMNI \<or> ks_shm_segs k n = None then map_option (Pair (- EINVAL)) (unlink k)
                else case ks_shm_segs k n of
                  None \<Rightarrow> None
                | Some sg \<Rightarrow>
                    let Q = (\<lambda>v. vma_type v = SHARE \<and> vma_shm_kernel v = Some n \<and> vma_addr v = shmaddr)
                    in Option.bind (vmunmap (ks_vm k) (p_pagetable p) shmaddr (u64 (seg_pages (shm_size sg))) False) (\<lambda>vm.
                       let k1 = with_vm k vm
                       in Option.bind (case find Q (p_vma p) of None \<Rightarrow> Some k1 | Some v \<Rightarrow> free_struct v k1) (\<lambda>k2.
                          Option.bind (unlink (upd_proc me (\<lambda>p. p\<lparr>p_vma := remove_first Q (p_vma p)\<rparr>) k2)) (\<lambda>k3.
                          map_option (Pair 0) (shm_release n shmaddr (p_pid p) k3)))))"

definition validate_shm_refcount :: "shmid_kernel \<Rightarrow> bool \<times> shmid_kernel" where
  "validate_shm_refcount sg =
     (if shm_attach_count sg < 0 \<or> shm_attach_count sg > 0x7FFFFFFF then (False, sg)
      else
        let actual = int (length (shm_attach_list sg))
        in (True, if actual \<noteq> shm_attach_count sg then sg\<lparr>shm_attach_count := actual, shm_nattch := actual\<rparr> else sg))"

text \<open>
  What a caller can ask about a segment; the times are 0. In memory, two 16-bit fields, four bytes of padding
  and two reserved fields, all 0, follow the mode.
\<close>

record shmid_ds =
  ds_perm :: ipc_perm
  ds_segsz :: nat
  ds_cpid :: int
  ds_lpid :: int
  ds_nattch :: int

definition shm_stat :: "shmid_kernel \<Rightarrow> shmid_ds" where
  "shm_stat sg = \<lparr>ds_perm = shm_perm sg, ds_segsz = shm_segsz sg, ds_cpid = shm_cpid sg, ds_lpid = shm_lpid sg,
     ds_nattch = shm_nattch sg\<rparr>"

definition get_shm_statistics :: "nat \<Rightarrow> ksys \<Rightarrow> int \<times> shmid_ds option \<times> ksys" where
  "get_shm_statistics n k =
     (case ks_shm_segs k n of
        None \<Rightarrow> (- EINVAL, None, k)
      | Some sg \<Rightarrow>
          if n \<ge> SHMMNI then (- EINVAL, None, k)
          else
            let sg1 = snd (validate_shm_refcount sg)
            in (0, Some ((shm_stat sg1)\<lparr>ds_nattch := shm_attach_count sg1\<rparr>), upd_seg n (\<lambda>_. sg1) k))"

abbreviation SIZEOF_SHMID_DS :: nat where "SIZEOF_SHMID_DS \<equiv> 96"

definition store_shmid_ds :: "addr \<Rightarrow> shmid_ds \<Rightarrow> mem \<Rightarrow> mem" where
  "store_shmid_ds a ds m =
     (let ip = ds_perm ds;
          m1 = fold (\<lambda>(off, w :: 32 word) m. write32 m (a + off) (unat w))
                 [(0, of_int (ip_key ip)), (4, of_nat (ip_uid ip)), (8, of_nat (ip_gid ip)), (12, of_nat (ip_cuid ip)),
                  (16, of_nat (ip_cgid ip)), (20, ip_mode ip), (24, 0), (28, 0), (80, of_int (ds_cpid ds)), (84, of_int (ds_lpid ds))] m
      in fold (\<lambda>(off, w) m. write64 m (a + off) w)
           [(32, 0), (40, 0), (48, of_nat (ds_segsz ds)), (56, 0), (64, 0), (72, 0), (88, of_int (ds_nattch ds))] m1)"

text \<open>\<open>ds\<close> is where the structure of the call is on the kernel stack.\<close>

definition sys_shmctl :: "addr \<Rightarrow> nat \<Rightarrow> nat \<Rightarrow> 64 word \<Rightarrow> addr \<Rightarrow> ksys \<Rightarrow> (int \<times> ksys) option" where
  "sys_shmctl ds me n cmd buf k =
     (if n \<ge> SHMMNI then Some (- EINVAL, k)
      else case ks_shm_segs k n of
        None \<Rightarrow> Some (- EINVAL, k)
      | Some sg \<Rightarrow>
          let pt = p_pagetable (ks_procs k me); v = ks_vm k
          in if cmd = IPC_RMID then Some (0, upd_seg n (\<lambda>sg. sg\<lparr>shm_is_deleted := True\<rparr>) k)
             else if cmd = IPC_STAT then
               Option.bind (access_ok v pt VERIFY_WRITE buf SIZEOF_SHMID_DS) (\<lambda>ok.
               if \<not> ok then Some (- EFAULT, k)
               else
                 map_option (\<lambda>(r, v1). (if r < 0 then - EFAULT else 0, with_vm k v1))
                   (copyout (v\<lparr>vs_pm := (vs_pm v)\<lparr>bs_mem := store_shmid_ds ds (shm_stat sg) (bs_mem (vs_pm v))\<rparr>\<rparr>) pt buf ds SIZEOF_SHMID_DS))
             else if cmd = IPC_SET then
               Option.bind (access_ok v pt VERIFY_READ buf SIZEOF_SHMID_DS) (\<lambda>ok.
               if \<not> ok then Some (- EFAULT, k)
               else
                 Option.bind (copyin v pt ds buf SIZEOF_SHMID_DS) (\<lambda>(r, v1).
                 if r < 0 then Some (- EFAULT, with_vm k v1)
                 else
                   let mode = of_nat (read32 (bs_mem (vs_pm v1)) (ds + 20)) AND 511
                   in Some (0, upd_seg n (\<lambda>sg. sg\<lparr>shm_perm := (shm_perm sg)\<lparr>ip_mode := (ip_mode (shm_perm sg) AND NOT 511) OR mode\<rparr>,
                        shm_flag := (shm_flag sg AND NOT 511) OR mode\<rparr>) (with_vm k v1))))
             else None)"

fun cleanup_attaches :: "int \<Rightarrow> shm_attach list \<Rightarrow> ksys \<Rightarrow> ksys option" where
  "cleanup_attaches pid [] k = Some k"
| "cleanup_attaches pid (at # ats) k =
     Option.bind
       (if at_shmid at < SHMMNI \<and> ks_shm_segs k (at_shmid at) \<noteq> None
        then shm_release (at_shmid at) (at_addr at) pid k else Some k) (\<lambda>k1.
     Option.bind (kfree_k (at_self at) k1) (cleanup_attaches pid ats))"

definition cleanup_process_shm_refs :: "nat \<Rightarrow> ksys \<Rightarrow> ksys option" where
  "cleanup_process_shm_refs i k =
     (let p = ks_procs k i
      in if p_shm_attaches p = [] then Some k
         else map_option (upd_proc i (\<lambda>p. p\<lparr>p_shm_attaches := []\<rparr>)) (cleanup_attaches (p_pid p) (p_shm_attaches p) k))"

section \<open>Releasing the areas of a process\<close>

text \<open>The pages of an area; those of a segment are only unmapped. \<^verbatim>\<open>dmwin_win0\<close> is 0 on RISC-V.\<close>

function clear_area :: "bool \<Rightarrow> addr \<Rightarrow> addr \<Rightarrow> addr \<Rightarrow> vmem \<Rightarrow> vmem option" where
  "clear_area shared pt a end v =
     (if a < end then
        Option.bind (walk v pt a False) (\<lambda>(pte, v1).
        let e = get64 (vs_pm v1) pte
        in if pte = 0 \<or> e AND PTE_V = 0 \<or> PTE_FLAGS e = PTE_V then clear_area shared pt (a + PGSIZE) end v1
           else
             Option.bind (if shared then Some (vs_pm v1) else pmem_free_pages (vs_pm v1) (PTE2PA e) 1) (\<lambda>s.
             clear_area shared pt (a + PGSIZE) end (v1\<lparr>vs_pm := put64 s pte 0\<rparr>)))
      else Some v)"
  by pat_completeness auto
termination
  by (relation "measure (\<lambda>(shared, pt, a, end, v). end - a)") auto

declare clear_area.simps [simp del]

definition detach_shared :: "nat \<Rightarrow> vma \<Rightarrow> ksys \<Rightarrow> ksys option" where
  "detach_shared i v k =
     (case vma_shm_kernel v of
        None \<Rightarrow> Some k
      | Some n \<Rightarrow>
          if vma_type v \<noteq> SHARE then Some k
          else if ks_shm_segs k n = None then None
          else
            let P = (\<lambda>at. at_addr at = vma_addr v \<and> at_shmid at = n); p = ks_procs k i
            in Option.bind (drop_record P (p_shm_attaches p) k) (\<lambda>k1.
               shm_release n (vma_addr v) (p_pid p) (upd_proc i (\<lambda>p. p\<lparr>p_shm_attaches := remove_first P (p_shm_attaches p)\<rparr>) k1)))"

fun free_list_areas :: "nat \<Rightarrow> vma list \<Rightarrow> ksys \<Rightarrow> ksys option" where
  "free_list_areas i [] k = Some k"
| "free_list_areas i (v # vs) k =
     Option.bind (detach_shared i v k) (\<lambda>k1.
     Option.bind (clear_area (vma_type v = SHARE) (p_pagetable (ks_procs k1 i)) (vma_addr v) (vma_end v) (ks_vm k1)) (\<lambda>vm.
     Option.bind (free_struct v (with_vm k1 vm)) (free_list_areas i vs)))"

definition free_vma_list :: "nat \<Rightarrow> ksys \<Rightarrow> (int \<times> ksys) option" where
  "free_vma_list i k =
     (let p = ks_procs k i
      in if p_vma_head p = 0 then Some (1, k)
         else
           Option.bind (free_list_areas i (p_vma p) k) (\<lambda>k1.
           map_option (\<lambda>s. (1, upd_proc i (\<lambda>p. p\<lparr>p_vma_head := 0, p_vma := []\<rparr>) (with_pm k1 s)))
             (pmem_free_pages (ks_pm k1) (p_vma_head p) 1)))"

section \<open>Copying the areas of a process\<close>

text \<open>
  The loop of \<^verbatim>\<open>vma_copy\<close>; \<open>dup\<close> is the call of the file operations for the file of a mapping. On an area whose
  segment has no pages the loop does not advance and never ends.
\<close>

fun copy_areas :: "(int \<Rightarrow> ksys \<Rightarrow> ksys) \<Rightarrow> vma list \<Rightarrow> ksys \<Rightarrow> (vma list \<times> ksys) option" where
  "copy_areas dup [] k = Some ([], k)"
| "copy_areas dup (v # vs) k =
     Option.bind (new_struct k) (\<lambda>(self, k1).
     let k2 = (if vma_type v = MMAP \<and> vma_fd v \<noteq> -1 then dup (vma_fd v) k1 else k1)
     in Option.bind
          (case vma_shm_kernel v of
             Some n \<Rightarrow>
               if vma_type v = SHARE then
                 (case ks_shm_segs k2 n of
                    None \<Rightarrow> None
                  | Some sg \<Rightarrow> if shm_pages sg = 0 then None
                      else Some (upd_seg n (\<lambda>sg. sg\<lparr>shm_attach_count := shm_attach_count sg + 1\<rparr>) k2))
               else Some k2
           | None \<Rightarrow> Some k2) (\<lambda>k3.
        map_option (\<lambda>(ws, k4). (v\<lparr>vma_self := self\<rparr> # ws, k4)) (copy_areas dup vs k3)))"

definition vma_copy :: "(int \<Rightarrow> ksys \<Rightarrow> ksys) \<Rightarrow> nat \<Rightarrow> vma list \<Rightarrow> ksys \<Rightarrow> (addr \<times> ksys) option" where
  "vma_copy dup np vs k =
     Option.bind (new_struct k) (\<lambda>(h0, k1).
     map_option (\<lambda>(ws, k2). (h0, upd_proc np (\<lambda>p. p\<lparr>p_vma_head := h0, p_vma := ws\<rparr>) k2)) (copy_areas dup vs k1))"

text \<open>The pages of a shared area in the table of the child: those of the segment, or those the parent has.\<close>

fun map_shared :: "addr \<Rightarrow> addr \<Rightarrow> vma \<Rightarrow> shmid_kernel \<Rightarrow> nat list \<Rightarrow> vmem \<Rightarrow> vmem option" where
  "map_shared old new v sg [] vm = Some vm"
| "map_shared old new v sg (i # is) vm =
     (let va = add64 (vma_addr v) (i * PGSIZE); inside = (int i < seg_pages (shm_size sg))
      in Option.bind (walk vm new va False) (\<lambda>(npte, vm1).
         if npte \<noteq> 0 \<and> get64 (vs_pm vm1) npte AND PTE_V \<noteq> 0 then map_shared old new v sg is vm1
         else
           let spa = unat (get64 (vs_pm vm1) (shm_pages sg + 8 * i))
           in if inside \<and> spa \<noteq> 0 then
                Option.bind (mappages vm1 new va spa PGSIZE (scast (vma_perm v) OR PTE_U)) (\<lambda>(r, vm2).
                if r \<noteq> 1 then None else map_shared old new v sg is vm2)
              else
                Option.bind (walk vm1 old va False) (\<lambda>(pte, vm2).
                let e = get64 (vs_pm vm2) pte
                in if pte \<noteq> 0 \<and> e AND PTE_V \<noteq> 0 then
                     Option.bind (mappages vm2 new va (PTE2PA e) PGSIZE (PTE_FLAGS e)) (\<lambda>(r, vm3).
                     if r \<noteq> 1 then None
                     else map_shared old new v sg is
                       (if inside then vm3\<lparr>vs_pm := put64 (vs_pm vm3) (shm_pages sg + 8 * i) (of_nat (PTE2PA e))\<rparr> else vm3))
                   else map_shared old new v sg is vm2)))"

text \<open>A page for the child, after a clean-up of the allocator if there is none.\<close>

definition page_for_child :: "vmem \<Rightarrow> (addr \<times> vmem) option" where
  "page_for_child vm =
     Option.bind (pmem_alloc_pages (vs_pm vm) 1) (\<lambda>(m, s).
     if m \<noteq> 0 then Some (m, vm\<lparr>vs_pm := s\<rparr>)
     else
       Option.bind (buddy_cleanup_and_rebuild s) (\<lambda>s1.
       Option.bind (pmem_alloc_pages s1 1) (\<lambda>(m1, s2).
       if m1 = 0 then None else Some (m1, vm\<lparr>vs_pm := s2\<rparr>))))"

function map_area :: "addr \<Rightarrow> addr \<Rightarrow> bool \<Rightarrow> addr \<Rightarrow> addr \<Rightarrow> vmem \<Rightarrow> vmem option" where
  "map_area old new copy a end vm =
     (if a < end then
        Option.bind (walk vm old a False) (\<lambda>(pte, vm1).
        let e = get64 (vs_pm vm1) pte
        in if pte = 0 \<or> e AND PTE_V = 0 then map_area old new copy (a + PGSIZE) end vm1
           else
             Option.bind (walk vm1 new a False) (\<lambda>(npte, vm2).
             if npte \<noteq> 0 \<and> get64 (vs_pm vm2) npte AND PTE_V \<noteq> 0 then map_area old new copy (a + PGSIZE) end vm2
             else
               let pa = PTE2PA e; flags = PTE_FLAGS e
               in Option.bind
                    (if copy \<or> flags AND PTE_W \<noteq> 0
                     then Option.bind (page_for_child vm2) (\<lambda>(m, vm3). mappages (move_mem vm3 m pa PGSIZE) new a m PGSIZE flags)
                     else mappages vm2 new a pa PGSIZE flags) (\<lambda>(r, vm4).
                  if r \<noteq> 1 then None else map_area old new copy (a + PGSIZE) end vm4)))
      else Some vm)"
  by pat_completeness auto
termination
  by (relation "measure (\<lambda>(old, new, copy, a, end, vm). end - a)") auto

declare map_area.simps [simp del]

definition vma_map :: "addr \<Rightarrow> addr \<Rightarrow> vma \<Rightarrow> ksys \<Rightarrow> (int \<times> ksys) option" where
  "vma_map old new v k =
     (case (if vma_type v = SHARE then vma_shm_kernel v else None) of
        Some n \<Rightarrow>
          (case ks_shm_segs k n of
             None \<Rightarrow> None
           | Some sg \<Rightarrow>
               if shm_pages sg = 0 then Some (0, k)
               else map_option (\<lambda>vm. (0, with_vm k vm))
                 (map_shared old new v sg [0..<nat (seg_pages (vma_size v))] (ks_vm k)))
      | None \<Rightarrow>
          map_option (\<lambda>vm. (0, with_vm k vm))
            (map_area old new (vma_type v = STACK \<or> vma_flags v AND MAP_PRIVATE \<noteq> 0 \<and> vma_perm v AND 4 \<noteq> 0)
              (vma_addr v) (vma_end v) (ks_vm k)))"

end
