(* ===== verification/Shm_Props.thy ===== *)
theory Shm_Props
  imports Shm Vma_Unmap Slab_Props "HOL-Library.Multiset"
begin

text \<open>
  What the shared memory calls promise. \<open>shm_ok\<close> is the invariant of the attachments: the counts of a segment
  and its list of records say the same, and they are the records of the processes. Creating a segment and
  looking its key up agree; an exit detaches twice.
\<close>

section \<open>The invariant of the attachments\<close>

text \<open>\<open>attached R n\<close>: where the processes, whose records are \<open>R\<close>, have the segment \<open>n\<close>.\<close>

definition attached :: "(nat \<Rightarrow> shm_attach list) \<Rightarrow> nat \<Rightarrow> addr multiset" where
  "attached R n = (\<Sum>i<NPROC. image_mset at_addr (filter_mset (\<lambda>at. at_shmid at = n) (mset (R i))))"

definition seg_ok :: "nat \<Rightarrow> shmid_kernel \<Rightarrow> bool" where
  "seg_ok n sg \<longleftrightarrow> shm_attach_count sg = int (length (shm_attach_list sg)) \<and> shm_nattch sg = shm_attach_count sg \<and>
     n < SHMMNI \<and> shm_shmid sg = n \<and> (\<forall>at \<in> set (shm_attach_list sg). at_shmid at = n)"

definition segs_ok :: "(nat \<Rightarrow> shmid_kernel option) \<Rightarrow> (nat \<Rightarrow> shm_attach list) \<Rightarrow> bool" where
  "segs_ok S R \<longleftrightarrow> (\<forall>n. case S n of
      None \<Rightarrow> attached R n = {#}
    | Some sg \<Rightarrow> seg_ok n sg \<and> attached R n = image_mset at_addr (mset (shm_attach_list sg)))"

abbreviation records :: "ksys \<Rightarrow> nat \<Rightarrow> shm_attach list" where
  "records k i \<equiv> p_shm_attaches (ks_procs k i)"

definition shm_ok :: "ksys \<Rightarrow> bool" where
  "shm_ok k \<longleftrightarrow> segs_ok (ks_shm_segs k) (records k)"

lemma attached_add:
  assumes "i < NPROC"
  shows "attached (R(i := at # R i)) n = (if at_shmid at = n then add_mset (at_addr at) (attached R n) else attached R n)"
proof -
  define g where "g R' j = image_mset at_addr (filter_mset (\<lambda>at. at_shmid at = n) (mset (R' j)))" for R' :: "nat \<Rightarrow> shm_attach list" and j
  have split: "attached R' n = g R' i + (\<Sum>j\<in>{..<NPROC} - {i}. g R' j)" for R'
    unfolding attached_def g_def using assms by (intro sum.remove) auto
  have "(\<Sum>j\<in>{..<NPROC} - {i}. g (R(i := at # R i)) j) = (\<Sum>j\<in>{..<NPROC} - {i}. g R j)"
    by (rule sum.cong) (auto simp: g_def)
  moreover have "g (R(i := at # R i)) i = (if at_shmid at = n then add_mset (at_addr at) (g R i) else g R i)"
    by (simp add: g_def)
  ultimately show ?thesis unfolding split by simp
qed

lemma attached_cong: "(\<And>i. mset (R i) = mset (R' i)) \<Longrightarrow> attached R n = attached R' n"
  by (simp add: attached_def)

lemma mset_remove_first: "x \<in> set xs \<Longrightarrow> P x \<Longrightarrow> \<exists>y \<in> set xs. P y \<and> find P xs = Some y \<and> mset xs = add_mset y (mset (remove_first P xs))"
  by (induction xs) auto

lemma remove_first_id: "\<forall>x \<in> set xs. \<not> P x \<Longrightarrow> remove_first P xs = xs \<and> find P xs = None"
  by (induction xs) auto

lemma attached_remove:
  assumes "i < NPROC" "mset (R i) = add_mset at (mset xs)"
  shows "attached R n = (if at_shmid at = n then add_mset (at_addr at) (attached (R(i := xs)) n) else attached (R(i := xs)) n)"
proof -
  have "attached R n = attached ((R(i := xs))(i := at # (R(i := xs)) i)) n" by (rule attached_cong) (simp add: assms(2))
  then show ?thesis using attached_add [OF assms(1), of "R(i := xs)" at n] by simp
qed

section \<open>What the pieces leave alone\<close>

lemma upd_seg_fields [simp]:
  "ks_shm_segs (upd_seg n f k) = (ks_shm_segs k)(n := map_option f (ks_shm_segs k n))"
  "ks_procs (upd_seg n f k) = ks_procs k" "ks_vm (upd_seg n f k) = ks_vm k"
  by (simp_all add: upd_seg_def)

lemma with_fields [simp]:
  "ks_shm_segs (with_pm k s) = ks_shm_segs k" "ks_procs (with_pm k s) = ks_procs k"
  "ks_shm_segs (with_vm k v) = ks_shm_segs k" "ks_procs (with_vm k v) = ks_procs k"
  "ks_shm_segs (upd_proc i f k) = ks_shm_segs k" "ks_procs (upd_proc i f k) = (ks_procs k)(i := f (ks_procs k i))"
  by (simp_all add: with_pm_def with_vm_def upd_proc_def)

text \<open>\<open>quiet k k'\<close>: the segments and the records of the processes are the same.\<close>

definition quiet :: "ksys \<Rightarrow> ksys \<Rightarrow> bool" where
  "quiet k k' \<longleftrightarrow> ks_shm_segs k' = ks_shm_segs k \<and> (\<forall>i. records k' i = records k i \<and> p_pid (ks_procs k' i) = p_pid (ks_procs k i))"

lemma quiet_refl [simp]: "quiet k k"
  by (simp add: quiet_def)

lemma quiet_trans: "quiet k k1 \<Longrightarrow> quiet k1 k2 \<Longrightarrow> quiet k k2"
  by (simp add: quiet_def)

lemma quiet_ok: "quiet k k' \<Longrightarrow> shm_ok k' = shm_ok k"
  by (simp add: quiet_def shm_ok_def)

lemma quiet_with [simp]: "quiet k (with_pm k s)" "quiet k (with_vm k v)" "quiet k (k\<lparr>ks_sharemem_start := x\<rparr>)"
  by (simp_all add: quiet_def with_pm_def with_vm_def)

lemma quiet_proc: "(\<And>p. p_shm_attaches (f p) = p_shm_attaches p \<and> p_pid (f p) = p_pid p) \<Longrightarrow> quiet k (upd_proc i f k)"
  by (simp add: quiet_def)

lemma quiet_free: "kfree_k a k = Some k' \<Longrightarrow> quiet k k'" "free_struct v k = Some k' \<Longrightarrow> quiet k k'"
  by (auto simp: kfree_k_def free_struct_def)

lemma quiet_alloc: "alloc_vma i t a sz perm alloc pa k = Some (v, k') \<Longrightarrow> quiet k k'"
  unfolding alloc_vma_def Let_def
  by (auto split: if_splits option.splits prod.splits vma_place.splits simp: quiet_def)

lemma quiet_attach_pages: "attach_pages me sg v perm k = Some k' \<Longrightarrow> quiet k k'"
  by (auto simp: attach_pages_def Let_def split: if_splits bind_splits)

lemma quiet_records: "free_records ats k = Some k' \<Longrightarrow> quiet k k'"
  by (induction ats arbitrary: k) (auto split: bind_splits dest: quiet_free(1) quiet_trans)

lemma quiet_pages: "free_seg_pages pages is k = Some k' \<Longrightarrow> quiet k k'"
proof (induction "is" arbitrary: k)
  case (Cons i "is")
  then show ?case by (auto simp: Let_def split: bind_splits if_splits dest!: Cons.IH) (metis quiet_with(1) quiet_trans)
qed simp

lemma quiet_drop: "drop_record P ats k = Some k' \<Longrightarrow> quiet k k'"
  by (auto simp: drop_record_def split: option.splits dest: quiet_free)

lemma quiet_attach: "new_attach a n k = Some (at, k') \<Longrightarrow> quiet k k' \<and> at_addr at = a \<and> at_shmid at = n"
  by (auto simp: new_attach_def)

section \<open>The operations keep the invariant\<close>

lemma segs_okD:
  assumes "segs_ok S R"
  shows "S n = Some sg \<Longrightarrow> seg_ok n sg" "S n = Some sg \<Longrightarrow> attached R n = image_mset at_addr (mset (shm_attach_list sg))"
    "S n = None \<Longrightarrow> attached R n = {#}"
  using assms by (auto simp: segs_ok_def split: option.splits dest: spec [of _ n])

lemma segs_ok_upd:
  assumes "segs_ok S R" "\<And>m. m \<noteq> n \<Longrightarrow> attached R' m = attached R m"
    and "case x of None \<Rightarrow> attached R' n = {#} | Some sg \<Rightarrow> seg_ok n sg \<and> attached R' n = image_mset at_addr (mset (shm_attach_list sg))"
  shows "segs_ok (S(n := x)) R'"
  unfolding segs_ok_def
proof
  fix m
  show "case (S(n := x)) m of None \<Rightarrow> attached R' m = {#}
    | Some sg \<Rightarrow> seg_ok m sg \<and> attached R' m = image_mset at_addr (mset (shm_attach_list sg))"
    using assms(2) [of m] assms(3) segs_okD [OF assms(1), of m] 
    by (cases "m = n"; cases x; cases "S m") simp_all
qed

lemma destroy_effect:
  assumes "destroy_seg n sg k = Some k'"
  shows "ks_shm_segs k' = (ks_shm_segs k)(n := None) \<and> (\<forall>i. records k' i = records k i \<and> p_pid (ks_procs k' i) = p_pid (ks_procs k i))"
proof -
  obtain k1 k2 k3 k4 where s: "free_records (shm_attach_list sg) k = Some k1"
    "free_seg_pages (shm_pages sg) [0..<nat (seg_pages (shm_size sg))] k1 = Some k2" "kfree_k (shm_pages sg) k2 = Some k3"
    "kfree_k (shm_self sg) k3 = Some k4" "k' = k4\<lparr>ks_shm_segs := (ks_shm_segs k4)(n := None)\<rparr>"
    using assms by (auto simp: destroy_seg_def split: bind_splits)
  have "quiet k k4" using quiet_records [OF s(1)] quiet_pages [OF s(2)] quiet_free(1) [OF s(3)] quiet_free(1) [OF s(4)]
    by (blast intro: quiet_trans)
  then show ?thesis by (simp add: s(5) quiet_def)
qed

lemma release_ok:
  assumes ok: "segs_ok (ks_shm_segs k) R" and r: "shm_release n a pid k = Some k'"
    and R': "attached R n = add_mset a (attached R' n)" "\<And>m. m \<noteq> n \<Longrightarrow> attached R' m = attached R m"
  shows "segs_ok (ks_shm_segs k') R' \<and> (\<forall>i. records k' i = records k i \<and> p_pid (ks_procs k' i) = p_pid (ks_procs k i))"
proof -
  define P :: "shm_attach \<Rightarrow> bool" where "P = (\<lambda>at. at_addr at = a \<and> at_shmid at = n)"
  obtain sg where sg: "ks_shm_segs k n = Some sg" using r by (auto simp: shm_release_def split: option.splits)
  note o = segs_okD(1,2) [OF ok sg]
  have "a \<in># image_mset at_addr (mset (shm_attach_list sg))" using o(2) R'(1) by (metis union_single_eq_member)
  then obtain at where "at \<in> set (shm_attach_list sg)" "P at" using o(1) by (auto simp: seg_ok_def P_def)
  then obtain y where y: "P y" "mset (shm_attach_list sg) = add_mset y (mset (remove_first P (shm_attach_list sg)))"
    using mset_remove_first [of at _ P] by blast
  define sg1 where "sg1 = sg\<lparr>shm_attach_count := shm_attach_count sg - 1, shm_lpid := pid, shm_nattch := shm_attach_count sg - 1,
    shm_attach_list := remove_first P (shm_attach_list sg)\<rparr>"
  have len: "length (shm_attach_list sg) = Suc (length (shm_attach_list sg1))"
    using arg_cong [OF y(2), of size] by (simp add: sg1_def)
  have sub: "set (shm_attach_list sg1) \<subseteq> set (shm_attach_list sg)"
    using arg_cong [OF y(2), of set_mset] by (auto simp: sg1_def)
  have s1: "seg_ok n sg1" using o(1) len sub by (auto simp: seg_ok_def sg1_def)
  have a1: "attached R' n = image_mset at_addr (mset (shm_attach_list sg1))"
    using o(2) y R'(1) by (auto simp: sg1_def P_def)
  obtain k1 where k1: "drop_record P (shm_attach_list sg) (upd_seg n (\<lambda>_. sg1) k) = Some k1"
    "k' = k1 \<and> \<not> (shm_is_deleted sg1 \<and> shm_attach_count sg1 = 0) \<or> destroy_seg n sg1 k1 = Some k' \<and> shm_attach_count sg1 = 0"
    using r [unfolded shm_release_def sg Let_def option.case, folded P_def, folded sg1_def]
    by (auto split: bind_splits if_splits)
  have q: "quiet (upd_seg n (\<lambda>_. sg1) k) k1" by (rule quiet_drop [OF k1(1)])
  have keep: "segs_ok ((ks_shm_segs k)(n := x)) R'" if "x = Some sg1 \<or> x = None \<and> shm_attach_count sg1 = 0" for x
    by (rule segs_ok_upd [OF ok R'(2)]) (use that s1 a1 in \<open>auto simp: seg_ok_def\<close>)
  show ?thesis using k1(2) q keep [of "Some sg1"] keep [of None] sg
    by (auto simp: quiet_def dest!: destroy_effect)
qed

lemma allocshmid_free:
  assumes "0 \<le> allocshmid k"
  shows "\<exists>n < SHMMNI. allocshmid k = int n \<and> ks_shm_segs k n = None \<and> (\<forall>m < n. ks_shm_segs k m \<noteq> None)"
proof (cases "find (\<lambda>i. ks_shm_segs k i = None) [0..<SHMMNI]")
  case None
  then have "allocshmid k = -1" by (simp only: allocshmid_def option.case)
  then show ?thesis using assms by simp
next
  case (Some n)
  then have "allocshmid k = int n" by (simp only: allocshmid_def option.case)
  then show ?thesis using Some by (force simp: find_Some_iff)
qed

lemma newseg_ok:
  assumes "shm_ok k" "newseg me key flg sz k = Some (r, k')"
  shows "shm_ok k'"
proof -
  have q: "shm_ok (with_pm k s)" for s using assms(1) quiet_ok [OF quiet_with(1)] by simp
  have new: "shm_ok ((with_pm k s)\<lparr>ks_shm_segs := (ks_shm_segs k)(nat (allocshmid k) \<mapsto> sg)\<rparr>)"
    if a: "0 \<le> allocshmid k" and sg: "shm_attach_list sg = []" "shm_attach_count sg = 0" "shm_nattch sg = 0" "shm_shmid sg = nat (allocshmid k)" for s sg
  proof -
    have "ks_shm_segs k (nat (allocshmid k)) = None" "nat (allocshmid k) < SHMMNI"
      using allocshmid_free [OF a] by auto
    then show ?thesis
      using assms(1) sg segs_ok_upd [of "ks_shm_segs k" "records k" "nat (allocshmid k)" "records k" "Some sg"]
        segs_okD(3) [of "ks_shm_segs k" "records k" "nat (allocshmid k)"]
      by (simp add: shm_ok_def seg_ok_def)
  qed
  show ?thesis using assms
    by (auto simp: newseg_def Let_def split: if_splits bind_splits intro!: q new)
qed


lemma get_ok: "shm_ok k \<Longrightarrow> sys_shmget me key sz flag k = Some (r, k') \<Longrightarrow> shm_ok k'"
  by (auto simp: sys_shmget_def Let_def split: if_splits option.splits dest: newseg_ok)

lemma record_attach_ok:
  assumes ok: "shm_ok k" and me: "me < NPROC" and n: "ks_shm_segs k n \<noteq> None" and r: "record_attach me n v k = Some k'"
  shows "shm_ok k'"
proof -
  let ?g = "\<lambda>sg. sg\<lparr>shm_attaches := vma_self v, shm_attach_count := shm_attach_count sg + 1,
                 shm_lpid := p_pid (ks_procs k me), shm_nattch := shm_attach_count sg + 1\<rparr>"
  let ?p = "\<lambda>at p. p\<lparr>p_shm_attaches := at # p_shm_attaches p\<rparr>"
  obtain at k2 at' k4 where s: "new_attach (vma_addr v) n (upd_seg n ?g k) = Some (at, k2)"
    "new_attach (vma_addr v) n (upd_proc me (?p at) k2) = Some (at', k4)"
    "k' = upd_seg n (\<lambda>sg. sg\<lparr>shm_attach_list := at' # shm_attach_list sg\<rparr>) k4"
    using r by (auto simp: record_attach_def Let_def split: bind_splits)
  obtain sg where sg: "ks_shm_segs k n = Some sg" using n by blast
  let ?sg = "(?g sg)\<lparr>shm_attach_list := at' # shm_attach_list sg\<rparr>" and ?R = "(records k)(me := at # records k me)"
  note q = quiet_attach [OF s(1)] quiet_attach [OF s(2)]
  have "ks_shm_segs k4 = (ks_shm_segs k)(n \<mapsto> ?g sg)" "records k4 = ?R" using q sg by (auto simp: quiet_def fun_eq_iff)
  then have "ks_shm_segs k' = (ks_shm_segs k)(n \<mapsto> ?sg)" "records k' = ?R" by (simp_all add: s(3))
  moreover have "segs_ok ((ks_shm_segs k)(n \<mapsto> ?sg)) ?R"
    by (rule segs_ok_upd [of _ "records k"])
      (use ok segs_okD(1,2) [of "ks_shm_segs k" "records k" n sg] sg q in \<open>auto simp: shm_ok_def seg_ok_def attached_add [OF me, of "records k" at]\<close>)
  ultimately show ?thesis by (simp add: shm_ok_def)
qed

lemma shmat_cases:
  assumes r: "sys_shmat me n a flg k = Some (x, k')"
  shows "quiet k k' \<or> (\<exists>k3 v. quiet k k3 \<and> ks_shm_segs k n \<noteq> None \<and> record_attach me n v k3 = Some k')"
proof -
  define E where "E \<longleftrightarrow> (\<exists>k3 v. quiet k k3 \<and> record_attach me n v k3 = Some k')"
  let ?f = "\<lambda>f. upd_proc me (\<lambda>p. p\<lparr>p_vma := f (p_vma p)\<rparr>)"
  have q: "quiet k (?f f k1)" if "quiet k k1" for k1 f
    using that by (rule quiet_trans) (rule quiet_proc, simp)
  have E: "alloc_vma me t b sz perm False 0 k = Some (v, k1) \<Longrightarrow> attach_pages me sg v perm (?f f k1) = Some k3 \<Longrightarrow>
      record_attach me n v k3 = Some k' \<or> record_attach me n v (k3\<lparr>ks_sharemem_start := y\<rparr>) = Some k' \<Longrightarrow> E" for t b sz perm v k1 f sg k3 y
  proof -
    assume v: "alloc_vma me t b sz perm False 0 k = Some (v, k1)" "attach_pages me sg v perm (?f f k1) = Some k3"
      "record_attach me n v k3 = Some k' \<or> record_attach me n v (k3\<lparr>ks_sharemem_start := y\<rparr>) = Some k'"
    have "quiet k k3" by (rule quiet_trans [OF q [OF quiet_alloc [OF v(1)]] quiet_attach_pages [OF v(2)]])
    then show E using v(3) quiet_trans [OF _ quiet_with(3)] unfolding E_def by blast
  qed
  have F: "alloc_vma me t b sz perm False 0 k = Some (v, k1) \<Longrightarrow> quiet k (?f g (with_pm (?f f k1) s))" for t b sz perm v k1 f g s
    by (rule q [OF quiet_trans [OF q [OF quiet_alloc] quiet_with(1)]])
  have "quiet k k' \<or> E \<and> ks_shm_segs k n \<noteq> None" using r unfolding sys_shmat_def Let_def
    by (auto split: if_splits option.splits sum.splits bind_splits intro: F dest: E [OF _ _ disjI1] E [OF _ _ disjI2])
  then show ?thesis by (auto simp: E_def)
qed

lemma at_ok: "shm_ok k \<Longrightarrow> me < NPROC \<Longrightarrow> sys_shmat me n a flg k = Some (x, k') \<Longrightarrow> shm_ok k'"
  using shmat_cases [of me n a flg k x k'] record_attach_ok [of _ me n _ k'] quiet_ok by (metis quiet_def)


text \<open>Taking a record away from a process and releasing the segment.\<close>

lemma attached_drop:
  assumes "i < NPROC" "mset (R i) = add_mset at (mset xs)"
  shows "attached R (at_shmid at) = add_mset (at_addr at) (attached (R(i := xs)) (at_shmid at))"
    "m \<noteq> at_shmid at \<Longrightarrow> attached (R(i := xs)) m = attached R m"
  using attached_remove [of i R at xs, OF assms] by auto

lemma record_has_segment:
  assumes "segs_ok S R" "i < NPROC" "at \<in> set (R i)"
  shows "S (at_shmid at) \<noteq> None" "at_shmid at < SHMMNI"
proof -
  have "attached R (at_shmid at) \<noteq> {#}"
    using attached_drop(1) [of i R at "remove1 at (R i)"] assms(2,3) by simp
  then show s: "S (at_shmid at) \<noteq> None" using segs_okD(3) [OF assms(1), of "at_shmid at"] by blast
  then show "at_shmid at < SHMMNI" using segs_okD(1) [OF assms(1)] by (auto simp: seg_ok_def)
qed

lemma dt_ok:
  assumes ok: "shm_ok k" and me: "me < NPROC" and r: "sys_shmdt me a k = Some (x, k')"
  shows "shm_ok k'"
proof (cases "find (\<lambda>at. at_addr at = a) (records k me)")
  case None
  then show ?thesis using ok r by (simp add: sys_shmdt_def)
next
  case (Some at)
  let ?n = "at_shmid at" and ?xs = "remove_first (\<lambda>at. at_addr at = a) (records k me)"
  let ?p = "\<lambda>p. p\<lparr>p_shm_attaches := remove_first (\<lambda>at. at_addr at = a) (p_shm_attaches p)\<rparr>"
  have at: "at \<in> set (records k me)" "at_addr at = a" using Some by (auto simp: find_Some_iff)
  then have xs: "mset (records k me) = add_mset at (mset ?xs)"
    using mset_remove_first [of at "records k me" "\<lambda>at. at_addr at = a"] Some by auto
  have n: "\<not> (SHMMNI \<le> ?n \<or> ks_shm_segs k ?n = None)"
    using record_has_segment [OF ok [unfolded shm_ok_def] me at(1)] by simp
  then obtain sg where sg: "ks_shm_segs k ?n = Some sg" by blast
  let ?Q = "\<lambda>v. vma_type v = SHARE \<and> vma_shm_kernel v = Some ?n \<and> vma_addr v = a"
  obtain vm k2 k3 where s:
    "(case find ?Q (p_vma (ks_procs k me)) of None \<Rightarrow> Some (with_vm k vm) | Some v \<Rightarrow> free_struct v (with_vm k vm)) = Some k2"
    "kfree_k (at_self at) (upd_proc me (\<lambda>p. p\<lparr>p_vma := remove_first ?Q (p_vma p)\<rparr>) k2) = Some k3"
    "shm_release ?n a (p_pid (ks_procs k me)) (upd_proc me ?p k3) = Some k'"
    using r [unfolded sys_shmdt_def Let_def Some option.case if_not_P [OF n], unfolded sg option.case]
    by (auto split: bind_splits)
  have "quiet (with_vm k vm) k2" using s(1) by (auto split: option.splits dest: quiet_free(2))
  then have "quiet k k2" using quiet_with(2) quiet_trans by blast
  then have "quiet k (upd_proc me (\<lambda>p. p\<lparr>p_vma := remove_first ?Q (p_vma p)\<rparr>) k2)"
    by (rule quiet_trans) (rule quiet_proc, simp)
  then have q: "quiet k k3" using quiet_free(1) [OF s(2)] quiet_trans by blast
  have R: "records (upd_proc me ?p k3) = (records k)(me := ?xs)" "ks_shm_segs (upd_proc me ?p k3) = ks_shm_segs k"
    using q by (auto simp: quiet_def)
  have "segs_ok (ks_shm_segs (upd_proc me ?p k3)) (records k)" using ok R(2) by (simp add: shm_ok_def)
  then have "segs_ok (ks_shm_segs k') ((records k)(me := ?xs)) \<and> (\<forall>i. records k' i = records (upd_proc me ?p k3) i)"
    using release_ok [OF _ s(3) attached_drop [of me "records k" at ?xs, OF me xs, unfolded at(2)]] by blast
  moreover from this have "records k' i = ((records k)(me := ?xs)) i" for i using fun_cong [OF R(1), of i] by simp
  ultimately show ?thesis unfolding shm_ok_def by presburger
qed


lemma cleanup_loop:
  assumes "segs_ok (ks_shm_segs k) R" "i < NPROC" "R i = ats" "cleanup_attaches pid ats k = Some k'"
  shows "segs_ok (ks_shm_segs k') (R(i := [])) \<and> (\<forall>j. records k' j = records k j)"
  using assms
proof (induction ats arbitrary: k R)
  case Nil
  then have "R(i := []) = R" by auto
  then show ?case using Nil by simp
next
  case (Cons at ats)
  note n = record_has_segment [OF Cons.prems(1,2), of at]
  obtain k1 k2 where s: "shm_release (at_shmid at) (at_addr at) pid k = Some k1" "kfree_k (at_self at) k1 = Some k2"
    "cleanup_attaches pid ats k2 = Some k'" using Cons.prems(3,4) n by (auto split: bind_splits)
  have d: "mset (R i) = add_mset at (mset ats)" using Cons.prems(3) by simp
  have k1: "segs_ok (ks_shm_segs k1) (R(i := ats))" "\<forall>j. records k1 j = records k j"
    using release_ok [OF Cons.prems(1) s(1) attached_drop [of i R at ats, OF Cons.prems(2) d]] by auto
  then have "segs_ok (ks_shm_segs k2) (R(i := ats))" "\<forall>j. records k2 j = records k j"
    using quiet_free(1) [OF s(2)] by (simp_all add: quiet_def)
  then show ?case using Cons.IH [OF _ Cons.prems(2) _ s(3), of "R(i := ats)"] by (simp del: fun_upd_apply add: fun_upd_same)
qed

lemma cleanup_ok:
  assumes ok: "shm_ok k" and i: "i < NPROC" and r: "cleanup_process_shm_refs i k = Some k'"
  shows "shm_ok k' \<and> records k' i = []"
proof (cases "records k i = []")
  case True
  then show ?thesis using ok r by (simp add: cleanup_process_shm_refs_def)
next
  case False
  let ?p = "\<lambda>p. p\<lparr>p_shm_attaches := []\<rparr>"
  obtain k1 where k1: "cleanup_attaches (p_pid (ks_procs k i)) (records k i) k = Some k1" "k' = upd_proc i ?p k1"
    using r False by (auto simp: cleanup_process_shm_refs_def Let_def)
  have "segs_ok (ks_shm_segs k1) ((records k)(i := []))" "\<forall>j. records k1 j = records k j"
    using cleanup_loop [OF ok [unfolded shm_ok_def] i refl k1(1)] by auto
  moreover from this(2) have "records k' = (records k)(i := [])" by (auto simp: k1(2))
  ultimately show ?thesis by (simp add: shm_ok_def k1(2))
qed

lemma seg_upd_ok:
  assumes ok: "shm_ok k" and f: "\<And>sg. shm_attach_count (f sg) = shm_attach_count sg \<and> shm_nattch (f sg) = shm_nattch sg \<and>
    shm_shmid (f sg) = shm_shmid sg \<and> shm_attach_list (f sg) = shm_attach_list sg"
  shows "shm_ok (upd_seg n f k)"
proof -
  have "segs_ok ((ks_shm_segs k)(n := map_option f (ks_shm_segs k n))) (records k)"
    by (rule segs_ok_upd)
      (use ok f segs_okD [of "ks_shm_segs k" "records k" n] in \<open>auto simp: shm_ok_def seg_ok_def split: option.splits\<close>)
  then show ?thesis by (simp add: shm_ok_def)
qed

lemma ctl_ok: "shm_ok k \<Longrightarrow> sys_shmctl ds me n cmd buf k = Some (r, k') \<Longrightarrow> shm_ok k'"
  unfolding sys_shmctl_def
  by (auto simp: Let_def quiet_ok [OF quiet_with(2)] split: if_splits option.splits bind_splits intro!: seg_upd_ok)

text \<open>
  The calls of processes on shared memory, in any order, and whatever else the kernel does that leaves the
  segments and the records of the processes alone. Forking is not among them: it counts an attachment of the
  child without a record.
\<close>

inductive shm_step :: "ksys \<Rightarrow> ksys \<Rightarrow> bool" where
  Get: "sys_shmget me key sz flag k = Some (r, k') \<Longrightarrow> shm_step k k'"
| At: "me < NPROC \<Longrightarrow> sys_shmat me n a flag k = Some (r, k') \<Longrightarrow> shm_step k k'"
| Dt: "me < NPROC \<Longrightarrow> sys_shmdt me a k = Some (r, k') \<Longrightarrow> shm_step k k'"
| Ctl: "sys_shmctl ds me n cmd buf k = Some (r, k') \<Longrightarrow> shm_step k k'"
| Exit: "me < NPROC \<Longrightarrow> cleanup_process_shm_refs me k = Some k' \<Longrightarrow> shm_step k k'"
| Other: "quiet k k' \<Longrightarrow> shm_step k k'"

lemma shm_ok_step: "shm_step k k' \<Longrightarrow> shm_ok k \<Longrightarrow> shm_ok k'"
  by (induction rule: shm_step.induct) (auto simp: quiet_ok intro: get_ok at_ok dt_ok ctl_ok dest: cleanup_ok)

lemma shm_ok_reachable: "shm_step\<^sup>*\<^sup>* k0 k \<Longrightarrow> shm_ok k0 \<Longrightarrow> shm_ok k"
  by (induction rule: rtranclp_induct) (auto intro: shm_ok_step)

definition no_shm :: "ksys \<Rightarrow> bool" where
  "no_shm k \<longleftrightarrow> ks_shm_segs k = Map.empty \<and> (\<forall>i < NPROC. records k i = [])"

lemma no_shm_ok: "no_shm k \<Longrightarrow> shm_ok k"
  by (simp add: no_shm_def shm_ok_def segs_ok_def attached_def)

lemma attached_size: "size (attached R n) = (\<Sum>i<NPROC. length (filter (\<lambda>at. at_shmid at = n) (R i)))"
  unfolding attached_def size_multiset_sum by (simp add: mset_filter [symmetric] del: mset_filter)

text \<open>
  C11: From a state without shared memory, whatever the processes do with \<^verbatim>\<open>shmget\<close>, \<^verbatim>\<open>shmat\<close>, \<^verbatim>\<open>shmdt\<close>,
  \<^verbatim>\<open>shmctl\<close> and the clean-up of an exit: the attach count of every segment, the count it reports and the
  length of its list are the number of records that the processes have of it, at the same addresses; and every record of
  a process is of a segment that exists, so that a detachment never meets a segment that is gone.
\<close>

theorem attach_counts_exact:
  assumes "shm_step\<^sup>*\<^sup>* k0 k" "no_shm k0"
  shows "(\<forall>n sg. ks_shm_segs k n = Some sg \<longrightarrow>
      n < SHMMNI \<and> shm_shmid sg = n \<and> shm_nattch sg = shm_attach_count sg \<and>
      shm_attach_count sg = int (length (shm_attach_list sg)) \<and>
      shm_attach_count sg = int (\<Sum>i<NPROC. length (filter (\<lambda>at. at_shmid at = n) (p_shm_attaches (ks_procs k i)))) \<and>
      image_mset at_addr (mset (shm_attach_list sg)) = attached (\<lambda>i. p_shm_attaches (ks_procs k i)) n) \<and>
    (\<forall>i < NPROC. \<forall>at \<in> set (p_shm_attaches (ks_procs k i)). ks_shm_segs k (at_shmid at) \<noteq> None)"
proof (intro conjI allI impI ballI)
  have ok: "segs_ok (ks_shm_segs k) (records k)"
    using shm_ok_reachable [OF assms(1) no_shm_ok [OF assms(2)]] by (simp add: shm_ok_def)
  fix n sg assume sg: "ks_shm_segs k n = Some sg"
  note o = segs_okD(1,2) [OF ok sg]
  show "n < SHMMNI" "shm_shmid sg = n" "shm_nattch sg = shm_attach_count sg" "shm_attach_count sg = int (length (shm_attach_list sg))"
    "image_mset at_addr (mset (shm_attach_list sg)) = attached (records k) n"
    using o by (simp_all add: seg_ok_def)
  show "shm_attach_count sg = int (\<Sum>i<NPROC. length (filter (\<lambda>at. at_shmid at = n) (records k i)))"
    using o unfolding attached_size [symmetric] by (simp add: seg_ok_def)
next
  fix i at assume "i < NPROC" "at \<in> set (records k i)"
  then show "ks_shm_segs k (at_shmid at) \<noteq> None"
    using record_has_segment(1) shm_ok_reachable [OF assms(1) no_shm_ok [OF assms(2)]] unfolding shm_ok_def by blast
qed


section \<open>Creating a segment and finding it\<close>

lemma findshm_None: "findshm key k < 0 \<longleftrightarrow> (\<forall>n < SHMMNI. \<forall>sg. ks_shm_segs k n = Some sg \<longrightarrow> shm_key sg \<noteq> key)"
proof (cases "find (\<lambda>i. \<exists>sg. ks_shm_segs k i = Some sg \<and> shm_key sg = key) [0..<SHMMNI]")
  case None
  then have "findshm key k = -1" by (simp only: findshm_def option.case)
  then show ?thesis using None by (force simp: find_None_iff)
next
  case (Some n)
  then have "findshm key k = int n" by (simp only: findshm_def option.case)
  then show ?thesis using Some by (force simp: find_Some_iff)
qed

lemma findshm_Some:
  assumes "0 \<le> findshm key k"
  obtains n sg where "findshm key k = int n" "n < SHMMNI" "ks_shm_segs k n = Some sg" "shm_key sg = key"
proof (cases "find (\<lambda>i. \<exists>sg. ks_shm_segs k i = Some sg \<and> shm_key sg = key) [0..<SHMMNI]")
  case None
  then have "findshm key k = -1" by (simp only: findshm_def option.case)
  then show ?thesis using assms by simp
next
  case (Some n)
  then have "findshm key k = int n" by (simp only: findshm_def option.case)
  then show ?thesis using Some that by (force simp: find_Some_iff)
qed

lemma findshm_only:
  assumes "ks_shm_segs k n = Some sg" "n < SHMMNI" "shm_key sg = key"
    and "\<And>m tg. m \<noteq> n \<Longrightarrow> ks_shm_segs k m = Some tg \<Longrightarrow> m < SHMMNI \<Longrightarrow> shm_key tg \<noteq> key"
  shows "findshm key k = int n"
proof -
  have "0 \<le> findshm key k" using findshm_None [of key k] assms(1-3) by force
  then obtain m tg where "findshm key k = int m" "m < SHMMNI" "ks_shm_segs k m = Some tg" "shm_key tg = key"
    by (rule findshm_Some)
  then show ?thesis using assms(4) by (cases "m = n") auto
qed

lemma allocshmid_least:
  assumes "n < SHMMNI" "ks_shm_segs k n = None" "\<And>m. m < n \<Longrightarrow> ks_shm_segs k m \<noteq> None"
  shows "allocshmid k = int n"
proof -
  have "find (\<lambda>i. ks_shm_segs k i = None) [0..<SHMMNI] = Some n"
    unfolding find_Some_iff using assms by (intro exI [of _ n]) auto
  then show ?thesis by (simp only: allocshmid_def option.case)
qed

lemma int_pages_small:
  assumes "0 \<le> sz" "sz \<le> 511 * 4096"
  shows "int_pages sz = (sz + 4095) div 4096" "0 \<le> int_pages sz" "int_pages sz \<le> 511"
proof -
  have "(sz + 4095) mod 2 ^ 64 = sz + 4095" using assms by (intro mod_pos_pos_trivial) auto
  then have "int32 (u64 (sz + 4095)) = sz + 4095" using assms by (simp add: u64_def int32_in_range)
  then show e: "int_pages sz = (sz + 4095) div 4096"
    using assms(1) by (simp add: int_pages_def Let_def sgn_if)
  show "0 \<le> int_pages sz" "int_pages sz \<le> 511" unfolding e using assms by auto
qed

lemma newseg_creates:
  assumes pm: "buddy_wf (ks_pm k)" "\<not> bs_lock (ks_pm k)" "2 \<le> free_count (ks_pm k)"
    and sz: "0 \<le> sz" "sz \<le> 511 * 4096" and key: "key = IPC_PRIVATE \<or> findshm key k < 0" and n: "allocshmid k = int n"
  obtains sg k' where "newseg me key flg sz k = Some (int n, k')" "ks_shm_segs k' = (ks_shm_segs k)(n \<mapsto> sg)" "ks_procs k' = ks_procs k"
    "shm_key sg = key" "int (shm_size sg) = sz" "shm_attach_count sg = 0" "shm_attach_list sg = []" "shm_attaches sg = 0" "\<not> shm_is_deleted sg"
    "ip_uid (shm_perm sg) = p_euid (ks_procs k me)" "ip_gid (shm_perm sg) = p_egid (ks_procs k me)" "ip_mode (shm_perm sg) = flg AND 511"
    "shm_self sg \<noteq> shm_pages sg" "{shm_self sg, shm_pages sg} \<inter> live_structs (ks_pm k) = {}"
    "live_structs (ks_pm k') = {shm_self sg, shm_pages sg} \<union> live_structs (ks_pm k)"
    "buddy_wf (ks_pm k')" "\<not> bs_lock (ks_pm k')" "free_count (ks_pm k') = free_count (ks_pm k) - 2" "shm_pages sg \<noteq> 0"
proof -
  obtain shp s where s: "pmem_alloc_pages (ks_pm k) 1 = Some (shp, s)" "buddy_wf s" "\<not> bs_lock s" "shp \<noteq> 0" "shp \<notin> live_structs (ks_pm k)"
    "live_structs s = insert shp (live_structs (ks_pm k))" "free_count s = free_count (ks_pm k) - 1"
    using pg.new_struct [of "ks_pm k"] pm by auto
  obtain pgs s1 where s1: "pmem_alloc_pages s 1 = Some (pgs, s1)" "buddy_wf s1" "\<not> bs_lock s1" "pgs \<noteq> 0" "pgs \<notin> live_structs s"
    "live_structs s1 = insert pgs (live_structs s)" "free_count s1 = free_count s - 1"
    using pg.new_struct [of s] s pm(3) by auto
  have b: "(int_pages sz * 8) mod 2 ^ 64 = int_pages sz * 8" using int_pages_small [OF sz] by (intro mod_pos_pos_trivial) auto
  have c: "add64 (u64 (int_pages sz * 8)) PGSIZE div PGSIZE = 1"
    using int_pages_small [OF sz] by (simp add: u64_def b add64_in_range)
  have one: "int32 1 = 1" by (simp add: int32_in_range)
  have z: "sz mod 2 ^ 64 = sz" using sz by (intro mod_pos_pos_trivial) auto
  define seg where "seg = \<lparr>shm_self = shp, shm_key = key, shm_shmid = n, shm_size = u64 sz, shm_flag = flg,
     shm_attach_count = 0, shm_is_deleted = False, shm_pages = pgs, shm_attaches = 0,
     shm_perm = \<lparr>ip_key = key, ip_uid = p_euid (ks_procs k me), ip_gid = p_egid (ks_procs k me), ip_cuid = p_euid (ks_procs k me),
                 ip_cgid = p_egid (ks_procs k me), ip_mode = flg AND 511\<rparr>,
     shm_segsz = u64 sz mod 2 ^ 32, shm_cpid = p_pid (ks_procs k me), shm_lpid = p_pid (ks_procs k me), shm_nattch = 0,
     shm_attach_list = []\<rparr>"
  let ?k = "(with_pm k (s1\<lparr>bs_mem := memset (bs_mem s1) pgs 0 (u64 (int_pages sz * 8) mod 2 ^ 32)\<rparr>))\<lparr>ks_shm_segs := (ks_shm_segs k)(n \<mapsto> seg)\<rparr>"
  have nf: "\<not> (key \<noteq> IPC_PRIVATE \<and> 0 \<le> findshm key k)" using key by auto
  have new: "newseg me key flg sz k = Some (int n, ?k)"
    unfolding newseg_def Let_def if_not_P [OF nf] kalloc_def s(1) n c one by (simp add: s(4) s1(1,4) seg_def)
  have k: "ks_pm ?k = s1\<lparr>bs_mem := memset (bs_mem s1) pgs 0 (u64 (int_pages sz * 8) mod 2 ^ 32)\<rparr>"
    by (simp add: with_pm_def)
  have u: "int (u64 sz) = sz" unfolding u64_def z using sz(1) by simp
  have l: "live_structs (s1\<lparr>bs_mem := m\<rparr>) = {shp, pgs} \<union> live_structs (ks_pm k)" for m
    using s(6) s1(6) by (auto simp: live_structs_def)
  have d: "shp \<noteq> pgs" "{shp, pgs} \<inter> live_structs (ks_pm k) = {}" using s(5,6) s1(5) by auto
  have c: "free_count s1 = free_count (ks_pm k) - 2" using s(7) s1(7) by simp
  show ?thesis
    by (rule that [of ?k seg], rule new, unfold k) (simp_all add: seg_def u l d c s1(2-4))
qed


text \<open>The owner may do what the mode it gave says.\<close>

lemma owner_permission:
  assumes "ip_uid (shm_perm sg) = p_euid p" "ip_mode (shm_perm sg) = ucast (flag :: 64 word) AND 511"
  shows "flag AND 256 \<noteq> 0 \<Longrightarrow> has_shm_permission p sg SHM_R" "flag AND 128 \<noteq> 0 \<Longrightarrow> has_shm_permission p sg SHM_W"
proof -
  have b: "w AND 256 \<noteq> 0 \<longleftrightarrow> bit w 8" "w AND 128 \<noteq> 0 \<longleftrightarrow> bit w 7" for w :: "'a::len word"
    using and_exp_eq_0_iff_not_bit [of w 8] and_exp_eq_0_iff_not_bit [of w 7] by simp_all
  have m: "bit (511 :: 32 word) 8" "bit (511 :: 32 word) 7" by simp_all
  show "flag AND 256 \<noteq> 0 \<Longrightarrow> has_shm_permission p sg SHM_R" "flag AND 128 \<noteq> 0 \<Longrightarrow> has_shm_permission p sg SHM_W"
    unfolding has_shm_permission_def class_allows_def Let_def assms b using m by (simp_all add: bit_and_iff bit_ucast_iff)
qed

lemma shmget_new:
  assumes "findshm (sint (ucast key :: 32 word)) k < 0" "sint (ucast key :: 32 word) \<noteq> 0" "flag AND 512 \<noteq> 0"
  shows "sys_shmget me key sz flag k = newseg me (sint (ucast key :: 32 word)) (ucast flag) (sint (ucast sz :: 32 word)) k"
  using assms by (simp add: sys_shmget_def Let_def)

text \<open>
  C19: \<^verbatim>\<open>shmget\<close> of a key that no segment has, with \<^verbatim>\<open>IPC_CREAT\<close> and a size of at most 511 pages: two free pages are
  enough, it returns the first free number, and the segment there has the key, the size, the caller as owner
  and no attachment; all other segments are as they were. From then on \<^verbatim>\<open>shmget\<close> of the key by its owner
  returns the same number and changes nothing, as far as the mode allows, and with \<^verbatim>\<open>IPC_EXCL\<close> it reports
  that the segment exists.
\<close>

theorem shmget_creates_found:
  fixes key sz flag :: "64 word"
  defines "key' \<equiv> sint (ucast key :: 32 word)" and "sz' \<equiv> sint (ucast sz :: 32 word)"
  assumes pm: "buddy_wf (ks_pm k)" "\<not> bs_lock (ks_pm k)" "2 \<le> free_count (ks_pm k)"
    and sz: "0 \<le> sz'" "sz' \<le> 511 * 4096" and key: "key' \<noteq> 0" "\<And>m sg. ks_shm_segs k m = Some sg \<Longrightarrow> shm_key sg \<noteq> key'"
    and n: "n < SHMMNI" "ks_shm_segs k n = None" "\<And>m. m < n \<Longrightarrow> ks_shm_segs k m \<noteq> None"
    and flag: "flag AND 512 \<noteq> 0"
  shows "\<exists>sg k'. sys_shmget me key sz flag k = Some (int n, k') \<and> ks_shm_segs k' = (ks_shm_segs k)(n \<mapsto> sg) \<and>
    shm_key sg = key' \<and> int (shm_size sg) = sz' \<and> shm_attach_count sg = 0 \<and> shm_attach_list sg = [] \<and>
    ip_uid (shm_perm sg) = p_euid (ks_procs k me) \<and> ks_procs k' = ks_procs k \<and>
    (\<forall>sz2 flag2. flag2 AND 1024 = 0 \<longrightarrow> flag AND 256 \<noteq> 0 \<longrightarrow> (flag2 AND 128 \<noteq> 0 \<longrightarrow> flag AND 128 \<noteq> 0) \<longrightarrow>
       sys_shmget me key sz2 flag2 k' = Some (int n, k')) \<and>
    (\<forall>sz2 flag2. flag2 AND 1024 \<noteq> 0 \<longrightarrow> sys_shmget me key sz2 flag2 k' = Some (- EEXIST, k'))"
proof -
  have nf: "findshm key' k < 0" using findshm_None key(2) by blast
  obtain sg k' where s: "newseg me key' (ucast flag) sz' k = Some (int n, k')" "ks_shm_segs k' = (ks_shm_segs k)(n \<mapsto> sg)"
    "ks_procs k' = ks_procs k" "shm_key sg = key'" "int (shm_size sg) = sz'" "shm_attach_count sg = 0" "shm_attach_list sg = []"
    "ip_uid (shm_perm sg) = p_euid (ks_procs k me)" "ip_mode (shm_perm sg) = ucast flag AND 511"
    using newseg_creates [OF pm sz, of key' n me "ucast flag"] nf allocshmid_least [of n k] n by blast
  have get: "sys_shmget me key sz flag k = Some (int n, k')"
    using shmget_new [of key k flag me sz] nf key(1) flag s(1) unfolding key'_def sz'_def by simp
  have f: "findshm key' k' = int n" by (rule findshm_only) (use s n(1) key(2) in \<open>auto split: if_splits\<close>)
  note own = owner_permission [OF s(8,9)]
  have ok: "check_shm_permissions (ks_procs k me) sg req = 0"
    if "flag AND 256 \<noteq> 0" "req = SHM_R \<or> flag AND 128 \<noteq> 0" for req
    using own that by (auto simp: check_shm_permissions_def)
  have sn: "ks_shm_segs k' n = Some sg" by (simp add: s(2))
  have "sys_shmget me key sz2 flag2 k' = Some (int n, k')"
    if "flag2 AND 1024 = 0" "flag AND 256 \<noteq> 0" "flag2 AND 128 \<noteq> 0 \<longrightarrow> flag AND 128 \<noteq> 0" for sz2 flag2
    unfolding sys_shmget_def Let_def using that key(1) ok [of "if flag2 AND 128 \<noteq> 0 then SHM_R OR SHM_W else SHM_R"]
    by (simp add: f sn s(3) flip: key'_def)
  moreover have "sys_shmget me key sz2 flag2 k' = Some (- EEXIST, k')" if "flag2 AND 1024 \<noteq> 0" for sz2 flag2
    unfolding sys_shmget_def Let_def using that key(1) by (simp add: f sn flip: key'_def)
  ultimately show ?thesis using get s by blast
qed


section \<open>An exit detaches twice\<close>

definition holds :: "addr set \<Rightarrow> buddy_system \<Rightarrow> bool" where
  "holds A s \<longleftrightarrow> buddy_wf s \<and> \<not> bs_lock s \<and> A \<subseteq> live_structs s"

lemma holds_mono: "holds A s \<Longrightarrow> B \<subseteq> A \<Longrightarrow> holds B s"
  by (auto simp: holds_def)

lemma free_held:
  assumes "holds A s" "a \<in> A"
  obtains s' where "pmem_free_pages s a 1 = Some s'" "holds (A - {a}) s'" "bs_mem s' = bs_mem s" "live_structs s' = live_structs s - {a}"
proof -
  obtain s' where "pmem_free_pages s a 1 = Some s'" "buddy_wf s'" "\<not> bs_lock s'" "bs_mem s' = bs_mem s"
    "live_blocks s' = live_blocks s - {(a, 0)}"
    using pmem_free_struct [of s a] assms by (auto simp: holds_def live_structs_def)
  moreover from this(5) have "live_structs s' = live_structs s - {a}" by (auto simp: live_structs_def)
  ultimately show ?thesis using that assms by (auto simp: holds_def)
qed

lemma kfree_held:
  assumes "holds A (ks_pm k)" "a \<in> A"
  obtains s' where "kfree_k a k = Some (with_pm k s')" "holds (A - {a}) s'" "bs_mem s' = bs_mem (ks_pm k)"
    "live_structs s' = live_structs (ks_pm k) - {a}"
  using free_held [OF assms] by (metis kfree_k_def kfree_def option.map(2))

text \<open>The end of a segment of one page whose structures and page are live pages.\<close>

lemma destroy_one_page:
  assumes h: "holds ({at_self at, pa, shm_pages sg, shm_self sg}) (ks_pm k)" and d: "distinct [at_self at, pa, shm_pages sg, shm_self sg]"
    and sg: "shm_attach_list sg = [at]" "0 < shm_size sg" "shm_size sg \<le> PGSIZE" "unat (get64 (ks_pm k) (shm_pages sg)) = pa" "pa \<noteq> 0"
  shows "\<exists>k'. destroy_seg n sg k = Some k' \<and> ks_shm_segs k' = (ks_shm_segs k)(n := None) \<and> ks_procs k' = ks_procs k \<and>
    live_structs (ks_pm k') = live_structs (ks_pm k) - {at_self at, pa, shm_pages sg, shm_self sg}"
proof -
  have "add64 (shm_size sg) 4095 div 4096 = 1" using sg(2,3) by (simp add: add64_in_range div_nat_eqI)
  then have np: "nat (seg_pages (shm_size sg)) = 1" by (simp add: seg_pages_def int32_in_range)
  obtain s1 where s1: "kfree_k (at_self at) k = Some (with_pm k s1)" "holds ({pa, shm_pages sg, shm_self sg}) s1"
    "bs_mem s1 = bs_mem (ks_pm k)" "live_structs s1 = live_structs (ks_pm k) - {at_self at}"
    using kfree_held [OF h, of "at_self at"] d by (metis Diff_insert_absorb distinct.simps(2) insertI1 list.simps(15) set_empty2)
  obtain s2 where s2: "pmem_free_pages s1 pa 1 = Some s2" "holds ({shm_pages sg, shm_self sg}) s2" "live_structs s2 = live_structs s1 - {pa}"
    using free_held [OF s1(2), of pa] d by (auto simp: insert_Diff_if)
  obtain s3 where s3: "kfree_k (shm_pages sg) (with_pm k s2) = Some (with_pm k s3)" "holds ({shm_self sg}) s3"
    "live_structs s3 = live_structs s2 - {shm_pages sg}"
    using kfree_held [of "{shm_pages sg, shm_self sg}" "with_pm k s2" "shm_pages sg"] s2(2) d by (auto simp: insert_Diff_if with_pm_def)
  obtain s4 where s4: "kfree_k (shm_self sg) (with_pm k s3) = Some (with_pm k s4)" "live_structs s4 = live_structs s3 - {shm_self sg}"
    using kfree_held [of "{shm_self sg}" "with_pm k s3" "shm_self sg"] s3(2) by (auto simp: with_pm_def)
  have "free_seg_pages (shm_pages sg) [0..<nat (seg_pages (shm_size sg))] (with_pm k s1) = Some (with_pm k s2)"
    unfolding np using s1(3) s2(1) sg(4,5) by (simp add: with_pm_def Let_def)
  then have "destroy_seg n sg k = Some ((with_pm k s4)\<lparr>ks_shm_segs := (ks_shm_segs k)(n := None)\<rparr>)"
    by (simp add: destroy_seg_def sg(1) s1(1) s3(1) s4(1))
  moreover have "live_structs s4 = live_structs (ks_pm k) - {at_self at, pa, shm_pages sg, shm_self sg}"
    using s1(4) s2(3) s3(3) s4(2) by auto
  ultimately show ?thesis by (auto simp: with_pm_def)
qed


text \<open>
  C35: An exit detaches a segment twice: the clean-up of the records takes one attachment off the count, and the
  release of the area, which has no record any more, takes off another. With two processes attached to a
  segment that is marked deleted, the exit of one of them destroys the segment and gives its page back to the
  allocator, although the other process is still attached.
\<close>

theorem exit_detaches_twice:
  assumes seg: "ks_shm_segs k n = Some sg" "n < SHMMNI" "shm_attach_count sg = 2" "shm_is_deleted sg" "shm_attach_list sg = [mine, other]"
      "0 < shm_size sg" "shm_size sg \<le> PGSIZE" "unat (get64 (ks_pm k) (shm_pages sg)) = pa" "pa \<noteq> 0"
    and recs: "at_addr mine = a" "at_shmid mine = n" "at_addr other \<noteq> a"
    and me: "p_shm_attaches (ks_procs k me) = [at]" "at_addr at = a" "at_shmid at = n"
    and v: "p_vma (ks_procs k me) = v # vs" "vma_type v = SHARE" "vma_shm_kernel v = Some n" "vma_addr v = a"
    and pm: "buddy_wf (ks_pm k)" "\<not> bs_lock (ks_pm k)"
      "distinct [at_self at, at_self mine, at_self other, pa, shm_pages sg, shm_self sg]"
      "{at_self at, at_self mine, at_self other, pa, shm_pages sg, shm_self sg} \<subseteq> live_structs (ks_pm k)"
  shows "\<exists>k1 sg1 k2. cleanup_process_shm_refs me k = Some k1 \<and>
    ks_shm_segs k1 n = Some sg1 \<and> shm_attach_count sg1 = 1 \<and> shm_attach_list sg1 = [other] \<and>
    detach_shared me v k1 = Some k2 \<and> ks_shm_segs k2 n = None \<and> pa \<notin> live_structs (ks_pm k2) \<and>
    (\<forall>j. j \<noteq> me \<longrightarrow> ks_procs k2 j = ks_procs k j)"
proof -
  let ?P = "\<lambda>at. at_addr at = a \<and> at_shmid at = n" and ?pid = "p_pid (ks_procs k me)"
  let ?A = "{at_self at, at_self mine, at_self other, pa, shm_pages sg, shm_self sg}"
  define sg1 where "sg1 = sg\<lparr>shm_attach_count := 1, shm_lpid := ?pid, shm_nattch := 1, shm_attach_list := [other]\<rparr>"
  define sg2 where "sg2 = sg1\<lparr>shm_attach_count := 0, shm_lpid := ?pid, shm_nattch := 0, shm_attach_list := [other]\<rparr>"
  let ?k1 = "upd_seg n (\<lambda>_. sg1) k" and ?p = "\<lambda>p. p\<lparr>p_shm_attaches := []\<rparr>"
  have h: "holds ?A (ks_pm ?k1)" using pm by (simp add: holds_def)
  obtain s1 where s1: "kfree_k (at_self mine) ?k1 = Some (with_pm ?k1 s1)" "holds (?A - {at_self mine}) s1" "bs_mem s1 = bs_mem (ks_pm k)"
    "live_structs s1 = live_structs (ks_pm k) - {at_self mine}"
    using kfree_held [OF h, of "at_self mine"] by auto
  have "at_self at \<in> ?A - {at_self mine}" using pm(3) by auto
  then obtain s2 where s2: "kfree_k (at_self at) (with_pm ?k1 s1) = Some (with_pm ?k1 s2)" "holds (?A - {at_self mine} - {at_self at}) s2"
    "bs_mem s2 = bs_mem (ks_pm k)" "live_structs s2 = live_structs s1 - {at_self at}"
    using kfree_held [of "?A - {at_self mine}" "with_pm ?k1 s1" "at_self at"] s1(2,3) by auto
  have "shm_release n a ?pid k = Some (with_pm ?k1 s1)"
    using seg(1,3,5) recs s1(1) unfolding shm_release_def by (simp add: Let_def drop_record_def sg1_def)
  then have c: "cleanup_process_shm_refs me k = Some (upd_proc me ?p (with_pm ?k1 s2))"
    using me seg(1,2) s2(1) by (simp add: cleanup_process_shm_refs_def)
  let ?k2 = "upd_proc me ?p (with_pm ?k1 s2)" and ?k3 = "upd_seg n (\<lambda>_. sg2) (upd_proc me ?p (with_pm ?k1 s2))"
  have pmk: "ks_pm ?k3 = s2" "ks_shm_segs ?k2 n = Some sg1" using seg(1) by (simp_all add: upd_proc_def)
  have f: "shm_pages sg2 = shm_pages sg" "shm_self sg2 = shm_self sg" "shm_size sg2 = shm_size sg" "shm_attach_list sg2 = [other]"
    by (simp_all add: sg2_def sg1_def)
  have "holds {at_self other, pa, shm_pages sg2, shm_self sg2} (ks_pm ?k3)"
    using s2(2) pm(3) unfolding pmk f by (elim holds_mono) auto
  then obtain k2 where k2: "destroy_seg n sg2 ?k3 = Some k2" "ks_shm_segs k2 = (ks_shm_segs ?k3)(n := None)" "ks_procs k2 = ks_procs ?k3"
    "live_structs (ks_pm k2) = live_structs (ks_pm ?k3) - {at_self other, pa, shm_pages sg2, shm_self sg2}"
    using destroy_one_page [of other pa sg2 ?k3 n] pm(3) seg(6-9) s2(3) unfolding pmk f by auto
  have u: "upd_proc me (\<lambda>p. p\<lparr>p_shm_attaches := remove_first P (p_shm_attaches p)\<rparr>) ?k2 = ?k2" for P
    by (simp add: upd_proc_def)
  have "shm_release n a ?pid ?k2 = Some k2"
    using seg(1,4) recs(3) k2(1) unfolding shm_release_def
    by (simp add: Let_def drop_record_def sg1_def sg2_def)
  then have "detach_shared me v ?k2 = Some k2"
    using v(2-4) seg(1) unfolding detach_shared_def by (simp add: Let_def drop_record_def u [simplified])
  moreover have "ks_shm_segs k2 n = None" "pa \<notin> live_structs (ks_pm k2)" "\<forall>j. j \<noteq> me \<longrightarrow> ks_procs k2 j = ks_procs k j"
    using k2(2-4) by simp_all
  moreover have "shm_attach_count sg1 = 1" "shm_attach_list sg1 = [other]" by (simp_all add: sg1_def)
  ultimately show ?thesis using c pmk(2) by blast
qed


section \<open>Witnesses\<close>

lemma sample_structs:
  "m \<le> 32 \<Longrightarrow> \<exists>s as. buddy_wf s \<and> \<not> bs_lock s \<and> length as = m \<and> distinct as \<and> set as \<subseteq> live_structs s \<and> set as \<subseteq> frames s \<and>
     (\<forall>a \<in> set as. PGSIZE dvd a \<and> 0 < a \<and> a < 2 ^ 64) \<and> 32 - m \<le> free_count s"
proof (induction m)
  case 0
  obtain s where s: "buddy_wf s" "\<not> bs_lock s" "32 \<le> free_count s" using small_allocator by blast
  then show ?case by (intro exI [of _ s] exI [of _ "[]"]) simp
next
  case (Suc m)
  then obtain s as where s: "buddy_wf s" "\<not> bs_lock s" "length as = m" "distinct as" "set as \<subseteq> live_structs s" "set as \<subseteq> frames s"
    "\<forall>a \<in> set as. PGSIZE dvd a \<and> 0 < a \<and> a < 2 ^ 64" "32 - m \<le> free_count s" by auto
  have "0 < free_count s" using s(8) Suc.prems by simp
  then obtain b s' where b: "buddy_wf s'" "\<not> bs_lock s'" "PGSIZE dvd b" "0 < b" "b < 2 ^ 64" "b \<notin> frames s"
    "frames s' = insert b (frames s)" "free_count s' = free_count s - 1" "live_blocks s' = insert (b, 0) (live_blocks s)"
    using alloc_one_frame [OF s(1,2)] by blast
  have "live_structs s' = insert b (live_structs s)" using b(9) by (auto simp: live_structs_def)
  then show ?case using s b by (intro exI [of _ s'] exI [of _ "b # as"]) auto
qed

definition sample_shm :: "buddy_system \<Rightarrow> ksys" where
  "sample_shm s = undefined\<lparr>ks_vm := \<lparr>vs_pm = s, vs_lock = False\<rparr>, ks_shm_segs := Map.empty,
     ks_procs := (\<lambda>i. undefined\<lparr>p_pid := int i + 1, p_euid := 0, p_egid := 0, p_shm_attaches := []\<rparr>)\<rparr>"

lemma sample_shm_simps [simp]:
  "ks_vm (sample_shm s) = \<lparr>vs_pm = s, vs_lock = False\<rparr>" "ks_shm_segs (sample_shm s) = Map.empty" "records (sample_shm s) i = []"
  by (simp_all add: sample_shm_def)

lemma sample_key: "sint (ucast (42 :: 64 word) :: 32 word) = 42" "sint (ucast (0x3000 :: 64 word) :: 32 word) = 0x3000"
  "(896 :: 64 word) AND 512 \<noteq> 0" "(896 :: 64 word) AND 256 \<noteq> 0" "(896 :: 64 word) AND 1024 = 0" "(0 :: 64 word) AND 1024 = 0" "(0 :: 64 word) AND 128 = 0"
  by code_simp+

theorem shmget_creates_found_witness:
  "\<exists>k k'. sys_shmget 1 42 0x3000 896 k = Some (0, k') \<and> sys_shmget 1 42 0 0 k' = Some (0, k')"
proof -
  obtain s where s: "buddy_wf s" "\<not> bs_lock s" "32 \<le> free_count s" using small_allocator by blast
  have h: "buddy_wf (ks_pm (sample_shm s))" "\<not> bs_lock (ks_pm (sample_shm s))" "2 \<le> free_count (ks_pm (sample_shm s))"
    using s by simp_all
  have sz: "0 \<le> sint (ucast (0x3000 :: 64 word) :: 32 word)" "sint (ucast (0x3000 :: 64 word) :: 32 word) \<le> 511 * 4096"
    unfolding sample_key by simp_all
  have key: "sint (ucast (42 :: 64 word) :: 32 word) \<noteq> 0" unfolding sample_key by simp
  have e: "ks_shm_segs (sample_shm s) m = Some sg \<Longrightarrow> shm_key sg \<noteq> sint (ucast (42 :: 64 word) :: 32 word)"
    "0 < SHMMNI" "ks_shm_segs (sample_shm s) 0 = None" "m < 0 \<Longrightarrow> ks_shm_segs (sample_shm s) m \<noteq> None" for m sg by simp_all
  obtain k' where k': "sys_shmget 1 42 0x3000 896 (sample_shm s) = Some (int 0, k')"
    "\<forall>sz2 flag2. flag2 AND 1024 = 0 \<longrightarrow> (896 :: 64 word) AND 256 \<noteq> 0 \<longrightarrow> (flag2 AND 128 \<noteq> 0 \<longrightarrow> (896 :: 64 word) AND 128 \<noteq> 0) \<longrightarrow>
       sys_shmget 1 42 sz2 flag2 k' = Some (int 0, k')"
    using shmget_creates_found [OF h sz key _ _ _ _ sample_key(3), of 0 1] e by blast
  have "sys_shmget 1 42 0 0 k' = Some (int 0, k')" using k'(2) [rule_format, OF sample_key(6,4)] sample_key(7) by blast
  then show ?thesis using k'(1) by (intro exI [of _ "sample_shm s"] exI [of _ k']) simp
qed

theorem attach_counts_exact_witness:
  "\<exists>k0 k sg. shm_step\<^sup>*\<^sup>* k0 k \<and> no_shm k0 \<and> ks_shm_segs k 0 = Some sg \<and> shm_is_deleted sg \<and>
     shm_attach_count sg = int (\<Sum>i<NPROC. length (filter (\<lambda>at. at_shmid at = 0) (p_shm_attaches (ks_procs k i))))"
proof -
  obtain s where s: "buddy_wf s" "\<not> bs_lock s" "32 \<le> free_count s" using small_allocator by blast
  let ?k = "sample_shm s"
  have nf: "findshm 42 ?k < 0" by (simp add: findshm_None)
  have n: "allocshmid ?k = int 0" by (rule allocshmid_least) simp_all
  have pm: "buddy_wf (ks_pm ?k)" "\<not> bs_lock (ks_pm ?k)" "2 \<le> free_count (ks_pm ?k)" using s by simp_all
  obtain sg k' where k': "newseg 1 42 (ucast (896 :: 64 word)) 0x3000 ?k = Some (int 0, k')" "ks_shm_segs k' = (ks_shm_segs ?k)(0 \<mapsto> sg)"
    by (rule newseg_creates [OF pm _ _ _ n, of "0x3000" 42 1 "ucast (896 :: 64 word)"]) (use nf in auto)
  have "sys_shmget 1 42 0x3000 896 ?k = Some (int 0, k')"
    using shmget_new [of 42 ?k 896 1 "0x3000"] nf k'(1) unfolding sample_key(1,2) using sample_key(3) by simp
  then have "shm_step ?k k'" by (rule shm_step.Get)
  moreover let ?k' = "upd_seg 0 (\<lambda>sg. sg\<lparr>shm_is_deleted := True\<rparr>) k'"
  have "sys_shmctl 0 1 0 0 0 k' = Some (0, ?k')" by (simp add: sys_shmctl_def k'(2))
  then have "shm_step k' ?k'" by (rule shm_step.Ctl)
  ultimately have st: "shm_step\<^sup>*\<^sup>* ?k ?k'" by auto
  have no: "no_shm ?k" by (simp add: no_shm_def)
  have sg: "ks_shm_segs ?k' 0 = Some (sg\<lparr>shm_is_deleted := True\<rparr>)" by (simp add: k'(2))
  moreover have "shm_is_deleted (sg\<lparr>shm_is_deleted := True\<rparr>)" by simp
  ultimately show ?thesis using attach_counts_exact [OF st no] st no by blast
qed


theorem exit_detaches_twice_witness:
  "\<exists>k v k1 k2. cleanup_process_shm_refs 1 k = Some k1 \<and> detach_shared 1 v k1 = Some k2 \<and> ks_shm_segs k2 7 = None \<and>
     (\<exists>at \<in> set (p_shm_attaches (ks_procs k2 2)). at_shmid at = 7)"
proof -
  obtain s as where s: "buddy_wf s" "\<not> bs_lock s" "length as = 6" "distinct as" "set as \<subseteq> live_structs s"
    "\<forall>a \<in> set as. PGSIZE dvd a \<and> 0 < a \<and> a < 2 ^ 64" using sample_structs [of 6] by auto
  obtain b0 b1 b2 b3 b4 b5 where as: "as = [b0, b1, b2, b3, b4, b5]" using s(3) by (auto simp: length_Suc_conv numeral_eq_Suc)
  define rec :: "nat \<Rightarrow> nat \<Rightarrow> shm_attach" where "rec b a = \<lparr>at_self = b, at_addr = a, at_shmid = 7\<rparr>" for b a :: nat
  define sg :: shmid_kernel where "sg = undefined\<lparr>shm_self := b5, shm_size := 100, shm_attach_count := 2, shm_is_deleted := True,
    shm_pages := b4, shm_attach_list := [rec b1 0x20000, rec b2 0x30000]\<rparr>"
  define v :: vma where "v = undefined\<lparr>vma_type := SHARE, vma_addr := 0x20000, vma_shm_kernel := Some 7\<rparr>"
  define k :: ksys where "k = undefined\<lparr>ks_vm := \<lparr>vs_pm = put64 s b4 (of_nat b3), vs_lock = False\<rparr>, ks_shm_segs := [7 \<mapsto> sg],
    ks_procs := (\<lambda>i. undefined\<lparr>p_vma := [v], p_shm_attaches := [if i = 1 then rec b0 0x20000 else rec 0 0x30000]\<rparr>)\<rparr>"
  have f: "ks_shm_segs k 7 = Some sg" "shm_attach_count sg = 2" "shm_is_deleted sg" "shm_attach_list sg = [rec b1 0x20000, rec b2 0x30000]"
    "shm_size sg = 100" "shm_pages sg = b4" "shm_self sg = b5" "ks_pm k = put64 s b4 (of_nat b3)"
    "p_shm_attaches (ks_procs k i) = [if i = 1 then rec b0 0x20000 else rec 0 0x30000]" "p_vma (ks_procs k i) = [v]" for i
    by (simp_all add: k_def sg_def)
  have g: "unat (get64 (ks_pm k) (shm_pages sg)) = b3" using s(6) unfolding f as by (simp add: put64_def unat_of_nat64)
  have "\<exists>k1 sg1 k2. cleanup_process_shm_refs 1 k = Some k1 \<and> ks_shm_segs k1 7 = Some sg1 \<and> shm_attach_count sg1 = 1 \<and>
    shm_attach_list sg1 = [rec b2 0x30000] \<and> detach_shared 1 v k1 = Some k2 \<and> ks_shm_segs k2 7 = None \<and> b3 \<notin> live_structs (ks_pm k2) \<and>
    (\<forall>j. j \<noteq> 1 \<longrightarrow> ks_procs k2 j = ks_procs k j)"
    by (rule exit_detaches_twice [where a = "0x20000" and at = "rec b0 0x20000" and vs = "[]", OF f(1) _ f(2-4) _ _ g])
      (use s as in \<open>simp_all add: f rec_def v_def\<close>)
  then obtain k1 k2 where "cleanup_process_shm_refs 1 k = Some k1" "detach_shared 1 v k1 = Some k2" "ks_shm_segs k2 7 = None"
    "\<forall>j. j \<noteq> 1 \<longrightarrow> ks_procs k2 j = ks_procs k j" by blast
  moreover from this(4) have "p_shm_attaches (ks_procs k2 2) = [rec 0 0x30000]" by (simp add: f(9))
  ultimately show ?thesis by (intro exI [of _ k] exI [of _ v] exI [of _ k1] exI [of _ k2]) (simp add: rec_def)
qed

end
