(* ===== verification/Shm_Share.thy ===== *)
theory Shm_Share
  imports Shm_Props
begin

text \<open>
  What is shared: the first attachment of a segment records in it the pages it maps, and a later one maps
  the recorded pages, so the same offsets of the two areas are the same memory.
\<close>

section \<open>Recording the pages\<close>

lemma save_pages_saves:
  assumes "pt_inv (vs_pm v) pt T" "\<not> vs_lock v" "PGSIZE dvd F" "\<And>p. T p \<noteq> Some F"
    and "\<And>i. i \<in> set is \<Longrightarrow> i < 512 \<and> va + i * PGSIZE < MAXVA \<and> pte_at (bs_mem (vs_pm v)) T (va + i * PGSIZE) AND PTE_V \<noteq> 0"
  shows "\<exists>m. save_pages pt va F is v = Some (v\<lparr>vs_pm := (vs_pm v)\<lparr>bs_mem := m\<rparr>\<rparr>) \<and>
    (\<forall>x. x \<notin> page_bytes F \<longrightarrow> m x = bs_mem (vs_pm v) x) \<and>
    (\<forall>i < 512. read64 m (F + 8 * i) =
       (if i \<in> set is then of_nat (PTE2PA (pte_at (bs_mem (vs_pm v)) T (va + i * PGSIZE))) else read64 (bs_mem (vs_pm v)) (F + 8 * i)))"
  using assms(1,2,5)
proof (induction "is" arbitrary: v)
  case Nil
  then show ?case by (intro exI [of _ "bs_mem (vs_pm v)"]) simp
next
  case (Cons i "is")
  let ?m = "bs_mem (vs_pm v)" and ?va = "va + i * PGSIZE"
  let ?w = "of_nat (PTE2PA (pte_at ?m T ?va)) :: 64 word"
  let ?v = "v\<lparr>vs_pm := put64 (vs_pm v) (F + 8 * i) ?w\<rparr>"
  have i: "i < 512" "?va < MAXVA" "pte_at ?m T ?va AND PTE_V \<noteq> 0" using Cons.prems(3) [of i] by auto
  have tr: "pt_tree ?m pt T" using Cons.prems(1) by (simp add: pt_inv_def)
  obtain a where a: "slot T ?va = Some a" using i(3) by (cases "slot T ?va") (auto simp: pte_at_def)
  have a0: "a \<noteq> 0" by (rule slot_nonzero [OF tr a])
  have "walk v pt (add64 va (i * PGSIZE)) False = Some (a, v)"
    using walk_unlocked [OF tr Cons.prems(2) i(2)] a i(2) by (simp add: add64_in_range)
  then have step: "save_pages pt va F (i # is) v = save_pages pt va F is ?v" using a0 i(3) a by (simp add: pte_at_def)
  have other: "write64 ?m (F + 8 * i) ?w x = ?m x" if "x \<notin> page_bytes F" for x
    by (rule write64_other) (use that i(1) in auto)
  have tab: "write64 ?m (F + 8 * i) ?w x = ?m x" if "T p = Some t" "x \<in> page_bytes t" for p t x
    using other [of x] pages_apart [of F t] assms(3,4) pt_treeD(2) [OF tr that(1)] that by blast
  have pm: "bs_mem (vs_pm ?v) = write64 ?m (F + 8 * i) ?w" by (simp add: put64_def)
  have pte: "pte_at (bs_mem (vs_pm ?v)) T vb = pte_at ?m T vb" for vb unfolding pm by (rule pte_at_cong) (rule tab)
  have "pt_tree (bs_mem (vs_pm ?v)) pt T" unfolding pm by (rule pt_tree_cong [OF tr]) (rule tab)
  then have "pt_inv (vs_pm ?v) pt T" using Cons.prems(1) by (simp add: pt_inv_def)
  moreover have l: "\<not> vs_lock ?v" using Cons.prems(2) by simp
  moreover have v: "j < 512 \<and> va + j * PGSIZE < MAXVA \<and> pte_at (bs_mem (vs_pm ?v)) T (va + j * PGSIZE) AND PTE_V \<noteq> 0" if "j \<in> set is" for j
    unfolding pte using Cons.prems(3) [of j] that by simp
  ultimately obtain m where m: "save_pages pt va F is ?v = Some (?v\<lparr>vs_pm := (vs_pm ?v)\<lparr>bs_mem := m\<rparr>\<rparr>)"
    "\<forall>x. x \<notin> page_bytes F \<longrightarrow> m x = bs_mem (vs_pm ?v) x"
    "\<forall>j < 512. read64 m (F + 8 * j) =
       (if j \<in> set is then of_nat (PTE2PA (pte_at (bs_mem (vs_pm ?v)) T (va + j * PGSIZE))) else read64 (bs_mem (vs_pm ?v)) (F + 8 * j))"
    using Cons.IH [OF _ l v] by blast
  have cell: "read64 (write64 ?m (F + 8 * i) ?w) (F + 8 * j) = (if j = i then ?w else read64 ?m (F + 8 * j))" for j
    by (cases "j = i") (auto intro: read_write64_other)
  have "save_pages pt va F (i # is) v = Some (v\<lparr>vs_pm := (vs_pm v)\<lparr>bs_mem := m\<rparr>\<rparr>)"
    unfolding step m(1) by (simp add: put64_def)
  moreover have "\<forall>x. x \<notin> page_bytes F \<longrightarrow> m x = ?m x" using m(2) other unfolding pm by simp
  moreover have "\<forall>j < 512. read64 m (F + 8 * j) =
       (if j \<in> set (i # is) then of_nat (PTE2PA (pte_at ?m T (va + j * PGSIZE))) else read64 ?m (F + 8 * j))"
    using m(3) unfolding pte unfolding pm cell by auto
  ultimately show ?case by blast
qed

section \<open>Mapping the recorded pages\<close>

lemma page_count_one: "va mod PGSIZE = 0 \<Longrightarrow> page_count va PGSIZE = 1"
  using page_count_aligned [of va 1] by simp

lemma remaps_cong:
  assumes "remaps n s T P g s' T'" "\<And>va. va \<in> P \<Longrightarrow> g va = h va"
  shows "remaps n s T P h s' T'"
proof -
  have "\<forall>va < MAXVA. pte_at (bs_mem s') T' va = (if va \<in> P then h va else pte_at (bs_mem s) T va)"
    using remapsD(6) [OF assms(1)] assms(2) by simp
  then show ?thesis using assms(1) unfolding remaps_def by - (elim conjE, intro conjI; assumption)
qed

lemma map_pages_maps:
  assumes "pt_inv (vs_pm v) pt T" "\<not> vs_lock v" "F \<in> frames (vs_pm v)" "\<And>p. T p \<noteq> Some F"
    and r: "va mod PGSIZE = 0" "va + m * PGSIZE \<le> MAXVA" "m \<le> 512" and "j \<le> m"
    and "\<And>i. i < m \<Longrightarrow> unat (get64 (vs_pm v) (F + 8 * i)) = pa i"
    and pa: "\<And>i. i < m \<Longrightarrow> pa i \<noteq> 0 \<and> PGSIZE dvd pa i"
    and "2 * (m - j) \<le> free_count (vs_pm v)"
    and "\<And>vb. va + j * PGSIZE \<le> vb \<Longrightarrow> vb < va + m * PGSIZE \<Longrightarrow> pte_at (bs_mem (vs_pm v)) T vb AND PTE_V = 0"
  shows "\<exists>s' T'. map_pages pt va F perm [j..<m] v = Some (v\<lparr>vs_pm := s'\<rparr>) \<and> pt_inv s' pt T' \<and>
    remaps (2 * (m - j)) (vs_pm v) T {va + j * PGSIZE..<va + m * PGSIZE} (\<lambda>vb. PA2PTE (pa ((vb - va) div PGSIZE)) OR perm OR PTE_V) s' T'"
  using assms(1-4,8,9,11-)
proof (induction "m - j" arbitrary: v T j)
  case 0
  then have "j = m" by simp
  then show ?case using 0 grows_remaps [OF grows_refl, of 0 "vs_pm v" T] by (intro exI [of _ "vs_pm v"] exI [of _ T]) simp
next
  case (Suc d)
  let ?va = "va + j * PGSIZE" and ?g = "\<lambda>vb. PA2PTE (pa ((vb - va) div PGSIZE)) OR perm OR PTE_V"
  have j: "j < m" using Suc.hyps(2) by simp
  have va: "?va mod PGSIZE = 0" using r(1) by simp
  have top: "?va + PGSIZE \<le> va + m * PGSIZE" using mult_le_mono1 [of "Suc j" m PGSIZE] j by simp
  have pc: "page_count ?va PGSIZE = 1" by (rule page_count_one [OF va])
  have R: "{vb. ?va div PGSIZE \<le> vb div PGSIZE \<and> vb div PGSIZE < ?va div PGSIZE + 1} = {?va..<?va + PGSIZE}"
    using aligned_range [OF va, of 1] by simp
  have un: "pte_at (bs_mem (vs_pm v)) T vb AND PTE_V = 0"
    if "?va div PGSIZE \<le> vb div PGSIZE" "vb div PGSIZE < ?va div PGSIZE + page_count ?va PGSIZE" for vb
  proof -
    have "vb \<in> {?va..<?va + PGSIZE}" using that unfolding pc R [symmetric] by blast
    then show ?thesis using Suc.prems(8) [of vb] top by simp
  qed
  have pj: "pa j mod PGSIZE = 0" "pa j \<noteq> 0" using pa [OF j] by (auto simp: dvd_eq_mod_eq_0)
  have len: "0 < PGSIZE" "?va + PGSIZE \<le> MAXVA" and av: "2 * page_count ?va PGSIZE \<le> free_count (vs_pm v)"
    using top r(2) Suc.prems(7) j unfolding pc by linarith+
  obtain s1 T1 where 1: "mappages_internal (vs_pm v) pt ?va (pa j) PGSIZE perm = Some (1, s1)" "pt_inv s1 pt T1"
    "remaps 2 (vs_pm v) T {?va..<?va + PGSIZE} (leaf_entry (pa j) ?va perm) s1 T1"
    using map_range [where perm = perm, OF Suc.prems(1) len(1,2) pj(1) av un] unfolding pc R mult_1_right by blast
  have g: "leaf_entry (pa j) ?va perm vb = ?g vb" if "vb \<in> {?va..<?va + PGSIZE}" for vb
  proof -
    have "vb div PGSIZE = ?va div PGSIZE" using that unfolding R [symmetric] by simp
    moreover have "(vb - va) div PGSIZE = j" using that by (intro div_nat_eqI) auto
    ultimately show ?thesis by (simp add: leaf_entry_def)
  qed
  have 2: "remaps 2 (vs_pm v) T {?va..<?va + PGSIZE} ?g s1 T1"
    by (rule remaps_cong [OF 1(3) g])
  let ?v = "v\<lparr>vs_pm := s1\<rparr>"
  have F1: "T1 p \<noteq> Some F" for p using remapsD(5) [OF 2, of p F] Suc.prems(3,4) by blast
  have same: "bs_mem s1 x = bs_mem (vs_pm v) x" if "x \<in> page_bytes F" for x
    using remapsD(7) [OF 2 Suc.prems(3) Suc.prems(4) that] .
  have arr: "unat (get64 (vs_pm ?v) (F + 8 * i)) = pa i" if "i < m" for i
    using read64_page_cong [of F "bs_mem s1" "bs_mem (vs_pm v)" i] same Suc.prems(6) [OF that] that r(3) by simp
  have un1: "pte_at (bs_mem (vs_pm ?v)) T1 vb AND PTE_V = 0" if "va + Suc j * PGSIZE \<le> vb" "vb < va + m * PGSIZE" for vb
    using remapsD(6) [OF 2, of vb] Suc.prems(8) [of vb] that r(2) by simp
  have "\<exists>s' T'. map_pages pt va F perm [Suc j..<m] ?v = Some (?v\<lparr>vs_pm := s'\<rparr>) \<and> pt_inv s' pt T' \<and>
      remaps (2 * (m - Suc j)) (vs_pm ?v) T1 {va + Suc j * PGSIZE..<va + m * PGSIZE} ?g s' T'"
    by (rule Suc.hyps(1) [OF _ _ _ _ F1 _ arr _ un1])
      (use Suc.hyps(2) Suc.prems(2,3,7) 1(2) remapsD(2,3) [OF 2] j in auto)
  then obtain s' T' where s': "map_pages pt va F perm [Suc j..<m] ?v = Some (v\<lparr>vs_pm := s'\<rparr>)" "pt_inv s' pt T'"
    "remaps (2 * (m - Suc j)) s1 T1 {?va + PGSIZE..<va + m * PGSIZE} ?g s' T'"
    by (auto simp: algebra_simps)
  have "{?va..<?va + PGSIZE} \<union> {?va + PGSIZE..<va + m * PGSIZE} = {?va..<va + m * PGSIZE}" using top by auto
  moreover have "2 + 2 * (m - Suc j) = 2 * (m - j)" using j by simp
  ultimately have "remaps (2 * (m - j)) (vs_pm v) T {?va..<va + m * PGSIZE} ?g s' T'" using remaps_trans [OF 2 s'(3)] by simp
  moreover have "map_pages pt va F perm [j..<m] v = Some (v\<lparr>vs_pm := s'\<rparr>)"
    using j Suc.prems(2,6) pj(2) 1(1) s'(1) top r(2) by (simp add: upt_conv_Cons Let_def mappages_def add64_in_range)
  ultimately show ?case using s'(2) by blast
qed

section \<open>The two kinds of attachment\<close>

text \<open>An area of \<open>n\<close> pages for a segment of \<open>n\<close> pages.\<close>

definition area_for :: "shmid_kernel \<Rightarrow> vma \<Rightarrow> nat \<Rightarrow> bool" where
  "area_for sg v n \<longleftrightarrow> nat (int_pages (int32 (shm_size sg))) = n \<and> 0 < n \<and> n \<le> 512 \<and>
     vma_addr v mod PGSIZE = 0 \<and> vma_end v = vma_addr v + n * PGSIZE \<and> vma_end v \<le> MAXVA"

abbreviation unmapped :: "mem \<Rightarrow> tree \<Rightarrow> vma \<Rightarrow> bool" where
  "unmapped m T v \<equiv> \<forall>x. vma_addr v \<le> x \<and> x < vma_end v \<longrightarrow> pte_at m T x AND PTE_V = 0"

lemma attach_first:
  assumes i: "pt_inv (ks_pm k) (p_pagetable (ks_procs k me)) T" and l: "\<not> vs_lock (ks_vm k)" and sg: "shm_attaches sg = 0" "area_for sg v n"
    and F: "shm_pages sg \<in> frames (ks_pm k)" "\<And>p. T p \<noteq> Some (shm_pages sg)"
    and perm: "((scast perm OR PTE_U OR PTE_D) OR PTE_V) AND NOT 0x3FF = 0" and un: "unmapped (bs_mem (ks_pm k)) T v"
    and o: "get_order n = int q" "find_order (free_lists (ks_pm k)) q \<noteq> None" "2 ^ q + 2 * n \<le> free_count (ks_pm k)"
  shows "\<exists>vm T'. attach_pages me sg v perm k = Some (with_vm k vm) \<and> \<not> vs_lock vm \<and> pt_inv (vs_pm vm) (p_pagetable (ks_procs k me)) T' \<and>
    frames (ks_pm k) \<subseteq> frames (vs_pm vm) \<and> free_count (ks_pm k) \<le> free_count (vs_pm vm) + (2 ^ q + 2 * n) \<and>
    (\<forall>p t. T' p = Some t \<and> t \<in> frames (ks_pm k) \<longrightarrow> T p = Some t) \<and>
    (\<forall>f \<in> frames (ks_pm k). f \<noteq> shm_pages sg \<longrightarrow> (\<forall>p. T p \<noteq> Some f) \<longrightarrow> (\<forall>x \<in> page_bytes f. bs_mem (vs_pm vm) x = bs_mem (ks_pm k) x)) \<and>
    (\<forall>j < n. let e = pte_at (bs_mem (vs_pm vm)) T' (vma_addr v + j * PGSIZE)
       in e AND PTE_V \<noteq> 0 \<and> PTE2PA e \<noteq> 0 \<and> unat (get64 (vs_pm vm) (shm_pages sg + 8 * j)) = PTE2PA e)"
proof -
  let ?F = "shm_pages sg" and ?a = "vma_addr v" and ?pt = "p_pagetable (ks_procs k me)" and ?s = "ks_pm k"
  have v: "?a mod PGSIZE = 0" "0 < n" "n \<le> 512" "?a + n * PGSIZE \<le> MAXVA" "vma_end v = ?a + n * PGSIZE"
    "nat (int_pages (int32 (shm_size sg))) = n" using sg(2) by (auto simp: area_for_def)
  obtain jj where jj: "find_order (free_lists ?s) q = Some jj" using o(2) by blast
  have q: "q \<le> BUDDY_MAX_ORDER" "n \<le> 2 ^ q" using get_order_cases [OF refl, of n] o(1) by auto
  have n31: "n < 2 ^ 31" using v(3) by simp
  have un': "pte_at (bs_mem ?s) T x AND PTE_V = 0" if "?a \<le> x" "x < ?a + n * PGSIZE" for x using un that v(5) by simp
  obtain v1 T1 b where u: "uvmalloc1 (ks_vm k) ?pt ?a (?a + n * PGSIZE) (scast perm) = Some (1, v1)" "\<not> vs_lock v1" "pt_inv (vs_pm v1) ?pt T1"
    "(b, q) \<in> live_blocks (vs_pm v1)" "PGSIZE dvd b" "b + PGSIZE * 2 ^ q \<le> 2 ^ 64"
    "remaps (2 ^ q + 2 * n) ?s T {?a..<?a + n * PGSIZE} (leaf_entry b ?a (scast perm OR PTE_U OR PTE_D)) (vs_pm v1) T1"
    using uvmalloc1_block [OF i l v(1,2) n31 v(4) o(1) q jj o(3) un', of "scast perm"] by blast
  let ?f = "(scast perm OR PTE_U OR PTE_D) OR PTE_V"
  have lt: "?a + j * PGSIZE < ?a + n * PGSIZE" if "j < n" for j using that by simp
  have e: "pte_at (bs_mem (vs_pm v1)) T1 (?a + j * PGSIZE) = PA2PTE (b + j * PGSIZE) OR (scast perm OR PTE_U OR PTE_D) OR PTE_V" if "j < n" for j
    using remapsD(6) [OF u(7), of "?a + j * PGSIZE"] lt [OF that] v(4) by (simp add: leaf_entry_def)
  have b: "b + j * PGSIZE < 2 ^ 64" "PGSIZE dvd b + j * PGSIZE" if "j < n" for j
    using u(5,6) q(2) that mult_le_mono1 [of "Suc j" "2 ^ q" PGSIZE] by (auto simp: mult.commute)
  have pa: "PTE2PA (pte_at (bs_mem (vs_pm v1)) T1 (?a + j * PGSIZE)) = b + j * PGSIZE" if "j < n" for j
    unfolding e [OF that] using PTE2PA_PA2PTE [OF b(2,1) perm] that by (simp only: or.assoc)
  have ok: "pte_at (bs_mem (vs_pm v1)) T1 (?a + j * PGSIZE) AND PTE_V \<noteq> 0" if "j < n" for j
    unfolding e [OF that] by (rule PA2PTE_valid)
  have wf1: "buddy_wf (vs_pm v1)" using u(3) by (simp add: pt_inv_def)
  have b0: "0 < b" using live_in_region [OF wf1 u(4), of b] inv_geom [OF wf1] by (auto simp: buddy_geom_def block_bytes_def)
  have F1: "T1 p \<noteq> Some ?F" for p using remapsD(5) [OF u(7), of p ?F] F by blast
  have Fd: "PGSIZE dvd ?F" using frames_aligned [of ?s ?F] i F(1) by (simp add: pt_inv_def)
  have js: "j < 512 \<and> ?a + j * PGSIZE < MAXVA \<and> pte_at (bs_mem (vs_pm v1)) T1 (?a + j * PGSIZE) AND PTE_V \<noteq> 0" if "j \<in> set [0..<n]" for j
    using ok [of j] lt [of j] that v(3,4) by auto
  obtain m where m: "save_pages ?pt ?a ?F [0..<n] v1 = Some (v1\<lparr>vs_pm := (vs_pm v1)\<lparr>bs_mem := m\<rparr>\<rparr>)"
    "\<forall>x. x \<notin> page_bytes ?F \<longrightarrow> m x = bs_mem (vs_pm v1) x"
    "\<forall>j < 512. read64 m (?F + 8 * j) = (if j \<in> set [0..<n] then of_nat (PTE2PA (pte_at (bs_mem (vs_pm v1)) T1 (?a + j * PGSIZE)))
      else read64 (bs_mem (vs_pm v1)) (?F + 8 * j))"
    using save_pages_saves [OF u(3,2) Fd F1 js] by blast
  have tr1: "pt_tree (bs_mem (vs_pm v1)) ?pt T1" using u(3) by (simp add: pt_inv_def)
  have tab: "m x = bs_mem (vs_pm v1) x" if "T1 p = Some t" "x \<in> page_bytes t" for p t x
    using m(2) pages_apart [OF Fd, of t] pt_treeD(2) [OF tr1 that(1)] F1 [of p] that by blast
  have pte: "pte_at m T1 x = pte_at (bs_mem (vs_pm v1)) T1 x" for x by (rule pte_at_cong) (rule tab)
  let ?vm = "v1\<lparr>vs_pm := (vs_pm v1)\<lparr>bs_mem := m\<rparr>\<rparr>"
  have "pt_tree m ?pt T1" by (rule pt_tree_cong [OF tr1]) (rule tab)
  then have inv: "pt_inv (vs_pm ?vm) ?pt T1" using u(3) by (simp add: pt_inv_def)
  have "attach_pages me sg v perm k = Some (with_vm k ?vm)"
    using u(1) m(1) sg(1) v(5,6) by (simp add: attach_pages_def Let_def)
  moreover have "m x = bs_mem ?s x" if "f \<in> frames ?s" "f \<noteq> ?F" "\<forall>p. T p \<noteq> Some f" "x \<in> page_bytes f" for f x
  proof -
    have "x \<notin> page_bytes ?F" using pages_apart [of f ?F] Fd frames_aligned [of ?s f] i that by (fastforce simp: pt_inv_def)
    then show ?thesis using m(2) remapsD(7) [OF u(7) that(1) _ that(4)] that(3) by simp
  qed
  moreover have "unat (read64 m (?F + 8 * j)) = b + j * PGSIZE" if "j < n" for j
  proof -
    have "read64 m (?F + 8 * j) = of_nat (b + j * PGSIZE)"
      using m(3) pa [OF that] that v(3) by (simp del: of_nat_add of_nat_mult)
    then show ?thesis using unat_of_nat64 [of "b + j * PGSIZE"] mod_less [OF b(1) [OF that]] by metis
  qed
  ultimately show ?thesis using inv u(2) remapsD(2,3,5) [OF u(7)] ok pa b0
    by (intro exI [of _ ?vm] exI [of _ T1]) (simp add: pte Let_def)
qed


lemma attach_later:
  assumes i: "pt_inv (ks_pm k) (p_pagetable (ks_procs k me)) U" and l: "\<not> vs_lock (ks_vm k)" and sg: "shm_attaches sg \<noteq> 0" "area_for sg w n"
    and F: "shm_pages sg \<in> frames (ks_pm k)" "\<And>p. U p \<noteq> Some (shm_pages sg)"
    and perm: "(scast perm OR PTE_V) AND NOT 0x3FF = (0 :: pte)" and un: "unmapped (bs_mem (ks_pm k)) U w"
    and av: "2 * n \<le> free_count (ks_pm k)"
    and pa: "\<And>c. c < n \<Longrightarrow> pa c \<noteq> 0 \<and> PGSIZE dvd pa c \<and> pa c < 2 ^ 64" "\<And>c. c < n \<Longrightarrow> unat (get64 (ks_pm k) (shm_pages sg + 8 * c)) = pa c"
  shows "\<exists>s' U'. attach_pages me sg w perm k = Some (with_pm k s') \<and> pt_inv s' (p_pagetable (ks_procs k me)) U' \<and>
    frames (ks_pm k) \<subseteq> frames s' \<and> free_count (ks_pm k) \<le> free_count s' + 2 * n \<and>
    (\<forall>f \<in> frames (ks_pm k). (\<forall>p. U p \<noteq> Some f) \<longrightarrow> (\<forall>x \<in> page_bytes f. bs_mem s' x = bs_mem (ks_pm k) x)) \<and>
    (\<forall>x < n * PGSIZE. pte_at (bs_mem s') U' (vma_addr w + x) AND PTE_V \<noteq> 0 \<and> PTE2PA (pte_at (bs_mem s') U' (vma_addr w + x)) = pa (x div PGSIZE))"
proof -
  let ?F = "shm_pages sg" and ?b = "vma_addr w" and ?pu = "p_pagetable (ks_procs k me)"
  have w: "?b mod PGSIZE = 0" "?b + n * PGSIZE \<le> MAXVA" "n \<le> 512" "vma_end w = ?b + n * PGSIZE" "nat (int_pages (int32 (shm_size sg))) = n"
    using sg(2) by (auto simp: area_for_def)
  have un2: "pte_at (bs_mem (ks_pm k)) U x AND PTE_V = 0" if "?b + 0 * PGSIZE \<le> x" "x < ?b + n * PGSIZE" for x
    using un that w(4) by simp
  have av2: "2 * (n - 0) \<le> free_count (ks_pm k)" using av by simp
  have pa1: "pa c \<noteq> 0 \<and> PGSIZE dvd pa c" if "c < n" for c using pa(1) [OF that] by blast
  obtain s' U' where s': "map_pages ?pu ?b ?F (scast perm) [0..<n] (ks_vm k) = Some ((ks_vm k)\<lparr>vs_pm := s'\<rparr>)" "pt_inv s' ?pu U'"
    "remaps (2 * (n - 0)) (ks_pm k) U {?b + 0 * PGSIZE..<?b + n * PGSIZE} (\<lambda>x. PA2PTE (pa ((x - ?b) div PGSIZE)) OR scast perm OR PTE_V) s' U'"
    using map_pages_maps [OF i l F w(1-3) _ pa(2) pa1 av2 un2, of "scast perm"] by blast
  have "attach_pages me sg w perm k = Some (with_pm k s')"
    using sg(1) w(5) s'(1) by (simp add: attach_pages_def Let_def with_vm_def with_pm_def)
  moreover have "pte_at (bs_mem s') U' (?b + x) AND PTE_V \<noteq> 0 \<and> PTE2PA (pte_at (bs_mem s') U' (?b + x)) = pa (x div PGSIZE)" if x: "x < n * PGSIZE" for x
  proof -
    let ?c = "x div PGSIZE"
    have c: "?c < n" using x by (simp add: less_mult_imp_div_less)
    have "pte_at (bs_mem s') U' (?b + x) = PA2PTE (pa ?c) OR (scast perm OR PTE_V)"
      using remapsD(6) [OF s'(3), of "?b + x"] x w(2) by (simp add: or.assoc)
    then show ?thesis using PTE2PA_PA2PTE [of "pa ?c", OF _ _ perm] pa(1) [OF c] PA2PTE_valid [of "pa ?c" "scast perm"]
      by (simp_all add: or.assoc)
  qed
  ultimately show ?thesis using s'(2) remapsD(2,3,7) [OF s'(3)] unfolding diff_zero by blast
qed

lemma PTE2PA_less: "PTE2PA e < 2 ^ 64"
  unfolding PTE2PA_def by (rule less_le_trans [OF unsigned_less]) simp

lemma shm_perms:
  assumes "perm \<in> {18, 22 :: 32 word}"
  shows "((scast perm OR PTE_U OR PTE_D) OR PTE_V) AND NOT 0x3FF = (0 :: pte)" "(scast perm OR PTE_V) AND NOT 0x3FF = (0 :: pte)"
proof -
  have "((scast (18 :: 32 word) OR PTE_U OR PTE_D) OR PTE_V) AND NOT 0x3FF = (0 :: pte)"
    "((scast (22 :: 32 word) OR PTE_U OR PTE_D) OR PTE_V) AND NOT 0x3FF = (0 :: pte)"
    "(scast (18 :: 32 word) OR PTE_V) AND NOT 0x3FF = (0 :: pte)" "(scast (22 :: 32 word) OR PTE_V) AND NOT 0x3FF = (0 :: pte)"
    by code_simp+
  then show "((scast perm OR PTE_U OR PTE_D) OR PTE_V) AND NOT 0x3FF = (0 :: pte)" "(scast perm OR PTE_V) AND NOT 0x3FF = (0 :: pte)"
    using assms by auto
qed

text \<open>The tables of one process, when another one changes its own.\<close>

lemma pt_inv_keep:
  assumes "pt_inv s pt T" "frames s \<subseteq> frames s'" "buddy_wf s'" "\<not> bs_lock s'"
    and "\<And>p t x. T p = Some t \<Longrightarrow> x \<in> page_bytes t \<Longrightarrow> bs_mem s' x = bs_mem s x"
  shows "pt_inv s' pt T" "pte_at (bs_mem s') T va = pte_at (bs_mem s) T va"
proof -
  have "pt_tree (bs_mem s') pt T" by (rule pt_tree_cong [of "bs_mem s"]) (use assms(1,5) in \<open>auto simp: pt_inv_def\<close>)
  then show "pt_inv s' pt T" using assms(1-4) unfolding pt_inv_def by blast
  show "pte_at (bs_mem s') T va = pte_at (bs_mem s) T va" by (rule pte_at_cong) (rule assms(5))
qed

section \<open>Structures allocated in between\<close>

text \<open>\<open>keeps s s'\<close>: pages were allocated, and the contents of those in use are as before.\<close>

definition keeps :: "buddy_system \<Rightarrow> buddy_system \<Rightarrow> bool" where
  "keeps s s' \<longleftrightarrow> frames s \<subseteq> frames s' \<and> buddy_wf s' \<and> \<not> bs_lock s' \<and> (\<forall>f \<in> frames s. \<forall>x \<in> page_bytes f. bs_mem s' x = bs_mem s x)"

lemma keeps_trans: "keeps s s1 \<Longrightarrow> keeps s1 s2 \<Longrightarrow> keeps s s2"
  unfolding keeps_def by (metis subset_iff)

lemma alloc_keeps:
  assumes "buddy_wf s" "\<not> bs_lock s" "0 < free_count s"
  shows "\<exists>a s'. pmem_alloc_pages s 1 = Some (a, s') \<and> a \<noteq> 0 \<and> keeps s s' \<and> free_count s' = free_count s - 1"
proof -
  obtain a s' where a: "pmem_alloc_pages s 1 = Some (a, s')" "buddy_wf s'" "\<not> bs_lock s'" "PGSIZE dvd a" "0 < a" "a \<notin> frames s"
    "frames s' = insert a (frames s)" "free_count s' = free_count s - 1" "bs_mem s' = (\<lambda>x. if x \<in> page_bytes a then 0 else bs_mem s x)"
    using alloc_one_frame [OF assms] by blast
  have "bs_mem s' x = bs_mem s x" if "f \<in> frames s" "x \<in> page_bytes f" for f x
  proof -
    have "a \<noteq> f" using a(6) that(1) by blast
    then have "page_bytes a \<inter> page_bytes f = {}" by (rule pages_apart [OF a(4) frames_aligned [OF assms(1) that(1)]])
    then show ?thesis using that(2) unfolding a(9) by auto
  qed
  then show ?thesis using a unfolding keeps_def by auto
qed

lemma keeps_inv:
  assumes "keeps s s'" "pt_inv s pt T"
  shows "pt_inv s' pt T" "pte_at (bs_mem s') T va = pte_at (bs_mem s) T va"
proof -
  have k: "frames s \<subseteq> frames s'" "buddy_wf s'" "\<not> bs_lock s'" using assms(1) by (auto simp: keeps_def)
  have m: "bs_mem s' x = bs_mem s x" if "T p = Some t" "x \<in> page_bytes t" for p t x
    using assms that unfolding keeps_def pt_inv_def by blast
  show "pt_inv s' pt T" by (rule pt_inv_keep(1) [OF assms(2) k]) (rule m)
  show "pte_at (bs_mem s') T va = pte_at (bs_mem s) T va" by (rule pt_inv_keep(2) [OF assms(2) k]) (rule m)
qed

lemma keeps_entry: "keeps s s' \<Longrightarrow> F \<in> frames s \<Longrightarrow> i < 512 \<Longrightarrow> get64 s' (F + 8 * i) = get64 s (F + 8 * i)"
  unfolding keeps_def using read64_page_cong [of F "bs_mem s'" "bs_mem s" i] by blast

text \<open>A free block of the next order leaves one of the order itself when one page is taken.\<close>

lemma split_lists: "k \<le> j \<Longrightarrow> k \<le> i \<and> i < j \<or> free_lists s i \<noteq> [] \<Longrightarrow> free_lists (split_block s a j k) i \<noteq> []"
proof (induction j arbitrary: s)
  case 0 then show ?case by (simp add: split_block.simps)
next
  case (Suc j)
  show ?case
  proof (cases "k = Suc j")
    case True then show ?thesis using Suc.prems(2) by (subst split_block.simps) auto
  next
    case False
    then have k: "k \<le> j" "k < Suc j" using Suc.prems by auto
    let ?b = "add64 a (shl64 PGSIZE j)"
    let ?s = "set_buddy_free (push_free (set_block_metadata (set_node s (page_index s ?b) ?b (int j)) ?b j) j (page_index s ?b)) ?b j"
    have e: "split_block s a (Suc j) k = split_block ?s a j k" using k(2) by (subst split_block.simps) (simp add: Let_def)
    have "free_lists ?s = (free_lists s)(j := page_index s ?b # free_lists s j)" by (simp add: push_free_def)
    then have "k \<le> i \<and> i < j \<or> free_lists ?s i \<noteq> []" using Suc.prems by (cases "i = j") auto
    then show ?thesis unfolding e by (rule Suc.IH [OF k(1)])
  qed
qed

lemma order_left:
  assumes "buddy_wf s" "\<not> bs_lock s" "find_order (free_lists s) (Suc q) \<noteq> None" "pmem_alloc_pages s 1 = Some (a, s')" "a \<noteq> 0"
  shows "find_order (free_lists s') q \<noteq> None"
proof -
  obtain m where m: "Suc q \<le> m" "m \<le> BUDDY_MAX_ORDER" "free_lists s m \<noteq> []" using assms(3) find_order_Some by blast
  then obtain j where j: "find_order (free_lists s) 0 = Some j" using find_order_None [of "free_lists s" 0] by (cases "find_order (free_lists s) 0") auto
  have jm: "j \<le> m" using find_order_Some [OF j] m(3) by (meson le0 not_le_imp_less)
  have "get_order (nat 1) = 0" by code_simp
  moreover obtain p s2 where b: "buddy_alloc s (int 0) = Some (page_addr s p, s2)" using alloc_effect [OF assms(1,2) _ j] by auto
  moreover have "page_addr s p \<noteq> 0" using inv_geom [OF assms(1)] by (simp add: buddy_geom_def)
  ultimately have s2: "s' = s2" "buddy_alloc s 0 = Some (page_addr s p, s2)" using assms(4) by (auto simp: pmem_alloc_pages_def)
  define s1 where "s1 = s\<lparr>bs_lock := True, free_lists := (free_lists s)(j := tl (free_lists s j))\<rparr>"
  obtain c where c: "free_lists s' = free_lists (split_block s1 c j 0)"
    using s2 assms(2) j by (auto simp: buddy_alloc_def Let_def s1_def)
  have "free_lists s' q \<noteq> [] \<or> free_lists s' m \<noteq> []"
  proof (cases "j = m")
    case True
    then show ?thesis unfolding c using split_lists [of 0 j q s1 c] m(1) by simp
  next
    case False
    then show ?thesis unfolding c using split_lists [of 0 j m s1 c] m(3) by (simp add: s1_def)
  qed
  then show ?thesis using m find_order_None [of "free_lists s'" q] by force
qed

section \<open>The whole call\<close>

lemma record_keeps:
  assumes "buddy_wf (ks_pm k)" "\<not> bs_lock (ks_pm k)" "2 \<le> free_count (ks_pm k)" "ks_shm_segs k n = Some sg"
  shows "\<exists>s' k'. record_attach me n v k = Some k' \<and> ks_vm k' = (ks_vm k)\<lparr>vs_pm := s'\<rparr> \<and> keeps (ks_pm k) s' \<and> free_count s' = free_count (ks_pm k) - 2 \<and>
    ks_shm_segs k' n \<noteq> None \<and> (let sg' = the (ks_shm_segs k' n)
     in shm_attaches sg' = vma_self v \<and> shm_attach_count sg' = shm_attach_count sg + 1 \<and> shm_pages sg' = shm_pages sg \<and> shm_size sg' = shm_size sg \<and>
       shm_perm sg' = shm_perm sg \<and> shm_is_deleted sg' = shm_is_deleted sg) \<and>
    (\<forall>i. p_pagetable (ks_procs k' i) = p_pagetable (ks_procs k i)) \<and> (\<forall>i. i \<noteq> me \<longrightarrow> ks_procs k' i = ks_procs k i)"
proof -
  have av: "0 < free_count (ks_pm k)" using assms(3) by simp
  obtain a s1 where a: "pmem_alloc_pages (ks_pm k) 1 = Some (a, s1)" "a \<noteq> 0" "keeps (ks_pm k) s1" "free_count s1 = free_count (ks_pm k) - 1"
    using alloc_keeps [OF assms(1,2) av] by blast
  have 1: "buddy_wf s1" "\<not> bs_lock s1" "0 < free_count s1" using a(3,4) assms(3) by (auto simp: keeps_def)
  obtain b s2 where b: "pmem_alloc_pages s1 1 = Some (b, s2)" "b \<noteq> 0" "keeps s1 s2" "free_count s2 = free_count s1 - 1"
    using alloc_keeps [OF 1] by blast
  have "keeps (ks_pm k) s2" "free_count s2 = free_count (ks_pm k) - 2" using keeps_trans [OF a(3) b(3)] a(4) b(4) by auto
  then show ?thesis
    using a(1,2) b(1,2) assms(4) by (intro exI [of _ s2]) (simp add: record_attach_def new_attach_def kalloc_def Let_def with_pm_def upd_proc_def upd_seg_def)
qed

text \<open>
  Room for an attachment of \<open>n\<close> pages at the address \<open>a\<close> that the caller names: a page boundary above the heap, in the
  address space, and apart from the areas of the process.
\<close>

definition room_for :: "proc \<Rightarrow> addr \<Rightarrow> nat \<Rightarrow> bool" where
  "room_for p a n \<longleftrightarrow> a \<noteq> 0 \<and> PGSIZE dvd a \<and> a + n * PGSIZE \<le> MAXVA \<and> p_sz p \<le> a \<and> p_vma_head p \<noteq> 0 \<and> areas_ok (p_vma p) \<and>
     (\<forall>v \<in> set (p_vma p). vma_addr v < a \<and> vma_end v \<le> a \<or> a + n * PGSIZE \<le> vma_addr v)"

text \<open>A segment that the process may attach with these flags: in the table, not deleted, of at most 512 pages, which one page of addresses holds.\<close>

definition attachable :: "proc \<Rightarrow> shmid_kernel \<Rightarrow> 64 word \<Rightarrow> bool" where
  "attachable p sg flg \<longleftrightarrow> \<not> shm_is_deleted sg \<and> 0 < shm_size sg \<and> shm_size sg \<le> 512 * PGSIZE \<and> shm_attach_count sg < 0x7FFFFFFF \<and>
     check_shm_permissions p sg (if flg AND SHM_RDONLY \<noteq> 0 then SHM_R else SHM_R OR SHM_W) = 0"

abbreviation attach_perm :: "64 word \<Rightarrow> 32 word" where
  "attach_perm flg \<equiv> if flg AND SHM_RDONLY \<noteq> 0 then 18 else 22"

abbreviation pages_for :: "shmid_kernel \<Rightarrow> nat" where
  "pages_for sg \<equiv> (shm_size sg + 4095) div 4096"

lemma size_pages:
  assumes "0 < shm_size sg" "shm_size sg \<le> 512 * PGSIZE"
  shows "int32 (shm_size sg) = int (shm_size sg)" "u64 (int (shm_size sg)) = shm_size sg" "nat (int_pages (int32 (shm_size sg))) = pages_for sg"
    "0 < pages_for sg" "pages_for sg \<le> 512" "shm_size sg \<le> pages_for sg * PGSIZE"
proof -
  show e: "int32 (shm_size sg) = int (shm_size sg)" by (rule int32_in_range) (use assms in simp)
  show "u64 (int (shm_size sg)) = shm_size sg" using assms by (simp add: u64_def)
  have u: "u64 (int (shm_size sg) + 4095) = shm_size sg + 4095" using assms by (simp add: u64_def)
  have t: "int32 (shm_size sg + 4095) = int (shm_size sg) + 4095" using int32_in_range [of "shm_size sg + 4095"] assms by simp
  have "int_pages (int (shm_size sg)) = (int (shm_size sg) + 4095) div 4096"
    unfolding int_pages_def u t Let_def by (simp add: sgn_if)
  also have "\<dots> = int (pages_for sg)" by (simp add: zdiv_int)
  finally show "nat (int_pages (int32 (shm_size sg))) = pages_for sg" unfolding e by simp
  show "0 < pages_for sg" "pages_for sg \<le> 512" "shm_size sg \<le> pages_for sg * PGSIZE" using assms by linarith+
qed

lemma room_address:
  assumes room: "room_for p a (pages_for sg)" and sz: "0 < shm_size sg" "shm_size sg \<le> 512 * PGSIZE"
  shows "attach_address a flg (int32 (shm_size sg)) p = Inr a" "PGROUNDUP a = a"
    "PGROUNDUP (add64 a (u64 (int32 (shm_size sg)))) = a + pages_for sg * PGSIZE"
proof -
  note s = size_pages [OF sz]
  have r: "a \<noteq> 0" "a mod PGSIZE = 0" "a + pages_for sg * PGSIZE \<le> MAXVA" "p_sz p \<le> a" "a div PGSIZE * PGSIZE = a"
    "\<forall>v \<in> set (p_vma p). vma_addr v < a \<and> vma_end v \<le> a \<or> a + pages_for sg * PGSIZE \<le> vma_addr v"
    using room by (auto simp: room_for_def)
  have le: "a + shm_size sg \<le> a + pages_for sg * PGSIZE" "0 < pages_for sg * PGSIZE" using s(4,6) by simp_all
  have ad: "add64 a (u64 (int32 (shm_size sg))) = a + shm_size sg" unfolding s(1,2) by (rule add64_in_range) (use le r(3) in simp)
  have "\<not> shm_conflict a (u64 (int32 (shm_size sg))) v" if "v \<in> set (p_vma p)" for v
    using bspec [OF r(6) that] le unfolding shm_conflict_def ad by auto
  moreover have "a < MAXVA" "a + shm_size sg \<le> MAXVA" using le r(3) by linarith+
  ultimately show "attach_address a flg (int32 (shm_size sg)) p = Inr a"
    unfolding attach_address_def Let_def using r(2,4,5) ad by (simp add: not_le not_less)
  show "PGROUNDUP a = a" by (rule PGROUNDUP_aligned [OF r(2)]) (use r(3) le in simp)
  obtain y where y: "a = 4096 * y" using r(2) by (auto simp: mod_eq_0_iff_dvd elim!: dvdE)
  have "PGROUNDUP (a + shm_size sg) = (a + shm_size sg + 4095) div 4096 * 4096" by (rule PGROUNDUP_eq) (use le r(3) in simp)
  also have "\<dots> = a + pages_for sg * PGSIZE" 
  proof -
    have "(4096 * y + (shm_size sg + 4095)) div 4096 = y + pages_for sg" by (rule div_mult_self4) simp
    then show ?thesis unfolding y by (simp only: add.assoc) simp
  qed
  finally show "PGROUNDUP (add64 a (u64 (int32 (shm_size sg)))) = a + pages_for sg * PGSIZE" unfolding ad .
qed

lemma shmat_parts:
  assumes n: "n < SHMMNI" "ks_shm_segs k n = Some sg" and ok: "attachable (ks_procs k me) sg flg" and room: "room_for (ks_procs k me) a (pages_for sg)"
    and s: "buddy_wf (ks_pm k)" "\<not> bs_lock (ks_pm k)" "0 < free_count (ks_pm k)"
  shows "\<exists>v k2 s1. pmem_alloc_pages (ks_pm k) 1 = Some (vma_self v, s1) \<and> vma_self v \<noteq> 0 \<and> area_for sg v (pages_for sg) \<and> vma_addr v = a \<and>
    ks_vm k2 = (ks_vm k)\<lparr>vs_pm := s1\<rparr> \<and> ks_shm_segs k2 = ks_shm_segs k \<and> (\<forall>i. p_pagetable (ks_procs k2 i) = p_pagetable (ks_procs k i)) \<and>
    (\<forall>i. i \<noteq> me \<longrightarrow> ks_procs k2 i = ks_procs k i) \<and> keeps (ks_pm k) s1 \<and> free_count s1 = free_count (ks_pm k) - 1 \<and>
    (\<forall>k3. attach_pages me sg v (attach_perm flg) k2 = Some k3 \<longrightarrow>
       sys_shmat me n a flg k = map_option (Pair (int a)) (record_attach me n v k3))"
proof -
  have o: "\<not> shm_is_deleted sg" "0 < shm_size sg" "shm_size sg \<le> 512 * PGSIZE" "\<not> 0x7FFFFFFF \<le> shm_attach_count sg"
    "check_shm_permissions (ks_procs k me) sg (if flg AND SHM_RDONLY \<noteq> 0 then SHM_R else SHM_R OR SHM_W) = 0"
    using ok by (auto simp: attachable_def)
  note sz = size_pages [OF o(2,3)] and ra = room_address [OF room o(2,3)]
  have r: "a \<noteq> 0" "PGSIZE dvd a" "a + pages_for sg * PGSIZE \<le> MAXVA" "p_vma_head (ks_procs k me) \<noteq> 0" "areas_ok (p_vma (ks_procs k me))"
    "\<And>v. v \<in> set (p_vma (ks_procs k me)) \<Longrightarrow> vma_end v \<le> a \<or> a + pages_for sg * PGSIZE \<le> vma_addr v"
    using room by (auto simp: room_for_def)
  let ?p = "if flg AND SHM_RDONLY \<noteq> 0 then 16 OR 2 else 16 OR 2 OR 4 :: 32 word"
  have perm: "?p = attach_perm flg" by simp
  obtain m where m: "place_vma a (a + pages_for sg * PGSIZE) (p_vma (ks_procs k me)) = Insert_at m" using place_split [OF r(6) r(5)] by auto
  obtain b s1 where b: "pmem_alloc_pages (ks_pm k) 1 = Some (b, s1)" "b \<noteq> 0" "keeps (ks_pm k) s1" "free_count s1 = free_count (ks_pm k) - 1"
    using alloc_keeps [OF s] by blast
  define v where "v = \<lparr>vma_self = b, vma_type = SHARE, vma_perm = ?p, vma_orig_prot = 0,
     vma_addr = a, vma_size = shm_size sg, vma_end = a + pages_for sg * PGSIZE, vma_flags = 0, vma_fd = -1,
     vma_f_off = 0, vma_fsize = 0, vma_ref_count = 1, vma_shm_kernel = None\<rparr>"
  define k1 where "k1 = upd_proc me (\<lambda>p. p\<lparr>p_vma := insert_at m v (p_vma p)\<rparr>) (with_vm k ((ks_vm k)\<lparr>vs_pm := s1\<rparr>))"
  define k2 where "k2 = upd_proc me (\<lambda>p. p\<lparr>p_vma := upd_vma (vma_self v) (\<lambda>v. v\<lparr>vma_shm_kernel := Some n\<rparr>) (p_vma p)\<rparr>) k1"
  have av: "alloc_vma me SHARE a (int32 (shm_size sg)) ?p False 0 k = Some (v, k1)"
    unfolding alloc_vma_def Let_def ra(2,3) using r(4) m b(1,2) sz(1,2) by (simp add: v_def k1_def)
  have "sys_shmat me n a flg k = map_option (Pair (int a)) (record_attach me n v k3)" if k3: "attach_pages me sg v ?p k2 = Some k3" for k3
  proof -
    have va: "vma_addr v = a" by (simp add: v_def)
    show ?thesis
      unfolding sys_shmat_def Let_def using n o(1,4,5) r(1) ra(1) av k3 [unfolded k2_def] va
      by (simp add: comp_def cong: map_option_cong)
  qed
  moreover have "vma_self v = b" "vma_addr v = a" "vma_end v = a + pages_for sg * PGSIZE" by (simp_all add: v_def)
  moreover have "area_for sg v (pages_for sg)" using sz(3-5) r(2,3) by (simp add: area_for_def v_def dvd_eq_mod_eq_0)
  moreover have "ks_vm k2 = (ks_vm k)\<lparr>vs_pm := s1\<rparr>" "ks_shm_segs k2 = ks_shm_segs k" "\<forall>i. p_pagetable (ks_procs k2 i) = p_pagetable (ks_procs k i)"
    "\<forall>i. i \<noteq> me \<longrightarrow> ks_procs k2 i = ks_procs k i" by (simp_all add: k2_def k1_def upd_proc_def with_vm_def)
  ultimately show ?thesis using b unfolding perm by (intro exI [of _ v] exI [of _ k2] exI [of _ s1]) simp
qed

text \<open>The segment after an attachment: with an area, and otherwise as before but for the count and the records.\<close>

definition attached_seg :: "shmid_kernel \<Rightarrow> shmid_kernel \<Rightarrow> bool" where
  "attached_seg sg sg' \<longleftrightarrow> shm_attaches sg' \<noteq> 0 \<and> shm_attach_count sg' = shm_attach_count sg + 1 \<and> shm_pages sg' = shm_pages sg \<and>
     shm_size sg' = shm_size sg \<and> shm_perm sg' = shm_perm sg \<and> shm_is_deleted sg' = shm_is_deleted sg"

lemma attached_ok:
  "attached_seg sg sg' \<Longrightarrow> attachable p sg flg \<Longrightarrow> shm_attach_count sg + 1 < 0x7FFFFFFF \<Longrightarrow> attachable p sg' flg"
proof -
  assume a: "attached_seg sg sg'" "attachable p sg flg" "shm_attach_count sg + 1 < 0x7FFFFFFF"
  have "check_shm_permissions p sg' r = check_shm_permissions p sg r" for r
    using a(1) by (simp only: check_shm_permissions_def has_shm_permission_def attached_seg_def)
  then show "attachable p sg' flg" using a by (simp add: attachable_def attached_seg_def)
qed

lemma attach_perms: "attach_perm flg \<in> {18, 22}"
  by simp

lemma shmat_first:
  assumes n: "n < SHMMNI" "ks_shm_segs k n = Some sg" "shm_attaches sg = 0" and ok: "attachable (ks_procs k i) sg flg"
    and room: "room_for (ks_procs k i) a (pages_for sg)"
    and T: "pt_inv (ks_pm k) (p_pagetable (ks_procs k i)) T" and l: "\<not> vs_lock (ks_vm k)"
    and F: "shm_pages sg \<in> frames (ks_pm k)" "\<And>p. T p \<noteq> Some (shm_pages sg)"
    and un: "\<And>x. a \<le> x \<Longrightarrow> x < a + pages_for sg * PGSIZE \<Longrightarrow> pte_at (bs_mem (ks_pm k)) T x AND PTE_V = 0"
    and o: "get_order (pages_for sg) = int q" "find_order (free_lists (ks_pm k)) (Suc q) \<noteq> None" "2 ^ q + 2 * pages_for sg + 3 \<le> free_count (ks_pm k)"
  shows "\<exists>k1 sg' T'. sys_shmat i n a flg k = Some (int a, k1) \<and> \<not> vs_lock (ks_vm k1) \<and> ks_shm_segs k1 n = Some sg' \<and> attached_seg sg sg' \<and>
    (\<forall>j. p_pagetable (ks_procs k1 j) = p_pagetable (ks_procs k j)) \<and> (\<forall>j. j \<noteq> i \<longrightarrow> ks_procs k1 j = ks_procs k j) \<and>
    pt_inv (ks_pm k1) (p_pagetable (ks_procs k i)) T' \<and> frames (ks_pm k) \<subseteq> frames (ks_pm k1) \<and>
    free_count (ks_pm k) \<le> free_count (ks_pm k1) + (2 ^ q + 2 * pages_for sg + 3) \<and>
    (\<forall>p t. T' p = Some t \<and> t \<in> frames (ks_pm k) \<longrightarrow> T p = Some t) \<and>
    (\<forall>f \<in> frames (ks_pm k). f \<noteq> shm_pages sg \<longrightarrow> (\<forall>p. T p \<noteq> Some f) \<longrightarrow> (\<forall>x \<in> page_bytes f. bs_mem (ks_pm k1) x = bs_mem (ks_pm k) x)) \<and>
    (\<forall>c < pages_for sg. let e = pte_at (bs_mem (ks_pm k1)) T' (a + c * PGSIZE)
       in e AND PTE_V \<noteq> 0 \<and> PTE2PA e \<noteq> 0 \<and> unat (get64 (ks_pm k1) (shm_pages sg + 8 * c)) = PTE2PA e)"
proof -
  let ?pt = "p_pagetable (ks_procs k i)" and ?np = "pages_for sg" and ?F = "shm_pages sg"
  have s: "buddy_wf (ks_pm k)" "\<not> bs_lock (ks_pm k)" "0 < free_count (ks_pm k)" using T o(3) by (auto simp: pt_inv_def)
  obtain v ka s1 where p: "pmem_alloc_pages (ks_pm k) 1 = Some (vma_self v, s1)" "vma_self v \<noteq> 0" "area_for sg v ?np" "vma_addr v = a"
    "ks_vm ka = (ks_vm k)\<lparr>vs_pm := s1\<rparr>" "ks_shm_segs ka = ks_shm_segs k" "\<forall>j. p_pagetable (ks_procs ka j) = p_pagetable (ks_procs k j)"
    "\<forall>j. j \<noteq> i \<longrightarrow> ks_procs ka j = ks_procs k j" "keeps (ks_pm k) s1" "free_count s1 = free_count (ks_pm k) - 1"
    "\<forall>k3. attach_pages i sg v (attach_perm flg) ka = Some k3 \<longrightarrow> sys_shmat i n a flg k = map_option (Pair (int a)) (record_attach i n v k3)"
    using shmat_parts [OF n(1,2) ok room s] by blast
  have pm: "ks_pm ka = s1" by (simp add: p(5))
  have T1: "pt_inv (ks_pm ka) (p_pagetable (ks_procs ka i)) T" using keeps_inv(1) [OF p(9) T] pm p(7) by simp
  have un1: "unmapped (bs_mem (ks_pm ka)) T v"
    using un p(3,4) keeps_inv(2) [OF p(9) T] unfolding pm area_for_def by simp
  have fr: "frames (ks_pm k) \<subseteq> frames s1" using p(9) by (simp add: keeps_def)
  have F1: "?F \<in> frames (ks_pm ka)" using fr F(1) pm by auto
  have o1: "find_order (free_lists (ks_pm ka)) q \<noteq> None" "2 ^ q + 2 * ?np \<le> free_count (ks_pm ka)"
    using order_left [OF s(1,2) o(2) p(1,2)] o(3) p(10) pm by simp_all
  have l1: "\<not> vs_lock (ks_vm ka)" using l by (simp add: p(5))
  obtain vm T' where f: "attach_pages i sg v (attach_perm flg) ka = Some (with_vm ka vm)" "\<not> vs_lock vm" "pt_inv (vs_pm vm) ?pt T'"
    "frames s1 \<subseteq> frames (vs_pm vm)" "free_count s1 \<le> free_count (vs_pm vm) + (2 ^ q + 2 * ?np)"
    "\<forall>p t. T' p = Some t \<and> t \<in> frames s1 \<longrightarrow> T p = Some t"
    "\<forall>f \<in> frames s1. f \<noteq> ?F \<longrightarrow> (\<forall>p. T p \<noteq> Some f) \<longrightarrow> (\<forall>x \<in> page_bytes f. bs_mem (vs_pm vm) x = bs_mem s1 x)"
    "\<forall>c < ?np. let e = pte_at (bs_mem (vs_pm vm)) T' (a + c * PGSIZE)
       in e AND PTE_V \<noteq> 0 \<and> PTE2PA e \<noteq> 0 \<and> unat (get64 (vs_pm vm) (?F + 8 * c)) = PTE2PA e"
    using attach_first [OF T1 l1 n(3) p(3) F1 F(2) shm_perms(1) [OF attach_perms [of flg]] un1 o(1) o1] unfolding pm p(4) spec [OF p(7)] by blast
  let ?k3 = "with_vm ka vm"
  have v3: "ks_vm ?k3 = vm" "ks_shm_segs ?k3 n = Some sg" using n(2) p(6) by (simp_all add: with_vm_def)
  have w3: "buddy_wf (ks_pm ?k3)" "\<not> bs_lock (ks_pm ?k3)" "2 \<le> free_count (ks_pm ?k3)"
    using f(3,5) o(3) p(10) unfolding v3 pt_inv_def by auto
  obtain s' k1 where r: "record_attach i n v ?k3 = Some k1" "ks_vm k1 = vm\<lparr>vs_pm := s'\<rparr>" "keeps (vs_pm vm) s'"
    "free_count s' = free_count (vs_pm vm) - 2" "ks_shm_segs k1 n \<noteq> None" "attached_seg sg (the (ks_shm_segs k1 n))"
    "\<forall>j. p_pagetable (ks_procs k1 j) = p_pagetable (ks_procs ka j)" "\<forall>j. j \<noteq> i \<longrightarrow> ks_procs k1 j = ks_procs ka j"
    using record_keeps [OF w3 v3(2), of i v] p(2) unfolding v3(1) attached_seg_def Let_def with_fields by (metis (no_types, lifting))
  have pm1: "ks_pm k1 = s'" by (simp add: r(2))
  have "sys_shmat i n a flg k = Some (int a, k1)" using p(11) f(1) r(1) by simp
  moreover obtain sg' where "ks_shm_segs k1 n = Some sg'" "attached_seg sg sg'" using r(5,6) by auto
  moreover have "\<forall>j. p_pagetable (ks_procs k1 j) = p_pagetable (ks_procs k j)" "\<forall>j. j \<noteq> i \<longrightarrow> ks_procs k1 j = ks_procs k j" using r(7,8) p(7,8) by simp_all
  moreover have "pt_inv (ks_pm k1) ?pt T'" unfolding pm1 by (rule keeps_inv(1) [OF r(3) f(3)])
  moreover have fr1: "frames (vs_pm vm) \<subseteq> frames s'" using r(3) by (simp add: keeps_def)
  then have "frames (ks_pm k) \<subseteq> frames (ks_pm k1)" using fr f(4) unfolding pm1 by blast
  moreover have "free_count (ks_pm k) \<le> free_count (ks_pm k1) + (2 ^ q + 2 * ?np + 3)" using p(10) f(5) r(4) o(3) unfolding pm1 by linarith
  moreover have "\<forall>p t. T' p = Some t \<and> t \<in> frames (ks_pm k) \<longrightarrow> T p = Some t" using f(6) fr by blast
  moreover have "bs_mem (ks_pm k1) x = bs_mem (ks_pm k) x"
    if "h \<in> frames (ks_pm k)" "h \<noteq> ?F" "\<forall>p. T p \<noteq> Some h" "x \<in> page_bytes h" for h x
    using that f(4,7) fr p(9) r(3) unfolding keeps_def pm1 by (metis subsetD)
  moreover have "let e = pte_at (bs_mem (ks_pm k1)) T' (a + c * PGSIZE)
       in e AND PTE_V \<noteq> 0 \<and> PTE2PA e \<noteq> 0 \<and> unat (get64 (ks_pm k1) (?F + 8 * c)) = PTE2PA e" if c: "c < ?np" for c
  proof -
    have "c < 512" "?F \<in> frames (vs_pm vm)" using c p(3) F(1) fr f(4) by (auto simp: area_for_def)
    then show ?thesis using f(8) c keeps_entry [OF r(3)] keeps_inv(2) [OF r(3) f(3)] unfolding pm1 by simp
  qed
  moreover have "\<not> vs_lock (ks_vm k1)" using f(2) by (simp add: r(2))
  ultimately show ?thesis by (intro exI [of _ k1] exI [of _ sg'] exI [of _ T']) blast
qed

lemma shmat_later:
  assumes n: "n < SHMMNI" "ks_shm_segs k n = Some sg" "shm_attaches sg \<noteq> 0" and ok: "attachable (ks_procs k j) sg flg"
    and room: "room_for (ks_procs k j) b (pages_for sg)"
    and U: "pt_inv (ks_pm k) (p_pagetable (ks_procs k j)) U" and l: "\<not> vs_lock (ks_vm k)"
    and F: "shm_pages sg \<in> frames (ks_pm k)" "\<And>p. U p \<noteq> Some (shm_pages sg)"
    and un: "\<And>x. b \<le> x \<Longrightarrow> x < b + pages_for sg * PGSIZE \<Longrightarrow> pte_at (bs_mem (ks_pm k)) U x AND PTE_V = 0"
    and av: "2 * pages_for sg + 3 \<le> free_count (ks_pm k)"
    and pa: "\<And>c. c < pages_for sg \<Longrightarrow> pa c \<noteq> 0 \<and> PGSIZE dvd pa c \<and> pa c < 2 ^ 64"
      "\<And>c. c < pages_for sg \<Longrightarrow> unat (get64 (ks_pm k) (shm_pages sg + 8 * c)) = pa c"
  shows "\<exists>k1 U'. sys_shmat j n b flg k = Some (int b, k1) \<and> pt_inv (ks_pm k1) (p_pagetable (ks_procs k j)) U' \<and>
    buddy_wf (ks_pm k1) \<and> \<not> bs_lock (ks_pm k1) \<and> frames (ks_pm k) \<subseteq> frames (ks_pm k1) \<and>
    (\<forall>f \<in> frames (ks_pm k). (\<forall>p. U p \<noteq> Some f) \<longrightarrow> (\<forall>x \<in> page_bytes f. bs_mem (ks_pm k1) x = bs_mem (ks_pm k) x)) \<and>
    (\<forall>x < pages_for sg * PGSIZE. pte_at (bs_mem (ks_pm k1)) U' (b + x) AND PTE_V \<noteq> 0 \<and>
       PTE2PA (pte_at (bs_mem (ks_pm k1)) U' (b + x)) = pa (x div PGSIZE))"
proof -
  let ?pt = "p_pagetable (ks_procs k j)" and ?np = "pages_for sg" and ?F = "shm_pages sg"
  have s: "buddy_wf (ks_pm k)" "\<not> bs_lock (ks_pm k)" "0 < free_count (ks_pm k)" using U av by (auto simp: pt_inv_def)
  obtain v ka s1 where p: "area_for sg v ?np" "vma_addr v = b"
    "ks_vm ka = (ks_vm k)\<lparr>vs_pm := s1\<rparr>" "ks_shm_segs ka = ks_shm_segs k" "\<forall>i. p_pagetable (ks_procs ka i) = p_pagetable (ks_procs k i)"
    "keeps (ks_pm k) s1" "free_count s1 = free_count (ks_pm k) - 1"
    "\<forall>k3. attach_pages j sg v (attach_perm flg) ka = Some k3 \<longrightarrow> sys_shmat j n b flg k = map_option (Pair (int b)) (record_attach j n v k3)"
    using shmat_parts [OF n(1,2) ok room s] by blast
  have pm: "ks_pm ka = s1" by (simp add: p(3))
  have U1: "pt_inv (ks_pm ka) (p_pagetable (ks_procs ka j)) U" using keeps_inv(1) [OF p(6) U] pm p(5) by simp
  have un1: "unmapped (bs_mem (ks_pm ka)) U v"
    using un p(1,2) keeps_inv(2) [OF p(6) U] unfolding pm area_for_def by simp
  have fr: "frames (ks_pm k) \<subseteq> frames s1" using p(6) by (simp add: keeps_def)
  have F1: "?F \<in> frames (ks_pm ka)" using fr F(1) pm by auto
  have l1: "\<not> vs_lock (ks_vm ka)" using l by (simp add: p(3))
  have av1: "2 * ?np \<le> free_count (ks_pm ka)" using av p(7) pm by simp
  have pa1: "unat (get64 (ks_pm ka) (?F + 8 * c)) = pa c" if "c < ?np" for c
    using pa(2) [OF that] keeps_entry [OF p(6) F(1), of c] that p(1) unfolding pm area_for_def by simp
  obtain s2 U' where f: "attach_pages j sg v (attach_perm flg) ka = Some (with_pm ka s2)" "pt_inv s2 ?pt U'" "frames s1 \<subseteq> frames s2"
    "free_count s1 \<le> free_count s2 + 2 * ?np" "\<forall>f \<in> frames s1. (\<forall>p. U p \<noteq> Some f) \<longrightarrow> (\<forall>x \<in> page_bytes f. bs_mem s2 x = bs_mem s1 x)"
    "\<forall>x < ?np * PGSIZE. pte_at (bs_mem s2) U' (b + x) AND PTE_V \<noteq> 0 \<and> PTE2PA (pte_at (bs_mem s2) U' (b + x)) = pa (x div PGSIZE)"
    using attach_later [where pa = pa, OF U1 l1 n(3) p(1) F1 F(2) shm_perms(2) [OF attach_perms [of flg]] un1 av1 pa(1) pa1]
    unfolding pm p(2) spec [OF p(5)] by blast
  let ?k3 = "with_pm ka s2"
  have v3: "ks_pm ?k3 = s2" "ks_shm_segs ?k3 n = Some sg" using n(2) p(4) by (simp_all add: with_pm_def)
  have w3: "buddy_wf (ks_pm ?k3)" "\<not> bs_lock (ks_pm ?k3)" "2 \<le> free_count (ks_pm ?k3)"
    using f(2,4) av p(7) unfolding v3 pt_inv_def by auto
  obtain s' k1 where r: "record_attach j n v ?k3 = Some k1" "ks_pm k1 = s'" "keeps s2 s'"
    using record_keeps [OF w3 v3(2), of j v] unfolding v3(1) by fastforce
  have "sys_shmat j n b flg k = Some (int b, k1)" using p(8) f(1) r(1) by simp
  moreover have "pt_inv (ks_pm k1) ?pt U'" unfolding r(2) by (rule keeps_inv(1) [OF r(3) f(2)])
  moreover have "buddy_wf (ks_pm k1)" "\<not> bs_lock (ks_pm k1)" "frames (ks_pm k) \<subseteq> frames (ks_pm k1)"
    using r(2,3) fr f(3) unfolding keeps_def by auto
  moreover have "bs_mem (ks_pm k1) x = bs_mem (ks_pm k) x" if "h \<in> frames (ks_pm k)" "\<forall>p. U p \<noteq> Some h" "x \<in> page_bytes h" for h x
    using that f(3,5) fr p(6) r(3) unfolding keeps_def r(2) by (metis subsetD)
  moreover have "\<forall>x < ?np * PGSIZE. pte_at (bs_mem (ks_pm k1)) U' (b + x) AND PTE_V \<noteq> 0 \<and> PTE2PA (pte_at (bs_mem (ks_pm k1)) U' (b + x)) = pa (x div PGSIZE)"
    using f(6) unfolding r(2) keeps_inv(2) [OF r(3) f(2)] .
  ultimately show ?thesis by blast
qed

text \<open>
  C10: Shared memory is shared. A segment that no process has attached yet, not deleted, of 1 to 512 pages, whose attachments are below the limit,
  is attached by \<^verbatim>\<open>shmat\<close> in one process and then by \<^verbatim>\<open>shmat\<close> in another one, each at an address it names. If the
  permissions allow both calls, each address is a page boundary above the heap of its process with room for the
  segment (no area and no mapped page there), the page tables have no table in common and none is the page of the
  segment's addresses, and there is memory (a free block of twice the pages of the segment, rounded up to a power of two, and
  pages for the tables and the records), then both calls return the address asked for, and every offset of the
  two areas is mapped in both processes, to the same physical address.
\<close>

theorem shm_pages_shared:
  fixes k :: ksys and i j :: nat
  defines "pt \<equiv> p_pagetable (ks_procs k i)" and "pu \<equiv> p_pagetable (ks_procs k j)"
  assumes T: "pt_inv (ks_pm k) pt T" and U: "pt_inv (ks_pm k) pu U" and apart: "ran T \<inter> ran U = {}" and l: "\<not> vs_lock (ks_vm k)"
    and sg: "n < SHMMNI" "ks_shm_segs k n = Some sg" "shm_attaches sg = 0" "shm_attach_count sg + 1 < 0x7FFFFFFF"
    and F: "shm_pages sg \<in> frames (ks_pm k)" "shm_pages sg \<notin> ran T \<union> ran U"
    and ok: "attachable (ks_procs k i) sg f" "attachable (ks_procs k j) sg g"
    and room: "room_for (ks_procs k i) a (pages_for sg)" "room_for (ks_procs k j) b (pages_for sg)"
    and un: "\<And>x. a \<le> x \<Longrightarrow> x < a + pages_for sg * PGSIZE \<Longrightarrow> pte_at (bs_mem (ks_pm k)) T x AND PTE_V = 0"
      "\<And>x. b \<le> x \<Longrightarrow> x < b + pages_for sg * PGSIZE \<Longrightarrow> pte_at (bs_mem (ks_pm k)) U x AND PTE_V = 0"
    and o: "get_order (pages_for sg) = int q" "find_order (free_lists (ks_pm k)) (Suc q) \<noteq> None" "2 ^ q + 4 * pages_for sg + 6 \<le> free_count (ks_pm k)"
  shows "\<exists>k1 k2 T' U'. sys_shmat i n a f k = Some (int a, k1) \<and> sys_shmat j n b g k1 = Some (int b, k2) \<and>
    pt_inv (ks_pm k2) pt T' \<and> pt_inv (ks_pm k2) pu U' \<and>
    (\<forall>x < pages_for sg * PGSIZE. pte_at (bs_mem (ks_pm k2)) T' (a + x) AND PTE_V \<noteq> 0 \<and> pte_at (bs_mem (ks_pm k2)) U' (b + x) AND PTE_V \<noteq> 0 \<and>
       phys (bs_mem (ks_pm k2)) T' (a + x) = phys (bs_mem (ks_pm k2)) U' (b + x))"
proof -
  let ?F = "shm_pages sg" and ?s = "ks_pm k" and ?np = "pages_for sg"
  have FT: "T x \<noteq> Some ?F" "U x \<noteq> Some ?F" for x using F(2) ranI [of T x ?F] ranI [of U x ?F] by auto
  have TU: "T x \<noteq> Some t \<or> U y \<noteq> Some t" for x y t using apart ranI [of T x t] ranI [of U y t] by blast
  have ij: "j \<noteq> i"
  proof
    assume "j = i"
    then have "T [] = Some pt" "U [] = Some pt" using T U unfolding pt_inv_def pt_def pu_def by (auto dest: pt_treeD(1))
    then show False using TU by blast
  qed
  have av: "2 ^ q + 2 * ?np + 3 \<le> free_count ?s" using o(3) by simp
  obtain k1 sg' T' where 1: "sys_shmat i n a f k = Some (int a, k1)" "\<not> vs_lock (ks_vm k1)" "ks_shm_segs k1 n = Some sg'" "attached_seg sg sg'"
    "\<forall>j. j \<noteq> i \<longrightarrow> ks_procs k1 j = ks_procs k j" "pt_inv (ks_pm k1) pt T'" "frames ?s \<subseteq> frames (ks_pm k1)"
    "free_count ?s \<le> free_count (ks_pm k1) + (2 ^ q + 2 * ?np + 3)" "\<forall>p t. T' p = Some t \<and> t \<in> frames ?s \<longrightarrow> T p = Some t"
    "\<forall>f \<in> frames ?s. f \<noteq> ?F \<longrightarrow> (\<forall>p. T p \<noteq> Some f) \<longrightarrow> (\<forall>x \<in> page_bytes f. bs_mem (ks_pm k1) x = bs_mem ?s x)"
    "\<forall>c < ?np. let e = pte_at (bs_mem (ks_pm k1)) T' (a + c * PGSIZE)
       in e AND PTE_V \<noteq> 0 \<and> PTE2PA e \<noteq> 0 \<and> unat (get64 (ks_pm k1) (?F + 8 * c)) = PTE2PA e"
    using shmat_first [OF sg(1-3) ok(1) room(1) T [unfolded pt_def] l F(1) FT(1) un(1) o(1,2) av] unfolding pt_def by blast
  have g': "shm_attaches sg' \<noteq> 0" "shm_pages sg' = ?F" "shm_size sg' = shm_size sg" using 1(4) by (simp_all add: attached_seg_def)
  have sU: "bs_mem (ks_pm k1) x = bs_mem ?s x" if "U r = Some t" "x \<in> page_bytes t" for r t x
    using 1(10) TU [of _ t r] FT(2) [of r] U that by (auto simp: pt_inv_def)
  have wf: "buddy_wf (ks_pm k1)" "\<not> bs_lock (ks_pm k1)" using 1(6) by (auto simp: pt_inv_def)
  have U1: "pt_inv (ks_pm k1) pu U" by (rule pt_inv_keep(1) [OF U 1(7) wf]) (rule sU)
  have U2: "pte_at (bs_mem (ks_pm k1)) U x = pte_at (bs_mem ?s) U x" for x by (rule pt_inv_keep(2) [OF U 1(7) wf]) (rule sU)
  have pj: "ks_procs k1 j = ks_procs k j" using 1(5) ij by blast
  let ?pa = "\<lambda>c. PTE2PA (pte_at (bs_mem (ks_pm k1)) T' (a + c * PGSIZE))"
  have pa: "?pa c \<noteq> 0 \<and> PGSIZE dvd ?pa c \<and> ?pa c < 2 ^ 64" "unat (get64 (ks_pm k1) (?F + 8 * c)) = ?pa c"
    "pte_at (bs_mem (ks_pm k1)) T' (a + c * PGSIZE) AND PTE_V \<noteq> 0" if "c < ?np" for c
    using 1(11) that PTE2PA_aligned PTE2PA_less unfolding Let_def by blast+
  have ok': "attachable (ks_procs k1 j) sg' g" unfolding pj by (rule attached_ok [OF 1(4) ok(2) sg(4)])
  have av': "2 * ?np + 3 \<le> free_count (ks_pm k1)" using 1(8) o(3) by linarith
  have F': "shm_pages sg' \<in> frames (ks_pm k1)" "\<And>p. U p \<noteq> Some (shm_pages sg')" using F(1) 1(7) FT(2) unfolding g'(2) by blast+
  have un': "pte_at (bs_mem (ks_pm k1)) U x AND PTE_V = 0" if "b \<le> x" "x < b + pages_for sg' * PGSIZE" for x
    using un(2) [of x] that unfolding U2 g'(3) by blast
  obtain k2 U' where 2: "sys_shmat j n b g k1 = Some (int b, k2)" "pt_inv (ks_pm k2) pu U'" "buddy_wf (ks_pm k2)" "\<not> bs_lock (ks_pm k2)"
    "frames (ks_pm k1) \<subseteq> frames (ks_pm k2)"
    "\<forall>f \<in> frames (ks_pm k1). (\<forall>p. U p \<noteq> Some f) \<longrightarrow> (\<forall>x \<in> page_bytes f. bs_mem (ks_pm k2) x = bs_mem (ks_pm k1) x)"
    "\<forall>x < ?np * PGSIZE. pte_at (bs_mem (ks_pm k2)) U' (b + x) AND PTE_V \<noteq> 0 \<and> PTE2PA (pte_at (bs_mem (ks_pm k2)) U' (b + x)) = ?pa (x div PGSIZE)"
    using shmat_later [where pa = ?pa, OF sg(1) 1(3) g'(1) ok' _ _ 1(2) F' un'] room(2) U1 av' pa(1,2) unfolding pj g'(2,3) pu_def by blast
  have sT: "bs_mem (ks_pm k2) x = bs_mem (ks_pm k1) x" if "T' r = Some t" "x \<in> page_bytes t" for r t x
  proof -
    have "U y \<noteq> Some t" for y using 1(9) TU [of r t y] U that(1) by (auto simp: pt_inv_def)
    moreover have "t \<in> frames (ks_pm k1)" using 1(6) that(1) by (auto simp: pt_inv_def)
    ultimately show ?thesis using 2(6) that(2) by blast
  qed
  have T1: "pt_inv (ks_pm k2) pt T'" by (rule pt_inv_keep(1) [OF 1(6) 2(5,3,4)]) (rule sT)
  have T2: "pte_at (bs_mem (ks_pm k2)) T' x = pte_at (bs_mem (ks_pm k1)) T' x" for x by (rule pt_inv_keep(2) [OF 1(6) 2(5,3,4)]) (rule sT)
  have "pte_at (bs_mem (ks_pm k2)) T' (a + x) AND PTE_V \<noteq> 0 \<and> phys (bs_mem (ks_pm k2)) T' (a + x) = phys (bs_mem (ks_pm k2)) U' (b + x)"
    if x: "x < ?np * PGSIZE" for x
  proof -
    have al: "PGSIZE dvd a" "PGSIZE dvd b" using room by (auto simp: room_for_def)
    have c: "x div PGSIZE < ?np" using x by (simp add: less_mult_imp_div_less)
    have "(a + x) div PGSIZE = (a + x div PGSIZE * PGSIZE) div PGSIZE" using al(1) by (simp add: div_plus_div_distrib_dvd_left)
    then have "pte_at (bs_mem (ks_pm k2)) T' (a + x) = pte_at (bs_mem (ks_pm k1)) T' (a + x div PGSIZE * PGSIZE)"
      using pte_at_page [of "a + x" _ "bs_mem (ks_pm k2)" T'] T2 by metis
    moreover have "(a + x) mod PGSIZE = (b + x) mod PGSIZE" using al by (metis dvd_imp_mod_0 mod_add_left_eq)
    ultimately show ?thesis using pa(3) [OF c] 2(7) x by (simp add: phys_def)
  qed
  then show ?thesis using 1(1) 2(1,2,7) T1 by (intro exI [of _ k1] exI [of _ k2] exI [of _ T'] exI [of _ U']) simp
qed

section \<open>Witness\<close>

lemma sample_orders:
  "m \<le> 5 \<Longrightarrow> \<exists>s as. buddy_wf s \<and> \<not> bs_lock s \<and> length as = m \<and> distinct as \<and> set as \<subseteq> frames s \<and>
     (\<forall>a \<in> set as. PGSIZE dvd a \<and> 0 < a \<and> a < 2 ^ 64) \<and> 32 - m \<le> free_count s \<and> find_order (free_lists s) (5 - m) \<noteq> None"
proof (induction m)
  case 0
  obtain s where s: "buddy_wf s" "\<not> bs_lock s" "32 \<le> free_count s" "find_order (free_lists s) 5 \<noteq> None" using small_allocator by blast
  then show ?case by (intro exI [of _ s] exI [of _ "[]"]) simp
next
  case (Suc m)
  then obtain s as where s: "buddy_wf s" "\<not> bs_lock s" "length as = m" "distinct as" "set as \<subseteq> frames s"
    "\<forall>a \<in> set as. PGSIZE dvd a \<and> 0 < a \<and> a < 2 ^ 64" "32 - m \<le> free_count s" "find_order (free_lists s) (5 - m) \<noteq> None" by auto
  have "0 < free_count s" using s(7) Suc.prems by simp
  then obtain b s' where b: "pmem_alloc_pages s 1 = Some (b, s')" "buddy_wf s'" "\<not> bs_lock s'" "PGSIZE dvd b" "0 < b" "b < 2 ^ 64" "b \<notin> frames s"
    "frames s' = insert b (frames s)" "free_count s' = free_count s - 1" using alloc_one_frame [OF s(1,2)] by blast
  have "5 - m = Suc (5 - Suc m)" using Suc.prems by simp
  then have "find_order (free_lists s') (5 - Suc m) \<noteq> None" using order_left [OF s(1,2) _ b(1)] s(8) b(5) by simp
  then show ?case using s b by (intro exI [of _ s'] exI [of _ "b # as"]) auto
qed

theorem shm_pages_shared_witness:
  "\<exists>k k1 k2 T U. sys_shmat 1 7 0x20000 0 k = Some (0x20000, k1) \<and> sys_shmat 2 7 0x40000 4096 k1 = Some (0x40000, k2) \<and>
     phys (bs_mem (ks_pm k2)) T 0x21123 = phys (bs_mem (ks_pm k2)) U 0x41123"
proof -
  obtain s as where s: "buddy_wf s" "\<not> bs_lock s" "length as = 3" "distinct as" "set as \<subseteq> frames s"
    "\<forall>a \<in> set as. PGSIZE dvd a \<and> 0 < a \<and> a < 2 ^ 64" "29 \<le> free_count s" "find_order (free_lists s) 2 \<noteq> None" using sample_orders [of 3] by auto
  obtain pt pu F where as: "as = [pt, pu, F]" using s(3) by (auto simp: length_Suc_conv numeral_eq_Suc)
  let ?s = "s\<lparr>bs_mem := (\<lambda>_. 0)\<rparr>"
  define sg :: shmid_kernel where "sg = undefined\<lparr>shm_size := 0x1800, shm_pages := F, shm_attaches := 0, shm_is_deleted := False, shm_attach_count := 0\<rparr>"
  define k :: ksys where "k = undefined\<lparr>ks_vm := \<lparr>vs_pm = ?s, vs_lock = False\<rparr>, ks_shm_segs := [7 \<mapsto> sg],
    ks_procs := (\<lambda>i. undefined\<lparr>p_pagetable := if i = 1 then pt else pu, p_euid := 0, p_sz := 0x10000, p_vma_head := 1, p_vma := []\<rparr>)\<rparr>"
  have k: "ks_vm k = \<lparr>vs_pm = ?s, vs_lock = False\<rparr>" "p_pagetable (ks_procs k 1) = pt" "p_pagetable (ks_procs k 2) = pu" "ks_shm_segs k 7 = Some sg"
    by (simp_all add: k_def)
  have e: "pt_tree (\<lambda>_. 0) a [[] \<mapsto> a]" "pte_at (\<lambda>_. 0) [[] \<mapsto> a] x = 0" if "a \<in> set as" for a x
    using empty_table [of a "\<lambda>_. 0"] s(6) that by auto
  have inv: "pt_inv (ks_pm k) (p_pagetable (ks_procs k 1)) [[] \<mapsto> pt]" "pt_inv (ks_pm k) (p_pagetable (ks_procs k 2)) [[] \<mapsto> pu]"
    using s(1,2,5) e as unfolding pt_inv_def k by (auto split: if_splits)
  have d: "ran [[] \<mapsto> pt] \<inter> ran [[] \<mapsto> pu] = {}" "F \<notin> ran [[] \<mapsto> pt] \<union> ran [[] \<mapsto> pu]" using s(4) as by auto
  have sg: "shm_attaches sg = 0" "shm_attach_count sg + 1 < 0x7FFFFFFF" "shm_pages sg = F" "pages_for sg = 2" by (simp_all add: sg_def)
  have root: "has_shm_permission (ks_procs k i) sg r" for i r by (simp add: has_shm_permission_def is_root_user_def k_def Let_def)
  have ok: "attachable (ks_procs k 1) sg 0" "attachable (ks_procs k 2) sg 4096"
    unfolding attachable_def check_shm_permissions_def using root by (simp_all add: sg_def)
  have room: "room_for (ks_procs k 1) 0x20000 (pages_for sg)" "room_for (ks_procs k 2) 0x40000 (pages_for sg)"
    unfolding sg(4) by (simp_all add: room_for_def k_def areas_ok_def dvd_eq_mod_eq_0)
  have un: "pte_at (bs_mem (ks_pm k)) [[] \<mapsto> pt] x AND PTE_V = 0" "pte_at (bs_mem (ks_pm k)) [[] \<mapsto> pu] x AND PTE_V = 0" for x
    using e as by (simp_all add: k)
  have "get_order 2 = int 1" by code_simp
  then have o: "get_order (pages_for sg) = int 1" "find_order (free_lists (ks_pm k)) (Suc 1) \<noteq> None" "2 ^ 1 + 4 * pages_for sg + 6 \<le> free_count (ks_pm k)"
    using s(7,8) free_count_cong [of ?s s] unfolding sg(4) k by (simp_all only: vmem.simps buddy_system.simps numeral_2_eq_2) simp_all
  have m: "(7::nat) < SHMMNI" "\<not> vs_lock (ks_vm k)" "shm_pages sg \<in> frames (ks_pm k)" using s(5) as by (auto simp: sg k)
  obtain k1 k2 T U where r: "sys_shmat 1 7 0x20000 0 k = Some (int 0x20000, k1)" "sys_shmat 2 7 0x40000 4096 k1 = Some (int 0x40000, k2)"
    "\<forall>x < pages_for sg * PGSIZE. pte_at (bs_mem (ks_pm k2)) T (0x20000 + x) AND PTE_V \<noteq> 0 \<and> pte_at (bs_mem (ks_pm k2)) U (0x40000 + x) AND PTE_V \<noteq> 0 \<and>
       phys (bs_mem (ks_pm k2)) T (0x20000 + x) = phys (bs_mem (ks_pm k2)) U (0x40000 + x)"
    using shm_pages_shared [OF inv d(1) m(2,1) k(4) sg(1,2) m(3) d(2) [folded sg(3)] ok room un(1) un(2) o] by blast
  have "phys (bs_mem (ks_pm k2)) T 0x21123 = phys (bs_mem (ks_pm k2)) U 0x41123"
    using r(3) [rule_format, of "0x1123"] unfolding sg(4) by simp
  then show ?thesis using r(1,2) by (intro exI [of _ k] exI [of _ k1] exI [of _ k2] exI [of _ T] exI [of _ U]) simp
qed

end
