(* ===== verification/Files.thy ===== *)
theory Files
  imports Proc Pipe Fifo
begin

text \<open>
  Open files and descriptors: the table of file structures of \<^verbatim>\<open>kernel/fs/file.c\<close>, the descriptor tables of
  the processes, and the system calls of \<^verbatim>\<open>kernel/syscall.c\<close> that open, duplicate and close descriptors. The
  reference count of a structure is 16 bits wide, as in the code. \<open>None\<close> is a panic or an access outside the
  descriptor table. A close of the last reference is split where the code releases the lock of the table.
  Left out of \<^verbatim>\<open>struct file\<close> are its lock and the device numbers.
\<close>

unbundle bit_operations_syntax

abbreviation NFILE :: nat where "NFILE \<equiv> 1024"
abbreviation NOFILE :: nat where "NOFILE \<equiv> 256"
abbreviation (input) FD_CLOEXEC :: "32 word" where "FD_CLOEXEC \<equiv> 1"
abbreviation (input) O_CLOEXEC :: "32 word" where "O_CLOEXEC \<equiv> 0x80000"
abbreviation (input) EBADF :: int where "EBADF \<equiv> 9"
abbreviation (input) EFAULT :: int where "EFAULT \<equiv> 14"
abbreviation (input) ENFILE :: int where "ENFILE \<equiv> 23"
abbreviation (input) EMFILE :: int where "EMFILE \<equiv> 24"
abbreviation POLLIN :: "32 word" where "POLLIN \<equiv> 1"
abbreviation POLLOUT :: "32 word" where "POLLOUT \<equiv> 4"
abbreviation POLLHUP :: "32 word" where "POLLHUP \<equiv> 16"

datatype file_type = FD_NONE | FD_PIPE | FD_FIFO | FD_REG | FD_DEVICE | FD_SOCKET | FD_BUSYBOX | FD_PROCFS

datatype fs_t = VFAT | EXT4 | Unknown_fs

datatype file_data = No_data | F_pipe nat | F_fifo nat | F_sock nat | F_pti nat | F_vnode fs_t

record kfile =
  f_type :: file_type
  f_mode :: nat
  f_flags :: "32 word"
  fd_flags :: "32 word"
  f_pos :: nat
  f_count :: "16 word"
  f_path :: string
  removed :: bool
  f_tmpfile :: bool
  f_data :: file_data

record fsys =
  fs_file :: "nat \<Rightarrow> kfile"
  fs_ofile :: "nat \<Rightarrow> nat \<Rightarrow> nat option"
  fs_ofn :: "nat \<Rightarrow> nat"
  fs_rlim :: "nat \<Rightarrow> nat"

definition upd_file :: "nat \<Rightarrow> (kfile \<Rightarrow> kfile) \<Rightarrow> fsys \<Rightarrow> fsys" where
  "upd_file f g s = s\<lparr>fs_file := (fs_file s)(f := g (fs_file s f))\<rparr>"

definition set_fd :: "nat \<Rightarrow> nat \<Rightarrow> nat option \<Rightarrow> fsys \<Rightarrow> fsys" where
  "set_fd p fd x s = s\<lparr>fs_ofile := (fs_ofile s)(p := (fs_ofile s p)(fd := x))\<rparr>"

section \<open>File structures\<close>

definition reset_file :: "16 word \<Rightarrow> kfile \<Rightarrow> kfile" where
  "reset_file n f = f\<lparr>f_count := n, f_type := FD_NONE, f_flags := 0, f_mode := 0, f_pos := 0, removed := False, f_tmpfile := False, f_path := []\<rparr>"

definition fileinit :: "fsys \<Rightarrow> fsys" where
  "fileinit s = s\<lparr>fs_file := (\<lambda>_. \<lparr>f_type = FD_NONE, f_mode = 0, f_flags = 0, fd_flags = 0, f_pos = 0, f_count = 0, f_path = [],
     removed = False, f_tmpfile = False, f_data = No_data\<rparr>)\<rparr>"

definition filealloc :: "fsys \<Rightarrow> (nat \<times> fsys) option" where
  "filealloc s =
     map_option (\<lambda>i. (i, upd_file i (\<lambda>f. (reset_file 1 f)\<lparr>fd_flags := 0\<rparr>) s)) (find (\<lambda>i. f_count (fs_file s i) = 0) [0..<NFILE])"

definition filedup :: "nat \<Rightarrow> fsys \<Rightarrow> fsys option" where
  "filedup f s = (if f_count (fs_file s f) < 1 then None else Some (upd_file f (\<lambda>x. x\<lparr>f_count := f_count x + 1\<rparr>) s))"

text \<open>
  \<^verbatim>\<open>fileclose\<close>: the first critical section, which tells whether this was the last reference; what is then
  done for the copy of the structure, outside the lock; and the last section.
\<close>

definition fileclose_begin :: "nat \<Rightarrow> fsys \<Rightarrow> (bool \<times> fsys) option" where
  "fileclose_begin f s =
     (if f_count (fs_file s f) < 1 then None
      else
        let s1 = upd_file f (\<lambda>x. x\<lparr>f_count := f_count x - 1\<rparr>) s
        in if f_count (fs_file s1 f) > 0 then Some (False, s1) else Some (True, upd_file f (\<lambda>x. x\<lparr>f_count := -1\<rparr>) s1))"

definition fileclose_end :: "nat \<Rightarrow> fsys \<Rightarrow> fsys" where
  "fileclose_end f s = upd_file f (reset_file 0) s"

definition filereadable :: "kfile \<Rightarrow> bool" where
  "filereadable f \<longleftrightarrow> f_flags f AND 1 = 0"

definition filewriteable :: "kfile \<Rightarrow> bool" where
  "filewriteable f \<longleftrightarrow> f_flags f AND 1 \<noteq> 0 \<or> f_flags f AND 2 \<noteq> 0"

datatype close_call =
  Pipeclose nat bool | Fifo_close nat "32 word" | Dirclose string | Fclose string | Rm string | Freeprthinfo nat

text \<open>
  The calls into the other components, in their order. \<open>is_dir\<close> and \<open>nlink\<close> are answers of the file system:
  whether a path is a directory, and the number of links of a file that exists.
\<close>

definition close_calls :: "(string \<Rightarrow> bool) \<Rightarrow> (string \<Rightarrow> nat option) \<Rightarrow> kfile \<Rightarrow> close_call list option" where
  "close_calls is_dir nlink ff =
     (let path = f_path ff; fs_close = (if is_dir path then [Dirclose path] else [Fclose path]) @ (if removed ff then [Rm path] else [])
      in case (f_type ff, f_data ff) of
           (FD_PIPE, F_pipe p) \<Rightarrow> Some [Pipeclose p (filewriteable ff)]
         | (FD_FIFO, F_fifo p) \<Rightarrow> Some [Fifo_close p (f_flags ff)]
         | (FD_PROCFS, F_pti p) \<Rightarrow> Some [Freeprthinfo p]
         | (t, F_vnode fs) \<Rightarrow>
             if t \<noteq> FD_REG \<and> t \<noteq> FD_DEVICE then Some []
             else (case fs of
                     EXT4 \<Rightarrow> Some (fs_close @ (if f_tmpfile ff then case nlink path of Some n \<Rightarrow> if n \<le> 1 then [Rm path] else [] | None \<Rightarrow> [] else []))
                   | VFAT \<Rightarrow> Some fs_close
                   | Unknown_fs \<Rightarrow> None)
         | _ \<Rightarrow> Some [])"

definition fileclose :: "(string \<Rightarrow> bool) \<Rightarrow> (string \<Rightarrow> nat option) \<Rightarrow> nat \<Rightarrow> fsys \<Rightarrow> (close_call list \<times> fsys) option" where
  "fileclose is_dir nlink f s =
     Option.bind (fileclose_begin f s) (\<lambda>(last, s1).
     if last then map_option (\<lambda>cs. (cs, fileclose_end f s1)) (close_calls is_dir nlink (fs_file s f)) else Some ([], s1))"

definition ready :: "32 word \<Rightarrow> bool \<Rightarrow> bool \<Rightarrow> 32 word" where
  "ready events rd wr = (if events AND POLLIN \<noteq> 0 \<and> rd then POLLIN else 0) OR (if events AND POLLOUT \<noteq> 0 \<and> wr then POLLOUT else 0)"

definition filepoll :: "(nat \<Rightarrow> pipe) \<Rightarrow> (nat \<Rightarrow> fifo) \<Rightarrow> kfile \<Rightarrow> 32 word \<Rightarrow> 32 word" where
  "filepoll pipes fifos f events =
     (case (f_type f, f_data f) of
        (FD_PIPE, F_pipe i) \<Rightarrow>
          let p = pipes i
          in ready events (pi_nread p \<noteq> pi_nwrite p \<or> \<not> pi_writeopen p) (pi_nwrite p < pi_nread p + pi_size p) OR
             (if \<not> pi_readopen p \<and> f_flags f AND 0 \<noteq> 0 then POLLHUP else 0) OR
             (if \<not> pi_writeopen p \<and> f_flags f AND 1 \<noteq> 0 then POLLHUP else 0)
      | (FD_FIFO, F_fifo i) \<Rightarrow>
          let p = fifos i
          in ready events (fi_nread p \<noteq> fi_nwrite p \<or> fi_writeopen p = 0) (fi_nwrite p < fi_nread p + 69632) OR
             (if fi_readopen p = 0 \<and> f_flags f AND 0 \<noteq> 0 then POLLHUP else 0) OR
             (if fi_writeopen p = 0 \<and> f_flags f AND 1 \<noteq> 0 then POLLHUP else 0)
      | (FD_REG, _) \<Rightarrow> ready events True True
      | (FD_SOCKET, _) \<Rightarrow> ready events True True
      | _ \<Rightarrow> 0)"

section \<open>Descriptors\<close>

definition fdalloc :: "nat \<Rightarrow> nat \<Rightarrow> fsys \<Rightarrow> int \<times> fsys" where
  "fdalloc me f s =
     (case find (\<lambda>fd. fs_ofile s me fd = None) [0..<min NOFILE (fs_ofn s me)] of
        None \<Rightarrow> (-1, s)
      | Some fd \<Rightarrow> (int fd, set_fd me fd (Some f) s))"

text \<open>A negative \<open>begin\<close> reads in front of the table.\<close>

definition fdalloc2 :: "nat \<Rightarrow> nat \<Rightarrow> int \<Rightarrow> fsys \<Rightarrow> (int \<times> fsys) option" where
  "fdalloc2 me f begin s =
     (if begin < 0 then None
      else Some (case find (\<lambda>fd. fs_ofile s me fd = None) [nat begin..<NOFILE] of
                   None \<Rightarrow> (-1, s)
                 | Some fd \<Rightarrow> (int fd, set_fd me fd (Some f) s)))"

definition fd_file :: "nat \<Rightarrow> int \<Rightarrow> fsys \<Rightarrow> nat option" where
  "fd_file me fd s = (if fd < 0 \<or> fd \<ge> int NOFILE then None else fs_ofile s me (nat fd))"

text \<open>
  The part of \<^verbatim>\<open>sys_openat\<close> for ordinary files that opens a file: \<open>ini\<close> are the flags, the mode and the path it stores,
  \<open>link\<close> an error of the resolution of a symbolic link, \<open>r\<close> the answer of \<^verbatim>\<open>vfs_ext4_openat\<close> with the fields it fills in
  on success (\<open>fill\<close>). Neither failure closes the structure.
\<close>

definition open_finish :: "nat \<Rightarrow> nat \<Rightarrow> int \<Rightarrow> int \<Rightarrow> (kfile \<Rightarrow> kfile) \<Rightarrow> fsys \<Rightarrow> int \<times> fsys" where
  "open_finish me f fd r fill s =
     (if r < 0 then (r, set_fd me (nat fd) None s) else (fd, upd_file f (\<lambda>x. (fill x)\<lparr>f_count := 1\<rparr>) s))"

definition open_general :: "nat \<Rightarrow> (kfile \<Rightarrow> kfile) \<Rightarrow> int option \<Rightarrow> int \<Rightarrow> (kfile \<Rightarrow> kfile) \<Rightarrow> fsys \<Rightarrow> int \<times> fsys" where
  "open_general me ini link r fill s =
     (case filealloc s of
        None \<Rightarrow> (- ENFILE, s)
      | Some (f, s1) \<Rightarrow>
          let (fd, s2) = fdalloc me f s1; s3 = upd_file f ini s2
          in if fd < 0 then (- EMFILE, s2)
             else case link of
               Some e \<Rightarrow> (e, s3)
             | None \<Rightarrow> open_finish me f fd r fill s3)"

text \<open>The same for the paths served by \<^verbatim>\<open>FD_BUSYBOX\<close> structures, which do free it, and for those of \<^verbatim>\<open>FD_PROCFS\<close>.\<close>

definition open_busybox :: "nat \<Rightarrow> (kfile \<Rightarrow> kfile) \<Rightarrow> fsys \<Rightarrow> int \<times> fsys" where
  "open_busybox me ini s =
     (case filealloc s of
        None \<Rightarrow> (- ENFILE, s)
      | Some (f, s1) \<Rightarrow>
          let (fd, s2) = fdalloc me f (upd_file f ini s1)
          in if fd < 0 then (- EMFILE, upd_file f (\<lambda>x. x\<lparr>f_count := 0\<rparr>) s2) else (fd, s2))"

definition open_procfs :: "nat \<Rightarrow> (kfile \<Rightarrow> kfile) \<Rightarrow> fsys \<Rightarrow> int \<times> fsys" where
  "open_procfs me ini s =
     (case filealloc s of
        None \<Rightarrow> (- ENFILE, s)
      | Some (f, s1) \<Rightarrow>
          let (fd, s2) = fdalloc me f s1 in if fd < 0 then (- EMFILE, s2) else (fd, upd_file f ini s2))"

definition sys_dup :: "nat \<Rightarrow> int \<Rightarrow> fsys \<Rightarrow> (int \<times> fsys) option" where
  "sys_dup me fd s =
     (case fd_file me fd s of
        None \<Rightarrow> Some (- EBADF, s)
      | Some f \<Rightarrow>
          if nat fd \<ge> fs_rlim s me then Some (- EBADF, s)
          else
            let (new_fd, s1) = fdalloc me f s
            in if new_fd < 0 then Some (- EMFILE, s1) else map_option (Pair new_fd) (filedup f s1))"

text \<open>The cases \<^verbatim>\<open>F_DUPFD\<close>, \<^verbatim>\<open>F_DUPFD_CLOEXEC\<close> and \<^verbatim>\<open>F_SETFD\<close>, \<^verbatim>\<open>F_SETFL\<close> of \<^verbatim>\<open>sys_fcntl\<close>.\<close>

definition fcntl_dupfd :: "nat \<Rightarrow> int \<Rightarrow> int \<Rightarrow> fsys \<Rightarrow> (int \<times> fsys) option" where
  "fcntl_dupfd me fd arg s =
     (case fd_file me fd s of
        None \<Rightarrow> Some (- EBADF, s)
      | Some f \<Rightarrow>
          Option.bind (fdalloc2 me f arg s) (\<lambda>(new_fd, s1).
          if new_fd < 0 then Some (- EMFILE, s1) else map_option (Pair new_fd) (filedup f s1)))"

definition fcntl_dupfd_cloexec :: "nat \<Rightarrow> int \<Rightarrow> int \<Rightarrow> fsys \<Rightarrow> (int \<times> fsys) option" where
  "fcntl_dupfd_cloexec me fd arg s =
     (case fd_file me fd s of
        None \<Rightarrow> Some (- EBADF, s)
      | Some f \<Rightarrow>
          Option.bind (fdalloc2 me f arg s) (\<lambda>(new_fd, s1).
          if new_fd > 0 then map_option (\<lambda>s2. (new_fd, upd_file f (\<lambda>x. x\<lparr>fd_flags := FD_CLOEXEC\<rparr>) s2)) (filedup f s1)
          else Some (new_fd, s1)))"

definition fcntl_setfd :: "nat \<Rightarrow> int \<Rightarrow> 64 word \<Rightarrow> fsys \<Rightarrow> int \<times> fsys" where
  "fcntl_setfd me fd arg s =
     (case fd_file me fd s of None \<Rightarrow> (- EBADF, s) | Some f \<Rightarrow> (0, upd_file f (\<lambda>x. x\<lparr>fd_flags := ucast arg\<rparr>) s))"

definition fcntl_setfl :: "nat \<Rightarrow> int \<Rightarrow> 64 word \<Rightarrow> fsys \<Rightarrow> int \<times> fsys" where
  "fcntl_setfl me fd arg s =
     (case fd_file me fd s of
        None \<Rightarrow> (- EBADF, s)
      | Some f \<Rightarrow> (0, upd_file f (\<lambda>x. x\<lparr>f_flags := (f_flags x AND NOT 0xC00) OR (ucast arg AND 0xC00)\<rparr>) s))"

text \<open>
  \<^verbatim>\<open>sys_close\<close> up to the call of \<^verbatim>\<open>fileclose\<close>: the structure to close, or the error. \<^verbatim>\<open>sys_dup3\<close>: its checks (\<open>Inl\<close> the
  result), and what follows once a file that was in the way is closed.
\<close>

definition sys_close :: "nat \<Rightarrow> int \<Rightarrow> fsys \<Rightarrow> int + nat \<times> fsys" where
  "sys_close me fd s =
     (if fd < 0 then Inl (- EBADF)
      else case fd_file me fd s of None \<Rightarrow> Inl (- ENFILE) | Some f \<Rightarrow> Inr (f, set_fd me (nat fd) None s))"

definition dup3_check :: "nat \<Rightarrow> int \<Rightarrow> int \<Rightarrow> fsys \<Rightarrow> int + nat \<times> nat option" where
  "dup3_check me oldfd newfd s =
     (case fd_file me oldfd s of
        None \<Rightarrow> Inl (- EINVAL)
      | Some f \<Rightarrow>
          if oldfd = newfd then Inl newfd
          else if newfd < 0 \<or> newfd \<ge> int NOFILE \<or> newfd \<ge> int (fs_ofn s me) then Inl (- EINVAL)
          else Inr (f, fs_ofile s me (nat newfd)))"

definition dup3_install :: "nat \<Rightarrow> nat \<Rightarrow> nat \<Rightarrow> 32 word \<Rightarrow> fsys \<Rightarrow> fsys option" where
  "dup3_install me f newfd flags s =
     map_option (upd_file f (\<lambda>x. x\<lparr>fd_flags := (fd_flags x AND NOT FD_CLOEXEC) OR (if flags AND O_CLOEXEC \<noteq> 0 then FD_CLOEXEC else 0)\<rparr>))
       (filedup f (set_fd me newfd (Some f) s))"

text \<open>
  \<^verbatim>\<open>sys_pipe2\<close> with the files of \<^verbatim>\<open>pipealloc\<close>. The arguments after the flags say which of the requests of
  memory and of the accesses to the caller's memory succeed; \<open>i\<close> is the pipe. No close of a pipe waits.
\<close>

definition close_pipe_file :: "nat \<Rightarrow> fsys \<Rightarrow> fsys option" where
  "close_pipe_file f s = map_option snd (fileclose (\<lambda>_. False) (\<lambda>_. None) f s)"

definition close_both :: "nat \<Rightarrow> nat \<Rightarrow> fsys \<Rightarrow> fsys option" where
  "close_both f0 f1 s = Option.bind (close_pipe_file f0 s) (close_pipe_file f1)"

definition pipe_files :: "bool \<Rightarrow> bool \<Rightarrow> nat \<Rightarrow> fsys \<Rightarrow> ((nat \<times> nat) option \<times> fsys) option" where
  "pipe_files pi_ok data_ok i s =
     (case filealloc s of
        None \<Rightarrow> Some (None, s)
      | Some (f0, s1) \<Rightarrow>
          case filealloc s1 of
            None \<Rightarrow> map_option (Pair None) (close_pipe_file f0 s1)
          | Some (f1, s2) \<Rightarrow>
              if pi_ok \<and> data_ok
              then Some (Some (f0, f1), upd_file f1 (\<lambda>x. x\<lparr>f_type := FD_PIPE, f_flags := 1, f_data := F_pipe i\<rparr>)
                     (upd_file f0 (\<lambda>x. x\<lparr>f_type := FD_PIPE, f_flags := 0, f_data := F_pipe i\<rparr>) s2))
              else map_option (Pair None) (close_both f0 f1 s2))"

definition pipe_flags :: "32 word \<Rightarrow> kfile \<Rightarrow> kfile" where
  "pipe_flags flags x =
     x\<lparr>fd_flags := if flags AND O_CLOEXEC \<noteq> 0 then FD_CLOEXEC else fd_flags x,
       f_flags := if flags AND 0x800 \<noteq> 0 then f_flags x OR 0x800 else f_flags x\<rparr>"

definition sys_pipe2 :: "nat \<Rightarrow> 32 word \<Rightarrow> bool \<Rightarrow> bool \<Rightarrow> bool \<Rightarrow> bool \<Rightarrow> nat \<Rightarrow> fsys \<Rightarrow> (int \<times> fsys) option" where
  "sys_pipe2 me flags access pi_ok data_ok copied i s =
     (if flags AND NOT (O_CLOEXEC OR 0x800 OR 0x4000) \<noteq> 0 then Some (- EINVAL, s)
      else if \<not> access then Some (- EFAULT, s)
      else Option.bind (pipe_files pi_ok data_ok i s) (\<lambda>(fs, s1).
        case fs of
          None \<Rightarrow> Some (-1, s1)
        | Some (rfile, wfile) \<Rightarrow>
            let (fdread, s2) = fdalloc me rfile s1
            in if fdread < 0 then map_option (Pair (- EMFILE)) (close_both rfile wfile s2)
               else
                 let (fdwrite, s3) = fdalloc me wfile s2
                 in if fdwrite < 0 then map_option (Pair (- EMFILE)) (close_both rfile wfile (set_fd me (nat fdread) None s3))
                    else
                      let s4 = upd_file wfile (pipe_flags flags) (upd_file rfile (pipe_flags flags) s3)
                      in if copied then Some (0, s4)
                         else map_option (Pair (-1)) (close_both rfile wfile (set_fd me (nat fdwrite) None (set_fd me (nat fdread) None s4)))))"

text \<open>The files of a new process.\<close>

fun fork_files :: "nat \<Rightarrow> nat \<Rightarrow> nat list \<Rightarrow> fsys \<Rightarrow> fsys option" where
  "fork_files p np [] s = Some s"
| "fork_files p np (i # is) s =
     (case fs_ofile s p i of
        Some f \<Rightarrow>
          if f_count (fs_file s f) > 0 then Option.bind (filedup f s) (\<lambda>s1. fork_files p np is (set_fd np i (Some f) s1))
          else fork_files p np is (set_fd np i None s)
      | None \<Rightarrow> fork_files p np is (set_fd np i None s))"

end
