(* ===== verification/Files_Refs.thy ===== *)
theory Files_Refs
  imports Files
begin

text \<open>
  Reference counts of open files, as tables of numbers. \<open>finv\<close> relates the counts to the descriptors; it is kept by
  taking a new structure, adding a reference, dropping one and the end of a close, the steps of an abstract
  system \<open>rstep\<close>. In it a structure that is lost without a descriptor stays lost.
\<close>

section \<open>Counting descriptors\<close>

type_synonym fd_table = "nat \<Rightarrow> nat \<Rightarrow> nat option"

definition slots :: "fd_table \<Rightarrow> nat \<Rightarrow> (nat \<times> nat) set" where
  "slots L f = {(p, fd). p < NPROC \<and> fd < NOFILE \<and> L p fd = Some f}"

abbreviation refs :: "fd_table \<Rightarrow> nat \<Rightarrow> nat" where
  "refs L f \<equiv> card (slots L f)"

definition upd_slot :: "nat \<Rightarrow> nat \<Rightarrow> nat option \<Rightarrow> fd_table \<Rightarrow> fd_table" where
  "upd_slot p fd x L = L(p := (L p)(fd := x))"

lemma slots_sub: "slots L f \<subseteq> {..<NPROC} \<times> {..<NOFILE}"
  by (auto simp: slots_def)

lemma finite_slots [simp]: "finite (slots L f)"
  by (rule finite_subset [OF slots_sub]) simp

lemma refs_le: "refs L f \<le> 32768"
  using card_mono [OF _ slots_sub [of L f]] by simp

lemma refs_pos: "L p fd = Some f \<Longrightarrow> p < NPROC \<Longrightarrow> fd < NOFILE \<Longrightarrow> 0 < refs L f"
  using finite_slots [of L f] by (force simp: card_gt_0_iff slots_def)

lemma refs_add:
  assumes "p < NPROC" "fd < NOFILE" "L p fd = None"
  shows "refs (upd_slot p fd (Some f) L) g = (if g = f then refs L g + 1 else refs L g)"
proof -
  have "slots (upd_slot p fd (Some f) L) g = (if g = f then insert (p, fd) (slots L g) else slots L g)"
    using assms by (auto simp: slots_def upd_slot_def split: if_splits)
  moreover have "(p, fd) \<notin> slots L f" using assms(3) by (simp add: slots_def)
  ultimately show ?thesis by simp
qed

lemma refs_drop:
  assumes "p < NPROC" "fd < NOFILE" "L p fd = Some f"
  shows "refs (upd_slot p fd None L) g = (if g = f then refs L g - 1 else refs L g)"
proof -
  have "slots (upd_slot p fd None L) g = (if g = f then slots L g - {(p, fd)} else slots L g)"
    using assms by (auto simp: slots_def upd_slot_def split: if_splits)
  moreover have "(p, fd) \<in> slots L f" using assms by (simp add: slots_def)
  ultimately show ?thesis by simp
qed

definition in_range :: "fd_table \<Rightarrow> bool" where
  "in_range L \<longleftrightarrow> (\<forall>p fd f. L p fd = Some f \<longrightarrow> p < NPROC \<and> fd < NOFILE \<and> f < NFILE)"

text \<open>\<open>cnt\<close> are the counts, \<open>C\<close> the structure that a process is closing.\<close>

definition count_ok :: "(nat \<Rightarrow> 16 word) \<Rightarrow> fd_table \<Rightarrow> (nat \<Rightarrow> nat option) \<Rightarrow> nat \<Rightarrow> bool" where
  "count_ok cnt L C f \<longleftrightarrow>
     (if \<exists>p. C p = Some f then cnt f = -1 \<and> refs L f = 0 \<and> (\<forall>p q. C p = Some f \<longrightarrow> C q = Some f \<longrightarrow> p = q)
      else unat (cnt f) = refs L f \<or> cnt f = 1 \<and> refs L f = 0)"

definition finv :: "(nat \<Rightarrow> 16 word) \<Rightarrow> fd_table \<Rightarrow> (nat \<Rightarrow> nat option) \<Rightarrow> bool" where
  "finv cnt L C \<longleftrightarrow> in_range L \<and> (\<forall>f < NFILE. count_ok cnt L C f)"

text \<open>A structure that no descriptor refers to, but which is not free.\<close>

definition leaked :: "nat \<Rightarrow> (nat \<Rightarrow> 16 word) \<Rightarrow> fd_table \<Rightarrow> (nat \<Rightarrow> nat option) \<Rightarrow> bool" where
  "leaked f cnt L C \<longleftrightarrow> f < NFILE \<and> cnt f = 1 \<and> refs L f = 0 \<and> (\<forall>p. C p \<noteq> Some f)"

text \<open>A change to one structure.\<close>

lemma finv_change:
  assumes "finv cnt L C" "in_range L'" "count_ok cnt' L' C' f"
    and "\<And>g. g \<noteq> f \<Longrightarrow> cnt' g = cnt g \<and> refs L' g = refs L g \<and> (\<forall>p. C' p = Some g \<longleftrightarrow> C p = Some g)"
  shows "finv cnt' L' C'"
  unfolding finv_def
proof (intro conjI allI impI)
  fix g assume "g < NFILE"
  then have ok: "count_ok cnt L C g" using assms(1) by (simp add: finv_def)
  show "count_ok cnt' L' C' g"
  proof (cases "g = f")
    case False
    then have e: "cnt' g = cnt g" "refs L' g = refs L g" "C' p = Some g \<longleftrightarrow> C p = Some g" for p using assms(4) [of g] by blast+
    show ?thesis using ok unfolding count_ok_def e .
  qed (use assms(3) in simp)
qed (rule assms(2))

lemma in_range_add: "in_range L \<Longrightarrow> p < NPROC \<Longrightarrow> fd < NOFILE \<Longrightarrow> f < NFILE \<Longrightarrow> in_range (upd_slot p fd (Some f) L)"
  by (auto simp: in_range_def upd_slot_def)

lemma in_range_drop: "in_range L \<Longrightarrow> in_range (upd_slot p fd None L)"
  by (auto simp: in_range_def upd_slot_def split: if_splits)

lemma finv_live:
  assumes "finv cnt L C" "L p fd = Some f"
  shows "p < NPROC" "fd < NOFILE" "f < NFILE" "\<forall>q. C q \<noteq> Some f" "unat (cnt f) = refs L f" "0 < refs L f" "\<not> cnt f < 1"
proof -
  show r: "p < NPROC" "fd < NOFILE" "f < NFILE" using assms by (auto simp: finv_def in_range_def)
  show pos: "0 < refs L f" by (rule refs_pos [of L, OF assms(2) r(1,2)])
  have ok: "count_ok cnt L C f" using assms(1) r(3) by (simp add: finv_def)
  show "\<forall>q. C q \<noteq> Some f" using ok pos by (auto simp: count_ok_def split: if_splits)
  then show u: "unat (cnt f) = refs L f" using ok pos by (auto simp: count_ok_def)
  show "\<not> cnt f < 1" using u pos by (auto simp: word_less_nat_alt)
qed

lemma finv_new:
  assumes i: "finv cnt L C" and f: "f < NFILE" "cnt f = 0"
  shows "refs L f = 0" "\<forall>p. C p \<noteq> Some f" "finv (cnt(f := 1)) L C" "leaked f (cnt(f := 1)) L C"
    and "p < NPROC \<Longrightarrow> fd < NOFILE \<Longrightarrow> L p fd = None \<Longrightarrow> finv (cnt(f := 1)) (upd_slot p fd (Some f) L) C"
proof -
  have ok: "count_ok cnt L C f" using i f(1) by (simp add: finv_def)
  then show r: "refs L f = 0" and c: "\<forall>p. C p \<noteq> Some f" using f(2) by (auto simp: count_ok_def split: if_splits)
  have L: "in_range L" using i by (simp add: finv_def)
  show "finv (cnt(f := 1)) L C" by (rule finv_change [OF i L, of _ _ f]) (use r c in \<open>simp_all add: count_ok_def\<close>)
  show "leaked f (cnt(f := 1)) L C" using r c f(1) by (simp add: leaked_def)
  show "finv (cnt(f := 1)) (upd_slot p fd (Some f) L) C" if "p < NPROC" "fd < NOFILE" "L p fd = None"
    by (rule finv_change [OF i in_range_add [OF L], of _ _ _ _ _ f])
      (use r c f(1) refs_add [of p fd L f, OF that] that in \<open>simp_all add: count_ok_def\<close>)
qed

lemma finv_dup:
  assumes i: "finv cnt L C" and q: "L q fd' = Some f" and p: "p < NPROC" "fd < NOFILE" "L p fd = None"
  shows "finv (cnt(f := cnt f + 1)) (upd_slot p fd (Some f) L) C"
proof -
  note l = finv_live [of cnt L C, OF i q]
  have "unat (cnt f + 1) = refs L f + 1" using l(5) refs_le [of L f] by (simp add: unat_word_ariths)
  moreover have "in_range L" using i by (simp add: finv_def)
  ultimately show ?thesis
    by (intro finv_change [OF i in_range_add [of L], of _ _ _ _ _ f])
      (use l(3,4) refs_add [of p fd L f, OF p] p in \<open>simp_all add: count_ok_def\<close>)
qed

lemma finv_begin:
  assumes i: "finv cnt L C" and p: "L p fd = Some f" "C p = None"
  shows "cnt f - 1 > 0 \<Longrightarrow> finv (cnt(f := cnt f - 1)) (upd_slot p fd None L) C"
    and "\<not> cnt f - 1 > 0 \<Longrightarrow> finv (cnt(f := -1)) (upd_slot p fd None L) (C(p := Some f))"
proof -
  note l = finv_live [of cnt L C, OF i p(1)]
  have u: "unat (cnt f - 1) = refs L f - 1" using l(5,6) by (simp add: unat_sub_if_size word_size)
  note d = refs_drop [of p fd L f, OF l(1,2) p(1)]
  have L: "in_range (upd_slot p fd None L)" using i in_range_drop by (simp add: finv_def)
  show "finv (cnt(f := cnt f - 1)) (upd_slot p fd None L) C"
    by (rule finv_change [OF i L, of _ _ f]) (use l(4) u d in \<open>simp_all add: count_ok_def\<close>)
  assume "\<not> cnt f - 1 > 0"
  then have "refs L f - 1 = 0" using u by (simp add: word_less_nat_alt)
  then show "finv (cnt(f := -1)) (upd_slot p fd None L) (C(p := Some f))"
    by (intro finv_change [OF i L, of _ _ f]) (use l(4) d p(2) in \<open>auto simp: count_ok_def\<close>)
qed

lemma finv_end:
  assumes i: "finv cnt L C" and p: "C p = Some f" and f: "f < NFILE"
  shows "finv (cnt(f := 0)) L (C(p := None))"
proof -
  have ok: "count_ok cnt L C f" using i f by (simp add: finv_def)
  then have "refs L f = 0" "\<forall>q. C q = Some f \<longrightarrow> q = p" using p unfolding count_ok_def by (metis, metis)
  then have "count_ok (cnt(f := 0)) L (C(p := None)) f" unfolding count_ok_def by auto
  moreover have "in_range L" using i by (simp add: finv_def)
  ultimately show ?thesis by (intro finv_change [OF i, of _ _ _ f]) (use p in auto)
qed

section \<open>The abstract system\<close>

text \<open>
  What the kernel may do with the counts, the descriptors and the structures being closed: take a free
  structure, with or without a descriptor for it; copy a descriptor; drop one of several references or the
  last one; end a close.
\<close>

type_synonym fstate = "(nat \<Rightarrow> 16 word) \<times> fd_table \<times> (nat \<Rightarrow> nat option)"

inductive rstep :: "fstate \<Rightarrow> fstate \<Rightarrow> bool" where
  New: "f < NFILE \<Longrightarrow> cnt f = 0 \<Longrightarrow> rstep (cnt, L, C) (cnt(f := 1), L, C)"
| New_fd: "f < NFILE \<Longrightarrow> cnt f = 0 \<Longrightarrow> p < NPROC \<Longrightarrow> fd < NOFILE \<Longrightarrow> L p fd = None \<Longrightarrow>
    rstep (cnt, L, C) (cnt(f := 1), upd_slot p fd (Some f) L, C)"
| Dup: "L q fd' = Some f \<Longrightarrow> p < NPROC \<Longrightarrow> fd < NOFILE \<Longrightarrow> L p fd = None \<Longrightarrow>
    rstep (cnt, L, C) (cnt(f := cnt f + 1), upd_slot p fd (Some f) L, C)"
| Drop: "L p fd = Some f \<Longrightarrow> C p = None \<Longrightarrow> cnt f - 1 > 0 \<Longrightarrow> rstep (cnt, L, C) (cnt(f := cnt f - 1), upd_slot p fd None L, C)"
| Last: "L p fd = Some f \<Longrightarrow> C p = None \<Longrightarrow> \<not> cnt f - 1 > 0 \<Longrightarrow>
    rstep (cnt, L, C) (cnt(f := -1), upd_slot p fd None L, C(p := Some f))"
| End: "C p = Some f \<Longrightarrow> f < NFILE \<Longrightarrow> rstep (cnt, L, C) (cnt(f := 0), L, C(p := None))"

abbreviation finv3 :: "fstate \<Rightarrow> bool" where
  "finv3 \<equiv> \<lambda>(cnt, L, C). finv cnt L C"

abbreviation leaked3 :: "nat \<Rightarrow> fstate \<Rightarrow> bool" where
  "leaked3 f \<equiv> \<lambda>(cnt, L, C). leaked f cnt L C"

lemma finv_rstep: "rstep a b \<Longrightarrow> finv3 a \<Longrightarrow> finv3 b"
  by (induction rule: rstep.induct) (auto intro: finv_new finv_dup finv_begin finv_end simp del: fun_upd_apply)

lemma finv_rsteps: "rstep\<^sup>*\<^sup>* a b \<Longrightarrow> finv3 a \<Longrightarrow> finv3 b"
proof (induction rule: rtranclp_induct)
  case (step b c)
  then show ?case using finv_rstep [of b c] by blast
qed simp

text \<open>A leaked structure is never touched again.\<close>

lemma leaked_change:
  "leaked f cnt L C \<Longrightarrow> cnt' f = cnt f \<Longrightarrow> refs L' f = refs L f \<Longrightarrow> (\<And>p. C' p = Some f \<Longrightarrow> C p = Some f) \<Longrightarrow> leaked f cnt' L' C'"
  unfolding leaked_def by metis

lemma leaked_not_live: "finv cnt L C \<Longrightarrow> leaked f cnt L C \<Longrightarrow> L p fd = Some g \<Longrightarrow> g \<noteq> f"
  using finv_live(6) [of cnt L C p fd g] by (auto simp: leaked_def)

lemma leaked_rstep: "rstep a b \<Longrightarrow> finv3 a \<Longrightarrow> leaked3 f a \<Longrightarrow> leaked3 f b"
proof (induction rule: rstep.induct)
  case (New g cnt L C)
  then show ?case by (auto simp: leaked_def)
next
  case (New_fd g cnt p fd L C)
  then have "g \<noteq> f" by (auto simp: leaked_def)
  then show ?case using New_fd refs_add [of p fd L g f] by (auto elim!: leaked_change)
next
  case (Dup L q fd' g p fd cnt C)
  then have "g \<noteq> f" using leaked_not_live [of cnt L C f q fd' g] by simp
  then show ?case using Dup refs_add [of p fd L g f] by (auto elim!: leaked_change)
next
  case (Drop L p fd g C cnt)
  then have "g \<noteq> f" using leaked_not_live [of cnt L C f p fd g] by simp
  then show ?case using Drop refs_drop [of p fd L g f] finv_live(1,2) [of cnt L C p fd g] by (auto elim!: leaked_change)
next
  case (Last L p fd g C cnt)
  then have "g \<noteq> f" using leaked_not_live [of cnt L C f p fd g] by simp
  then show ?case using Last refs_drop [of p fd L g f] finv_live(1,2) [of cnt L C p fd g]
    by (auto elim!: leaked_change split: if_splits)
next
  case (End C p g cnt L)
  then show ?case by (auto simp: leaked_def split: if_splits)
qed

lemma leaked_rsteps: "rstep\<^sup>*\<^sup>* a b \<Longrightarrow> finv3 a \<Longrightarrow> leaked3 f a \<Longrightarrow> leaked3 f b"
proof (induction rule: rtranclp_induct)
  case (step b c)
  then show ?case using leaked_rstep [of b c f] finv_rsteps [of a b] by blast
qed simp

end
