(* ===== verification/Files_Props.thy ===== *)
theory Files_Props
  imports Files_Refs
begin

text \<open>
  The calls of the processes on open files, interleaved at the places where a close waits for the file system
  (\<open>fstep\<close>): each is a sequence of steps of the abstract system of reference counts, from which the
  exactness of the counts and the loss of structures by failed opens follow.
\<close>

section \<open>The system\<close>

text \<open>
  Where a process is: in the loop of \<^verbatim>\<open>exit\<close> at a descriptor, or in the middle section of \<^verbatim>\<open>fileclose\<close> for a
  structure, called from \<^verbatim>\<open>sys_close\<close>, \<^verbatim>\<open>sys_dup3\<close> (with the file to install) or \<^verbatim>\<open>exit\<close>. In the last two cases the descriptor
  still refers to the structure that is being closed (\<open>stale\<close>).
\<close>

datatype fcont = Done | Then_dup3 nat nat "32 word" | Then_exit nat

datatype fplace = Idle | Exiting nat | Closing nat fcont

fun stale :: "fplace \<Rightarrow> nat option" where
  "stale (Closing f (Then_dup3 g n fl)) = Some n"
| "stale (Closing f (Then_exit n)) = Some n"
| "stale _ = None"

fun closing :: "fplace \<Rightarrow> nat option" where
  "closing (Closing f k) = Some f"
| "closing _ = None"

type_synonym fconf = "fsys \<times> (nat \<Rightarrow> fplace)"

abbreviation keeps_count :: "(kfile \<Rightarrow> kfile) \<Rightarrow> bool" where
  "keeps_count g \<equiv> \<forall>x. f_count (g x) = f_count x"

text \<open>
  \<open>fstep counted\<close>: the calls of the processes. With \<open>counted\<close> those of \<^verbatim>\<open>F_DUPFD_CLOEXEC\<close> that return descriptor 0 are left
  out, for which the code does not count the reference.
\<close>

inductive fstep :: "bool \<Rightarrow> fconf \<Rightarrow> fconf \<Rightarrow> bool" for counted :: bool where
  Open: "A p = Idle \<Longrightarrow> p < NPROC \<Longrightarrow> keeps_count ini \<Longrightarrow> open_general p ini link r fill s = (x, s') \<Longrightarrow> fstep counted (s, A) (s', A)"
| Open_busybox: "A p = Idle \<Longrightarrow> p < NPROC \<Longrightarrow> keeps_count ini \<Longrightarrow> open_busybox p ini s = (x, s') \<Longrightarrow> fstep counted (s, A) (s', A)"
| Open_procfs: "A p = Idle \<Longrightarrow> p < NPROC \<Longrightarrow> keeps_count ini \<Longrightarrow> open_procfs p ini s = (x, s') \<Longrightarrow> fstep counted (s, A) (s', A)"
| Pipe: "A p = Idle \<Longrightarrow> p < NPROC \<Longrightarrow> sys_pipe2 p flags access pi_ok data_ok copied i s = Some (x, s') \<Longrightarrow> fstep counted (s, A) (s', A)"
| Dup: "A p = Idle \<Longrightarrow> p < NPROC \<Longrightarrow> sys_dup p fd s = Some (x, s') \<Longrightarrow> fstep counted (s, A) (s', A)"
| Dupfd: "A p = Idle \<Longrightarrow> p < NPROC \<Longrightarrow> fcntl_dupfd p fd arg s = Some (x, s') \<Longrightarrow> fstep counted (s, A) (s', A)"
| Cloexec: "A p = Idle \<Longrightarrow> p < NPROC \<Longrightarrow> fcntl_dupfd_cloexec p fd arg s = Some (x, s') \<Longrightarrow> (counted \<longrightarrow> x \<noteq> 0) \<Longrightarrow> fstep counted (s, A) (s', A)"
| Setfd: "fcntl_setfd p fd arg64 s = (x, s') \<Longrightarrow> fstep counted (s, A) (s', A)"
| Setfl: "fcntl_setfl p fd arg64 s = (x, s') \<Longrightarrow> fstep counted (s, A) (s', A)"
| Limit: "fstep counted (s, A) (s\<lparr>fs_ofn := a, fs_rlim := b\<rparr>, A)"
| Fork: "A p = Idle \<Longrightarrow> A np = Idle \<Longrightarrow> p < NPROC \<Longrightarrow> np < NPROC \<Longrightarrow> p \<noteq> np \<Longrightarrow> fs_ofile s np = Map.empty \<Longrightarrow>
    fork_files p np [0..<NOFILE] s = Some s' \<Longrightarrow> fstep counted (s, A) (s', A)"
| Close: "A p = Idle \<Longrightarrow> p < NPROC \<Longrightarrow> sys_close p fd s = Inr (f, s1) \<Longrightarrow> fileclose_begin f s1 = Some (l, s2) \<Longrightarrow>
    fstep counted (s, A) (s2, A(p := if l then Closing f Done else Idle))"
| Dup3: "A p = Idle \<Longrightarrow> p < NPROC \<Longrightarrow> dup3_check p old new s = Inr (f, None) \<Longrightarrow> dup3_install p f (nat new) flags s = Some s' \<Longrightarrow>
    fstep counted (s, A) (s', A)"
| Dup3_over: "A p = Idle \<Longrightarrow> p < NPROC \<Longrightarrow> dup3_check p old new s = Inr (f, Some g) \<Longrightarrow> fileclose_begin g s = Some (False, s1) \<Longrightarrow>
    dup3_install p f (nat new) flags s1 = Some s2 \<Longrightarrow> fstep counted (s, A) (s2, A)"
| Dup3_close: "A p = Idle \<Longrightarrow> p < NPROC \<Longrightarrow> dup3_check p old new s = Inr (f, Some g) \<Longrightarrow> fileclose_begin g s = Some (True, s1) \<Longrightarrow>
    fstep counted (s, A) (s1, A(p := Closing g (Then_dup3 f (nat new) flags)))"
| Exit: "A p = Idle \<Longrightarrow> p < NPROC \<Longrightarrow> fstep counted (s, A) (s, A(p := Exiting 0))"
| Exit_done: "A p = Exiting fd \<Longrightarrow> NOFILE \<le> fd \<Longrightarrow> fstep counted (s, A) (s, A(p := Idle))"
| Exit_skip: "A p = Exiting fd \<Longrightarrow> fd < NOFILE \<Longrightarrow> fs_ofile s p fd = None \<Longrightarrow> fstep counted (s, A) (s, A(p := Exiting (fd + 1)))"
| Exit_drop: "A p = Exiting fd \<Longrightarrow> fd < NOFILE \<Longrightarrow> fs_ofile s p fd = Some f \<Longrightarrow> fileclose_begin f s = Some (False, s1) \<Longrightarrow>
    fstep counted (s, A) (set_fd p fd None s1, A(p := Exiting (fd + 1)))"
| Exit_close: "A p = Exiting fd \<Longrightarrow> fd < NOFILE \<Longrightarrow> fs_ofile s p fd = Some f \<Longrightarrow> fileclose_begin f s = Some (True, s1) \<Longrightarrow>
    fstep counted (s, A) (s1, A(p := Closing f (Then_exit fd)))"
| End_close: "A p = Closing f Done \<Longrightarrow> fstep counted (s, A) (fileclose_end f s, A(p := Idle))"
| End_dup3: "A p = Closing g (Then_dup3 f n flags) \<Longrightarrow> dup3_install p f n flags (fileclose_end g s) = Some s' \<Longrightarrow>
    fstep counted (s, A) (s', A(p := Idle))"
| End_exit: "A p = Closing f (Then_exit fd) \<Longrightarrow> fstep counted (s, A) (set_fd p fd None (fileclose_end f s), A(p := Exiting (fd + 1)))"

section \<open>The system does nothing else\<close>

definition counts :: "fsys \<Rightarrow> nat \<Rightarrow> 16 word" where
  "counts s f = f_count (fs_file s f)"

text \<open>The descriptors but the stale ones.\<close>

definition live :: "fsys \<Rightarrow> (nat \<Rightarrow> fplace) \<Rightarrow> fd_table" where
  "live s A p fd = (if stale (A p) = Some fd then None else fs_ofile s p fd)"

definition abs_conf :: "fconf \<Rightarrow> fstate" where
  "abs_conf = (\<lambda>(s, A). (counts s, live s A, \<lambda>p. closing (A p)))"

lemma counts_simps [simp]:
  "counts (upd_file f g s) = (counts s)(f := f_count (g (fs_file s f)))" "counts (set_fd p fd x s) = counts s"
  "counts (s\<lparr>fs_ofn := a, fs_rlim := b\<rparr>) = counts s"
  by (auto simp: counts_def upd_file_def set_fd_def)

lemma ofile_simps [simp]:
  "fs_ofile (upd_file f g s) = fs_ofile s" "fs_ofile (set_fd p fd x s) = upd_slot p fd x (fs_ofile s)"
  "fs_file (set_fd p fd x s) = fs_file s" "fs_ofn (upd_file f g s) = fs_ofn s"
  by (simp_all add: upd_file_def set_fd_def upd_slot_def)

lemma live_cong: "fs_ofile s' = fs_ofile s \<Longrightarrow> live s' A = live s A"
  by (auto simp: live_def fun_eq_iff)

lemma live_set_fd: "stale (A p) \<noteq> Some fd \<Longrightarrow> live (set_fd p fd x s) A = upd_slot p fd x (live s A)"
  by (auto simp: live_def fun_eq_iff upd_slot_def)

lemma live_idle: "stale (A p) = None \<Longrightarrow> live s A p = fs_ofile s p"
  by (auto simp: live_def fun_eq_iff)

lemma upd_slot_back: "L p fd = None \<Longrightarrow> upd_slot p fd None (upd_slot p fd x L) = L"
  by (auto simp: upd_slot_def fun_eq_iff)

lemma find_upt: "i < n \<Longrightarrow> P i \<Longrightarrow> \<forall>j<i. \<not> P j \<Longrightarrow> find P [0..<n] = Some i"
  by (auto simp: find_Some_iff intro!: exI [of _ i])

lemma filealloc_effect:
  assumes "filealloc s = Some (f, s')"
  shows "f < NFILE" "counts s f = 0" "counts s' = (counts s)(f := 1)" "fs_ofile s' = fs_ofile s" "fs_file s' f = (reset_file 1 (fs_file s f))\<lparr>fd_flags := 0\<rparr>"
proof -
  have "find (\<lambda>i. f_count (fs_file s i) = 0) [0..<NFILE] = Some f" "s' = upd_file f (\<lambda>f. (reset_file 1 f)\<lparr>fd_flags := 0\<rparr>) s"
    using assms by (auto simp: filealloc_def)
  then show "f < NFILE" "counts s f = 0" "counts s' = (counts s)(f := 1)" "fs_ofile s' = fs_ofile s" "fs_file s' f = (reset_file 1 (fs_file s f))\<lparr>fd_flags := 0\<rparr>"
    by (auto simp: find_Some_iff counts_def reset_file_def upd_file_def fun_eq_iff)
qed

lemma fdalloc_effect:
  assumes "fdalloc p f s = (fd, s')"
  shows "fd < 0 \<Longrightarrow> s' = s" "0 \<le> fd \<Longrightarrow> nat fd < NOFILE \<and> fs_ofile s p (nat fd) = None \<and> s' = set_fd p (nat fd) (Some f) s"
  using assms by (auto simp: fdalloc_def find_Some_iff split: option.splits)

lemma fdalloc2_effect:
  assumes "fdalloc2 p f b s = Some (fd, s')"
  shows "fd < 0 \<Longrightarrow> s' = s" "0 \<le> fd \<Longrightarrow> nat fd < NOFILE \<and> fs_ofile s p (nat fd) = None \<and> s' = set_fd p (nat fd) (Some f) s"
  using assms by (auto simp: fdalloc2_def find_Some_iff nat_add_distrib split: option.splits if_splits)

text \<open>The opening of a file: a new structure, for a descriptor or leaked.\<close>

lemma sim_new:
  assumes "filealloc s = Some (f, s1)" "A p = Idle" "p < NPROC"
  shows "counts s' = (counts s)(f := 1) \<Longrightarrow> fs_ofile s' = fs_ofile s \<Longrightarrow> rstep (abs_conf (s, A)) (abs_conf (s', A))"
    and "counts s' = (counts s)(f := 1) \<Longrightarrow> fs_ofile s' = upd_slot p fd (Some f) (fs_ofile s) \<Longrightarrow> fd < NOFILE \<Longrightarrow> fs_ofile s p fd = None \<Longrightarrow>
      rstep (abs_conf (s, A)) (abs_conf (s', A))"
proof -
  note a = filealloc_effect [OF assms(1)]
  show "rstep (abs_conf (s, A)) (abs_conf (s', A))" if "counts s' = (counts s)(f := 1)" "fs_ofile s' = fs_ofile s"
    using rstep.New [of f "counts s" "live s A" "\<lambda>p. closing (A p)", OF a(1,2)] that live_cong [OF that(2)] by (simp add: abs_conf_def)
  assume h: "counts s' = (counts s)(f := 1)" "fs_ofile s' = upd_slot p fd (Some f) (fs_ofile s)" "fd < NOFILE" "fs_ofile s p fd = None"
  have "live s' A = upd_slot p fd (Some f) (live s A)" using assms(2) h(2) by (auto simp: live_def fun_eq_iff upd_slot_def)
  moreover have "live s A p fd = None" using h(4) live_idle [of A p s] assms(2) by simp
  ultimately show "rstep (abs_conf (s, A)) (abs_conf (s', A))"
    using rstep.New_fd [of f "counts s" p fd "live s A" "\<lambda>p. closing (A p)", OF a(1,2) assms(3) h(3)] h(1) by (simp add: abs_conf_def)
qed

lemma sim_open_general:
  assumes "open_general p ini link r fill s = (x, s')" "A p = Idle" "p < NPROC" "keeps_count ini"
  shows "rstep\<^sup>*\<^sup>* (abs_conf (s, A)) (abs_conf (s', A))"
proof (cases "filealloc s")
  case None
  then show ?thesis using assms(1) by (simp add: open_general_def open_finish_def)
next
  case (Some fs1)
  then obtain f s1 where f: "filealloc s = Some (f, s1)" by (cases fs1) simp
  obtain fd s2 where fd: "fdalloc p f s1 = (fd, s2)" by fastforce
  note a = filealloc_effect [OF f] and d = fdalloc_effect [OF fd] and n = sim_new [where A = A and p = p and s = s and s' = s', OF f assms(2,3)]
  have c1: "f_count (fs_file s2 f) = 1"
    using fun_cong [OF a(3), of f] d by (cases "fd < 0") (auto simp: counts_def upd_file_def)
  note s' = assms(1) [unfolded open_general_def open_finish_def f option.case prod.case fd Let_def]
  consider "fd < 0" "s' = s1" | "0 \<le> fd" "s' = set_fd p (nat fd) None (upd_file f ini s2)"
    | "0 \<le> fd" "s' = upd_file f ini s2 \<or> s' = upd_file f (\<lambda>x. (fill x)\<lparr>f_count := 1\<rparr>) (upd_file f ini s2)"
    using s' d(1) by (auto split: if_splits option.splits)
  then have "rstep (abs_conf (s, A)) (abs_conf (s', A))"
  proof cases
    case 1
    then show ?thesis using n(1) a by simp
  next
    case 2
    then show ?thesis using n(1) a(3,4) d(2) assms(4) c1 upd_slot_back [of "fs_ofile s" p "nat fd"] by (auto simp: fun_eq_iff)
  next
    case 3
    then have "counts s' = (counts s)(f := 1)" "fs_ofile s' = upd_slot p (nat fd) (Some f) (fs_ofile s)" "nat fd < NOFILE" "fs_ofile s p (nat fd) = None"
      using a(3,4) d(2) assms(4) c1 by auto
    then show ?thesis by (rule n(2))
  qed
  then show ?thesis by blast
qed

lemma sim_open_busybox:
  assumes "open_busybox p ini s = (x, s')" "A p = Idle" "p < NPROC" "keeps_count ini"
  shows "rstep\<^sup>*\<^sup>* (abs_conf (s, A)) (abs_conf (s', A))"
proof (cases "filealloc s")
  case None
  then show ?thesis using assms(1) by (simp add: open_busybox_def)
next
  case (Some fs1)
  then obtain f s1 where f: "filealloc s = Some (f, s1)" by (cases fs1) simp
  obtain fd s2 where fd: "fdalloc p f (upd_file f ini s1) = (fd, s2)" by fastforce
  note a = filealloc_effect [OF f] and d = fdalloc_effect [OF fd] and n = sim_new [where A = A and p = p and s = s and s' = s', OF f assms(2,3)]
  have c1: "f_count (fs_file s1 f) = 1" using fun_cong [OF a(3), of f] by (simp add: counts_def)
  note s' = assms(1) [unfolded open_busybox_def f option.case prod.case fd Let_def]
  show ?thesis
  proof (cases "fd < 0")
    case True
    then have "counts s' = counts s" "fs_ofile s' = fs_ofile s" using s' d(1) a(2,3,4) by (auto simp: fun_eq_iff)
    then show ?thesis using live_cong [of s' s A] by (simp add: abs_conf_def)
  next
    case False
    then have "counts s' = (counts s)(f := 1)" "fs_ofile s' = upd_slot p (nat fd) (Some f) (fs_ofile s)" "nat fd < NOFILE" "fs_ofile s p (nat fd) = None"
      using s' a(3,4) d(2) assms(4) c1 by auto
    then have "rstep (abs_conf (s, A)) (abs_conf (s', A))" by (rule n(2))
    then show ?thesis by blast
  qed
qed

lemma sim_open_procfs:
  assumes "open_procfs p ini s = (x, s')" "A p = Idle" "p < NPROC" "keeps_count ini"
  shows "rstep\<^sup>*\<^sup>* (abs_conf (s, A)) (abs_conf (s', A))"
proof -
  have "open_general p ini (Some 1) 0 id s = (1, s') \<or> open_general p ini (Some 1) 0 id s = (x, s')"
    using assms(1) by (auto simp: open_procfs_def open_general_def open_finish_def Let_def split: option.splits prod.splits if_splits)
  then show ?thesis using sim_open_general [of p ini "Some 1" 0 id s _ s' A] assms(2-4) by blast
qed

text \<open>A second descriptor for a file, for the process itself or for a new one.\<close>

lemma sim_dup:
  assumes "live s A q o' = Some f" "p < NPROC" "n < NOFILE" "stale (A p) = None" "fs_ofile s p n = None"
    and "counts s' = (counts s)(f := counts s f + 1)" "fs_ofile s' = upd_slot p n (Some f) (fs_ofile s)"
  shows "rstep (abs_conf (s, A)) (abs_conf (s', A))"
proof -
  have "live s' A = upd_slot p n (Some f) (live s A)" using assms(4,7) by (auto simp: live_def fun_eq_iff upd_slot_def)
  moreover have "live s A p n = None" using assms(5) by (simp add: live_def)
  ultimately show ?thesis
    using rstep.Dup [of "live s A" q o' f p n "counts s" "\<lambda>p. closing (A p)", OF assms(1-3)] assms(6) by (simp add: abs_conf_def)
qed

lemma filedup_effect: "filedup f s = Some s' \<Longrightarrow> counts s' = (counts s)(f := counts s f + 1) \<and> fs_ofile s' = fs_ofile s"
  by (auto simp: filedup_def counts_def split: if_splits)

lemma fd_file_live: "fd_file p fd s = Some f \<Longrightarrow> stale (A p) = None \<Longrightarrow> live s A p (nat fd) = Some f \<and> nat fd < NOFILE \<and> 0 \<le> fd"
  by (auto simp: fd_file_def live_def split: if_splits)

lemma sim_sys_dup:
  assumes "sys_dup p fd s = Some (x, s')" "A p = Idle" "p < NPROC"
  shows "rstep\<^sup>*\<^sup>* (abs_conf (s, A)) (abs_conf (s', A))"
proof -
  consider "s' = s" | f s1 where "fd_file p fd s = Some f" "fdalloc p f s = (x, s1)" "0 \<le> x" "filedup f s1 = Some s'"
    using assms(1) fdalloc_effect(1) by (fastforce simp: sys_dup_def Let_def split: option.splits if_splits prod.splits)
  then show ?thesis
  proof cases
    case 2
    then have "rstep (abs_conf (s, A)) (abs_conf (s', A))"
      using fd_file_live [of p fd s f A] fdalloc_effect(2) [OF 2(2)] filedup_effect [OF 2(4)] assms(2,3)
      by (intro sim_dup [of s A p "nat fd" f p "nat x"]) auto
    then show ?thesis by blast
  qed simp
qed

lemma sim_dupfd:
  assumes "fd_file p fd s = Some f" "fdalloc2 p f arg s = Some (x, s1)" "0 \<le> x" "filedup f s1 = Some s2" "A p = Idle" "p < NPROC"
    and "counts s' = counts s2" "fs_ofile s' = fs_ofile s2"
  shows "rstep\<^sup>*\<^sup>* (abs_conf (s, A)) (abs_conf (s', A))"
proof -
  have "rstep (abs_conf (s, A)) (abs_conf (s', A))"
    using fd_file_live [of p fd s f A] fdalloc2_effect(2) [OF assms(2)] filedup_effect [OF assms(4)] assms(1,3,5-)
    by (intro sim_dup [of s A p "nat fd" f p "nat x"]) auto
  then show ?thesis by blast
qed

lemma sim_fcntl_dupfd:
  assumes "fcntl_dupfd p fd arg s = Some (x, s')" "A p = Idle" "p < NPROC"
  shows "rstep\<^sup>*\<^sup>* (abs_conf (s, A)) (abs_conf (s', A))"
proof -
  consider "s' = s" | f s1 where "fd_file p fd s = Some f" "fdalloc2 p f arg s = Some (x, s1)" "0 \<le> x" "filedup f s1 = Some s'"
    using assms(1) fdalloc2_effect(1) by (fastforce simp: fcntl_dupfd_def bind_eq_Some_conv split: option.splits if_splits prod.splits)
  then show ?thesis using sim_dupfd [of p fd s _ arg x _ s' A s'] assms(2,3) by cases auto
qed

lemma sim_fcntl_cloexec:
  assumes "fcntl_dupfd_cloexec p fd arg s = Some (x, s')" "x \<noteq> 0" "A p = Idle" "p < NPROC"
  shows "rstep\<^sup>*\<^sup>* (abs_conf (s, A)) (abs_conf (s', A))"
proof -
  consider "s' = s" | f s1 s2 where "fd_file p fd s = Some f" "fdalloc2 p f arg s = Some (x, s1)" "0 \<le> x" "filedup f s1 = Some s2"
      "s' = upd_file f (\<lambda>x. x\<lparr>fd_flags := FD_CLOEXEC\<rparr>) s2"
    using assms(1,2) fdalloc2_effect(1)
    by (fastforce simp: fcntl_dupfd_cloexec_def bind_eq_Some_conv split: option.splits if_splits prod.splits)
  then show ?thesis
    using sim_dupfd [of p fd s _ arg x _ _ A s'] assms(3,4) by cases (auto simp: counts_def fun_eq_iff)
qed

lemma sim_fork_files:
  assumes "A p = Idle" "A np = Idle" "p < NPROC" "np < NPROC" "p \<noteq> np"
  shows "fork_files p np is s = Some s' \<Longrightarrow> \<forall>i \<in> set is. i < NOFILE \<and> fs_ofile s np i = None \<Longrightarrow> distinct is \<Longrightarrow>
    rstep\<^sup>*\<^sup>* (abs_conf (s, A)) (abs_conf (s', A))"
proof (induction "is" arbitrary: s)
  case (Cons i "is")
  have skip: "set_fd np i None s = s" using Cons.prems(2) by (auto simp: set_fd_def fun_eq_iff intro!: fsys.equality)
  consider "fork_files p np is s = Some s'"
    | f s1 where "fs_ofile s p i = Some f" "filedup f s = Some s1" "fork_files p np is (set_fd np i (Some f) s1) = Some s'"
    using Cons.prems(1) skip by (auto simp: bind_eq_Some_conv split: option.splits if_splits)
  then show ?case
  proof cases
    case 1
    then show ?thesis using Cons by simp
  next
    case 2
    note d = filedup_effect [OF 2(2)]
    have "rstep (abs_conf (s, A)) (abs_conf (set_fd np i (Some f) s1, A))"
      by (rule sim_dup [of s A p i f np i]) (use d 2(1) Cons.prems(2) assms live_idle [of A p s] in auto)
    moreover have "rstep\<^sup>*\<^sup>* (abs_conf (set_fd np i (Some f) s1, A)) (abs_conf (s', A))"
      by (rule Cons.IH [OF 2(3)]) (use d Cons.prems in \<open>auto simp: upd_slot_def\<close>)
    ultimately show ?thesis by (rule converse_rtranclp_into_rtranclp)
  qed
qed simp

text \<open>The two sections of a close.\<close>

lemma fileclose_begin_effect:
  "fileclose_begin f s = Some (l, s') \<Longrightarrow>
     fs_ofile s' = fs_ofile s \<and> l = (\<not> counts s f - 1 > 0) \<and> counts s' = (counts s)(f := if l then -1 else counts s f - 1)"
  by (auto simp: fileclose_begin_def Let_def counts_def upd_file_def split: if_splits)

lemma sim_begin:
  assumes "fileclose_begin f s0 = Some (l, s1)" "counts s0 = counts s" "counts s' = counts s1" "live s A p fd = Some f" "closing (A p) = None"
    and "live s' A' = upd_slot p fd None (live s A)"
    and "\<And>q. closing (A' q) = (if q = p \<and> l then Some f else closing (A q))"
  shows "rstep (abs_conf (s, A)) (abs_conf (s', A'))"
proof -
  note e = fileclose_begin_effect [OF assms(1), unfolded assms(2)]
  show ?thesis
  proof (cases l)
    case True
    then show ?thesis
      using rstep.Last [of "live s A" p fd f "\<lambda>q. closing (A q)" "counts s", OF assms(4,5)] e assms(3,6,7)
      by (simp add: abs_conf_def fun_upd_def)
  next
    case False
    then show ?thesis
      using rstep.Drop [of "live s A" p fd f "\<lambda>q. closing (A q)" "counts s", OF assms(4,5)] e assms(3,6,7) by (simp add: abs_conf_def)
  qed
qed

lemma sim_end:
  assumes "A p = Closing f k" "f < NFILE" "counts s' = (counts s)(f := 0)" "live s' A' = live s A"
    and "\<And>q. closing (A' q) = (if q = p then None else closing (A q))"
  shows "rstep (abs_conf (s, A)) (abs_conf (s', A'))"
  using rstep.End [of "\<lambda>q. closing (A q)" p f "counts s" "live s A"] assms by (simp add: abs_conf_def fun_upd_def)

lemma counts_end [simp]: "counts (fileclose_end f s) = (counts s)(f := 0)" "fs_ofile (fileclose_end f s) = fs_ofile s"
  by (simp_all add: fileclose_end_def reset_file_def)

lemma dup3_install_effect:
  "dup3_install p f n fl s = Some s' \<Longrightarrow> counts s' = (counts s)(f := counts s f + 1) \<and> fs_ofile s' = upd_slot p n (Some f) (fs_ofile s)"
  by (auto simp: dup3_install_def counts_def upd_file_def fun_eq_iff dest!: filedup_effect split: if_splits)

lemma dup3_check_effect:
  "dup3_check p old new s = Inr (f, g) \<Longrightarrow>
     fs_ofile s p (nat old) = Some f \<and> fs_ofile s p (nat new) = g \<and> nat old \<noteq> nat new \<and> nat old < NOFILE \<and> nat new < NOFILE"
  by (auto simp: dup3_check_def fd_file_def split: option.splits if_splits)

lemma sys_close_effect: "sys_close p fd s = Inr (f, s') \<Longrightarrow> fs_ofile s p (nat fd) = Some f \<and> s' = set_fd p (nat fd) None s"
  by (auto simp: sys_close_def fd_file_def split: option.splits if_splits)

lemma sim_close:
  assumes "sys_close p fd s = Inr (f, s1)" "fileclose_begin f s1 = Some (l, s2)" "A p = Idle"
  shows "rstep (abs_conf (s, A)) (abs_conf (s2, A(p := if l then Closing f Done else Idle)))"
  by (rule sim_begin [of f s1 l s2 s s2 A p "nat fd"])
    (use assms sys_close_effect [OF assms(1)] fileclose_begin_effect [OF assms(2)] in \<open>auto simp: live_def fun_eq_iff upd_slot_def\<close>)

lemma sim_dup3:
  assumes "dup3_check p old new s = Inr (f, None)" "dup3_install p f (nat new) flags s = Some s'" "A p = Idle" "p < NPROC"
  shows "rstep (abs_conf (s, A)) (abs_conf (s', A))"
  by (rule sim_dup [of s A p "nat old" f p "nat new"])
    (use assms dup3_check_effect [OF assms(1)] dup3_install_effect [OF assms(2)] in \<open>auto simp: live_def\<close>)

lemma sim_dup3_over:
  assumes "dup3_check p old new s = Inr (f, Some g)" "fileclose_begin g s = Some (False, s1)" "dup3_install p f (nat new) flags s1 = Some s2"
    and "A p = Idle" "p < NPROC"
  shows "rstep\<^sup>*\<^sup>* (abs_conf (s, A)) (abs_conf (s2, A))"
proof -
  note c = dup3_check_effect [OF assms(1)] and b = fileclose_begin_effect [OF assms(2)] and d = dup3_install_effect [OF assms(3)]
  let ?m = "set_fd p (nat new) None s1"
  have "rstep (abs_conf (s, A)) (abs_conf (?m, A))"
    by (rule sim_begin [of g s False s1 s ?m A p "nat new"]) (use assms b c in \<open>auto simp: live_def fun_eq_iff upd_slot_def\<close>)
  moreover have "rstep (abs_conf (?m, A)) (abs_conf (s2, A))"
    by (rule sim_dup [of ?m A p "nat old" f p "nat new"]) (use assms b c d in \<open>auto simp: live_def upd_slot_def\<close>)
  ultimately show ?thesis by (meson converse_rtranclp_into_rtranclp r_into_rtranclp)
qed

lemma sim_dup3_close:
  assumes "dup3_check p old new s = Inr (f, Some g)" "fileclose_begin g s = Some (True, s1)" "A p = Idle"
  shows "rstep (abs_conf (s, A)) (abs_conf (s1, A(p := Closing g (Then_dup3 f (nat new) flags))))"
  by (rule sim_begin [of g s True s1 s s1 A p "nat new"])
    (use assms dup3_check_effect [OF assms(1)] fileclose_begin_effect [OF assms(2)] in \<open>auto simp: live_def fun_eq_iff upd_slot_def\<close>)

lemma sim_exit:
  assumes "fs_ofile s p fd = Some f" "fileclose_begin f s = Some (l, s1)" "A p = Exiting fd"
    and "(if l then (s', a) = (s1, Closing f (Then_exit fd)) else (s', a) = (set_fd p fd None s1, Exiting (fd + 1)))"
  shows "rstep (abs_conf (s, A)) (abs_conf (s', A(p := a)))"
  by (rule sim_begin [of f s l s1 s s' A p fd])
    (use assms fileclose_begin_effect [OF assms(2)] in \<open>auto simp: live_def fun_eq_iff upd_slot_def split: if_splits\<close>)

lemma sim_end_dup3:
  assumes "A p = Closing g (Then_dup3 f n flags)" "dup3_install p f n flags (fileclose_end g s) = Some s'"
    and "p < NPROC" "g < NFILE" "n < NOFILE" "o' \<noteq> n" "fs_ofile s p o' = Some f"
  shows "rstep\<^sup>*\<^sup>* (abs_conf (s, A)) (abs_conf (s', A(p := Idle)))"
proof -
  note d = dup3_install_effect [OF assms(2)]
  let ?m = "set_fd p n None (fileclose_end g s)" and ?A = "A(p := Idle)"
  have "rstep (abs_conf (s, A)) (abs_conf (?m, ?A))"
    by (rule sim_end [where A = A and p = p, OF assms(1,4)]) (use assms(1) in \<open>auto simp: live_def fun_eq_iff upd_slot_def\<close>)
  moreover have "rstep (abs_conf (?m, ?A)) (abs_conf (s', ?A))"
    by (rule sim_dup [of ?m ?A p o' f p n]) (use assms d in \<open>auto simp: live_def upd_slot_def\<close>)
  ultimately show ?thesis by (meson converse_rtranclp_into_rtranclp r_into_rtranclp)
qed

text \<open>The two files of a pipe: both get descriptors, or both are free again.\<close>

lemma close_pipe_effect:
  assumes "close_pipe_file f s = Some s'" "counts s f = 1"
  shows "counts s' = (counts s)(f := 0)" "fs_ofile s' = fs_ofile s"
proof -
  obtain l s1 where l: "fileclose_begin f s = Some (l, s1)"
    using assms(1) by (cases "fileclose_begin f s") (auto simp: close_pipe_file_def fileclose_def)
  then have s': "s' = (if l then fileclose_end f s1 else s1)" using assms(1) by (auto simp: close_pipe_file_def fileclose_def split: if_splits)
  note b = fileclose_begin_effect [OF l]
  show "counts s' = (counts s)(f := 0)" "fs_ofile s' = fs_ofile s" using b s' assms(2) by auto
qed

lemma close_both_effect:
  assumes "close_both f0 f1 s = Some s'" "counts s f0 = 1" "counts s f1 = 1" "f0 \<noteq> f1"
  shows "counts s' = (counts s)(f0 := 0, f1 := 0)" "fs_ofile s' = fs_ofile s"
proof -
  obtain s1 where s1: "close_pipe_file f0 s = Some s1" "close_pipe_file f1 s1 = Some s'" using assms(1) by (auto simp: close_both_def bind_eq_Some_conv)
  note a = close_pipe_effect [OF s1(1) assms(2)]
  have "counts s1 f1 = 1" using a(1) assms(3,4) by simp
  note b = close_pipe_effect [OF s1(2) this]
  show "counts s' = (counts s)(f0 := 0, f1 := 0)" "fs_ofile s' = fs_ofile s" using a b by simp_all
qed

lemma close_both_undo:
  assumes "close_both f0 f1 u = Some s'" "counts u = (counts s)(f0 := 1, f1 := 1)" "counts s f0 = 0" "counts s f1 = 0" "f0 \<noteq> f1" "fs_ofile u = fs_ofile s"
  shows "counts s' = counts s \<and> fs_ofile s' = fs_ofile s"
  using close_both_effect [OF assms(1) _ _ assms(5)] assms(2-) by (auto simp: fun_eq_iff)

lemma pipe_files_effect:
  assumes "pipe_files pi_ok data_ok i s = Some (fs, s')"
  shows "fs = None \<Longrightarrow> counts s' = counts s \<and> fs_ofile s' = fs_ofile s"
    and "fs = Some (f0, f1) \<Longrightarrow> f0 < NFILE \<and> f1 < NFILE \<and> f0 \<noteq> f1 \<and> counts s f0 = 0 \<and> counts s f1 = 0 \<and>
      counts s' = (counts s)(f0 := 1, f1 := 1) \<and> fs_ofile s' = fs_ofile s"
proof -
  consider "fs = None" "s' = s" | f s1 where "filealloc s = Some (f, s1)" "fs = None" "close_pipe_file f s1 = Some s'"
    | g0 s1 g1 s2 where "filealloc s = Some (g0, s1)" "filealloc s1 = Some (g1, s2)"
      "fs = None \<and> close_both g0 g1 s2 = Some s' \<or>
       fs = Some (g0, g1) \<and> counts s' = counts s2 \<and> fs_ofile s' = fs_ofile s2"
    using assms by (auto simp: pipe_files_def counts_def upd_file_def fun_eq_iff split: option.splits if_splits)
  then have "(fs = None \<longrightarrow> counts s' = counts s \<and> fs_ofile s' = fs_ofile s) \<and>
    (fs = Some (f0, f1) \<longrightarrow> f0 < NFILE \<and> f1 < NFILE \<and> f0 \<noteq> f1 \<and> counts s f0 = 0 \<and> counts s f1 = 0 \<and>
      counts s' = (counts s)(f0 := 1, f1 := 1) \<and> fs_ofile s' = fs_ofile s)"
  proof cases
    case (2 f s1)
    then show ?thesis using filealloc_effect [OF 2(1)] close_pipe_effect [OF 2(3)] by (auto simp: fun_eq_iff)
  next
    case (3 g0 s1 g1 s2)
    note a = filealloc_effect [OF 3(1)] and b = filealloc_effect [OF 3(2)]
    have n: "g0 \<noteq> g1" using a(3) b(2) by auto
    then show ?thesis using a b 3(3) close_both_effect [of g0 g1 s2 s'] by (auto simp: fun_eq_iff)
  qed simp
  then show "fs = None \<Longrightarrow> counts s' = counts s \<and> fs_ofile s' = fs_ofile s"
    "fs = Some (f0, f1) \<Longrightarrow> f0 < NFILE \<and> f1 < NFILE \<and> f0 \<noteq> f1 \<and> counts s f0 = 0 \<and> counts s f1 = 0 \<and>
      counts s' = (counts s)(f0 := 1, f1 := 1) \<and> fs_ofile s' = fs_ofile s" by blast+
qed

lemma sys_pipe2_effect:
  assumes "sys_pipe2 p flags access pi_ok data_ok copied i s = Some (x, s')"
  shows "counts s' = counts s \<and> fs_ofile s' = fs_ofile s \<or>
    (\<exists>f0 f1 n0 n1. f0 < NFILE \<and> f1 < NFILE \<and> f0 \<noteq> f1 \<and> counts s f0 = 0 \<and> counts s f1 = 0 \<and> counts s' = (counts s)(f0 := 1, f1 := 1) \<and>
       n0 < NOFILE \<and> n1 < NOFILE \<and> n0 \<noteq> n1 \<and> fs_ofile s p n0 = None \<and> fs_ofile s p n1 = None \<and>
       fs_ofile s' = upd_slot p n1 (Some f1) (upd_slot p n0 (Some f0) (fs_ofile s)))"
proof -
  consider "s' = s" | s1 where "pipe_files pi_ok data_ok i s = Some (None, s1)" "s' = s1"
    | f0 f1 s1 where "pipe_files pi_ok data_ok i s = Some (Some (f0, f1), s1)"
  proof (cases "pipe_files pi_ok data_ok i s")
    case None
    then show ?thesis using assms that(1) by (auto simp: sys_pipe2_def split: if_splits)
  next
    case (Some fs)
    then show ?thesis using assms that by (cases fs; cases "fst fs") (auto simp: sys_pipe2_def split: if_splits)
  qed
  then show ?thesis
  proof cases
    case (3 f0 f1 s1)
    obtain r s2 where r: "fdalloc p f0 s1 = (r, s2)" by fastforce
    obtain w s3 where w: "fdalloc p f1 s2 = (w, s3)" by fastforce
    note e = pipe_files_effect(2) [OF 3 refl] and a = fdalloc_effect [OF r] and b = fdalloc_effect [OF w]
    let ?s4 = "upd_file f1 (pipe_flags flags) (upd_file f0 (pipe_flags flags) s3)"
    have c4: "counts (upd_file f1 (pipe_flags flags) (upd_file f0 (pipe_flags flags) z)) = counts z" for z
      by (auto simp: counts_def upd_file_def pipe_flags_def)
    let ?un = "set_fd p (nat w) None (set_fd p (nat r) None ?s4)"
    consider "r < 0" "close_both f0 f1 s2 = Some s'" | "0 \<le> r" "w < 0" "close_both f0 f1 (set_fd p (nat r) None s3) = Some s'"
      | "0 \<le> r" "0 \<le> w" "s' = ?s4" | "0 \<le> r" "0 \<le> w" "close_both f0 f1 ?un = Some s'" | "s' = s"
      using assms 3 r w by (auto simp: sys_pipe2_def Let_def split: if_splits)
    then show ?thesis
    proof cases
      case 1
      then show ?thesis using a(1) e by (intro disjI1 close_both_undo [OF 1(2)]) simp_all
    next
      case 2
      have "counts (set_fd p (nat r) None s3) = counts s1" using a(2) b(1) 2 by simp
      moreover have "fs_ofile (set_fd p (nat r) None s3) = fs_ofile s"
        using a(2) b(1) 2 e upd_slot_back [of "fs_ofile s" p "nat r"] by simp
      ultimately show ?thesis using e by (intro disjI1 close_both_undo [OF 2(3)]) (simp_all only: not_False_eq_True)
    next
      case 3
      have s2: "fs_ofile s2 = upd_slot p (nat r) (Some f0) (fs_ofile s)" "counts s2 = counts s1" using a(2) 3(1) e by simp_all
      have "counts s' = counts s3" unfolding 3(3) by (rule c4)
      then have s3: "fs_ofile s' = upd_slot p (nat w) (Some f1) (fs_ofile s2)" "counts s' = counts s1" "fs_ofile s2 p (nat w) = None"
        using b(2) 3(2,3) s2(2) by simp_all
      have "nat r \<noteq> nat w" "fs_ofile s p (nat w) = None" using s2(1) s3(3) by (auto simp: upd_slot_def split: if_splits)
      moreover have "nat r < NOFILE" "nat w < NOFILE" "fs_ofile s p (nat r) = None" using a(2) b(2) 3(1,2) e by simp_all
      ultimately show ?thesis using e s2(1) s3(1,2)
        by (intro disjI2 exI [of _ f0] exI [of _ f1] exI [of _ "nat r"] exI [of _ "nat w"]) simp
    next
      case 4
      have "counts ?un = counts ?s4" by (simp only: counts_simps(2))
      also have "\<dots> = counts s3" by (rule c4)
      also have "\<dots> = counts s1" using a(2) b(2) 4 by simp
      finally have "counts ?un = counts s1" .
      moreover have "fs_ofile ?un = fs_ofile s" using a(2) b(2) 4 e by (simp add: fun_eq_iff upd_slot_def split: if_splits)
      ultimately show ?thesis using e by (intro disjI1 close_both_undo [OF 4(3)]) (simp_all only: not_False_eq_True)
    qed simp
  qed (use pipe_files_effect(1) in auto)
qed

lemma sim_pipe2:
  assumes "sys_pipe2 p flags access pi_ok data_ok copied i s = Some (x, s')" "A p = Idle" "p < NPROC"
  shows "rstep\<^sup>*\<^sup>* (abs_conf (s, A)) (abs_conf (s', A))"
proof (cases "counts s' = counts s \<and> fs_ofile s' = fs_ofile s")
  case True
  then show ?thesis using live_cong [of s' s A] by (simp add: abs_conf_def)
next
  case False
  then obtain f0 f1 n0 n1 where e: "f0 < NFILE" "f1 < NFILE" "f0 \<noteq> f1" "counts s f0 = 0" "counts s f1 = 0" "counts s' = (counts s)(f0 := 1, f1 := 1)"
      "n0 < NOFILE" "n1 < NOFILE" "n0 \<noteq> n1" "fs_ofile s p n0 = None" "fs_ofile s p n1 = None"
      "fs_ofile s' = upd_slot p n1 (Some f1) (upd_slot p n0 (Some f0) (fs_ofile s))"
    using sys_pipe2_effect [OF assms(1)] by blast
  let ?L = "live s A" and ?C = "\<lambda>q. closing (A q)"
  have l: "live s' A = upd_slot p n1 (Some f1) (upd_slot p n0 (Some f0) ?L)" using assms(2) e(12) by (auto simp: live_def fun_eq_iff upd_slot_def)
  have n: "?L p n0 = None" "upd_slot p n0 (Some f0) ?L p n1 = None" using e(9-11) by (auto simp: live_def upd_slot_def)
  have "rstep (counts s, ?L, ?C) ((counts s)(f0 := 1), upd_slot p n0 (Some f0) ?L, ?C)"
    by (rule rstep.New_fd [of f0 "counts s" p n0 ?L ?C]) (use e n assms(3) in simp_all)
  moreover have "rstep ((counts s)(f0 := 1), upd_slot p n0 (Some f0) ?L, ?C) ((counts s)(f0 := 1, f1 := 1), live s' A, ?C)"
    unfolding l by (rule rstep.New_fd [of f1 _ p n1 _ ?C]) (use e n assms(3) in simp_all)
  ultimately show ?thesis unfolding abs_conf_def prod.case e(6) by (meson converse_rtranclp_into_rtranclp r_into_rtranclp)
qed

section \<open>The invariant of the system\<close>

text \<open>What a process in the middle of a call remembers is still true when it goes on.\<close>

definition pend :: "fsys \<Rightarrow> (nat \<Rightarrow> fplace) \<Rightarrow> nat \<Rightarrow> bool" where
  "pend s A p \<longleftrightarrow>
     (case A p of
        Idle \<Rightarrow> True
      | Exiting fd \<Rightarrow> p < NPROC
      | Closing f k \<Rightarrow> p < NPROC \<and> f < NFILE \<and>
          (case k of
             Done \<Rightarrow> True
           | Then_dup3 g n fl \<Rightarrow> n < NOFILE \<and> fs_ofile s p n = Some f \<and> (\<exists>o'. o' \<noteq> n \<and> fs_ofile s p o' = Some g)
           | Then_exit n \<Rightarrow> n < NOFILE \<and> fs_ofile s p n = Some f))"

definition cinv :: "fconf \<Rightarrow> bool" where
  "cinv = (\<lambda>(s, A). finv3 (abs_conf (s, A)) \<and> (\<forall>p. pend s A p))"

lemma rsteps1: "rstep a b \<Longrightarrow> rstep\<^sup>*\<^sup>* a b"
  by (rule r_into_rtranclp)

lemma abs_same:
  assumes "counts s' = counts s" "fs_ofile s' = fs_ofile s" "\<And>q. stale (A' q) = stale (A q) \<and> closing (A' q) = closing (A q)"
  shows "rstep\<^sup>*\<^sup>* (abs_conf (s, A)) (abs_conf (s', A'))"
proof -
  have "live s' A' = live s A" using assms(2,3) by (auto simp: live_def fun_eq_iff)
  then show ?thesis using assms(1,3) by (simp add: abs_conf_def)
qed

lemma setfd_same: "fcntl_setfd p fd arg s = (x, s') \<Longrightarrow> counts s' = counts s \<and> fs_ofile s' = fs_ofile s"
  "fcntl_setfl p fd arg s = (x, s') \<Longrightarrow> counts s' = counts s \<and> fs_ofile s' = fs_ofile s"
  by (auto simp: fcntl_setfd_def fcntl_setfl_def counts_def upd_file_def fun_eq_iff split: option.splits)

lemma sim_step: "fstep True c c' \<Longrightarrow> cinv c \<Longrightarrow> rstep\<^sup>*\<^sup>* (abs_conf c) (abs_conf c')"
proof (induction rule: fstep.induct)
  case (Fork A p np s s')
  then show ?case by (intro sim_fork_files [of A p np "[0..<NOFILE]"]) auto
next
  case (End_dup3 A p g f n flags s s')
  then have "pend s A p" by (simp add: cinv_def)
  then obtain o' where "p < NPROC" "g < NFILE" "n < NOFILE" "o' \<noteq> n" "fs_ofile s p o' = Some f"
    using End_dup3(1) by (auto simp: pend_def)
  then show ?case by (rule sim_end_dup3 [where A = A, OF End_dup3(1,2)])
next
  case (End_close A p f s)
  then have "f < NFILE" by (auto simp: cinv_def pend_def dest: spec [of _ p])
  then show ?case using End_close(1)
    by (intro rsteps1 sim_end [of A p f Done]) (auto simp: live_def fun_eq_iff)
next
  case (End_exit A p f fd s)
  then have "f < NFILE" by (auto simp: cinv_def pend_def dest: spec [of _ p])
  then show ?case using End_exit(1)
    by (intro rsteps1 sim_end [of A p f "Then_exit fd"]) (auto simp: live_def fun_eq_iff upd_slot_def)
next
  case (Exit_drop A p fd s f s1)
  then show ?case by (intro rsteps1 sim_exit [of s p fd f False s1 A]) auto
next
  case (Exit_close A p fd s f s1)
  then show ?case by (intro rsteps1 sim_exit [of s p fd f True s1 A]) auto
next
  case (Close A p fd s f s1 l s2)
  then show ?case by (intro rsteps1 sim_close) auto
next
  case (Dup3_close A p old new s f g s1 flags)
  then show ?case by (intro rsteps1 sim_dup3_close) auto
next
  case (Open A p ini link r fill s x s')
  then show ?case using sim_open_general by blast
next
  case (Open_busybox A p ini s x s')
  then show ?case using sim_open_busybox by blast
next
  case (Open_procfs A p ini s x s')
  then show ?case using sim_open_procfs by blast
next
  case (Pipe A p flags access pi_ok data_ok copied i s x s')
  then show ?case using sim_pipe2 by blast
next
  case (Dup A p fd s x s')
  then show ?case using sim_sys_dup by blast
next
  case (Dupfd A p fd arg s x s')
  then show ?case using sim_fcntl_dupfd by blast
next
  case (Cloexec A p fd arg s x s')
  then show ?case using sim_fcntl_cloexec by blast
next
  case (Dup3 A p old new s f flags s')
  then show ?case by (intro rsteps1 sim_dup3) auto
next
  case (Dup3_over A p old new s f g s1 flags s2)
  then show ?case using sim_dup3_over by blast
next
  case (Setfd p fd arg64 s x s' A)
  then show ?case using setfd_same(1) by (intro abs_same) auto
next
  case (Setfl p fd arg64 s x s' A)
  then show ?case using setfd_same(2) by (intro abs_same) auto
qed (auto intro!: abs_same)

text \<open>The descriptors of a process in the middle of a close belong to it.\<close>

lemma open_frame:
  "open_general p ini link r fill s = (x, s') \<Longrightarrow> q \<noteq> p \<Longrightarrow> fs_ofile s' q = fs_ofile s q"
  "open_busybox p ini s = (x, s') \<Longrightarrow> q \<noteq> p \<Longrightarrow> fs_ofile s' q = fs_ofile s q"
  "open_procfs p ini s = (x, s') \<Longrightarrow> q \<noteq> p \<Longrightarrow> fs_ofile s' q = fs_ofile s q"
  by (auto simp: open_general_def open_finish_def open_busybox_def open_procfs_def fdalloc_def upd_slot_def Let_def filealloc_effect(4)
      split: option.splits if_splits prod.splits)

lemma dup_frame:
  "sys_dup p fd s = Some (x, s') \<Longrightarrow> q \<noteq> p \<Longrightarrow> fs_ofile s' q = fs_ofile s q"
  "fcntl_dupfd p fd arg s = Some (x, s') \<Longrightarrow> q \<noteq> p \<Longrightarrow> fs_ofile s' q = fs_ofile s q"
  "fcntl_dupfd_cloexec p fd arg s = Some (x, s') \<Longrightarrow> q \<noteq> p \<Longrightarrow> fs_ofile s' q = fs_ofile s q"
  by (auto simp: sys_dup_def fcntl_dupfd_def fcntl_dupfd_cloexec_def fdalloc_def fdalloc2_def upd_slot_def Let_def bind_eq_Some_conv
      dest!: filedup_effect split: option.splits if_splits prod.splits)

lemma pipe2_frame: "sys_pipe2 p flags access pi_ok data_ok copied i s = Some (x, s') \<Longrightarrow> q \<noteq> p \<Longrightarrow> fs_ofile s' q = fs_ofile s q"
  using sys_pipe2_effect [of p flags access pi_ok data_ok copied i s x s'] by (auto simp: upd_slot_def)

lemma fork_frame: "fork_files p np is s = Some s' \<Longrightarrow> q \<noteq> np \<Longrightarrow> fs_ofile s' q = fs_ofile s q"
proof (induction "is" arbitrary: s)
  case (Cons i "is")
  then show ?case
    by (fastforce simp: upd_slot_def bind_eq_Some_conv dest: filedup_effect split: option.splits if_splits)
qed simp

lemma fstep_frame: "fstep True c c' \<Longrightarrow> snd c q = Closing g k \<Longrightarrow> snd c' q = Closing g k \<Longrightarrow> fs_ofile (fst c') q = fs_ofile (fst c) q"
proof (induction rule: fstep.induct)
  case (End_dup3 A p g f n flags s s')
  then show ?case by (auto dest!: dup3_install_effect simp: upd_slot_def split: if_splits)
qed (auto dest!: open_frame [where q = q] dup_frame [where q = q] pipe2_frame [where q = q] fork_frame [where q = q] setfd_same sys_close_effect fileclose_begin_effect dup3_install_effect
    simp: upd_slot_def split: if_splits)

text \<open>The only steps that enter the middle of a call.\<close>

lemma live_finv:
  assumes "cinv (s, A)" "stale (A p) \<noteq> Some fd" "fs_ofile s p fd = Some f"
  shows "p < NPROC" "fd < NOFILE" "f < NFILE" "unat (counts s f) = refs (live s A) f" "\<forall>q. closing (A q) \<noteq> Some f" "\<not> counts s f < 1"
proof -
  have "finv (counts s) (live s A) (\<lambda>q. closing (A q))" "live s A p fd = Some f"
    using assms by (auto simp: cinv_def abs_conf_def live_def)
  from finv_live [of "counts s" "live s A" "\<lambda>q. closing (A q)", OF this]
  show "p < NPROC" "fd < NOFILE" "f < NFILE" "unat (counts s f) = refs (live s A) f" "\<forall>q. closing (A q) \<noteq> Some f" "\<not> counts s f < 1" by auto
qed

lemma fstep_enters:
  "fstep True c c' \<Longrightarrow> cinv c \<Longrightarrow> snd c' q \<noteq> snd c q \<Longrightarrow> pend (fst c') (snd c') q"
proof (induction rule: fstep.induct)
  case (Close A p fd s f s1 l s2)
  then show ?case using live_finv [of s A p "nat fd" f] sys_close_effect [OF Close(3)] by (auto simp: pend_def split: if_splits)
next
  case (Dup3_close A p old new s f g s1 flags)
  then show ?case using live_finv [of s A p "nat new" g] dup3_check_effect [OF Dup3_close(3)] fileclose_begin_effect [OF Dup3_close(4)]
    by (auto simp: pend_def split: if_splits)
next
  case (Exit_close A p fd s f s1)
  then show ?case using live_finv [of s A p fd f] fileclose_begin_effect [OF Exit_close(4)] by (auto simp: pend_def split: if_splits)
next
  case (End_exit A p f fd s)
  then show ?case by (auto simp: pend_def cinv_def split: if_splits dest!: spec [of _ q])
next
  case (Exit_skip A p fd s)
  then show ?case by (auto simp: pend_def cinv_def split: if_splits dest!: spec [of _ q])
next
  case (Exit_drop A p fd s f s1)
  then show ?case by (auto simp: pend_def cinv_def split: if_splits dest!: spec [of _ q])
qed (auto simp: pend_def split: if_splits)

lemma cinv_step:
  assumes "fstep True c c'" "cinv c"
  shows "cinv c'"
proof -
  obtain s A s' A' where c: "c = (s, A)" "c' = (s', A')" by fastforce
  have "finv3 (abs_conf (s, A))" and i: "pend s A q" for q using assms(2) by (auto simp: cinv_def c)
  then have "finv3 (abs_conf c')" using finv_rsteps [OF sim_step [OF assms]] by (simp add: c)
  moreover have "pend s' A' q" for q
  proof (cases "A' q = A q")
    case True
    then have "fs_ofile s' q = fs_ofile s q" if "A q = Closing g k" for g k
      using fstep_frame [OF assms(1), of q g k] that by (simp add: c)
    then show ?thesis using i [of q] True by (auto simp: pend_def split: fplace.splits fcont.splits)
  next
    case False
    then show ?thesis using fstep_enters [OF assms, of q] by (simp add: c)
  qed
  ultimately show ?thesis by (auto simp: cinv_def c)
qed

lemma cinv_steps: "(fstep True)\<^sup>*\<^sup>* c c' \<Longrightarrow> cinv c \<Longrightarrow> cinv c'"
  by (induction rule: rtranclp_induct) (auto intro: cinv_step)


text \<open>The system as it starts: no open files.\<close>

definition fboot :: "fsys \<Rightarrow> fconf" where
  "fboot s = (fileinit (s\<lparr>fs_ofile := \<lambda>_ _. None\<rparr>), \<lambda>_. Idle)"

lemma cinv_boot: "cinv (fboot s)"
  by (simp add: fboot_def cinv_def pend_def abs_conf_def finv_def in_range_def live_def count_ok_def slots_def counts_def fileinit_def)

text \<open>Descriptors of a structure without references are being closed.\<close>

lemma stale_closing:
  assumes "cinv (s, A)" "fs_ofile s p fd = Some f" "refs (live s A) f = 0"
  shows "closing (A p) = Some f"
proof (cases "stale (A p) = Some fd")
  case True
  then show ?thesis
    using assms(1,2) unfolding cinv_def prod.case by (elim conjE allE [of _ p]) (auto simp: pend_def split: fplace.splits fcont.splits)
next
  case False
  note l = live_finv [OF assms(1) False assms(2)]
  then have "unat (counts s f) = 0" using assms(3) by simp
  then show ?thesis using l(6) by (simp add: unat_eq_0)
qed

lemma cinv_finv: "cinv (s, A) \<Longrightarrow> finv (counts s) (live s A) (\<lambda>q. closing (A q))"
  by (simp add: cinv_def abs_conf_def)

lemma free_no_refs:
  assumes c: "cinv (s, A)" and f: "f < NFILE" "counts s f = 0"
  shows "fs_ofile s p fd \<noteq> Some f" "closing (A p) \<noteq> Some f"
proof -
  note n = finv_new [of "counts s" "live s A" "\<lambda>q. closing (A q)" f, OF cinv_finv [OF c] f]
  then show "closing (A p) \<noteq> Some f" by blast
  then show "fs_ofile s p fd \<noteq> Some f" using stale_closing [OF c, of p fd f] n(1) by blast
qed



text \<open>Process 0 opens its first file, or fails to, and duplicates the descriptor.\<close>

definition boot_files :: fsys where
  "boot_files = \<lparr>fs_file = \<lambda>_. \<lparr>f_type = FD_NONE, f_mode = 0, f_flags = 0, fd_flags = 0, f_pos = 0, f_count = 0, f_path = [],
     removed = False, f_tmpfile = False, f_data = No_data\<rparr>, fs_ofile = \<lambda>_ _. None, fs_ofn = \<lambda>_. 128, fs_rlim = \<lambda>_. 128\<rparr>"

abbreviation first_open :: "int \<Rightarrow> fsys" where
  "first_open r \<equiv> snd (open_general 0 id None r id (fst (fboot boot_files)))"

lemma boot_state: "fboot boot_files = (boot_files, \<lambda>_. Idle)"
  by (simp add: fboot_def fileinit_def boot_files_def)

lemma boot_alloc: "filealloc boot_files = Some (0, upd_file 0 (\<lambda>f. (reset_file 1 f)\<lparr>fd_flags := 0\<rparr>) boot_files)"
  by (simp add: filealloc_def find_upt [of 0] boot_files_def)

lemma boot_fd: "fdalloc 0 f (upd_file i g boot_files) = (0, set_fd 0 0 (Some f) (upd_file i g boot_files))"
  by (simp add: fdalloc_def upd_file_def boot_files_def find_upt [of 0])

lemma first_open_step: "fstep True (fboot boot_files) (first_open r, \<lambda>_. Idle)"
  unfolding boot_state by (rule fstep.Open [of "\<lambda>_. Idle" 0 id None r id boot_files "fst (open_general 0 id None r id boot_files)"]) simp_all

lemma first_open_result:
  "fst (open_general 0 id None r id boot_files) = (if r < 0 then r else 0)"
  "0 \<le> r \<Longrightarrow> fs_ofile (first_open r) = (\<lambda>_ _. None)(0 := [0 \<mapsto> 0])"
  "0 \<le> r \<Longrightarrow> f_count (fs_file (first_open r) 0) = 1" "fs_ofn (first_open r) 0 = 128" "fs_rlim (first_open r) 0 = 128"
  by (simp_all add: boot_state open_general_def open_finish_def boot_alloc boot_fd Let_def)
     (simp_all add: boot_files_def upd_slot_def upd_file_def set_fd_def)

lemma first_dup:
  "\<exists>s. sys_dup 0 0 (first_open 0) = Some (1, s) \<and> fs_ofile s 0 1 = Some 0"
proof -
  note f = first_open_result [of 0]
  have "find (\<lambda>fd. fs_ofile (first_open 0) 0 fd = None) [0..<min NOFILE 128] = Some 1"
    by (rule find_upt) (simp_all add: f(2))
  then show ?thesis using f by (simp add: sys_dup_def fd_file_def fdalloc_def filedup_def upd_slot_def)
qed

section \<open>Properties\<close>

text \<open>
  C5: From the start on, in whatever order the processes, each with one call at a time, open, duplicate and close
  descriptors, make pipes, fork and exit, as long as no \<^verbatim>\<open>fcntl(F_DUPFD_CLOEXEC)\<close> returns descriptor 0 and no file is
  mapped: every descriptor that is not being replaced or closed refers to a structure whose 16-bit count is exactly the number of such descriptors in
  all tables; nobody is closing it, and neither \<^verbatim>\<open>filedup\<close> nor \<^verbatim>\<open>fileclose\<close> panics on it. A structure that
  \<^verbatim>\<open>filealloc\<close> hands out is referred to by no descriptor at all.
\<close>

theorem file_refs_exact:
  assumes "(fstep True)\<^sup>*\<^sup>* (fboot s0) (s, A)"
  shows "(fs_ofile s p fd = Some f \<and> stale (A p) \<noteq> Some fd \<longrightarrow>
            f < NFILE \<and> unat (f_count (fs_file s f)) = card {(q, n). q < NPROC \<and> n < NOFILE \<and> fs_ofile s q n = Some f \<and> stale (A q) \<noteq> Some n} \<and>
            (\<forall>q. closing (A q) \<noteq> Some f) \<and> filedup f s \<noteq> None \<and> fileclose_begin f s \<noteq> None) \<and>
         (filealloc s = Some (g, s') \<longrightarrow> (\<forall>q n. fs_ofile s q n \<noteq> Some g) \<and> (\<forall>q. closing (A q) \<noteq> Some g))"
    (is "(?open \<longrightarrow> ?exact) \<and> (?new \<longrightarrow> ?unused)")
proof (rule conjI; rule impI)
  have c: "cinv (s, A)" by (rule cinv_steps [OF assms cinv_boot])
  show ?exact if ?open
  proof -
    have "slots (live s A) f = {(q, n). q < NPROC \<and> n < NOFILE \<and> fs_ofile s q n = Some f \<and> stale (A q) \<noteq> Some n}"
      by (auto simp: slots_def live_def split: if_splits)
    then show ?exact
      using live_finv [OF c conjunct2 [OF that] conjunct1 [OF that]] by (auto simp: counts_def filedup_def fileclose_begin_def Let_def)
  qed
  show ?unused if ?new using free_no_refs [OF c] filealloc_effect(1,2) [OF that] by blast
qed

text \<open>Witness: process 0 holds two descriptors of one file.\<close>

lemma file_refs_exact_witness:
  "\<exists>s. (fstep True)\<^sup>*\<^sup>* (fboot boot_files) (s, \<lambda>_. Idle) \<and> fs_ofile s 0 1 = Some 0 \<and>
     unat (f_count (fs_file s 0)) = card {(q, n). q < NPROC \<and> n < NOFILE \<and> fs_ofile s q n = Some 0 \<and> stale Idle \<noteq> Some n}"
proof -
  obtain s where s: "sys_dup 0 0 (first_open 0) = Some (1, s)" "fs_ofile s 0 1 = Some 0" using first_dup by blast
  have "fstep True (first_open 0, \<lambda>_. Idle) (s, \<lambda>_. Idle)" by (rule fstep.Dup [of "\<lambda>_. Idle" 0 0]) (use s in auto)
  then have r: "(fstep True)\<^sup>*\<^sup>* (fboot boot_files) (s, \<lambda>_. Idle)" using first_open_step [of 0] by (meson converse_rtranclp_into_rtranclp r_into_rtranclp)
  then show ?thesis using file_refs_exact [OF r, of 0 1 0] s(2) by (intro exI [of _ s]) auto
qed



lemma filedup_many:
  "0 < unat (f_count (fs_file s f)) \<Longrightarrow> unat (f_count (fs_file s f)) + n \<le> 65536 \<Longrightarrow>
     ((\<lambda>x. Option.bind x (filedup f)) ^^ n) (Some s) = Some (upd_file f (\<lambda>x. x\<lparr>f_count := f_count x + of_nat n\<rparr>) s)"
proof (induction n)
  case 0
  then show ?case by (simp add: upd_file_def)
next
  case (Suc n)
  have "unat (f_count (fs_file s f) + of_nat n) = unat (f_count (fs_file s f)) + n"
    using Suc.prems by (simp add: unat_word_ariths unat_of_nat)
  then have "\<not> f_count (fs_file s f) + of_nat n < 1" using Suc.prems by (simp add: word_less_nat_alt)
  then show ?case using Suc by (simp add: filedup_def upd_file_def add_ac)
qed

text \<open>The 16-bit count wraps: after enough duplicates the structure counts as free, and is handed out.\<close>

lemma filedup_wraps:
  assumes "0 < unat (f_count (fs_file s f))" "unat (f_count (fs_file s f)) + n = 65536" "f < NFILE"
    and "\<forall>g<f. f_count (fs_file s g) \<noteq> 0"
  shows "\<exists>s'. ((\<lambda>x. Option.bind x (filedup f)) ^^ n) (Some s) = Some s' \<and> f_count (fs_file s' f) = 0 \<and> fs_ofile s' = fs_ofile s \<and>
    (\<exists>t. filealloc s' = Some (f, t) \<and> fs_ofile t = fs_ofile s)"
proof -
  let ?s = "upd_file f (\<lambda>x. x\<lparr>f_count := f_count x + of_nat n\<rparr>) s"
  have z: "f_count (fs_file s f) + of_nat n = 0"
    by (rule unat_eq_zero [THEN iffD1]) (use assms(2) in \<open>simp add: unat_word_ariths unat_of_nat mod_add_right_eq\<close>)
  have "find (\<lambda>i. f_count (fs_file ?s i) = 0) [0..<NFILE] = Some f"
    by (rule find_upt) (use assms(3,4) z in \<open>auto simp: upd_file_def\<close>)
  then show ?thesis using filedup_many [OF assms(1), of n] assms(2) z by (simp add: filealloc_def) (simp add: upd_file_def)
qed

text \<open>
  C37: When \<^verbatim>\<open>fcntl(F_DUPFD_CLOEXEC)\<close> finds descriptor 0 free, it installs and returns it without counting the reference. If the
  file had one descriptor before, closing descriptor 0 then counts as the last close: the structure is released and, if all
  before it are in use, the next \<^verbatim>\<open>filealloc\<close> hands it out, while the first descriptor still refers to it.
\<close>

theorem cloexec_zero_uncounted:
  assumes fd: "fd_file p fd s = Some f" and z: "fs_ofile s p 0 = None" and c: "f_count (fs_file s f) = 1"
    and f: "f < NFILE" "\<forall>g<f. f_count (fs_file s g) \<noteq> 0"
  shows "\<exists>s1 s2 s3 t. fcntl_dupfd_cloexec p fd 0 s = Some (0, s1) \<and> f_count (fs_file s1 f) = 1 \<and>
    fs_ofile s1 p 0 = Some f \<and> fs_ofile s1 p (nat fd) = Some f \<and>
    sys_close p 0 s1 = Inr (f, s2) \<and> fileclose_begin f s2 = Some (True, s3) \<and>
    filealloc (fileclose_end f s3) = Some (f, t) \<and> fs_ofile t p (nat fd) = Some f"
proof -
  have o': "fs_ofile s p (nat fd) = Some f" "nat fd \<noteq> 0" using fd z by (auto simp: fd_file_def split: if_splits)
  let ?s1 = "set_fd p 0 (Some f) s" and ?s2 = "set_fd p 0 None (set_fd p 0 (Some f) s)"
  have "find (\<lambda>i. fs_ofile s p i = None) [0..<NOFILE] = Some 0" by (rule find_upt) (use z in simp_all)
  then have 1: "fcntl_dupfd_cloexec p fd 0 s = Some (0, ?s1)" using fd by (simp add: fcntl_dupfd_cloexec_def fdalloc2_def)
  have 2: "sys_close p 0 ?s1 = Inr (f, ?s2)" by (simp add: sys_close_def fd_file_def upd_slot_def)
  obtain s3 where 3: "fileclose_begin f ?s2 = Some (True, s3)" using c by (simp add: fileclose_begin_def Let_def upd_file_def)
  note e = fileclose_begin_effect [OF 3]
  have k: "counts (fileclose_end f s3) g = (if g = f then 0 else counts s g)" for g using e by simp
  then have k': "f_count (fs_file (fileclose_end f s3) g) = (if g = f then 0 else f_count (fs_file s g))" for g unfolding counts_def .
  have "find (\<lambda>i. f_count (fs_file (fileclose_end f s3) i) = 0) [0..<NFILE] = Some f"
    by (rule find_upt) (use f k' in auto)
  then obtain t where t: "filealloc (fileclose_end f s3) = Some (f, t)" by (simp add: filealloc_def)
  have "fs_ofile t p (nat fd) = Some f" using filealloc_effect(4) [OF t] e o' by (simp add: upd_slot_def)
  then show ?thesis using 1 2 3 t c o' by (intro exI [of _ ?s1] exI [of _ ?s2] exI [of _ s3] exI [of _ t]) (simp add: upd_slot_def)
qed

text \<open>Witness: process 0 has the first file as descriptor 1 only.\<close>

lemma cloexec_zero_uncounted_witness:
  "\<exists>s s1. fs_ofile s 0 1 = Some 0 \<and> fcntl_dupfd_cloexec 0 1 0 s = Some (0, s1) \<and> f_count (fs_file s1 0) = 1 \<and>
     fs_ofile s1 0 0 = Some 0 \<and> fs_ofile s1 0 1 = Some 0"
proof -
  let ?s = "set_fd 0 1 (Some 0) (set_fd 0 0 None (first_open 0))"
  note o' = first_open_result(2,3) [of 0]
  have h: "fd_file 0 1 ?s = Some 0" "fs_ofile ?s 0 0 = None" "f_count (fs_file ?s 0) = 1" "fs_ofile ?s 0 1 = Some 0"
    using o' by (simp_all add: fd_file_def upd_slot_def)
  obtain s1 where s1: "fcntl_dupfd_cloexec 0 1 0 ?s = Some (0, s1)" "f_count (fs_file s1 0) = 1" "fs_ofile s1 0 0 = Some 0" "fs_ofile s1 0 (nat 1) = Some 0"
    using cloexec_zero_uncounted [of 0 1 ?s 0, OF h(1-3)] by auto
  show ?thesis by (rule exI [of _ ?s], rule exI [of _ s1]) (use h(4) s1 in simp)
qed

end
