(* ===== verification/Spec2Isabelle.thy ===== *)
theory Spec2Isabelle
  imports Buddy_Rebuild Fifo Locks Futex Vmem_Free Bcache Signal_Frame Vma_Unmap Wait Slab_Safe Shm_Share Files_Props
begin

text \<open>
  \<^bold>\<open>The SC7 kernel\<close>

  SC7 is a Unix-like kernel in C for RISC-V and LoongArch, with an xv6 skeleton: spin locks and
  sleep locks, a physical page allocator, page tables, processes with threads, futexes, pipes and
  named pipes, a buffer cache under a file system on lwext4, signals, and a large system call layer.
  This development models the parts below the system calls that hold the kernel's own data
  structures, in the RISC-V build, and proves what makes them correct.

  \<^bold>\<open>How the parts fit together.\<close> \<^verbatim>\<open>kernel/pmem.c\<close> is a buddy allocator over a region of memory; its free
  lists are intrusive lists of \<^verbatim>\<open>kernel/fs/list.c\<close>, and it clears what it hands out with \<^verbatim>\<open>memset\<close> of
  \<^verbatim>\<open>kernel/string.c\<close>. \<^verbatim>\<open>kernel/vmem.c\<close> builds three-level page tables out of single pages of that
  allocator, in the same memory, and copies between user and kernel memory through them.
  \<^verbatim>\<open>kernel/fs/pipe.c\<close> and \<^verbatim>\<open>kernel/fs/fifo.c\<close> are byte rings protected by a lock, \<^verbatim>\<open>kernel/futex.c\<close> is a
  table of sleeping threads, and \<^verbatim>\<open>kernel/fs/bio.c\<close> caches disk blocks in buffers under sleep locks.
  \<^verbatim>\<open>kernel/process.c\<close> and \<^verbatim>\<open>kernel/thread.c\<close> hold the tables of processes and threads, \<^verbatim>\<open>kernel/signal.c\<close> the
  signals of a thread, and \<^verbatim>\<open>kernel/vma.c\<close> the list of memory areas of a process, each in a page of the
  allocator, above its page table. \<^verbatim>\<open>kernel/fs/file.c\<close> is the table of open files that the descriptors of the
  processes refer to.

  \<^bold>\<open>Theories.\<close>

  \<^item> \<open>Kbase\<close>: 64-bit and 32-bit wrap-around arithmetic, \<^verbatim>\<open>PGROUNDUP\<close>, \<^verbatim>\<open>PGROUNDDOWN\<close>, \<^verbatim>\<open>ALIGN_UP\<close>, and the locale
    \<open>bitmap_ops\<close> of a bitmap with range updates, which the allocator's bitmap instantiates.
  \<^item> \<open>Klist\<close>: \<^verbatim>\<open>fs/list.c\<close> on a heap of elements (\<open>list_elem\<close> for \<^verbatim>\<open>struct list_elem\<close>, one function per
    operation, loops as \<open>partial_function\<close>). The locale \<open>elem_list\<close> is the contract of a list with an
    abstraction to HOL lists; the heap operations interpret it.
  \<^item> \<open>Kstring\<close>: all of \<^verbatim>\<open>string.c\<close> on a byte memory. Strings are described by \<open>str_at\<close>; a loop over bytes
    without a terminator does not return (\<open>None\<close>). \<^verbatim>\<open>strtok\<close> keeps its static pointer as state.
  \<^item> \<open>Buddy\<close>, \<open>Buddy_Inv\<close>, \<open>Buddy_Ops\<close>, \<open>Buddy_Init\<close>, \<open>Buddy_Props\<close>, \<open>Buddy_Rebuild\<close>: \<^verbatim>\<open>pmem.c\<close>. The record
    \<open>buddy_system\<close> is \<^verbatim>\<open>buddy_sys\<close> with its page nodes, bitmap, free lists, lock and the managed memory; \<open>None\<close> is
    a panic. \<open>buddy_inv\<close> is the invariant (blocks aligned and disjoint, metadata of every page of a
    block, free lists exactly the free blocks), proved for every operation; the locale
    \<open>page_allocator\<close> is what clients rely on, interpreted on \<^verbatim>\<open>buddy_alloc\<close> and \<^verbatim>\<open>buddy_free\<close>.
  \<^item> \<open>Frames\<close>: single pages as clients see them, the locale \<open>frame_source\<close>, interpreted on
    \<^verbatim>\<open>pmem_alloc_pages(1)\<close>; \<open>free_count\<close> counts the pages on the free lists.
  \<^item> \<open>Vmem\<close>, \<open>Vmem_Inv\<close>, \<open>Vmem_Ops\<close>, \<open>Vmem_Props\<close>, \<open>Vmem_Free\<close>: \<^verbatim>\<open>vmem.c\<close>. The state is the allocator and
    \<^verbatim>\<open>vmem_lock\<close>; entries are 64-bit words in memory. \<open>pt_tree m pt T\<close> says that the table at \<open>pt\<close> is a tree
    whose tables are named by index paths in \<open>T\<close>, and \<open>pte_at\<close> is the leaf entry of an address.
  \<^item> \<open>Kring\<close>: the locale \<open>byte_ring\<close> of a ring buffer with 32-bit counters, interpreted by \<open>Pipe\<close> and \<open>Fifo\<close>.
  \<^item> \<open>Pipe\<close>, \<open>Fifo\<close>: \<^verbatim>\<open>pipe.c\<close> and \<^verbatim>\<open>fifo.c\<close>, one function per critical section; sleeping and waking are results
    of a section, and the interleaving of processes is an inductive step relation. A read of a pipe logs the
    bytes it hands over, one whose copy to the user failed as \<open>None\<close>.
  \<^item> \<open>Locks\<close>: \<^verbatim>\<open>spinlock.c\<close> statement by statement on several processors, \<^verbatim>\<open>sleeplock.c\<close> by critical sections.
  \<^item> \<open>Futex\<close>: \<^verbatim>\<open>futex.c\<close>; a wait is split at the call of the scheduler.
  \<^item> \<open>Proc\<close>: the tables of \<^verbatim>\<open>process.c\<close> and \<^verbatim>\<open>thread.c\<close> in the record \<open>ksys\<close>, with the futexes and the virtual
    memory in it; process numbers, wake-ups, re-parenting, \<^verbatim>\<open>kill\<close> and the system calls that send signals,
    permission checks, thread allocation and cancellation.
  \<^item> \<open>Signal\<close>, \<open>Signal_Frame\<close>: \<^verbatim>\<open>signal.c\<close>: masks, the choice of the next signal and default actions; then
    entering a handler on the user's stack, in the user's memory, and \<^verbatim>\<open>sys_sigreturn\<close>.
  \<^item> \<open>Vma\<close>: the operations of \<^verbatim>\<open>vma.c\<close> on the list of areas, with \<^verbatim>\<open>uvmalloc\<close>, \<^verbatim>\<open>uvmdealloc\<close>, \<^verbatim>\<open>uvm_grow\<close> of
    \<^verbatim>\<open>vmem.c\<close> and \<^verbatim>\<open>growproc\<close>. The list is in the order of the ring, without its head. \<open>Vma_Props\<close> describes a
    list by the attributes it gives to addresses (\<open>view\<close>) and proves allocation and release against it;
    \<open>Vma_Unmap\<close> does so for \<^verbatim>\<open>munmap\<close> together with the page table, for pages that are blocks of their own
    (\<open>space_ok\<close>; file mappings and the stack come from one block and are a finding). \<open>Frame_Count\<close> counts the free pages
    through the allocations and releases of structures, in the locale \<open>struct_pages\<close>.
  \<^item> \<open>Wait\<close>: \<^verbatim>\<open>fork\<close>, \<^verbatim>\<open>exit\<close>, \<^verbatim>\<open>waitpid\<close>, \<^verbatim>\<open>sleep_on_chan\<close> and the scheduler as steps of kernel contexts from
    one place in the code to the next, interleaved between processors (the relation \<open>wstep\<close>).
  \<^item> \<open>Slab\<close>, \<open>Slab_Props\<close>, \<open>Slab_Safe\<close>: \<^verbatim>\<open>slab_common.c\<close>, with the headers of the slabs and the links of the free
    objects in the memory of the page allocator; the invariant of the slabs, and clients as a step relation
    that releases an object only where \<^verbatim>\<open>slab_free\<close> keeps its lists in order (\<open>releasable\<close>).
  \<^item> \<open>Shm\<close>, \<open>Shm_Props\<close>, \<open>Shm_Share\<close>: the shared memory segments of \<^verbatim>\<open>vma.c\<close> and the calls on them in \<^verbatim>\<open>syscall.c\<close>
    (\<open>shmid_kernel\<close> for a segment, \<open>shm_attach\<close> for a record of an attachment), and the copying and the release
    of the areas of a process. \<open>shm_step\<close> are the calls of all processes in any order. \<open>Shm_Share\<close>
    follows the pages of a segment through two calls of \<^verbatim>\<open>shmat\<close>.
  \<^item> \<open>Files\<close>, \<open>Files_Refs\<close>, \<open>Files_Props\<close>: the file structures of \<^verbatim>\<open>file.c\<close> with their 16-bit reference counts
    (\<open>kfile\<close>), the descriptor tables, and the calls of \<^verbatim>\<open>syscall.c\<close> that open, duplicate and close descriptors.
    \<open>fstep\<close> are the calls of all processes in any order, a close of a last reference in two steps; \<open>rstep\<close> is the abstract
    system of counts and descriptors that it refines. One process makes one call at a time. \<open>fstep True\<close> leaves out
    the call of \<^verbatim>\<open>F_DUPFD_CLOEXEC\<close> that returns 0, which does not count its reference (\<open>cloexec_zero_uncounted\<close>); \<open>fstep False\<close> has it.
    Sockets and the references of mappings are left out.
  \<^item> \<open>Bcache\<close>: \<^verbatim>\<open>bio.c\<close> with the links of the buffer list, and the processes that use the cache as a step
    relation; \<^verbatim>\<open>brelse\<close> is two steps, the release of the buffer's lock and the section under the lock of the cache.

  \<^bold>\<open>What is shown.\<close> For the allocator: blocks in use never overlap, allocation returns the least block
  that fits, zeroed, releasing merges buddies and restores the free lists, whatever clients do
  (rule induction over their steps). For page tables: mapping, unmapping, copying and checking of
  ranges do what their comments say on every page of a range and leave all other addresses and
  memory alone; releasing a table ends and frees exactly its pages. For pipes and named pipes: bytes
  come out in the order they went in, and no wakeup is lost. For futexes: waking and requeueing
  conserve waiters. For locks: mutual exclusion. For the buffer cache: one buffer for a block, one
  holder for a buffer, and a reader sees what the disk holds if buffers are released clean. For signals: the least unblocked
  signal is taken, a handler starts with the arguments and the stack it is due, and returning from it
  restores the registers. For processes: a signal reaches every process of its group, and no wake-up
  is lost between \<^verbatim>\<open>exit\<close> and \<^verbatim>\<open>waitpid\<close>. For areas: lists stay sorted and disjoint, an allocation adds its
  range, and releasing or unmapping a range removes exactly the whole pages of it.
  For the slab allocator: objects in use never overlap, and allocation and release keep the others, under the
  condition on releases that the code needs. For shared memory: processes that attach a segment see the same pages, a new segment is found
  by its key, and the counts of attachments are exact for everything but \<^verbatim>\<open>fork\<close> and the second detachment of \<^verbatim>\<open>exit\<close>.
  For open files: the count of a structure is the number of its descriptors, a structure handed out is
  referred to by none, and an open that fails loses its structure for good. For strings: the functions against
  their definitions on byte lists. Where the code departs from what it means to do, a lemma states
  the departure on a concrete or general state; they are the findings of the manifest.

  \<^bold>\<open>Bounds and totality.\<close> Addresses are natural numbers below \<open>2 ^ 64\<close> with wrap-around written out
  where the code can reach it (\<open>add64\<close>, \<open>sub64\<close>, \<open>add32\<close>, \<open>sub32\<close>, \<open>int32\<close>). Loops with a bound
  recurse on it or have a \<open>termination\<close> proof; loops over linked data, strings and \<^verbatim>\<open>freewalk\<close> are
  \<open>partial_function\<close>s in the option type, and the theorems about them state that they return. No
  definition uses fuel. Mapping a range asks for two free pages for every page of the range, enough for
  the two levels of tables a walk may add.

  \<^bold>\<open>Not modelled, and the plan.\<close> LoongArch variants; the boot mappings \<^verbatim>\<open>vmem_init\<close> and \<^verbatim>\<open>uvminit\<close>;
  \<^verbatim>\<open>list_sort\<close> and \<^verbatim>\<open>list_unique\<close>; printers. Of \<^verbatim>\<open>vma.c\<close>, \<^verbatim>\<open>mmap\<close>, which reads files
  through the ext4 layer, and \<^verbatim>\<open>sync_shared_memory\<close>, which consists of memory fences. Of \<^verbatim>\<open>file.c\<close>, reading and writing,
  which are calls of the ext4 layer, and of \<^verbatim>\<open>sys_openat\<close> the resolution of paths, whose results are arguments. The ext4 code is the vendored lwext4 library; \<^verbatim>\<open>syscall.c\<close> is argument handling over the
  other parts; drivers and traps are hardware access; the \<^verbatim>\<open>*_init_code.h\<close> files are generated images.
\<close>

end
